(* ===== verification/Prelude.thy ===== *)
theory Prelude
  imports Main "HOL-Library.Word" "HOL-Library.Code_Target_Numeral"
begin

unbundle bit_operations_syntax

text \<open>
  Shared vocabulary of the development: the machine types of the C code (LP64: \<open>long\<close> and
  \<open>size_t\<close> have 64 bits, \<open>int\<close> has 32), the result type of the C functions that return a
  pointer or \<open>NULL\<close>, C's integer conversions, and the generic facts on byte lists and words that the
  components share.
\<close>

section \<open>Machine types\<close>

type_synonym u_char = "8 word"
type_synonym u_int = "32 word"
type_synonym u_long = "64 word"
type_synonym bytes = "u_char list"

text \<open>
  The result of a C function that walks a buffer. \<open>Overrun\<close> is a read past the bytes that
  the buffer really holds (undefined behaviour in C), \<open>Null\<close> is the function's own error
  return, \<open>Ret x\<close> the normal one. A pointer into a buffer is the list of the bytes from that
  pointer to the end of the buffer.
\<close>

datatype 'a cres = Overrun | Null | Ret 'a

fun cbind :: "'a cres \<Rightarrow> ('a \<Rightarrow> 'b cres) \<Rightarrow> 'b cres" where
  "cbind Overrun f = Overrun"
| "cbind Null f = Null"
| "cbind (Ret x) f = f x"

definition deref :: "bytes \<Rightarrow> u_char cres" where
  "deref p = (case p of [] \<Rightarrow> Overrun | b # _ \<Rightarrow> Ret b)"

lemma deref_simps [simp]:
  "deref [] = Overrun"
  "deref (b # bs) = Ret b"
  by (simp_all add: deref_def)

lemma cbind_eq_Ret: "cbind r f = Ret y \<longleftrightarrow> (\<exists>x. r = Ret x \<and> f x = Ret y)"
  by (cases r) auto

lemma cbind_eq_Overrun:
  "cbind r f = Overrun \<longleftrightarrow> r = Overrun \<or> (\<exists>x. r = Ret x \<and> f x = Overrun)"
  by (cases r) auto

section \<open>C conversions and size arithmetic\<close>

text \<open>
  Sizes are natural numbers with the wrap-around of \<open>size_t\<close> written out.
  \<open>c_int n\<close> is the cast \<open>(int) n\<close> of an unsigned 64-bit value, \<open>size_sub n k\<close> the statement
  \<open>n -= k\<close> on a \<open>size_t\<close>, where \<open>k\<close> may be a negative \<open>long\<close>.
\<close>

definition c_int :: "nat \<Rightarrow> int" where
  "c_int n = sint (word_of_nat n :: u_int)"

definition size_sub :: "nat \<Rightarrow> int \<Rightarrow> nat" where
  "size_sub n k = nat ((int n - k) mod 2 ^ 64)"

definition size_add :: "nat \<Rightarrow> nat \<Rightarrow> nat" where
  "size_add a b = (a + b) mod 2 ^ 64"

lemma c_int_small [simp]:
  assumes "n < 2 ^ 31"
  shows "c_int n = int n"
proof -
  have "uint (word_of_nat n :: u_int) = int n"
    using assms by (simp add: uint_word_of_int unsigned_of_nat take_bit_nat_eq_self)
  moreover have "signed_take_bit 31 (int n) = int n"
    using assms by (simp add: signed_take_bit_int_eq_self_iff)
  ultimately show ?thesis
    unfolding c_int_def by (simp add: sint_uint)
qed

lemma size_sub_nat [simp]:
  assumes "k \<le> n" "n < 2 ^ 64"
  shows "size_sub n (int k) = n - k"
proof -
  have "int n - int k = int (n - k)" using assms(1) by (rule of_nat_diff [symmetric])
  then have "size_sub n (int k) = (n - k) mod 2 ^ 64"
    unfolding size_sub_def by (metis nat_int of_nat_numeral of_nat_power zmod_int)
  also have "\<dots> = n - k" using assms(2) by (intro mod_less) linarith
  finally show ?thesis .
qed

lemma size_sub_add_nat [simp]:
  assumes "k + l \<le> n" "n < 2 ^ 64"
  shows "size_sub n (int k + int l) = n - (k + l)"
  using size_sub_nat [OF assms] by simp

lemma size_sub_add_numeral [simp]:
  assumes "numeral k + l \<le> n" "n < 2 ^ 64"
  shows "size_sub n (numeral k + int l) = n - (numeral k + l)"
  using size_sub_nat [OF assms] by simp

lemma size_add_small [simp]: "a + b < 2 ^ 64 \<Longrightarrow> size_add a b = a + b"
  by (simp add: size_add_def)

lemma size_add_half: "a < 2 ^ 63 \<Longrightarrow> b \<le> 256 \<Longrightarrow> size_add a b = a + b"
  by (rule size_add_small) simp

section \<open>Reading word operations as natural numbers\<close>

named_theorems word_nat "unsigned readings of the bitwise word operations"

lemma unat_push_bit:
  assumes "unat x * 2 ^ n < 2 ^ LENGTH('a)"
  shows "unat (push_bit n (x :: 'a::len word)) = unat x * 2 ^ n"
proof -
  have "unat (push_bit n x) = take_bit LENGTH('a) (push_bit n (unat x))" by (rule unsigned_push_bit_eq)
  then show ?thesis using assms by (simp only: push_bit_eq_mult [of n "unat x"] take_bit_nat_eq_self)
qed

lemma unat_drop_bit: "unat (drop_bit n (x :: 'a::len word)) = unat x div 2 ^ n"
  by (simp only: unat_drop_bit_eq drop_bit_eq_div [of n "unat x"])

lemma unat_and_mask: "unat (x AND mask n) = unat (x :: 'a::len word) mod 2 ^ n"
  by (simp only: take_bit_eq_mask [symmetric] unsigned_take_bit_eq take_bit_eq_mod [of n "unat x"])

lemma take_bit_small_word:
  assumes "unat y < 2 ^ n"
  shows "take_bit n y = (y :: 'a::len word)"
proof -
  have "unat (take_bit n y) = take_bit n (unat y)" by (rule unsigned_take_bit_eq)
  also have "\<dots> = unat y" using assms by (rule take_bit_nat_eq_self)
  finally show ?thesis by (rule word_unat_eq_iff [THEN iffD2])
qed

lemma push_bit_or:
  assumes "unat y < 2 ^ n"
  shows "push_bit n x OR y = push_bit n x + (y :: 'a::len word)"
proof -
  have "\<not> (bit (push_bit n x) i \<and> bit y i)" for i
    by (metis take_bit_small_word [OF assms] bit_take_bit_iff bit_push_bit_iff not_less)
  then have "push_bit n x AND y = 0"
    by (auto intro!: bit_eqI simp only: bit_and_iff bit_0_eq bot_fun_def bot_bool_def)
  then show ?thesis by (simp only: disjunctive_add_eq_or)
qed

lemma unat_push_or:
  assumes "unat y < 2 ^ n" "unat x * 2 ^ n + unat y < 2 ^ LENGTH('a)"
  shows "unat (push_bit n x OR (y :: 'a::len word)) = unat x * 2 ^ n + unat y"
proof -
  have "unat (push_bit n x) = unat x * 2 ^ n" using assms(2) by (intro unat_push_bit) linarith
  then show ?thesis
    using assms(2) by (simp only: push_bit_or [OF assms(1)] unat_word_ariths mod_less)
qed

lemma unat_ucast_mod: "unat (ucast (x :: 'a::len word) :: 'b::len word) = unat x mod 2 ^ LENGTH('b)"
  by (simp only: unsigned_ucast_eq take_bit_eq_mod [of "LENGTH('b)" "unat x"])

lemma unat_ucast_fits:
  "unat x < 2 ^ LENGTH('b) \<Longrightarrow> unat (ucast (x :: 'a::len word) :: 'b::len word) = unat x"
  by (simp only: unat_ucast_mod mod_less)

lemmas [word_nat] = unat_ucast_mod unat_drop_bit unat_and_mask unat_div unat_mod

section \<open>Byte strings as numbers\<close>

text \<open>The value of a byte string, most significant byte first and least significant byte first.\<close>

fun be_val :: "bytes \<Rightarrow> nat" where
  "be_val [] = 0"
| "be_val (b # bs) = unat b * 256 ^ length bs + be_val bs"

fun le_val :: "bytes \<Rightarrow> nat" where
  "le_val [] = 0"
| "le_val (b # bs) = unat b + 256 * le_val bs"

lemma be_val_append: "be_val (xs @ ys) = be_val xs * 256 ^ length ys + be_val ys"
  by (induction xs) (auto simp: algebra_simps power_add)

lemma le_val_append: "le_val (xs @ ys) = le_val xs + 256 ^ length xs * le_val ys"
  by (induction xs) (auto simp: algebra_simps)

lemma le_val_rev: "le_val (rev xs) = be_val xs"
  by (induction xs) (auto simp: le_val_append)

lemma unat_byte [simp]: "unat (b :: u_char) < 256"
  using unsigned_less [of b, where ?'a = nat] by simp

lemma unat_byte_less: "256 \<le> m \<Longrightarrow> unat (b :: u_char) < m"
  using unat_byte [of b] by (rule less_le_trans)

lemma unat_ucast_byte [simp]: "unat (ucast (b :: u_char) :: u_long) = unat b" "unat (ucast b :: u_int) = unat b"
  by (rule unat_ucast_fits, rule unat_byte_less, simp)+

lemma and_80: "(b AND 0x80 = 0) \<longleftrightarrow> unat (b :: u_char) < 128"
proof -
  have "(b AND 2 ^ 7 = 0) \<longleftrightarrow> \<not> bit b 7" by (rule and_exp_eq_0_iff_not_bit)
  also have "bit b 7 \<longleftrightarrow> bit (unat b) 7" by (simp add: bit_unsigned_iff)
  also have "\<dots> \<longleftrightarrow> odd (unat b div 128)" by (simp add: bit_iff_odd)
  also have "\<dots> \<longleftrightarrow> \<not> unat b < 128"
  proof (cases "unat b < 128")
    case False
    then have "unat b div 128 = 1" using unat_byte [of b] by (intro div_nat_eqI) simp_all
    then show ?thesis using False by simp
  qed simp
  finally show ?thesis by simp
qed

lemma and_not_80: "unat (b AND NOT 0x80 :: u_char) = unat b mod 128"
proof -
  have "NOT 0x80 = (mask 7 :: u_char)" by (simp add: mask_eq_exp_minus_1)
  then have "unat (b AND NOT 0x80) = unat (b AND mask 7)" by (simp only:)
  also have "\<dots> = unat b mod 2 ^ 7" by (rule unat_and_mask)
  finally show ?thesis by simp
qed

lemma unat_word_of_nat: "unat (word_of_nat n :: 'a::len word) = n mod 2 ^ LENGTH('a)"
  by (simp only: unsigned_of_nat take_bit_eq_mod [of "LENGTH('a)" n] of_nat_id)

lemma be_val_less: "be_val bs < 256 ^ length bs"
proof (induction bs)
  case Nil
  show ?case by simp
next
  case (Cons b bs)
  have "unat b * 256 ^ length bs + be_val bs < (unat b + 1) * 256 ^ length bs"
    using Cons by simp
  also have "\<dots> \<le> 256 * 256 ^ length bs"
    using unat_byte [of b] by (intro mult_le_mono1) linarith
  finally show ?case by simp
qed

section \<open>Keyed stores\<close>

text \<open>
  The contract of the tables that are looked up by a key which is part of the value: reading after writing. A
  client that writes several values reads the last one written under a key.
\<close>

locale keyed_store =
  fixes ok :: "'s \<Rightarrow> bool"
    and valid :: "'v \<Rightarrow> bool"
    and key :: "'v \<Rightarrow> 'k"
    and get :: "'s \<Rightarrow> 'k \<Rightarrow> 'v option"
    and put :: "'v \<Rightarrow> 's \<Rightarrow> 's"
  assumes put_ok: "ok s \<Longrightarrow> valid v \<Longrightarrow> ok (put v s)"
    and get_put: "ok s \<Longrightarrow> valid v \<Longrightarrow> get (put v s) k = (if k = key v then Some v else get s k)"
begin

lemma puts_ok: "ok s \<Longrightarrow> \<forall>v \<in> set vs. valid v \<Longrightarrow> ok (fold put vs s)"
  by (induction vs arbitrary: s) (auto simp: put_ok)

lemma get_puts:
  "ok s \<Longrightarrow> \<forall>v \<in> set vs. valid v \<Longrightarrow>
   get (fold put vs s) k = (case find (\<lambda>v. key v = k) (rev vs) of None \<Rightarrow> get s k | Some v \<Rightarrow> Some v)"
proof (induction vs rule: rev_induct)
  case (snoc v vs)
  then show ?case using puts_ok [of s vs] by (auto simp: get_put)
qed simp

end

end
