(* ===== verification/Oids.thy ===== *)
theory Oids
  imports Prelude "HOL-Library.List_Lexorder" "HOL-Library.Sublist"
begin

text \<open>
  The comparisons of object identifiers of \<^verbatim>\<open>snmplib/snmp_api.c\<close>. An OID argument (pointer and length)
  is the list of its sub-identifiers; no OID reaches \<open>2 ^ 31\<close> of them, so the \<open>int\<close> counters do not
  wrap. The order the functions decide is the lexicographic one of \<^theory_text>\<open>List_Lexorder\<close>, and the laws of such a
  comparison are the locale \<open>oid_order\<close>, which the sorted tables of the agent use.
\<close>

type_synonym oid = "u_long list"

section \<open>The comparisons\<close>

text \<open>
  The loop \<open>while (len-- > 0)\<close>: \<open>None\<close> when it runs to its end, otherwise the result and the number of
  equal elements passed.
\<close>

fun oid_cmp_loop :: "nat \<Rightarrow> oid \<Rightarrow> oid \<Rightarrow> int option" where
  "oid_cmp_loop 0 name1 name2 = None"
| "oid_cmp_loop (Suc len) name1 name2 =
     (if hd name1 \<noteq> hd name2 then (if hd name1 < hd name2 then Some (-1) else Some 1)
      else oid_cmp_loop len (tl name1) (tl name2))"

definition snmp_oid_compare :: "oid \<Rightarrow> oid \<Rightarrow> int" where
  "snmp_oid_compare name1 name2 =
     (let len1 = length name1; len2 = length name2; len = (if len1 < len2 then len1 else len2) in
      case oid_cmp_loop len name1 name2 of
        Some r \<Rightarrow> r
      | None \<Rightarrow> if len1 < len2 then -1 else if len2 < len1 then 1 else 0)"

definition snmp_oid_ncompare :: "oid \<Rightarrow> oid \<Rightarrow> nat \<Rightarrow> int" where
  "snmp_oid_ncompare name1 name2 max_len =
     (let len1 = length name1; len2 = length name2;
          min_len = (if len1 < len2 then len1 else len2);
          min_len = (if min_len > max_len then max_len else min_len) in
      case oid_cmp_loop min_len name1 name2 of
        Some r \<Rightarrow> r
      | None \<Rightarrow> if min_len \<noteq> max_len then (if len1 < len2 then -1 else if len2 < len1 then 1 else 0) else 0)"

text \<open>
  The variant that also reports an offset: \<open>*offpt = initlen - len\<close>, after the loop condition has
  decremented \<open>len\<close>.
\<close>

fun oid_cmp_ll_loop :: "int \<Rightarrow> nat \<Rightarrow> oid \<Rightarrow> oid \<Rightarrow> int option \<times> int" where
  "oid_cmp_ll_loop initlen 0 name1 name2 = (None, initlen - (0 - 1))"
| "oid_cmp_ll_loop initlen (Suc len) name1 name2 =
     (if hd name1 \<noteq> hd name2 then
        (if hd name1 < hd name2 then (Some (-1), initlen - int len) else (Some 1, initlen - int len))
      else oid_cmp_ll_loop initlen len (tl name1) (tl name2))"

definition netsnmp_oid_compare_ll :: "oid \<Rightarrow> oid \<Rightarrow> int \<times> int" where
  "netsnmp_oid_compare_ll name1 name2 =
     (let len1 = length name1; len2 = length name2; len = (if len1 < len2 then len1 else len2) in
      case oid_cmp_ll_loop (int len) len name1 name2 of
        (Some r, offpt) \<Rightarrow> (r, offpt)
      | (None, offpt) \<Rightarrow> (if len1 < len2 then -1 else if len2 < len1 then 1 else 0, offpt))"

definition snmp_oidtree_compare :: "oid \<Rightarrow> oid \<Rightarrow> int" where
  "snmp_oidtree_compare name1 name2 =
     (let len = (if length name1 < length name2 then length name1 else length name2)
      in snmp_oid_compare (take len name1) (take len name2))"

definition snmp_oidsubtree_compare :: "oid \<Rightarrow> oid \<Rightarrow> int" where
  "snmp_oidsubtree_compare name1 name2 =
     (let len = (if length name1 < length name2 then length name1 else length name2)
      in snmp_oid_compare name1 (take len name2))"

fun oid_equals_loop :: "nat \<Rightarrow> oid \<Rightarrow> oid \<Rightarrow> int" where
  "oid_equals_loop 0 name1 name2 = 0"
| "oid_equals_loop (Suc len) name1 name2 =
     (if hd name1 \<noteq> hd name2 then 1 else oid_equals_loop len (tl name1) (tl name2))"

definition netsnmp_oid_equals :: "oid \<Rightarrow> oid \<Rightarrow> int" where
  "netsnmp_oid_equals name1 name2 =
     (if length name1 \<noteq> length name2 then 1
      else if length name1 = 0 then 0
      else oid_equals_loop (length name1) name1 name2)"

definition netsnmp_oid_is_subtree :: "oid \<Rightarrow> oid \<Rightarrow> int" where
  "netsnmp_oid_is_subtree name1 name2 =
     (if length name1 > length name2 then 1
      else if take (length name1) name1 \<noteq> take (length name1) name2 then 1 else 0)"

fun oid_prefix_loop :: "nat \<Rightarrow> nat \<Rightarrow> oid \<Rightarrow> oid \<Rightarrow> nat" where
  "oid_prefix_loop 0 i name1 name2 = i"
| "oid_prefix_loop (Suc left) i name1 name2 =
     (if name1 ! i \<noteq> name2 ! i then i else oid_prefix_loop left (i + 1) name1 name2)"

definition netsnmp_oid_find_prefix :: "oid \<Rightarrow> oid \<Rightarrow> int" where
  "netsnmp_oid_find_prefix name1 name2 =
     (if length name1 = 0 \<or> length name2 = 0 then -1
      else if name1 ! 0 \<noteq> name2 ! 0 then 0
      else int (oid_prefix_loop (min (length name1) (length name2)) 0 name1 name2))"

section \<open>The lexicographic order\<close>

lemma snmp_oid_compare_Nil [simp]:
  "snmp_oid_compare [] [] = 0"
  "snmp_oid_compare [] (y # ys) = -1"
  "snmp_oid_compare (x # xs) [] = 1"
  by (simp_all add: snmp_oid_compare_def)

lemma snmp_oid_compare_Cons:
  "snmp_oid_compare (x # xs) (y # ys) =
     (if x \<noteq> y then (if x < y then -1 else 1) else snmp_oid_compare xs ys)"
  by (auto simp: snmp_oid_compare_def Let_def split: option.splits)

lemma snmp_oid_compare_lex:
  "snmp_oid_compare a b = (if a < b then -1 else if a = b then 0 else 1)"
proof (induction a arbitrary: b)
  case Nil
  then show ?case by (cases b) simp_all
next
  case (Cons x xs)
  then show ?case by (cases b) (auto simp: snmp_oid_compare_Cons)
qed

lemma snmp_oid_compare_0 [simp]: "snmp_oid_compare a b = 0 \<longleftrightarrow> a = b"
  by (simp add: snmp_oid_compare_lex)

lemma snmp_oid_compare_neg: "snmp_oid_compare a b < 0 \<longleftrightarrow> a < b"
  by (simp add: snmp_oid_compare_lex)

lemma snmp_oid_compare_pos: "snmp_oid_compare a b > 0 \<longleftrightarrow> b < a"
  by (auto simp: snmp_oid_compare_lex)

lemma prefix_less_eq: "prefix a b \<Longrightarrow> a \<le> (b :: 'a :: linorder list)"
proof (induction a arbitrary: b)
  case (Cons x xs)
  then show ?case by (cases b) auto
qed simp

text \<open>The contract of a three-way comparison, and what sorted tables need of it.\<close>

locale oid_order =
  fixes cmp :: "'a \<Rightarrow> 'a \<Rightarrow> int"
  assumes cmp_eq: "cmp a b = 0 \<longleftrightarrow> a = b"
    and cmp_anti: "cmp a b < 0 \<longleftrightarrow> cmp b a > 0"
    and cmp_trans: "cmp a b < 0 \<Longrightarrow> cmp b c < 0 \<Longrightarrow> cmp a c < 0"
begin

lemma cmp_refl [simp]: "cmp a a = 0"
  by (simp add: cmp_eq)

lemma cmp_cases: "cmp a b < 0 \<or> a = b \<or> cmp b a < 0"
  using cmp_eq [of a b] cmp_anti [of b a] by linarith

text \<open>A strictly sorted list: every lookup by scanning for the first key that is not smaller is exact.\<close>

definition sorted_by :: "'a list \<Rightarrow> bool" where
  "sorted_by xs \<longleftrightarrow> sorted_wrt (\<lambda>a b. cmp a b < 0) xs"

lemma sorted_by_distinct: "sorted_by xs \<Longrightarrow> distinct xs"
  unfolding sorted_by_def by (induction xs) (auto simp: cmp_eq [symmetric])

lemma dropWhile_less_hd:
  assumes "sorted_by xs"
  shows "k \<in> set xs \<longleftrightarrow> (case dropWhile (\<lambda>x. cmp x k < 0) xs of [] \<Rightarrow> False | x # _ \<Rightarrow> x = k)"
  using assms unfolding sorted_by_def
proof (induction xs)
  case (Cons x xs)
  show ?case
  proof (cases "cmp x k < 0")
    case True
    then have "x \<noteq> k" by auto
    then show ?thesis using Cons True by auto
  next
    case False
    have "k \<notin> set xs" if "x \<noteq> k"
    proof
      assume "k \<in> set xs"
      then have "cmp x k < 0" using Cons.prems by simp
      then show False using False by simp
    qed
    then show ?thesis using False by auto
  qed
qed simp

end

interpretation snmp_oid: oid_order snmp_oid_compare
  by unfold_locales (auto simp: snmp_oid_compare_lex split: if_splits)

section \<open>Prefixes\<close>

lemma oid_equals_loop_eq:
  "length a = length b \<Longrightarrow> oid_equals_loop (length a) a b = (if a = b then 0 else 1)"
  by (induction a b rule: list_induct2) (auto split: if_splits)

lemma take_prefix: "prefix a b \<longleftrightarrow> length a \<le> length b \<and> take (length a) b = a"
  by (metis append_eq_conv_conj prefix_def prefix_length_le append_take_drop_id)

lemma snmp_oidsubtree_compare_eq: "snmp_oidsubtree_compare a b = 0 \<longleftrightarrow> prefix a b"
proof (cases "length a < length b")
  case True
  then show ?thesis by (auto simp: snmp_oidsubtree_compare_def take_prefix)
next
  case False
  then show ?thesis by (auto simp: snmp_oidsubtree_compare_def take_prefix)
qed

lemma snmp_oidtree_compare_eq: "snmp_oidtree_compare a b = 0 \<longleftrightarrow> prefix a b \<or> prefix b a"
  unfolding snmp_oidtree_compare_def Let_def snmp_oid_compare_0 take_prefix
  by (auto simp: min_def)

lemma oid_cmp_loop_take: "n \<le> length a \<Longrightarrow> n \<le> length b \<Longrightarrow> oid_cmp_loop n a b = oid_cmp_loop n (take n a) (take n b)"
proof (induction n arbitrary: a b)
  case (Suc n)
  obtain x xs y ys where ab: "a = x # xs" "b = y # ys" using Suc.prems by (cases a; cases b) auto
  then have "oid_cmp_loop n xs ys = oid_cmp_loop n (take n xs) (take n ys)"
        using Suc.prems by (intro Suc.IH) simp_all
  then show ?case unfolding ab by simp
qed simp

text \<open>\<open>snmp_oid_ncompare\<close> compares the first \<open>max_len\<close> sub-identifiers.\<close>

lemma snmp_oid_ncompare_take: "snmp_oid_ncompare a b n = snmp_oid_compare (take n a) (take n b)"
proof -
  define k where "k = min (min (length a) (length b)) n"
  have loop: "oid_cmp_loop k a b = oid_cmp_loop k (take n a) (take n b)"
    using oid_cmp_loop_take [of k a b] oid_cmp_loop_take [of k "take n a" "take n b"]
    by (simp add: k_def min.commute min.left_commute)
  have k1: "(if (if length a < length b then length a else length b) > n then n
      else (if length a < length b then length a else length b)) = k" by (auto simp: k_def)
  have k2: "(if length (take n a) < length (take n b) then length (take n a) else length (take n b)) = k"
    by (auto simp: k_def)
  have k3: "(if k \<noteq> n then if length a < length b then -1 else if length b < length a then 1 else 0 else 0 :: int)
      = (if length (take n a) < length (take n b) then -1 else if length (take n b) < length (take n a) then 1 else 0)"
    by (auto simp: k_def)
  show ?thesis
    unfolding snmp_oid_ncompare_def snmp_oid_compare_def Let_def k1 k2 k3 loop ..
qed

text \<open>The length of the common prefix.\<close>

fun common_prefix :: "oid \<Rightarrow> oid \<Rightarrow> nat" where
  "common_prefix (x # xs) (y # ys) = (if x = y then Suc (common_prefix xs ys) else 0)"
| "common_prefix _ _ = 0"

lemma common_prefix_le: "common_prefix a b \<le> length a" "common_prefix a b \<le> length b"
  by (induction a b rule: common_prefix.induct) auto

lemma common_prefix_spec:
  "take (common_prefix a b) a = take (common_prefix a b) b \<and>
     (common_prefix a b < length a \<longrightarrow> common_prefix a b < length b \<longrightarrow> a ! common_prefix a b \<noteq> b ! common_prefix a b)"
  by (induction a b rule: common_prefix.induct) auto

lemma oid_prefix_loop_eq:
  "oid_prefix_loop (min (length a) (length b)) i (p @ a) (q @ b) = i + common_prefix a b"
  if "length p = i" "length q = i" for p q
  using that
proof (induction a b arbitrary: i p q rule: common_prefix.induct)
  case (1 x xs y ys)
  then show ?case using 1(1) [of "p @ [x]" "Suc i" "q @ [y]"] by (simp add: nth_append)
qed simp_all

lemma oid_cmp_ll_loop_eq:
  "length a = n \<Longrightarrow> length b = n \<Longrightarrow> oid_cmp_ll_loop l n a b = (oid_cmp_loop n a b, l - int n + int (common_prefix a b) + 1)"
proof (induction n arbitrary: a b)
  case (Suc n)
  then show ?case by (cases a; cases b) auto
qed simp

lemma common_prefix_take: "common_prefix (take k a) (take k b) = min k (common_prefix a b)"
proof (induction a b arbitrary: k rule: common_prefix.induct)
  case (1 x xs y ys)
  then show ?case by (cases k) auto
qed simp_all

lemma oid_cmp_ll_loop_take:
  "n \<le> length a \<Longrightarrow> n \<le> length b \<Longrightarrow> oid_cmp_ll_loop l n a b = oid_cmp_ll_loop l n (take n a) (take n b)"
proof (induction n arbitrary: a b)
  case (Suc n)
  obtain x xs y ys where ab: "a = x # xs" "b = y # ys" using Suc.prems by (cases a; cases b) auto
  then have "oid_cmp_ll_loop l n xs ys = oid_cmp_ll_loop l n (take n xs) (take n ys)"
    using Suc.prems by (intro Suc.IH) simp_all
  then show ?case unfolding ab by simp
qed simp

lemma oid_compare_ll_prefix: "netsnmp_oid_compare_ll a b = (snmp_oid_compare a b, int (common_prefix a b) + 1)"
proof -
  let ?m = "min (length a) (length b)"
  have "oid_cmp_ll_loop (int ?m) ?m a b = (oid_cmp_loop ?m a b, int (common_prefix a b) + 1)"
    using oid_cmp_ll_loop_take [of ?m a b "int ?m"] oid_cmp_ll_loop_eq [of "take ?m a" ?m "take ?m b" "int ?m"]
      common_prefix_take [of ?m a b] oid_cmp_loop_take [of ?m a b] common_prefix_le [of a b] by simp
  moreover have "(if length a < length b then length a else length b) = ?m" by simp
  ultimately show ?thesis
    unfolding netsnmp_oid_compare_ll_def snmp_oid_compare_def Let_def
    by (simp only:) (cases "oid_cmp_loop ?m a b", simp_all)
qed

section \<open>Properties\<close>

text \<open>
  The OID comparisons decide the lexicographic order: \<open>snmp_oid_compare\<close> is the sign of the comparison
  of the two OIDs as lists, \<open>snmp_oid_ncompare\<close> that of their first \<open>max_len\<close> sub-identifiers, and
  \<open>netsnmp_oid_equals\<close> is 0 exactly for equal OIDs; so the first is a total order.
\<close>

theorem oid_comparison_order:
  "snmp_oid_compare a b = (if a < b then -1 else if a = b then 0 else 1)
    \<and> snmp_oid_ncompare a b n = snmp_oid_compare (take n a) (take n b)
    \<and> netsnmp_oid_equals a b = (if a = b then 0 else 1)
    \<and> (snmp_oid_compare a b < 0 \<or> a = b \<or> snmp_oid_compare b a < 0)"
  using snmp_oid_compare_lex [of a b] snmp_oid_ncompare_take [of a b n] oid_equals_loop_eq [of a b] snmp_oid.cmp_cases [of a b]
  by (auto simp: netsnmp_oid_equals_def)

text \<open>
  The subtree tests decide the prefix relation: \<open>netsnmp_oid_is_subtree\<close> and
  \<open>snmp_oidsubtree_compare\<close> are 0 exactly when the first OID is a prefix of the second,
  \<open>snmp_oidtree_compare\<close> when one of the two is a prefix of the other.
\<close>

theorem oid_subtree_prefix:
  "(netsnmp_oid_is_subtree a b = 0 \<longleftrightarrow> prefix a b)
    \<and> (snmp_oidsubtree_compare a b = 0 \<longleftrightarrow> prefix a b)
    \<and> (snmp_oidtree_compare a b = 0 \<longleftrightarrow> prefix a b \<or> prefix b a)"
  using snmp_oidsubtree_compare_eq [of a b] snmp_oidtree_compare_eq [of a b] take_prefix [of a b]
  by (auto simp: netsnmp_oid_is_subtree_def)

text \<open>
  The longest common prefix: \<open>netsnmp_oid_find_prefix\<close> of two non-empty OIDs is its length, and the
  offset that \<open>netsnmp_oid_compare_ll\<close> reports is that length plus one, whether or not the OIDs differ
  there; its comparison result is that of \<open>snmp_oid_compare\<close>.
\<close>

theorem oid_common_prefix:
  assumes "a \<noteq> []" "b \<noteq> []"
  shows "(\<exists>n. netsnmp_oid_find_prefix a b = int n \<and> n \<le> length a \<and> n \<le> length b \<and> take n a = take n b
      \<and> (n < length a \<longrightarrow> n < length b \<longrightarrow> a ! n \<noteq> b ! n)
      \<and> netsnmp_oid_compare_ll a b = (snmp_oid_compare a b, int n + 1))"
proof (intro exI conjI)
  let ?n = "common_prefix a b" and ?m = "min (length a) (length b)"
  have loop: "oid_prefix_loop ?m 0 a b = ?n" using oid_prefix_loop_eq [of "[]" 0 "[]" a b] by simp
  have "a ! 0 \<noteq> b ! 0 \<Longrightarrow> ?n = 0" using assms by (cases a; cases b) auto
  then show "netsnmp_oid_find_prefix a b = int ?n" using loop assms by (auto simp: netsnmp_oid_find_prefix_def)
  show "?n \<le> length a" "?n \<le> length b" by (rule common_prefix_le)+
  show "take ?n a = take ?n b" using common_prefix_spec by blast
  show "?n < length a \<longrightarrow> ?n < length b \<longrightarrow> a ! ?n \<noteq> b ! ?n" using common_prefix_spec by blast
  show "netsnmp_oid_compare_ll a b = (snmp_oid_compare a b, int ?n + 1)" by (rule oid_compare_ll_prefix)
qed

theorem oid_common_prefix_witness:
  "\<exists>n. netsnmp_oid_find_prefix [1, 3, 6] [1, 3, 5] = int n \<and> netsnmp_oid_compare_ll [1, 3, 6] [1, 3, 5] = (1, int n + 1)"
proof -
  have "[1, 3, 6 :: u_long] \<noteq> []" "[1, 3, 5 :: u_long] \<noteq> []" by simp_all
  from oid_common_prefix [OF this] show ?thesis by (auto simp: snmp_oid_compare_lex)
qed

end
