(* ===== verification/Registry.thy ===== *)
theory Registry
  imports Oids
begin

text \<open>
  The registry of subtrees of the agent (\<^verbatim>\<open>agent/agent_registry.c\<close>): which registration answers for an OID. The
  registry of a context is a doubly linked list of ranges of OIDs; the registrations that cover a range hang from it in
  the chain \<open>children\<close>, the one that answers first. Here the list is a list of such chains (columns), a pointer to a
  subtree is its position, and \<open>prev\<close> and \<open>next\<close> are the neighbouring columns. One context is modelled, and
  allocations succeed. Where the code leaves the list in a state that is not such a list (a subtree that no walk from
  the first subtree reaches, or one that is freed while it is linked), the outcome is \<open>Lost\<close> and the model stops.
\<close>

section \<open>Subtrees\<close>

text \<open>The type and the name (without the prefix of the registration) of an entry of the variables of the old interface.\<close>

record agent_variable =
  av_type :: u_char
  av_name :: oid

text \<open>
  A \<open>netsnmp_subtree\<close>. An OID and its length are one list. \<open>st_reginfo\<close> says whose handler registration it is (that
  of the null handler, or one that a module made), which \<open>netsnmp_subtree_deepcopy\<close> duplicates; \<open>st_rootoid\<close> is its
  \<open>rootoid\<close>. The session and the label, which nothing here depends on, are left out.
\<close>

datatype handler_registration = Null_handler | Module_handler nat

record netsnmp_subtree =
  st_name_a :: oid
  st_start_a :: oid
  st_end_a :: oid
  st_variables :: "agent_variable list"
  st_flags :: u_char
  st_priority :: u_char
  st_timeout :: int
  st_range_subid :: int
  st_range_ubound :: u_long
  st_reginfo :: handler_registration
  st_rootoid :: oid
  st_oid_off :: int

type_synonym columns = "netsnmp_subtree list list"

definition MIB_REGISTERED_OK :: int where "MIB_REGISTERED_OK = 0"
definition MIB_DUPLICATE_REGISTRATION :: int where "MIB_DUPLICATE_REGISTRATION = -1"
definition MIB_REGISTRATION_FAILED :: int where "MIB_REGISTRATION_FAILED = -2"
definition MIB_UNREGISTERED_OK :: int where "MIB_UNREGISTERED_OK = 0"
definition MIB_NO_SUCH_REGISTRATION :: int where "MIB_NO_SUCH_REGISTRATION = -1"
definition SUBTREE_ATTACHED :: u_char where "SUBTREE_ATTACHED = 0x02"
definition ASN_PRIV_DELEGATED :: u_char where "ASN_PRIV_DELEGATED = 0xC5"

lemmas registry_consts = MIB_REGISTERED_OK_def MIB_DUPLICATE_REGISTRATION_def MIB_REGISTRATION_FAILED_def
  MIB_UNREGISTERED_OK_def MIB_NO_SUCH_REGISTRATION_def SUBTREE_ATTACHED_def ASN_PRIV_DELEGATED_def

section \<open>The registry and its lookup cache\<close>

text \<open>
  An entry of the cache has pointers to a column and to the one before it; the cache of a context is made when it is
  first looked at and the context has a subtree. \<open>rg_cache_size\<close> is the global \<open>lookup_cache_size\<close>.
\<close>

record lookup_cache =
  lc_next :: nat
  lc_previous :: nat

record lookup_cache_context =
  thecachecount :: int
  currentpos :: nat
  lc_cache :: "lookup_cache list"

text \<open>The parameters of the callbacks that tell other modules (AgentX) of a registration.\<close>

record register_parameters =
  rp_name :: oid
  rp_priority :: int
  rp_range_subid :: int
  rp_range_ubound :: u_long
  rp_timeout :: int
  rp_flags :: int
  rp_reginfo :: handler_registration

datatype registry_callback = REGISTER_OID register_parameters | UNREGISTER_OID oid int int u_long

record registry =
  rg_first :: columns
  rg_cache :: "lookup_cache_context option"
  rg_cache_size :: int
  rg_callbacks :: "registry_callback list"

definition SUBTREE_DEFAULT_CACHE_SIZE :: int where "SUBTREE_DEFAULT_CACHE_SIZE = 8"
definition SUBTREE_MAX_CACHE_SIZE :: int where "SUBTREE_MAX_CACHE_SIZE = 32"

definition netsnmp_set_lookup_cache_size :: "int \<Rightarrow> registry \<Rightarrow> registry" where
  "netsnmp_set_lookup_cache_size newsize rg =
     rg\<lparr>rg_cache_size := if newsize < 0 then SUBTREE_DEFAULT_CACHE_SIZE
       else if newsize < SUBTREE_MAX_CACHE_SIZE then newsize else SUBTREE_MAX_CACHE_SIZE\<rparr>"

definition new_cache :: lookup_cache_context where
  "new_cache = \<lparr>thecachecount = 0, currentpos = 0, lc_cache = replicate 32 \<lparr>lc_next = 0, lc_previous = 0\<rparr>\<rparr>"

definition get_context_lookup_cache :: "registry \<Rightarrow> lookup_cache_context option" where
  "get_context_lookup_cache rg =
     (case rg_cache rg of Some ptr \<Rightarrow> Some ptr | None \<Rightarrow> if rg_first rg \<noteq> [] then Some new_cache else None)"

definition lookup_cache_add :: "nat \<Rightarrow> nat \<Rightarrow> registry \<Rightarrow> registry" where
  "lookup_cache_add next previous rg =
     (case get_context_lookup_cache rg of
        None \<Rightarrow> rg
      | Some cptr \<Rightarrow>
          let count = (if thecachecount cptr < rg_cache_size rg then thecachecount cptr + 1 else thecachecount cptr);
              cache = (lc_cache cptr)[currentpos cptr := \<lparr>lc_next = next, lc_previous = previous\<rparr>];
              pos = currentpos cptr + 1;
              pos = (if int pos \<ge> rg_cache_size rg then 0 else pos)
          in rg\<lparr>rg_cache := Some \<lparr>thecachecount = count, currentpos = pos, lc_cache = cache\<rparr>\<rparr>)"

definition lookup_cache_replace :: "nat \<Rightarrow> nat \<Rightarrow> nat \<Rightarrow> registry \<Rightarrow> registry" where
  "lookup_cache_replace i next previous rg =
     (case rg_cache rg of
        None \<Rightarrow> rg
      | Some cptr \<Rightarrow> rg\<lparr>rg_cache := Some (cptr\<lparr>lc_cache := (lc_cache cptr)[i := \<lparr>lc_next = next, lc_previous = previous\<rparr>]\<rparr>)\<rparr>)"

text \<open>The subtree a pointer points to is the first of its column.\<close>

definition column_start :: "columns \<Rightarrow> nat \<Rightarrow> oid" where
  "column_start cols i = st_start_a (hd (cols ! i))"

fun cache_find_loop :: "columns \<Rightarrow> oid \<Rightarrow> nat \<Rightarrow> lookup_cache list \<Rightarrow> (nat \<times> int) option \<Rightarrow> (nat \<times> int) option" where
  "cache_find_loop cols name i [] ret = ret"
| "cache_find_loop cols name i (c # cs) ret =
     (let cmp = snmp_oid_compare name (column_start cols (lc_previous c)) in
      cache_find_loop cols name (i + 1) cs (if cmp \<ge> 0 then Some (i, cmp) else ret))"

text \<open>The index of the entry found with the result of the comparison, if there is one, and the cache, made if need be.\<close>

definition lookup_cache_find :: "oid \<Rightarrow> registry \<Rightarrow> (nat \<times> int) option \<times> registry" where
  "lookup_cache_find name rg =
     (case get_context_lookup_cache rg of
        None \<Rightarrow> (None, rg)
      | Some cptr \<Rightarrow>
          (cache_find_loop (rg_first rg) name 0 (take (nat (min (thecachecount cptr) (rg_cache_size rg))) (lc_cache cptr)) None,
           rg\<lparr>rg_cache := Some cptr\<rparr>))"

definition invalidate_lookup_cache :: "registry \<Rightarrow> registry" where
  "invalidate_lookup_cache rg =
     (case get_context_lookup_cache rg of
        None \<Rightarrow> rg
      | Some cptr \<Rightarrow> rg\<lparr>rg_cache := Some (cptr\<lparr>thecachecount := 0, currentpos := 0\<rparr>)\<rparr>)"

section \<open>Finding a subtree\<close>

text \<open>
  The walk of \<open>netsnmp_subtree_find_prev\<close> over the columns from position \<open>i\<close> on, with \<open>WTEST_OPTIMIZATION\<close>: a
  column whose start shares more sub-identifiers with the start of the one before than \<open>name\<close> does is passed over
  without a comparison. The result is the column to return, and the one that stopped the walk.
\<close>

fun find_prev_loop :: "oid \<Rightarrow> nat \<Rightarrow> nat option \<Rightarrow> int \<Rightarrow> columns \<Rightarrow> nat option \<times> nat option" where
  "find_prev_loop name i previous ll_off [] = (previous, None)"
| "find_prev_loop name i previous ll_off (c # cs) =
     (let myptr = hd c in
      if \<not> (ll_off \<noteq> 0 \<and> st_oid_off myptr \<noteq> 0 \<and> st_oid_off myptr > ll_off) then
        (case netsnmp_oid_compare_ll name (st_start_a myptr) of
           (cmp, ll_off) \<Rightarrow>
             if cmp < 0 then (previous, Some i) else find_prev_loop name (i + 1) (Some i) ll_off cs)
      else find_prev_loop name (i + 1) (Some i) ll_off cs)"

definition netsnmp_subtree_find_prev :: "oid \<Rightarrow> nat option \<Rightarrow> registry \<Rightarrow> nat option \<times> registry" where
  "netsnmp_subtree_find_prev name subtree rg =
     (let (lookup_cache, rg) =
            (if subtree = None \<and> rg_cache_size rg \<noteq> 0 then lookup_cache_find name rg else (None, rg));
          cols = rg_first rg;
          cmp = (case lookup_cache of None \<Rightarrow> 1 | Some (_, cmp) \<Rightarrow> cmp);
          entry = map_option (\<lambda>(k, _). lc_cache (the (rg_cache rg)) ! k) lookup_cache;
          previous = map_option lc_previous entry;
          i = (case subtree of Some s \<Rightarrow> s | None \<Rightarrow> (case entry of None \<Rightarrow> 0 | Some e \<Rightarrow> lc_next e))
      in case find_prev_loop name i previous 0 (drop i cols) of
           (previous, None) \<Rightarrow> (previous, rg)
         | (None, Some myptr) \<Rightarrow> (None, rg)
         | (Some previous, Some myptr) \<Rightarrow>
             (Some previous,
              if rg_cache_size rg \<noteq> 0 \<and> cmp \<noteq> 0
              then (case lookup_cache of
                      Some (k, _) \<Rightarrow> lookup_cache_replace k myptr previous rg
                    | None \<Rightarrow> lookup_cache_add myptr previous rg)
              else rg))"

text \<open>The first column from position \<open>i\<close> on that has variables.\<close>

fun next_with_variables :: "nat \<Rightarrow> columns \<Rightarrow> nat option" where
  "next_with_variables i [] = None"
| "next_with_variables i (c # cs) = (if st_variables (hd c) = [] then next_with_variables (i + 1) cs else Some i)"

definition netsnmp_subtree_find_next :: "oid \<Rightarrow> nat option \<Rightarrow> registry \<Rightarrow> nat option \<times> registry" where
  "netsnmp_subtree_find_next name subtree rg =
     (case netsnmp_subtree_find_prev name subtree rg of
        (Some myptr, rg) \<Rightarrow> (next_with_variables (myptr + 1) (drop (myptr + 1) (rg_first rg)), rg)
      | (None, rg) \<Rightarrow>
          (case subtree of
             Some s \<Rightarrow> if snmp_oid_compare name (column_start (rg_first rg) s) < 0 then (Some s, rg) else (None, rg)
           | None \<Rightarrow> (None, rg)))"

definition netsnmp_subtree_find :: "oid \<Rightarrow> nat option \<Rightarrow> registry \<Rightarrow> nat option \<times> registry" where
  "netsnmp_subtree_find name subtree rg =
     (case netsnmp_subtree_find_prev name subtree rg of
        (Some myptr, rg) \<Rightarrow>
          (if snmp_oid_compare name (st_end_a (hd (rg_first rg ! myptr))) < 0 then Some myptr else None, rg)
      | (None, rg) \<Rightarrow> (None, rg))"

section \<open>Linking, splitting\<close>

text \<open>
  \<open>netsnmp_subtree_change_prev\<close> for every subtree of a column, and \<open>netsnmp_subtree_change_next\<close> for every subtree
  of a column in turn, which changes the first subtree of the column after it.
\<close>

definition change_prev :: "netsnmp_subtree \<Rightarrow> netsnmp_subtree \<Rightarrow> netsnmp_subtree" where
  "change_prev theprev ptr = ptr\<lparr>st_oid_off := snd (netsnmp_oid_compare_ll (st_start_a theprev) (st_start_a ptr))\<rparr>"

definition change_prev_column :: "netsnmp_subtree list \<Rightarrow> netsnmp_subtree list \<Rightarrow> netsnmp_subtree list" where
  "change_prev_column theprev ptrs = (case theprev of [] \<Rightarrow> ptrs | p # _ \<Rightarrow> map (change_prev p) ptrs)"

definition change_next_column :: "netsnmp_subtree list \<Rightarrow> netsnmp_subtree \<Rightarrow> netsnmp_subtree" where
  "change_next_column ptrs thenext = fold (\<lambda>ptr thenext. change_prev ptr thenext) ptrs thenext"

text \<open>
  How the variables are shared between the two parts: \<open>i\<close> is the number of variables left, \<open>vp\<close> is at their first; the
  result is the number of variables of the first part and the number of those at the front that the second part drops.
  \<open>rest\<close> is \<open>name + current->namelen\<close>.
\<close>

fun split_variables :: "oid \<Rightarrow> agent_variable list \<Rightarrow> nat \<times> nat" where
  "split_variables rest [] = (0, 0)"
| "split_variables rest (vp # vps) =
     (let rc = snmp_oid_compare (av_name vp) rest;
          common_len = (if length rest > length (av_name vp) then length (av_name vp) else length rest);
          rc2 = snmp_oid_compare (take common_len (av_name vp)) (take common_len rest)
      in if rc \<ge> 0 then (0, 0)
         else (case split_variables rest vps of
                 (len, dropped) \<Rightarrow> (len + 1, if rc2 < 0 then dropped + 1 else dropped)))"

text \<open>
  One subtree, split at \<open>name\<close>. A name that is shorter than that of the registration would be read beyond its end.
\<close>

definition split_subtree :: "netsnmp_subtree \<Rightarrow> oid \<Rightarrow> (netsnmp_subtree \<times> netsnmp_subtree) cres" where
  "split_subtree current name =
     (if snmp_oid_compare name (st_end_a current) > 0 then Null
      else if st_variables current \<noteq> [] \<and> length name < length (st_name_a current) then Overrun
      else
        let vars = st_variables current;
            (len, dropped) = split_variables (drop (length (st_name_a current)) name) vars;
            first_vars = take len vars;
            new_vars = (if len > 0 \<and> av_type (hd vars) = ASN_PRIV_DELEGATED then take 1 vars else drop dropped vars)
        in Ret (current\<lparr>st_end_a := name, st_variables := first_vars\<rparr>,
                current\<lparr>st_start_a := name, st_variables := new_vars\<rparr>))"

fun netsnmp_subtree_split :: "netsnmp_subtree list \<Rightarrow> oid \<Rightarrow> (netsnmp_subtree list \<times> netsnmp_subtree list) cres" where
  "netsnmp_subtree_split [] name = Null"
| "netsnmp_subtree_split (current # children) name =
     (case split_subtree current name of
        Ret (current, new_sub) \<Rightarrow>
          (case netsnmp_subtree_split children name of
             Overrun \<Rightarrow> Overrun
           | Null \<Rightarrow> Ret (current # children, change_prev_column [current] [new_sub])
           | Ret (children, new_children) \<Rightarrow>
               Ret (current # children, change_prev_column [current] (new_sub # new_children)))
      | Null \<Rightarrow> Null
      | Overrun \<Rightarrow> Overrun)"

text \<open>The column at position \<open>i\<close> is split, and the one after it linked to the second part.\<close>

definition split_column :: "columns \<Rightarrow> nat \<Rightarrow> oid \<Rightarrow> columns cres" where
  "split_column cols i name =
     cbind (netsnmp_subtree_split (cols ! i) name) (\<lambda>(current, new_sub).
       Ret (take i cols @ [current, new_sub] @
            (case drop (i + 1) cols of [] \<Rightarrow> [] | next # rest \<Rightarrow> change_prev_column new_sub next # rest)))"

section \<open>Loading\<close>

text \<open>
  The outcome of loading: the new list, or an error and the list as it is then. In \<open>Lost\<close> the list is no longer what
  the model describes, see below.
\<close>

datatype loaded = Loaded columns | Refused int columns | Lost

text \<open>
  Where a subtree goes in a column: after those with a longer name, and those with a name of the same length and a
  smaller priority; \<open>None\<close> if one has the same length and the same priority.
\<close>

definition chain_position :: "netsnmp_subtree \<Rightarrow> netsnmp_subtree list \<Rightarrow> (netsnmp_subtree list \<times> netsnmp_subtree list) option" where
  "chain_position new_sub tree1 =
     (let n = length (st_name_a new_sub);
          longer = takeWhile (\<lambda>next. length (st_name_a next) > n) tree1;
          next = dropWhile (\<lambda>next. length (st_name_a next) > n) tree1;
          smaller = (\<lambda>next. length (st_name_a next) = n \<and> st_priority next < st_priority new_sub);
          prev = longer @ takeWhile smaller next;
          next = dropWhile smaller next
      in if next \<noteq> [] \<and> length (st_name_a (hd next)) = n \<and> st_priority (hd next) = st_priority new_sub then None
         else Some (prev, next))"

text \<open>
  The case that the new subtree and the column at position \<open>i\<close> match precisely. A new first subtree of the first
  column is not made the first subtree of the context, so that it is \<open>Lost\<close>.
\<close>

definition load_matching :: "columns \<Rightarrow> nat \<Rightarrow> netsnmp_subtree \<Rightarrow> loaded" where
  "load_matching cols i new_sub =
     (case chain_position new_sub (cols ! i) of
        None \<Rightarrow> Refused MIB_DUPLICATE_REGISTRATION cols
      | Some (prev, next) \<Rightarrow>
          (let preceding = (if i = 0 then [] else cols ! (i - 1));
               new_sub = hd (change_prev_column preceding [new_sub])
           in if prev \<noteq> [] then Loaded (cols[i := prev @ new_sub # next])
              else if i = 0 then Lost
              else
                let new_sub = change_next_column preceding new_sub;
                    after = (case drop (i + 1) cols of [] \<Rightarrow> [] | c # cs \<Rightarrow> change_prev_column [new_sub] c # cs)
                in Loaded (take i cols @ [new_sub # next] @ after)))"

text \<open>
  Loading is called with the lookup cache switched off, so that the cache plays no part. \<open>copy\<close> says that \<open>new_sub\<close> is
  a copy of a subtree in the list, made by \<open>netsnmp_subtree_deepcopy\<close>: its pointers \<open>next\<close> and \<open>children\<close> are those
  of the original, and splitting it changes the subtrees they point to, which is \<open>Lost\<close>. So is a subtree that starts
  in a gap before others (they are not linked to it, or it is not linked to them), and one whose second part is
  refused (the caller frees the first part, which is linked).
\<close>

definition uncached :: "columns \<Rightarrow> registry" where
  "uncached cols = \<lparr>rg_first = cols, rg_cache = None, rg_cache_size = 0, rg_callbacks = []\<rparr>"

definition load_virgin :: "columns \<Rightarrow> netsnmp_subtree \<Rightarrow> loaded" where
  "load_virgin cols new_sub =
     (case fst (netsnmp_subtree_find_prev (st_start_a new_sub) None (uncached cols)) of
        None \<Rightarrow> if cols = [] then Loaded [[new_sub]] else Lost
      | Some i \<Rightarrow>
          if i + 1 = length cols then Loaded (cols @ [[change_next_column [hd (cols ! i)] new_sub]]) else Lost)"

partial_function (option) load_subtree :: "bool \<Rightarrow> columns \<Rightarrow> netsnmp_subtree \<Rightarrow> loaded option" where
  "load_subtree copy cols new_sub =
     (case fst (netsnmp_subtree_find (st_start_a new_sub) None (uncached cols)) of
        None \<Rightarrow> Some (load_virgin cols new_sub)
      | Some i \<Rightarrow>
          (let inside = (netsnmp_oid_equals (st_start_a new_sub) (column_start cols i) \<noteq> 0);
               i' = (if inside then i + 1 else i)
           in case (if inside then split_column cols i (st_start_a new_sub) else Ret cols) of
                Overrun \<Rightarrow> Some Lost
              | Null \<Rightarrow> Some (Refused MIB_REGISTRATION_FAILED cols)
              | Ret cols \<Rightarrow>
                  (let end1 = st_end_a (hd (cols ! i')); c = snmp_oid_compare (st_end_a new_sub) end1 in
                   if c = -1 then
                     (case split_column cols i' (st_end_a new_sub) of
                        Overrun \<Rightarrow> Some Lost
                      | Null \<Rightarrow> Some (load_matching cols i' new_sub)
                      | Ret cols \<Rightarrow> Some (load_matching cols i' new_sub))
                   else if c = 0 then Some (load_matching cols i' new_sub)
                   else if copy then Some Lost
                   else
                     (case netsnmp_subtree_split [new_sub] end1 of
                        Overrun \<Rightarrow> Some Lost
                      | Null \<Rightarrow> Some Lost
                      | Ret (new_subs, new2s) \<Rightarrow>
                          Option.bind (load_subtree copy cols (hd new_subs)) (\<lambda>r.
                            case r of
                              Loaded cols \<Rightarrow>
                                Option.bind (load_subtree copy cols (hd new2s)) (\<lambda>r2.
                                  Some (case r2 of Refused res cols \<Rightarrow> Lost | _ \<Rightarrow> r2))
                            | _ \<Rightarrow> Some r)))))"

declare load_subtree.simps [code]

section \<open>Registering\<close>

text \<open>
  The result of an operation on the registry: its return code and the registry, or \<open>Damaged\<close> when the list is \<open>Lost\<close>.
  \<open>None\<close> is an operation that does not return.
\<close>

datatype registered = Done int registry | Damaged

text \<open>\<open>netsnmp_subtree_load\<close> while \<open>inloop\<close> is set, or when the context has a subtree.\<close>

definition load_inloop :: "bool \<Rightarrow> netsnmp_subtree \<Rightarrow> registry \<Rightarrow> registered option" where
  "load_inloop copy new_sub rg =
     map_option (\<lambda>r. case r of
         Loaded cols \<Rightarrow> Done MIB_REGISTERED_OK (rg\<lparr>rg_first := cols\<rparr>)
       | Refused res cols \<Rightarrow> Done res (rg\<lparr>rg_first := cols\<rparr>)
       | Lost \<Rightarrow> Damaged)
     (load_subtree copy (rg_first rg) new_sub)"

text \<open>
  The subtree made for a registration (\<open>mibloc\<close> is not empty): the lengths are truncated to \<open>u_char\<close>, and the range ends
  where the last sub-identifier is one more.
\<close>

definition new_subtree :: "agent_variable list \<Rightarrow> register_parameters \<Rightarrow> netsnmp_subtree" where
  "new_subtree var parms =
     (let mibloc = rp_name parms; mibloclen = length mibloc; n = unat (word_of_nat mibloclen :: u_char)
      in \<lparr>st_name_a = take n mibloc, st_start_a = take n mibloc,
          st_end_a = take n (mibloc[mibloclen - 1 := mibloc ! (mibloclen - 1) + 1]), st_variables = var,
          st_flags = word_of_int (rp_flags parms) OR SUBTREE_ATTACHED, st_priority = word_of_int (rp_priority parms),
          st_timeout = rp_timeout parms, st_range_subid = rp_range_subid parms, st_range_ubound = rp_range_ubound parms,
          st_reginfo = rp_reginfo parms, st_rootoid = mibloc, st_oid_off = 0\<rparr>)"

text \<open>The subtree that was registered, in the list: the first part of it is the one at its start.\<close>

definition is_part_at_start :: "netsnmp_subtree \<Rightarrow> netsnmp_subtree \<Rightarrow> bool" where
  "is_part_at_start new_sub s \<longleftrightarrow> st_name_a s = st_name_a new_sub \<and> st_priority s = st_priority new_sub
     \<and> st_start_a s = st_start_a new_sub"

definition range_copy :: "nat \<Rightarrow> nat \<Rightarrow> int \<Rightarrow> netsnmp_subtree \<Rightarrow> netsnmp_subtree" where
  "range_copy mibloclen k i sub =
     (let i = word_of_int i; e = (st_end_a sub)[k := i];
          e = (if k + 1 = mibloclen then e[k := e ! k + 1] else e)
      in sub\<lparr>st_name_a := (st_name_a sub)[k := i], st_start_a := (st_start_a sub)[k := i], st_end_a := e,
             st_flags := st_flags sub OR SUBTREE_ATTACHED, st_rootoid := (st_rootoid sub)[k := i]\<rparr>)"

text \<open>
  The rest of a range, from \<open>i\<close> to the last value: each time the subtree registered first is copied. When a copy is
  refused, \<open>netsnmp_remove_subtree\<close> is called for it, which was not linked but has the neighbours of the original in
  its pointers: it unlinks what is there.
\<close>

function register_range ::
  "(bool \<Rightarrow> netsnmp_subtree \<Rightarrow> registry \<Rightarrow> registered option) \<Rightarrow> netsnmp_subtree \<Rightarrow> nat \<Rightarrow> nat \<Rightarrow> int \<Rightarrow> int \<Rightarrow> registry \<Rightarrow> registered option"
  where
  "register_range load subtree mibloclen k i ubound rg =
     (if i > ubound then Some (Done MIB_REGISTERED_OK rg)
      else
        case List.find (is_part_at_start subtree) (concat (rg_first rg)) of
          None \<Rightarrow> Some Damaged
        | Some sub \<Rightarrow>
            (case load True (range_copy mibloclen k i sub) rg of
               None \<Rightarrow> None
             | Some (Done res rg) \<Rightarrow>
                 if res = MIB_REGISTERED_OK then register_range load subtree mibloclen k (i + 1) ubound rg else Some Damaged
             | Some Damaged \<Rightarrow> Some Damaged))"
  by pat_completeness auto
termination by (relation "measure (\<lambda>(_, _, _, _, i, ubound, _). nat (ubound - i + 1))") auto

definition register_mib_detach_node :: "netsnmp_subtree \<Rightarrow> netsnmp_subtree" where
  "register_mib_detach_node s = s\<lparr>st_flags := st_flags s AND NOT SUBTREE_ATTACHED\<rparr>"

text \<open>
  \<open>netsnmp_register_mib\<close> over the function that loads. \<open>detach\<close>: this is a subagent without a master. \<open>mibloc\<close> of
  length 0 and a \<open>range_subid\<close> that is not in it would be accesses outside the array.
\<close>

definition register_mib_with ::
  "(bool \<Rightarrow> netsnmp_subtree \<Rightarrow> registry \<Rightarrow> registered option) \<Rightarrow> bool \<Rightarrow> agent_variable list \<Rightarrow> register_parameters \<Rightarrow> bool
     \<Rightarrow> registry \<Rightarrow> registered option" where
  "register_mib_with load detach var parms perform_callback rg =
     (let mibloc = rp_name parms; range_subid = rp_range_subid parms; old = rg_cache_size rg; subtree = new_subtree var parms
      in if mibloc = [] then Some Damaged
         else
           case load False subtree (netsnmp_set_lookup_cache_size 0 rg) of
             None \<Rightarrow> None
           | Some Damaged \<Rightarrow> Some Damaged
           | Some (Done res rg) \<Rightarrow>
               if res \<noteq> MIB_REGISTERED_OK then Some (Done res (invalidate_lookup_cache (netsnmp_set_lookup_cache_size old rg)))
               else
                 case (if range_subid = 0 then Some (Done res rg)
                       else if range_subid < 0 \<or> int (length mibloc) < range_subid then Some Damaged
                       else register_range load subtree (length mibloc) (nat range_subid - 1)
                              (sint (ucast (mibloc ! (nat range_subid - 1) + 1) :: u_int))
                              (sint (ucast (rp_range_ubound parms) :: u_int)) rg) of
                   None \<Rightarrow> None
                 | Some Damaged \<Rightarrow> Some Damaged
                 | Some (Done res rg) \<Rightarrow>
                     (let rg = (if detach
                                then rg\<lparr>rg_first := map (map (\<lambda>s. if is_part_at_start subtree s
                                  then register_mib_detach_node s else s)) (rg_first rg)\<rparr>
                                else rg);
                          rg = (if perform_callback then rg\<lparr>rg_callbacks := rg_callbacks rg @ [REGISTER_OID parms]\<rparr> else rg)
                      in Some (Done res (invalidate_lookup_cache (netsnmp_set_lookup_cache_size old rg)))))"

text \<open>
  The null handlers of the three roots, registered when the context has no subtree yet; what the registrations return
  is not looked at.
\<close>

definition null_parameters :: "u_long \<Rightarrow> register_parameters" where
  "null_parameters k = \<lparr>rp_name = [k], rp_priority = 0, rp_range_subid = 0, rp_range_ubound = 0, rp_timeout = 0,
     rp_flags = 0, rp_reginfo = Null_handler\<rparr>"

fun register_nulls :: "bool \<Rightarrow> u_long list \<Rightarrow> registry \<Rightarrow> registered option" where
  "register_nulls detach [] rg = Some (Done MIB_REGISTERED_OK rg)"
| "register_nulls detach (k # ks) rg =
     (case register_mib_with load_inloop detach [] (null_parameters k) True rg of
        Some (Done res rg) \<Rightarrow> register_nulls detach ks rg
      | r \<Rightarrow> r)"

definition netsnmp_subtree_load :: "bool \<Rightarrow> bool \<Rightarrow> netsnmp_subtree \<Rightarrow> registry \<Rightarrow> registered option" where
  "netsnmp_subtree_load detach copy new_sub rg =
     (case (if rg_first rg = [] then register_nulls detach [0, 1, 2] rg else Some (Done MIB_REGISTERED_OK rg)) of
        Some (Done _ rg) \<Rightarrow> load_inloop copy new_sub rg
      | r \<Rightarrow> r)"

definition netsnmp_register_mib ::
  "bool \<Rightarrow> agent_variable list \<Rightarrow> register_parameters \<Rightarrow> bool \<Rightarrow> registry \<Rightarrow> registered option" where
  "netsnmp_register_mib detach = register_mib_with (netsnmp_subtree_load detach) detach"

section \<open>Unregistering\<close>

text \<open>
  The subtree at position \<open>j\<close> of column \<open>i\<close> is taken out of the list; the column goes when it was its only one.
\<close>

definition netsnmp_subtree_unload :: "nat \<Rightarrow> nat \<Rightarrow> registry \<Rightarrow> registry" where
  "netsnmp_subtree_unload i j rg =
     (let cols = rg_first rg; col = cols ! i; children = tl col;
          preceding = (if i = 0 then [] else cols ! (i - 1)); after = drop (i + 1) cols
      in invalidate_lookup_cache (rg\<lparr>rg_first :=
        (if j > 0 then cols[i := take j col @ drop (j + 1) col]
         else if children = [] then
           take i cols @
             (case after of [] \<Rightarrow> []
              | next # rest \<Rightarrow> change_prev_column preceding (change_next_column preceding (hd next) # tl next) # rest)
         else
           take i cols @ [change_next_column preceding (hd children) # tl children] @
             (case after of [] \<Rightarrow> [] | next # rest \<Rightarrow> change_prev_column children next # rest))\<rparr>))"

lemma invalidate_first [simp]: "rg_first (invalidate_lookup_cache rg) = rg_first rg"
  by (auto simp: invalidate_lookup_cache_def split: option.splits)

lemma length_change_prev_column [simp]: "length (change_prev_column preceding col) = length col"
  by (auto simp: change_prev_column_def split: list.splits)

lemma unload_length:
  assumes "i < length (rg_first rg)"
  shows "length (rg_first (netsnmp_subtree_unload i j rg)) =
     (if j = 0 \<and> tl (rg_first rg ! i) = [] then length (rg_first rg) - 1 else length (rg_first rg))"
proof -
  obtain rest where d: "drop i (rg_first rg) = rg_first rg ! i # rest" "length rest = length (rg_first rg) - i - 1"
    using Cons_nth_drop_Suc [OF assms] by (metis Suc_eq_plus1 diff_diff_left length_drop)
  have "drop (Suc i) (rg_first rg) = rest" using d assms by (metis Cons_nth_drop_Suc list.inject)
  then show ?thesis using assms d(2)
    by (cases "length (rg_first rg)") (auto simp: netsnmp_subtree_unload_def Let_def split: list.splits)
qed

fun find_child :: "oid \<Rightarrow> int \<Rightarrow> nat \<Rightarrow> netsnmp_subtree list \<Rightarrow> nat option" where
  "find_child name priority j [] = None"
| "find_child name priority j (child # children) =
     (if netsnmp_oid_equals (st_name_a child) name = 0 \<and> uint (st_priority child) = priority then Some j
      else find_child name priority (j + 1) children)"

text \<open>The parts of the registration in the columns that follow, up to the first column without one.\<close>

function unregister_slices :: "oid \<Rightarrow> int \<Rightarrow> nat \<Rightarrow> registry \<Rightarrow> registry" where
  "unregister_slices name priority i rg =
     (if i \<ge> length (rg_first rg) then rg
      else
        case find_child name priority 0 (rg_first rg ! i) of
          None \<Rightarrow> rg
        | Some j \<Rightarrow>
            (let rg' = netsnmp_subtree_unload i j rg; gone = (length (rg_first rg') < length (rg_first rg))
             in unregister_slices name priority (if gone then i else i + 1) rg'))"
  by pat_completeness auto
termination
  by (relation "measure (\<lambda>(_, _, i, rg). length (rg_first rg) - i)")
    (auto simp: unload_length simp flip: not_less split: if_splits)

declare unregister_slices.simps [simp del] register_range.simps [simp del]

text \<open>
  One round of the loop of \<open>unregister_mib_context\<close>: \<open>None\<close> for \<open>MIB_NO_SUCH_REGISTRATION\<close>.
\<close>

definition unregister_one :: "oid \<Rightarrow> int \<Rightarrow> registry \<Rightarrow> registry option" where
  "unregister_one name priority rg =
     (case fst (netsnmp_subtree_find name (if rg_first rg = [] then None else Some 0) rg) of
        None \<Rightarrow> None
      | Some i \<Rightarrow>
          (case find_child name priority 0 (rg_first rg ! i) of
             None \<Rightarrow> None
           | Some j \<Rightarrow>
               (let rg' = netsnmp_subtree_unload i j rg; gone = (length (rg_first rg') < length (rg_first rg))
                in Some (unregister_slices name priority (if gone then i else i + 1) rg'))))"

text \<open>
  The loop. \<open>orig\<close> is \<open>orig_subid_val\<close>, \<open>k\<close> the position of the sub-identifier of the range. The result has the name as
  the caller's array holds it afterwards.
\<close>

partial_function (option) unregister_loop ::
  "int \<Rightarrow> nat \<Rightarrow> u_long \<Rightarrow> int \<Rightarrow> oid \<Rightarrow> registry \<Rightarrow> (int \<times> oid \<times> registry) option" where
  "unregister_loop orig k range_ubound priority name rg =
     (case unregister_one name priority rg of
        None \<Rightarrow> Some (MIB_NO_SUCH_REGISTRATION, name, rg)
      | Some rg \<Rightarrow>
          if orig \<noteq> -1 then
            (let name = name[k := name ! k + 1] in
             if name ! k \<ge> word_of_int orig + range_ubound
             then Some (MIB_UNREGISTERED_OK, name[k := word_of_int orig], rg)
             else unregister_loop orig k range_ubound priority name rg)
          else Some (MIB_UNREGISTERED_OK, name, rg))"

definition unregister_mib_context ::
  "oid \<Rightarrow> int \<Rightarrow> int \<Rightarrow> u_long \<Rightarrow> registry \<Rightarrow> (int \<times> oid \<times> registry) option" where
  "unregister_mib_context name priority range_subid range_ubound rg =
     (let old = rg_cache_size rg; k = nat range_subid - 1;
          orig = (if range_subid > 0 \<and> range_subid \<le> int (length name) then sint (ucast (name ! k) :: u_int) else -1)
      in map_option (\<lambda>(res, name, rg).
           if res \<noteq> MIB_UNREGISTERED_OK then (res, name, rg)
           else (res, name, netsnmp_set_lookup_cache_size old (invalidate_lookup_cache
                  (rg\<lparr>rg_callbacks := rg_callbacks rg @ [UNREGISTER_OID name priority range_subid range_ubound]\<rparr>))))
         (unregister_loop orig k range_ubound priority name (netsnmp_set_lookup_cache_size 0 rg)))"

declare unregister_loop.simps [code]

end
