(* ===== verification/RegistrySearch.thy ===== *)
theory RegistrySearch
  imports Registry
begin

text \<open>
  Searching the registry of subtrees: the invariant of the list of columns, and that the search, with the lookup cache and
  the shortcut on the offsets, finds the column that a plain walk over the list finds.
\<close>

section \<open>Common prefixes\<close>

lemma common_prefix_skip: "a \<le> n \<Longrightarrow> common_prefix n a < common_prefix a b \<Longrightarrow> b \<le> n \<and> common_prefix n b = common_prefix n a"
proof (induction n a arbitrary: b rule: common_prefix.induct)
  case (1 x xs y ys)
  obtain z zs where b: "b = z # zs" "z = y" using "1.prems"(2) by (cases b) (simp_all split: if_splits)
  show ?case
  proof (cases "x = y")
    case True
    then show ?thesis using "1.IH" [OF True, of zs] "1.prems" by (simp add: b)
  next
    case False
    then show ?thesis using "1.prems" by (simp add: b)
  qed
qed simp_all

section \<open>The invariant of the list\<close>

text \<open>What is registered where, and which of two registrations answers first.\<close>

type_synonym registration = "oid \<times> u_char \<times> handler_registration"

definition registration_of :: "netsnmp_subtree \<Rightarrow> registration" where
  "registration_of s = (st_name_a s, st_priority s, st_reginfo s)"

definition answers_before :: "registration \<Rightarrow> registration \<Rightarrow> bool" where
  "answers_before k k' \<longleftrightarrow> length (fst k') < length (fst k) \<or> length (fst k) = length (fst k') \<and> fst (snd k) < fst (snd k')"

definition column_end :: "netsnmp_subtree list \<Rightarrow> oid" where
  "column_end c = st_end_a (hd c)"

text \<open>
  A column: all its subtrees have the same range, they are in order, and they are the registrations \<open>R x\<close> of every OID
  \<open>x\<close> of the range.
\<close>

definition column_ok :: "(oid \<Rightarrow> registration set) \<Rightarrow> netsnmp_subtree list \<Rightarrow> bool" where
  "column_ok R c \<longleftrightarrow> c \<noteq> [] \<and> (\<forall>s\<in>set c. st_start_a s = st_start_a (hd c) \<and> st_end_a s = column_end c)
     \<and> st_start_a (hd c) < column_end c \<and> sorted_wrt answers_before (map registration_of c)
     \<and> (\<forall>x. st_start_a (hd c) \<le> x \<longrightarrow> x < column_end c \<longrightarrow> registration_of ` set c = R x)"

text \<open>The offsets of a column, from the start of the one before.\<close>

definition offsets_ok :: "oid option \<Rightarrow> netsnmp_subtree list \<Rightarrow> bool" where
  "offsets_ok p c \<longleftrightarrow> (case p of None \<Rightarrow> True | Some a \<Rightarrow>
     \<forall>s\<in>set c. st_oid_off s = int (common_prefix a (st_start_a (hd c))) + 1)"

text \<open>The columns cover the OIDs from \<open>lo\<close> up to \<open>hi\<close>; \<open>p\<close> is the start of the column before them.\<close>

fun covers :: "(oid \<Rightarrow> registration set) \<Rightarrow> oid option \<Rightarrow> columns \<Rightarrow> oid \<Rightarrow> oid \<Rightarrow> bool" where
  "covers R p [] lo hi \<longleftrightarrow> lo = hi"
| "covers R p (c # cs) lo hi \<longleftrightarrow>
     column_ok R c \<and> st_start_a (hd c) = lo \<and> offsets_ok p c \<and> covers R (Some lo) cs (column_end c) hi"

definition last_start :: "oid option \<Rightarrow> columns \<Rightarrow> oid option" where
  "last_start p cs = (if cs = [] then p else Some (st_start_a (hd (last cs))))"

lemma last_start_simps [simp]:
  "last_start p [] = p"
  "last_start p (cs @ [c]) = Some (st_start_a (hd c))"
  "last_start (Some (st_start_a (hd c))) cs = last_start p (c # cs)"
  by (simp_all add: last_start_def)

lemma covers_append:
  "covers R p (as @ bs) lo hi \<longleftrightarrow> (\<exists>m. covers R p as lo m \<and> covers R (last_start p as) bs m hi)"
  by (induction as arbitrary: p lo) (auto simp: last_start_def)

lemma covers_le: "covers R p cs lo hi \<Longrightarrow> lo \<le> hi"
proof (induction cs arbitrary: p lo)
  case (Cons c cs)
  then have "column_end c \<le> hi" "lo < column_end c" by (auto simp: column_ok_def)
  then show ?case by simp
qed simp

lemma covers_starts: "covers R p cs lo hi \<Longrightarrow> c \<in> set cs \<Longrightarrow> lo \<le> st_start_a (hd c) \<and> column_end c \<le> hi"
proof (induction cs arbitrary: p lo)
  case (Cons d cs)
  have c: "covers R (Some lo) cs (column_end d) hi" using Cons.prems by simp
  have d: "lo < column_end d" "column_end d \<le> hi" "st_start_a (hd d) = lo"
    using Cons.prems covers_le [OF c] by (auto simp: column_ok_def)
  show ?case
  proof (cases "c = d")
    case False
    then have "c \<in> set cs" using Cons.prems(2) by simp
    then have "column_end d \<le> st_start_a (hd c)" "column_end c \<le> hi" using Cons.IH [OF c] by blast+
    then show ?thesis using d(1) by (meson less_imp_le order_trans)
  qed (use d in simp)
qed simp

text \<open>The column an OID falls into splits the list.\<close>

lemma covers_column:
  assumes "covers R p cs lo hi" "lo \<le> x" "x < hi"
  shows "\<exists>as c bs. cs = as @ c # bs \<and> st_start_a (hd c) \<le> x \<and> x < column_end c"
  using assms
proof (induction cs arbitrary: p lo)
  case (Cons c cs)
  show ?case
  proof (cases "x < column_end c")
    case True
    then show ?thesis using Cons.prems by (intro exI [of _ "[]"] exI [of _ c] exI [of _ cs]) auto
  next
    case False
    then have "\<exists>as d bs. cs = as @ d # bs \<and> st_start_a (hd d) \<le> x \<and> x < column_end d"
      using Cons.IH [of "Some lo" "column_end c"] Cons.prems by auto
    then show ?thesis by (metis append_Cons)
  qed
qed simp

section \<open>The search\<close>

lemma find_prev_loop_takeWhile:
  assumes "covers R p cs lo hi" "ll_off = 0 \<or> (\<exists>a. p = Some a \<and> a \<le> name \<and> ll_off = int (common_prefix name a) + 1)"
  shows "find_prev_loop name i previous ll_off cs =
     (let k = length (takeWhile (\<lambda>c. st_start_a (hd c) \<le> name) cs)
      in (if k = 0 then previous else Some (i + k - 1), if k < length cs then Some (i + k) else None))"
  using assms
proof (induction cs arbitrary: p lo i previous ll_off)
  case (Cons c cs)
  let ?s = "st_start_a (hd c)"
  have rest: "covers R (Some ?s) cs (column_end c) hi" using Cons.prems(1) by auto
  show ?case
  proof (cases "\<not> (ll_off \<noteq> 0 \<and> st_oid_off (hd c) \<noteq> 0 \<and> st_oid_off (hd c) > ll_off)")
    case True
    show ?thesis
    proof (cases "?s \<le> name")
      case le: True
      then show ?thesis using True Cons.IH [OF rest, of "int (common_prefix name ?s) + 1" "i + 1" "Some i"]
        by (auto simp: oid_compare_ll_prefix snmp_oid_compare_neg Let_def)
    next
      case False
      then show ?thesis using True by (auto simp: oid_compare_ll_prefix snmp_oid_compare_neg Let_def)
    qed
  next
    case False
    then obtain a where a: "p = Some a" "a \<le> name" "ll_off = int (common_prefix name a) + 1" using Cons.prems(2) by auto
    have "st_oid_off (hd c) = int (common_prefix a ?s) + 1"
      using Cons.prems(1) a(1) by (auto simp: offsets_ok_def column_ok_def)
    then have "common_prefix name a < common_prefix a ?s" using False a(3) by simp
    from common_prefix_skip [OF a(2) this] have s: "?s \<le> name" "ll_off = int (common_prefix name ?s) + 1"
      using a(3) by simp_all
    then show ?thesis using False Cons.IH [OF rest, of ll_off "i + 1" "Some i"] by (auto simp: Let_def)
  qed
qed (simp add: Let_def)

lemma column_ok_less: "column_ok R c \<Longrightarrow> st_start_a (hd c) < column_end c"
  unfolding column_ok_def by blast

lemma column_ok_not_Nil: "column_ok R c \<Longrightarrow> c \<noteq> []"
  unfolding column_ok_def by blast

lemma column_ok_bounds: "column_ok R c \<Longrightarrow> s \<in> set c \<Longrightarrow> st_start_a s = st_start_a (hd c) \<and> st_end_a s = column_end c"
  unfolding column_ok_def by blast

lemma column_ok_registrations:
  "column_ok R c \<Longrightarrow> st_start_a (hd c) \<le> x \<Longrightarrow> x < column_end c \<Longrightarrow> registration_of ` set c = R x"
  unfolding column_ok_def by blast

lemma column_ok_sorted: "column_ok R c \<Longrightarrow> sorted_wrt answers_before (map registration_of c)"
  unfolding column_ok_def by blast

text \<open>The reference: the last column that starts at or before the name.\<close>

definition lookup :: "oid \<Rightarrow> columns \<Rightarrow> nat option" where
  "lookup name cs = (let k = length (takeWhile (\<lambda>c. st_start_a (hd c) \<le> name) cs) in if k = 0 then None else Some (k - 1))"

lemma lookup_column:
  assumes "covers R p (as @ c # bs) lo hi" "st_start_a (hd c) \<le> x" "x < column_end c"
  shows "lookup x (as @ c # bs) = Some (length as)"
proof -
  obtain m where m: "covers R p as lo m" "m = st_start_a (hd c)" "covers R (Some m) bs (column_end c) hi"
    using assms(1) unfolding covers_append by auto
  have as: "st_start_a (hd d) \<le> x" if d_in: "d \<in> set as" for d
  proof -
    obtain as1 as2 where d: "as = as1 @ d # as2" using d_in by (meson split_list)
    from m(1) have d2: "covers R (Some (st_start_a (hd d))) as2 (column_end d) m" "column_ok R d"
      unfolding d covers_append by auto
    have "column_end d \<le> m" "st_start_a (hd d) < column_end d"
      using covers_le [OF d2(1)] column_ok_less [OF d2(2)] .
    then show ?thesis using assms(2) m(2) by (meson less_imp_le order_trans)
  qed
  have bs: "bs = [] \<or> \<not> st_start_a (hd (hd bs)) \<le> x" using m(3) assms(3) by (cases bs) auto
  have "takeWhile (\<lambda>c. st_start_a (hd c) \<le> x) bs = []" using bs by (cases bs) auto
  then have "takeWhile (\<lambda>c. st_start_a (hd c) \<le> x) (as @ c # bs) = as @ [c]"
    using as assms(2) by (subst takeWhile_append2) auto
  then show ?thesis by (simp add: lookup_def)
qed

lemma find_prev_loop_lookup:
  "covers R None cs lo hi \<Longrightarrow> fst (find_prev_loop name 0 None 0 cs) = lookup name cs"
  by (subst find_prev_loop_takeWhile) (auto simp: lookup_def Let_def)

lemma find_prev_uncached:
  assumes "covers R None (rg_first rg) lo hi" "rg_cache_size rg = 0 \<or> subtree = Some 0" "subtree \<in> {None, Some 0}"
  shows "fst (netsnmp_subtree_find_prev name subtree rg) = lookup name (rg_first rg)"
proof -
  obtain previous myptr where r: "find_prev_loop name 0 None 0 (rg_first rg) = (previous, myptr)" by fastforce
  then have "lookup name (rg_first rg) = previous" using find_prev_loop_lookup [OF assms(1), of name] by simp
  then show ?thesis using assms(2,3) r
    by (cases subtree; cases previous; cases myptr) (simp_all add: netsnmp_subtree_find_prev_def)
qed

section \<open>The lookup cache\<close>

text \<open>
  The entries in use are neighbouring columns of the list, the next one to be written is the first that is not in use,
  and the indexes stay in the array.
\<close>

definition entry_ok :: "columns \<Rightarrow> lookup_cache \<Rightarrow> bool" where
  "entry_ok cols e \<longleftrightarrow> lc_next e = lc_previous e + 1 \<and> lc_next e < length cols"

definition context_ok :: "columns \<Rightarrow> int \<Rightarrow> lookup_cache_context \<Rightarrow> bool" where
  "context_ok cols n c \<longleftrightarrow> length (lc_cache c) = 32 \<and> currentpos c < 32 \<and> 0 \<le> thecachecount c \<and> thecachecount c \<le> 32
     \<and> (thecachecount c < n \<longrightarrow> int (currentpos c) = thecachecount c)
     \<and> (\<forall>k. int k < thecachecount c \<longrightarrow> entry_ok cols (lc_cache c ! k))"

definition cache_ok :: "registry \<Rightarrow> bool" where
  "cache_ok rg \<longleftrightarrow> 0 \<le> rg_cache_size rg \<and> rg_cache_size rg \<le> 32
     \<and> (\<forall>c. rg_cache rg = Some c \<longrightarrow> context_ok (rg_first rg) (rg_cache_size rg) c)"

lemma get_context_ok: "cache_ok rg \<Longrightarrow> get_context_lookup_cache rg = Some c \<Longrightarrow> context_ok (rg_first rg) (rg_cache_size rg) c"
  by (auto simp: cache_ok_def get_context_lookup_cache_def context_ok_def new_cache_def split: option.splits if_splits)

lemma entry_ok_make: "entry_ok cols \<lparr>lc_next = n, lc_previous = p\<rparr> \<longleftrightarrow> n = p + 1 \<and> n < length cols"
  by (simp add: entry_ok_def)

lemma entry_ok_update: "entry_ok cols e \<Longrightarrow> j = i \<and> i < length xs \<or> entry_ok cols (xs ! j) \<Longrightarrow> entry_ok cols (xs[i := e] ! j)"
  by (cases "i = j"; cases "i < length xs") (auto simp: list_update_beyond)

lemma lookup_cache_add_ok:
  assumes "cache_ok rg" "next = previous + 1" "next < length (rg_first rg)" "rg_cache_size rg \<noteq> 0"
  shows "cache_ok (lookup_cache_add next previous rg)"
proof (cases "get_context_lookup_cache rg")
  case (Some c)
  have "context_ok (rg_first rg) (rg_cache_size rg) c" by (rule get_context_ok) (use assms Some in auto)
  then show ?thesis using assms Some
    by (auto simp: lookup_cache_add_def cache_ok_def context_ok_def Let_def entry_ok_make
        intro!: entry_ok_update) (metis int_int_eq order_le_imp_less_or_eq)
qed (use assms in \<open>simp add: lookup_cache_add_def\<close>)

lemma lookup_cache_replace_ok:
  assumes "cache_ok rg" "next = previous + 1" "next < length (rg_first rg)"
  shows "cache_ok (lookup_cache_replace k next previous rg)"
  using assms
  by (auto simp: lookup_cache_replace_def cache_ok_def context_ok_def entry_ok_make
      intro!: entry_ok_update split: option.splits)

lemma cache_find_loop_entry:
  "cache_find_loop cols name i cs ret = Some (k, cmp) \<Longrightarrow> ret = Some (k, cmp) \<or>
     (i \<le> k \<and> k < i + length cs \<and> cmp = snmp_oid_compare name (column_start cols (lc_previous (cs ! (k - i)))) \<and> cmp \<ge> 0)"
proof (induction cs arbitrary: i ret)
  case (Cons c cs)
  from Cons.IH [OF Cons.prems [simplified, unfolded Let_def]] show ?case
    by (auto simp: nth_Cons' split: if_splits)
qed simp

lemma lookup_cache_find_entry:
  assumes "cache_ok rg" "lookup_cache_find name rg = (r, rg')"
  shows "cache_ok rg'" "rg' = rg\<lparr>rg_cache := rg_cache rg'\<rparr>"
    "r = Some (k, cmp) \<Longrightarrow> \<exists>e. lc_cache (the (rg_cache rg')) ! k = e \<and> entry_ok (rg_first rg) e
       \<and> column_start (rg_first rg) (lc_previous e) \<le> name"
proof -
  note defs = lookup_cache_find_def
  consider (none) "get_context_lookup_cache rg = None" | (some) c where "get_context_lookup_cache rg = Some c" by fastforce
  then have "cache_ok rg' \<and> rg' = rg\<lparr>rg_cache := rg_cache rg'\<rparr> \<and> (r = Some (k, cmp) \<longrightarrow>
      (\<exists>e. lc_cache (the (rg_cache rg')) ! k = e \<and> entry_ok (rg_first rg) e \<and> column_start (rg_first rg) (lc_previous e) \<le> name))"
  proof cases
    case none
    then show ?thesis using assms by (simp add: defs)
  next
    case (some c)
    have c: "context_ok (rg_first rg) (rg_cache_size rg) c" by (rule get_context_ok) (use assms some in auto)
    let ?n = "nat (min (thecachecount c) (rg_cache_size rg))"
    have rg': "rg' = rg\<lparr>rg_cache := Some c\<rparr>" "r = cache_find_loop (rg_first rg) name 0 (take ?n (lc_cache c)) None"
      using assms(2) some by (auto simp: defs)
    have "entry_ok (rg_first rg) (lc_cache c ! k) \<and> column_start (rg_first rg) (lc_previous (lc_cache c ! k)) \<le> name"
      if "r = Some (k, cmp)"
    proof -
      have "k < length (take ?n (lc_cache c))" "cmp = snmp_oid_compare name (column_start (rg_first rg) (lc_previous (take ?n (lc_cache c) ! k)))"
        "cmp \<ge> 0"
        using cache_find_loop_entry [of "rg_first rg" name 0 "take ?n (lc_cache c)" None k cmp] that rg'(2) by auto
      then show ?thesis using c snmp_oid_compare_neg [of name] by (auto simp: context_ok_def simp flip: not_less)
    qed
    then show ?thesis using rg'(1) assms(1) c by (auto simp: cache_ok_def)
  qed
  then show "cache_ok rg'" "rg' = rg\<lparr>rg_cache := rg_cache rg'\<rparr>"
    "r = Some (k, cmp) \<Longrightarrow> \<exists>e. lc_cache (the (rg_cache rg')) ! k = e \<and> entry_ok (rg_first rg) e
       \<and> column_start (rg_first rg) (lc_previous e) \<le> name" by blast+
qed

text \<open>Starting after a column that starts at or before the name finds the same column.\<close>

lemma covers_nth:
  assumes "covers R None cs lo hi" "i < length cs"
  shows "\<exists>p m. covers R p (drop i cs) m hi \<and> (\<forall>c\<in>set (take i cs). st_start_a (hd c) \<le> st_start_a (hd (cs ! i)))"
proof -
  have cs: "cs = take i cs @ cs ! i # drop (Suc i) cs" using assms(2) by (simp add: Cons_nth_drop_Suc)
  with assms(1) have "covers R None (take i cs @ cs ! i # drop (Suc i) cs) lo hi" by simp
  then obtain m where m: "covers R None (take i cs) lo m" "covers R (last_start None (take i cs)) (cs ! i # drop (Suc i) cs) m hi"
    unfolding covers_append by blast
  have "st_start_a (hd c) \<le> st_start_a (hd (cs ! i))" if "c \<in> set (take i cs)" for c
  proof -
    obtain as bs where c: "take i cs = as @ c # bs" using \<open>c \<in> set (take i cs)\<close> by (meson split_list)
    from m(1) obtain m' where d: "covers R m' bs (column_end c) m" "column_ok R c" unfolding c covers_append by auto
    have "column_end c \<le> m" "m = st_start_a (hd (cs ! i))" using covers_le [OF d(1)] m(2) by simp_all
    then show ?thesis using column_ok_less [OF d(2)] by (meson less_imp_le order_trans)
  qed
  then show ?thesis using m(2) assms(2) by (metis Cons_nth_drop_Suc)
qed

lemma takeWhile_from:
  assumes "covers R None cs lo hi" "Suc p < length cs" "column_start cs p \<le> name"
  shows "takeWhile (\<lambda>c. st_start_a (hd c) \<le> name) cs = take (Suc p) cs @ takeWhile (\<lambda>c. st_start_a (hd c) \<le> name) (drop (Suc p) cs)"
proof -
  have p: "st_start_a (hd (cs ! p)) \<le> name" using assms(3) by (simp add: column_start_def)
  have "st_start_a (hd c) \<le> name" if "c \<in> set (take (Suc p) cs)" for c
  proof -
    have "c \<in> set (take p cs) \<or> c = cs ! p" using \<open>c \<in> set (take (Suc p) cs)\<close> assms(2) by (auto simp: take_Suc_conv_app_nth)
    then show ?thesis using covers_nth [OF assms(1), of p] assms(2) p by (meson Suc_lessD order_trans)
  qed
  then show ?thesis by (subst append_take_drop_id [of "Suc p" cs, symmetric], subst takeWhile_append2) auto
qed

lemma find_prev_from:
  assumes "covers R None cs lo hi" "entry_ok cols e" "cols = cs" "column_start cs (lc_previous e) \<le> name"
  shows "\<exists>p. lookup name cs = Some p \<and>
     find_prev_loop name (lc_next e) (Some (lc_previous e)) 0 (drop (lc_next e) cs) =
       (Some p, if p + 1 < length cs then Some (p + 1) else None)"
proof -
  let ?p = "lc_previous e" and ?le = "\<lambda>c. st_start_a (hd c) \<le> name"
  have e: "lc_next e = Suc ?p" "Suc ?p < length cs" using assms(2,3) by (simp_all add: entry_ok_def)
  obtain q m where c: "covers R q (drop (Suc ?p) cs) m hi" using covers_nth [OF assms(1) e(2)] by blast
  have "length (takeWhile ?le cs) = Suc ?p + length (takeWhile ?le (drop (Suc ?p) cs))"
    using takeWhile_from [OF assms(1) e(2) assms(4)] e(2) by simp
  moreover have "length (takeWhile ?le (drop (Suc ?p) cs)) \<le> length cs - Suc ?p"
    using length_takeWhile_le [of ?le "drop (Suc ?p) cs"] by simp
  ultimately show ?thesis unfolding e(1)
    by (subst find_prev_loop_takeWhile [OF c disjI1 [OF refl]]) (auto simp: lookup_def Let_def)
qed

lemma find_prev_start:
  assumes "covers R None cs lo hi"
  shows "find_prev_loop name 0 None 0 cs = (lookup name cs,
     case lookup name cs of None \<Rightarrow> if cs = [] then None else Some 0 | Some p \<Rightarrow> if p + 1 < length cs then Some (p + 1) else None)"
  by (subst find_prev_loop_takeWhile [OF assms disjI1 [OF refl]]) (auto simp: lookup_def Let_def)

lemma lookup_cache_frame:
  "lookup_cache_add n p rg = rg\<lparr>rg_cache := rg_cache (lookup_cache_add n p rg)\<rparr>"
  "lookup_cache_replace k n p rg = rg\<lparr>rg_cache := rg_cache (lookup_cache_replace k n p rg)\<rparr>"
  by (simp_all add: lookup_cache_add_def lookup_cache_replace_def Let_def split: option.split)

lemma find_prev_lookup:
  assumes "covers R None (rg_first rg) lo hi" "cache_ok rg"
  shows "\<exists>rg'. netsnmp_subtree_find_prev name None rg = (lookup name (rg_first rg), rg')
     \<and> cache_ok rg' \<and> rg' = rg\<lparr>rg_cache := rg_cache rg'\<rparr>"
proof -
  obtain lc rg1 where lc: "(if rg_cache_size rg \<noteq> 0 then lookup_cache_find name rg else (None, rg)) = (lc, rg1)" by fastforce
  have rg1: "cache_ok rg1" "rg1 = rg\<lparr>rg_cache := rg_cache rg1\<rparr>"
    and entry: "lc = Some (k, cmp) \<Longrightarrow> \<exists>e. lc_cache (the (rg_cache rg1)) ! k = e \<and> entry_ok (rg_first rg) e
       \<and> column_start (rg_first rg) (lc_previous e) \<le> name" for k cmp
    using lc assms(2) lookup_cache_find_entry [OF assms(2), of name lc rg1] by (auto split: if_splits)
  have first: "rg_first rg1 = rg_first rg" using arg_cong [OF rg1(2), of rg_first] by simp
  define cs where "cs = rg_first rg"
  define upd where "upd p rg1 = (if rg_cache_size rg1 \<noteq> 0 \<and> (case lc of None \<Rightarrow> 1 | Some (_, cmp) \<Rightarrow> cmp) \<noteq> 0
      then (case lc of Some (k, _) \<Rightarrow> lookup_cache_replace k (p + 1) p rg1 | None \<Rightarrow> lookup_cache_add (p + 1) p rg1) else rg1)" for p rg1
  have upd: "cache_ok (upd p rg1) \<and> upd p rg1 = rg\<lparr>rg_cache := rg_cache (upd p rg1)\<rparr>" if "p + 1 < length cs" for p
  proof -
    have p: "p + 1 < length (rg_first rg1)" using \<open>p + 1 < length cs\<close> by (simp add: first cs_def)
    have ok: "cache_ok (upd p rg1)" unfolding upd_def
      using rg1(1) lookup_cache_add_ok [OF rg1(1) refl p] lookup_cache_replace_ok [OF rg1(1) refl p]
      by (simp split: option.split)
    have frame: "upd p rg1 = rg1\<lparr>rg_cache := rg_cache (upd p rg1)\<rparr>" unfolding upd_def
      using lookup_cache_frame(1) [of "p + 1" p rg1] lookup_cache_frame(2) [of _ "p + 1" p rg1] by (auto split: option.split)
    have "upd p rg1 = rg\<lparr>rg_cache := rg_cache (upd p rg1)\<rparr>"
      by (subst frame, subst rg1(2)) simp
    with ok show ?thesis by blast
  qed
  have "netsnmp_subtree_find_prev name None rg = (lookup name cs,
     case lookup name cs of None \<Rightarrow> rg1 | Some p \<Rightarrow> if p + 1 < length cs then upd p rg1 else rg1)"
  proof (cases lc)
    case None
    then show ?thesis using find_prev_start [OF assms(1), of name] lc
      by (auto simp: netsnmp_subtree_find_prev_def first cs_def upd_def split: option.split)
  next
    case (Some kc)
    obtain k cmp where kc: "lc = Some (k, cmp)" using Some by (cases kc) auto
    from entry [OF kc] obtain e where e: "lc_cache (the (rg_cache rg1)) ! k = e" "entry_ok (rg_first rg) e"
      "column_start (rg_first rg) (lc_previous e) \<le> name" by blast
    from find_prev_from [OF assms(1) e(2) refl e(3)] show ?thesis using lc e(1)
      by (auto simp: netsnmp_subtree_find_prev_def first cs_def upd_def kc split: option.split)
  qed
  then show ?thesis using rg1 upd unfolding cs_def by (auto split: option.splits)
qed

end
