(* ===== verification/RegistryLoad.thy ===== *)
theory RegistryLoad
  imports RegistrySearch
begin

text \<open>
  Changing the registry of subtrees: splitting a column, loading a subtree and taking one out keep the invariant of the
  list and change what is registered for the OIDs of the range of the subtree, and of no others.
\<close>

section \<open>Splitting a column\<close>

text \<open>Only registrations that are prefixes of an OID are asked for it.\<close>

definition prefixes :: "(oid \<Rightarrow> registration set) \<Rightarrow> bool" where
  "prefixes R \<longleftrightarrow> (\<forall>x. \<forall>k\<in>R x. prefix (fst k) x)"

definition parts :: "oid \<Rightarrow> netsnmp_subtree \<Rightarrow> netsnmp_subtree \<times> netsnmp_subtree" where
  "parts p s = (case split_subtree s p of Ret r \<Rightarrow> r | _ \<Rightarrow> (s, s))"

lemma split_subtree_parts:
  assumes "p \<le> st_end_a s" "length (st_name_a s) \<le> length p"
  shows "split_subtree s p = Ret (parts p s)"
    "st_start_a (fst (parts p s)) = st_start_a s" "st_end_a (fst (parts p s)) = p"
    "st_start_a (snd (parts p s)) = p" "st_end_a (snd (parts p s)) = st_end_a s"
    "registration_of (fst (parts p s)) = registration_of s" "registration_of (snd (parts p s)) = registration_of s"
    "st_oid_off (fst (parts p s)) = st_oid_off s"
  using leD [OF assms(1)] leD [OF assms(2)]
  by (simp_all add: parts_def split_subtree_def snmp_oid_compare_pos Let_def registration_of_def split: prod.split)

lemma change_prev_simps [simp]:
  "st_start_a (change_prev q s) = st_start_a s" "st_end_a (change_prev q s) = st_end_a s"
  "registration_of (change_prev q s) = registration_of s" "change_prev p (change_prev q s) = change_prev p s"
  "st_name_a (change_prev q s) = st_name_a s" "st_priority (change_prev q s) = st_priority s"
  by (simp_all add: change_prev_def registration_of_def)

lemma change_prev_off [simp]: "st_oid_off (change_prev q s) = int (common_prefix (st_start_a q) (st_start_a s)) + 1"
  by (simp add: change_prev_def oid_compare_ll_prefix)

lemma subtree_split_parts:
  assumes "c \<noteq> []" "\<forall>s\<in>set c. p \<le> st_end_a s \<and> length (st_name_a s) \<le> length p"
  shows "netsnmp_subtree_split c p =
     Ret (map (fst \<circ> parts p) c, map (change_prev (fst (parts p (hd c))) \<circ> snd \<circ> parts p) c)"
  using assms
proof (induction c)
  case (Cons s cs)
  obtain s1 s2 where s: "parts p s = (s1, s2)" by fastforce
  have split: "split_subtree s p = Ret (s1, s2)" using split_subtree_parts(1) [of p s] Cons.prems s by simp
  show ?case
  proof (cases "cs = []")
    case False
    then show ?thesis using Cons.IH Cons.prems by (simp add: split s change_prev_column_def)
  qed (simp add: split s change_prev_column_def)
qed simp

lemma column_ok_map:
  assumes "column_ok R c" "\<And>s. s \<in> set c \<Longrightarrow> registration_of (f s) = registration_of s"
    "\<And>s. s \<in> set c \<Longrightarrow> st_start_a (f s) = lo \<and> st_end_a (f s) = hi" "st_start_a (hd c) \<le> lo" "lo < hi" "hi \<le> column_end c"
  shows "column_ok R (map f c)" "column_end (map f c) = hi" "st_start_a (hd (map f c)) = lo"
proof -
  have ne: "c \<noteq> []" by (rule column_ok_not_Nil [OF assms(1)])
  then have hd: "st_start_a (hd (map f c)) = lo" "column_end (map f c) = hi"
    using assms(3) [of "hd c"] by (simp_all add: hd_map column_end_def)
  have regs: "registration_of ` set (map f c) = registration_of ` set c" "map registration_of (map f c) = map registration_of c"
    using assms(2) by (auto simp: image_iff)
  show "column_ok R (map f c)" unfolding column_ok_def regs hd
  proof (intro conjI allI impI)
    show "map f c \<noteq> []" using ne by simp
    show "\<forall>s\<in>set (map f c). st_start_a s = lo \<and> st_end_a s = hi" using assms(3) by auto
    show "lo < hi" by (rule assms(5))
    show "sorted_wrt answers_before (map registration_of c)" by (rule column_ok_sorted [OF assms(1)])
    show "registration_of ` set c = R x" if "lo \<le> x" "x < hi" for x
      using column_ok_registrations [OF assms(1), of x] that assms(4,6) by (meson less_le_trans order_trans)
  qed
  show "column_end (map f c) = hi" "st_start_a (hd (map f c)) = lo" by (rule hd)+
qed

lemma prefixes_column:
  assumes "prefixes R" "column_ok R c" "st_start_a (hd c) \<le> p" "p < column_end c" "s \<in> set c"
  shows "prefix (st_name_a s) p"
proof -
  have "registration_of s \<in> R p" using column_ok_registrations [OF assms(2-4)] assms(5) by blast
  moreover have "\<forall>k\<in>R p. prefix (fst k) p" using assms(1) by (simp add: prefixes_def)
  ultimately show ?thesis by (auto simp: registration_of_def)
qed

lemma subtree_split_column:
  assumes "prefixes R" "column_ok R c" "st_start_a (hd c) < p" "p < column_end c"
  shows "\<exists>c1 c2. netsnmp_subtree_split c p = Ret (c1, c2) \<and> column_ok R c1 \<and> column_ok R c2
     \<and> st_start_a (hd c1) = st_start_a (hd c) \<and> column_end c1 = p \<and> st_start_a (hd c2) = p \<and> column_end c2 = column_end c
     \<and> (offsets_ok q c \<longrightarrow> offsets_ok q c1) \<and> offsets_ok (Some (st_start_a (hd c))) c2"
proof -
  have ne: "c \<noteq> []" by (rule column_ok_not_Nil [OF assms(2)])
  have s: "p \<le> st_end_a s" "length (st_name_a s) \<le> length p" "st_start_a s = st_start_a (hd c)" "st_end_a s = column_end c"
    if "s \<in> set c" for s
    using column_ok_bounds [OF assms(2) that] prefixes_column [OF assms(1,2) less_imp_le [OF assms(3)] assms(4) that] assms(4)
    by (auto simp: prefix_length_le)
  define c1 where "c1 = map (fst \<circ> parts p) c"
  define c2 where "c2 = map (change_prev (fst (parts p (hd c))) \<circ> snd \<circ> parts p) c"
  note pt = split_subtree_parts [OF s(1,2)]
  have "netsnmp_subtree_split c p = Ret (c1, c2)"
    unfolding c1_def c2_def by (rule subtree_split_parts [OF ne]) (use s in blast)
  moreover have c1: "column_ok R c1" "column_end c1 = p" "st_start_a (hd c1) = st_start_a (hd c)"
    unfolding c1_def
    using column_ok_map [OF assms(2), of "fst \<circ> parts p" "st_start_a (hd c)" p] s assms(3,4) less_imp_le [OF assms(4)]
    by (simp_all add: split_subtree_parts)
  moreover have c2: "column_ok R c2" "column_end c2 = column_end c" "st_start_a (hd c2) = p"
    unfolding c2_def
    using column_ok_map [OF assms(2), of "change_prev (fst (parts p (hd c))) \<circ> snd \<circ> parts p" p "column_end c"] s assms(3,4)
      less_imp_le [OF assms(3)] by (simp_all add: split_subtree_parts)
  moreover have "offsets_ok q c1" if "offsets_ok q c"
    using that unfolding offsets_ok_def c1(3) by (simp add: c1_def pt(8) split: option.splits)
  moreover have "offsets_ok (Some (st_start_a (hd c))) c2"
    using ne unfolding offsets_ok_def c2(3) by (simp add: c2_def pt(2,4))
  ultimately show ?thesis by blast
qed

text \<open>The columns after a new one, linked to it.\<close>

definition relink :: "netsnmp_subtree list \<Rightarrow> columns \<Rightarrow> columns" where
  "relink c bs = (case bs of [] \<Rightarrow> [] | next # rest \<Rightarrow> change_prev_column c next # rest)"

lemma relink_simps [simp]: "length (relink c bs) = length bs" "relink c [] = []"
  by (simp_all add: relink_def split: list.split)

lemma column_ok_change_prev:
  assumes "column_ok R b"
  shows "column_ok R (map (change_prev q) b) \<and> column_end (map (change_prev q) b) = column_end b
    \<and> st_start_a (hd (map (change_prev q) b)) = st_start_a (hd b) \<and> offsets_ok (Some (st_start_a q)) (map (change_prev q) b)"
proof -
  have ok: "column_ok R (map (change_prev q) b)" "column_end (map (change_prev q) b) = column_end b"
    "st_start_a (hd (map (change_prev q) b)) = st_start_a (hd b)"
    using column_ok_map [OF assms, of "change_prev q" "st_start_a (hd b)" "column_end b"] column_ok_bounds [OF assms]
      column_ok_less [OF assms] by simp_all
  moreover have "st_start_a s = st_start_a (hd b)" if "s \<in> set b" for s using column_ok_bounds [OF assms that] by blast
  then have "offsets_ok (Some (st_start_a q)) (map (change_prev q) b)"
    unfolding offsets_ok_def ok(3) by simp
  ultimately show ?thesis by blast
qed

lemma covers_relink:
  assumes "covers R p bs lo hi" "c \<noteq> []"
  shows "covers R (Some (st_start_a (hd c))) (relink c bs) lo hi"
proof (cases bs)
  case (Cons b bs')
  have b: "column_ok R b" using assms(1) Cons by simp
  obtain q where "change_prev_column c b = map (change_prev q) b" "q = hd c" using assms(2) by (cases c) (auto simp: change_prev_column_def)
  then show ?thesis using column_ok_change_prev [OF b, of q] assms(1) Cons by (simp add: relink_def)
qed (use assms in simp)

lemma covers_split:
  assumes "prefixes R" "covers R None (as @ c # bs) lo hi" "st_start_a (hd c) < p" "p < column_end c"
  shows "\<exists>c1 c2 bs'. split_column (as @ c # bs) (length as) p = Ret (as @ c1 # c2 # bs')
     \<and> covers R None (as @ c1 # c2 # bs') lo hi \<and> st_start_a (hd c2) = p \<and> column_end c2 = column_end c
     \<and> st_start_a (hd c1) = st_start_a (hd c) \<and> column_end c1 = p \<and> length bs' = length bs"
proof -
  obtain m where m: "covers R None as lo m" "column_ok R c" "st_start_a (hd c) = m" "offsets_ok (last_start None as) c"
    "covers R (Some m) bs (column_end c) hi" using assms(2) unfolding covers_append by auto
  from subtree_split_column [OF assms(1) m(2) assms(3,4)] obtain c1 c2 where
    split: "netsnmp_subtree_split c p = Ret (c1, c2)" and c1: "column_ok R c1" "st_start_a (hd c1) = st_start_a (hd c)"
      "column_end c1 = p" "offsets_ok (last_start None as) c1"
      and c2: "column_ok R c2" "st_start_a (hd c2) = p" "column_end c2 = column_end c" "offsets_ok (Some (st_start_a (hd c))) c2"
    using m(4) by blast
  have "covers R (Some p) (relink c2 bs) (column_end c) hi"
    using covers_relink [OF m(5) column_ok_not_Nil [OF c2(1)]] c2(2) by simp
  then have "covers R (last_start None as) (c1 # c2 # relink c2 bs) m hi" using c1 c2 m(3) by simp
  then have "covers R None (as @ c1 # c2 # relink c2 bs) lo hi" using m(1) unfolding covers_append by blast
  moreover have "split_column (as @ c # bs) (length as) p = Ret (as @ c1 # c2 # relink c2 bs)"
    by (simp add: split_column_def split relink_def)
  ultimately show ?thesis using c1 c2 by (metis relink_simps(1))
qed

section \<open>Loading into a column\<close>

lemma covers_cong:
  "covers R p cs lo hi \<Longrightarrow> (\<And>x. lo \<le> x \<Longrightarrow> x < hi \<Longrightarrow> R x = R' x) \<Longrightarrow> covers R' p cs lo hi"
proof (induction cs arbitrary: p lo)
  case (Cons c cs)
  have c: "column_ok R c" "st_start_a (hd c) = lo" "covers R (Some lo) cs (column_end c) hi" using Cons.prems(1) by simp_all
  have le: "lo < column_end c" "column_end c \<le> hi" using column_ok_less [OF c(1)] covers_le [OF c(3)] c(2) by simp_all
  have "column_ok R' c"
    unfolding column_ok_def
  proof (intro conjI allI impI)
    show "registration_of ` set c = R' x" if "st_start_a (hd c) \<le> x" "x < column_end c" for x
      using column_ok_registrations [OF c(1) that] Cons.prems(2) [of x] that c(2) le by (metis less_le_trans)
  qed (use column_ok_not_Nil [OF c(1)] column_ok_bounds [OF c(1)] column_ok_less [OF c(1)] column_ok_sorted [OF c(1)] in blast)+
  moreover have "covers R' (Some lo) cs (column_end c) hi"
    using Cons.IH [OF c(3)] Cons.prems(2) le by (meson less_imp_le order_trans)
  ultimately show ?case using Cons.prems(1) by simp
qed simp

definition clash :: "registration \<Rightarrow> registration \<Rightarrow> bool" where
  "clash k k' \<longleftrightarrow> length (fst k) = length (fst k') \<and> fst (snd k) = fst (snd k')"

lemma answers_before_trans: "answers_before a b \<Longrightarrow> answers_before b c \<Longrightarrow> answers_before a c"
  by (auto simp: answers_before_def)

lemma answers_before_cases: "answers_before a b \<or> clash a b \<or> answers_before b a"
  by (auto simp: answers_before_def clash_def)

lemma sorted_wrt_dropWhile:
  assumes "sorted_wrt r xs" "\<And>x y. r x y \<Longrightarrow> P y \<Longrightarrow> P x"
  shows "x \<in> set (dropWhile P xs) \<Longrightarrow> \<not> P x"
  using assms(1) by (induction xs) (auto split: if_splits dest: assms(2))

lemma chain_position_sorted:
  assumes "sorted_wrt answers_before (map registration_of c)"
    and k: "fst k = st_name_a new" "fst (snd k) = st_priority new"
  shows "if \<exists>s\<in>set c. clash (registration_of s) k then chain_position new c = None
    else \<exists>pre post. chain_position new c = Some (pre, post) \<and> c = pre @ post \<and>
      (\<forall>s\<in>set pre. answers_before (registration_of s) k) \<and> (\<forall>s\<in>set post. answers_before k (registration_of s))"
proof -
  let ?ab = "\<lambda>s s'. answers_before (registration_of s) (registration_of s')"
  let ?P = "\<lambda>s. length (st_name_a new) < length (st_name_a s)"
  let ?Q = "\<lambda>s. length (st_name_a s) = length (st_name_a new) \<and> st_priority s < st_priority new"
  define d where "d = dropWhile ?P c"
  define pre where "pre = takeWhile ?P c @ takeWhile ?Q d"
  define post where "post = dropWhile ?Q d"
  have srt: "sorted_wrt ?ab c" using assms(1) by (simp add: sorted_wrt_map)
  have c: "c = pre @ post" by (simp add: pre_def post_def d_def)
  have sorted_post: "sorted_wrt ?ab post" using srt unfolding c by (simp add: sorted_wrt_append)
  have pre: "answers_before (registration_of s) k" if "s \<in> set pre" for s
    using that k unfolding pre_def answers_before_def registration_of_def by (auto dest: set_takeWhileD)
  have notP: "\<not> ?P s" if "s \<in> set d" for s
    unfolding d_def by (rule sorted_wrt_dropWhile [OF srt _ that [unfolded d_def]]) (auto simp: answers_before_def registration_of_def)
  have sorted_d: "sorted_wrt ?ab d" using srt unfolding d_def by (metis sorted_wrt_append takeWhile_dropWhile_id)
  have notQ: "\<not> ?Q s" if "s \<in> set post" for s
  proof -
    have "post = dropWhile (\<lambda>s. ?P s \<or> ?Q s) d" unfolding post_def by (rule dropWhile_cong) (use notP in auto)
    moreover have "?P x \<or> ?Q x" if "?ab x y" "?P y \<or> ?Q y" for x y
      using that by (auto simp: answers_before_def registration_of_def)
    ultimately have "\<not> (?P s \<or> ?Q s)"
      using sorted_wrt_dropWhile [OF sorted_d, of "\<lambda>s. ?P s \<or> ?Q s" s] that by blast
    then show ?thesis by blast
  qed
  have notP': "\<not> ?P s" if "s \<in> set post" for s using notP that unfolding post_def by (meson set_dropWhileD)
  have pos: "chain_position new c =
      (if post \<noteq> [] \<and> clash (registration_of (hd post)) k then None else Some (pre, post))"
    unfolding clash_def k registration_of_def fst_conv snd_conv chain_position_def Let_def pre_def post_def d_def by (rule refl)
  have clash_pre: "\<not> clash (registration_of s) k" if "s \<in> set pre" for s
    using pre [OF that] by (auto simp: clash_def answers_before_def)
  have post: "answers_before k (registration_of s) \<or> clash (registration_of s) k" if "s \<in> set post" for s
    using notP' [OF that] notQ [OF that] by (auto simp: answers_before_def clash_def registration_of_def k)
  have hd: "clash (registration_of (hd post)) k" if s: "s \<in> set post" "clash (registration_of s) k" for s
  proof (cases "s = hd post")
    case False
    then obtain h t where p: "post = h # t" "s \<in> set t" using s(1) by (cases post) auto
    then have hs: "answers_before (registration_of h) (registration_of s)" using sorted_post by simp
    have "\<not> answers_before k (registration_of s)" using s(2) by (auto simp: answers_before_def clash_def)
    then have "\<not> answers_before k (registration_of h)" using answers_before_trans hs by blast
    then show ?thesis using post [of h] p by simp
  qed (use s in simp)
  show ?thesis
  proof (cases "\<exists>s\<in>set c. clash (registration_of s) k")
    case True
    then obtain s where "s \<in> set post" "clash (registration_of s) k" using clash_pre unfolding c by auto
    then have "post \<noteq> [] \<and> clash (registration_of (hd post)) k" using hd by auto
    then show ?thesis using True pos by simp
  next
    case False
    then have "\<forall>s\<in>set post. answers_before k (registration_of s)" "post = [] \<or> \<not> clash (registration_of (hd post)) k"
      using post unfolding c by auto
    then show ?thesis using False pos c pre by auto
  qed
qed

definition adding :: "registration \<Rightarrow> oid \<Rightarrow> oid \<Rightarrow> (oid \<Rightarrow> registration set) \<Rightarrow> oid \<Rightarrow> registration set" where
  "adding k lo hi R x = (if lo \<le> x \<and> x < hi then insert k (R x) else R x)"

lemma fold_change_prev: "ptrs \<noteq> [] \<Longrightarrow> change_next_column ptrs n = change_prev (last ptrs) n"
proof -
  have "fold change_prev ptrs n = (if ptrs = [] then n else change_prev (last ptrs) n)"
    by (induction ptrs arbitrary: n) auto
  then show "ptrs \<noteq> [] \<Longrightarrow> change_next_column ptrs n = change_prev (last ptrs) n" by (simp add: change_next_column_def)
qed

text \<open>A column with one more registration, in its place.\<close>

lemma column_ok_insert:
  assumes "column_ok R (pre @ post)" "c = pre @ post" "st_start_a n = st_start_a (hd c)" "st_end_a n = column_end c"
    "registration_of n = k" "\<forall>s\<in>set pre. answers_before (registration_of s) k" "\<forall>s\<in>set post. answers_before k (registration_of s)"
  shows "column_ok (adding k (st_start_a (hd c)) (column_end c) R) (pre @ n # post)"
    "st_start_a (hd (pre @ n # post)) = st_start_a (hd c)" "column_end (pre @ n # post) = column_end c"
proof -
  let ?c = "pre @ n # post"
  have c: "column_ok R c" using assms(1,2) by simp
  have b: "st_start_a s = st_start_a (hd c)" "st_end_a s = column_end c" if "s \<in> set ?c" for s
    using column_ok_bounds [OF c, of s] that assms(2,3,4) by auto
  have "hd ?c \<in> set ?c" by (rule hd_in_set) simp
  then show hd: "st_start_a (hd ?c) = st_start_a (hd c)" "column_end ?c = column_end c"
    using b [of "hd ?c"] by (simp_all add: column_end_def)
  show "column_ok (adding k (st_start_a (hd c)) (column_end c) R) ?c"
    unfolding column_ok_def hd
  proof (intro conjI allI impI)
    show "sorted_wrt answers_before (map registration_of ?c)"
      using column_ok_sorted [OF assms(1)] assms(5-7) answers_before_trans by (auto simp: sorted_wrt_append sorted_wrt_map)
    show "registration_of ` set ?c = adding k (st_start_a (hd c)) (column_end c) R x"
      if "st_start_a (hd c) \<le> x" "x < column_end c" for x
      using column_ok_registrations [OF c that] that assms(2,5) by (auto simp: adding_def)
  qed (use b column_ok_less [OF c] in simp_all)
qed

lemma answers_before_asym: "answers_before a b \<Longrightarrow> \<not> answers_before b a"
  by (auto simp: answers_before_def)

lemma covers_last:
  assumes "covers R None as lo m" "as \<noteq> []"
  shows "last as \<noteq> []" "s \<in> set (last as) \<Longrightarrow> st_start_a s = st_start_a (hd (last as))"
proof -
  obtain as' where "as = as' @ [last as]" using assms(2) by (metis append_butlast_last_id)
  then have "column_ok R (last as)" using assms(1) covers_append by (metis covers.simps(2))
  then show "last as \<noteq> []" "s \<in> set (last as) \<Longrightarrow> st_start_a s = st_start_a (hd (last as))"
    using column_ok_not_Nil column_ok_bounds by blast+
qed

lemma covers_load_matching:
  assumes "covers R None (as @ c # bs) lo hi" "st_start_a new = st_start_a (hd c)" "st_end_a new = column_end c"
    "\<forall>s\<in>set c. \<not> clash (registration_of s) (registration_of new)"
    "as = [] \<Longrightarrow> \<exists>s\<in>set c. answers_before (registration_of s) (registration_of new)"
  shows "\<exists>c' bs'. load_matching (as @ c # bs) (length as) new = Loaded (as @ c' # bs')
     \<and> covers (adding (registration_of new) (st_start_a (hd c)) (column_end c) R) None (as @ c' # bs') lo hi
     \<and> st_start_a (hd c') = st_start_a (hd c) \<and> column_end c' = column_end c \<and> length bs' = length bs"
proof -
  let ?k = "registration_of new" and ?R = "adding (registration_of new) (st_start_a (hd c)) (column_end c) R"
  obtain m where m: "covers R None as lo m" "column_ok R c" "st_start_a (hd c) = m" "offsets_ok (last_start None as) c"
    "covers R (Some m) bs (column_end c) hi" using assms(1) unfolding covers_append by auto
  from chain_position_sorted [OF column_ok_sorted [OF m(2)], of ?k new] assms(4)
  obtain pre post where pos: "chain_position new c = Some (pre, post)" "c = pre @ post"
    "\<forall>s\<in>set pre. answers_before (registration_of s) ?k" "\<forall>s\<in>set post. answers_before ?k (registration_of s)"
    by (auto simp: registration_of_def)
  define preceding where "preceding = (if as = [] then [] else last as)"
  define n where "n = hd (change_prev_column preceding [new])"
  define n' where "n' = (if pre = [] then change_next_column preceding n else n)"
  have as: "covers ?R None as lo m" by (rule covers_cong [OF m(1)]) (auto simp: adding_def m(3))
  have bs: "covers ?R (Some m) bs (column_end c) hi" by (rule covers_cong [OF m(5)]) (simp add: adding_def leD)
  have n: "st_start_a n = st_start_a new" "st_end_a n = st_end_a new" "registration_of n = ?k"
    "as \<noteq> [] \<Longrightarrow> st_oid_off n = int (common_prefix (st_start_a (hd (last as))) m) + 1"
    using assms(2) m(3) covers_last(1) [OF m(1)]
    by (auto simp: n_def preceding_def change_prev_column_def split: list.split)
  have last: "last as \<noteq> []" "st_start_a (last (last as)) = st_start_a (hd (last as))" if "as \<noteq> []"
    using covers_last [OF m(1) that] last_in_set by blast+
  have n': "st_start_a n' = st_start_a new" "st_end_a n' = st_end_a new" "registration_of n' = ?k"
    "as \<noteq> [] \<Longrightarrow> st_oid_off n' = int (common_prefix (st_start_a (hd (last as))) m) + 1"
    using n fold_change_prev [of preceding n] last assms(2) m(3)
    by (auto simp: n'_def preceding_def change_next_column_def)
  define c' where "c' = pre @ n' # post"
  have c': "column_ok ?R c'" "st_start_a (hd c') = st_start_a (hd c)" "column_end c' = column_end c"
    unfolding c'_def using column_ok_insert [of R pre post c n' ?k] m(2) pos(2-4) n' assms(2,3) by simp_all
  have "offsets_ok (last_start None as) c'"
    using m(3,4) n'(4) pos(2) c'(2) by (auto simp: offsets_ok_def c'_def last_start_def)
  then have cov: "covers ?R None (as @ c' # bs') lo hi" if "covers ?R (Some m) bs' (column_end c) hi" for bs'
    using as c' m(3) that unfolding covers_append by auto
  show ?thesis
  proof (cases "pre = []")
    case False
    then have "load_matching (as @ c # bs) (length as) new = Loaded (as @ c' # bs)"
      by (simp add: load_matching_def pos(1) c'_def n'_def n_def preceding_def nth_append last_conv_nth)
    then show ?thesis using cov [OF bs] c' by blast
  next
    case True
    then have ne: "as \<noteq> []" using assms(5) pos(2,4) answers_before_asym by auto
    have "load_matching (as @ c # bs) (length as) new = Loaded (as @ c' # relink [n'] bs)"
      using True ne
      by (simp add: load_matching_def pos(1) c'_def n'_def n_def preceding_def nth_append last_conv_nth relink_def Let_def)
    moreover have "covers ?R (Some m) (relink [n'] bs) (column_end c) hi"
      using covers_relink [OF bs, of "[n']"] n'(1) assms(2) m(3) by simp
    ultimately show ?thesis using cov c' by (metis relink_simps(1))
  qed
qed

section \<open>Loading\<close>

lemma oid_equals_0 [simp]: "netsnmp_oid_equals a b = 0 \<longleftrightarrow> a = b"
  using oid_equals_loop_eq [of a b] by (auto simp: netsnmp_oid_equals_def)

lemma cache_first [simp]:
  "rg_first (lookup_cache_add n p rg) = rg_first rg" "rg_first (lookup_cache_replace k n p rg) = rg_first rg"
  "rg_first (snd (lookup_cache_find name rg)) = rg_first rg"
  by (simp_all add: lookup_cache_add_def lookup_cache_replace_def lookup_cache_find_def Let_def split: option.split)

lemma find_prev_first: "rg_first (snd (netsnmp_subtree_find_prev name subtree rg)) = rg_first rg"
proof -
  obtain lc rg1 where lc: "(if subtree = None \<and> rg_cache_size rg \<noteq> 0 then lookup_cache_find name rg else (None, rg)) = (lc, rg1)"
    by fastforce
  then have "rg_first rg1 = rg_first rg" by (metis cache_first(3) snd_conv)
  then show ?thesis
    unfolding netsnmp_subtree_find_prev_def lc Let_def prod.case by (simp split: prod.split option.split)
qed

lemma find_column:
  assumes "covers R None (as @ c # bs) lo hi" "st_start_a (hd c) \<le> x" "x < column_end c"
    "rg_first rg = as @ c # bs" "rg_cache_size rg = 0 \<or> subtree = Some 0" "subtree \<in> {None, Some 0}"
  shows "fst (netsnmp_subtree_find x subtree rg) = Some (length as)"
proof -
  have "fst (netsnmp_subtree_find_prev x subtree rg) = Some (length as)"
    using find_prev_uncached [of R rg lo hi subtree x] lookup_column [OF assms(1-3)] assms(1,4-6) by simp
  moreover have "rg_first (snd (netsnmp_subtree_find_prev x subtree rg)) = rg_first rg"
    by (rule find_prev_first)
  ultimately show ?thesis using assms(3,4)
    by (cases "netsnmp_subtree_find_prev x subtree rg") (auto simp: netsnmp_subtree_find_def snmp_oid_compare_neg column_end_def)
qed

lemma find_uncached:
  "covers R None (as @ c # bs) lo hi \<Longrightarrow> st_start_a (hd c) \<le> x \<Longrightarrow> x < column_end c \<Longrightarrow>
     fst (netsnmp_subtree_find x None (uncached (as @ c # bs))) = Some (length as)"
  by (rule find_column) (auto simp: uncached_def)

lemma load_at:
  assumes "covers R None (as @ c # bs) lo hi" "st_start_a new = st_start_a (hd c)"
  shows "st_end_a new = column_end c \<Longrightarrow>
      load_subtree copy (as @ c # bs) new = Some (load_matching (as @ c # bs) (length as) new)"
    "st_end_a new < column_end c \<Longrightarrow>
      load_subtree copy (as @ c # bs) new =
        (case split_column (as @ c # bs) (length as) (st_end_a new) of
           Overrun \<Rightarrow> Some Lost
         | Null \<Rightarrow> Some (load_matching (as @ c # bs) (length as) new)
         | Ret cols \<Rightarrow> Some (load_matching cols (length as) new))"
    "column_end c < st_end_a new \<Longrightarrow> netsnmp_subtree_split [new] (column_end c) = Ret ([n1], [n2]) \<Longrightarrow>
      load_subtree False (as @ c # bs) new =
        Option.bind (load_subtree False (as @ c # bs) n1) (\<lambda>r. case r of
            Loaded cols \<Rightarrow> Option.bind (load_subtree False cols n2) (\<lambda>r2. Some (case r2 of Refused res cols \<Rightarrow> Lost | _ \<Rightarrow> r2))
          | _ \<Rightarrow> Some r)"
proof -
  have "column_ok R c" using assms(1) unfolding covers_append by auto
  from find_uncached [OF assms(1) order_refl column_ok_less [OF this]]
  have find: "fst (netsnmp_subtree_find (st_start_a new) None (uncached (as @ c # bs))) = Some (length as)"
    unfolding assms(2) .
  have at: "column_start (as @ c # bs) (length as) = st_start_a new" "st_end_a (hd ((as @ c # bs) ! length as)) = column_end c"
    using assms(2) by (simp_all add: column_start_def column_end_def)
  show "load_subtree copy (as @ c # bs) new = Some (load_matching (as @ c # bs) (length as) new)" if "st_end_a new = column_end c"
    by (subst load_subtree.simps) (simp add: find at that Let_def del: netsnmp_subtree_split.simps flip: column_end_def)
  show "load_subtree copy (as @ c # bs) new =
        (case split_column (as @ c # bs) (length as) (st_end_a new) of
           Overrun \<Rightarrow> Some Lost
         | Null \<Rightarrow> Some (load_matching (as @ c # bs) (length as) new)
         | Ret cols \<Rightarrow> Some (load_matching cols (length as) new))" if "st_end_a new < column_end c"
    using that by (subst load_subtree.simps) (simp add: find at Let_def snmp_oid_compare_lex del: netsnmp_subtree_split.simps flip: column_end_def)
  show "load_subtree False (as @ c # bs) new =
        Option.bind (load_subtree False (as @ c # bs) n1) (\<lambda>r. case r of
            Loaded cols \<Rightarrow> Option.bind (load_subtree False cols n2) (\<lambda>r2. Some (case r2 of Refused res cols \<Rightarrow> Lost | _ \<Rightarrow> r2))
          | _ \<Rightarrow> Some r)" if "column_end c < st_end_a new" "netsnmp_subtree_split [new] (column_end c) = Ret ([n1], [n2])"
    using that(1) by (subst load_subtree.simps) (simp add: find at Let_def snmp_oid_compare_lex that(2) less_not_sym less_imp_neq [symmetric] cong: loaded.case_cong del: netsnmp_subtree_split.simps flip: column_end_def)
qed

lemma adding_same: "adding k a b (adding k b c R) = adding k a c R" if "a \<le> b" "b \<le> c"
  using that by (auto simp: adding_def fun_eq_iff not_less dest: order_trans less_le_trans)

lemma adding_same': "adding k b c (adding k a b R) = adding k a c R" if "a \<le> b" "b \<le> c"
  using that by (auto simp: adding_def fun_eq_iff not_less dest: order_trans less_le_trans)

lemma prefixes_adding: "prefixes R \<Longrightarrow> (\<And>x. lo \<le> x \<Longrightarrow> x < hi \<Longrightarrow> prefix (fst k) x) \<Longrightarrow> prefixes (adding k lo hi R)"
  by (auto simp: prefixes_def adding_def)

text \<open>What a subtree to be loaded satisfies: its range lies below its name, and none of the columns has its like.\<close>

definition loadable :: "(oid \<Rightarrow> registration set) \<Rightarrow> netsnmp_subtree \<Rightarrow> bool" where
  "loadable R new \<longleftrightarrow> st_start_a new < st_end_a new
     \<and> (\<forall>x. st_start_a new \<le> x \<longrightarrow> x < st_end_a new \<longrightarrow> prefix (st_name_a new) x)
     \<and> (\<forall>x. st_start_a new \<le> x \<longrightarrow> x < st_end_a new \<longrightarrow> (\<forall>k\<in>R x. \<not> clash k (registration_of new)))"

lemma column_start_registrations:
  "column_ok R c \<Longrightarrow> registration_of ` set c = R (st_start_a (hd c))"
  using column_ok_registrations [of R c "st_start_a (hd c)"] column_ok_less [of R c] by simp

lemma covers_mid: "covers R p (as @ c # bs) lo hi \<Longrightarrow> column_ok R c \<and> column_end c \<le> hi
    \<and> covers R (Some (st_start_a (hd c))) bs (column_end c) hi"
  unfolding covers_append using covers_le by auto

text \<open>A subtree that ends with the column it starts with, or inside it.\<close>

lemma load_within:
  assumes "prefixes R" "covers R None (as @ c # bs) lo hi" "st_start_a new = st_start_a (hd c)" "st_end_a new \<le> column_end c"
    "loadable R new" "as = [] \<Longrightarrow> \<exists>k\<in>R (st_start_a new). answers_before k (registration_of new)"
  shows "\<exists>c' bs'. load_subtree copy (as @ c # bs) new = Some (Loaded (as @ c' # bs'))
     \<and> covers (adding (registration_of new) (st_start_a new) (st_end_a new) R) None (as @ c' # bs') lo hi
     \<and> st_start_a (hd c') = st_start_a new \<and> column_end c' = st_end_a new \<and> (st_end_a new = column_end c \<longrightarrow> length bs' = length bs)"
proof -
  let ?k = "registration_of new"
  have less: "st_start_a new < st_end_a new" using assms(5) by (simp add: loadable_def)
  have matching: "\<exists>c' bs'. load_matching (as @ d # bs) (length as) new = Loaded (as @ c' # bs')
     \<and> covers (adding ?k (st_start_a new) (st_end_a new) R) None (as @ c' # bs') lo hi
     \<and> st_start_a (hd c') = st_start_a new \<and> column_end c' = st_end_a new \<and> length bs' = length bs"
    if d: "covers R None (as @ d # bs) lo hi" "st_start_a (hd d) = st_start_a new" "column_end d = st_end_a new" for d bs
  proof -
    have "registration_of ` set d = R (st_start_a new)"
      using column_start_registrations [of R d] covers_mid [OF d(1)] d(2) by simp
    note img = this
    have "\<forall>k\<in>R (st_start_a new). \<not> clash k ?k" using assms(5) less unfolding loadable_def by blast
    then have "\<forall>s\<in>set d. \<not> clash (registration_of s) ?k" unfolding img [symmetric] by simp
    moreover have "as = [] \<Longrightarrow> \<exists>s\<in>set d. answers_before (registration_of s) ?k"
      using assms(6) unfolding img [symmetric] by blast
    ultimately show ?thesis using covers_load_matching [OF d(1) d(2) [symmetric] d(3) [symmetric]] d(2,3) by auto
  qed
  show ?thesis
  proof (cases "st_end_a new = column_end c")
    case True
    then show ?thesis using matching [OF assms(2)] load_at(1) [OF assms(2,3) True] assms(3) by auto
  next
    case False
    then have lt: "st_end_a new < column_end c" using assms(4) by simp
    obtain c1 c2 bs' where s: "split_column (as @ c # bs) (length as) (st_end_a new) = Ret (as @ c1 # c2 # bs')"
      "covers R None (as @ c1 # c2 # bs') lo hi" "st_start_a (hd c1) = st_start_a (hd c)" "column_end c1 = st_end_a new"
      using covers_split [OF assms(1,2) _ lt] less assms(3) by auto
    show ?thesis using matching [OF s(2)] s(3,4) load_at(2) [OF assms(2,3) lt, of copy] s(1) assms(3) lt by auto
  qed
qed

lemma load_from_start:
  assumes "prefixes R" "covers R None (as @ c # bs) lo hi" "st_start_a new = st_start_a (hd c)" "st_end_a new \<le> hi"
    "loadable R new" "as = [] \<Longrightarrow> \<exists>k\<in>R (st_start_a new). answers_before k (registration_of new)"
  shows "\<exists>cols. load_subtree False (as @ c # bs) new = Some (Loaded cols)
     \<and> covers (adding (registration_of new) (st_start_a new) (st_end_a new) R) None cols lo hi"
  using assms
proof (induction "length bs" arbitrary: R as c bs new rule: less_induct)
  case less
  let ?k = "registration_of new"
  have c: "column_ok R c" "column_end c \<le> hi" using covers_mid [OF less.prems(2)] by blast+
  show ?case
  proof (cases "st_end_a new \<le> column_end c")
    case True
    from load_within [OF less.prems(1-3) this less.prems(5,6)] show ?thesis by blast
  next
    case False
    then have end_less: "column_end c < st_end_a new" by simp
    have start_less: "st_start_a new < column_end c" using column_ok_less [OF c(1)] less.prems(3) by simp
    have "prefix (st_name_a new) (column_end c)" using less.prems(5) start_less end_less by (simp add: loadable_def)
    note pt = split_subtree_parts [OF less_imp_le [OF end_less] prefix_length_le [OF this]]
    define n1 where "n1 = fst (parts (column_end c) new)"
    define n2 where "n2 = change_prev n1 (snd (parts (column_end c) new))"
    have n1: "st_start_a n1 = st_start_a new" "st_end_a n1 = column_end c" "registration_of n1 = ?k"
      and n2: "st_start_a n2 = column_end c" "st_end_a n2 = st_end_a new" "registration_of n2 = ?k"
      using pt by (simp_all add: n1_def n2_def)
    have split: "netsnmp_subtree_split [new] (column_end c) = Ret ([n1], [n2])"
      using pt(1) by (simp add: n1_def n2_def change_prev_column_def split: prod.split)
    have names: "st_name_a n1 = st_name_a new" "st_name_a n2 = st_name_a new"
      using n1(3) n2(3) by (auto simp: registration_of_def)
    have l1: "loadable R n1"
      using less.prems(5) start_less end_less n1 names(1) by (auto simp: loadable_def)
    obtain c' bs' where load1: "load_subtree False (as @ c # bs) n1 = Some (Loaded (as @ c' # bs'))"
      and cov: "covers (adding ?k (st_start_a new) (column_end c) R) None (as @ c' # bs') lo hi"
      and c': "st_start_a (hd c') = st_start_a new" "column_end c' = column_end c" "length bs' = length bs"
      using load_within [OF less.prems(1,2), where copy = False and new = n1] n1 l1 less.prems(3,6) by auto
    let ?R = "adding ?k (st_start_a new) (column_end c) R"
    have pre: "prefixes ?R" using less.prems(5) end_less
      by (intro prefixes_adding less.prems(1)) (auto simp: loadable_def registration_of_def)
    have "covers ?R (Some (st_start_a (hd c'))) bs' (column_end c) hi" using covers_mid [OF cov] c'(2) by simp
    moreover have "column_end c < hi" using end_less less.prems(4) by simp
    ultimately obtain d ds where d: "bs' = d # ds" "st_start_a (hd d) = column_end c" by (cases bs') auto
    have le: "st_start_a new \<le> x" if "column_end c \<le> x" for x using start_less that by (meson less_imp_le order_trans)
    have l2: "loadable ?R n2"
      using le less.prems(5) start_less end_less n2 names(2) by (auto simp: loadable_def adding_def)
    have "length ds < length bs" using c'(3) d(1) by simp
    moreover have "covers ?R None ((as @ [c']) @ d # ds) lo hi" using cov d(1) by simp
    ultimately have "\<exists>cols. load_subtree False ((as @ [c']) @ d # ds) n2 = Some (Loaded cols)
        \<and> covers (adding (registration_of n2) (st_start_a n2) (st_end_a n2) ?R) None cols lo hi"
      using less.hyps [of ds ?R "as @ [c']" d n2] pre l2 n2 d(2) less.prems(4) by simp
    then show ?thesis
      using load_at(3) [OF less.prems(2,3) end_less split] load1 d(1) n2 adding_same' [of "st_start_a new" "column_end c" "st_end_a new"]
        start_less end_less by auto
  qed
qed

text \<open>A subtree that starts inside a column splits it first.\<close>

lemma load_inside:
  assumes "prefixes R" "covers R None (as @ c # bs) lo hi" "st_start_a (hd c) < st_start_a new" "st_start_a new < column_end c"
  shows "\<exists>c1 c2 bs'. load_subtree copy (as @ c # bs) new = load_subtree copy ((as @ [c1]) @ c2 # bs') new
     \<and> covers R None ((as @ [c1]) @ c2 # bs') lo hi \<and> st_start_a (hd c2) = st_start_a new"
proof -
  obtain c1 c2 bs' where s: "split_column (as @ c # bs) (length as) (st_start_a new) = Ret (as @ c1 # c2 # bs')"
    "covers R None (as @ c1 # c2 # bs') lo hi" "st_start_a (hd c2) = st_start_a new" "column_end c2 = column_end c"
    using covers_split [OF assms] by auto
  have cov: "covers R None ((as @ [c1]) @ c2 # bs') lo hi" using s(2) by simp
  have find: "fst (netsnmp_subtree_find (st_start_a new) None (uncached (as @ c # bs))) = Some (length as)"
    using find_uncached [OF assms(2) less_imp_le [OF assms(3)] assms(4)] .
  have find2: "fst (netsnmp_subtree_find (st_start_a new) None (uncached (as @ c1 # c2 # bs'))) = Some (length as + 1)"
    using find_uncached [OF cov] s(3,4) assms(4) by simp
  have "column_start (as @ c # bs) (length as) \<noteq> st_start_a new" using assms(3) by (simp add: column_start_def)
  moreover have "column_start (as @ c1 # c2 # bs') (length as + 1) = st_start_a new" using s(3) by (simp add: column_start_def nth_append)
  ultimately have "load_subtree copy (as @ c # bs) new = load_subtree copy (as @ c1 # c2 # bs') new"
    by (subst (1 2) load_subtree.simps) (simp add: find find2 s(1) Let_def cong: cres.case_cong)
  then show ?thesis using cov s(3) by auto
qed

lemma load_covers:
  assumes "prefixes R" "covers R None cols lo hi" "lo \<le> st_start_a new" "st_end_a new \<le> hi" "loadable R new"
    "st_start_a new = lo \<Longrightarrow> \<exists>k\<in>R lo. answers_before k (registration_of new)"
  shows "\<exists>cols'. load_subtree False cols new = Some (Loaded cols')
     \<and> covers (adding (registration_of new) (st_start_a new) (st_end_a new) R) None cols' lo hi"
proof -
  have "st_start_a new < hi" using assms(4,5) by (auto simp: loadable_def)
  from covers_column [OF assms(2,3) this] obtain as c bs where
    c: "cols = as @ c # bs" "st_start_a (hd c) \<le> st_start_a new" "st_start_a new < column_end c" by blast
  show ?thesis
  proof (cases "st_start_a new = st_start_a (hd c)")
    case True
    have "st_start_a new = lo" if "as = []" using assms(2) that c(1) True by simp
    then show ?thesis using load_from_start [OF assms(1) assms(2) [unfolded c(1)] True assms(4,5)] assms(6) c(1) by auto
  next
    case False
    then have "st_start_a (hd c) < st_start_a new" using c(2) by simp
    from load_inside [OF assms(1) assms(2) [unfolded c(1)] this c(3), of False] obtain c1 c2 bs' where
      s: "load_subtree False (as @ c # bs) new = load_subtree False ((as @ [c1]) @ c2 # bs') new"
      "covers R None ((as @ [c1]) @ c2 # bs') lo hi" "st_start_a (hd c2) = st_start_a new" by blast
    show ?thesis using load_from_start [OF assms(1) s(2) s(3) [symmetric] assms(4,5)] s(1) c(1) by simp
  qed
qed

text \<open>A registration like one that is there is refused, and the columns cover what they covered.\<close>

lemma load_refused:
  assumes "prefixes R" "covers R None cols lo hi" "lo \<le> st_start_a new" "st_end_a new \<le> hi" "st_start_a new < st_end_a new"
    "\<forall>x. st_start_a new \<le> x \<longrightarrow> x < st_end_a new \<longrightarrow> prefix (st_name_a new) x"
    "k \<in> R (st_start_a new)" "clash k (registration_of new)"
  shows "\<exists>cols'. load_subtree False cols new = Some (Refused MIB_DUPLICATE_REGISTRATION cols') \<and> covers R None cols' lo hi"
proof -
  have matching: "load_matching (as @ d # bs) (length as) n = Refused MIB_DUPLICATE_REGISTRATION (as @ d # bs)"
    if d: "covers R None (as @ d # bs) lo hi" "st_start_a (hd d) = st_start_a new" "registration_of n = registration_of new" for as d bs n
  proof -
    have "registration_of ` set d = R (st_start_a new)"
      using column_start_registrations [of R d] covers_mid [OF d(1)] d(2) by simp
    then have "\<exists>s\<in>set d. clash (registration_of s) (registration_of new)" using assms(7,8) by (metis imageE)
    then show ?thesis
      using chain_position_sorted [OF column_ok_sorted, of R d "registration_of new" n] covers_mid [OF d(1)] d(3)
      by (auto simp: load_matching_def registration_of_def)
  qed
  have within: "\<exists>cols'. load_subtree False (as @ c # bs) n = Some (Refused MIB_DUPLICATE_REGISTRATION cols') \<and> covers R None cols' lo hi"
    if c: "covers R None (as @ c # bs) lo hi" "st_start_a (hd c) = st_start_a new" "registration_of n = registration_of new"
      "st_start_a n = st_start_a new" "st_end_a n \<le> column_end c" "st_start_a n < st_end_a n" for as c bs n
  proof (cases "st_end_a n = column_end c")
    case True
    have st: "st_start_a n = st_start_a (hd c)" using c(2,4) by simp
    show ?thesis using load_at(1) [OF c(1) st True] matching [OF c(1-3)] c(1) by auto
  next
    case False
    have st: "st_start_a n = st_start_a (hd c)" using c(2,4) by simp
    have lt: "st_end_a n < column_end c" using False c(5) by simp
    obtain c1 c2 bs' where s: "split_column (as @ c # bs) (length as) (st_end_a n) = Ret (as @ c1 # c2 # bs')"
      "covers R None (as @ c1 # c2 # bs') lo hi" "st_start_a (hd c1) = st_start_a (hd c)"
      using covers_split [OF assms(1) c(1) _ lt] c(6) st by auto
    show ?thesis using load_at(2) [OF c(1) st lt, of False] s matching [OF s(2) _ c(3)] c(2) by auto
  qed
  have at: "\<exists>cols'. load_subtree False (as @ c # bs) new = Some (Refused MIB_DUPLICATE_REGISTRATION cols') \<and> covers R None cols' lo hi"
    if c: "covers R None (as @ c # bs) lo hi" "st_start_a (hd c) = st_start_a new" for as c bs
  proof (cases "st_end_a new \<le> column_end c")
    case False
    have "st_start_a new < column_end c" using column_ok_less [of R c] covers_mid [OF c(1)] c(2) by simp
    then have "prefix (st_name_a new) (column_end c)" using assms(6) False by simp
    note pt = split_subtree_parts [OF less_imp_le [OF not_le_imp_less [OF False]] prefix_length_le [OF this]]
    have "netsnmp_subtree_split [new] (column_end c) = Ret ([fst (parts (column_end c) new)],
        [change_prev (fst (parts (column_end c) new)) (snd (parts (column_end c) new))])"
      using pt(1) by (simp add: change_prev_column_def split: prod.split)
    from load_at(3) [OF c(1) c(2) [symmetric] not_le_imp_less [OF False] this]
    show ?thesis using within [OF c, of "fst (parts (column_end c) new)"] pt \<open>st_start_a new < column_end c\<close> by auto
  qed (use within [OF c] assms(5) in simp)
  have "st_start_a new < hi" using assms(4,5) by simp
  from covers_column [OF assms(2,3) this] obtain as c bs where
    c: "cols = as @ c # bs" "st_start_a (hd c) \<le> st_start_a new" "st_start_a new < column_end c" by blast
  show ?thesis
  proof (cases "st_start_a (hd c) = st_start_a new")
    case False
    then have "st_start_a (hd c) < st_start_a new" using c(2) by simp
    from load_inside [OF assms(1) assms(2) [unfolded c(1)] this c(3), of False] obtain c1 c2 bs' where
      s: "load_subtree False (as @ c # bs) new = load_subtree False ((as @ [c1]) @ c2 # bs') new"
      "covers R None ((as @ [c1]) @ c2 # bs') lo hi" "st_start_a (hd c2) = st_start_a new" by blast
    show ?thesis using at [OF s(2,3)] s(1) c(1) by simp
  qed (use at assms(2) c(1) in simp)
qed

section \<open>Unloading\<close>

definition removing :: "registration \<Rightarrow> oid \<Rightarrow> oid \<Rightarrow> (oid \<Rightarrow> registration set) \<Rightarrow> oid \<Rightarrow> registration set" where
  "removing k lo hi R x = (if lo \<le> x \<and> x < hi then R x - {k} else R x)"

lemma sorted_not_in:
  assumes "sorted_wrt answers_before (map registration_of (pre @ s # post))"
  shows "registration_of s \<notin> registration_of ` set (pre @ post)"
proof
  assume "registration_of s \<in> registration_of ` set (pre @ post)"
  then obtain s' where s': "s' \<in> set pre \<or> s' \<in> set post" "registration_of s' = registration_of s" by (metis Un_iff imageE set_append)
  then have "answers_before (registration_of s) (registration_of s)"
    using assms by (auto simp: sorted_wrt_append sorted_wrt_map)
  then show False by (simp add: answers_before_def)
qed

text \<open>What counts in a subtree, and a column without one of its registrations.\<close>

definition core :: "netsnmp_subtree \<Rightarrow> oid \<times> oid \<times> registration" where
  "core s = (st_start_a s, st_end_a s, registration_of s)"

lemma core_hd: "map core c = map core d \<Longrightarrow> c \<noteq> [] \<Longrightarrow> st_start_a (hd c) = st_start_a (hd d) \<and> column_end c = column_end d"
  by (cases c; cases d) (auto simp: core_def column_end_def)

lemma column_ok_core:
  assumes "column_ok R c" "map core c = map core d"
  shows "column_ok R d"
proof -
  have ne: "c \<noteq> []" by (rule column_ok_not_Nil [OF assms(1)])
  note hd = core_hd [OF assms(2) ne]
  have regs: "map registration_of d = map registration_of c"
    using arg_cong [OF assms(2), of "map (snd \<circ> snd)"] by (simp add: core_def comp_def)
  then have img: "registration_of ` set d = registration_of ` set c" by (metis list.set_map)
  have "core s \<in> core ` set c" if "s \<in> set d" for s using that assms(2) by (metis image_eqI list.set_map)
  then have b: "st_start_a s = st_start_a (hd d) \<and> st_end_a s = column_end d" if "s \<in> set d" for s
    using that column_ok_bounds [OF assms(1)] hd by (fastforce simp: core_def)
  show ?thesis unfolding column_ok_def regs img
    using b hd ne assms(2) column_ok_less [OF assms(1)] column_ok_sorted [OF assms(1)] column_ok_registrations [OF assms(1)]
    by auto
qed

lemma column_ok_remove:
  assumes "column_ok R c" "c = pre @ s # post" "pre @ post \<noteq> []" "map core c' = map core (pre @ post)"
  shows "column_ok (removing (registration_of s) (st_start_a (hd c)) (column_end c) R) c'"
    "st_start_a (hd c') = st_start_a (hd c)" "column_end c' = column_end c"
proof -
  let ?c = "pre @ post" and ?R = "removing (registration_of s) (st_start_a (hd c)) (column_end c) R"
  have b: "st_start_a s' = st_start_a (hd c)" "st_end_a s' = column_end c" if "s' \<in> set ?c" for s'
    using column_ok_bounds [OF assms(1), of s'] that assms(2) by auto
  have "hd ?c \<in> set ?c" by (rule hd_in_set) (rule assms(3))
  then have hd: "st_start_a (hd ?c) = st_start_a (hd c)" "column_end ?c = column_end c"
    using b [of "hd ?c"] by (simp_all add: column_end_def)
  have out: "registration_of s \<notin> registration_of ` set ?c"
    using sorted_not_in column_ok_sorted [OF assms(1)] assms(2) by blast
  have c: "column_ok ?R ?c" unfolding column_ok_def hd
  proof (intro conjI allI impI)
    show "sorted_wrt answers_before (map registration_of ?c)"
      using column_ok_sorted [OF assms(1)] assms(2) by (simp add: sorted_wrt_append)
    show "registration_of ` set ?c = ?R x" if "st_start_a (hd c) \<le> x" "x < column_end c" for x
      using column_ok_registrations [OF assms(1) that] that out assms(2) by (auto simp: removing_def)
  qed (use b column_ok_less [OF assms(1)] assms(3) in simp_all)
  from column_ok_core [OF c assms(4) [symmetric]] show "column_ok ?R c'" .
  show "st_start_a (hd c') = st_start_a (hd c)" "column_end c' = column_end c"
    using core_hd [OF assms(4) [symmetric] assms(3)] hd by simp_all
qed

lemma change_next_column_core [simp]: "core (change_next_column ptrs n) = core n"
  using fold_change_prev [of ptrs n] by (cases "ptrs = []") (auto simp: change_next_column_def core_def)

lemma covers_unload:
  assumes "covers R None (as @ c # bs) lo hi" "rg_first rg = as @ c # bs" "c = pre @ s # post" "pre @ post \<noteq> []"
  shows "\<exists>c' bs'. rg_first (netsnmp_subtree_unload (length as) (length pre) rg) = as @ c' # bs'
     \<and> covers (removing (registration_of s) (st_start_a (hd c)) (column_end c) R) None (as @ c' # bs') lo hi
     \<and> st_start_a (hd c') = st_start_a (hd c) \<and> column_end c' = column_end c \<and> length bs' = length bs"
proof -
  let ?R = "removing (registration_of s) (st_start_a (hd c)) (column_end c) R"
  obtain m where m: "covers R None as lo m" "column_ok R c" "st_start_a (hd c) = m" "offsets_ok (last_start None as) c"
    "covers R (Some m) bs (column_end c) hi" using assms(1) unfolding covers_append by auto
  define preceding where "preceding = (if as = [] then [] else last as)"
  define c' where "c' = (if pre = [] then change_next_column preceding (hd post) # tl post else pre @ post)"
  define bs' where "bs' = (if pre = [] then relink post bs else bs)"
  have core: "map core c' = map core (pre @ post)" using assms(4) by (auto simp: c'_def neq_Nil_conv)
  note c' = column_ok_remove [OF m(2) assms(3,4) core]
  have as: "covers ?R None as lo m" by (rule covers_cong [OF m(1)]) (auto simp: removing_def m(3))
  have bs: "covers ?R (Some m) bs (column_end c) hi" by (rule covers_cong [OF m(5)]) (simp add: removing_def leD)
  have bs': "covers ?R (Some m) bs' (column_end c) hi"
  proof (cases "pre = []")
    case True
    then have "st_start_a (hd post) = m" using column_ok_bounds [OF m(2), of "hd post"] assms(3,4) m(3) by simp
    then show ?thesis using True covers_relink [OF bs, of post] assms(4) by (simp add: bs'_def)
  qed (simp add: bs bs'_def)
  have last: "last as \<noteq> []" "st_start_a (last (last as)) = st_start_a (hd (last as))" if "as \<noteq> []"
    using covers_last [OF m(1) that] last_in_set by blast+
  have off: "offsets_ok (last_start None as) c'"
  proof (cases "pre = []")
    case True
    then obtain h t where post: "post = h # t" using assms(4) by (cases post) auto
    have "st_start_a h = m" using column_ok_bounds [OF m(2), of h] assms(3) m(3) post by simp
    then show ?thesis
      using m(3,4) c'(2) assms(3) True post last fold_change_prev [of preceding h]
      by (auto simp: offsets_ok_def last_start_def c'_def preceding_def change_next_column_def split: if_splits)
  next
    case False
    then show ?thesis using m(3,4) c'(2) assms(3) by (auto simp: offsets_ok_def c'_def split: option.splits)
  qed
  have "rg_first (netsnmp_subtree_unload (length as) (length pre) rg) = as @ c' # bs'"
  proof (cases "pre = []")
    case True
    then show ?thesis using assms(2,3,4)
      by (simp add: netsnmp_subtree_unload_def c'_def bs'_def preceding_def nth_append last_conv_nth relink_def Let_def cong: list.case_cong)
  next
    case False
    then show ?thesis using assms(2,3)
      by (simp add: netsnmp_subtree_unload_def c'_def bs'_def Let_def)
  qed
  moreover have "covers ?R None (as @ c' # bs') lo hi"
    using as bs' c' off m(3) unfolding covers_append by auto
  ultimately show ?thesis using c' by (metis bs'_def relink_simps(1))
qed

section \<open>Unregistering\<close>

definition called :: "oid \<Rightarrow> int \<Rightarrow> registration \<Rightarrow> bool" where
  "called name priority k \<longleftrightarrow> fst k = name \<and> uint (fst (snd k)) = priority"

lemma called_clash: "called name priority k \<Longrightarrow> called name priority k' \<Longrightarrow> clash k k'"
  by (auto simp: called_def clash_def word_uint_eq_iff)

lemma column_unique:
  assumes "column_ok R c" "s \<in> set c" "s' \<in> set c" "clash (registration_of s) (registration_of s')"
  shows "registration_of s = registration_of s'"
proof -
  have "sorted_wrt r xs \<Longrightarrow> x \<in> set xs \<Longrightarrow> y \<in> set xs \<Longrightarrow> x = y \<or> r x y \<or> r y x" for r :: "registration \<Rightarrow> _" and xs x y
    by (induction xs) auto
  from this [OF column_ok_sorted [OF assms(1)], of "registration_of s" "registration_of s'"] assms(2-4)
  show ?thesis by (auto simp: answers_before_def clash_def)
qed

lemma find_child_None:
  "find_child name priority j c = None \<longleftrightarrow> (\<forall>s\<in>set c. \<not> called name priority (registration_of s))"
  by (induction c arbitrary: j) (auto simp: called_def registration_of_def)

lemma find_child_Some:
  "find_child name priority j c = Some i \<Longrightarrow>
     \<exists>pre s post. c = pre @ s # post \<and> i = j + length pre \<and> called name priority (registration_of s)"
proof (induction c arbitrary: j)
  case (Cons s c)
  show ?case
  proof (cases "called name priority (registration_of s)")
    case True
    then show ?thesis using Cons.prems by (intro exI [of _ "[]"] exI [of _ s] exI [of _ c]) (auto simp: called_def registration_of_def)
  next
    case False
    then have "find_child name priority (j + 1) c = Some i" using Cons.prems by (simp add: called_def registration_of_def split: if_splits)
    from Cons.IH [OF this] obtain pre s' post where
      "c = pre @ s' # post" "i = j + 1 + length pre" "called name priority (registration_of s')" by blast
    then show ?thesis by (intro exI [of _ "s # pre"] exI [of _ s'] exI [of _ post]) simp
  qed
qed simp

definition whole_cache :: "registry \<Rightarrow> bool" where
  "whole_cache rg \<longleftrightarrow> (case rg_cache rg of None \<Rightarrow> True | Some c \<Rightarrow> length (lc_cache c) = 32)"

definition same_settings :: "registry \<Rightarrow> registry \<Rightarrow> bool" where
  "same_settings rg rg' \<longleftrightarrow> rg_cache_size rg' = rg_cache_size rg \<and> rg_callbacks rg' = rg_callbacks rg
     \<and> (whole_cache rg \<longrightarrow> whole_cache rg')"

lemma same_settings_refl [simp]: "same_settings rg rg" by (simp add: same_settings_def)

lemma same_settings_trans: "same_settings r1 r2 \<Longrightarrow> same_settings r2 r3 \<Longrightarrow> same_settings r1 r3"
  by (simp add: same_settings_def)

lemma same_settings_invalidate: "same_settings rg (invalidate_lookup_cache rg)"
  by (cases "rg_cache rg")
    (simp_all add: same_settings_def whole_cache_def invalidate_lookup_cache_def get_context_lookup_cache_def new_cache_def)

lemma same_settings_unload: "same_settings rg (netsnmp_subtree_unload i j rg)"
proof -
  have *: "same_settings rg (rg\<lparr>rg_first := cols\<rparr>)" for cols by (simp add: same_settings_def whole_cache_def)
  show ?thesis unfolding netsnmp_subtree_unload_def Let_def by (rule same_settings_trans [OF * same_settings_invalidate])
qed

text \<open>The registration called \<open>name\<close> is taken out of one column.\<close>

lemma unload_called:
  assumes "covers R None (as @ c # bs) lo hi" "rg_first rg = as @ c # bs" "k \<in> R (st_start_a (hd c))" "called name priority k"
    "R (st_start_a (hd c)) \<noteq> {k}"
  shows "\<exists>j c' bs'. find_child name priority 0 c = Some j
     \<and> rg_first (netsnmp_subtree_unload (length as) j rg) = as @ c' # bs'
     \<and> covers (removing k (st_start_a (hd c)) (column_end c) R) None (as @ c' # bs') lo hi
     \<and> st_start_a (hd c') = st_start_a (hd c) \<and> column_end c' = column_end c \<and> length bs' = length bs"
proof -
  have c: "column_ok R c" using covers_mid [OF assms(1)] by blast
  have img: "registration_of ` set c = R (st_start_a (hd c))" by (rule column_start_registrations [OF c])
  then obtain s0 where s0: "s0 \<in> set c" "registration_of s0 = k" using assms(3) by (metis imageE)
  then obtain j where j: "find_child name priority 0 c = Some j" using find_child_None assms(4) by (metis not_None_eq)
  from find_child_Some [OF j] obtain pre s post where s: "c = pre @ s # post" "j = length pre" "called name priority (registration_of s)"
    by auto
  have k: "registration_of s = k"
    using column_unique [OF c, of s s0] called_clash [OF s(3) assms(4)] s(1) s0 by simp
  have "pre @ post \<noteq> []"
  proof
    assume "pre @ post = []"
    then have "registration_of ` set c = {k}" using s(1) k by simp
    then show False using img assms(5) by simp
  qed
  from covers_unload [OF assms(1,2) s(1) this] show ?thesis unfolding k using j s(2) by blast
qed

lemma covers_slices:
  assumes "covers R None (as @ bs) lo hi" "rg_first rg = as @ bs" "covers R p bs b hi" "b \<le> e" "e \<le> hi" "called name priority k"
    "\<And>x. b \<le> x \<Longrightarrow> x < e \<Longrightarrow> k \<in> R x \<and> R x \<noteq> {k}" "\<And>x k'. e \<le> x \<Longrightarrow> x < hi \<Longrightarrow> k' \<in> R x \<Longrightarrow> \<not> called name priority k'"
  shows "\<exists>rg'. unregister_slices name priority (length as) rg = rg' \<and> covers (removing k b e R) None (rg_first rg') lo hi
     \<and> same_settings rg rg'"
  using assms
proof (induction "length bs" arbitrary: as bs R rg p b rule: less_induct)
  case less
  show ?case
  proof (cases bs)
    case Nil
    then have "removing k b e R = R" using less.prems(3,4,5) by (auto simp: removing_def fun_eq_iff)
    then show ?thesis using less.prems(1,2) Nil by (subst unregister_slices.simps) simp
  next
    case (Cons c bs2)
    have mid: "column_ok R c" "column_end c \<le> hi" "covers R (Some b) bs2 (column_end c) hi" "st_start_a (hd c) = b"
      using covers_mid [of R None as c bs2] less.prems(1,3) Cons by auto
    have c: "b < column_end c" using column_ok_less [OF mid(1)] mid(4) by simp
    have img: "registration_of ` set c = R x" if "b \<le> x" "x < column_end c" for x
      using column_ok_registrations [OF mid(1)] that mid(4) by simp
    have first: "rg_first rg = as @ c # bs2" using less.prems(2) Cons by simp
    show ?thesis
    proof (cases "b < e")
      case True
      have b: "k \<in> R b" "R b \<noteq> {k}" using less.prems(7) True by simp_all
      have "column_end c \<le> e"
      proof (rule ccontr)
        assume "\<not> column_end c \<le> e"
        then have "R e = R b" using img [of e] img [of b] c less.prems(4) by simp
        moreover have "e < hi" using \<open>\<not> column_end c \<le> e\<close> mid(2) by (meson not_le_imp_less less_le_trans)
        ultimately show False using less.prems(8) [of e k] b(1) less.prems(6) by auto
      qed
      obtain j c' bs' where u: "find_child name priority 0 c = Some j"
        "rg_first (netsnmp_subtree_unload (length as) j rg) = as @ c' # bs'"
        "covers (removing k b (column_end c) R) None (as @ c' # bs') lo hi"
        "st_start_a (hd c') = b" "column_end c' = column_end c" "length bs' = length bs2"
        using unload_called [OF less.prems(1) [unfolded Cons] first _ less.prems(6)] b mid(4) by auto
      let ?R = "removing k b (column_end c) R" and ?rg = "netsnmp_subtree_unload (length as) j rg"
      have R: "?R x = R x" if "column_end c \<le> x" for x using that by (simp add: removing_def leD)
      have le: "b \<le> x" if "column_end c \<le> x" for x using that c by simp
      have "\<exists>rg'. unregister_slices name priority (length (as @ [c'])) ?rg = rg'
          \<and> covers (removing k (column_end c) e ?R) None (rg_first rg') lo hi \<and> same_settings ?rg rg'"
      proof (rule less.hyps)
        show "length bs' < length bs" using u(6) Cons by simp
        show "covers ?R None ((as @ [c']) @ bs') lo hi" using u(3) by simp
        show "covers ?R (Some b) bs' (column_end c) hi" using covers_mid [OF u(3)] u(4,5) by simp
      qed (use u(2) less.prems(5-8) R le \<open>column_end c \<le> e\<close> in auto)
      moreover have "unregister_slices name priority (length as) rg = unregister_slices name priority (length (as @ [c'])) ?rg"
        using u(1,2,6) first by (subst unregister_slices.simps) simp
      moreover have "removing k (column_end c) e ?R = removing k b e R"
        using c \<open>column_end c \<le> e\<close> by (auto simp: removing_def fun_eq_iff)
      ultimately show ?thesis using same_settings_trans [OF same_settings_unload [of rg "length as" j]] by metis
    next
      case False
      then have e: "b = e" using less.prems(4) by simp
      then have "removing k b e R = R" by (auto simp: removing_def fun_eq_iff)
      moreover have "\<forall>s\<in>set c. \<not> called name priority (registration_of s)"
      proof -
        have "e < hi" using c e mid(2) by simp
        then have "\<forall>k'\<in>registration_of ` set c. \<not> called name priority k'" using img [of b] less.prems(8) [of b] c e by simp
        then show ?thesis by simp
      qed
      then have "find_child name priority 0 c = None" by (simp add: find_child_None)
      ultimately show ?thesis using less.prems(1) [unfolded Cons] first by (subst unregister_slices.simps) simp
    qed
  qed
qed

end
