(* ===== verification/RegistrySpec.thy ===== *)
theory RegistrySpec
  imports RegistryLoad
begin

text \<open>
  What the registry of subtrees promises. The list covers the OIDs without gaps; for every OID the column it falls into
  has exactly the registrations whose name is a prefix of the OID, the one that answers first; registering and
  unregistering keep this; and the search finds the column, with the lookup cache and the shortcut on the offsets.
\<close>

section \<open>Names and ranges\<close>

definition next_name :: "oid \<Rightarrow> oid" where
  "next_name name = name[length name - 1 := name ! (length name - 1) + 1]"

lemma next_name_simps [simp]: "next_name [a] = [a + 1]" "name \<noteq> [] \<Longrightarrow> next_name (a # name) = a # next_name name"
  by (simp_all add: next_name_def) (cases name; simp)

lemma unat_next: "a \<noteq> - 1 \<Longrightarrow> unat (a + 1) = Suc (unat (a :: u_long))"
  using unatSuc [of a] by (metis add.commute add_eq_0_iff)

lemma word_between: "a \<noteq> - 1 \<Longrightarrow> a \<le> b \<and> b < a + 1 \<longleftrightarrow> b = (a :: u_long)"
  by (auto simp: word_le_nat_alt word_less_nat_alt unat_next word_unat_eq_iff)

lemma prefix_range:
  assumes "name \<noteq> []" "last name \<noteq> - 1"
  shows "prefix name x \<longleftrightarrow> name \<le> x \<and> x < next_name name"
  using assms
proof (induction name arbitrary: x)
  case (Cons a name)
  note IH = Cons.IH and prems = Cons.prems
  show ?case
  proof (cases name)
    case Nil
    then have a: "a \<noteq> - 1" using prems by simp
    show ?thesis
    proof (cases x)
      case x: (Cons b xs)
      have "a < a + 1" using unat_next [OF a] by (simp add: word_less_nat_alt)
      moreover have "a < b \<Longrightarrow> \<not> b < a + 1" using a word_between [of a b] by auto
      ultimately show ?thesis using Nil x a by auto
    qed (simp add: Nil)
  next
    case (Cons a' name')
    then have ne: "name \<noteq> []" "last name \<noteq> - 1" using prems by simp_all
    show ?thesis
    proof (cases x)
      case x: (Cons b xs)
      show ?thesis using IH [OF ne, of xs] ne(1) by (auto simp: x)
    qed simp
  qed
qed simp

section \<open>What is registered\<close>

text \<open>
  The abstract registry is the set of its registrations: an OID is served by those whose name is a prefix of it. The
  roots are always there.
\<close>

definition serving :: "registration set \<Rightarrow> oid \<Rightarrow> registration set" where
  "serving S x = {k \<in> S. prefix (fst k) x}"

definition root_registrations :: "registration set" where
  "root_registrations = {([0], 0, Null_handler), ([1], 0, Null_handler), ([2], 0, Null_handler)}"

definition registry_ok :: "registry \<Rightarrow> registration set \<Rightarrow> bool" where
  "registry_ok rg S \<longleftrightarrow> covers (serving S) None (rg_first rg) [0] [3] \<and> cache_ok rg \<and> root_registrations \<subseteq> S"

text \<open>Names that can be registered: an OID below one of the roots, not too long, and its last sub-identifier can be counted up.\<close>

definition valid_name :: "oid \<Rightarrow> bool" where
  "valid_name name \<longleftrightarrow> name \<noteq> [] \<and> length name < 256 \<and> hd name < 3 \<and> last name \<noteq> - 1"

definition registering :: "register_parameters \<Rightarrow> registration" where
  "registering parms = (rp_name parms, word_of_int (rp_priority parms), rp_reginfo parms)"

lemma prefixes_serving: "prefixes (serving S)"
  by (simp add: prefixes_def serving_def)

lemma valid_name_range:
  assumes "valid_name name"
  shows "prefix name x \<longleftrightarrow> name \<le> x \<and> x < next_name name" "name < next_name name" "[0] \<le> name" "next_name name \<le> [3]"
proof -
  have n: "name \<noteq> []" "last name \<noteq> - 1" "hd name < 3" using assms by (simp_all add: valid_name_def)
  show p: "prefix name x \<longleftrightarrow> name \<le> x \<and> x < next_name name" for x by (rule prefix_range [OF n(1,2)])
  show "name < next_name name" using p [of name] by simp
  show "[0] \<le> name" using n(1) by (cases name) (auto simp: word_neq_0_conv)
  show "next_name name \<le> [3]"
  proof (cases name)
    case (Cons a as)
    show ?thesis
    proof (cases "as = []")
      case True
      have "unat (a + 1) \<le> unat (3 :: u_long)"
        using n(2,3) Cons True unat_next [of a] by (simp add: word_less_nat_alt)
      then have "a + 1 \<le> 3" by (simp add: word_le_nat_alt)
      then show ?thesis using Cons True by (auto simp: order_le_less)
    qed (use n(3) Cons in simp)
  qed (use n(1) in simp)
qed

lemma new_subtree_fields:
  assumes "valid_name (rp_name parms)"
  shows "st_start_a (new_subtree var parms) = rp_name parms" "st_end_a (new_subtree var parms) = next_name (rp_name parms)"
    "registration_of (new_subtree var parms) = registering parms" "st_name_a (new_subtree var parms) = rp_name parms"
proof -
  have "unat (word_of_nat (length (rp_name parms)) :: u_char) = length (rp_name parms)"
    using assms by (simp add: valid_name_def unat_of_nat)
  then show "st_start_a (new_subtree var parms) = rp_name parms" "st_end_a (new_subtree var parms) = next_name (rp_name parms)"
    "registration_of (new_subtree var parms) = registering parms" "st_name_a (new_subtree var parms) = rp_name parms"
    by (simp_all add: new_subtree_def registration_of_def registering_def next_name_def Let_def)
qed

lemma adding_serving:
  assumes "valid_name (fst k)"
  shows "adding k (fst k) (next_name (fst k)) (serving S) = serving (insert k S)"
  using valid_name_range(1) [OF assms] by (auto simp: adding_def serving_def fun_eq_iff)

lemma same_prefix: "prefix a x \<Longrightarrow> prefix b x \<Longrightarrow> length a = length b \<Longrightarrow> a = b"
  by (auto simp: prefix_def)

lemma load_registration:
  assumes "covers (serving S) None (rg_first rg) [0] [3]" "root_registrations \<subseteq> S" "valid_name (rp_name parms)"
  defines "k \<equiv> registering parms"
  shows "if \<exists>h. (fst k, fst (snd k), h) \<in> S
    then \<exists>cols. load_inloop False (new_subtree var parms) rg = Some (Done MIB_DUPLICATE_REGISTRATION (rg\<lparr>rg_first := cols\<rparr>))
      \<and> covers (serving S) None cols [0] [3]
    else \<exists>cols. load_inloop False (new_subtree var parms) rg = Some (Done MIB_REGISTERED_OK (rg\<lparr>rg_first := cols\<rparr>))
      \<and> covers (serving (insert k S)) None cols [0] [3]"
proof -
  let ?new = "new_subtree var parms" and ?name = "rp_name parms"
  note new = new_subtree_fields [OF assms(3), of var] and range = valid_name_range [OF assms(3)]
  have k: "fst k = ?name" by (simp add: k_def registering_def)
  show ?thesis
  proof (cases "\<exists>h. (fst k, fst (snd k), h) \<in> S")
    case True
    then obtain h where h: "(?name, fst (snd k), h) \<in> S" using k by auto
    have "\<exists>cols'. load_subtree False (rg_first rg) ?new = Some (Refused MIB_DUPLICATE_REGISTRATION cols') \<and> covers (serving S) None cols' [0] [3]"
    proof (rule load_refused [OF prefixes_serving assms(1)])
      show "(?name, fst (snd k), h) \<in> serving S (st_start_a ?new)" using h by (simp add: serving_def new)
      show "clash (?name, fst (snd k), h) (registration_of ?new)" using k by (simp add: clash_def new flip: k_def)
    qed (use new range in auto)
    then show ?thesis using True by (auto simp: load_inloop_def)
  next
    case False
    have no_clash: "\<not> clash k' k" if "k' \<in> serving S x" "prefix ?name x" for k' x
    proof
      assume c: "clash k' k"
      then have "fst k' = ?name" using that same_prefix k by (auto simp: clash_def serving_def)
      then have "k' = (fst k, fst (snd k), snd (snd k'))" using c k by (cases k') (auto simp: clash_def)
      then show False using that(1) False by (metis (no_types, lifting) mem_Collect_eq serving_def)
    qed
    have "loadable (serving S) ?new"
      using no_clash range(1,2) by (auto simp: loadable_def new simp flip: k_def)
    moreover have "\<exists>k'\<in>serving S [0]. answers_before k' k" if "?name = [0]"
    proof
      have r: "([0], 0, Null_handler) \<in> S" using assms(2) by (auto simp: root_registrations_def)
      then show s: "([0], 0, Null_handler) \<in> serving S [0]" by (simp add: serving_def)
      have "fst (snd k) \<noteq> 0" using False r k that by auto
      then show "answers_before ([0], 0, Null_handler) k" using k that by (simp add: answers_before_def word_neq_0_conv)
    qed
    ultimately have "\<exists>cols'. load_subtree False (rg_first rg) ?new = Some (Loaded cols')
        \<and> covers (adding k (fst k) (next_name (fst k)) (serving S)) None cols' [0] [3]"
      using load_covers [OF prefixes_serving assms(1), of ?new] range k by (simp add: new flip: k_def)
    then show ?thesis using False adding_serving [of k S] assms(3) k by (auto simp: load_inloop_def)
  qed
qed

section \<open>The roots\<close>

lemma lookup_after:
  assumes "covers R None cols lo hi" "hi \<le> x" "cols \<noteq> []"
  shows "lookup x cols = Some (length cols - 1)" "column_end (last cols) = hi"
proof -
  have "st_start_a (hd c) \<le> x" if c_in: "c \<in> set cols" for c
  proof -
    obtain as bs where c: "cols = as @ c # bs" using c_in by (meson split_list)
    have "column_ok R c" "column_end c \<le> hi" using covers_mid assms(1) c by blast+
    then show ?thesis using column_ok_less [of R c] assms(2) by simp
  qed
  then have tw: "takeWhile (\<lambda>c. st_start_a (hd c) \<le> x) cols = cols" by (simp add: takeWhile_eq_all_conv)
  show "lookup x cols = Some (length cols - 1)" using assms(3) unfolding lookup_def tw by simp
  obtain as c where c: "cols = as @ [c]" using assms(3) by (metis rev_exhaust)
  show "column_end (last cols) = hi" using assms(1) unfolding c covers_append by auto
qed

text \<open>A subtree that starts where the columns end is appended.\<close>

lemma load_append:
  assumes "covers R None cols lo hi" "cols \<noteq> []" "st_start_a new = hi" "hi < st_end_a new"
    "\<And>x. lo \<le> x \<Longrightarrow> x < hi \<Longrightarrow> R' x = R x" "\<And>x. hi \<le> x \<Longrightarrow> x < st_end_a new \<Longrightarrow> R' x = {registration_of new}"
  shows "\<exists>cols'. load_subtree copy cols new = Some (Loaded cols') \<and> covers R' None cols' lo (st_end_a new) \<and> cols' \<noteq> []"
proof -
  let ?u = "uncached cols" and ?n = "change_next_column [hd (last cols)] new"
  have rg: "rg_first ?u = cols" "rg_cache_size ?u = 0" by (simp_all add: uncached_def)
  have prev: "fst (netsnmp_subtree_find_prev hi None ?u) = Some (length cols - 1)"
    using find_prev_uncached [of R ?u lo hi None hi] assms(1) lookup_after(1) [OF assms(1) order_refl assms(2)] rg by simp
  have last: "hd (cols ! (length cols - 1)) = hd (last cols)" using assms(2) by (simp add: last_conv_nth)
  have "fst (netsnmp_subtree_find hi None ?u) = None"
    using prev last lookup_after(2) [OF assms(1) order_refl assms(2)] find_prev_first [of hi None ?u] rg
    by (cases "netsnmp_subtree_find_prev hi None ?u")
      (auto simp: netsnmp_subtree_find_def snmp_oid_compare_neg column_end_def)
  then have "load_subtree copy cols new = Some (Loaded (cols @ [[?n]]))"
    using assms(2,3) prev last by (subst load_subtree.simps) (simp add: load_virgin_def)
  moreover have "covers R' None cols lo hi" by (rule covers_cong [OF assms(1)]) (simp add: assms(5))
  moreover have "covers R' (last_start None cols) [[?n]] hi (st_end_a new)"
    using assms(2-4,6) by (simp add: column_ok_def change_next_column_def offsets_ok_def last_start_def column_end_def)
  ultimately show ?thesis by (auto simp: covers_append)
qed

lemma covers_map:
  assumes "\<And>s. core (f s) = core s" "\<And>s. st_oid_off (f s) = st_oid_off s"
  shows "covers R p cs lo hi \<Longrightarrow> covers R p (map (map f) cs) lo hi"
proof (induction cs arbitrary: p lo)
  case (Cons c cs)
  have c: "column_ok R c" "c \<noteq> []" using Cons.prems column_ok_not_Nil by auto
  have "map core c = map core (map f c)" using assms(1) by simp
  note ok = column_ok_core [OF c(1) this] core_hd [OF this c(2)]
  have "offsets_ok p (map f c)" using Cons.prems ok(2) assms(2) by (auto simp: offsets_ok_def split: option.splits)
  then show ?case using ok Cons by simp
qed simp

section \<open>Registering\<close>

definition size_ok :: "registry \<Rightarrow> bool" where
  "size_ok rg \<longleftrightarrow> 0 \<le> rg_cache_size rg \<and> rg_cache_size rg \<le> 32 \<and> whole_cache rg"

lemma cache_ok_size: "cache_ok rg \<Longrightarrow> size_ok rg"
  by (auto simp: cache_ok_def size_ok_def whole_cache_def context_ok_def split: option.split)

lemma cache_ok_invalidate: "size_ok rg \<Longrightarrow> cache_ok (invalidate_lookup_cache rg)"
  by (cases "rg_cache rg")
    (auto simp: cache_ok_def size_ok_def whole_cache_def context_ok_def invalidate_lookup_cache_def
      get_context_lookup_cache_def new_cache_def)

lemma set_size_simps [simp]:
  "rg_first (netsnmp_set_lookup_cache_size n rg) = rg_first rg" "rg_callbacks (netsnmp_set_lookup_cache_size n rg) = rg_callbacks rg"
  "0 \<le> n \<Longrightarrow> n \<le> 32 \<Longrightarrow> rg_cache_size (netsnmp_set_lookup_cache_size n rg) = n"
  "whole_cache (netsnmp_set_lookup_cache_size n rg) = whole_cache rg"
  by (auto simp: netsnmp_set_lookup_cache_size_def SUBTREE_MAX_CACHE_SIZE_def whole_cache_def)

lemma invalidate_simps [simp]:
  "rg_cache_size (invalidate_lookup_cache rg) = rg_cache_size rg" "rg_callbacks (invalidate_lookup_cache rg) = rg_callbacks rg"
  using same_settings_invalidate [of rg] by (simp_all add: same_settings_def)

lemma whole_cache_update [simp]:
  "whole_cache (rg\<lparr>rg_first := cols\<rparr>) = whole_cache rg" "whole_cache (rg\<lparr>rg_callbacks := cs\<rparr>) = whole_cache rg"
  by (simp_all add: whole_cache_def)

lemma finish_ok:
  assumes "whole_cache rg" "0 \<le> n" "n \<le> 32"
  shows "cache_ok (invalidate_lookup_cache (netsnmp_set_lookup_cache_size n rg))"
  using assms by (intro cache_ok_invalidate) (simp add: size_ok_def)

lemma register_mib_with_result:
  assumes "rp_name parms \<noteq> []" "rp_range_subid parms = 0" "size_ok rg"
    "load False (new_subtree var parms) (netsnmp_set_lookup_cache_size 0 rg) = Some (Done res rg1)" "whole_cache rg1"
  shows "\<exists>rg'. register_mib_with load detach var parms cb rg = Some (Done res rg') \<and> cache_ok rg'
    \<and> rg_cache_size rg' = rg_cache_size rg
    \<and> rg_callbacks rg' = rg_callbacks rg1 @ (if res = MIB_REGISTERED_OK \<and> cb then [REGISTER_OID parms] else [])
    \<and> (\<forall>R lo hi. covers R None (rg_first rg1) lo hi \<longrightarrow> covers R None (rg_first rg') lo hi) \<and> (rg_first rg' = [] \<longrightarrow> rg_first rg1 = [])"
proof -
  let ?new = "new_subtree var parms" and ?n = "rg_cache_size rg"
  have n: "0 \<le> ?n" "?n \<le> 32" using assms(3) by (simp_all add: size_ok_def)
  let ?f = "\<lambda>s. if is_part_at_start ?new s then register_mib_detach_node s else s"
  have f: "core (?f s) = core s" "st_oid_off (?f s) = st_oid_off s" for s
    by (simp_all add: core_def register_mib_detach_node_def registration_of_def)
  show ?thesis
  proof (cases "res = MIB_REGISTERED_OK")
    case False
    then show ?thesis using assms finish_ok [OF assms(5) n] n by (simp add: register_mib_with_def Let_def)
  next
    case True
    let ?rg2 = "if detach then rg1\<lparr>rg_first := map (map ?f) (rg_first rg1)\<rparr> else rg1"
    let ?rg3 = "if cb then ?rg2\<lparr>rg_callbacks := rg_callbacks ?rg2 @ [REGISTER_OID parms]\<rparr> else ?rg2"
    have "register_mib_with load detach var parms cb rg =
        Some (Done res (invalidate_lookup_cache (netsnmp_set_lookup_cache_size ?n ?rg3)))"
      using True assms by (simp add: register_mib_with_def Let_def)
    moreover have "whole_cache ?rg3" using assms(5) by simp
    moreover have "covers R None (rg_first rg1) lo hi \<longrightarrow> covers R None (rg_first ?rg3) lo hi" for R lo hi
      using covers_map [of ?f, OF f] by simp
    ultimately show ?thesis using finish_ok [of ?rg3, OF _ n] n True by auto
  qed
qed

text \<open>The three null handlers in an empty registry.\<close>

lemma load_empty: "load_subtree copy [] new = Some (Loaded [[new]])"
proof -
  have "netsnmp_subtree_find_prev x None (uncached []) = (None, uncached [])" for x
    by (simp add: netsnmp_subtree_find_prev_def uncached_def)
  then show ?thesis by (subst load_subtree.simps) (simp add: netsnmp_subtree_find_def load_virgin_def)
qed

lemma register_null:
  assumes "size_ok rg" "rg_first rg = [] \<and> k = 0 \<and> S = {} \<or> covers (serving S) None (rg_first rg) [0] [k] \<and> rg_first rg \<noteq> []"
    "k < 3" "\<forall>r\<in>S. \<exists>j<k. fst r = [j]"
  shows "\<exists>rg'. register_mib_with load_inloop detach [] (null_parameters k) True rg = Some (Done MIB_REGISTERED_OK rg')
    \<and> size_ok rg' \<and> rg_cache_size rg' = rg_cache_size rg
    \<and> rg_callbacks rg' = rg_callbacks rg @ [REGISTER_OID (null_parameters k)]
    \<and> covers (serving (insert ([k], 0, Null_handler) S)) None (rg_first rg') [0] [k + 1] \<and> rg_first rg' \<noteq> []"
proof -
  let ?new = "new_subtree [] (null_parameters k)" and ?R = "serving (insert ([k], 0, Null_handler) S)"
  have v: "valid_name [k]" using assms(3) by (auto simp: valid_name_def)
  then have "valid_name (rp_name (null_parameters k))" by (simp add: null_parameters_def)
  note new = new_subtree_fields [OF this, of "[]"]
  have new: "st_start_a ?new = [k]" "st_end_a ?new = [k + 1]" "registration_of ?new = ([k], 0, Null_handler)"
    using new by (simp_all add: null_parameters_def registering_def)
  note range = valid_name_range [OF v, simplified]
  have here: "?R x = {registration_of ?new}" if "[k] \<le> x" "x < [k + 1]" for x
  proof -
    have x: "prefix [k] x" using range(1) that by blast
    moreover have "\<not> prefix (fst r) x" if r: "r \<in> S" for r
    proof
      assume "prefix (fst r) x"
      moreover obtain j where "j < k" "fst r = [j]" using assms(4) r by blast
      ultimately show False using x by (cases x) auto
    qed
    ultimately show ?thesis using new by (auto simp: serving_def)
  qed
  have load: "\<exists>cols. load_subtree False (rg_first rg) ?new = Some (Loaded cols) \<and> covers ?R None cols [0] [k + 1] \<and> cols \<noteq> []"
  proof (cases "rg_first rg = []")
    case True
    then have k: "k = 0" using assms(2) by simp
    have "column_ok ?R [?new]"
      unfolding column_ok_def using here new range(2) by (auto simp: column_end_def)
    then have "covers ?R None [[?new]] [0] [k + 1]"
      using new k by (simp add: column_end_def offsets_ok_def)
    then show ?thesis using True load_empty by auto
  next
    case False
    then have c: "covers (serving S) None (rg_first rg) [0] [k]" using assms(2) by blast
    have "?R x = serving S x" if "x < [k]" for x
      using range(1) [of x] that by (auto simp: serving_def)
    from load_append [OF c False new(1), of ?R False] this here new range show ?thesis by simp
  qed
  then obtain cols where cols: "load_inloop False ?new (netsnmp_set_lookup_cache_size 0 rg)
      = Some (Done MIB_REGISTERED_OK ((netsnmp_set_lookup_cache_size 0 rg)\<lparr>rg_first := cols\<rparr>))"
    "covers ?R None cols [0] [k + 1]" "cols \<noteq> []" by (auto simp: load_inloop_def)
  have whole: "whole_cache ((netsnmp_set_lookup_cache_size 0 rg)\<lparr>rg_first := cols\<rparr>)" using assms(1) by (simp add: size_ok_def)
  have p: "rp_name (null_parameters k) \<noteq> []" "rp_range_subid (null_parameters k) = 0" by (simp_all add: null_parameters_def)
  from register_mib_with_result [where load = load_inloop and var = "[]", OF p assms(1) cols(1) whole, of detach True] show ?thesis
    using cols(2,3) by (auto dest: cache_ok_size)
qed

lemma register_nulls_ok:
  assumes "size_ok rg" "rg_first rg = []"
  shows "\<exists>rg'. register_nulls detach [0, 1, 2] rg = Some (Done MIB_REGISTERED_OK rg')
    \<and> size_ok rg' \<and> rg_cache_size rg' = rg_cache_size rg
    \<and> rg_callbacks rg' = rg_callbacks rg @ map (REGISTER_OID \<circ> null_parameters) [0, 1, 2]
    \<and> covers (serving root_registrations) None (rg_first rg') [0] [3]"
proof -
  obtain r0 where r0: "register_mib_with load_inloop detach [] (null_parameters 0) True rg = Some (Done MIB_REGISTERED_OK r0)"
    "size_ok r0" "rg_cache_size r0 = rg_cache_size rg" "rg_callbacks r0 = rg_callbacks rg @ [REGISTER_OID (null_parameters 0)]"
    "covers (serving {([0], 0, Null_handler)}) None (rg_first r0) [0] [1]" "rg_first r0 \<noteq> []"
    using register_null [OF assms(1), of 0 "{}" detach] assms(2) by auto
  obtain r1 where r1: "register_mib_with load_inloop detach [] (null_parameters 1) True r0 = Some (Done MIB_REGISTERED_OK r1)"
    "size_ok r1" "rg_cache_size r1 = rg_cache_size r0" "rg_callbacks r1 = rg_callbacks r0 @ [REGISTER_OID (null_parameters 1)]"
    "covers (serving {([1], 0, Null_handler), ([0], 0, Null_handler)}) None (rg_first r1) [0] [2]" "rg_first r1 \<noteq> []"
    using register_null [OF r0(2), of 1 "{([0], 0, Null_handler)}" detach] r0(5,6) by auto
  obtain r2 where r2: "register_mib_with load_inloop detach [] (null_parameters 2) True r1 = Some (Done MIB_REGISTERED_OK r2)"
    "size_ok r2" "rg_cache_size r2 = rg_cache_size r1" "rg_callbacks r2 = rg_callbacks r1 @ [REGISTER_OID (null_parameters 2)]"
    "covers (serving (insert ([2], 0, Null_handler) {([1], 0, Null_handler), ([0], 0, Null_handler)})) None (rg_first r2) [0] [3]"
    using register_null [OF r1(2), of 2 "{([1], 0, Null_handler), ([0], 0, Null_handler)}" detach] r1(5,6) by auto
  have "insert ([2], 0, Null_handler) {([1], 0, Null_handler), ([0], 0, Null_handler)} = root_registrations"
    by (auto simp: root_registrations_def)
  then show ?thesis using r0 r1 r2 by simp
qed

text \<open>The state of the registry of a context, which is empty until something is registered.\<close>

definition registry_state :: "registry \<Rightarrow> registration set \<Rightarrow> bool" where
  "registry_state rg S \<longleftrightarrow> cache_ok rg \<and>
     (if rg_first rg = [] then S = {} else covers (serving S) None (rg_first rg) [0] [3] \<and> root_registrations \<subseteq> S)"

definition like_registered :: "registration set \<Rightarrow> registration \<Rightarrow> bool" where
  "like_registered S k \<longleftrightarrow> (\<exists>h. (fst k, fst (snd k), h) \<in> S)"

lemma subtree_load_ok:
  assumes "registry_state rg0 S" "rg = netsnmp_set_lookup_cache_size 0 rg0" "valid_name (rp_name parms)"
  defines "S' \<equiv> S \<union> root_registrations" and "k \<equiv> registering parms"
  defines "dup \<equiv> like_registered S' k"
  shows "\<exists>rg'. netsnmp_subtree_load detach False (new_subtree var parms) rg =
      Some (Done (if dup then MIB_DUPLICATE_REGISTRATION else MIB_REGISTERED_OK) rg')
    \<and> covers (serving (if dup then S' else insert k S')) None (rg_first rg') [0] [3] \<and> whole_cache rg'
    \<and> rg_callbacks rg' = rg_callbacks rg0 @ (if rg_first rg0 = [] then map (REGISTER_OID \<circ> null_parameters) [0, 1, 2] else [])"
proof -
  have sz: "size_ok rg" using assms(1) cache_ok_size [of rg0] by (simp add: registry_state_def assms(2) size_ok_def)
  obtain rg1 where rg1: "(if rg_first rg = [] then register_nulls detach [0, 1, 2] rg else Some (Done MIB_REGISTERED_OK rg)) =
      Some (Done MIB_REGISTERED_OK rg1)" "covers (serving S') None (rg_first rg1) [0] [3]" "whole_cache rg1"
    "rg_callbacks rg1 = rg_callbacks rg0 @ (if rg_first rg0 = [] then map (REGISTER_OID \<circ> null_parameters) [0, 1, 2] else [])"
  proof (cases "rg_first rg0 = []")
    case True
    then have "S' = root_registrations" "rg_first rg = []" using assms(1) by (simp_all add: S'_def registry_state_def assms(2))
    then show ?thesis using that register_nulls_ok [OF sz, of detach] True by (auto simp: size_ok_def assms(2))
  next
    case False
    then have "S' = S" "covers (serving S) None (rg_first rg) [0] [3]" using assms(1) by (auto simp: S'_def registry_state_def assms(2))
    then show ?thesis using that [of rg] False sz by (simp add: assms(2) size_ok_def)
  qed
  have load: "netsnmp_subtree_load detach False (new_subtree var parms) rg = load_inloop False (new_subtree var parms) rg1"
    unfolding netsnmp_subtree_load_def rg1(1) by simp
  show ?thesis
    using load_registration [OF rg1(2) _ assms(3), of var] rg1(3,4) unfolding load
    by (auto simp: S'_def dup_def k_def like_registered_def split: if_splits)
qed

text \<open>Registering inserts, or is refused.\<close>

lemma registering_is_insertion:
  assumes "registry_state rg S" "valid_name (rp_name parms)" "rp_range_subid parms = 0"
  defines "S' \<equiv> S \<union> root_registrations" and "k \<equiv> registering parms"
  defines "dup \<equiv> like_registered S' k"
  shows "\<exists>rg'. netsnmp_register_mib detach var parms cb rg =
      Some (Done (if dup then MIB_DUPLICATE_REGISTRATION else MIB_REGISTERED_OK) rg')
    \<and> registry_state rg' (if dup then S' else insert k S') \<and> rg_cache_size rg' = rg_cache_size rg
    \<and> rg_callbacks rg' = rg_callbacks rg @ (if rg_first rg = [] then map (REGISTER_OID \<circ> null_parameters) [0, 1, 2] else [])
        @ (if \<not> dup \<and> cb then [REGISTER_OID parms] else [])"
proof -
  let ?res = "if dup then MIB_DUPLICATE_REGISTRATION else MIB_REGISTERED_OK"
  obtain rg1 where rg1: "netsnmp_subtree_load detach False (new_subtree var parms) (netsnmp_set_lookup_cache_size 0 rg) = Some (Done ?res rg1)"
    "covers (serving (if dup then S' else insert k S')) None (rg_first rg1) [0] [3]" "whole_cache rg1"
    "rg_callbacks rg1 = rg_callbacks rg @ (if rg_first rg = [] then map (REGISTER_OID \<circ> null_parameters) [0, 1, 2] else [])"
    using subtree_load_ok [OF assms(1) refl assms(2), of detach var] unfolding S'_def k_def dup_def by blast
  have "rp_name parms \<noteq> []" using assms(2) by (simp add: valid_name_def)
  moreover have "size_ok rg" using assms(1) cache_ok_size by (simp add: registry_state_def)
  ultimately obtain rg' where rg': "netsnmp_register_mib detach var parms cb rg = Some (Done ?res rg')" "cache_ok rg'"
    "rg_cache_size rg' = rg_cache_size rg"
    "rg_callbacks rg' = rg_callbacks rg1 @ (if ?res = MIB_REGISTERED_OK \<and> cb then [REGISTER_OID parms] else [])"
    "covers (serving (if dup then S' else insert k S')) None (rg_first rg') [0] [3]"
    using register_mib_with_result [where load = "netsnmp_subtree_load detach" and var = var, OF _ assms(3) _ rg1(1,3), of detach cb] rg1(2)
    unfolding netsnmp_register_mib_def by blast
  have "rg_first rg' \<noteq> []" using rg'(5) by (cases "rg_first rg'") auto
  then have "registry_state rg' (if dup then S' else insert k S')"
    using rg'(2,5) by (auto simp: registry_state_def S'_def)
  then show ?thesis using rg' rg1(4) by (auto simp: registry_consts split: if_splits)
qed

section \<open>Unregistering\<close>

lemma removing_serving:
  assumes "valid_name (fst k)"
  shows "removing k (fst k) (next_name (fst k)) (serving S) = serving (S - {k})"
  using valid_name_range(1) [OF assms] by (auto simp: removing_def serving_def fun_eq_iff)

lemma unregister_one_ok:
  assumes "covers (serving S) None (rg_first rg) [0] [3]" "root_registrations \<subseteq> S" "valid_name name" "k \<in> S" "k \<notin> root_registrations"
    "called name priority k"
  shows "\<exists>rg'. unregister_one name priority rg = Some rg' \<and> covers (serving (S - {k})) None (rg_first rg') [0] [3] \<and> same_settings rg rg'"
proof -
  let ?R = "serving S" and ?e = "next_name name"
  note range = valid_name_range [OF assms(3)]
  have name: "fst k = name" using assms(6) by (simp add: called_def)
  have "name < [3]" using range(2,4) by simp
  from covers_column [OF assms(1) range(3) this] obtain as c bs where
    c: "rg_first rg = as @ c # bs" "st_start_a (hd c) \<le> name" "name < column_end c" by blast
  note cov = assms(1) [unfolded c(1)]
  note mid = covers_mid [OF cov]
  have same: "?R x = ?R name" if "st_start_a (hd c) \<le> x" "x < column_end c" for x
    using column_ok_registrations [of ?R c] mid that c(2,3) by metis
  have in_R: "k \<in> ?R x \<longleftrightarrow> name \<le> x \<and> x < ?e" for x using assms(4) name range(1) by (simp add: serving_def)
  have start: "st_start_a (hd c) = name"
    using same [OF order_refl] in_R [of "st_start_a (hd c)"] in_R [of name] c(2) range(2) column_ok_less mid by fastforce
  have last: "column_end c \<le> ?e"
  proof (rule ccontr)
    assume "\<not> column_end c \<le> ?e"
    then have "?R ?e = ?R name" using same [of ?e] range(2) start by simp
    then show False using in_R [of ?e] in_R [of name] range(2) by simp
  qed
  have others: "?R x \<noteq> {k}" if "name \<le> x" "x < ?e" for x
  proof -
    have "([hd name], 0, Null_handler) \<in> root_registrations"
    proof -
      have "hd name < 3" using assms(3) by (simp add: valid_name_def)
      then have "unat (hd name) < 3" by (simp add: word_less_nat_alt)
      then have "unat (hd name) = 0 \<or> unat (hd name) = 1 \<or> unat (hd name) = 2" by linarith
      then have "hd name = 0 \<or> hd name = 1 \<or> hd name = 2" by (auto simp: word_unat_eq_iff)
      then show ?thesis by (auto simp: root_registrations_def)
    qed
    moreover have "prefix name x" using range(1) that by blast
    then have "prefix [hd name] x" using assms(3) by (auto simp: valid_name_def prefix_def neq_Nil_conv)
    ultimately have "([hd name], 0, Null_handler) \<in> ?R x" "([hd name], 0, Null_handler) \<noteq> k" using assms(2,5) by (auto simp: serving_def)
    then show ?thesis by blast
  qed
  have find: "fst (netsnmp_subtree_find name (if rg_first rg = [] then None else Some 0) rg) = Some (length as)"
    using find_column [OF cov c(2,3) c(1), of "Some 0"] c(1) by simp
  obtain j c' bs' where u: "find_child name priority 0 c = Some j"
    "rg_first (netsnmp_subtree_unload (length as) j rg) = as @ c' # bs'"
    "covers (removing k name (column_end c) ?R) None (as @ c' # bs') [0] [3]"
    "st_start_a (hd c') = name" "column_end c' = column_end c" "length bs' = length bs"
    using unload_called [OF cov c(1) _ assms(6)] in_R [of name] others [of name] range(2) start by auto
  let ?R1 = "removing k name (column_end c) ?R" and ?rg = "netsnmp_subtree_unload (length as) j rg"
  have R1: "?R1 x = ?R x" if "column_end c \<le> x" for x using that by (simp add: removing_def leD)
  have le: "name \<le> x" if "column_end c \<le> x" for x using that c(3) by simp
  have gone: "\<not> called name priority k'" if "k' \<in> ?R x" "?e \<le> x" for k' x
    using that range(1) [of x] by (auto simp: serving_def called_def)
  have "\<exists>rg'. unregister_slices name priority (length (as @ [c'])) ?rg = rg'
      \<and> covers (removing k (column_end c) ?e ?R1) None (rg_first rg') [0] [3] \<and> same_settings ?rg rg'"
  proof (rule covers_slices)
    show "covers ?R1 None ((as @ [c']) @ bs') [0] [3]" using u(3) by simp
    show "covers ?R1 (Some name) bs' (column_end c) [3]" using covers_mid [OF u(3)] u(4,5) by simp
    show "k \<in> ?R1 x \<and> ?R1 x \<noteq> {k}" if "column_end c \<le> x" "x < ?e" for x
      using R1 [OF that(1)] le [OF that(1)] in_R others that(2) by simp
    show "\<not> called name priority k'" if "?e \<le> x" "x < [3]" "k' \<in> ?R1 x" for x k'
      using gone that R1 last by (metis order_trans)
  qed (use u(2) last range(4) assms(6) in auto)
  moreover have "removing k (column_end c) ?e ?R1 = serving (S - {k})"
  proof -
    have "removing k (column_end c) ?e ?R1 = removing k name ?e ?R"
      using c(3) last by (auto simp: removing_def fun_eq_iff)
    then show ?thesis using removing_serving [of k S] name assms(3) by simp
  qed
  moreover have "unregister_one name priority rg = Some (unregister_slices name priority (length (as @ [c'])) ?rg)"
    unfolding unregister_one_def find using u(1,2,6) c(1) by (simp add: Let_def)
  ultimately show ?thesis using same_settings_trans [OF same_settings_unload [of rg "length as" j]] by metis
qed

lemma covers_registrations: "covers (serving S) p cs lo hi \<Longrightarrow> c \<in> set cs \<Longrightarrow> registration_of ` set c \<subseteq> S"
proof (induction cs arbitrary: p lo)
  case (Cons d cs)
  have "registration_of ` set d = serving S (st_start_a (hd d))" using Cons.prems(1) by (intro column_start_registrations) simp
  then have "registration_of ` set d \<subseteq> S" by (auto simp: serving_def)
  then show ?case using Cons.IH [of "Some lo" "column_end d"] Cons.prems by auto
qed simp

lemma unregister_one_unknown:
  assumes "covers (serving S) None (rg_first rg) [0] [3] \<or> rg_first rg = []" "rg_cache_size rg = 0" "\<forall>k\<in>S. \<not> called name priority k"
  shows "unregister_one name priority rg = None"
proof (cases "fst (netsnmp_subtree_find name (if rg_first rg = [] then None else Some 0) rg)")
  case (Some i)
  have "fst (netsnmp_subtree_find_prev name (if rg_first rg = [] then None else Some 0) rg) = Some i"
    using Some by (auto simp: netsnmp_subtree_find_def split: option.splits prod.splits if_splits)
  moreover have "rg_first rg \<noteq> []"
  proof
    assume e: "rg_first rg = []"
    then show False using calculation assms(2) by (simp add: netsnmp_subtree_find_prev_def)
  qed
  ultimately have l: "lookup name (rg_first rg) = Some i" and c: "covers (serving S) None (rg_first rg) [0] [3]"
    using assms(1) find_prev_uncached [of "serving S" rg "[0]" "[3]" "Some 0" name] by auto
  have "i < length (rg_first rg)"
  proof -
    define n where "n = length (takeWhile (\<lambda>c. st_start_a (hd c) \<le> name) (rg_first rg))"
    have "n \<le> length (rg_first rg)" unfolding n_def by (rule length_takeWhile_le)
    moreover have "n \<noteq> 0 \<and> i = n - 1" using l unfolding lookup_def n_def [symmetric] by (simp add: Let_def split: if_splits)
    ultimately show ?thesis by linarith
  qed
  then have "registration_of ` set (rg_first rg ! i) \<subseteq> S" using covers_registrations [OF c] by simp
  then have "find_child name priority 0 (rg_first rg ! i) = None" using assms(3) by (auto simp: find_child_None)
  then show ?thesis by (simp add: unregister_one_def Some)
qed (simp add: unregister_one_def)

lemma invalidate_set_size:
  "netsnmp_set_lookup_cache_size n (invalidate_lookup_cache rg) = invalidate_lookup_cache (netsnmp_set_lookup_cache_size n rg)"
  by (cases "rg_cache rg")
    (simp_all add: invalidate_lookup_cache_def get_context_lookup_cache_def netsnmp_set_lookup_cache_size_def)

text \<open>Unregistering removes, or finds nothing; then the lookup cache stays switched off.\<close>

lemma unregistering_is_removal:
  assumes "registry_state rg S" "valid_name name" "(name, p, h) \<in> S - root_registrations"
  shows "\<exists>rg'. unregister_mib_context name (uint p) 0 ubound rg = Some (MIB_UNREGISTERED_OK, name, rg')
    \<and> registry_state rg' (S - {(name, p, h)}) \<and> rg_cache_size rg' = rg_cache_size rg
    \<and> rg_callbacks rg' = rg_callbacks rg @ [UNREGISTER_OID name (uint p) 0 ubound]"
proof -
  let ?k = "(name, p, h)" and ?rg0 = "netsnmp_set_lookup_cache_size 0 rg"
  have c: "covers (serving S) None (rg_first ?rg0) [0] [3]" "root_registrations \<subseteq> S" "cache_ok rg"
    using assms(1,3) by (auto simp: registry_state_def split: if_splits)
  have n: "0 \<le> rg_cache_size rg" "rg_cache_size rg \<le> 32" "whole_cache ?rg0"
    using cache_ok_size [OF c(3)] by (simp_all add: size_ok_def)
  obtain rg1 where rg1: "unregister_one name (uint p) ?rg0 = Some rg1" "covers (serving (S - {?k})) None (rg_first rg1) [0] [3]"
    "same_settings ?rg0 rg1"
    using unregister_one_ok [OF c(1,2) assms(2), of ?k "uint p"] assms(3) by (auto simp: called_def)
  let ?rg2 = "invalidate_lookup_cache (rg1\<lparr>rg_callbacks := rg_callbacks rg1 @ [UNREGISTER_OID name (uint p) 0 ubound]\<rparr>)"
  have loop: "unregister_loop (-1) k ubound (uint p) name ?rg0 = Some (MIB_UNREGISTERED_OK, name, rg1)" for k
    by (subst unregister_loop.simps) (simp add: rg1(1))
  have "unregister_mib_context name (uint p) 0 ubound rg =
      Some (MIB_UNREGISTERED_OK, name, netsnmp_set_lookup_cache_size (rg_cache_size rg) ?rg2)"
    by (simp add: unregister_mib_context_def Let_def loop)
  moreover
  have whole: "whole_cache rg1" using rg1(3) n(3) by (simp add: same_settings_def)
  have "cache_ok (netsnmp_set_lookup_cache_size (rg_cache_size rg) ?rg2)"
    unfolding invalidate_set_size using whole n by (intro finish_ok) simp_all
  moreover have "rg_first rg1 \<noteq> []" using rg1(2) by (cases "rg_first rg1") auto
  ultimately show ?thesis using rg1(2,3) c(2) assms(3) n by (auto simp: registry_state_def same_settings_def)
qed


lemma unregistering_unknown:
  assumes "registry_state rg S" "\<forall>k\<in>S. \<not> called name priority k"
  shows "\<exists>rg'. unregister_mib_context name priority 0 ubound rg = Some (MIB_NO_SUCH_REGISTRATION, name, rg')
    \<and> registry_state rg' S \<and> rg_first rg' = rg_first rg \<and> rg_callbacks rg' = rg_callbacks rg \<and> rg_cache_size rg' = 0"
proof -
  let ?rg0 = "netsnmp_set_lookup_cache_size 0 rg"
  have "unregister_one name priority ?rg0 = None"
    using assms by (intro unregister_one_unknown [of S]) (auto simp: registry_state_def split: if_splits)
  then have "unregister_loop (-1) k ubound priority name ?rg0 = Some (MIB_NO_SUCH_REGISTRATION, name, ?rg0)" for k
    by (subst unregister_loop.simps) simp
  then have "unregister_mib_context name priority 0 ubound rg = Some (MIB_NO_SUCH_REGISTRATION, name, ?rg0)"
    by (simp add: unregister_mib_context_def Let_def registry_consts)
  moreover have "cache_ok ?rg0"
    using assms(1) by (auto simp: registry_state_def cache_ok_def context_ok_def netsnmp_set_lookup_cache_size_def SUBTREE_MAX_CACHE_SIZE_def)
  ultimately show ?thesis using assms(1) by (simp add: registry_state_def)
qed

lemma registry_find_prev:
  assumes "registry_state rg S"
  shows "\<exists>rg'. netsnmp_subtree_find_prev name None rg = (lookup name (rg_first rg), rg') \<and> registry_state rg' S
    \<and> rg_first rg' = rg_first rg"
proof (cases "rg_first rg = []")
  case True
  have "lookup_cache_find name rg = (None, rg)"
  proof (cases "rg_cache rg")
    case None
    then show ?thesis using True by (simp add: lookup_cache_find_def get_context_lookup_cache_def)
  next
    case (Some c)
    then have c: "context_ok [] (rg_cache_size rg) c" using assms True by (simp add: registry_state_def cache_ok_def)
    then have "\<not> int 0 < thecachecount c" unfolding context_ok_def entry_ok_def by (metis less_zeroE list.size(3))
    then have "thecachecount c = 0" using c by (auto simp add: context_ok_def)
    moreover have "0 \<le> rg_cache_size rg" using assms by (simp add: registry_state_def cache_ok_def)
    ultimately show ?thesis using Some by (simp add: lookup_cache_find_def get_context_lookup_cache_def)
  qed
  then have "netsnmp_subtree_find_prev name None rg = (None, rg)" using True by (simp add: netsnmp_subtree_find_prev_def)
  then show ?thesis using True assms by (simp add: lookup_def)
next
  case False
  then have c: "covers (serving S) None (rg_first rg) [0] [3]" "cache_ok rg" using assms by (simp_all add: registry_state_def)
  from find_prev_lookup [OF this] obtain rg' where rg': "netsnmp_subtree_find_prev name None rg = (lookup name (rg_first rg), rg')"
    "cache_ok rg'" "rg' = rg\<lparr>rg_cache := rg_cache rg'\<rparr>" by blast
  have "rg_first rg' = rg_first rg" using arg_cong [OF rg'(3), of rg_first] by simp
  then show ?thesis using rg'(1,2) assms False by (simp add: registry_state_def)
qed

lemma registry_find:
  assumes "registry_state rg S" "rg_first rg \<noteq> []" "x \<noteq> []" "hd x < 3"
  shows "\<exists>i rg'. netsnmp_subtree_find x None rg = (Some i, rg') \<and> registry_state rg' S \<and> rg_first rg' = rg_first rg
     \<and> i < length (rg_first rg)
     \<and> (let k = registration_of (hd (rg_first rg ! i)) in
        k \<in> S \<and> prefix (fst k) x \<and> (\<forall>k'\<in>S. prefix (fst k') x \<longrightarrow> k' = k \<or> answers_before k k'))"
proof -
  have cov: "covers (serving S) None (rg_first rg) [0] [3]" using assms(1,2) by (simp add: registry_state_def)
  have x: "[0] \<le> x" "x < [3]" using assms(3,4) by (cases x; auto simp: word_neq_0_conv)+
  from covers_column [OF cov x] obtain as c bs where
    c: "rg_first rg = as @ c # bs" "st_start_a (hd c) \<le> x" "x < column_end c" by blast
  have l: "lookup x (rg_first rg) = Some (length as)" unfolding c(1) by (rule lookup_column [OF cov [unfolded c(1)] c(2,3)])
  from registry_find_prev [OF assms(1), of x] obtain rg' where
    rg': "netsnmp_subtree_find_prev x None rg = (Some (length as), rg')" "registry_state rg' S" "rg_first rg' = rg_first rg"
    using l by auto
  have find: "netsnmp_subtree_find x None rg = (Some (length as), rg')"
    using c rg' by (simp add: netsnmp_subtree_find_def snmp_oid_compare_neg column_end_def)
  have ok: "column_ok (serving S) c" using covers_mid [OF cov [unfolded c(1)]] by blast
  have img: "registration_of ` set c = serving S x" by (rule column_ok_registrations [OF ok c(2,3)])
  obtain s ss where s: "c = s # ss" using column_ok_not_Nil [OF ok] by (cases c) auto
  have "registration_of s \<in> serving S x" using img s by auto
  moreover have "k' = registration_of s \<or> answers_before (registration_of s) k'" if "k' \<in> S" "prefix (fst k') x" for k'
  proof -
    have "k' \<in> registration_of ` set c" using that img by (simp add: serving_def)
    then show ?thesis using column_ok_sorted [OF ok] s by auto
  qed
  ultimately show ?thesis using find rg' c(1) s by (auto simp: serving_def Let_def)
qed

section \<open>Runs\<close>

text \<open>
  Registering, unregistering and searching in any order, from an empty registry, with what is registered. A root is not
  unregistered, and ranges are not registered.
\<close>

inductive registry_run :: "registry \<Rightarrow> registration set \<Rightarrow> bool" where
  start: "rg_first rg = [] \<Longrightarrow> cache_ok rg \<Longrightarrow> registry_run rg {}"
| register: "registry_run rg S \<Longrightarrow> valid_name (rp_name parms) \<Longrightarrow> rp_range_subid parms = 0 \<Longrightarrow>
    netsnmp_register_mib detach var parms cb rg = Some (Done res rg') \<Longrightarrow>
    registry_run rg' (if res = MIB_REGISTERED_OK then insert (registering parms) (S \<union> root_registrations) else S \<union> root_registrations)"
| unregister: "registry_run rg S \<Longrightarrow> valid_name name \<Longrightarrow> \<forall>k\<in>root_registrations. \<not> called name priority k \<Longrightarrow>
    unregister_mib_context name priority 0 ubound rg = Some (res, name', rg') \<Longrightarrow>
    registry_run rg' (if res = MIB_UNREGISTERED_OK then {k \<in> S. \<not> called name priority k} else S)"
| search: "registry_run rg S \<Longrightarrow> netsnmp_subtree_find name None rg = (r, rg') \<Longrightarrow> registry_run rg' S"

definition unique_registrations :: "registration set \<Rightarrow> bool" where
  "unique_registrations S \<longleftrightarrow> (\<forall>k\<in>S. \<forall>k'\<in>S. fst k = fst k' \<longrightarrow> fst (snd k) = fst (snd k') \<longrightarrow> k = k')"

lemma unique_called:
  assumes "unique_registrations S" "k \<in> S" "called name priority k"
  shows "{k' \<in> S. \<not> called name priority k'} = S - {k}"
  using assms by (auto simp: unique_registrations_def called_def word_uint_eq_iff)

lemma unique_insert: "unique_registrations S \<Longrightarrow> \<not> like_registered S k \<Longrightarrow> unique_registrations (insert k S)"
  by (auto simp: unique_registrations_def like_registered_def)

lemma registry_run_state: "registry_run rg S \<Longrightarrow> registry_state rg S \<and> unique_registrations S"
proof (induction rule: registry_run.induct)
  case (start rg)
  then show ?case by (simp add: registry_state_def unique_registrations_def)
next
  case (register rg S parms detach var cb res rg')
  let ?S = "S \<union> root_registrations"
  have "S = {} \<or> root_registrations \<subseteq> S" using register.IH by (auto simp: registry_state_def split: if_splits)
  then have "?S = root_registrations \<or> ?S = S" by auto
  moreover have "unique_registrations root_registrations" by (simp add: unique_registrations_def root_registrations_def)
  ultimately have u: "unique_registrations ?S" using register.IH by auto
  show ?case
    using registering_is_insertion [of rg S parms detach var cb] register u unique_insert [OF u]
    by (auto simp: registry_consts split: if_splits)
next
  case (unregister rg S name priority ubound res name' rg')
  show ?case
  proof (cases "\<exists>k\<in>S. called name priority k")
    case True
    then obtain p h where k: "(name, p, h) \<in> S" "priority = uint p" by (auto simp: called_def)
    then have "(name, p, h) \<notin> root_registrations" using unregister.hyps(3) by (auto simp: called_def)
    then have "(name, p, h) \<in> S - root_registrations" using k by blast
    from unregistering_is_removal [OF conjunct1 [OF unregister.IH] unregister.hyps(2) this, of ubound]
    have "res = MIB_UNREGISTERED_OK" "registry_state rg' (S - {(name, p, h)})" using unregister.hyps(4) k(2) by auto
    moreover have "{k' \<in> S. \<not> called name priority k'} = S - {(name, p, h)}"
      by (rule unique_called) (use unregister.IH k in \<open>auto simp: called_def\<close>)
    ultimately show ?thesis using unregister.IH by (auto simp: unique_registrations_def)
  next
    case False
    then show ?thesis using unregistering_unknown [OF conjunct1 [OF unregister.IH], of name priority ubound] unregister
      by (auto simp: registry_consts)
  qed
next
  case (search rg S name r rg')
  obtain rg1 where "netsnmp_subtree_find_prev name None rg = (lookup name (rg_first rg), rg1)" "registry_state rg1 S"
    using registry_find_prev search.IH by blast
  then have "registry_state rg' S" using search.hyps(2) by (auto simp: netsnmp_subtree_find_def split: option.splits)
  then show ?case using search.IH by blast
qed

section \<open>Properties\<close>

text \<open>
  C6. Whatever is registered, unregistered and searched for in any order, the search for an OID below one of the roots
  finds a subtree of a registration whose name is a prefix of the OID, the longest there is, and of those with the same
  name the one with the smallest priority: nothing else that is registered for the OID answers before it.
\<close>

theorem registry_answers_longest_prefix:
  assumes "registry_run rg S" "S \<noteq> {}" "x \<noteq> []" "hd x < 3"
  shows "\<exists>i rg'. netsnmp_subtree_find x None rg = (Some i, rg') \<and> i < length (rg_first rg)
     \<and> (let s = hd (rg_first rg ! i) in (st_name_a s, st_priority s, st_reginfo s) \<in> S \<and> prefix (st_name_a s) x
        \<and> (\<forall>(n, p, h)\<in>S. prefix n x \<longrightarrow> length n < length (st_name_a s)
             \<or> n = st_name_a s \<and> (st_priority s < p \<or> st_priority s = p \<and> st_reginfo s = h)))"
proof -
  have st: "registry_state rg S" using registry_run_state [OF assms(1)] by blast
  then have "rg_first rg \<noteq> []" using assms(2) by (auto simp: registry_state_def)
  from registry_find [OF st this assms(3,4)] obtain i rg' where f: "netsnmp_subtree_find x None rg = (Some i, rg')"
    "i < length (rg_first rg)"
    and k: "let k = registration_of (hd (rg_first rg ! i)) in
        k \<in> S \<and> prefix (fst k) x \<and> (\<forall>k'\<in>S. prefix (fst k') x \<longrightarrow> k' = k \<or> answers_before k k')"
    by blast
  obtain s where s: "hd (rg_first rg ! i) = s" by simp
  have "length n < length (st_name_a s) \<or> n = st_name_a s \<and> (st_priority s < p \<or> st_priority s = p \<and> st_reginfo s = h)"
    if "(n, p, h) \<in> S" "prefix n x" for n p h
  proof -
    have "(n, p, h) = registration_of s \<or> answers_before (registration_of s) (n, p, h)" "prefix (st_name_a s) x"
      using k that by (auto simp: s Let_def registration_of_def)
    then show ?thesis using same_prefix [of n x "st_name_a s"] that(2) by (auto simp: registration_of_def answers_before_def)
  qed
  then show ?thesis using f k by (auto simp: s Let_def registration_of_def)
qed

definition example_parameters :: register_parameters where
  "example_parameters = \<lparr>rp_name = [1, 3, 6], rp_priority = 127, rp_range_subid = 0, rp_range_ubound = 0, rp_timeout = -1,
     rp_flags = 0, rp_reginfo = Module_handler 7\<rparr>"

definition empty_registry :: registry where
  "empty_registry = \<lparr>rg_first = [], rg_cache = None, rg_cache_size = 8, rg_callbacks = []\<rparr>"

lemma example_ok:
  "valid_name (rp_name example_parameters)" "rp_range_subid example_parameters = 0" "rp_priority example_parameters = 127"
  "registering example_parameters = ([1, 3, 6], 127, Module_handler 7)" "rp_name example_parameters = [1, 3, 6]"
  by (simp_all add: example_parameters_def valid_name_def registering_def)

lemma empty_registry_ok: "cache_ok empty_registry" "rg_first empty_registry = []" "registry_state empty_registry {}"
  by (simp_all add: empty_registry_def cache_ok_def registry_state_def)

theorem registry_answers_longest_prefix_witness:
  "\<exists>rg S i rg'. registry_run rg S \<and> netsnmp_subtree_find [1, 3, 6, 1] None rg = (Some i, rg')
     \<and> prefix (st_name_a (hd (rg_first rg ! i))) [1, 3, 6, 1] \<and> length (st_name_a (hd (rg_first rg ! i))) = 3"
proof -
  obtain rg where rg: "netsnmp_register_mib False [] example_parameters True empty_registry = Some (Done MIB_REGISTERED_OK rg)"
    using registering_is_insertion [OF empty_registry_ok(3) example_ok(1,2), of False "[]" True]
    by (auto simp: example_ok like_registered_def root_registrations_def)
  let ?S = "insert ([1, 3, 6], 127, Module_handler 7) root_registrations"
  have run: "registry_run rg ?S"
    using registry_run.register [OF registry_run.start [OF empty_registry_ok(2,1)] example_ok(1,2) rg] by (simp add: example_ok)
  have "?S \<noteq> {}" "[1, 3, 6, 1 :: u_long] \<noteq> []" "hd [1, 3, 6, 1 :: u_long] < 3" by simp_all
  from registry_answers_longest_prefix [OF run this] obtain i rg' where
    f: "netsnmp_subtree_find [1, 3, 6, 1] None rg = (Some i, rg')"
    and s: "let s = hd (rg_first rg ! i) in (st_name_a s, st_priority s, st_reginfo s) \<in> ?S \<and> prefix (st_name_a s) [1, 3, 6, 1]
        \<and> (\<forall>(n, p, h)\<in>?S. prefix n [1, 3, 6, 1] \<longrightarrow> length n < length (st_name_a s)
             \<or> n = st_name_a s \<and> (st_priority s < p \<or> st_priority s = p \<and> st_reginfo s = h))" by blast
  define n where "n = st_name_a (hd (rg_first rg ! i))"
  have m: "(n, st_priority (hd (rg_first rg ! i)), st_reginfo (hd (rg_first rg ! i))) \<in> ?S"
    using s unfolding Let_def n_def [symmetric] by (rule conjunct1)
  have "n \<in> fst ` ?S" using imageI [OF m, of fst] by simp
  then have "length n \<le> 3" by (auto simp: root_registrations_def)
  moreover have all: "\<forall>(n', p, h)\<in>?S. prefix n' [1, 3, 6, 1] \<longrightarrow> length n' < length n
      \<or> n' = n \<and> (st_priority (hd (rg_first rg ! i)) < p \<or> st_priority (hd (rg_first rg ! i)) = p \<and> st_reginfo (hd (rg_first rg ! i)) = h)"
    using s unfolding Let_def n_def [symmetric] by blast
  have "length [1, 3, 6 :: u_long] < length n \<or> [1, 3, 6] = n"
    using bspec [OF all, of "([1, 3, 6], 127, Module_handler 7)"] by auto
  ultimately have "length (st_name_a (hd (rg_first rg ! i))) = 3" unfolding n_def [symmetric] by auto
  then show ?thesis using run f s unfolding Let_def by blast
qed

text \<open>
  C7. The search finds what the definition of the list says, the last column that starts at or before the name, although
  it begins where the lookup cache tells it to and leaves comparisons out that the offsets make unnecessary; and the
  cache is again one that may be used.
\<close>

theorem registry_search_exact:
  assumes "registry_state rg S"
  shows "\<exists>rg'. netsnmp_subtree_find_prev name None rg = (lookup name (rg_first rg), rg') \<and> registry_state rg' S"
  using registry_find_prev [OF assms, of name] by blast

theorem registry_search_exact_witness:
  "\<exists>rg'. netsnmp_subtree_find_prev [1, 3] None empty_registry = (None, rg') \<and> registry_state rg' {}"
  using registry_search_exact [OF empty_registry_ok(3), of "[1, 3]"] by (simp add: empty_registry_ok lookup_def)

text \<open>
  C22. Registering and unregistering without a range: for parameters with \<open>range_subid = 0\<close>, a valid name (of 1 to
  255 sub-identifiers, the first below 3, the last not the largest value) and a priority of 0 to 255, and when nothing is registered under the same name and priority,
  \<open>netsnmp_register_mib\<close> succeeds, \<open>unregister_mib_context\<close> with that name, that priority and no range succeeds after
  it, and brings back what was registered before (with the roots, which the first registration of a context adds) and the
  size of the lookup cache. For a registration with a range this is false (\<open>range_unregister_overruns\<close>), and it is
  not claimed.
\<close>

theorem register_unregister_roundtrip:
  assumes "registry_state rg S" "valid_name (rp_name parms)" "rp_range_subid parms = 0" "0 \<le> rp_priority parms" "rp_priority parms < 256"
    "\<not> like_registered (S \<union> root_registrations) (registering parms)"
  shows "\<exists>rg1 rg2. netsnmp_register_mib detach var parms cb rg = Some (Done MIB_REGISTERED_OK rg1)
     \<and> registry_state rg1 (insert (registering parms) (S \<union> root_registrations))
     \<and> unregister_mib_context (rp_name parms) (rp_priority parms) 0 ubound rg1 = Some (MIB_UNREGISTERED_OK, rp_name parms, rg2)
     \<and> registry_state rg2 (S \<union> root_registrations) \<and> rg_cache_size rg2 = rg_cache_size rg"
proof -
  let ?S = "S \<union> root_registrations" and ?k = "registering parms"
  obtain rg1 where rg1: "netsnmp_register_mib detach var parms cb rg = Some (Done MIB_REGISTERED_OK rg1)"
    "registry_state rg1 (insert ?k ?S)" "rg_cache_size rg1 = rg_cache_size rg"
    using registering_is_insertion [OF assms(1-3), of detach var cb] assms(6) by auto
  have k: "?k = (rp_name parms, word_of_int (rp_priority parms), rp_reginfo parms)" by (simp add: registering_def)
  have new: "?k \<notin> ?S" using assms(6) unfolding k like_registered_def by auto
  have prio: "uint (word_of_int (rp_priority parms) :: u_char) = rp_priority parms"
    using assms(4,5) by (simp add: uint_word_of_int)
  have "(rp_name parms, word_of_int (rp_priority parms), rp_reginfo parms) \<in> insert ?k ?S - root_registrations"
    using new k by auto
  from unregistering_is_removal [OF rg1(2) assms(2) this, of ubound] obtain rg2 where
    "unregister_mib_context (rp_name parms) (rp_priority parms) 0 ubound rg1 = Some (MIB_UNREGISTERED_OK, rp_name parms, rg2)"
    "registry_state rg2 (insert ?k ?S - {?k})" "rg_cache_size rg2 = rg_cache_size rg1" unfolding prio k by blast
  then show ?thesis using rg1 new by (auto simp: Diff_insert0)
qed

theorem register_unregister_roundtrip_witness:
  "\<exists>rg1 rg2. netsnmp_register_mib False [] example_parameters True empty_registry = Some (Done MIB_REGISTERED_OK rg1)
     \<and> unregister_mib_context [1, 3, 6] 127 0 0 rg1 = Some (MIB_UNREGISTERED_OK, [1, 3, 6], rg2) \<and> registry_state rg2 root_registrations"
proof -
  have "\<not> like_registered ({} \<union> root_registrations) (registering example_parameters)"
    by (simp add: example_ok like_registered_def root_registrations_def)
  from register_unregister_roundtrip [OF empty_registry_ok(3) example_ok(1,2) _ _ this, of False "[]" True 0]
  show ?thesis by (auto simp: example_ok)
qed

text \<open>
  C23. A registration with the name and the priority of another is refused, and changes nothing but that the roots are
  there; unregistering what is not registered is an error, changes nothing of the list, and leaves the lookup cache
  switched off.
\<close>

theorem registry_refusals:
  assumes "registry_state rg S"
  shows "(valid_name (rp_name parms) \<longrightarrow> rp_range_subid parms = 0 \<longrightarrow> like_registered (S \<union> root_registrations) (registering parms) \<longrightarrow>
      (\<exists>rg'. netsnmp_register_mib detach var parms cb rg = Some (Done MIB_DUPLICATE_REGISTRATION rg')
        \<and> registry_state rg' (S \<union> root_registrations) \<and> rg_cache_size rg' = rg_cache_size rg))
    \<and> ((\<forall>k\<in>S. \<not> (fst k = name \<and> uint (fst (snd k)) = priority)) \<longrightarrow>
      (\<exists>rg'. unregister_mib_context name priority 0 ubound rg = Some (MIB_NO_SUCH_REGISTRATION, name, rg')
        \<and> registry_state rg' S \<and> rg_first rg' = rg_first rg \<and> rg_callbacks rg' = rg_callbacks rg \<and> rg_cache_size rg' = 0))"
proof (intro conjI impI)
  assume "valid_name (rp_name parms)" "rp_range_subid parms = 0" and like: "like_registered (S \<union> root_registrations) (registering parms)"
  from registering_is_insertion [OF assms this(1,2), of detach var cb] like
  show "\<exists>rg'. netsnmp_register_mib detach var parms cb rg = Some (Done MIB_DUPLICATE_REGISTRATION rg')
      \<and> registry_state rg' (S \<union> root_registrations) \<and> rg_cache_size rg' = rg_cache_size rg" by auto
next
  assume "\<forall>k\<in>S. \<not> (fst k = name \<and> uint (fst (snd k)) = priority)"
  then show "\<exists>rg'. unregister_mib_context name priority 0 ubound rg = Some (MIB_NO_SUCH_REGISTRATION, name, rg')
        \<and> registry_state rg' S \<and> rg_first rg' = rg_first rg \<and> rg_callbacks rg' = rg_callbacks rg \<and> rg_cache_size rg' = 0"
    by (intro unregistering_unknown [OF assms]) (simp add: called_def)
qed

theorem registry_refusals_witness:
  "\<exists>rg' rg''. netsnmp_register_mib False [] (null_parameters 1) True empty_registry = Some (Done MIB_DUPLICATE_REGISTRATION rg')
     \<and> unregister_mib_context [1, 3, 6] 127 0 0 rg' = Some (MIB_NO_SUCH_REGISTRATION, [1, 3, 6], rg'') \<and> rg_cache_size rg'' = 0"
proof -
  have "valid_name (rp_name (null_parameters 1))" "rp_range_subid (null_parameters 1) = 0"
    "like_registered ({} \<union> root_registrations) (registering (null_parameters 1))"
    by (simp_all add: null_parameters_def valid_name_def like_registered_def registering_def root_registrations_def)
  from registry_refusals [OF empty_registry_ok(3), of "null_parameters 1" False "[]" True "[1, 3, 6]" 127 0] this obtain rg' where
    rg': "netsnmp_register_mib False [] (null_parameters 1) True empty_registry = Some (Done MIB_DUPLICATE_REGISTRATION rg')"
    "registry_state rg' root_registrations" unfolding Un_empty_left by blast
  have "\<forall>k\<in>root_registrations. \<not> (fst k = [1, 3, 6] \<and> uint (fst (snd k)) = 127)" by (simp add: root_registrations_def)
  with registry_refusals [OF rg'(2)] rg'(1) show ?thesis by blast
qed

text \<open>
  The range of \<open>unregister_mib_context\<close>: it goes on until it has counted \<open>range_ubound\<close> values, not until the last of the
  range. A range of two values that starts at 2 is taken out, and then the next value is looked for: the result is an
  error, the name is not restored, and the lookup cache stays switched off.
\<close>

lemma range_unregister_overruns:
  assumes "registry_state rg S" "([1, 3, 2], p, h) \<in> S" "([1, 3, 3], p, h) \<in> S"
    "\<forall>k\<in>S. \<not> called [1, 3, 4] (uint p) k"
  shows "\<exists>rg'. unregister_mib_context [1, 3, 2] (uint p) 3 3 rg = Some (MIB_NO_SUCH_REGISTRATION, [1, 3, 4], rg')
    \<and> rg_cache_size rg' = 0"
proof -
  let ?rg0 = "netsnmp_set_lookup_cache_size 0 rg" and ?k2 = "([1, 3, 2], p, h)" and ?k3 = "([1, 3, 3], p, h)"
  have c: "covers (serving S) None (rg_first ?rg0) [0] [3]" "root_registrations \<subseteq> S"
    using assms(1,2) by (auto simp: registry_state_def split: if_splits)
  have nr: "?k2 \<notin> root_registrations" "?k3 \<notin> root_registrations" by (simp_all add: root_registrations_def)
  obtain r1 where r1: "unregister_one [1, 3, 2] (uint p) ?rg0 = Some r1" "covers (serving (S - {?k2})) None (rg_first r1) [0] [3]"
    "same_settings ?rg0 r1"
    using unregister_one_ok [OF c _ assms(2) nr(1), of "[1, 3, 2]" "uint p"] by (auto simp: valid_name_def called_def)
  have s1: "root_registrations \<subseteq> S - {?k2}" "?k3 \<in> S - {?k2}" using c(2) nr assms(3) by auto
  obtain r2 where r2: "unregister_one [1, 3, 3] (uint p) r1 = Some r2" "covers (serving (S - {?k2} - {?k3})) None (rg_first r2) [0] [3]"
    "same_settings r1 r2"
    using unregister_one_ok [OF r1(2) s1(1) _ s1(2) nr(2), of "[1, 3, 3]" "uint p"] by (auto simp: valid_name_def called_def)
  have size: "rg_cache_size r2 = 0" using r1(3) r2(3) by (simp add: same_settings_def)
  have r3: "unregister_one [1, 3, 4] (uint p) r2 = None"
    by (rule unregister_one_unknown [OF disjI1 [OF r2(2)] size]) (use assms(4) in auto)
  have "unregister_loop 2 2 3 (uint p) [1, 3, 4] r2 = Some (MIB_NO_SUCH_REGISTRATION, [1, 3, 4], r2)"
    by (subst unregister_loop.simps) (simp add: r3)
  then have "unregister_loop 2 2 3 (uint p) [1, 3, 3] r1 = Some (MIB_NO_SUCH_REGISTRATION, [1, 3, 4], r2)"
    by (subst unregister_loop.simps) (simp add: r2(1))
  then have "unregister_loop 2 2 3 (uint p) [1, 3, 2] ?rg0 = Some (MIB_NO_SUCH_REGISTRATION, [1, 3, 4], r2)"
    by (subst unregister_loop.simps) (simp add: r1(1))
  then show ?thesis using size by (simp add: unregister_mib_context_def registry_consts)
qed


text \<open>
  A range of which the first subtree has been cut short, because something below it is registered: the copies for the
  other values end where the cut part would, with the range counted up, so that the copy for 2 reaches into the value 3.
\<close>

lemma range_copy_of_part:
  assumes "st_start_a s = [1, 3, 1]" "st_end_a s = [1, 3, 1, 5]"
  shows "st_start_a (range_copy 3 2 2 s) = [1, 3, 2]" "st_end_a (range_copy 3 2 2 s) = [1, 3, 3, 5]"
  using assms by (simp_all add: range_copy_def Let_def)

end
