(* ===== verification/Int64.thy ===== *)
theory Int64
  imports Prelude
begin

text \<open>
  \<^verbatim>\<open>snmplib/int64.c\<close>: 64-bit counters kept as two \<open>u_long\<close> halves
  (\<^verbatim>\<open>struct counter64\<close>). The halves are 64 bits wide on LP64 and the code keeps 32-bit values in
  them (\<open>c64_wf\<close>); \<open>c64_val\<close> is the number a counter stands for. The theory shows that the
  half-word arithmetic is arithmetic modulo \<open>2^64\<close>, that printing and reading are inverse, and what
  the 32-bit wrap detection computes. C strings are byte lists without their terminating NUL; the \<open>debug\<close>
  messages are left out.
\<close>

section \<open>The counter and its operations\<close>

record counter64 =
  c64_high :: u_long
  c64_low :: u_long

definition c64_val :: "counter64 \<Rightarrow> nat" where
  "c64_val c = unat (c64_high c) * 2 ^ 32 + unat (c64_low c)"

definition c64_wf :: "counter64 \<Rightarrow> bool" where
  "c64_wf c \<longleftrightarrow> unat (c64_high c) < 2 ^ 32 \<and> unat (c64_low c) < 2 ^ 32"

definition u32 :: "u_long \<Rightarrow> u_long" where \<comment> \<open>the cast \<open>(uint32_t) x\<close>, stored back in a \<open>u_long\<close>\<close>
  "u32 x = ucast (ucast x :: u_int)"

definition divBy10 :: "counter64 \<Rightarrow> counter64 \<times> u_int" where
  "divBy10 u64 =
     (let ulT = drop_bit 16 (c64_high u64) AND 0x0ffff;
          ulQ = ulT div 10; ulR = ulT mod 10;
          high = push_bit 16 ulQ;
          ulT = (c64_high u64 AND 0x0ffff) + push_bit 16 ulR;
          ulQ = ulT div 10; ulR = ulT mod 10;
          high = high OR ulQ;
          ulT = (drop_bit 16 (c64_low u64) AND 0x0ffff) + push_bit 16 ulR;
          ulQ = ulT div 10; ulR = ulT mod 10;
          low = push_bit 16 ulQ;
          ulT = (c64_low u64 AND 0x0ffff) + push_bit 16 ulR;
          ulQ = ulT div 10; ulR = ulT mod 10;
          low = low OR ulQ
      in (\<lparr>c64_high = high, c64_low = low\<rparr>, ucast ulR))"

definition multBy10 :: "counter64 \<Rightarrow> counter64" where
  "multBy10 u64 =
     (let ulT = c64_low u64 AND 0x0ffff;
          ulP = ulT * 10; ulK = drop_bit 16 ulP;
          low = ulP AND 0x0ffff;
          ulT = drop_bit 16 (c64_low u64) AND 0x0ffff;
          ulP = ulT * 10 + ulK; ulK = drop_bit 16 ulP;
          low = push_bit 16 (ulP AND 0x0ffff) OR low;
          ulT = c64_high u64 AND 0x0ffff;
          ulP = ulT * 10 + ulK; ulK = drop_bit 16 ulP;
          high = ulP AND 0x0ffff;
          ulT = drop_bit 16 (c64_high u64) AND 0x0ffff;
          ulP = ulT * 10 + ulK; ulK = drop_bit 16 ulP;
          high = push_bit 16 (ulP AND 0x0ffff) OR high
      in \<lparr>c64_high = high, c64_low = low\<rparr>)"

definition incrByU32 :: "counter64 \<Rightarrow> u_int \<Rightarrow> counter64" where
  "incrByU32 c n =
     (let tmp = ucast (c64_low c) :: u_int;
          c = c\<lparr>c64_low := ucast (tmp + n)\<rparr>
      in if c64_low c < ucast tmp then c\<lparr>c64_high := u32 (c64_high c + 1)\<rparr> else c)"

definition incrByU16 :: "counter64 \<Rightarrow> u_int \<Rightarrow> counter64" where
  "incrByU16 c n = incrByU32 c n"

definition u64Subtract :: "counter64 \<Rightarrow> counter64 \<Rightarrow> counter64" where
  "u64Subtract one two =
     (let carry = (if c64_low one < c64_low two then 1 else 0)
      in \<lparr>c64_high = u32 (c64_high one - c64_high two - carry),
          c64_low = u32 (c64_low one - c64_low two)\<rparr>)"

definition u64Incr :: "counter64 \<Rightarrow> counter64 \<Rightarrow> counter64" where
  "u64Incr out one =
     incrByU32 (out\<lparr>c64_high := u32 (c64_high out + c64_high one)\<rparr>) (ucast (c64_low one))"

definition u64UpdateCounter :: "counter64 \<Rightarrow> counter64 \<Rightarrow> counter64 \<Rightarrow> counter64" where
  "u64UpdateCounter out one two = u64Incr out (u64Subtract one two)"

definition u64Copy :: "counter64 \<Rightarrow> counter64" where
  "u64Copy two = two"

definition zeroU64 :: counter64 where
  "zeroU64 = \<lparr>c64_high = 0, c64_low = 0\<rparr>"

definition isZeroU64 :: "counter64 \<Rightarrow> bool" where
  "isZeroU64 c \<longleftrightarrow> c64_low c = 0 \<and> c64_high c = 0"

text \<open>
  Wrap detection. A \<open>NULL\<close> pointer is \<open>None\<close>. The result is the return code and the new value, whose
  high half the function may increment.
\<close>

definition netsnmp_c64_check_for_32bit_wrap ::
    "counter64 option \<Rightarrow> counter64 option \<Rightarrow> bool \<Rightarrow> int \<times> counter64 option" where
  "netsnmp_c64_check_for_32bit_wrap old_val new_val adjust =
     (case (old_val, new_val) of
        (Some old, Some new) \<Rightarrow>
          if c64_low new \<ge> c64_low old \<and> c64_high new = c64_high old then (0, Some new)
          else if c64_high new = c64_high old then
            (32, Some (if adjust then new\<lparr>c64_high := u32 (c64_high new + 1)\<rparr> else new))
          else if c64_high new = u32 (c64_high old + 1) then (64, Some new)
          else (-2, Some new)
      | _ \<Rightarrow> (-1, new_val))"

text \<open>
  The result is the return code, the accumulated value, the new value and the flag.
\<close>

definition netsnmp_c64_check32_and_update ::
    "counter64 \<Rightarrow> counter64 \<Rightarrow> counter64 \<Rightarrow> int option \<Rightarrow> int \<times> counter64 \<times> counter64 \<times> int option" where
  "netsnmp_c64_check32_and_update prev_val new_val old_prev_val need_wrap_check =
     (let (rc, new_val) =
        (if need_wrap_check = None \<or> need_wrap_check \<noteq> Some 0
         then (case netsnmp_c64_check_for_32bit_wrap (Some old_prev_val) (Some new_val) True of
                 (rc, nv) \<Rightarrow> (rc, the nv))
         else (0, new_val))
      in if rc < 0 then (-1, prev_val, new_val, need_wrap_check)
         else let prev_val = u64UpdateCounter prev_val new_val old_prev_val
              in if rc = 32 then (0, prev_val, new_val\<lparr>c64_high := 0\<rparr>, need_wrap_check)
                 else if rc = 64 then
                   (if c64_low prev_val \<noteq> c64_low new_val \<or> c64_high prev_val \<noteq> c64_high new_val
                    then (-2, prev_val, new_val, need_wrap_check)
                    else (0, prev_val, new_val, map_option (\<lambda>_. 0) need_wrap_check))
                 else (0, prev_val, new_val, need_wrap_check))"

section \<open>Decimal conversion\<close>

definition I64CHARSZ :: nat where
  "I64CHARSZ = 21"

text \<open>
  The digit loop, at most \<open>I64CHARSZ\<close> rounds. \<open>acc\<close> is the part of \<open>aRes\<close> already filled.
  Leaving the loop without the \<open>break\<close> would make the code copy from \<open>&aRes[-1]\<close>: \<open>None\<close>.
\<close>

fun printU64_loop :: "nat \<Rightarrow> counter64 \<Rightarrow> bytes \<Rightarrow> bytes option" where
  "printU64_loop 0 u64a acc = None"
| "printU64_loop (Suc n) u64a acc =
     (case divBy10 u64a of (u64b, u) \<Rightarrow>
        let acc = ucast (48 + u) # acc
        in if isZeroU64 u64b then Some acc else printU64_loop n u64b acc)"

definition printU64 :: "counter64 \<Rightarrow> bytes option" where
  "printU64 pu64 = printU64_loop I64CHARSZ pu64 []"

definition printI64 :: "counter64 \<Rightarrow> bytes option" where
  "printI64 pu64 =
     (if c64_high pu64 AND 0x80000000 \<noteq> 0
      then let u64a = \<lparr>c64_high = u32 (NOT (c64_high pu64)), c64_low = u32 (NOT (c64_low pu64))\<rparr>;
               u64a = incrByU32 u64a 1
           in map_option (\<lambda>s. 45 # s) (printU64 u64a)
      else printU64 pu64)"

definition isdigit :: "u_char \<Rightarrow> bool" where
  "isdigit c \<longleftrightarrow> 48 \<le> c \<and> c \<le> 57"

fun read64_loop :: "counter64 \<Rightarrow> bool \<Rightarrow> bytes \<Rightarrow> counter64 \<times> bool" where
  "read64_loop i64 ok [] = (i64, ok)"
| "read64_loop i64 ok (c # str) =
     (if c \<noteq> 0 \<and> isdigit c
      then read64_loop (incrByU16 (multBy10 i64) (ucast (c - 48))) True str
      else (i64, ok))"

definition read64 :: "bytes \<Rightarrow> bool \<times> counter64" where
  "read64 str =
     (let (sign, str) = (case str of c # s \<Rightarrow> if c = 45 then (True, s) else (False, str) | [] \<Rightarrow> (False, str));
          (i64, ok) = read64_loop zeroU64 False str;
          i64 = (if sign
                 then incrByU16 \<lparr>c64_high = u32 (NOT (c64_high i64)), c64_low = u32 (NOT (c64_low i64))\<rparr> 1
                 else i64)
      in (ok, i64))"

section \<open>Arithmetic modulo \<open>2^64\<close>\<close>

lemma mask16: "(0x0ffff :: u_long) = mask 16"
  by (simp add: mask_eq_exp_minus_1)

lemma unat_digit: "unat (x AND 0x0ffff :: u_long) = unat x mod 2 ^ 16"
  by (simp only: mask16 unat_and_mask)

lemma unat_digit_carry:
  assumes "unat r < 10"
  shows "unat ((x AND 0x0ffff) + push_bit 16 r :: u_long) = unat x mod 2 ^ 16 + unat r * 2 ^ 16"
proof -
  have "unat (push_bit 16 r) = unat r * 2 ^ 16" using assms by (intro unat_push_bit) simp
  moreover have "unat x mod 2 ^ 16 < 2 ^ 16" by simp
  ultimately show ?thesis using assms by (simp add: unat_word_ariths unat_digit)
qed

lemma digits32:
  fixes n :: nat
  assumes "n < 2 ^ 32"
  shows "n = (n div 2 ^ 16 mod 2 ^ 16) * 2 ^ 16 + n mod 2 ^ 16"
proof -
  have "n div 2 ^ 16 < 2 ^ 16" using assms by (simp add: less_mult_imp_div_less)
  then show ?thesis by simp
qed

lemma c64_digits:
  assumes "c64_wf u"
  shows "c64_val u = (unat (c64_high u) div 2 ^ 16 mod 2 ^ 16) * 2 ^ 48 + (unat (c64_high u) mod 2 ^ 16) * 2 ^ 32
    + (unat (c64_low u) div 2 ^ 16 mod 2 ^ 16) * 2 ^ 16 + unat (c64_low u) mod 2 ^ 16"
proof -
  have arith: "h = a * 2 ^ 16 + b \<Longrightarrow> l = c * 2 ^ 16 + d \<Longrightarrow>
      h * 2 ^ 32 + l = a * 2 ^ 48 + b * 2 ^ 32 + c * 2 ^ 16 + d" for h l a b c d :: nat
    by simp
  show ?thesis
    unfolding c64_val_def
    by (rule arith) (use assms in \<open>auto simp only: c64_wf_def intro: digits32\<close>)
qed

lemma divBy10_step:
  fixes t :: u_long
  assumes "unat t < 10 * 2 ^ 16"
  shows "unat (t div 10) < 2 ^ 16" "unat (t mod 10) < 10" "unat t = 10 * unat (t div 10) + unat (t mod 10)"
proof -
  show "unat (t div 10) < 2 ^ 16" "unat (t mod 10) < 10"
    using assms by (simp_all add: unat_div unat_mod less_mult_imp_div_less)
  show "unat t = 10 * unat (t div 10) + unat (t mod 10)"
    by (simp add: unat_div unat_mod)
qed

lemma divBy10_correct:
  assumes "c64_wf u" "divBy10 u = (q, r)"
  shows "c64_wf q \<and> c64_val q = c64_val u div 10 \<and> unat r = c64_val u mod 10"
proof -
  define t3 where "t3 = drop_bit 16 (c64_high u) AND 0x0ffff"
  define t2 where "t2 = (c64_high u AND 0x0ffff) + push_bit 16 (t3 mod 10)"
  define t1 where "t1 = (drop_bit 16 (c64_low u) AND 0x0ffff) + push_bit 16 (t2 mod 10)"
  define t0 where "t0 = (c64_low u AND 0x0ffff) + push_bit 16 (t1 mod 10)"
  have q: "c64_high q = push_bit 16 (t3 div 10) OR (t2 div 10)"
          "c64_low q = push_bit 16 (t1 div 10) OR (t0 div 10)" and r: "r = ucast (t0 mod 10)"
    using assms(2) by (auto simp: divBy10_def Let_def t3_def t2_def t1_def t0_def)
  have u3: "unat t3 = unat (c64_high u) div 2 ^ 16 mod 2 ^ 16"
    unfolding t3_def by (simp only: unat_digit unat_drop_bit)
  then have b3: "unat t3 < 10 * 2 ^ 16" by simp
  note s3 = divBy10_step [OF b3]
  have u2: "unat t2 = unat (c64_high u) mod 2 ^ 16 + unat (t3 mod 10) * 2 ^ 16"
    unfolding t2_def by (rule unat_digit_carry [OF s3(2)])
  then have b2: "unat t2 < 10 * 2 ^ 16" using s3(2) mod_less_divisor [of "2 ^ 16" "unat (c64_high u)"] by simp
  note s2 = divBy10_step [OF b2]
  have u1: "unat t1 = unat (c64_low u) div 2 ^ 16 mod 2 ^ 16 + unat (t2 mod 10) * 2 ^ 16"
    unfolding t1_def by (simp only: unat_digit_carry [OF s2(2)] unat_drop_bit)
  then have b1: "unat t1 < 10 * 2 ^ 16"
    using s2(2) mod_less_divisor [of "2 ^ 16" "unat (c64_low u) div 2 ^ 16"] by simp
  note s1 = divBy10_step [OF b1]
  have u0: "unat t0 = unat (c64_low u) mod 2 ^ 16 + unat (t1 mod 10) * 2 ^ 16"
    unfolding t0_def by (rule unat_digit_carry [OF s1(2)])
  then have b0: "unat t0 < 10 * 2 ^ 16" using s1(2) mod_less_divisor [of "2 ^ 16" "unat (c64_low u)"] by simp
  note s0 = divBy10_step [OF b0]
  have hi: "unat (c64_high q) = unat (t3 div 10) * 2 ^ 16 + unat (t2 div 10)"
    unfolding q by (rule unat_push_or) (use s3 s2 in simp_all)
  have lo: "unat (c64_low q) = unat (t1 div 10) * 2 ^ 16 + unat (t0 div 10)"
    unfolding q by (rule unat_push_or) (use s1 s0 in simp_all)
  have rr: "unat r = unat (t0 mod 10)"
    unfolding r using s0(2) by (simp add: unsigned_ucast_eq take_bit_nat_eq_self)
  have "c64_val u = 10 * c64_val q + unat r"
    unfolding c64_digits [OF assms(1)] c64_val_def [of q] hi lo rr
    using s3(3) s2(3) s1(3) s0(3) u3 u2 u1 u0 by simp
  moreover have "unat r < 10" unfolding rr by (rule s0(2))
  moreover have "c64_wf q" unfolding c64_wf_def hi lo using s3 s2 s1 s0 by simp
  ultimately show ?thesis by simp
qed

lemma unat_u32 [word_nat]: "unat (u32 x) = unat x mod 2 ^ 32"
  by (simp only: u32_def unat_ucast_mod) simp

lemma c64_wf_u32: "c64_wf \<lparr>c64_high = u32 h, c64_low = u32 l\<rparr>"
  by (simp add: c64_wf_def unat_u32)

lemma c64_val_less: "c64_wf c \<Longrightarrow> c64_val c < 2 ^ 64"
  unfolding c64_wf_def c64_val_def by simp

lemma multBy10_step:
  fixes t k :: u_long
  assumes "unat t < 2 ^ 16" "unat k < 10"
  shows "unat (t * 10 + k) = unat t * 10 + unat k"
    "unat (drop_bit 16 (t * 10 + k)) < 10"
    "unat (t * 10 + k) = unat (drop_bit 16 (t * 10 + k)) * 2 ^ 16 + unat ((t * 10 + k) AND 0x0ffff)"
    "unat ((t * 10 + k) AND 0x0ffff) < 2 ^ 16"
proof -
  show e: "unat (t * 10 + k) = unat t * 10 + unat k"
    using assms by (simp add: unat_word_ariths)
  then have "unat (t * 10 + k) < 10 * 2 ^ 16" using assms by simp
  then show "unat (drop_bit 16 (t * 10 + k)) < 10"
    by (simp only: unat_drop_bit less_mult_imp_div_less)
  show "unat (t * 10 + k) = unat (drop_bit 16 (t * 10 + k)) * 2 ^ 16 + unat ((t * 10 + k) AND 0x0ffff)"
    by (simp only: unat_drop_bit unat_digit) simp
  show "unat ((t * 10 + k) AND 0x0ffff) < 2 ^ 16"
    by (simp only: unat_digit) simp
qed

lemma multBy10_correct:
  assumes "c64_wf u"
  shows "c64_wf (multBy10 u) \<and> c64_val (multBy10 u) = (10 * c64_val u) mod 2 ^ 64"
proof -
  define t0 where "t0 = c64_low u AND 0x0ffff"
  define t1 where "t1 = drop_bit 16 (c64_low u) AND 0x0ffff"
  define t2 where "t2 = c64_high u AND 0x0ffff"
  define t3 where "t3 = drop_bit 16 (c64_high u) AND 0x0ffff"
  define p0 where "p0 = t0 * 10 + 0"
  define p1 where "p1 = t1 * 10 + drop_bit 16 p0"
  define p2 where "p2 = t2 * 10 + drop_bit 16 p1"
  define p3 where "p3 = t3 * 10 + drop_bit 16 p2"
  have m: "multBy10 u = \<lparr>c64_high = push_bit 16 (p3 AND 0x0ffff) OR (p2 AND 0x0ffff),
      c64_low = push_bit 16 (p1 AND 0x0ffff) OR (p0 AND 0x0ffff)\<rparr>"
    by (simp add: multBy10_def Let_def p3_def p2_def p1_def p0_def t0_def t1_def t2_def t3_def)
  have d: "unat t0 < 2 ^ 16" "unat t1 < 2 ^ 16" "unat t2 < 2 ^ 16" "unat t3 < 2 ^ 16"
    unfolding t0_def t1_def t2_def t3_def by (simp_all only: unat_digit) simp_all
  have z: "unat (0 :: u_long) < 10" by simp
  note s0 = multBy10_step [OF d(1) z, folded p0_def]
  note s1 = multBy10_step [OF d(2) s0(2), folded p1_def]
  note s2 = multBy10_step [OF d(3) s1(2), folded p2_def]
  note s3 = multBy10_step [OF d(4) s2(2), folded p3_def]
  have hi: "unat (c64_high (multBy10 u)) = unat (p3 AND 0x0ffff) * 2 ^ 16 + unat (p2 AND 0x0ffff)"
    unfolding m counter64.simps by (rule unat_push_or) (use s3(4) s2(4) in simp_all)
  have lo: "unat (c64_low (multBy10 u)) = unat (p1 AND 0x0ffff) * 2 ^ 16 + unat (p0 AND 0x0ffff)"
    unfolding m counter64.simps by (rule unat_push_or) (use s1(4) s0(4) in simp_all)
  have u: "c64_val u = unat t3 * 2 ^ 48 + unat t2 * 2 ^ 32 + unat t1 * 2 ^ 16 + unat t0"
    unfolding c64_digits [OF assms] t0_def t1_def t2_def t3_def by (simp only: unat_digit unat_drop_bit)
  have wf: "c64_wf (multBy10 u)" unfolding c64_wf_def hi lo using s0(4) s1(4) s2(4) s3(4) by simp
  have "10 * c64_val u = c64_val (multBy10 u) + unat (drop_bit 16 p3) * 2 ^ 64"
    unfolding u c64_val_def [of "multBy10 u"] hi lo
    using s0(1,3) s1(1,3) s2(1,3) s3(1,3) by simp
  then show ?thesis using wf c64_val_less [OF wf] by simp
qed

lemma incrByU32_correct:
  assumes "c64_wf c"
  shows "c64_wf (incrByU32 c n) \<and> c64_val (incrByU32 c n) = (c64_val c + unat n) mod 2 ^ 64"
proof -
  let ?l = "unat (c64_low c)" and ?h = "unat (c64_high c)"
  have l: "?l < 2 ^ 32" and h: "?h < 2 ^ 32" using assms by (auto simp: c64_wf_def)
  have n: "unat n < 2 ^ 32" using unsigned_less [of n, where ?'a = nat] by simp
  have t: "unat (ucast (c64_low c) :: u_int) = ?l"
    using l by (intro unat_ucast_fits) simp
  then have t': "unat (ucast (ucast (c64_low c) :: u_int) :: u_long) = ?l"
    using l by (subst unat_ucast_fits) simp_all
  have s: "unat (ucast (ucast (c64_low c) + n :: u_int) :: u_long) = (?l + unat n) mod 2 ^ 32"
    by (subst unat_ucast_fits) (simp_all add: unat_word_ariths t)
  have cmp: "ucast (ucast (c64_low c) + n :: u_int) < (ucast (ucast (c64_low c) :: u_int) :: u_long)
      \<longleftrightarrow> (?l + unat n) mod 2 ^ 32 < ?l"
    unfolding word_less_nat_alt s t' ..
  have h1: "unat (u32 (c64_high c + 1)) = (?h + 1) mod 2 ^ 32"
    using h by (simp add: unat_u32 unat_word_ariths)
  show ?thesis
  proof (cases "?l + unat n < 2 ^ 32")
    case True
    then show ?thesis
      using cmp s h by (simp add: incrByU32_def Let_def c64_wf_def c64_val_def)
  next
    case False
    then have m: "(?l + unat n) mod 2 ^ 32 = ?l + unat n - 2 ^ 32"
      using l n by (simp add: mod_if)
    then have "(?l + unat n) mod 2 ^ 32 < ?l" using False n by linarith
    then have v: "unat (c64_high (incrByU32 c n)) = (?h + 1) mod 2 ^ 32"
        "unat (c64_low (incrByU32 c n)) = ?l + unat n - 2 ^ 32"
      using cmp s h1 m by (simp_all add: incrByU32_def Let_def)
    have "((?h + 1) mod 2 ^ 32) * 2 ^ 32 + (?l + unat n - 2 ^ 32) = (?h * 2 ^ 32 + ?l + unat n) mod 2 ^ 64"
      using False l n h by (cases "?h + 1 = 2 ^ 32") (simp_all add: mod_if)
    then show ?thesis
      unfolding c64_wf_def c64_val_def v using False l n by simp
  qed
qed

lemma u64Subtract_correct:
  assumes "c64_wf a" "c64_wf b"
  shows "c64_wf (u64Subtract a b) \<and> c64_val (u64Subtract a b) = (c64_val a + 2 ^ 64 - c64_val b) mod 2 ^ 64"
proof -
  let ?l = "unat (c64_low a)" and ?h = "unat (c64_high a)"
  let ?m = "unat (c64_low b)" and ?k = "unat (c64_high b)"
  have r: "?l < 2 ^ 32" "?h < 2 ^ 32" "?m < 2 ^ 32" "?k < 2 ^ 32"
    using assms by (auto simp: c64_wf_def)
  have sub: "unat (u32 (x - y)) = (if unat y \<le> unat x then unat x - unat y else unat x + 2 ^ 32 - unat y)"
    if x: "unat x < 2 ^ 32" and y: "unat y \<le> 2 ^ 32" for x y
  proof (cases "unat y \<le> unat x")
    case True
    then show ?thesis using x by (simp add: unat_u32 unat_sub_if')
  next
    case False
    then have "unat (x - y) = unat x + 2 ^ 64 - unat y" by (simp add: unat_sub_if')
    also have "\<dots> = (unat x + 2 ^ 32 - unat y) + (2 ^ 32 - 1) * 2 ^ 32" using y by simp
    finally have "unat (u32 (x - y)) = (unat x + 2 ^ 32 - unat y) mod 2 ^ 32"
      by (simp only: unat_u32 mod_mult_self1)
    then show ?thesis using False by simp
  qed
  have lo: "unat (c64_low (u64Subtract a b)) = (if ?m \<le> ?l then ?l - ?m else ?l + 2 ^ 32 - ?m)"
    using sub [of "c64_low a" "c64_low b"] r by (simp add: u64Subtract_def Let_def)
  have kk: "unat (c64_high b + 1) = ?k + 1" using r by (simp add: unat_word_ariths)
  have hi: "unat (c64_high (u64Subtract a b)) =
      (let c = (if ?l < ?m then 1 else 0) in if ?k + c \<le> ?h then ?h - (?k + c) else ?h + 2 ^ 32 - (?k + c))"
  proof (cases "?l < ?m")
    case True
    have "c64_high (u64Subtract a b) = u32 (c64_high a - (c64_high b + 1))"
      using True by (simp add: u64Subtract_def Let_def word_less_nat_alt diff_diff_eq)
    then show ?thesis using sub [of "c64_high a" "c64_high b + 1"] r kk True by simp
  next
    case False
    then show ?thesis
      using sub [of "c64_high a" "c64_high b"] r by (simp add: u64Subtract_def Let_def word_less_nat_alt)
  qed
  have wf: "c64_wf (u64Subtract a b)" by (simp add: u64Subtract_def Let_def c64_wf_u32)
  have "c64_val (u64Subtract a b) + c64_val b = c64_val a + (if c64_val b \<le> c64_val a then 0 else 2 ^ 64)"
    unfolding c64_val_def hi lo Let_def using r by (auto split: if_splits)
  then have "c64_val (u64Subtract a b) =
      (if c64_val b \<le> c64_val a then c64_val a - c64_val b else c64_val a + 2 ^ 64 - c64_val b)"
    by (auto split: if_splits)
  then show ?thesis
    using wf c64_val_less [OF wf] c64_val_less [OF assms(1)] by (auto simp: mod_if)
qed

lemma u64Incr_correct:
  assumes "c64_wf a" "c64_wf b"
  shows "c64_wf (u64Incr a b) \<and> c64_val (u64Incr a b) = (c64_val a + c64_val b) mod 2 ^ 64"
proof -
  let ?a = "a\<lparr>c64_high := u32 (c64_high a + c64_high b)\<rparr>"
  have wf: "c64_wf ?a" using assms by (simp add: c64_wf_def unat_u32)
  have n: "unat (ucast (c64_low b) :: u_int) = unat (c64_low b)"
    using assms by (intro unat_ucast_fits) (simp add: c64_wf_def)
  have h: "unat (u32 (c64_high a + c64_high b)) = (unat (c64_high a) + unat (c64_high b)) mod 2 ^ 32"
    using assms by (simp add: unat_u32 unat_word_ariths c64_wf_def)
  have "(c64_val ?a + unat (c64_low b)) mod 2 ^ 64 = (c64_val a + c64_val b) mod 2 ^ 64"
  proof -
    let ?x = "unat (c64_high a) + unat (c64_high b)" and ?y = "unat (c64_low a) + unat (c64_low b)"
    have "(?x mod 2 ^ 32) * 2 ^ 32 = (?x * 2 ^ 32) mod 2 ^ 64"
      by (simp add: mult_mod_left)
    then have "((?x mod 2 ^ 32) * 2 ^ 32 + ?y) mod 2 ^ 64 = (?x * 2 ^ 32 + ?y) mod 2 ^ 64"
      by (simp only: mod_add_left_eq)
    then show ?thesis unfolding c64_val_def by (simp add: h algebra_simps)
  qed
  then show ?thesis
    using incrByU32_correct [OF wf, of "ucast (c64_low b)"] unfolding u64Incr_def n by simp
qed

lemma u64UpdateCounter_correct:
  assumes "c64_wf out" "c64_wf a" "c64_wf b"
  shows "c64_wf (u64UpdateCounter out a b) \<and>
    c64_val (u64UpdateCounter out a b) = (c64_val out + c64_val a + 2 ^ 64 - c64_val b) mod 2 ^ 64"
proof -
  have "c64_val b \<le> c64_val a + 2 ^ 64" using c64_val_less [OF assms(3)] by simp
  then show ?thesis
    using u64Subtract_correct [OF assms(2,3)] u64Incr_correct [OF assms(1), of "u64Subtract a b"]
    unfolding u64UpdateCounter_def by (simp add: mod_add_right_eq add.assoc)
qed

section \<open>Printing and reading\<close>

text \<open>The digit loop produces the decimal digits, the reader adds them up.\<close>

lemma isZeroU64_iff: "isZeroU64 c \<longleftrightarrow> c64_val c = 0"
  by (auto simp: isZeroU64_def c64_val_def unat_eq_0)

lemma c64_eqI:
  assumes "c64_wf a" "c64_wf b" "c64_val a = c64_val b"
  shows "a = b"
proof -
  have "unat (c64_high a) = c64_val a div 2 ^ 32 \<and> unat (c64_low a) = c64_val a mod 2 ^ 32" if "c64_wf a" for a
    using that by (simp add: c64_val_def c64_wf_def)
  then have "unat (c64_high a) = unat (c64_high b)" "unat (c64_low a) = unat (c64_low b)"
    using assms by metis+
  then show ?thesis by (simp add: word_unat_eq_iff)
qed

fun dec_digits :: "nat \<Rightarrow> bytes" where
  "dec_digits n = (if n < 10 then [word_of_nat (48 + n)] else dec_digits (n div 10) @ [word_of_nat (48 + n mod 10)])"

declare dec_digits.simps [simp del]

lemma digit_char:
  assumes "unat (u :: u_int) < 10"
  shows "(ucast (48 + u) :: u_char) = word_of_nat (48 + unat u)"
proof -
  have "unat (48 + u) = 48 + unat u" using assms by (simp add: unat_word_ariths)
  moreover have "(ucast (48 + u) :: u_char) = word_of_nat (unat (48 + u))" by simp
  ultimately show ?thesis by (simp only:)
qed

lemma printU64_loop_digits:
  assumes "c64_wf c" "c64_val c < 10 ^ n" "0 < n"
  shows "printU64_loop n c acc = Some (dec_digits (c64_val c) @ acc)"
  using assms
proof (induction n arbitrary: c acc)
  case 0
  then show ?case by simp
next
  case (Suc n)
  obtain q u where d: "divBy10 c = (q, u)" by (cases "divBy10 c")
  have q: "c64_wf q" "c64_val q = c64_val c div 10" "unat u = c64_val c mod 10"
    using divBy10_correct [OF Suc.prems(1) d] by auto
  have ch: "(ucast (48 + u) :: u_char) = word_of_nat (48 + c64_val c mod 10)"
    using digit_char [of u] q(3) by simp
  show ?case
  proof (cases "c64_val c < 10")
    case True
    then show ?thesis using d ch by (simp add: isZeroU64_iff q(2) dec_digits.simps [of "c64_val c"])
  next
    case False
    then have "0 < n" "c64_val q < 10 ^ n" using Suc.prems q(2) by (cases n, auto)
    moreover have "c64_val c div 10 \<noteq> 0" using False by (simp add: div_eq_0_iff)
    ultimately show ?thesis
      using Suc.IH [OF q(1)] False d ch
      by (simp add: isZeroU64_iff q(2) dec_digits.simps [of "c64_val c"] Let_def)
  qed
qed

lemma printU64_digits: "c64_wf c \<Longrightarrow> printU64 c = Some (dec_digits (c64_val c))"
  using printU64_loop_digits [of c I64CHARSZ "[]"] c64_val_less [of c]
  by (simp add: printU64_def I64CHARSZ_def)

lemma read64_loop_append:
  assumes "\<forall>d \<in> set ds. d \<noteq> 0 \<and> isdigit d"
  shows "read64_loop c ok (ds @ s) =
    (case read64_loop c ok ds of (c', ok') \<Rightarrow> read64_loop c' ok' s)"
  using assms by (induction ds arbitrary: c ok) auto

lemma digit_facts:
  assumes "d < 10"
  shows "isdigit (word_of_nat (48 + d))" "word_of_nat (48 + d) \<noteq> (0 :: u_char)"
    "unat (ucast ((word_of_nat (48 + d) :: u_char) - 48) :: u_int) = d"
proof -
  have "d = 0 \<or> d = 1 \<or> d = 2 \<or> d = 3 \<or> d = 4 \<or> d = 5 \<or> d = 6 \<or> d = 7 \<or> d = 8 \<or> d = 9"
    using assms by presburger
  then show "isdigit (word_of_nat (48 + d))" "word_of_nat (48 + d) \<noteq> (0 :: u_char)"
    "unat (ucast ((word_of_nat (48 + d) :: u_char) - 48) :: u_int) = d"
    by (elim disjE; simp add: isdigit_def)+
qed

lemma dec_digits_isdigit: "\<forall>d \<in> set (dec_digits n). d \<noteq> 0 \<and> isdigit d"
proof (induction n rule: dec_digits.induct)
  case (1 n)
  show ?case
  proof (cases "n < 10")
    case True
    then show ?thesis by (simp add: dec_digits.simps [of n] digit_facts [simplified])
  next
    case False
    then show ?thesis using 1 digit_facts(1,2) [of "n mod 10"] by (simp add: dec_digits.simps [of n])
  qed
qed

lemma read64_digit:
  assumes "c64_wf c" "d < 10"
  shows "c64_wf (incrByU16 (multBy10 c) (ucast ((word_of_nat (48 + d) :: u_char) - 48))) \<and>
    c64_val (incrByU16 (multBy10 c) (ucast ((word_of_nat (48 + d) :: u_char) - 48))) = (10 * c64_val c + d) mod 2 ^ 64"
proof -
  let ?u = "ucast ((word_of_nat (48 + d) :: u_char) - 48) :: u_int"
  have m: "c64_wf (multBy10 c)" "c64_val (multBy10 c) = (10 * c64_val c) mod 2 ^ 64"
    using multBy10_correct [OF assms(1)] by auto
  have "((10 * c64_val c) mod 2 ^ 64 + d) mod 2 ^ 64 = (10 * c64_val c + d) mod 2 ^ 64"
    by (rule mod_add_left_eq)
  then show ?thesis
    using incrByU32_correct [OF m(1), of ?u] by (simp only: incrByU16_def m(2) digit_facts(3) [OF assms(2)])
qed

lemma read64_loop_digits:
  assumes "n < 2 ^ 64"
  shows "\<exists>c. c64_wf c \<and> c64_val c = n \<and> read64_loop zeroU64 ok (dec_digits n) = (c, True)"
  using assms
proof (induction n rule: dec_digits.induct)
  case (1 n)
  have z: "c64_wf zeroU64" "c64_val zeroU64 = 0" by (simp_all add: zeroU64_def c64_wf_def c64_val_def)
  show ?case
  proof (cases "n < 10")
    case True
    then show ?thesis
      using read64_digit [OF z(1) True] z digit_facts(1,2) [OF True] 1
      by (auto simp: dec_digits.simps [of n])
  next
    case False
    then obtain c where c: "c64_wf c" "c64_val c = n div 10" "read64_loop zeroU64 ok (dec_digits (n div 10)) = (c, True)"
      using 1 by (auto simp: less_mult_imp_div_less)
    let ?d = "n mod 10"
    have d: "?d < 10" by simp
    have v: "(10 * (n div 10) + n mod 10) mod 2 ^ 64 = n" using 1(2) by simp
    show ?thesis
      using read64_digit [OF c(1) d] digit_facts(1,2) [OF d] c False v
      by (auto simp: dec_digits.simps [of n] read64_loop_append dec_digits_isdigit)
  qed
qed

lemma dec_digits_head:
  obtains d ds where "dec_digits n = d # ds" "d \<noteq> 45"
proof -
  obtain d ds where d: "dec_digits n = d # ds"
    by (cases "dec_digits n") (simp_all add: dec_digits.simps [of n] split: if_splits)
  moreover have "isdigit d" using dec_digits_isdigit [of n] d by simp
  ultimately have "d \<noteq> 45" by (auto simp: isdigit_def)
  with d show thesis by (rule that)
qed

lemma read64_digits:
  assumes "c64_wf c"
  shows "read64 (dec_digits (c64_val c)) = (True, c)"
proof -
  obtain d ds where h: "dec_digits (c64_val c) = d # ds" "d \<noteq> 45" by (rule dec_digits_head)
  obtain c' where c': "c64_wf c'" "c64_val c' = c64_val c" "read64_loop zeroU64 False (d # ds) = (c', True)"
    using read64_loop_digits [OF c64_val_less [OF assms], of False] h by auto
  have "c' = c" using c'(1) assms c'(2) by (rule c64_eqI)
  then show ?thesis unfolding h(1) read64_def using h(2) c'(3) by simp
qed

lemma printU64_read64: "c64_wf c \<Longrightarrow> map_option read64 (printU64 c) = Some (True, c)"
  by (simp add: printU64_digits read64_digits)

definition negU64 :: "counter64 \<Rightarrow> counter64" where
  "negU64 c = incrByU32 \<lparr>c64_high = u32 (NOT (c64_high c)), c64_low = u32 (NOT (c64_low c))\<rparr> 1"

lemma unat_u32_NOT: "unat x < 2 ^ 32 \<Longrightarrow> unat (u32 (NOT x)) = 2 ^ 32 - 1 - unat x"
proof -
  assume x: "unat x < 2 ^ 32"
  have "NOT x = - 1 - x" by (simp add: not_eq_complement)
  moreover have "x \<le> - 1" by (rule word_order.extremum)
  ultimately have "unat (NOT x) = unat (- 1 :: u_long) - unat x" by (simp add: unat_sub word_le_nat_alt)
  then have "unat (NOT x) = 2 ^ 64 - 1 - unat x"
    by (simp add: unsigned_minus_1_eq_mask mask_eq_exp_minus_1)
  also have "\<dots> = (2 ^ 32 - 1 - unat x) + (2 ^ 32 - 1) * 2 ^ 32" using x by simp
  finally have "unat (u32 (NOT x)) = (2 ^ 32 - 1 - unat x) mod 2 ^ 32"
    by (simp only: unat_u32 mod_mult_self1)
  then show ?thesis by simp
qed

lemma negU64_correct:
  assumes "c64_wf c"
  shows "c64_wf (negU64 c) \<and> c64_val (negU64 c) = (2 ^ 64 - c64_val c) mod 2 ^ 64"
proof -
  let ?n = "\<lparr>c64_high = u32 (NOT (c64_high c)), c64_low = u32 (NOT (c64_low c))\<rparr>"
  have r: "unat (c64_high c) < 2 ^ 32" "unat (c64_low c) < 2 ^ 32" using assms by (auto simp: c64_wf_def)
  have "c64_val ?n + 1 = 2 ^ 64 - c64_val c"
    using r by (simp add: c64_val_def unat_u32_NOT)
  then show ?thesis
    using incrByU32_correct [OF c64_wf_u32, of "NOT (c64_high c)" "NOT (c64_low c)" 1]
    unfolding negU64_def by simp
qed

lemma negU64_negU64:
  assumes "c64_wf c"
  shows "negU64 (negU64 c) = c"
proof (rule c64_eqI)
  have n: "c64_wf (negU64 c)" "c64_val (negU64 c) = (2 ^ 64 - c64_val c) mod 2 ^ 64"
    using negU64_correct [OF assms] by auto
  have "c64_val (negU64 (negU64 c)) = (2 ^ 64 - (2 ^ 64 - c64_val c) mod 2 ^ 64) mod 2 ^ 64"
    using negU64_correct [OF n(1)] by (simp only: n(2))
  also have "\<dots> = c64_val c"
    using c64_val_less [OF assms] by (cases "c64_val c = 0") (simp_all add: mod_if)
  finally show "c64_val (negU64 (negU64 c)) = c64_val c" .
qed (use assms negU64_correct in auto)

lemma read64_minus:
  assumes "c64_wf c"
  shows "read64 (45 # dec_digits (c64_val c)) = (True, negU64 c)"
proof -
  have "read64_loop zeroU64 False (dec_digits (c64_val c)) = (c, True)"
    using read64_loop_digits [OF c64_val_less [OF assms], of False] c64_eqI [OF _ assms] by auto
  then show ?thesis by (simp add: read64_def negU64_def incrByU16_def Let_def)
qed

lemma printI64_read64:
  assumes "c64_wf c"
  shows "map_option read64 (printI64 c) = Some (True, c)"
proof (cases "c64_high c AND 0x80000000 = 0")
  case True
  then show ?thesis using assms by (simp add: printI64_def printU64_read64)
next
  case False
  then have "printI64 c = map_option (\<lambda>s. 45 # s) (printU64 (negU64 c))"
    by (simp add: printI64_def negU64_def Let_def)
  then show ?thesis
    using negU64_correct [OF assms] read64_minus [of "negU64 c"]
    by (simp add: printU64_digits negU64_negU64 [OF assms])
qed

lemma length_dec_digits: "n < 10 ^ k \<Longrightarrow> 0 < k \<Longrightarrow> length (dec_digits n) \<le> k"
proof (induction k arbitrary: n)
  case (Suc k)
  show ?case
  proof (cases "n < 10")
    case False
    then have "0 < k" "n div 10 < 10 ^ k" using Suc.prems by (cases k, auto)
    then show ?thesis using Suc.IH False by (simp add: dec_digits.simps [of n])
  qed (simp add: dec_digits.simps [of n])
qed simp

section \<open>Detection of 32-bit wraps\<close>

definition c32 :: "nat \<Rightarrow> counter64" where \<comment> \<open>what a 32-bit source shows of a running total\<close>
  "c32 t = \<lparr>c64_high = 0, c64_low = word_of_nat (t mod 2 ^ 32)\<rparr>"

lemma c32_facts: "c64_wf (c32 t)" "c64_val (c32 t) = t mod 2 ^ 32" "unat (c64_low (c32 t)) = t mod 2 ^ 32" "c64_high (c32 t) = 0"
proof -
  have "t mod 2 ^ 32 < 2 ^ 32" by simp
  then have "unat (word_of_nat (t mod 2 ^ 32) :: u_long) = t mod 2 ^ 32"
    by (simp only: unat_of_nat) simp
  then show "c64_wf (c32 t)" "c64_val (c32 t) = t mod 2 ^ 32" "unat (c64_low (c32 t)) = t mod 2 ^ 32" "c64_high (c32 t) = 0"
    by (simp_all add: c32_def c64_wf_def c64_val_def)
qed

lemma high_eq: "c64_high (c32 t1) = c64_high (c32 t0)"
  by (simp add: c32_def)

lemma c64_check32_no_wrap:
  assumes "c64_low old \<le> c64_low new" "c64_high new = c64_high old" "flag \<noteq> Some 0"
  shows "netsnmp_c64_check32_and_update prev new old flag = (0, u64UpdateCounter prev new old, new, flag)"
  using assms by (simp add: netsnmp_c64_check32_and_update_def netsnmp_c64_check_for_32bit_wrap_def)

lemma c64_check32_wrap:
  assumes "c64_low new < c64_low old" "c64_high new = c64_high old" "flag \<noteq> Some 0"
  shows "netsnmp_c64_check32_and_update prev new old flag =
    (0, u64UpdateCounter prev (new\<lparr>c64_high := u32 (c64_high new + 1)\<rparr>) old, new\<lparr>c64_high := 0\<rparr>, flag)"
  using assms by (simp add: netsnmp_c64_check32_and_update_def netsnmp_c64_check_for_32bit_wrap_def not_le)

lemma mod_twice: "x < m + m \<Longrightarrow> x mod m = (if x < m then x else x - m)" for x m :: nat
  by (simp add: mod_if)

lemma mod_window:
  fixes t0 t1 :: nat
  assumes "t0 \<le> t1" "t1 < t0 + 2 ^ 32"
  shows "t1 - t0 = (if t0 mod 2 ^ 32 \<le> t1 mod 2 ^ 32 then t1 mod 2 ^ 32 - t0 mod 2 ^ 32
    else 2 ^ 32 + t1 mod 2 ^ 32 - t0 mod 2 ^ 32)"
proof -
  obtain d where d: "t1 = t0 + d" "d < 2 ^ 32" using assms le_Suc_ex by fastforce
  have r: "t0 mod 2 ^ 32 < 2 ^ 32" by simp
  have "t1 mod 2 ^ 32 = (t0 mod 2 ^ 32 + d) mod 2 ^ 32" by (simp only: d(1) mod_add_left_eq)
  also have "\<dots> = (if t0 mod 2 ^ 32 + d < 2 ^ 32 then t0 mod 2 ^ 32 + d else t0 mod 2 ^ 32 + d - 2 ^ 32)"
    by (rule mod_twice) (use r d(2) in linarith)
  finally have e: "t1 mod 2 ^ 32 = (if t0 mod 2 ^ 32 + d < 2 ^ 32 then t0 mod 2 ^ 32 + d else t0 mod 2 ^ 32 + d - 2 ^ 32)" .
  have arith: "d = (if r0 \<le> r1 then r1 - r0 else m + r1 - r0)"
    if "r1 = (if r0 + d < m then r0 + d else r0 + d - m)" "r0 < m" "d < m" for r0 r1 m :: nat
    using that by (auto split: if_splits)
  have "t1 - t0 = d" using d(1) by simp
  then show ?thesis using arith [OF e r d(2)] by (simp only:)
qed

text \<open>C27. A 32-bit source of a running total is accumulated without loss: if the total advanced by less
  than \<open>2^32\<close> between two polls, \<open>netsnmp_c64_check32_and_update\<close> succeeds, adds exactly the advance to
  the 64-bit counter (modulo \<open>2^64\<close>), whether or not the 32-bit value wrapped, and leaves the polled value and
  the flag as they were.\<close>

theorem c64_check32_accumulates:
  assumes "c64_wf prev" "flag \<noteq> Some 0" "t0 \<le> t1" "t1 < t0 + 2 ^ 32"
    and "netsnmp_c64_check32_and_update prev (c32 t1) (c32 t0) flag = (rc, prev', new', flag')"
  shows "rc = 0 \<and> new' = c32 t1 \<and> flag' = flag \<and> c64_wf prev' \<and> c64_val prev' = (c64_val prev + (t1 - t0)) mod 2 ^ 64"
proof (cases "t0 mod 2 ^ 32 \<le> t1 mod 2 ^ 32")
  case True
  have le: "c64_low (c32 t0) \<le> c64_low (c32 t1)"
    using True by (simp only: word_le_nat_alt c32_facts)
  have r: "rc = 0" "prev' = u64UpdateCounter prev (c32 t1) (c32 t0)" "new' = c32 t1" "flag' = flag"
    using assms(5) unfolding c64_check32_no_wrap [OF le high_eq assms(2)] by auto
  have "t1 mod 2 ^ 32 - t0 mod 2 ^ 32 = t1 - t0"
    using mod_window [OF assms(3,4)] True by simp
  then have "c64_val prev + c64_val (c32 t1) + 2 ^ 64 - c64_val (c32 t0) = c64_val prev + (t1 - t0) + 2 ^ 64"
    using True by (simp only: c32_facts)
  then show ?thesis
    using u64UpdateCounter_correct [OF assms(1) c32_facts(1) c32_facts(1), of t1 t0] r by simp
next
  case False
  let ?n = "(c32 t1)\<lparr>c64_high := u32 (c64_high (c32 t1) + 1)\<rparr>"
  have lt: "c64_low (c32 t1) < c64_low (c32 t0)"
    using False by (simp only: word_less_nat_alt c32_facts not_le)
  have h1: "unat (u32 (0 + 1)) = 1" by (simp add: unat_u32)
  have n: "c64_wf ?n" "c64_val ?n = 2 ^ 32 + t1 mod 2 ^ 32"
    using c32_facts [of t1] h1 by (simp_all add: c64_wf_def c64_val_def)
  have r: "rc = 0" "prev' = u64UpdateCounter prev ?n (c32 t0)" "new' = (c32 t1)\<lparr>c64_high := 0\<rparr>" "flag' = flag"
    using assms(5) unfolding c64_check32_wrap [OF lt high_eq assms(2)] by auto
  have diff: "2 ^ 32 + t1 mod 2 ^ 32 - t0 mod 2 ^ 32 = t1 - t0"
    using mod_window [OF assms(3,4)] False by simp
  have "c64_val prev + c64_val ?n + 2 ^ 64 - c64_val (c32 t0) = c64_val prev + (t1 - t0) + 2 ^ 64"
  proof -
    have "a - r = d \<Longrightarrow> r < 2 ^ 32 \<Longrightarrow> 2 ^ 32 \<le> a \<Longrightarrow> p + a + 2 ^ 64 - r = p + d + 2 ^ 64" for a r d p :: nat
      by arith
    then show ?thesis
      unfolding n(2) c32_facts(2)
      using diff by simp
  qed
  moreover have "(c32 t1)\<lparr>c64_high := 0\<rparr> = c32 t1" by (simp add: c32_def)
  ultimately show ?thesis
    using u64UpdateCounter_correct [OF assms(1) n(1) c32_facts(1), of t0] r by simp
qed

theorem c64_check32_accumulates_witness:
  "case netsnmp_c64_check32_and_update \<lparr>c64_high = 7, c64_low = 0xFFFFFFF0\<rparr> (c32 (2 ^ 32 + 5)) (c32 (2 ^ 32 - 10)) None
   of (rc, prev', _) \<Rightarrow> rc = 0 \<and> c64_val prev' = 8 * 2 ^ 32 - 1"
proof -
  let ?p = "\<lparr>c64_high = 7, c64_low = 0xFFFFFFF0\<rparr>"
  obtain rc prev' new' flag' where r:
      "netsnmp_c64_check32_and_update ?p (c32 (2 ^ 32 + 5)) (c32 (2 ^ 32 - 10)) None = (rc, prev', new', flag')"
    by (metis prod_cases4)
  have "rc = 0 \<and> c64_val prev' = (c64_val ?p + ((2 ^ 32 + 5) - (2 ^ 32 - 10))) mod 2 ^ 64"
    using c64_check32_accumulates [OF _ _ _ _ r] by (simp add: c64_wf_def)
  then show ?thesis unfolding r by (simp add: c64_val_def)
qed

section \<open>Properties\<close>

text \<open>C29. The half-word routines are arithmetic modulo \<open>2^64\<close> on the value of a counter: division with
  remainder by ten, multiplication by ten, the addition of a 32-bit amount and the update with a difference
  of two counters; all of them keep both halves below \<open>2^32\<close>.\<close>

theorem c64_arithmetic:
  assumes "c64_wf u" "c64_wf a" "c64_wf b"
  shows "(case divBy10 u of (q, r) \<Rightarrow> c64_wf q \<and> c64_val q = c64_val u div 10 \<and> unat r = c64_val u mod 10)
    \<and> c64_wf (multBy10 u) \<and> c64_val (multBy10 u) = (10 * c64_val u) mod 2 ^ 64
    \<and> c64_wf (incrByU32 u n) \<and> c64_val (incrByU32 u n) = (c64_val u + unat n) mod 2 ^ 64
    \<and> c64_wf (u64UpdateCounter u a b)
    \<and> c64_val (u64UpdateCounter u a b) = (c64_val u + c64_val a + 2 ^ 64 - c64_val b) mod 2 ^ 64"
  using divBy10_correct [OF assms(1)] multBy10_correct [OF assms(1)] incrByU32_correct [OF assms(1), of n]
    u64UpdateCounter_correct [OF assms]
  by (auto split: prod.splits)

theorem c64_arithmetic_witness:
  "c64_val (u64UpdateCounter \<lparr>c64_high = 0, c64_low = 5\<rparr> \<lparr>c64_high = 0, c64_low = 1\<rparr> \<lparr>c64_high = 0, c64_low = 9\<rparr>) = 2 ^ 64 - 3"
  using c64_arithmetic [of "\<lparr>c64_high = 0, c64_low = 5\<rparr>" "\<lparr>c64_high = 0, c64_low = 1\<rparr>" "\<lparr>c64_high = 0, c64_low = 9\<rparr>"]
  by (simp add: c64_wf_def c64_val_def)

text \<open>C28. Printing and reading a counter are inverse, both as an unsigned (\<open>printU64\<close>) and as a
  two's-complement value (\<open>printI64\<close>), the digit loop always ends with its \<open>break\<close>, and the
  text fits the \<open>I64CHARSZ + 1\<close> bytes the callers provide.\<close>

theorem c64_print_read:
  assumes "c64_wf c"
  shows "\<exists>s t. printU64 c = Some s \<and> read64 s = (True, c) \<and> length s \<le> I64CHARSZ
    \<and> printI64 c = Some t \<and> read64 t = (True, c) \<and> length t \<le> I64CHARSZ"
proof -
  have d: "length (dec_digits (c64_val a)) \<le> 20" if "c64_wf a" for a
    using length_dec_digits [of "c64_val a" 20] c64_val_less [OF that] by simp
  have "length t \<le> 21" if "printI64 c = Some t" for t
  proof (cases "c64_high c AND 0x80000000 = 0")
    case True
    then have "t = dec_digits (c64_val c)"
      using that assms by (simp add: printI64_def printU64_digits)
    then show ?thesis using d [OF assms] by simp
  next
    case False
    then have "t = 45 # dec_digits (c64_val (negU64 c))"
      using that negU64_correct [OF assms]
      by (auto simp add: printI64_def negU64_def [symmetric] Let_def printU64_digits)
    then show ?thesis using d [of "negU64 c"] negU64_correct [OF assms] by simp
  qed
  then show ?thesis
    using printU64_read64 [OF assms] printI64_read64 [OF assms] d [OF assms]
    by (auto simp: printU64_digits [OF assms] I64CHARSZ_def)
qed

theorem c64_print_read_witness:
  "\<exists>s. printI64 \<lparr>c64_high = 0xFFFFFFFF, c64_low = 0xFFFFFFFE\<rparr> = Some s
    \<and> read64 s = (True, \<lparr>c64_high = 0xFFFFFFFF, c64_low = 0xFFFFFFFE\<rparr>)"
  using c64_print_read [of "\<lparr>c64_high = 0xFFFFFFFF, c64_low = 0xFFFFFFFE\<rparr>"]
  by (auto simp: c64_wf_def)

end
