(* ===== verification/AsnParse.thy ===== *)
theory AsnParse
  imports Int64
begin

text \<open>
  The decoding half of \<^verbatim>\<open>snmplib/asn1.c\<close>: BER lengths, headers and the SNMP types. A parser takes the
  bytes from \<open>data\<close> to the end of the buffer and \<open>*datalength\<close>, and returns the position after the object
  (the rest of the bytes), the new \<open>*datalength\<close>, the type and the value. The C code trusts
  \<open>*datalength\<close>; a read past the bytes that are really there is \<open>Overrun\<close>, so memory safety is the
  statement that no parser returns \<open>Overrun\<close> when \<open>*datalength\<close> is at most the number of bytes.
  Pointer arguments are never \<open>NULL\<close> in the model, output parameters of a failing call are dropped (the
  callers give up), and the debug dumps are left out. \<^verbatim>\<open>NETSNMP_WITH_OPAQUE_SPECIAL_TYPES\<close> is on, as
  configure sets it; the machine is little-endian. Floats and doubles are in \<open>AsnFloat\<close>.
\<close>

section \<open>Tags\<close>

abbreviation (input) ASN_LONG_LEN :: u_char where "ASN_LONG_LEN \<equiv> 0x80"
abbreviation (input) ASN_BIT8 :: u_char where "ASN_BIT8 \<equiv> 0x80"
abbreviation (input) ASN_EXTENSION_ID :: u_char where "ASN_EXTENSION_ID \<equiv> 0x1F"
abbreviation (input) ASN_INTEGER :: u_char where "ASN_INTEGER \<equiv> 0x02"
abbreviation (input) ASN_BIT_STR :: u_char where "ASN_BIT_STR \<equiv> 0x03"
abbreviation (input) ASN_OCTET_STR :: u_char where "ASN_OCTET_STR \<equiv> 0x04"
abbreviation (input) ASN_NULL :: u_char where "ASN_NULL \<equiv> 0x05"
abbreviation (input) ASN_OBJECT_ID :: u_char where "ASN_OBJECT_ID \<equiv> 0x06"
abbreviation (input) ASN_SEQUENCE_CON :: u_char where "ASN_SEQUENCE_CON \<equiv> 0x30" \<comment> \<open>\<open>ASN_SEQUENCE | ASN_CONSTRUCTOR\<close>\<close>
abbreviation (input) ASN_IPADDRESS :: u_char where "ASN_IPADDRESS \<equiv> 0x40"
abbreviation (input) ASN_COUNTER :: u_char where "ASN_COUNTER \<equiv> 0x41"
abbreviation (input) ASN_GAUGE :: u_char where "ASN_GAUGE \<equiv> 0x42"
abbreviation (input) ASN_TIMETICKS :: u_char where "ASN_TIMETICKS \<equiv> 0x43"
abbreviation (input) ASN_OPAQUE :: u_char where "ASN_OPAQUE \<equiv> 0x44"
abbreviation (input) ASN_NSAP :: u_char where "ASN_NSAP \<equiv> 0x45"
abbreviation (input) ASN_COUNTER64 :: u_char where "ASN_COUNTER64 \<equiv> 0x46"
abbreviation (input) ASN_UINTEGER :: u_char where "ASN_UINTEGER \<equiv> 0x47"
abbreviation (input) ASN_OPAQUE_TAG1 :: u_char where "ASN_OPAQUE_TAG1 \<equiv> 0x9F"
abbreviation (input) ASN_OPAQUE_COUNTER64 :: u_char where "ASN_OPAQUE_COUNTER64 \<equiv> 0x76"
abbreviation (input) ASN_OPAQUE_FLOAT :: u_char where "ASN_OPAQUE_FLOAT \<equiv> 0x78"
abbreviation (input) ASN_OPAQUE_DOUBLE :: u_char where "ASN_OPAQUE_DOUBLE \<equiv> 0x79"
abbreviation (input) ASN_OPAQUE_I64 :: u_char where "ASN_OPAQUE_I64 \<equiv> 0x7A"
abbreviation (input) ASN_OPAQUE_U64 :: u_char where "ASN_OPAQUE_U64 \<equiv> 0x7B"
abbreviation (input) SNMP_NOSUCHOBJECT :: u_char where "SNMP_NOSUCHOBJECT \<equiv> 0x80"
abbreviation (input) SNMP_NOSUCHINSTANCE :: u_char where "SNMP_NOSUCHINSTANCE \<equiv> 0x81"
abbreviation (input) SNMP_ENDOFMIBVIEW :: u_char where "SNMP_ENDOFMIBVIEW \<equiv> 0x82"

section \<open>Lengths\<close>

text \<open>The loop \<open>while (lengthbyte--)\<close> of \<open>asn_parse_length\<close>.\<close>

fun asn_parse_length_loop :: "nat \<Rightarrow> bytes \<Rightarrow> u_long \<Rightarrow> (bytes \<times> u_long) cres" where
  "asn_parse_length_loop 0 data len = Ret (data, len)"
| "asn_parse_length_loop (Suc n) data len =
     (case data of [] \<Rightarrow> Overrun
      | b # data \<Rightarrow> asn_parse_length_loop n data (push_bit 8 len OR ucast b))"

definition asn_parse_length :: "bytes \<Rightarrow> (bytes \<times> nat) cres" where
  "asn_parse_length data =
     cbind (deref data) (\<lambda>lengthbyte.
       if lengthbyte AND ASN_LONG_LEN \<noteq> 0 then
         let lengthbyte = lengthbyte AND NOT ASN_LONG_LEN in
         if lengthbyte = 0 then Null
         else if unat lengthbyte > 8 then Null
         else cbind (asn_parse_length_loop (unat lengthbyte) (tl data) 0) (\<lambda>(data, len).
           if sint len < 0 then Null else Ret (data, unat len))
       else Ret (tl data, unat lengthbyte))"

definition asn_parse_nlength :: "bytes \<Rightarrow> nat \<Rightarrow> (bytes \<times> nat) cres" where
  "asn_parse_nlength pkt pkt_len =
     (if pkt_len < 1 then Null
      else cbind (deref pkt) (\<lambda>b.
        if b AND 0x80 \<noteq> 0 then
          let len_len = unat (b AND NOT 0x80) + 1 in
          if pkt_len < len_len then Null
          else cbind (asn_parse_length pkt) (\<lambda>(_, data_len).
            if size_add data_len len_len > pkt_len then Null else Ret (drop len_len pkt, data_len))
        else
          let len_len = 1; data_len = unat b in
          if size_add data_len len_len > pkt_len then Null else Ret (drop len_len pkt, data_len)))"

text \<open>The size of a whole message, from its first bytes: 0 for \<open>not known yet\<close>, -1 for a wrong tag.\<close>

definition asn_check_packet :: "bytes \<Rightarrow> nat \<Rightarrow> int cres" where
  "asn_check_packet pkt len =
     (if len < 2 then Ret 0
      else cbind (deref pkt) (\<lambda>t.
        if t \<noteq> ASN_SEQUENCE_CON then Ret (-1)
        else cbind (deref (tl pkt)) (\<lambda>b.
          if b AND 0x80 \<noteq> 0 then
            if c_int len < int (unat (b AND NOT 0x80)) + 2 then Ret 0
            else (case asn_parse_length (tl pkt) of
                    Overrun \<Rightarrow> Overrun
                  | Null \<Rightarrow> Ret 0
                  | Ret (_, asn_length) \<Rightarrow> Ret (c_int ((asn_length + 2 + unat (b AND NOT 0x80)) mod 2 ^ 64)))
          else Ret (int (unat b) + 2))))"

section \<open>Headers\<close>

text \<open>
  The end of \<open>asn_parse_header\<close>, once the length is known: an Opaque wrapper of a 64-bit or floating
  point value is opened as well.
\<close>

definition asn_parse_header_contents :: "bytes \<Rightarrow> nat \<Rightarrow> u_char \<Rightarrow> (bytes \<times> nat \<times> u_char) cres" where
  "asn_parse_header_contents bufp asn_length t =
     (let datalength = size_sub 0 (- c_int asn_length) in
      if asn_length > 2 \<and> t = ASN_OPAQUE then
        cbind (deref bufp) (\<lambda>b0.
          if b0 = ASN_OPAQUE_TAG1 then
            cbind (deref (tl bufp)) (\<lambda>b1.
              if b1 = ASN_OPAQUE_COUNTER64 \<or> b1 = ASN_OPAQUE_U64 \<or> b1 = ASN_OPAQUE_FLOAT
                 \<or> b1 = ASN_OPAQUE_DOUBLE \<or> b1 = ASN_OPAQUE_I64 then
                cbind (asn_parse_nlength (drop 2 bufp) (size_sub datalength 2)) (\<lambda>(bufp, asn_length).
                  Ret (bufp, size_sub 0 (- c_int asn_length), b1))
              else Ret (bufp, datalength, t))
          else Ret (bufp, datalength, t))
      else Ret (bufp, datalength, t))"

definition asn_parse_header :: "bytes \<Rightarrow> nat \<Rightarrow> (bytes \<times> nat \<times> u_char) cres" where
  "asn_parse_header data datalength =
     (if datalength < 2 then Null
      else cbind (deref data) (\<lambda>t.
        if t AND ASN_EXTENSION_ID = ASN_EXTENSION_ID then Null
        else cbind (asn_parse_nlength (tl data) (datalength - 1)) (\<lambda>(bufp, asn_length).
          asn_parse_header_contents bufp asn_length t)))"

definition asn_parse_sequence :: "bytes \<Rightarrow> nat \<Rightarrow> u_char \<Rightarrow> (bytes \<times> nat \<times> u_char) cres" where
  "asn_parse_sequence data datalength expected_type =
     cbind (asn_parse_header data datalength) (\<lambda>(data, datalength, type).
       if type \<noteq> expected_type then Null else Ret (data, datalength, type))"

text \<open>
  The opening shared by the value parsers: two bytes at least, the type, the length. The result is
  the position of the contents, the contents' length, the type and the size of the header.
\<close>

definition asn_open :: "(u_char \<Rightarrow> bool) \<Rightarrow> bytes \<Rightarrow> nat \<Rightarrow> (bytes \<times> nat \<times> u_char \<times> nat) cres" where
  "asn_open ok data datalength =
     (if datalength < 2 then Null
      else cbind (deref data) (\<lambda>t.
        if \<not> ok t then Null
        else cbind (asn_parse_nlength (tl data) (datalength - 1)) (\<lambda>(bufp, asn_length).
          Ret (bufp, asn_length, t, length data - length bufp))))"

section \<open>Integers\<close>

abbreviation (input) INT32_MAX :: int where "INT32_MAX \<equiv> 2147483647"
abbreviation (input) INT32_MIN :: int where "INT32_MIN \<equiv> - 2147483648"

definition check_overflow_s :: "int \<Rightarrow> int" where \<comment> \<open>\<open>CHECK_OVERFLOW_S\<close> on a \<open>long\<close>\<close>
  "check_overflow_s x =
     (if x > INT32_MAX then x AND 0xffffffff
      else if x < INT32_MIN then 0 - (x AND 0xffffffff) else x)"

definition check_overflow_u :: "u_long \<Rightarrow> u_long" where \<comment> \<open>\<open>CHECK_OVERFLOW_U\<close> on a \<open>u_long\<close>\<close>
  "check_overflow_u x = (if x > 0xffffffff then x AND 0xffffffff else x)"

text \<open>
  \<open>for (i = asn_length - 1; asn_length--; i--) value.b[i] = *bufp++;\<close> on the bytes of a \<open>long\<close>,
  and the little-endian reading of those bytes.
\<close>

fun asn_parse_int_fill :: "nat \<Rightarrow> bytes \<Rightarrow> bytes \<Rightarrow> (bytes \<times> bytes) cres" where
  "asn_parse_int_fill 0 b bufp = Ret (b, bufp)"
| "asn_parse_int_fill (Suc i) b bufp =
     (case bufp of [] \<Rightarrow> Overrun | x # bufp \<Rightarrow> asn_parse_int_fill i (b[i := x]) bufp)"

definition long_of_bytes :: "bytes \<Rightarrow> int" where
  "long_of_bytes b = sint (word_of_nat (le_val b) :: u_long)"

definition asn_parse_int :: "bytes \<Rightarrow> nat \<Rightarrow> nat \<Rightarrow> (bytes \<times> nat \<times> u_char \<times> int) cres" where
  "asn_parse_int data datalength intsize =
     (if intsize \<noteq> 8 then Null
      else cbind (asn_open (\<lambda>t. t = ASN_INTEGER) data datalength) (\<lambda>(bufp, asn_length, t, hdr).
        if asn_length > intsize \<or> c_int asn_length = 0 then Null
        else let datalength = size_sub datalength (c_int asn_length + int hdr) in
          cbind (deref bufp) (\<lambda>b0.
            cbind (asn_parse_int_fill asn_length
                     (replicate 8 (if b0 AND 0x80 \<noteq> 0 then 0xff else 0)) bufp) (\<lambda>(b, bufp).
              Ret (bufp, datalength, t, check_overflow_s (long_of_bytes b))))))"

fun asn_parse_uint_loop :: "nat \<Rightarrow> bytes \<Rightarrow> u_long \<Rightarrow> (bytes \<times> u_long) cres" where
  "asn_parse_uint_loop 0 bufp value = Ret (bufp, value)"
| "asn_parse_uint_loop (Suc n) bufp value =
     (case bufp of [] \<Rightarrow> Overrun
      | b # bufp \<Rightarrow> asn_parse_uint_loop n bufp (push_bit 8 value OR ucast b))"

definition asn_parse_unsigned_int :: "bytes \<Rightarrow> nat \<Rightarrow> nat \<Rightarrow> (bytes \<times> nat \<times> u_char \<times> u_long) cres" where
  "asn_parse_unsigned_int data datalength intsize =
     (if intsize \<noteq> 8 then Null
      else cbind (asn_open (\<lambda>t. t = ASN_COUNTER \<or> t = ASN_GAUGE \<or> t = ASN_TIMETICKS \<or> t = ASN_UINTEGER)
                   data datalength) (\<lambda>(bufp, asn_length, t, hdr).
        if asn_length > intsize + 1 \<or> c_int asn_length = 0 then Null
        else cbind (if asn_length = intsize + 1 then deref bufp else Ret 0) (\<lambda>b0.
          if b0 \<noteq> 0 then Null
          else let datalength = size_sub datalength (c_int asn_length + int hdr) in
            cbind (asn_parse_uint_loop asn_length bufp 0) (\<lambda>(bufp, value).
              Ret (bufp, datalength, t, check_overflow_u value)))))"

section \<open>Strings, nulls and bit strings\<close>

text \<open>
  \<open>memmove(str, bufp, asn_length)\<close>: reading more bytes than there are is an overrun. The result holds
  the copied bytes; \<open>*strlength\<close> is their number.
\<close>

definition asn_copy :: "bytes \<Rightarrow> nat \<Rightarrow> bytes cres" where
  "asn_copy bufp n = (if n \<le> length bufp then Ret (take n bufp) else Overrun)"

definition asn_parse_string :: "bytes \<Rightarrow> nat \<Rightarrow> nat \<Rightarrow> (bytes \<times> nat \<times> u_char \<times> bytes) cres" where
  "asn_parse_string data datalength strlength =
     cbind (asn_open (\<lambda>t. t = ASN_OCTET_STR \<or> t = ASN_IPADDRESS \<or> t = ASN_OPAQUE \<or> t = ASN_NSAP)
              data datalength) (\<lambda>(bufp, asn_length, t, hdr).
       if asn_length > strlength then Null
       else cbind (asn_copy bufp asn_length) (\<lambda>str.
         Ret (drop asn_length bufp, size_sub datalength (int asn_length + int hdr), t, str)))"

definition asn_parse_null :: "bytes \<Rightarrow> nat \<Rightarrow> (bytes \<times> nat \<times> u_char) cres" where
  "asn_parse_null data datalength =
     cbind (asn_open (\<lambda>t. True) data datalength) (\<lambda>(bufp, asn_length, t, hdr).
       if asn_length \<noteq> 0 then Null
       else Ret (drop asn_length bufp, size_sub datalength (int hdr), t))"

definition asn_bitstring_check :: "nat \<Rightarrow> bool" where \<comment> \<open>\<open>_asn_bitstring_check\<close>: true for an error\<close>
  "asn_bitstring_check asn_length \<longleftrightarrow> asn_length < 1"

definition asn_parse_bitstring :: "bytes \<Rightarrow> nat \<Rightarrow> nat \<Rightarrow> (bytes \<times> nat \<times> u_char \<times> bytes) cres" where
  "asn_parse_bitstring data datalength strlength =
     cbind (asn_open (\<lambda>t. t = ASN_BIT_STR) data datalength) (\<lambda>(bufp, asn_length, t, hdr).
       if asn_length > strlength then Null
       else cbind (deref bufp) (\<lambda>_. \<comment> \<open>\<open>*bufp\<close>, an argument of the call, is read before the length is tested\<close>
         if asn_bitstring_check asn_length then Null
         else cbind (asn_copy bufp asn_length) (\<lambda>str.
           Ret (drop asn_length bufp, size_sub datalength (c_int asn_length + int hdr), t, str))))"

section \<open>Object identifiers\<close>

abbreviation (input) MAX_SUBID :: u_long where "MAX_SUBID \<equiv> 0xFFFFFFFF"

text \<open>
  One sub-identifier: the inner \<open>do ... while\<close> loop. The result is the position, the bytes left of the
  object, the value and the last byte read.
\<close>

fun asn_parse_subid :: "bytes \<Rightarrow> nat \<Rightarrow> u_long \<Rightarrow> (bytes \<times> nat \<times> u_long \<times> u_char) cres" where
  "asn_parse_subid [] len subidentifier =
     (if subidentifier > drop_bit 7 MAX_SUBID then Null else Overrun)"
| "asn_parse_subid (b # bufp) len subidentifier =
     (if subidentifier > drop_bit 7 MAX_SUBID then Null
      else let subidentifier = push_bit 7 subidentifier + ucast (b AND NOT ASN_BIT8);
               len = len - 1
           in if b AND ASN_BIT8 \<noteq> 0 \<and> len > 0 then asn_parse_subid bufp len subidentifier
              else Ret (bufp, len, subidentifier, b))"

lemma asn_parse_subid_progress:
  "asn_parse_subid bufp len v = Ret (bufp', len', v', b) \<Longrightarrow> 0 < len \<Longrightarrow> len' < len"
  by (induction bufp len v rule: asn_parse_subid.induct) (fastforce simp: Let_def split: if_splits)+

text \<open>
  The outer loop. \<open>cap\<close> is the capacity of the caller's array, \<open>left\<close> the counter
  \<open>*objidlength\<close>, \<open>subs\<close> what \<open>oidp\<close> has stored so far from \<open>objid[1]\<close> on. A store outside the
  array is an overrun.
\<close>

function asn_parse_objid_loop ::
    "nat \<Rightarrow> nat \<Rightarrow> nat \<Rightarrow> bytes \<Rightarrow> u_long list \<Rightarrow> (bytes \<times> nat \<times> u_long list) cres" where
  "asn_parse_objid_loop cap len left bufp subs =
     (if len > 0 \<and> left > 0 then
        (case asn_parse_subid bufp len 0 of
           Overrun \<Rightarrow> Overrun
         | Null \<Rightarrow> Null
         | Ret (bufp', len', subidentifier, last_byte) \<Rightarrow>
             if len' = 0 \<and> last_byte AND ASN_BIT8 \<noteq> 0 then Null
             else if subidentifier > MAX_SUBID then Null
             else if 1 + length subs \<ge> cap then Overrun
             else asn_parse_objid_loop cap len' (left - 1) bufp' (subs @ [subidentifier]))
      else Ret (bufp, len, subs))"
  by pat_completeness auto
termination
  by (relation "measure (\<lambda>(cap, len, left, bufp, subs). len)") (auto dest: asn_parse_subid_progress)

declare asn_parse_objid_loop.simps [simp del]

definition asn_split_first :: "u_long \<Rightarrow> u_long \<times> u_long" where
  "asn_split_first subidentifier =
     (if subidentifier = 0x2B then (1, 3)
      else if subidentifier < 40 then (0, subidentifier)
      else if subidentifier < 80 then (1, subidentifier - 40)
      else (2, subidentifier - 80))"

definition asn_parse_objid :: "bytes \<Rightarrow> nat \<Rightarrow> nat \<Rightarrow> (bytes \<times> nat \<times> u_char \<times> u_long list) cres" where
  "asn_parse_objid data datalength objidlength =
     cbind (asn_open (\<lambda>t. t = ASN_OBJECT_ID) data datalength) (\<lambda>(bufp, asn_length, t, hdr).
       let datalength = size_sub datalength (c_int asn_length + int hdr) in
       if asn_length = 0 \<and> objidlength < 2 then Overrun
       else cbind (asn_parse_objid_loop objidlength asn_length (size_sub objidlength 1) bufp []) (\<lambda>(bufp, len, subs).
         if len \<noteq> 0 then Null
         else if objidlength < 2 then Overrun
         else let subidentifier = (case subs of [] \<Rightarrow> 0 | s # _ \<Rightarrow> s);
                  (x, y) = asn_split_first subidentifier
              in Ret (bufp, datalength, t, take (1 + length subs) (x # y # tl subs))))"

section \<open>64-bit integers\<close>

text \<open>
  The Opaque wrapping of the 64-bit types: after the wrapper's own header \<open>*datalength\<close> is set to the
  wrapper's contents and the inner length is parsed. The result is the position and length of the value.
\<close>

definition asn_open_wrapped :: "bytes \<Rightarrow> nat \<Rightarrow> (bytes \<times> nat) cres" where
  "asn_open_wrapped bufp datalength = asn_parse_nlength (drop 2 bufp) (size_sub datalength 2)"

fun asn_parse_u64_loop :: "nat \<Rightarrow> bytes \<Rightarrow> u_long \<Rightarrow> u_long \<Rightarrow> (bytes \<times> u_long \<times> u_long) cres" where
  "asn_parse_u64_loop 0 bufp high low = Ret (bufp, high, low)"
| "asn_parse_u64_loop (Suc n) bufp high low =
     (case bufp of [] \<Rightarrow> Overrun
      | b # bufp \<Rightarrow> asn_parse_u64_loop n bufp
          (push_bit 8 (0x00FFFFFF AND high) OR drop_bit 24 (low AND 0xFF000000))
          (push_bit 8 (low AND 0x00FFFFFF) OR ucast b))"

text \<open>The end of \<open>asn_parse_unsigned_int64\<close>: at most eight bytes, or nine with a leading zero.\<close>

definition asn_u64_value ::
    "bytes \<Rightarrow> bytes \<Rightarrow> nat \<Rightarrow> u_char \<Rightarrow> nat \<Rightarrow> (bytes \<times> nat \<times> u_char \<times> counter64) cres" where
  "asn_u64_value data bufp asn_length t datalength =
     (if c_int asn_length > 9 then Null
      else cbind (if c_int asn_length = 9 then deref bufp else Ret 0) (\<lambda>b0.
        if b0 \<noteq> 0 then Null
        else let datalength = size_sub datalength (c_int asn_length + int (length data - length bufp)) in
          cbind (asn_parse_u64_loop asn_length bufp 0 0) (\<lambda>(bufp, high, low).
            Ret (bufp, datalength, t,
              \<lparr>c64_high = check_overflow_u high, c64_low = check_overflow_u low\<rparr>))))"

definition asn_parse_unsigned_int64 ::
    "bytes \<Rightarrow> nat \<Rightarrow> nat \<Rightarrow> (bytes \<times> nat \<times> u_char \<times> counter64) cres" where
  "asn_parse_unsigned_int64 data datalength countersize =
     (if countersize \<noteq> 16 then Null
      else cbind (asn_open (\<lambda>t. t = ASN_COUNTER64 \<or> t = ASN_OPAQUE) data datalength) (\<lambda>(bufp, asn_length, t, hdr).
        if t = ASN_OPAQUE \<and> asn_length < 2 then Null
        else cbind (if t = ASN_OPAQUE \<and> asn_length \<le> 12
                    then cbind (deref bufp) (\<lambda>b0. if b0 = ASN_OPAQUE_TAG1 then deref (tl bufp) else Ret 0)
                    else Ret 0) (\<lambda>b1.
          if b1 = ASN_OPAQUE_COUNTER64 \<or> b1 = ASN_OPAQUE_U64
          then cbind (asn_open_wrapped bufp asn_length) (\<lambda>(bufp', len). asn_u64_value data bufp' len b1 asn_length)
          else asn_u64_value data bufp asn_length t datalength)))"

text \<open>The signed variant works on \<open>u_int\<close> halves.\<close>

fun asn_parse_i64_loop :: "nat \<Rightarrow> bytes \<Rightarrow> u_int \<Rightarrow> u_int \<Rightarrow> (bytes \<times> u_int \<times> u_int) cres" where
  "asn_parse_i64_loop 0 bufp high low = Ret (bufp, high, low)"
| "asn_parse_i64_loop (Suc n) bufp high low =
     (case bufp of [] \<Rightarrow> Overrun
      | b # bufp \<Rightarrow> asn_parse_i64_loop n bufp
          (push_bit 8 (0x00FFFFFF AND high) OR drop_bit 24 (low AND 0xFF000000))
          (push_bit 8 (low AND 0x00FFFFFF) OR ucast b))"

definition asn_i64_value ::
    "bytes \<Rightarrow> bytes \<Rightarrow> nat \<Rightarrow> u_char \<Rightarrow> nat \<Rightarrow> (bytes \<times> nat \<times> u_char \<times> counter64) cres" where
  "asn_i64_value data bufp asn_length t datalength =
     (if c_int asn_length > 9 then Null
      else cbind (if c_int asn_length = 9 then deref bufp else Ret 0) (\<lambda>c0.
        if c0 \<noteq> 0 then Null
        else let datalength = size_sub datalength (c_int asn_length + int (length data - length bufp)) in
          cbind (if asn_length > 0 then deref bufp else Ret 0) (\<lambda>d0.
            let neg = d0 AND 0x80 \<noteq> 0 in
            cbind (asn_parse_i64_loop asn_length bufp
                    (if neg then 0xFFFFFF else 0) (if neg then 0xFFFFFFFF else 0)) (\<lambda>(bufp, high, low).
              Ret (bufp, datalength, t, \<lparr>c64_high = ucast high, c64_low = ucast low\<rparr>)))))"

definition asn_parse_signed_int64 ::
    "bytes \<Rightarrow> nat \<Rightarrow> nat \<Rightarrow> (bytes \<times> nat \<times> u_char \<times> counter64) cres" where
  "asn_parse_signed_int64 data datalength countersize =
     (if countersize \<noteq> 16 then Null
      else cbind (asn_open (\<lambda>t. True) data datalength) (\<lambda>(bufp, asn_length, t, hdr).
        if asn_length < 2 then Null
        else cbind (deref bufp) (\<lambda>b0. cbind (deref (tl bufp)) (\<lambda>b1.
          if t = ASN_OPAQUE \<and> asn_length \<le> 12 \<and> b0 = ASN_OPAQUE_TAG1 \<and> b1 = ASN_OPAQUE_I64 then
            cbind (asn_open_wrapped bufp asn_length) (\<lambda>(bufp', len). asn_i64_value data bufp' len b1 asn_length)
          else Null))))"

end
