(* ===== verification/AsnSafe.thy ===== *)
theory AsnSafe
  imports AsnParse
begin

text \<open>
  Memory safety and accounting of the decoders of \<^theory_text>\<open>AsnParse\<close>: when the announced length is within the
  buffer they do not read outside it (but for one byte behind an empty bit string at its end), and a successful one, unless the
  value is wrapped in an Opaque, returns the position behind the object and
  subtracts exactly the bytes of the object from \<open>*datalength\<close>. The loops are also restated as folds over
  the bytes they read, for the round trips.
\<close>


section \<open>Memory safety and accounting\<close>

lemma asn_parse_length_loop_eq:
  "n \<le> length data \<Longrightarrow> \<exists>v. asn_parse_length_loop n data len = Ret (drop n data, v)"
proof (induction n arbitrary: data len)
  case (Suc n)
  then show ?case by (cases data) auto
qed simp

lemma unat_and_le: "unat (x AND y) \<le> unat (y :: 'a::len word)"
  by (simp add: word_le_nat_alt [symmetric] word_and_le1)

lemma unat_low7: "unat (b AND NOT 0x80 :: u_char) < 128"
proof -
  have "unat (b AND NOT 0x80) \<le> unat (NOT 0x80 :: u_char)" by (rule unat_and_le)
  then show ?thesis by simp
qed

lemma asn_parse_length_Ret:
  assumes "asn_parse_length data = Ret (rest, n)"
  shows "n < 2 ^ 63"
proof -
  have "unat w < 2 ^ 63" if "\<not> sint w < 0" for w :: u_long
  proof -
    have "sint w < 2 ^ 63" using sint_lt [of w] by simp
    moreover have "uint w = sint w" 
      using that sint_lt [of w] by (simp only: uint_sint take_bit_int_eq_self_iff not_less) simp
    ultimately show ?thesis by (simp add: unat_eq_nat_uint nat_less_iff)
  qed
  moreover have "unat b < 2 ^ 63" for b :: u_char by (rule unat_byte_less) simp
  ultimately show ?thesis
    using assms by (auto simp: asn_parse_length_def cbind_eq_Ret Let_def split: if_splits)
qed

lemma asn_parse_nlength_Ret:
  assumes "asn_parse_nlength pkt pl = Ret (p, n)"
  shows "\<exists>h. p = drop h pkt \<and> 1 \<le> h \<and> h + n \<le> pl"
proof -
  obtain b where b: "deref pkt = Ret b" and pl: "1 \<le> pl"
    using assms by (auto simp: asn_parse_nlength_def cbind_eq_Ret split: if_splits)
  show ?thesis
  proof (cases "b AND 0x80 = 0")
    case True
    then have "p = drop 1 pkt" "n = unat b" "size_add n 1 \<le> pl"
      using assms b pl by (auto simp: asn_parse_nlength_def Let_def split: if_splits)
    moreover have "size_add n 1 = n + 1"
      using \<open>n = unat b\<close> unat_byte_less [of "2 ^ 64 - 1" b] by (intro size_add_small) simp
    ultimately show ?thesis by (intro exI [of _ 1]) simp
  next
    case False
    let ?h = "unat (b AND NOT 0x80) + 1"
    obtain r where r: "asn_parse_length pkt = Ret (r, n)" "p = drop ?h pkt" "size_add n ?h \<le> pl"
      using assms b pl False by (auto simp: asn_parse_nlength_def cbind_eq_Ret Let_def split: if_splits)
    have "size_add n ?h = n + ?h"
      using asn_parse_length_Ret [OF r(1)] unat_low7 [of b] by (intro size_add_half) simp_all
    then show ?thesis using r by (intro exI [of _ ?h]) simp
  qed
qed

lemma asn_parse_length_safe:
  assumes "data = b # r" "b AND 0x80 \<noteq> 0 \<Longrightarrow> unat (b AND NOT 0x80) \<le> length r"
  shows "asn_parse_length data \<noteq> Overrun"
proof (cases "b AND 0x80 = 0")
  case False
  then obtain v where "asn_parse_length_loop (unat (b AND NOT 0x80)) r 0 = Ret (drop (unat (b AND NOT 0x80)) r, v)"
    using asn_parse_length_loop_eq assms(2) by blast
  then show ?thesis using assms(1) False by (auto simp: asn_parse_length_def Let_def)
qed (use assms in \<open>simp add: asn_parse_length_def\<close>)

lemma asn_parse_nlength_safe:
  assumes "pl \<le> length pkt"
  shows "asn_parse_nlength pkt pl \<noteq> Overrun"
proof (cases pkt)
  case Nil
  then show ?thesis using assms by (simp add: asn_parse_nlength_def)
next
  case (Cons b r)
  have "asn_parse_length pkt \<noteq> Overrun"
    if "unat (b AND NOT 0x80) + 1 \<le> pl"
    using that assms Cons by (intro asn_parse_length_safe [OF Cons]) simp
  then show ?thesis
    using Cons by (auto simp: asn_parse_nlength_def Let_def cbind_eq_Overrun split: if_splits)
qed

lemma asn_open_Ret:
  assumes "asn_open ok data dl = Ret (bufp, n, t, hdr)" "dl \<le> length data"
  shows "ok t \<and> data = t # tl data \<and> bufp = drop hdr data \<and> 2 \<le> hdr \<and> hdr + n \<le> dl"
proof -
  obtain p where h: "2 \<le> dl" "deref data = Ret t" "ok t"
      "asn_parse_nlength (tl data) (dl - 1) = Ret (bufp, n)" "hdr = length data - length bufp"
    using assms(1) by (auto simp: asn_open_def cbind_eq_Ret split: if_splits)
  then have d: "data = t # tl data" by (cases data) auto
  obtain k where k: "bufp = drop k (tl data)" "1 \<le> k" "k + n \<le> dl - 1"
    using asn_parse_nlength_Ret [OF h(4)] by blast
  have "Suc (length (tl data)) = length data" using d by (metis length_Cons)
  then have hk: "hdr = Suc k" using h(1,5) k assms(2) by simp
  have "drop hdr data = drop k (tl data)" using hk d by (metis drop_Suc_Cons)
  then show ?thesis using d h(1,3) k hk by simp
qed

lemma asn_open_safe:
  assumes "dl \<le> length data"
  shows "asn_open ok data dl \<noteq> Overrun"
proof -
  have "2 \<le> dl \<Longrightarrow> asn_parse_nlength (tl data) (dl - 1) \<noteq> Overrun"
    using assms by (intro asn_parse_nlength_safe) (cases data, auto)
  then show ?thesis
    using assms by (cases data) (auto simp: asn_open_def cbind_eq_Overrun)
qed

text \<open>
  What a value parser promises when the announced length is within the buffer: it reads no byte outside
  the buffer, and when it succeeds it returns the position behind the object and takes exactly the
  object's bytes, at least two, off \<open>*datalength\<close>.
\<close>

definition consumes :: "bytes \<Rightarrow> nat \<Rightarrow> bytes \<Rightarrow> nat \<Rightarrow> bool" where
  "consumes data dl rest dl' \<longleftrightarrow> (\<exists>k. 2 \<le> k \<and> k \<le> dl \<and> rest = drop k data \<and> dl' = dl - k)"

definition parse_ok :: "bytes \<Rightarrow> nat \<Rightarrow> (bytes \<times> nat \<times> 'a) cres \<Rightarrow> bool" where
  "parse_ok data dl r = (case r of Overrun \<Rightarrow> False | Null \<Rightarrow> True
     | Ret (rest, dl', _) \<Rightarrow> dl < 2 ^ 31 \<longrightarrow> consumes data dl rest dl')"

lemma parse_ok_simps [simp]:
  "\<not> parse_ok data dl Overrun"
  "parse_ok data dl Null"
  "parse_ok data dl (Ret (rest, dl', x)) \<longleftrightarrow> (dl < 2 ^ 31 \<longrightarrow> consumes data dl rest dl')"
  by (simp_all add: parse_ok_def)

lemma parse_ok_open:
  assumes "dl \<le> length data"
    and "\<And>n t hdr. ok t \<Longrightarrow> 2 \<le> hdr \<Longrightarrow> hdr + n \<le> dl \<Longrightarrow> n \<le> length (drop hdr data) \<Longrightarrow>
           parse_ok data dl (f (drop hdr data, n, t, hdr))"
  shows "parse_ok data dl (cbind (asn_open ok data dl) f)"
proof (cases "asn_open ok data dl")
  case (Ret r)
  then obtain bufp n t hdr where r: "asn_open ok data dl = Ret (bufp, n, t, hdr)" by (cases r) auto
  show ?thesis using assms(2) [of t hdr n] asn_open_Ret [OF r assms(1)] r assms(1) by auto
qed (use asn_open_safe [OF assms(1)] in auto)

lemma consumes_hdr [simp]:
  "2 \<le> hdr \<Longrightarrow> hdr + n \<le> dl \<Longrightarrow> consumes data dl (drop (n + hdr) data) (dl - (n + hdr))"
  by (auto simp: consumes_def add.commute intro!: exI [of _ "hdr + n"])

lemma asn_parse_int_fill_eq:
  "n \<le> length bufp \<Longrightarrow> n \<le> length b \<Longrightarrow>
     asn_parse_int_fill n b bufp = Ret (rev (take n bufp) @ drop n b, drop n bufp)"
proof (induction n arbitrary: b bufp)
  case (Suc n)
  then obtain x xs where x: "bufp = x # xs" by (cases bufp) auto
  then show ?case
    using Suc by (simp add: drop_update_cancel Cons_nth_drop_Suc [symmetric])
qed simp

text \<open>The loops as folds over the bytes they read.\<close>

definition shift_in :: "u_long \<Rightarrow> u_char \<Rightarrow> u_long" where
  "shift_in v b = push_bit 8 v OR ucast b"

lemma asn_parse_uint_loop_eq:
  "n \<le> length bufp \<Longrightarrow> asn_parse_uint_loop n bufp v = Ret (drop n bufp, foldl shift_in v (take n bufp))"
proof (induction n arbitrary: v bufp)
  case (Suc n)
  then show ?case by (cases bufp) (auto simp: shift_in_def)
qed simp

definition shift_in64 :: "'a::len word \<times> 'a word \<Rightarrow> u_char \<Rightarrow> 'a word \<times> 'a word" where
  "shift_in64 hl b = (push_bit 8 (0x00FFFFFF AND fst hl) OR drop_bit 24 (snd hl AND 0xFF000000),
                      push_bit 8 (snd hl AND 0x00FFFFFF) OR ucast b)"

lemma asn_parse_u64_loop_eq:
  "n \<le> length bufp \<Longrightarrow> asn_parse_u64_loop n bufp high low = Ret (drop n bufp, foldl shift_in64 (high, low) (take n bufp))"
proof (induction n arbitrary: high low bufp)
  case (Suc n)
  then obtain b r where "bufp = b # r" by (cases bufp) auto
  then show ?case using Suc by (simp only: asn_parse_u64_loop.simps) (simp add: shift_in64_def)
qed simp

lemma asn_parse_i64_loop_eq:
  "n \<le> length bufp \<Longrightarrow> asn_parse_i64_loop n bufp high low = Ret (drop n bufp, foldl shift_in64 (high, low) (take n bufp))"
proof (induction n arbitrary: high low bufp)
  case (Suc n)
  then obtain b r where "bufp = b # r" by (cases bufp) auto
  then show ?case using Suc by (simp only: asn_parse_i64_loop.simps) (simp add: shift_in64_def)
qed simp

lemma deref_drop [simp]: "k < length data \<Longrightarrow> deref (drop k data) = Ret (data ! k)"
  by (simp add: Cons_nth_drop_Suc [symmetric])

lemma asn_parse_int_ok: "dl \<le> length data \<Longrightarrow> parse_ok data dl (asn_parse_int data dl sz)"
  unfolding asn_parse_int_def
  by (auto simp: Let_def asn_parse_int_fill_eq intro!: parse_ok_open)

lemma asn_parse_unsigned_int_ok: "dl \<le> length data \<Longrightarrow> parse_ok data dl (asn_parse_unsigned_int data dl sz)"
  unfolding asn_parse_unsigned_int_def
  by (auto simp: Let_def asn_parse_uint_loop_eq intro!: parse_ok_open)

lemma asn_copy_eq [simp]: "n \<le> length bufp \<Longrightarrow> asn_copy bufp n = Ret (take n bufp)"
  by (simp add: asn_copy_def)

lemma asn_parse_string_ok: "dl \<le> length data \<Longrightarrow> parse_ok data dl (asn_parse_string data dl sz)"
  unfolding asn_parse_string_def
  by (auto intro!: parse_ok_open)

text \<open>
  A bit string without contents at the very end of the buffer is the exception: \<open>*bufp\<close> is then the byte behind the
  buffer. It is the only one.
\<close>

lemma asn_parse_bitstring_reads:
  assumes "dl \<le> length data"
  shows "parse_ok data dl (asn_parse_bitstring data dl sz) \<or> dl = length data \<and>
    asn_parse_bitstring data dl sz = Overrun \<and> asn_open (\<lambda>t. t = ASN_BIT_STR) data dl = Ret ([], 0, ASN_BIT_STR, dl)"
proof (cases "asn_open (\<lambda>t. t = ASN_BIT_STR) data dl")
  case (Ret r)
  then obtain bufp n t hdr where r: "asn_open (\<lambda>t. t = ASN_BIT_STR) data dl = Ret (bufp, n, t, hdr)" by (cases r) auto
  have h: "t = ASN_BIT_STR" "bufp = drop hdr data" "2 \<le> hdr" "hdr + n \<le> dl" using asn_open_Ret [OF r assms] by auto
  show ?thesis
  proof (cases "hdr < length data")
    case True
    then show ?thesis using h assms r by (auto simp: asn_parse_bitstring_def)
  next
    case False
    then have "hdr = dl" "n = 0" "dl = length data" using h assms by simp_all
    then show ?thesis using h r by (simp add: asn_parse_bitstring_def)
  qed
qed (use asn_open_safe [OF assms] in \<open>auto simp: asn_parse_bitstring_def\<close>)

lemma asn_parse_bitstring_ok: "dl < length data \<Longrightarrow> parse_ok data dl (asn_parse_bitstring data dl sz)"
  using asn_parse_bitstring_reads [of dl data sz] by auto

text \<open>The read behind the buffer is real: a bit string of length 0 at the end of it.\<close>

lemma asn_parse_bitstring_overreads: "asn_parse_bitstring [0x03, 0x00] 2 sz = Overrun"
  by (simp add: asn_parse_bitstring_def asn_open_def asn_parse_nlength_def Let_def)

lemma asn_parse_null_ok: "dl \<le> length data \<Longrightarrow> parse_ok data dl (asn_parse_null data dl)"
  unfolding asn_parse_null_def
  using consumes_hdr [where n = 0] by (auto intro!: parse_ok_open)

lemma asn_parse_subid_step:
  "0 < len \<Longrightarrow> len \<le> length bufp \<Longrightarrow>
     (case asn_parse_subid bufp len v of Overrun \<Rightarrow> False | Null \<Rightarrow> True
      | Ret (bufp', len', _) \<Rightarrow> len' < len \<and> bufp' = drop (len - len') bufp)"
proof (induction bufp len v rule: asn_parse_subid.induct)
  case (2 b bufp len v)
  show ?case
  proof (cases "v > drop_bit 7 MAX_SUBID")
    case False
    let ?v = "push_bit 7 v + ucast (b AND NOT ASN_BIT8)"
    show ?thesis
    proof (cases "b AND ASN_BIT8 \<noteq> 0 \<and> len - 1 > 0")
      case True
      then have "case asn_parse_subid bufp (len - 1) ?v of Overrun \<Rightarrow> False | Null \<Rightarrow> True
          | Ret (bufp', len', _) \<Rightarrow> len' < len - 1 \<and> bufp' = drop (len - 1 - len') bufp"
        using 2 False by simp
      then show ?thesis
        using True False
        by (auto simp: Let_def drop_Cons' split: cres.splits intro: arg_cong2 [of _ _ _ _ drop])
    next
      case no_loop: False
      then show ?thesis using False 2(2) by (auto simp: Let_def)
    qed
  qed simp
qed simp

lemma asn_parse_objid_loop_step:
  "len \<le> length bufp \<Longrightarrow> 1 + length subs + left \<le> cap \<Longrightarrow>
     (case asn_parse_objid_loop cap len left bufp subs of Overrun \<Rightarrow> False | Null \<Rightarrow> True
      | Ret (bufp', len', subs') \<Rightarrow> len' \<le> len \<and> bufp' = drop (len - len') bufp \<and> 1 + length subs' \<le> cap)"
proof (induction cap len left bufp subs rule: asn_parse_objid_loop.induct)
  case (1 cap len left bufp subs)
  show ?case
  proof (cases "0 < len \<and> 0 < left")
    case True
    note step = asn_parse_subid_step [of len bufp 0]
    show ?thesis
    proof (cases "asn_parse_subid bufp len 0")
      case (Ret r)
      obtain bufp' len' v b where r: "r = (bufp', len', v, b)" by (cases r) auto
      have s: "len' < len" "bufp' = drop (len - len') bufp" using step True 1(2) Ret r by auto
      then have "len' \<le> length bufp'" using 1(2) by simp
      then have "\<not> (len' = 0 \<and> b AND ASN_BIT8 \<noteq> 0) \<longrightarrow> \<not> v > MAX_SUBID \<longrightarrow>
          (case asn_parse_objid_loop cap len' (left - 1) bufp' (subs @ [v]) of Overrun \<Rightarrow> False | Null \<Rightarrow> True
           | Ret (bufp'', len'', subs') \<Rightarrow> len'' \<le> len' \<and> bufp'' = drop (len' - len'') bufp' \<and> 1 + length subs' \<le> cap)"
        using 1(1) [OF True Ret [unfolded r] refl refl refl] 1(3) True by simp
      then show ?thesis
        using True Ret r s 1(3)
        by (subst asn_parse_objid_loop.simps) (auto split: cres.splits intro: arg_cong2 [of _ _ _ _ drop])
    qed (use step True 1(2) in \<open>auto simp: asn_parse_objid_loop.simps [of cap]\<close>)
  next
    case False
    then show ?thesis using 1(3) by (subst asn_parse_objid_loop.simps) auto
  qed
qed

lemma asn_parse_objid_ok:
  assumes "dl \<le> length data" "2 \<le> objidlength" "objidlength < 2 ^ 64"
  shows "parse_ok data dl (asn_parse_objid data dl objidlength)"
proof -
  have sub: "size_sub objidlength 1 = objidlength - 1"
    using assms(2,3) size_sub_nat [of 1 objidlength] by simp
  show ?thesis
    unfolding asn_parse_objid_def
  proof (rule parse_ok_open [OF assms(1)])
    fix n t hdr
    assume h: "2 \<le> hdr" "hdr + n \<le> dl" "n \<le> length (drop hdr data)"
    have "case asn_parse_objid_loop objidlength n (objidlength - 1) (drop hdr data) [] of
        Overrun \<Rightarrow> False | Null \<Rightarrow> True
      | Ret (bufp', len', subs') \<Rightarrow> len' \<le> n \<and> bufp' = drop (n - len') (drop hdr data) \<and> 1 + length subs' \<le> objidlength"
      using assms(2) h by (intro asn_parse_objid_loop_step) auto
    then show "parse_ok data dl (case (drop hdr data, n, t, hdr) of (bufp, asn_length, t, hdr) \<Rightarrow>
       let datalength = size_sub dl (c_int asn_length + int hdr) in
       if asn_length = 0 \<and> objidlength < 2 then Overrun
       else cbind (asn_parse_objid_loop objidlength asn_length (size_sub objidlength 1) bufp []) (\<lambda>(bufp, len, subs).
         if len \<noteq> 0 then Null
         else if objidlength < 2 then Overrun
         else let subidentifier = (case subs of [] \<Rightarrow> 0 | s # _ \<Rightarrow> s);
                  (x, y) = asn_split_first subidentifier
              in Ret (bufp, datalength, t, take (1 + length subs) (x # y # tl subs))))"
      using assms(2) h by (auto simp: sub Let_def split: cres.splits prod.splits)
  qed
qed

lemma nlength_bind:
  assumes "pl \<le> length pkt" "Q Null" "\<And>h n. 1 \<le> h \<Longrightarrow> h + n \<le> pl \<Longrightarrow> Q (f (drop h pkt, n))"
  shows "Q (cbind (asn_parse_nlength pkt pl) f)"
proof (cases "asn_parse_nlength pkt pl")
  case (Ret r)
  then show ?thesis using asn_parse_nlength_Ret assms(3) by (cases r) fastforce
qed (use asn_parse_nlength_safe assms in auto)

definition header_ok :: "bytes \<Rightarrow> nat \<Rightarrow> (bytes \<times> nat \<times> u_char) cres \<Rightarrow> bool" where
  "header_ok data dl r = (case r of Overrun \<Rightarrow> False | Null \<Rightarrow> True
    | Ret (rest, dl', t) \<Rightarrow> \<exists>k. 2 \<le> k \<and> k + dl' \<le> dl \<and> rest = drop k data)"

lemma header_ok_simps [simp]:
  "\<not> header_ok data dl Overrun"
  "header_ok data dl Null"
  by (simp_all add: header_ok_def)

lemma header_ok_Ret: "2 \<le> k \<Longrightarrow> k + dl' \<le> dl \<Longrightarrow> header_ok data dl (Ret (drop k data, dl', t))"
  by (auto simp: header_ok_def)

lemma size_sub_minus [simp]: "n < 2 ^ 64 \<Longrightarrow> size_sub 0 (- int n) = n"
  by (simp add: size_sub_def)

lemma asn_parse_header_contents_ok:
  assumes "dl \<le> length data" "dl < 2 ^ 31" "2 \<le> h" "h + n \<le> dl"
  shows "header_ok data dl (asn_parse_header_contents (drop h data) n t)"
proof -
  have n: "n < 2 ^ 31" using assms by simp
  have out: "header_ok data dl (Ret (drop h data, n, t))" by (rule header_ok_Ret [OF assms(3,4)])
  have inner: "header_ok data dl (cbind (asn_parse_nlength (drop 2 (drop h data)) (n - 2)) (\<lambda>(bufp, asn_length).
                  Ret (bufp, size_sub 0 (- c_int asn_length), b1)))" if "2 < n" for b1
  proof (rule nlength_bind [where Q = "header_ok data dl"])
    fix k m assume km: "1 \<le> k" "k + m \<le> n - 2"
    then have "m < 2 ^ 31" using n by simp
    then show "header_ok data dl (case (drop k (drop 2 (drop h data)), m) of (bufp, asn_length) \<Rightarrow>
                  Ret (bufp, size_sub 0 (- c_int asn_length), b1))"
      using km assms that header_ok_Ret [of "k + (2 + h)" m dl data b1] by simp
  qed (use assms that in auto)
  have "2 < n \<Longrightarrow> size_sub n 2 = n - 2" using size_sub_nat [of 2 n] n by simp
  moreover have "2 < n \<Longrightarrow> deref (drop h data) = Ret (data ! h) \<and> deref (tl (drop h data)) = Ret (data ! Suc h)"
    using assms by (auto simp: tl_drop drop_Suc [symmetric] simp del: drop_Suc)
  ultimately show ?thesis
    using out inner n by (auto simp: asn_parse_header_contents_def)
qed

lemma asn_parse_header_ok:
  assumes "dl \<le> length data" "dl < 2 ^ 31"
  shows "header_ok data dl (asn_parse_header data dl)"
proof (cases data)
  case (Cons t r)
  have "header_ok data dl (cbind (asn_parse_nlength r (dl - 1)) (\<lambda>(bufp, n). asn_parse_header_contents bufp n t))"
    if "2 \<le> dl"
  proof (rule nlength_bind [where Q = "header_ok data dl"])
    fix h n assume "1 \<le> h" "h + n \<le> dl - 1"
    then show "header_ok data dl (case (drop h r, n) of (bufp, n) \<Rightarrow> asn_parse_header_contents bufp n t)"
      using asn_parse_header_contents_ok [OF assms, of "Suc h" n t] Cons that by simp
  qed (use Cons assms in auto)
  then show ?thesis using Cons by (simp add: asn_parse_header_def)
qed (use assms in \<open>simp add: asn_parse_header_def\<close>)

lemma asn_parse_sequence_ok:
  "dl \<le> length data \<Longrightarrow> dl < 2 ^ 31 \<Longrightarrow> header_ok data dl (asn_parse_sequence data dl ty)"
  using asn_parse_header_ok [of dl data]
  by (cases "asn_parse_header data dl") (auto simp: asn_parse_sequence_def)

lemma asn_open_wrapped_bind:
  assumes "n \<le> length bufp" "2 \<le> n" "n < 2 ^ 64" "Q Null" "\<And>h m. 2 \<le> h \<Longrightarrow> h + m \<le> n \<Longrightarrow> Q (f (drop h bufp, m))"
  shows "Q (cbind (asn_open_wrapped bufp n) f)"
  unfolding asn_open_wrapped_def
proof (rule nlength_bind [where Q = Q])
  show "size_sub n 2 \<le> length (drop 2 bufp)"
    using size_sub_nat [of 2 n] assms(1-3) by simp
  fix h m assume "1 \<le> h" "h + m \<le> size_sub n 2"
  then show "Q (f (drop h (drop 2 bufp), m))"
    using size_sub_nat [of 2 n] assms(2,3) assms(5) [of "h + 2" m] by simp
qed (rule assms(4))


text \<open>
  The 64-bit parsers. On the Opaque path the length of the wrapper's contents replaces \<open>*datalength\<close>
  before the whole object is subtracted from it, so the promise on \<open>*datalength\<close> is only made for the
  other types (see \<open>opaque64_datalength_wraps\<close>).
\<close>

definition parse64_ok :: "bytes \<Rightarrow> nat \<Rightarrow> (bytes \<times> nat \<times> u_char \<times> 'a) cres \<Rightarrow> bool" where
  "parse64_ok data dl r = (case r of Overrun \<Rightarrow> False | Null \<Rightarrow> True
    | Ret (rest, dl', t, v) \<Rightarrow> (\<exists>k. 2 \<le> k \<and> k \<le> dl \<and> rest = drop k data) \<and>
         (t = ASN_COUNTER64 \<or> t = ASN_OPAQUE \<longrightarrow> dl < 2 ^ 31 \<longrightarrow> consumes data dl rest dl'))"

lemma parse64_ok_simps [simp]:
  "\<not> parse64_ok data dl Overrun"
  "parse64_ok data dl Null"
  by (simp_all add: parse64_ok_def)

lemma open_bind:
  assumes "dl \<le> length data" "Q Null"
    and "\<And>n t hdr. ok t \<Longrightarrow> 2 \<le> hdr \<Longrightarrow> hdr + n \<le> dl \<Longrightarrow> Q (f (drop hdr data, n, t, hdr))"
  shows "Q (cbind (asn_open ok data dl) f)"
proof (cases "asn_open ok data dl")
  case (Ret r)
  then obtain bufp n t hdr where r: "asn_open ok data dl = Ret (bufp, n, t, hdr)" by (cases r) auto
  show ?thesis using assms(3) [of t hdr n] asn_open_Ret [OF r assms(1)] r assms(1) by auto
qed (use asn_open_safe [OF assms(1)] assms(2) in auto)

lemma asn_u64_value_ok:
  assumes "2 \<le> h" "h + n \<le> dl" "dl \<le> length data"
    "t = ASN_COUNTER64 \<or> t = ASN_OPAQUE \<longrightarrow> dl0 = dl"
  shows "parse64_ok data dl (asn_u64_value data (drop h data) n t dl0)"
proof -
  have v: "asn_parse_u64_loop n (drop h data) 0 0 = Ret (drop n (drop h data), foldl shift_in64 (0, 0) (take n (drop h data)))"
    using assms by (intro asn_parse_u64_loop_eq) simp
  have "c_int n = 9 \<Longrightarrow> h < length data"
    using assms by (cases "n = 0") auto
  moreover have "parse64_ok data dl (Ret (drop n (drop h data),
      size_sub dl0 (c_int n + int (length data - length (drop h data))), t,
                    \<lparr>c64_high = check_overflow_u high, c64_low = check_overflow_u low\<rparr>))" for high low
    using assms by (auto simp: parse64_ok_def intro!: exI [of _ "n + h"])
  ultimately show ?thesis using v by (auto simp: asn_u64_value_def split: prod.splits)
qed

lemma asn_i64_value_ok:
  assumes "2 \<le> h" "h + n \<le> dl" "dl \<le> length data" "t = ASN_OPAQUE_I64"
  shows "parse64_ok data dl (asn_i64_value data (drop h data) n t dl0)"
proof -
  have v: "asn_parse_i64_loop n (drop h data) hi lo =
      Ret (drop n (drop h data), foldl shift_in64 (hi, lo) (take n (drop h data)))" for hi lo
    using assms by (intro asn_parse_i64_loop_eq) simp
  have "n \<noteq> 0 \<Longrightarrow> h < length data"
    using assms by auto
  moreover have "parse64_ok data dl (Ret (drop n (drop h data), d, t, c))" for d and c :: counter64
    using assms by (auto simp: parse64_ok_def intro!: exI [of _ "n + h"])
  ultimately show ?thesis using v
    by (cases "n = 0") (auto simp: asn_i64_value_def Let_def split: prod.splits)
qed

lemma asn_parse_unsigned_int64_ok:
  assumes "dl \<le> length data" "dl < 2 ^ 64"
  shows "parse64_ok data dl (asn_parse_unsigned_int64 data dl sz)"
proof (cases "sz = 16")
  case True
  have wrapped: "parse64_ok data dl (cbind (asn_open_wrapped (drop hdr data) n) (\<lambda>(bufp', len). asn_u64_value data bufp' len b1 n))"
    if "2 \<le> hdr" "hdr + n \<le> dl" "2 \<le> n" "b1 = ASN_OPAQUE_COUNTER64 \<or> b1 = ASN_OPAQUE_U64" for hdr n b1
    using that assms asn_u64_value_ok [of "h + hdr" m dl data b1 n for h m]
    by (intro asn_open_wrapped_bind [where Q = "parse64_ok data dl"]) auto
  show ?thesis
    unfolding asn_parse_unsigned_int64_def if_not_P [OF not_not [THEN iffD2, OF True]]
  proof (rule open_bind [where Q = "parse64_ok data dl"])
    fix n t hdr assume h: "t = ASN_COUNTER64 \<or> t = ASN_OPAQUE" "2 \<le> hdr" "hdr + n \<le> dl"
    have "2 \<le> n \<Longrightarrow> deref (drop hdr data) = Ret (data ! hdr) \<and> deref (tl (drop hdr data)) = Ret (data ! Suc hdr)"
      using assms h by (auto simp: tl_drop drop_Suc [symmetric] simp del: drop_Suc)
    then show "parse64_ok data dl (case (drop hdr data, n, t, hdr) of (bufp, asn_length, t, hdr) \<Rightarrow>
        if t = ASN_OPAQUE \<and> asn_length < 2 then Null
        else cbind (if t = ASN_OPAQUE \<and> asn_length \<le> 12
                    then cbind (deref bufp) (\<lambda>b0. if b0 = ASN_OPAQUE_TAG1 then deref (tl bufp) else Ret 0)
                    else Ret 0) (\<lambda>b1.
          if b1 = ASN_OPAQUE_COUNTER64 \<or> b1 = ASN_OPAQUE_U64
          then cbind (asn_open_wrapped bufp asn_length) (\<lambda>(bufp', len). asn_u64_value data bufp' len b1 asn_length)
          else asn_u64_value data bufp asn_length t dl))"
      using wrapped [OF h(2,3)] asn_u64_value_ok [OF h(2,3) assms(1), of t dl] by auto
  qed (use assms in auto)
qed (simp add: asn_parse_unsigned_int64_def)

lemma asn_parse_signed_int64_ok:
  assumes "dl \<le> length data" "dl < 2 ^ 64"
  shows "parse64_ok data dl (asn_parse_signed_int64 data dl sz)"
proof -
  have wrapped: "parse64_ok data dl (cbind (asn_open_wrapped (drop hdr data) n)
      (\<lambda>(bufp', len). asn_i64_value data bufp' len ASN_OPAQUE_I64 n))"
    if "2 \<le> hdr" "hdr + n \<le> dl" "2 \<le> n" for hdr n
    using that assms asn_i64_value_ok [of "h + hdr" m dl data ASN_OPAQUE_I64 n for h m]
    by (intro asn_open_wrapped_bind [where Q = "parse64_ok data dl"]) auto
  have d: "deref (drop hdr data) = Ret (data ! hdr) \<and> deref (tl (drop hdr data)) = Ret (data ! Suc hdr)"
    if "hdr + n \<le> dl" "\<not> n < 2" for n hdr
    using assms that by (auto simp: tl_drop drop_Suc [symmetric] simp del: drop_Suc)
  show ?thesis
    unfolding asn_parse_signed_int64_def
    using assms wrapped d by (auto intro!: open_bind [where Q = "parse64_ok data dl"])
qed

lemma opaque64_datalength_wraps:
  "asn_parse_unsigned_int64 [0x44, 5, 0x9F, 0x76, 2, 1, 2, 9] 8 16 =
     Ret ([9], 2 ^ 64 - 2, ASN_OPAQUE_COUNTER64, \<lparr>c64_high = 0, c64_low = 258\<rparr>)"
  by code_simp

lemma parse_ok_safe: "parse_ok data dl r \<Longrightarrow> r \<noteq> Overrun"
  by (cases r) auto

lemma header_ok_safe: "header_ok data dl r \<Longrightarrow> r \<noteq> Overrun"
  by (cases r) auto

lemma parse64_ok_safe: "parse64_ok data dl r \<Longrightarrow> r \<noteq> Overrun"
  by (cases r) auto

text \<open>
  C16. Accounting of the BER decoders whose encoding is not wrapped in an Opaque: \<open>asn_parse_int\<close>,
  \<open>asn_parse_unsigned_int\<close>, \<open>asn_parse_string\<close>, \<open>asn_parse_bitstring\<close>, \<open>asn_parse_null\<close>, \<open>asn_parse_objid\<close>, and
  \<open>asn_parse_unsigned_int64\<close> when the type it returns is Counter64 or a plain Opaque. When one of them succeeds it has
  consumed some number \<open>k\<close> of bytes, between 2 and \<open>*datalength\<close>: the returned position is \<open>data + k\<close> and the new
  \<open>*datalength\<close> is the old one less \<open>k\<close>, so the pair again describes a valid rest of the buffer. A header
  that \<open>asn_parse_header\<close> accepts leaves a contents length that fits behind it. The 64-bit, float and double values
  wrapped in an Opaque (\<open>asn_parse_unsigned_int64\<close> with another type, \<open>asn_parse_signed_int64\<close>, \<open>asn_parse_float\<close>,
  \<open>asn_parse_double\<close>) are left out, since for them the code returns a \<open>*datalength\<close> or a position that is not that
  of the rest (\<open>opaque64_datalength_wraps\<close>).
\<close>

theorem asn_parse_accounting:
  assumes "dl \<le> length data" "dl < 2 ^ 31" "2 \<le> cap" "cap < 2 ^ 64"
  shows "(asn_parse_int data dl sz = Ret (rest, dl', t, i) \<longrightarrow> consumes data dl rest dl')
    \<and> (asn_parse_unsigned_int data dl sz = Ret (rest, dl', t, u) \<longrightarrow> consumes data dl rest dl')
    \<and> (asn_parse_string data dl sz = Ret (rest, dl', t, s) \<longrightarrow> consumes data dl rest dl')
    \<and> (asn_parse_bitstring data dl sz = Ret (rest, dl', t, s) \<longrightarrow> consumes data dl rest dl')
    \<and> (asn_parse_null data dl = Ret (rest, dl', t) \<longrightarrow> consumes data dl rest dl')
    \<and> (asn_parse_objid data dl cap = Ret (rest, dl', t, oid) \<longrightarrow> consumes data dl rest dl')
    \<and> (asn_parse_unsigned_int64 data dl sz = Ret (rest, dl', t, c) \<and> (t = ASN_COUNTER64 \<or> t = ASN_OPAQUE)
         \<longrightarrow> consumes data dl rest dl')
    \<and> (asn_parse_header data dl = Ret (rest, dl', t)
         \<longrightarrow> (\<exists>k. 2 \<le> k \<and> k + dl' \<le> dl \<and> rest = drop k data))"
  using asn_parse_int_ok [of dl data sz] asn_parse_unsigned_int_ok [of dl data sz]
    asn_parse_string_ok [of dl data sz] asn_parse_bitstring_reads [of dl data sz] asn_parse_null_ok [of dl data]
    asn_parse_objid_ok [of dl data cap] asn_parse_unsigned_int64_ok [of dl data sz] asn_parse_header_ok [of dl data]
    assms
  by (auto simp: parse64_ok_def header_ok_def)

theorem asn_parse_accounting_witness:
  "consumes [2, 1, 5, 7] 4 [7] 1"
proof -
  have "4 \<le> length [2, 1, 5, 7 :: u_char]" "(4 :: nat) < 2 ^ 31" "(2 :: nat) \<le> 4" "(4 :: nat) < 2 ^ 64" by simp_all
  moreover have "asn_parse_int [2, 1, 5, 7] 4 8 = Ret ([7], 1, 2, 5)" by code_simp
  ultimately show ?thesis using asn_parse_accounting by blast
qed

end
