(* ===== verification/AsnBuild.thy ===== *)
theory AsnBuild
  imports AsnParse
begin

text \<open>
  The forward encoding half of \<^verbatim>\<open>snmplib/asn1.c\<close>. An encoder writes at \<open>data\<close>, in order, within
  the \<open>*datalength\<close> bytes left; the model returns the bytes written and the new \<open>*datalength\<close>
  (\<open>Null\<close> for the error return; what was written before an error is dropped, since the callers give
  up). That the encoders write no more than they subtract is a lemma. Floats and doubles are in
  \<open>AsnFloat\<close>.
\<close>

section \<open>Lengths and headers\<close>

definition asn_build_length :: "nat \<Rightarrow> nat \<Rightarrow> (bytes \<times> nat) cres" where
  "asn_build_length datalength len =
     (if len < 0x80 then
        if datalength < 1 then Null else Ret ([word_of_nat len], datalength - 1)
      else if len \<le> 0xFF then
        if datalength < 2 then Null
        else Ret ([0x01 OR ASN_LONG_LEN, word_of_nat len], datalength - 2)
      else if datalength < 3 then Null
      else Ret ([0x02 OR ASN_LONG_LEN, word_of_nat (drop_bit 8 len), word_of_nat len], datalength - 3))"

definition asn_build_header :: "nat \<Rightarrow> u_char \<Rightarrow> nat \<Rightarrow> (bytes \<times> nat) cres" where
  "asn_build_header datalength type len =
     (if datalength < 1 then Null
      else cbind (asn_build_length (datalength - 1) len) (\<lambda>(bs, datalength). Ret (type # bs, datalength)))"

text \<open>\<open>_asn_build_header_check\<close>: the contents must fit behind the header.\<close>

definition asn_build_header_check :: "(bytes \<times> nat) cres \<Rightarrow> nat \<Rightarrow> (bytes \<times> nat) cres" where
  "asn_build_header_check r typedlen =
     cbind r (\<lambda>(bs, datalen). if datalen < typedlen then Null else Ret (bs, datalen))"

definition asn_build_sequence :: "nat \<Rightarrow> u_char \<Rightarrow> nat \<Rightarrow> (bytes \<times> nat) cres" where
  "asn_build_sequence datalength type len =
     (if datalength < 4 then Null
      else Ret ([type, 0x02 OR ASN_LONG_LEN, word_of_nat (drop_bit 8 len), word_of_nat len], datalength - 4))"

section \<open>Integers\<close>

text \<open>
  The loop that drops the most significant byte while the top nine bits are all equal. The value is held
  left-justified in a 64-bit word.
\<close>

fun asn_trunc_loop :: "u_long \<Rightarrow> nat \<Rightarrow> u_long \<Rightarrow> nat \<times> u_long" where
  "asn_trunc_loop m 0 integer = (0, integer)"
| "asn_trunc_loop m (Suc n) integer =
     (if (integer AND m = 0 \<or> integer AND m = m) \<and> Suc n > 1
      then asn_trunc_loop m n (push_bit 8 integer) else (Suc n, integer))"

abbreviation (input) top9 :: u_long where "top9 \<equiv> push_bit 55 0x1FF"

text \<open>The loop that writes the most significant byte \<open>intsize\<close> times.\<close>

fun asn_emit_loop :: "nat \<Rightarrow> u_long \<Rightarrow> bytes" where
  "asn_emit_loop 0 integer = []"
| "asn_emit_loop (Suc n) integer =
     ucast (drop_bit 56 (integer AND push_bit 56 0xFF)) # asn_emit_loop n (push_bit 8 integer)"

definition asn_build_int :: "nat \<Rightarrow> u_char \<Rightarrow> int \<Rightarrow> nat \<Rightarrow> (bytes \<times> nat) cres" where
  "asn_build_int datalength type intp intsize =
     (if intsize \<noteq> 8 then Null
      else let integer = word_of_int (check_overflow_s intp);
               (intsize, integer) = asn_trunc_loop top9 intsize integer
           in cbind (asn_build_header_check (asn_build_header datalength type intsize) intsize) (\<lambda>(hdr, datalength).
                Ret (hdr @ asn_emit_loop intsize integer, datalength - intsize)))"

definition asn_build_unsigned_int :: "nat \<Rightarrow> u_char \<Rightarrow> u_long \<Rightarrow> nat \<Rightarrow> (bytes \<times> nat) cres" where
  "asn_build_unsigned_int datalength type intp intsize =
     (if intsize \<noteq> 8 then Null
      else let integer = check_overflow_u intp;
               add_null_byte = (ucast (drop_bit 56 (integer AND push_bit 56 0xFF)) AND (0x80 :: u_char) \<noteq> 0);
               (intsize, integer) = (if add_null_byte then (intsize + 1, integer) else asn_trunc_loop top9 intsize integer)
           in cbind (asn_build_header_check (asn_build_header datalength type intsize) intsize) (\<lambda>(hdr, datalength).
                Ret (hdr @ (if add_null_byte then 0 # asn_emit_loop (intsize - 1) integer
                            else asn_emit_loop intsize integer),
                     datalength - intsize)))"

section \<open>Strings, nulls and bit strings\<close>

text \<open>The string argument may be \<open>NULL\<close>; otherwise it holds at least \<open>strlength\<close> bytes.\<close>

definition asn_build_string :: "nat \<Rightarrow> u_char \<Rightarrow> bytes option \<Rightarrow> nat \<Rightarrow> (bytes \<times> nat) cres" where
  "asn_build_string datalength type str strlength =
     cbind (asn_build_header_check (asn_build_header datalength type strlength) strlength) (\<lambda>(hdr, datalength).
       cbind (case str of None \<Rightarrow> Ret (replicate strlength 0) | Some s \<Rightarrow> asn_copy s strlength) (\<lambda>body.
         Ret (hdr @ body, datalength - strlength)))"

definition asn_build_null :: "nat \<Rightarrow> u_char \<Rightarrow> (bytes \<times> nat) cres" where
  "asn_build_null datalength type = asn_build_header datalength type 0"

definition asn_build_bitstring :: "nat \<Rightarrow> u_char \<Rightarrow> bytes option \<Rightarrow> nat \<Rightarrow> (bytes \<times> nat) cres" where
  "asn_build_bitstring datalength type str strlength =
     cbind (case str of None \<Rightarrow> Ret 0 | Some s \<Rightarrow> deref s) (\<lambda>_.
       if asn_bitstring_check strlength then Null
       else cbind (asn_build_header_check (asn_build_header datalength type strlength) strlength) (\<lambda>(hdr, datalength).
         (case str of None \<Rightarrow> Null
          | Some s \<Rightarrow> cbind (asn_copy s strlength) (\<lambda>body. Ret (hdr @ body, datalength - strlength)))))"

section \<open>Object identifiers\<close>

function encoded_oid_len_loop :: "u_int \<Rightarrow> nat" where
  "encoded_oid_len_loop objid = (if objid = 0 then 0 else Suc (encoded_oid_len_loop (drop_bit 7 objid)))"
  by auto
termination
  by (relation "measure unat") (auto simp: unat_drop_bit word_gt_0 [symmetric] unat_gt_0 simp del: drop_bit_eq_div)

declare encoded_oid_len_loop.simps [simp del]

definition encoded_oid_len :: "u_int \<Rightarrow> nat" where
  "encoded_oid_len objid = (if objid = 0 then 1 else encoded_oid_len_loop objid)"

text \<open>\<open>for (j = encoded_len - 1; j >= 0; j--)\<close>: from the last byte of the sub-identifier to its first.\<close>

fun asn_put_subid :: "nat \<Rightarrow> bool \<Rightarrow> u_long \<Rightarrow> bytes \<Rightarrow> bytes" where
  "asn_put_subid 0 lastp objid_val acc = acc"
| "asn_put_subid (Suc j) lastp objid_val acc =
     asn_put_subid j False (drop_bit 7 objid_val)
       ((ucast (objid_val AND 0x7f) OR (if lastp then 0 else 0x80)) # acc)"

definition asn_subid_bytes :: "u_long \<Rightarrow> bytes" where
  "asn_subid_bytes v =
     (let objid_val = ucast (ucast v :: u_int) in
      asn_put_subid (encoded_oid_len (ucast objid_val)) True objid_val [])"

text \<open>
  The first sub-identifiers: \<open>first_objid_val\<close> before the overflow check and the new \<open>objidlength\<close>.
\<close>

definition asn_objid_first :: "u_long list \<Rightarrow> (u_long \<times> nat) option" where
  "asn_objid_first objid =
     (if length objid = 0 then Some (0, 1)
      else if objid ! 0 > 2 then None
      else if length objid = 1 then Some (objid ! 0 * 40, 2)
      else if objid ! 1 \<ge> 40 \<and> objid ! 0 < 2 \<or> objid ! 1 > 0xFFFFFFFF - objid ! 0 * 40 then None
      else Some (objid ! 0 * 40 + objid ! 1, length objid))"

definition asn_build_objid :: "nat \<Rightarrow> u_char \<Rightarrow> u_long list \<Rightarrow> (bytes \<times> nat) cres" where
  "asn_build_objid datalength type objid =
     (case asn_objid_first objid of
        None \<Rightarrow> Null
      | Some (objid_val, objidlength) \<Rightarrow>
          let first_objid_val = check_overflow_u objid_val in
          if objidlength > 128 then Null
          else let vals = (if objidlength \<le> 1 then [] else first_objid_val # drop 2 objid);
                   asnlength = (if objidlength \<le> 1 then encoded_oid_len (ucast first_objid_val)
                                else sum_list (map (\<lambda>v. encoded_oid_len (ucast (check_overflow_u v))) vals))
               in cbind (asn_build_header_check (asn_build_header datalength type asnlength) asnlength) (\<lambda>(hdr, datalength).
                    Ret (hdr @ (if objidlength \<le> 1 then [0] else concat (map asn_subid_bytes vals)),
                         datalength - asnlength)))"

section \<open>64-bit integers\<close>

text \<open>
  The 64-bit value is put together from the two halves as they are: the truncated copies of
  \<open>CHECK_OVERFLOW_U\<close> are not used.
\<close>

fun asn_emit64_loop :: "nat \<Rightarrow> u_long \<Rightarrow> bytes" where
  "asn_emit64_loop 0 value = []"
| "asn_emit64_loop (Suc n) value = ucast (drop_bit 56 value) # asn_emit64_loop n (push_bit 8 value)"

definition asn_build_unsigned_int64 :: "nat \<Rightarrow> u_char \<Rightarrow> counter64 \<Rightarrow> nat \<Rightarrow> (bytes \<times> nat) cres" where
  "asn_build_unsigned_int64 datalength type cp countersize =
     (if countersize \<noteq> 16 then Null
      else let value = push_bit 32 (c64_high cp) OR c64_low cp;
               add_null_byte = (drop_bit 63 value \<noteq> 0);
               (intsize, value) = (if add_null_byte then (9, value) else asn_trunc_loop (push_bit 52 0xff8) 8 value)
           in cbind (if type = ASN_OPAQUE_COUNTER64 \<or> type = ASN_OPAQUE_U64 then
                       cbind (asn_build_header_check (asn_build_header datalength ASN_OPAQUE (intsize + 3)) (intsize + 3))
                         (\<lambda>(hdr, datalength). Ret (hdr @ [ASN_OPAQUE_TAG1, type, word_of_nat intsize], datalength - 3))
                     else asn_build_header_check (asn_build_header datalength type intsize) intsize) (\<lambda>(hdr, datalength).
                Ret (hdr @ (if add_null_byte then 0 # asn_emit64_loop (intsize - 1) value
                            else asn_emit64_loop intsize value),
                     datalength - intsize)))"

fun asn_trunc_i64_loop :: "nat \<Rightarrow> u_long \<Rightarrow> u_long \<Rightarrow> nat \<times> u_long \<times> u_long" where
  "asn_trunc_i64_loop 0 high low = (0, high, low)"
| "asn_trunc_i64_loop (Suc n) high low =
     (if (high AND 0xFF800000 = 0 \<or> high AND 0xFF800000 = 0xFF800000) \<and> Suc n > 1
      then asn_trunc_i64_loop n (push_bit 8 (high AND 0x00ffffff) OR drop_bit 24 (low AND 0xFF000000))
             (push_bit 8 (low AND 0x00ffffff))
      else (Suc n, high, low))"

fun asn_emit_i64_loop :: "nat \<Rightarrow> u_long \<Rightarrow> u_long \<Rightarrow> bytes" where
  "asn_emit_i64_loop 0 high low = []"
| "asn_emit_i64_loop (Suc n) high low =
     ucast (drop_bit 24 high) #
     asn_emit_i64_loop n (push_bit 8 (high AND 0x00ffffff) OR drop_bit 24 (low AND 0xFF000000))
       (push_bit 8 (low AND 0x00ffffff))"

definition asn_build_signed_int64 :: "nat \<Rightarrow> u_char \<Rightarrow> counter64 \<Rightarrow> nat \<Rightarrow> (bytes \<times> nat) cres" where
  "asn_build_signed_int64 datalength type cp countersize =
     (if countersize \<noteq> 16 then Null
      else let high = word_of_int (check_overflow_s (sint (c64_high cp)));
               low = check_overflow_u (c64_low cp);
               (intsize, high, low) = asn_trunc_i64_loop 8 high low
           in cbind (asn_build_header_check (asn_build_header datalength ASN_OPAQUE (intsize + 3)) (intsize + 3)) (\<lambda>(hdr, datalength).
                Ret (hdr @ [ASN_OPAQUE_TAG1, ASN_OPAQUE_I64, word_of_nat intsize] @ asn_emit_i64_loop intsize high low,
                     datalength - (3 + intsize))))"

end
