(* ===== verification/AsnRoundtrip.thy ===== *)
theory AsnRoundtrip
  imports AsnBuild AsnSafe
begin

text \<open>
  Decoding what the encoders of \<^verbatim>\<open>snmplib/asn1.c\<close> wrote, type by type: header and length, integers,
  strings, object identifiers, 64-bit integers. The common contract of an encoder and a decoder
  is the locale \<open>tlv_codec\<close>, interpreted for every type.
\<close>

section \<open>Headers\<close>

lemma asn_build_length_cases:
  assumes "asn_build_length dl len = Ret (bs, dl')"
  shows "length bs + dl' = dl \<and> 1 \<le> length bs \<and> length bs \<le> 3"
  using assms by (auto simp: asn_build_length_def split: if_splits)

lemma asn_build_header_Ret:
  assumes "asn_build_header dl type len = Ret (bs, dl')"
  shows "length bs + dl' = dl \<and> 2 \<le> length bs \<and> length bs \<le> 4 \<and> hd bs = type"
  using assms asn_build_length_cases [of "dl - 1" len]
  by (auto simp: asn_build_header_def cbind_eq_Ret split: if_splits)

lemma header_check_Ret:
  "asn_build_header_check r n = Ret (bs, dl) \<longleftrightarrow> r = Ret (bs, dl) \<and> n \<le> dl"
  by (cases r) (auto simp: asn_build_header_check_def split: if_splits)

lemma size_add_le [simp]: "a \<le> 65535 \<Longrightarrow> b \<le> 256 \<Longrightarrow> size_add a b = a + b"
  by (rule size_add_small) simp

lemma shift_in_fold:
  assumes "unat v * 256 ^ length bs + be_val bs < 2 ^ 64"
  shows "unat (foldl shift_in v bs) = unat v * 256 ^ length bs + be_val bs"
  using assms
proof (induction bs arbitrary: v)
  case (Cons b bs)
  let ?k = "(256 :: nat) ^ length bs"
  have "(unat v * 256 + unat b) * 1 \<le> (unat v * 256 + unat b) * ?k" by (intro mult_le_mono2) simp
  also have "\<dots> < 2 ^ 64" using Cons.prems by (simp add: algebra_simps)
  finally have bound: "unat v * 2 ^ 8 + unat (ucast b :: u_long) < 2 ^ LENGTH(64)"
    by simp
  have step: "unat (shift_in v b) = unat v * 256 + unat b"
    unfolding shift_in_def
    by (subst unat_push_or) (use bound in simp_all)
  then show ?case using Cons by (simp add: step algebra_simps)
qed simp

lemma asn_parse_length_loop_fold:
  "n \<le> length data \<Longrightarrow> asn_parse_length_loop n data v = Ret (drop n data, foldl shift_in v (take n data))"
proof (induction n arbitrary: v data)
  case (Suc n)
  then show ?case by (cases data) (auto simp: shift_in_def)
qed simp

lemma sint_eq_uint: "uint (w :: u_long) < 2 ^ 63 \<Longrightarrow> sint w = uint w"
proof -
  assume w: "uint w < 2 ^ 63"
  have "- (2 ^ 63) \<le> uint w" by (rule order_trans [OF _ uint_ge_0]) simp
  then have "signed_take_bit 63 (uint w) = uint w" using w by (rule signed_take_bit_int_eq_self)
  then show ?thesis by (simp add: sint_uint)
qed

lemma uint_less_of_unat: "unat (w :: 'a::len word) < 2 ^ n \<Longrightarrow> uint w < 2 ^ n"
  by (metis int_nat_eq nat_int of_nat_less_iff of_nat_numeral of_nat_power uint_nat)

lemma sint_small: "unat (w :: u_long) < 2 ^ 63 \<Longrightarrow> \<not> sint w < 0"
  by (drule uint_less_of_unat, drule sint_eq_uint) (simp only: not_less uint_ge_0)

lemma asn_parse_length_long:
  assumes "unat b = 128 + length ls" "1 \<le> length ls" "length ls \<le> 8" "be_val ls < 2 ^ 63"
  shows "asn_parse_length (b # ls @ rest) = Ret (rest, be_val ls)"
proof -
  have l: "unat (b AND NOT 0x80) = length ls" using assms(1,3) by (subst and_not_80) simp
  then have nz: "b AND NOT 0x80 \<noteq> 0" using assms(2) by auto
  have hi: "b AND 0x80 \<noteq> 0" using assms(1) by (simp add: and_80)
  have "unat (foldl shift_in 0 ls) = be_val ls" using assms(4) by (subst shift_in_fold) simp_all
  moreover from this have "\<not> sint (foldl shift_in 0 ls) < 0" using assms(4) by (intro sint_small) simp
  moreover have "asn_parse_length_loop (length ls) (ls @ rest) 0 = Ret (rest, foldl shift_in 0 ls)"
    by (subst asn_parse_length_loop_fold) simp_all
  ultimately show ?thesis
    using l nz hi assms(3) unfolding asn_parse_length_def by (simp add: Let_def del: word_and_not)
qed

lemma asn_parse_nlength_build:
  assumes "asn_build_length dl len = Ret (bs, dl')" "len \<le> 0xFFFF" "length bs + len \<le> pl"
  shows "asn_parse_nlength (bs @ rest) pl = Ret (rest, len)"
proof -
  have long: "asn_parse_nlength ((b # ls) @ rest) pl = Ret (rest, be_val ls)"
    if "unat b = 128 + length ls" "1 \<le> length ls" "length ls \<le> 8" "be_val ls \<le> 65535" "1 + length ls + be_val ls \<le> pl"
    for b ls
  proof -
    have "unat (b AND NOT 0x80) = length ls" using that(1,3) by (subst and_not_80) simp
    moreover have "b AND 0x80 \<noteq> 0" using that(1) by (simp add: and_80)
    moreover have "asn_parse_length (b # ls @ rest) = Ret (rest, be_val ls)"
      using that by (intro asn_parse_length_long) simp_all
    ultimately show ?thesis using that by (simp add: asn_parse_nlength_def Let_def)
  qed
  consider "len < 0x80" | "0x80 \<le> len" "len \<le> 0xFF" | "0xFF < len" by linarith
  then show ?thesis
  proof cases
    case 1
    then have bs: "bs = [word_of_nat len]" using assms(1) by (auto simp: asn_build_length_def split: if_splits)
    have "unat (word_of_nat len :: u_char) = len" using 1 by (simp add: unat_word_of_nat)
    then show ?thesis using 1 bs assms(3) and_80 [where b = "word_of_nat len"] by (simp add: asn_parse_nlength_def)
  next
    case 2
    then have "bs = [0x81, word_of_nat len]" using assms(1) by (auto simp: asn_build_length_def split: if_splits)
    moreover have "be_val [word_of_nat len] = len" using 2 by (simp add: unat_word_of_nat)
    ultimately show ?thesis using assms(2,3) long [of "0x81" "[word_of_nat len]"] by simp
  next
    case 3
    then have "bs = [0x82, word_of_nat (drop_bit 8 len), word_of_nat len]"
      using assms(1) by (auto simp: asn_build_length_def split: if_splits)
    moreover have "be_val [word_of_nat (drop_bit 8 len), word_of_nat len] = len"
      using assms(2) by (simp add: unat_word_of_nat drop_bit_eq_div)
    ultimately show ?thesis using assms(2,3) long [of "0x82" "[word_of_nat (drop_bit 8 len), word_of_nat len]"] by simp
  qed
qed

lemma asn_open_build:
  assumes "asn_build_header dl type len = Ret (hdr, dl')" "len \<le> 0xFFFF" "length hdr + len \<le> n" "ok type"
    "len \<le> length rest"
  shows "asn_open ok (hdr @ rest) n = Ret (rest, len, type, length hdr)"
proof -
  obtain bs where bs: "hdr = type # bs" "asn_build_length (dl - 1) len = Ret (bs, dl')"
    using assms(1) by (auto simp: asn_build_header_def cbind_eq_Ret split: if_splits)
  have "asn_parse_nlength (bs @ rest) (n - 1) = Ret (rest, len)"
    using assms(2,3) bs by (intro asn_parse_nlength_build) auto
  moreover have "1 \<le> length bs" using asn_build_length_cases [OF bs(2)] by simp
  ultimately show ?thesis using bs assms by (simp add: asn_open_def)
qed

section \<open>Integers\<close>

lemma emit_loop_eq: "asn_emit_loop n w = asn_emit64_loop n w"
proof (induction n arbitrary: w)
  case (Suc n)
  have "drop_bit 56 (w AND push_bit 56 0xFF) = drop_bit 56 w AND mask 8"
    by (simp only: drop_bit_and drop_bit_push_bit) (simp add: mask_eq_exp_minus_1)
  then have "ucast (drop_bit 56 (w AND push_bit 56 0xFF)) = (ucast (drop_bit 56 w) :: u_char)"
    by (simp only: word_unat_eq_iff unat_ucast_mod unat_and_mask) simp
  then show ?case using Suc by (simp only: asn_emit_loop.simps asn_emit64_loop.simps)
qed simp

lemma length_emit [simp]: "length (asn_emit64_loop n w) = n"
  by (induction n arbitrary: w) simp_all

lemma unat_push_8: "unat (push_bit 8 (w :: u_long)) = 256 * (unat w mod 2 ^ 56)"
proof -
  have "unat (push_bit 8 w) = take_bit 64 (push_bit 8 (unat w))" using unsigned_push_bit_eq [of 8 w] by simp
  also have "\<dots> = (unat w * 256) mod (2 ^ 56 * 256)" by (simp add: take_bit_eq_mod push_bit_eq_mult)
  also have "\<dots> = (unat w mod 2 ^ 56) * 256" by (rule mult_mod_left [symmetric])
  finally show ?thesis by (simp only: mult.commute)
qed

lemma emit_arith:
  assumes "n + m = (7 :: nat)"
  shows "(w div 2 ^ 56) * 256 ^ n + (256 * (w mod 2 ^ 56)) div 256 ^ (m + 1) = w div (256 :: nat) ^ m"
proof -
  have e: "(2 :: nat) ^ 56 = 256 ^ n * 256 ^ m" unfolding power_add [symmetric] assms by simp
  have "(256 * (w mod 2 ^ 56)) div 256 ^ (m + 1) = (w mod 2 ^ 56) div 256 ^ m"
    by (simp add: div_mult2_eq)
  moreover have "w div 256 ^ m = ((w div 2 ^ 56) * 256 ^ n * 256 ^ m + w mod 2 ^ 56) div 256 ^ m"
    unfolding mult.assoc e [symmetric] by (simp only: div_mult_mod_eq)
  moreover have "\<dots> = (w div 2 ^ 56) * 256 ^ n + (w mod 2 ^ 56) div 256 ^ m"
    by (simp add: div_add1_eq)
  ultimately show ?thesis by simp
qed

lemma be_val_emit: "n \<le> 8 \<Longrightarrow> be_val (asn_emit64_loop n w) = unat w div 256 ^ (8 - n)"
proof (induction n arbitrary: w)
  case 0
  have "unat w < 256 ^ 8" using unsigned_less [of w, where ?'a = nat] by simp
  then show ?case by simp
next
  case (Suc n)
  have b: "unat (ucast (drop_bit 56 w) :: u_char) = unat w div 2 ^ 56"
    using unsigned_less [of w, where ?'a = nat]
    by (simp only: unat_ucast_mod unat_drop_bit) (simp add: mod_less less_mult_imp_div_less)
  have "be_val (asn_emit64_loop n (push_bit 8 w)) = (256 * (unat w mod 2 ^ 56)) div 256 ^ (8 - n)"
    using Suc by (simp only: unat_push_8)
  moreover have "8 - n = (7 - n) + 1" using Suc by simp
  ultimately show ?case
    using emit_arith [of n "7 - n" "unat w"] Suc(2) by (simp only: asn_emit64_loop.simps be_val.simps length_emit b) simp
qed

lemma sint_of_int:
  "- (2 ^ 63) \<le> k \<Longrightarrow> k < 2 ^ 63 \<Longrightarrow> sint (word_of_int k :: u_long) = k"
proof -
  assume "- (2 ^ 63) \<le> k" "k < 2 ^ 63"
  then have "signed_take_bit 63 k = k" by (rule signed_take_bit_int_eq_self)
  then show ?thesis by (simp add: signed_of_int)
qed

lemma top9_eq: "top9 = NOT (mask 55)"
  by (simp add: mask_eq_exp_minus_1 push_bit_eq_mult)

lemma unat_less_of_and:
  assumes "w AND top9 = 0"
  shows "unat w < 2 ^ 55"
proof -
  have "w AND NOT (mask 55) = 0" using assms unfolding top9_eq .
  then have "w = w AND mask 55"
    by (metis bit.conj_disj_distrib bit.disj_cancel_right bit.conj_one_right or.right_neutral)
  then have "unat w = unat w mod 2 ^ 55" by (metis unat_and_mask)
  then show ?thesis by (metis mod_less_divisor zero_less_numeral zero_less_power)
qed

lemma sint_top9_0: "w AND top9 = 0 \<Longrightarrow> 0 \<le> sint w \<and> sint w < 2 ^ 55"
proof -
  assume "w AND top9 = 0"
  then have "uint w < 2 ^ 55" by (intro uint_less_of_unat unat_less_of_and)
  moreover from this have "sint w = uint w" by (intro sint_eq_uint) simp
  ultimately show ?thesis by simp
qed

lemma sint_not: "sint (NOT w :: u_long) = - sint w - 1"
proof -
  have "NOT w = word_of_int (- sint w - 1)" by (simp add: not_eq_complement)
  moreover have "- (2 ^ 63) \<le> sint w" "sint w < 2 ^ 63" using sint_ge [of w] sint_lt [of w] by simp_all
  ultimately show ?thesis by (simp only: sint_of_int)
qed

lemma sint_top9_1: "w AND top9 = top9 \<Longrightarrow> - (2 ^ 55) \<le> sint w \<and> sint w < 0"
proof -
  assume "w AND top9 = top9"
  then have "NOT w AND top9 = 0" by (metis bit.conj_cancel_right and.commute and.assoc bit.conj_zero_right)
  then have "0 \<le> sint (NOT w) \<and> sint (NOT w) < 2 ^ 55" by (rule sint_top9_0)
  then show ?thesis unfolding sint_not by simp
qed

text \<open>
  The contents of an integer object: the \<open>n\<close> bytes hold the value \<open>s\<close> in two's complement. The state of
  the truncation loop is the value shifted to the top of the word.
\<close>

definition fits :: "int \<Rightarrow> nat \<Rightarrow> bool" where
  "fits s n \<longleftrightarrow> 1 \<le> n \<and> n \<le> 8 \<and> - (2 ^ (8 * n - 1)) \<le> s \<and> s < 2 ^ (8 * n - 1)"

definition left_justified :: "int \<Rightarrow> nat \<Rightarrow> u_long \<Rightarrow> bool" where
  "left_justified s n w \<longleftrightarrow> w = word_of_int (s * 256 ^ (8 - n))"

lemma pow_split: "1 \<le> n \<Longrightarrow> n \<le> 8 \<Longrightarrow> (2 :: int) ^ 63 = 2 ^ (8 * n - 1) * 256 ^ (8 - n)"
proof -
  assume "1 \<le> n" "n \<le> 8"
  then have "(8 * n - 1) + 8 * (8 - n) = 63" by simp
  moreover have "(256 :: int) ^ (8 - n) = 2 ^ (8 * (8 - n))" by (simp add: power_mult)
  ultimately show ?thesis by (metis power_add)
qed

lemma sint_left_justified:
  assumes "fits s n" "left_justified s n w"
  shows "sint w = s * 256 ^ (8 - n)"
proof -
  have n: "1 \<le> n" "n \<le> 8" using assms(1) by (auto simp: fits_def)
  let ?k = "(256 :: int) ^ (8 - n)"
  have "- (2 ^ (8 * n - 1)) * ?k \<le> s * ?k" using assms(1) by (intro mult_right_mono) (auto simp: fits_def)
  then have "- (2 ^ 63) \<le> s * ?k" unfolding pow_split [OF n] by simp
  moreover have "s * ?k < 2 ^ 63"
    unfolding pow_split [OF n] using assms(1) by (intro mult_strict_right_mono) (auto simp: fits_def)
  ultimately show ?thesis using assms(2) unfolding left_justified_def by (simp only: sint_of_int)
qed

lemma trunc_step:
  assumes "fits s (Suc n)" "left_justified s (Suc n) w" "w AND top9 = 0 \<or> w AND top9 = top9" "1 \<le> n"
  shows "fits s n \<and> left_justified s n (push_bit 8 w)"
proof
  have n: "n \<le> 7" using assms(1) by (simp add: fits_def)
  let ?k = "(256 :: int) ^ (7 - n)"
  have sw: "sint w = s * ?k" using sint_left_justified [OF assms(1,2)] by simp
  have "(8 * n - 1) + 8 * (7 - n) = 55" using assms(4) n by simp
  moreover have "?k = 2 ^ (8 * (7 - n))" by (simp add: power_mult)
  ultimately have e: "(2 :: int) ^ 55 = 2 ^ (8 * n - 1) * ?k" by (metis power_add)
  have "- (2 ^ 55) \<le> s * ?k \<and> s * ?k < 2 ^ 55"
    using sint_top9_0 [of w] sint_top9_1 [of w] assms(3) sw by auto
  then have "- (2 ^ (8 * n - 1)) * ?k \<le> s * ?k \<and> s * ?k < 2 ^ (8 * n - 1) * ?k" unfolding e by simp
  moreover have "0 < ?k" by simp
  ultimately have "- (2 ^ (8 * n - 1)) \<le> s \<and> s < 2 ^ (8 * n - 1)"
    by (simp only: mult_le_cancel_right_pos mult_less_cancel_right_pos)
  then show "fits s n" using assms(4) n by (simp add: fits_def)
  have "push_bit 8 w = w * 256" by (simp add: push_bit_eq_mult)
  also have "\<dots> = word_of_int (s * ?k * 256)" using assms(2) by (simp add: left_justified_def)
  also have "s * ?k * 256 = s * 256 ^ (8 - n)"
  proof -
    have "8 - n = Suc (7 - n)" using n by simp
    then show ?thesis by (simp only: power_Suc mult_ac)
  qed
  finally show "left_justified s n (push_bit 8 w)" by (simp add: left_justified_def)
qed

lemma trunc_loop_ok:
  assumes "fits s n" "left_justified s n w"
  shows "\<exists>n' w'. asn_trunc_loop top9 n w = (n', w') \<and> n' \<le> n \<and> fits s n' \<and> left_justified s n' w'"
  using assms
proof (induction n arbitrary: w)
  case 0
  then show ?case by (simp add: fits_def)
next
  case (Suc n)
  show ?case
  proof (cases "(w AND top9 = 0 \<or> w AND top9 = top9) \<and> Suc n > 1")
    case True
    then have "fits s n \<and> left_justified s n (push_bit 8 w)" using Suc.prems by (intro trunc_step) auto
    then obtain n' w' where "asn_trunc_loop top9 n (push_bit 8 w) = (n', w') \<and> n' \<le> n \<and> fits s n' \<and> left_justified s n' w'"
      using Suc.IH by blast
    then show ?thesis using True by (simp only: asn_trunc_loop.simps if_True) auto
  next
    case False
    then show ?thesis using Suc.prems by (simp only: asn_trunc_loop.simps if_False) auto
  qed
qed

lemma pow8: "n \<le> 8 \<Longrightarrow> (2 :: int) ^ 64 = 256 ^ n * 256 ^ (8 - n)"
proof -
  assume "n \<le> 8"
  then have "(256 :: int) ^ n * 256 ^ (8 - n) = 256 ^ 8" by (simp only: power_add [symmetric]) simp
  then show ?thesis by simp
qed

lemma be_val_left_justified:
  assumes "fits s n" "left_justified s n w"
  shows "int (be_val (asn_emit64_loop n w)) = s mod 256 ^ n"
proof -
  have n: "n \<le> 8" using assms(1) by (simp add: fits_def)
  have "uint w = (s * 256 ^ (8 - n)) mod 2 ^ 64"
    using assms(2) by (simp only: left_justified_def uint_word_of_int) (simp add: take_bit_eq_mod)
  also have "\<dots> = (s mod 256 ^ n) * 256 ^ (8 - n)" unfolding pow8 [OF n] by (rule mult_mod_left [symmetric])
  finally have u: "int (unat w) = (s mod 256 ^ n) * 256 ^ (8 - n)" by (simp only: uint_nat)
  have "int (be_val (asn_emit64_loop n w)) = int (unat w) div 256 ^ (8 - n)"
    unfolding be_val_emit [OF n] by (simp only: zdiv_int of_nat_power of_nat_numeral)
  then show ?thesis unfolding u by simp
qed

lemma fits_mod:
  assumes "fits s n"
  shows "s mod 256 ^ n = (if s < 0 then s + 256 ^ n else s)" "(256 :: int) ^ n = 2 * 2 ^ (8 * n - 1)"
proof -
  have n: "1 \<le> n" using assms by (simp add: fits_def)
  have "(256 :: int) ^ n = 2 ^ (Suc (8 * n - 1))" using n by (simp add: power_mult del: power_Suc)
  then show e: "(256 :: int) ^ n = 2 * 2 ^ (8 * n - 1)" by simp
  have b: "- (2 ^ (8 * n - 1)) \<le> s" "s < 2 ^ (8 * n - 1)" using assms by (auto simp: fits_def)
  have p: "(0 :: int) < 2 ^ (8 * n - 1)" by simp
  show "s mod 256 ^ n = (if s < 0 then s + 256 ^ n else s)"
  proof (cases "s < 0")
    case True
    have "(s + 256 ^ n) mod 256 ^ n = s + 256 ^ n" using b p True unfolding e by (intro mod_pos_pos_trivial) linarith+
    then show ?thesis using True by simp
  next
    case False
    then show ?thesis using b p unfolding e by (intro mod_pos_pos_trivial [THEN trans]) auto
  qed
qed

lemma sign_byte:
  assumes "fits s n" "int (be_val (b # bs)) = s mod 256 ^ n" "length (b # bs) = n"
  shows "b AND 0x80 \<noteq> 0 \<longleftrightarrow> s < 0"
proof -
  let ?m = "(256 :: nat) ^ length bs"
  have h: "(256 :: int) ^ n = 256 * int ?m" using assms(3) by auto
  then have half: "2 ^ (8 * n - 1) = 128 * int ?m" using fits_mod(2) [OF assms(1)] by simp
  have v: "int (unat b) * int ?m + int (be_val bs) = (if s < 0 then s + 256 * int ?m else s)"
    using assms(2) fits_mod(1) [OF assms(1)] unfolding h by simp
  have r: "int (be_val bs) < int ?m" using be_val_less [of bs] by (simp only: of_nat_less_iff)
  have b: "- (128 * int ?m) \<le> s" "s < 128 * int ?m" using assms(1) half by (auto simp: fits_def)
  show ?thesis
  proof (cases "s < 0")
    case True
    have "128 \<le> unat b"
    proof (rule ccontr)
      assume "\<not> 128 \<le> unat b"
      then have "int (unat b) \<le> 127" by linarith
      then have "int (unat b) * int ?m \<le> 127 * int ?m" by (rule mult_right_mono) simp
      then show False using v [unfolded if_P [OF True]] r b by linarith
    qed
    then show ?thesis using True by (simp add: and_80)
  next
    case False
    have "unat b < 128"
    proof (rule ccontr)
      assume "\<not> unat b < 128"
      then have "128 \<le> int (unat b)" by linarith
      then have "128 * int ?m \<le> int (unat b) * int ?m" by (rule mult_right_mono) simp
      then show False using v [unfolded if_not_P [OF False]] b by linarith
    qed
    then show ?thesis using False by (simp add: and_80)
  qed
qed

lemma le_val_fill: "le_val (replicate m 0) = 0" "int (le_val (replicate m 0xff)) = 256 ^ m - 1"
proof -
  show "le_val (replicate m 0) = 0" by (induction m) simp_all
  have ff: "unat (0xff :: u_char) = 255" by simp
  show "int (le_val (replicate m 0xff)) = 256 ^ m - 1"
    by (induction m) (simp_all only: replicate.simps le_val.simps ff, simp_all)
qed

lemma word_of_int_add_64: "(word_of_int (s + 2 ^ 64) :: u_long) = word_of_int s"
  by (rule word_of_int_eq_iff [THEN iffD2]) (simp add: take_bit_eq_mod)

lemma long_of_fill:
  assumes "fits s n" "int (be_val bs) = s mod 256 ^ n" "length bs = n"
  shows "long_of_bytes (rev bs @ drop n (replicate 8 (if s < 0 then 0xff else 0))) = s"
proof -
  have n: "1 \<le> n" "n \<le> 8" using assms(1) by (auto simp: fits_def)
  let ?f = "if s < 0 then 0xff else 0 :: u_char"
  have "int (le_val (rev bs @ replicate (8 - n) ?f)) =
      s mod 256 ^ n + 256 ^ n * int (le_val (replicate (8 - n) ?f))"
    using assms(2,3) by (simp add: le_val_append le_val_rev)
  also have "\<dots> = (if s < 0 then s + 2 ^ 64 else s)"
  proof (cases "s < 0")
    case True
    have "s + x + x * (y - 1) = s + x * y" for x y :: int by (simp add: algebra_simps)
    then show ?thesis unfolding pow8 [OF n(2)] using True by (simp only: le_val_fill(2) fits_mod(1) [OF assms(1)] if_True)
  qed (simp add: le_val_fill(1) fits_mod(1) [OF assms(1)])
  finally have "int (le_val (rev bs @ replicate (8 - n) ?f)) = (if s < 0 then s + 2 ^ 64 else s)" .
  then have "(word_of_int (int (le_val (rev bs @ replicate (8 - n) ?f))) :: u_long) = word_of_int s"
    using word_of_int_add_64 [of s] by (cases "s < 0") (simp_all only: if_True if_False)
  then have w: "(word_of_nat (le_val (rev bs @ replicate (8 - n) ?f)) :: u_long) = word_of_int s"
    by (simp only: of_int_of_nat_eq)
  have "(2 :: int) ^ (8 * n - 1) \<le> 2 ^ 63" using n by (intro power_increasing) auto
  then have "- (2 ^ 63) \<le> s" "s < 2 ^ 63" using assms(1) by (auto simp: fits_def)
  then have "sint (word_of_int s :: u_long) = s" by (rule sint_of_int)
  then show ?thesis unfolding long_of_bytes_def drop_replicate w .
qed

lemma check_overflow_s_id: "- (2 ^ 31) \<le> v \<Longrightarrow> v < 2 ^ 31 \<Longrightarrow> check_overflow_s v = v"
  by (simp add: check_overflow_s_def)

theorem asn_int_roundtrip:
  assumes "asn_build_int dl ASN_INTEGER v 8 = Ret (bs, dl')" "- (2 ^ 31) \<le> v" "v < 2 ^ 31"
    and "m < 2 ^ 31"
  shows "asn_parse_int (bs @ rest) (length bs + m) 8 = Ret (rest, m, ASN_INTEGER, v)"
    and "length bs + dl' = dl" "length bs \<le> 12"
proof -
  have w: "check_overflow_s v = v" using assms(2,3) by (rule check_overflow_s_id)
  have "fits v 8" "left_justified v 8 (word_of_int v)" using assms(2,3) by (simp_all add: fits_def left_justified_def)
  then obtain n w where nw: "asn_trunc_loop top9 8 (word_of_int v) = (n, w)" "n \<le> 8" "fits v n" "left_justified v n w"
    using trunc_loop_ok by blast
  obtain hdr dl0 where h: "asn_build_header dl ASN_INTEGER n = Ret (hdr, dl0)" "n \<le> dl0"
    "bs = hdr @ asn_emit64_loop n w" "dl' = dl0 - n"
    using assms(1) nw(1) w
    by (auto simp: asn_build_int_def cbind_eq_Ret header_check_Ret emit_loop_eq simp del: push_bit_numeral split: if_splits)
  show "length bs + dl' = dl" "length bs \<le> 12" using h asn_build_header_Ret [OF h(1)] nw(2) by auto
  obtain b r where br: "asn_emit64_loop n w = b # r" using nw(3) by (cases n) (auto simp: fits_def)
  have val: "int (be_val (b # r)) = v mod 256 ^ n" using be_val_left_justified [OF nw(3,4)] br by simp
  have len: "length (b # r) = n" using br length_emit [of n w] by simp
  have open': "asn_open (\<lambda>t. t = ASN_INTEGER) (hdr @ (b # r @ rest)) (length bs + m) = Ret (b # r @ rest, n, ASN_INTEGER, length hdr)"
    using h(3) nw(2) br len by (intro asn_open_build [OF h(1)]) auto
  have fill: "asn_parse_int_fill n (replicate 8 f) (b # r @ rest) = Ret (rev (b # r) @ drop n (replicate 8 f), rest)" for f
    using len nw(2) by (subst asn_parse_int_fill_eq) auto
  have sub: "size_sub (length bs + m) (int n + int (length hdr)) = m"
    using h(3) assms(4) asn_build_header_Ret [OF h(1)] nw(2) by (subst size_sub_add_nat) auto
  have "check_overflow_s (long_of_bytes (rev (b # r) @ drop n (replicate 8 (if v < 0 then 0xff else 0)))) = v"
    using long_of_fill [OF nw(3) val len] w by simp
  then show "asn_parse_int (bs @ rest) (length bs + m) 8 = Ret (rest, m, ASN_INTEGER, v)"
    using open' nw(2,3) fill sub sign_byte [OF nw(3) val len]
    unfolding asn_parse_int_def h(3) br
    by (cases "v < 0") (simp_all add: fits_def br)
qed

text \<open>An unsigned value below \<open>2 ^ 63\<close> is a non-negative one of the loop above.\<close>

lemma trunc_unsigned:
  assumes "unat (w :: u_long) < 2 ^ 63"
  obtains n w' where "asn_trunc_loop top9 8 w = (n, w')" "1 \<le> n" "n \<le> 8"
    "be_val (asn_emit64_loop n w') = unat w"
proof -
  let ?s = "int (unat w)"
  have "?s < 2 ^ 63" using assms by (simp only: of_nat_less_iff [symmetric, where ?'a = int] of_nat_power of_nat_numeral)
  moreover have "- (2 ^ 63) \<le> ?s" by (rule order_trans [OF _ of_nat_0_le_iff]) simp
  ultimately have "fits ?s 8" by (simp only: fits_def) simp
  moreover have "left_justified ?s 8 w" by (simp add: left_justified_def)
  ultimately obtain n w' where nw: "asn_trunc_loop top9 8 w = (n, w')" "n \<le> 8" "fits ?s n" "left_justified ?s n w'"
    using trunc_loop_ok by blast
  have "int (be_val (asn_emit64_loop n w')) = ?s"
    using be_val_left_justified [OF nw(3,4)] fits_mod(1) [OF nw(3)] by simp
  then have "be_val (asn_emit64_loop n w') = unat w" by (simp only: of_nat_eq_iff)
  then show ?thesis using that nw by (auto simp: fits_def)
qed

lemma asn_unsigned_int_roundtrip:
  assumes "asn_build_unsigned_int dl t v 8 = Ret (bs, dl')" "unat v < 2 ^ 32"
    "t = ASN_COUNTER \<or> t = ASN_GAUGE \<or> t = ASN_TIMETICKS \<or> t = ASN_UINTEGER"
    and "m < 2 ^ 31"
  shows "asn_parse_unsigned_int (bs @ rest) (length bs + m) 8 = Ret (rest, m, t, v)"
    and "length bs + dl' = dl" "length bs \<le> 12"
proof -
  have w: "check_overflow_u v = v" using assms(2) by (simp add: check_overflow_u_def word_less_nat_alt)
  have "unat (drop_bit 56 v) = 0" using assms(2) by (simp only: unat_drop_bit) simp
  then have "drop_bit 56 v = 0" by (simp only: unat_eq_0)
  then have "drop_bit 56 (v AND push_bit 56 0xFF) = 0"
    by (simp only: drop_bit_and bit.conj_zero_left)
  then have noadd: "\<not> ucast (drop_bit 56 (v AND push_bit 56 0xFF)) AND (0x80 :: u_char) \<noteq> 0"
    by (simp only: unsigned_0 bit.conj_zero_left)
  obtain n w where nw: "asn_trunc_loop top9 8 v = (n, w)" "1 \<le> n" "n \<le> 8" "be_val (asn_emit64_loop n w) = unat v"
    using trunc_unsigned [of v] assms(2) by auto
  obtain hdr dl0 where h: "asn_build_header dl t n = Ret (hdr, dl0)" "n \<le> dl0"
    "bs = hdr @ asn_emit64_loop n w" "dl' = dl0 - n"
    using assms(1) nw(1) w noadd
    by (auto simp: asn_build_unsigned_int_def cbind_eq_Ret header_check_Ret emit_loop_eq simp del: push_bit_numeral split: if_splits)
  show "length bs + dl' = dl" "length bs \<le> 12" using h asn_build_header_Ret [OF h(1)] nw(3) by auto
  let ?c = "asn_emit64_loop n w"
  have open': "asn_open (\<lambda>t. t = ASN_COUNTER \<or> t = ASN_GAUGE \<or> t = ASN_TIMETICKS \<or> t = ASN_UINTEGER)
      (hdr @ (?c @ rest)) (length bs + m) = Ret (?c @ rest, n, t, length hdr)"
    using h(3) nw(3) assms(3) by (intro asn_open_build [OF h(1)]) auto
  have "unat (foldl shift_in 0 ?c) = unat v"
    using nw(4) assms(2) by (subst shift_in_fold) simp_all
  then have loop: "asn_parse_uint_loop n (?c @ rest) 0 = Ret (rest, v)"
    by (subst asn_parse_uint_loop_eq) (simp_all add: word_unat_eq_iff)
  have sub: "size_sub (length bs + m) (int n + int (length hdr)) = m"
    using h(3) assms(4) asn_build_header_Ret [OF h(1)] nw(3) by (subst size_sub_add_nat) auto
  show "asn_parse_unsigned_int (bs @ rest) (length bs + m) 8 = Ret (rest, m, t, v)"
    using open' nw(2,3) loop sub w unfolding asn_parse_unsigned_int_def h(3) by simp
qed

section \<open>Strings, nulls and bit strings\<close>

lemma asn_string_roundtrip:
  assumes "asn_build_string dl t (Some s) (length s) = Ret (bs, dl')" "length s \<le> 0xFFFF" "length s \<le> cap"
    "t = ASN_OCTET_STR \<or> t = ASN_IPADDRESS \<or> t = ASN_OPAQUE \<or> t = ASN_NSAP"
    and "m < 2 ^ 31"
  shows "asn_parse_string (bs @ rest) (length bs + m) cap = Ret (rest, m, t, s)"
    and "length bs + dl' = dl" "length bs \<le> length s + 4"
proof -
  obtain hdr dl0 where h: "asn_build_header dl t (length s) = Ret (hdr, dl0)" "length s \<le> dl0"
    "bs = hdr @ s" "dl' = dl0 - length s"
    using assms(1) by (auto simp: asn_build_string_def cbind_eq_Ret header_check_Ret)
  show "length bs + dl' = dl" "length bs \<le> length s + 4" using h asn_build_header_Ret [OF h(1)] by auto
  have open': "asn_open (\<lambda>t. t = ASN_OCTET_STR \<or> t = ASN_IPADDRESS \<or> t = ASN_OPAQUE \<or> t = ASN_NSAP)
      (hdr @ (s @ rest)) (length bs + m) = Ret (s @ rest, length s, t, length hdr)"
    using h(3) assms(2,4) by (intro asn_open_build [OF h(1)]) auto
  have sub: "size_sub (length bs + m) (int (length s) + int (length hdr)) = m"
    using h(3) assms(2,5) asn_build_header_Ret [OF h(1)] by (subst size_sub_add_nat) auto
  show "asn_parse_string (bs @ rest) (length bs + m) cap = Ret (rest, m, t, s)"
    using open' assms(3) sub unfolding asn_parse_string_def h(3) by simp
qed

lemma asn_bitstring_roundtrip:
  assumes "asn_build_bitstring dl ASN_BIT_STR (Some s) (length s) = Ret (bs, dl')"
    "length s \<le> 0xFFFF" "length s \<le> cap"
    and "m < 2 ^ 31"
  shows "asn_parse_bitstring (bs @ rest) (length bs + m) cap = Ret (rest, m, ASN_BIT_STR, s)"
    and "length bs + dl' = dl" "length bs \<le> length s + 4"
proof -
  obtain hdr dl0 where h: "asn_build_header dl ASN_BIT_STR (length s) = Ret (hdr, dl0)" "length s \<le> dl0"
    "bs = hdr @ s" "dl' = dl0 - length s" "\<not> asn_bitstring_check (length s)"
    using assms(1) by (auto simp: asn_build_bitstring_def cbind_eq_Ret header_check_Ret split: if_splits)
  show "length bs + dl' = dl" "length bs \<le> length s + 4" using h asn_build_header_Ret [OF h(1)] by auto
  have open': "asn_open (\<lambda>t. t = ASN_BIT_STR) (hdr @ (s @ rest)) (length bs + m) = Ret (s @ rest, length s, ASN_BIT_STR, length hdr)"
    using h(3) assms(2) by (intro asn_open_build [OF h(1)]) auto
  have sub: "size_sub (length bs + m) (int (length s) + int (length hdr)) = m"
    using h(3) assms(2,4) asn_build_header_Ret [OF h(1)] by (subst size_sub_add_nat) auto
  show "asn_parse_bitstring (bs @ rest) (length bs + m) cap = Ret (rest, m, ASN_BIT_STR, s)"
    using open' assms(2,3) sub h(5) unfolding asn_parse_bitstring_def h(3)
    by (cases s) (simp_all add: asn_bitstring_check_def)
qed

lemma asn_null_roundtrip:
  assumes "asn_build_null dl t = Ret (bs, dl')" and "m < 2 ^ 31"
  shows "asn_parse_null (bs @ rest) (length bs + m) = Ret (rest, m, t)"
    and "length bs + dl' = dl" "length bs \<le> 4"
proof -
  have h: "asn_build_header dl t 0 = Ret (bs, dl')" using assms(1) by (simp add: asn_build_null_def)
  show "length bs + dl' = dl" "length bs \<le> 4" using asn_build_header_Ret [OF h] by auto
  have "asn_open (\<lambda>t. True) (bs @ rest) (length bs + m) = Ret (rest, 0, t, length bs)"
    by (intro asn_open_build [OF h]) auto
  moreover have "size_sub (length bs + m) (int (length bs)) = m"
    using assms(2) asn_build_header_Ret [OF h] by (subst size_sub_nat) auto
  ultimately show "asn_parse_null (bs @ rest) (length bs + m) = Ret (rest, m, t)"
    unfolding asn_parse_null_def by simp
qed

section \<open>Object identifiers\<close>

text \<open>
  The bytes of a sub-identifier: the leading bytes carry seven bits each and the continuation bit, the last
  byte seven bits only.
\<close>

fun cont_groups :: "nat \<Rightarrow> nat \<Rightarrow> bytes" where
  "cont_groups 0 v = []"
| "cont_groups (Suc k) v = word_of_nat (v div 128 ^ k mod 128 + 128) # cont_groups k v"

lemma length_cont_groups [simp]: "length (cont_groups k v) = k"
  by (induction k) simp_all

lemma cont_groups_snoc: "cont_groups (Suc k) v = cont_groups k (v div 128) @ [word_of_nat (v mod 128 + 128)]"
proof (induction k)
  case (Suc k)
  have "v div 128 ^ Suc k = v div 128 div 128 ^ k" by (simp add: div_mult2_eq)
  then show ?case using Suc by (simp only: cont_groups.simps append_Cons)
qed simp

lemma subid_byte:
  "ucast (v AND 0x7f) OR 0x80 = (word_of_nat (unat (v :: u_long) mod 128 + 128) :: u_char)"
  "ucast (v AND 0x7f) OR 0 = (word_of_nat (unat (v :: u_long) mod 128) :: u_char)"
proof -
  have m: "0x7f = (mask 7 :: u_long)" by (simp add: mask_eq_exp_minus_1)
  have u: "unat (ucast (v AND 0x7f) :: u_char) = unat v mod 128"
    unfolding m unat_ucast_mod unat_and_mask by (simp add: mod_mod_cancel)
  then show "ucast (v AND 0x7f) OR 0 = (word_of_nat (unat v mod 128) :: u_char)"
    by (simp only: or.right_neutral word_unat_eq_iff unat_word_of_nat) simp
  have "unat (push_bit 7 (1 :: u_char) OR ucast (v AND 0x7f)) = 1 * 2 ^ 7 + unat v mod 128"
    using u by (subst unat_push_or) simp_all
  then show "ucast (v AND 0x7f) OR 0x80 = (word_of_nat (unat v mod 128 + 128) :: u_char)"
    by (simp only: word_unat_eq_iff unat_word_of_nat or.commute) simp
qed

lemma put_subid_cont: "asn_put_subid k False v acc = cont_groups k (unat v) @ acc"
proof (induction k arbitrary: v acc)
  case (Suc k)
  have "asn_put_subid (Suc k) False v acc = cont_groups k (unat v div 128) @ word_of_nat (unat v mod 128 + 128) # acc"
    by (simp only: asn_put_subid.simps if_False subid_byte(1) Suc unat_drop_bit) simp
  then show ?case by (simp only: cont_groups_snoc append_assoc append_Cons append_Nil)
qed simp

lemma put_subid_last:
  "asn_put_subid (Suc k) True v [] = cont_groups k (unat v div 128) @ [word_of_nat (unat v mod 128)]"
  by (simp only: asn_put_subid.simps if_True subid_byte(2) put_subid_cont unat_drop_bit) simp

lemma encoded_len_loop:
  "unat v < 128 ^ encoded_oid_len_loop v \<and> (v \<noteq> 0 \<longrightarrow> 1 \<le> encoded_oid_len_loop v)
    \<and> (unat v < 128 ^ k \<longrightarrow> encoded_oid_len_loop v \<le> k)"
proof (induction v arbitrary: k rule: encoded_oid_len_loop.induct)
  case (1 v)
  show ?case
  proof (cases "v = 0")
    case False
    have d: "unat (drop_bit 7 v) = unat v div 128" by (simp only: unat_drop_bit) simp
    have "unat v < 128 ^ Suc (encoded_oid_len_loop (drop_bit 7 v))"
      using 1 [OF False] d by (simp add: div_less_iff_less_mult mult.commute)
    moreover have "encoded_oid_len_loop (drop_bit 7 v) \<le> k - 1 \<and> 1 \<le> k" if "unat v < 128 ^ k"
    proof (cases k)
      case 0
      then show ?thesis using that False unat_eq_0 [of v] by simp
    next
      case (Suc j)
      then have "unat v div 128 < 128 ^ j" using that by (simp add: div_less_iff_less_mult mult.commute)
      then show ?thesis using 1 [OF False, of j] d Suc by simp
    qed
    ultimately show ?thesis using False by (subst (1 2 3) encoded_oid_len_loop.simps) auto
  qed (simp add: encoded_oid_len_loop.simps)
qed

lemma encoded_oid_len_bounds:
  "1 \<le> encoded_oid_len v" "encoded_oid_len v \<le> 5" "unat v < 128 ^ encoded_oid_len v"
proof -
  have "unat v < 2 ^ 32" using unsigned_less [of v, where ?'a = nat] by simp
  then have "unat v < 128 ^ 5" by simp
  then show "1 \<le> encoded_oid_len v" "encoded_oid_len v \<le> 5" "unat v < 128 ^ encoded_oid_len v"
    using encoded_len_loop [of v 5] by (auto simp: encoded_oid_len_def)
qed

lemma subid_bytes_groups:
  obtains k where "asn_subid_bytes v = cont_groups k (unat v mod 2 ^ 32 div 128) @ [word_of_nat (unat v mod 2 ^ 32 mod 128)]"
    "encoded_oid_len (ucast v) = Suc k" "unat v mod 2 ^ 32 div 128 < 128 ^ k"
proof -
  let ?o = "ucast (ucast v :: u_int) :: u_long"
  have u: "unat (ucast v :: u_int) = unat v mod 2 ^ 32" by (simp only: unat_ucast_mod) simp
  then have o: "unat ?o = unat v mod 2 ^ 32" by (simp only: unat_ucast_mod) simp
  have "ucast ?o = (ucast v :: u_int)" by (simp only: word_unat_eq_iff unat_ucast_mod) simp
  moreover obtain k where k: "encoded_oid_len (ucast v) = Suc k"
    using encoded_oid_len_bounds(1) [of "ucast v"] by (cases "encoded_oid_len (ucast v)") auto
  moreover have "unat v mod 2 ^ 32 div 128 < 128 ^ k"
    using encoded_oid_len_bounds(3) [of "ucast v"] unfolding k u by (simp add: div_less_iff_less_mult mult.commute)
  ultimately show ?thesis
    using that [of k] by (simp only: asn_subid_bytes_def Let_def put_subid_last o)
qed

lemma length_subid_bytes [simp]: "length (asn_subid_bytes v) = encoded_oid_len (ucast v)"
  by (rule subid_bytes_groups [of v]) simp


lemma parse_subid_cont:
  assumes "unat u = w div 128 ^ k" "w < 2 ^ 25" "k < len"
  shows "asn_parse_subid (cont_groups k w @ x # rest) len u
       = asn_parse_subid (x # rest) (len - k) (word_of_nat w)"
  using assms
proof (induction k arbitrary: u len)
  case 0
  have "u = word_of_nat w" using 0 by (simp only: word_unat_eq_iff unat_word_of_nat) simp
  then show ?case by simp
next
  case (Suc k)
  let ?b = "word_of_nat (w div 128 ^ k mod 128 + 128) :: u_char"
  have b: "unat ?b = w div 128 ^ k mod 128 + 128" by (simp only: unat_word_of_nat) simp
  have hi: "?b AND 0x80 \<noteq> 0" unfolding and_80 b by simp
  have lo: "unat (?b AND NOT 0x80) = w div 128 ^ k mod 128" unfolding and_not_80 b by simp
  have d: "w div 128 ^ Suc k = w div 128 ^ k div 128" by (simp add: div_mult2_eq [symmetric] mult.commute)
  have le: "w div 128 ^ k \<le> w" by simp
  have u25: "unat u \<le> w div 128 ^ k" using Suc.prems(1) d by simp
  have u2: "unat (push_bit 7 u + ucast (?b AND NOT 0x80)) = w div 128 ^ k"
  proof -
    have "unat u * 2 ^ 7 < 2 ^ LENGTH(64)" using order_trans [OF u25 le] Suc.prems(2) by simp
    then have "unat (push_bit 7 u) = unat u * 2 ^ 7" by (rule unat_push_bit)
    then have p: "unat (push_bit 7 u) = w div 128 ^ k div 128 * 128" using Suc.prems(1) d by simp
    have c: "unat (ucast (?b AND NOT 0x80) :: u_long) = w div 128 ^ k mod 128" by (simp only: unat_ucast_byte lo)
    have "w div 128 ^ k div 128 * 128 + w div 128 ^ k mod 128 < 2 ^ LENGTH(64)"
      using le_less_trans [OF le Suc.prems(2)] by (simp only: div_mult_mod_eq) simp
    then show ?thesis by (simp only: unat_word_ariths p c mod_less div_mult_mod_eq)
  qed
  have small: "\<not> u > drop_bit 7 MAX_SUBID"
    using order_trans [OF u25 le] Suc.prems(2) by (simp add: word_less_nat_alt)
  have IH: "asn_parse_subid (cont_groups k w @ x # rest) (len - 1) (push_bit 7 u + ucast (?b AND NOT 0x80))
      = asn_parse_subid (x # rest) (len - 1 - k) (word_of_nat w)"
    using Suc.prems by (intro Suc.IH [OF u2]) auto
  have "0 < len - 1" using Suc.prems by simp
  then show ?case using IH small hi by (simp only: cont_groups.simps append_Cons asn_parse_subid.simps if_False Let_def if_True simp_thms) simp
qed

lemma parse_subid_last:
  assumes "unat u < 2 ^ 25" "n < 128"
  shows "asn_parse_subid (word_of_nat n # rest) len u = Ret (rest, len - 1, word_of_nat (unat u * 128 + n), word_of_nat n)"
proof -
  let ?b = "word_of_nat n :: u_char"
  have b: "unat ?b = n" using assms(2) by (simp only: unat_word_of_nat) simp
  have lo: "unat (?b AND NOT 0x80) = n" unfolding and_not_80 b using assms(2) by simp
  have hi: "?b AND 0x80 = 0" unfolding and_80 b by (rule assms(2))
  have small: "\<not> u > drop_bit 7 MAX_SUBID" using assms(1) by (simp add: word_less_nat_alt)
  have "unat u * 2 ^ 7 < 2 ^ LENGTH(64)" using assms(1) by simp
  then have p: "unat (push_bit 7 u) = unat u * 128" using unat_push_bit [of u 7] by simp
  have c: "unat (ucast (?b AND NOT 0x80) :: u_long) = n" by (simp only: unat_ucast_byte lo)
  have "unat u * 128 + n < 2 ^ LENGTH(64)" using assms by simp
  then have "push_bit 7 u + ucast (?b AND NOT 0x80) = word_of_nat (unat u * 128 + n)"
    by (simp only: word_unat_eq_iff unat_word_ariths p c mod_less unat_word_of_nat)
  then show ?thesis using small hi by (simp only: asn_parse_subid.simps if_False Let_def simp_thms)
qed

lemma parse_subid_bytes:
  assumes "unat v < 2 ^ 32" "encoded_oid_len (ucast v) \<le> len"
  shows "\<exists>b. asn_parse_subid (asn_subid_bytes v @ rest) len 0 = Ret (rest, len - encoded_oid_len (ucast v), v, b)
    \<and> b AND 0x80 = 0"
proof (rule subid_bytes_groups [of v])
  fix k
  assume k: "asn_subid_bytes v = cont_groups k (unat v mod 2 ^ 32 div 128) @ [word_of_nat (unat v mod 2 ^ 32 mod 128)]"
    "encoded_oid_len (ucast v) = Suc k" "unat v mod 2 ^ 32 div 128 < 128 ^ k"
  let ?w = "unat v div 128" and ?n = "unat v mod 128"
  have m: "unat v mod 2 ^ 32 = unat v" using assms(1) by simp
  have w: "?w < 2 ^ 25" using assms(1) by (simp add: div_less_iff_less_mult)
  have "unat (0 :: u_long) = ?w div 128 ^ k" using k(3) m by simp
  then have 1: "asn_parse_subid (cont_groups k ?w @ word_of_nat ?n # rest) len 0
      = asn_parse_subid (word_of_nat ?n # rest) (len - k) (word_of_nat ?w)"
    using w assms(2) k(2) by (intro parse_subid_cont) auto
  have uw: "unat (word_of_nat ?w :: u_long) = ?w" using w by (simp only: unat_word_of_nat) simp
  have 2: "asn_parse_subid (word_of_nat ?n # rest) (len - k) (word_of_nat ?w)
      = Ret (rest, len - k - 1, word_of_nat (?w * 128 + ?n), word_of_nat ?n)"
    using parse_subid_last [of "word_of_nat ?w" ?n rest "len - k"] w unfolding uw by simp
  have "(word_of_nat (?w * 128 + ?n) :: u_long) = v" by (simp only: div_mult_mod_eq) simp
  moreover have "(word_of_nat ?n :: u_char) AND 0x80 = 0" unfolding and_80 unat_word_of_nat by simp
  ultimately show ?thesis using 1 2 k(1,2) m by simp
qed

lemma parse_objid_loop_build:
  assumes "\<forall>v \<in> set vs. unat v < 2 ^ 32" "length vs \<le> left" "1 + length subs + length vs \<le> cap"
  shows "asn_parse_objid_loop cap (length (concat (map asn_subid_bytes vs))) left (concat (map asn_subid_bytes vs) @ rest) subs
       = Ret (rest, 0, subs @ vs)"
  using assms
proof (induction vs arbitrary: left subs)
  case Nil
  show ?case by (subst asn_parse_objid_loop.simps) simp
next
  case (Cons v vs)
  let ?tl = "concat (map asn_subid_bytes vs)"
  have v: "unat v < 2 ^ 32" "\<not> v > MAX_SUBID" using Cons.prems by (simp_all add: word_less_nat_alt)
  obtain b where b: "asn_parse_subid (asn_subid_bytes v @ ?tl @ rest) (encoded_oid_len (ucast v) + length ?tl) 0
       = Ret (?tl @ rest, length ?tl, v, b)" "b AND 0x80 = 0"
    using parse_subid_bytes [OF v(1), of "encoded_oid_len (ucast v) + length ?tl" "?tl @ rest"] by auto
  have "asn_parse_objid_loop cap (length ?tl) (left - 1) (?tl @ rest) (subs @ [v]) = Ret (rest, 0, (subs @ [v]) @ vs)"
    using Cons.prems by (intro Cons.IH) auto
  then show ?case
    using b v(2) Cons.prems encoded_oid_len_bounds(1) [of "ucast v"]
    by (subst asn_parse_objid_loop.simps) (simp del: length_concat)
qed


definition oid_encodable :: "u_long list \<Rightarrow> bool" where
  "oid_encodable objid \<longleftrightarrow> 2 \<le> length objid \<and> (\<forall>v \<in> set objid. unat v < 2 ^ 32)"

lemma objid_first:
  assumes "asn_objid_first (a # b # cs) = Some (f, n)" "unat a < 2 ^ 32" "unat b < 2 ^ 32"
  shows "unat f < 2 ^ 32" "n = 2 + length cs" "asn_split_first f = (a, b)"
proof -
  have h: "a \<le> 2" "\<not> (40 \<le> b \<and> a < 2)" "b \<le> 0xFFFFFFFF - a * 40" "f = a * 40 + b" "n = 2 + length cs"
    using assms(1) by (auto simp: asn_objid_first_def split: if_splits)
  show "n = 2 + length cs" by (rule h(5))
  have "unat a \<le> 2" using h(1) by (simp add: word_le_nat_alt)
  then have "unat a = 0 \<or> unat a = 1 \<or> unat a = 2" by linarith
  then have a: "a = 0 \<or> a = 1 \<or> a = 2" by (simp only: word_unat_eq_iff) simp
  have ub: "unat b \<le> 0xFFFFFFFF - unat a * 40"
    using a h(3) by (auto simp: word_le_nat_alt)
  have ua: "unat (a * 40) = unat a * 40" using a by auto
  then have uf: "unat f = unat a * 40 + unat b"
    unfolding h(4) using a ub by (simp only: unat_word_ariths(1)) auto
  then show "unat f < 2 ^ 32" using ub a by auto
  have lt: "a < 2 \<Longrightarrow> unat b < 40" using h(2) by (auto simp: word_le_nat_alt)
  have f: "f = 0x2B \<longleftrightarrow> unat f = 43" "f < 40 \<longleftrightarrow> unat f < 40" "f < 80 \<longleftrightarrow> unat f < 80"
    by (simp_all add: word_unat_eq_iff word_less_nat_alt)
  consider "a = 0" | "a = 1" "unat b = 3" | "a = 1" "unat b \<noteq> 3" | "a = 2" using a by blast
  then show "asn_split_first f = (a, b)"
  proof cases
    case 1
    then have "f = b" "unat f < 40" using lt h(4) by simp_all
    then show ?thesis using 1 unfolding asn_split_first_def f by simp
  next
    case 2
    then have "b = 3" by (simp add: word_unat_eq_iff)
    then show ?thesis using 2 h(4) by (simp add: asn_split_first_def)
  next
    case 3
    have "f \<noteq> 0x2B" "\<not> f < 40" "f < 80" unfolding f using 3 lt uf by auto
    moreover have "f - 40 = b" using 3 h(4) by simp
    ultimately show ?thesis using 3 by (simp only: asn_split_first_def if_False if_True)
  next
    case 4
    have "f \<noteq> 0x2B" "\<not> f < 40" "\<not> f < 80" unfolding f using 4 uf by auto
    moreover have "f - 80 = b" using 4 h(4) by simp
    ultimately show ?thesis using 4 by (simp only: asn_split_first_def if_False)
  qed
qed

lemma ucast_check_overflow_u: "(ucast (check_overflow_u v) :: u_int) = ucast v"
proof -
  have m: "0xffffffff = (mask 32 :: u_long)" by (simp add: mask_eq_exp_minus_1)
  have "unat (v AND 0xffffffff) mod 2 ^ LENGTH(32) = unat v mod 2 ^ LENGTH(32)"
    unfolding m unat_and_mask by simp
  then have "(ucast (v AND 0xffffffff) :: u_int) = ucast v" by (simp only: word_unat_eq_iff unat_ucast_mod)
  then show ?thesis by (simp only: check_overflow_u_def split: if_split) simp
qed

lemma asn_objid_roundtrip:
  assumes "asn_build_objid dl ASN_OBJECT_ID objid = Ret (bs, dl')" "oid_encodable objid"
    "length objid \<le> cap" "cap < 2 ^ 64" "m < 2 ^ 31"
  shows "asn_parse_objid (bs @ rest) (length bs + m) cap = Ret (rest, m, ASN_OBJECT_ID, objid)"
    and "length bs + dl' = dl" "length bs \<le> 639"
proof -
  obtain a b cs where o: "objid = a # b # cs" using assms(2) by (auto simp: oid_encodable_def numeral_2_eq_2 Suc_le_length_iff)
  have small: "unat a < 2 ^ 32" "unat b < 2 ^ 32" "\<forall>v \<in> set cs. unat v < 2 ^ 32"
    using assms(2) o by (auto simp: oid_encodable_def)
  obtain f n where f: "asn_objid_first objid = Some (f, n)"
    using assms(1) by (auto simp: asn_build_objid_def split: option.splits)
  note ff = objid_first [OF f [unfolded o] small(1,2)]
  let ?vals = "f # cs"
  let ?body = "concat (map asn_subid_bytes ?vals)"
  have cf: "check_overflow_u f = f" using ff(1) by (simp add: check_overflow_u_def word_less_nat_alt)
  have lb: "length ?body = sum_list (map (\<lambda>v. encoded_oid_len (ucast (check_overflow_u v))) ?vals)"
    by (simp only: length_concat map_map o_def length_subid_bytes ucast_check_overflow_u)
  have vals: "drop 2 objid = cs" "\<not> n \<le> 1" using o ff(2) by simp_all
  obtain hdr dl0 where h: "n \<le> 128" "asn_build_header dl ASN_OBJECT_ID (length ?body) = Ret (hdr, dl0)" "length ?body \<le> dl0"
    "bs = hdr @ ?body" "dl' = dl0 - length ?body"
    using assms(1) f vals unfolding lb
    by (auto simp: asn_build_objid_def cbind_eq_Ret header_check_Ret Let_def cf split: if_splits)
  have "sum_list (map length (map asn_subid_bytes vs)) \<le> 5 * length vs" for vs
    by (induction vs) (use encoded_oid_len_bounds(2) in \<open>simp_all add: add_mono\<close>)
  from this [of ?vals] have len: "length ?body \<le> 635"
    using h(1) ff(2) unfolding length_concat by simp
  show "length bs + dl' = dl" "length bs \<le> 639" using h(3-5) asn_build_header_Ret [OF h(2)] len by auto
  have pos: "length ?body \<noteq> 0" using encoded_oid_len_bounds(1) [of "ucast f"] by simp
  have open': "asn_open (\<lambda>t. t = ASN_OBJECT_ID) (hdr @ (?body @ rest)) (length bs + m) =
      Ret (?body @ rest, length ?body, ASN_OBJECT_ID, length hdr)"
    using h(4) len by (intro asn_open_build [OF h(2)]) auto
  have sub: "size_sub (length bs + m) (c_int (length ?body) + int (length hdr)) = m"
  proof -
    have "c_int (length ?body) = int (length ?body)" using len by (intro c_int_small) simp
    then show ?thesis using h(4) len assms(5) asn_build_header_Ret [OF h(2)] by (simp only:) (subst size_sub_add_nat, auto)
  qed
  have c1: "size_sub cap 1 = cap - 1" using size_sub_nat [of 1 cap] assms(3,4) o by simp
  have loop: "asn_parse_objid_loop cap (length ?body) (size_sub cap 1) (?body @ rest) [] = Ret (rest, 0, [] @ ?vals)"
    unfolding c1 using assms(3) o ff(1) small(3) by (intro parse_objid_loop_build) auto
  show "asn_parse_objid (bs @ rest) (length bs + m) cap = Ret (rest, m, ASN_OBJECT_ID, objid)"
    using open' loop sub pos assms(3) o ff(3) unfolding asn_parse_objid_def h(4)
    by (simp only: append_assoc cbind.simps prod.case Let_def) simp
qed

section \<open>64-bit integers\<close>

text \<open>The value of a pair of 32-bit halves, and the shift of a byte into it.\<close>

definition halves :: "'a::len word \<times> 'a word \<Rightarrow> nat" where
  "halves hl = unat (fst hl) * 2 ^ 32 + unat (snd hl)"

definition halves_ok :: "'a::len word \<times> 'a word \<Rightarrow> bool" where
  "halves_ok hl \<longleftrightarrow> unat (fst hl) < 2 ^ 32 \<and> unat (snd hl) < 2 ^ 32"

lemma shift_arith:
  assumes "l < (2 :: nat) ^ 32" "b < 256"
  shows "((h mod 2 ^ 24) * 256 + l div 2 ^ 24) * 2 ^ 32 + ((l mod 2 ^ 24) * 256 + b) = ((h * 2 ^ 32 + l) * 256 + b) mod 2 ^ 64"
proof -
  define q r where "q = l div 2 ^ 24" and "r = l mod 2 ^ 24"
  have l: "l = q * 2 ^ 24 + r" "r < 2 ^ 24" by (simp_all add: q_def r_def)
  have q: "q < 256" using assms(1) by (simp add: q_def div_less_iff_less_mult)
  define p s where "p = h div 2 ^ 24" and "s = h mod 2 ^ 24"
  have h: "h = p * 2 ^ 24 + s" "s < 2 ^ 24" by (simp_all add: p_def s_def)
  have "(h * 2 ^ 32 + l) * 256 + b = p * 2 ^ 64 + ((s * 256 + q) * 2 ^ 32 + (r * 256 + b))"
    unfolding h l by simp
  moreover have "(s * 256 + q) * 2 ^ 32 + (r * 256 + b) < 2 ^ 64" using h(2) q l(2) assms(2) by simp
  ultimately show ?thesis unfolding q_def [symmetric] r_def [symmetric] s_def [symmetric]
    by (simp only: mod_mult_self3 mod_less)
qed

lemma shift_in64_step:
  fixes hl :: "'a::len word \<times> 'a word"
  assumes "halves_ok hl" "32 \<le> LENGTH('a)"
  shows "halves (shift_in64 hl b) = (halves hl * 256 + unat b) mod 2 ^ 64 \<and> halves_ok (shift_in64 hl b)"
proof -
  obtain h l where hl: "hl = (h, l)" by (cases hl)
  have lt: "unat h < 2 ^ 32" "unat l < 2 ^ 32" using assms(1) by (auto simp: halves_ok_def hl)
  have w: "(2 :: nat) ^ 32 \<le> 2 ^ LENGTH('a)" using assms(2) by (intro power_increasing) simp_all
  have m: "0x00FFFFFF = (mask 24 :: 'a word)" by (simp add: mask_eq_exp_minus_1)
  have m2: "0xFF000000 = (push_bit 24 (mask 8) :: 'a word)" by (simp add: mask_eq_exp_minus_1 push_bit_eq_mult)
  have hi: "unat (0x00FFFFFF AND h) = unat h mod 2 ^ 24" unfolding m by (subst and.commute) (rule unat_and_mask)
  have lo: "unat (l AND 0x00FFFFFF) = unat l mod 2 ^ 24" unfolding m by (rule unat_and_mask)
  have "drop_bit 24 (l AND 0xFF000000) = drop_bit 24 l AND mask 8"
    unfolding m2 by (rule bit_eqI) (auto simp: bit_drop_bit_eq bit_and_iff bit_push_bit_iff bit_mask_iff dest: bit_imp_le_length)
  moreover have "unat l div 2 ^ 24 < 256" using lt(2) by (simp add: div_less_iff_less_mult)
  ultimately have top: "unat (drop_bit 24 (l AND 0xFF000000)) = unat l div 2 ^ 24"
    by (simp only: unat_and_mask unat_drop_bit) simp
  have b: "unat (ucast b :: 'a word) = unat b"
    using w by (intro unat_ucast_fits unat_byte_less) simp
  have r24: "unat h mod 2 ^ 24 < 2 ^ 24" "unat l mod 2 ^ 24 < 2 ^ 24" by simp_all
  have 1: "unat (push_bit 8 (0x00FFFFFF AND h) OR drop_bit 24 (l AND 0xFF000000))
      = (unat h mod 2 ^ 24) * 256 + unat l div 2 ^ 24"
    using top hi lt r24 w \<open>unat l div 2 ^ 24 < 256\<close> by (subst unat_push_or) (simp_all only:, simp_all)
  have 2: "unat (push_bit 8 (l AND 0x00FFFFFF) OR ucast b) = (unat l mod 2 ^ 24) * 256 + unat b"
  proof -
    have "x < 2 ^ 24 \<Longrightarrow> y < 256 \<Longrightarrow> x * 2 ^ 8 + y < 2 ^ 32" for x y :: nat by simp
    from this [OF r24(2) unat_byte] have "(unat l mod 2 ^ 24) * 2 ^ 8 + unat b < 2 ^ 32" .
    then have "(unat l mod 2 ^ 24) * 2 ^ 8 + unat b < 2 ^ LENGTH('a)" using w by (rule less_le_trans)
    then show ?thesis using lo b by (subst unat_push_or) (simp_all only:, simp_all)
  qed
  have bd: "x < 2 ^ 24 \<Longrightarrow> y < 256 \<Longrightarrow> x * 256 + y < 2 ^ 32" for x y :: nat by simp
  show ?thesis
    using shift_arith [OF lt(2) unat_byte, of "unat h" b] bd [OF r24(1) \<open>unat l div 2 ^ 24 < 256\<close>]
      bd [OF r24(2) unat_byte [of b]]
    unfolding halves_def halves_ok_def shift_in64_def hl fst_conv snd_conv 1 2 by simp
qed

lemma shift_in64_fold:
  fixes hl :: "'a::len word \<times> 'a word"
  assumes "halves_ok hl" "32 \<le> LENGTH('a)"
  shows "halves (foldl shift_in64 hl bs) = (halves hl * 256 ^ length bs + be_val bs) mod 2 ^ 64
    \<and> halves_ok (foldl shift_in64 hl bs)"
  using assms(1)
proof (induction bs arbitrary: hl)
  case Nil
  have "halves hl < 2 ^ 64" using Nil by (auto simp: halves_def halves_ok_def)
  then show ?case using Nil by simp
next
  case (Cons b bs)
  note s = shift_in64_step [OF Cons.prems assms(2), of b]
  have "((x mod m) * k + y) mod m = (x * k + y) mod m" for x y k m :: nat
    by (metis mod_add_left_eq mod_mult_left_eq)
  then show ?case using Cons.IH [of "shift_in64 hl b"] s by (simp add: algebra_simps)
qed


text \<open>The contents the encoder of the unsigned 64-bit types writes: the value, without unnecessary leading bytes.\<close>

definition u64_contents :: "u_long \<Rightarrow> bytes" where
  "u64_contents value =
     (if drop_bit 63 value \<noteq> 0 then 0 # asn_emit64_loop 8 value
      else let (n, v) = asn_trunc_loop top9 8 value in asn_emit64_loop n v)"

lemma u64_contents:
  "be_val (u64_contents value) = unat value" "1 \<le> length (u64_contents value)" "length (u64_contents value) \<le> 9"
  "length (u64_contents value) = 9 \<Longrightarrow> hd (u64_contents value) = 0"
proof -
  have "be_val (u64_contents value) = unat value \<and> 1 \<le> length (u64_contents value) \<and> length (u64_contents value) \<le> 9
    \<and> (length (u64_contents value) = 9 \<longrightarrow> hd (u64_contents value) = 0)"
  proof (cases "drop_bit 63 value \<noteq> 0")
    case True
    then show ?thesis using be_val_emit [of 8 "value"] by (simp only: u64_contents_def if_True) simp
  next
    case False
    then have "unat value div 2 ^ 63 = 0" by (metis unat_drop_bit unat_0)
    then have "unat value < 2 ^ 63" by (simp only: div_eq_0_iff) simp
    then obtain n w where "asn_trunc_loop top9 8 value = (n, w)" "1 \<le> n" "n \<le> 8"
      "be_val (asn_emit64_loop n w) = unat value" by (rule trunc_unsigned)
    then show ?thesis using False by (simp only: u64_contents_def if_False Let_def prod.case length_emit) simp
  qed
  then show "be_val (u64_contents value) = unat value" "1 \<le> length (u64_contents value)" "length (u64_contents value) \<le> 9"
    "length (u64_contents value) = 9 \<Longrightarrow> hd (u64_contents value) = 0" by auto
qed

lemma asn_build_unsigned_int64_eq:
  "asn_build_unsigned_int64 dl t cp 16 =
     (let c = u64_contents (push_bit 32 (c64_high cp) OR c64_low cp) in
      cbind (if t = ASN_OPAQUE_COUNTER64 \<or> t = ASN_OPAQUE_U64 then
               cbind (asn_build_header_check (asn_build_header dl ASN_OPAQUE (length c + 3)) (length c + 3))
                 (\<lambda>(hdr, datalength). Ret (hdr @ [ASN_OPAQUE_TAG1, t, word_of_nat (length c)], datalength - 3))
             else asn_build_header_check (asn_build_header dl t (length c)) (length c)) (\<lambda>(hdr, datalength).
        Ret (hdr @ c, datalength - length c)))"
proof -
  have m: "push_bit 52 0xff8 = (top9 :: u_long)" by (simp add: push_bit_eq_mult)
  show ?thesis
    by (simp only: asn_build_unsigned_int64_def u64_contents_def m)
      (auto simp: Let_def length_emit simp del: push_bit_numeral split: prod.splits)
qed

lemma halves_inject:
  "halves_ok p \<Longrightarrow> halves_ok q \<Longrightarrow> halves p = halves q \<Longrightarrow> p = q"
proof -
  assume ok: "halves_ok p" "halves_ok q" and e: "halves p = halves q"
  have "a = a' \<and> b = b'" if "a * 2 ^ 32 + b = a' * 2 ^ 32 + b'" "b < 2 ^ 32" "b' < (2 :: nat) ^ 32" for a b a' b'
  proof -
    have "x < 2 ^ 32 \<Longrightarrow> (y * 2 ^ 32 + x) div 2 ^ 32 = y" for x y :: nat by simp
    then have "a = a'" using that by metis
    then show ?thesis using that(1) by simp
  qed
  from this [OF e [unfolded halves_def]] show ?thesis using ok
    by (simp only: halves_ok_def prod_eq_iff word_unat_eq_iff)
qed

lemma asn_u64_value_build:
  assumes "be_val c = halves (c64_high cp, c64_low cp)" "c64_wf cp"
    "length c \<le> 9" "length c = 9 \<longrightarrow> hd c = 0" "1 \<le> length c"
  shows "asn_u64_value (pre @ c @ rest) (c @ rest) (length c) t dl
    = Ret (rest, size_sub dl (int (length c) + int (length pre)), t, cp)"
proof -
  let ?p = "foldl shift_in64 (0, 0) c :: u_long \<times> u_long"
  have ok: "halves_ok (c64_high cp, c64_low cp)" using assms(2) by (simp add: halves_ok_def c64_wf_def)
  have "halves (c64_high cp, c64_low cp) < 2 ^ 64" using ok by (auto simp: halves_def halves_ok_def)
  then have "halves ?p = halves (c64_high cp, c64_low cp) \<and> halves_ok ?p"
    using shift_in64_fold [of "(0, 0) :: u_long \<times> u_long" c] assms(1) by (simp add: halves_ok_def halves_def)
  then have p: "?p = (c64_high cp, c64_low cp)" using ok halves_inject by blast
  have loop: "asn_parse_u64_loop (length c) (c @ rest) 0 0 = Ret (rest, c64_high cp, c64_low cp)"
    by (subst asn_parse_u64_loop_eq) (simp_all add: p)
  have chk: "check_overflow_u (c64_high cp) = c64_high cp" "check_overflow_u (c64_low cp) = c64_low cp"
    using assms(2) by (auto simp: check_overflow_u_def c64_wf_def word_less_nat_alt)
  have d: "length (pre @ c @ rest) - length (c @ rest) = length pre" by simp
  show ?thesis
  proof (cases "length c = 9")
    case True
    then obtain r where "c = 0 # r" using assms(4) by (cases c) auto
    then show ?thesis using True loop chk unfolding asn_u64_value_def d by simp
  next
    case False
    then show ?thesis using assms(3) loop chk unfolding asn_u64_value_def d by simp
  qed
qed

lemma value_of_halves:
  assumes "c64_wf cp"
  shows "unat (push_bit 32 (c64_high cp) OR c64_low cp) = halves (c64_high cp, c64_low cp)"
  unfolding halves_def fst_conv snd_conv
proof (rule unat_push_or)
  have lt: "unat (c64_high cp) < 2 ^ 32" "unat (c64_low cp) < 2 ^ 32" using assms by (auto simp: c64_wf_def)
  then show "unat (c64_low cp) < 2 ^ 32" by simp
  show "unat (c64_high cp) * 2 ^ 32 + unat (c64_low cp) < 2 ^ LENGTH(64)" using lt by simp
qed

lemma asn_unsigned_int64_roundtrip:
  assumes "asn_build_unsigned_int64 dl t cp 16 = Ret (bs, dl')" "c64_wf cp"
    "t = ASN_COUNTER64 \<or> t = ASN_OPAQUE_COUNTER64 \<or> t = ASN_OPAQUE_U64" "m < 2 ^ 31"
  shows "\<exists>m'. asn_parse_unsigned_int64 (bs @ rest) (length bs + m) 16 = Ret (rest, m', t, cp) \<and> (t = ASN_COUNTER64 \<longrightarrow> m' = m)"
    and "length bs + dl' = dl" "length bs \<le> 16"
proof -
  define c where "c = u64_contents (push_bit 32 (c64_high cp) OR c64_low cp)"
  have c: "be_val c = halves (c64_high cp, c64_low cp)" "1 \<le> length c" "length c \<le> 9" "length c = 9 \<longrightarrow> hd c = 0"
    using u64_contents [of "push_bit 32 (c64_high cp) OR c64_low cp"] value_of_halves [OF assms(2)] unfolding c_def by auto
  have fits: "c64_wf cp" by fact
  have "(\<exists>m'. asn_parse_unsigned_int64 (bs @ rest) (length bs + m) 16 = Ret (rest, m', t, cp) \<and> (t = ASN_COUNTER64 \<longrightarrow> m' = m))
    \<and> length bs + dl' = dl \<and> length bs \<le> 16"
  proof (cases "t = ASN_COUNTER64")
    case True
    obtain hdr dl0 where h: "asn_build_header dl t (length c) = Ret (hdr, dl0)" "length c \<le> dl0"
      "bs = hdr @ c" "dl' = dl0 - length c"
      using assms(1) True unfolding asn_build_unsigned_int64_eq c_def [symmetric] Let_def
      by (auto simp: cbind_eq_Ret header_check_Ret)
    have open': "asn_open (\<lambda>t. t = ASN_COUNTER64 \<or> t = ASN_OPAQUE) (hdr @ (c @ rest)) (length bs + m)
        = Ret (c @ rest, length c, t, length hdr)"
      using h(3) c(3) True by (intro asn_open_build [OF h(1)]) auto
    have "size_sub (length bs + m) (int (length c) + int (length hdr)) = m"
      using h(3) c(3) assms(4) asn_build_header_Ret [OF h(1)] by (subst size_sub_add_nat) auto
    then have "asn_parse_unsigned_int64 (bs @ rest) (length bs + m) 16 = Ret (rest, m, t, cp)"
      using open' True asn_u64_value_build [OF c(1) assms(2) c(3,4,2), of hdr rest t "length bs + m"]
      unfolding asn_parse_unsigned_int64_def h(3) by simp
    then show ?thesis using h c(3) asn_build_header_Ret [OF h(1)] by auto
  next
    case False
    then have t: "t = ASN_OPAQUE_COUNTER64 \<or> t = ASN_OPAQUE_U64" using assms(3) by simp
    let ?w = "[ASN_OPAQUE_TAG1, t, word_of_nat (length c)]"
    obtain hdr dl0 where h: "asn_build_header dl ASN_OPAQUE (length c + 3) = Ret (hdr, dl0)" "length c + 3 \<le> dl0"
      "bs = hdr @ ?w @ c" "dl' = dl0 - 3 - length c"
      using assms(1) t unfolding asn_build_unsigned_int64_eq c_def [symmetric] Let_def
      by (auto simp: cbind_eq_Ret header_check_Ret)
    have open': "asn_open (\<lambda>t. t = ASN_COUNTER64 \<or> t = ASN_OPAQUE) (hdr @ (?w @ c @ rest)) (length bs + m)
        = Ret (?w @ c @ rest, length c + 3, ASN_OPAQUE, length hdr)"
      using h(3) c(3) by (intro asn_open_build [OF h(1)]) auto
    have "asn_build_length 1 (length c) = Ret ([word_of_nat (length c)], 0)" using c(3) by (simp add: asn_build_length_def)
    then have "asn_parse_nlength ([word_of_nat (length c)] @ c @ rest) (length c + 1) = Ret (c @ rest, length c)"
      using c(3) by (intro asn_parse_nlength_build) auto
    moreover have "size_sub (length c + 3) 2 = length c + 1" using size_sub_nat [of 2 "length c + 3"] c(3) by simp
    ultimately have wrapped: "asn_open_wrapped (?w @ c @ rest) (length c + 3) = Ret (c @ rest, length c)"
      unfolding asn_open_wrapped_def by simp
    have "asn_parse_unsigned_int64 (bs @ rest) (length bs + m) 16
        = Ret (rest, size_sub (length c + 3) (int (length c) + int (length (hdr @ ?w))), t, cp)"
      using open' wrapped t c(3) asn_u64_value_build [OF c(1) assms(2) c(3,4,2), of "hdr @ ?w" rest t "length c + 3"]
      unfolding asn_parse_unsigned_int64_def h(3) by auto
    then show ?thesis using h c(3) asn_build_header_Ret [OF h(1)] t by auto
  qed
  then show "\<exists>m'. asn_parse_unsigned_int64 (bs @ rest) (length bs + m) 16 = Ret (rest, m', t, cp) \<and> (t = ASN_COUNTER64 \<longrightarrow> m' = m)"
    "length bs + dl' = dl" "length bs \<le> 16" by blast+
qed

section \<open>The contract of an encoder and a decoder\<close>

text \<open>
  Encoding a sequence of objects one behind the other, and decoding objects until \<open>*datalength\<close> is used
  up (with fuel: a decoder that does not progress ends in \<open>Null\<close>).
\<close>

fun encode_seq :: "(nat \<Rightarrow> 'x \<Rightarrow> (bytes \<times> nat) cres) \<Rightarrow> nat \<Rightarrow> 'x list \<Rightarrow> (bytes \<times> nat) cres" where
  "encode_seq build dl [] = Ret ([], dl)"
| "encode_seq build dl (x # xs) =
     cbind (build dl x) (\<lambda>(b, dl). cbind (encode_seq build dl xs) (\<lambda>(bs, dl). Ret (b @ bs, dl)))"

fun decode_seq :: "(bytes \<Rightarrow> nat \<Rightarrow> (bytes \<times> nat \<times> 'x) cres) \<Rightarrow> nat \<Rightarrow> bytes \<Rightarrow> nat \<Rightarrow> (bytes \<times> 'x list) cres" where
  "decode_seq parse 0 data dl = (if dl = 0 then Ret (data, []) else Null)"
| "decode_seq parse (Suc n) data dl =
     (if dl = 0 then Ret (data, [])
      else cbind (parse data dl) (\<lambda>(data, dl, x). cbind (decode_seq parse n data dl) (\<lambda>(data, xs). Ret (data, x # xs))))"

locale tlv_codec =
  fixes build :: "nat \<Rightarrow> 'x \<Rightarrow> (bytes \<times> nat) cres"
    and parse :: "bytes \<Rightarrow> nat \<Rightarrow> (bytes \<times> nat \<times> 'x) cres"
    and valid :: "'x \<Rightarrow> bool"
  assumes budget: "valid x \<Longrightarrow> build dl x = Ret (bs, dl') \<Longrightarrow> bs \<noteq> [] \<and> length bs + dl' = dl"
    and parse_build: "valid x \<Longrightarrow> build dl x = Ret (bs, dl') \<Longrightarrow> m < 2 ^ 31 \<Longrightarrow>
      parse (bs @ rest) (length bs + m) = Ret (rest, m, x)"
begin

lemma seq_budget:
  "list_all valid xs \<Longrightarrow> encode_seq build dl xs = Ret (bs, dl') \<Longrightarrow> length xs \<le> length bs \<and> length bs + dl' = dl"
proof (induction xs arbitrary: dl bs)
  case (Cons x xs)
  then obtain b d bs' where b: "build dl x = Ret (b, d)" "encode_seq build d xs = Ret (bs', dl')" "bs = b @ bs'"
    by (auto simp: cbind_eq_Ret)
  have "b \<noteq> [] \<and> length b + d = dl" using Cons.prems b by (intro budget) auto
  moreover have "length xs \<le> length bs' \<and> length bs' + dl' = d" using Cons.prems b by (intro Cons.IH) auto
  ultimately show ?case using b(3) by (cases b) auto
qed simp

lemma parse_unique:
  assumes "valid x" "valid y" "build dl x = Ret (bs, dl1)" "build dl y = Ret (bs, dl2)"
  shows "x = y"
  using parse_build [OF assms(1,3), of 0 "[]"] parse_build [OF assms(2,4), of 0 "[]"] by simp

lemma decode_encode_seq:
  assumes "list_all valid xs" "encode_seq build dl xs = Ret (bs, dl')" "length xs \<le> fuel" "length bs < 2 ^ 31"
  shows "decode_seq parse fuel (bs @ rest) (length bs) = Ret (rest, xs)"
  using assms
proof (induction xs arbitrary: dl bs fuel)
  case Nil
  then show ?case by (cases fuel) auto
next
  case (Cons x xs)
  then obtain b d bs' where b: "build dl x = Ret (b, d)" "encode_seq build d xs = Ret (bs', dl')" "bs = b @ bs'"
    by (auto simp: cbind_eq_Ret)
  obtain n where n: "fuel = Suc n" using Cons.prems by (cases fuel) auto
  have "b \<noteq> []" using budget [of x dl b d] Cons.prems b by simp
  moreover have "parse (b @ bs' @ rest) (length b + length bs') = Ret (bs' @ rest, length bs', x)"
    using Cons.prems b by (intro parse_build) auto
  moreover have "decode_seq parse n (bs' @ rest) (length bs') = Ret (rest, xs)"
    using Cons.prems b n by (intro Cons.IH) auto
  ultimately show ?case using b(3) n by simp
qed

end

definition int_valid :: "u_char \<times> int \<Rightarrow> bool" where
  "int_valid x \<longleftrightarrow> fst x = ASN_INTEGER \<and> - (2 ^ 31) \<le> snd x \<and> snd x < 2 ^ 31"

interpretation int_codec: tlv_codec "\<lambda>dl x. asn_build_int dl (fst x) (snd x) 8" "\<lambda>data dl. asn_parse_int data dl 8" int_valid
proof
  fix x dl bs dl'
  assume v: "int_valid x" "asn_build_int dl (fst x) (snd x) 8 = Ret (bs, dl')"
  then have *: "asn_build_int dl ASN_INTEGER (snd x) 8 = Ret (bs, dl')" "- (2 ^ 31) \<le> snd x" "snd x < 2 ^ 31"
    "x = (ASN_INTEGER, snd x)" by (auto simp: int_valid_def prod_eq_iff)
  have "length bs + dl' = dl" using asn_int_roundtrip(2) [OF *(1-3), of 0] by simp
  moreover have "bs \<noteq> []" using asn_int_roundtrip(1) [OF *(1-3), of 0 "[]"] by (auto simp: asn_parse_int_def asn_open_def)
  ultimately show "bs \<noteq> [] \<and> length bs + dl' = dl" by simp
  fix m rest assume m: "m < (2 :: nat) ^ 31"
  show "asn_parse_int (bs @ rest) (length bs + m) 8 = Ret (rest, m, x)"
    using asn_int_roundtrip(1) [OF *(1-3) m] *(4) by metis
qed


definition uint_valid :: "u_char \<times> u_long \<Rightarrow> bool" where
  "uint_valid x \<longleftrightarrow> fst x \<in> {ASN_COUNTER, ASN_GAUGE, ASN_TIMETICKS, ASN_UINTEGER} \<and> unat (snd x) < 2 ^ 32"

interpretation uint_codec: tlv_codec "\<lambda>dl x. asn_build_unsigned_int dl (fst x) (snd x) 8"
  "\<lambda>data dl. asn_parse_unsigned_int data dl 8" uint_valid
proof
  fix x dl bs dl'
  assume v: "uint_valid x" and b: "asn_build_unsigned_int dl (fst x) (snd x) 8 = Ret (bs, dl')"
  have u: "unat (snd x) < 2 ^ 32"
    "fst x = ASN_COUNTER \<or> fst x = ASN_GAUGE \<or> fst x = ASN_TIMETICKS \<or> fst x = ASN_UINTEGER"
    using v by (auto simp: uint_valid_def)
  have "bs \<noteq> []" using asn_unsigned_int_roundtrip(1) [OF b u, of 0 "[]"] by (auto simp: asn_parse_unsigned_int_def asn_open_def)
  then show "bs \<noteq> [] \<and> length bs + dl' = dl" using asn_unsigned_int_roundtrip(2) [OF b u, of 0] by simp
  fix m rest assume m: "m < (2 :: nat) ^ 31"
  show "asn_parse_unsigned_int (bs @ rest) (length bs + m) 8 = Ret (rest, m, x)"
    using asn_unsigned_int_roundtrip(1) [OF b u m] by simp
qed

definition string_valid :: "u_char \<times> bytes \<Rightarrow> bool" where
  "string_valid x \<longleftrightarrow> fst x \<in> {ASN_OCTET_STR, ASN_IPADDRESS, ASN_OPAQUE, ASN_NSAP} \<and> length (snd x) \<le> 0xFFFF"

interpretation string_codec: tlv_codec "\<lambda>dl x. asn_build_string dl (fst x) (Some (snd x)) (length (snd x))"
  "\<lambda>data dl. asn_parse_string data dl 0xFFFF" string_valid
proof
  fix x dl bs dl'
  assume v: "string_valid x" and b: "asn_build_string dl (fst x) (Some (snd x)) (length (snd x)) = Ret (bs, dl')"
  have u: "length (snd x) \<le> 0xFFFF" "length (snd x) \<le> 0xFFFF"
    "fst x = ASN_OCTET_STR \<or> fst x = ASN_IPADDRESS \<or> fst x = ASN_OPAQUE \<or> fst x = ASN_NSAP"
    using v by (auto simp: string_valid_def)
  have "bs \<noteq> []" using asn_string_roundtrip(1) [OF b u, of 0 "[]"] by (auto simp: asn_parse_string_def asn_open_def)
  then show "bs \<noteq> [] \<and> length bs + dl' = dl" using asn_string_roundtrip(2) [OF b u, of 0] by simp
  fix m rest assume m: "m < (2 :: nat) ^ 31"
  show "asn_parse_string (bs @ rest) (length bs + m) 0xFFFF = Ret (rest, m, x)"
    using asn_string_roundtrip(1) [OF b u m] by simp
qed

definition bitstring_valid :: "u_char \<times> bytes \<Rightarrow> bool" where
  "bitstring_valid x \<longleftrightarrow> fst x = ASN_BIT_STR \<and> length (snd x) \<le> 0xFFFF"

interpretation bitstring_codec: tlv_codec "\<lambda>dl x. asn_build_bitstring dl (fst x) (Some (snd x)) (length (snd x))"
  "\<lambda>data dl. asn_parse_bitstring data dl 0xFFFF" bitstring_valid
proof
  fix x dl bs dl'
  assume v: "bitstring_valid x" and b': "asn_build_bitstring dl (fst x) (Some (snd x)) (length (snd x)) = Ret (bs, dl')"
  have u: "length (snd x) \<le> 0xFFFF" "length (snd x) \<le> 0xFFFF" and x: "x = (ASN_BIT_STR, snd x)"
    using v by (auto simp: bitstring_valid_def prod_eq_iff)
  have b: "asn_build_bitstring dl ASN_BIT_STR (Some (snd x)) (length (snd x)) = Ret (bs, dl')"
    using b' v by (simp add: bitstring_valid_def)
  have "bs \<noteq> []" using asn_bitstring_roundtrip(1) [OF b u, of 0 "[]"] by (auto simp: asn_parse_bitstring_def asn_open_def)
  then show "bs \<noteq> [] \<and> length bs + dl' = dl" using asn_bitstring_roundtrip(2) [OF b u, of 0] by simp
  fix m rest assume m: "m < (2 :: nat) ^ 31"
  show "asn_parse_bitstring (bs @ rest) (length bs + m) 0xFFFF = Ret (rest, m, x)"
    using asn_bitstring_roundtrip(1) [OF b u m] x by metis
qed

interpretation null_codec: tlv_codec asn_build_null asn_parse_null "\<lambda>_. True"
proof
  fix x dl bs dl'
  assume b: "asn_build_null dl x = Ret (bs, dl')"
  have "bs \<noteq> []" using asn_null_roundtrip(1) [OF b, of 0 "[]"] by (auto simp: asn_parse_null_def asn_open_def)
  then show "bs \<noteq> [] \<and> length bs + dl' = dl" using asn_null_roundtrip(2) [OF b, of 0] by simp
  fix m rest assume m: "m < (2 :: nat) ^ 31"
  show "asn_parse_null (bs @ rest) (length bs + m) = Ret (rest, m, x)"
    by (rule asn_null_roundtrip(1) [OF b m])
qed

definition objid_valid :: "u_char \<times> u_long list \<Rightarrow> bool" where
  "objid_valid x \<longleftrightarrow> fst x = ASN_OBJECT_ID \<and> oid_encodable (snd x) \<and> length (snd x) \<le> 128"

interpretation objid_codec: tlv_codec "\<lambda>dl x. asn_build_objid dl (fst x) (snd x)"
  "\<lambda>data dl. asn_parse_objid data dl 128" objid_valid
proof
  fix x dl bs dl'
  assume v: "objid_valid x" and b': "asn_build_objid dl (fst x) (snd x) = Ret (bs, dl')"
  have u: "oid_encodable (snd x)" "length (snd x) \<le> 128" "(128 :: nat) < 2 ^ 64" and x: "x = (ASN_OBJECT_ID, snd x)"
    using v by (auto simp: objid_valid_def prod_eq_iff)
  have b: "asn_build_objid dl ASN_OBJECT_ID (snd x) = Ret (bs, dl')" using b' v by (simp add: objid_valid_def)
  have "bs \<noteq> []" using asn_objid_roundtrip(1) [OF b u, of 0 "[]"] by (auto simp: asn_parse_objid_def asn_open_def)
  then show "bs \<noteq> [] \<and> length bs + dl' = dl" using asn_objid_roundtrip(2) [OF b u, of 0] by simp
  fix m rest assume m: "m < (2 :: nat) ^ 31"
  show "asn_parse_objid (bs @ rest) (length bs + m) 128 = Ret (rest, m, x)"
    using asn_objid_roundtrip(1) [OF b u m] x by metis
qed

definition counter64_valid :: "u_char \<times> counter64 \<Rightarrow> bool" where
  "counter64_valid x \<longleftrightarrow> fst x = ASN_COUNTER64 \<and> c64_wf (snd x)"

interpretation counter64_codec: tlv_codec "\<lambda>dl x. asn_build_unsigned_int64 dl (fst x) (snd x) 16"
  "\<lambda>data dl. asn_parse_unsigned_int64 data dl 16" counter64_valid
proof
  fix x dl bs dl'
  assume v: "counter64_valid x" and b: "asn_build_unsigned_int64 dl (fst x) (snd x) 16 = Ret (bs, dl')"
  have u: "c64_wf (snd x)" "fst x = ASN_COUNTER64 \<or> fst x = ASN_OPAQUE_COUNTER64 \<or> fst x = ASN_OPAQUE_U64"
    using v by (auto simp: counter64_valid_def)
  have "bs \<noteq> []" using asn_unsigned_int64_roundtrip(1) [OF b u, of 0 "[]"] by (auto simp: asn_parse_unsigned_int64_def asn_open_def)
  then show "bs \<noteq> [] \<and> length bs + dl' = dl" using asn_unsigned_int64_roundtrip(2) [OF b u, of 0] by simp
  fix m rest assume m: "m < (2 :: nat) ^ 31"
  show "asn_parse_unsigned_int64 (bs @ rest) (length bs + m) 16 = Ret (rest, m, x)"
    using asn_unsigned_int64_roundtrip(1) [OF b u m, of rest] v by (auto simp: counter64_valid_def)
qed

section \<open>Properties\<close>

text \<open>Evaluating the encoders' loops.\<close>

lemma asn_loop_numerals:
  "asn_trunc_loop m (numeral k) w =
     (if (w AND m = 0 \<or> w AND m = m) \<and> (numeral k :: nat) > 1 then asn_trunc_loop m (pred_numeral k) (push_bit 8 w) else (numeral k, w))"
  "asn_emit64_loop (numeral k) w = ucast (drop_bit 56 w) # asn_emit64_loop (pred_numeral k) (push_bit 8 w)"
  by (simp_all only: numeral_eq_Suc asn_trunc_loop.simps asn_emit64_loop.simps)

lemmas asn_build_eval = asn_build_int_def asn_build_unsigned_int_def asn_build_unsigned_int64_def
  emit_loop_eq asn_loop_numerals check_overflow_s_def check_overflow_u_def
  asn_build_header_def asn_build_length_def asn_build_header_check_def Let_def

text \<open>
  Round trip of the integer encoders: an INTEGER in the 32-bit range and an unsigned value below
  \<open>2 ^ 32\<close> of any of the application types are read back exactly, whatever follows in the buffer, with
  \<open>*datalength\<close> counting exactly what follows; the encoders take at most 12 bytes and account for them.
\<close>

theorem asn_integers_roundtrip:
  assumes "asn_build_int dl ASN_INTEGER v 8 = Ret (bs, dl')" "- (2 ^ 31) \<le> v" "v < 2 ^ 31"
    "asn_build_unsigned_int dlu t u 8 = Ret (us, dlu')" "unat u < 2 ^ 32"
    "t \<in> {ASN_COUNTER, ASN_GAUGE, ASN_TIMETICKS, ASN_UINTEGER}" "m < 2 ^ 31"
  shows "asn_parse_int (bs @ rest) (length bs + m) 8 = Ret (rest, m, ASN_INTEGER, v)
    \<and> length bs + dl' = dl \<and> length bs \<le> 12
    \<and> asn_parse_unsigned_int (us @ rest) (length us + m) 8 = Ret (rest, m, t, u)
    \<and> length us + dlu' = dlu \<and> length us \<le> 12"
  using asn_int_roundtrip [OF assms(1-3,7)] asn_unsigned_int_roundtrip [OF assms(4,5) _ assms(7)] assms(6) by auto

theorem asn_integers_roundtrip_witness:
  "asn_parse_int [2, 2, 0xFF, 0x7F, 9] (length [2, 2, 0xFF, 0x7F :: u_char] + 1) 8 = Ret ([9], 1, 2, - 129)"
proof -
  have "asn_build_int 100 2 (- 129) 8 = Ret ([2, 2, 0xFF, 0x7F], 96)"
    "asn_build_unsigned_int 100 0x41 200 8 = Ret ([0x41, 2, 0, 200], 96)"
    by (simp_all add: asn_build_eval)
  from asn_integers_roundtrip [OF this(1) _ _ this(2), where m = 1 and rest = "[9]"]
  show ?thesis by simp
qed

text \<open>
  C15. Round trip of the OID encoder: every OID of 2 to 128 sub-identifiers below \<open>2 ^ 32\<close> that the encoder
  accepts is read back exactly into an array of 128 elements, the combined first two sub-identifiers included.
\<close>

theorem asn_objid_parse_build:
  assumes "asn_build_objid dl ASN_OBJECT_ID objid = Ret (bs, dl')" "2 \<le> length objid" "length objid \<le> 128"
    "\<forall>v \<in> set objid. unat v < 2 ^ 32" "m < 2 ^ 31"
  shows "asn_parse_objid (bs @ rest) (length bs + m) 128 = Ret (rest, m, ASN_OBJECT_ID, objid)
    \<and> length bs + dl' = dl"
  using objid_codec.parse_build [of "(ASN_OBJECT_ID, objid)" dl bs dl' m rest]
    objid_codec.budget [of "(ASN_OBJECT_ID, objid)" dl bs dl'] assms
  by (simp add: objid_valid_def oid_encodable_def)

theorem asn_objid_parse_build_witness:
  "asn_parse_objid [6, 7, 0x2B, 6, 0x8F, 0xFF, 0xFF, 0xFF, 0x7F]
     (length [6, 7, 0x2B, 6, 0x8F, 0xFF, 0xFF, 0xFF, 0x7F :: u_char]) 128 = Ret ([], 0, 6, [1, 3, 6, 4294967295])"
proof -
  have "asn_build_objid 20 6 [1, 3, 6, 4294967295] = Ret ([6, 7, 0x2B, 6, 0x8F, 0xFF, 0xFF, 0xFF, 0x7F], 11)" by code_simp
  from asn_objid_parse_build [OF this, where m = 0 and rest = "[]"] show ?thesis by simp
qed

text \<open>
  Round trip of strings, bit strings, NULLs and 64-bit counters: octet strings (and the types carried
  like them) and bit strings of up to 65535 bytes, NULL-like objects of every tag, and counters whose
  halves fit in 32 bits are read back exactly. The two Opaque-wrapped counters give back tag and value.
\<close>

theorem asn_values_roundtrip:
  assumes "asn_build_string dls ts (Some s) (length s) = Ret (ss, dls')"
    "ts \<in> {ASN_OCTET_STR, ASN_IPADDRESS, ASN_OPAQUE, ASN_NSAP}" "length s \<le> 0xFFFF"
    "asn_build_bitstring dlb ASN_BIT_STR (Some b) (length b) = Ret (bb, dlb')" "length b \<le> 0xFFFF"
    "asn_build_null dln tn = Ret (nn, dln')"
    "asn_build_unsigned_int64 dlc tc cp 16 = Ret (cc, dlc')" "c64_wf cp"
    "tc \<in> {ASN_COUNTER64, ASN_OPAQUE_COUNTER64, ASN_OPAQUE_U64}" "m < 2 ^ 31"
  shows "asn_parse_string (ss @ rest) (length ss + m) 0xFFFF = Ret (rest, m, ts, s)
    \<and> asn_parse_bitstring (bb @ rest) (length bb + m) 0xFFFF = Ret (rest, m, ASN_BIT_STR, b)
    \<and> asn_parse_null (nn @ rest) (length nn + m) = Ret (rest, m, tn)
    \<and> (\<exists>m'. asn_parse_unsigned_int64 (cc @ rest) (length cc + m) 16 = Ret (rest, m', tc, cp) \<and> (tc = ASN_COUNTER64 \<longrightarrow> m' = m))"
  using asn_string_roundtrip(1) [OF assms(1,3,3) _ assms(10)] asn_bitstring_roundtrip(1) [OF assms(4,5,5,10)]
    asn_null_roundtrip(1) [OF assms(6,10)] asn_unsigned_int64_roundtrip(1) [OF assms(7,8) _ assms(10)] assms(2,9)
  by auto

theorem asn_values_roundtrip_witness:
  "asn_parse_unsigned_int64 [0x46, 9, 0, 0xFF, 0, 0, 0, 0, 0, 0, 7]
       (length [0x46, 9, 0, 0xFF, 0, 0, 0, 0, 0, 0, 7 :: u_char]) 16
     = Ret ([], 0, 0x46, \<lparr>c64_high = 0xFF000000, c64_low = 7\<rparr>)"
proof -
  have b: "asn_build_string 9 4 (Some [1, 2]) (length [1, 2 :: u_char]) = Ret ([4, 2, 1, 2], 5)"
    "asn_build_bitstring 9 3 (Some [1, 2]) (length [1, 2 :: u_char]) = Ret ([3, 2, 1, 2], 5)"
    "asn_build_null 9 5 = Ret ([5, 0], 7)" by code_simp+
  have b4: "asn_build_unsigned_int64 20 0x46 \<lparr>c64_high = 0xFF000000, c64_low = 7\<rparr> 16
      = Ret ([0x46, 9, 0, 0xFF, 0, 0, 0, 0, 0, 0, 7], 9)"
    by (simp add: asn_build_eval)
  have "c64_wf \<lparr>c64_high = 0xFF000000, c64_low = 7\<rparr>" by (simp add: c64_wf_def)
  from asn_values_roundtrip [OF b(1) _ _ b(2) _ b(3) b4 this, where m = 0 and rest = "[]"]
  show ?thesis by simp
qed

text \<open>
  Sequences: objects of one kind encoded one behind the other are decoded to the same list, for the OIDs
  (and, by the same contract, for every other type), and different OIDs have different encodings.
\<close>

theorem asn_objid_sequence:
  assumes "list_all objid_valid xs" "encode_seq (\<lambda>dl x. asn_build_objid dl (fst x) (snd x)) dl xs = Ret (bs, dl')"
    "length bs < 2 ^ 31"
  shows "decode_seq (\<lambda>data dl. asn_parse_objid data dl 128) (length xs) (bs @ rest) (length bs) = Ret (rest, xs)
    \<and> length bs + dl' = dl"
  using objid_codec.decode_encode_seq [OF assms(1,2) order_refl assms(3)] objid_codec.seq_budget [OF assms(1,2)] by simp

theorem asn_objid_sequence_witness:
  "decode_seq (\<lambda>data dl. asn_parse_objid data dl 128) (length [(6 :: u_char, [1, 3 :: u_long]), (6, [1, 3, 6])])
     ([6, 1, 0x2B, 6, 2, 0x2B, 6] @ [0]) (length [6, 1, 0x2B, 6, 2, 0x2B, 6 :: u_char])
     = Ret ([0], [(6, [1, 3]), (6, [1, 3, 6])])"
proof -
  have e: "encode_seq (\<lambda>dl x. asn_build_objid dl (fst x) (snd x)) 9 [(6, [1, 3]), (6, [1, 3, 6])]
     = Ret ([6, 1, 0x2B, 6, 2, 0x2B, 6], 2)" by code_simp
  have "list_all objid_valid [(6, [1, 3]), (6, [1, 3, 6])]" by (simp add: objid_valid_def oid_encodable_def)
  moreover have "length [6, 1, 0x2B, 6, 2, 0x2B, 6 :: u_char] < 2 ^ 31" by simp
  ultimately show ?thesis using asn_objid_sequence [OF _ e] by blast
qed

end
