(* ===== verification/AsnRbuild.thy ===== *)
theory AsnRbuild
  imports AsnRoundtrip
begin

text \<open>
  The reverse encoding half of \<^verbatim>\<open>snmplib/asn1.c\<close> (\<open>NETSNMP_USE_REVERSE_ASNENCODING\<close>), the one
  the library uses by default: an object is written from its last byte to its first, downwards from the end of
  a buffer that grows at the front, and \<open>snmp_realloc\<close> of \<^verbatim>\<open>snmplib/tools.c\<close>. The buffer is its bytes
  (\<open>*pkt_len\<close> is their number) and the number \<open>*offset\<close> of bytes written so far. The memory allocator
  is a parameter: for a size, \<open>None\<close> or the (indeterminate) contents of the new block. \<open>Null\<close> is the
  return value 0 (the callers give up, so the buffer is dropped), \<open>Overrun\<close> a store outside the buffer. That
  \<open>*offset \<le> *pkt_len\<close> is an invariant, so the subtraction \<open>*pkt_len - *offset\<close> does not wrap; no buffer
  reaches \<open>2 ^ 63\<close> bytes, so the sizes do not wrap either.
\<close>

section \<open>The growing buffer\<close>

type_synonym allocator = "nat \<Rightarrow> (nat \<Rightarrow> u_char) option"

record rbuf =
  rb_pkt :: bytes
  rb_off :: nat

definition snmp_realloc_size :: "nat \<Rightarrow> nat" where
  "snmp_realloc_size buf_len =
     (if buf_len \<le> 255 then buf_len + 256
      else if buf_len > 255 \<and> buf_len \<le> 8191 then buf_len * 2
      else buf_len + 8192)"

definition snmp_realloc :: "allocator \<Rightarrow> bytes \<Rightarrow> bytes option" where
  "snmp_realloc alloc buf =
     (let new_buf_len = snmp_realloc_size (length buf) in
      case alloc new_buf_len of
        None \<Rightarrow> None
      | Some blk \<Rightarrow> Some (buf @ map blk [length buf..<new_buf_len]))"

definition asn_realloc :: "allocator \<Rightarrow> rbuf \<Rightarrow> rbuf cres" where
  "asn_realloc alloc s =
     (let old_pkt_len = length (rb_pkt s) in
      case snmp_realloc alloc (rb_pkt s) of
        None \<Rightarrow> Null
      | Some pkt \<Rightarrow>
          let pkt = take (length pkt - old_pkt_len) pkt @ take old_pkt_len pkt; \<comment> \<open>\<open>memmove\<close>\<close>
              pkt = replicate (length pkt - old_pkt_len) 0x20 @ drop (length pkt - old_pkt_len) pkt \<comment> \<open>\<open>memset\<close>\<close>
          in Ret (s\<lparr>rb_pkt := pkt\<rparr>))"

text \<open>\<open>*(*pkt + *pkt_len - (++*offset)) = byte\<close>\<close>

definition asn_put :: "u_char \<Rightarrow> rbuf \<Rightarrow> rbuf cres" where
  "asn_put byte s =
     (if rb_off s < length (rb_pkt s) then
        Ret (s\<lparr>rb_pkt := (rb_pkt s)[length (rb_pkt s) - (rb_off s + 1) := byte], rb_off := rb_off s + 1\<rparr>)
      else Overrun)"

text \<open>The guarded store, spelled out at every byte of the integer encoders and as \<open>store_byte\<close>.\<close>

definition store_byte :: "allocator \<Rightarrow> bool \<Rightarrow> u_char \<Rightarrow> rbuf \<Rightarrow> rbuf cres" where
  "store_byte alloc r byte s =
     cbind (if length (rb_pkt s) - rb_off s < 1 then (if r then asn_realloc alloc s else Null) else Ret s) (asn_put byte)"

lemma length_realloc:
  "asn_realloc alloc s = Ret s' \<Longrightarrow> length (rb_pkt s') = snmp_realloc_size (length (rb_pkt s)) \<and> rb_off s' = rb_off s"
  by (auto simp: asn_realloc_def snmp_realloc_def snmp_realloc_size_def Let_def split: option.splits if_splits)

lemma realloc_size_grows: "n + 256 \<le> snmp_realloc_size n"
  by (simp add: snmp_realloc_size_def)

text \<open>\<open>while ((*pkt_len - *offset) < n) if (!(r && asn_realloc(pkt, pkt_len))) return 0;\<close>\<close>

function asn_need :: "allocator \<Rightarrow> bool \<Rightarrow> nat \<Rightarrow> rbuf \<Rightarrow> rbuf cres" where
  "asn_need alloc r n s =
     (if length (rb_pkt s) - rb_off s < n then
        (if r then (case asn_realloc alloc s of Overrun \<Rightarrow> Overrun | Null \<Rightarrow> Null | Ret s' \<Rightarrow> asn_need alloc r n s')
         else Null)
      else Ret s)"
  by pat_completeness auto
termination
proof (relation "measure (\<lambda>(alloc, r, n, s). (n + rb_off s) - length (rb_pkt s))", goal_cases)
  case (2 alloc r n s s')
  then show ?case using length_realloc [of alloc s s'] realloc_size_grows [of "length (rb_pkt s)"] by auto
qed simp

declare asn_need.simps [simp del]

section \<open>Lengths and headers\<close>

function asn_rbuild_length_loop :: "allocator \<Rightarrow> bool \<Rightarrow> nat \<Rightarrow> rbuf \<Rightarrow> (nat \<times> rbuf) cres" where
  "asn_rbuild_length_loop alloc r len s =
     (if len > 0xff then
        (case store_byte alloc r (word_of_nat len) s of
           Overrun \<Rightarrow> Overrun | Null \<Rightarrow> Null | Ret s \<Rightarrow> asn_rbuild_length_loop alloc r (drop_bit 8 len) s)
      else Ret (len, s))"
  by pat_completeness auto
termination
  by (relation "measure (\<lambda>(alloc, r, len, s). len)") (auto simp: drop_bit_eq_div)

declare asn_rbuild_length_loop.simps [simp del]

definition asn_realloc_rbuild_length :: "allocator \<Rightarrow> bool \<Rightarrow> nat \<Rightarrow> rbuf \<Rightarrow> rbuf cres" where
  "asn_realloc_rbuild_length alloc r len s =
     (if len \<le> 0x7f then store_byte alloc r (word_of_nat len) s
      else cbind (asn_rbuild_length_loop alloc r len s) (\<lambda>(len, s').
        cbind (asn_need alloc r 2 s') (\<lambda>s'.
          cbind (asn_put (word_of_nat len) s') (\<lambda>s'.
            asn_put (word_of_nat (rb_off s' - rb_off s) OR 0x80) s'))))"

definition asn_realloc_rbuild_header :: "allocator \<Rightarrow> bool \<Rightarrow> u_char \<Rightarrow> nat \<Rightarrow> rbuf \<Rightarrow> rbuf cres" where
  "asn_realloc_rbuild_header alloc r type len s =
     cbind (asn_realloc_rbuild_length alloc r len s) (store_byte alloc r type)"

definition asn_realloc_rbuild_sequence :: "allocator \<Rightarrow> bool \<Rightarrow> u_char \<Rightarrow> nat \<Rightarrow> rbuf \<Rightarrow> rbuf cres" where
  "asn_realloc_rbuild_sequence alloc r type len s = asn_realloc_rbuild_header alloc r type len s"

text \<open>\<open>_asn_realloc_build_header_check\<close>\<close>

definition asn_realloc_build_header_check :: "nat \<Rightarrow> rbuf \<Rightarrow> rbuf cres" where
  "asn_realloc_build_header_check typedlen s = (if length (rb_pkt s) < typedlen then Null else Ret s)"

text \<open>
  The common end of the encoders: header and check. The integer encoders check the offset's advance with the
  header included, the others the contents' length.
\<close>

definition asn_rbuild_finish :: "allocator \<Rightarrow> bool \<Rightarrow> u_char \<Rightarrow> nat \<Rightarrow> rbuf \<Rightarrow> rbuf cres" where
  "asn_rbuild_finish alloc r type len s =
     cbind (asn_realloc_rbuild_header alloc r type len s) (asn_realloc_build_header_check len)"

definition asn_rbuild_finish_from :: "allocator \<Rightarrow> bool \<Rightarrow> u_char \<Rightarrow> nat \<Rightarrow> rbuf \<Rightarrow> rbuf cres" where
  "asn_rbuild_finish_from alloc r type start_offset s =
     cbind (asn_realloc_rbuild_header alloc r type (rb_off s - start_offset) s) (\<lambda>s.
       asn_realloc_build_header_check (rb_off s - start_offset) s)"

section \<open>Integers\<close>

text \<open>
  \<open>while (integer != testvalue)\<close>: \<open>testvalue\<close> is 0 or -1 as the sign of \<open>integer\<close>, which the arithmetic shift
  keeps.
\<close>

function asn_rbuild_int_loop :: "allocator \<Rightarrow> bool \<Rightarrow> int \<Rightarrow> rbuf \<Rightarrow> rbuf cres" where
  "asn_rbuild_int_loop alloc r integer s =
     (if integer \<noteq> (if integer < 0 then -1 else 0) then
        (case store_byte alloc r (word_of_int integer) s of
           Overrun \<Rightarrow> Overrun | Null \<Rightarrow> Null | Ret s \<Rightarrow> asn_rbuild_int_loop alloc r (drop_bit 8 integer) s)
      else Ret s)"
  by pat_completeness auto
termination
proof (relation "measure (\<lambda>(alloc, r, i, s). nat (if i < 0 then - i - 1 else i))", goal_cases)
  case (2 alloc r i s s')
  then have "(if drop_bit 8 i < 0 then - drop_bit 8 i - 1 else drop_bit 8 i) < (if i < 0 then - i - 1 else i)"
    "0 \<le> (if drop_bit 8 i < 0 then - drop_bit 8 i - 1 else drop_bit 8 i)"
    by (auto simp: drop_bit_eq_div split: if_splits)
  then show ?case by simp
qed simp

declare asn_rbuild_int_loop.simps [simp del]

text \<open>The last step: a byte is added when the top bit written is not the sign.\<close>

definition asn_rbuild_sign :: "allocator \<Rightarrow> bool \<Rightarrow> bool \<Rightarrow> rbuf \<Rightarrow> rbuf cres" where
  "asn_rbuild_sign alloc r neg s =
     (let top = rb_pkt s ! (length (rb_pkt s) - rb_off s) in
      if (top AND 0x80) \<noteq> (if neg then 0x80 else 0) then store_byte alloc r (if neg then 0xff else 0) s else Ret s)"

definition asn_realloc_rbuild_int :: "allocator \<Rightarrow> bool \<Rightarrow> u_char \<Rightarrow> int \<Rightarrow> nat \<Rightarrow> rbuf \<Rightarrow> rbuf cres" where
  "asn_realloc_rbuild_int alloc r type intp intsize s =
     (if intsize \<noteq> 8 then Null
      else let integer = check_overflow_s intp in
        cbind (store_byte alloc r (word_of_int integer) s) (\<lambda>s'.
          cbind (asn_rbuild_int_loop alloc r (drop_bit 8 integer) s') (\<lambda>s'.
            cbind (asn_rbuild_sign alloc r (integer < 0) s') (\<lambda>s'.
              asn_rbuild_finish_from alloc r type (rb_off s) s'))))"

function asn_rbuild_uint_loop :: "allocator \<Rightarrow> bool \<Rightarrow> u_long \<Rightarrow> nat \<Rightarrow> rbuf \<Rightarrow> (nat \<times> rbuf) cres" where
  "asn_rbuild_uint_loop alloc r integer count s =
     (if integer \<noteq> 0 then
        (case store_byte alloc r (ucast integer) s of
           Overrun \<Rightarrow> Overrun | Null \<Rightarrow> Null
         | Ret s \<Rightarrow> asn_rbuild_uint_loop alloc r (drop_bit 8 integer) (count + 1) s)
      else Ret (count, s))"
  by pat_completeness auto
termination
  by (relation "measure (\<lambda>(alloc, r, i, count, s). unat i)")
    (auto simp: unat_drop_bit word_gt_0 [symmetric] unat_gt_0 simp del: drop_bit_eq_div)

declare asn_rbuild_uint_loop.simps [simp del]

definition asn_realloc_rbuild_unsigned_int :: "allocator \<Rightarrow> bool \<Rightarrow> u_char \<Rightarrow> u_long \<Rightarrow> nat \<Rightarrow> rbuf \<Rightarrow> rbuf cres" where
  "asn_realloc_rbuild_unsigned_int alloc r type intp intsize s =
     (if intsize \<noteq> 8 then Null
      else let integer = check_overflow_u intp in
        cbind (store_byte alloc r (ucast integer) s) (\<lambda>s'.
          cbind (asn_rbuild_uint_loop alloc r (drop_bit 8 integer) 1 s') (\<lambda>(_, s').
            cbind (asn_rbuild_sign alloc r False s') (\<lambda>s'.
              asn_rbuild_finish_from alloc r type (rb_off s) s'))))"

section \<open>Strings, nulls and bit strings\<close>

text \<open>\<open>memcpy(*pkt + *pkt_len - *offset, str, strlength)\<close> after \<open>*offset += strlength\<close>.\<close>

definition asn_put_block :: "bytes \<Rightarrow> rbuf \<Rightarrow> rbuf cres" where
  "asn_put_block str s =
     (let off = rb_off s + length str; at = length (rb_pkt s) - off in
      if off \<le> length (rb_pkt s)
      then Ret (s\<lparr>rb_pkt := take at (rb_pkt s) @ str @ drop (at + length str) (rb_pkt s), rb_off := off\<rparr>)
      else Overrun)"

definition asn_realloc_rbuild_string ::
    "allocator \<Rightarrow> bool \<Rightarrow> u_char \<Rightarrow> bytes option \<Rightarrow> nat \<Rightarrow> rbuf \<Rightarrow> rbuf cres" where
  "asn_realloc_rbuild_string alloc r type str strlength s =
     (if str = None \<and> strlength > 0 then Null
      else cbind (asn_need alloc r strlength s) (\<lambda>s.
        cbind (case str of None \<Rightarrow> Ret [] | Some b \<Rightarrow> asn_copy b strlength) (\<lambda>body.
          cbind (asn_put_block body s) (asn_rbuild_finish alloc r type strlength))))"

definition asn_realloc_rbuild_null :: "allocator \<Rightarrow> bool \<Rightarrow> u_char \<Rightarrow> rbuf \<Rightarrow> rbuf cres" where
  "asn_realloc_rbuild_null alloc r type s = asn_realloc_rbuild_header alloc r type 0 s"

definition asn_realloc_rbuild_bitstring ::
    "allocator \<Rightarrow> bool \<Rightarrow> u_char \<Rightarrow> bytes option \<Rightarrow> nat \<Rightarrow> rbuf \<Rightarrow> rbuf cres" where
  "asn_realloc_rbuild_bitstring alloc r type str strlength s =
     (if str = None \<and> strlength > 0 then Null
      else cbind (asn_need alloc r strlength s) (\<lambda>s.
        cbind (case str of None \<Rightarrow> Ret [] | Some b \<Rightarrow> asn_copy b strlength) (\<lambda>body.
          cbind (asn_put_block body s) (asn_rbuild_finish alloc r type strlength))))"

section \<open>Object identifiers\<close>

function store_uint32_loop :: "allocator \<Rightarrow> bool \<Rightarrow> u_int \<Rightarrow> rbuf \<Rightarrow> rbuf cres" where
  "store_uint32_loop alloc r subid s =
     (if subid \<noteq> 0 then
        (case store_byte alloc r (ucast (subid OR 0x80)) s of
           Overrun \<Rightarrow> Overrun | Null \<Rightarrow> Null | Ret s \<Rightarrow> store_uint32_loop alloc r (drop_bit 7 subid) s)
      else Ret s)"
  by pat_completeness auto
termination
  by (relation "measure (\<lambda>(alloc, r, i, s). unat i)")
    (auto simp: unat_drop_bit word_gt_0 [symmetric] unat_gt_0 simp del: drop_bit_eq_div)

declare store_uint32_loop.simps [simp del]

definition store_uint32 :: "allocator \<Rightarrow> bool \<Rightarrow> u_int \<Rightarrow> rbuf \<Rightarrow> rbuf cres" where
  "store_uint32 alloc r subid s =
     cbind (store_byte alloc r (ucast (subid AND 0x7f)) s) (store_uint32_loop alloc r (drop_bit 7 subid))"

text \<open>\<open>for (i = objidlength - 1; i >= 2; i--)\<close>: the sub-identifiers from the last to the third.\<close>

fun asn_rbuild_subids :: "allocator \<Rightarrow> bool \<Rightarrow> u_long list \<Rightarrow> rbuf \<Rightarrow> rbuf cres" where
  "asn_rbuild_subids alloc r [] s = Ret s"
| "asn_rbuild_subids alloc r (x # xs) s =
     cbind (store_uint32 alloc r (ucast (check_overflow_u x)) s) (asn_rbuild_subids alloc r xs)"

definition asn_realloc_rbuild_objid :: "allocator \<Rightarrow> bool \<Rightarrow> u_char \<Rightarrow> u_long list \<Rightarrow> rbuf \<Rightarrow> rbuf cres" where
  "asn_realloc_rbuild_objid alloc r type objid s =
     cbind (if length objid = 0 then store_byte alloc r 0 s
            else if objid ! 0 > 2 then Null
            else if length objid = 1 then store_byte alloc r (ucast (40 * objid ! 0)) s
            else cbind (asn_rbuild_subids alloc r (rev (drop 2 objid)) s) (\<lambda>s.
              if objid ! 1 \<ge> 40 \<and> objid ! 0 < 2 \<or> objid ! 1 > 0xFFFFFFFF - objid ! 0 * 40 then Null
              else store_uint32 alloc r (ucast (objid ! 0 * 40 + objid ! 1)) s)) (\<lambda>s'.
       asn_rbuild_finish alloc r type (rb_off s' - rb_off s) s')"

section \<open>64-bit integers\<close>

text \<open>\<open>for (; count < 4; count++)\<close>: fills the rest of the low half.\<close>

fun asn_rbuild_fill :: "allocator \<Rightarrow> bool \<Rightarrow> u_char \<Rightarrow> nat \<Rightarrow> rbuf \<Rightarrow> rbuf cres" where
  "asn_rbuild_fill alloc r b 0 s = Ret s"
| "asn_rbuild_fill alloc r b (Suc n) s = cbind (store_byte alloc r b s) (asn_rbuild_fill alloc r b n)"

text \<open>The common end of the 64-bit encoders: the Opaque wrapper for the special tags.\<close>

definition asn_rbuild_opaque :: "allocator \<Rightarrow> bool \<Rightarrow> u_char \<Rightarrow> nat \<Rightarrow> rbuf \<Rightarrow> rbuf cres" where
  "asn_rbuild_opaque alloc r tag intsize s =
     cbind (asn_need alloc r 5 s) (\<lambda>s.
       cbind (asn_put (word_of_nat intsize) s) (\<lambda>s.
         cbind (asn_put tag s) (\<lambda>s.
           cbind (asn_put ASN_OPAQUE_TAG1 s) (asn_rbuild_finish alloc r ASN_OPAQUE (intsize + 3)))))"

definition asn_realloc_rbuild_unsigned_int64 ::
    "allocator \<Rightarrow> bool \<Rightarrow> u_char \<Rightarrow> counter64 \<Rightarrow> nat \<Rightarrow> rbuf \<Rightarrow> rbuf cres" where
  "asn_realloc_rbuild_unsigned_int64 alloc r type cp countersize s =
     (if countersize \<noteq> 16 then Null
      else let high = check_overflow_u (c64_high cp); low = check_overflow_u (c64_low cp) in
        cbind (store_byte alloc r (ucast low) s) (\<lambda>s'.
          cbind (asn_rbuild_uint_loop alloc r (drop_bit 8 low) 1 s') (\<lambda>(count, s').
            cbind (if high \<noteq> 0 then
                     cbind (asn_rbuild_fill alloc r 0 (4 - count) s') (\<lambda>s'.
                       cbind (store_byte alloc r (ucast high) s') (\<lambda>s'.
                         cbind (asn_rbuild_uint_loop alloc r (drop_bit 8 high) 1 s') (\<lambda>(_, s'). Ret s')))
                   else Ret s') (\<lambda>s'.
              cbind (asn_rbuild_sign alloc r False s') (\<lambda>s'.
                let intsize = rb_off s' - rb_off s in
                if type = ASN_OPAQUE_COUNTER64 \<or> type = ASN_OPAQUE_U64
                then asn_rbuild_opaque alloc r type intsize s'
                else asn_rbuild_finish alloc r type intsize s')))))"

text \<open>\<open>while (low != testvalue && count < 4)\<close> on the signed 32-bit low half.\<close>

function asn_rbuild_i64_low :: "allocator \<Rightarrow> bool \<Rightarrow> int \<Rightarrow> int \<Rightarrow> nat \<Rightarrow> rbuf \<Rightarrow> (nat \<times> rbuf) cres" where
  "asn_rbuild_i64_low alloc r testvalue low count s =
     (if low \<noteq> testvalue \<and> count < 4 then
        (case store_byte alloc r (word_of_int low) s of
           Overrun \<Rightarrow> Overrun | Null \<Rightarrow> Null
         | Ret s \<Rightarrow> asn_rbuild_i64_low alloc r testvalue (drop_bit 8 low) (count + 1) s)
      else Ret (count, s))"
  by pat_completeness auto
termination
  by (relation "measure (\<lambda>(alloc, r, t, low, count, s). 4 - count)") auto

declare asn_rbuild_i64_low.simps [simp del]

definition asn_realloc_rbuild_signed_int64 ::
    "allocator \<Rightarrow> bool \<Rightarrow> u_char \<Rightarrow> counter64 \<Rightarrow> nat \<Rightarrow> rbuf \<Rightarrow> rbuf cres" where
  "asn_realloc_rbuild_signed_int64 alloc r type cp countersize s =
     (let low = sint (ucast (c64_low cp) :: u_int); high = sint (ucast (c64_high cp) :: u_int);
          testvalue = (if high < 0 then -1 else 0 :: int); fill = (if testvalue = 0 then 0 else 0xff) in
      if countersize \<noteq> 16 then Null
      else cbind (store_byte alloc r (word_of_int low) s) (\<lambda>s'.
        cbind (asn_rbuild_i64_low alloc r testvalue (drop_bit 8 low) 1 s') (\<lambda>(count, s').
          cbind (if high \<noteq> testvalue then
                   cbind (asn_rbuild_fill alloc r fill (4 - count) s') (\<lambda>s'.
                     cbind (store_byte alloc r (word_of_int high) s')
                       (asn_rbuild_int_loop alloc r (drop_bit 8 high)))
                 else Ret s') (\<lambda>s'.
            cbind (asn_rbuild_sign alloc r (high < 0) s') (\<lambda>s'.
              asn_rbuild_opaque alloc r ASN_OPAQUE_I64 (rb_off s' - rb_off s) s')))))"

section \<open>The buffer as the bytes written so far\<close>

text \<open>
  The abstract view of the buffer: its last \<open>*offset\<close> bytes. \<open>prepends\<close> is the contract of every
  encoder: no store outside the buffer; failure only when the buffer may not grow or memory runs out;
  success puts the object's bytes in front of the earlier ones, which are kept.
\<close>

definition rb_wf :: "rbuf \<Rightarrow> bool" where
  "rb_wf s \<longleftrightarrow> rb_off s \<le> length (rb_pkt s)"

definition rb_bytes :: "rbuf \<Rightarrow> bytes" where
  "rb_bytes s = drop (length (rb_pkt s) - rb_off s) (rb_pkt s)"

definition can_grow :: "allocator \<Rightarrow> bool \<Rightarrow> bool" where
  "can_grow alloc r \<longleftrightarrow> r \<and> (\<forall>n. alloc n \<noteq> None)"

definition prepends :: "allocator \<Rightarrow> bool \<Rightarrow> rbuf \<Rightarrow> rbuf cres \<Rightarrow> bytes \<Rightarrow> bool" where
  "prepends alloc r s res bs = (case res of Overrun \<Rightarrow> False | Null \<Rightarrow> \<not> can_grow alloc r
     | Ret s' \<Rightarrow> rb_wf s' \<and> rb_bytes s' = bs @ rb_bytes s)"

lemma prepends_simps [simp]:
  "\<not> prepends alloc r s Overrun bs"
  "prepends alloc r s Null bs \<longleftrightarrow> \<not> can_grow alloc r"
  "prepends alloc r s (Ret s') bs \<longleftrightarrow> rb_wf s' \<and> rb_bytes s' = bs @ rb_bytes s"
  by (simp_all add: prepends_def)

lemma prepends_cong: "rb_bytes s = rb_bytes s' \<Longrightarrow> prepends alloc r s x bs = prepends alloc r s' x bs"
  by (cases x) simp_all

lemma length_rb_bytes: "rb_wf s \<Longrightarrow> length (rb_bytes s) = rb_off s"
  by (simp add: rb_wf_def rb_bytes_def)

lemma rb_off_Ret: "rb_wf s \<Longrightarrow> rb_wf s' \<Longrightarrow> rb_bytes s' = bs @ rb_bytes s \<Longrightarrow> rb_off s' = length bs + rb_off s"
  by (metis length_rb_bytes length_append)

lemma prepends_bind:
  assumes "prepends alloc r s m xs"
    and "\<And>s1. m = Ret s1 \<Longrightarrow> rb_wf s1 \<Longrightarrow> rb_bytes s1 = xs @ rb_bytes s \<Longrightarrow> prepends alloc r s1 (f s1) ys"
  shows "prepends alloc r s (cbind m f) (ys @ xs)"
  using assms(1) assms(2) by (cases m) (auto simp: prepends_def split: cres.splits)

text \<open>The contract as an interface of buffers that grow at the front.\<close>

locale front_buffer =
  fixes wf :: "'s \<Rightarrow> bool" and written :: "'s \<Rightarrow> bytes" and put :: "u_char \<Rightarrow> 's \<Rightarrow> 's cres" and grows :: bool
  assumes put: "wf s \<Longrightarrow> put b s = Null \<and> \<not> grows \<or> (\<exists>s'. put b s = Ret s' \<and> wf s' \<and> written s' = b # written s)"
begin

lemma put_all:
  "wf s \<Longrightarrow> fold (\<lambda>b m. cbind m (put b)) bs (Ret s) = Null \<and> \<not> grows
    \<or> (\<exists>s'. fold (\<lambda>b m. cbind m (put b)) bs (Ret s) = Ret s' \<and> wf s' \<and> written s' = rev bs @ written s)"
proof (induction bs arbitrary: s)
  case (Cons b bs)
  have null: "fold (\<lambda>b m. cbind m (put b)) bs Null = Null" by (induction bs) simp_all
  show ?case
  proof (cases "put b s")
    case (Ret s')
    then have "wf s' \<and> written s' = b # written s" using put [OF Cons.prems, of b] by auto
    then show ?thesis using Cons.IH [of s'] Ret by auto
  qed (use put [OF Cons.prems, of b] null in auto)
qed simp

end

lemma asn_put_prepends:
  "rb_off s < length (rb_pkt s) \<Longrightarrow> prepends alloc r s (asn_put b s) [b]"
proof -
  assume off: "rb_off s < length (rb_pkt s)"
  let ?i = "length (rb_pkt s) - (rb_off s + 1)"
  have "drop ?i ((rb_pkt s)[?i := b]) = b # drop (Suc ?i) (rb_pkt s)"
    using off by (simp add: Cons_nth_drop_Suc [symmetric] drop_update_swap)
  moreover have "Suc ?i = length (rb_pkt s) - rb_off s" using off by simp
  ultimately show ?thesis using off by (simp add: asn_put_def rb_wf_def rb_bytes_def)
qed

lemma asn_realloc_cases:
  assumes "rb_wf s"
  shows "case asn_realloc alloc s of Overrun \<Rightarrow> False | Null \<Rightarrow> \<not> can_grow alloc True
    | Ret s' \<Rightarrow> rb_wf s' \<and> rb_bytes s' = rb_bytes s \<and> rb_off s' = rb_off s
        \<and> length (rb_pkt s) + 256 \<le> length (rb_pkt s')"
proof (cases "asn_realloc alloc s")
  case Overrun
  then show ?thesis by (simp add: asn_realloc_def Let_def split: option.splits)
next
  case Null
  then show ?thesis by (auto simp: asn_realloc_def snmp_realloc_def Let_def can_grow_def split: option.splits)
next
  case (Ret s')
  let ?n = "length (rb_pkt s)" and ?m = "snmp_realloc_size (length (rb_pkt s))"
  have le: "?n + 256 \<le> ?m" by (rule realloc_size_grows)
  obtain blk where blk: "alloc ?m = Some blk"
    using Ret by (auto simp: asn_realloc_def snmp_realloc_def Let_def split: option.splits)
  have "rb_pkt s' = replicate (?m - ?n) 0x20 @ rb_pkt s" "rb_off s' = rb_off s"
    using Ret blk le by (auto simp: asn_realloc_def snmp_realloc_def Let_def)
  then show ?thesis using Ret assms le by (simp add: rb_wf_def rb_bytes_def)
qed

lemma store_byte_prepends: "rb_wf s \<Longrightarrow> prepends alloc r s (store_byte alloc r b s) [b]"
proof (cases "length (rb_pkt s) - rb_off s < 1")
  case False
  then show ?thesis using asn_put_prepends [of s] by (simp add: store_byte_def)
next
  case True
  assume wf: "rb_wf s"
  show ?thesis
  proof (cases r)
    case r: True
    show ?thesis
    proof (cases "asn_realloc alloc s")
      case (Ret s')
      then have s': "rb_bytes s' = rb_bytes s" "rb_off s' < length (rb_pkt s')"
        using asn_realloc_cases [OF wf, of alloc] wf by (auto simp: rb_wf_def)
      then have "prepends alloc r s' (asn_put b s') [b]" by (intro asn_put_prepends)
      then show ?thesis using True r Ret s'(1) by (simp add: store_byte_def prepends_def split: cres.splits)
    qed (use asn_realloc_cases [OF wf, of alloc] True r in \<open>simp_all add: store_byte_def\<close>)
  next
    case False
    then show ?thesis using True by (simp add: store_byte_def can_grow_def)
  qed
qed

interpretation store_buffer: front_buffer rb_wf rb_bytes "store_byte alloc r" "can_grow alloc r" for alloc r
proof
  fix s b
  assume "rb_wf s"
  from store_byte_prepends [OF this, of alloc r b]
  show "store_byte alloc r b s = Null \<and> \<not> can_grow alloc r
      \<or> (\<exists>s'. store_byte alloc r b s = Ret s' \<and> rb_wf s' \<and> rb_bytes s' = b # rb_bytes s)"
    by (cases "store_byte alloc r b s") simp_all
qed

lemma asn_need_prepends:
  "rb_wf s \<Longrightarrow> prepends alloc r s (asn_need alloc r n s) [] \<and>
     (\<forall>s'. asn_need alloc r n s = Ret s' \<longrightarrow> rb_off s + n \<le> length (rb_pkt s') \<and> rb_off s' = rb_off s)"
proof (induction alloc r n s rule: asn_need.induct)
  case (1 alloc r n s)
  note unfold = asn_need.simps [of alloc r n s]
  show ?case
  proof (cases "length (rb_pkt s) - rb_off s < n")
    case short: True
    show ?thesis
    proof (cases r)
      case True
      show ?thesis
      proof (cases "asn_realloc alloc s")
        case (Ret s')
        then have s': "rb_wf s'" "rb_bytes s' = rb_bytes s" "rb_off s' = rb_off s"
          using asn_realloc_cases [OF 1(2), of alloc] by auto
        have "asn_need alloc r n s = asn_need alloc r n s'" using unfold short True Ret by simp
        then show ?thesis using 1(1) [OF short True Ret s'(1)] s' prepends_cong [OF s'(2)] by simp
      next
        case Null
        then have "asn_need alloc r n s = Null" using unfold short True by simp
        then show ?thesis using asn_realloc_cases [OF 1(2), of alloc] Null True by simp
      next
        case Overrun
        then show ?thesis using asn_realloc_cases [OF 1(2), of alloc] by simp
      qed
    next
      case False
      then have "asn_need alloc r n s = Null" using unfold short by simp
      then show ?thesis using False by (simp add: can_grow_def)
    qed
  next
    case False
    then have "asn_need alloc r n s = Ret s" using unfold by simp
    then show ?thesis using 1(2) False by (auto simp: rb_wf_def)
  qed
qed

lemma asn_put_block_prepends:
  assumes "rb_off s + length bs \<le> length (rb_pkt s)"
  shows "prepends alloc r s (asn_put_block bs s) bs"
  using assms by (simp add: asn_put_block_def Let_def rb_wf_def rb_bytes_def)


lemma prepends_bind':
  "prepends alloc r s m xs \<Longrightarrow>
    (\<And>s1. m = Ret s1 \<Longrightarrow> rb_wf s1 \<Longrightarrow> rb_bytes s1 = xs @ rb_bytes s \<Longrightarrow> prepends alloc r s1 (f s1) ys) \<Longrightarrow>
    bs = ys @ xs \<Longrightarrow> prepends alloc r s (cbind m f) bs"
  using prepends_bind by blast

lemma rbuild_length_loop_more:
  "len > 0xff \<Longrightarrow> asn_rbuild_length_loop alloc r len s =
     cbind (store_byte alloc r (word_of_nat len) s) (asn_rbuild_length_loop alloc r (drop_bit 8 len))"
  by (subst asn_rbuild_length_loop.simps) (cases "store_byte alloc r (word_of_nat len) s", simp_all)

lemma rbuild_length_loop_done:
  "\<not> len > 0xff \<Longrightarrow> asn_rbuild_length_loop alloc r len s = Ret (len, s)"
  by (subst asn_rbuild_length_loop.simps) simp

text \<open>The end of the long form: the last length byte and the number of length bytes.\<close>

lemma rbuild_length_long:
  assumes "rb_wf s1" "rb_bytes s1 = pre @ rb_bytes s" "rb_wf s"
  shows "prepends alloc r s1 (cbind (asn_need alloc r 2 s1) (\<lambda>s'.
          cbind (asn_put (word_of_nat len) s') (\<lambda>s'.
            asn_put (word_of_nat (rb_off s' - rb_off s) OR 0x80) s')))
    [word_of_nat (length pre + 1) OR 0x80, word_of_nat len]"
proof (rule prepends_bind' [where xs = "[]" and ys = "[word_of_nat (length pre + 1) OR 0x80, word_of_nat len]"])
  show "prepends alloc r s1 (asn_need alloc r 2 s1) []" using asn_need_prepends [OF assms(1)] by blast
  fix s2 assume s2: "asn_need alloc r 2 s1 = Ret s2" "rb_wf s2" "rb_bytes s2 = [] @ rb_bytes s1"
  have room: "rb_off s1 + 2 \<le> length (rb_pkt s2)" "rb_off s2 = rb_off s1"
    using asn_need_prepends [OF assms(1), of alloc r 2] s2(1) by auto
  have off: "rb_off s1 = length pre + rb_off s" using rb_off_Ret [OF assms(3,1,2)] .
  show "prepends alloc r s2 (cbind (asn_put (word_of_nat len) s2) (\<lambda>s'.
            asn_put (word_of_nat (rb_off s' - rb_off s) OR 0x80) s'))
      [word_of_nat (length pre + 1) OR 0x80, word_of_nat len]"
  proof (rule prepends_bind' [where xs = "[word_of_nat len]" and ys = "[word_of_nat (length pre + 1) OR 0x80]"])
    show "prepends alloc r s2 (asn_put (word_of_nat len) s2) [word_of_nat len]"
      using room by (intro asn_put_prepends) simp
    fix s3 assume s3: "asn_put (word_of_nat len) s2 = Ret s3" "rb_wf s3" "rb_bytes s3 = [word_of_nat len] @ rb_bytes s2"
    have o3: "rb_off s3 = rb_off s2 + 1" "length (rb_pkt s3) = length (rb_pkt s2)"
      using s3(1) by (auto simp: asn_put_def split: if_splits)
    then have "rb_off s3 - rb_off s = length pre + 1" using room off by simp
    moreover have "rb_off s3 < length (rb_pkt s3)" using o3 room by simp
    ultimately show "prepends alloc r s3 (asn_put (word_of_nat (rb_off s3 - rb_off s) OR 0x80) s3) [word_of_nat (length pre + 1) OR 0x80]"
      using asn_put_prepends by metis
  qed simp
qed simp

lemma rbuild_length_prepends:
  assumes "rb_wf s" "asn_build_length dl len = Ret (bs, dl')" "len \<le> 0xFFFF"
  shows "prepends alloc r s (asn_realloc_rbuild_length alloc r len s) bs"
proof -
  consider "len < 0x80" | "0x80 \<le> len" "len \<le> 0xFF" | "0xFF < len" by linarith
  then show ?thesis
  proof cases
    case 1
    then show ?thesis using assms store_byte_prepends [OF assms(1)]
      by (auto simp: asn_realloc_rbuild_length_def asn_build_length_def split: if_splits)
  next
    case 2
    then have bs: "bs = [0x81, word_of_nat len]" using assms(2) by (auto simp: asn_build_length_def split: if_splits)
    have "asn_rbuild_length_loop alloc r len s = Ret (len, s)" using 2 by (simp add: rbuild_length_loop_done)
    then show ?thesis using 2 bs rbuild_length_long [OF assms(1) _ assms(1), of "[]" alloc r len]
      by (simp add: asn_realloc_rbuild_length_def)
  next
    case 3
    let ?hi = "drop_bit 8 len"
    have bs: "bs = [0x82, word_of_nat ?hi, word_of_nat len]"
      using 3 assms(2) by (auto simp: asn_build_length_def split: if_splits)
    have hi: "\<not> ?hi > 0xff" using assms(3) by (simp add: drop_bit_eq_div)
    have "asn_realloc_rbuild_length alloc r len s = cbind (store_byte alloc r (word_of_nat len) s) (\<lambda>s1.
        cbind (asn_need alloc r 2 s1) (\<lambda>s'. cbind (asn_put (word_of_nat ?hi) s') (\<lambda>s'.
            asn_put (word_of_nat (rb_off s' - rb_off s) OR 0x80) s')))"
      using 3 rbuild_length_loop_done [OF hi] unfolding asn_realloc_rbuild_length_def rbuild_length_loop_more [OF 3]
      by (cases "store_byte alloc r (word_of_nat len) s") simp_all
    moreover have "prepends alloc r s (cbind (store_byte alloc r (word_of_nat len) s) (\<lambda>s1.
        cbind (asn_need alloc r 2 s1) (\<lambda>s'. cbind (asn_put (word_of_nat ?hi) s') (\<lambda>s'.
            asn_put (word_of_nat (rb_off s' - rb_off s) OR 0x80) s')))) bs"
    proof (rule prepends_bind')
      show "prepends alloc r s (store_byte alloc r (word_of_nat len) s) [word_of_nat len]"
        by (rule store_byte_prepends [OF assms(1)])
      show "bs = [0x82, word_of_nat ?hi] @ [word_of_nat len]" using bs by simp
      fix s1 assume "rb_wf s1" "rb_bytes s1 = [word_of_nat len] @ rb_bytes s"
      from rbuild_length_long [OF this assms(1), of alloc r ?hi]
      show "prepends alloc r s1 (cbind (asn_need alloc r 2 s1) (\<lambda>s'. cbind (asn_put (word_of_nat ?hi) s') (\<lambda>s'.
            asn_put (word_of_nat (rb_off s' - rb_off s) OR 0x80) s'))) [0x82, word_of_nat ?hi]"
        by (simp add: numeral_2_eq_2)
    qed
    ultimately show ?thesis by simp
  qed
qed

lemma rbuild_header_prepends:
  assumes "rb_wf s" "asn_build_header dl t len = Ret (bs, dl')" "len \<le> 0xFFFF"
  shows "prepends alloc r s (asn_realloc_rbuild_header alloc r t len s) bs"
proof -
  obtain ls where ls: "bs = [t] @ ls" "asn_build_length (dl - 1) len = Ret (ls, dl')"
    using assms(2) by (auto simp: asn_build_header_def cbind_eq_Ret split: if_splits)
  show ?thesis unfolding asn_realloc_rbuild_header_def
    by (rule prepends_bind' [OF rbuild_length_prepends [OF assms(1) ls(2) assms(3)] store_byte_prepends ls(1)])
qed

lemma header_check_id: "rb_wf s \<Longrightarrow> n \<le> rb_off s \<Longrightarrow> asn_realloc_build_header_check n s = Ret s"
  by (simp add: asn_realloc_build_header_check_def rb_wf_def)

lemma rbuild_finish_prepends:
  assumes "rb_wf s" "asn_build_header dl t len = Ret (bs, dl')" "len \<le> 0xFFFF" "len \<le> rb_off s"
  shows "prepends alloc r s (asn_rbuild_finish alloc r t len s) bs"
  unfolding asn_rbuild_finish_def
proof (rule prepends_bind' [OF rbuild_header_prepends [OF assms(1-3)]])
  fix s1 assume s1: "rb_wf s1" "rb_bytes s1 = bs @ rb_bytes s"
  have "rb_off s \<le> rb_off s1" using rb_off_Ret [OF assms(1) s1] by simp
  then show "prepends alloc r s1 (asn_realloc_build_header_check len s1) []"
    using s1 assms(4) by (subst header_check_id) auto
qed simp

lemma rbuild_finish_from_prepends:
  assumes "rb_wf s" "asn_build_header dl t (rb_off s - start) = Ret (bs, dl')" "rb_off s - start \<le> 0xFFFF"
  shows "prepends alloc r s (asn_rbuild_finish_from alloc r t start s) bs"
  unfolding asn_rbuild_finish_from_def
  by (rule prepends_bind' [OF rbuild_header_prepends [OF assms(1-3)], where bs = bs and ys = "[]"])
    (auto simp: header_check_id)

section \<open>The reverse encoders write what the forward encoders write\<close>

lemma rbuild_string_prepends:
  assumes "rb_wf s" "asn_build_string dl t (Some str) (length str) = Ret (bs, dl')" "length str \<le> 0xFFFF"
  shows "prepends alloc r s (asn_realloc_rbuild_string alloc r t (Some str) (length str) s) bs"
proof -
  obtain hdr dl0 where h: "asn_build_header dl t (length str) = Ret (hdr, dl0)" "bs = hdr @ str"
    using assms(2) by (auto simp: asn_build_string_def cbind_eq_Ret header_check_Ret)
  have need: "prepends alloc r s (asn_need alloc r (length str) s) []"
    using asn_need_prepends [OF assms(1)] by blast
  have rest: "prepends alloc r s1 (cbind (asn_put_block str s1) (asn_rbuild_finish alloc r t (length str))) (hdr @ str)"
    if s1: "asn_need alloc r (length str) s = Ret s1" "rb_wf s1" for s1
  proof (rule prepends_bind' [where xs = str and ys = hdr])
    show "prepends alloc r s1 (asn_put_block str s1) str"
      using asn_need_prepends [OF assms(1), of alloc r "length str"] s1 by (intro asn_put_block_prepends) auto
    fix s2 assume s2: "rb_wf s2" "rb_bytes s2 = str @ rb_bytes s1"
    then show "prepends alloc r s2 (asn_rbuild_finish alloc r t (length str) s2) hdr"
      using rb_off_Ret [OF s1(2) s2] by (intro rbuild_finish_prepends [OF _ h(1) assms(3)]) auto
  qed simp
  show ?thesis
    unfolding asn_realloc_rbuild_string_def h(2)
    using rest by (auto intro!: prepends_bind' [OF need])
qed

lemma rbuild_bitstring_prepends:
  assumes "rb_wf s" "asn_build_bitstring dl t (Some str) (length str) = Ret (bs, dl')" "length str \<le> 0xFFFF"
  shows "prepends alloc r s (asn_realloc_rbuild_bitstring alloc r t (Some str) (length str) s) bs"
proof -
  have "asn_build_string dl t (Some str) (length str) = Ret (bs, dl')"
    using assms(2) by (cases str) (simp_all add: asn_build_bitstring_def asn_build_string_def split: if_splits)
  moreover have "asn_realloc_rbuild_bitstring = asn_realloc_rbuild_string"
    by (intro ext) (simp add: asn_realloc_rbuild_bitstring_def asn_realloc_rbuild_string_def)
  ultimately show ?thesis using rbuild_string_prepends [OF assms(1) _ assms(3)] by simp
qed

lemma rbuild_null_prepends:
  assumes "rb_wf s" "asn_build_null dl t = Ret (bs, dl')"
  shows "prepends alloc r s (asn_realloc_rbuild_null alloc r t s) bs"
  unfolding asn_realloc_rbuild_null_def
  using assms by (intro rbuild_header_prepends) (auto simp: asn_build_null_def)

subsection \<open>Minimal two's complement contents\<close>

text \<open>
  The contents both encoders write: the bytes of the value, as many as it needs for its sign to be visible.
\<close>

definition min_bytes :: "int \<Rightarrow> bytes \<Rightarrow> bool" where
  "min_bytes s bs \<longleftrightarrow> 1 \<le> length bs \<and> int (be_val bs) = s mod 256 ^ length bs
     \<and> - (2 ^ (8 * length bs - 1)) \<le> s \<and> s < 2 ^ (8 * length bs - 1)
     \<and> (length bs = 1 \<or> s < - (2 ^ (8 * (length bs - 1) - 1)) \<or> 2 ^ (8 * (length bs - 1) - 1) \<le> s)"

lemma be_val_inj: "length xs = length ys \<Longrightarrow> be_val xs = be_val ys \<Longrightarrow> xs = ys"
proof (induction xs ys rule: list_induct2)
  case (Cons x xs y ys)
  let ?k = "(256 :: nat) ^ length xs"
  have d: "b < k \<Longrightarrow> (a * k + b) div k = a" for a b k :: nat by simp
  have "be_val xs < ?k" "be_val ys < ?k" using be_val_less Cons.hyps by metis+
  moreover have "unat x * ?k + be_val xs = unat y * ?k + be_val ys" using Cons.prems Cons.hyps(1) by simp
  ultimately have "unat x = unat y" using d by metis
  then show ?case using Cons by (simp add: word_unat_eq_iff)
qed simp

lemma min_bytes_unique:
  assumes "min_bytes s xs" "min_bytes s ys"
  shows "xs = ys"
proof -
  have le: "length us \<le> length vs" if "min_bytes s us" "min_bytes s vs" for us vs
  proof (rule ccontr)
    assume "\<not> length us \<le> length vs"
    then have n: "length vs \<le> length us - 1" "length us \<noteq> 1" "1 \<le> length vs"
      using that by (auto simp: min_bytes_def)
    then have "(2 :: int) ^ (8 * length vs - 1) \<le> 2 ^ (8 * (length us - 1) - 1)" by (intro power_increasing) auto
    then show False using that n(2) unfolding min_bytes_def by linarith
  qed
  have "length xs = length ys" using le [OF assms] le [OF assms(2,1)] by simp
  moreover have "be_val xs = be_val ys"
    using assms calculation unfolding min_bytes_def by (metis of_nat_eq_iff)
  ultimately show ?thesis by (rule be_val_inj)
qed


lemma forward_min_bytes:
  assumes "fits s n" "left_justified s n w" "n = 1 \<or> \<not> fits s (n - 1)"
  shows "min_bytes s (asn_emit64_loop n w)"
  using assms be_val_left_justified [OF assms(1,2)] unfolding min_bytes_def fits_def by auto

text \<open>The truncation loop does not stop early.\<close>

lemma top9_of_sint: "0 \<le> sint w \<Longrightarrow> sint w < 2 ^ 55 \<Longrightarrow> (w :: u_long) AND top9 = 0"
proof -
  assume b: "0 \<le> sint w" "sint w < 2 ^ 55"
  have "uint w = sint w" using b by (simp only: uint_sint take_bit_int_eq_self_iff) simp
  then have "int (unat w) < 2 ^ 55" using b by simp
  then have "int (unat w) < int (2 ^ 55)" by (simp only: of_nat_power of_nat_numeral)
  then have "unat w < 2 ^ 55" by (simp only: of_nat_less_iff)
  then have "take_bit 55 w = w" by (rule take_bit_small_word)
  then have "w = w AND mask 55" by (simp only: take_bit_eq_mask)
  then show ?thesis unfolding top9_eq by (metis and.assoc bit.conj_cancel_right bit.conj_zero_right)
qed

lemma top9_of_sint': "- (2 ^ 55) \<le> sint w \<Longrightarrow> sint w < 0 \<Longrightarrow> (w :: u_long) AND top9 = top9"
proof -
  assume "- (2 ^ 55) \<le> sint w" "sint w < 0"
  then have "0 \<le> sint (NOT w)" "sint (NOT w) < 2 ^ 55" unfolding sint_not by simp_all
  then have "NOT w AND top9 = 0" by (rule top9_of_sint)
  moreover have "(w OR NOT w) AND m = (w AND m) OR (NOT w AND m)" for m by (rule bit.conj_disj_distrib2)
  ultimately show ?thesis by (metis bit.disj_cancel_right and.left_neutral or.right_neutral)
qed

lemma trunc_loop_minimal:
  assumes "fits s n" "left_justified s n w" "asn_trunc_loop top9 n w = (n', w')"
  shows "n' = 1 \<or> \<not> fits s (n' - 1)"
  using assms
proof (induction n arbitrary: w)
  case 0
  then show ?case by (simp add: fits_def)
next
  case (Suc n)
  show ?case
  proof (cases "(w AND top9 = 0 \<or> w AND top9 = top9) \<and> Suc n > 1")
    case True
    then have "fits s n \<and> left_justified s n (push_bit 8 w)" using Suc.prems by (intro trunc_step) auto
    moreover have "asn_trunc_loop top9 n (push_bit 8 w) = (n', w')"
      using Suc.prems(3) True by (simp only: asn_trunc_loop.simps if_True simp_thms)
    ultimately show ?thesis using Suc.IH by blast
  next
    case False
    then have n': "n' = Suc n" using Suc.prems(3) by (simp only: asn_trunc_loop.simps if_False) simp
    have "\<not> fits s n" if "Suc n \<noteq> 1"
    proof
      assume f: "fits s n"
      then have n: "1 \<le> n" "n \<le> 7" using Suc.prems(1) by (auto simp: fits_def)
      have sw: "sint w = s * 256 ^ (7 - n)" using sint_left_justified [OF Suc.prems(1,2)] by simp
      have "(8 * n - 1) + 8 * (7 - n) = 55" using n by simp
      moreover have k: "(256 :: int) ^ (7 - n) = 2 ^ (8 * (7 - n))" by (simp add: power_mult)
      ultimately have e: "(2 :: int) ^ 55 = 2 ^ (8 * n - 1) * 256 ^ (7 - n)" by (metis power_add)
      have p: "(0 :: int) < 256 ^ (7 - n)" by simp
      have "- (2 ^ (8 * n - 1)) * 256 ^ (7 - n) \<le> s * 256 ^ (7 - n)" "s * 256 ^ (7 - n) < 2 ^ (8 * n - 1) * 256 ^ (7 - n)"
        using f p by (auto simp only: fits_def mult_le_cancel_right_pos mult_less_cancel_right_pos)
      then have "- (2 ^ 55) \<le> sint w" "sint w < 2 ^ 55" unfolding sw e by simp_all
      then have "w AND top9 = 0 \<or> w AND top9 = top9"
        using top9_of_sint [of w] top9_of_sint' [of w] by linarith
      then show False using False that by simp
    qed
    then show ?thesis using n' by auto
  qed
qed


text \<open>The bytes the reverse loop writes for a signed value.\<close>

abbreviation sgn_word :: "int \<Rightarrow> int" where
  "sgn_word i \<equiv> (if i < 0 then -1 else 0)"

function int_bytes :: "int \<Rightarrow> bytes" where
  "int_bytes i = (if i = sgn_word i then [] else int_bytes (i div 256) @ [word_of_int i])"
  by auto
termination
proof (relation "measure (\<lambda>i. nat (if i < 0 then - i - 1 else i))", goal_cases)
  case (2 i)
  then have "(if i div 256 < 0 then - (i div 256) - 1 else i div 256) < (if i < 0 then - i - 1 else i)"
    "0 \<le> (if i div 256 < 0 then - (i div 256) - 1 else i div 256)"
    by (auto split: if_splits)
  then show ?case by simp
qed simp

declare int_bytes.simps [simp del]

lemma unat_word_of_int_byte: "int (unat (word_of_int i :: u_char)) = i mod 256"
  by (simp add: uint_word_of_int take_bit_eq_mod)

lemma mod_split: "0 \<le> m \<Longrightarrow> (i div 256 mod m) * 256 + i mod 256 = i mod (256 * m)" for i m :: int
  by (simp add: zmod_zmult2_eq)

lemma int_bytes_props:
  "int (be_val (int_bytes i)) = i mod 256 ^ length (int_bytes i) \<and> i div 256 ^ length (int_bytes i) = sgn_word i
    \<and> (int_bytes i \<noteq> [] \<longrightarrow> i div 256 ^ (length (int_bytes i) - 1) \<noteq> sgn_word i)"
proof (induction i rule: int_bytes.induct)
  case (1 i)
  show ?case
  proof (cases "i = sgn_word i")
    case True
    then show ?thesis by (subst (1 2 3 4 5) int_bytes.simps) (simp split: if_splits)
  next
    case False
    let ?j = "i div 256"
    note IH = 1 [OF False]
    have e: "int_bytes i = int_bytes ?j @ [word_of_int i]" using False by (subst int_bytes.simps) simp
    have sg: "sgn_word ?j = sgn_word i" by auto
    have d: "i div 256 ^ Suc k = ?j div 256 ^ k" for k by (simp add: zdiv_zmult2_eq)
    have "int (be_val (int_bytes i)) = (?j mod 256 ^ length (int_bytes ?j)) * 256 + i mod 256"
      unfolding e be_val_append using IH by (simp add: uint_word_of_int take_bit_eq_mod)
    also have "\<dots> = i mod 256 ^ length (int_bytes i)" unfolding e using mod_split [of "256 ^ length (int_bytes ?j)" i] by simp
    finally have "int (be_val (int_bytes i)) = i mod 256 ^ length (int_bytes i)" .
    moreover have "i div 256 ^ length (int_bytes i) = sgn_word i" using IH sg d e by simp
    moreover have "i div 256 ^ (length (int_bytes i) - 1) \<noteq> sgn_word i"
    proof (cases "int_bytes ?j = []")
      case True
      then show ?thesis using False e by simp
    next
      case ne: False
      then obtain q where q: "length (int_bytes ?j) = Suc q" by (cases "int_bytes ?j") auto
      then have "length (int_bytes i) - 1 = Suc q" unfolding e by simp
      moreover have "?j div 256 ^ q \<noteq> sgn_word i" using IH ne sg q by simp
      ultimately show ?thesis unfolding d [symmetric] by simp
    qed
    ultimately show ?thesis by blast
  qed
qed

lemma and_80_cases: "b AND 0x80 = (if b AND 0x80 = 0 then 0 else 0x80 :: u_char)"
proof -
  have "b AND 2 ^ 7 = (if bit b 7 then 2 ^ 7 else 0)"
    by (rule bit_eqI, cases "bit b 7") (simp_all only: bit_and_iff if_True if_False bit_exp_iff bit_0_eq bot_apply bot_bool_def, blast+)
  then show ?thesis by (auto split: if_splits)
qed

lemma top_bit: "b AND 0x80 \<noteq> 0 \<longleftrightarrow> 128 * 256 ^ length bs \<le> be_val (b # bs)"
proof -
  have r: "be_val bs < 256 ^ length bs" by (rule be_val_less)
  show ?thesis
  proof (cases "unat b < 128")
    case True
    then have "unat b * 256 ^ length bs \<le> 127 * 256 ^ length bs" by (intro mult_right_mono) auto
    then have "be_val (b # bs) < 128 * 256 ^ length bs" using r unfolding be_val.simps by linarith
    then show ?thesis using True by (simp add: and_80)
  next
    case False
    then have "128 * 256 ^ length bs \<le> unat b * 256 ^ length bs" by (intro mult_right_mono) auto
    then have "128 * 256 ^ length bs \<le> be_val (b # bs)" unfolding be_val.simps by (rule trans_le_add1)
    then show ?thesis using False by (simp add: and_80)
  qed
qed

text \<open>With the sign byte when the top bit is not the sign, the bytes are the minimal contents.\<close>

definition with_sign :: "bool \<Rightarrow> bytes \<Rightarrow> bytes" where
  "with_sign neg c = (if (hd c AND 0x80 \<noteq> 0) \<noteq> neg then (if neg then 0xff else 0) # c else c)"

lemma with_sign_min:
  assumes "c \<noteq> []" "int (be_val c) = i mod 256 ^ length c" "i div 256 ^ length c = sgn_word i"
    "length c = 1 \<or> i div 256 ^ (length c - 1) \<noteq> sgn_word i"
  shows "min_bytes i (with_sign (i < 0) c)"
proof -
  let ?n = "length c" and ?M = "(256 :: int) ^ length c"
  obtain b bs where c: "c = b # bs" using assms(1) by (cases c) auto
  have M: "?M = 2 ^ (8 * ?n)" unfolding power_mult by simp
  have M1: "?M = 2 * 2 ^ (8 * ?n - 1)" unfolding M using assms(1) by (simp add: power_Suc [symmetric] del: power_Suc)
  have half: "int (128 * 256 ^ length bs) = 2 ^ (8 * ?n - 1)" using M1 unfolding c by simp
  have pos: "0 < ?M" by simp
  have v: "i = sgn_word i * ?M + int (be_val c)" using assms(2,3) by (metis div_mult_mod_eq)
  have b: "0 \<le> int (be_val c)" "int (be_val c) < ?M" using assms(2) pos by simp_all
  have top: "hd c AND 0x80 \<noteq> 0 \<longleftrightarrow> 2 ^ (8 * ?n - 1) \<le> int (be_val c)"
  proof -
    have "hd c AND 0x80 \<noteq> 0 \<longleftrightarrow> 128 * 256 ^ length bs \<le> be_val c" unfolding c list.sel by (rule top_bit)
    also have "\<dots> \<longleftrightarrow> int (128 * 256 ^ length bs) \<le> int (be_val c)" by (simp only: of_nat_le_iff)
    finally show ?thesis unfolding half .
  qed
  have minimal: "i < - (2 ^ (8 * (?n - 1) - 1)) \<or> 2 ^ (8 * (?n - 1) - 1) \<le> i" if "?n \<noteq> 1"
  proof -
    let ?m = "(256 :: int) ^ (?n - 1)"
    have "(2 :: int) ^ (8 * (?n - 1) - 1) \<le> 2 ^ (8 * (?n - 1))" by (intro power_increasing) auto
    then have le: "2 ^ (8 * (?n - 1) - 1) \<le> ?m" unfolding power_mult by simp
    have "i div ?m \<noteq> sgn_word i" using assms(4) that by blast
    then have "?m \<le> i \<or> i < - ?m"
    proof (rule contrapos_np)
      assume "\<not> (?m \<le> i \<or> i < - ?m)"
      then have r: "- ?m \<le> i" "i < ?m" by auto
      show "i div ?m = sgn_word i"
      proof (cases "i < 0")
        case True
        have "(i + ?m) div ?m = 0" using r True by (intro div_pos_pos_trivial) auto
        then have "i div ?m + 1 = 0" using div_add_self2 [of ?m i] by simp
        then show ?thesis using True by simp
      qed (use r in \<open>simp add: div_pos_pos_trivial\<close>)
    qed
    then show ?thesis using le by linarith
  qed
  show ?thesis
  proof (cases "(hd c AND 0x80 \<noteq> 0) \<noteq> (i < 0)")
    case True
    let ?s = "(if i < 0 then 0xff else 0 :: u_char)"
    have ws: "with_sign (i < 0) c = ?s # c" using True by (simp add: with_sign_def)
    have M2: "(2 :: int) ^ (8 * (?n + 1) - 1) = 128 * ?M" unfolding M by (simp add: power_add)
    have i: "i = (if i < 0 then int (be_val c) - ?M else int (be_val c))" using v by auto
    have val: "int (be_val (?s # c)) = i mod (256 * ?M)"
    proof (cases "i < 0")
      case True
      then have "i + 256 * ?M = 255 * ?M + int (be_val c)" using i by simp
      moreover have "(255 * ?M + int (be_val c)) mod (256 * ?M) = 255 * ?M + int (be_val c)"
        using b by (intro mod_pos_pos_trivial) auto
      moreover have "(i + 256 * ?M) mod (256 * ?M) = i mod (256 * ?M)" by simp
      moreover have "int (be_val (?s # c)) = 255 * ?M + int (be_val c)" using True by simp
      ultimately show ?thesis by metis
    next
      case False
      then have "i = int (be_val c)" using i by simp
      then have "0 \<le> i" "i < 256 * ?M" using b pos by linarith+
      then have "i mod (256 * ?M) = i" by (rule mod_pos_pos_trivial)
      then show ?thesis using \<open>\<not> i < 0\<close> i by simp
    qed
    have "- (128 * ?M) \<le> i \<and> i < 128 * ?M"
    proof (cases "i < 0")
      case True
      then have "i = int (be_val c) - ?M" using i by simp
      then show ?thesis using b pos True by linarith
    next
      case False
      then have "i = int (be_val c)" using i by simp
      then show ?thesis using b pos by linarith
    qed
    moreover have "i < - (2 ^ (8 * ?n - 1)) \<or> 2 ^ (8 * ?n - 1) \<le> i"
      using True top i M1 by (auto split: if_splits)
    ultimately show ?thesis unfolding ws min_bytes_def using val M2 by simp
  next
    case False
    then have ws: "with_sign (i < 0) c = c" by (simp add: with_sign_def)
    have "- (2 ^ (8 * ?n - 1)) \<le> i \<and> i < 2 ^ (8 * ?n - 1)"
      using False top v b M1 by (auto split: if_splits)
    then show ?thesis unfolding ws min_bytes_def using assms(1,2) minimal by (cases "length c = 1") (auto simp: Suc_le_eq)
  qed
qed


subsection \<open>Integers\<close>

lemma rbuild_int_loop_prepends:
  "rb_wf s \<Longrightarrow> prepends alloc r s (asn_rbuild_int_loop alloc r i s) (int_bytes i)"
proof (induction i arbitrary: s rule: int_bytes.induct)
  case (1 i)
  show ?case
  proof (cases "i = sgn_word i")
    case True
    then show ?thesis using 1(2) by (subst asn_rbuild_int_loop.simps, subst int_bytes.simps) simp
  next
    case False
    have "asn_rbuild_int_loop alloc r i s = cbind (store_byte alloc r (word_of_int i) s) (asn_rbuild_int_loop alloc r (i div 256))"
      using False by (subst asn_rbuild_int_loop.simps) (cases "store_byte alloc r (word_of_int i) s", simp_all add: drop_bit_eq_div)
    moreover have "int_bytes i = int_bytes (i div 256) @ [word_of_int i]" using False by (subst int_bytes.simps) simp
    ultimately show ?thesis
      using 1(1) [OF False] by (auto intro!: prepends_bind [OF store_byte_prepends [OF 1(2)]])
  qed
qed

lemma rb_top:
  assumes "rb_wf s1" "rb_bytes s1 = c @ rest" "c \<noteq> []"
  shows "rb_pkt s1 ! (length (rb_pkt s1) - rb_off s1) = hd c"
proof -
  have "0 < rb_off s1" using assms length_rb_bytes [OF assms(1)] by (cases c) auto
  then have "hd (rb_bytes s1) = rb_pkt s1 ! (length (rb_pkt s1) - rb_off s1)"
    using assms(1) unfolding rb_bytes_def by (intro hd_drop_conv_nth) (auto simp: rb_wf_def)
  then show ?thesis using assms(2,3) by simp
qed

lemma rbuild_sign_prepends:
  assumes "rb_wf s1" "rb_bytes s1 = c @ rest" "c \<noteq> []"
  shows "prepends alloc r s1 (asn_rbuild_sign alloc r neg s1)
    (if (hd c AND 0x80 \<noteq> 0) \<noteq> neg then [if neg then 0xff else 0] else [])"
proof -
  have "(hd c AND 0x80 \<noteq> (if neg then 0x80 else 0)) = ((hd c AND 0x80 \<noteq> 0) \<noteq> neg)"
    using and_80_cases [of "hd c"] by (cases "hd c AND 0x80 = 0"; cases neg) simp_all
  then show ?thesis
    using store_byte_prepends [OF assms(1)] assms(1) unfolding asn_rbuild_sign_def rb_top [OF assms] by (simp add: Let_def)
qed

text \<open>The integer encoders: the bytes of the value, the sign, the header.\<close>

lemma rbuild_contents_prepends:
  assumes "rb_wf s" "prepends alloc r s m c" "c \<noteq> []"
    "asn_build_header dl t (length (with_sign neg c)) = Ret (hdr, dl')" "length (with_sign neg c) \<le> 0xFFFF"
  shows "prepends alloc r s (cbind m (\<lambda>s'. cbind (asn_rbuild_sign alloc r neg s') (asn_rbuild_finish_from alloc r t (rb_off s))))
    (hdr @ with_sign neg c)"
proof -
  let ?x = "if (hd c AND 0x80 \<noteq> 0) \<noteq> neg then [if neg then 0xff else 0] else []"
  have ws: "with_sign neg c = ?x @ c" by (simp add: with_sign_def)
  have "prepends alloc r s (cbind m (\<lambda>s'. cbind (asn_rbuild_sign alloc r neg s') (asn_rbuild_finish_from alloc r t (rb_off s))))
    ((hdr @ ?x) @ c)"
  proof (rule prepends_bind [OF assms(2)])
    fix s1 assume s1: "rb_wf s1" "rb_bytes s1 = c @ rb_bytes s"
    show "prepends alloc r s1 (cbind (asn_rbuild_sign alloc r neg s1) (asn_rbuild_finish_from alloc r t (rb_off s))) (hdr @ ?x)"
    proof (rule prepends_bind [OF rbuild_sign_prepends [OF s1 assms(3)]])
      fix s2 assume s2: "rb_wf s2" "rb_bytes s2 = ?x @ rb_bytes s1"
      have "rb_bytes s2 = with_sign neg c @ rb_bytes s" using s1(2) s2(2) ws by simp
      then have "rb_off s2 - rb_off s = length (with_sign neg c)" using rb_off_Ret [OF assms(1) s2(1)] by simp
      then show "prepends alloc r s2 (asn_rbuild_finish_from alloc r t (rb_off s) s2) hdr"
        using assms(4,5) by (intro rbuild_finish_from_prepends [OF s2(1)]) auto
    qed
  qed
  then show ?thesis unfolding ws by simp
qed

lemma signed_contents:
  "min_bytes i (with_sign (i < 0) (int_bytes (i div 256) @ [word_of_int i]))"
proof -
  let ?j = "i div 256" and ?c = "int_bytes (i div 256) @ [word_of_int i]"
  have sg: "sgn_word ?j = sgn_word i" by auto
  have d: "i div 256 ^ Suc k = ?j div 256 ^ k" for k by (simp add: zdiv_zmult2_eq)
  show ?thesis
  proof (rule with_sign_min)
    show "int (be_val ?c) = i mod 256 ^ length ?c"
      unfolding be_val_append using int_bytes_props [of ?j] mod_split [of "256 ^ length (int_bytes ?j)" i]
      by (simp add: uint_word_of_int take_bit_eq_mod)
    show "i div 256 ^ length ?c = sgn_word i" using int_bytes_props [of ?j] sg d by simp
    show "length ?c = 1 \<or> i div 256 ^ (length ?c - 1) \<noteq> sgn_word i"
    proof (cases "int_bytes ?j")
      case (Cons x xs)
      then have "?j div 256 ^ length xs \<noteq> sgn_word i" using int_bytes_props [of ?j] sg by simp
      then show ?thesis unfolding d [symmetric] using Cons by simp
    qed simp
  qed simp
qed

lemma rbuild_int_prepends:
  assumes "rb_wf s" "asn_build_int dl t v 8 = Ret (bs, dl')"
  shows "prepends alloc r s (asn_realloc_rbuild_int alloc r t v 8 s) bs"
proof -
  let ?i = "check_overflow_s v"
  have range: "- (2 ^ 32) \<le> ?i \<and> ?i < 2 ^ 32"
  proof -
    have "x AND 0xffffffff = x mod 2 ^ 32" for x :: int
      using take_bit_eq_mask [of 32 x] by (simp add: mask_eq_exp_minus_1 take_bit_eq_mod)
    moreover have "0 \<le> x mod 2 ^ 32 \<and> x mod 2 ^ 32 < 2 ^ 32" for x :: int by simp
    ultimately show ?thesis by (auto simp: check_overflow_s_def)
  qed
  have "fits ?i 8" "left_justified ?i 8 (word_of_int ?i)" using range by (auto simp: fits_def left_justified_def)
  then obtain n w where nw: "asn_trunc_loop top9 8 (word_of_int ?i) = (n, w)" "n \<le> 8" "fits ?i n" "left_justified ?i n w"
    using trunc_loop_ok by blast
  have min: "n = 1 \<or> \<not> fits ?i (n - 1)"
    using trunc_loop_minimal [OF \<open>fits ?i 8\<close> \<open>left_justified ?i 8 _\<close> nw(1)] .
  let ?c = "int_bytes (?i div 256) @ [word_of_int ?i]"
  have c: "asn_emit64_loop n w = with_sign (?i < 0) ?c"
    by (rule min_bytes_unique [OF forward_min_bytes [OF nw(3,4) min] signed_contents])
  have len: "length (with_sign (?i < 0) ?c) = n" by (simp only: c [symmetric] length_emit)
  obtain hdr dl0 where h: "asn_build_header dl t n = Ret (hdr, dl0)" "bs = hdr @ asn_emit64_loop n w"
    using assms(2) nw(1)
    by (auto simp: asn_build_int_def cbind_eq_Ret header_check_Ret emit_loop_eq Let_def simp del: push_bit_numeral split: if_splits)
  have "prepends alloc r s (cbind (store_byte alloc r (word_of_int ?i) s) (asn_rbuild_int_loop alloc r (?i div 256))) ?c"
    by (rule prepends_bind [OF store_byte_prepends [OF assms(1)] rbuild_int_loop_prepends])
  from rbuild_contents_prepends [OF assms(1) this, where neg = "?i < 0" and t = t and dl = dl and hdr = hdr and dl' = dl0] 
  have "prepends alloc r s (cbind (cbind (store_byte alloc r (word_of_int ?i) s) (asn_rbuild_int_loop alloc r (?i div 256)))
      (\<lambda>s'. cbind (asn_rbuild_sign alloc r (?i < 0) s') (asn_rbuild_finish_from alloc r t (rb_off s)))) bs"
    using h nw(2) len c by simp
  moreover have "cbind (cbind m f) g = cbind m (\<lambda>x. cbind (f x) g)" for m :: "rbuf cres" and f and g :: "rbuf \<Rightarrow> rbuf cres"
    by (cases m) simp_all
  ultimately show ?thesis by (simp add: asn_realloc_rbuild_int_def Let_def drop_bit_eq_div)
qed

lemma word_of_unat_byte: "word_of_int (int (unat (w :: u_long))) = (ucast w :: u_char)"
  by (simp add: word_unat_eq_iff unat_word_of_nat unat_ucast_mod)

lemma unat_drop_8: "int (unat (drop_bit 8 (w :: u_long))) = int (unat w) div 256"
  by (simp only: unat_drop_bit zdiv_int) simp

text \<open>The loop on an unsigned word is the loop on its value; its counter counts the bytes.\<close>

lemma rbuild_uint_loop_eq:
  "asn_rbuild_uint_loop alloc r w count s =
     cbind (asn_rbuild_int_loop alloc r (int (unat w)) s) (\<lambda>s'. Ret (count + length (int_bytes (int (unat w))), s'))"
proof (induction alloc r w count s rule: asn_rbuild_uint_loop.induct)
  case (1 alloc r w count s)
  show ?case
  proof (cases "w = 0")
    case True
    then show ?thesis
      by (subst asn_rbuild_uint_loop.simps, subst asn_rbuild_int_loop.simps, subst int_bytes.simps) simp
  next
    case False
    then have nz: "\<not> int (unat w) = sgn_word (int (unat w))" by (simp del: of_nat_unat add: uint_nat unat_eq_0)
    have ib: "length (int_bytes (int (unat w))) = Suc (length (int_bytes (int (unat w) div 256)))"
      using nz by (subst int_bytes.simps) simp
    show ?thesis
    proof (cases "store_byte alloc r (ucast w) s")
      case (Ret s')
      have u: "asn_rbuild_uint_loop alloc r w count s = asn_rbuild_uint_loop alloc r (drop_bit 8 w) (count + 1) s'"
        using False Ret by (subst asn_rbuild_uint_loop.simps) simp
      have i: "asn_rbuild_int_loop alloc r (int (unat w)) s = asn_rbuild_int_loop alloc r (int (unat w) div 256) s'"
        using nz Ret word_of_unat_byte [of w] by (subst asn_rbuild_int_loop.simps) (simp add: drop_bit_eq_div)
      show ?thesis unfolding u i ib 1 [OF False Ret] unat_drop_8 by simp
    next
      case Null
      then show ?thesis using False nz word_of_unat_byte [of w]
        by (subst asn_rbuild_uint_loop.simps, subst asn_rbuild_int_loop.simps) simp
    next
      case Overrun
      then show ?thesis using False nz word_of_unat_byte [of w]
        by (subst asn_rbuild_uint_loop.simps, subst asn_rbuild_int_loop.simps) simp
    qed
  qed
qed

lemma cbind_Ret [simp]: "cbind m Ret = m"
  by (cases m) simp_all

lemma cbind_assoc: "cbind (cbind m f) g = cbind m (\<lambda>x. cbind (f x) g)"
  by (cases m) simp_all

text \<open>The bytes of a non-negative value.\<close>

definition nat_bytes :: "int \<Rightarrow> bytes" where
  "nat_bytes i = int_bytes (i div 256) @ [word_of_int i]"

lemma nat_bytes_props:
  assumes "0 \<le> i"
  shows "int (be_val (nat_bytes i)) = i" "1 \<le> length (nat_bytes i)" "i < 256 ^ length (nat_bytes i)"
    "length (nat_bytes i) = 1 \<or> 256 ^ (length (nat_bytes i) - 1) \<le> i"
proof -
  let ?j = "i div 256" and ?n = "length (nat_bytes i)"
  have d: "i div 256 ^ Suc k = ?j div 256 ^ k" for k by (simp add: zdiv_zmult2_eq)
  have sg: "sgn_word ?j = 0" "sgn_word i = 0" using assms by auto
  have v: "int (be_val (nat_bytes i)) = i mod 256 ^ ?n"
    unfolding nat_bytes_def be_val_append using int_bytes_props [of ?j] mod_split [of "256 ^ length (int_bytes ?j)" i]
    by (simp add: uint_word_of_int take_bit_eq_mod)
  have z: "i div 256 ^ ?n = 0" using int_bytes_props [of ?j] sg d by (simp add: nat_bytes_def)
  then have "i mod 256 ^ ?n = i" by (metis add_0 mult_zero_left div_mult_mod_eq)
  then show "int (be_val (nat_bytes i)) = i" using v by simp
  show "1 \<le> ?n" by (simp add: nat_bytes_def)
  show "i < 256 ^ ?n" using \<open>i mod 256 ^ ?n = i\<close> by (metis pos_mod_bound zero_less_numeral zero_less_power)
  show "?n = 1 \<or> 256 ^ (?n - 1) \<le> i"
  proof (cases "int_bytes ?j")
    case (Cons x xs)
    then have "?j div 256 ^ length xs \<noteq> 0" using int_bytes_props [of ?j] sg by simp
    then have "i div 256 ^ (?n - 1) \<noteq> 0" unfolding d [symmetric] using Cons by (simp add: nat_bytes_def)
    then show ?thesis using assms div_pos_pos_trivial [of i "256 ^ (?n - 1)"] by linarith
  qed (simp add: nat_bytes_def)
qed

lemma rbuild_nat_prepends:
  "rb_wf s \<Longrightarrow> prepends alloc r s
    (cbind (store_byte alloc r (ucast w) s) (asn_rbuild_int_loop alloc r (int (unat w) div 256))) (nat_bytes (int (unat (w :: u_long))))"
  unfolding nat_bytes_def word_of_unat_byte [symmetric]
  by (rule prepends_bind [OF store_byte_prepends rbuild_int_loop_prepends])

lemma trunc_min_bytes:
  assumes "unat (w :: u_long) < 2 ^ 63"
  obtains n w' where "asn_trunc_loop top9 8 w = (n, w')" "1 \<le> n" "n \<le> 8" "min_bytes (int (unat w)) (asn_emit64_loop n w')"
proof -
  let ?s = "int (unat w)"
  have "?s < 2 ^ 63" using assms by (simp only: of_nat_less_iff [symmetric, where ?'a = int] of_nat_power of_nat_numeral)
  moreover have "- (2 ^ 63) \<le> ?s" by (rule order_trans [OF _ of_nat_0_le_iff]) simp
  ultimately have f: "fits ?s 8" by (simp only: fits_def) simp
  moreover have l: "left_justified ?s 8 w" by (simp add: left_justified_def)
  ultimately obtain n w' where nw: "asn_trunc_loop top9 8 w = (n, w')" "n \<le> 8" "fits ?s n" "left_justified ?s n w'"
    using trunc_loop_ok by blast
  have "min_bytes ?s (asn_emit64_loop n w')"
    by (rule forward_min_bytes [OF nw(3,4) trunc_loop_minimal [OF f l nw(1)]])
  then show ?thesis using that nw by (auto simp: fits_def)
qed

lemma check_overflow_u_less: "unat (check_overflow_u v) < 2 ^ 32"
proof -
  have "0xffffffff = (mask 32 :: u_long)" by (simp add: mask_eq_exp_minus_1)
  then have "unat (v AND 0xffffffff) = unat v mod 2 ^ 32" by (simp only: unat_and_mask)
  then show ?thesis by (simp add: check_overflow_u_def word_less_nat_alt)
qed

lemma no_null_byte:
  assumes "unat v < 2 ^ 56"
  shows "\<not> ucast (drop_bit 56 (v AND push_bit 56 0xFF)) AND (0x80 :: u_char) \<noteq> 0"
proof -
  have "unat (drop_bit 56 v) = 0" using assms by (simp only: unat_drop_bit) simp
  then have "drop_bit 56 v = 0" by (simp only: unat_eq_0)
  then have "drop_bit 56 (v AND push_bit 56 0xFF) = 0"
    by (simp only: drop_bit_and bit.conj_zero_left)
  then show ?thesis by (simp only: unsigned_0 bit.conj_zero_left)
qed

lemma rbuild_unsigned_int_prepends:
  assumes "rb_wf s" "asn_build_unsigned_int dl t v 8 = Ret (bs, dl')"
  shows "prepends alloc r s (asn_realloc_rbuild_unsigned_int alloc r t v 8 s) bs"
proof -
  let ?w = "check_overflow_u v" and ?i = "int (unat (check_overflow_u v))"
  have lt: "unat ?w < 2 ^ 32" by (rule check_overflow_u_less)
  obtain n w where nw: "asn_trunc_loop top9 8 ?w = (n, w)" "1 \<le> n" "n \<le> 8" "min_bytes ?i (asn_emit64_loop n w)"
    using trunc_min_bytes [of ?w] lt by auto
  have c: "asn_emit64_loop n w = with_sign False (nat_bytes ?i)"
    using min_bytes_unique [OF nw(4) signed_contents [of ?i]] by (simp add: nat_bytes_def)
  then have len: "length (with_sign False (nat_bytes ?i)) = n" by (simp only: c [symmetric] length_emit)
  obtain hdr dl0 where h: "asn_build_header dl t n = Ret (hdr, dl0)" "bs = hdr @ asn_emit64_loop n w"
    using assms(2) nw(1) no_null_byte [of ?w] lt
    by (auto simp: asn_build_unsigned_int_def cbind_eq_Ret header_check_Ret emit_loop_eq Let_def simp del: push_bit_numeral split: if_splits)
  have "prepends alloc r s (cbind (cbind (store_byte alloc r (ucast ?w) s) (asn_rbuild_int_loop alloc r (?i div 256)))
      (\<lambda>s'. cbind (asn_rbuild_sign alloc r False s') (asn_rbuild_finish_from alloc r t (rb_off s)))) bs"
    using rbuild_contents_prepends [OF assms(1) rbuild_nat_prepends [OF assms(1)], where neg = False and t = t and dl = dl
        and hdr = hdr and dl' = dl0] h nw(3) len c by (simp add: nat_bytes_def)
  moreover have "asn_realloc_rbuild_unsigned_int alloc r t v 8 s =
      cbind (cbind (store_byte alloc r (ucast ?w) s) (asn_rbuild_int_loop alloc r (?i div 256)))
      (\<lambda>s'. cbind (asn_rbuild_sign alloc r False s') (asn_rbuild_finish_from alloc r t (rb_off s)))"
    unfolding asn_realloc_rbuild_unsigned_int_def
    by (simp only: Let_def rbuild_uint_loop_eq cbind_assoc unat_drop_8) simp
  ultimately show ?thesis by simp
qed


subsection \<open>64-bit counters\<close>

lemma div_nz: "0 < m \<Longrightarrow> m \<le> i \<Longrightarrow> i div m \<noteq> (0 :: int)"
  using pos_imp_zdiv_pos_iff [of m i] by simp

lemma u64_contents_min: "min_bytes (int (unat v)) (u64_contents v)"
proof (cases "drop_bit 63 v \<noteq> 0")
  case True
  then have "unat v div 2 ^ 63 \<noteq> 0" by (metis unat_drop_bit unat_eq_0)
  then have "2 ^ 63 \<le> unat v" by (metis div_less not_le)
  then have "int (2 ^ 63) \<le> int (unat v)" by (simp only: of_nat_le_iff)
  then have ge: "2 ^ 63 \<le> int (unat v)" by (simp only: of_nat_power of_nat_numeral)
  have "unat v < 2 ^ 64" using unsigned_less [of v, where ?'a = nat] by simp
  then have "int (unat v) < int (2 ^ 64)" by (simp only: of_nat_less_iff)
  then have lt: "int (unat v) < 2 ^ 64" by (simp only: of_nat_power of_nat_numeral)
  have c: "u64_contents v = 0 # asn_emit64_loop 8 v" using True by (simp only: u64_contents_def if_True not_False_eq_True)
  have b: "be_val (0 # asn_emit64_loop 8 v) = unat v" using be_val_emit [of 8 v] by simp
  have l: "length (0 # asn_emit64_loop 8 v) = 9" by (simp only: list.size length_emit)
  have "int (unat v) mod 256 ^ 9 = int (unat v)" using lt by (intro mod_pos_pos_trivial of_nat_0_le_iff) simp
  then show ?thesis unfolding c min_bytes_def l b using ge lt of_nat_0_le_iff [of "unat v", where ?'a = int] by simp
next
  case False
  then have "unat v div 2 ^ 63 = 0" by (metis unat_drop_bit unat_0)
  then have "unat v < 2 ^ 63" by (simp only: div_eq_0_iff) simp
  then obtain n w' where "asn_trunc_loop top9 8 v = (n, w')" "min_bytes (int (unat v)) (asn_emit64_loop n w')"
    by (rule trunc_min_bytes)
  then show ?thesis using False by (simp only: u64_contents_def if_False Let_def prod.case)
qed

lemma rbuild_fill_prepends: "rb_wf s \<Longrightarrow> prepends alloc r s (asn_rbuild_fill alloc r b n s) (replicate n b)"
proof (induction n arbitrary: s)
  case (Suc n)
  have "prepends alloc r s (cbind (store_byte alloc r b s) (asn_rbuild_fill alloc r b n)) (replicate n b @ [b])"
    by (rule prepends_bind [OF store_byte_prepends [OF Suc.prems] Suc.IH])
  then show ?case by (simp add: replicate_append_same)
qed simp

lemma be_val_zeros: "be_val (replicate n 0 @ bs) = be_val bs"
  by (induction n) simp_all

lemma be_val_replicate_0: "be_val (replicate n 0) = 0"
  using be_val_zeros [of n "[]"] by simp

text \<open>The contents the reverse encoder writes before the sign byte.\<close>

definition u64_bytes :: "counter64 \<Rightarrow> bytes" where
  "u64_bytes cp =
     (let lo = nat_bytes (int (unat (c64_low cp))) in
      if c64_high cp \<noteq> 0 then nat_bytes (int (unat (c64_high cp))) @ replicate (4 - length lo) 0 @ lo else lo)"

lemma u64_bytes_contents:
  assumes "c64_wf cp"
  shows "with_sign False (u64_bytes cp) = u64_contents (push_bit 32 (c64_high cp) OR c64_low cp)"
proof -
  let ?h = "int (unat (c64_high cp))" and ?l = "int (unat (c64_low cp))"
  let ?i = "int (unat (push_bit 32 (c64_high cp) OR c64_low cp))"
  let ?ch = "nat_bytes ?h" and ?cl = "nat_bytes ?l"
  have i: "?i = ?h * 2 ^ 32 + ?l" unfolding value_of_halves [OF assms] halves_def by simp
  have wf: "?h < 2 ^ 32" "?l < 2 ^ 32"
    using assms by (simp_all only: c64_wf_def of_nat_less_iff [symmetric, where ?'a = int] of_nat_power of_nat_numeral)
  have h0: "0 \<le> ?h" and l0: "0 \<le> ?l" by (rule of_nat_0_le_iff)+
  note H = nat_bytes_props [OF h0] and L = nat_bytes_props [OF l0]
  have le4: "length ?cl \<le> 4"
  proof (rule ccontr)
    assume "\<not> length ?cl \<le> 4"
    then have "(256 :: int) ^ 4 \<le> 256 ^ (length ?cl - 1)" by (intro power_increasing) auto
    then show False using L(4) wf(2) \<open>\<not> length ?cl \<le> 4\<close> by auto
  qed
  have "min_bytes ?i (with_sign (?i < 0) (u64_bytes cp))"
  proof (cases "c64_high cp = 0")
    case True
    then have u: "u64_bytes cp = ?cl" "?i = ?l" using i by (simp_all only: u64_bytes_def Let_def unat_0) simp_all
    show ?thesis unfolding u
    proof (rule with_sign_min)
      show "?cl \<noteq> []" using L(2) by auto
      show "int (be_val ?cl) = ?l mod 256 ^ length ?cl" using L(1,3) l0 by (simp only: mod_pos_pos_trivial)
      show "?l div 256 ^ length ?cl = sgn_word ?l" using L(3) l0 by (simp only: div_pos_pos_trivial) simp
      show "length ?cl = 1 \<or> ?l div 256 ^ (length ?cl - 1) \<noteq> sgn_word ?l"
        using L(4) l0 div_nz [of "256 ^ (length ?cl - 1)" ?l] by auto
    qed
  next
    case False
    let ?c = "?ch @ replicate (4 - length ?cl) 0 @ ?cl"
    have u: "u64_bytes cp = ?c" using False by (simp only: u64_bytes_def Let_def if_True not_False_eq_True)
    have len: "length ?c = length ?ch + 4" using le4 by simp
    have val: "int (be_val ?c) = ?i" unfolding be_val_append be_val_zeros i using H(1) L(1) le4 by (simp add: be_val_replicate_0)
    have i0: "0 \<le> ?i" by (rule of_nat_0_le_iff)
    have p: "256 ^ (k + 4) = 256 ^ k * (2 :: int) ^ 32" for k by (simp add: power_add)
    have hi: "?i div 2 ^ 32 = ?h" unfolding i using wf(2) l0 by (simp add: div_pos_pos_trivial)
    have dv: "?i div 256 ^ (k + 4) = ?h div 256 ^ k" for k
      unfolding p using zdiv_zmult2_eq [of "256 ^ k" ?i "2 ^ 32"] hi by (simp add: mult.commute)
    show ?thesis unfolding u
    proof (rule with_sign_min)
      show "?c \<noteq> []" using H(2) by auto
      have z: "?i div 256 ^ length ?c = 0" unfolding len dv using H(3) h0 by (simp only: div_pos_pos_trivial)
      then have "?i mod 256 ^ length ?c = ?i" by (metis add_0 mult_zero_left div_mult_mod_eq)
      then show "int (be_val ?c) = ?i mod 256 ^ length ?c" using val by simp
      show "?i div 256 ^ length ?c = sgn_word ?i" using z i0 by simp
      have "length ?c - 1 = (length ?ch - 1) + 4" using len H(2) by simp
      then have "?i div 256 ^ (length ?c - 1) = ?h div 256 ^ (length ?ch - 1)" using dv by simp
      moreover have "?h div 256 ^ (length ?ch - 1) \<noteq> 0"
      proof (cases "length ?ch = 1")
        case True
        have "?h \<noteq> 0" using False by (simp del: of_nat_unat add: unat_eq_0)
        then show ?thesis using True by simp
      next
        case ne: False
        then show ?thesis using H(4) h0 div_nz [of "256 ^ (length ?ch - 1)" ?h] by auto
      qed
      ultimately show "length ?c = 1 \<or> ?i div 256 ^ (length ?c - 1) \<noteq> sgn_word ?i" using i0 by simp
    qed
  qed
  moreover have "\<not> ?i < 0" by (simp only: not_less of_nat_0_le_iff)
  ultimately show ?thesis using min_bytes_unique [OF _ u64_contents_min] by simp
qed


lemma rbuild_opaque_prepends:
  assumes "rb_wf s" "asn_build_header dl ASN_OPAQUE (n + 3) = Ret (hdr, dl')" "n \<le> 9" "n \<le> rb_off s"
  shows "prepends alloc r s (asn_rbuild_opaque alloc r t n s) (hdr @ [ASN_OPAQUE_TAG1, t, word_of_nat n])"
proof -
  have put: "rb_off s2 + 1 = rb_off s3 \<and> length (rb_pkt s3) = length (rb_pkt s2)" if "asn_put b s2 = Ret s3" for b s2 s3
    using that by (auto simp: asn_put_def split: if_splits)
  have "prepends alloc r s (asn_rbuild_opaque alloc r t n s) ((((hdr @ [ASN_OPAQUE_TAG1]) @ [t]) @ [word_of_nat n]) @ [])"
    unfolding asn_rbuild_opaque_def
  proof (rule prepends_bind)
    show "prepends alloc r s (asn_need alloc r 5 s) []" using asn_need_prepends [OF assms(1)] by blast
    fix s1 assume s1: "asn_need alloc r 5 s = Ret s1" "rb_wf s1" "rb_bytes s1 = [] @ rb_bytes s"
    have room: "rb_off s + 5 \<le> length (rb_pkt s1)" "rb_off s1 = rb_off s"
      using asn_need_prepends [OF assms(1), of alloc r 5] s1(1) by auto
    show "prepends alloc r s1 (cbind (asn_put (word_of_nat n) s1) (\<lambda>s. cbind (asn_put t s) (\<lambda>s.
           cbind (asn_put ASN_OPAQUE_TAG1 s) (asn_rbuild_finish alloc r ASN_OPAQUE (n + 3)))))
        (((hdr @ [ASN_OPAQUE_TAG1]) @ [t]) @ [word_of_nat n])"
    proof (rule prepends_bind)
      show "prepends alloc r s1 (asn_put (word_of_nat n) s1) [word_of_nat n]" using room by (intro asn_put_prepends) simp
      fix s2 assume s2: "asn_put (word_of_nat n) s1 = Ret s2" "rb_wf s2" "rb_bytes s2 = [word_of_nat n] @ rb_bytes s1"
      show "prepends alloc r s2 (cbind (asn_put t s2) (\<lambda>s.
           cbind (asn_put ASN_OPAQUE_TAG1 s) (asn_rbuild_finish alloc r ASN_OPAQUE (n + 3)))) ((hdr @ [ASN_OPAQUE_TAG1]) @ [t])"
      proof (rule prepends_bind)
        show "prepends alloc r s2 (asn_put t s2) [t]" using room put [OF s2(1)] by (intro asn_put_prepends) simp
        fix s3 assume s3: "asn_put t s2 = Ret s3" "rb_wf s3" "rb_bytes s3 = [t] @ rb_bytes s2"
        show "prepends alloc r s3 (cbind (asn_put ASN_OPAQUE_TAG1 s3) (asn_rbuild_finish alloc r ASN_OPAQUE (n + 3)))
            (hdr @ [ASN_OPAQUE_TAG1])"
        proof (rule prepends_bind)
          show "prepends alloc r s3 (asn_put ASN_OPAQUE_TAG1 s3) [ASN_OPAQUE_TAG1]"
            using room put [OF s2(1)] put [OF s3(1)] by (intro asn_put_prepends) simp
          fix s4 assume s4: "asn_put ASN_OPAQUE_TAG1 s3 = Ret s4" "rb_wf s4"
          show "prepends alloc r s4 (asn_rbuild_finish alloc r ASN_OPAQUE (n + 3) s4) hdr"
            using room put [OF s2(1)] put [OF s3(1)] put [OF s4(1)] assms(3,4)
            by (intro rbuild_finish_prepends [OF s4(2) assms(2)]) auto
        qed
      qed
    qed
  qed
  then show ?thesis by simp
qed

lemma rbuild_unsigned_int64_prepends:
  assumes "rb_wf s" "asn_build_unsigned_int64 dl t cp 16 = Ret (bs, dl')" "c64_wf cp"
  shows "prepends alloc r s (asn_realloc_rbuild_unsigned_int64 alloc r t cp 16 s) bs"
proof -
  let ?low = "c64_low cp" and ?high = "c64_high cp"
  let ?l = "int (unat ?low)" and ?h = "int (unat ?high)"
  let ?c = "u64_bytes cp" and ?v = "with_sign False (u64_bytes cp)"
  have ck: "check_overflow_u ?high = ?high" "check_overflow_u ?low = ?low"
    using assms(3) by (auto simp: check_overflow_u_def c64_wf_def word_less_nat_alt)
  define lo where "lo = cbind (store_byte alloc r (ucast ?low) s) (asn_rbuild_int_loop alloc r (?l div 256))"
  define hi where "hi s' = (if ?high \<noteq> 0 then
      cbind (asn_rbuild_fill alloc r 0 (4 - length (nat_bytes ?l)) s') (\<lambda>s'.
        cbind (store_byte alloc r (ucast ?high) s') (asn_rbuild_int_loop alloc r (?h div 256)))
      else Ret s')" for s'
  define fin where "fin s' = (let intsize = rb_off s' - rb_off s in
                if t = ASN_OPAQUE_COUNTER64 \<or> t = ASN_OPAQUE_U64
                then asn_rbuild_opaque alloc r t intsize s'
                else asn_rbuild_finish alloc r t intsize s')" for s'
  have lenlo: "1 + length (int_bytes (?l div 256)) = length (nat_bytes ?l)" by (simp add: nat_bytes_def)
  have eq: "asn_realloc_rbuild_unsigned_int64 alloc r t cp 16 s =
      cbind (cbind lo hi) (\<lambda>s'. cbind (asn_rbuild_sign alloc r False s') fin)"
    unfolding asn_realloc_rbuild_unsigned_int64_def ck lo_def hi_def fin_def
    by (simp only: Let_def rbuild_uint_loop_eq cbind_assoc unat_drop_8 cbind.simps prod.case lenlo if_False simp_thms) (simp add: cbind_assoc cong: if_cong)
  have loP: "prepends alloc r s lo (nat_bytes ?l)" unfolding lo_def by (rule rbuild_nat_prepends [OF assms(1)])
  have hiP: "prepends alloc r s1 (hi s1)
      (if ?high \<noteq> 0 then nat_bytes ?h @ replicate (4 - length (nat_bytes ?l)) 0 else [])" if "rb_wf s1" for s1
    unfolding hi_def using that
    by (auto intro!: prepends_bind rbuild_fill_prepends rbuild_nat_prepends simp del: of_nat_unat)
  have cP: "prepends alloc r s (cbind lo hi) ?c"
    using prepends_bind [OF loP hiP] by (cases "?high = 0") (simp_all add: u64_bytes_def Let_def)
  have ne: "?c \<noteq> []" using nat_bytes_props(2) [of ?l] nat_bytes_props(2) [of ?h]
    by (auto simp: u64_bytes_def Let_def)
  have v: "?v = u64_contents (push_bit 32 ?high OR ?low)" by (rule u64_bytes_contents [OF assms(3)])
  have vlen: "length ?v \<le> 9" unfolding v by (rule u64_contents(3))
  let ?x = "if (hd ?c AND 0x80 \<noteq> 0) \<noteq> False then [if False then 0xff else 0] else []"
  have ws: "?v = ?x @ ?c" by (simp add: with_sign_def)
  obtain pre where bs: "bs = pre @ ?v" and fin: "\<And>s2. rb_wf s2 \<Longrightarrow> rb_off s2 - rb_off s = length ?v \<Longrightarrow>
      length ?v \<le> rb_off s2 \<Longrightarrow> prepends alloc r s2 (fin s2) pre"
  proof (cases "t = ASN_OPAQUE_COUNTER64 \<or> t = ASN_OPAQUE_U64")
    case True
    then obtain hdr dl0 where h: "asn_build_header dl ASN_OPAQUE (length ?v + 3) = Ret (hdr, dl0)"
      "bs = (hdr @ [ASN_OPAQUE_TAG1, t, word_of_nat (length ?v)]) @ ?v"
      using assms(2) unfolding asn_build_unsigned_int64_eq v [symmetric] Let_def by (auto simp: cbind_eq_Ret header_check_Ret)
    show ?thesis
      using that [OF h(2)] True vlen by (simp add: fin_def Let_def rbuild_opaque_prepends [OF _ h(1)])
  next
    case False
    then obtain hdr dl0 where h: "asn_build_header dl t (length ?v) = Ret (hdr, dl0)" "bs = hdr @ ?v"
      using assms(2) unfolding asn_build_unsigned_int64_eq v [symmetric] Let_def by (auto simp: cbind_eq_Ret header_check_Ret)
    show ?thesis
      using that [OF h(2)] False vlen by (simp add: fin_def Let_def rbuild_finish_prepends [OF _ h(1)])
  qed
  have "prepends alloc r s (cbind (cbind lo hi) (\<lambda>s'. cbind (asn_rbuild_sign alloc r False s') fin)) ((pre @ ?x) @ ?c)"
  proof (rule prepends_bind [OF cP])
    fix s1 assume s1: "rb_wf s1" "rb_bytes s1 = ?c @ rb_bytes s"
    show "prepends alloc r s1 (cbind (asn_rbuild_sign alloc r False s1) fin) (pre @ ?x)"
    proof (rule prepends_bind [OF rbuild_sign_prepends [OF s1 ne]])
      fix s2 assume s2: "rb_wf s2" "rb_bytes s2 = ?x @ rb_bytes s1"
      have "rb_bytes s2 = ?v @ rb_bytes s" using s1(2) s2(2) ws by simp
      then have "rb_off s2 = length ?v + rb_off s" by (rule rb_off_Ret [OF assms(1) s2(1)])
      then show "prepends alloc r s2 (fin s2) pre" using fin [OF s2(1)] by simp
    qed
  qed
  then show ?thesis unfolding eq bs ws by simp
qed

subsection \<open>Object identifiers\<close>

lemma store_byte_80: "ucast (y OR 0x80) = (word_of_nat (unat (y :: u_int) mod 128 + 128) :: u_char)"
proof -
  have "(y OR push_bit 7 1) AND mask 8 = push_bit 7 1 OR (y AND mask 7)"
    by (rule bit_eqI) (simp only: bit_or_iff bit_and_iff bit_mask_iff bit_push_bit_iff bit_1_iff, auto)
  then have "unat (y OR push_bit 7 1) mod 2 ^ 8 = unat (push_bit 7 1 OR (y AND mask 7))"
    by (metis unat_and_mask)
  also have "\<dots> = unat (1 :: u_int) * 2 ^ 7 + unat (y AND mask 7)"
    by (rule unat_push_or) (simp_all only: unat_and_mask, simp_all add: less_imp_le_nat mod_less_divisor)
  finally have "unat (y OR 0x80) mod 2 ^ 8 = unat y mod 128 + 128" by (simp only: unat_and_mask) simp
  then show ?thesis by (simp only: word_unat_eq_iff unat_word_of_nat unat_ucast_mod) simp
qed

lemma store_uint32_loop_prepends:
  "rb_wf s \<Longrightarrow> prepends alloc r s (store_uint32_loop alloc r y s) (cont_groups (encoded_oid_len_loop y) (unat y))"
proof (induction alloc r y s rule: store_uint32_loop.induct)
  case (1 alloc r y s)
  show ?case
  proof (cases "y = 0")
    case True
    then show ?thesis using 1(2) by (subst store_uint32_loop.simps, subst encoded_oid_len_loop.simps) simp
  next
    case False
    let ?z = "drop_bit 7 y"
    have "encoded_oid_len_loop y = Suc (encoded_oid_len_loop ?z)" using False by (subst encoded_oid_len_loop.simps) simp
    moreover have "unat ?z = unat y div 128" by (simp only: unat_drop_bit) simp
    ultimately have g: "cont_groups (encoded_oid_len_loop y) (unat y)
        = cont_groups (encoded_oid_len_loop ?z) (unat ?z) @ [word_of_nat (unat y mod 128 + 128)]"
      by (simp only: cont_groups_snoc)
    have u: "store_uint32_loop alloc r y s = cbind (store_byte alloc r (word_of_nat (unat y mod 128 + 128)) s) (store_uint32_loop alloc r ?z)"
      using False by (subst store_uint32_loop.simps)
        (simp only: store_byte_80, cases "store_byte alloc r (word_of_nat (unat y mod 128 + 128)) s", simp_all)
    show ?thesis unfolding g u
    proof (rule prepends_bind [OF store_byte_prepends [OF 1(2)]])
      fix s1 assume "store_byte alloc r (word_of_nat (unat y mod 128 + 128)) s = Ret s1" "rb_wf s1"
      then show "prepends alloc r s1 (store_uint32_loop alloc r ?z s1) (cont_groups (encoded_oid_len_loop ?z) (unat ?z))"
        using 1(1) [OF False] by (simp only: store_byte_80)
    qed
  qed
qed

lemma store_uint32_prepends:
  assumes "rb_wf s"
  shows "prepends alloc r s (store_uint32 alloc r (ucast v) s) (asn_subid_bytes (v :: u_long))"
proof -
  let ?x = "ucast v :: u_int" and ?y = "drop_bit 7 (ucast v :: u_int)"
  obtain k where k: "asn_subid_bytes v = cont_groups k (unat v mod 2 ^ 32 div 128) @ [word_of_nat (unat v mod 2 ^ 32 mod 128)]"
    "encoded_oid_len ?x = Suc k" by (rule subid_bytes_groups [of v]) blast
  have x: "unat ?x = unat v mod 2 ^ 32" by (simp only: unat_ucast_mod) simp
  have y: "unat ?y = unat v mod 2 ^ 32 div 128" by (simp only: unat_drop_bit x) simp
  have "k = encoded_oid_len_loop ?y"
  proof (cases "?x = 0")
    case True
    then have "k = 0" using k(2) by (simp add: encoded_oid_len_def)
    moreover have "?y = 0" using True by simp
    ultimately show ?thesis by (simp add: encoded_oid_len_loop.simps)
  next
    case False
    then have "encoded_oid_len_loop ?x = Suc (encoded_oid_len_loop ?y)" by (subst encoded_oid_len_loop.simps) simp
    then show ?thesis using k(2) False by (simp add: encoded_oid_len_def)
  qed
  then have g: "asn_subid_bytes v = cont_groups (encoded_oid_len_loop ?y) (unat ?y) @ [word_of_nat (unat v mod 2 ^ 32 mod 128)]"
    using k(1) y by simp
  have m: "0x7f = (mask 7 :: u_int)" by (simp add: mask_eq_exp_minus_1)
  have b: "ucast (?x AND 0x7f) = (word_of_nat (unat v mod 2 ^ 32 mod 128) :: u_char)"
    unfolding m by (simp only: word_unat_eq_iff unat_ucast_mod unat_and_mask unat_word_of_nat) (simp add: mod_mod_cancel)
  show ?thesis unfolding store_uint32_def g b
    by (rule prepends_bind [OF store_byte_prepends [OF assms] store_uint32_loop_prepends])
qed

lemma asn_subid_bytes_ucast: "ucast v = (ucast w :: u_int) \<Longrightarrow> asn_subid_bytes v = asn_subid_bytes (w :: u_long)"
  by (simp only: asn_subid_bytes_def)

lemma rbuild_subids_prepends:
  "rb_wf s \<Longrightarrow> prepends alloc r s (asn_rbuild_subids alloc r xs s) (concat (map asn_subid_bytes (rev xs)))"
proof (induction xs arbitrary: s)
  case (Cons x xs)
  have "prepends alloc r s (cbind (store_uint32 alloc r (ucast (check_overflow_u x)) s) (asn_rbuild_subids alloc r xs))
      (concat (map asn_subid_bytes (rev xs)) @ asn_subid_bytes x)"
    unfolding ucast_check_overflow_u by (rule prepends_bind [OF store_uint32_prepends [OF Cons.prems] Cons.IH])
  then show ?case by simp
qed simp

lemma asn_subid_bytes_small: "unat v < 128 \<Longrightarrow> asn_subid_bytes v = [ucast v]"
proof -
  assume v: "unat v < 128"
  obtain k where k: "asn_subid_bytes v = cont_groups k (unat v mod 2 ^ 32 div 128) @ [word_of_nat (unat v mod 2 ^ 32 mod 128)]"
    "encoded_oid_len (ucast v :: u_int) = Suc k" by (rule subid_bytes_groups [of v]) blast
  have "unat (ucast v :: u_int) < 128 ^ 1" using v by (simp add: unat_ucast_mod)
  then have "encoded_oid_len (ucast v :: u_int) \<le> 1"
    using encoded_len_loop [of "ucast v" 1] by (auto simp: encoded_oid_len_def)
  then have "k = 0" using k(2) by simp
  then show ?thesis using k(1) v by (simp add: word_unat_eq_iff unat_word_of_nat unat_ucast_mod)
qed

lemma rbuild_objid_prepends:
  assumes "rb_wf s" "asn_build_objid dl t objid = Ret (bs, dl')"
  shows "prepends alloc r s (asn_realloc_rbuild_objid alloc r t objid s) bs"
proof -
  obtain f n where f: "asn_objid_first objid = Some (f, n)"
    using assms(2) by (auto simp: asn_build_objid_def split: option.splits)
  let ?vals = "check_overflow_u f # drop 2 objid"
  let ?body = "if n \<le> 1 then [0] else concat (map asn_subid_bytes ?vals)"
  have sum: "sum_list (map (\<lambda>v. encoded_oid_len (ucast (check_overflow_u v))) vs) = length (concat (map asn_subid_bytes vs))" for vs
    by (simp only: length_concat map_map o_def length_subid_bytes ucast_check_overflow_u)
  have z: "n \<le> 1 \<Longrightarrow> f = 0" using f by (auto simp: asn_objid_first_def le_Suc_eq split: if_splits)
  then have len0: "n \<le> 1 \<Longrightarrow> encoded_oid_len (ucast (check_overflow_u f)) = 1"
    by (simp add: check_overflow_u_def encoded_oid_len_def)
  obtain hdr dl0 where h: "n \<le> 128" "asn_build_header dl t (length ?body) = Ret (hdr, dl0)" "bs = hdr @ ?body"
    using assms(2) f len0
    by (auto simp: asn_build_objid_def cbind_eq_Ret header_check_Ret Let_def sum simp del: length_concat map_eq_conv list.map split: if_splits)
  have "length (concat (map asn_subid_bytes vs)) \<le> 5 * length vs" for vs
    by (induction vs) (use encoded_oid_len_bounds(2) in \<open>simp_all add: add_mono\<close>)
  from this [of ?vals] have blen: "length ?body \<le> 0xFFFF"
    using h(1) f by (auto simp: asn_objid_first_def split: if_splits)
  have body: "prepends alloc r s (if length objid = 0 then store_byte alloc r 0 s
            else if objid ! 0 > 2 then Null
            else if length objid = 1 then store_byte alloc r (ucast (40 * objid ! 0)) s
            else cbind (asn_rbuild_subids alloc r (rev (drop 2 objid)) s) (\<lambda>s.
              if objid ! 1 \<ge> 40 \<and> objid ! 0 < 2 \<or> objid ! 1 > 0xFFFFFFFF - objid ! 0 * 40 then Null
              else store_uint32 alloc r (ucast (objid ! 0 * 40 + objid ! 1)) s)) ?body"
  proof -
    consider "length objid = 0" | "length objid = 1" | "2 \<le> length objid" by linarith
    then show ?thesis
    proof cases
      case 1
      then show ?thesis using f store_byte_prepends [OF assms(1)] by (auto simp: asn_objid_first_def)
    next
      case 2
      then have fn: "f = objid ! 0 * 40" "n = 2" "\<not> objid ! 0 > 2" "drop 2 objid = []"
        using f by (auto simp: asn_objid_first_def split: if_splits)
      have "unat (objid ! 0) \<le> 2" using fn(3) by (simp add: word_less_nat_alt)
      then have "unat f \<le> 80" unfolding fn(1) by (simp add: unat_word_ariths)
      then have "check_overflow_u f = f" "asn_subid_bytes f = [ucast f]"
        by (simp_all add: check_overflow_u_def word_less_nat_alt asn_subid_bytes_small)
      then show ?thesis using 2 fn store_byte_prepends [OF assms(1), of alloc r "ucast f"] by (simp add: mult.commute)
    next
      case 3
      then have fn: "f = objid ! 0 * 40 + objid ! 1" "n = length objid" "\<not> objid ! 0 > 2"
        "\<not> (objid ! 1 \<ge> 40 \<and> objid ! 0 < 2 \<or> objid ! 1 > 0xFFFFFFFF - objid ! 0 * 40)"
        using f by (auto simp: asn_objid_first_def split: if_splits)
      have cf: "asn_subid_bytes (check_overflow_u f) = asn_subid_bytes f"
        by (rule asn_subid_bytes_ucast [OF ucast_check_overflow_u])
      have "prepends alloc r s (cbind (asn_rbuild_subids alloc r (rev (drop 2 objid)) s) (\<lambda>s.
          store_uint32 alloc r (ucast f) s)) (asn_subid_bytes f @ concat (map asn_subid_bytes (rev (rev (drop 2 objid)))))"
        by (rule prepends_bind [OF rbuild_subids_prepends [OF assms(1)] store_uint32_prepends])
      then show ?thesis using 3 fn cf by (auto simp: numeral_2_eq_2)
    qed
  qed
  show ?thesis
    unfolding asn_realloc_rbuild_objid_def h(3)
  proof (rule prepends_bind [OF body])
    fix s1 assume s1: "rb_wf s1" "rb_bytes s1 = ?body @ rb_bytes s"
    have off: "rb_off s1 = length ?body + rb_off s" by (rule rb_off_Ret [OF assms(1) s1])
    then have "rb_off s1 - rb_off s = length ?body" by simp
    then show "prepends alloc r s1 (asn_rbuild_finish alloc r t (rb_off s1 - rb_off s) s1) hdr"
      using off by (simp only:) (intro rbuild_finish_prepends [OF s1(1) h(2) blen], simp)
  qed
qed


section \<open>Properties\<close>

text \<open>
  C18. Equivalence of the forward and the reverse encoder for seven kinds of values: \<open>int\<close>, \<open>unsigned_int\<close> (both from a
  \<open>long\<close> of 8 bytes), \<open>string\<close> and \<open>bitstring\<close> of at most 65535 bytes, \<open>null\<close>, \<open>objid\<close>, and \<open>unsigned_int64\<close> whose
  halves have 32 bits. Whenever \<open>asn_build_X\<close> produces the bytes \<open>bs\<close>, \<open>asn_realloc_rbuild_X\<close>, which the library uses, fails
  only when the buffer may not grow or memory runs out, never stores outside the buffer, and otherwise puts exactly \<open>bs\<close>
  in front of what was written before. Nothing is claimed here of the other encoders: those of sequence headers do differ
  (\<open>asn_build_sequence\<close> always writes a length of two bytes, \<open>asn_realloc_rbuild_sequence\<close> the shortest one), and
  \<open>signed_int64\<close>, \<open>float\<close>, \<open>double\<close> and longer strings are not covered.
\<close>

theorem asn_rbuild_equals_build:
  assumes "rb_wf s"
  shows "(\<forall>t v dl bs dl'. asn_build_int dl t v 8 = Ret (bs, dl') \<longrightarrow>
           prepends alloc r s (asn_realloc_rbuild_int alloc r t v 8 s) bs)
    \<and> (\<forall>t v dl bs dl'. asn_build_unsigned_int dl t v 8 = Ret (bs, dl') \<longrightarrow>
           prepends alloc r s (asn_realloc_rbuild_unsigned_int alloc r t v 8 s) bs)
    \<and> (\<forall>t str dl bs dl'. asn_build_string dl t (Some str) (length str) = Ret (bs, dl') \<and> length str \<le> 0xFFFF \<longrightarrow>
           prepends alloc r s (asn_realloc_rbuild_string alloc r t (Some str) (length str) s) bs)
    \<and> (\<forall>t str dl bs dl'. asn_build_bitstring dl t (Some str) (length str) = Ret (bs, dl') \<and> length str \<le> 0xFFFF \<longrightarrow>
           prepends alloc r s (asn_realloc_rbuild_bitstring alloc r t (Some str) (length str) s) bs)
    \<and> (\<forall>t dl bs dl'. asn_build_null dl t = Ret (bs, dl') \<longrightarrow>
           prepends alloc r s (asn_realloc_rbuild_null alloc r t s) bs)
    \<and> (\<forall>t objid dl bs dl'. asn_build_objid dl t objid = Ret (bs, dl') \<longrightarrow>
           prepends alloc r s (asn_realloc_rbuild_objid alloc r t objid s) bs)
    \<and> (\<forall>t cp dl bs dl'. asn_build_unsigned_int64 dl t cp 16 = Ret (bs, dl') \<and> c64_wf cp \<longrightarrow>
           prepends alloc r s (asn_realloc_rbuild_unsigned_int64 alloc r t cp 16 s) bs)"
  by (intro conjI allI impI)
    (blast intro: rbuild_int_prepends [OF assms] rbuild_unsigned_int_prepends [OF assms] rbuild_string_prepends [OF assms]
      rbuild_bitstring_prepends [OF assms] rbuild_null_prepends [OF assms] rbuild_objid_prepends [OF assms]
      rbuild_unsigned_int64_prepends [OF assms])+

theorem asn_rbuild_equals_build_witness:
  "prepends (\<lambda>n. Some (\<lambda>i. 0)) True \<lparr>rb_pkt = [1], rb_off = 1\<rparr>
     (asn_realloc_rbuild_objid (\<lambda>n. Some (\<lambda>i. 0)) True 6 [1, 3, 6, 300] \<lparr>rb_pkt = [1], rb_off = 1\<rparr>)
     [6, 4, 0x2B, 6, 0x82, 0x2C]"
proof -
  have "asn_build_objid 9 6 [1, 3, 6, 300] = Ret ([6, 4, 0x2B, 6, 0x82, 0x2C], 3)" by code_simp
  moreover have "rb_wf \<lparr>rb_pkt = [1], rb_off = 1\<rparr>" by (simp add: rb_wf_def)
  ultimately show ?thesis using asn_rbuild_equals_build by blast
qed

text \<open>
  Growing the reverse buffer: \<open>asn_realloc\<close> keeps the bytes written so far at the top end of the buffer and
  adds at least 256 bytes of room in front of them; it fails only when memory runs out. Storing bytes one by
  one then leaves them, reversed, in front of the earlier ones.
\<close>

theorem asn_realloc_keeps_contents:
  assumes "rb_wf s"
  shows "(asn_realloc alloc s = Null \<and> (\<exists>n. alloc n = None)
      \<or> (\<exists>s'. asn_realloc alloc s = Ret s' \<and> rb_wf s' \<and> rb_bytes s' = rb_bytes s
            \<and> length (rb_pkt s) + 256 \<le> length (rb_pkt s')))
    \<and> (fold (\<lambda>b m. cbind m (store_byte alloc r b)) bs (Ret s) = Null \<and> \<not> can_grow alloc r
      \<or> (\<exists>s'. fold (\<lambda>b m. cbind m (store_byte alloc r b)) bs (Ret s) = Ret s' \<and> rb_wf s' \<and> rb_bytes s' = rev bs @ rb_bytes s))"
  using asn_realloc_cases [OF assms, of alloc] store_buffer.put_all [OF assms, of alloc r bs]
  by (auto simp: can_grow_def split: cres.splits)

theorem asn_realloc_keeps_contents_witness:
  "\<exists>s'. fold (\<lambda>b m. cbind m (store_byte (\<lambda>n. Some (\<lambda>i. 0)) True b)) [1, 2] (Ret \<lparr>rb_pkt = [9], rb_off = 1\<rparr>) = Ret s'
     \<and> rb_wf s' \<and> rb_bytes s' = rev [1, 2] @ rb_bytes \<lparr>rb_pkt = [9], rb_off = 1\<rparr>"
proof -
  have "rb_wf \<lparr>rb_pkt = [9], rb_off = 1\<rparr>" by (simp add: rb_wf_def)
  from asn_realloc_keeps_contents [OF this, of "\<lambda>n. Some (\<lambda>i. 0)" True "[1, 2]"]
  show ?thesis by (simp only: can_grow_def) simp
qed

end
