(* ===== verification/AsnFloat.thy ===== *)
theory AsnFloat
  imports AsnRbuild
begin

text \<open>
  The floating point types of \<^verbatim>\<open>snmplib/asn1.c\<close>, which are wrapped in an Opaque. The code only moves their bytes, so
  a \<open>float\<close> is its 32 bits and a \<open>double\<close> its 64 bits; the unions are read on a little-endian machine.
\<close>

section \<open>The unions\<close>

text \<open>The bytes of an \<open>int\<close> in memory, the \<open>int\<close> of four bytes, and \<open>htonl\<close> (the same function as \<open>ntohl\<close>).\<close>

definition mem32 :: "u_int \<Rightarrow> bytes" where
  "mem32 w = [word_of_nat (unat w), word_of_nat (unat w div 256), word_of_nat (unat w div 256 ^ 2), word_of_nat (unat w div 256 ^ 3)]"

definition int32_of :: "bytes \<Rightarrow> u_int" where
  "int32_of bs = word_of_nat (le_val bs)"

definition htonl :: "u_int \<Rightarrow> u_int" where
  "htonl w = int32_of (rev (mem32 w))"

text \<open>A \<open>double\<close> in memory, and as two values of \<open>int\<close>.\<close>

definition double_ints :: "u_long \<Rightarrow> u_int \<times> u_int" where
  "double_ints d = (word_of_nat (unat d), word_of_nat (unat d div 2 ^ 32))"

definition double_of_ints :: "u_int \<times> u_int \<Rightarrow> u_long" where
  "double_of_ints i = word_of_nat (unat (fst i) + 2 ^ 32 * unat (snd i))"

abbreviation (input) ASN_OPAQUE_FLOAT_BER_LEN :: nat where "ASN_OPAQUE_FLOAT_BER_LEN \<equiv> 7"
abbreviation (input) ASN_OPAQUE_DOUBLE_BER_LEN :: nat where "ASN_OPAQUE_DOUBLE_BER_LEN \<equiv> 11"

section \<open>Decoders\<close>

text \<open>
  The unwrapping both share, behind the header: the special tag in an Opaque of the right length. The result is the
  position, the length, the type and \<open>*datalength\<close>, which is the length of the wrapper then.
\<close>

definition asn_unwrap :: "u_char \<Rightarrow> nat \<Rightarrow> bytes \<Rightarrow> nat \<Rightarrow> u_char \<Rightarrow> nat \<Rightarrow> (bytes \<times> nat \<times> u_char \<times> nat) cres" where
  "asn_unwrap tag ber_len bufp asn_length t datalength =
     cbind (if t = ASN_OPAQUE \<and> asn_length = ber_len
            then cbind (deref bufp) (\<lambda>b0. if b0 = ASN_OPAQUE_TAG1 then deref (tl bufp) else Ret 0)
            else Ret 0) (\<lambda>b1.
       if b1 = tag then cbind (asn_open_wrapped bufp asn_length) (\<lambda>(bufp', len). Ret (bufp', len, tag, asn_length))
       else Ret (bufp, asn_length, t, datalength))"

text \<open>The returned position is that of the value, not the one behind it.\<close>

definition asn_parse_float :: "bytes \<Rightarrow> nat \<Rightarrow> nat \<Rightarrow> (bytes \<times> nat \<times> u_char \<times> u_int) cres" where
  "asn_parse_float data datalength floatsize =
     (if floatsize \<noteq> 4 then Null
      else cbind (asn_open (\<lambda>t. True) data datalength) (\<lambda>(bufp, asn_length, t, hdr).
        cbind (asn_unwrap ASN_OPAQUE_FLOAT ASN_OPAQUE_FLOAT_BER_LEN bufp asn_length t datalength) (\<lambda>(bufp, asn_length, t, datalength).
          if t \<noteq> ASN_OPAQUE_FLOAT then Null
          else if asn_length \<noteq> 4 then Null
          else let datalength = size_sub datalength (c_int asn_length + int (length data - length bufp)) in
            cbind (asn_copy bufp asn_length) (\<lambda>c. Ret (bufp, datalength, t, htonl (int32_of c))))))"

definition asn_parse_double :: "bytes \<Rightarrow> nat \<Rightarrow> nat \<Rightarrow> (bytes \<times> nat \<times> u_char \<times> u_long) cres" where
  "asn_parse_double data datalength doublesize =
     (if doublesize \<noteq> 8 then Null
      else cbind (asn_open (\<lambda>t. True) data datalength) (\<lambda>(bufp, asn_length, t, hdr).
        if t = ASN_OPAQUE \<and> asn_length < 2 then Null
        else cbind (asn_unwrap ASN_OPAQUE_DOUBLE ASN_OPAQUE_DOUBLE_BER_LEN bufp asn_length t datalength) (\<lambda>(bufp, asn_length, t, datalength).
          if t \<noteq> ASN_OPAQUE_DOUBLE then Null
          else if asn_length \<noteq> 8 then Null
          else let datalength = size_sub datalength (c_int asn_length + int (length data - length bufp)) in
            cbind (asn_copy bufp asn_length) (\<lambda>c.
              let int0 = int32_of (take 4 c); int1 = int32_of (drop 4 c); tmp = htonl int0
              in Ret (bufp, datalength, t, double_of_ints (htonl int1, tmp))))))"

section \<open>Encoders\<close>

definition asn_build_float :: "nat \<Rightarrow> u_char \<Rightarrow> u_int \<Rightarrow> nat \<Rightarrow> (bytes \<times> nat) cres" where
  "asn_build_float datalength type floatp floatsize =
     (if floatsize \<noteq> 4 then Null
      else cbind (asn_build_header_check (asn_build_header datalength ASN_OPAQUE (floatsize + 3)) (floatsize + 3)) (\<lambda>(hdr, datalength).
        Ret (hdr @ [ASN_OPAQUE_TAG1, ASN_OPAQUE_FLOAT, word_of_nat floatsize] @ mem32 (htonl floatp), datalength - 3 - floatsize)))"

definition asn_build_double :: "nat \<Rightarrow> u_char \<Rightarrow> u_long \<Rightarrow> nat \<Rightarrow> (bytes \<times> nat) cres" where
  "asn_build_double datalength type doublep doublesize =
     (if doublesize \<noteq> 8 then Null
      else cbind (asn_build_header_check (asn_build_header datalength ASN_OPAQUE (doublesize + 3)) (doublesize + 3)) (\<lambda>(hdr, datalength).
        let (int0, int1) = double_ints doublep; tmp = htonl int0 in
        Ret (hdr @ [ASN_OPAQUE_TAG1, ASN_OPAQUE_DOUBLE, word_of_nat doublesize] @ mem32 (htonl int1) @ mem32 tmp,
             datalength - 3 - doublesize)))"

text \<open>The special tag and length in front of the contents, and the wrapper.\<close>

definition asn_rbuild_wrap :: "allocator \<Rightarrow> bool \<Rightarrow> u_char \<Rightarrow> nat \<Rightarrow> rbuf \<Rightarrow> rbuf cres" where
  "asn_rbuild_wrap alloc r tag sz s =
     cbind (asn_put (word_of_nat sz) s) (\<lambda>s.
       cbind (asn_put tag s) (\<lambda>s.
         cbind (asn_put ASN_OPAQUE_TAG1 s) (asn_rbuild_finish alloc r ASN_OPAQUE (sz + 3))))"

definition asn_realloc_rbuild_float :: "allocator \<Rightarrow> bool \<Rightarrow> u_char \<Rightarrow> u_int \<Rightarrow> nat \<Rightarrow> rbuf \<Rightarrow> rbuf cres" where
  "asn_realloc_rbuild_float alloc r type floatp floatsize s =
     (if floatsize \<noteq> 4 \<or> floatsize > 122 then Null
      else cbind (asn_need alloc r (floatsize + 3) s) (\<lambda>s.
        cbind (asn_put_block (mem32 (htonl floatp)) s) (asn_rbuild_wrap alloc r ASN_OPAQUE_FLOAT floatsize)))"

definition asn_realloc_rbuild_double :: "allocator \<Rightarrow> bool \<Rightarrow> u_char \<Rightarrow> u_long \<Rightarrow> nat \<Rightarrow> rbuf \<Rightarrow> rbuf cres" where
  "asn_realloc_rbuild_double alloc r type doublep doublesize s =
     (if doublesize \<noteq> 8 \<or> doublesize > 122 then Null
      else cbind (asn_need alloc r (doublesize + 3) s) (\<lambda>s.
        let (int0, int1) = double_ints doublep; tmp = htonl int0 in
        cbind (asn_put_block (mem32 (htonl int1) @ mem32 tmp) s) (asn_rbuild_wrap alloc r ASN_OPAQUE_DOUBLE doublesize)))"

section \<open>Bytes of the unions\<close>

lemma length_mem32 [simp]: "length (mem32 w) = 4" by (simp add: mem32_def)

lemma unat_nat_8: "unat (word_of_nat n :: u_char) = n mod 256"
  and unat_nat_32: "unat (word_of_nat n :: u_int) = n mod 2 ^ 32"
  by (simp_all only: unat_of_nat) simp_all

lemma unat_8_le: "unat (b :: u_char) \<le> 255"
  using unat_byte [of b] by linarith

lemma digit_byte: "word_of_nat (unat (b :: u_char) + 256 * k) = b" "(unat b + 256 * k) div 256 = k"
proof -
  show "word_of_nat (unat b + 256 * k) = b" using unat_byte [of b] by (simp only: word_unat_eq_iff unat_nat_8) simp
  show "(unat b + 256 * k) div 256 = k" using unat_byte [of b] by simp
qed

lemma mem32_int32_of:
  assumes "length bs = 4"
  shows "mem32 (int32_of bs) = bs"
proof -
  obtain a b c d where bs: "bs = [a, b, c, d]" using assms by (auto simp: numeral_eq_Suc length_Suc_conv)
  have n: "unat (int32_of bs) = unat a + 256 * (unat b + 256 * (unat c + 256 * (unat d + 256 * 0)))"
    unfolding int32_of_def unat_nat_32 bs le_val.simps
    using unat_8_le [of a] unat_8_le [of b] unat_8_le [of c] unat_8_le [of d] by (intro mod_less) simp
  have "unat (int32_of bs) div 256 = unat b + 256 * (unat c + 256 * (unat d + 256 * 0))"
    "unat (int32_of bs) div 256 ^ 2 = unat c + 256 * (unat d + 256 * 0)" "unat (int32_of bs) div 256 ^ 3 = unat d + 256 * 0"
    unfolding n by (simp_all only: digit_byte power2_eq_square power3_eq_cube div_mult2_eq)
  then show ?thesis using n by (simp only: mem32_def digit_byte) (simp only: bs)
qed

lemma four_digits: "(w :: nat) < 256 ^ 4 \<Longrightarrow> w mod 256 + 256 * (w div 256 mod 256 + 256 * (w div 256 ^ 2 mod 256 + 256 * (w div 256 ^ 3 mod 256))) = w"
proof -
  assume l: "w < 256 ^ 4"
  have "w div 256 ^ 3 < 256" using l by (simp add: div_less_iff_less_mult)
  moreover have "w div 256 ^ 3 = w div 256 ^ 2 div 256" "w div 256 ^ 2 = w div 256 div 256"
    by (simp_all add: div_mult2_eq [symmetric])
  moreover have "a mod 256 + 256 * (a div 256) = a" for a :: nat by simp
  ultimately show ?thesis by (metis mod_less)
qed

lemma int32_of_mem32 [simp]: "int32_of (mem32 w) = w"
proof -
  have l: "unat w < 256 ^ 4" using unsigned_less [of w, where ?'a = nat] by simp
  have "le_val (mem32 w) = unat w"
    using four_digits [OF l] by (simp only: mem32_def le_val.simps unat_nat_8 mult_0_right add_0_right)
  then show ?thesis by (simp add: int32_of_def)
qed

lemma mem32_htonl: "mem32 (htonl w) = rev (mem32 w)" by (simp add: htonl_def mem32_int32_of)

lemma htonl_htonl [simp]: "htonl (htonl w) = w" by (simp add: htonl_def [of "htonl w"] mem32_htonl)

lemma double_of_ints [simp]: "double_of_ints (double_ints d) = d"
proof -
  have "unat d div 2 ^ 32 < 2 ^ 32" using unsigned_less [of d, where ?'a = nat] by (simp add: div_less_iff_less_mult)
  then have "unat (fst (double_ints d)) + 2 ^ 32 * unat (snd (double_ints d)) = unat d"
    by (simp only: double_ints_def fst_conv snd_conv unat_nat_32 mod_less) simp
  then show ?thesis by (simp only: double_of_ints_def) simp
qed

section \<open>Safety\<close>

lemma asn_unwrap_bind:
  assumes "dl \<le> length data" "2 \<le> hdr" "hdr + n \<le> dl" "2 \<le> ber_len" "n < 2 ^ 64" "Q Null" "tag \<noteq> 0"
    and "\<And>h m t dl'. 2 \<le> h \<Longrightarrow> h + m \<le> dl \<Longrightarrow> Q (f (drop h data, m, t, dl'))"
  shows "Q (cbind (asn_unwrap tag ber_len (drop hdr data) n t dl0) f)"
proof (cases "t = ASN_OPAQUE \<and> n = ber_len")
  case True
  then have d: "deref (drop hdr data) = Ret (data ! hdr)" "deref (tl (drop hdr data)) = Ret (data ! Suc hdr)"
    using assms(1,3,4) by (auto simp: tl_drop drop_Suc [symmetric] simp del: drop_Suc)
  define b1 where "b1 = (if data ! hdr = ASN_OPAQUE_TAG1 then data ! Suc hdr else 0)"
  have b: "cbind (if t = ASN_OPAQUE \<and> n = ber_len then cbind (deref (drop hdr data)) (\<lambda>b0. if b0 = ASN_OPAQUE_TAG1 then deref (tl (drop hdr data)) else Ret 0)
            else Ret 0) g = g b1" for g :: "u_char \<Rightarrow> (bytes \<times> nat \<times> u_char \<times> nat) cres"
    using d True by (simp add: b1_def)
  have "Q (cbind (cbind (asn_open_wrapped (drop hdr data) n) (\<lambda>(bufp', len). Ret (bufp', len, tag, n))) f)"
    unfolding cbind_assoc
  proof (rule asn_open_wrapped_bind [where Q = Q])
    fix h m assume "2 \<le> h" "h + m \<le> n"
    then show "Q (cbind (case (drop h (drop hdr data), m) of (bufp', len) \<Rightarrow> Ret (bufp', len, tag, n)) f)"
      using assms(8) [of "h + hdr" m tag n] assms(2,3) by (simp add: add.commute)
  qed (use True assms in auto)
  then show ?thesis using assms(8) [OF assms(2,3), of t dl0] unfolding asn_unwrap_def b by simp
next
  case False
  then show ?thesis using assms(8) [OF assms(2,3), of t dl0] assms(7)
    unfolding asn_unwrap_def if_not_P [OF False] by simp
qed


lemma asn_parse_float_ok:
  assumes "dl \<le> length data" "dl < 2 ^ 64"
  shows "parse64_ok data dl (asn_parse_float data dl sz)"
proof (cases "sz = 4")
  case True
  have "parse64_ok data dl (cbind (asn_unwrap ASN_OPAQUE_FLOAT 7 (drop hdr data) n t dl) (\<lambda>(bufp, asn_length, t, datalength).
          if t \<noteq> ASN_OPAQUE_FLOAT then Null
          else if asn_length \<noteq> 4 then Null
          else let datalength = size_sub datalength (c_int asn_length + int (length data - length bufp)) in
            cbind (asn_copy bufp asn_length) (\<lambda>c. Ret (bufp, datalength, t, htonl (int32_of c)))))"
    if "2 \<le> hdr" "hdr + n \<le> dl" for hdr n t
    by (rule asn_unwrap_bind [where Q = "parse64_ok data dl", OF assms(1) that])
      (use that assms in \<open>auto simp: parse64_ok_def\<close>)
  then show ?thesis
    unfolding asn_parse_float_def if_not_P [OF not_not [THEN iffD2, OF True]]
    using assms by (intro open_bind [where Q = "parse64_ok data dl"]) auto
qed (simp add: asn_parse_float_def)

lemma asn_parse_double_ok:
  assumes "dl \<le> length data" "dl < 2 ^ 64"
  shows "parse64_ok data dl (asn_parse_double data dl sz)"
proof (cases "sz = 8")
  case True
  have "parse64_ok data dl (cbind (asn_unwrap ASN_OPAQUE_DOUBLE 11 (drop hdr data) n t dl) (\<lambda>(bufp, asn_length, t, datalength).
          if t \<noteq> ASN_OPAQUE_DOUBLE then Null
          else if asn_length \<noteq> 8 then Null
          else let datalength = size_sub datalength (c_int asn_length + int (length data - length bufp)) in
            cbind (asn_copy bufp asn_length) (\<lambda>c.
              let int0 = int32_of (take 4 c); int1 = int32_of (drop 4 c); tmp = htonl int0
              in Ret (bufp, datalength, t, double_of_ints (htonl int1, tmp)))))"
    if "2 \<le> hdr" "hdr + n \<le> dl" for hdr n t
    by (rule asn_unwrap_bind [where Q = "parse64_ok data dl", OF assms(1) that])
      (use that assms in \<open>auto simp: parse64_ok_def\<close>)
  then show ?thesis
    unfolding asn_parse_double_def if_not_P [OF not_not [THEN iffD2, OF True]]
    using assms by (intro open_bind [where Q = "parse64_ok data dl"]) auto
qed (simp add: asn_parse_double_def)

section \<open>Round trips\<close>

lemma nlength_short:
  "unat b < 128 \<Longrightarrow> unat b + 1 \<le> n \<Longrightarrow> asn_parse_nlength (b # bs) n = Ret (bs, unat b)"
  by (simp add: asn_parse_nlength_def and_80 size_add_def)

lemma asn_build_float_bytes:
  assumes "asn_build_float dl t v 4 = Ret (bs, dl')"
  shows "bs = [ASN_OPAQUE, 7, ASN_OPAQUE_TAG1, ASN_OPAQUE_FLOAT, 4] @ mem32 (htonl v)" "length bs + dl' = dl"
  using assms by (auto simp: asn_build_float_def cbind_eq_Ret header_check_Ret asn_build_header_def asn_build_length_def split: if_splits)

lemma asn_build_double_bytes:
  assumes "asn_build_double dl t v 8 = Ret (bs, dl')"
  shows "bs = [ASN_OPAQUE, 11, ASN_OPAQUE_TAG1, ASN_OPAQUE_DOUBLE, 8] @ mem32 (htonl (snd (double_ints v))) @ mem32 (htonl (fst (double_ints v)))"
    "length bs + dl' = dl"
  using assms by (auto simp: asn_build_double_def cbind_eq_Ret header_check_Ret asn_build_header_def asn_build_length_def Let_def split: if_splits prod.splits)

lemma wrapper_sizes: "size_sub 7 2 = 5" "size_sub 11 2 = 9" by (simp_all add: size_sub_def)

lemma asn_float_roundtrip:
  assumes "asn_build_float dl t v 4 = Ret (bs, dl')" "m < 2 ^ 31"
  shows "\<exists>p m'. asn_parse_float (bs @ rest) (length bs + m) 4 = Ret (p, m', ASN_OPAQUE_FLOAT, v)"
  using assms(2) unfolding asn_build_float_bytes(1) [OF assms(1)]
  by (simp add: asn_parse_float_def asn_open_def asn_unwrap_def asn_open_wrapped_def nlength_short wrapper_sizes Let_def)

lemma asn_double_roundtrip:
  assumes "asn_build_double dl t v 8 = Ret (bs, dl')" "m < 2 ^ 31"
  shows "\<exists>p m'. asn_parse_double (bs @ rest) (length bs + m) 8 = Ret (p, m', ASN_OPAQUE_DOUBLE, v)"
  using assms(2) unfolding asn_build_double_bytes(1) [OF assms(1)]
  by (simp add: asn_parse_double_def asn_open_def asn_unwrap_def asn_open_wrapped_def nlength_short wrapper_sizes Let_def)

lemma rbuild_wrap_prepends:
  assumes "rb_wf s" "rb_off s + 3 \<le> length (rb_pkt s)" "asn_build_header dl ASN_OPAQUE (n + 3) = Ret (hdr, dl')" "n \<le> 9" "n \<le> rb_off s"
  shows "prepends alloc r s (asn_rbuild_wrap alloc r t n s) (hdr @ [ASN_OPAQUE_TAG1, t, word_of_nat n])"
proof -
  have put: "rb_off s2 + 1 = rb_off s3 \<and> length (rb_pkt s3) = length (rb_pkt s2)" if "asn_put b s2 = Ret s3" for b s2 s3
    using that by (auto simp: asn_put_def split: if_splits)
  have "prepends alloc r s (asn_rbuild_wrap alloc r t n s) (((hdr @ [ASN_OPAQUE_TAG1]) @ [t]) @ [word_of_nat n])"
    unfolding asn_rbuild_wrap_def
  proof (rule prepends_bind)
    show "prepends alloc r s (asn_put (word_of_nat n) s) [word_of_nat n]" using assms(2) by (intro asn_put_prepends) simp
    fix s1 assume s1: "asn_put (word_of_nat n) s = Ret s1" "rb_wf s1"
    show "prepends alloc r s1 (cbind (asn_put t s1) (\<lambda>s. cbind (asn_put ASN_OPAQUE_TAG1 s) (asn_rbuild_finish alloc r ASN_OPAQUE (n + 3))))
        ((hdr @ [ASN_OPAQUE_TAG1]) @ [t])"
    proof (rule prepends_bind)
      show "prepends alloc r s1 (asn_put t s1) [t]" using assms(2) put [OF s1(1)] by (intro asn_put_prepends) simp
      fix s2 assume s2: "asn_put t s1 = Ret s2" "rb_wf s2"
      show "prepends alloc r s2 (cbind (asn_put ASN_OPAQUE_TAG1 s2) (asn_rbuild_finish alloc r ASN_OPAQUE (n + 3))) (hdr @ [ASN_OPAQUE_TAG1])"
      proof (rule prepends_bind)
        show "prepends alloc r s2 (asn_put ASN_OPAQUE_TAG1 s2) [ASN_OPAQUE_TAG1]"
          using assms(2) put [OF s1(1)] put [OF s2(1)] by (intro asn_put_prepends) simp
        fix s3 assume s3: "asn_put ASN_OPAQUE_TAG1 s2 = Ret s3" "rb_wf s3"
        show "prepends alloc r s3 (asn_rbuild_finish alloc r ASN_OPAQUE (n + 3) s3) hdr"
          using put [OF s1(1)] put [OF s2(1)] put [OF s3(1)] assms(4,5) by (intro rbuild_finish_prepends [OF s3(2) assms(3)]) simp_all
      qed
    qed
  qed
  then show ?thesis by simp
qed

lemma rbuild_wrapped_prepends:
  assumes "rb_wf s" "asn_build_header dl ASN_OPAQUE (n + 3) = Ret (hdr, dl')" "n \<le> 9" "length c = n"
  shows "prepends alloc r s (cbind (asn_need alloc r (n + 3) s) (\<lambda>s. cbind (asn_put_block c s) (asn_rbuild_wrap alloc r t n)))
    (hdr @ [ASN_OPAQUE_TAG1, t, word_of_nat n] @ c)"
proof (rule prepends_bind' [where xs = "[]"])
  show "prepends alloc r s (asn_need alloc r (n + 3) s) []" using asn_need_prepends [OF assms(1)] by blast
  fix s1 assume s1: "asn_need alloc r (n + 3) s = Ret s1" "rb_wf s1"
  then have room: "rb_off s1 + n + 3 \<le> length (rb_pkt s1)" using asn_need_prepends [OF assms(1), of alloc r "n + 3"] by auto
  show "prepends alloc r s1 (cbind (asn_put_block c s1) (asn_rbuild_wrap alloc r t n)) ((hdr @ [ASN_OPAQUE_TAG1, t, word_of_nat n]) @ c)"
  proof (rule prepends_bind)
    show "prepends alloc r s1 (asn_put_block c s1) c" using room assms(4) by (intro asn_put_block_prepends) simp
    fix s2 assume s2: "asn_put_block c s1 = Ret s2" "rb_wf s2"
    then have "rb_off s2 = rb_off s1 + n" "length (rb_pkt s2) = length (rb_pkt s1)"
      using assms(4) room by (auto simp: asn_put_block_def Let_def split: if_splits)
    then show "prepends alloc r s2 (asn_rbuild_wrap alloc r t n s2) (hdr @ [ASN_OPAQUE_TAG1, t, word_of_nat n])"
      using room by (intro rbuild_wrap_prepends [OF s2(2) _ assms(2,3)]) simp_all
  qed
qed simp

lemma rbuild_float_prepends:
  assumes "rb_wf s" "asn_build_float dl t v 4 = Ret (bs, dl')"
  shows "prepends alloc r s (asn_realloc_rbuild_float alloc r t v 4 s) bs"
proof -
  obtain hdr dl0 where h: "asn_build_header dl ASN_OPAQUE (4 + 3) = Ret (hdr, dl0)" "bs = hdr @ [ASN_OPAQUE_TAG1, ASN_OPAQUE_FLOAT, word_of_nat 4] @ mem32 (htonl v)"
    using assms(2) by (auto simp: asn_build_float_def cbind_eq_Ret header_check_Ret)
  show ?thesis using rbuild_wrapped_prepends [OF assms(1) h(1), of "mem32 (htonl v)" alloc r ASN_OPAQUE_FLOAT]
    by (simp add: asn_realloc_rbuild_float_def h(2))
qed

lemma rbuild_double_prepends:
  assumes "rb_wf s" "asn_build_double dl t v 8 = Ret (bs, dl')"
  shows "prepends alloc r s (asn_realloc_rbuild_double alloc r t v 8 s) bs"
proof -
  let ?c = "mem32 (htonl (snd (double_ints v))) @ mem32 (htonl (fst (double_ints v)))"
  obtain hdr dl0 where h: "asn_build_header dl ASN_OPAQUE (8 + 3) = Ret (hdr, dl0)" "bs = hdr @ [ASN_OPAQUE_TAG1, ASN_OPAQUE_DOUBLE, word_of_nat 8] @ ?c"
    using assms(2) by (auto simp: asn_build_double_def cbind_eq_Ret header_check_Ret Let_def case_prod_beta)
  show ?thesis using rbuild_wrapped_prepends [OF assms(1) h(1), of ?c alloc r ASN_OPAQUE_DOUBLE]
    by (simp add: asn_realloc_rbuild_double_def Let_def h(2) case_prod_beta)
qed

section \<open>Memory safety of the decoders\<close>

text \<open>
  C3. Memory safety of the BER decoders of \<^verbatim>\<open>snmplib/asn1.c\<close>: \<open>asn_parse_int\<close>, \<open>asn_parse_unsigned_int\<close>,
  \<open>asn_parse_string\<close>, \<open>asn_parse_null\<close>, \<open>asn_parse_objid\<close>, \<open>asn_parse_unsigned_int64\<close>, \<open>asn_parse_signed_int64\<close>,
  \<open>asn_parse_float\<close>, \<open>asn_parse_double\<close>, \<open>asn_parse_header\<close> and \<open>asn_parse_sequence\<close>. For every content of the buffer,
  when \<open>*datalength\<close> is at most the number of bytes in the buffer and below 2^31 (and, for OIDs, the caller's array has
  at least two elements), none of them reads a byte outside the buffer or stores outside the OID array. \<open>asn_parse_bitstring\<close>
  is weaker: it stays inside unless the bytes are a bit string of length 0 whose header ends at the very end of the
  buffer, where it reads the one byte behind it; with one readable byte behind \<open>*datalength\<close> it is safe as well.
\<close>

theorem asn_parse_memory_safe:
  assumes "dl \<le> length data" "dl < 2 ^ 31" "2 \<le> cap" "cap < 2 ^ 64"
  shows "asn_parse_int data dl sz \<noteq> Overrun \<and> asn_parse_unsigned_int data dl sz \<noteq> Overrun
    \<and> asn_parse_string data dl sz \<noteq> Overrun
    \<and> (asn_parse_bitstring data dl sz = Overrun \<longrightarrow>
         dl = length data \<and> asn_open (\<lambda>t. t = ASN_BIT_STR) data dl = Ret ([], 0, ASN_BIT_STR, dl))
    \<and> asn_parse_null data dl \<noteq> Overrun \<and> asn_parse_objid data dl cap \<noteq> Overrun
    \<and> asn_parse_unsigned_int64 data dl sz \<noteq> Overrun \<and> asn_parse_signed_int64 data dl sz \<noteq> Overrun
    \<and> asn_parse_float data dl sz \<noteq> Overrun \<and> asn_parse_double data dl sz \<noteq> Overrun
    \<and> asn_parse_header data dl \<noteq> Overrun \<and> asn_parse_sequence data dl ty \<noteq> Overrun"
proof -
  have b: "asn_parse_bitstring data dl sz = Overrun \<longrightarrow>
         dl = length data \<and> asn_open (\<lambda>t. t = ASN_BIT_STR) data dl = Ret ([], 0, ASN_BIT_STR, dl)"
    using asn_parse_bitstring_reads [OF assms(1), of sz] by auto
  have "dl < 2 ^ 64" using assms(2) by simp
  then show ?thesis
    by (intro conjI parse_ok_safe [OF asn_parse_int_ok] parse_ok_safe [OF asn_parse_unsigned_int_ok]
        parse_ok_safe [OF asn_parse_string_ok] b parse_ok_safe [OF asn_parse_null_ok] parse_ok_safe [OF asn_parse_objid_ok]
        parse64_ok_safe [OF asn_parse_unsigned_int64_ok] parse64_ok_safe [OF asn_parse_signed_int64_ok]
        parse64_ok_safe [OF asn_parse_float_ok] parse64_ok_safe [OF asn_parse_double_ok]
        header_ok_safe [OF asn_parse_header_ok] header_ok_safe [OF asn_parse_sequence_ok] assms)
qed

theorem asn_parse_memory_safe_witness:
  "asn_parse_objid [6, 3, 0x2B, 6, 0x81] 5 4 \<noteq> Overrun"
proof -
  have "5 \<le> length [6, 3, 0x2B, 6, 0x81 :: u_char]" "(5 :: nat) < 2 ^ 31" "(2 :: nat) \<le> 4" "(4 :: nat) < 2 ^ 64"
    by simp_all
  from asn_parse_memory_safe [OF this] show ?thesis by blast
qed

end
