(* ===== verification/Pdu.thy ===== *)
theory Pdu
  imports AsnFloat Oids
begin

text \<open>
  Variable bindings and PDUs on the wire: \<^verbatim>\<open>snmplib/snmp.c\<close>, the PDU codec and the SNMPv1 and v2c messages of
  \<^verbatim>\<open>snmplib/snmp_api.c\<close>, and the community header of \<^verbatim>\<open>snmplib/snmp_auth.c\<close>. As in \<open>AsnParse\<close> a
  pointer is the list of the bytes from there on and \<open>Null\<close> the error return; what a failing parser has stored in the
  PDU by then is dropped, since the callers throw the PDU away. Whether the allocations for the i-th variable of a
  message succeed is the argument \<open>mem\<close>; other allocations are taken to succeed.
\<close>

section \<open>Variables and PDUs\<close>

text \<open>The union \<open>val\<close> of a variable. Reading it as another member than the one stored is an \<open>Overrun\<close>.\<close>

datatype netsnmp_vardata =
    Val_none                       \<comment> \<open>the null pointer\<close>
  | Val_integer u_long
  | Val_string bytes               \<comment> \<open>\<open>string\<close> and \<open>bitstring\<close>\<close>
  | Val_objid oid
  | Val_counter64 counter64
  | Val_float u_int
  | Val_double u_long

record variable_list =
  vp_name :: oid
  vp_type :: u_char
  vp_val :: netsnmp_vardata
  vp_val_len :: nat

record netsnmp_pdu =
  pdu_version :: int
  pdu_command :: u_char
  pdu_reqid :: int
  pdu_errstat :: int               \<comment> \<open>\<open>non_repeaters\<close> of a GETBULK\<close>
  pdu_errindex :: int              \<comment> \<open>\<open>max_repetitions\<close>\<close>
  pdu_time :: u_long
  pdu_flags :: u_long
  pdu_variables :: "variable_list list"
  pdu_community :: "bytes option"
  pdu_community_len :: nat
  pdu_enterprise :: oid
  pdu_trap_type :: int
  pdu_specific_type :: int
  pdu_agent_addr :: bytes          \<comment> \<open>four bytes\<close>
  pdu_contextEngineID :: "bytes option"
  pdu_contextEngineIDLen :: nat
  pdu_contextName :: "bytes option"
  pdu_contextNameLen :: nat
  pdu_securityModel :: int
  pdu_securityLevel :: int

abbreviation (input) MAX_OID_LEN :: nat where "MAX_OID_LEN \<equiv> 128"
abbreviation (input) SNMP_MAX_PACKET_LEN :: nat where "SNMP_MAX_PACKET_LEN \<equiv> 0x7fffffff"
abbreviation (input) ASN_PRIV_STOP :: u_char where "ASN_PRIV_STOP \<equiv> 200"
abbreviation (input) MSG_GET :: u_char where "MSG_GET \<equiv> 0xA0"
abbreviation (input) MSG_GETNEXT :: u_char where "MSG_GETNEXT \<equiv> 0xA1"
abbreviation (input) MSG_RESPONSE :: u_char where "MSG_RESPONSE \<equiv> 0xA2"
abbreviation (input) MSG_SET :: u_char where "MSG_SET \<equiv> 0xA3"
abbreviation (input) MSG_TRAP :: u_char where "MSG_TRAP \<equiv> 0xA4"
abbreviation (input) MSG_GETBULK :: u_char where "MSG_GETBULK \<equiv> 0xA5"
abbreviation (input) MSG_INFORM :: u_char where "MSG_INFORM \<equiv> 0xA6"
abbreviation (input) MSG_TRAP2 :: u_char where "MSG_TRAP2 \<equiv> 0xA7"
abbreviation (input) MSG_REPORT :: u_char where "MSG_REPORT \<equiv> 0xA8"
abbreviation (input) UCD_MSG_FLAG_RESPONSE_PDU :: u_long where "UCD_MSG_FLAG_RESPONSE_PDU \<equiv> 0x100"
abbreviation (input) UCD_MSG_FLAG_EXPECT_RESPONSE :: u_long where "UCD_MSG_FLAG_EXPECT_RESPONSE \<equiv> 0x200"
abbreviation (input) UCD_MSG_FLAG_FORWARD_ENCODE :: u_long where "UCD_MSG_FLAG_FORWARD_ENCODE \<equiv> 0x8000"
abbreviation (input) UCD_MSG_FLAG_BULK_TOOBIG :: u_long where "UCD_MSG_FLAG_BULK_TOOBIG \<equiv> 0x10000"

section \<open>Parsing\<close>

text \<open>
  The result is the position behind the value, the name, the type and length of the value, the position of the
  value's header and \<open>*listlength\<close>. The length of the sequence limits the name and the value, but the position
  behind is that of the value. Moving a pointer behind the bytes there are is an \<open>Overrun\<close>.
\<close>

definition snmp_parse_var_op :: "bytes \<Rightarrow> nat \<Rightarrow> (bytes \<times> oid \<times> u_char \<times> nat \<times> bytes \<times> nat) cres" where
  "snmp_parse_var_op data listlength =
     cbind (asn_parse_sequence data listlength ASN_SEQUENCE_CON) (\<lambda>(d, var_op_len, _).
       cbind (asn_parse_objid d var_op_len MAX_OID_LEN) (\<lambda>(var_val, var_op_len, var_op_type, var_name).
         if var_op_type \<noteq> ASN_OBJECT_ID then Null
         else cbind (asn_parse_header var_val var_op_len) (\<lambda>(d, var_op_len, var_val_type).
           if var_op_len > length d then Overrun
           else let d = drop var_op_len d in
             Ret (d, var_name, var_val_type, var_op_len, var_val,
                  size_sub listlength (c_int (length data - length d))))))"

text \<open>
  The \<open>switch\<close> on the type in \<open>snmp_pdu_parse\<close>: type, value and length. The decoders are told that
  there are \<open>SNMP_MAX_PACKET_LEN\<close> bytes.
\<close>

definition snmp_parse_value :: "bytes \<Rightarrow> u_char \<Rightarrow> nat \<Rightarrow> (u_char \<times> netsnmp_vardata \<times> nat) cres" where
  "snmp_parse_value var_val type val_len =
     (let len = SNMP_MAX_PACKET_LEN in
      if type = ASN_INTEGER then
        cbind (asn_parse_int var_val len 8) (\<lambda>(_, _, t, v). Ret (t, Val_integer (word_of_int v), 8))
      else if type \<in> {ASN_COUNTER, ASN_GAUGE, ASN_TIMETICKS, ASN_UINTEGER} then
        cbind (asn_parse_unsigned_int var_val len 8) (\<lambda>(_, _, t, v). Ret (t, Val_integer v, 8))
      else if type \<in> {ASN_OPAQUE_COUNTER64, ASN_OPAQUE_U64, ASN_COUNTER64} then
        cbind (asn_parse_unsigned_int64 var_val len 16) (\<lambda>(_, _, t, v). Ret (t, Val_counter64 v, 16))
      else if type = ASN_OPAQUE_FLOAT then
        cbind (asn_parse_float var_val len 4) (\<lambda>(_, _, t, v). Ret (t, Val_float v, 4))
      else if type = ASN_OPAQUE_DOUBLE then
        cbind (asn_parse_double var_val len 8) (\<lambda>(_, _, t, v). Ret (t, Val_double v, 8))
      else if type = ASN_OPAQUE_I64 then
        cbind (asn_parse_signed_int64 var_val len 16) (\<lambda>(_, _, t, v). Ret (t, Val_counter64 v, 16))
      else if type = ASN_IPADDRESS \<and> val_len \<noteq> 4 then Null
      else if type \<in> {ASN_IPADDRESS, ASN_OCTET_STR, ASN_OPAQUE, ASN_NSAP} then
        cbind (asn_parse_string var_val len val_len) (\<lambda>(_, _, t, str). Ret (t, Val_string str, length str))
      else if type = ASN_OBJECT_ID then
        cbind (asn_parse_objid var_val len MAX_OID_LEN) (\<lambda>(_, _, t, objid). Ret (t, Val_objid objid, length objid * 8))
      else if type \<in> {SNMP_NOSUCHOBJECT, SNMP_NOSUCHINSTANCE, SNMP_ENDOFMIBVIEW, ASN_NULL} then
        Ret (type, Val_none, val_len)
      else if type = ASN_BIT_STR then
        cbind (asn_parse_bitstring var_val len val_len) (\<lambda>(_, _, t, str). Ret (t, Val_string str, length str))
      else Null)"

text \<open>The loop ends because each variable takes bytes.\<close>

lemma asn_parse_header_shrinks: "asn_parse_header data dl = Ret (d, n, t) \<Longrightarrow> length d < length data"
proof -
  assume h: "asn_parse_header data dl = Ret (d, n, t)"
  then obtain b where b: "deref data = Ret b" by (auto simp: asn_parse_header_def cbind_eq_Ret split: if_splits)
  then obtain r where r: "data = b # r" by (cases data) auto
  obtain p m where p: "asn_parse_nlength r (dl - 1) = Ret (p, m)" "asn_parse_header_contents p m b = Ret (d, n, t)"
    using h r by (auto simp: asn_parse_header_def cbind_eq_Ret split: if_splits)
  have "length p \<le> length r" using asn_parse_nlength_Ret [OF p(1)] by auto
  moreover have "length d \<le> length p"
    using p(2) by (auto simp: asn_parse_header_contents_def Let_def cbind_eq_Ret dest!: asn_parse_nlength_Ret split: if_splits)
  ultimately show ?thesis using r by simp
qed

lemma asn_parse_objid_shrinks: "asn_parse_objid data dl cap = Ret (d, n, t, v) \<Longrightarrow> length d \<le> length data"
proof -
  have sub: "asn_parse_subid b l v = Ret (b', l', v', c) \<Longrightarrow> length b' \<le> length b" for b l v b' l' v' c
    by (induction b l v rule: asn_parse_subid.induct) (fastforce simp: Let_def split: if_splits)+
  have loop: "asn_parse_objid_loop cap l left b subs = Ret (b', l', subs') \<Longrightarrow> length b' \<le> length b" for l left b subs b' l' subs'
  proof (induction cap l left b subs rule: asn_parse_objid_loop.induct)
    case (1 cap len left bufp subs)
    show ?case
    proof (cases "len > 0 \<and> left > 0")
      case True
      obtain q l2 v2 c where q: "asn_parse_subid bufp len 0 = Ret (q, l2, v2, c)"
        "\<not> (l2 = 0 \<and> c AND ASN_BIT8 \<noteq> 0)" "\<not> v2 > MAX_SUBID" "\<not> 1 + length subs \<ge> cap"
        "asn_parse_objid_loop cap l2 (left - 1) q (subs @ [v2]) = Ret (b', l', subs')"
        using 1(2) True by (subst (asm) asn_parse_objid_loop.simps) (auto split: cres.splits if_splits)
      show ?thesis using 1(1) [OF True q(1) refl refl refl q(2-5)] sub [OF q(1)] by simp
    qed (use 1(2) in \<open>auto simp: asn_parse_objid_loop.simps [of cap len]\<close>)
  qed
  assume "asn_parse_objid data dl cap = Ret (d, n, t, v)"
  then obtain p m t' h where o: "asn_open (\<lambda>t. t = ASN_OBJECT_ID) data dl = Ret (p, m, t', h)"
    and l: "\<exists>l' subs'. asn_parse_objid_loop cap m (size_sub cap 1) p [] = Ret (d, l', subs')"
    by (fastforce simp: asn_parse_objid_def cbind_eq_Ret Let_def split: if_splits prod.splits)
  have "length p \<le> length data"
    using o by (auto simp: asn_open_def cbind_eq_Ret dest!: asn_parse_nlength_Ret split: if_splits)
  then show "length d \<le> length data" using l loop by fastforce
qed

lemma snmp_parse_var_op_shrinks:
  assumes "snmp_parse_var_op data l = Ret (d, nm, t, n, v, l')"
  shows "length d < length data"
proof -
  obtain d1 l1 t1 l2 t2 d3 where p: "asn_parse_header data l = Ret (d1, l1, t1)"
    "asn_parse_objid d1 l1 MAX_OID_LEN = Ret (v, l2, t2, nm)" "asn_parse_header v l2 = Ret (d3, n, t)" "d = drop n d3"
    using assms by (auto simp: snmp_parse_var_op_def asn_parse_sequence_def cbind_eq_Ret Let_def split: if_splits)
  show ?thesis
    using asn_parse_header_shrinks [OF p(1)] asn_parse_objid_shrinks [OF p(2)] asn_parse_header_shrinks [OF p(3)] p(4) by simp
qed

function snmp_parse_varbinds :: "(nat \<Rightarrow> bool) \<Rightarrow> nat \<Rightarrow> bytes \<Rightarrow> nat \<Rightarrow> variable_list list cres" where
  "snmp_parse_varbinds mem i data len =
     (if c_int len > 0 then
        if \<not> mem i then Null
        else (case snmp_parse_var_op data len of
          Overrun \<Rightarrow> Overrun
        | Null \<Rightarrow> Null
        | Ret (data', name, type, val_len, var_val, len') \<Rightarrow>
            cbind (snmp_parse_value var_val type val_len) (\<lambda>(type, val, val_len).
              cbind (snmp_parse_varbinds mem (i + 1) data' len') (\<lambda>vs.
                Ret (\<lparr>vp_name = name, vp_type = type, vp_val = val, vp_val_len = val_len\<rparr> # vs))))
      else Ret [])"
  by pat_completeness auto
termination
  by (relation "measure (\<lambda>(mem, i, data, l). length data)") (auto dest: snmp_parse_var_op_shrinks)

declare snmp_parse_varbinds.simps [simp del]

text \<open>\<open>agent_addr\<close> keeps the bytes a shorter string does not replace. The type of the address is not looked at.\<close>

definition snmp_parse_trap :: "netsnmp_pdu \<Rightarrow> bytes \<Rightarrow> nat \<Rightarrow> (bytes \<times> nat \<times> netsnmp_pdu) cres" where
  "snmp_parse_trap pdu data len =
     cbind (asn_parse_objid data len MAX_OID_LEN) (\<lambda>(data, len, _, enterprise).
     cbind (asn_parse_string data len 4) (\<lambda>(data, len, _, addr).
     cbind (asn_parse_int data len 8) (\<lambda>(data, len, _, trap_type).
     cbind (asn_parse_int data len 8) (\<lambda>(data, len, _, specific_type).
     cbind (asn_parse_unsigned_int data len 8) (\<lambda>(data, len, _, time).
       Ret (data, len, pdu\<lparr>pdu_enterprise := enterprise, pdu_agent_addr := addr @ drop (length addr) (pdu_agent_addr pdu),
                           pdu_trap_type := trap_type, pdu_specific_type := specific_type, pdu_time := time\<rparr>))))))"

definition snmp_parse_fields :: "netsnmp_pdu \<Rightarrow> bytes \<Rightarrow> nat \<Rightarrow> (bytes \<times> nat \<times> netsnmp_pdu) cres" where
  "snmp_parse_fields pdu data len =
     cbind (asn_parse_int data len 8) (\<lambda>(data, len, _, reqid).
     cbind (asn_parse_int data len 8) (\<lambda>(data, len, _, errstat).
     cbind (asn_parse_int data len 8) (\<lambda>(data, len, _, errindex).
       Ret (data, len, pdu\<lparr>pdu_reqid := reqid, pdu_errstat := errstat, pdu_errindex := errindex\<rparr>))))"

definition snmp_pdu_parse :: "(nat \<Rightarrow> bool) \<Rightarrow> netsnmp_pdu \<Rightarrow> bytes \<Rightarrow> nat \<Rightarrow> netsnmp_pdu cres" where
  "snmp_pdu_parse mem pdu data len =
     cbind (asn_parse_header data len) (\<lambda>(data, len, msg_type).
       let pdu = pdu\<lparr>pdu_command := msg_type, pdu_flags := pdu_flags pdu AND NOT UCD_MSG_FLAG_RESPONSE_PDU\<rparr> in
       cbind (if msg_type = MSG_TRAP then snmp_parse_trap pdu data len
              else if msg_type \<in> {MSG_RESPONSE, MSG_REPORT} then
                snmp_parse_fields (pdu\<lparr>pdu_flags := pdu_flags pdu OR UCD_MSG_FLAG_RESPONSE_PDU\<rparr>) data len
              else if msg_type \<in> {MSG_TRAP2, MSG_INFORM, MSG_GET, MSG_GETNEXT, MSG_GETBULK, MSG_SET} then snmp_parse_fields pdu data len
              else Null) (\<lambda>(data, len, pdu).
         cbind (asn_parse_sequence data len ASN_SEQUENCE_CON) (\<lambda>(data, len, _).
           cbind (snmp_parse_varbinds mem 0 data len) (\<lambda>vs.
             Ret (if vs = [] then pdu else pdu\<lparr>pdu_variables := vs\<rparr>)))))"

text \<open>
  The header of a community based message: version and community, which fits in the caller's \<open>slen\<close> bytes. The zero
  behind the community, \<open>psid[SNMP_MIN(*slen, origlen - 1)] = 0\<close>, replaces its last byte when it fills the buffer.
\<close>

definition snmp_comstr_parse :: "bytes \<Rightarrow> nat \<Rightarrow> nat \<Rightarrow> (bytes \<times> nat \<times> int \<times> bytes) cres" where
  "snmp_comstr_parse data len slen =
     cbind (asn_parse_sequence data len ASN_SEQUENCE_CON) (\<lambda>(data, len, _).
     cbind (asn_parse_int data len 8) (\<lambda>(data, len, _, ver).
     cbind (asn_parse_string data len slen) (\<lambda>(data, len, _, psid).
       if slen = 0 then Overrun
       else Ret (data, len, ver, if length psid = slen then psid[slen - 1 := 0] else psid))))"

abbreviation (input) SNMPERR_BAD_VERSION :: int where "SNMPERR_BAD_VERSION \<equiv> -14"

definition snmp_parse_version :: "bytes \<Rightarrow> nat \<Rightarrow> int cres" where
  "snmp_parse_version data len =
     (case asn_parse_sequence data len ASN_SEQUENCE_CON of
        Overrun \<Rightarrow> Overrun
      | Null \<Rightarrow> Ret SNMPERR_BAD_VERSION
      | Ret (data, len, _) \<Rightarrow>
          (case asn_parse_int data len 8 of
             Overrun \<Rightarrow> Overrun
           | Null \<Rightarrow> Ret SNMPERR_BAD_VERSION
           | Ret (_, _, t, version) \<Rightarrow> if t \<noteq> ASN_INTEGER then Ret SNMPERR_BAD_VERSION
                                     else Ret (c_int (nat (version mod 2 ^ 64)))))"

text \<open>
  The SNMPv1 and v2c branch of \<open>_snmp_parse\<close>, for a session of version \<open>sess_version\<close> (-1 for any). The
  authenticator of the session is a function of the message behind its header and the community; \<open>None\<close> is no
  authenticator. \<open>disabled\<close> says which versions the default store switches off. The result is the PDU, or \<open>Null\<close> for an error; a version of neither kind is not handled here.
\<close>

definition snmp_parse_v1v2c ::
    "(nat \<Rightarrow> bool) \<Rightarrow> (bytes \<Rightarrow> nat \<Rightarrow> bytes \<Rightarrow> (bytes \<times> nat) cres) option \<Rightarrow> (int \<Rightarrow> bool) \<Rightarrow> int \<Rightarrow> netsnmp_pdu \<Rightarrow> bytes \<Rightarrow> nat \<Rightarrow> netsnmp_pdu cres" where
  "snmp_parse_v1v2c mem authenticator disabled sess_version pdu data len =
     cbind (if sess_version \<noteq> -1 then Ret sess_version else snmp_parse_version data len) (\<lambda>version.
       if version \<notin> {0, 1} \<or> disabled version then Null
       else cbind (snmp_comstr_parse data len 256) (\<lambda>(data, len, version, community).
         if version \<noteq> sess_version \<and> sess_version \<noteq> -1 then Null
         else let pdu = pdu\<lparr>pdu_version := version, pdu_securityLevel := 1,
                            pdu_securityModel := (if version = 0 then 1 else 2),
                            pdu_community := (if community = [] then None else Some community),
                            pdu_community_len := length community\<rparr> in
           cbind (case authenticator of None \<Rightarrow> Ret (data, len) | Some f \<Rightarrow> f data len community) (\<lambda>(data, len).
             snmp_pdu_parse mem pdu data len)))"

text \<open>The scoped PDU of SNMPv3; the result is the position of the PDU, the bytes left and the PDU.\<close>

definition snmpv3_scopedPDU_parse :: "netsnmp_pdu \<Rightarrow> bytes \<Rightarrow> nat \<Rightarrow> (bytes \<times> nat \<times> netsnmp_pdu) cres" where
  "snmpv3_scopedPDU_parse pdu cp len =
     cbind (asn_parse_sequence cp len ASN_SEQUENCE_CON) (\<lambda>(data, _, _).
       let len = size_sub len (int (length cp - length data)) in
       cbind (asn_parse_string data len (pdu_contextEngineIDLen pdu)) (\<lambda>(data, len, _, engineID).
       cbind (asn_parse_string data len 256) (\<lambda>(data, len, _, context).
       cbind (asn_parse_header data len) (\<lambda>(_, _, type).
         Ret (data, len, pdu\<lparr>pdu_contextEngineID := Some engineID, pdu_contextEngineIDLen := length engineID,
                             pdu_contextName := Some context, pdu_contextNameLen := length context,
                             pdu_command := type\<rparr>)))))"

section \<open>Forward encoding\<close>

text \<open>Reading the value of a variable as a member of the union.\<close>

definition as_integer :: "netsnmp_vardata \<Rightarrow> u_long cres" where
  "as_integer v = (case v of Val_integer i \<Rightarrow> Ret i | _ \<Rightarrow> Overrun)"

definition as_counter64 :: "netsnmp_vardata \<Rightarrow> counter64 cres" where
  "as_counter64 v = (case v of Val_counter64 c \<Rightarrow> Ret c | _ \<Rightarrow> Overrun)"

definition as_float :: "netsnmp_vardata \<Rightarrow> u_int cres" where
  "as_float v = (case v of Val_float f \<Rightarrow> Ret f | _ \<Rightarrow> Overrun)"

definition as_double :: "netsnmp_vardata \<Rightarrow> u_long cres" where
  "as_double v = (case v of Val_double d \<Rightarrow> Ret d | _ \<Rightarrow> Overrun)"

definition as_string :: "netsnmp_vardata \<Rightarrow> bytes option cres" where
  "as_string v = (case v of Val_string s \<Rightarrow> Ret (Some s) | Val_none \<Rightarrow> Ret None | _ \<Rightarrow> Overrun)"

definition as_objid :: "nat \<Rightarrow> netsnmp_vardata \<Rightarrow> oid cres" where \<comment> \<open>the first \<open>n\<close> sub-identifiers\<close>
  "as_objid n v = (if n = 0 then Ret [] else case v of Val_objid x \<Rightarrow> if n \<le> length x then Ret (take n x) else Overrun | _ \<Rightarrow> Overrun)"

abbreviation (input) null_types :: "u_char set" where
  "null_types \<equiv> {ASN_NULL, SNMP_NOSUCHOBJECT, SNMP_NOSUCHINSTANCE, SNMP_ENDOFMIBVIEW}"
abbreviation (input) string_types :: "u_char set" where
  "string_types \<equiv> {ASN_OCTET_STR, ASN_IPADDRESS, ASN_OPAQUE, ASN_NSAP}"
abbreviation (input) uint_types :: "u_char set" where
  "uint_types \<equiv> {ASN_GAUGE, ASN_COUNTER, ASN_TIMETICKS, ASN_UINTEGER}"
abbreviation (input) uint64_types :: "u_char set" where
  "uint64_types \<equiv> {ASN_OPAQUE_COUNTER64, ASN_OPAQUE_U64, ASN_COUNTER64}"

definition snmp_build_value :: "nat \<Rightarrow> u_char \<Rightarrow> nat \<Rightarrow> netsnmp_vardata \<Rightarrow> (bytes \<times> nat) cres" where
  "snmp_build_value dl type val_len val =
     (if type = ASN_INTEGER then cbind (as_integer val) (\<lambda>i. asn_build_int dl type (sint i) val_len)
      else if type \<in> uint_types then cbind (as_integer val) (\<lambda>i. asn_build_unsigned_int dl type i val_len)
      else if type \<in> uint64_types then cbind (as_counter64 val) (\<lambda>c. asn_build_unsigned_int64 dl type c val_len)
      else if type \<in> string_types then cbind (as_string val) (\<lambda>s. asn_build_string dl type s val_len)
      else if type = ASN_OBJECT_ID then cbind (as_objid (val_len div 8) val) (asn_build_objid dl type)
      else if type \<in> null_types then asn_build_null dl type
      else if type = ASN_BIT_STR then cbind (as_string val) (\<lambda>s. asn_build_bitstring dl type s val_len)
      else if type = ASN_OPAQUE_FLOAT then cbind (as_float val) (\<lambda>f. asn_build_float dl type f val_len)
      else if type = ASN_OPAQUE_DOUBLE then cbind (as_double val) (\<lambda>d. asn_build_double dl type d val_len)
      else if type = ASN_OPAQUE_I64 then cbind (as_counter64 val) (\<lambda>c. asn_build_signed_int64 dl type c val_len)
      else Null)"

text \<open>
  The header of the variable binding is written at the end, with \<open>asn_build_sequence(dataPtr, &sequenceLen, .., headerLen)\<close>:
  the length of the contents is the room for the header, and the length in the header is that of the header. When the
  contents were shorter than four bytes the header would not be written at all.
\<close>

definition snmp_build_var_op :: "nat \<Rightarrow> variable_list \<Rightarrow> (bytes \<times> nat) cres" where
  "snmp_build_var_op listlength vp =
     (let headerLen = 4 in
      if listlength < headerLen then Null
      else cbind (asn_build_objid (listlength - headerLen) ASN_OBJECT_ID (vp_name vp)) (\<lambda>(name, dl).
        cbind (snmp_build_value dl (vp_type vp) (vp_val_len vp) (vp_val vp)) (\<lambda>(val, dl).
          let sequenceLen = length name + length val in
          case asn_build_sequence sequenceLen ASN_SEQUENCE_CON headerLen of
            Ret (hdr, _) \<Rightarrow> Ret (hdr @ name @ val, dl)
          | _ \<Rightarrow> Overrun)))"

text \<open>
  The loop over the variables: the bytes, the room left and the variables written. For a GETBULK response that is too
  big it stops at the first variable that does not fit behind another one. \<open>some\<close> says that one has been written.
\<close>

fun snmp_build_varbinds :: "bool \<Rightarrow> bool \<Rightarrow> nat \<Rightarrow> variable_list list \<Rightarrow> (bytes \<times> nat \<times> variable_list list) cres" where
  "snmp_build_varbinds toobig some dl [] = Ret ([], dl, [])"
| "snmp_build_varbinds toobig some dl (vp # vs) =
     (if vp_type vp = ASN_PRIV_STOP then Ret ([], dl, if some then [] else vp # vs)
      else case snmp_build_var_op dl vp of
        Overrun \<Rightarrow> Overrun
      | Null \<Rightarrow> if some \<and> toobig then Ret ([], dl, []) else Null
      | Ret (bs, dl) \<Rightarrow> cbind (snmp_build_varbinds toobig True dl vs) (\<lambda>(bs', dl, vs'). Ret (bs @ bs', dl, vp # vs')))"

definition snmp_build_fields :: "nat \<Rightarrow> netsnmp_pdu \<Rightarrow> (bytes \<times> nat) cres" where
  "snmp_build_fields dl pdu =
     (if pdu_command pdu \<noteq> MSG_TRAP then
        cbind (asn_build_int dl ASN_INTEGER (pdu_reqid pdu) 8) (\<lambda>(b1, dl).
        cbind (asn_build_int dl ASN_INTEGER (pdu_errstat pdu) 8) (\<lambda>(b2, dl).
        cbind (asn_build_int dl ASN_INTEGER (pdu_errindex pdu) 8) (\<lambda>(b3, dl). Ret (b1 @ b2 @ b3, dl))))
      else
        cbind (asn_build_objid dl ASN_OBJECT_ID (pdu_enterprise pdu)) (\<lambda>(b1, dl).
        cbind (asn_build_string dl ASN_IPADDRESS (Some (pdu_agent_addr pdu)) 4) (\<lambda>(b2, dl).
        cbind (asn_build_int dl ASN_INTEGER (pdu_trap_type pdu) 8) (\<lambda>(b3, dl).
        cbind (asn_build_int dl ASN_INTEGER (pdu_specific_type pdu) 8) (\<lambda>(b4, dl).
        cbind (asn_build_unsigned_int dl ASN_TIMETICKS (pdu_time pdu) 8) (\<lambda>(b5, dl). Ret (b1 @ b2 @ b3 @ b4 @ b5, dl)))))))"

definition seq_header :: "u_char \<Rightarrow> nat \<Rightarrow> bytes" where \<comment> \<open>the four bytes \<open>asn_build_sequence\<close> writes over the placeholder\<close>
  "seq_header type len = [type, 0x02 OR ASN_LONG_LEN, word_of_nat (drop_bit 8 len), word_of_nat len]"

text \<open>The result is the bytes, the room left and the variables that stay in the PDU.\<close>

definition snmp_pdu_build :: "nat \<Rightarrow> netsnmp_pdu \<Rightarrow> (bytes \<times> nat \<times> variable_list list) cres" where
  "snmp_pdu_build out_length pdu =
     cbind (asn_build_sequence out_length (pdu_command pdu) 0) (\<lambda>(_, dl).
     cbind (snmp_build_fields dl pdu) (\<lambda>(fields, dl).
     cbind (asn_build_sequence dl ASN_SEQUENCE_CON 0) (\<lambda>(_, dl).
     cbind (snmp_build_varbinds (pdu_flags pdu AND UCD_MSG_FLAG_BULK_TOOBIG \<noteq> 0) False dl (pdu_variables pdu)) (\<lambda>(vbs, dl, vs).
       let rest = fields @ seq_header ASN_SEQUENCE_CON (length vbs) @ vbs in
       Ret (seq_header (pdu_command pdu) (length rest) @ rest, dl, vs)))))"

section \<open>Reverse encoding\<close>

definition snmp_realloc_rbuild_value :: "allocator \<Rightarrow> bool \<Rightarrow> u_char \<Rightarrow> netsnmp_vardata \<Rightarrow> nat \<Rightarrow> rbuf \<Rightarrow> rbuf cres" where
  "snmp_realloc_rbuild_value alloc r type val val_len s =
     (if type = ASN_INTEGER then cbind (as_integer val) (\<lambda>i. asn_realloc_rbuild_int alloc r type (sint i) val_len s)
      else if type \<in> uint_types then cbind (as_integer val) (\<lambda>i. asn_realloc_rbuild_unsigned_int alloc r type i val_len s)
      else if type \<in> uint64_types then cbind (as_counter64 val) (\<lambda>c. asn_realloc_rbuild_unsigned_int64 alloc r type c val_len s)
      else if type \<in> string_types then cbind (as_string val) (\<lambda>b. asn_realloc_rbuild_string alloc r type b val_len s)
      else if type = ASN_OBJECT_ID then cbind (as_objid (val_len div 8) val) (\<lambda>x. asn_realloc_rbuild_objid alloc r type x s)
      else if type \<in> null_types then asn_realloc_rbuild_null alloc r type s
      else if type = ASN_BIT_STR then cbind (as_string val) (\<lambda>b. asn_realloc_rbuild_bitstring alloc r type b val_len s)
      else if type = ASN_OPAQUE_FLOAT then cbind (as_float val) (\<lambda>f. asn_realloc_rbuild_float alloc r type f val_len s)
      else if type = ASN_OPAQUE_DOUBLE then cbind (as_double val) (\<lambda>d. asn_realloc_rbuild_double alloc r type d val_len s)
      else if type = ASN_OPAQUE_I64 then cbind (as_counter64 val) (\<lambda>c. asn_realloc_rbuild_signed_int64 alloc r type c val_len s)
      else Null)"

definition snmp_realloc_rbuild_var_op :: "allocator \<Rightarrow> bool \<Rightarrow> variable_list \<Rightarrow> rbuf \<Rightarrow> rbuf cres" where
  "snmp_realloc_rbuild_var_op alloc r vp s =
     cbind (snmp_realloc_rbuild_value alloc r (vp_type vp) (vp_val vp) (vp_val_len vp) s) (\<lambda>s'.
     cbind (asn_realloc_rbuild_objid alloc r ASN_OBJECT_ID (vp_name vp) s') (\<lambda>s'.
       asn_realloc_rbuild_sequence alloc r ASN_SEQUENCE_CON (rb_off s' - rb_off s) s'))"

text \<open>
  The array \<open>vpcache\<close> of the last 50 variables in \<open>snmp_pdu_realloc_rbuild\<close>, which lets it walk a singly linked list
  backwards. A pointer to a variable is its position in the list, and an entry that was never written \<open>None\<close>. The
  loop over the list fills the array downwards, and starts again at the top when it is full.
\<close>

abbreviation (input) VPCACHE_SIZE :: nat where "VPCACHE_SIZE \<equiv> 50"

fun vpcache_fill :: "nat list \<Rightarrow> int \<Rightarrow> nat option list \<Rightarrow> bool \<Rightarrow> int \<times> nat option list \<times> bool" where
  "vpcache_fill [] i vpcache wrapped = (i, vpcache, wrapped)"
| "vpcache_fill (vp # vps) i vpcache wrapped =
     (let (i, wrapped) = (if i < 0 then (int VPCACHE_SIZE - 1, True) else (i, wrapped)) in
      vpcache_fill vps (i - 1) (vpcache[nat i := Some vp]) wrapped)"

text \<open>
  The variables in the order of the \<open>do\<close> loop, from \<open>final\<close> on: those in the array, and when it wrapped, after
  another walk over the list, those before them. The walk ends at \<open>tmpvp\<close>; a null pointer for it walks over nothing.
\<close>

partial_function (option) vpcache_order :: "nat \<Rightarrow> nat option list \<Rightarrow> bool \<Rightarrow> nat option list option" where
  "vpcache_order final vpcache wrapped =
     (if wrapped then
        let tmpvp = (if final = 0 then vpcache ! (VPCACHE_SIZE - 1) else vpcache ! (final - 1));
            (i, vpcache', wrapped') = vpcache_fill [0..<(case tmpvp of None \<Rightarrow> 0 | Some p \<Rightarrow> p)] (int VPCACHE_SIZE - 1) vpcache False
        in Option.bind (vpcache_order (nat (i + 1)) vpcache' wrapped') (\<lambda>order.
             Some (drop final vpcache @ take final vpcache @ order))
      else Some (drop final vpcache))"

definition rbuild_order :: "variable_list list \<Rightarrow> nat option list option" where
  "rbuild_order vs =
     (let n = length (takeWhile (\<lambda>vp. vp_type vp \<noteq> ASN_PRIV_STOP) vs);
          (i, vpcache, wrapped) = vpcache_fill [0..<n] (int VPCACHE_SIZE - 1) (replicate VPCACHE_SIZE None) False
      in vpcache_order (nat (i + 1)) vpcache wrapped)"

fun snmp_rbuild_varbinds :: "allocator \<Rightarrow> variable_list list \<Rightarrow> nat option list \<Rightarrow> rbuf \<Rightarrow> rbuf cres" where
  "snmp_rbuild_varbinds alloc vs [] s = Ret s"
| "snmp_rbuild_varbinds alloc vs (p # ps) s =
     (case p of
        None \<Rightarrow> Overrun
      | Some i \<Rightarrow> if i < length vs then cbind (snmp_realloc_rbuild_var_op alloc True (vs ! i) s) (snmp_rbuild_varbinds alloc vs ps)
                  else Overrun)"

definition snmp_rbuild_fields :: "allocator \<Rightarrow> netsnmp_pdu \<Rightarrow> rbuf \<Rightarrow> rbuf cres" where
  "snmp_rbuild_fields alloc pdu s =
     (if pdu_command pdu \<noteq> MSG_TRAP then
        cbind (asn_realloc_rbuild_int alloc True ASN_INTEGER (pdu_errindex pdu) 8 s) (\<lambda>s.
        cbind (asn_realloc_rbuild_int alloc True ASN_INTEGER (pdu_errstat pdu) 8 s) (\<lambda>s.
          asn_realloc_rbuild_int alloc True ASN_INTEGER (pdu_reqid pdu) 8 s))
      else
        cbind (asn_realloc_rbuild_unsigned_int alloc True ASN_TIMETICKS (pdu_time pdu) 8 s) (\<lambda>s.
        cbind (asn_realloc_rbuild_int alloc True ASN_INTEGER (pdu_specific_type pdu) 8 s) (\<lambda>s.
        cbind (asn_realloc_rbuild_int alloc True ASN_INTEGER (pdu_trap_type pdu) 8 s) (\<lambda>s.
        cbind (asn_realloc_rbuild_string alloc True ASN_IPADDRESS (Some (pdu_agent_addr pdu)) 4 s) (\<lambda>s.
          asn_realloc_rbuild_objid alloc True ASN_OBJECT_ID (pdu_enterprise pdu) s)))))"

text \<open>
  The outer result is \<open>None\<close> when the loop over the array does not end. The code does not look at the result of the
  header of the variables: that call fails only when there is no room and no memory, and then the next one fails too,
  for the allocator is asked for the same size.
\<close>

definition snmp_pdu_realloc_rbuild :: "allocator \<Rightarrow> netsnmp_pdu \<Rightarrow> rbuf \<Rightarrow> rbuf cres option" where
  "snmp_pdu_realloc_rbuild alloc pdu s =
     map_option (\<lambda>order.
       cbind (snmp_rbuild_varbinds alloc (pdu_variables pdu) order s) (\<lambda>s'.
       cbind (asn_realloc_rbuild_sequence alloc True ASN_SEQUENCE_CON (rb_off s' - rb_off s) s') (\<lambda>s'.
       cbind (snmp_rbuild_fields alloc pdu s') (\<lambda>s'.
         asn_realloc_rbuild_sequence alloc True (pdu_command pdu) (rb_off s' - rb_off s) s'))))
     (rbuild_order (pdu_variables pdu))"

section \<open>Messages\<close>

text \<open>
  The fields that \<open>_snmp_build\<close> fills in for SNMPv1 and v2c, by the command: \<open>None\<close> for an error. \<open>DEFAULT_TIME\<close>
  is 0 as \<open>SNMP_DEFAULT_TIME\<close> is, so the time stays.
\<close>

definition snmp_default_fields :: "netsnmp_pdu \<Rightarrow> netsnmp_pdu option" where
  "snmp_default_fields pdu =
     (let c = pdu_command pdu;
          defaulted = pdu\<lparr>pdu_errstat := (if pdu_errstat pdu = -1 then 0 else pdu_errstat pdu),
                          pdu_errindex := (if pdu_errindex pdu = -1 then 0 else pdu_errindex pdu)\<rparr>
      in if c \<in> {MSG_RESPONSE, MSG_GET, MSG_GETNEXT, MSG_SET} then Some defaulted
         else if c \<in> {MSG_TRAP2, MSG_INFORM} then (if pdu_version pdu = 0 then None else Some defaulted)
         else if c = MSG_GETBULK then
           (if pdu_version pdu = 0 then None else if pdu_errindex pdu < 0 then None else if pdu_errstat pdu < 0 then None else Some pdu)
         else if c = MSG_TRAP then
           (if pdu_version pdu \<noteq> 0 then None
            else Some (pdu\<lparr>pdu_reqid := 1,
                           pdu_enterprise := (if pdu_enterprise pdu = [] then [1, 3, 6, 1, 4, 1, 3, 1, 1] else pdu_enterprise pdu),
                           pdu_flags := pdu_flags pdu AND NOT UCD_MSG_FLAG_EXPECT_RESPONSE\<rparr>))
         else None)"

text \<open>
  An empty community is replaced by that of the session, but not in a response. \<open>None\<close> is the failing copy of a null
  pointer.
\<close>

definition snmp_default_community :: "bytes option \<Rightarrow> nat \<Rightarrow> netsnmp_pdu \<Rightarrow> netsnmp_pdu option" where
  "snmp_default_community sess_community sess_community_len pdu =
     (if pdu_community_len pdu = 0 \<and> pdu_command pdu \<noteq> MSG_RESPONSE then
        (if sess_community_len = 0 then Some (pdu\<lparr>pdu_community := None\<rparr>)
         else case sess_community of
           None \<Rightarrow> None
         | Some c \<Rightarrow> Some (pdu\<lparr>pdu_community := Some (take sess_community_len c), pdu_community_len := sess_community_len\<rparr>))
      else Some pdu)"

text \<open>The message around the PDU, in the default, reverse, encoding. The buffer grows at its front.\<close>

definition snmp_rbuild_message :: "allocator \<Rightarrow> netsnmp_pdu \<Rightarrow> rbuf \<Rightarrow> rbuf cres option" where
  "snmp_rbuild_message alloc pdu s =
     map_option (\<lambda>r.
       cbind r (\<lambda>s'.
       cbind (asn_realloc_rbuild_string alloc True ASN_OCTET_STR (pdu_community pdu) (pdu_community_len pdu) s') (\<lambda>s'.
       cbind (asn_realloc_rbuild_int alloc True ASN_INTEGER (pdu_version pdu) 8 s') (\<lambda>s'.
         asn_realloc_rbuild_sequence alloc True ASN_SEQUENCE_CON (rb_off s' - rb_off s) s'))))
     (snmp_pdu_realloc_rbuild alloc pdu s)"

text \<open>The same in the forward encoding, into \<open>pkt_len\<close> bytes: the message and the variables that stay in the PDU.\<close>

definition snmp_build_message :: "nat \<Rightarrow> netsnmp_pdu \<Rightarrow> (bytes \<times> variable_list list) cres" where
  "snmp_build_message pkt_len pdu =
     cbind (asn_build_sequence pkt_len ASN_SEQUENCE_CON 0) (\<lambda>(_, dl).
     cbind (asn_build_int dl ASN_INTEGER (pdu_version pdu) 8) (\<lambda>(b1, dl).
     cbind (asn_build_string dl ASN_OCTET_STR (pdu_community pdu) (pdu_community_len pdu)) (\<lambda>(b2, dl).
     cbind (snmp_pdu_build dl pdu) (\<lambda>(b3, dl, vs).
       Ret (seq_header ASN_SEQUENCE_CON (length (b1 @ b2 @ b3)) @ b1 @ b2 @ b3, vs)))))"

text \<open>The header of a scoped PDU of SNMPv3 in front of \<open>body_len\<close> bytes.\<close>

definition snmpv3_scopedPDU_header_realloc_rbuild :: "allocator \<Rightarrow> netsnmp_pdu \<Rightarrow> nat \<Rightarrow> rbuf \<Rightarrow> rbuf cres" where
  "snmpv3_scopedPDU_header_realloc_rbuild alloc pdu body_len s =
     cbind (asn_realloc_rbuild_string alloc True ASN_OCTET_STR (pdu_contextName pdu) (pdu_contextNameLen pdu) s) (\<lambda>s'.
     cbind (asn_realloc_rbuild_string alloc True ASN_OCTET_STR (pdu_contextEngineID pdu) (pdu_contextEngineIDLen pdu) s') (\<lambda>s'.
       asn_realloc_rbuild_sequence alloc True ASN_SEQUENCE_CON (rb_off s' - rb_off s + body_len) s'))"

definition snmpv3_scopedPDU_header_build :: "nat \<Rightarrow> netsnmp_pdu \<Rightarrow> (bytes \<times> nat) cres" where \<comment> \<open>the length of the header is 0\<close>
  "snmpv3_scopedPDU_header_build out_length pdu =
     cbind (asn_build_sequence out_length ASN_SEQUENCE_CON 0) (\<lambda>(b0, dl).
     cbind (asn_build_string dl ASN_OCTET_STR (pdu_contextEngineID pdu) (pdu_contextEngineIDLen pdu)) (\<lambda>(b1, dl).
     cbind (asn_build_string dl ASN_OCTET_STR (pdu_contextName pdu) (pdu_contextNameLen pdu)) (\<lambda>(b2, dl).
       Ret (b0 @ b1 @ b2, dl))))"

text \<open>\<open>snmp_comstr_build\<close> takes the length of the community from the first byte of \<open>*slen\<close> in memory.\<close>

definition snmp_comstr_build :: "nat \<Rightarrow> bytes option \<Rightarrow> nat \<Rightarrow> int \<Rightarrow> nat \<Rightarrow> (bytes \<times> nat) cres" where
  "snmp_comstr_build len psid slen version messagelen =
     cbind (asn_build_sequence len ASN_SEQUENCE_CON 0) (\<lambda>(_, dl).
     cbind (asn_build_int dl ASN_INTEGER version 8) (\<lambda>(b1, dl).
     cbind (asn_build_string dl ASN_OCTET_STR psid (slen mod 256)) (\<lambda>(b2, dl).
       Ret (seq_header ASN_SEQUENCE_CON (length b1 + length b2 + messagelen) @ b1 @ b2, dl))))"

text \<open>\<open>_snmp_build\<close> for SNMPv1 and v2c: the encoding is chosen by the default store and the flags.\<close>

datatype built = Forward bytes "variable_list list" | Reverse rbuf

definition snmp_build_v1v2c ::
    "(int \<Rightarrow> bool) \<Rightarrow> bool \<Rightarrow> allocator \<Rightarrow> bytes option \<Rightarrow> nat \<Rightarrow> rbuf \<Rightarrow> netsnmp_pdu \<Rightarrow> built cres option" where
  "snmp_build_v1v2c disabled reverse_encode alloc sess_community sess_community_len s pdu =
     (if disabled (pdu_version pdu) then Some Null
      else let pdu = (if pdu_flags pdu AND UCD_MSG_FLAG_BULK_TOOBIG \<noteq> 0 \<or> \<not> reverse_encode
                      then pdu\<lparr>pdu_flags := pdu_flags pdu OR UCD_MSG_FLAG_FORWARD_ENCODE\<rparr> else pdu)
           in case snmp_default_fields pdu of
             None \<Rightarrow> Some Null
           | Some pdu \<Rightarrow>
               if pdu_version pdu \<notin> {0, 1} then Some Null
               else case snmp_default_community sess_community sess_community_len pdu of
                 None \<Rightarrow> Some Null
               | Some pdu \<Rightarrow>
                 if pdu_flags pdu AND UCD_MSG_FLAG_FORWARD_ENCODE = 0
                 then map_option (\<lambda>r. cbind r (\<lambda>s. Ret (Reverse s))) (snmp_rbuild_message alloc pdu s)
                 else Some (cbind (snmp_build_message (length (rb_pkt s)) pdu) (\<lambda>(bs, vs). Ret (Forward bs vs))))"

end
