(* ===== verification/PduSafe.thy ===== *)
theory PduSafe
  imports Pdu
begin

text \<open>
  What the parsers of \<open>Pdu\<close> do with arbitrary bytes: with one readable byte behind the message they read nothing outside
  the buffer, and what they return is well-formed.
\<close>

section \<open>Decoders with a larger bound\<close>

text \<open>
  The values are decoded with a bound of 2^31 - 1 bytes, whatever there is. This is safe since the header of the value
  has been parsed before, within the bytes there are: a length that was accepted then is accepted with every larger bound.
\<close>

lemma nlength_mono: "asn_parse_nlength p l = Ret r \<Longrightarrow> l \<le> L \<Longrightarrow> asn_parse_nlength p L = Ret r"
proof -
  assume r: "asn_parse_nlength p l = Ret r" and L: "l \<le> L"
  then obtain b where b: "1 \<le> l" "deref p = Ret b" by (auto simp: asn_parse_nlength_def cbind_eq_Ret split: if_splits)
  show ?thesis
  proof (cases "b AND 0x80 = 0")
    case True
    then show ?thesis using r b L by (auto simp: asn_parse_nlength_def Let_def split: if_splits)
  next
    case False
    then obtain q n where "asn_parse_length p = Ret (q, n)" "unat (b AND NOT 0x80) + 1 \<le> l" "size_add n (unat (b AND NOT 0x80) + 1) \<le> l"
      "r = (drop (unat (b AND NOT 0x80) + 1) p, n)"
      using r b by (auto simp: asn_parse_nlength_def Let_def cbind_eq_Ret split: if_splits)
    then show ?thesis using False b L by (simp add: asn_parse_nlength_def Let_def)
  qed
qed

lemma open_mono:
  assumes "asn_open (\<lambda>t. True) data l = Ret (bufp, n, t, hdr)" "l \<le> L"
  shows "asn_open ok data L = (if ok t then Ret (bufp, n, t, hdr) else Null)"
proof -
  have o: "2 \<le> l" "deref data = Ret t" "asn_parse_nlength (tl data) (l - 1) = Ret (bufp, n)" "hdr = length data - length bufp"
    using assms(1) by (auto simp: asn_open_def cbind_eq_Ret split: if_splits)
  have "asn_parse_nlength (tl data) (L - 1) = Ret (bufp, n)" using nlength_mono [OF o(3)] assms(2) by simp
  then show ?thesis using o assms(2) by (simp add: asn_open_def)
qed

lemma header_open:
  "asn_parse_header data l = Ret (d, n, t) \<Longrightarrow> \<exists>bufp m t0 hdr. asn_open (\<lambda>t. True) data l = Ret (bufp, m, t0, hdr)"
  by (fastforce simp: asn_parse_header_def asn_open_def cbind_eq_Ret split: if_splits)

text \<open>The decoders: only the reported number of bytes left depends on the bound.\<close>

lemma int_larger:
  "asn_open (\<lambda>t. True) data l = Ret (bufp, n, t, hdr) \<Longrightarrow> l \<le> L \<Longrightarrow> asn_parse_int data L sz = Overrun \<Longrightarrow> asn_parse_int data l sz = Overrun"
  using open_mono [of data l bufp n t hdr L] open_mono [of data l bufp n t hdr l]
  by (auto simp: asn_parse_int_def cbind_eq_Overrun Let_def split: if_splits)

lemma unsigned_int_larger:
  "asn_open (\<lambda>t. True) data l = Ret (bufp, n, t, hdr) \<Longrightarrow> l \<le> L \<Longrightarrow> asn_parse_unsigned_int data L sz = Overrun \<Longrightarrow> asn_parse_unsigned_int data l sz = Overrun"
  using open_mono [of data l bufp n t hdr L] open_mono [of data l bufp n t hdr l]
  by (auto simp: asn_parse_unsigned_int_def cbind_eq_Overrun Let_def split: if_splits)

lemma string_larger:
  "asn_open (\<lambda>t. True) data l = Ret (bufp, n, t, hdr) \<Longrightarrow> l \<le> L \<Longrightarrow> asn_parse_string data L sz = Overrun \<Longrightarrow> asn_parse_string data l sz = Overrun"
  using open_mono [of data l bufp n t hdr L] open_mono [of data l bufp n t hdr l]
  by (auto simp: asn_parse_string_def cbind_eq_Overrun Let_def split: if_splits)

lemma bitstring_larger:
  "asn_open (\<lambda>t. True) data l = Ret (bufp, n, t, hdr) \<Longrightarrow> l \<le> L \<Longrightarrow> asn_parse_bitstring data L sz = Overrun \<Longrightarrow> asn_parse_bitstring data l sz = Overrun"
  using open_mono [of data l bufp n t hdr L] open_mono [of data l bufp n t hdr l]
  by (auto simp: asn_parse_bitstring_def cbind_eq_Overrun Let_def split: if_splits)

lemma objid_larger:
  "asn_open (\<lambda>t. True) data l = Ret (bufp, n, t, hdr) \<Longrightarrow> l \<le> L \<Longrightarrow> asn_parse_objid data L sz = Overrun \<Longrightarrow> asn_parse_objid data l sz = Overrun"
  using open_mono [of data l bufp n t hdr L] open_mono [of data l bufp n t hdr l]
  by (auto simp: asn_parse_objid_def cbind_eq_Overrun Let_def split: if_splits prod.splits)

lemma u64_value_larger: "asn_u64_value data bufp n t dl = Overrun \<longleftrightarrow> asn_u64_value data bufp n t dl' = Overrun"
  by (auto simp: asn_u64_value_def cbind_eq_Overrun Let_def split: if_splits prod.splits)

lemma overrun_cong: "cbind m f = Overrun \<Longrightarrow> (\<And>x. f x = Overrun \<Longrightarrow> g x = Overrun) \<Longrightarrow> cbind m g = Overrun"
  by (cases m) auto

lemma unsigned_int64_larger:
  "asn_open (\<lambda>t. True) data l = Ret (bufp, n, t, hdr) \<Longrightarrow> l \<le> L \<Longrightarrow> asn_parse_unsigned_int64 data L sz = Overrun \<Longrightarrow> asn_parse_unsigned_int64 data l sz = Overrun"
proof -
  assume o: "asn_open (\<lambda>t. True) data l = Ret (bufp, n, t, hdr)" and L: "l \<le> L" and over: "asn_parse_unsigned_int64 data L sz = Overrun"
  define rest where "rest k b1 = (if b1 = ASN_OPAQUE_COUNTER64 \<or> b1 = ASN_OPAQUE_U64
    then cbind (asn_open_wrapped bufp n) (\<lambda>(bufp', len). asn_u64_value data bufp' len b1 n) else asn_u64_value data bufp n t k)" for k b1
  define tag where "tag = (if t = ASN_OPAQUE \<and> n \<le> 12
    then cbind (deref bufp) (\<lambda>b0. if b0 = ASN_OPAQUE_TAG1 then deref (tl bufp) else Ret 0) else Ret 0)"
  have "asn_parse_unsigned_int64 data k sz = (if sz \<noteq> 16 \<or> \<not> (t = ASN_COUNTER64 \<or> t = ASN_OPAQUE) \<or> t = ASN_OPAQUE \<and> n < 2 then Null
     else cbind tag (rest k))" if "l \<le> k" for k
    unfolding asn_parse_unsigned_int64_def open_mono [OF o that] rest_def [abs_def] tag_def by auto
  moreover have "rest L b1 = Overrun \<Longrightarrow> rest l b1 = Overrun" for b1
    unfolding rest_def using u64_value_larger [of data bufp n t L l] by (cases "b1 = ASN_OPAQUE_COUNTER64 \<or> b1 = ASN_OPAQUE_U64") (simp_all only: if_True if_False simp_thms)
  ultimately show ?thesis using L over overrun_cong [of tag "rest L" "rest l"] by (auto split: if_splits)
qed

lemma i64_value_larger: "asn_i64_value data bufp n t dl = Overrun \<longleftrightarrow> asn_i64_value data bufp n t dl' = Overrun"
  by (auto simp: asn_i64_value_def cbind_eq_Overrun Let_def split: if_splits prod.splits)

lemma signed_int64_larger:
  "asn_open (\<lambda>t. True) data l = Ret (bufp, n, t, hdr) \<Longrightarrow> l \<le> L \<Longrightarrow> asn_parse_signed_int64 data L sz = Overrun \<Longrightarrow> asn_parse_signed_int64 data l sz = Overrun"
  using open_mono [of data l bufp n t hdr L] open_mono [of data l bufp n t hdr l] i64_value_larger [of data _ _ _ L l]
  by (auto simp: asn_parse_signed_int64_def cbind_eq_Overrun Let_def split: if_splits prod.splits)

lemma float_larger:
  "asn_open (\<lambda>t. True) data l = Ret (bufp, n, t, hdr) \<Longrightarrow> l \<le> L \<Longrightarrow> asn_parse_float data L sz = Overrun \<Longrightarrow> asn_parse_float data l sz = Overrun"
  using open_mono [of data l bufp n t hdr L] open_mono [of data l bufp n t hdr l]
  by (auto simp: asn_parse_float_def asn_unwrap_def cbind_eq_Overrun cbind_eq_Ret Let_def split: if_splits prod.splits)

lemma double_larger:
  "asn_open (\<lambda>t. True) data l = Ret (bufp, n, t, hdr) \<Longrightarrow> l \<le> L \<Longrightarrow> asn_parse_double data L sz = Overrun \<Longrightarrow> asn_parse_double data l sz = Overrun"
  using open_mono [of data l bufp n t hdr L] open_mono [of data l bufp n t hdr l]
  by (auto simp: asn_parse_double_def asn_unwrap_def cbind_eq_Overrun cbind_eq_Ret Let_def split: if_splits prod.splits)

lemmas larger_bound = int_larger unsigned_int_larger string_larger bitstring_larger objid_larger
  unsigned_int64_larger signed_int64_larger float_larger double_larger

section \<open>Values\<close>

lemma value_safe:
  assumes "asn_parse_header v l = Ret (d, n, t)" "l < length v" "l < 2 ^ 31"
  shows "snmp_parse_value v type val_len \<noteq> Overrun"
proof -
  obtain bufp m t0 hdr where o: "asn_open (\<lambda>t. True) v l = Ret (bufp, m, t0, hdr)" using header_open [OF assms(1)] by blast
  have L: "l \<le> SNMP_MAX_PACKET_LEN" "l < 2 ^ 64" using assms(3) by simp_all
  have l: "l \<le> length v" using assms(2) by simp
  have cap: "2 \<le> MAX_OID_LEN" "MAX_OID_LEN < 2 ^ 64" by simp_all
  note larger = larger_bound [OF o L(1)]
  have "asn_parse_int v SNMP_MAX_PACKET_LEN 8 \<noteq> Overrun"
    using larger(1) parse_ok_safe [OF asn_parse_int_ok [OF l]] by blast
  moreover have "asn_parse_unsigned_int v SNMP_MAX_PACKET_LEN 8 \<noteq> Overrun"
    using larger(2) parse_ok_safe [OF asn_parse_unsigned_int_ok [OF l]] by blast
  moreover have "asn_parse_string v SNMP_MAX_PACKET_LEN val_len \<noteq> Overrun"
    using larger(3) parse_ok_safe [OF asn_parse_string_ok [OF l]] by blast
  moreover have "asn_parse_bitstring v SNMP_MAX_PACKET_LEN val_len \<noteq> Overrun"
    using larger(4) parse_ok_safe [OF asn_parse_bitstring_ok [OF assms(2)]] by blast
  moreover have "asn_parse_objid v SNMP_MAX_PACKET_LEN MAX_OID_LEN \<noteq> Overrun"
    using larger(5) parse_ok_safe [OF asn_parse_objid_ok [OF l cap]] by blast
  moreover have "asn_parse_unsigned_int64 v SNMP_MAX_PACKET_LEN 16 \<noteq> Overrun"
    using larger(6) parse64_ok_safe [OF asn_parse_unsigned_int64_ok [OF l L(2)]] by blast
  moreover have "asn_parse_signed_int64 v SNMP_MAX_PACKET_LEN 16 \<noteq> Overrun"
    using larger(7) parse64_ok_safe [OF asn_parse_signed_int64_ok [OF l L(2)]] by blast
  moreover have "asn_parse_float v SNMP_MAX_PACKET_LEN 4 \<noteq> Overrun"
    using larger(8) parse64_ok_safe [OF asn_parse_float_ok [OF l L(2)]] by blast
  moreover have "asn_parse_double v SNMP_MAX_PACKET_LEN 8 \<noteq> Overrun"
    using larger(9) parse64_ok_safe [OF asn_parse_double_ok [OF l L(2)]] by blast
  ultimately show ?thesis unfolding snmp_parse_value_def Let_def by (auto simp: cbind_eq_Overrun)
qed

text \<open>A variable whose value is the member of the union that its type says, with the length of that member.\<close>

definition vp_typed :: "variable_list \<Rightarrow> bool" where
  "vp_typed vp \<longleftrightarrow> length (vp_name vp) \<le> MAX_OID_LEN \<and>
     (let t = vp_type vp; n = vp_val_len vp in
      case vp_val vp of
        Val_integer i \<Rightarrow> (t = ASN_INTEGER \<or> t \<in> uint_types) \<and> n = 8
      | Val_counter64 c \<Rightarrow> (t = ASN_OPAQUE_I64 \<or> t \<in> uint64_types) \<and> n = 16
      | Val_float f \<Rightarrow> t = ASN_OPAQUE_FLOAT \<and> n = 4
      | Val_double d \<Rightarrow> t = ASN_OPAQUE_DOUBLE \<and> n = 8
      | Val_string s \<Rightarrow> (t \<in> string_types \<or> t = ASN_BIT_STR) \<and> n = length s \<and> (t = ASN_BIT_STR \<longrightarrow> 1 \<le> n)
      | Val_objid x \<Rightarrow> t = ASN_OBJECT_ID \<and> n = 8 * length x \<and> length x \<le> MAX_OID_LEN
      | Val_none \<Rightarrow> t \<in> null_types)"

lemma objid_length:
  assumes "asn_parse_objid data dl cap = Ret (d, n, t, x)" "dl \<le> length data" "2 \<le> cap" "cap < 2 ^ 64"
  shows "length x \<le> cap"
proof -
  obtain p m t' h where o: "asn_open (\<lambda>t. t = ASN_OBJECT_ID) data dl = Ret (p, m, t', h)"
    and l: "\<exists>l' subs'. asn_parse_objid_loop cap m (size_sub cap 1) p [] = Ret (d, l', subs') \<and> length x = 1 + length subs'
      \<or> asn_parse_objid_loop cap m (size_sub cap 1) p [] = Ret (d, l', subs') \<and> length x \<le> 1 + length subs'"
    using assms(1) by (fastforce simp: asn_parse_objid_def cbind_eq_Ret Let_def split: if_splits prod.splits)
  have m: "m \<le> length p" using asn_open_Ret [OF o assms(2)] assms(2) by auto
  have s: "size_sub cap 1 = cap - 1" using size_sub_nat [of 1 cap] assms(3,4) by simp
  show ?thesis using asn_parse_objid_loop_step [OF m, of "[]" "cap - 1" cap] l assms(3) unfolding s by auto
qed


text \<open>The type that a header announces: its own, or that of a special value wrapped in an Opaque.\<close>

lemma header_type:
  assumes "asn_parse_header v l = Ret (d, n, t)" "asn_open (\<lambda>t. True) v l = Ret (bufp, m, t0, hdr)"
  shows "t = t0 \<or> t0 = ASN_OPAQUE \<and> 2 < m \<and> deref bufp = Ret ASN_OPAQUE_TAG1 \<and> deref (tl bufp) = Ret t"
proof -
  have "asn_parse_header_contents bufp m t0 = Ret (d, n, t)"
    using assms by (auto simp: asn_parse_header_def asn_open_def cbind_eq_Ret split: if_splits)
  then show ?thesis by (auto simp: asn_parse_header_contents_def Let_def cbind_eq_Ret split: if_splits)
qed

lemma value_uint64_type:
  assumes "asn_parse_header v l = Ret (d, n, t)" "l \<le> length v" "l < 2 ^ 31" "t \<in> uint64_types"
    and "asn_parse_unsigned_int64 v SNMP_MAX_PACKET_LEN 16 = Ret (p, k, t', c)"
  shows "t' \<in> uint64_types"
proof -
  obtain bufp m t0 hdr where o: "asn_open (\<lambda>t. True) v l = Ret (bufp, m, t0, hdr)" using header_open [OF assms(1)] by blast
  have m: "m < 2 ^ 31" using asn_open_Ret [OF o assms(2)] assms(3) by simp
  have L: "l \<le> SNMP_MAX_PACKET_LEN" using assms(3) by simp
  have val: "asn_u64_value x y z tt w = Ret (p, k, t', c) \<Longrightarrow> t' = tt \<and> c_int z \<le> 9" for x y z tt w
    by (auto simp: asn_u64_value_def cbind_eq_Ret Let_def split: if_splits)
  show ?thesis
  proof (cases "t0 = ASN_COUNTER64")
    case True
    then show ?thesis using assms(5) unfolding asn_parse_unsigned_int64_def open_mono [OF o L] by (auto dest!: val)
  next
    case False
    have "t0 = ASN_OPAQUE" using False assms(5) unfolding asn_parse_unsigned_int64_def open_mono [OF o L] by (simp split: if_splits)
    then have w: "t0 = ASN_OPAQUE" "2 < m" "deref bufp = Ret ASN_OPAQUE_TAG1" "deref (tl bufp) = Ret t"
      using header_type [OF assms(1) o] assms(4) by auto
    show ?thesis
    proof (cases "m \<le> 12")
      case True
      then have "asn_parse_unsigned_int64 v SNMP_MAX_PACKET_LEN 16 = (if t = ASN_OPAQUE_COUNTER64 \<or> t = ASN_OPAQUE_U64
          then cbind (asn_open_wrapped bufp m) (\<lambda>(bufp', len). asn_u64_value v bufp' len t m)
          else asn_u64_value v bufp m t0 SNMP_MAX_PACKET_LEN)"
        unfolding asn_parse_unsigned_int64_def open_mono [OF o L] using w by simp
      moreover have "t \<noteq> ASN_COUNTER64"
      proof
        assume "t = ASN_COUNTER64"
        then show False using assms(1) o w by (auto simp: asn_parse_header_def asn_open_def asn_parse_header_contents_def cbind_eq_Ret Let_def split: if_splits)
      qed
      ultimately have "cbind (asn_open_wrapped bufp m) (\<lambda>(bufp', len). asn_u64_value v bufp' len t m) = Ret (p, k, t', c)"
        using assms(4,5) by auto
      then show ?thesis using assms(4) by (auto simp: cbind_eq_Ret dest!: val)
    next
      case False
      then have "asn_parse_unsigned_int64 v SNMP_MAX_PACKET_LEN 16 = asn_u64_value v bufp m t0 SNMP_MAX_PACKET_LEN"
        unfolding asn_parse_unsigned_int64_def open_mono [OF o L] using w by simp
      then have "asn_u64_value v bufp m t0 SNMP_MAX_PACKET_LEN = Ret (p, k, t', c)" using assms(5) by simp
      then show ?thesis using val False m by fastforce
    qed
  qed
qed

lemma decoder_types:
  "asn_parse_int v L sz = Ret (p, k, t, x1) \<Longrightarrow> t = ASN_INTEGER"
  "asn_parse_unsigned_int v L sz = Ret (p, k, t, x2) \<Longrightarrow> t \<in> uint_types"
  "asn_parse_string v L sz = Ret (p, k, t, x3) \<Longrightarrow> t \<in> string_types"
  "asn_parse_bitstring v L sz = Ret (p, k, t, x4) \<Longrightarrow> t = ASN_BIT_STR \<and> 1 \<le> length x4"
  "asn_parse_objid v L sz = Ret (p, k, t, x5) \<Longrightarrow> t = ASN_OBJECT_ID"
  "asn_parse_float v L sz = Ret (p, k, t, x6) \<Longrightarrow> t = ASN_OPAQUE_FLOAT"
  "asn_parse_double v L sz = Ret (p, k, t, x7) \<Longrightarrow> t = ASN_OPAQUE_DOUBLE"
  "asn_parse_signed_int64 v L sz = Ret (p, k, t, x8) \<Longrightarrow> t = ASN_OPAQUE_I64"
proof -
  show "asn_parse_int v L sz = Ret (p, k, t, x1) \<Longrightarrow> t = ASN_INTEGER"
    by (auto simp: asn_parse_int_def asn_open_def cbind_eq_Ret Let_def split: if_splits)
  show "asn_parse_unsigned_int v L sz = Ret (p, k, t, x2) \<Longrightarrow> t \<in> uint_types"
    by (auto simp: asn_parse_unsigned_int_def asn_open_def cbind_eq_Ret Let_def split: if_splits)
  show "asn_parse_string v L sz = Ret (p, k, t, x3) \<Longrightarrow> t \<in> string_types"
    by (auto simp: asn_parse_string_def asn_open_def cbind_eq_Ret Let_def split: if_splits)
  show "asn_parse_bitstring v L sz = Ret (p, k, t, x4) \<Longrightarrow> t = ASN_BIT_STR \<and> 1 \<le> length x4"
    by (auto simp: asn_parse_bitstring_def asn_open_def asn_copy_def asn_bitstring_check_def cbind_eq_Ret Let_def split: if_splits)
  show "asn_parse_objid v L sz = Ret (p, k, t, x5) \<Longrightarrow> t = ASN_OBJECT_ID"
    by (auto simp: asn_parse_objid_def asn_open_def cbind_eq_Ret Let_def split: if_splits prod.splits)
  show "asn_parse_float v L sz = Ret (p, k, t, x6) \<Longrightarrow> t = ASN_OPAQUE_FLOAT"
    by (auto simp: asn_parse_float_def cbind_eq_Ret Let_def split: if_splits prod.splits)
  show "asn_parse_double v L sz = Ret (p, k, t, x7) \<Longrightarrow> t = ASN_OPAQUE_DOUBLE"
    by (auto simp: asn_parse_double_def cbind_eq_Ret Let_def split: if_splits prod.splits)
  show "asn_parse_signed_int64 v L sz = Ret (p, k, t, x8) \<Longrightarrow> t = ASN_OPAQUE_I64"
    by (auto simp: asn_parse_signed_int64_def asn_i64_value_def cbind_eq_Ret Let_def split: if_splits prod.splits)
qed

lemma objid_value_length:
  assumes "asn_parse_header v l = Ret (d, n, t)" "l \<le> length v" "l < 2 ^ 31"
    and "asn_parse_objid v SNMP_MAX_PACKET_LEN MAX_OID_LEN = Ret (p, k, t', x)"
  shows "length x \<le> MAX_OID_LEN"
proof -
  obtain bufp m t0 hdr where o: "asn_open (\<lambda>t. True) v l = Ret (bufp, m, t0, hdr)" using header_open [OF assms(1)] by blast
  have L: "l \<le> SNMP_MAX_PACKET_LEN" using assms(3) by simp
  have "\<exists>k'. asn_parse_objid v l MAX_OID_LEN = Ret (p, k', t', x)"
    using assms(4) unfolding asn_parse_objid_def open_mono [OF o L] open_mono [OF o order_refl]
    by (fastforce simp: cbind_eq_Ret Let_def split: if_splits prod.splits)
  then show ?thesis using objid_length [OF _ assms(2)] by fastforce
qed

lemma value_typed:
  assumes "asn_parse_header v l = Ret (d, n, t)" "l \<le> length v" "l < 2 ^ 31"
    and "snmp_parse_value v t n = Ret (t', val, n')" "length nm \<le> MAX_OID_LEN"
  shows "vp_typed \<lparr>vp_name = nm, vp_type = t', vp_val = val, vp_val_len = n'\<rparr>"
proof -
  note types = decoder_types(1) [of v SNMP_MAX_PACKET_LEN 8] decoder_types(2) [of v SNMP_MAX_PACKET_LEN 8]
    decoder_types(3) [of v SNMP_MAX_PACKET_LEN n] decoder_types(4) [of v SNMP_MAX_PACKET_LEN n]
    decoder_types(5) [of v SNMP_MAX_PACKET_LEN MAX_OID_LEN] decoder_types(6) [of v SNMP_MAX_PACKET_LEN 4]
    decoder_types(7) [of v SNMP_MAX_PACKET_LEN 8] decoder_types(8) [of v SNMP_MAX_PACKET_LEN 16]
  note oid_len = objid_value_length [OF assms(1-3)]
  note r = assms(4) [unfolded snmp_parse_value_def Let_def]
  consider (int) "t = ASN_INTEGER" | (uint) "t \<in> {ASN_COUNTER, ASN_GAUGE, ASN_TIMETICKS, ASN_UINTEGER}"
    | (u64) "t \<in> {ASN_OPAQUE_COUNTER64, ASN_OPAQUE_U64, ASN_COUNTER64}" | (float) "t = ASN_OPAQUE_FLOAT" | (double) "t = ASN_OPAQUE_DOUBLE"
    | (i64) "t = ASN_OPAQUE_I64" | (str) "t \<in> {ASN_IPADDRESS, ASN_OCTET_STR, ASN_OPAQUE, ASN_NSAP}" | (oid) "t = ASN_OBJECT_ID"
    | (null) "t \<in> {SNMP_NOSUCHOBJECT, SNMP_NOSUCHINSTANCE, SNMP_ENDOFMIBVIEW, ASN_NULL}" | (bits) "t = ASN_BIT_STR"
    using r by (auto split: if_splits)
  then show ?thesis
  proof cases
    case u64
    then obtain p k c where "asn_parse_unsigned_int64 v SNMP_MAX_PACKET_LEN 16 = Ret (p, k, t', c)" "val = Val_counter64 c" "n' = 16"
      using r by (auto simp: cbind_eq_Ret)
    then show ?thesis using value_uint64_type [OF assms(1-3)] u64 assms(5) by (simp add: vp_typed_def)
  next
    case str
    then obtain p k s where "asn_parse_string v SNMP_MAX_PACKET_LEN n = Ret (p, k, t', s)" "val = Val_string s" "n' = length s"
      using r by (auto simp: cbind_eq_Ret split: if_splits)
    then show ?thesis using types(3) [of p k t' s] assms(5) by (auto simp: vp_typed_def)
  next
    case uint
    then obtain p k i where "asn_parse_unsigned_int v SNMP_MAX_PACKET_LEN 8 = Ret (p, k, t', i)" "val = Val_integer i" "n' = 8"
      using r by (auto simp: cbind_eq_Ret)
    then show ?thesis using types(2) [of p k t' i] assms(5) by (auto simp: vp_typed_def)
  next
    case oid
    then obtain p k x where "asn_parse_objid v SNMP_MAX_PACKET_LEN MAX_OID_LEN = Ret (p, k, t', x)" "val = Val_objid x" "n' = length x * 8"
      using r by (auto simp: cbind_eq_Ret)
    then show ?thesis using types(5) [of p k t' x] oid_len [of p k t' x] assms(5) by (simp add: vp_typed_def)
  qed (use r assms(5) in \<open>auto simp: cbind_eq_Ret vp_typed_def dest!: types\<close>)
qed

text \<open>A parsed variable: bytes are taken from the front, within the length, and the value has a header.\<close>

definition var_op_ok :: "nat \<Rightarrow> bytes \<Rightarrow> nat \<Rightarrow> (bytes \<times> oid \<times> u_char \<times> nat \<times> bytes \<times> nat) cres \<Rightarrow> bool" where
  "var_op_ok spare data l r = (case r of Overrun \<Rightarrow> False | Null \<Rightarrow> True
     | Ret (d, nm, t, n, v, l') \<Rightarrow> consumes data l d l' \<and> length nm \<le> MAX_OID_LEN \<and>
         (\<exists>l2 d2. asn_parse_header v l2 = Ret (d2, n, t) \<and> l2 + spare \<le> length v \<and> l2 < 2 ^ 31))"

lemma snmp_parse_var_op_ok:
  assumes room: "l + spare \<le> length data" and l31: "l < 2 ^ 31"
  shows "var_op_ok spare data l (snmp_parse_var_op data l)"
proof -
  have assms: "l \<le> length data" "l < 2 ^ 31" using room l31 by simp_all
  have seq: "header_ok data l (asn_parse_sequence data l ASN_SEQUENCE_CON)" by (rule asn_parse_sequence_ok [OF assms])
  show ?thesis
  proof (cases "asn_parse_sequence data l ASN_SEQUENCE_CON")
    case (Ret r)
    then obtain d1 l1 t1 where r1: "asn_parse_sequence data l ASN_SEQUENCE_CON = Ret (d1, l1, t1)" by (cases r) auto
    obtain k1 where k1: "2 \<le> k1" "k1 + l1 \<le> l" "d1 = drop k1 data" using seq r1 by (auto simp: header_ok_def)
    have l1: "l1 \<le> length d1" "l1 < 2 ^ 31" using k1 assms by auto
    have cap: "2 \<le> MAX_OID_LEN" "MAX_OID_LEN < 2 ^ 64" by simp_all
    have o: "parse_ok d1 l1 (asn_parse_objid d1 l1 MAX_OID_LEN)" by (rule asn_parse_objid_ok [OF l1(1) cap])
    show ?thesis
    proof (cases "asn_parse_objid d1 l1 MAX_OID_LEN")
      case (Ret r')
      then obtain v l2 t2 nm where r2: "asn_parse_objid d1 l1 MAX_OID_LEN = Ret (v, l2, t2, nm)" by (cases r') auto
      obtain k2 where k2: "2 \<le> k2" "k2 + l2 = l1" "v = drop k2 d1" using o r2 l1(2) by (auto simp: consumes_def)
      have l2: "l2 \<le> length v" "l2 < 2 ^ 31" using k2 l1 by auto
      have h: "header_ok v l2 (asn_parse_header v l2)" by (rule asn_parse_header_ok [OF l2])
      show ?thesis
      proof (cases "asn_parse_header v l2")
        case (Ret r'')
        then obtain d3 n t where r3: "asn_parse_header v l2 = Ret (d3, n, t)" by (cases r'') auto
        obtain k3 where k3: "2 \<le> k3" "k3 + n \<le> l2" "d3 = drop k3 v" using h r3 by (auto simp: header_ok_def)
        have d: "drop n d3 = drop (k1 + k2 + k3 + n) data" "n \<le> length d3" using k1 k2 k3 l2 by (simp_all add: add_ac)
        have K: "k1 + k2 + k3 + n \<le> l" using k1 k2 k3 by simp
        have "length data - length (drop n d3) = k1 + k2 + k3 + n" using K assms unfolding d(1) by simp
        then have s: "size_sub l (c_int (length data - length (drop n d3))) = l - (k1 + k2 + k3 + n)"
          using K assms c_int_small [of "k1 + k2 + k3 + n"] size_sub_nat [of "k1 + k2 + k3 + n" l] by simp
        have "length nm \<le> MAX_OID_LEN" by (rule objid_length [OF r2 l1(1) cap])
        moreover have "consumes data l (drop n d3) (l - (k1 + k2 + k3 + n))" using K k1(1) d(1) unfolding consumes_def
          by (intro exI [of _ "k1 + k2 + k3 + n"]) simp
        moreover have "l2 + spare \<le> length v" using room k1 k2 by simp
        then have "\<exists>l2 d2. asn_parse_header v l2 = Ret (d2, n, t) \<and> l2 + spare \<le> length v \<and> l2 < 2 ^ 31" using r3 l2 by blast
        ultimately show ?thesis using d(2) s unfolding snmp_parse_var_op_def r1 by (simp add: r2 r3 Let_def var_op_ok_def)
      qed (use h r1 r2 in \<open>auto simp: snmp_parse_var_op_def var_op_ok_def\<close>)
    qed (use o r1 in \<open>auto simp: snmp_parse_var_op_def var_op_ok_def\<close>)
  qed (use seq in \<open>auto simp: snmp_parse_var_op_def var_op_ok_def\<close>)
qed


section \<open>The list of variables\<close>

text \<open>
  From here on \<open>spare\<close> is a number of readable bytes behind the bytes that count: with one of them the bit strings, and with
  them the variables, are read without an overrun; without one only the typing is claimed.
\<close>

definition varbinds_ok :: "nat \<Rightarrow> variable_list list cres \<Rightarrow> bool" where
  "varbinds_ok spare r = (case r of Overrun \<Rightarrow> spare = 0 | Null \<Rightarrow> True | Ret vs \<Rightarrow> list_all vp_typed vs)"

lemma varbinds_ok_simps [simp]:
  "varbinds_ok spare Overrun \<longleftrightarrow> spare = 0" "varbinds_ok spare Null" "varbinds_ok spare (Ret vs) \<longleftrightarrow> list_all vp_typed vs"
  by (simp_all add: varbinds_ok_def)

lemma varbinds_ok_bind: "varbinds_ok spare r \<Longrightarrow> vp_typed vp \<Longrightarrow> varbinds_ok spare (cbind r (\<lambda>vs. Ret (vp # vs)))"
  by (cases r) simp_all

lemma snmp_parse_varbinds_ok:
  "l + spare \<le> length data \<Longrightarrow> l < 2 ^ 31 \<Longrightarrow> varbinds_ok spare (snmp_parse_varbinds mem i data l)"
proof (induction mem i data l rule: snmp_parse_varbinds.induct)
  case (1 mem i data l)
  have op: "var_op_ok spare data l (snmp_parse_var_op data l)" using snmp_parse_var_op_ok [OF "1.prems"] .
  show ?case
  proof (cases "c_int l > 0 \<and> mem i")
    case True
    then have mem: "c_int l > 0" "\<not> \<not> mem i" by simp_all
    show ?thesis
    proof (cases "snmp_parse_var_op data l")
      case (Ret r)
      obtain d nm t n v l' where r: "r = (d, nm, t, n, v, l')" by (cases r)
      obtain l2 d2 where ok: "consumes data l d l'" "length nm \<le> MAX_OID_LEN" "asn_parse_header v l2 = Ret (d2, n, t)" "l2 + spare \<le> length v" "l2 < 2 ^ 31"
        using op Ret r by (auto simp: var_op_ok_def)
      have l2: "l2 \<le> length v" using ok(4) by simp
      have l': "l' + spare \<le> length d" "l' < 2 ^ 31" using ok(1) "1.prems" by (auto simp: consumes_def)
      note IH = "1.IH" [OF mem Ret r [symmetric] refl refl refl refl l']
      have step: "snmp_parse_varbinds mem i data l = cbind (snmp_parse_value v t n) (\<lambda>(t, val, n).
          cbind (snmp_parse_varbinds mem (i + 1) d l') (\<lambda>vs. Ret (\<lparr>vp_name = nm, vp_type = t, vp_val = val, vp_val_len = n\<rparr> # vs)))"
        using mem Ret r by (simp add: snmp_parse_varbinds.simps [of mem i data l])
      show ?thesis
      proof (cases "snmp_parse_value v t n")
        case (Ret q)
        obtain t' val n' where q: "q = (t', val, n')" by (cases q)
        show ?thesis unfolding step Ret q using IH value_typed [OF ok(3) l2 ok(5) Ret [unfolded q] ok(2)] by (simp add: varbinds_ok_bind)
      next
        case Overrun
        then have "\<not> l2 < length v" using value_safe [OF ok(3) _ ok(5), of t n] by blast
        then show ?thesis using Overrun step ok(4) by simp
      qed (use step in simp)
    qed (use op True in \<open>auto simp: snmp_parse_varbinds.simps [of mem i data l] var_op_ok_def\<close>)
  qed (auto simp: snmp_parse_varbinds.simps [of mem i data l])
qed

section \<open>PDUs and messages\<close>

lemma parse_bind:
  assumes "l + spare \<le> length data" "l < 2 ^ 31" "l \<le> length data \<Longrightarrow> parse_ok data l r" "Q Null"
    and "\<And>d l' t x. l' + spare \<le> length d \<Longrightarrow> l' < 2 ^ 31 \<Longrightarrow> Q (f (d, l', t, x))"
  shows "Q (cbind r f)"
proof (cases r)
  case (Ret q)
  then obtain d l' t x where "r = Ret (d, l', t, x)" by (cases q) auto
  then show ?thesis using assms by (auto simp: consumes_def)
qed (use assms in auto)

lemma header_bind:
  assumes "l + spare \<le> length data" "l < 2 ^ 31" "l \<le> length data \<Longrightarrow> header_ok data l r" "Q Null"
    and "\<And>d l' t. l' + spare \<le> length d \<Longrightarrow> l' < 2 ^ 31 \<Longrightarrow> Q (f (d, l', t))"
  shows "Q (cbind r f)"
proof (cases r)
  case (Ret q)
  then obtain d l' t where "r = Ret (d, l', t)" by (cases q) auto
  then show ?thesis using assms by (auto simp: header_ok_def)
qed (use assms in auto)

text \<open>The parsers of the fixed fields: they leave the variables alone, and a length within the bytes there are.\<close>

definition fields_ok :: "nat \<Rightarrow> netsnmp_pdu \<Rightarrow> (bytes \<times> nat \<times> netsnmp_pdu) cres \<Rightarrow> bool" where
  "fields_ok spare pdu r = (case r of Overrun \<Rightarrow> False | Null \<Rightarrow> True
     | Ret (d, l, pdu') \<Rightarrow> l + spare \<le> length d \<and> l < 2 ^ 31 \<and> pdu_variables pdu' = pdu_variables pdu)"

lemma fields_ok_simps [simp]:
  "\<not> fields_ok spare pdu Overrun" "fields_ok spare pdu Null"
  "fields_ok spare pdu (Ret (d, l, pdu')) \<longleftrightarrow>
     l + spare \<le> length d \<and> l < 2 ^ 31 \<and> pdu_variables pdu' = pdu_variables pdu"
  by (simp_all add: fields_ok_def)

lemmas parse_binds =
  parse_bind [OF _ _ asn_parse_int_ok] parse_bind [OF _ _ asn_parse_unsigned_int_ok] parse_bind [OF _ _ asn_parse_string_ok]
  parse_bind [OF _ _ asn_parse_objid_ok [where objidlength = MAX_OID_LEN]]
  header_bind [OF _ _ asn_parse_sequence_ok] header_bind [OF _ _ asn_parse_header_ok]

lemma snmp_parse_fields_ok: "l + spare \<le> length data \<Longrightarrow> l < 2 ^ 31 \<Longrightarrow> fields_ok spare pdu (snmp_parse_fields pdu data l)"
  unfolding snmp_parse_fields_def
  by (intro parse_binds [where spare = spare and Q = "fields_ok spare pdu"] | simp)+

lemma snmp_parse_trap_ok: "l + spare \<le> length data \<Longrightarrow> l < 2 ^ 31 \<Longrightarrow> fields_ok spare pdu (snmp_parse_trap pdu data l)"
  unfolding snmp_parse_trap_def
  by (intro parse_binds [where spare = spare and Q = "fields_ok spare pdu"] | simp)+

lemma snmpv3_scopedPDU_parse_ok: "l \<le> length data \<Longrightarrow> l < 2 ^ 31 \<Longrightarrow> fields_ok 0 pdu (snmpv3_scopedPDU_parse pdu data l)"
proof -
  assume l: "l \<le> length data" "l < 2 ^ 31"
  have seq: "header_ok data l (asn_parse_sequence data l ASN_SEQUENCE_CON)" by (rule asn_parse_sequence_ok [OF l])
  show ?thesis
  proof (cases "asn_parse_sequence data l ASN_SEQUENCE_CON")
    case (Ret r)
    then obtain d l1 t where r: "asn_parse_sequence data l ASN_SEQUENCE_CON = Ret (d, l1, t)" by (cases r) auto
    then obtain k where k: "k + l1 \<le> l" "d = drop k data" using seq by (auto simp: header_ok_def)
    have "size_sub l (int (length data - length d)) = l - k" using k l size_sub_nat [of k l] by simp
    moreover have m: "l - k \<le> length d" "l - k < 2 ^ 31" using k l by auto
    ultimately show ?thesis
      unfolding snmpv3_scopedPDU_parse_def r
      by (simp add: Let_def) (intro parse_binds [where spare = 0 and Q = "fields_ok 0 pdu"] | simp)+
  qed (use seq in \<open>auto simp: snmpv3_scopedPDU_parse_def\<close>)
qed

definition pdu_ok :: "nat \<Rightarrow> netsnmp_pdu cres \<Rightarrow> bool" where
  "pdu_ok spare r = (case r of Overrun \<Rightarrow> spare = 0 | Null \<Rightarrow> True | Ret pdu \<Rightarrow> list_all vp_typed (pdu_variables pdu))"

lemma pdu_ok_simps [simp]:
  "pdu_ok spare Overrun \<longleftrightarrow> spare = 0" "pdu_ok spare Null" "pdu_ok spare (Ret pdu) \<longleftrightarrow> list_all vp_typed (pdu_variables pdu)"
  by (simp_all add: pdu_ok_def)

lemma fields_bind:
  assumes "fields_ok spare pdu r" "Q Null"
    and "\<And>d l pdu'. l + spare \<le> length d \<Longrightarrow> l < 2 ^ 31 \<Longrightarrow> pdu_variables pdu' = pdu_variables pdu \<Longrightarrow> Q (f (d, l, pdu'))"
  shows "Q (cbind r f)"
proof (cases r)
  case (Ret q)
  then show ?thesis using assms by (cases q) auto
qed (use assms in auto)

lemma varbinds_bind:
  assumes "varbinds_ok spare r" "spare = 0 \<Longrightarrow> Q Overrun" "Q Null" "\<And>vs. list_all vp_typed vs \<Longrightarrow> Q (f vs)"
  shows "Q (cbind r f)"
  using assms by (cases r) auto

lemma fields_ok_cong: "fields_ok spare pdu' r \<Longrightarrow> pdu_variables pdu' = pdu_variables pdu \<Longrightarrow> fields_ok spare pdu r"
  by (auto simp: fields_ok_def split: cres.splits)

lemma fields_any:
  assumes "l + spare \<le> length d" "l < 2 ^ 31" "pdu_variables q = pdu_variables pdu" "pdu_variables q' = pdu_variables pdu"
  shows "fields_ok spare pdu (if a then snmp_parse_trap q d l else if b then snmp_parse_fields q' d l
                        else if c then snmp_parse_fields q d l else Null)"
  using fields_ok_cong [OF snmp_parse_trap_ok [OF assms(1,2)]] fields_ok_cong [OF snmp_parse_fields_ok [OF assms(1,2)]] assms(3,4)
  by simp

lemma snmp_pdu_parse_ok:
  assumes "l + spare \<le> length data" "l < 2 ^ 31" "list_all vp_typed (pdu_variables pdu)"
  shows "pdu_ok spare (snmp_pdu_parse mem pdu data l)"
  unfolding snmp_pdu_parse_def
proof (rule parse_binds(6) [where spare = spare and Q = "pdu_ok spare"], rule assms(1), rule assms(2), assumption, rule assms(2), simp,
    unfold split_conv Let_def, goal_cases)
  case (1 d l t)
  show ?case
  proof (rule fields_bind [where spare = spare], rule fields_any [OF 1, where pdu = pdu], simp, simp, simp, unfold split_conv, goal_cases)
    case (1 d l pdu')
    note f = 1
    show ?case
    proof (rule parse_binds(5) [where spare = spare and Q = "pdu_ok spare"], rule f(1), rule f(2), assumption, rule f(2), simp,
        unfold split_conv, goal_cases)
      case (1 d l t)
      show ?case by (rule varbinds_bind [OF snmp_parse_varbinds_ok [OF 1]]) (use f(3) assms(3) in auto)
    qed
  qed
qed

text \<open>
  The whole of an SNMPv1 or v2c message, with an authenticator that leaves a length within the bytes there are, and the
  spare bytes behind it.
\<close>

definition comstr_ok :: "nat \<Rightarrow> (bytes \<times> nat \<times> int \<times> bytes) cres \<Rightarrow> bool" where
  "comstr_ok spare r = (case r of Overrun \<Rightarrow> False | Null \<Rightarrow> True | Ret (d, l, _) \<Rightarrow> l + spare \<le> length d \<and> l < 2 ^ 31)"

lemma comstr_ok_simps [simp]:
  "\<not> comstr_ok spare Overrun" "comstr_ok spare Null" "comstr_ok spare (Ret (d, l, x)) \<longleftrightarrow> l + spare \<le> length d \<and> l < 2 ^ 31"
  by (simp_all add: comstr_ok_def)

lemma snmp_comstr_parse_ok:
  assumes "l + spare \<le> length data" "l < 2 ^ 31" "0 < slen"
  shows "comstr_ok spare (snmp_comstr_parse data l slen)"
  unfolding snmp_comstr_parse_def
  by (insert assms, intro parse_binds [where spare = spare and Q = "comstr_ok spare"] | simp)+

lemma snmp_parse_version_safe:
  assumes "l \<le> length data" "l < 2 ^ 31"
  shows "snmp_parse_version data l \<noteq> Overrun"
proof (cases "asn_parse_sequence data l ASN_SEQUENCE_CON")
  case (Ret r)
  obtain d l' t where r: "r = (d, l', t)" by (cases r)
  have "l' \<le> length d" "l' < 2 ^ 31"
    using asn_parse_sequence_ok [OF assms, of ASN_SEQUENCE_CON] Ret r assms by (auto simp: header_ok_def)
  then show ?thesis using parse_ok_safe [OF asn_parse_int_ok, of l' d 8] Ret r
    by (auto simp: snmp_parse_version_def split: cres.splits)
qed (use asn_parse_sequence_ok [OF assms, of ASN_SEQUENCE_CON] in \<open>auto simp: snmp_parse_version_def\<close>)

definition authenticator_spare :: "nat \<Rightarrow> (bytes \<Rightarrow> nat \<Rightarrow> bytes \<Rightarrow> (bytes \<times> nat) cres) option \<Rightarrow> bool" where
  "authenticator_spare spare authenticator = (case authenticator of None \<Rightarrow> True
     | Some f \<Rightarrow> \<forall>d l community. l + spare \<le> length d \<longrightarrow> l < 2 ^ 31 \<longrightarrow>
         (case f d l community of Overrun \<Rightarrow> False | Null \<Rightarrow> True | Ret (d', l') \<Rightarrow> l' + spare \<le> length d' \<and> l' < 2 ^ 31))"

definition authenticator_ok :: "(bytes \<Rightarrow> nat \<Rightarrow> bytes \<Rightarrow> (bytes \<times> nat) cres) option \<Rightarrow> bool" where
  "authenticator_ok authenticator = (case authenticator of None \<Rightarrow> True
     | Some f \<Rightarrow> \<forall>d l community. l \<le> length d \<longrightarrow> l < 2 ^ 31 \<longrightarrow>
         (case f d l community of Overrun \<Rightarrow> False | Null \<Rightarrow> True | Ret (d', l') \<Rightarrow> l' \<le> length d' \<and> l' < 2 ^ 31))"

lemma authenticator_spare_0: "authenticator_ok authenticator \<Longrightarrow> authenticator_spare 0 authenticator"
  unfolding authenticator_ok_def authenticator_spare_def add_0_right .

lemma snmp_parse_v1v2c_ok:
  assumes "l + spare \<le> length data" "l < 2 ^ 31" "list_all vp_typed (pdu_variables pdu)" "authenticator_spare spare authenticator"
  shows "pdu_ok spare (snmp_parse_v1v2c mem authenticator disabled sess_version pdu data l)"
proof -
  have msg: "pdu_ok spare (cbind (case authenticator of None \<Rightarrow> Ret (d, l) | Some f \<Rightarrow> f d l c) (\<lambda>(d, l). snmp_pdu_parse mem q d l))"
    if "l + spare \<le> length d" "l < 2 ^ 31" "pdu_variables q = pdu_variables pdu" for d l c q
  proof (cases authenticator)
    case None
    then show ?thesis using snmp_pdu_parse_ok [OF that(1,2)] that(3) assms(3) by simp
  next
    case (Some f)
    then have "case f d l c of Overrun \<Rightarrow> False | Null \<Rightarrow> True | Ret (d', l') \<Rightarrow> l' + spare \<le> length d' \<and> l' < 2 ^ 31"
      using assms(4) that(1,2) by (simp add: authenticator_spare_def)
    then show ?thesis using Some snmp_pdu_parse_ok [of _ spare _ q] that(3) assms(3) by (cases "f d l c") auto
  qed
  define version where "version = (if sess_version \<noteq> -1 then Ret sess_version else snmp_parse_version data l)"
  have def: "snmp_parse_v1v2c mem authenticator disabled sess_version pdu data l = cbind version (\<lambda>version.
       if version \<notin> {0, 1} \<or> disabled version then Null
       else cbind (snmp_comstr_parse data l 256) (\<lambda>(data, l, version, community).
         if version \<noteq> sess_version \<and> sess_version \<noteq> -1 then Null
         else let pdu = pdu\<lparr>pdu_version := version, pdu_securityLevel := 1,
                            pdu_securityModel := (if version = 0 then 1 else 2),
                            pdu_community := (if community = [] then None else Some community),
                            pdu_community_len := length community\<rparr> in
           cbind (case authenticator of None \<Rightarrow> Ret (data, l) | Some f \<Rightarrow> f data l community) (\<lambda>(data, l).
             snmp_pdu_parse mem pdu data l)))" unfolding snmp_parse_v1v2c_def version_def ..
  have com: "comstr_ok spare (snmp_comstr_parse data l 256)" using snmp_comstr_parse_ok [OF assms(1,2), of 256] by simp
  show ?thesis
  proof (cases version)
    case v: (Ret v)
    show ?thesis
    proof (cases "snmp_comstr_parse data l 256")
      case (Ret r)
      obtain d l' ver c where r: "r = (d, l', ver, c)" by (cases r)
      have l': "l' + spare \<le> length d" "l' < 2 ^ 31" using com Ret r by simp_all
      show ?thesis unfolding def v Ret r cbind.simps split_conv Let_def
        by (split if_split)+ (use msg [OF l'] in simp)
    qed (use v com def in auto)
  next
    case Overrun
    then show ?thesis using snmp_parse_version_safe [OF _ assms(2), of data] assms(1) by (auto simp: version_def split: if_splits)
  qed (simp add: def)
qed


text \<open>
  C2. Parsing any bytes as an SNMPv1 or v2c message or as a PDU reads nothing outside the buffer when one readable byte
  follows the \<open>len\<close> bytes of the message, whatever allocations fail: although the value of a variable is decoded with a
  bound of 2^31 - 1 bytes and a position is moved by a length from the message. The byte is needed for a message that ends
  with a bit string of length 0, whose decoder looks at the byte behind it (\<open>message_parse_overreads\<close>). Parsing the head of
  an SNMPv3 scoped PDU needs no byte behind. The authenticator of the session, if it has one, keeps to its bytes.
\<close>

theorem message_parse_safe:
  assumes "len < length data" "len < 2 ^ 31" "authenticator_spare 1 authenticator" "list_all vp_typed (pdu_variables pdu)"
  shows "snmp_parse_v1v2c mem authenticator disabled sess_version pdu data len \<noteq> Overrun
    \<and> snmp_pdu_parse mem pdu data len \<noteq> Overrun
    \<and> (n \<le> length data \<and> n < 2 ^ 31 \<longrightarrow> snmpv3_scopedPDU_parse pdu data n \<noteq> Overrun)"
proof -
  have ok: "r \<noteq> Overrun" if "pdu_ok 1 r" for r using that by auto
  have l: "len + 1 \<le> length data" using assms(1) by simp
  have "snmpv3_scopedPDU_parse pdu data n \<noteq> Overrun" if "n \<le> length data" "n < 2 ^ 31"
    using snmpv3_scopedPDU_parse_ok [OF that, of pdu] by auto
  then show ?thesis using ok [OF snmp_parse_v1v2c_ok [OF l assms(2,4,3)]] ok [OF snmp_pdu_parse_ok [OF l assms(2,4)]] by blast
qed

definition empty_pdu :: netsnmp_pdu where
  "empty_pdu = \<lparr>pdu_version = 0, pdu_command = 0, pdu_reqid = 0, pdu_errstat = 0, pdu_errindex = 0, pdu_time = 0, pdu_flags = 0,
    pdu_variables = [], pdu_community = None, pdu_community_len = 0, pdu_enterprise = [], pdu_trap_type = 0,
    pdu_specific_type = 0, pdu_agent_addr = [0, 0, 0, 0], pdu_contextEngineID = None, pdu_contextEngineIDLen = 0,
    pdu_contextName = None, pdu_contextNameLen = 0, pdu_securityModel = 0, pdu_securityLevel = 0\<rparr>"

theorem message_parse_safe_witness: \<comment> \<open>a GET whose value announces more bytes than there are\<close>
  "snmp_parse_v1v2c (\<lambda>_. True) None (\<lambda>_. False) (- 1) empty_pdu
     [48, 20, 2, 1, 1, 4, 1, 112, 160, 12, 2, 1, 7, 2, 1, 0, 2, 1, 0, 48, 1, 48, 99] 22 \<noteq> Overrun"
proof -
  have "authenticator_spare 1 None" "list_all vp_typed (pdu_variables empty_pdu)" by (simp_all add: authenticator_spare_def empty_pdu_def)
  from message_parse_safe [OF _ _ this, of 22] show ?thesis by simp
qed

text \<open>A GET whose only variable ends the message with \<open>03 00\<close>: without a byte behind it the read is outside the buffer.\<close>

lemma message_parse_overreads:
  "snmp_parse_v1v2c (\<lambda>_. True) None (\<lambda>_. False) (- 1) empty_pdu
     [48, 27, 2, 1, 1, 4, 1, 112, 160, 19, 2, 1, 7, 2, 1, 0, 2, 1, 0, 48, 8, 48, 6, 6, 2, 43, 6, 3, 0] 29 = Overrun"
  "snmp_parse_v1v2c (\<lambda>_. True) None (\<lambda>_. False) (- 1) empty_pdu
     [48, 27, 2, 1, 1, 4, 1, 112, 160, 19, 2, 1, 7, 2, 1, 0, 2, 1, 0, 48, 8, 48, 6, 6, 2, 43, 6, 3, 0, 99] 29 = Null"
  by code_simp+



end
