(* ===== verification/PduRoundtrip.thy ===== *)
theory PduRoundtrip
  imports PduSafe
begin

text \<open>
  Round trips of values through the reverse encoding, which is the one used by default: every value that fits its type
  is parsed back as it was, whatever follows it in the message.
\<close>


section \<open>Encodings that fit\<close>

text \<open>
  \<open>encodes f t c\<close>: with room for 0x20000 bytes the forward encoder \<open>f\<close> writes a header of type \<open>t\<close> and the contents \<open>c\<close>.
\<close>

definition encodes :: "(nat \<Rightarrow> (bytes \<times> nat) cres) \<Rightarrow> u_char \<Rightarrow> bytes \<Rightarrow> bool" where
  "encodes f t c \<longleftrightarrow> length c \<le> 0xFFFF \<and>
     (\<exists>hdr dl' k k'. f 0x20000 = Ret (hdr @ c, dl') \<and> asn_build_header k t (length c) = Ret (hdr, k'))"

lemma build_length_room: "3 \<le> dl \<Longrightarrow> \<exists>bs d. asn_build_length dl n = Ret (bs, d) \<and> dl \<le> d + 3"
  by (auto simp: asn_build_length_def)

lemma build_header_room: "4 \<le> dl \<Longrightarrow> \<exists>bs d. asn_build_header dl t n = Ret (bs, d) \<and> dl \<le> d + 4"
  using build_length_room [of "dl - 1" n] by (fastforce simp: asn_build_header_def)

lemma encodes_body:
  assumes "f 0x20000 = cbind (asn_build_header_check (asn_build_header 0x20000 t (length c)) (length c)) (\<lambda>(hdr, d). Ret (hdr @ c, d - length c))"
    "length c \<le> 0xFFFF"
  shows "encodes f t c"
proof -
  obtain hdr d where h: "asn_build_header 0x20000 t (length c) = Ret (hdr, d)" "0x20000 \<le> d + 4"
    using build_header_room [of "0x20000" t "length c"] by auto
  then have "f 0x20000 = Ret (hdr @ c, d - length c)" using assms by (simp add: asn_build_header_check_def)
  then show ?thesis using h assms(2) unfolding encodes_def by blast
qed

lemma trunc_loop_fst_le: "fst (asn_trunc_loop m n w) \<le> n"
  by (induction n arbitrary: w) (auto simp: le_SucI)

lemma encodes_int: "\<exists>c. encodes (\<lambda>dl. asn_build_int dl t v 8) t c \<and> length c \<le> 8"
proof -
  obtain n w where n: "asn_trunc_loop top9 8 (word_of_int (check_overflow_s v)) = (n, w)"
    by (cases "asn_trunc_loop top9 8 (word_of_int (check_overflow_s v))")
  then have n8: "n \<le> 8" using trunc_loop_fst_le [of top9 8 "word_of_int (check_overflow_s v)"] by simp
  have "encodes (\<lambda>dl. asn_build_int dl t v 8) t (asn_emit64_loop n w)"
    by (rule encodes_body) (use n n8 in \<open>simp_all add: asn_build_int_def emit_loop_eq del: push_bit_numeral\<close>)
  then show ?thesis using n8 by (intro exI [of _ "asn_emit64_loop n w"]) simp
qed

lemma encodes_unsigned_int: "\<exists>c. encodes (\<lambda>dl. asn_build_unsigned_int dl t v 8) t c \<and> length c \<le> 9"
proof -
  define i where "i = check_overflow_u v"
  define add where "add = (ucast (drop_bit 56 (i AND push_bit 56 0xFF)) AND (0x80 :: u_char) \<noteq> 0)"
  obtain n w where nw: "(if add then (9, i) else asn_trunc_loop top9 8 i) = (n, w)" by (cases "if add then (9, i) else asn_trunc_loop top9 8 i")
  have n: "n \<le> 9" "add \<Longrightarrow> n = 9" using nw trunc_loop_fst_le [of top9 8 i] by (auto split: if_splits)
  let ?c = "if add then 0 # asn_emit64_loop (n - 1) w else asn_emit64_loop n w"
  have len: "length ?c = n" using n(2) by auto
  have add_8_1: "(8::nat) + 1 = 9" by simp
  have nw': "(if add then ((8::nat) + 1, i) else asn_trunc_loop top9 8 i) = (n, w)" using nw by (simp only: add_8_1)
  have "encodes (\<lambda>dl. asn_build_unsigned_int dl t v 8) t ?c"
  proof (rule encodes_body)
    show "asn_build_unsigned_int 0x20000 t v 8
      = cbind (asn_build_header_check (asn_build_header 0x20000 t (length ?c)) (length ?c)) (\<lambda>(hdr, d). Ret (hdr @ ?c, d - length ?c))"
      unfolding asn_build_unsigned_int_def i_def [symmetric] add_def [symmetric] Let_def len nw' by (simp add: emit_loop_eq)
  qed (use len n(1) in simp)
  then show ?thesis using n(1) len by (intro exI [of _ ?c]) simp
qed

lemma encodes_string: "length s \<le> 0xFFFF \<Longrightarrow> encodes (\<lambda>dl. asn_build_string dl t (Some s) (length s)) t s"
  by (rule encodes_body) (simp_all add: asn_build_string_def asn_copy_def)

lemma encodes_bitstring:
  "1 \<le> length s \<Longrightarrow> length s \<le> 0xFFFF \<Longrightarrow> encodes (\<lambda>dl. asn_build_bitstring dl t (Some s) (length s)) t s"
  by (rule encodes_body) (auto simp: asn_build_bitstring_def asn_bitstring_check_def asn_copy_def Suc_le_length_iff)

lemma encodes_null: "encodes (\<lambda>dl. asn_build_null dl t) t []"
  using build_header_room [of "0x20000" t 0] unfolding encodes_def asn_build_null_def by auto

text \<open>An OID whose first two sub-identifiers can be combined.\<close>

definition oid_ok :: "oid \<Rightarrow> bool" where
  "oid_ok x \<longleftrightarrow> oid_encodable x \<and> length x \<le> 128 \<and> asn_objid_first x \<noteq> None"

lemma encodes_objid:
  assumes "oid_ok x"
  shows "\<exists>c. encodes (\<lambda>dl. asn_build_objid dl t x) t c \<and> length c \<le> 635"
proof -
  obtain f n where f: "asn_objid_first x = Some (f, n)" using assms by (auto simp: oid_ok_def)
  have "n = length x" using f assms by (auto simp: oid_ok_def oid_encodable_def asn_objid_first_def split: if_splits)
  then have n: "\<not> n \<le> 1" "n \<le> 128" using assms by (auto simp: oid_ok_def oid_encodable_def)
  let ?vals = "check_overflow_u f # drop 2 x"
  let ?c = "concat (map asn_subid_bytes ?vals)"
  have len: "length ?c = sum_list (map (\<lambda>v. encoded_oid_len (ucast v)) ?vals)"
    by (simp only: length_concat map_map o_def length_subid_bytes)
  also have "\<dots> \<le> sum_list (map (\<lambda>v. 5) ?vals)" using encoded_oid_len_bounds by (intro sum_list_mono) auto
  finally have c: "length ?c \<le> 635" using n \<open>n = length x\<close> by (simp add: sum_list_triv)
  have "encodes (\<lambda>dl. asn_build_objid dl t x) t ?c"
  proof (rule encodes_body)
    have "sum_list (map (\<lambda>v. encoded_oid_len (ucast (check_overflow_u v))) ?vals) = length ?c"
      unfolding len by (simp only: ucast_check_overflow_u)
    then show "asn_build_objid 0x20000 t x
      = cbind (asn_build_header_check (asn_build_header 0x20000 t (length ?c)) (length ?c)) (\<lambda>(hdr, d). Ret (hdr @ ?c, d - length ?c))"
      unfolding asn_build_objid_def f using n by (simp add: Let_def del: list.map sum_list.Cons)
  qed (use c in simp)
  then show ?thesis using c by blast
qed

lemma encodes_bytes: "encodes f t c \<Longrightarrow> \<exists>hdr dl' k k'. f 0x20000 = Ret (hdr @ c, dl') \<and> asn_build_header k t (length c) = Ret (hdr, k')"
  by (simp add: encodes_def)

section \<open>The header in front of a value\<close>

abbreviation (input) special_types :: "u_char set" where
  "special_types \<equiv> {ASN_OPAQUE_COUNTER64, ASN_OPAQUE_U64, ASN_OPAQUE_FLOAT, ASN_OPAQUE_DOUBLE, ASN_OPAQUE_I64}"

definition opaque_special :: "u_char \<Rightarrow> bytes \<Rightarrow> bool" where \<comment> \<open>an Opaque that reads like a wrapped special value\<close>
  "opaque_special t c \<longleftrightarrow> t = ASN_OPAQUE \<and> 2 < length c \<and> c ! 0 = ASN_OPAQUE_TAG1 \<and> c ! 1 \<in> special_types"

lemma build_header_Ret:
  assumes "asn_build_header k t n = Ret (hdr, k')"
  obtains ls where "hdr = t # ls" "asn_build_length (k - 1) n = Ret (ls, k')"
  using assms by (auto simp: asn_build_header_def cbind_eq_Ret split: if_splits)

lemma parse_header_plain:
  assumes "asn_build_header k t (length c) = Ret (hdr, k')" "length c \<le> 0xFFFF" "t AND ASN_EXTENSION_ID \<noteq> ASN_EXTENSION_ID"
    "\<not> opaque_special t c" "length hdr + length c \<le> l"
  shows "asn_parse_header (hdr @ c @ rest) l = Ret (c @ rest, length c, t)"
proof -
  obtain ls where h: "hdr = t # ls" "asn_build_length (k - 1) (length c) = Ret (ls, k')" by (rule build_header_Ret [OF assms(1)])
  have l: "\<not> l < 2" using asn_build_length_cases [OF h(2)] h(1) assms(5) by simp
  have n: "asn_parse_nlength (ls @ c @ rest) (l - 1) = Ret (c @ rest, length c)"
    using assms(2,5) h by (intro asn_parse_nlength_build) auto
  have m: "size_sub 0 (- c_int (length c)) = length c" using assms(2) by simp
  have "asn_parse_header_contents (c @ rest) (length c) t = Ret (c @ rest, length c, t)"
  proof (cases "length c > 2 \<and> t = ASN_OPAQUE")
    case True
    then obtain x y c' where "c = x # y # c'" by (cases c; cases "tl c") auto
    then show ?thesis using assms(4) m True by (auto simp: asn_parse_header_contents_def opaque_special_def Let_def)
  qed (use m in \<open>auto simp: asn_parse_header_contents_def Let_def\<close>)
  then show ?thesis using l n assms(3) h(1) by (simp add: asn_parse_header_def)
qed

lemma parse_header_wrapped:
  assumes "asn_build_header k ASN_OPAQUE (length c + 3) = Ret (hdr, k')" "length c \<le> 9" "t \<in> special_types" "length hdr + 3 + length c \<le> l"
  shows "asn_parse_header (hdr @ [ASN_OPAQUE_TAG1, t, word_of_nat (length c)] @ c @ rest) l = Ret (c @ rest, length c, t)"
proof -
  obtain ls where h: "hdr = ASN_OPAQUE # ls" "asn_build_length (k - 1) (length c + 3) = Ret (ls, k')" by (rule build_header_Ret [OF assms(1)])
  have l: "\<not> l < 2" using asn_build_length_cases [OF h(2)] h(1) assms(4) by simp
  let ?c = "[ASN_OPAQUE_TAG1, t, word_of_nat (length c)] @ c @ rest"
  have n: "asn_parse_nlength (ls @ ?c) (l - 1) = Ret (?c, length c + 3)"
    using assms(2,4) h by (intro asn_parse_nlength_build) auto
  have u: "unat (word_of_nat (length c) :: u_char) = length c" using assms(2) by (simp add: unat_word_of_nat)
  have s: "size_sub (length c + 3) 2 = length c + 1" using assms(2) size_sub_nat [of 2 "length c + 3"] by simp
  have "asn_parse_nlength (word_of_nat (length c) # c @ rest) (length c + 1) = Ret (c @ rest, length c)"
    using nlength_short [of "word_of_nat (length c)" "length c + 1" "c @ rest"] u assms(2) by simp
  moreover have m: "size_sub 0 (- c_int m) = m" if "m \<le> 12" for m using that by simp
  have "size_sub 0 (- c_int (length c + 3)) = length c + 3" "size_sub 0 (- c_int (length c)) = length c"
    using assms(2) by (intro m; simp)+
  ultimately have "asn_parse_header_contents ?c (length c + 3) ASN_OPAQUE = Ret (c @ rest, length c, t)"
    using assms(3) s by (auto simp: asn_parse_header_contents_def Let_def)
  then show ?thesis using l n h(1) by (simp add: asn_parse_header_def)
qed

section \<open>Values\<close>

text \<open>
  The values that survive the round trip: of the range of their type on the wire, with an Opaque that does not look like
  a wrapped special value, and null values without a length. Wrapped signed 64-bit integers are left out.
\<close>

definition value_ok :: "u_char \<Rightarrow> netsnmp_vardata \<Rightarrow> nat \<Rightarrow> bool" where
  "value_ok t val n = (case val of
     Val_integer i \<Rightarrow> n = 8 \<and> (t = ASN_INTEGER \<and> - (2 ^ 31) \<le> sint i \<and> sint i < 2 ^ 31 \<or> t \<in> uint_types \<and> unat i < 2 ^ 32)
   | Val_counter64 c \<Rightarrow> n = 16 \<and> t \<in> uint64_types \<and> c64_wf c
   | Val_float f \<Rightarrow> n = 4 \<and> t = ASN_OPAQUE_FLOAT
   | Val_double d \<Rightarrow> n = 8 \<and> t = ASN_OPAQUE_DOUBLE
   | Val_string s \<Rightarrow> n = length s \<and> n \<le> 0xFFFF \<and>
       (t \<in> string_types \<and> \<not> opaque_special t s \<and> (t = ASN_IPADDRESS \<longrightarrow> n = 4) \<or> t = ASN_BIT_STR \<and> 1 \<le> n)
   | Val_objid x \<Rightarrow> t = ASN_OBJECT_ID \<and> oid_ok x \<and> n = 8 * length x
   | Val_none \<Rightarrow> t \<in> null_types \<and> n = 0)"

text \<open>The bytes \<open>bs\<close> are the encoding of a value, its contents being \<open>k\<close> bytes long.\<close>

definition value_codec :: "u_char \<Rightarrow> netsnmp_vardata \<Rightarrow> nat \<Rightarrow> bytes \<Rightarrow> nat \<Rightarrow> bool" where
  "value_codec t val n bs k \<longleftrightarrow> length bs \<le> 0x10010 \<and> (\<exists>d. snmp_build_value 0x20000 t n val = Ret (bs, d)) \<and>
     (\<forall>rest. \<exists>c. length c = k \<and> asn_parse_header (bs @ rest) (length bs) = Ret (c @ rest, k, t)) \<and>
     (\<forall>rest. snmp_parse_value (bs @ rest) t k = Ret (t, val, n)) \<and>
     (\<forall>alloc s. rb_wf s \<longrightarrow> prepends alloc True s (snmp_realloc_rbuild_value alloc True t val n s) bs)"

lemma value_codec_plain:
  assumes "encodes f t c" "t AND ASN_EXTENSION_ID \<noteq> ASN_EXTENSION_ID" "\<not> opaque_special t c"
    and "snmp_build_value 0x20000 t n val = f 0x20000"
    and "\<And>bs dl' rest. f 0x20000 = Ret (bs, dl') \<Longrightarrow> length bs \<le> 0x10010 \<Longrightarrow> snmp_parse_value (bs @ rest) t (length c) = Ret (t, val, n)"
    and "\<And>bs dl' alloc s. f 0x20000 = Ret (bs, dl') \<Longrightarrow> rb_wf s \<Longrightarrow> prepends alloc True s (snmp_realloc_rbuild_value alloc True t val n s) bs"
  shows "\<exists>bs. value_codec t val n bs (length c)"
proof -
  obtain hdr dl' k k' where h: "f 0x20000 = Ret (hdr @ c, dl')" "asn_build_header k t (length c) = Ret (hdr, k')"
    using encodes_bytes [OF assms(1)] by blast
  have c: "length c \<le> 0xFFFF" using assms(1) by (simp add: encodes_def)
  have len: "length (hdr @ c) \<le> 0x10010" using asn_build_header_Ret [OF h(2)] c by auto
  have "asn_parse_header ((hdr @ c) @ rest) (length (hdr @ c)) = Ret (c @ rest, length c, t)" for rest
    using parse_header_plain [OF h(2) c assms(2,3), of "length (hdr @ c)" rest] by simp
  then show ?thesis unfolding value_codec_def using len assms(4) h(1) assms(5) [OF h(1) len] assms(6) [OF h(1)]
    by (intro exI [of _ "hdr @ c"]) auto
qed

lemma bound_split: "length (bs :: bytes) \<le> 0x10010 \<Longrightarrow> \<exists>m. SNMP_MAX_PACKET_LEN = length bs + m \<and> m < 2 ^ 31"
  by (intro exI [of _ "SNMP_MAX_PACKET_LEN - length bs"]) simp

lemma codec_integer:
  assumes "- (2 ^ 31) \<le> sint i" "sint i < 2 ^ 31"
  shows "\<exists>bs k. value_codec ASN_INTEGER (Val_integer i) 8 bs k"
proof -
  obtain c where c: "encodes (\<lambda>dl. asn_build_int dl ASN_INTEGER (sint i) 8) ASN_INTEGER c" using encodes_int by blast
  have "\<exists>bs. value_codec ASN_INTEGER (Val_integer i) 8 bs (length c)"
  proof (rule value_codec_plain [OF c])
    fix bs dl' rest assume b: "asn_build_int 0x20000 ASN_INTEGER (sint i) 8 = Ret (bs, dl')" "length bs \<le> 0x10010"
    then obtain m where m: "SNMP_MAX_PACKET_LEN = length bs + m" "m < 2 ^ 31" using bound_split by blast
    show "snmp_parse_value (bs @ rest) ASN_INTEGER (length c) = Ret (ASN_INTEGER, Val_integer i, 8)"
      unfolding snmp_parse_value_def m(1) using asn_int_roundtrip(1) [OF b(1) assms m(2)] by simp
  qed (auto simp: opaque_special_def snmp_build_value_def snmp_realloc_rbuild_value_def as_integer_def intro: rbuild_int_prepends)
  then show ?thesis by blast
qed

lemma codec_unsigned:
  assumes "t \<in> uint_types" "unat i < 2 ^ 32"
  shows "\<exists>bs k. value_codec t (Val_integer i) 8 bs k"
proof -
  obtain c where c: "encodes (\<lambda>dl. asn_build_unsigned_int dl t i 8) t c" using encodes_unsigned_int by blast
  have "\<exists>bs. value_codec t (Val_integer i) 8 bs (length c)"
  proof (rule value_codec_plain [OF c])
    fix bs dl' rest assume b: "asn_build_unsigned_int 0x20000 t i 8 = Ret (bs, dl')" "length bs \<le> 0x10010"
    then obtain m where m: "SNMP_MAX_PACKET_LEN = length bs + m" "m < 2 ^ 31" using bound_split by blast
    show "snmp_parse_value (bs @ rest) t (length c) = Ret (t, Val_integer i, 8)"
      unfolding snmp_parse_value_def m(1) using asn_unsigned_int_roundtrip(1) [OF b(1) assms(2) _ m(2)] assms(1) by auto
  qed (use assms(1) in \<open>auto simp: opaque_special_def snmp_build_value_def snmp_realloc_rbuild_value_def as_integer_def intro: rbuild_unsigned_int_prepends\<close>)
  then show ?thesis by blast
qed

lemma codec_string:
  assumes "t \<in> string_types" "length s \<le> 0xFFFF" "\<not> opaque_special t s" "t = ASN_IPADDRESS \<longrightarrow> length s = 4"
  shows "\<exists>bs k. value_codec t (Val_string s) (length s) bs k"
proof -
  have "\<exists>bs. value_codec t (Val_string s) (length s) bs (length s)"
  proof (rule value_codec_plain [OF encodes_string [OF assms(2)]])
    fix bs dl' rest assume b: "asn_build_string 0x20000 t (Some s) (length s) = Ret (bs, dl')" "length bs \<le> 0x10010"
    then obtain m where m: "SNMP_MAX_PACKET_LEN = length bs + m" "m < 2 ^ 31" using bound_split by blast
    show "snmp_parse_value (bs @ rest) t (length s) = Ret (t, Val_string s, length s)"
      unfolding snmp_parse_value_def m(1) using asn_string_roundtrip(1) [OF b(1) assms(2) order_refl _ m(2)] assms(1,4) by auto
  qed (use assms in \<open>auto simp: snmp_build_value_def snmp_realloc_rbuild_value_def as_string_def intro: rbuild_string_prepends\<close>)
  then show ?thesis by blast
qed

lemma codec_bitstring:
  assumes "1 \<le> length s" "length s \<le> 0xFFFF"
  shows "\<exists>bs k. value_codec ASN_BIT_STR (Val_string s) (length s) bs k"
proof -
  have "\<exists>bs. value_codec ASN_BIT_STR (Val_string s) (length s) bs (length s)"
  proof (rule value_codec_plain [OF encodes_bitstring [OF assms]])
    fix bs dl' rest assume b: "asn_build_bitstring 0x20000 ASN_BIT_STR (Some s) (length s) = Ret (bs, dl')" "length bs \<le> 0x10010"
    then obtain m where m: "SNMP_MAX_PACKET_LEN = length bs + m" "m < 2 ^ 31" using bound_split by blast
    show "snmp_parse_value (bs @ rest) ASN_BIT_STR (length s) = Ret (ASN_BIT_STR, Val_string s, length s)"
      unfolding snmp_parse_value_def m(1) using asn_bitstring_roundtrip(1) [OF b(1) assms(2) order_refl m(2)] by simp
  qed (use assms in \<open>auto simp: opaque_special_def snmp_build_value_def snmp_realloc_rbuild_value_def as_string_def intro: rbuild_bitstring_prepends\<close>)
  then show ?thesis by blast
qed

lemma codec_objid:
  assumes "oid_ok x"
  shows "\<exists>bs k. value_codec ASN_OBJECT_ID (Val_objid x) (8 * length x) bs k"
proof -
  obtain c where c: "encodes (\<lambda>dl. asn_build_objid dl ASN_OBJECT_ID x) ASN_OBJECT_ID c" using encodes_objid [OF assms] by blast
  have x: "oid_encodable x" "length x \<le> MAX_OID_LEN" "MAX_OID_LEN < 2 ^ 64" using assms by (simp_all add: oid_ok_def)
  have "\<exists>bs. value_codec ASN_OBJECT_ID (Val_objid x) (8 * length x) bs (length c)"
  proof (rule value_codec_plain [OF c])
    fix bs dl' rest assume b: "asn_build_objid 0x20000 ASN_OBJECT_ID x = Ret (bs, dl')" "length bs \<le> 0x10010"
    then obtain m where m: "SNMP_MAX_PACKET_LEN = length bs + m" "m < 2 ^ 31" using bound_split by blast
    show "snmp_parse_value (bs @ rest) ASN_OBJECT_ID (length c) = Ret (ASN_OBJECT_ID, Val_objid x, 8 * length x)"
      unfolding snmp_parse_value_def m(1) using asn_objid_roundtrip(1) [OF b(1) x m(2)] by simp
  qed (auto simp: opaque_special_def snmp_build_value_def snmp_realloc_rbuild_value_def as_objid_def intro: rbuild_objid_prepends)
  then show ?thesis by blast
qed

lemma codec_null:
  assumes "t \<in> null_types"
  shows "\<exists>bs k. value_codec t Val_none 0 bs k"
proof -
  have "\<exists>bs. value_codec t Val_none 0 bs (length ([] :: bytes))"
    by (rule value_codec_plain [OF encodes_null])
      (use assms in \<open>auto simp: opaque_special_def snmp_parse_value_def snmp_build_value_def snmp_realloc_rbuild_value_def intro: rbuild_null_prepends\<close>)
  then show ?thesis by blast
qed

text \<open>The wrapped types, and Counter64.\<close>

lemma value_codec_wrapped:
  assumes "bs = hdr @ [ASN_OPAQUE_TAG1, t, word_of_nat (length c)] @ c" "asn_build_header k ASN_OPAQUE (length c + 3) = Ret (hdr, k')"
    "length c \<le> 9" "t \<in> special_types" "\<exists>d. snmp_build_value 0x20000 t n val = Ret (bs, d)"
    and "\<And>rest. length bs \<le> 0x10010 \<Longrightarrow> snmp_parse_value (bs @ rest) t (length c) = Ret (t, val, n)"
    and "\<And>alloc s. rb_wf s \<Longrightarrow> prepends alloc True s (snmp_realloc_rbuild_value alloc True t val n s) bs"
  shows "value_codec t val n bs (length c)"
proof -
  have len: "length bs \<le> 0x10010" using asn_build_header_Ret [OF assms(2)] assms(1,3) by auto
  have "asn_parse_header (bs @ rest) (length bs) = Ret (c @ rest, length c, t)" for rest
    using parse_header_wrapped [OF assms(2,3,4), of "length bs" rest] assms(1) by simp
  then show ?thesis unfolding value_codec_def using len assms(5) assms(6) [OF len] assms(7) by blast
qed

lemma codec_counter64:
  assumes "t \<in> uint64_types" "c64_wf cp"
  shows "\<exists>bs k. value_codec t (Val_counter64 cp) 16 bs k"
proof -
  let ?c = "u64_contents (push_bit 32 (c64_high cp) OR c64_low cp)" and ?f = "\<lambda>dl. asn_build_unsigned_int64 dl t cp 16"
  have c: "length ?c \<le> 9" by (rule u64_contents)
  have parse: "snmp_parse_value (bs @ rest) t k = Ret (t, Val_counter64 cp, 16)"
    if b: "?f 0x20000 = Ret (bs, dl')" and len: "length bs \<le> 0x10010" for bs dl' rest k
  proof -
    obtain m where m: "SNMP_MAX_PACKET_LEN = length bs + m" "m < 2 ^ 31" using bound_split [OF len] by blast
    obtain m' where "asn_parse_unsigned_int64 (bs @ rest) (length bs + m) 16 = Ret (rest, m', t, cp)"
      using asn_unsigned_int64_roundtrip(1) [OF b assms(2) _ m(2)] assms(1) by blast
    then show ?thesis unfolding snmp_parse_value_def m(1) using assms(1) by auto
  qed
  have build: "prepends alloc True s (snmp_realloc_rbuild_value alloc True t (Val_counter64 cp) 16 s) bs"
    if "?f 0x20000 = Ret (bs, dl')" "rb_wf s" for bs dl' alloc s
    using rbuild_unsigned_int64_prepends [OF that(2,1) assms(2)] assms(1) by (auto simp: snmp_build_value_def snmp_realloc_rbuild_value_def as_counter64_def)
  show ?thesis
  proof (cases "t = ASN_COUNTER64")
    case True
    have "encodes ?f t ?c" by (rule encodes_body) (use c True in \<open>simp_all add: asn_build_unsigned_int64_eq Let_def\<close>)
    then have "\<exists>bs. value_codec t (Val_counter64 cp) 16 bs (length ?c)"
      by (rule value_codec_plain) (use True parse build in \<open>auto simp: opaque_special_def snmp_build_value_def as_counter64_def\<close>)
    then show ?thesis by blast
  next
    case False
    obtain hdr d where h: "asn_build_header 0x20000 ASN_OPAQUE (length ?c + 3) = Ret (hdr, d)" "0x20000 \<le> d + 4"
      using build_header_room [of "0x20000" ASN_OPAQUE "length ?c + 3"] by auto
    have b: "?f 0x20000 = Ret (hdr @ [ASN_OPAQUE_TAG1, t, word_of_nat (length ?c)] @ ?c, d - 3 - length ?c)"
      using False assms(1) h c by (auto simp: asn_build_unsigned_int64_eq Let_def asn_build_header_check_def)
    have "value_codec t (Val_counter64 cp) 16 (hdr @ [ASN_OPAQUE_TAG1, t, word_of_nat (length ?c)] @ ?c) (length ?c)"
      by (rule value_codec_wrapped [OF refl h(1) c]) (use assms(1) False parse [OF b] build [OF b] b in \<open>auto simp: snmp_build_value_def as_counter64_def\<close>)
    then show ?thesis by blast
  qed
qed

lemma codec_float: "\<exists>bs k. value_codec ASN_OPAQUE_FLOAT (Val_float f) 4 bs k"
proof -
  let ?c = "mem32 (htonl f)"
  obtain hdr d where h: "asn_build_header 0x20000 ASN_OPAQUE (length ?c + 3) = Ret (hdr, d)" "0x20000 \<le> d + 4"
    using build_header_room [of "0x20000" ASN_OPAQUE "length ?c + 3"] by auto
  let ?bs = "hdr @ [ASN_OPAQUE_TAG1, ASN_OPAQUE_FLOAT, word_of_nat (length ?c)] @ ?c"
  have b: "\<exists>dl'. asn_build_float 0x20000 ASN_OPAQUE_FLOAT f 4 = Ret (?bs, dl')"
    using h by (simp add: asn_build_float_def asn_build_header_check_def)
  have "value_codec ASN_OPAQUE_FLOAT (Val_float f) 4 ?bs (length ?c)"
  proof (rule value_codec_wrapped [OF refl h(1)])
    fix rest assume "length ?bs \<le> 0x10010"
    then obtain m where m: "SNMP_MAX_PACKET_LEN = length ?bs + m" "m < 2 ^ 31" using bound_split by blast
    obtain dl' where "asn_build_float 0x20000 ASN_OPAQUE_FLOAT f 4 = Ret (?bs, dl')" using b by blast
    from asn_float_roundtrip [OF this m(2), of rest] show "snmp_parse_value (?bs @ rest) ASN_OPAQUE_FLOAT (length ?c) = Ret (ASN_OPAQUE_FLOAT, Val_float f, 4)"
      unfolding snmp_parse_value_def m(1) by auto
  qed (use b rbuild_float_prepends in \<open>auto simp: snmp_build_value_def snmp_realloc_rbuild_value_def as_float_def\<close>)
  then show ?thesis by blast
qed

lemma codec_double: "\<exists>bs k. value_codec ASN_OPAQUE_DOUBLE (Val_double f) 8 bs k"
proof -
  let ?c = "mem32 (htonl (snd (double_ints f))) @ mem32 (htonl (fst (double_ints f)))"
  obtain hdr d where h: "asn_build_header 0x20000 ASN_OPAQUE (length ?c + 3) = Ret (hdr, d)" "0x20000 \<le> d + 4"
    using build_header_room [of "0x20000" ASN_OPAQUE "length ?c + 3"] by auto
  let ?bs = "hdr @ [ASN_OPAQUE_TAG1, ASN_OPAQUE_DOUBLE, word_of_nat (length ?c)] @ ?c"
  have b: "\<exists>dl'. asn_build_double 0x20000 ASN_OPAQUE_DOUBLE f 8 = Ret (?bs, dl')"
    using h by (simp add: asn_build_double_def asn_build_header_check_def Let_def case_prod_beta)
  have "value_codec ASN_OPAQUE_DOUBLE (Val_double f) 8 ?bs (length ?c)"
  proof (rule value_codec_wrapped [OF refl h(1)])
    fix rest assume "length ?bs \<le> 0x10010"
    then obtain m where m: "SNMP_MAX_PACKET_LEN = length ?bs + m" "m < 2 ^ 31" using bound_split by blast
    obtain dl' where "asn_build_double 0x20000 ASN_OPAQUE_DOUBLE f 8 = Ret (?bs, dl')" using b by blast
    from asn_double_roundtrip [OF this m(2), of rest] show "snmp_parse_value (?bs @ rest) ASN_OPAQUE_DOUBLE (length ?c) = Ret (ASN_OPAQUE_DOUBLE, Val_double f, 8)"
      unfolding snmp_parse_value_def m(1) by auto
  qed (use b rbuild_double_prepends in \<open>auto simp: snmp_build_value_def snmp_realloc_rbuild_value_def as_double_def\<close>)
  then show ?thesis by blast
qed

lemma value_codec_exists:
  assumes "value_ok t val n"
  shows "\<exists>bs k. value_codec t val n bs k"
proof (cases val)
  case (Val_integer i)
  then show ?thesis using assms codec_integer [of i] codec_unsigned [of t i] by (simp only: value_ok_def netsnmp_vardata.case) blast
next
  case (Val_string s)
  then show ?thesis using assms codec_string [of t s] codec_bitstring [of s] by (simp only: value_ok_def netsnmp_vardata.case) blast
next
  case (Val_counter64 c)
  then show ?thesis using assms codec_counter64 [of t c] by (simp only: value_ok_def netsnmp_vardata.case)
next
  case (Val_float f)
  then show ?thesis using assms codec_float [of f] by (simp only: value_ok_def netsnmp_vardata.case)
next
  case (Val_double d)
  then show ?thesis using assms codec_double [of d] by (simp only: value_ok_def netsnmp_vardata.case)
next
  case (Val_objid x)
  then show ?thesis using assms codec_objid [of x] by (simp only: value_ok_def netsnmp_vardata.case)
next
  case Val_none
  then show ?thesis using assms codec_null [of t] by (simp only: value_ok_def netsnmp_vardata.case)
qed

end
