(* ===== verification/PduOrder.thy ===== *)
theory PduOrder
  imports Pdu
begin

text \<open>
  The order in which \<^verbatim>\<open>snmp_pdu_realloc_rbuild\<close> encodes the variables: the array of 50 pointers with which it walks the
  list backwards, lap after lap.
\<close>

section \<open>The order of the variables in the reverse encoding\<close>

lemma vpcache_fill_append:
  "vpcache_fill (ps @ qs) i c w = (case vpcache_fill ps i c w of (i, c, w) \<Rightarrow> vpcache_fill qs i c w)"
  by (induction ps i c w rule: vpcache_fill.induct) (auto simp: Let_def)

text \<open>After \<open>n\<close> variables: the next index, and the last 50 variables at most in the array.\<close>

definition vpcache_inv :: "nat \<Rightarrow> int \<times> nat option list \<times> bool \<Rightarrow> bool" where
  "vpcache_inv n r = (case r of (i, c, w) \<Rightarrow>
     i = (if n = 0 then 49 else 48 - int ((n - 1) mod 50)) \<and> w = (50 < n) \<and> length c = 50 \<and>
     (\<forall>j < n. n \<le> j + 50 \<longrightarrow> c ! (49 - j mod 50) = Some j))"

lemma mod_50_neq:
  assumes "j < n" "n < j + 50"
  shows "49 - j mod 50 \<noteq> 49 - n mod (50 :: nat)"
proof
  assume "49 - j mod 50 = 49 - n mod (50 :: nat)"
  moreover have "j mod 50 < 50" "n mod 50 < 50" by simp_all
  ultimately have "n mod 50 = j mod 50" by linarith
  then have "50 dvd n - j" using assms(1) by (simp add: mod_eq_dvd_iff_nat)
  then show False using assms by (auto dest: dvd_imp_le)
qed

lemma mod_50_pred: "(n :: nat) \<noteq> 0 \<Longrightarrow> (n - 1) mod 50 = (if n mod 50 = 0 then 49 else n mod 50 - 1)"
  by (cases n) (auto simp: mod_Suc)

lemma vpcache_fill_inv: "length c = 50 \<Longrightarrow> vpcache_inv n (vpcache_fill [0..<n] 49 c False)"
proof (induction n)
  case (Suc n)
  obtain i c1 w where r: "vpcache_fill [0..<n] 49 c False = (i, c1, w)" by (cases "vpcache_fill [0..<n] 49 c False")
  then have inv: "i = (if n = 0 then 49 else 48 - int ((n - 1) mod 50))" "w = (50 < n)" "length c1 = 50"
    "\<And>j. j < n \<Longrightarrow> n \<le> j + 50 \<Longrightarrow> c1 ! (49 - j mod 50) = Some j"
    using Suc by (auto simp: vpcache_inv_def)
  define i' where "i' = (if i < 0 then 49 else i)"
  have m: "n mod 50 < 50" by simp
  have neg: "i < 0 \<longleftrightarrow> n \<noteq> 0 \<and> n mod 50 = 0" using inv(1) mod_50_pred [of n] m by auto
  have i': "i' = 49 - int (n mod 50)" using inv(1) mod_50_pred [of n] m unfolding i'_def neg by auto
  have step: "vpcache_fill [0..<Suc n] 49 c False = (i' - 1, c1[nat i' := Some n], w \<or> i < 0)"
    by (simp add: vpcache_fill_append r i'_def)
  have "50 \<le> n" if "n \<noteq> 0" "n mod 50 = 0" using that by (cases "n < 50") auto
  then have "w \<or> i < 0 \<longleftrightarrow> 50 < Suc n" unfolding inv(2) neg by (cases "n = 50") auto
  moreover have "c1[nat i' := Some n] ! (49 - j mod 50) = Some j" if "j < Suc n" "Suc n \<le> j + 50" for j
  proof -
    have p: "nat i' = 49 - n mod 50" unfolding i' using m by simp
    show ?thesis
    proof (cases "j = n")
      case True
      then show ?thesis using inv(3) p by simp
    next
      case False
      then have "j < n" "n < j + 50" using that by simp_all
      then show ?thesis using inv(4) [of j] mod_50_neq [of j n] p by simp
    qed
  qed
  ultimately show ?case unfolding step using inv(3) i' m by (simp add: vpcache_inv_def)
qed (simp add: vpcache_inv_def)

text \<open>The array from \<open>final\<close> on holds the variables of the last lap, the rest of it those of the lap before.\<close>

lemma rev_upt_nth: "k < n \<Longrightarrow> rev [0..<n] ! k = n - 1 - k"
  by (simp add: rev_nth)

lemma vpcache_last_lap:
  assumes "vpcache_inv n (i, c, w)" "n \<le> 50"
  shows "drop (nat (i + 1)) c = map Some (rev [0..<n])"
proof (rule nth_equalityI)
  have i: "nat (i + 1) = 50 - n" using assms mod_50_pred [of n] by (cases "n = 50") (auto simp: vpcache_inv_def)
  have len: "length c = 50" using assms(1) by (simp add: vpcache_inv_def)
  show "length (drop (nat (i + 1)) c) = length (map Some (rev [0..<n]))" using i len assms(2) by simp
  fix k assume "k < length (drop (nat (i + 1)) c)"
  then have k: "k < n" using i len assms(2) by simp
  have "\<forall>j < n. n \<le> j + 50 \<longrightarrow> c ! (49 - j mod 50) = Some j" using assms(1) by (simp add: vpcache_inv_def)
  then have "c ! (49 - (n - 1 - k) mod 50) = Some (n - 1 - k)"
    using k assms(2) by (elim allE [of _ "n - 1 - k"]) simp
  moreover have "49 - (n - 1 - k) mod 50 = 50 - n + k" using k assms(2) by simp
  moreover have "drop (50 - n) c ! k = c ! (50 - n + k)" using len by (intro nth_drop) simp
  moreover have "map Some (rev [0..<n]) ! k = Some (n - 1 - k)" using k by (simp add: rev_upt_nth)
  ultimately show "drop (nat (i + 1)) c ! k = map Some (rev [0..<n]) ! k" by (simp only: i)
qed

lemma lap_nth:
  "length c = 50 \<Longrightarrow> f \<le> 50 \<Longrightarrow> k < 50 \<Longrightarrow> (drop f c @ take f c) ! k = (if k < 50 - f then c ! (f + k) else c ! (k - (50 - f)))"
  by (simp add: nth_append)

lemma lap_arith:
  fixes k r :: nat
  shows "k \<le> r \<Longrightarrow> r \<le> 49 \<Longrightarrow> k < 50 - (49 - r) \<and> 49 - r + k = 49 - (r - k)"
    and "\<not> k \<le> r \<Longrightarrow> k < 50 \<Longrightarrow> \<not> k < 50 - (49 - r) \<and> k - (50 - (49 - r)) = 49 - (50 + r - k)"
  by linarith+

lemma mod_50_lap: "x < 50 \<Longrightarrow> m = 50 * q + x \<Longrightarrow> m mod 50 = (x :: nat)"
  by simp

lemma vpcache_full_lap:
  assumes "vpcache_inv n (i, c, w)" "50 < n"
  shows "drop (nat (i + 1)) c @ take (nat (i + 1)) c = map Some (rev [n - 50..<n])"
    "nat (i + 1) = 49 - (n - 1) mod 50"
proof -
  define r where "r = (n - 1) mod 50"
  define q where "q = (n - 1) div 50"
  have r: "r = (n - 1) mod 50" "n - 1 = 50 * q + r" "r \<le> 49" by (simp_all add: r_def q_def)
  have i: "nat (i + 1) = 49 - r" using assms by (auto simp: vpcache_inv_def r(1))
  then show "nat (i + 1) = 49 - (n - 1) mod 50" unfolding r(1) .
  have len: "length c = 50" using assms(1) by (simp add: vpcache_inv_def)
  have f: "49 - r \<le> 50" by simp
  have nth: "(drop (49 - r) c @ take (49 - r) c) ! k = c ! (49 - (n - 1 - k) mod 50)" if k: "k < 50" for k
  proof (cases "k \<le> r")
    case True
    then have "r - k < 50" "n - 1 - k = 50 * q + (r - k)" using r(2,3) by linarith+
    then have "(n - 1 - k) mod 50 = r - k" by (rule mod_50_lap)
    then show ?thesis unfolding lap_nth [OF len f k] using lap_arith(1) [OF True r(3)] by simp
  next
    case False
    then have "0 < q" using r(2) assms(2) k by (cases q) auto
    then obtain q' where q': "q = Suc q'" by (cases q) auto
    then have "50 + r - k < 50" "n - 1 - k = 50 * q' + (50 + r - k)" using r(2) False k by linarith+
    then have "(n - 1 - k) mod 50 = 50 + r - k" by (rule mod_50_lap)
    then show ?thesis unfolding lap_nth [OF len f k] using lap_arith(2) [OF False k] by simp
  qed
  show "drop (nat (i + 1)) c @ take (nat (i + 1)) c = map Some (rev [n - 50..<n])"
  proof (rule nth_equalityI)
    show "length (drop (nat (i + 1)) c @ take (nat (i + 1)) c) = length (map Some (rev [n - 50..<n]))" using len i assms(2) by simp
    fix k assume "k < length (drop (nat (i + 1)) c @ take (nat (i + 1)) c)"
    then have k: "k < 50" using len by simp
    have "\<forall>j < n. n \<le> j + 50 \<longrightarrow> c ! (49 - j mod 50) = Some j" using assms(1) by (simp add: vpcache_inv_def)
    then have "c ! (49 - (n - 1 - k) mod 50) = Some (n - 1 - k)"
      using k assms(2) by (elim allE [of _ "n - 1 - k"]) simp
    also have "\<dots> = map Some (rev [n - 50..<n]) ! k" using k assms(2) by (simp add: rev_nth)
    finally show "(drop (nat (i + 1)) c @ take (nat (i + 1)) c) ! k = map Some (rev [n - 50..<n]) ! k"
      unfolding i nth [OF k] .
  qed
qed

text \<open>The order for any number of variables: the loop over the laps ends, and the variables come last to first.\<close>

lemma vpcache_order_rev:
  assumes "length c = 50" "vpcache_fill [0..<n] 49 c False = (i, c', w)"
  shows "vpcache_order (nat (i + 1)) c' w = Some (map Some (rev [0..<n]))"
  using assms
proof (induction n arbitrary: c i c' w rule: less_induct)
  case (less n)
  have inv: "vpcache_inv n (i, c', w)" using vpcache_fill_inv [OF less.prems(1), of n] less.prems(2) by simp
  then have w: "w = (50 < n)" "length c' = 50" by (simp_all add: vpcache_inv_def)
  show ?case
  proof (cases "50 < n")
    case False
    then show ?thesis using w vpcache_last_lap [OF inv] by (subst vpcache_order.simps) simp
  next
    case True
    note lap = vpcache_full_lap [OF inv True]
    let ?final = "nat (i + 1)"
    define tmpvp where "tmpvp = (if ?final = 0 then c' ! (VPCACHE_SIZE - 1) else c' ! (?final - 1))"
    have "c' ! (49 - (n - 50) mod 50) = Some (n - 50)" using inv True by (auto simp: vpcache_inv_def)
    moreover have "49 - (n - 50) mod 50 = (if ?final = 0 then VPCACHE_SIZE - 1 else ?final - 1)"
    proof -
      have "(n - 50) mod 50 = n mod 50" using True by (simp add: le_mod_geq)
      then show ?thesis unfolding lap(2) using mod_50_pred [of n] True by auto
    qed
    ultimately have tmp: "tmpvp = Some (n - 50)" by (simp add: tmpvp_def split: if_splits)
    obtain j c'' v where refill: "vpcache_fill [0..<n - 50] 49 c' False = (j, c'', v)" by (cases "vpcache_fill [0..<n - 50] 49 c' False")
    have rest: "vpcache_order (nat (j + 1)) c'' v = Some (map Some (rev [0..<n - 50]))"
      using less.IH [OF _ w(2) refill] True by simp
    have "vpcache_order ?final c' w = Some (drop ?final c' @ take ?final c' @ map Some (rev [0..<n - 50]))"
      using w(1) True rest refill by (subst vpcache_order.simps) (simp only: tmpvp_def [symmetric] tmp, simp add: Let_def)
    also have "drop ?final c' @ take ?final c' @ map Some (rev [0..<n - 50]) = map Some (rev [0..<n])"
      using lap(1) upt_add_eq_append [of 0 "n - 50" 50] True by (simp flip: map_append rev_append append_assoc)
    finally show ?thesis .
  qed
qed

lemma rbuild_order_rev:
  "rbuild_order vs = Some (map Some (rev [0..<length (takeWhile (\<lambda>vp. vp_type vp \<noteq> ASN_PRIV_STOP) vs)]))"
proof -
  let ?n = "length (takeWhile (\<lambda>vp. vp_type vp \<noteq> ASN_PRIV_STOP) vs)"
  obtain i c w where f: "vpcache_fill [0..<?n] 49 (replicate 50 None) False = (i, c, w)"
    by (cases "vpcache_fill [0..<?n] 49 (replicate 50 None) False")
  have i: "int VPCACHE_SIZE - 1 = 49" by simp
  have l: "length (replicate 50 None) = 50" by simp
  show ?thesis unfolding rbuild_order_def Let_def i f split_conv by (rule vpcache_order_rev [OF l f])
qed

text \<open>
  C40. The reverse encoding of the variables: for every number of variables the loop over the array of the last 50 of
  them ends, and it encodes each variable in front of an \<open>ASN_PRIV_STOP\<close> exactly once, from the last to the first, so
  that they stand in the packet in the order of the list.
\<close>

theorem rbuild_order_last_to_first:
  "rbuild_order vs = Some (map Some (rev [0..<length (takeWhile (\<lambda>vp. vp_type vp \<noteq> ASN_PRIV_STOP) vs)]))"
  by (rule rbuild_order_rev)

end
