(* ===== verification/PduMessages.thy ===== *)
theory PduMessages
  imports PduRoundtrip PduOrder
begin

text \<open>
  Whole messages: the bytes of a variable, a PDU and an SNMPv1 or v2c message, as the BER encoding says; that the
  reverse encoders put exactly these bytes into the packet; and that the parsers read them back.
\<close>


section \<open>The reference encoding\<close>

text \<open>The bytes a forward encoder writes into 0x20000 bytes of room, and a type, length and contents.\<close>

definition written :: "(bytes \<times> nat) cres \<Rightarrow> bytes" where
  "written r = (case r of Ret (bs, _) \<Rightarrow> bs | _ \<Rightarrow> [])"

definition tlv :: "u_char \<Rightarrow> bytes \<Rightarrow> bytes" where
  "tlv t c = written (asn_build_header 0x20000 t (length c)) @ c"

definition int_enc :: "int \<Rightarrow> bytes" where "int_enc i = written (asn_build_int 0x20000 ASN_INTEGER i 8)"
definition oid_bytes :: "oid \<Rightarrow> bytes" where "oid_bytes x = written (asn_build_objid 0x20000 ASN_OBJECT_ID x)"

definition value_bytes :: "variable_list \<Rightarrow> bytes" where
  "value_bytes vp = written (snmp_build_value 0x20000 (vp_type vp) (vp_val_len vp) (vp_val vp))"

definition varbind_bytes :: "variable_list \<Rightarrow> bytes" where
  "varbind_bytes vp = tlv ASN_SEQUENCE_CON (oid_bytes (vp_name vp) @ value_bytes vp)"

definition fields_bytes :: "netsnmp_pdu \<Rightarrow> bytes" where
  "fields_bytes pdu =
     (if pdu_command pdu \<noteq> MSG_TRAP then int_enc (pdu_reqid pdu) @ int_enc (pdu_errstat pdu) @ int_enc (pdu_errindex pdu)
      else oid_bytes (pdu_enterprise pdu) @ written (asn_build_string 0x20000 ASN_IPADDRESS (Some (pdu_agent_addr pdu)) 4)
        @ int_enc (pdu_trap_type pdu) @ int_enc (pdu_specific_type pdu)
        @ written (asn_build_unsigned_int 0x20000 ASN_TIMETICKS (pdu_time pdu) 8))"

definition varbinds_bytes :: "variable_list list \<Rightarrow> bytes" where
  "varbinds_bytes vs = concat (map varbind_bytes vs)"

definition pdu_bytes :: "netsnmp_pdu \<Rightarrow> bytes" where
  "pdu_bytes pdu = tlv (pdu_command pdu) (fields_bytes pdu @ tlv ASN_SEQUENCE_CON (varbinds_bytes (pdu_variables pdu)))"

definition message_bytes :: "netsnmp_pdu \<Rightarrow> bytes" where
  "message_bytes pdu = tlv ASN_SEQUENCE_CON (int_enc (pdu_version pdu)
     @ written (asn_build_string 0x20000 ASN_OCTET_STR (pdu_community pdu) (pdu_community_len pdu)) @ pdu_bytes pdu)"

section \<open>Type, length and contents\<close>

lemma header_written:
  obtains d where "asn_build_header 0x20000 t n = Ret (written (asn_build_header 0x20000 t n), d)"
  using build_header_room [of "0x20000" t n] by (auto simp: written_def)

lemma tlv_length: "length c + 2 \<le> length (tlv t c)" "length (tlv t c) \<le> length c + 4"
proof -
  obtain d where h: "asn_build_header 0x20000 t (length c) = Ret (written (asn_build_header 0x20000 t (length c)), d)" by (rule header_written)
  obtain ls k' where ls: "written (asn_build_header 0x20000 t (length c)) = t # ls" "asn_build_length (0x20000 - 1) (length c) = Ret (ls, k')"
    using build_header_Ret [OF h] by blast
  show "length c + 2 \<le> length (tlv t c)" "length (tlv t c) \<le> length c + 4"
    using asn_build_length_cases [OF ls(2)] ls(1) by (auto simp: tlv_def)
qed

lemma parse_tlv:
  assumes "length c \<le> 0xFFFF" "t AND ASN_EXTENSION_ID \<noteq> ASN_EXTENSION_ID" "t \<noteq> ASN_OPAQUE" "length (tlv t c) \<le> l"
  shows "asn_parse_header (tlv t c @ rest) l = Ret (c @ rest, length c, t)"
proof -
  obtain d where h: "asn_build_header 0x20000 t (length c) = Ret (written (asn_build_header 0x20000 t (length c)), d)" by (rule header_written)
  show ?thesis using parse_header_plain [OF h assms(1,2), of l rest] assms(3,4) by (simp add: tlv_def opaque_special_def)
qed

text \<open>The reverse encoders write the contents first, then the header in front of them.\<close>

lemma rbuild_tlv:
  assumes "rb_wf s" "prepends alloc True s m c" "length c \<le> 0xFFFF"
  shows "prepends alloc True s (cbind m (\<lambda>s'. asn_realloc_rbuild_sequence alloc True t (rb_off s' - rb_off s) s')) (tlv t c)"
  unfolding tlv_def
proof (rule prepends_bind [OF assms(2)])
  fix s1 assume s1: "rb_wf s1" "rb_bytes s1 = c @ rb_bytes s"
  then have off: "rb_off s1 - rb_off s = length c" using rb_off_Ret [OF assms(1) s1] by simp
  obtain d where h: "asn_build_header 0x20000 t (length c) = Ret (written (asn_build_header 0x20000 t (length c)), d)" by (rule header_written)
  show "prepends alloc True s1 (asn_realloc_rbuild_sequence alloc True t (rb_off s1 - rb_off s) s1) (written (asn_build_header 0x20000 t (length c)))"
    unfolding off asn_realloc_rbuild_sequence_def by (rule rbuild_header_prepends [OF s1(1) h assms(3)])
qed

section \<open>Variable bindings\<close>

definition vp_ok :: "variable_list \<Rightarrow> bool" where
  "vp_ok vp \<longleftrightarrow> oid_ok (vp_name vp) \<and> value_ok (vp_type vp) (vp_val vp) (vp_val_len vp)"

lemma oid_written:
  assumes "oid_ok x"
  obtains d where "asn_build_objid 0x20000 ASN_OBJECT_ID x = Ret (oid_bytes x, d)"
  using encodes_objid [OF assms, of ASN_OBJECT_ID] by (auto simp: encodes_def oid_bytes_def written_def)

lemma parse_oid_bytes:
  assumes "oid_ok x" "m < 2 ^ 31"
  shows "asn_parse_objid (oid_bytes x @ rest) (length (oid_bytes x) + m) MAX_OID_LEN = Ret (rest, m, ASN_OBJECT_ID, x)"
    "length (oid_bytes x) \<le> 639"
proof -
  obtain d where b: "asn_build_objid 0x20000 ASN_OBJECT_ID x = Ret (oid_bytes x, d)" by (rule oid_written [OF assms(1)])
  have x: "oid_encodable x" "length x \<le> MAX_OID_LEN" "MAX_OID_LEN < 2 ^ 64" using assms by (simp_all add: oid_ok_def)
  show "asn_parse_objid (oid_bytes x @ rest) (length (oid_bytes x) + m) MAX_OID_LEN = Ret (rest, m, ASN_OBJECT_ID, x)"
    "length (oid_bytes x) \<le> 639" using asn_objid_roundtrip(1,3) [OF b x assms(2)] by simp_all
qed

lemma value_bytes_codec:
  assumes "value_ok (vp_type vp) (vp_val vp) (vp_val_len vp)"
  shows "\<exists>k. value_codec (vp_type vp) (vp_val vp) (vp_val_len vp) (value_bytes vp) k"
proof -
  obtain bs k where v: "value_codec (vp_type vp) (vp_val vp) (vp_val_len vp) bs k" using value_codec_exists [OF assms] by blast
  then have "bs = value_bytes vp" by (auto simp: value_codec_def value_bytes_def written_def)
  then show ?thesis using v by blast
qed

lemma rbuild_varbind:
  assumes "vp_ok vp" "rb_wf s" "length (varbind_bytes vp) \<le> 0xFFFF"
  shows "prepends alloc True s (snmp_realloc_rbuild_var_op alloc True vp s) (varbind_bytes vp)"
proof -
  obtain k where v: "value_codec (vp_type vp) (vp_val vp) (vp_val_len vp) (value_bytes vp) k"
    using value_bytes_codec assms(1) by (auto simp: vp_ok_def)
  obtain d where n: "asn_build_objid 0x20000 ASN_OBJECT_ID (vp_name vp) = Ret (oid_bytes (vp_name vp), d)"
    using oid_written assms(1) by (auto simp: vp_ok_def)
  let ?m = "cbind (snmp_realloc_rbuild_value alloc True (vp_type vp) (vp_val vp) (vp_val_len vp) s)
              (asn_realloc_rbuild_objid alloc True ASN_OBJECT_ID (vp_name vp))"
  have "prepends alloc True s ?m (oid_bytes (vp_name vp) @ value_bytes vp)"
    by (rule prepends_bind [OF _ rbuild_objid_prepends [OF _ n]]) (use v assms(2) in \<open>auto simp: value_codec_def\<close>)
  moreover have "length (oid_bytes (vp_name vp) @ value_bytes vp) \<le> 0xFFFF"
    using assms(3) tlv_length(1) [of "oid_bytes (vp_name vp) @ value_bytes vp" ASN_SEQUENCE_CON] by (simp add: varbind_bytes_def)
  ultimately show ?thesis using rbuild_tlv [OF assms(2), of alloc ?m]
    by (simp add: snmp_realloc_rbuild_var_op_def varbind_bytes_def cbind_assoc)
qed

lemma parse_varbind:
  assumes "vp_ok vp" "length (varbind_bytes vp) \<le> 0xFFFF" "length (varbind_bytes vp) \<le> l" "l < 2 ^ 31"
  shows "\<exists>v n. snmp_parse_var_op (varbind_bytes vp @ rest) l
      = Ret (rest, vp_name vp, vp_type vp, n, v, l - length (varbind_bytes vp))
    \<and> snmp_parse_value v (vp_type vp) n = Ret (vp_type vp, vp_val vp, vp_val_len vp)"
proof -
  let ?c = "oid_bytes (vp_name vp) @ value_bytes vp"
  obtain k where v: "value_codec (vp_type vp) (vp_val vp) (vp_val_len vp) (value_bytes vp) k"
    using value_bytes_codec assms(1) by (auto simp: vp_ok_def)
  have c: "length ?c \<le> 0xFFFF" using assms(2) tlv_length(1) [of ?c ASN_SEQUENCE_CON] by (simp add: varbind_bytes_def)
  have seq: "asn_parse_sequence (varbind_bytes vp @ rest) l ASN_SEQUENCE_CON = Ret (?c @ rest, length ?c, ASN_SEQUENCE_CON)"
    unfolding asn_parse_sequence_def varbind_bytes_def
    using parse_tlv [OF c, of ASN_SEQUENCE_CON l rest] assms(3) by (simp add: varbind_bytes_def)
  have name: "asn_parse_objid (?c @ rest) (length ?c) MAX_OID_LEN = Ret (value_bytes vp @ rest, length (value_bytes vp), ASN_OBJECT_ID, vp_name vp)"
    using parse_oid_bytes(1) [of "vp_name vp" "length (value_bytes vp)" "value_bytes vp @ rest"] assms(1) c by (simp add: vp_ok_def)
  obtain b where b: "length b = k" "asn_parse_header (value_bytes vp @ rest) (length (value_bytes vp)) = Ret (b @ rest, k, vp_type vp)"
    using v by (auto simp: value_codec_def)
  have len: "length (varbind_bytes vp @ rest) - length rest = length (varbind_bytes vp)" by simp
  have sub: "size_sub l (c_int (length (varbind_bytes vp))) = l - length (varbind_bytes vp)"
    using assms(2-4) size_sub_nat [of "length (varbind_bytes vp)" l] by simp
  have "snmp_parse_value (value_bytes vp @ rest) (vp_type vp) k = Ret (vp_type vp, vp_val vp, vp_val_len vp)"
    using v by (simp add: value_codec_def)
  moreover have "snmp_parse_var_op (varbind_bytes vp @ rest) l
      = Ret (rest, vp_name vp, vp_type vp, k, value_bytes vp @ rest, l - length (varbind_bytes vp))"
    unfolding snmp_parse_var_op_def seq using name b len sub by (simp add: Let_def)
  ultimately show ?thesis by blast
qed

text \<open>The loop over the variables, which come last to first.\<close>

lemma varbinds_bytes_simps [simp]:
  "varbinds_bytes [] = []" "varbinds_bytes (vp # vs) = varbind_bytes vp @ varbinds_bytes vs"
  "varbinds_bytes (vs @ ws) = varbinds_bytes vs @ varbinds_bytes ws"
  by (simp_all add: varbinds_bytes_def)

lemma varbind_bytes_le: "vp \<in> set vs \<Longrightarrow> length (varbind_bytes vp) \<le> length (varbinds_bytes vs)"
  by (induction vs) auto

lemma rbuild_varbinds_append:
  "snmp_rbuild_varbinds alloc vs (ps @ qs) = (\<lambda>s. cbind (snmp_rbuild_varbinds alloc vs ps s) (snmp_rbuild_varbinds alloc vs qs))"
proof (induction ps)
  case (Cons p ps)
  show ?case by (rule ext) (simp add: Cons.IH cbind_assoc split: option.split)
qed simp

lemma rbuild_varbinds_Nil: "snmp_rbuild_varbinds alloc vs [] = Ret"
  by (rule ext) simp

lemma rbuild_varbinds_upto:
  assumes "list_all vp_ok vs" "rb_wf s" "length (varbinds_bytes vs) \<le> 0xFFFF" "n \<le> length vs"
  shows "prepends alloc True s (snmp_rbuild_varbinds alloc vs (map Some (rev [n..<length vs])) s) (varbinds_bytes (drop n vs))"
  using assms(4)
proof (induction rule: inc_induct)
  case base
  then show ?case using assms(2) by simp
next
  case (step n)
  have vp: "vp_ok (vs ! n)" "length (varbind_bytes (vs ! n)) \<le> 0xFFFF"
    using assms(1,3) step(2) varbind_bytes_le [of "vs ! n" vs] by (auto simp: list_all_length)
  have "rev [n..<length vs] = rev [Suc n..<length vs] @ [n]" using step(2) by (simp add: upt_conv_Cons)
  then have "prepends alloc True s (snmp_rbuild_varbinds alloc vs (map Some (rev [n..<length vs])) s) (varbind_bytes (vs ! n) @ varbinds_bytes (drop (Suc n) vs))"
    
    by (simp add: rbuild_varbinds_append) (rule prepends_bind [OF step(3)], simp add: step(2) rbuild_varbinds_Nil rbuild_varbind [OF vp(1) _ vp(2)])
  then show ?case using step(2) by (simp add: Cons_nth_drop_Suc [symmetric])
qed

lemma value_ok_type: "value_ok t val n \<Longrightarrow> t \<noteq> ASN_PRIV_STOP"
  by (auto simp: value_ok_def split: netsnmp_vardata.splits)

lemma rbuild_varbinds:
  assumes "list_all vp_ok vs" "rb_wf s" "length (varbinds_bytes vs) \<le> 0xFFFF"
  shows "\<exists>order. rbuild_order vs = Some order \<and> prepends alloc True s (snmp_rbuild_varbinds alloc vs order s) (varbinds_bytes vs)"
proof -
  have "takeWhile (\<lambda>vp. vp_type vp \<noteq> ASN_PRIV_STOP) vs = vs"
    using assms(1) value_ok_type by (auto simp: list_all_iff vp_ok_def)
  then have "rbuild_order vs = Some (map Some (rev [0..<length vs]))" using rbuild_order_rev [of vs] by (simp only:)
  then show ?thesis using rbuild_varbinds_upto [OF assms, of 0 alloc] by simp
qed

lemma parse_varbinds:
  assumes "list_all vp_ok vs" "length (varbinds_bytes vs) \<le> 0xFFFF" "\<forall>i. mem i"
  shows "snmp_parse_varbinds mem i (varbinds_bytes vs @ rest) (length (varbinds_bytes vs)) = Ret vs"
  using assms(1,2)
proof (induction vs arbitrary: i)
  case Nil
  then show ?case by (simp add: snmp_parse_varbinds.simps c_int_small)
next
  case (Cons vp vs)
  let ?l = "length (varbind_bytes vp) + length (varbinds_bytes vs)"
  have vp: "vp_ok vp" "length (varbind_bytes vp) \<le> 0xFFFF" "length (varbind_bytes vp) \<le> ?l" "?l < 2 ^ 31" using Cons.prems by auto
  obtain v n where p: "snmp_parse_var_op (varbind_bytes vp @ varbinds_bytes vs @ rest) ?l
      = Ret (varbinds_bytes vs @ rest, vp_name vp, vp_type vp, n, v, length (varbinds_bytes vs))"
    "snmp_parse_value v (vp_type vp) n = Ret (vp_type vp, vp_val vp, vp_val_len vp)"
    using parse_varbind [OF vp, of "varbinds_bytes vs @ rest"] by auto
  have pos: "c_int ?l > 0" using vp(4) c_int_small [of ?l] tlv_length(1) [of "oid_bytes (vp_name vp) @ value_bytes vp" ASN_SEQUENCE_CON]
    by (simp add: varbind_bytes_def)
  have IH: "snmp_parse_varbinds mem (i + 1) (varbinds_bytes vs @ rest) (length (varbinds_bytes vs)) = Ret vs"
    using Cons by simp
  have "mem i" using assms(3) by simp
  then show ?case using pos p IH by (simp add: snmp_parse_varbinds.simps [of mem i "varbind_bytes vp @ _"])
qed

section \<open>Fields\<close>

definition int32_ok :: "int \<Rightarrow> bool" where "int32_ok i \<longleftrightarrow> - (2 ^ 31) \<le> i \<and> i < 2 ^ 31"

lemma int_written: obtains d where "asn_build_int 0x20000 ASN_INTEGER i 8 = Ret (int_enc i, d)"
proof -
  obtain c where "encodes (\<lambda>dl. asn_build_int dl ASN_INTEGER i 8) ASN_INTEGER c" using encodes_int by blast
  then show ?thesis using that encodes_bytes by (fastforce simp: int_enc_def written_def)
qed

lemma parse_int_bytes:
  assumes "int32_ok i" "m < 2 ^ 31"
  shows "asn_parse_int (int_enc i @ rest) (length (int_enc i) + m) 8 = Ret (rest, m, ASN_INTEGER, i)"
    "length (int_enc i) \<le> 12"
proof -
  obtain d where b: "asn_build_int 0x20000 ASN_INTEGER i 8 = Ret (int_enc i, d)" by (rule int_written)
  have i: "- (2 ^ 31) \<le> i" "i < 2 ^ 31" using assms(1) by (simp_all add: int32_ok_def)
  show "asn_parse_int (int_enc i @ rest) (length (int_enc i) + m) 8 = Ret (rest, m, ASN_INTEGER, i)"
    "length (int_enc i) \<le> 12" using asn_int_roundtrip(1,3) [OF b i assms(2)] by simp_all
qed

lemma rbuild_int: "rb_wf s \<Longrightarrow> prepends alloc True s (asn_realloc_rbuild_int alloc True ASN_INTEGER i 8 s) (int_enc i)"
proof -
  assume wf: "rb_wf s"
  obtain d where "asn_build_int 0x20000 ASN_INTEGER i 8 = Ret (int_enc i, d)" by (rule int_written)
  then show ?thesis by (rule rbuild_int_prepends [OF wf])
qed

definition fields_okay :: "netsnmp_pdu \<Rightarrow> bool" where
  "fields_okay pdu \<longleftrightarrow>
     (if pdu_command pdu \<noteq> MSG_TRAP then int32_ok (pdu_reqid pdu) \<and> int32_ok (pdu_errstat pdu) \<and> int32_ok (pdu_errindex pdu)
      else oid_ok (pdu_enterprise pdu) \<and> length (pdu_agent_addr pdu) = 4 \<and> int32_ok (pdu_trap_type pdu)
        \<and> int32_ok (pdu_specific_type pdu) \<and> unat (pdu_time pdu) < 2 ^ 32)"

lemma addr_written:
  assumes "length a = 4"
  obtains d where "asn_build_string 0x20000 ASN_IPADDRESS (Some a) 4 = Ret (written (asn_build_string 0x20000 ASN_IPADDRESS (Some a) 4), d)"
  using encodes_string [of a ASN_IPADDRESS] assms by (auto simp: encodes_def written_def)

lemma time_written:
  obtains d where "asn_build_unsigned_int 0x20000 ASN_TIMETICKS t 8 = Ret (written (asn_build_unsigned_int 0x20000 ASN_TIMETICKS t 8), d)"
  using encodes_unsigned_int [of ASN_TIMETICKS t] by (auto simp: encodes_def written_def)

lemma rbuild_fields:
  assumes "fields_okay pdu" "rb_wf s"
  shows "prepends alloc True s (snmp_rbuild_fields alloc pdu s) (fields_bytes pdu)"
proof (cases "pdu_command pdu = MSG_TRAP")
  case False
  have "prepends alloc True s (snmp_rbuild_fields alloc pdu s) (int_enc (pdu_reqid pdu) @ int_enc (pdu_errstat pdu) @ int_enc (pdu_errindex pdu))"
    unfolding snmp_rbuild_fields_def if_P [OF False]
    by (rule prepends_bind' [OF rbuild_int [OF assms(2)]], rule prepends_bind' [OF rbuild_int], assumption, rule rbuild_int, assumption, rule refl, simp)
  then show ?thesis using False by (simp add: fields_bytes_def)
next
  case True
  have ok: "oid_ok (pdu_enterprise pdu)" "length (pdu_agent_addr pdu) = 4" using assms(1) True by (simp_all add: fields_okay_def)
  obtain d1 where oid: "asn_build_objid 0x20000 ASN_OBJECT_ID (pdu_enterprise pdu) = Ret (oid_bytes (pdu_enterprise pdu), d1)" by (rule oid_written [OF ok(1)])
  obtain d2 where addr: "asn_build_string 0x20000 ASN_IPADDRESS (Some (pdu_agent_addr pdu)) (length (pdu_agent_addr pdu))
      = Ret (written (asn_build_string 0x20000 ASN_IPADDRESS (Some (pdu_agent_addr pdu)) 4), d2)"
    using addr_written [OF ok(2)] ok(2) by metis
  obtain d3 where time: "asn_build_unsigned_int 0x20000 ASN_TIMETICKS (pdu_time pdu) 8
      = Ret (written (asn_build_unsigned_int 0x20000 ASN_TIMETICKS (pdu_time pdu) 8), d3)" by (rule time_written)
  note str = rbuild_string_prepends [OF _ addr, unfolded ok(2)]
  have "prepends alloc True s (snmp_rbuild_fields alloc pdu s)
      ((((oid_bytes (pdu_enterprise pdu) @ written (asn_build_string 0x20000 ASN_IPADDRESS (Some (pdu_agent_addr pdu)) 4))
        @ int_enc (pdu_trap_type pdu)) @ int_enc (pdu_specific_type pdu))
        @ written (asn_build_unsigned_int 0x20000 ASN_TIMETICKS (pdu_time pdu) 8))"
    unfolding snmp_rbuild_fields_def if_not_P [OF not_not [THEN iffD2, OF True]]
    by (rule prepends_bind [OF rbuild_unsigned_int_prepends [OF assms(2) time]], rule prepends_bind [OF rbuild_int], assumption,
        rule prepends_bind [OF rbuild_int], assumption, rule prepends_bind [OF str], assumption, simp add: ok(2),
        rule rbuild_objid_prepends [OF _ oid], assumption)
  then show ?thesis using True by (simp add: fields_bytes_def)
qed

lemma parse_fields:
  assumes "fields_okay pdu" "pdu_command pdu \<noteq> MSG_TRAP" "m < 0x10000"
  shows "snmp_parse_fields p (fields_bytes pdu @ rest) (length (fields_bytes pdu) + m)
    = Ret (rest, m, p\<lparr>pdu_reqid := pdu_reqid pdu, pdu_errstat := pdu_errstat pdu, pdu_errindex := pdu_errindex pdu\<rparr>)"
proof -
  have ok: "int32_ok (pdu_reqid pdu)" "int32_ok (pdu_errstat pdu)" "int32_ok (pdu_errindex pdu)"
    using assms(1,2) by (simp_all add: fields_okay_def)
  have m: "length (int_enc (pdu_errstat pdu)) + (length (int_enc (pdu_errindex pdu)) + m) < 2 ^ 31"
    "length (int_enc (pdu_errindex pdu)) + m < 2 ^ 31" "m < 2 ^ 31"
    using assms(3) parse_int_bytes(2) [OF ok(2), of 0] parse_int_bytes(2) [OF ok(3), of 0] by simp_all
  show ?thesis
    using parse_int_bytes(1) [OF ok(1) m(1)] parse_int_bytes(1) [OF ok(2) m(2)] parse_int_bytes(1) [OF ok(3) m(3)] assms(2)
    by (simp add: snmp_parse_fields_def fields_bytes_def add.assoc)
qed

lemma parse_trap:
  assumes "fields_okay pdu" "pdu_command pdu = MSG_TRAP" "m < 0x10000"
  shows "snmp_parse_trap p (fields_bytes pdu @ rest) (length (fields_bytes pdu) + m)
    = Ret (rest, m, p\<lparr>pdu_enterprise := pdu_enterprise pdu, pdu_agent_addr := pdu_agent_addr pdu @ drop 4 (pdu_agent_addr p),
        pdu_trap_type := pdu_trap_type pdu, pdu_specific_type := pdu_specific_type pdu, pdu_time := pdu_time pdu\<rparr>)"
proof -
  let ?a = "written (asn_build_string 0x20000 ASN_IPADDRESS (Some (pdu_agent_addr pdu)) 4)"
  let ?t = "written (asn_build_unsigned_int 0x20000 ASN_TIMETICKS (pdu_time pdu) 8)"
  have ok: "oid_ok (pdu_enterprise pdu)" "length (pdu_agent_addr pdu) = 4" "int32_ok (pdu_trap_type pdu)" "int32_ok (pdu_specific_type pdu)"
    "unat (pdu_time pdu) < 2 ^ 32"
    using assms(1,2) by (simp_all add: fields_okay_def)
  obtain d2 where addr: "asn_build_string 0x20000 ASN_IPADDRESS (Some (pdu_agent_addr pdu)) (length (pdu_agent_addr pdu)) = Ret (?a, d2)"
    using addr_written [OF ok(2)] ok(2) by metis
  obtain d3 where time: "asn_build_unsigned_int 0x20000 ASN_TIMETICKS (pdu_time pdu) 8 = Ret (?t, d3)" by (rule time_written)
  have str: "asn_parse_string (?a @ r) (length ?a + k) 4 = Ret (r, k, ASN_IPADDRESS, pdu_agent_addr pdu)" "length ?a \<le> 8" if "k < 2 ^ 31" for r k
    using asn_string_roundtrip(1) [OF addr _ _ _ that, where cap = 4 and rest = r] asn_string_roundtrip(3) [OF addr _ _ _ that, where cap = 4] ok(2) by simp_all
  have tim: "asn_parse_unsigned_int (?t @ r) (length ?t + k) 8 = Ret (r, k, ASN_TIMETICKS, pdu_time pdu)" "length ?t \<le> 12" if "k < 2 ^ 31" for r k
    using asn_unsigned_int_roundtrip(1) [OF time ok(5) _ that, where rest = r] asn_unsigned_int_roundtrip(3) [OF time ok(5) _ that] by simp_all
  note len = parse_int_bytes(2) [OF ok(3), of 0] parse_int_bytes(2) [OF ok(4), of 0] str(2) [of 0] tim(2) [of 0]
  have m: "m < 2 ^ 31" "length ?t + m < 2 ^ 31" "length (int_enc (pdu_specific_type pdu)) + (length ?t + m) < 2 ^ 31"
    "length (int_enc (pdu_trap_type pdu)) + (length (int_enc (pdu_specific_type pdu)) + (length ?t + m)) < 2 ^ 31"
    "length ?a + (length (int_enc (pdu_trap_type pdu)) + (length (int_enc (pdu_specific_type pdu)) + (length ?t + m))) < 2 ^ 31"
    using len assms(3) by simp_all
  show ?thesis
    using parse_oid_bytes(1) [OF ok(1) m(5)] str(1) [OF m(4)] parse_int_bytes(1) [OF ok(3) m(3)] parse_int_bytes(1) [OF ok(4) m(2)] tim(1) [OF m(1)] assms(2) ok(2)
    by (simp add: snmp_parse_trap_def fields_bytes_def add.assoc)
qed

section \<open>PDUs\<close>

abbreviation (input) request_commands :: "u_char set" where
  "request_commands \<equiv> {MSG_GET, MSG_GETNEXT, MSG_SET, MSG_GETBULK, MSG_INFORM, MSG_TRAP2}"

definition pdu_okay :: "netsnmp_pdu \<Rightarrow> bool" where
  "pdu_okay pdu \<longleftrightarrow> pdu_command pdu \<in> request_commands \<union> {MSG_RESPONSE, MSG_REPORT, MSG_TRAP} \<and> fields_okay pdu \<and> list_all vp_ok (pdu_variables pdu)"

text \<open>What a parsed PDU takes from the bytes, and what it keeps of the PDU it is parsed into.\<close>

definition received :: "netsnmp_pdu \<Rightarrow> netsnmp_pdu \<Rightarrow> netsnmp_pdu" where
  "received p pdu =
     (let p = p\<lparr>pdu_command := pdu_command pdu,
                pdu_flags := (if pdu_command pdu \<in> {MSG_RESPONSE, MSG_REPORT}
                              then pdu_flags p AND NOT UCD_MSG_FLAG_RESPONSE_PDU OR UCD_MSG_FLAG_RESPONSE_PDU
                              else pdu_flags p AND NOT UCD_MSG_FLAG_RESPONSE_PDU)\<rparr>;
          p = (if pdu_command pdu = MSG_TRAP
               then p\<lparr>pdu_enterprise := pdu_enterprise pdu, pdu_agent_addr := pdu_agent_addr pdu @ drop 4 (pdu_agent_addr p),
                      pdu_trap_type := pdu_trap_type pdu, pdu_specific_type := pdu_specific_type pdu, pdu_time := pdu_time pdu\<rparr>
               else p\<lparr>pdu_reqid := pdu_reqid pdu, pdu_errstat := pdu_errstat pdu, pdu_errindex := pdu_errindex pdu\<rparr>)
      in if pdu_variables pdu = [] then p else p\<lparr>pdu_variables := pdu_variables pdu\<rparr>)"

lemma pdu_lengths:
  assumes "length (pdu_bytes pdu) \<le> 0xFFFF"
  shows "length (fields_bytes pdu @ tlv ASN_SEQUENCE_CON (varbinds_bytes (pdu_variables pdu))) \<le> 0xFFFF"
    "length (tlv ASN_SEQUENCE_CON (varbinds_bytes (pdu_variables pdu))) \<le> 0xFFFF" "length (varbinds_bytes (pdu_variables pdu)) \<le> 0xFFFF"
  using assms tlv_length(1) [of "fields_bytes pdu @ tlv ASN_SEQUENCE_CON (varbinds_bytes (pdu_variables pdu))" "pdu_command pdu"]
    tlv_length(1) [of "varbinds_bytes (pdu_variables pdu)" ASN_SEQUENCE_CON]
  by (simp_all add: pdu_bytes_def)

lemma rbuild_pdu:
  assumes "pdu_okay pdu" "rb_wf s" "length (pdu_bytes pdu) \<le> 0xFFFF"
  shows "\<exists>r. snmp_pdu_realloc_rbuild alloc pdu s = Some r \<and> prepends alloc True s r (pdu_bytes pdu)"
proof -
  note len = pdu_lengths [OF assms(3)]
  have ok: "list_all vp_ok (pdu_variables pdu)" "fields_okay pdu" using assms(1) by (simp_all add: pdu_okay_def)
  obtain order where o: "rbuild_order (pdu_variables pdu) = Some order"
    "prepends alloc True s (snmp_rbuild_varbinds alloc (pdu_variables pdu) order s) (varbinds_bytes (pdu_variables pdu))"
    using rbuild_varbinds [OF ok(1) assms(2) len(3)] by blast
  let ?vbs = "cbind (snmp_rbuild_varbinds alloc (pdu_variables pdu) order s)
    (\<lambda>s'. asn_realloc_rbuild_sequence alloc True ASN_SEQUENCE_CON (rb_off s' - rb_off s) s')"
  have vbs: "prepends alloc True s ?vbs (tlv ASN_SEQUENCE_CON (varbinds_bytes (pdu_variables pdu)))"
    by (rule rbuild_tlv [OF assms(2) o(2) len(3)])
  have "prepends alloc True s (cbind ?vbs (snmp_rbuild_fields alloc pdu)) (fields_bytes pdu @ tlv ASN_SEQUENCE_CON (varbinds_bytes (pdu_variables pdu)))"
    by (rule prepends_bind [OF vbs rbuild_fields [OF ok(2)]])
  from rbuild_tlv [OF assms(2) this len(1), of "pdu_command pdu"] show ?thesis
    by (simp add: snmp_pdu_realloc_rbuild_def o(1) pdu_bytes_def cbind_assoc)
qed

lemma parse_pdu:
  assumes "pdu_okay pdu" "length (pdu_bytes pdu) \<le> 0xFFFF" "\<forall>i. mem i"
  shows "snmp_pdu_parse mem p (pdu_bytes pdu @ rest) (length (pdu_bytes pdu)) = Ret (received p pdu)"
proof -
  note len = pdu_lengths [OF assms(2)]
  let ?vs = "tlv ASN_SEQUENCE_CON (varbinds_bytes (pdu_variables pdu))" and ?c = "pdu_command pdu"
  have ok: "list_all vp_ok (pdu_variables pdu)" "fields_okay pdu" "?c \<in> request_commands \<union> {MSG_RESPONSE, MSG_REPORT, MSG_TRAP}"
    using assms(1) by (simp_all add: pdu_okay_def)
  have c: "?c AND ASN_EXTENSION_ID \<noteq> ASN_EXTENSION_ID" "?c \<noteq> ASN_OPAQUE" using ok(3) by auto
  have hdr: "asn_parse_header (pdu_bytes pdu @ rest) (length (pdu_bytes pdu)) = Ret (fields_bytes pdu @ ?vs @ rest, length (fields_bytes pdu) + length ?vs, ?c)"
    unfolding pdu_bytes_def using parse_tlv [OF len(1) c order_refl, where rest = rest] by simp
  have seq: "asn_parse_sequence (?vs @ rest) (length ?vs) ASN_SEQUENCE_CON
      = Ret (varbinds_bytes (pdu_variables pdu) @ rest, length (varbinds_bytes (pdu_variables pdu)), ASN_SEQUENCE_CON)"
    unfolding asn_parse_sequence_def using parse_tlv [OF len(3) _ _ order_refl, where t = ASN_SEQUENCE_CON and rest = rest] by simp
  note vbs = parse_varbinds [OF ok(1) len(3) assms(3), of 0 rest]
  have m: "length ?vs < 0x10000" using len(2) by simp
  show ?thesis
  proof (cases "?c = MSG_TRAP")
    case True
    show ?thesis unfolding snmp_pdu_parse_def hdr using parse_trap [OF ok(2) True m] seq vbs True by (simp add: received_def Let_def)
  next
    case False
    show ?thesis unfolding snmp_pdu_parse_def hdr using parse_fields [OF ok(2) False m] seq vbs False ok(3)
      by (auto simp: received_def Let_def)
  qed
qed

section \<open>Messages\<close>

definition community_of :: "netsnmp_pdu \<Rightarrow> bytes" where
  "community_of pdu = (case pdu_community pdu of None \<Rightarrow> [] | Some c \<Rightarrow> c)"

definition message_ok :: "netsnmp_pdu \<Rightarrow> bool" where
  "message_ok pdu \<longleftrightarrow> pdu_okay pdu \<and> pdu_version pdu \<in> {0, 1} \<and> length (community_of pdu) = pdu_community_len pdu \<and> pdu_community_len pdu < 256"

lemma community_written:
  assumes "length (community_of pdu) = pdu_community_len pdu" "pdu_community_len pdu < 256"
  shows "\<exists>d. asn_build_string 0x20000 ASN_OCTET_STR (Some (community_of pdu)) (length (community_of pdu))
      = Ret (written (asn_build_string 0x20000 ASN_OCTET_STR (pdu_community pdu) (pdu_community_len pdu)), d)"
    "asn_realloc_rbuild_string alloc r t (pdu_community pdu) (pdu_community_len pdu) s
      = asn_realloc_rbuild_string alloc r t (Some (community_of pdu)) (length (community_of pdu)) s"
proof -
  have eq: "asn_build_string 0x20000 ASN_OCTET_STR (pdu_community pdu) (pdu_community_len pdu)
    = asn_build_string 0x20000 ASN_OCTET_STR (Some (community_of pdu)) (length (community_of pdu))"
    using assms(1) by (cases "pdu_community pdu") (simp_all add: community_of_def asn_build_string_def asn_copy_def)
  show "\<exists>d. asn_build_string 0x20000 ASN_OCTET_STR (Some (community_of pdu)) (length (community_of pdu))
      = Ret (written (asn_build_string 0x20000 ASN_OCTET_STR (pdu_community pdu) (pdu_community_len pdu)), d)"
    using encodes_string [of "community_of pdu" ASN_OCTET_STR] assms unfolding eq by (auto simp: encodes_def written_def)
  show "asn_realloc_rbuild_string alloc r t (pdu_community pdu) (pdu_community_len pdu) s
      = asn_realloc_rbuild_string alloc r t (Some (community_of pdu)) (length (community_of pdu)) s"
    using assms(1) by (cases "pdu_community pdu") (simp_all add: community_of_def asn_realloc_rbuild_string_def)
qed

lemma rbuild_message:
  assumes "message_ok pdu" "rb_wf s" "length (message_bytes pdu) \<le> 0xFFFF"
  shows "\<exists>r. snmp_rbuild_message alloc pdu s = Some r \<and> prepends alloc True s r (message_bytes pdu)"
proof -
  let ?com = "written (asn_build_string 0x20000 ASN_OCTET_STR (pdu_community pdu) (pdu_community_len pdu))"
  let ?c = "int_enc (pdu_version pdu) @ ?com @ pdu_bytes pdu"
  have len: "length ?c \<le> 0xFFFF" using assms(3) tlv_length(1) [of ?c ASN_SEQUENCE_CON] by (simp add: message_bytes_def)
  have ok: "pdu_okay pdu" "length (community_of pdu) = pdu_community_len pdu" "pdu_community_len pdu < 256"
    using assms(1) by (simp_all add: message_ok_def)
  obtain r where r: "snmp_pdu_realloc_rbuild alloc pdu s = Some r" "prepends alloc True s r (pdu_bytes pdu)"
    using rbuild_pdu [OF ok(1) assms(2)] len by auto
  obtain d where com: "asn_build_string 0x20000 ASN_OCTET_STR (Some (community_of pdu)) (length (community_of pdu)) = Ret (?com, d)"
    using community_written(1) [OF ok(2,3)] by blast
  let ?m = "cbind r (\<lambda>s'. cbind (asn_realloc_rbuild_string alloc True ASN_OCTET_STR (pdu_community pdu) (pdu_community_len pdu) s')
      (asn_realloc_rbuild_int alloc True ASN_INTEGER (pdu_version pdu) 8))"
  have "prepends alloc True s ?m ((int_enc (pdu_version pdu) @ ?com) @ pdu_bytes pdu)"
    unfolding community_written(2) [OF ok(2,3)]
    by (rule prepends_bind [OF r(2)], rule prepends_bind [OF rbuild_string_prepends [OF _ com]], assumption, use ok(2,3) in simp, rule rbuild_int)
  then have "prepends alloc True s ?m ?c" by simp
  from rbuild_tlv [OF assms(2) this len, of ASN_SEQUENCE_CON] show ?thesis
    by (simp add: snmp_rbuild_message_def r(1) message_bytes_def cbind_assoc)
qed

text \<open>The PDU into which a message is parsed, once the header has been read.\<close>

definition with_community :: "netsnmp_pdu \<Rightarrow> netsnmp_pdu \<Rightarrow> netsnmp_pdu" where
  "with_community p pdu = p\<lparr>pdu_version := pdu_version pdu, pdu_securityLevel := 1,
     pdu_securityModel := (if pdu_version pdu = 0 then 1 else 2),
     pdu_community := (if community_of pdu = [] then None else Some (community_of pdu)),
     pdu_community_len := length (community_of pdu)\<rparr>"

lemma parse_message:
  assumes "message_ok pdu" "length (message_bytes pdu) \<le> 0xFFFF" "\<forall>i. mem i" "\<not> disabled (pdu_version pdu)" "sess_version \<in> {-1, pdu_version pdu}"
  shows "snmp_parse_v1v2c mem None disabled sess_version p (message_bytes pdu) (length (message_bytes pdu)) = Ret (received (with_community p pdu) pdu)"
proof -
  let ?com = "written (asn_build_string 0x20000 ASN_OCTET_STR (pdu_community pdu) (pdu_community_len pdu))"
  let ?c = "int_enc (pdu_version pdu) @ ?com @ pdu_bytes pdu" and ?v = "pdu_version pdu"
  have len: "length ?c \<le> 0xFFFF" using assms(2) tlv_length(1) [of ?c ASN_SEQUENCE_CON] by (simp add: message_bytes_def)
  have ok: "pdu_okay pdu" "?v = 0 \<or> ?v = 1" "length (community_of pdu) = pdu_community_len pdu" "pdu_community_len pdu < 256"
    using assms(1) by (simp_all add: message_ok_def)
  obtain d where com: "asn_build_string 0x20000 ASN_OCTET_STR (Some (community_of pdu)) (length (community_of pdu)) = Ret (?com, d)"
    using community_written(1) [OF ok(3,4)] by blast
  have seq: "asn_parse_sequence (message_bytes pdu) (length (message_bytes pdu)) ASN_SEQUENCE_CON = Ret (?c, length ?c, ASN_SEQUENCE_CON)"
    unfolding asn_parse_sequence_def message_bytes_def
    using parse_tlv [OF len _ _ order_refl, where t = ASN_SEQUENCE_CON and rest = "[]"] by simp
  have "int32_ok ?v" using ok(2) by (auto simp: int32_ok_def)
  then have ver: "asn_parse_int ?c (length ?c) 8 = Ret (?com @ pdu_bytes pdu, length (?com @ pdu_bytes pdu), ASN_INTEGER, ?v)"
    using parse_int_bytes(1) [of ?v "length (?com @ pdu_bytes pdu)" "?com @ pdu_bytes pdu"] len by simp
  have psid: "asn_parse_string (?com @ pdu_bytes pdu) (length (?com @ pdu_bytes pdu)) 256
      = Ret (pdu_bytes pdu, length (pdu_bytes pdu), ASN_OCTET_STR, community_of pdu)"
    using asn_string_roundtrip(1) [OF com, of 256 "length (pdu_bytes pdu)" "pdu_bytes pdu"] ok(3,4) len by simp
  have comstr: "snmp_comstr_parse (message_bytes pdu) (length (message_bytes pdu)) 256 = Ret (pdu_bytes pdu, length (pdu_bytes pdu), ?v, community_of pdu)"
    unfolding snmp_comstr_parse_def seq using ver psid ok(3,4) by simp
  have "snmp_parse_version (message_bytes pdu) (length (message_bytes pdu)) = Ret ?v"
    unfolding snmp_parse_version_def seq using ver ok(2) by (auto simp: c_int_small)
  then have "(if sess_version \<noteq> -1 then Ret sess_version else snmp_parse_version (message_bytes pdu) (length (message_bytes pdu))) = Ret ?v"
    using assms(5) by auto
  then show ?thesis
    unfolding snmp_parse_v1v2c_def using comstr ok(2) assms(4,5) parse_pdu [OF ok(1) _ assms(3), of "with_community p pdu" "[]"] len
    by (auto simp: with_community_def Let_def)
qed

text \<open>
  C1. Round trip of a message: what \<open>_snmp_build\<close> makes of an SNMPv1 or v2c request, response or trap in the default,
  reverse encoding is parsed by \<open>_snmp_parse\<close> into the same PDU, with the same version, community, fields and
  variables, for any number of variables of any type but a wrapped signed 64-bit integer, as long as the message is
  at most 65535 bytes long. The encoding itself ends, stores nothing outside the buffer, and fails only when memory runs out.
\<close>

theorem message_roundtrip:
  assumes "snmp_default_fields pdu = Some pdu1" "snmp_default_community sess_community sess_community_len pdu1 = Some pdu2"
    "message_ok pdu2" "length (message_bytes pdu2) \<le> 0xFFFF" "rb_wf s" "rb_off s = 0"
    "pdu_flags pdu AND UCD_MSG_FLAG_BULK_TOOBIG = 0" "pdu_flags pdu AND UCD_MSG_FLAG_FORWARD_ENCODE = 0"
    "\<forall>i. mem i" "\<not> disabled (pdu_version pdu)" "sess_version \<in> {-1, pdu_version pdu}"
  shows "(case snmp_build_v1v2c disabled True alloc sess_community sess_community_len s pdu of
      Some (Ret (Reverse s')) \<Rightarrow> snmp_parse_v1v2c mem None disabled sess_version p (rb_bytes s') (rb_off s') = Ret (received (with_community p pdu2) pdu2)
    | Some Null \<Rightarrow> \<not> can_grow alloc True
    | _ \<Rightarrow> False)"
proof -
  have ver: "pdu_version pdu2 = pdu_version pdu" "pdu_flags pdu2 AND UCD_MSG_FLAG_FORWARD_ENCODE = pdu_flags pdu AND UCD_MSG_FLAG_FORWARD_ENCODE"
    using assms(1,2) by (auto simp: snmp_default_fields_def snmp_default_community_def Let_def word_bw_assocs split: if_splits option.splits)
  note flags = assms(7,8)
  have v1: "pdu_version pdu1 = pdu_version pdu2" using assms(2) by (auto simp: snmp_default_community_def split: if_splits option.splits)
  obtain r where r: "snmp_rbuild_message alloc pdu2 s = Some r" "prepends alloc True s r (message_bytes pdu2)"
    using rbuild_message [OF assms(3,5,4)] by blast
  have "snmp_build_v1v2c disabled True alloc sess_community sess_community_len s pdu = Some (cbind r (\<lambda>s. Ret (Reverse s)))"
    unfolding snmp_build_v1v2c_def using assms(1-3,10) flags ver v1 r(1) by (simp add: Let_def message_ok_def)
  moreover have "rb_bytes s = []" using assms(5,6) length_rb_bytes [of s] by simp
  ultimately show ?thesis using r(2) parse_message [OF assms(3,4,9), of disabled sess_version p] assms(10,11) ver(1) length_rb_bytes
    by (cases r) (auto dest: length_rb_bytes)
qed


definition sample_pdu :: netsnmp_pdu where
  "sample_pdu = empty_pdu\<lparr>pdu_version := 1, pdu_command := MSG_RESPONSE, pdu_reqid := 7, pdu_community := Some [112, 117, 98],
     pdu_community_len := 3, pdu_variables := [
       \<lparr>vp_name = [1, 3, 6], vp_type = ASN_TIMETICKS, vp_val = Val_integer 300, vp_val_len = 8\<rparr>,
       \<lparr>vp_name = [1, 3, 7], vp_type = ASN_OBJECT_ID, vp_val = Val_objid [2, 300], vp_val_len = 16\<rparr>]\<rparr>"

lemmas written_eval = written_def asn_build_eval asn_build_header_def asn_build_header_check_def asn_build_length_def

lemma sample_ints: "int_enc 7 = [2, 1, 7]" "int_enc 0 = [2, 1, 0]" "int_enc 1 = [2, 1, 1]"
  by (simp_all add: int_enc_def written_eval)

lemmas oid_eval = asn_build_objid_def asn_objid_first_def encoded_oid_len_def encoded_oid_len_loop.simps asn_subid_bytes_def check_overflow_u_def

lemma sample_oids:
  "asn_build_objid 0x20000 ASN_OBJECT_ID [1, 3, 6] = Ret ([6, 2, 43, 6], 131068)"
  "asn_build_objid 0x20000 ASN_OBJECT_ID [1, 3, 7] = Ret ([6, 2, 43, 7], 131068)"
  "asn_build_objid 0x20000 ASN_OBJECT_ID [2, 300] = Ret ([6, 2, 130, 124], 131068)"
  by (simp_all add: oid_eval written_eval)

lemma sample_ticks: "asn_build_unsigned_int 0x20000 ASN_TIMETICKS 300 8 = Ret ([67, 2, 1, 44], 131068)"
  by (simp add: written_eval)


lemma sample_varbinds:
  "varbinds_bytes (pdu_variables sample_pdu) = [48, 8, 6, 2, 43, 6, 67, 2, 1, 44, 48, 8, 6, 2, 43, 7, 6, 2, 130, 124]"
  using sample_oids sample_ticks
  by (simp add: sample_pdu_def oid_bytes_def varbind_bytes_def value_bytes_def tlv_def snmp_build_value_def as_integer_def as_objid_def written_eval)

lemma sample_message:
  "message_bytes sample_pdu = [48, 41, 2, 1, 1, 4, 3, 112, 117, 98, 162, 31, 2, 1, 7, 2, 1, 0, 2, 1, 0, 48, 20] @ varbinds_bytes (pdu_variables sample_pdu)"
  using sample_ints sample_varbinds
  by (simp add: message_bytes_def pdu_bytes_def fields_bytes_def)
    (simp add: sample_pdu_def empty_pdu_def tlv_def asn_build_string_def asn_copy_def written_eval)

lemma sample_pdu_ok:
  "snmp_default_fields sample_pdu = Some sample_pdu" "snmp_default_community None 0 sample_pdu = Some sample_pdu"
  "pdu_flags sample_pdu AND UCD_MSG_FLAG_BULK_TOOBIG = 0" "pdu_flags sample_pdu AND UCD_MSG_FLAG_FORWARD_ENCODE = 0"
  by (simp_all add: sample_pdu_def empty_pdu_def snmp_default_fields_def snmp_default_community_def)

lemma sample_okay: "message_ok sample_pdu" by code_simp

lemma sample_short: "length (message_bytes sample_pdu) \<le> 0xFFFF"
  by (simp add: sample_message sample_varbinds)

theorem message_roundtrip_witness:
  "case snmp_build_v1v2c (\<lambda>_. False) True (\<lambda>n. Some (\<lambda>i. 0)) None 0 \<lparr>rb_pkt = replicate 100 0, rb_off = 0\<rparr> sample_pdu of
      Some (Ret (Reverse s')) \<Rightarrow> snmp_parse_v1v2c (\<lambda>_. True) None (\<lambda>_. False) (-1) empty_pdu (rb_bytes s') (rb_off s')
        = Ret (received (with_community empty_pdu sample_pdu) sample_pdu)
    | Some Null \<Rightarrow> False
    | _ \<Rightarrow> False"
proof -
  let ?s = "\<lparr>rb_pkt = replicate 100 0, rb_off = 0\<rparr>" and ?alloc = "\<lambda>n. Some (\<lambda>i. 0)"
  have "rb_wf ?s" "rb_off ?s = 0" "\<forall>i. (\<lambda>_ :: nat. True) i" "\<not> (\<lambda>_ :: int. False) (pdu_version sample_pdu)" "- 1 \<in> {-1, pdu_version sample_pdu}"
    by (simp_all add: rb_wf_def)
  note r = message_roundtrip [OF sample_pdu_ok(1,2) sample_okay sample_short this(1,2) sample_pdu_ok(3,4) this(3-5), of ?alloc empty_pdu]
  have "can_grow ?alloc True" by (simp add: can_grow_def)
  then show ?thesis using r by (simp only: not_True_eq_False)
qed

text \<open>
  A variable in the forward encoding cannot be parsed: its header announces four bytes.
\<close>

lemma forward_var_op_unparsable:
  "snmp_build_var_op 100 \<lparr>vp_name = [1, 3, 6, 1], vp_type = ASN_OCTET_STR, vp_val = Val_string [97], vp_val_len = 1\<rparr>
     = Ret ([48, 130, 0, 4, 6, 3, 43, 6, 1, 4, 1, 97], 88)
   \<and> snmp_parse_var_op [48, 130, 0, 4, 6, 3, 43, 6, 1, 4, 1, 97] 12 = Null"
  by (intro conjI) code_simp+

end
