(* ===== verification/LcdTime.thy ===== *)
theory LcdTime
  imports Oids
begin

text \<open>
  The cache of the times of other engines, \<^verbatim>\<open>snmplib/lcd_time.c\<close> (\<open>LCD_TIME_SYNC_OPT\<close> is on, as
  \<^verbatim>\<open>library/lcd_time.h\<close> sets it): a hash table of 23 linked lists. A list is the list of its records, a
  pointer to a record its bucket and position. The digest \<open>sc_hash\<close> (OpenSSL behind
  \<^verbatim>\<open>snmplib/scapi.c\<close>) is a parameter: for a protocol and the data, the return code and the digest. The local
  engine time is an argument. Engine IDs are byte lists, the empty one standing for \<open>NULL\<close> or length 0; memory
  allocation succeeds.
\<close>

section \<open>The table\<close>

record enginetime =
  et_engineID :: bytes
  et_engineTime :: u_int
  et_engineBoot :: u_int
  et_lastReceived :: u_long     \<comment> \<open>\<open>lastReceivedEngineTime\<close>, a \<open>time_t\<close>\<close>
  et_authenticated :: bool      \<comment> \<open>\<open>authenticatedFlag\<close>\<close>

type_synonym etimelist = "enginetime list list"
type_synonym digest = "oid \<Rightarrow> bytes \<Rightarrow> int \<times> bytes"

abbreviation (input) ETIMELIST_SIZE :: nat where "ETIMELIST_SIZE \<equiv> 23"
abbreviation (input) ENGINETIME_MAX :: u_int where "ENGINETIME_MAX \<equiv> 2147483647"
abbreviation (input) ENGINEBOOT_MAX :: u_int where "ENGINEBOOT_MAX \<equiv> 2147483647"
abbreviation (input) SNMPERR_SUCCESS :: int where "SNMPERR_SUCCESS \<equiv> 0"
abbreviation (input) SNMPERR_GENERR :: int where "SNMPERR_GENERR \<equiv> - 1"
abbreviation (input) SNMPERR_SC_NOT_CONFIGURED :: int where "SNMPERR_SC_NOT_CONFIGURED \<equiv> - 39"

definition usmHMACMD5AuthProtocol :: oid where "usmHMACMD5AuthProtocol = [1, 3, 6, 1, 6, 3, 10, 1, 1, 2]"
definition usmHMACSHA1AuthProtocol :: oid where "usmHMACSHA1AuthProtocol = [1, 3, 6, 1, 6, 3, 10, 1, 1, 3]"

text \<open>\<open>for (bufp = buf; (bufp - buf) < buf_len; bufp += 4) additive += *bufp;\<close>\<close>

fun hash_additive :: "u_int \<Rightarrow> bytes \<Rightarrow> u_int" where
  "hash_additive additive [] = additive"
| "hash_additive additive (b # bs) = hash_additive (additive + ucast b) (drop 3 bs)"

definition hash_engineID :: "digest \<Rightarrow> bytes \<Rightarrow> int" where
  "hash_engineID sc_hash engineID =
     (if engineID = [] then SNMPERR_GENERR
      else let (rval, buf) = sc_hash usmHMACMD5AuthProtocol engineID;
               (rval, buf) = (if rval = SNMPERR_SC_NOT_CONFIGURED then sc_hash usmHMACSHA1AuthProtocol engineID
                              else (rval, buf)) in
        if rval \<noteq> SNMPERR_SUCCESS then SNMPERR_GENERR
        else int (unat (hash_additive 0 buf) mod ETIMELIST_SIZE))"

text \<open>The position of the record of an engine in its bucket.\<close>

fun etime_position :: "bytes \<Rightarrow> enginetime list \<Rightarrow> nat option" where
  "etime_position engineID [] = None"
| "etime_position engineID (e # es) =
     (if length engineID = length (et_engineID e) \<and> et_engineID e = engineID then Some 0
      else map_option Suc (etime_position engineID es))"

definition search_enginetime_list :: "digest \<Rightarrow> etimelist \<Rightarrow> bytes \<Rightarrow> (nat \<times> nat) option" where
  "search_enginetime_list sc_hash etimelist engineID =
     (if engineID = [] then None
      else let rval = hash_engineID sc_hash engineID in
        if rval < 0 then None
        else map_option (Pair (nat rval)) (etime_position engineID (etimelist ! nat rval)))"

section \<open>Reading\<close>

text \<open>
  The times of a record as estimated now; the result is \<open>*engineboot\<close>, \<open>*engine_time\<close> and
  \<open>*last_engine_time\<close>. An unauthenticated record is not used for an authenticated message.
\<close>

definition enginetime_estimate :: "u_long \<Rightarrow> bool \<Rightarrow> enginetime \<Rightarrow> u_int \<times> u_int \<times> u_int" where
  "enginetime_estimate now authenticated e =
     (let use = (\<not> authenticated \<or> et_authenticated e);
          engine_time = (if use then et_engineTime e else 0);
          engineboot = (if use then et_engineBoot e else 0);
          timediff = (if use then ucast (now - et_lastReceived e) else 0 :: u_int) in
      if sint timediff > sint (ENGINETIME_MAX - engine_time) then
        (if engineboot < ENGINEBOOT_MAX then engineboot + 1 else engineboot,
         timediff - (ENGINETIME_MAX - engine_time), engine_time)
      else (engineboot, engine_time + timediff, engine_time))"

definition get_enginetime_ex ::
    "digest \<Rightarrow> u_long \<Rightarrow> etimelist \<Rightarrow> bytes \<Rightarrow> bool \<Rightarrow> int \<times> u_int \<times> u_int \<times> u_int" where
  "get_enginetime_ex sc_hash now etimelist engineID authenticated =
     (if engineID = [] then (SNMPERR_GENERR, 0, 0, 0)
      else case search_enginetime_list sc_hash etimelist engineID of
        None \<Rightarrow> (SNMPERR_GENERR, 0, 0, 0)
      | Some (i, j) \<Rightarrow> (SNMPERR_SUCCESS, enginetime_estimate now authenticated (etimelist ! i ! j)))"

definition get_enginetime :: "digest \<Rightarrow> u_long \<Rightarrow> etimelist \<Rightarrow> bytes \<Rightarrow> bool \<Rightarrow> int \<times> u_int \<times> u_int" where
  "get_enginetime sc_hash now etimelist engineID authenticated =
     (if engineID = [] then (SNMPERR_GENERR, 0, 0)
      else case search_enginetime_list sc_hash etimelist engineID of
        None \<Rightarrow> (SNMPERR_GENERR, 0, 0)
      | Some (i, j) \<Rightarrow>
          let (engineboot, engine_time, _) = enginetime_estimate now authenticated (etimelist ! i ! j)
          in (SNMPERR_SUCCESS, engineboot, engine_time))"

definition ISENGINEKNOWN :: "digest \<Rightarrow> u_long \<Rightarrow> etimelist \<Rightarrow> bytes \<Rightarrow> bool" where
  "ISENGINEKNOWN sc_hash now etimelist engineID \<longleftrightarrow>
     fst (get_enginetime sc_hash now etimelist engineID True) = SNMPERR_SUCCESS"

section \<open>Writing\<close>

text \<open>Storing the times in a record, with the stamp of the local time.\<close>

definition enginetime_store :: "u_long \<Rightarrow> u_int \<Rightarrow> u_int \<Rightarrow> bool \<Rightarrow> enginetime \<Rightarrow> enginetime" where
  "enginetime_store now engineboot engine_time authenticated e =
     (if authenticated \<or> \<not> et_authenticated e then
        e\<lparr>et_authenticated := authenticated, et_engineTime := engine_time, et_engineBoot := engineboot,
          et_lastReceived := now\<rparr>
      else e)"

definition new_enginetime :: "bytes \<Rightarrow> enginetime" where
  "new_enginetime engineID =
     \<lparr>et_engineID = engineID, et_engineTime = 0, et_engineBoot = 0, et_lastReceived = 0, et_authenticated = False\<rparr>"

definition set_enginetime ::
    "digest \<Rightarrow> u_long \<Rightarrow> bytes \<Rightarrow> u_int \<Rightarrow> u_int \<Rightarrow> bool \<Rightarrow> etimelist \<Rightarrow> int \<times> etimelist" where
  "set_enginetime sc_hash now engineID engineboot engine_time authenticated etimelist =
     (if engineID = [] then (SNMPERR_SUCCESS, etimelist)
      else case search_enginetime_list sc_hash etimelist engineID of
        Some (i, j) \<Rightarrow>
          (SNMPERR_SUCCESS,
           etimelist[i := (etimelist ! i)[j := enginetime_store now engineboot engine_time authenticated (etimelist ! i ! j)]])
      | None \<Rightarrow>
          let iindex = hash_engineID sc_hash engineID in
          if iindex < 0 then (SNMPERR_GENERR, etimelist)
          else (SNMPERR_SUCCESS,
            etimelist[nat iindex :=
              enginetime_store now engineboot engine_time authenticated (new_enginetime engineID)
              # etimelist ! nat iindex]))"

definition ENSURE_ENGINE_RECORD :: "digest \<Rightarrow> u_long \<Rightarrow> bytes \<Rightarrow> etimelist \<Rightarrow> int \<times> etimelist" where
  "ENSURE_ENGINE_RECORD sc_hash now engineID etimelist = set_enginetime sc_hash now engineID 0 0 False etimelist"

text \<open>\<open>free_enginetime\<close> frees the whole list of the bucket, \<open>free_etimelist\<close> all lists.\<close>

definition free_enginetime :: "digest \<Rightarrow> bytes \<Rightarrow> etimelist \<Rightarrow> etimelist" where
  "free_enginetime sc_hash engineID etimelist =
     (let rval = hash_engineID sc_hash engineID in
      if rval < 0 then etimelist else etimelist[nat rval := []])"

definition free_etimelist :: "etimelist \<Rightarrow> etimelist" where
  "free_etimelist etimelist = replicate ETIMELIST_SIZE []"

section \<open>The table as a map\<close>

text \<open>Every record is in the bucket of its engine, and no engine has two records.\<close>

definition etimes_wf :: "digest \<Rightarrow> etimelist \<Rightarrow> bool" where
  "etimes_wf sc_hash l \<longleftrightarrow>
     length l = ETIMELIST_SIZE
     \<and> (\<forall>i < ETIMELIST_SIZE. distinct (map et_engineID (l ! i))
          \<and> (\<forall>e \<in> set (l ! i). et_engineID e \<noteq> [] \<and> hash_engineID sc_hash (et_engineID e) = int i))"

definition etime_lookup :: "digest \<Rightarrow> etimelist \<Rightarrow> bytes \<Rightarrow> enginetime option" where
  "etime_lookup sc_hash l engineID =
     map_option (\<lambda>(i, j). l ! i ! j) (search_enginetime_list sc_hash l engineID)"

lemma hash_engineID_bounds: "hash_engineID sc_hash e < 23" "hash_engineID sc_hash e \<ge> -1"
  by (auto simp: hash_engineID_def Let_def split: prod.splits)

lemma etime_position_Some:
  "etime_position e es = Some j \<Longrightarrow> j < length es \<and> et_engineID (es ! j) = e"
  by (induction es arbitrary: j) (auto split: if_splits)

lemma etime_position_None: "etime_position e es = None \<longleftrightarrow> e \<notin> et_engineID ` set es"
  by (induction es) auto

lemma et_engineID_store [simp]: "et_engineID (enginetime_store now b t a e) = et_engineID e"
  by (simp add: enginetime_store_def)

lemma etime_position_update:
  assumes "j < length es" "et_engineID x = et_engineID (es ! j)"
  shows "etime_position e (es[j := x]) = etime_position e es"
  using assms
proof (induction es arbitrary: j)
  case (Cons y es)
  show ?case
  proof (cases j)
    case 0
    then have "et_engineID x = et_engineID y" using Cons.prems(2) by simp
    then show ?thesis by (simp only: 0 list_update_code etime_position.simps)
  next
    case (Suc k)
    have "etime_position e (es[k := x]) = etime_position e es"
      using Cons.prems by (intro Cons.IH) (simp_all add: Suc)
    then show ?thesis by (simp only: Suc list_update_code etime_position.simps)
  qed
qed simp

lemma search_enginetime_list_Some:
  assumes "etimes_wf h l" "search_enginetime_list h l e = Some (i, j)"
  shows "i < length l \<and> j < length (l ! i) \<and> et_engineID (l ! i ! j) = e \<and> hash_engineID h e = int i"
  using assms hash_engineID_bounds(1) [of h e]
  by (auto simp: search_enginetime_list_def Let_def etimes_wf_def dest!: etime_position_Some split: if_splits)

lemma search_enginetime_list_None:
  assumes "search_enginetime_list h l e = None" "e \<noteq> []" "hash_engineID h e \<ge> 0"
  shows "e \<notin> et_engineID ` set (l ! nat (hash_engineID h e))"
  using assms by (simp add: search_enginetime_list_def Let_def etime_position_None split: if_splits)

lemma search_store:
  assumes "etimes_wf h l" "search_enginetime_list h l e = Some (i, j)"
  shows "search_enginetime_list h (l[i := (l ! i)[j := enginetime_store now b t a (l ! i ! j)]]) e'
    = search_enginetime_list h l e'"
  using search_enginetime_list_Some [OF assms]
  by (auto simp: search_enginetime_list_def Let_def nth_list_update etime_position_update)

lemma search_cons:
  assumes "etimes_wf h l" "e \<noteq> []" "hash_engineID h e = int i" "et_engineID x = e"
  shows "search_enginetime_list h (l[i := x # l ! i]) e' =
    (if e' = e then Some (i, 0)
     else if hash_engineID h e' = int i then map_option (\<lambda>(i, j). (i, Suc j)) (search_enginetime_list h l e')
     else search_enginetime_list h l e')"
proof -
  have "i < length l" using assms hash_engineID_bounds(1) [of h e] by (simp add: etimes_wf_def)
  then show ?thesis using assms
    by (auto simp: search_enginetime_list_def Let_def nth_list_update option.map_comp comp_def nat_eq_iff)
qed

lemma set_enginetime_success:
  assumes "e = [] \<or> hash_engineID h e \<ge> 0"
  shows "fst (set_enginetime h now e b t a l) = SNMPERR_SUCCESS"
  using assms by (auto simp: set_enginetime_def Let_def split: option.splits)

text \<open>Storing changes the record of the engine, creating it when there is none, and no other one.\<close>

lemma lookup_set_enginetime:
  assumes wf: "etimes_wf h l" and e: "e \<noteq> []" "hash_engineID h e \<ge> 0"
  shows "etime_lookup h (snd (set_enginetime h now e b t a l)) e' =
    (if e' = e then Some (enginetime_store now b t a
                       (case etime_lookup h l e of None \<Rightarrow> new_enginetime e | Some r \<Rightarrow> r))
     else etime_lookup h l e')"
proof (cases "search_enginetime_list h l e")
  case None
  define i where "i = nat (hash_engineID h e)"
  have i: "hash_engineID h e = int i" using e by (simp add: i_def)
  let ?x = "enginetime_store now b t a (new_enginetime e)"
  have id: "et_engineID ?x = e" by (simp add: new_enginetime_def)
  have l: "i < length l" using wf i hash_engineID_bounds(1) [of h e] by (simp add: etimes_wf_def)
  have s: "snd (set_enginetime h now e b t a l) = l[i := ?x # l ! i]"
    using None e by (simp add: set_enginetime_def Let_def i_def)
  show ?thesis
  proof (cases "search_enginetime_list h l e'")
    case N: None
    then show ?thesis unfolding s etime_lookup_def search_cons [OF wf e(1) i id] using None l by simp
  next
    case (Some ij)
    then obtain k j where kj: "search_enginetime_list h l e' = Some (k, j)" by (cases ij) auto
    then have "hash_engineID h e' = int k" "e' \<noteq> e" using search_enginetime_list_Some [OF wf kj] None by auto
    then show ?thesis unfolding s etime_lookup_def search_cons [OF wf e(1) i id] using kj l
      by (auto simp: nth_list_update)
  qed
next
  case (Some ij)
  obtain i j where ij: "search_enginetime_list h l e = Some (i, j)" using Some by (cases ij) auto
  let ?x = "enginetime_store now b t a (l ! i ! j)"
  have s: "snd (set_enginetime h now e b t a l) = l[i := (l ! i)[j := ?x]]"
    using ij e by (simp add: set_enginetime_def)
  have p: "i < length l" "j < length (l ! i)" "et_engineID (l ! i ! j) = e"
    using search_enginetime_list_Some [OF wf ij] by auto
  show ?thesis
  proof (cases "e' = e")
    case True
    then show ?thesis unfolding s etime_lookup_def search_store [OF wf ij] using ij p by simp
  next
    case False
    then have ne: "i' \<noteq> i \<or> j' \<noteq> j" if "search_enginetime_list h l e' = Some (i', j')" for i' j'
      using search_enginetime_list_Some [OF wf that] p by auto
    show ?thesis unfolding s etime_lookup_def search_store [OF wf ij]
      using False p ne by (cases "search_enginetime_list h l e'") (auto simp: nth_list_update)
  qed
qed

lemma set_enginetime_wf:
  assumes wf: "etimes_wf h l"
  shows "etimes_wf h (snd (set_enginetime h now e b t a l))"
proof (cases "search_enginetime_list h l e")
  case None
  show ?thesis
  proof (cases "e = [] \<or> hash_engineID h e < 0")
    case True
    then show ?thesis using None wf by (auto simp: set_enginetime_def Let_def)
  next
    case False
    then have e: "e \<noteq> []" "hash_engineID h e \<ge> 0" by auto
    note n = search_enginetime_list_None [OF None e]
    show ?thesis using False None wf n hash_engineID_bounds(1) [of h e]
      by (auto simp: set_enginetime_def Let_def etimes_wf_def nth_list_update new_enginetime_def)
  qed
next
  case (Some ij)
  obtain i j where ij: "search_enginetime_list h l e = Some (i, j)" using Some by (cases ij) auto
  have p: "i < length l" "j < length (l ! i)" "et_engineID (l ! i ! j) = e" "hash_engineID h e = int i"
    using search_enginetime_list_Some [OF wf ij] by auto
  have e: "e \<noteq> []" using ij by (auto simp: search_enginetime_list_def)
  let ?b = "(l ! i)[j := enginetime_store now b t a (l ! i ! j)]"
  have m: "map et_engineID ?b = map et_engineID (l ! i)"
    using p(2) by (simp add: map_update list_update_same_conv)
  have "et_engineID ` set ?b = et_engineID ` set (l ! i)" using arg_cong [OF m, of set] by simp
  then have b: "\<forall>x \<in> set ?b. \<exists>y \<in> set (l ! i). et_engineID x = et_engineID y" by blast
  have b': "et_engineID x \<noteq> [] \<and> hash_engineID h (et_engineID x) = int i" if "x \<in> set ?b" for x
    using b that wf p(1) unfolding etimes_wf_def by fastforce
  have "snd (set_enginetime h now e b t a l) = l[i := ?b]"
    using ij e by (simp add: set_enginetime_def)
  then show ?thesis using wf p(1) m b' unfolding etimes_wf_def
    by (auto simp: nth_list_update)
qed

text \<open>What is known of an engine from authenticated messages: boots, time and when that was.\<close>

definition etime_auth :: "digest \<Rightarrow> etimelist \<Rightarrow> bytes \<Rightarrow> (u_int \<times> u_int \<times> u_long) option" where
  "etime_auth sc_hash l engineID =
     (case etime_lookup sc_hash l engineID of
        None \<Rightarrow> None
      | Some e \<Rightarrow> if et_authenticated e then Some (et_engineBoot e, et_engineTime e, et_lastReceived e) else None)"

text \<open>The key of the table: an engine ID that has a hash.\<close>

definition engine_key :: "digest \<Rightarrow> bytes \<Rightarrow> bool" where
  "engine_key sc_hash e \<longleftrightarrow> e \<noteq> [] \<and> hash_engineID sc_hash e \<ge> 0"

lemma etime_lookup_key: "etime_lookup h l e = Some r \<Longrightarrow> engine_key h e"
  by (auto simp: etime_lookup_def search_enginetime_list_def engine_key_def Let_def split: if_splits)

lemma etime_lookup_no_key: "\<not> engine_key h e \<Longrightarrow> etime_lookup h l e = None"
  using etime_lookup_key [of h l e] by (cases "etime_lookup h l e") auto

lemma set_enginetime_no_key: "\<not> engine_key h e \<Longrightarrow> snd (set_enginetime h now e b t a l) = l"
  by (auto simp: set_enginetime_def search_enginetime_list_def engine_key_def Let_def)

lemma etime_auth_set:
  assumes "etimes_wf h l" "engine_key h e"
  shows "etime_auth h (snd (set_enginetime h now e b t True l)) e' = (if e' = e then Some (b, t, now) else etime_auth h l e')"
  using assms by (simp add: etime_auth_def engine_key_def lookup_set_enginetime enginetime_store_def)

lemma etime_auth_set_unauth:
  assumes "etimes_wf h l"
  shows "etime_auth h (snd (set_enginetime h now e b t False l)) = etime_auth h l"
proof (cases "engine_key h e")
  case True
  then show ?thesis using assms
    by (intro ext) (auto simp: etime_auth_def engine_key_def lookup_set_enginetime enginetime_store_def
        new_enginetime_def split: option.splits)
qed (simp add: set_enginetime_no_key)

interpretation etimes: keyed_store "etimes_wf h" "\<lambda>(e, v). engine_key h e" fst
    "\<lambda>l e. map_option (Pair e) (etime_auth h l e)"
    "\<lambda>(e, b, t, now) l. snd (set_enginetime h now e b t True l)" for h
  by unfold_locales (auto simp: set_enginetime_wf etime_auth_set)

lemma get_enginetime_ex_lookup:
  "get_enginetime_ex h now l e authenticated =
     (case etime_lookup h l e of
        None \<Rightarrow> (SNMPERR_GENERR, 0, 0, 0)
      | Some r \<Rightarrow> (SNMPERR_SUCCESS, enginetime_estimate now authenticated r))"
  by (auto simp: get_enginetime_ex_def etime_lookup_def search_enginetime_list_def split: option.splits)

lemma ISENGINEKNOWN_iff: "ISENGINEKNOWN h now l e \<longleftrightarrow> etime_lookup h l e \<noteq> None"
  by (auto simp: ISENGINEKNOWN_def get_enginetime_def etime_lookup_def search_enginetime_list_def
      split: option.splits prod.splits)

text \<open>Removing one engine forgets the other engines of its bucket as well.\<close>

definition one_bucket :: digest where "one_bucket p e = (0, [0])"

lemma free_enginetime_frees_others:
  "let l = snd (set_enginetime one_bucket 5 [2] 3 4 True (snd (set_enginetime one_bucket 5 [1] 3 4 True (free_etimelist []))))
   in etime_lookup one_bucket l [2] \<noteq> None
      \<and> etime_lookup one_bucket (free_enginetime one_bucket [1] l) [2] = None"
  by code_simp

end
