(* ===== verification/UsmUsers.thy ===== *)
theory UsmUsers
  imports LcdTime "HOL-Library.Product_Lexorder"
begin

text \<open>
  The users of the user-based security model, \<^verbatim>\<open>snmplib/snmpusm.c\<close>: the list \<open>userList\<close>, ordered by engine ID
  (length, then contents) and name (length, then contents), with the names as C strings without their NUL. A
  pointer that may be \<open>NULL\<close> is an option; \<open>prev\<close> and \<open>next\<close> are the positions in the list. The master keys,
  the clone source, the storage type and the Diffie-Hellman objects are not modelled.
\<close>

section \<open>The list\<close>

record usmUser =
  us_engineID :: "bytes option"    \<comment> \<open>\<open>engineIDLen\<close> is its length\<close>
  us_name :: bytes
  us_secName :: bytes
  us_authProtocol :: oid
  us_authKey :: "bytes option"
  us_privProtocol :: oid
  us_privKey :: "bytes option"
  us_userStatus :: int

abbreviation (input) RS_ACTIVE :: int where "RS_ACTIVE \<equiv> 1"
abbreviation (input) SNMPERR_USM_UNKNOWNSECURITYNAME :: int where "SNMPERR_USM_UNKNOWNSECURITYNAME \<equiv> - 43"

definition ptr_len :: "bytes option \<Rightarrow> nat" where
  "ptr_len p = (case p of None \<Rightarrow> 0 | Some bs \<Rightarrow> length bs)"

text \<open>\<open>memcmp\<close> of arrays of one length and \<open>strcmp\<close> of strings: the sign of the first difference.\<close>

fun bytes_cmp :: "bytes \<Rightarrow> bytes \<Rightarrow> int" where
  "bytes_cmp [] [] = 0"
| "bytes_cmp [] (y # b) = - 1"
| "bytes_cmp (x # a) [] = 1"
| "bytes_cmp (x # a) (y # b) = (if x < y then - 1 else if y < x then 1 else bytes_cmp a b)"

text \<open>The test that two engine IDs of the same length are equal, and the end of the search for a place.\<close>

definition user_same_engine :: "usmUser \<Rightarrow> usmUser \<Rightarrow> bool" where
  "user_same_engine nptr user \<longleftrightarrow>
     ptr_len (us_engineID nptr) = ptr_len (us_engineID user)
     \<and> (us_engineID nptr = None \<and> us_engineID user = None
        \<or> bytes_cmp (the (us_engineID nptr)) (the (us_engineID user)) = 0)"

definition user_add_before :: "usmUser \<Rightarrow> usmUser \<Rightarrow> bool" where
  "user_add_before nptr user \<longleftrightarrow>
     ptr_len (us_engineID nptr) > ptr_len (us_engineID user)
     \<or> us_engineID user = None \<and> us_engineID nptr \<noteq> None
     \<or> ptr_len (us_engineID nptr) = ptr_len (us_engineID user)
        \<and> us_engineID nptr \<noteq> None \<and> us_engineID user \<noteq> None
        \<and> bytes_cmp (the (us_engineID nptr)) (the (us_engineID user)) > 0
     \<or> \<not> (us_engineID nptr = None \<and> us_engineID user \<noteq> None) \<and> user_same_engine nptr user
        \<and> (length (us_name nptr) > length (us_name user)
           \<or> length (us_name nptr) = length (us_name user) \<and> bytes_cmp (us_name nptr) (us_name user) > 0)"

definition user_add_replaces :: "usmUser \<Rightarrow> usmUser \<Rightarrow> bool" where
  "user_add_replaces nptr user \<longleftrightarrow>
     \<not> (us_engineID nptr = None \<and> us_engineID user \<noteq> None) \<and> user_same_engine nptr user
     \<and> length (us_name nptr) = length (us_name user) \<and> bytes_cmp (us_name nptr) (us_name user) = 0"

fun usm_add_user_to_list :: "usmUser \<Rightarrow> usmUser list \<Rightarrow> usmUser list" where
  "usm_add_user_to_list user [] = [user]"
| "usm_add_user_to_list user (nptr # rest) =
     (if user_add_before nptr user then user # nptr # rest
      else if user_add_replaces nptr user then user # rest
      else nptr # usm_add_user_to_list user rest)"

text \<open>Finding a user; \<open>use_default\<close> gives the nameless user for engine discovery.\<close>

definition user_matches :: "bytes option \<Rightarrow> bytes \<Rightarrow> usmUser \<Rightarrow> bool" where
  "user_matches engineID name ptr \<longleftrightarrow>
     length (us_name ptr) = length name \<and> bytes_cmp (us_name ptr) name = 0
     \<and> ptr_len (us_engineID ptr) = ptr_len engineID
     \<and> (us_engineID ptr = None \<and> engineID = None
        \<or> us_engineID ptr \<noteq> None \<and> engineID \<noteq> None
           \<and> bytes_cmp (the (us_engineID ptr)) (the engineID) = 0)"

definition usm_get_user_from_list ::
    "bytes option \<Rightarrow> bytes \<Rightarrow> usmUser list \<Rightarrow> usmUser option \<Rightarrow> bool \<Rightarrow> usmUser option" where
  "usm_get_user_from_list engineID name puserList noNameUser use_default =
     (case find (user_matches engineID name) puserList of
        Some ptr \<Rightarrow> Some ptr
      | None \<Rightarrow> if use_default \<and> (case name of [] \<Rightarrow> True | c # _ \<Rightarrow> c = 0) then noNameUser else None)"

text \<open>Unlinking a user, given by its position; a position outside the list stands for a foreign pointer.\<close>

definition usm_remove_usmUser_from_list :: "nat \<Rightarrow> usmUser list \<Rightarrow> int \<times> usmUser list" where
  "usm_remove_usmUser_from_list i puserList =
     (if i < length puserList then (SNMPERR_SUCCESS, take i puserList @ drop (i + 1) puserList)
      else (SNMPERR_USM_UNKNOWNSECURITYNAME, puserList))"

section \<open>The order of the list\<close>

type_synonym user_key = "bytes option \<times> bytes"

definition user_key :: "usmUser \<Rightarrow> user_key" where
  "user_key u = (us_engineID u, us_name u)"

text \<open>The order of the keys: the first difference decides.\<close>

definition user_rank :: "user_key \<Rightarrow> nat \<times> bool \<times> bytes \<times> nat \<times> bytes" where
  "user_rank k = (ptr_len (fst k), fst k \<noteq> None, case fst k of None \<Rightarrow> [] | Some e \<Rightarrow> e, length (snd k), snd k)"

definition user_less :: "user_key \<Rightarrow> user_key \<Rightarrow> bool" where
  "user_less k k' \<longleftrightarrow> user_rank k < user_rank k'"

definition users_ok :: "usmUser list \<Rightarrow> bool" where
  "users_ok = sorted_wrt (\<lambda>u v. user_less (user_key u) (user_key v))"

lemma bytes_cmp_less: "(bytes_cmp a b = 0 \<longleftrightarrow> a = b) \<and> (bytes_cmp a b > 0 \<longleftrightarrow> b < a)"
  by (induction a b rule: bytes_cmp.induct) auto

lemma user_rank_inj: "user_rank k = user_rank k' \<longleftrightarrow> k = k'"
  by (cases k; cases k') (auto simp: user_rank_def split: option.splits)

lemma user_less_irrefl: "\<not> user_less k k"
  by (simp add: user_less_def)

lemma user_less_trans: "user_less a b \<Longrightarrow> user_less b c \<Longrightarrow> user_less a c"
  unfolding user_less_def by (rule less_trans)

lemma user_less_total: "user_less a b \<or> a = b \<or> user_less b a"
  using less_linear [of "user_rank a" "user_rank b"] by (auto simp: user_less_def user_rank_inj)

lemma user_add_before_iff: "user_add_before nptr user \<longleftrightarrow> user_less (user_key user) (user_key nptr)"
  by (cases "us_engineID nptr"; cases "us_engineID user")
     (auto simp: user_add_before_def user_same_engine_def user_less_def user_rank_def user_key_def ptr_len_def
        bytes_cmp_less)

lemma user_add_replaces_iff:
  "\<not> user_add_before nptr user \<Longrightarrow> user_add_replaces nptr user \<longleftrightarrow> user_key user = user_key nptr"
  by (cases "us_engineID nptr"; cases "us_engineID user")
     (auto simp: user_add_before_def user_add_replaces_def user_same_engine_def user_key_def ptr_len_def
        bytes_cmp_less)

lemma user_matches_iff: "user_matches engineID name u \<longleftrightarrow> user_key u = (engineID, name)"
  by (cases "us_engineID u"; cases engineID)
     (auto simp: user_matches_def user_key_def ptr_len_def bytes_cmp_less)

lemma user_matches_key: "user_matches (fst k) (snd k) = (\<lambda>u. user_key u = k)"
  by (cases k) (auto simp: user_matches_iff)

lemma set_usm_add_user: "set (usm_add_user_to_list user l) \<subseteq> insert user (set l)"
  by (induction l) auto

lemma usm_add_user_ok: "users_ok l \<Longrightarrow> users_ok (usm_add_user_to_list user l)"
proof (induction l)
  case Nil
  then show ?case by (simp add: users_ok_def)
next
  case (Cons nptr rest)
  have ok: "users_ok rest" "\<forall>u \<in> set rest. user_less (user_key nptr) (user_key u)"
    using Cons.prems by (auto simp: users_ok_def)
  consider (before) "user_add_before nptr user" | (same) "\<not> user_add_before nptr user" "user_key user = user_key nptr"
    | (after) "\<not> user_add_before nptr user" "user_less (user_key nptr) (user_key user)"
    using user_less_total user_add_before_iff by metis
  then show ?case
  proof cases
    case before
    then show ?thesis using ok user_less_trans [of "user_key user" "user_key nptr"]
      by (auto simp: user_add_before_iff users_ok_def)
  next
    case same
    then show ?thesis using ok by (simp add: user_add_replaces_iff users_ok_def)
  next
    case after
    then have "user_key user \<noteq> user_key nptr" using user_less_irrefl by metis
    then show ?thesis using after ok Cons.IH set_usm_add_user [of user rest]
      by (auto simp: user_add_replaces_iff users_ok_def)
  qed
qed

lemma find_usm_add_user:
  "users_ok l \<Longrightarrow> find (\<lambda>u. user_key u = k) (usm_add_user_to_list user l)
     = (if k = user_key user then Some user else find (\<lambda>u. user_key u = k) l)"
proof (induction l)
  case (Cons nptr rest)
  have ok: "users_ok rest" "\<forall>u \<in> set rest. user_less (user_key nptr) (user_key u)"
    using Cons.prems by (auto simp: users_ok_def)
  show ?case
  proof (cases "user_add_before nptr user")
    case True
    then show ?thesis by auto
  next
    case False
    then show ?thesis using Cons.IH [OF ok(1)] by (auto simp: user_add_replaces_iff)
  qed
qed auto

interpretation users: keyed_store users_ok "\<lambda>u. True" user_key "\<lambda>l k. find (user_matches (fst k) (snd k)) l"
    usm_add_user_to_list
  by unfold_locales (auto simp: usm_add_user_ok find_usm_add_user user_matches_key)

lemma find_append: "find P (xs @ ys) = (case find P xs of None \<Rightarrow> find P ys | Some x \<Rightarrow> Some x)"
  by (induction xs) auto

lemma usm_remove_ok: "users_ok l \<Longrightarrow> users_ok (snd (usm_remove_usmUser_from_list i l))"
proof -
  assume ok: "users_ok l"
  have "users_ok (take i l @ drop (i + 1) l)" if "i < length l"
  proof -
    have "sorted_wrt (\<lambda>u v. user_less (user_key u) (user_key v)) (take i l @ l ! i # drop (Suc i) l)"
      using ok id_take_nth_drop [OF that] by (simp add: users_ok_def)
    then show ?thesis by (simp add: users_ok_def sorted_wrt_append)
  qed
  then show ?thesis using ok by (auto simp: usm_remove_usmUser_from_list_def)
qed

lemma usm_remove_find:
  assumes "users_ok l" "i < length l"
  shows "find (\<lambda>u. user_key u = k) (snd (usm_remove_usmUser_from_list i l))
    = (if k = user_key (l ! i) then None else find (\<lambda>u. user_key u = k) l)"
proof -
  let ?a = "take i l" and ?b = "drop (Suc i) l"
  have l: "l = ?a @ l ! i # ?b" using assms(2) by (rule id_take_nth_drop)
  then have "users_ok (?a @ l ! i # ?b)" using assms(1) by simp
  then have "\<forall>u \<in> set ?a. user_less (user_key u) (user_key (l ! i))" "\<forall>u \<in> set ?b. user_less (user_key (l ! i)) (user_key u)"
    by (auto simp: users_ok_def sorted_wrt_append)
  then have n: "user_key u \<noteq> user_key (l ! i)" if "u \<in> set ?a \<union> set ?b" for u
    using that user_less_irrefl by (metis UnE)
  let ?f = "find (\<lambda>u. user_key u = k)"
  have f: "?f l = ?f (?a @ l ! i # ?b)" using l by simp
  have r: "?f (snd (usm_remove_usmUser_from_list i l)) = ?f (?a @ ?b)"
    using assms(2) by (simp add: usm_remove_usmUser_from_list_def)
  show ?thesis
  proof (cases "k = user_key (l ! i)")
    case True
    then have "?f (?a @ ?b) = None" using n by (simp add: find_None_iff) blast
    then show ?thesis using True r by simp
  next
    case False
    then have "user_key (l ! i) \<noteq> k" by simp
    then show ?thesis using False unfolding r f by (simp add: find_append split: option.split)
  qed
qed

text \<open>
  After any sequence of users is added to the list, every lookup by engine ID and name finds the user added
  last under that key (or what was there before), the list stays ordered without duplicates, and removing a user
  removes that key and no other.
\<close>

theorem usm_users_last_added:
  assumes "users_ok l"
  shows "users_ok (fold usm_add_user_to_list us l)
    \<and> usm_get_user_from_list e n (fold usm_add_user_to_list us l) noName False
      = (case find (\<lambda>u. us_engineID u = e \<and> us_name u = n) (rev us) of
           Some u \<Rightarrow> Some u
         | None \<Rightarrow> usm_get_user_from_list e n l noName False)
    \<and> users_ok (snd (usm_remove_usmUser_from_list i l))
    \<and> (i < length l \<longrightarrow> usm_get_user_from_list e n (snd (usm_remove_usmUser_from_list i l)) noName False
      = (if us_engineID (l ! i) = e \<and> us_name (l ! i) = n then None
         else usm_get_user_from_list e n l noName False))"
proof -
  have k: "(\<lambda>u. user_key u = (e, n)) = (\<lambda>u. us_engineID u = e \<and> us_name u = n)" by (auto simp: user_key_def)
  have g: "usm_get_user_from_list e n l noName False = find (\<lambda>u. user_key u = (e, n)) l" for l
    using user_matches_key [of "(e, n)"] by (simp add: usm_get_user_from_list_def option.case_eq_if)
  have "find (\<lambda>u. user_key u = (e, n)) (fold usm_add_user_to_list us l)
      = (case find (\<lambda>u. user_key u = (e, n)) (rev us) of None \<Rightarrow> find (\<lambda>u. user_key u = (e, n)) l | Some u \<Rightarrow> Some u)"
    using users.get_puts [OF assms, of us "(e, n)"] unfolding user_matches_key by simp
  then show ?thesis unfolding g k [symmetric]
    using users.puts_ok [OF assms, of us] usm_remove_ok [OF assms, of i] usm_remove_find [OF assms, of i "(e, n)"]
    by (auto simp: user_key_def split: option.splits)
qed

definition test_user :: "bytes \<Rightarrow> bytes \<Rightarrow> int \<Rightarrow> usmUser" where
  "test_user e n s = \<lparr>us_engineID = Some e, us_name = n, us_secName = n, us_authProtocol = usmHMACMD5AuthProtocol,
     us_authKey = Some [1], us_privProtocol = [], us_privKey = None, us_userStatus = s\<rparr>"

theorem usm_users_last_added_witness:
  "map us_userStatus (fold usm_add_user_to_list [test_user [2] [97] 1, test_user [1] [98] 2, test_user [2] [97] 3] []) = [2, 3]
   \<and> usm_get_user_from_list (Some [2]) [97]
       (fold usm_add_user_to_list [test_user [2] [97] 1, test_user [1] [98] 2, test_user [2] [97] 3] []) None False
     = Some (test_user [2] [97] 3)"
proof -
  have "users_ok []" by (simp add: users_ok_def)
  from usm_users_last_added [OF this, of "[test_user [2] [97] 1, test_user [1] [98] 2, test_user [2] [97] 3]" "Some [2]" "[97]" None 0]
  have "usm_get_user_from_list (Some [2]) [97]
       (fold usm_add_user_to_list [test_user [2] [97] 1, test_user [1] [98] 2, test_user [2] [97] 3] []) None False
     = Some (test_user [2] [97] 3)" by (simp add: test_user_def)
  moreover have "map us_userStatus (fold usm_add_user_to_list [test_user [2] [97] 1, test_user [1] [98] 2, test_user [2] [97] 3] []) = [2, 3]"
    by code_simp
  ultimately show ?thesis by simp
qed

end
