(* ===== verification/Usm.thy ===== *)
theory Usm
  imports UsmUsers AsnSafe
begin

unbundle bit_operations_syntax

text \<open>
  The user-based security model, \<^verbatim>\<open>snmplib/snmpusm.c\<close>: an incoming message from its security parameters to
  the plaintext of the scoped PDU, the time window, and the salts of outgoing messages. OpenSSL and the files that
  wrap it (\<^verbatim>\<open>snmplib/scapi.c\<close>: \<open>sc_generate_keyed_hash\<close>, \<open>sc_decrypt\<close>, \<open>sc_hash\<close>) are parameters, as
  are the local engine's ID, boots and time; they are the fields of \<open>usm_env\<close>. The tables of algorithms and the
  check of a digest are modelled, for the protocols of the default configuration (all digests, DES and AES). A
  pointer into the message is the list of the bytes from there to its end. Memory allocation succeeds; the log
  and debug messages are left out.
\<close>

section \<open>The environment\<close>

record usm_env =
  ue_hash :: digest                                             \<comment> \<open>\<open>sc_hash\<close>\<close>
  ue_keyed_hash :: "oid \<Rightarrow> bytes \<Rightarrow> bytes \<Rightarrow> int \<times> bytes"        \<comment> \<open>\<open>sc_generate_keyed_hash\<close>\<close>
  ue_decrypt :: "oid \<Rightarrow> bytes option \<Rightarrow> bytes \<Rightarrow> bytes \<Rightarrow> nat \<Rightarrow> int \<times> bytes"   \<comment> \<open>\<open>sc_decrypt\<close>\<close>
  ue_engineID :: bytes                                          \<comment> \<open>\<open>snmpv3_get_engineID\<close>\<close>
  ue_boots :: u_int                                             \<comment> \<open>\<open>snmpv3_local_snmpEngineBoots\<close>\<close>
  ue_time :: u_long                                             \<comment> \<open>\<open>snmpv3_local_snmpEngineTime\<close>\<close>
  ue_iv :: bytes                                                \<comment> \<open>the uninitialised array \<open>iv\<close>\<close>

abbreviation (input) SNMPERR_SC_GENERAL_FAILURE :: int where "SNMPERR_SC_GENERAL_FAILURE \<equiv> - 38"
abbreviation (input) SNMPERR_USM_GENERICERROR :: int where "SNMPERR_USM_GENERICERROR \<equiv> - 42"
abbreviation (input) SNMPERR_USM_UNSUPPORTEDSECURITYLEVEL :: int where "SNMPERR_USM_UNSUPPORTEDSECURITYLEVEL \<equiv> - 44"
abbreviation (input) SNMPERR_USM_AUTHENTICATIONFAILURE :: int where "SNMPERR_USM_AUTHENTICATIONFAILURE \<equiv> - 46"
abbreviation (input) SNMPERR_USM_PARSEERROR :: int where "SNMPERR_USM_PARSEERROR \<equiv> - 47"
abbreviation (input) SNMPERR_USM_UNKNOWNENGINEID :: int where "SNMPERR_USM_UNKNOWNENGINEID \<equiv> - 48"
abbreviation (input) SNMPERR_USM_NOTINTIMEWINDOW :: int where "SNMPERR_USM_NOTINTIMEWINDOW \<equiv> - 49"
abbreviation (input) SNMPERR_USM_DECRYPTIONERROR :: int where "SNMPERR_USM_DECRYPTIONERROR \<equiv> - 50"
abbreviation (input) SNMP_SEC_LEVEL_NOAUTH :: int where "SNMP_SEC_LEVEL_NOAUTH \<equiv> 1"
abbreviation (input) SNMP_SEC_LEVEL_AUTHNOPRIV :: int where "SNMP_SEC_LEVEL_AUTHNOPRIV \<equiv> 2"
abbreviation (input) SNMP_SEC_LEVEL_AUTHPRIV :: int where "SNMP_SEC_LEVEL_AUTHPRIV \<equiv> 3"
abbreviation (input) SNMP_SESS_AUTHORITATIVE :: int where "SNMP_SESS_AUTHORITATIVE \<equiv> 1"
abbreviation (input) SNMP_SESS_UNKNOWNAUTH :: int where "SNMP_SESS_UNKNOWNAUTH \<equiv> 2"
abbreviation (input) USM_TIME_WINDOW :: u_int where "USM_TIME_WINDOW \<equiv> 150"
abbreviation (input) USM_MAX_ID_LENGTH :: nat where "USM_MAX_ID_LENGTH \<equiv> 1024"
abbreviation (input) USM_MAX_AUTHSIZE :: nat where "USM_MAX_AUTHSIZE \<equiv> 48"
abbreviation (input) USM_CREATE_USER_PRIV_DES :: int where "USM_CREATE_USER_PRIV_DES \<equiv> 1"
abbreviation (input) USM_CREATE_USER_PRIV_AES :: int where "USM_CREATE_USER_PRIV_AES \<equiv> 2"

definition usmNoAuthProtocol :: oid where "usmNoAuthProtocol = [1, 3, 6, 1, 6, 3, 10, 1, 1, 1]"
definition usmNoPrivProtocol :: oid where "usmNoPrivProtocol = [1, 3, 6, 1, 6, 3, 10, 1, 2, 1]"
definition usmDESPrivProtocol :: oid where "usmDESPrivProtocol = [1, 3, 6, 1, 6, 3, 10, 1, 2, 2]"
definition usmAESPrivProtocol :: oid where "usmAESPrivProtocol = [1, 3, 6, 1, 6, 3, 10, 1, 2, 4]"

section \<open>Algorithms\<close>

text \<open>\<open>_auth_alg_info\<close>: type, OID and length of the MAC; \<open>_priv_alg_info\<close>: type and OID.\<close>

definition auth_alg_info :: "(int \<times> oid \<times> nat) list" where
  "auth_alg_info =
     [(1, usmNoAuthProtocol, 0), (3, usmHMACSHA1AuthProtocol, 12), (2, usmHMACMD5AuthProtocol, 12),
      (4, [1, 3, 6, 1, 6, 3, 10, 1, 1, 4], 16), (5, [1, 3, 6, 1, 6, 3, 10, 1, 1, 5], 24),
      (6, [1, 3, 6, 1, 6, 3, 10, 1, 1, 6], 32), (7, [1, 3, 6, 1, 6, 3, 10, 1, 1, 7], 48)]"

definition priv_alg_info :: "(int \<times> oid) list" where
  "priv_alg_info = [(0, usmNoPrivProtocol), (USM_CREATE_USER_PRIV_DES, usmDESPrivProtocol),
     (USM_CREATE_USER_PRIV_AES, usmAESPrivProtocol)]"

definition alg_oid_eq :: "oid \<Rightarrow> oid \<Rightarrow> bool" where
  "alg_oid_eq alg_oid name \<longleftrightarrow> length name = length alg_oid \<and> snmp_oid_compare alg_oid name = 0"

definition sc_get_authtype :: "oid \<Rightarrow> int" where
  "sc_get_authtype hashtype =
     (if hashtype = [] then SNMPERR_GENERR
      else case find (\<lambda>(_, alg_oid, _). alg_oid_eq alg_oid hashtype) auth_alg_info of
        None \<Rightarrow> SNMPERR_GENERR | Some (type, _) \<Rightarrow> type)"

definition sc_get_auth_maclen :: "int \<Rightarrow> nat" where
  "sc_get_auth_maclen hashtype =
     (case find (\<lambda>(type, _). hashtype = type) auth_alg_info of None \<Rightarrow> 0 | Some (_, _, mac_length) \<Rightarrow> mac_length)"

definition sc_get_privtype :: "oid \<Rightarrow> int" where
  "sc_get_privtype privtype =
     (if privtype = [] then SNMPERR_GENERR
      else case find (\<lambda>(_, alg_oid). alg_oid_eq alg_oid privtype) priv_alg_info of
        None \<Rightarrow> SNMPERR_GENERR | Some (type, _) \<Rightarrow> type)"

text \<open>The digest has at least as many bytes as the MAC of its algorithm.\<close>

definition sc_check_keyed_hash :: "usm_env \<Rightarrow> oid \<Rightarrow> bytes option \<Rightarrow> bytes \<Rightarrow> bytes \<Rightarrow> int" where
  "sc_check_keyed_hash env authtypeOID key message MAC =
     (case key of
        None \<Rightarrow> SNMPERR_SC_GENERAL_FAILURE
      | Some k \<Rightarrow>
          if length k = 0 \<or> length message = 0 \<or> length MAC = 0 then SNMPERR_SC_GENERAL_FAILURE
          else let auth_type = sc_get_authtype authtypeOID in
            if auth_type < 0 then SNMPERR_GENERR
            else let auth_size = sc_get_auth_maclen auth_type in
              if auth_size = 0 \<or> length MAC \<noteq> auth_size then SNMPERR_SC_GENERAL_FAILURE
              else let (rval, buf) = ue_keyed_hash env authtypeOID k message in
                if rval \<noteq> SNMPERR_SUCCESS then SNMPERR_SC_GENERAL_FAILURE
                else if length MAC > length message then SNMPERR_SC_GENERAL_FAILURE
                else if bytes_cmp (take (length MAC) buf) MAC \<noteq> 0 then SNMPERR_SC_GENERAL_FAILURE
                else rval)"

section \<open>The security parameters\<close>

record usm_params =
  up_engineID :: bytes
  up_boots :: u_int
  up_time :: u_int
  up_name :: bytes
  up_signature :: bytes
  up_salt :: bytes
  up_data :: bytes         \<comment> \<open>\<open>*data_ptr\<close>\<close>
  up_msg :: bytes          \<comment> \<open>the whole message, its signature blanked\<close>

text \<open>An error return of a BER decoder becomes the given error code.\<close>

definition or_error :: "int \<Rightarrow> 'a cres \<Rightarrow> ('a \<Rightarrow> (int + 'b) cres) \<Rightarrow> (int + 'b) cres" where
  "or_error err r f = (case r of Overrun \<Rightarrow> Overrun | Null \<Rightarrow> Ret (Inl err) | Ret x \<Rightarrow> f x)"

text \<open>\<open>memset(next_ptr - n, 0, n)\<close>, where \<open>next_ptr\<close> is the rest \<open>p\<close> of the message.\<close>

definition blank_before :: "bytes \<Rightarrow> bytes \<Rightarrow> nat \<Rightarrow> bytes" where
  "blank_before wholeMsg p n =
     (let i = length wholeMsg - length p in take (i - n) wholeMsg @ replicate n 0 @ drop i wholeMsg)"

text \<open>\<open>secoff\<close> is the offset of \<open>secParams\<close> in the message; the capacities are those of the caller's buffers.\<close>

definition usm_parse_security_parameters ::
    "bytes \<Rightarrow> nat \<Rightarrow> nat \<Rightarrow> nat \<Rightarrow> nat \<Rightarrow> nat \<Rightarrow> nat \<Rightarrow> (int + usm_params) cres" where
  "usm_parse_security_parameters wholeMsg secoff remaining secEngineIDLen secNameLen signature_length salt_length =
     or_error (-1) (asn_parse_sequence (drop secoff wholeMsg) remaining ASN_OCTET_STR) (\<lambda>(p, octet_string_length, _).
     or_error (-1) (asn_parse_sequence p octet_string_length ASN_SEQUENCE_CON) (\<lambda>(p, remaining_bytes, _).
     or_error (-1) (asn_parse_string p remaining_bytes secEngineIDLen) (\<lambda>(p, remaining_bytes, t, secEngineID).
     if t \<noteq> ASN_OCTET_STR then Ret (Inl (-1)) else
     or_error (-1) (asn_parse_int p remaining_bytes 8) (\<lambda>(p, remaining_bytes, t, boots_long).
     if t \<noteq> ASN_INTEGER then Ret (Inl (-1)) else
     let boots_uint = word_of_int boots_long in
     or_error (-1) (asn_parse_int p remaining_bytes 8) (\<lambda>(p, remaining_bytes, t, time_long).
     if t \<noteq> ASN_INTEGER then Ret (Inl (-1)) else
     let time_uint = word_of_int time_long in
     if boots_uint > ENGINEBOOT_MAX \<or> time_uint > ENGINETIME_MAX then Ret (Inl (-1)) else
     or_error (-1) (asn_parse_string p remaining_bytes secNameLen) (\<lambda>(p, remaining_bytes, t, secName).
     if secNameLen < length secName + 1 then Ret (Inl (-1))
     else if length secName > 32 then Ret (Inl (-1))
     else if t \<noteq> ASN_OCTET_STR then Ret (Inl (-1)) else
     or_error (-1) (asn_parse_string p remaining_bytes signature_length) (\<lambda>(p, remaining_bytes, t, signature).
     if t \<noteq> ASN_OCTET_STR then Ret (Inl (-1)) else
     let msg = (if length signature \<noteq> 0 then blank_before wholeMsg p (length signature) else wholeMsg) in
     or_error (-2) (asn_parse_string p remaining_bytes salt_length) (\<lambda>(p, remaining_bytes, t, salt).
     if t \<noteq> ASN_OCTET_STR then Ret (Inl (-2))
     else Ret (Inr \<lparr>up_engineID = secEngineID, up_boots = boots_uint, up_time = time_uint, up_name = secName,
       up_signature = signature, up_salt = salt, up_data = p, up_msg = msg\<rparr>)))))))))"

section \<open>The time window\<close>

text \<open>The statistics a message may increment.\<close>

datatype usm_stat = STAT_SNMPINASNPARSEERRS | STAT_USMSTATSDECRYPTIONERRORS | STAT_USMSTATSUNKNOWNENGINEIDS
  | STAT_USMSTATSUNKNOWNUSERNAMES | STAT_USMSTATSUNSUPPORTEDSECLEVELS | STAT_USMSTATSWRONGDIGESTS
  | STAT_USMSTATSNOTINTIMEWINDOWS

text \<open>The result is the return code, \<open>*error\<close>, the statistics incremented and the table of engine times.\<close>

definition usm_check_and_update_timeliness ::
    "usm_env \<Rightarrow> bytes \<Rightarrow> u_int \<Rightarrow> u_int \<Rightarrow> etimelist \<Rightarrow> int \<times> int \<times> usm_stat list \<times> etimelist" where
  "usm_check_and_update_timeliness env secEngineID boots_uint time_uint etimelist =
     (let myID = ue_engineID env;
          myIDLength = (if USM_MAX_ID_LENGTH < length myID then 0 else length myID);
          myBoots = ue_boots env; myTime = ucast (ue_time env) :: u_int in
      if myIDLength > USM_MAX_ID_LENGTH \<or> myIDLength = 0 then (-1, SNMPERR_USM_GENERICERROR, [], etimelist)
      else if length secEngineID = myIDLength \<and> bytes_cmp secEngineID myID = 0 then
        let time_difference = (if myTime > time_uint then myTime - time_uint else time_uint - myTime) in
        if boots_uint = ENGINEBOOT_MAX \<or> boots_uint \<noteq> myBoots \<or> time_difference > USM_TIME_WINDOW
        then (-1, SNMPERR_USM_NOTINTIMEWINDOW, [STAT_USMSTATSNOTINTIMEWINDOWS], etimelist)
        else (0, SNMPERR_SUCCESS, [], etimelist)
      else
        let (rc, theirBoots, theirTime, theirLastTime) =
              get_enginetime_ex (ue_hash env) (ue_time env) etimelist secEngineID True in
        if rc \<noteq> SNMPERR_SUCCESS then (-1, SNMPERR_USM_GENERICERROR, [], etimelist)
        else
          let time_difference = (if theirTime > time_uint then theirTime - time_uint else time_uint - theirTime) in
          if theirBoots = ENGINEBOOT_MAX \<or> theirBoots > boots_uint then (-1, SNMPERR_USM_NOTINTIMEWINDOW, [], etimelist)
          else if theirBoots = boots_uint \<and> time_uint < theirLastTime then
            (if time_difference > USM_TIME_WINDOW then (-1, SNMPERR_USM_NOTINTIMEWINDOW, [], etimelist)
             else (0, SNMPERR_SUCCESS, [], etimelist))
          else
            let (rc, etimelist') =
                  set_enginetime (ue_hash env) (ue_time env) secEngineID boots_uint time_uint True etimelist in
            if rc \<noteq> SNMPERR_SUCCESS then (-1, SNMPERR_USM_GENERICERROR, [], etimelist')
            else (0, SNMPERR_SUCCESS, [], etimelist'))"

section \<open>Security levels\<close>

definition usm_check_secLevel :: "int \<Rightarrow> usmUser \<Rightarrow> int" where
  "usm_check_secLevel level user =
     (if us_userStatus user \<noteq> RS_ACTIVE then -1
      else if level = SNMP_SEC_LEVEL_AUTHPRIV \<and> netsnmp_oid_equals (us_privProtocol user) usmNoPrivProtocol = 0 then 1
      else if (level = SNMP_SEC_LEVEL_AUTHPRIV \<or> level = SNMP_SEC_LEVEL_AUTHNOPRIV)
           \<and> netsnmp_oid_equals (us_authProtocol user) usmNoAuthProtocol = 0 then 1
      else 0)"

definition usm_check_secLevel_vs_protocols :: "int \<Rightarrow> oid \<Rightarrow> oid \<Rightarrow> int" where
  "usm_check_secLevel_vs_protocols level authProtocol privProtocol =
     (if level = SNMP_SEC_LEVEL_AUTHPRIV \<and> netsnmp_oid_equals privProtocol usmNoPrivProtocol = 0 then 1
      else if (level = SNMP_SEC_LEVEL_AUTHPRIV \<or> level = SNMP_SEC_LEVEL_AUTHNOPRIV)
           \<and> netsnmp_oid_equals authProtocol usmNoAuthProtocol = 0 then 1
      else 0)"

section \<open>Incoming messages\<close>

text \<open>What is kept for the response.\<close>

record usmStateReference =
  usr_name :: bytes
  usr_engine_id :: bytes
  usr_sec_level :: int
  usr_auth_protocol :: oid
  usr_auth_key :: "bytes option"
  usr_priv_protocol :: oid
  usr_priv_key :: "bytes option"

record usm_session =
  ss_isAuthoritative :: int
  ss_sessUser :: "usmUser option"

text \<open>
  The result: the error code, the statistics incremented, the table of engine times, and on success the parameters,
  the plaintext of the scoped PDU, \<open>*maxSizeResponse\<close> (\<open>None\<close> when it is computed from the null pointer
  \<open>end_of_overhead\<close>) and the state reference, which is \<open>NULL\<close> after an error.
\<close>

record usm_in =
  ui_error :: int
  ui_stats :: "usm_stat list"
  ui_times :: etimelist
  ui_params :: "usm_params option"
  ui_scopedPdu :: bytes
  ui_maxSizeResponse :: "nat option"
  ui_secStateRef :: "usmStateReference option"

definition usm_in_error :: "int \<Rightarrow> usm_stat list \<Rightarrow> etimelist \<Rightarrow> usm_in" where
  "usm_in_error err stats etl =
     \<lparr>ui_error = err, ui_stats = stats, ui_times = etl, ui_params = None, ui_scopedPdu = [],
      ui_maxSizeResponse = None, ui_secStateRef = None\<rparr>"

text \<open>\<open>SNMP_MSG_FLAG_RPRT_BIT\<close> is the flag \<open>reportable\<close>.\<close>

definition usm_authoritative_for :: "usm_session option \<Rightarrow> bool \<Rightarrow> bool" where
  "usm_authoritative_for sess reportable =
     (case sess of
        Some s \<Rightarrow> ss_isAuthoritative s = SNMP_SESS_AUTHORITATIVE
          \<or> ss_isAuthoritative s = SNMP_SESS_UNKNOWNAUTH \<and> reportable
      | None \<Rightarrow> reportable)"

definition usm_in_user :: "usm_session option \<Rightarrow> usm_params \<Rightarrow> usmUser list \<Rightarrow> usmUser option \<Rightarrow> usmUser option" where
  "usm_in_user sess sp userList noNameUser =
     (case (case sess of Some s \<Rightarrow> ss_sessUser s | None \<Rightarrow> None) of
        Some user \<Rightarrow> Some user
      | None \<Rightarrow> usm_get_user_from_list (Some (up_engineID sp)) (up_name sp) userList noNameUser
               (\<not> (case sess of Some s \<Rightarrow> ss_isAuthoritative s = SNMP_SESS_AUTHORITATIVE | None \<Rightarrow> True)))"

definition be32 :: "u_int \<Rightarrow> bytes" where \<comment> \<open>an \<open>int\<close> in network byte order\<close>
  "be32 x = [ucast (drop_bit 24 x), ucast (drop_bit 16 x), ucast (drop_bit 8 x), ucast x]"

text \<open>
  The initialisation vector of the decryption. \<open>priv_type & USM_PRIV_MASK_ALG\<close> is the type itself for the types of
  the table; the key of a DES user with fewer than 16 bytes is read outside.
\<close>

definition usm_in_iv :: "usm_env \<Rightarrow> usm_params \<Rightarrow> usmUser \<Rightarrow> bytes cres" where
  "usm_in_iv env sp user =
     (let priv_type = sc_get_privtype (us_privProtocol user) in
      if priv_type = USM_CREATE_USER_PRIV_DES then
        (case us_privKey user of
           None \<Rightarrow> Null
         | Some key \<Rightarrow> if length key < 16 then Overrun else Ret (map2 (XOR) (take 8 (up_salt sp)) (take 8 (drop 8 key))))
      else if priv_type = USM_CREATE_USER_PRIV_AES then Ret (be32 (up_boots sp) @ be32 (up_time sp) @ up_salt sp)
      else Ret (ue_iv env))"

text \<open>The part for encrypted PDUs; \<open>Null\<close> is the error the pair names.\<close>

definition usm_in_decrypt ::
    "usm_env \<Rightarrow> usm_params \<Rightarrow> usmUser \<Rightarrow> nat \<Rightarrow> (int \<times> usm_stat list + bytes \<times> nat option) cres" where
  "usm_in_decrypt env sp user scopedPduLen =
     (let data = up_data sp; wholeMsgLen = length (up_msg sp);
          des = (sc_get_privtype (us_privProtocol user) = USM_CREATE_USER_PRIV_DES) in
      case asn_parse_sequence data (length data) ASN_OCTET_STR of
        Overrun \<Rightarrow> Overrun
      | Null \<Rightarrow> Ret (Inl (SNMPERR_USM_PARSEERROR, [STAT_SNMPINASNPARSEERRS]))
      | Ret (value_ptr, remaining, _) \<Rightarrow>
          if des \<and> remaining mod 8 \<noteq> 0 then Ret (Inl (SNMPERR_USM_DECRYPTIONERROR, [STAT_USMSTATSDECRYPTIONERRORS]))
          else (case usm_in_iv env sp user of
            Overrun \<Rightarrow> Overrun
          | Null \<Rightarrow> Ret (Inl (SNMPERR_USM_DECRYPTIONERROR, [STAT_USMSTATSDECRYPTIONERRORS]))
          | Ret iv \<Rightarrow>
              let (rc, plain) = ue_decrypt env (us_privProtocol user) (us_privKey user) iv (take remaining value_ptr) scopedPduLen in
              if rc \<noteq> 0 then Ret (Inl (SNMPERR_USM_DECRYPTIONERROR, [STAT_USMSTATSDECRYPTIONERRORS]))
              else Ret (Inr (plain, if des then Some (wholeMsgLen - length value_ptr) else None))))"

text \<open>The steps from the user on: level, digest, state reference, time window, decryption.\<close>

definition usm_in_checked ::
    "usm_env \<Rightarrow> usm_params \<Rightarrow> int \<Rightarrow> nat \<Rightarrow> nat \<Rightarrow> etimelist \<Rightarrow> usmUser \<Rightarrow> usm_in cres" where
  "usm_in_checked env sp secLevel maxMsgSize scopedPduLen etl user =
     (let auth = (secLevel = SNMP_SEC_LEVEL_AUTHNOPRIV \<or> secLevel = SNMP_SEC_LEVEL_AUTHPRIV);
          rc = usm_check_secLevel secLevel user in
      if us_userStatus user \<noteq> RS_ACTIVE then Ret (usm_in_error SNMPERR_USM_UNKNOWNSECURITYNAME [] etl)
      else if rc = 1 then Ret (usm_in_error SNMPERR_USM_UNSUPPORTEDSECURITYLEVEL [STAT_USMSTATSUNSUPPORTEDSECLEVELS] etl)
      else if rc \<noteq> 0 then Ret (usm_in_error SNMPERR_USM_GENERICERROR [] etl)
      else if auth \<and> sc_check_keyed_hash env (us_authProtocol user) (us_authKey user) (up_msg sp) (up_signature sp) \<noteq> 0
      then Ret (usm_in_error SNMPERR_USM_AUTHENTICATIONFAILURE [STAT_USMSTATSWRONGDIGESTS] etl)
      else
        let ref = \<lparr>usr_name = up_name sp, usr_engine_id = up_engineID sp, usr_sec_level = secLevel,
              usr_auth_protocol = us_authProtocol user, usr_auth_key = us_authKey user,
              usr_priv_protocol = us_privProtocol user, usr_priv_key = us_privKey user\<rparr>;
            (rc, err, stats, etl) =
              (if auth then usm_check_and_update_timeliness env (up_engineID sp) (up_boots sp) (up_time sp) etl
               else (0, SNMPERR_SUCCESS, [],
                 snd (set_enginetime (ue_hash env) (ue_time env) (up_engineID sp) (up_boots sp) (up_time sp) False etl)));
            done = (\<lambda>scopedPdu overhead. \<lparr>ui_error = SNMPERR_SUCCESS, ui_stats = [], ui_times = etl,
              ui_params = Some sp, ui_scopedPdu = scopedPdu,
              ui_maxSizeResponse = map_option (\<lambda>n. size_sub maxMsgSize (int n)) overhead, ui_secStateRef = Some ref\<rparr>) in
        if rc = -1 then Ret (usm_in_error err stats etl)
        else if secLevel = SNMP_SEC_LEVEL_AUTHPRIV then
          (case usm_in_decrypt env sp user scopedPduLen of
             Overrun \<Rightarrow> Overrun
           | Null \<Rightarrow> Null
           | Ret (Inl (err, stats)) \<Rightarrow> Ret (usm_in_error err stats etl)
           | Ret (Inr (plain, overhead)) \<Rightarrow> Ret (done plain overhead))
        else Ret (done (up_data sp) (Some (length (up_msg sp) - length (up_data sp)))))"

definition usm_process_in_msg ::
    "usm_env \<Rightarrow> usm_session option \<Rightarrow> usmUser list \<Rightarrow> usmUser option \<Rightarrow> nat \<Rightarrow> bytes \<Rightarrow> nat \<Rightarrow> int \<Rightarrow> bool
     \<Rightarrow> nat \<Rightarrow> nat \<Rightarrow> nat \<Rightarrow> etimelist \<Rightarrow> usm_in cres" where
  "usm_process_in_msg env sess userList noNameUser maxMsgSize wholeMsg secoff secLevel reportable
       secEngineIDLen secNameLen scopedPduLen etl =
     (let remaining = size_sub (length wholeMsg) (int secoff) in
      case usm_parse_security_parameters wholeMsg secoff remaining secEngineIDLen secNameLen USM_MAX_AUTHSIZE 16 of
        Overrun \<Rightarrow> Overrun
      | Null \<Rightarrow> Null
      | Ret (Inl rc) \<Rightarrow>
          Ret (if rc = -2 then usm_in_error SNMPERR_USM_DECRYPTIONERROR [STAT_USMSTATSDECRYPTIONERRORS] etl
               else usm_in_error SNMPERR_USM_PARSEERROR [STAT_SNMPINASNPARSEERRS] etl)
      | Ret (Inr sp) \<Rightarrow>
          if secLevel = SNMP_SEC_LEVEL_AUTHPRIV \<and> length (up_salt sp) \<noteq> 8
          then Ret (usm_in_error SNMPERR_USM_DECRYPTIONERROR [STAT_USMSTATSDECRYPTIONERRORS] etl)
          else
            let known = ISENGINEKNOWN (ue_hash env) (ue_time env) etl (up_engineID sp);
                authoritative = usm_authoritative_for sess reportable;
                (rc, etl) =
                  (if authoritative then (SNMPERR_SUCCESS, etl)
                   else ENSURE_ENGINE_RECORD (ue_hash env) (ue_time env) (up_engineID sp) etl) in
            if authoritative \<and> \<not> known
            then Ret (usm_in_error SNMPERR_USM_UNKNOWNENGINEID [STAT_USMSTATSUNKNOWNENGINEIDS] etl)
            else if rc \<noteq> SNMPERR_SUCCESS then Ret (usm_in_error SNMPERR_USM_GENERICERROR [] etl)
            else (case usm_in_user sess sp userList noNameUser of
              None \<Rightarrow> Ret (usm_in_error SNMPERR_USM_UNKNOWNSECURITYNAME [STAT_USMSTATSUNKNOWNUSERNAMES] etl)
            | Some user \<Rightarrow> usm_in_checked env sp secLevel maxMsgSize scopedPduLen etl user))"

section \<open>Outgoing salts\<close>

text \<open>
  \<open>salt_integer\<close> and the two halves of the AES counter are static variables. The result of a salt function is
  \<open>iv\<close>, the salt sent along, and the new counter; \<open>None\<close> is the return value -1.
\<close>

definition usm_set_salt :: "u_int \<Rightarrow> nat \<Rightarrow> bytes \<Rightarrow> u_int \<Rightarrow> (bytes \<times> bytes \<times> u_int) option" where
  "usm_set_salt boots iv_length priv_salt salt_integer =
     (let propersize_salt = 8 in
      if iv_length \<noteq> propersize_salt \<or> length priv_salt < propersize_salt then None
      else let msgSalt = be32 boots @ be32 salt_integer in
        Some (map2 (XOR) msgSalt (take propersize_salt priv_salt), msgSalt, salt_integer + 1))"

definition usm_set_aes_iv :: "u_int \<Rightarrow> u_int \<Rightarrow> u_int \<times> u_int \<Rightarrow> bytes \<times> bytes \<times> u_int \<times> u_int" where
  "usm_set_aes_iv boots time salt64 =
     (let (salt_integer64_1, salt_integer64_2) = salt64;
          salt = be32 salt_integer64_1 @ be32 salt_integer64_2;
          s = salt_integer64_2 + 1;
          s = (if s = 0 then s + 1 else s) in
      (be32 boots @ be32 time @ salt, salt, salt_integer64_1, s))"

section \<open>The size of an outgoing message\<close>

text \<open>\<open>asn_predict_int_length\<close> on a \<open>long\<close>, as a word.\<close>

fun predict_int_loop :: "nat \<Rightarrow> u_long \<Rightarrow> nat" where
  "predict_int_loop len number =
     (if (number AND 0xFF80000000000000 = 0 \<or> number AND 0xFF80000000000000 = 0xFF80000000000000) \<and> len > 1
      then predict_int_loop (len - 1) (push_bit 8 number) else len)"

declare predict_int_loop.simps [simp del]

definition asn_predict_int_length :: "u_long \<Rightarrow> nat" where
  "asn_predict_int_length number = predict_int_loop 8 number"

text \<open>
  The length of an object of a type, a value (for integers) and a contents length. The lengths stay below
  \<open>2 ^ 31\<close>, so that the overflow checks never fail and \<open>int\<close> holds them.
\<close>

definition asn_predict_length :: "u_char \<Rightarrow> u_long \<Rightarrow> nat \<Rightarrow> nat" where
  "asn_predict_length type number u_char_len =
     (if type AND 0x10 \<noteq> 0 then 1 + 3 + u_char_len
      else let u_char_len = (if type AND ASN_INTEGER \<noteq> 0 then asn_predict_int_length number else u_char_len) in
        if u_char_len < 0x80 then 1 + 1 + u_char_len
        else if u_char_len < 0xFF then 1 + 2 + u_char_len
        else 1 + 3 + u_char_len)"

record usm_offsets =
  uo_theTotalLength :: nat
  uo_authParamsOffset :: nat
  uo_privParamsOffset :: nat
  uo_dataOffset :: nat
  uo_datalen :: nat
  uo_msgAuthParmLen :: nat
  uo_msgPrivParmLen :: nat
  uo_otstlen :: nat
  uo_seq_len :: nat
  uo_msgSecParmLen :: nat

definition usm_calc_offsets :: "nat \<Rightarrow> int \<Rightarrow> nat \<Rightarrow> nat \<Rightarrow> nat \<Rightarrow> u_long \<Rightarrow> u_long \<Rightarrow> usm_offsets" where
  "usm_calc_offsets globalDataLen secLevel secEngineIDLen secNameLen scopedPduLen engineboots engine_time =
     (let msgAuthParmLen = (if secLevel = SNMP_SEC_LEVEL_AUTHNOPRIV \<or> secLevel = SNMP_SEC_LEVEL_AUTHPRIV then 12 else 0);
          msgPrivParmLen = (if secLevel = SNMP_SEC_LEVEL_AUTHPRIV then 8 else 0);
          engIDlen = asn_predict_length ASN_OCTET_STR 0 secEngineIDLen;
          engBtlen = asn_predict_length ASN_INTEGER engineboots 8;
          engTmlen = asn_predict_length ASN_INTEGER engine_time 8;
          namelen = asn_predict_length ASN_OCTET_STR 0 secNameLen;
          authlen = asn_predict_length ASN_OCTET_STR 0 msgAuthParmLen;
          privlen = asn_predict_length ASN_OCTET_STR 0 msgPrivParmLen;
          seq_len = engIDlen + engBtlen + engTmlen + namelen + authlen + privlen;
          otstlen = asn_predict_length ASN_SEQUENCE_CON 0 seq_len;
          msgSecParmLen = asn_predict_length ASN_OCTET_STR 0 otstlen;
          authParamsOffset = globalDataLen + (msgSecParmLen - seq_len) + engIDlen + engBtlen + engTmlen + namelen
            + (authlen - msgAuthParmLen);
          privParamsOffset = authParamsOffset + msgAuthParmLen + (privlen - msgPrivParmLen);
          scopedPduLen = (if secLevel = SNMP_SEC_LEVEL_AUTHPRIV then (scopedPduLen + 7) div 8 * 8 else scopedPduLen);
          datalen = (if secLevel = SNMP_SEC_LEVEL_AUTHPRIV then asn_predict_length ASN_OCTET_STR 0 scopedPduLen
            else scopedPduLen) in
      \<lparr>uo_theTotalLength = globalDataLen + msgSecParmLen + datalen, uo_authParamsOffset = authParamsOffset,
       uo_privParamsOffset = privParamsOffset, uo_dataOffset = globalDataLen + msgSecParmLen + (datalen - scopedPduLen),
       uo_datalen = datalen, uo_msgAuthParmLen = msgAuthParmLen, uo_msgPrivParmLen = msgPrivParmLen,
       uo_otstlen = otstlen, uo_seq_len = seq_len, uo_msgSecParmLen = msgSecParmLen\<rparr>)"

end
