(* ===== verification/UsmSpec.thy ===== *)
theory UsmSpec
  imports Usm
begin

text \<open>
  What the user-based security model guarantees: the security parameters are read within the message, an accepted
  message is authentic and timely, the known times of other engines never go back, and which salts repeat.
\<close>

section \<open>The security parameters\<close>

text \<open>A string that was parsed lies in front of the returned position.\<close>

lemma asn_parse_string_split:
  assumes "asn_parse_string data dl cap = Ret (rest, dl', t, str)" "dl \<le> length data"
  shows "length str \<le> cap \<and> (\<exists>h \<le> length data. drop h data = str @ rest)"
proof -
  obtain bufp n t' hdr where o: "asn_open (\<lambda>t. t = ASN_OCTET_STR \<or> t = ASN_IPADDRESS \<or> t = ASN_OPAQUE \<or> t = ASN_NSAP) data dl
      = Ret (bufp, n, t', hdr)" and n: "n \<le> cap" "n \<le> length bufp" "str = take n bufp" "rest = drop n bufp"
    using assms by (auto simp: asn_parse_string_def cbind_eq_Ret asn_copy_def split: if_splits)
  have "bufp = drop hdr data" "hdr \<le> length data" using asn_open_Ret [OF o assms(2)] assms(2) by auto
  moreover have "bufp = str @ rest" unfolding n by (rule append_take_drop_id [symmetric])
  ultimately have "drop hdr data = str @ rest" by simp
  then show ?thesis using n(1,3) \<open>hdr \<le> length data\<close> by auto
qed

text \<open>A position in the message with a length that fits.\<close>

definition at :: "bytes \<Rightarrow> bytes \<Rightarrow> nat \<Rightarrow> bool" where
  "at msg p dl \<longleftrightarrow> length msg < 2 ^ 31 \<and> (\<exists>n. p = drop n msg \<and> n + dl \<le> length msg)"

lemma at_le: "at msg p dl \<Longrightarrow> dl \<le> length p \<and> dl < 2 ^ 31"
  by (auto simp: at_def)

lemma at_drop:
  assumes "at msg p dl" "k + dl' \<le> dl"
  shows "at msg (drop k p) dl'"
proof -
  obtain n where "p = drop n msg" "n + dl \<le> length msg" "length msg < 2 ^ 31" using assms(1) by (auto simp: at_def)
  then have "drop k p = drop (n + k) msg \<and> n + k + dl' \<le> length msg \<and> length msg < 2 ^ 31"
    using assms(2) by (simp add: add.commute)
  then show ?thesis unfolding at_def by blast
qed

lemma or_error_value:
  assumes "parse_ok p dl r" "at msg p dl" "Q (Ret (Inl e))"
    "\<And>p' dl' x. r = Ret (p', dl', x) \<Longrightarrow> at msg p' dl' \<Longrightarrow> Q (f (p', dl', x))"
  shows "Q (or_error e r f)"
proof (cases r)
  case (Ret y)
  obtain p' dl' x where y: "y = (p', dl', x)" by (cases y) auto
  then have "consumes p dl p' dl'" using assms(1) Ret at_le [OF assms(2)] by simp
  then have "at msg p' dl'" using at_drop [OF assms(2)] by (auto simp: consumes_def)
  then show ?thesis using assms(4) Ret y by (simp add: or_error_def)
qed (use assms in \<open>auto simp: or_error_def\<close>)

lemma or_error_header:
  assumes "header_ok p dl r" "at msg p dl" "Q (Ret (Inl e))"
    "\<And>p' dl' t. r = Ret (p', dl', t) \<Longrightarrow> at msg p' dl' \<Longrightarrow> Q (f (p', dl', t))"
  shows "Q (or_error e r f)"
proof (cases r)
  case (Ret y)
  obtain p' dl' x where y: "y = (p', dl', x)" by (cases y) auto
  then have "at msg p' dl'" using assms(1) Ret at_drop [OF assms(2)] at_le [OF assms(2)] by (auto simp: header_ok_def)
  then show ?thesis using assms(4) Ret y by (simp add: or_error_def)
qed (use assms in \<open>auto simp: or_error_def header_ok_def\<close>)

text \<open>
  The parameters are within their bounds, the data follow the signature, and the blanked message is the message
  with zeros in the place of the signature.
\<close>

definition blanked :: "bytes \<Rightarrow> bytes \<Rightarrow> bytes \<Rightarrow> bool" where
  "blanked msg sig msg' \<longleftrightarrow>
     (\<exists>i. i + length sig \<le> length msg \<and> take (length sig) (drop i msg) = sig
        \<and> msg' = take i msg @ replicate (length sig) 0 @ drop (i + length sig) msg)"

definition usm_params_ok :: "bytes \<Rightarrow> nat \<Rightarrow> nat \<Rightarrow> nat \<Rightarrow> nat \<Rightarrow> usm_params \<Rightarrow> bool" where
  "usm_params_ok msg engcap namecap sigcap saltcap sp \<longleftrightarrow>
     length (up_engineID sp) \<le> engcap \<and> length (up_name sp) < namecap \<and> length (up_name sp) \<le> 32
     \<and> length (up_signature sp) \<le> sigcap \<and> length (up_salt sp) \<le> saltcap
     \<and> up_boots sp \<le> ENGINEBOOT_MAX \<and> up_time sp \<le> ENGINETIME_MAX
     \<and> (\<exists>k \<le> length msg. up_data sp = drop k msg) \<and> blanked msg (up_signature sp) (up_msg sp)"

lemma blank_before_blanked:
  assumes "at msg p dl" "asn_parse_string p dl cap = Ret (p', dl', t, sig)"
  shows "blanked msg sig (if length sig \<noteq> 0 then blank_before msg p' (length sig) else msg)"
proof -
  obtain n where n: "p = drop n msg" "n + dl \<le> length msg" using assms(1) by (auto simp: at_def)
  obtain h where h: "h \<le> length p" "drop h p = sig @ p'"
    using asn_parse_string_split [OF assms(2)] at_le [OF assms(1)] by auto
  define i where "i = n + h"
  have i: "drop i msg = sig @ p'" "i \<le> length msg" using n h by (simp_all add: i_def add.commute)
  then have l: "length msg = i + length sig + length p'"
    by (metis add.assoc le_add_diff_inverse length_append length_drop)
  have p': "p' = drop (i + length sig) msg" using i by (metis add.commute append_eq_conv_conj drop_drop)
  show ?thesis
  proof (cases "sig = []")
    case True
    then show ?thesis using i by (auto simp: blanked_def)
  next
    case False
    then show ?thesis unfolding blanked_def blank_before_def Let_def
      using l i p' by (intro exI [of _ i]) simp
  qed
qed

definition sec_ok :: "bytes \<Rightarrow> nat \<Rightarrow> nat \<Rightarrow> nat \<Rightarrow> nat \<Rightarrow> (int + usm_params) cres \<Rightarrow> bool" where
  "sec_ok msg engcap namecap sigcap saltcap r =
     (case r of Ret (Inl rc) \<Rightarrow> rc = -1 \<or> rc = -2
      | Ret (Inr sp) \<Rightarrow> usm_params_ok msg engcap namecap sigcap saltcap sp | _ \<Rightarrow> False)"

lemma sec_ok_simps [simp]:
  "sec_ok msg a b c d (Ret (Inl rc)) \<longleftrightarrow> rc = -1 \<or> rc = -2"
  "sec_ok msg a b c d (Ret (Inr sp)) \<longleftrightarrow> usm_params_ok msg a b c d sp"
  by (simp_all add: sec_ok_def)

lemma sec_ok_if: "(\<not> P \<Longrightarrow> sec_ok msg a b c d r) \<Longrightarrow> sec_ok msg a b c d (if P then Ret (Inl (-1)) else r)"
  by simp

lemma or_error_sequence:
  assumes "at msg p dl" "sec_ok msg a b c d (Ret (Inl e))"
    "\<And>p' dl' t. at msg p' dl' \<Longrightarrow> sec_ok msg a b c d (f (p', dl', t))"
  shows "sec_ok msg a b c d (or_error e (asn_parse_sequence p dl ty) f)"
proof (rule or_error_header [where msg = msg and p = p and dl = dl])
  show "header_ok p dl (asn_parse_sequence p dl ty)" using at_le [OF assms(1)] by (intro asn_parse_sequence_ok) auto
qed (use assms in auto)

lemma or_error_int:
  assumes "at msg p dl" "sec_ok msg a b c d (Ret (Inl e))"
    "\<And>p' dl' t x. at msg p' dl' \<Longrightarrow> sec_ok msg a b c d (f (p', dl', t, x))"
  shows "sec_ok msg a b c d (or_error e (asn_parse_int p dl sz) f)"
proof (rule or_error_value [where msg = msg and p = p and dl = dl])
  show "parse_ok p dl (asn_parse_int p dl sz)" using at_le [OF assms(1)] by (intro asn_parse_int_ok) auto
next
  fix p' dl' x
  assume a: "at msg p' dl'"
  show "sec_ok msg a b c d (f (p', dl', x))" using assms(3) [OF a] by (cases x) auto
qed (use assms in auto)

lemma or_error_string:
  assumes "at msg p dl" "sec_ok msg a b c d (Ret (Inl e))"
    "\<And>p' dl' t s. at msg p' dl' \<Longrightarrow> length s \<le> cap \<Longrightarrow>
       blanked msg s (if length s \<noteq> 0 then blank_before msg p' (length s) else msg) \<Longrightarrow> sec_ok msg a b c d (f (p', dl', t, s))"
  shows "sec_ok msg a b c d (or_error e (asn_parse_string p dl cap) f)"
proof (rule or_error_value [where msg = msg and p = p and dl = dl])
  show "parse_ok p dl (asn_parse_string p dl cap)" using at_le [OF assms(1)] by (intro asn_parse_string_ok) auto
next
  fix p' dl' x
  assume r: "asn_parse_string p dl cap = Ret (p', dl', x)" and a: "at msg p' dl'"
  obtain t s where x: "x = (t, s)" by (cases x)
  show "sec_ok msg a b c d (f (p', dl', x))"
    using assms(3) [OF a] asn_parse_string_split [of p dl cap p' dl' t s] at_le [OF assms(1)]
      blank_before_blanked [OF assms(1), of cap p' dl' t s] r x by auto
qed (use assms in auto)

lemma usm_parse_security_parameters_ok:
  assumes "secoff \<le> length msg" "length msg < 2 ^ 31"
  shows "sec_ok msg a b c d (usm_parse_security_parameters msg secoff (length msg - secoff) a b c d)"
proof -
  have start: "at msg (drop secoff msg) (length msg - secoff)" using assms by (auto simp: at_def)
  have data: "\<exists>k \<le> length msg. p = drop k msg" if "at msg p dl" for p dl
    using that unfolding at_def by (metis add_leD1)
  show ?thesis
    unfolding usm_parse_security_parameters_def Let_def
    using start
    apply -
    apply (rule or_error_sequence or_error_int or_error_string, assumption, simp, clarsimp)+
    apply (intro conjI impI; rule or_error_string, assumption, simp, clarsimp simp: usm_params_ok_def)
     apply (simp_all add: not_less)
    apply (auto dest!: data)
    done
qed

section \<open>Digests\<close>

lemma bytes_cmp_eq [simp]: "bytes_cmp a b = 0 \<longleftrightarrow> a = b"
  using bytes_cmp_less by blast

lemma sc_check_keyed_hash_ok:
  assumes "sc_check_keyed_hash env proto key msg mac = 0"
  shows "\<exists>k digest. key = Some k \<and> k \<noteq> [] \<and> ue_keyed_hash env proto k msg = (0, digest)
    \<and> mac = take (length mac) digest \<and> mac \<noteq> [] \<and> length mac = sc_get_auth_maclen (sc_get_authtype proto)"
  using assms by (auto simp: sc_check_keyed_hash_def Let_def split: option.splits if_splits prod.splits)

lemma netsnmp_oid_equals_iff: "netsnmp_oid_equals a b = 0 \<longleftrightarrow> a = b"
  using oid_equals_loop_eq [of a b] by (auto simp: netsnmp_oid_equals_def)

section \<open>Estimated times\<close>

text \<open>
  The estimate without the modular arithmetic: with less than \<open>2 ^ 31\<close> seconds since the last message the time
  runs on, and past its maximum the boots are counted up.
\<close>

lemma sint_u_int:
  assumes "unat (x :: u_int) < 2 ^ 31"
  shows "sint x = int (unat x)"
proof -
  have u: "uint x = int (unat x)" by simp
  have "int (unat x) < 2 ^ 31" using assms by (simp only: of_nat_less_iff [symmetric, where 'a = int]) simp
  then have "uint x < 2 ^ 31" unfolding u .
  moreover have "- (2 ^ 31) \<le> uint x" by (rule order_trans [OF _ uint_ge_0]) simp
  moreover note u
  ultimately have "signed_take_bit 31 (uint x) = uint x" by (intro signed_take_bit_int_eq_self)
  then show ?thesis unfolding sint_uint u [symmetric] by simp
qed

lemma enginetime_estimate_arith:
  assumes "\<not> authenticated \<or> et_authenticated e" "unat (et_engineTime e) < 2 ^ 31"
    and d: "unat (now - et_lastReceived e) < 2 ^ 31"
    and r: "enginetime_estimate now authenticated e = (B, T, L)"
  shows "L = et_engineTime e
    \<and> (if unat (et_engineTime e) + unat (now - et_lastReceived e) < 2 ^ 31
       then B = et_engineBoot e \<and> unat T = unat (et_engineTime e) + unat (now - et_lastReceived e)
       else B = (if et_engineBoot e < ENGINEBOOT_MAX then et_engineBoot e + 1 else et_engineBoot e)
         \<and> unat T = unat (et_engineTime e) + unat (now - et_lastReceived e) - (2 ^ 31 - 1))"
proof -
  let ?t = "et_engineTime e" and ?d = "ucast (now - et_lastReceived e) :: u_int"
  have ud: "unat ?d = unat (now - et_lastReceived e)" using d by (intro unat_ucast_fits) simp
  have m: "unat (ENGINETIME_MAX - ?t) = 2147483647 - unat ?t"
    using assms(2) by (subst unat_sub) (simp_all add: word_le_nat_alt)
  have s: "sint ?d > sint (ENGINETIME_MAX - ?t) \<longleftrightarrow> unat ?t + unat ?d \<ge> 2 ^ 31"
  proof -
    have "sint ?d = int (unat ?d)" using d ud by (intro sint_u_int) simp
    moreover have "sint (ENGINETIME_MAX - ?t) = int (unat (ENGINETIME_MAX - ?t))" using m by (intro sint_u_int) simp
    ultimately have "sint ?d > sint (ENGINETIME_MAX - ?t) \<longleftrightarrow> int (unat ?d) > int (unat (ENGINETIME_MAX - ?t))"
      by (simp only:)
    then show ?thesis using m assms(2) by (simp only: of_nat_less_iff) (simp, arith)
  qed
  have sum: "unat (?t + ?d) = unat ?t + unat ?d" if "unat ?t + unat ?d < 2 ^ 31"
    using that by (simp add: unat_word_ariths)
  have diff: "unat (?d - (ENGINETIME_MAX - ?t)) = unat ?t + unat ?d - 2147483647" if "unat ?t + unat ?d \<ge> 2 ^ 31"
    using that m assms(2) by (subst unat_sub) (simp_all add: word_le_nat_alt)
  show ?thesis
    using r assms(1) s sum diff ud by (auto simp: enginetime_estimate_def Let_def split: if_splits)
qed

text \<open>Whatever the clock says, the boots never fall behind the recorded ones, and the recorded time is returned.\<close>

lemma enginetime_estimate_boots:
  assumes "et_authenticated e" "enginetime_estimate now True e = (B, T, L)"
  shows "et_engineBoot e \<le> B \<and> L = et_engineTime e"
proof -
  have "b \<le> b + 1" if "b < ENGINEBOOT_MAX" for b :: u_int
    using that by (simp add: word_le_nat_alt word_less_nat_alt unat_word_ariths)
  then show ?thesis using assms by (auto simp: enginetime_estimate_def Let_def split: if_splits)
qed

section \<open>The time window\<close>

lemma abs_diff_word:
  "(if (a :: u_int) > b then a - b else b - a) > USM_TIME_WINDOW \<longleftrightarrow> \<bar>uint a - uint b\<bar> > 150"
proof (cases "a > b")
  case True
  then have "uint (a - b) = uint a - uint b" "uint b < uint a"
    by (simp_all add: uint_minus_simple_alt [symmetric] word_less_def word_le_def)
  then show ?thesis using True by (simp add: word_less_def)
next
  case False
  then have "uint (b - a) = uint b - uint a" "uint a \<le> uint b"
    by (simp_all add: uint_minus_simple_alt [symmetric] word_le_def not_less)
  then show ?thesis using False by (simp add: word_less_def)
qed

text \<open>A message that refers to the local engine.\<close>

lemma timeliness_local:
  assumes "ue_engineID env \<noteq> []" "length (ue_engineID env) \<le> USM_MAX_ID_LENGTH"
  shows "usm_check_and_update_timeliness env (ue_engineID env) boots time etl =
    (if boots = ENGINEBOOT_MAX \<or> boots \<noteq> ue_boots env \<or> \<bar>uint (ucast (ue_time env) :: u_int) - uint time\<bar> > 150
     then (-1, SNMPERR_USM_NOTINTIMEWINDOW, [STAT_USMSTATSNOTINTIMEWINDOWS], etl)
     else (0, SNMPERR_SUCCESS, [], etl))"
proof -
  note w = abs_diff_word [where a = "ucast (ue_time env)" and b = time]
  show ?thesis using assms w by (simp add: usm_check_and_update_timeliness_def Let_def)
qed

text \<open>A message that refers to another engine, with the estimate of its time.\<close>

lemma timeliness_remote:
  assumes "ue_engineID env \<noteq> []" "length (ue_engineID env) \<le> USM_MAX_ID_LENGTH" "eid \<noteq> ue_engineID env"
    and e: "etime_lookup (ue_hash env) etl eid = Some e"
    and est: "enginetime_estimate (ue_time env) True e = (B, T, L)"
  shows "usm_check_and_update_timeliness env eid boots time etl =
    (if B = ENGINEBOOT_MAX \<or> B > boots then (-1, SNMPERR_USM_NOTINTIMEWINDOW, [], etl)
     else if B = boots \<and> time < L then
       (if \<bar>uint T - uint time\<bar> > 150 then (-1, SNMPERR_USM_NOTINTIMEWINDOW, [], etl)
        else (0, SNMPERR_SUCCESS, [], etl))
     else (0, SNMPERR_SUCCESS, [], snd (set_enginetime (ue_hash env) (ue_time env) eid boots time True etl)))"
proof -
  have "engine_key (ue_hash env) eid" using etime_lookup_key [OF e] .
  then have "fst (set_enginetime (ue_hash env) (ue_time env) eid boots time True etl) = SNMPERR_SUCCESS"
    by (intro set_enginetime_success) (simp add: engine_key_def)
  then obtain etl' where s: "set_enginetime (ue_hash env) (ue_time env) eid boots time True etl = (SNMPERR_SUCCESS, etl')"
    by (metis prod.collapse)
  note w = abs_diff_word [where a = T and b = time]
  have my: "(if USM_MAX_ID_LENGTH < length (ue_engineID env) then 0 else length (ue_engineID env)) = length (ue_engineID env)"
    "(length (ue_engineID env) > USM_MAX_ID_LENGTH \<or> length (ue_engineID env) = 0) = False"
    "(length eid = length (ue_engineID env) \<and> bytes_cmp eid (ue_engineID env) = 0) = False"
    using assms(1-3) by auto
  show ?thesis
    unfolding usm_check_and_update_timeliness_def Let_def get_enginetime_ex_lookup e option.case est prod.case s w my if_False
    by simp
qed

lemma timeliness_unknown:
  assumes "eid \<noteq> ue_engineID env" "etime_lookup (ue_hash env) etl eid = None"
  shows "fst (usm_check_and_update_timeliness env eid boots time etl) = -1
    \<and> snd (snd (snd (usm_check_and_update_timeliness env eid boots time etl))) = etl"
  using assms by (simp add: usm_check_and_update_timeliness_def Let_def get_enginetime_ex_lookup)

text \<open>The two parts of one check, whatever the outcome.\<close>

lemma timeliness_cases:
  assumes "etimes_wf (ue_hash env) etl"
  obtains (kept) rc err st where "usm_check_and_update_timeliness env eid boots time etl = (rc, err, st, etl)"
      "rc = 0 \<and> err = SNMPERR_SUCCESS \<or> rc = -1 \<and> err \<noteq> SNMPERR_SUCCESS"
  | (stored) e B T L where "etime_lookup (ue_hash env) etl eid = Some e"
      "enginetime_estimate (ue_time env) True e = (B, T, L)" "B \<le> boots" "B \<noteq> boots \<or> L \<le> time"
      "usm_check_and_update_timeliness env eid boots time etl =
        (0, SNMPERR_SUCCESS, [], snd (set_enginetime (ue_hash env) (ue_time env) eid boots time True etl))"
proof (cases "eid = ue_engineID env \<or> ue_engineID env = [] \<or> length (ue_engineID env) > USM_MAX_ID_LENGTH")
  case True
  then show thesis using timeliness_local [of env boots time etl]
    by (intro kept [of "fst (usm_check_and_update_timeliness env eid boots time etl)"
          "fst (snd (usm_check_and_update_timeliness env eid boots time etl))"
          "fst (snd (snd (usm_check_and_update_timeliness env eid boots time etl)))"])
       (auto simp: usm_check_and_update_timeliness_def Let_def)
next
  case False
  then have my: "ue_engineID env \<noteq> []" "length (ue_engineID env) \<le> USM_MAX_ID_LENGTH" "eid \<noteq> ue_engineID env" by auto
  show thesis
  proof (cases "etime_lookup (ue_hash env) etl eid")
    case None
    then show thesis using my
      by (intro kept [of "- 1" SNMPERR_USM_GENERICERROR "[]"])
         (auto simp: usm_check_and_update_timeliness_def Let_def get_enginetime_ex_lookup)
  next
    case (Some e)
    obtain B T L where est: "enginetime_estimate (ue_time env) True e = (B, T, L)" by (metis prod_cases3)
    note r = timeliness_remote [OF my Some est, of boots time]
    show thesis
    proof (cases "B = ENGINEBOOT_MAX \<or> B > boots \<or> B = boots \<and> time < L")
      case True
      show thesis
      proof (cases "B = ENGINEBOOT_MAX \<or> B > boots \<or> \<bar>uint T - uint time\<bar> > 150")
        case True
        then show thesis using r \<open>B = ENGINEBOOT_MAX \<or> B > boots \<or> B = boots \<and> time < L\<close>
          by (intro kept [of "- 1" SNMPERR_USM_NOTINTIMEWINDOW "[]"]) auto
      next
        case False
        then show thesis using r True by (intro kept [of 0 SNMPERR_SUCCESS "[]"]) auto
      qed
    next
      case False
      then show thesis using r by (intro stored [OF Some est]) auto
    qed
  qed
qed

section \<open>What a message does to the known times\<close>

definition auth_level :: "int \<Rightarrow> bool" where
  "auth_level level \<longleftrightarrow> level = SNMP_SEC_LEVEL_AUTHNOPRIV \<or> level = SNMP_SEC_LEVEL_AUTHPRIV"

text \<open>The digest of the message is right for the user, and the message is not older than what is recorded.\<close>

definition digest_ok :: "usm_env \<Rightarrow> usm_params \<Rightarrow> usmUser \<Rightarrow> bool" where
  "digest_ok env sp user \<longleftrightarrow>
     sc_check_keyed_hash env (us_authProtocol user) (us_authKey user) (up_msg sp) (up_signature sp) = 0"

definition advances :: "usm_env \<Rightarrow> usm_params \<Rightarrow> etimelist \<Rightarrow> bool" where
  "advances env sp etl \<longleftrightarrow>
     (\<forall>b t last. etime_auth (ue_hash env) etl (up_engineID sp) = Some (b, t, last) \<longrightarrow>
        b < up_boots sp \<or> b = up_boots sp \<and> t \<le> up_time sp)"

definition stores :: "usm_env \<Rightarrow> usm_params \<Rightarrow> etimelist \<Rightarrow> etimelist \<Rightarrow> bool" where
  "stores env sp etl etl' \<longleftrightarrow> engine_key (ue_hash env) (up_engineID sp) \<and> advances env sp etl
     \<and> etl' = snd (set_enginetime (ue_hash env) (ue_time env) (up_engineID sp) (up_boots sp) (up_time sp) True etl)"

lemma timeliness_stores:
  assumes "etimes_wf (ue_hash env) etl"
    "usm_check_and_update_timeliness env (up_engineID sp) (up_boots sp) (up_time sp) etl = (rc, err, st, etl')"
  shows "(rc = 0 \<and> err = SNMPERR_SUCCESS \<or> rc = -1 \<and> err \<noteq> SNMPERR_SUCCESS)
    \<and> (etl' = etl \<or> stores env sp etl etl')"
proof (cases rule: timeliness_cases [OF assms(1), of "up_engineID sp" "up_boots sp" "up_time sp"])
  case (1 rc err st)
  then show ?thesis using assms(2) by auto
next
  case stored: (2 e B T L)
  have "b < up_boots sp \<or> b = up_boots sp \<and> t \<le> up_time sp"
    if a: "etime_auth (ue_hash env) etl (up_engineID sp) = Some (b, t, last)" for b t last
  proof -
    have e: "et_authenticated e" "b = et_engineBoot e" "t = et_engineTime e"
      using a stored(1) by (auto simp: etime_auth_def split: if_splits)
    then have "b \<le> B" "L = t" using enginetime_estimate_boots [OF e(1) stored(2)] by auto
    then show ?thesis using stored(3,4) by (cases "b = up_boots sp") (auto simp: order.order_iff_strict)
  qed
  then have "stores env sp etl etl'" using stored(1,5) assms(2) etime_lookup_key [OF stored(1)]
    by (auto simp: stores_def advances_def)
  then show ?thesis using stored(5) assms(2) by auto
qed

lemma usm_in_error_simps [simp]:
  "ui_error (usm_in_error e s t) = e" "ui_times (usm_in_error e s t) = t"
  "ui_params (usm_in_error e s t) = None" "ui_secStateRef (usm_in_error e s t) = None"
  by (simp_all add: usm_in_error_def)

lemma usm_in_checked_times:
  assumes wf: "etimes_wf (ue_hash env) etl" and r: "usm_in_checked env sp level m c etl user = Ret r"
  shows "etimes_wf (ue_hash env) (ui_times r)
    \<and> (etime_auth (ue_hash env) (ui_times r) = etime_auth (ue_hash env) etl
       \<or> auth_level level \<and> digest_ok env sp user \<and> us_userStatus user = RS_ACTIVE \<and> stores env sp etl (ui_times r))"
proof -
  let ?u = "snd (set_enginetime (ue_hash env) (ue_time env) (up_engineID sp) (up_boots sp) (up_time sp) False etl)"
  let ?c = "usm_check_and_update_timeliness env (up_engineID sp) (up_boots sp) (up_time sp) etl"
  obtain rc err st etl' where c: "?c = (rc, err, st, etl')" by (metis prod_cases4)
  note t = timeliness_stores [OF wf c]
  have "ui_times r = etl
      \<or> \<not> auth_level level \<and> ui_times r = ?u
      \<or> auth_level level \<and> digest_ok env sp user \<and> us_userStatus user = RS_ACTIVE \<and> ui_times r = etl'"
    using r unfolding usm_in_checked_def Let_def c
    by (auto simp: auth_level_def digest_ok_def split: if_splits cres.splits sum.splits prod.splits)
  then show ?thesis
    using t wf set_enginetime_wf [OF wf] etime_auth_set_unauth [OF wf] by (auto simp: stores_def)
qed

text \<open>
  A message: the session, the users, and everything else that a call of \<open>usm_process_in_msg\<close> depends on beside
  the environment and the engine times.
\<close>

lemma usm_process_cases:
  assumes "usm_process_in_msg env sess users noName m msg secoff level rep ecap ncap c etl = Ret r"
  obtains (failed) "ui_error r \<noteq> SNMPERR_SUCCESS" "ui_times r = etl"
  | (no_user) "ui_error r \<noteq> SNMPERR_SUCCESS" "\<exists>eid. ui_times r = snd (ENSURE_ENGINE_RECORD (ue_hash env) (ue_time env) eid etl)"
  | (checked) sp user etl' where
      "usm_parse_security_parameters msg secoff (size_sub (length msg) (int secoff)) ecap ncap USM_MAX_AUTHSIZE 16 = Ret (Inr sp)"
      "usm_in_user sess sp users noName = Some user"
      "etl' = etl \<or> etl' = snd (ENSURE_ENGINE_RECORD (ue_hash env) (ue_time env) (up_engineID sp) etl)"
      "usm_in_checked env sp level m c etl' user = Ret r"
      "level = SNMP_SEC_LEVEL_AUTHPRIV \<longrightarrow> length (up_salt sp) = 8"
proof -
  let ?p = "usm_parse_security_parameters msg secoff (size_sub (length msg) (int secoff)) ecap ncap USM_MAX_AUTHSIZE 16"
  note r = assms [unfolded usm_process_in_msg_def Let_def]
  have "?p \<noteq> Overrun" "?p \<noteq> Null" using r by (auto split: cres.splits)
  then obtain x where p: "?p = Ret x" by (cases ?p) auto
  show thesis
  proof (cases x)
    case (Inl rc)
    then show thesis using r p by (intro failed) (auto split: if_splits)
  next
    case (Inr sp)
    let ?ens = "ENSURE_ENGINE_RECORD (ue_hash env) (ue_time env) (up_engineID sp) etl"
    let ?auth = "usm_authoritative_for sess rep"
    note r' = r [unfolded p cres.case Inr sum.case]
    show thesis
    proof (cases "level = SNMP_SEC_LEVEL_AUTHPRIV \<and> length (up_salt sp) \<noteq> 8
        \<or> ?auth \<and> \<not> ISENGINEKNOWN (ue_hash env) (ue_time env) etl (up_engineID sp)")
      case True
      then show thesis using r' by (intro failed) (auto split: if_splits)
    next
      case ok: False
      define etl' where "etl' = (if ?auth then etl else snd ?ens)"
      have e: "etl' = etl \<or> etl' = snd ?ens" by (simp add: etl'_def)
      obtain rc etl'' where ens: "(if ?auth then (SNMPERR_SUCCESS, etl) else ?ens) = (rc, etl'')" by (metis prod.collapse)
      then have e': "etl'' = etl'" by (auto simp: etl'_def split: if_splits)
      note r'' = r' [unfolded ens prod.case e']
      show thesis
      proof (cases "rc \<noteq> SNMPERR_SUCCESS \<or> usm_in_user sess sp users noName = None")
        case True
        then have "ui_error r \<noteq> SNMPERR_SUCCESS" "ui_times r = etl'" using r'' ok by (auto split: if_splits)
        then show thesis using e failed no_user by blast
      next
        case False
        then obtain user where "usm_in_user sess sp users noName = Some user" by auto
        moreover from this have "usm_in_checked env sp level m c etl' user = Ret r"
          using r'' ok False by (auto split: if_splits)
        ultimately show thesis using checked [OF p [unfolded Inr] _ e] ok by blast
      qed
    qed
  qed
qed

lemma ENSURE_ENGINE_RECORD_keeps:
  assumes "etimes_wf h etl"
  shows "etimes_wf h (snd (ENSURE_ENGINE_RECORD h now eid etl))"
    "etime_auth h (snd (ENSURE_ENGINE_RECORD h now eid etl)) = etime_auth h etl"
  using set_enginetime_wf [OF assms] etime_auth_set_unauth [OF assms] by (simp_all add: ENSURE_ENGINE_RECORD_def)

lemma stores_cong: "etime_auth (ue_hash env) etl = etime_auth (ue_hash env) etl' \<Longrightarrow> advances env sp etl = advances env sp etl'"
  by (simp add: advances_def)

text \<open>What one message does: nothing to the authenticated times, or an authentic message of a newer time is stored.\<close>

lemma usm_process_times:
  assumes wf: "etimes_wf (ue_hash env) etl"
    and r: "usm_process_in_msg env sess users noName m msg secoff level rep ecap ncap c etl = Ret r"
  shows "etimes_wf (ue_hash env) (ui_times r)
    \<and> (etime_auth (ue_hash env) (ui_times r) = etime_auth (ue_hash env) etl
       \<or> (\<exists>sp user. auth_level level \<and> digest_ok env sp user \<and> us_userStatus user = RS_ACTIVE
            \<and> usm_in_user sess sp users noName = Some user \<and> advances env sp etl
            \<and> etime_auth (ue_hash env) (ui_times r)
              = (etime_auth (ue_hash env) etl)(up_engineID sp \<mapsto> (up_boots sp, up_time sp, ue_time env))))"
proof (cases rule: usm_process_cases [OF r])
  case 1
  then show ?thesis using wf by simp
next
  case 2
  then show ?thesis using ENSURE_ENGINE_RECORD_keeps [OF wf] by auto
next
  case (3 sp user etl')
  have wf': "etimes_wf (ue_hash env) etl'" and a: "etime_auth (ue_hash env) etl' = etime_auth (ue_hash env) etl"
    using 3(3) ENSURE_ENGINE_RECORD_keeps [OF wf] wf by auto
  have "etime_auth (ue_hash env) (ui_times r)
      = (etime_auth (ue_hash env) etl)(up_engineID sp \<mapsto> (up_boots sp, up_time sp, ue_time env)) \<and> advances env sp etl"
    if "stores env sp etl' (ui_times r)"
    using that a stores_cong [OF a, of sp] etime_auth_set [OF wf', of "up_engineID sp"] by (auto simp: stores_def)
  then show ?thesis using usm_in_checked_times [OF wf' 3(4)] 3(2) a by auto
qed

inductive usm_run :: "digest \<Rightarrow> etimelist \<Rightarrow> etimelist \<Rightarrow> bool" for h l where
  start: "usm_run h l l"
| message: "usm_run h l etl \<Longrightarrow> ue_hash env = h \<Longrightarrow>
    usm_process_in_msg env sess users noName m msg secoff level rep ecap ncap c etl = Ret r \<Longrightarrow> usm_run h l (ui_times r)"

lemma usm_run_wf: "usm_run h l etl \<Longrightarrow> etimes_wf h l \<Longrightarrow> etimes_wf h etl"
  by (induction rule: usm_run.induct) (use usm_process_times in blast)+

lemma usm_run_monotone:
  assumes "usm_run h l etl" "etimes_wf h l" "etime_auth h l eid = Some (b, t, w)"
  shows "\<exists>b' t' w'. etime_auth h etl eid = Some (b', t', w') \<and> (b < b' \<or> b = b' \<and> t \<le> t')"
  using assms(1)
proof (induction rule: usm_run.induct)
  case start
  then show ?case using assms(3) by blast
next
  case (message etl env sess users noName m msg secoff level rep ecap ncap c r)
  obtain b1 t1 w1 where l1: "etime_auth h etl eid = Some (b1, t1, w1)" "b < b1 \<or> b = b1 \<and> t \<le> t1"
    using message.IH by blast
  have wf: "etimes_wf (ue_hash env) etl" using usm_run_wf [OF message.hyps(1) assms(2)] message.hyps(2) by simp
  show ?case using usm_process_times [OF wf message.hyps(3)] l1 message.hyps(2) unfolding advances_def
    by (cases "etime_auth h (ui_times r) = etime_auth h etl") (fastforce split: if_splits)+
qed

text \<open>
  C13. In every run of incoming messages - whatever their contents, sessions, users and arrival times - what is
  recorded of another engine from authenticated messages never goes back: its boots never decrease, and with the
  same boots its time never decreases. The next message changes such a record only when it is of an authenticated
  level, names that engine, and its digest is right under the key of an active user.
\<close>

theorem engine_times_monotone:
  assumes "etimes_wf h l" "usm_run h l etl" "etime_auth h l eid = Some (b, t, w)" "ue_hash env = h"
    "usm_process_in_msg env sess users noName m msg secoff level rep ecap ncap c etl = Ret r"
  shows "(\<exists>b' t' w'. etime_auth h etl eid = Some (b', t', w') \<and> (b < b' \<or> b = b' \<and> t \<le> t'))
    \<and> (etime_auth h (ui_times r) eid \<noteq> etime_auth h etl eid \<longrightarrow>
        (\<exists>sp user. auth_level level \<and> up_engineID sp = eid \<and> us_userStatus user = RS_ACTIVE
          \<and> usm_in_user sess sp users noName = Some user
          \<and> sc_check_keyed_hash env (us_authProtocol user) (us_authKey user) (up_msg sp) (up_signature sp) = 0))"
proof -
  have wf: "etimes_wf (ue_hash env) etl" using usm_run_wf [OF assms(2,1)] assms(4) by simp
  show ?thesis using usm_run_monotone [OF assms(2,1,3)] usm_process_times [OF wf assms(5)] assms(4)
    by (auto simp: digest_ok_def split: if_splits)
qed

text \<open>A message from engine \<open>[2]\<close> with boots 5 and time 100, of user \<open>a\<close>, and an environment that accepts it.\<close>

definition test_env :: "u_long \<Rightarrow> usm_env" where
  "test_env now = \<lparr>ue_hash = one_bucket, ue_keyed_hash = (\<lambda>proto key m. (0, replicate 16 7)),
     ue_decrypt = (\<lambda>proto key iv ct n. (0, ct)), ue_engineID = [1], ue_boots = 3, ue_time = now, ue_iv = []\<rparr>"

definition test_msg :: bytes where
  "test_msg = [0x04, 0x1E, 0x30, 0x1C, 0x04, 1, 2, 0x02, 1, 5, 0x02, 1, 100, 0x04, 1, 97, 0x04, 12,
     7, 7, 7, 7, 7, 7, 7, 7, 7, 7, 7, 7, 0x04, 0, 0x30, 0]"

definition test_times :: etimelist where
  "test_times = snd (set_enginetime one_bucket 1000 [2] 5 90 True (free_etimelist []))"

definition test_in :: "u_long \<Rightarrow> etimelist \<Rightarrow> usm_in cres" where
  "test_in now etl = usm_process_in_msg (test_env now) None [test_user [2] [97] 1] None 1500 test_msg 0 2 True 32 64 0 etl"

definition the_in :: "usm_in cres \<Rightarrow> usm_in" where
  "the_in r = (case r of Ret x \<Rightarrow> x | _ \<Rightarrow> usm_in_error 1 [] [])"

lemma test_times_wf: "etimes_wf one_bucket test_times" "etime_auth one_bucket test_times [2] = Some (5, 90, 1000)"
proof -
  have "etimes_wf one_bucket (free_etimelist [])" by (simp add: etimes_wf_def free_etimelist_def)
  then show "etimes_wf one_bucket test_times" unfolding test_times_def by (rule set_enginetime_wf)
  show "etime_auth one_bucket test_times [2] = Some (5, 90, 1000)" by code_simp
qed

lemma test_in_Ret: "test_in 1005 test_times = Ret (the_in (test_in 1005 test_times))"
  by code_simp

theorem engine_times_monotone_witness:
  "etime_auth one_bucket (ui_times (the_in (test_in 1005 test_times))) [2] = Some (5, 100, 1005)
   \<and> (\<exists>sp user. auth_level 2 \<and> up_engineID sp = [2] \<and> us_userStatus user = RS_ACTIVE
        \<and> usm_in_user None sp [test_user [2] [97] 1] None = Some user
        \<and> sc_check_keyed_hash (test_env 1005) (us_authProtocol user) (us_authKey user) (up_msg sp) (up_signature sp) = 0)"
proof -
  have e: "ue_hash (test_env 1005) = one_bucket" by (simp add: test_env_def)
  have n: "etime_auth one_bucket (ui_times (the_in (test_in 1005 test_times))) [2] = Some (5, 100, 1005)" by code_simp
  from engine_times_monotone [OF test_times_wf(1) usm_run.start test_times_wf(2) e
      test_in_Ret [unfolded test_in_def [of 1005]]]
  show ?thesis using n test_times_wf(2) by (auto simp: test_in_def)
qed

text \<open>
  The newest message of an engine is accepted again, however late it is replayed, and sets the clock of that
  engine back: a time equal to the recorded one counts as newer.
\<close>

lemma replay_of_newest_accepted:
  assumes "ue_engineID env \<noteq> []" "length (ue_engineID env) \<le> USM_MAX_ID_LENGTH" "eid \<noteq> ue_engineID env"
    and a: "etime_auth (ue_hash env) etl eid = Some (b, t, w)" and "b \<noteq> ENGINEBOOT_MAX"
    and e: "unat t + unat (ue_time env - w) < 2 ^ 31"
  shows "usm_check_and_update_timeliness env eid b t etl
    = (0, SNMPERR_SUCCESS, [], snd (set_enginetime (ue_hash env) (ue_time env) eid b t True etl))"
proof -
  obtain r where r: "etime_lookup (ue_hash env) etl eid = Some r" "et_authenticated r"
      "b = et_engineBoot r" "t = et_engineTime r" "w = et_lastReceived r"
    using a by (auto simp: etime_auth_def split: option.splits if_splits)
  obtain B T L where est: "enginetime_estimate (ue_time env) True r = (B, T, L)" by (metis prod_cases3)
  have "B = b \<and> L = t" using enginetime_estimate_arith [OF _ _ _ est] r e by simp
  then show ?thesis using timeliness_remote [OF assms(1-3) r(1) est, of b t] assms(5) by simp
qed

text \<open>
  C14. The time window. For a message to the local engine: accepted exactly when it carries the current boots, these
  are not exhausted, and its time differs from the local one by at most 150 seconds. For a message of another engine
  with a record (boots \<open>b\<close>, time \<open>t\<close>, at local time \<open>w\<close>): accepted exactly when \<open>b\<close> is not exhausted and the
  message has more boots, or the same boots and a time that is after \<open>t\<close> or at most 150 seconds behind the
  estimate \<open>t\<close> plus the seconds since \<open>w\<close> (as long as that does not reach the maximum). One case is excluded: a message
  with exactly the recorded boots and time that is more than 150 seconds late. By the comment in
  \<open>usm_check_and_update_timeliness\<close> it is too old; the code accepts it (\<open>replay_of_newest_accepted\<close>). A message
  of an engine without a record is not accepted.
\<close>

theorem usm_time_window:
  assumes "ue_engineID env \<noteq> []" "length (ue_engineID env) \<le> USM_MAX_ID_LENGTH"
  shows "(fst (usm_check_and_update_timeliness env (ue_engineID env) boots time etl) = 0 \<longleftrightarrow>
        boots = ue_boots env \<and> boots \<noteq> ENGINEBOOT_MAX \<and> \<bar>uint (ucast (ue_time env) :: u_int) - uint time\<bar> \<le> 150)
    \<and> (eid \<noteq> ue_engineID env \<and> etime_auth (ue_hash env) etl eid = Some (b, t, w)
         \<and> unat t + unat (ue_time env - w) < 2 ^ 31 \<and> \<not> (boots = b \<and> time = t \<and> 150 < unat (ue_time env - w)) \<longrightarrow>
        (fst (usm_check_and_update_timeliness env eid boots time etl) = 0 \<longleftrightarrow>
          b \<noteq> ENGINEBOOT_MAX \<and> (b < boots \<or> b = boots \<and> (t < time \<or> unat t + unat (ue_time env - w) \<le> unat time + 150))))
    \<and> (eid \<noteq> ue_engineID env \<and> etime_lookup (ue_hash env) etl eid = None \<longrightarrow>
        fst (usm_check_and_update_timeliness env eid boots time etl) \<noteq> 0)"
proof -
  have "fst (usm_check_and_update_timeliness env eid boots time etl) = 0 \<longleftrightarrow>
          b \<noteq> ENGINEBOOT_MAX \<and> (b < boots \<or> b = boots \<and> (t < time \<or> unat t + unat (ue_time env - w) \<le> unat time + 150))"
    if new: "\<not> (boots = b \<and> time = t \<and> 150 < unat (ue_time env - w))" and own: "eid \<noteq> ue_engineID env" and a: "etime_auth (ue_hash env) etl eid = Some (b, t, w)"
      and e: "unat t + unat (ue_time env - w) < 2 ^ 31"
  proof -
    obtain r where r: "etime_lookup (ue_hash env) etl eid = Some r" "et_authenticated r"
        "b = et_engineBoot r" "t = et_engineTime r" "w = et_lastReceived r"
      using a by (auto simp: etime_auth_def split: option.splits if_splits)
    obtain B T L where est: "enginetime_estimate (ue_time env) True r = (B, T, L)" by (metis prod_cases3)
    have B: "B = b" "L = t" and T: "unat T = unat t + unat (ue_time env - w)"
      using enginetime_estimate_arith [OF _ _ _ est] r e by auto
    have "\<bar>uint T - uint time\<bar> > 150 \<longleftrightarrow> \<not> unat t + unat (ue_time env - w) \<le> unat time + 150" if "time < t"
    proof -
      have "unat time < unat T" using that T by (simp add: word_less_nat_alt)
      moreover have "uint T - uint time = int (unat T) - int (unat time)" by simp
      ultimately show ?thesis using T by linarith
    qed
    moreover have "t < time \<or> unat t + unat (ue_time env - w) \<le> unat time + 150" if "\<not> time < t" "boots = b"
      using that new by (cases "time = t") auto
    ultimately show ?thesis unfolding timeliness_remote [OF assms own r(1) est, of boots time] B
      by (auto simp: not_less not_le)
  qed
  then show ?thesis using timeliness_unknown [of eid env etl boots time]
    unfolding timeliness_local [OF assms] by auto
qed

theorem usm_time_window_witness:
  "fst (usm_check_and_update_timeliness (test_env 1020) [2] 5 80 test_times) = 0
   \<and> fst (usm_check_and_update_timeliness (test_env 1160) [2] 5 80 test_times) \<noteq> 0"
proof -
  have h: "ue_engineID (test_env n) \<noteq> []" "length (ue_engineID (test_env n)) \<le> USM_MAX_ID_LENGTH"
    "[2] \<noteq> ue_engineID (test_env n)" "ue_hash (test_env n) = one_bucket" "ue_time (test_env n) = n" for n
    by (simp_all add: test_env_def)
  show ?thesis using usm_time_window [OF h(1,2), of 1020 5 80 test_times "[2]" 5 90 1000]
      usm_time_window [OF h(1,2), of 1160 5 80 test_times "[2]" 5 90 1000] h test_times_wf(2) by simp
qed

section \<open>What an accepted message has passed\<close>

lemma usm_check_secLevel_ok:
  assumes "usm_check_secLevel level user = 0"
  shows "us_userStatus user = RS_ACTIVE
    \<and> (auth_level level \<longrightarrow> us_authProtocol user \<noteq> usmNoAuthProtocol)
    \<and> (level = SNMP_SEC_LEVEL_AUTHPRIV \<longrightarrow> us_privProtocol user \<noteq> usmNoPrivProtocol)"
  using assms by (auto simp: usm_check_secLevel_def auth_level_def netsnmp_oid_equals_iff split: if_splits)

lemma usm_in_checked_accepts:
  assumes "usm_in_checked env sp level m c etl user = Ret r" "ui_error r = SNMPERR_SUCCESS" "etimes_wf (ue_hash env) etl"
  shows "usm_check_secLevel level user = 0 \<and> ui_params r = Some sp
    \<and> (auth_level level \<longrightarrow> digest_ok env sp user
        \<and> fst (usm_check_and_update_timeliness env (up_engineID sp) (up_boots sp) (up_time sp) etl) = 0)
    \<and> (level = SNMP_SEC_LEVEL_AUTHPRIV \<longrightarrow> (\<exists>overhead. usm_in_decrypt env sp user c = Ret (Inr (ui_scopedPdu r, overhead))))
    \<and> (level \<noteq> SNMP_SEC_LEVEL_AUTHPRIV \<longrightarrow> ui_scopedPdu r = up_data sp)
    \<and> (\<exists>ref. ui_secStateRef r = Some ref \<and> usr_auth_key ref = us_authKey user \<and> usr_engine_id ref = up_engineID sp
         \<and> usr_name ref = up_name sp \<and> usr_sec_level ref = level)"
proof -
  obtain rc err st etl' where c: "usm_check_and_update_timeliness env (up_engineID sp) (up_boots sp) (up_time sp) etl
      = (rc, err, st, etl')" by (metis prod_cases4)
  note t = timeliness_stores [OF assms(3) c]
  have d: "e \<noteq> SNMPERR_SUCCESS" if "usm_in_decrypt env sp user c = Ret (Inl (e, s))" for e s
    using that by (auto simp: usm_in_decrypt_def Let_def split: cres.splits if_splits prod.splits)
  show ?thesis using assms(1,2) t unfolding usm_in_checked_def Let_def c
    by (auto simp: auth_level_def digest_ok_def split: if_splits cres.splits sum.splits prod.splits dest!: d)
qed

lemma usm_in_user_sound:
  assumes "usm_in_user sess sp users noName = Some user"
  shows "(\<exists>s. sess = Some s \<and> ss_sessUser s = Some user)
    \<or> user \<in> set users \<and> us_engineID user = Some (up_engineID sp) \<and> us_name user = up_name sp
    \<or> noName = Some user \<and> (up_name sp = [] \<or> hd (up_name sp) = 0)
      \<and> (\<exists>s. sess = Some s \<and> ss_isAuthoritative s \<noteq> SNMP_SESS_AUTHORITATIVE)"
proof -
  have f: "u \<in> set users \<and> us_engineID u = Some (up_engineID sp) \<and> us_name u = up_name sp"
    if "find (user_matches (Some (up_engineID sp)) (up_name sp)) users = Some u" for u
    using that unfolding find_Some_iff by (auto simp: user_matches_iff user_key_def)
  show ?thesis using assms f
    by (auto simp: usm_in_user_def usm_get_user_from_list_def split: option.splits if_splits list.splits)
qed

text \<open>
  C4. A message that the user-based security model accepts has passed every check: its parameters lie within
  the message; its user is the session's, or one of the list with the engine ID and name of the message, or (never for
  an authoritative session) the nameless one; the user is active and has an authentication protocol when the level
  asks for one, a privacy protocol when the level asks for one; at an authenticated level the MAC in the message is
  the digest, under the key of that user, of the message with the MAC blanked, cut to the length the protocol asks for,
  and the message is inside the time window; and the PDU handed on is the decrypted one exactly at the level with
  privacy.
\<close>

theorem usm_in_msg_authentic:
  assumes "usm_process_in_msg env sess users noName m msg secoff level rep ecap ncap c etl = Ret r"
    "ui_error r = SNMPERR_SUCCESS" "etimes_wf (ue_hash env) etl" "secoff \<le> length msg" "length msg < 2 ^ 31"
  shows "\<exists>sp user.
      ui_params r = Some sp \<and> usm_params_ok msg ecap ncap USM_MAX_AUTHSIZE 16 sp
    \<and> ((\<exists>s. sess = Some s \<and> ss_sessUser s = Some user)
       \<or> user \<in> set users \<and> us_engineID user = Some (up_engineID sp) \<and> us_name user = up_name sp
       \<or> noName = Some user \<and> (up_name sp = [] \<or> hd (up_name sp) = 0)
         \<and> (\<exists>s. sess = Some s \<and> ss_isAuthoritative s \<noteq> SNMP_SESS_AUTHORITATIVE))
    \<and> us_userStatus user = RS_ACTIVE
    \<and> (auth_level level \<longrightarrow>
         us_authProtocol user \<noteq> usmNoAuthProtocol
         \<and> (\<exists>key digest. us_authKey user = Some key \<and> key \<noteq> []
              \<and> ue_keyed_hash env (us_authProtocol user) key (up_msg sp) = (0, digest)
              \<and> up_signature sp = take (length (up_signature sp)) digest \<and> up_signature sp \<noteq> []
              \<and> length (up_signature sp) = sc_get_auth_maclen (sc_get_authtype (us_authProtocol user)))
         \<and> (\<exists>etl'. etime_auth (ue_hash env) etl' = etime_auth (ue_hash env) etl
              \<and> fst (usm_check_and_update_timeliness env (up_engineID sp) (up_boots sp) (up_time sp) etl') = 0))
    \<and> (if level = SNMP_SEC_LEVEL_AUTHPRIV
       then us_privProtocol user \<noteq> usmNoPrivProtocol
         \<and> (\<exists>overhead. usm_in_decrypt env sp user c = Ret (Inr (ui_scopedPdu r, overhead)))
       else ui_scopedPdu r = up_data sp)"
proof (cases rule: usm_process_cases [OF assms(1)])
  case (3 sp user etl')
  have len: "size_sub (length msg) (int secoff) = length msg - secoff" using assms(4,5) by (intro size_sub_nat) auto
  have p: "usm_params_ok msg ecap ncap USM_MAX_AUTHSIZE 16 sp"
    using usm_parse_security_parameters_ok [OF assms(4,5), of ecap ncap USM_MAX_AUTHSIZE 16] 3(1) len by simp
  have wf: "etimes_wf (ue_hash env) etl'" and a: "etime_auth (ue_hash env) etl' = etime_auth (ue_hash env) etl"
    using 3(3) ENSURE_ENGINE_RECORD_keeps [OF assms(3)] assms(3) by auto
  note acc = usm_in_checked_accepts [OF 3(4) assms(2) wf]
  note lev = usm_check_secLevel_ok [OF conjunct1 [OF acc]]
  have "\<exists>key digest. us_authKey user = Some key \<and> key \<noteq> []
              \<and> ue_keyed_hash env (us_authProtocol user) key (up_msg sp) = (0, digest)
              \<and> up_signature sp = take (length (up_signature sp)) digest \<and> up_signature sp \<noteq> []
              \<and> length (up_signature sp) = sc_get_auth_maclen (sc_get_authtype (us_authProtocol user))" if "auth_level level"
    using acc that by (intro sc_check_keyed_hash_ok) (simp add: digest_ok_def)
  then show ?thesis using p acc lev usm_in_user_sound [OF 3(2)] a by (intro exI [of _ sp] exI [of _ user]) auto
qed (use assms(2) in auto)

theorem usm_in_msg_authentic_witness:
  "ui_error (the_in (test_in 1005 test_times)) = SNMPERR_SUCCESS \<and> ui_scopedPdu (the_in (test_in 1005 test_times)) = [0x30, 0]
   \<and> (\<exists>sp. ui_params (the_in (test_in 1005 test_times)) = Some sp \<and> up_data sp = [0x30, 0])"
proof -
  have e: "ui_error (the_in (test_in 1005 test_times)) = SNMPERR_SUCCESS"
    "ui_scopedPdu (the_in (test_in 1005 test_times)) = [0x30, 0]" by code_simp+
  have h: "etimes_wf (ue_hash (test_env 1005)) test_times" "0 \<le> length test_msg" "length test_msg < 2 ^ 31"
    using test_times_wf(1) by (simp_all add: test_env_def test_msg_def)
  from usm_in_msg_authentic [OF test_in_Ret [unfolded test_in_def [of 1005]] _ h]
  show ?thesis using e by (auto simp: test_in_def)
qed

section \<open>Memory safety\<close>

lemma alg_oid_eq_iff: "alg_oid_eq a b \<longleftrightarrow> a = b"
  using snmp_oid_compare_0 [of a b] by (auto simp: alg_oid_eq_def)

lemma privtype_DES: "sc_get_privtype proto = USM_CREATE_USER_PRIV_DES \<Longrightarrow> proto = usmDESPrivProtocol"
  by (auto simp: sc_get_privtype_def priv_alg_info_def alg_oid_eq_iff split: if_splits)

definition des_key_ok :: "usmUser \<Rightarrow> bool" where
  "des_key_ok user \<longleftrightarrow> (us_privProtocol user = usmDESPrivProtocol \<and> us_privKey user \<noteq> None
       \<longrightarrow> 16 \<le> length (the (us_privKey user)))"

lemma usm_in_decrypt_safe:
  assumes "des_key_ok user" "length (up_data sp) < 2 ^ 31"
  shows "usm_in_decrypt env sp user c \<noteq> Overrun \<and> usm_in_decrypt env sp user c \<noteq> Null"
proof -
  have "asn_parse_sequence (up_data sp) (length (up_data sp)) ASN_OCTET_STR \<noteq> Overrun"
    by (rule header_ok_safe [OF asn_parse_sequence_ok]) (use assms(2) in simp_all)
  moreover have "usm_in_iv env sp user \<noteq> Overrun"
    using assms privtype_DES by (auto simp: usm_in_iv_def Let_def des_key_ok_def split: option.splits)
  ultimately show ?thesis
    by (auto simp: usm_in_decrypt_def Let_def split: cres.splits prod.splits)
qed

lemma usm_in_checked_safe:
  "des_key_ok user \<Longrightarrow> length (up_data sp) < 2 ^ 31 \<Longrightarrow> usm_in_checked env sp level m c etl user \<noteq> Overrun \<and> usm_in_checked env sp level m c etl user \<noteq> Null"
  using usm_in_decrypt_safe [of user sp env c]
  by (auto simp: usm_in_checked_def Let_def split: cres.splits prod.splits sum.splits)

text \<open>
  C33. Memory safety of the processing of an incoming message: whatever its bytes, with the security parameters
  inside the message and every DES key at least 16 bytes long, no byte outside the message, the caller's buffers or a
  key is read or written, and the security parameters that are accepted fit the caller's buffers, with the user name
  terminated within its own; the message differs from the received one only in the blanked signature.
\<close>

theorem usm_in_memory_safe:
  assumes "secoff \<le> length msg" "length msg < 2 ^ 31"
    "\<forall>user \<in> set users \<union> set_option noName \<union> (case sess of None \<Rightarrow> {} | Some s \<Rightarrow> set_option (ss_sessUser s)). des_key_ok user"
  shows "usm_process_in_msg env sess users noName m msg secoff level rep ecap ncap c etl \<noteq> Overrun
    \<and> usm_process_in_msg env sess users noName m msg secoff level rep ecap ncap c etl \<noteq> Null
    \<and> (case usm_parse_security_parameters msg secoff (length msg - secoff) ecap ncap USM_MAX_AUTHSIZE 16 of
         Ret (Inl rc) \<Rightarrow> rc = -1 \<or> rc = -2
       | Ret (Inr sp) \<Rightarrow> usm_params_ok msg ecap ncap USM_MAX_AUTHSIZE 16 sp
       | _ \<Rightarrow> False)"
proof -
  let ?p = "usm_parse_security_parameters msg secoff (length msg - secoff) ecap ncap USM_MAX_AUTHSIZE 16"
  have len: "size_sub (length msg) (int secoff) = length msg - secoff" using assms(1,2) by (intro size_sub_nat) auto
  have p: "sec_ok msg ecap ncap USM_MAX_AUTHSIZE 16 ?p" by (rule usm_parse_security_parameters_ok [OF assms(1,2)])
  have user: "des_key_ok user" if "usm_in_user sess sp users noName = Some user" for sp user
    using usm_in_user_sound [OF that] assms(3) by auto
  have c: "usm_in_checked env sp level m c etl' user \<noteq> Overrun \<and> usm_in_checked env sp level m c etl' user \<noteq> Null"
    if "?p = Ret (Inr sp)" "usm_in_user sess sp users noName = Some user" for sp user etl'
  proof -
    have "\<exists>k \<le> length msg. up_data sp = drop k msg" using p that(1) by (simp add: usm_params_ok_def)
    then have "length (up_data sp) < 2 ^ 31" using assms(2) by auto
    then show ?thesis using usm_in_checked_safe [OF user [OF that(2)]] by blast
  qed
  have "usm_process_in_msg env sess users noName m msg secoff level rep ecap ncap c etl \<noteq> Overrun
    \<and> usm_process_in_msg env sess users noName m msg secoff level rep ecap ncap c etl \<noteq> Null"
    using p c unfolding usm_process_in_msg_def Let_def len sec_ok_def
    by (auto split: cres.splits sum.splits option.splits prod.splits)
  then show ?thesis using p unfolding sec_ok_def by blast
qed

theorem usm_in_memory_safe_witness:
  "usm_process_in_msg (test_env 5) None [test_user [2] [97] 1] None 1500 (take 20 test_msg) 0 2 True 32 64 0 test_times \<noteq> Overrun"
proof -
  have h: "0 \<le> length (take 20 test_msg)" "length (take 20 test_msg) < 2 ^ 31"
    "\<forall>user \<in> set [test_user [2] [97] 1] \<union> set_option None \<union> (case None of None \<Rightarrow> {} | Some s \<Rightarrow> set_option (ss_sessUser s)). des_key_ok user"
    by (simp_all add: test_msg_def test_user_def des_key_ok_def usmDESPrivProtocol_def)
  from usm_in_memory_safe [OF h] show ?thesis by blast
qed

end
