(* ===== verification/UsmOut.thy ===== *)
theory UsmOut
  imports UsmSpec AsnRoundtrip
begin

unbundle bit_operations_syntax

text \<open>
  Outgoing messages of the user-based security model: how long the salts stay different, and that the offsets
  computed in advance are those of the encoders.
\<close>

section \<open>Salts\<close>

text \<open>The salts of consecutive messages, sent with the given boots and times.\<close>

fun aes_salts :: "(u_int \<times> u_int) list \<Rightarrow> u_int \<times> u_int \<Rightarrow> bytes list" where
  "aes_salts [] s = []"
| "aes_salts ((boots, time) # ms) s = (let (iv, salt, s') = usm_set_aes_iv boots time s in salt # aes_salts ms s')"

fun des_salts :: "(u_int \<times> bytes) list \<Rightarrow> u_int \<Rightarrow> bytes list" where
  "des_salts [] s = []"
| "des_salts ((boots, priv_salt) # ms) s =
     (case usm_set_salt boots 8 priv_salt s of None \<Rightarrow> [] | Some (iv, salt, s') \<Rightarrow> salt # des_salts ms s')"

lemma be32_bytes: "be_val (be32 x) = unat x"
proof -
  define n where "n = unat x"
  have n: "n < 2 ^ 32" unfolding n_def using unsigned_less [of x, where ?'a = nat] by simp
  have b: "unat (ucast (drop_bit k x) :: u_char) = n div 2 ^ k mod 256" for k
    by (simp add: unat_ucast_mod unat_drop_bit n_def)
  have b0: "unat (ucast x :: u_char) = n mod 256" by (simp add: unat_ucast_mod n_def)
  have "be_val (be32 x) = n div 2 ^ 24 mod 256 * 256 ^ 3 + n div 2 ^ 16 mod 256 * 256 ^ 2 + n div 2 ^ 8 mod 256 * 256 + n mod 256"
    by (simp add: be32_def b b0)
  also have "\<dots> = n"
  proof -
    have "n div 2 ^ 24 mod 256 = n div 2 ^ 24" using n by (intro mod_less) (simp add: less_mult_imp_div_less)
    moreover have "n div 2 ^ 24 = n div 2 ^ 16 div 256" "n div 2 ^ 16 = n div 2 ^ 8 div 256" "n div 2 ^ 8 = n div 256"
      by (simp_all add: div_mult2_eq [symmetric])
    moreover have "a div 256 * 16777216 + a mod 256 * 65536 = a * 65536" for a :: nat
      using div_mult_mod_eq [of a 256] by linarith
    moreover have "a div 256 * 65536 + a mod 256 * 256 = a * 256" for a :: nat
      using div_mult_mod_eq [of a 256] by linarith
    moreover have "n div 256 * 256 + n mod 256 = n" by simp
    ultimately show ?thesis by simp
  qed
  finally show ?thesis by (simp add: n_def)
qed

lemma be32_inj: "be32 x = be32 y \<longleftrightarrow> x = y"
  using be32_bytes word_unat_eq_iff by metis

lemma length_be32 [simp]: "length (be32 x) = 4"
  by (simp add: be32_def)

text \<open>The low half of the AES counter, which runs through the nonzero words.\<close>

definition next_low :: "u_int \<Rightarrow> u_int" where
  "next_low s = (let s' = s + 1 in if s' = 0 then s' + 1 else s')"

lemma aes_salts_eq:
  "aes_salts ms (h, s) = map (\<lambda>i. be32 h @ be32 ((next_low ^^ i) s)) [0..<length ms]"
proof (induction ms arbitrary: s)
  case (Cons m ms)
  obtain boots time where m: "m = (boots, time)" by (cases m)
  have s: "(let s' = s + 1 in if s' = 0 then s' + 1 else s') = next_low s" by (simp add: next_low_def)
  have "aes_salts (m # ms) (h, s) = (be32 h @ be32 s) # aes_salts ms (h, next_low s)"
    by (simp add: m usm_set_aes_iv_def Let_def next_low_def)
  also have "\<dots> = map (\<lambda>i. be32 h @ be32 ((next_low ^^ i) s)) (0 # map Suc [0..<length ms])"
    by (simp add: Cons.IH comp_def funpow_swap1)
  also have "0 # map Suc [0..<length ms] = [0..<length (m # ms)]"
    by (simp add: map_Suc_upt upt_conv_Cons [of 0 "Suc (length ms)"] del: upt_Suc)
  finally show ?case .
qed simp

lemma next_low_unat:
  assumes "s \<noteq> 0"
  shows "next_low s \<noteq> 0 \<and> unat (next_low s) - 1 = (unat s - 1 + 1) mod (2 ^ 32 - 1)"
proof (cases "s = - 1")
  case True
  then have "unat s = 2 ^ 32 - 1" by (simp add: unsigned_minus_1_eq_mask mask_eq_exp_minus_1)
  then show ?thesis using True by (simp add: next_low_def)
next
  case False
  then have "s + 1 \<noteq> 0" by (metis add_eq_0_iff2)
  moreover from this have "unat (s + 1) = unat s + 1" using unatSuc [of s] by (simp add: add.commute)
  moreover have "unat s \<noteq> 0" using assms by (simp add: unat_eq_zero)
  moreover have "unat s < 2 ^ 32 - 1"
    using unsigned_less [of "s + 1", where ?'a = nat] \<open>unat (s + 1) = unat s + 1\<close> by simp
  ultimately show ?thesis by (simp add: next_low_def)
qed

lemma next_low_power:
  assumes "s \<noteq> 0"
  shows "(next_low ^^ i) s \<noteq> 0 \<and> unat ((next_low ^^ i) s) - 1 = (unat s - 1 + i) mod (2 ^ 32 - 1)"
proof (induction i)
  case 0
  have "unat s - 1 < 2 ^ 32 - 1" using unsigned_less [of s, where ?'a = nat] assms by (simp add: unat_eq_zero) 
  then show ?case using assms by simp
next
  case (Suc i)
  note n = next_low_unat [OF conjunct1 [OF Suc]]
  have "unat ((next_low ^^ Suc i) s) - 1 = ((unat s - 1 + i) mod (2 ^ 32 - 1) + 1) mod (2 ^ 32 - 1)"
    using n Suc by simp
  then show ?case using n by (simp add: mod_Suc_eq)
qed


lemma mod_add_inj:
  assumes "(a + i) mod m = (a + j) mod m" "i < m" "j < (m :: nat)"
  shows "i = j"
proof -
  have "x = y" if "x \<le> y" "(a + x) mod m = (a + y) mod m" "y < m" for x y
  proof -
    have "m dvd (a + y) - (a + x)" using that by (subst mod_eq_dvd_iff_nat [symmetric]) auto
    then have "m dvd y - x" by simp
    then show ?thesis using that by (auto dest: dvd_imp_le)
  qed
  then show ?thesis using assms by (metis le_cases)
qed

lemma next_low_inj:
  assumes "s \<noteq> 0" "i < 2 ^ 32 - 1" "j < 2 ^ 32 - 1" "(next_low ^^ i) s = (next_low ^^ j) s"
  shows "i = j"
proof -
  have "(unat s - 1 + i) mod (2 ^ 32 - 1) = (unat s - 1 + j) mod (2 ^ 32 - 1)"
    using next_low_power [OF assms(1)] assms(4) by metis
  then show ?thesis using assms(2,3) by (rule mod_add_inj)
qed

text \<open>
  The high half is never counted up: after \<open>2 ^ 32 - 1\<close> messages the same salt is sent again, although the counter
  has 64 bits.
\<close>

lemma aes_salt_repeats:
  assumes "s \<noteq> 0"
  shows "(next_low ^^ (2 ^ 32 - 1)) s = s"
proof -
  have "unat s - 1 < 2 ^ 32 - 1" using unsigned_less [of s, where ?'a = nat] assms by (simp add: unat_eq_zero)
  then have "unat ((next_low ^^ (2 ^ 32 - 1)) s) - 1 = unat s - 1" using next_low_power [OF assms, of "2 ^ 32 - 1"] by simp
  moreover have "unat ((next_low ^^ (2 ^ 32 - 1)) s) \<noteq> 0" "unat s \<noteq> 0"
    using next_low_power [OF assms, of "2 ^ 32 - 1"] assms by (simp_all add: unat_eq_zero del: funpow.simps)
  ultimately show ?thesis by (metis One_nat_def Suc_pred bot_nat_0.not_eq_extremum word_unat_eq_iff)
qed

lemma des_salts_eq:
  "\<forall>(b, k) \<in> set ms. 8 \<le> length k \<Longrightarrow>
   des_salts ms s = map (\<lambda>i. be32 (fst (ms ! i)) @ be32 (s + word_of_nat i)) [0..<length ms]"
proof (induction ms arbitrary: s)
  case (Cons m ms)
  obtain b k where m: "m = (b, k)" by (cases m)
  have "des_salts (m # ms) s = (be32 b @ be32 s) # des_salts ms (s + 1)"
    using Cons.prems by (simp add: m usm_set_salt_def Let_def)
  also have "\<dots> = map (\<lambda>i. be32 (fst ((m # ms) ! i)) @ be32 (s + word_of_nat i)) (0 # map Suc [0..<length ms])"
    using Cons.prems by (simp add: Cons.IH m comp_def ac_simps)
  also have "0 # map Suc [0..<length ms] = [0..<length (m # ms)]"
    by (simp add: map_Suc_upt upt_conv_Cons [of 0 "Suc (length ms)"] del: upt_Suc)
  finally show ?case .
qed simp

text \<open>
  C34. Salts are not reused: the salts of up to \<open>2 ^ 32 - 1\<close> consecutive AES messages (from a nonzero low counter)
  are all different, whatever boots and times they are sent with, and so are those of up to \<open>2 ^ 32\<close> consecutive
  DES messages.
\<close>

theorem usm_salts_unique:
  assumes "low \<noteq> 0" "length ms \<le> 2 ^ 32 - 1" "length ds \<le> 2 ^ 32" "\<forall>(b, k) \<in> set ds. 8 \<le> length k"
  shows "distinct (aes_salts ms (high, low)) \<and> length (aes_salts ms (high, low)) = length ms
    \<and> distinct (des_salts ds s) \<and> length (des_salts ds s) = length ds"
proof -
  have "inj_on (\<lambda>i. be32 high @ be32 ((next_low ^^ i) low)) {0..<length ms}"
    using next_low_inj [OF assms(1)] assms(2) by (auto simp: inj_on_def be32_inj)
  moreover have "inj_on (\<lambda>i. be32 (fst (ds ! i)) @ be32 (s + word_of_nat i)) {0..<length ds}"
  proof (rule inj_onI)
    fix i j
    assume ij: "i \<in> {0..<length ds}" "j \<in> {0..<length ds}"
      and eq: "be32 (fst (ds ! i)) @ be32 (s + word_of_nat i) = be32 (fst (ds ! j)) @ be32 (s + word_of_nat j)"
    have "be32 (s + word_of_nat i) = be32 (s + word_of_nat j)" using eq by simp
    then have "(word_of_nat i :: u_int) = word_of_nat j" by (simp only: be32_inj add_left_cancel)
    then show "i = j" using ij assms(3) by (simp add: word_of_nat_eq_iff take_bit_nat_eq_self)
  qed
  ultimately show ?thesis unfolding aes_salts_eq des_salts_eq [OF assms(4)] by (simp add: distinct_map)
qed

theorem usm_salts_unique_witness:
  "distinct (aes_salts [(1, 2), (1, 2), (1, 3)] (0, 0xFFFFFFFE)) \<and> distinct (des_salts [(1, replicate 8 0), (1, replicate 8 0)] 0xFFFFFFFF)"
  using usm_salts_unique [where low = "0xFFFFFFFE" and ms = "[(1, 2), (1, 2), (1, 3)]" and high = 0
      and ds = "[(1, replicate 8 0), (1, replicate 8 0)]" and s = "0xFFFFFFFF"]
  by simp


section \<open>Sizes computed in advance\<close>

lemma predict_int_trunc: "predict_int_loop n w = fst (asn_trunc_loop top9 n w)"
proof (induction n arbitrary: w)
  case 0
  then show ?case by (simp add: predict_int_loop.simps [of 0])
next
  case (Suc n)
  then show ?case by (simp add: predict_int_loop.simps [of "Suc n"])
qed

lemma length_emit_loop: "length (asn_emit_loop n w) = n"
  by (induction n arbitrary: w) auto

lemma trunc_loop_le: "fst (asn_trunc_loop m n w) \<le> n"
proof (induction n arbitrary: w)
  case (Suc n)
  show ?case using Suc [of "push_bit 8 w"] by simp
qed simp

lemma build_header_length:
  assumes "asn_build_header dl t len = Ret (h, dl')"
  shows "length h = (if len < 0x80 then 2 else if len \<le> 0xFF then 3 else 4)"
  using assms by (auto simp: asn_build_header_def asn_build_length_def cbind_eq_Ret split: if_splits)

lemma build_string_predicted:
  assumes "asn_build_string dl ASN_OCTET_STR (Some s) (length s) = Ret (bs, dl')" "length s \<noteq> 255"
  shows "\<exists>h. bs = h @ s \<and> length h + length s = asn_predict_length ASN_OCTET_STR 0 (length s)"
proof -
  obtain h d where "asn_build_header dl ASN_OCTET_STR (length s) = Ret (h, d)" "bs = h @ s"
    using assms(1) by (auto simp: asn_build_string_def asn_build_header_check_def cbind_eq_Ret split: if_splits)
  then show ?thesis using build_header_length assms(2) by (fastforce simp: asn_predict_length_def)
qed

lemma build_int_predicted:
  assumes "asn_build_int dl ASN_INTEGER i 8 = Ret (bs, dl')" "0 \<le> i" "i \<le> INT32_MAX"
  shows "length bs = asn_predict_length ASN_INTEGER (word_of_int i) 8"
proof -
  obtain n w where t: "asn_trunc_loop top9 8 (word_of_int i) = (n, w)" by (metis prod.collapse)
  have n: "n \<le> 8" using trunc_loop_le [of top9 8 "word_of_int i"] t by simp
  have "check_overflow_s i = i" using assms(2,3) by (simp add: check_overflow_s_def)
  then obtain h d where "asn_build_header dl ASN_INTEGER n = Ret (h, d)" "bs = h @ asn_emit_loop n w"
    using assms(1) t by (auto simp: asn_build_int_def asn_build_header_check_def cbind_eq_Ret Let_def split: if_splits)
  then have "length bs = 2 + n" using build_header_length [of dl ASN_INTEGER n h d] n by (simp add: length_emit_loop)
  then show ?thesis using n t by (simp add: asn_predict_length_def asn_predict_int_length_def predict_int_trunc)
qed


lemma usm_calc_offsets_fields:
  assumes o: "off = usm_calc_offsets g level elen nlen plen b t"
  defines "s \<equiv> asn_predict_length ASN_OCTET_STR 0"
    and "B \<equiv> asn_predict_length ASN_INTEGER b 8" and "T \<equiv> asn_predict_length ASN_INTEGER t 8"
    and "A \<equiv> uo_msgAuthParmLen off" and "P \<equiv> uo_msgPrivParmLen off"
  shows "uo_seq_len off = s elen + B + T + s nlen + s A + s P"
    "uo_otstlen off = 4 + uo_seq_len off"
    "uo_msgSecParmLen off = s (uo_otstlen off)"
    "uo_authParamsOffset off = g + (uo_msgSecParmLen off - uo_seq_len off) + s elen + B + T + s nlen + (s A - A)"
    "uo_privParamsOffset off = uo_authParamsOffset off + A + (s P - P)"
    "A \<noteq> 255" "P \<noteq> 255"
  unfolding assms usm_calc_offsets_def Let_def usm_offsets.simps by (simp_all only:) (simp_all add: asn_predict_length_def)

text \<open>
  C35. The offsets computed in advance for an outgoing message are those of the encoders: when the six security
  parameters, the sequence around them and the octet string around that are built (engine ID, user name and sequence
  not of length 255, boots and time in their range), the octet string has the predicted size, and the MAC and the
  privacy parameters lie at the predicted offsets.
\<close>

theorem usm_offsets_exact:
  assumes o: "off = usm_calc_offsets globalLen level (length eid) (length name) pduLen (word_of_int boots) (word_of_int time)"
    and b1: "asn_build_string d1 ASN_OCTET_STR (Some eid) (length eid) = Ret (e1, r1)" "length eid \<noteq> 255"
    and b2: "asn_build_int d2 ASN_INTEGER boots 8 = Ret (e2, r2)" "0 \<le> boots" "boots \<le> INT32_MAX"
    and b3: "asn_build_int d3 ASN_INTEGER time 8 = Ret (e3, r3)" "0 \<le> time" "time \<le> INT32_MAX"
    and b4: "asn_build_string d4 ASN_OCTET_STR (Some name) (length name) = Ret (e4, r4)" "length name \<noteq> 255"
    and b5: "asn_build_string d5 ASN_OCTET_STR (Some mac) (length mac) = Ret (e5, r5)" "length mac = uo_msgAuthParmLen off"
    and b6: "asn_build_string d6 ASN_OCTET_STR (Some priv) (length priv) = Ret (e6, r6)" "length priv = uo_msgPrivParmLen off"
    and b7: "asn_build_sequence d7 ASN_SEQUENCE_CON (uo_seq_len off) = Ret (h7, r7)"
    and b8: "asn_build_header d8 ASN_OCTET_STR (uo_otstlen off) = Ret (h8, r8)" "uo_otstlen off \<noteq> 255"
  shows "let whole = h8 @ h7 @ e1 @ e2 @ e3 @ e4 @ e5 @ e6 in
     length whole = uo_msgSecParmLen off \<and> length (e1 @ e2 @ e3 @ e4 @ e5 @ e6) = uo_seq_len off
     \<and> length (h7 @ e1 @ e2 @ e3 @ e4 @ e5 @ e6) = uo_otstlen off
     \<and> take (length mac) (drop (uo_authParamsOffset off - globalLen) whole) = mac
     \<and> take (length priv) (drop (uo_privParamsOffset off - globalLen) whole) = priv"
proof -
  let ?s = "\<lambda>n. asn_predict_length ASN_OCTET_STR 0 n"
  let ?B = "asn_predict_length ASN_INTEGER (word_of_int boots) 8" and ?T = "asn_predict_length ASN_INTEGER (word_of_int time) 8"
  note f = usm_calc_offsets_fields [OF o, folded b5(2) b6(2)]
  obtain h1 where e1: "e1 = h1 @ eid" "length h1 + length eid = ?s (length eid)" using build_string_predicted [OF b1] by blast
  obtain h4 where e4: "e4 = h4 @ name" "length h4 + length name = ?s (length name)" using build_string_predicted [OF b4] by blast
  obtain h5 where e5: "e5 = h5 @ mac" "length h5 + length mac = ?s (length mac)" using build_string_predicted [OF b5(1) f(6)] by blast
  obtain h6 where e6: "e6 = h6 @ priv" "length h6 + length priv = ?s (length priv)" using build_string_predicted [OF b6(1) f(7)] by blast
  have e2: "length e2 = ?B" using build_int_predicted [OF b2] .
  have e3: "length e3 = ?T" using build_int_predicted [OF b3] .
  have h7: "length h7 = 4" using b7 by (auto simp: asn_build_sequence_def split: if_splits)
  have h8: "length h8 + uo_otstlen off = ?s (uo_otstlen off)"
    using build_header_length [OF b8(1)] b8(2) by (auto simp: asn_predict_length_def)
  let ?pre = "h8 @ h7 @ e1 @ e2 @ e3 @ e4 @ h5"
  have ge: "globalLen \<le> uo_authParamsOffset off" unfolding f(4) by simp
  have la: "uo_authParamsOffset off - globalLen = length ?pre" using f(1-4) h8 h7 e1 e2 e3 e4 e5 by simp
  have "length h6 = ?s (length priv) - length priv" using e6(2) by simp
  then have lp: "uo_privParamsOffset off - globalLen = length (?pre @ mac @ h6)" using f(5) la ge by simp
  have w: "h8 @ h7 @ e1 @ e2 @ e3 @ e4 @ e5 @ e6 = ?pre @ mac @ e6" "h8 @ h7 @ e1 @ e2 @ e3 @ e4 @ e5 @ e6 = (?pre @ mac @ h6) @ priv"
    using e5 e6 by simp_all
  have "take (length mac) (drop (length ?pre) (?pre @ mac @ e6)) = mac" by simp
  moreover have "take (length priv) (drop (length (?pre @ mac @ h6)) ((?pre @ mac @ h6) @ priv)) = priv" by simp
  ultimately have t: "take (length mac) (drop (uo_authParamsOffset off - globalLen) (h8 @ h7 @ e1 @ e2 @ e3 @ e4 @ e5 @ e6)) = mac
     \<and> take (length priv) (drop (uo_privParamsOffset off - globalLen) (h8 @ h7 @ e1 @ e2 @ e3 @ e4 @ e5 @ e6)) = priv"
    unfolding la lp using w by metis
  have l: "length e1 = ?s (length eid)" "length e4 = ?s (length name)" "length e5 = ?s (length mac)" "length e6 = ?s (length priv)"
    using e1 e4 e5 e6 by simp_all
  have "length (e1 @ e2 @ e3 @ e4 @ e5 @ e6) = uo_seq_len off"
    unfolding f(1) length_append l e2 e3 by (simp only: add.assoc)
  moreover from this have "length (h7 @ e1 @ e2 @ e3 @ e4 @ e5 @ e6) = uo_otstlen off"
    unfolding f(2) by (simp only: length_append h7)
  moreover from this have "length (h8 @ h7 @ e1 @ e2 @ e3 @ e4 @ e5 @ e6) = uo_msgSecParmLen off"
    unfolding f(3) h8 [symmetric] by (simp only: length_append)
  ultimately show ?thesis unfolding Let_def using t by blast
qed


theorem usm_offsets_exact_witness:
  "uo_authParamsOffset (usm_calc_offsets 10 3 1 1 20 5 100) - 10 = 20
   \<and> take 8 (drop (uo_privParamsOffset (usm_calc_offsets 10 3 1 1 20 5 100) - 10)
       ([4, 40] @ [0x30, 0x82, 0, 36] @ [4, 1, 2] @ [2, 1, 5] @ [2, 1, 100] @ [4, 1, 97]
        @ ([4, 12] @ replicate 12 7) @ ([4, 8] @ replicate 8 9))) = replicate 8 (9 :: u_char)"
proof -
  let ?off = "usm_calc_offsets 10 3 (length [2 :: u_char]) (length [97 :: u_char]) 20 (word_of_int 5) (word_of_int 100)"
  have n: "asn_predict_int_length 5 = 1" "asn_predict_int_length 100 = 1"
    by (simp_all add: asn_predict_int_length_def predict_int_trunc asn_loop_numerals)
  have f: "uo_msgAuthParmLen ?off = 12" "uo_msgPrivParmLen ?off = 8" "uo_seq_len ?off = 36" "uo_otstlen ?off = 40"
    "uo_authParamsOffset ?off - 10 = 20"
    by (simp_all add: usm_calc_offsets_def Let_def asn_predict_length_def n)
  note build = asn_build_eval asn_build_string_def asn_copy_def asn_build_sequence_def asn_emit64_loop.simps
  have "asn_build_string 100 ASN_OCTET_STR (Some [2]) (length [2 :: u_char]) = Ret ([4, 1, 2], 97)"
    "asn_build_int 100 ASN_INTEGER 5 8 = Ret ([2, 1, 5], 97)"
    "asn_build_int 100 ASN_INTEGER 100 8 = Ret ([2, 1, 100], 97)"
    "asn_build_string 100 ASN_OCTET_STR (Some [97]) (length [97 :: u_char]) = Ret ([4, 1, 97], 97)"
    "asn_build_string 100 ASN_OCTET_STR (Some (replicate 12 7)) (length (replicate 12 (7 :: u_char))) = Ret ([4, 12] @ replicate 12 7, 86)"
    "asn_build_string 100 ASN_OCTET_STR (Some (replicate 8 9)) (length (replicate 8 (9 :: u_char))) = Ret ([4, 8] @ replicate 8 9, 90)"
    "asn_build_sequence 100 ASN_SEQUENCE_CON 36 = Ret ([0x30, 0x82, 0, 36], 96)"
    "asn_build_header 100 ASN_OCTET_STR 40 = Ret ([4, 40], 98)" by (simp_all add: build)
  note b = this
  have "length (replicate 12 (7 :: u_char)) = uo_msgAuthParmLen ?off" "length (replicate 8 (9 :: u_char)) = uo_msgPrivParmLen ?off"
    unfolding f by simp_all
  note t = usm_offsets_exact [OF refl b(1) _ b(2) _ _ b(3) _ _ b(4) _ b(5) this(1) b(6) this(2) b(7) [folded f(3)] b(8) [folded f(4)]]
  show ?thesis using t f by simp
qed

end
