(* ===== verification/Vacm.thy ===== *)
theory Vacm
  imports Oids
begin

text \<open>
  The view-based access control tables of \<^verbatim>\<open>snmplib/vacm.c\<close>: views, groups and access entries, kept in
  three singly linked lists sorted by their index. A linked list is the list of its entries in order; a
  pointer to a new entry is its position. Names are NUL-terminated strings without the terminator; their
  stored form has the length in front (\<open>vacm_str\<close>). Whether \<open>calloc\<close> succeeds is an argument of the
  creating functions. The fields \<open>reserved\<close> and \<open>bitMask\<close> (scratch space of the MIB modules) and the scan
  iterators are not modelled.
\<close>

section \<open>The entries\<close>

record view_entry =
  viewName :: bytes
  viewSubtree :: oid      \<comment> \<open>with the length in front, as in the code; \<open>viewSubtreeLen\<close> is its length\<close>
  viewMask :: bytes       \<comment> \<open>\<open>viewMaskLen\<close> is its length\<close>
  viewType :: int
  viewStorageType :: int
  viewStatus :: int

record group_entry =
  gr_securityModel :: int
  gr_securityName :: bytes
  gr_groupName :: bytes
  gr_storageType :: int
  gr_status :: int

record access_entry =
  ac_groupName :: bytes
  ac_contextPrefix :: bytes
  ac_securityModel :: int
  ac_securityLevel :: int
  ac_contextMatch :: int
  ac_views :: "bytes list"
  ac_storageType :: int
  ac_status :: int

record vacm =
  viewList :: "view_entry list"
  groupList :: "group_entry list"
  accessList :: "access_entry list"

abbreviation (input) VACM_MAX_STRING :: nat where "VACM_MAX_STRING \<equiv> 32"
abbreviation (input) VACM_SUCCESS :: int where "VACM_SUCCESS \<equiv> 0"
abbreviation (input) VACM_NOSECNAME :: int where "VACM_NOSECNAME \<equiv> 1"
abbreviation (input) VACM_NOGROUP :: int where "VACM_NOGROUP \<equiv> 2"
abbreviation (input) VACM_NOACCESS :: int where "VACM_NOACCESS \<equiv> 3"
abbreviation (input) VACM_NOVIEW :: int where "VACM_NOVIEW \<equiv> 4"
abbreviation (input) VACM_NOTINVIEW :: int where "VACM_NOTINVIEW \<equiv> 5"
abbreviation (input) VACM_NOSUCHCONTEXT :: int where "VACM_NOSUCHCONTEXT \<equiv> 6"
abbreviation (input) VACM_SUBTREE_UNKNOWN :: int where "VACM_SUBTREE_UNKNOWN \<equiv> 7"
abbreviation (input) SNMP_VIEW_INCLUDED :: int where "SNMP_VIEW_INCLUDED \<equiv> 1"
abbreviation (input) SNMP_VIEW_EXCLUDED :: int where "SNMP_VIEW_EXCLUDED \<equiv> 2"
abbreviation (input) SNMP_SEC_MODEL_ANY :: int where "SNMP_SEC_MODEL_ANY \<equiv> 0"
abbreviation (input) SNMP_SEC_MODEL_USM :: int where "SNMP_SEC_MODEL_USM \<equiv> 3"
abbreviation (input) CONTEXT_MATCH_EXACT :: int where "CONTEXT_MATCH_EXACT \<equiv> 1"
abbreviation (input) CONTEXT_MATCH_PREFIX :: int where "CONTEXT_MATCH_PREFIX \<equiv> 2"

datatype view_mode = VACM_MODE_FIND | VACM_MODE_IGNORE_MASK | VACM_MODE_CHECK_SUBTREE

text \<open>
  The stored form of a name, and \<open>memcmp\<close> of two zero-padded arrays over the first \<open>n\<close> bytes.
\<close>

definition vacm_str :: "bytes \<Rightarrow> bytes" where
  "vacm_str name = word_of_nat (length name) # name"

fun memcmp :: "nat \<Rightarrow> bytes \<Rightarrow> bytes \<Rightarrow> int" where
  "memcmp 0 a b = 0"
| "memcmp (Suc n) a b =
     (let x = (case a of [] \<Rightarrow> 0 | c # _ \<Rightarrow> c); y = (case b of [] \<Rightarrow> 0 | c # _ \<Rightarrow> c) in
      if x < y then -1 else if y < x then 1 else memcmp n (tl a) (tl b))"

section \<open>Views\<close>

text \<open>\<open>VIEW_MASK(vp, maskpos, mask) != 0\<close>: a mask shorter than the subtree is extended with ones.\<close>

definition VIEW_MASK :: "view_entry \<Rightarrow> nat \<Rightarrow> u_char \<Rightarrow> u_char" where
  "VIEW_MASK vp idx m = (if idx \<ge> length (viewMask vp) then m else viewMask vp ! idx AND m)"

text \<open>
  The loop over the sub-identifiers (\<open>left\<close> of them): the result is the flag \<open>found\<close>. With
  \<open>ignore\<close> every position is compared.
\<close>

fun view_match_loop :: "bool \<Rightarrow> view_entry \<Rightarrow> oid \<Rightarrow> nat \<Rightarrow> nat \<Rightarrow> u_char \<Rightarrow> nat \<Rightarrow> bool" where
  "view_match_loop ignore vp sub 0 oidpos m maskpos = True"
| "view_match_loop ignore vp sub (Suc left) oidpos m maskpos =
     (if (ignore \<or> VIEW_MASK vp maskpos m \<noteq> 0) \<and> sub ! oidpos \<noteq> viewSubtree vp ! (oidpos + 1) then False
      else if m = 1 then view_match_loop ignore vp sub left (oidpos + 1) 0x80 (maskpos + 1)
      else view_match_loop ignore vp sub left (oidpos + 1) (drop_bit 1 m) maskpos)"

definition view_name_eq :: "bytes \<Rightarrow> view_entry \<Rightarrow> bool" where
  "view_name_eq name vp \<longleftrightarrow> memcmp (length name + 1) (vacm_str name) (vacm_str (viewName vp)) = 0"

text \<open>An entry that the loop keeps instead of the one kept so far.\<close>

definition view_better :: "view_entry \<Rightarrow> view_entry option \<Rightarrow> bool" where
  "view_better vp vpret =
     (case vpret of
        None \<Rightarrow> True
      | Some r \<Rightarrow> length (viewSubtree vp) > length (viewSubtree r)
          \<or> length (viewSubtree vp) = length (viewSubtree r)
             \<and> snmp_oid_compare (tl (viewSubtree vp)) (tl (viewSubtree r)) > 0)"

fun view_get_loop :: "view_mode \<Rightarrow> bytes \<Rightarrow> oid \<Rightarrow> view_entry list \<Rightarrow> nat \<Rightarrow> view_entry option \<Rightarrow> nat \<times> view_entry option" where
  "view_get_loop mode name sub [] count vpret = (count, vpret)"
| "view_get_loop mode name sub (vp # vps) count vpret =
     (if view_name_eq name vp \<and> length sub \<ge> length (viewSubtree vp) - 1
         \<and> view_match_loop (mode = VACM_MODE_IGNORE_MASK) vp sub (length (viewSubtree vp) - 1) 0 0x80 0
      then view_get_loop mode name sub vps (count + 1)
             (if mode = VACM_MODE_CHECK_SUBTREE then Some vp
              else if view_better vp vpret then Some vp else vpret)
      else view_get_loop mode name sub vps count vpret)"

definition netsnmp_view_get :: "view_entry list \<Rightarrow> bytes \<Rightarrow> oid \<Rightarrow> view_mode \<Rightarrow> view_entry option" where
  "netsnmp_view_get head name sub mode =
     (if length name > VACM_MAX_STRING then None
      else let (count, vpret) = view_get_loop mode name sub head 0 None in
           if mode = VACM_MODE_CHECK_SUBTREE \<and> count > 1 then None else vpret)"

definition netsnmp_view_exists :: "view_entry list \<Rightarrow> bytes \<Rightarrow> nat" where
  "netsnmp_view_exists head name =
     (if length name > VACM_MAX_STRING then 0 else length (filter (view_name_eq name) head))"

text \<open>
  The loop of \<open>netsnmp_view_subtree_check\<close>: \<open>None\<close> is the early return of \<open>VACM_SUBTREE_UNKNOWN\<close>.
\<close>

fun subtree_check_loop ::
    "bytes \<Rightarrow> oid \<Rightarrow> view_entry list \<Rightarrow> view_entry option \<Rightarrow> view_entry option
      \<Rightarrow> (view_entry option \<times> view_entry option) option" where
  "subtree_check_loop name sub [] vpShorter vpLonger = Some (vpShorter, vpLonger)"
| "subtree_check_loop name sub (vp # vps) vpShorter vpLonger =
     (if view_name_eq name vp then
        (if length sub \<ge> length (viewSubtree vp) - 1 then
           (if view_match_loop False vp sub (length (viewSubtree vp) - 1) 0 0x80 0
               \<and> view_better vp vpShorter
            then subtree_check_loop name sub vps (Some vp) vpLonger
            else subtree_check_loop name sub vps vpShorter vpLonger)
         else if view_match_loop False vp sub (length sub) 0 0x80 0 then
           (case vpLonger of
              Some l \<Rightarrow> if viewType l \<noteq> viewType vp then None
                        else subtree_check_loop name sub vps vpShorter vpLonger
            | None \<Rightarrow> subtree_check_loop name sub vps vpShorter (Some vp))
         else subtree_check_loop name sub vps vpShorter vpLonger)
      else subtree_check_loop name sub vps vpShorter vpLonger)"

definition netsnmp_view_subtree_check :: "view_entry list \<Rightarrow> bytes \<Rightarrow> oid \<Rightarrow> int" where
  "netsnmp_view_subtree_check head name sub =
     (if length name > VACM_MAX_STRING then VACM_NOTINVIEW
      else case subtree_check_loop name sub head None None of
        None \<Rightarrow> VACM_SUBTREE_UNKNOWN
      | Some (vpShorter, vpLonger) \<Rightarrow>
          if (case vpLonger of
                None \<Rightarrow> False
              | Some l \<Rightarrow> (case vpShorter of None \<Rightarrow> viewType l \<noteq> SNMP_VIEW_EXCLUDED
                           | Some s \<Rightarrow> viewType l \<noteq> viewType s))
          then VACM_SUBTREE_UNKNOWN
          else (case vpShorter of
                  Some s \<Rightarrow> if viewType s \<noteq> SNMP_VIEW_EXCLUDED then VACM_SUCCESS else VACM_NOTINVIEW
                | None \<Rightarrow> VACM_NOTINVIEW))"

text \<open>
  Insertion into a sorted list: \<open>while (lp)\<close> the entry is passed unless \<open>stop\<close> says that it comes after
  the new one. The result is the list and the position of the new entry.
\<close>

fun table_insert :: "('e \<Rightarrow> bool) \<Rightarrow> 'e \<Rightarrow> 'e list \<Rightarrow> 'e list \<times> nat" where
  "table_insert stop vp [] = ([vp], 0)"
| "table_insert stop vp (lp # lps) =
     (if stop lp then (vp # lp # lps, 0)
      else let (r, n) = table_insert stop vp lps in (lp # r, n + 1))"

text \<open>
  Removal: the head is tried first, then the first matching entry behind it is unlinked.
\<close>

fun table_unlink :: "('e \<Rightarrow> bool) \<Rightarrow> 'e list \<Rightarrow> 'e list" where
  "table_unlink p [] = []"
| "table_unlink p (vp # vps) = (if p vp then vps else vp # table_unlink p vps)"

definition table_destroy :: "('e \<Rightarrow> bool) \<Rightarrow> 'e list \<Rightarrow> 'e list" where
  "table_destroy p head =
     (case head of
        [] \<Rightarrow> []
      | vp # vps \<Rightarrow> if p vp then vps else vp # table_unlink p vps)"

definition view_stop :: "view_entry \<Rightarrow> view_entry \<Rightarrow> bool" where
  "view_stop vp lp =
     (let cmp = memcmp (length (viewName vp) + 1) (vacm_str (viewName lp)) (vacm_str (viewName vp));
          cmp2 = snmp_oid_compare (viewSubtree lp) (viewSubtree vp)
      in cmp = 0 \<and> cmp2 > 0 \<or> cmp > 0)"

definition netsnmp_view_create ::
    "bool \<Rightarrow> view_entry list \<Rightarrow> bytes \<Rightarrow> oid \<Rightarrow> (view_entry list \<times> nat) option" where
  "netsnmp_view_create mem head name sub =
     (if length name > VACM_MAX_STRING \<or> length sub > 128 then None
      else if \<not> mem then None
      else let vp = \<lparr>viewName = name, viewSubtree = word_of_nat (length sub) # sub, viewMask = [],
                     viewType = 0, viewStorageType = 0, viewStatus = 0\<rparr>
           in Some (table_insert (view_stop vp) vp head))"

definition view_is :: "bytes \<Rightarrow> oid \<Rightarrow> view_entry \<Rightarrow> bool" where
  "view_is name sub vp \<longleftrightarrow> viewName vp = name \<and> length (viewSubtree vp) = length sub
     \<and> take (length sub) (viewSubtree vp) = sub"

definition netsnmp_view_destroy :: "view_entry list \<Rightarrow> bytes \<Rightarrow> oid \<Rightarrow> view_entry list" where
  "netsnmp_view_destroy head name sub = table_destroy (view_is name sub) head"

fun table_clear :: "'e list \<Rightarrow> 'e list" where
  "table_clear [] = []"
| "table_clear (vp # vps) = table_clear vps"

definition netsnmp_view_clear :: "view_entry list \<Rightarrow> view_entry list" where
  "netsnmp_view_clear head = table_clear head"

section \<open>Groups\<close>

fun vacm_getGroupEntry :: "group_entry list \<Rightarrow> int \<Rightarrow> bytes \<Rightarrow> group_entry option" where
  "vacm_getGroupEntry [] securityModel name = None"
| "vacm_getGroupEntry (vp # vps) securityModel name =
     (if length name > VACM_MAX_STRING then None
      else if (securityModel = gr_securityModel vp \<or> gr_securityModel vp = SNMP_SEC_MODEL_ANY)
              \<and> memcmp (length name + 1) (vacm_str (gr_securityName vp)) (vacm_str name) = 0
      then Some vp
      else vacm_getGroupEntry vps securityModel name)"

definition group_stop :: "group_entry \<Rightarrow> group_entry \<Rightarrow> bool" where
  "group_stop gp lg \<longleftrightarrow>
     gr_securityModel lg > gr_securityModel gp
     \<or> gr_securityModel lg = gr_securityModel gp
       \<and> memcmp (length (gr_securityName gp) + 1) (vacm_str (gr_securityName lg)) (vacm_str (gr_securityName gp)) > 0"

definition vacm_createGroupEntry :: "bool \<Rightarrow> group_entry list \<Rightarrow> int \<Rightarrow> bytes \<Rightarrow> (group_entry list \<times> nat) option" where
  "vacm_createGroupEntry mem groups securityModel name =
     (if length name > VACM_MAX_STRING then None
      else if \<not> mem then None
      else let gp = \<lparr>gr_securityModel = securityModel, gr_securityName = name, gr_groupName = [],
                     gr_storageType = 0, gr_status = 0\<rparr>
           in Some (table_insert (group_stop gp) gp groups))"

definition group_is :: "int \<Rightarrow> bytes \<Rightarrow> group_entry \<Rightarrow> bool" where
  "group_is securityModel name vp \<longleftrightarrow> gr_securityModel vp = securityModel \<and> gr_securityName vp = name"

definition vacm_destroyGroupEntry :: "group_entry list \<Rightarrow> int \<Rightarrow> bytes \<Rightarrow> group_entry list" where
  "vacm_destroyGroupEntry groups securityModel name = table_destroy (group_is securityModel name) groups"

definition vacm_destroyAllGroupEntries :: "group_entry list \<Rightarrow> group_entry list" where
  "vacm_destroyAllGroupEntries groups = table_clear groups"

section \<open>Access entries\<close>

definition vacm_choose_best :: "access_entry option \<Rightarrow> access_entry \<Rightarrow> access_entry" where
  "vacm_choose_best current candidate =
     (case current of
        None \<Rightarrow> candidate
      | Some cur \<Rightarrow>
          if ac_securityModel cur = SNMP_SEC_MODEL_ANY \<and> ac_securityModel candidate \<noteq> SNMP_SEC_MODEL_ANY
             \<or> ac_contextMatch cur = CONTEXT_MATCH_PREFIX \<and> ac_contextMatch candidate = CONTEXT_MATCH_EXACT
             \<or> ac_contextMatch cur = CONTEXT_MATCH_PREFIX
                \<and> length (ac_contextPrefix cur) < length (ac_contextPrefix candidate)
             \<or> ac_securityLevel cur < ac_securityLevel candidate
          then candidate else cur)"

definition access_matches :: "bytes \<Rightarrow> bytes \<Rightarrow> int \<Rightarrow> int \<Rightarrow> access_entry \<Rightarrow> bool" where
  "access_matches grp context securityModel securityLevel vp \<longleftrightarrow>
     (securityModel = ac_securityModel vp \<or> ac_securityModel vp = SNMP_SEC_MODEL_ANY)
     \<and> securityLevel \<ge> ac_securityLevel vp
     \<and> memcmp (length grp + 1) (vacm_str (ac_groupName vp)) (vacm_str grp) = 0
     \<and> (ac_contextMatch vp = CONTEXT_MATCH_EXACT
          \<and> length context = length (ac_contextPrefix vp)
          \<and> memcmp (length context + 1) (vacm_str (ac_contextPrefix vp)) (vacm_str context) = 0
        \<or> ac_contextMatch vp = CONTEXT_MATCH_PREFIX
          \<and> length context \<ge> length (ac_contextPrefix vp)
          \<and> memcmp (length (ac_contextPrefix vp)) (ac_contextPrefix vp) context = 0)"

fun access_loop :: "bytes \<Rightarrow> bytes \<Rightarrow> int \<Rightarrow> int \<Rightarrow> access_entry list \<Rightarrow> access_entry option \<Rightarrow> access_entry option" where
  "access_loop grp context securityModel securityLevel [] best = best"
| "access_loop grp context securityModel securityLevel (vp # vps) best =
     access_loop grp context securityModel securityLevel vps
       (if access_matches grp context securityModel securityLevel vp
        then Some (vacm_choose_best best vp) else best)"

definition vacm_getAccessEntry :: "access_entry list \<Rightarrow> bytes \<Rightarrow> bytes \<Rightarrow> int \<Rightarrow> int \<Rightarrow> access_entry option" where
  "vacm_getAccessEntry accesses grp context securityModel securityLevel =
     (if length grp > VACM_MAX_STRING then None
      else if length context > VACM_MAX_STRING then None
      else access_loop grp context securityModel securityLevel accesses None)"

definition access_stop :: "access_entry \<Rightarrow> access_entry \<Rightarrow> bool" where
  "access_stop vp lp =
     (let cmp = memcmp (length (ac_groupName vp) + 1) (vacm_str (ac_groupName lp)) (vacm_str (ac_groupName vp)) in
      if cmp > 0 then True
      else if cmp < 0 then False
      else let cmp = memcmp (length (ac_contextPrefix vp) + 1) (vacm_str (ac_contextPrefix lp)) (vacm_str (ac_contextPrefix vp)) in
        if cmp > 0 then True
        else if cmp < 0 then False
        else if ac_securityModel lp > ac_securityModel vp then True
        else if ac_securityModel lp < ac_securityModel vp then False
        else ac_securityLevel lp > ac_securityLevel vp)"

definition vacm_createAccessEntry ::
    "bool \<Rightarrow> access_entry list \<Rightarrow> bytes \<Rightarrow> bytes \<Rightarrow> int \<Rightarrow> int \<Rightarrow> (access_entry list \<times> nat) option" where
  "vacm_createAccessEntry mem accesses grp context securityModel securityLevel =
     (if length grp > VACM_MAX_STRING then None
      else if length context > VACM_MAX_STRING then None
      else if \<not> mem then None
      else let vp = \<lparr>ac_groupName = grp, ac_contextPrefix = context, ac_securityModel = securityModel,
                     ac_securityLevel = securityLevel, ac_contextMatch = 0, ac_views = replicate 8 [],
                     ac_storageType = 0, ac_status = 0\<rparr>
           in Some (table_insert (access_stop vp) vp accesses))"

definition access_is :: "bytes \<Rightarrow> bytes \<Rightarrow> int \<Rightarrow> int \<Rightarrow> access_entry \<Rightarrow> bool" where
  "access_is grp context securityModel securityLevel vp \<longleftrightarrow>
     ac_securityModel vp = securityModel \<and> ac_securityLevel vp = securityLevel
     \<and> ac_groupName vp = grp \<and> ac_contextPrefix vp = context"

definition vacm_destroyAccessEntry :: "access_entry list \<Rightarrow> bytes \<Rightarrow> bytes \<Rightarrow> int \<Rightarrow> int \<Rightarrow> access_entry list" where
  "vacm_destroyAccessEntry accesses grp context securityModel securityLevel =
     table_destroy (access_is grp context securityModel securityLevel) accesses"

definition vacm_destroyAllAccessEntries :: "access_entry list \<Rightarrow> access_entry list" where
  "vacm_destroyAllAccessEntries accesses = table_clear accesses"

definition vacm_is_configured :: "vacm \<Rightarrow> bool" where
  "vacm_is_configured st \<longleftrightarrow> \<not> (accessList st = [] \<and> groupList st = [])"

section \<open>The simple API for USM users\<close>

text \<open>
  A group name is \<open>grp\<close> and at most 28 characters of the user, with every character that is not
  alphanumeric replaced by an underscore when the entry is created.
\<close>

definition isalnum :: "u_char \<Rightarrow> bool" where
  "isalnum c \<longleftrightarrow> 0x30 \<le> c \<and> c \<le> 0x39 \<or> 0x41 \<le> c \<and> c \<le> 0x5A \<or> 0x61 \<le> c \<and> c \<le> 0x7A"

definition grp_name :: "bytes \<Rightarrow> bytes" where
  "grp_name user = [0x67, 0x72, 0x70] @ take 28 user"

definition all_view :: bytes where "all_view = [0x5F, 0x61, 0x6C, 0x6C, 0x5F]" \<comment> \<open>\<open>_all_\<close>\<close>

definition none_view :: bytes where "none_view = [0x6E, 0x6F, 0x6E, 0x65]" \<comment> \<open>\<open>none\<close>\<close>

text \<open>
  The wildcard test: \<open>context[contextLen - 1]\<close> is read also for the empty string (in front of the
  array), and \<open>localContext[contextLen - 1] = 0\<close> is written also when the context is longer than the array:
  both are \<open>Overrun\<close>. The result is the context and whether it is a prefix.
\<close>

definition simple_context :: "bytes option \<Rightarrow> (bytes \<times> bool) cres" where
  "simple_context context =
     (case context of
        None \<Rightarrow> Ret ([], False)
      | Some c \<Rightarrow>
          if c = [] then Overrun
          else if last c = 0x2A then
            (if length c > 34 then Overrun else Ret (butlast c, True))
          else Ret (c, False))"

text \<open>
  The view argument of \<open>netsnmp_vacm_simple_usm_add\<close>: the name to use, the new view list and the position of
  a view it created. \<open>Null\<close> is the return of \<open>SNMPERR_GENERR\<close>.
\<close>

definition simple_view :: "bool \<Rightarrow> vacm \<Rightarrow> bytes option \<Rightarrow> oid option \<Rightarrow> (bytes \<times> view_entry list \<times> nat option) cres" where
  "simple_view mem st view oidView =
     (let noOid = (case oidView of None \<Rightarrow> True | Some v \<Rightarrow> length v = 0) in
      case view of
        Some v \<Rightarrow>
          if netsnmp_view_exists (viewList st) v \<noteq> 0 then
            (if oidView \<noteq> None then Null else Ret (v, viewList st, None))
          else if noOid then Null
          else (case netsnmp_view_create mem (viewList st) v (the oidView) of
                  None \<Rightarrow> Null
                | Some (views, pos) \<Rightarrow> Ret (v, views, Some pos))
      | None \<Rightarrow> if noOid then Ret (all_view, viewList st, None) else Null)"

definition netsnmp_vacm_simple_usm_add ::
    "bool \<Rightarrow> bool \<Rightarrow> bool \<Rightarrow> vacm \<Rightarrow> bytes \<Rightarrow> int \<Rightarrow> int \<Rightarrow> bytes option \<Rightarrow> oid option \<Rightarrow> bytes option \<Rightarrow> (int \<times> vacm) cres" where
  "netsnmp_vacm_simple_usm_add mem1 mem2 mem3 st user rw authLevel view oidView context =
     (if authLevel < 1 \<or> authLevel > 3 then Ret (-1, st)
      else case simple_view mem1 st view oidView of
        Overrun \<Rightarrow> Overrun
      | Null \<Rightarrow> Ret (-1, st)
      | Ret (vname, views, vpos) \<Rightarrow>
          let bail = (\<lambda>st. Ret (-1,
                 st\<lparr>viewList := (case vpos of None \<Rightarrow> viewList st
                      | Some p \<Rightarrow> netsnmp_view_destroy (viewList st) (viewName (viewList st ! p)) (viewSubtree (viewList st ! p)))\<rparr>));
              st = st\<lparr>viewList := views\<rparr> in
          (case vacm_createGroupEntry mem2 (groupList st) SNMP_SEC_MODEL_USM user of
             None \<Rightarrow> bail st
           | Some (groups, gpos) \<Rightarrow>
               let grp = map (\<lambda>c. if isalnum c then c else 0x5F) (grp_name user);
                   gp = (groups ! gpos)\<lparr>gr_groupName := grp, gr_storageType := 4, gr_status := 1\<rparr>;
                   st = st\<lparr>groupList := groups[gpos := gp]\<rparr> in
               cbind (simple_context context) (\<lambda>(ctx, wild).
                 (case vacm_createAccessEntry mem3 (accessList st) grp ctx SNMP_SEC_MODEL_USM authLevel of
                    None \<Rightarrow> bail (st\<lparr>groupList := vacm_destroyGroupEntry (groupList st) SNMP_SEC_MODEL_USM user\<rparr>)
                  | Some (accesses, apos) \<Rightarrow>
                      let wview = take 33 (if rw = 0 then none_view else vname);
                          views' = (ac_views (accesses ! apos))[0 := take 33 vname, 1 := wview, 2 := wview];
                          ap = (accesses ! apos)\<lparr>ac_views := views', ac_contextMatch := if wild then 2 else 1,
                                 ac_storageType := 4, ac_status := 1\<rparr>
                      in Ret (0, st\<lparr>accessList := accesses[apos := ap]\<rparr>)))))"

definition netsnmp_vacm_simple_usm_del ::
    "vacm \<Rightarrow> bytes \<Rightarrow> int \<Rightarrow> bytes option \<Rightarrow> oid option \<Rightarrow> bytes option \<Rightarrow> (int \<times> vacm) cres" where
  "netsnmp_vacm_simple_usm_del st user authLevel view oidView context =
     (let st = (case (view, oidView) of
                  (Some v, Some sub) \<Rightarrow>
                    if length sub > 0 \<and> v \<noteq> all_view \<and> netsnmp_view_exists (viewList st) v = 1
                    then st\<lparr>viewList := netsnmp_view_destroy (viewList st) v sub\<rparr> else st
                | _ \<Rightarrow> st);
          st = st\<lparr>groupList := vacm_destroyGroupEntry (groupList st) SNMP_SEC_MODEL_USM user\<rparr>
      in cbind (simple_context context) (\<lambda>(ctx, wild).
           Ret (0, st\<lparr>accessList := vacm_destroyAccessEntry (accessList st) (grp_name user) ctx
                                      SNMP_SEC_MODEL_USM authLevel\<rparr>)))"

end
