(* ===== verification/Agent.thy ===== *)
theory Agent
  imports Oids
begin

text \<open>
  The request processing of the agent (\<^verbatim>\<open>agent/snmp_agent.c\<close> and the handler chain of
  \<^verbatim>\<open>agent/agent_handler.c\<close>): calling the handlers of the subtrees, collecting the errors they mark, and the
  phases of a SET. The functions registered for a subtree are arbitrary: they get the mode, the requests and a
  state of their own (the type variable), and give back a return code, whether they set
  \<open>MIB_HANDLER_AUTO_NEXT_OVERRIDE_ONCE\<close>, the requests and the new state. Log messages and statistics are not
  modelled.
\<close>

section \<open>Requests and sessions\<close>

record request =
  rq_index :: int          \<comment> \<open>position of the variable binding in the PDU\<close>
  rq_status :: int
  rq_processed :: bool
  rq_delegated :: bool
  rq_inclusive :: int
  rq_repeat :: int
  rq_type :: int           \<comment> \<open>\<open>requestvb->type\<close>\<close>
  rq_name :: oid           \<comment> \<open>\<open>requestvb->name\<close>\<close>
  rq_range_end :: oid

record 'w handler =
  access_method :: "(int \<Rightarrow> request list \<Rightarrow> 'w \<Rightarrow> int \<times> bool \<times> request list \<times> 'w) option"
  auto_next :: bool        \<comment> \<open>\<open>MIB_HANDLER_AUTO_NEXT\<close>\<close>

record 'w reginfo =
  rg_handler :: "'w handler list"   \<comment> \<open>the chain, \<open>[]\<close> for \<open>handler == NULL\<close>\<close>
  rg_getandgetnext :: bool          \<comment> \<open>\<open>modes & HANDLER_CAN_GETANDGETNEXT\<close>\<close>
  rg_set :: bool                    \<comment> \<open>\<open>modes & HANDLER_CAN_SET\<close>\<close>

record 'w tree_cache =
  tc_reginfo :: "'w reginfo option"
  tc_requests :: "request list"

record 'w session =
  as_mode :: int
  as_oldmode :: int
  as_status :: int
  as_index :: int
  as_one_pass :: bool               \<comment> \<open>\<open>pdu->flags & UCD_MSG_FLAG_ONE_PASS_ONLY\<close>\<close>
  as_cancel :: bool                 \<comment> \<open>\<open>flags & SNMP_AGENT_FLAGS_CANCEL_IN_PROGRESS\<close>\<close>
  as_treecache :: "'w tree_cache list"
  as_world :: 'w                    \<comment> \<open>the state of the handlers\<close>

abbreviation (input) MODE_GET :: int where "MODE_GET \<equiv> 160"
abbreviation (input) MODE_GETNEXT :: int where "MODE_GETNEXT \<equiv> 161"
abbreviation (input) MODE_GETBULK :: int where "MODE_GETBULK \<equiv> 165"
abbreviation (input) MODE_SET_BEGIN :: int where "MODE_SET_BEGIN \<equiv> -1"
abbreviation (input) MODE_SET_RESERVE1 :: int where "MODE_SET_RESERVE1 \<equiv> 0"
abbreviation (input) MODE_SET_RESERVE2 :: int where "MODE_SET_RESERVE2 \<equiv> 1"
abbreviation (input) MODE_SET_ACTION :: int where "MODE_SET_ACTION \<equiv> 2"
abbreviation (input) MODE_SET_COMMIT :: int where "MODE_SET_COMMIT \<equiv> 3"
abbreviation (input) MODE_SET_FREE :: int where "MODE_SET_FREE \<equiv> 4"
abbreviation (input) MODE_SET_UNDO :: int where "MODE_SET_UNDO \<equiv> 5"
abbreviation (input) FINISHED_SUCCESS :: int where "FINISHED_SUCCESS \<equiv> 9"
abbreviation (input) FINISHED_FAILURE :: int where "FINISHED_FAILURE \<equiv> 10"
abbreviation (input) SNMP_ERR_NOERROR :: int where "SNMP_ERR_NOERROR \<equiv> 0"
abbreviation (input) SNMP_ERR_NOSUCHNAME :: int where "SNMP_ERR_NOSUCHNAME \<equiv> 2"
abbreviation (input) SNMP_ERR_GENERR :: int where "SNMP_ERR_GENERR \<equiv> 5"
abbreviation (input) SNMP_ERR_NOCREATION :: int where "SNMP_ERR_NOCREATION \<equiv> 11"
abbreviation (input) SNMP_ERR_COMMITFAILED :: int where "SNMP_ERR_COMMITFAILED \<equiv> 14"
abbreviation (input) SNMP_ERR_UNDOFAILED :: int where "SNMP_ERR_UNDOFAILED \<equiv> 15"
abbreviation (input) SNMP_ERR_NOTWRITABLE :: int where "SNMP_ERR_NOTWRITABLE \<equiv> 17"
abbreviation (input) SNMP_NOSUCHOBJECT :: int where "SNMP_NOSUCHOBJECT \<equiv> 0x80"
abbreviation (input) SNMP_NOSUCHINSTANCE :: int where "SNMP_NOSUCHINSTANCE \<equiv> 0x81"
abbreviation (input) SNMP_ENDOFMIBVIEW :: int where "SNMP_ENDOFMIBVIEW \<equiv> 0x82"

section \<open>Marking and collecting errors\<close>

definition request_set_error :: "request \<Rightarrow> int \<Rightarrow> int \<Rightarrow> request" where \<comment> \<open>\<open>_request_set_error\<close>\<close>
  "request_set_error r mode err =
     (let r = r\<lparr>rq_processed := True, rq_delegated := False\<rparr> in
      if err = SNMP_NOSUCHOBJECT \<or> err = SNMP_NOSUCHINSTANCE \<or> err = SNMP_ENDOFMIBVIEW then
        (if mode = MODE_GET \<or> mode = MODE_GETNEXT \<or> mode = MODE_GETBULK then r\<lparr>rq_type := err\<rparr>
         else if mode = MODE_SET_RESERVE1 then r\<lparr>rq_status := SNMP_ERR_NOCREATION\<rparr>
         else r\<lparr>rq_status := SNMP_ERR_NOSUCHNAME\<rparr>)
      else if err < 0 then r\<lparr>rq_status := SNMP_ERR_GENERR\<rparr>
      else r\<lparr>rq_status := err\<rparr>)"

definition netsnmp_set_request_error :: "int \<Rightarrow> request \<Rightarrow> int \<Rightarrow> request \<times> int" where
  "netsnmp_set_request_error mode r err = (request_set_error r mode err, err)"

text \<open>The list must have an element \<open>idx\<close>, counted from 1; \<open>None\<close> is \<open>SNMPERR_NO_VARS\<close>.\<close>

definition netsnmp_request_set_error_idx :: "int \<Rightarrow> request list \<Rightarrow> int \<Rightarrow> nat \<Rightarrow> request list option" where
  "netsnmp_request_set_error_idx mode rs err idx =
     (if rs = [] then None
      else if idx - 1 < length rs then Some (rs[idx - 1 := request_set_error (rs ! (idx - 1)) mode err])
      else None)"

definition netsnmp_request_set_error_all :: "int \<Rightarrow> request list \<Rightarrow> int \<Rightarrow> request list option" where
  "netsnmp_request_set_error_all mode rs err =
     (if rs = [] then None else Some (map (\<lambda>r. request_set_error r mode err) rs))"

fun netsnmp_check_requests_error :: "request list \<Rightarrow> int" where
  "netsnmp_check_requests_error [] = SNMP_ERR_NOERROR"
| "netsnmp_check_requests_error (r # rs) =
     (if rq_status r \<noteq> SNMP_ERR_NOERROR then rq_status r else netsnmp_check_requests_error rs)"

fun netsnmp_check_all_requests_error :: "request list \<Rightarrow> int \<Rightarrow> int" where
  "netsnmp_check_all_requests_error [] specific = SNMP_ERR_NOERROR"
| "netsnmp_check_all_requests_error (r # rs) specific =
     (if rq_status r \<noteq> SNMP_ERR_NOERROR \<and> (specific = 0 \<or> rq_status r = specific) then rq_status r
      else netsnmp_check_all_requests_error rs specific)"

text \<open>\<open>netsnmp_check_requests_status\<close>: the new \<open>asp->index\<close> and \<open>asp->status\<close>, which is also returned.\<close>

fun netsnmp_check_requests_status :: "int \<times> int \<Rightarrow> request list \<Rightarrow> int \<Rightarrow> int \<times> int" where
  "netsnmp_check_requests_status (index, status) [] specific = (index, status)"
| "netsnmp_check_requests_status (index, status) (r # rs) specific =
     (if rq_status r \<noteq> SNMP_ERR_NOERROR
         \<and> (specific = 0 \<or> rq_status r = specific)
         \<and> (specific \<noteq> 0 \<or> index = 0 \<or> rq_index r \<le> index)
      then netsnmp_check_requests_status (rq_index r, rq_status r) rs specific
      else netsnmp_check_requests_status (index, status) rs specific)"

definition netsnmp_check_all_requests_status :: "'w session \<Rightarrow> int \<Rightarrow> 'w session" where
  "netsnmp_check_all_requests_status asp specific =
     (let (index, status) = fold (\<lambda>tc st. netsnmp_check_requests_status st (tc_requests tc) specific)
            (as_treecache asp) (as_index asp, as_status asp)
      in asp\<lparr>as_index := index, as_status := status\<rparr>)"

section \<open>Calling the handlers\<close>

fun netsnmp_call_handler :: "'w handler list \<Rightarrow> int \<Rightarrow> request list \<Rightarrow> 'w \<Rightarrow> int \<times> request list \<times> 'w" where
  "netsnmp_call_handler [] mode rs w = (SNMP_ERR_GENERR, rs, w)"
| "netsnmp_call_handler (h # hs) mode rs w =
     (case access_method h of
        None \<Rightarrow> (if hs \<noteq> [] then SNMP_ERR_GENERR else SNMP_ERR_NOERROR, rs, w)
      | Some nh \<Rightarrow>
          let (ret, override, rs, w) = nh mode rs w in
          if \<not> auto_next h then (ret, rs, w)
          else if override then (ret, rs, w)
          else if hs = [] then (ret, rs, w)
          else netsnmp_call_handler hs mode rs w)"

definition netsnmp_call_handlers :: "'w reginfo \<Rightarrow> int \<Rightarrow> request list \<Rightarrow> 'w \<Rightarrow> int \<times> request list \<times> 'w" where
  "netsnmp_call_handlers reginfo mode rs w =
     (if rs = [] then (SNMP_ERR_GENERR, rs, w)
      else if rg_handler reginfo = [] then (SNMP_ERR_GENERR, rs, w)
      else let go = netsnmp_call_handler (rg_handler reginfo) mode (map (\<lambda>r. r\<lparr>rq_processed := False\<rparr>) rs) w in
        if mode = MODE_GETBULK \<or> mode = MODE_GET \<or> mode = MODE_GETNEXT then
          (if \<not> rg_getandgetnext reginfo then (SNMP_ERR_NOERROR, rs, w) else go)
        else if mode = MODE_SET_RESERVE1 \<or> mode = MODE_SET_RESERVE2 \<or> mode = MODE_SET_ACTION
             \<or> mode = MODE_SET_COMMIT \<or> mode = MODE_SET_FREE \<or> mode = MODE_SET_UNDO then
          (if \<not> rg_set reginfo
           then (SNMP_ERR_NOERROR, map (\<lambda>r. fst (netsnmp_set_request_error mode r SNMP_ERR_NOTWRITABLE)) rs, w)
           else go)
        else (SNMP_ERR_GENERR, rs, w))"

text \<open>The error that \<open>handle_var_requests\<close> looks for after the handlers of a subtree have run.\<close>

definition specific_error :: "int \<Rightarrow> int" where
  "specific_error mode =
     (if mode = MODE_SET_COMMIT then SNMP_ERR_COMMITFAILED
      else if mode = MODE_SET_UNDO then SNMP_ERR_UNDOFAILED else 0)"

text \<open>The loop over the tree cache: the new cache, handler state, index, status and \<open>final_status\<close>.\<close>

fun var_requests_loop ::
    "int \<Rightarrow> 'w tree_cache list \<Rightarrow> 'w \<Rightarrow> int \<times> int \<Rightarrow> int \<Rightarrow> 'w tree_cache list \<times> 'w \<times> (int \<times> int) \<times> int" where
  "var_requests_loop mode [] w st final_status = ([], w, st, final_status)"
| "var_requests_loop mode (tc # tcs) w st final_status =
     (let (status, rs, w) = (case tc_reginfo tc of
              Some reginfo \<Rightarrow> netsnmp_call_handlers reginfo mode (tc_requests tc) w
            | None \<Rightarrow> (SNMP_ERR_GENERR, tc_requests tc, w));
          st = netsnmp_check_requests_status st rs (specific_error mode);
          status = (if snd st \<noteq> SNMP_ERR_NOERROR then snd st else status);
          final_status = (if final_status = SNMP_ERR_NOERROR \<and> status \<noteq> SNMP_ERR_NOERROR then status else final_status);
          (tcs, w, st, final_status) = var_requests_loop mode tcs w st final_status
      in (tc\<lparr>tc_requests := rs\<rparr> # tcs, w, st, final_status))"

definition handle_var_requests :: "'w session \<Rightarrow> int \<times> 'w session" where
  "handle_var_requests asp =
     (let (tcs, w, (index, status), final_status) =
            var_requests_loop (as_mode asp) (as_treecache asp) (as_world asp) (as_index asp, as_status asp) SNMP_ERR_NOERROR
      in (final_status, asp\<lparr>as_treecache := tcs, as_world := w, as_index := index, as_status := status\<rparr>))"

text \<open>An empty tree cache stands for \<open>asp->treecache == NULL\<close>.\<close>

definition netsnmp_check_for_delegated :: "'w session \<Rightarrow> bool" where
  "netsnmp_check_for_delegated asp \<longleftrightarrow>
     \<not> as_cancel asp \<and> (\<exists>tc \<in> set (as_treecache asp). \<exists>r \<in> set (tc_requests tc). rq_delegated r)"

section \<open>The phases of a SET\<close>

text \<open>The \<open>switch\<close> of \<open>handle_set\<close>: the next mode.\<close>

definition set_next_mode :: "int \<Rightarrow> int \<Rightarrow> int" where
  "set_next_mode mode status =
     (if mode = MODE_SET_BEGIN then MODE_SET_RESERVE1
      else if mode = MODE_SET_RESERVE1 then (if status \<noteq> SNMP_ERR_NOERROR then MODE_SET_FREE else MODE_SET_RESERVE2)
      else if mode = MODE_SET_RESERVE2 then (if status \<noteq> SNMP_ERR_NOERROR then MODE_SET_FREE else MODE_SET_ACTION)
      else if mode = MODE_SET_ACTION then (if status \<noteq> SNMP_ERR_NOERROR then MODE_SET_UNDO else MODE_SET_COMMIT)
      else if mode = MODE_SET_COMMIT then (if status \<noteq> SNMP_ERR_NOERROR then FINISHED_FAILURE else FINISHED_SUCCESS)
      else if mode = MODE_SET_UNDO then FINISHED_FAILURE
      else if mode = MODE_SET_FREE then FINISHED_FAILURE
      else mode)"

definition finished :: "int \<Rightarrow> bool" where
  "finished mode \<longleftrightarrow> mode = FINISHED_SUCCESS \<or> mode = FINISHED_FAILURE"

definition set_advance :: "'w session \<Rightarrow> 'w session" where
  "set_advance asp =
     (if \<not> as_one_pass asp
      then asp\<lparr>as_mode := set_next_mode (as_mode asp) (as_status asp),
               as_status := (if as_mode asp = MODE_SET_BEGIN then SNMP_ERR_NOERROR else as_status asp)\<rparr>
      else asp)"

definition handle_set :: "'w session \<Rightarrow> int \<times> 'w session" where
  "handle_set asp =
     (let asp = set_advance asp in
      if \<not> finished (as_mode asp) then
        let (status, asp) = handle_var_requests asp;
            asp = (if status \<noteq> SNMP_ERR_NOERROR \<and> as_status asp = SNMP_ERR_NOERROR
                      \<or> status = SNMP_ERR_COMMITFAILED \<or> status = SNMP_ERR_UNDOFAILED
                   then asp\<lparr>as_status := status\<rparr> else asp)
        in (as_status asp, asp)
      else (as_status asp, asp))"

text \<open>
  The loop need not end: outside the modes of a SET it makes no progress. \<open>None\<close> is a loop that runs forever.
\<close>

partial_function (option) handle_set_loop :: "'w session \<Rightarrow> (int \<times> 'w session) option" where
  "handle_set_loop asp =
     (if finished (as_mode asp) then Some (as_status asp, asp)
      else let asp' = snd (handle_set asp) in
        if netsnmp_check_for_delegated asp' then Some (SNMP_ERR_NOERROR, asp')
        else if as_one_pass asp' then Some (as_status asp', asp')
        else handle_set_loop asp')"

end
