(* ===== verification/AgentReply.thy ===== *)
theory AgentReply
  imports Agent "HOL-Library.Signed_Division"
begin

text \<open>
  What the agent does around the handlers: the preparation of a GETBULK and the rearrangement of its answers,
  the check of GETNEXT results against the range of their subtree, the names of \<open>endOfMibView\<close> answers, and the
  translation of results for SNMPv1. The answers of a GETBULK are an array of variable bindings (\<open>bulkcache\<close>)
  whose \<open>next_variable\<close> pointers are a function on the positions.
\<close>

record varbind =
  vb_name :: oid
  vb_type :: int
  vb_val :: bytes

abbreviation (input) ASN_NULL_t :: int where "ASN_NULL_t \<equiv> 5"
abbreviation (input) ASN_COUNTER64_t :: int where "ASN_COUNTER64_t \<equiv> 0x46"
abbreviation (input) ASN_PRIV_RETRY :: int where "ASN_PRIV_RETRY \<equiv> 0xC7"

section \<open>Preparing a GETBULK\<close>

text \<open>
  The part of \<open>netsnmp_create_subtree_cache\<close> before the collection of the variables: non-repeaters,
  repeaters and the number of repetitions. The three settings are 0 when not configured.
\<close>

definition bulk_prep :: "int \<Rightarrow> int \<Rightarrow> int \<Rightarrow> int \<Rightarrow> int \<Rightarrow> int \<Rightarrow> int \<Rightarrow> int \<times> int \<times> int" where
  "bulk_prep errstat errindex cnt msgMaxSize maxbulk maxresponses avgvarbind =
     (let errstat = (if errstat < 0 then 0 else errstat);
          errindex = (if errindex < 0 then 0 else errindex);
          n = (if errstat < cnt then errstat else cnt);
          r = cnt - n in
      if r \<le> 0 then (n, 0, errindex)
      else let maxresponses = (if maxresponses = 0 then 100 else maxresponses);
               maxresponses = (if maxresponses < 0 \<or> maxresponses > 268435455 then 268435455 else maxresponses);
               avgvarbind = (if avgvarbind \<le> 0 then 15 else avgvarbind);
               maxresponses = (if maxresponses > msgMaxSize sdiv avgvarbind then msgMaxSize sdiv avgvarbind else maxresponses);
               maxbulk = (if maxbulk \<le> 0 \<or> maxbulk > maxresponses sdiv r then maxresponses sdiv r else maxbulk);
               errindex = (if errindex > maxbulk then maxbulk else errindex)
           in (n, r, errindex))"

text \<open>
  The variable list after the collection: every repeater is followed by \<open>repeats - 1\<close> empty variables, or taken
  off the list when no repetition is asked for. The second list is the \<open>bulkcache\<close>.
\<close>

definition empty_var :: varbind where
  "empty_var = \<lparr>vb_name = [], vb_type = ASN_NULL_t, vb_val = []\<rparr>"

fun bulk_expand :: "nat \<Rightarrow> nat \<Rightarrow> varbind list \<Rightarrow> varbind list \<times> varbind list" where
  "bulk_expand n repeats [] = ([], [])"
| "bulk_expand (Suc n) repeats (v # vs) = (let (l, c) = bulk_expand n repeats vs in (v # l, c))"
| "bulk_expand 0 repeats (v # vs) =
     (let (l, c) = bulk_expand 0 repeats vs in
      if repeats > 0 then (v # replicate (repeats - 1) empty_var @ l, v # replicate (repeats - 1) empty_var @ c)
      else (l, c))"

section \<open>Rearranging the answers\<close>

text \<open>
  The names and types at the end of a column. \<open>orig\<close> is the variable of the request that the code takes.
\<close>

fun fix_column :: "varbind option \<Rightarrow> varbind option \<Rightarrow> varbind list \<Rightarrow> varbind list" where
  "fix_column orig prev [] = []"
| "fix_column orig prev (cur # rest) =
     (let cur = (if vb_name cur = [] \<or> vb_type cur = SNMP_ENDOFMIBVIEW then
                    (case (if prev = None then orig else prev) of
                       None \<Rightarrow> cur
                     | Some p \<Rightarrow> cur\<lparr>vb_name := vb_name p, vb_type := SNMP_ENDOFMIBVIEW, vb_val := []\<rparr>)
                  else cur)
      in cur # fix_column orig (Some cur) rest)"

definition bulk_fix :: "nat \<Rightarrow> nat \<Rightarrow> varbind list \<Rightarrow> varbind list \<Rightarrow> varbind list" where
  "bulk_fix r repeats orig cache =
     concat (map (\<lambda>i. fix_column (if i < length orig then Some (orig ! i) else None) None
                        (take repeats (drop (i * repeats) cache))) [0..<r])"

text \<open>The two linking loops.\<close>

definition bulk_link :: "nat \<Rightarrow> nat \<Rightarrow> (nat \<Rightarrow> nat option) \<Rightarrow> nat \<Rightarrow> nat option" where
  "bulk_link r repeats nx =
     (let nx = fold (\<lambda>(i, j) nx. nx(i * repeats + j := Some ((i + 1) * repeats + j)))
                 (List.product [0..<r - 1] [0..<repeats]) nx
      in fold (\<lambda>j nx. nx((r - 1) * repeats + j := Some (j + 1))) [0..<repeats - 1] nx)"

text \<open>
  The test of a row: \<open>for (j = 1, prev = bulkcache[i]; j < r; j++, prev = prev->next_variable)\<close>. The result is
  \<open>all_eoMib\<close> and the final \<open>prev\<close>.
\<close>

fun eomib_row :: "varbind list \<Rightarrow> (nat \<Rightarrow> nat option) \<Rightarrow> nat \<Rightarrow> nat \<Rightarrow> bool \<times> nat" where
  "eomib_row cache nx 0 prev = (True, prev)"
| "eomib_row cache nx (Suc left) prev =
     (if vb_type (cache ! prev) \<noteq> SNMP_ENDOFMIBVIEW then (False, prev)
      else eomib_row cache nx left (the (nx prev)))"

fun bulk_truncate :: "varbind list \<Rightarrow> nat \<Rightarrow> nat list \<Rightarrow> (nat \<Rightarrow> nat option) \<Rightarrow> nat \<Rightarrow> nat option" where
  "bulk_truncate cache r [] nx = nx"
| "bulk_truncate cache r (i # is) nx =
     (if vb_type (cache ! i) = SNMP_ENDOFMIBVIEW then
        (let (all_eoMib, prev) = eomib_row cache nx (r - 1) i in
         if all_eoMib then nx(prev := None) else bulk_truncate cache r is nx)
      else bulk_truncate cache r is nx)"

text \<open>
  \<open>_reorder_getbulk\<close>: the new cache and links; \<open>n\<close> is \<open>errstat\<close> and \<open>repeats\<close> is \<open>errindex\<close> as
  \<open>bulk_prep\<close> left them.
\<close>

definition reorder_getbulk ::
    "nat \<Rightarrow> nat \<Rightarrow> nat \<Rightarrow> varbind list \<Rightarrow> varbind list \<Rightarrow> (nat \<Rightarrow> nat option) \<Rightarrow> varbind list \<times> (nat \<Rightarrow> nat option)" where
  "reorder_getbulk vbcount errstat repeats orig cache nx =
     (if vbcount = 0 then (cache, nx)
      else let n = (if errstat < vbcount then errstat else vbcount); r = vbcount - n in
        if r = 0 then (cache, nx)
        else let cache = bulk_fix r repeats orig cache
             in (cache, bulk_truncate cache r [0..<repeats] (bulk_link r repeats nx)))"

text \<open>Following the links, at most \<open>fuel\<close> steps: the positions of the answer.\<close>

fun follow :: "(nat \<Rightarrow> nat option) \<Rightarrow> nat \<Rightarrow> nat \<Rightarrow> nat list" where
  "follow nx 0 p = []"
| "follow nx (Suc fuel) p = p # (case nx p of None \<Rightarrow> [] | Some q \<Rightarrow> follow nx fuel q)"

fun fix_endofmibview :: "varbind list \<Rightarrow> varbind list \<Rightarrow> varbind list" where \<comment> \<open>\<open>_fix_endofmibview\<close>\<close>
  "fix_endofmibview (vb # vbs) (ovb # ovbs) =
     (if vb_type vb = SNMP_ENDOFMIBVIEW then vb\<lparr>vb_name := vb_name ovb\<rparr> else vb) # fix_endofmibview vbs ovbs"
| "fix_endofmibview vbs _ = vbs"

section \<open>Checking the results of GETNEXT\<close>

text \<open>
  One request in \<open>check_getnext_results\<close>: the changed request and whether it counts as still open.
  \<open>special\<close> is the case of the GET made first for inclusive requests, \<open>bulk\<close> that of \<open>reqinfo->mode\<close>
  being \<open>MODE_GETBULK\<close>.
\<close>

definition check_getnext_request :: "bool \<Rightarrow> bool \<Rightarrow> request \<Rightarrow> request \<times> bool" where
  "check_getnext_request special bulk r =
     (let r = (if special then
                 (if rq_inclusive r = 0 then r\<lparr>rq_type := ASN_PRIV_RETRY\<rparr>
                  else if rq_type r = ASN_NULL_t \<or> rq_type r = SNMP_NOSUCHINSTANCE \<or> rq_type r = SNMP_NOSUCHOBJECT
                  then r\<lparr>rq_type := ASN_PRIV_RETRY\<rparr> else r)
               else r);
          r = (if snmp_oid_compare (rq_name r) (rq_range_end r) \<ge> 0
               then r\<lparr>rq_inclusive := 2, rq_name := rq_range_end r, rq_type := ASN_NULL_t\<rparr> else r);
          r = (if rq_type r = SNMP_ENDOFMIBVIEW then r\<lparr>rq_type := ASN_NULL_t, rq_inclusive := 1\<rparr> else r)
      in (r, rq_type r = ASN_NULL_t \<or> rq_type r = ASN_PRIV_RETRY \<or> bulk \<and> rq_repeat r > 0))"

definition check_getnext_results :: "bool \<Rightarrow> 'w session \<Rightarrow> 'w session \<times> nat" where
  "check_getnext_results bulk asp =
     (let special = (as_mode asp = MODE_GET);
          asp = (if special then asp\<lparr>as_mode := as_oldmode asp\<rparr> else asp);
          chk = map (\<lambda>tc. map (check_getnext_request special bulk) (tc_requests tc)) (as_treecache asp)
      in (asp\<lparr>as_treecache := map2 (\<lambda>tc rs. tc\<lparr>tc_requests := map fst rs\<rparr>) (as_treecache asp) chk\<rparr>,
          length (filter snd (concat chk))))"

section \<open>Results for SNMPv1\<close>

text \<open>The error status of a SET (\<open>netsnmp_wrap_up_request\<close>, RFC 2576 section 4.3).\<close>

definition v1_set_status :: "int \<Rightarrow> int" where
  "v1_set_status status =
     (if status \<in> {10, 9, 7, 8, 12} then 3
      else if status \<in> {6, 17, 11, 18, 16} then SNMP_ERR_NOSUCHNAME
      else if status \<in> {13, 14, 15} then SNMP_ERR_GENERR
      else status)"

text \<open>
  The exceptions of any other request (section 4.1.2.3): \<open>status\<close>, \<open>asp->status\<close> and \<open>asp->index\<close>,
  with \<open>i\<close> the position of the next variable.
\<close>

fun v1_exceptions :: "varbind list \<Rightarrow> int \<Rightarrow> int \<times> int \<times> int \<Rightarrow> int \<times> int \<times> int" where
  "v1_exceptions [] i st = st"
| "v1_exceptions (v # vs) i st =
     v1_exceptions vs (i + 1)
       (if vb_type v \<in> {SNMP_NOSUCHOBJECT, SNMP_NOSUCHINSTANCE, SNMP_ENDOFMIBVIEW, ASN_COUNTER64_t}
        then (SNMP_ERR_NOSUCHNAME, SNMP_ERR_NOSUCHNAME, i) else st)"

text \<open>Both, as \<open>netsnmp_wrap_up_request\<close> composes them: \<open>status\<close>, \<open>asp->status\<close> and \<open>asp->index\<close>.\<close>

definition v1_translate :: "bool \<Rightarrow> bool \<Rightarrow> varbind list \<Rightarrow> int \<Rightarrow> int \<Rightarrow> int \<Rightarrow> int \<times> int \<times> int" where
  "v1_translate isset v1 vars status as_st as_idx =
     (let as_st = (if status \<noteq> 0 \<and> as_st = 0 then status else as_st);
          (status, as_st) = (if isset \<and> v1 \<and> v1_set_status as_st \<noteq> as_st then (v1_set_status as_st, v1_set_status as_st)
                             else (status, as_st))
      in if \<not> isset \<and> v1 \<and> as_idx < 1 then v1_exceptions vars 1 (status, as_st, as_idx)
         else (as_st, as_st, as_idx))"

end
