(* ===== verification/Access.thy ===== *)
theory Access
  imports Vacm AgentReply
begin

text \<open>
  The access check of the agent: the mapping of community strings to security names (\<open>com2sec\<close> entries of
  \<^verbatim>\<open>snmplib/transports/snmpUDPDomain.c\<close>, \<^verbatim>\<open>snmpUDPIPv6Domain.c\<close> and \<^verbatim>\<open>snmpUnixDomain.c\<close>), the decision of
  \<^verbatim>\<open>agent/mibgroup/mibII/vacm_conf.c\<close> on the tables of \<open>Vacm\<close>, the entry points of
  \<^verbatim>\<open>agent/agent_registry.c\<close> and the check of results in \<^verbatim>\<open>agent/snmp_agent.c\<close>. C strings are byte lists
  without the terminator. The build is the default one: SNMPv1 and SNMPv2c enabled, the UDP, TCP, IPv6 and Unix
  transports compiled in, \<^verbatim>\<open>vacm_conf.c\<close> the one module that registers for the access control callbacks.
\<close>

section \<open>Community strings over IPv4\<close>

record com2SecEntry =
  c2_secName :: bytes
  c2_contextName :: bytes
  c2_network :: u_int
  c2_mask :: u_int
  c2_negate :: bool
  c2_community :: bytes

text \<open>The list with the addresses of its entries, and the pointer to its last entry.\<close>

record com2Sec_list =
  com2SecList :: "(nat \<times> com2SecEntry) list"
  com2SecListLast :: "nat option"

abbreviation (input) C2SE_ERR_SUCCESS :: int where "C2SE_ERR_SUCCESS \<equiv> 0"
abbreviation (input) C2SE_ERR_MISSING_ARG :: int where "C2SE_ERR_MISSING_ARG \<equiv> -1"
abbreviation (input) C2SE_ERR_COMMUNITY_TOO_LONG :: int where "C2SE_ERR_COMMUNITY_TOO_LONG \<equiv> -2"
abbreviation (input) C2SE_ERR_SECNAME_TOO_LONG :: int where "C2SE_ERR_SECNAME_TOO_LONG \<equiv> -3"
abbreviation (input) C2SE_ERR_CONTEXT_TOO_LONG :: int where "C2SE_ERR_CONTEXT_TOO_LONG \<equiv> -4"
abbreviation (input) C2SE_ERR_MASK_MISMATCH :: int where "C2SE_ERR_MASK_MISMATCH \<equiv> -5"
abbreviation (input) C2SE_ERR_MEMORY :: int where "C2SE_ERR_MEMORY \<equiv> -6"

text \<open>
  \<open>p->next = e\<close> for the node at an address: what came after it is cut off. The first argument of
  \<open>netsnmp_udp_com2SecEntry_create\<close> is the address \<open>calloc\<close> returned.
\<close>

fun link_after :: "nat \<Rightarrow> 'e \<Rightarrow> nat \<Rightarrow> (nat \<times> 'e) list \<Rightarrow> (nat \<times> 'e) list" where
  "link_after a e p [] = []"
| "link_after a e p (n # ns) = (if fst n = p then [n, (a, e)] else n # link_after a e p ns)"

definition netsnmp_udp_com2SecEntry_create ::
    "nat option \<Rightarrow> com2Sec_list \<Rightarrow> bytes option \<Rightarrow> bytes option \<Rightarrow> bytes option \<Rightarrow> u_int option \<Rightarrow> u_int option \<Rightarrow> bool
     \<Rightarrow> int \<times> com2Sec_list" where
  "netsnmp_udp_com2SecEntry_create mem l community secName contextName network msk neg =
     (case (community, secName) of
        (Some c, Some sn) \<Rightarrow>
          let network = (case network of None \<Rightarrow> 0 | Some n \<Rightarrow> n);
              msk = (case msk of None \<Rightarrow> 0 | Some m \<Rightarrow> m) in
          if network AND NOT msk \<noteq> 0 then (C2SE_ERR_MASK_MISMATCH, l)
          else if length c > 256 then (C2SE_ERR_COMMUNITY_TOO_LONG, l)
          else if length sn > VACM_MAX_STRING then (C2SE_ERR_SECNAME_TOO_LONG, l)
          else if (case contextName of None \<Rightarrow> 0 | Some x \<Rightarrow> length x) > VACM_MAX_STRING then (C2SE_ERR_CONTEXT_TOO_LONG, l)
          else (case mem of
            None \<Rightarrow> (C2SE_ERR_MEMORY, l)
          | Some a \<Rightarrow>
              let e = \<lparr>c2_secName = sn, c2_contextName = (case contextName of None \<Rightarrow> [] | Some x \<Rightarrow> x),
                       c2_network = network, c2_mask = msk, c2_negate = neg, c2_community = c\<rparr> in
              (C2SE_ERR_SUCCESS,
               case com2SecListLast l of
                 Some p \<Rightarrow> \<lparr>com2SecList = link_after a e p (com2SecList l), com2SecListLast = Some a\<rparr>
               | None \<Rightarrow> \<lparr>com2SecList = [(a, e)], com2SecListLast = Some a\<rparr>))
      | _ \<Rightarrow> (C2SE_ERR_MISSING_ARG, l))"

text \<open>Removal by address: \<open>p\<close> is the address of the entry before the current one.\<close>

fun com2Sec_remove_loop :: "nat \<Rightarrow> nat option \<Rightarrow> (nat \<times> 'e) list \<Rightarrow> ((nat \<times> 'e) list \<times> nat option) option" where
  "com2Sec_remove_loop e p [] = None"
| "com2Sec_remove_loop e p (c # cs) =
     (if fst c = e then Some (cs, p)
      else (case com2Sec_remove_loop e (Some (fst c)) cs of
              None \<Rightarrow> None
            | Some (cs', q) \<Rightarrow> Some (c # cs', q)))"

definition netsnmp_udp_com2SecList_remove :: "com2Sec_list \<Rightarrow> nat \<Rightarrow> int \<times> com2Sec_list" where
  "netsnmp_udp_com2SecList_remove l e =
     (case com2Sec_remove_loop e None (com2SecList l) of
        None \<Rightarrow> (1, l)
      | Some (cs, p) \<Rightarrow>
          (0, \<lparr>com2SecList = cs, com2SecListLast = (if com2SecListLast l = Some e then p else com2SecListLast l)\<rparr>))"

definition netsnmp_udp_com2SecList_free :: "com2Sec_list \<Rightarrow> com2Sec_list" where
  "netsnmp_udp_com2SecList_free l = \<lparr>com2SecList = [], com2SecListLast = None\<rparr>"

text \<open>
  The transport data of a PDU: an address of the given family, or something else (a null pointer, a wrong length
  or family). The result of a lookup is the return code and, unless an entry is found, no security name.
\<close>

datatype transport_data = No_addr | Inet u_int | Inet6 bytes | Unix_path bytes

fun udp_sec_loop :: "u_int \<Rightarrow> bytes \<Rightarrow> (nat \<times> com2SecEntry) list \<Rightarrow> (bytes \<times> bytes) option" where
  "udp_sec_loop src community [] = None"
| "udp_sec_loop src community ((_, c) # cs) =
     (if length community = length (c2_community c)
         \<and> memcmp (length community) community (c2_community c) = 0
         \<and> src AND c2_mask c = c2_network c
      then (if c2_negate c then None else Some (c2_secName c, c2_contextName c))
      else udp_sec_loop src community cs)"

definition netsnmp_udp_getSecName :: "com2Sec_list \<Rightarrow> transport_data \<Rightarrow> bytes \<Rightarrow> int \<times> (bytes \<times> bytes) option" where
  "netsnmp_udp_getSecName l opaque community =
     (if com2SecList l = [] then (0, None)
      else (case opaque of
              Inet src \<Rightarrow> (1, udp_sec_loop src community (com2SecList l))
            | _ \<Rightarrow> (1, None)))"

section \<open>Community strings over IPv6 and Unix sockets\<close>

record com2Sec6Entry =
  c6_secName :: bytes
  c6_contextName :: bytes
  c6_network :: bytes
  c6_mask :: bytes
  c6_negate :: bool
  c6_community :: bytes

text \<open>
  The list built for one configuration line is \<open>begin\<close> to \<open>end\<close>; the result is the return code and the
  list. All addresses have 16 bytes.
\<close>

fun mask_mismatch :: "bytes \<Rightarrow> bytes \<Rightarrow> bool" where
  "mask_mismatch (a # as) (m # ms) = (if a AND NOT m \<noteq> 0 then True else mask_mismatch as ms)"
| "mask_mismatch _ _ = False"

definition create_com2Sec6Entry ::
    "bool \<Rightarrow> bytes \<Rightarrow> bytes \<Rightarrow> bytes \<Rightarrow> bytes \<Rightarrow> bytes \<Rightarrow> bool \<Rightarrow> com2Sec6Entry list \<Rightarrow> int \<times> com2Sec6Entry list" where
  "create_com2Sec6Entry mem run_addr msk secName contextName community neg entries =
     (if mask_mismatch run_addr msk then (1, entries)
      else if \<not> mem then (1, entries)
      else (0, entries @ [\<lparr>c6_secName = secName, c6_contextName = contextName, c6_network = run_addr,
                            c6_mask = msk, c6_negate = neg, c6_community = community\<rparr>]))"

fun addr6_in :: "bytes \<Rightarrow> bytes \<Rightarrow> bytes \<Rightarrow> bool" where
  "addr6_in (a # as) (m # ms) (n # ns) = (if a AND m \<noteq> n then False else addr6_in as ms ns)"
| "addr6_in _ _ _ = True"

fun udp6_sec_loop :: "bytes \<Rightarrow> bytes \<Rightarrow> com2Sec6Entry list \<Rightarrow> (bytes \<times> bytes) option" where
  "udp6_sec_loop src community [] = None"
| "udp6_sec_loop src community (c # cs) =
     (if length community = length (c6_community c)
         \<and> memcmp (length community) community (c6_community c) = 0
         \<and> addr6_in src (c6_mask c) (c6_network c)
      then (if c6_negate c then None else Some (c6_secName c, c6_contextName c))
      else udp6_sec_loop src community cs)"

definition netsnmp_udp6_getSecName :: "com2Sec6Entry list \<Rightarrow> transport_data \<Rightarrow> bytes \<Rightarrow> int \<times> (bytes \<times> bytes) option" where
  "netsnmp_udp6_getSecName l opaque community =
     (if l = [] then (0, None)
      else (case opaque of Inet6 src \<Rightarrow> (1, udp6_sec_loop src community l) | _ \<Rightarrow> (1, None)))"

record com2SecUnixEntry =
  cu_sockpath :: bytes      \<comment> \<open>\<open>pathlen\<close> is its length\<close>
  cu_secName :: bytes
  cu_contextName :: bytes
  cu_community :: bytes

fun unix_sec_loop :: "bytes \<Rightarrow> bytes \<Rightarrow> com2SecUnixEntry list \<Rightarrow> (bytes \<times> bytes) option" where
  "unix_sec_loop path community [] = None"
| "unix_sec_loop path community (c # cs) =
     (if length community = length (cu_community c)
         \<and> memcmp (length community) community (cu_community c) = 0
         \<and> (length path = length (cu_sockpath c) \<or> length (cu_sockpath c) = 0)
         \<and> memcmp (length (cu_sockpath c)) path (cu_sockpath c) = 0
      then Some (cu_secName c, cu_contextName c)
      else unix_sec_loop path community cs)"

definition netsnmp_unix_getSecName :: "com2SecUnixEntry list \<Rightarrow> transport_data \<Rightarrow> bytes \<Rightarrow> int \<times> (bytes \<times> bytes) option" where
  "netsnmp_unix_getSecName l opaque community =
     (if l = [] then (0, None)
      else (case opaque of Unix_path path \<Rightarrow> (1, unix_sec_loop path community l) | _ \<Rightarrow> (1, None)))"

section \<open>Security modules and contexts\<close>

text \<open>The registered security models, each with the answer whether its definition is there.\<close>

fun find_sec_mod :: "(int \<times> bool) list \<Rightarrow> int \<Rightarrow> bool" where
  "find_sec_mod [] secmod = False"
| "find_sec_mod (s # ss) secmod = (if fst s = secmod then snd s else find_sec_mod ss secmod)"

record subtree_context_cache =
  cc_context_name :: "bytes option"
  cc_first_subtree :: "nat option"

fun netsnmp_subtree_find_first :: "subtree_context_cache list \<Rightarrow> bytes option \<Rightarrow> nat option" where
  "netsnmp_subtree_find_first [] context_name = None"
| "netsnmp_subtree_find_first (ptr # ps) context_name =
     (if cc_context_name ptr \<noteq> None
         \<and> cc_context_name ptr = Some (case context_name of None \<Rightarrow> [] | Some c \<Rightarrow> c)
      then cc_first_subtree ptr
      else netsnmp_subtree_find_first ps context_name)"

section \<open>The decision of the VACM\<close>

text \<open>
  The fields of a PDU that the check reads; the community has \<open>community_len\<close> bytes. The context name
  has its own length, which may differ from the bytes allocated for it.
\<close>

datatype tDomain = netsnmpUDPDomain | netsnmp_snmpTCPDomain | netsnmp_UDPIPv6Domain | netsnmp_TCPIPv6Domain
  | netsnmp_UnixDomain | other_domain

record acm_pdu =
  pd_version :: int
  pd_command :: int
  pd_flags :: u_long
  pd_community :: "bytes option"
  pd_tDomain :: tDomain
  pd_transport_data :: transport_data
  pd_contextName :: "bytes option"
  pd_contextNameLen :: nat
  pd_securityModel :: int
  pd_securityName :: "bytes option"
  pd_securityLevel :: int

record acm_env =
  ae_vacm :: vacm
  ae_com2Sec :: com2Sec_list
  ae_com2Sec6 :: "com2Sec6Entry list"
  ae_com2SecUnix :: "com2SecUnixEntry list"
  ae_secmods :: "(int \<times> bool) list"
  ae_contexts :: "subtree_context_cache list"
  ae_disabled :: "int \<Rightarrow> bool"  \<comment> \<open>\<open>NETSNMP_DS_LIB_DISABLE_V1\<close>, \<open>V2c\<close> and \<open>V3\<close>, by version number\<close>

datatype acm_stat = STAT_SNMPINBADCOMMUNITYNAMES | STAT_SNMPINBADCOMMUNITYUSES

abbreviation (input) SNMP_VERSION_1 :: int where "SNMP_VERSION_1 \<equiv> 0"
abbreviation (input) SNMP_VERSION_2c :: int where "SNMP_VERSION_2c \<equiv> 1"
abbreviation (input) SNMP_VERSION_3 :: int where "SNMP_VERSION_3 \<equiv> 3"
abbreviation (input) VACM_VIEW_READ :: int where "VACM_VIEW_READ \<equiv> 0"
abbreviation (input) VACM_VIEW_WRITE :: int where "VACM_VIEW_WRITE \<equiv> 1"
abbreviation (input) VACM_VIEW_NOTIFY :: int where "VACM_VIEW_NOTIFY \<equiv> 2"
abbreviation (input) UCD_MSG_FLAG_ALWAYS_IN_VIEW :: u_long where "UCD_MSG_FLAG_ALWAYS_IN_VIEW \<equiv> 0x800"

text \<open>
  The security name of a request: for a community the entry of the transport, which also replaces the context
  name of the PDU.
\<close>

definition community_sec_name :: "acm_env \<Rightarrow> acm_pdu \<Rightarrow> (int \<times> (bytes \<times> bytes) option) option" where
  "community_sec_name env pdu =
     (let pdu_community = (case pd_community pdu of None \<Rightarrow> [] | Some c \<Rightarrow> c) in
      if pd_tDomain pdu = netsnmpUDPDomain \<or> pd_tDomain pdu = netsnmp_snmpTCPDomain
      then Some (netsnmp_udp_getSecName (ae_com2Sec env) (pd_transport_data pdu) pdu_community)
      else if pd_tDomain pdu = netsnmp_UDPIPv6Domain \<or> pd_tDomain pdu = netsnmp_TCPIPv6Domain
      then Some (netsnmp_udp6_getSecName (ae_com2Sec6 env) (pd_transport_data pdu) pdu_community)
      else if pd_tDomain pdu = netsnmp_UnixDomain
      then Some (netsnmp_unix_getSecName (ae_com2SecUnix env) (pd_transport_data pdu) pdu_community)
      else None)"

definition vacm_sec_name :: "acm_env \<Rightarrow> acm_pdu \<Rightarrow> bytes option \<times> acm_pdu" where
  "vacm_sec_name env pdu =
     (if pd_version pdu = SNMP_VERSION_1 \<or> pd_version pdu = SNMP_VERSION_2c then
        (case community_sec_name env pdu of
           None \<Rightarrow> (None, pdu)
         | Some (rc, found) \<Rightarrow>
             let contextName = (case found of None \<Rightarrow> [] | Some (sn, ctx) \<Rightarrow> ctx);
                 sn = (if rc = 0 then None else map_option fst found) in
             (sn, pdu\<lparr>pd_contextName := Some contextName, pd_contextNameLen := length contextName\<rparr>))
      else if find_sec_mod (ae_secmods env) (pd_securityModel pdu) then (pd_securityName pdu, pdu)
      else (None, pdu))"

text \<open>
  \<open>contextNameIndex\<close> as a C string: the bytes of the PDU up to the first zero. Copying more than there are is an
  \<open>Overrun\<close>.
\<close>

definition contextNameIndex :: "acm_pdu \<Rightarrow> bytes cres" where
  "contextNameIndex pdu =
     (case pd_contextName pdu of
        None \<Rightarrow> Ret []
      | Some c \<Rightarrow> if length c < pd_contextNameLen pdu then Overrun
                 else Ret (takeWhile (\<lambda>b. b \<noteq> 0) (take (pd_contextNameLen pdu) c)))"

text \<open>The result is the code, the PDU with its new context name, and the statistics incremented.\<close>

definition vacm_check_view_contents ::
    "acm_env \<Rightarrow> acm_pdu \<Rightarrow> oid option \<Rightarrow> bool \<Rightarrow> int \<Rightarrow> bool \<Rightarrow> (int \<times> acm_pdu \<times> acm_stat list) cres" where
  "vacm_check_view_contents env pdu name check_subtree viewtype dne_context_ok =
     (let (sn, pdu) = vacm_sec_name env pdu in
      case sn of
        None \<Rightarrow> Ret (VACM_NOSECNAME, pdu, [STAT_SNMPINBADCOMMUNITYNAMES])
      | Some sn \<Rightarrow>
          if pd_contextNameLen pdu > 32 then Ret (VACM_NOSUCHCONTEXT, pdu, [])
          else cbind (contextNameIndex pdu) (\<lambda>ctx.
            if \<not> dne_context_ok \<and> netsnmp_subtree_find_first (ae_contexts env) (Some ctx) = None
            then Ret (VACM_NOSUCHCONTEXT, pdu, [])
            else (case vacm_getGroupEntry (groupList (ae_vacm env)) (pd_securityModel pdu) sn of
              None \<Rightarrow> Ret (VACM_NOGROUP, pdu, [])
            | Some gp \<Rightarrow>
                (case vacm_getAccessEntry (accessList (ae_vacm env)) (gr_groupName gp) ctx
                        (pd_securityModel pdu) (pd_securityLevel pdu) of
                   None \<Rightarrow> Ret (VACM_NOACCESS, pdu, [])
                 | Some ap \<Rightarrow>
                     (case name of
                        None \<Rightarrow> Ret (VACM_SUCCESS, pdu, [])
                      | Some nm \<Rightarrow>
                          if viewtype < 0 \<or> viewtype \<ge> 8 then Ret (VACM_NOACCESS, pdu, [])
                          else let vn = ac_views ap ! nat viewtype in
                            if check_subtree
                            then Ret (netsnmp_view_subtree_check (viewList (ae_vacm env)) vn nm, pdu, [])
                            else (case netsnmp_view_get (viewList (ae_vacm env)) vn nm VACM_MODE_FIND of
                              None \<Rightarrow> Ret (VACM_NOVIEW, pdu, [])
                            | Some vp \<Rightarrow>
                                if viewType vp = SNMP_VIEW_EXCLUDED
                                then Ret (VACM_NOTINVIEW, pdu,
                                       if pd_version pdu = SNMP_VERSION_1 \<or> pd_version pdu = SNMP_VERSION_2c
                                       then [STAT_SNMPINBADCOMMUNITYUSES] else [])
                                else Ret (VACM_SUCCESS, pdu, [])))))))"

definition vacm_check_view :: "acm_env \<Rightarrow> acm_pdu \<Rightarrow> oid option \<Rightarrow> bool \<Rightarrow> int \<Rightarrow> (int \<times> acm_pdu \<times> acm_stat list) cres" where
  "vacm_check_view env pdu name check_subtree viewtype =
     vacm_check_view_contents env pdu name check_subtree viewtype False"

definition view_of_command :: "int \<Rightarrow> int" where
  "view_of_command command =
     (if command \<in> {160, 161, 165} then VACM_VIEW_READ
      else if command = 163 then VACM_VIEW_WRITE
      else if command \<in> {164, 167, 166} then VACM_VIEW_NOTIFY
      else VACM_VIEW_READ)"

definition vacm_in_view :: "acm_env \<Rightarrow> acm_pdu \<Rightarrow> oid option \<Rightarrow> bool \<Rightarrow> (int \<times> acm_pdu \<times> acm_stat list) cres" where
  "vacm_in_view env pdu name check_subtree =
     vacm_check_view env pdu name check_subtree (view_of_command (pd_command pdu))"

text \<open>The callback leaves the error code 0 unless the result is another one; the two agree.\<close>

definition vacm_in_view_callback ::
    "acm_env \<Rightarrow> acm_pdu \<Rightarrow> oid option \<Rightarrow> bool \<Rightarrow> int \<Rightarrow> (int \<times> acm_pdu \<times> acm_stat list) cres" where
  "vacm_in_view_callback env pdu name check_subtree errorcode =
     cbind (vacm_in_view env pdu name check_subtree) (\<lambda>(retval, pdu, stats).
       Ret (if retval \<noteq> 0 then retval else errorcode, pdu, stats))"

section \<open>The entry points of the agent\<close>

definition version_unsupported :: "acm_env \<Rightarrow> acm_pdu \<Rightarrow> bool" where
  "version_unsupported env pdu \<longleftrightarrow>
     pd_version pdu \<notin> {SNMP_VERSION_1, SNMP_VERSION_2c, SNMP_VERSION_3} \<or> ae_disabled env (pd_version pdu)"

abbreviation (input) ASN_COUNTER64_type :: int where "ASN_COUNTER64_type \<equiv> 0x46"

definition in_a_view :: "acm_env \<Rightarrow> oid \<Rightarrow> acm_pdu \<Rightarrow> int \<Rightarrow> (int \<times> acm_pdu \<times> acm_stat list) cres" where
  "in_a_view env name pdu type =
     (if pd_flags pdu AND UCD_MSG_FLAG_ALWAYS_IN_VIEW \<noteq> 0 then Ret (VACM_SUCCESS, pdu, [])
      else if pd_version pdu = SNMP_VERSION_1 \<and> type = ASN_COUNTER64_type then Ret (VACM_NOTINVIEW, pdu, [])
      else if version_unsupported env pdu then Ret (VACM_NOSECNAME, pdu, [])
      else vacm_in_view_callback env pdu (Some name) False 0)"

definition check_access :: "acm_env \<Rightarrow> acm_pdu \<Rightarrow> (int \<times> acm_pdu \<times> acm_stat list) cres" where
  "check_access env pdu =
     (if pd_flags pdu AND UCD_MSG_FLAG_ALWAYS_IN_VIEW \<noteq> 0 then Ret (0, pdu, [])
      else if version_unsupported env pdu then Ret (1, pdu, [])
      else vacm_in_view_callback env pdu None False 0)"

definition netsnmp_acm_check_subtree :: "acm_env \<Rightarrow> acm_pdu \<Rightarrow> oid \<Rightarrow> (int \<times> acm_pdu \<times> acm_stat list) cres" where
  "netsnmp_acm_check_subtree env pdu name =
     (if pd_flags pdu AND UCD_MSG_FLAG_ALWAYS_IN_VIEW \<noteq> 0 then Ret (0, pdu, [])
      else if version_unsupported env pdu then Ret (1, pdu, [])
      else vacm_in_view_callback env pdu (Some name) True 0)"

section \<open>Checking results\<close>

text \<open>
  A request with the chain of its variable bindings from \<open>requestvb_start\<close> on, and the position of
  \<open>requestvb\<close> in it. \<open>snmp_clone_var\<close> copies name, type and value; that it may fail to allocate is
  not modelled.
\<close>

record acm_request =
  ar_repeat :: int
  ar_orig_repeat :: int
  ar_inclusive :: int
  ar_chain :: "varbind list"
  ar_requestvb :: nat

text \<open>The loop that moves the values behind a hole up: at most \<open>n\<close> copies.\<close>

fun move_up :: "nat \<Rightarrow> varbind list \<Rightarrow> varbind list" where
  "move_up (Suc n) (vbc # vb2 # vs) = vb2 # move_up n (vb2 # vs)"
| "move_up _ vs = vs"

abbreviation (input) answered :: "varbind \<Rightarrow> bool" where
  "answered vb \<equiv> vb_type vb \<noteq> ASN_NULL_t \<and> vb_type vb \<noteq> ASN_PRIV_RETRY"

text \<open>
  The loop over one request from position \<open>pos\<close> with \<open>n = j + 1\<close> steps left: the request without its chain,
  the rest of the chain and the result count, with the PDU and the statistics.
\<close>

record acm_scan =
  sc_repeat :: int
  sc_earliest :: bool
  sc_requestvb :: nat
  sc_inclusive :: int
  sc_count :: int
  sc_pdu :: acm_pdu
  sc_stats :: "acm_stat list"

fun check_acm_loop :: "acm_env \<Rightarrow> int \<Rightarrow> int \<Rightarrow> nat \<Rightarrow> nat \<Rightarrow> varbind list \<Rightarrow> acm_scan \<Rightarrow> (varbind list \<times> acm_scan) cres" where
  "check_acm_loop env type orig_repeat n pos [] s = Ret ([], s)"
| "check_acm_loop env type orig_repeat 0 pos vs s = Ret (vs, s)"
| "check_acm_loop env type orig_repeat (Suc n) pos (vb # vs) s =
     (if answered vb then
        cbind (in_a_view env (vb_name vb) (sc_pdu s) (vb_type vb)) (\<lambda>(view, pdu, stats).
          let s = s\<lparr>sc_pdu := pdu, sc_stats := sc_stats s @ stats\<rparr> in
          if view \<noteq> VACM_SUCCESS then
            let bulk = sc_repeat s < orig_repeat;
                moved = (if bulk \<and> vs \<noteq> [] \<and> answered (hd vs) then move_up (n + 2) (vb # vs) else vb # vs);
                s = s\<lparr>sc_count := sc_count s + 1,
                      sc_repeat := (if bulk then sc_repeat s + 1 else sc_repeat s),
                      sc_requestvb := (if bulk \<and> \<not> sc_earliest s then pos else sc_requestvb s),
                      sc_earliest := (if bulk then True else sc_earliest s),
                      sc_inclusive := (if type = ASN_PRIV_RETRY then 0 else sc_inclusive s)\<rparr> in
            cbind (check_acm_loop env type orig_repeat n (pos + 1) (tl moved) s) (\<lambda>(vs', s).
              Ret ((hd moved)\<lparr>vb_type := type, vb_val := []\<rparr> # vs', s))
          else cbind (check_acm_loop env type orig_repeat n (pos + 1) vs s) (\<lambda>(vs', s). Ret (vb # vs', s)))
      else cbind (check_acm_loop env type orig_repeat n (pos + 1) vs s) (\<lambda>(vs', s). Ret (vb # vs', s)))"

definition check_acm_request ::
    "acm_env \<Rightarrow> int \<Rightarrow> acm_request \<Rightarrow> acm_pdu \<Rightarrow> (acm_request \<times> int \<times> acm_pdu \<times> acm_stat list) cres" where
  "check_acm_request env type r pdu =
     cbind (check_acm_loop env type (ar_orig_repeat r) (nat (ar_repeat r + 1)) 0 (ar_chain r)
              \<lparr>sc_repeat = ar_repeat r, sc_earliest = False, sc_requestvb = ar_requestvb r,
               sc_inclusive = ar_inclusive r, sc_count = 0, sc_pdu = pdu, sc_stats = []\<rparr>) (\<lambda>(vs, s).
       Ret (r\<lparr>ar_repeat := sc_repeat s, ar_inclusive := sc_inclusive s, ar_chain := vs,
              ar_requestvb := sc_requestvb s\<rparr>, sc_count s, sc_pdu s, sc_stats s))"

text \<open>The requests of all tree caches, in order.\<close>

fun check_acm :: "acm_env \<Rightarrow> int \<Rightarrow> acm_request list \<Rightarrow> acm_pdu \<Rightarrow> (acm_request list \<times> int \<times> acm_pdu \<times> acm_stat list) cres" where
  "check_acm env type [] pdu = Ret ([], 0, pdu, [])"
| "check_acm env type (r # rs) pdu =
     cbind (check_acm_request env type r pdu) (\<lambda>(r', ret, pdu, stats).
       cbind (check_acm env type rs pdu) (\<lambda>(rs', ret', pdu, stats').
         Ret (r' # rs', ret + ret', pdu, stats @ stats')))"

section \<open>Skipping subtrees\<close>

text \<open>
  The registered subtrees from \<open>tp\<close> on, each with its range: the loop of \<open>netsnmp_add_varbind_to_cache\<close>
  for a GETNEXT or GETBULK. The result is the number of subtrees passed over.
\<close>

definition subtree_in_view :: "acm_env \<Rightarrow> oid \<times> oid \<Rightarrow> acm_pdu \<Rightarrow> (int \<times> acm_pdu \<times> acm_stat list) cres" where
  "subtree_in_view env tp pdu =
     (let prefix_len = netsnmp_oid_find_prefix (fst tp) (snd tp) in
      if prefix_len < 1 then Ret (VACM_NOTINVIEW, pdu, [])
      else netsnmp_acm_check_subtree env pdu (take (nat prefix_len) (fst tp)))"

fun skip_subtrees :: "acm_env \<Rightarrow> (oid \<times> oid) list \<Rightarrow> acm_pdu \<Rightarrow> (nat \<times> acm_pdu \<times> acm_stat list) cres" where
  "skip_subtrees env [] pdu = Ret (0, pdu, [])"
| "skip_subtrees env (tp # tps) pdu =
     cbind (subtree_in_view env tp pdu) (\<lambda>(result, pdu, stats).
       if result = VACM_NOTINVIEW
       then cbind (skip_subtrees env tps pdu) (\<lambda>(k, pdu, stats'). Ret (k + 1, pdu, stats @ stats'))
       else Ret (0, pdu, stats))"

end
