(* ===== verification/VacmSpec.thy ===== *)
theory VacmSpec
  imports Vacm "HOL-Library.Product_Lexorder" "HOL-Library.Multiset"
begin

text \<open>
  What the access control tables guarantee: the best match of \<open>netsnmp_view_get\<close>, the exactness and the
  soundness of \<open>netsnmp_view_subtree_check\<close>, the order of the three tables under creation and removal
  (one contract, \<open>ordered_table\<close>, interpreted for each), the access lookup and the simple USM interface.
\<close>

unbundle bit_operations_syntax

section \<open>Comparing names\<close>

lemma memcmp_same_length:
  "length a = n \<Longrightarrow> length b = n \<Longrightarrow> memcmp n a b = (if a < b then -1 else if a = b then 0 else 1)"
proof (induction n arbitrary: a b)
  case (Suc n)
  then show ?case by (cases a; cases b) (auto simp: Let_def)
qed simp

lemma memcmp_take: "memcmp n a b = memcmp n (take n a) (take n b)"
proof (induction n arbitrary: a b)
  case (Suc n)
  have "memcmp n (tl a) (tl b) = memcmp n (take n (tl a)) (take n (tl b))" by (rule Suc.IH)
  then show ?case by (cases a; cases b) (simp_all add: Let_def)
qed simp

lemma word_of_length_less:
  assumes "m < 256" "n < (256 :: nat)"
  shows "(word_of_nat m :: u_char) < word_of_nat n \<longleftrightarrow> m < n" "(word_of_nat m :: u_char) = word_of_nat n \<longleftrightarrow> m = n"
proof -
  have "unat (word_of_nat m :: u_char) = m" "unat (word_of_nat n :: u_char) = n"
    using assms by (simp_all only: unat_word_of_nat, simp_all)
  then show "(word_of_nat m :: u_char) < word_of_nat n \<longleftrightarrow> m < n" "(word_of_nat m :: u_char) = word_of_nat n \<longleftrightarrow> m = n"
    by (metis word_less_nat_alt, metis)
qed

text \<open>The comparison of the sorted lists is the order of the stored names.\<close>

lemma memcmp_vacm_str:
  assumes "length a < 256" "length b < 256"
  shows "memcmp (length b + 1) (vacm_str a) (vacm_str b)
    = (if vacm_str a < vacm_str b then -1 else if a = b then 0 else 1)"
proof (cases "length a = length b")
  case True
  then show ?thesis using memcmp_same_length [of "vacm_str a" "length b + 1" "vacm_str b"]
    by (auto simp: vacm_str_def)
next
  case False
  then show ?thesis using word_of_length_less [OF assms] word_of_length_less [OF assms(2,1)]
    by (auto simp: vacm_str_def Let_def)
qed

lemma memcmp_vacm_str_eq:
  "length a < 256 \<Longrightarrow> length b < 256 \<Longrightarrow> memcmp (length b + 1) (vacm_str a) (vacm_str b) = 0 \<longleftrightarrow> a = b"
  by (simp only: memcmp_vacm_str split: if_split) auto

lemma view_name_eq_iff:
  assumes "length name \<le> 32" "length (viewName vp) \<le> 32"
  shows "view_name_eq name vp \<longleftrightarrow> viewName vp = name"
proof (cases "length name = length (viewName vp)")
  case True
  then show ?thesis using memcmp_same_length [of "vacm_str name" "length name + 1" "vacm_str (viewName vp)"]
    by (auto simp: view_name_eq_def vacm_str_def)
next
  case False
  then show ?thesis using word_of_length_less [of "length name" "length (viewName vp)"] word_of_length_less [of "length (viewName vp)" "length name"] assms
    by (auto simp: view_name_eq_def vacm_str_def Let_def)
qed

section \<open>The mask\<close>

text \<open>Position \<open>i\<close> of a subtree is compared when bit \<open>7 - i mod 8\<close> of mask byte \<open>i div 8\<close> is set or missing.\<close>

definition mask_bit :: "view_entry \<Rightarrow> nat \<Rightarrow> bool" where
  "mask_bit vp i \<longleftrightarrow> i div 8 \<ge> length (viewMask vp) \<or> bit (viewMask vp ! (i div 8)) (7 - i mod 8)"

definition view_matches_upto :: "bool \<Rightarrow> view_entry \<Rightarrow> oid \<Rightarrow> nat \<Rightarrow> bool" where
  "view_matches_upto ignore vp sub n \<longleftrightarrow> (\<forall>i < n. ignore \<or> mask_bit vp i \<longrightarrow> sub ! i = viewSubtree vp ! (i + 1))"

lemma VIEW_MASK_bit: "VIEW_MASK vp (i div 8) (2 ^ (7 - i mod 8)) \<noteq> 0 \<longleftrightarrow> mask_bit vp i"
proof -
  have "(2 ^ (7 - i mod 8) :: u_char) \<noteq> 0"
  proof
    assume "(2 ^ (7 - i mod 8) :: u_char) = 0"
    then have "\<not> bit (2 ^ (7 - i mod 8) :: u_char) (7 - i mod 8)" by simp
    then show False by (simp add: bit_exp_iff)
  qed
  then show ?thesis by (auto simp: VIEW_MASK_def mask_bit_def and_exp_eq_0_iff_not_bit)
qed

lemma mask_step:
  assumes "k \<le> 7"
  shows "(2 ^ k :: u_char) = 1 \<longleftrightarrow> k = 0" "1 \<le> k \<Longrightarrow> drop_bit 1 (2 ^ k :: u_char) = 2 ^ (k - 1)"
proof -
  have "k \<in> {0,1,2,3,4,5,6,7}" using assms by auto
  then show "(2 ^ k :: u_char) = 1 \<longleftrightarrow> k = 0" "1 \<le> k \<Longrightarrow> drop_bit 1 (2 ^ k :: u_char) = 2 ^ (k - 1)" by auto
qed

lemma view_match_loop_iff:
  "view_match_loop ignore vp sub n p (2 ^ (7 - p mod 8)) (p div 8)
     \<longleftrightarrow> (\<forall>i. p \<le> i \<and> i < p + n \<longrightarrow> ignore \<or> mask_bit vp i \<longrightarrow> sub ! i = viewSubtree vp ! (i + 1))"
proof (induction n arbitrary: p)
  case 0
  show ?case by (auto simp del: One_nat_def)
next
  case (Suc n)
  let ?here = "ignore \<or> mask_bit vp p \<longrightarrow> sub ! p = viewSubtree vp ! (p + 1)"
  have split: "(\<forall>i. p \<le> i \<and> i < p + Suc n \<longrightarrow> Q i) \<longleftrightarrow> Q p \<and> (\<forall>i. Suc p \<le> i \<and> i < Suc p + n \<longrightarrow> Q i)" for Q
    by (rule iffI) (auto, metis add_Suc_right add_Suc Suc_leI le_neq_implies_less)
  have step: "(if (2 ^ (7 - p mod 8) :: u_char) = 1 then view_match_loop ignore vp sub n (p + 1) 0x80 (p div 8 + 1)
      else view_match_loop ignore vp sub n (p + 1) (drop_bit 1 (2 ^ (7 - p mod 8))) (p div 8))
      = view_match_loop ignore vp sub n (Suc p) (2 ^ (7 - Suc p mod 8)) (Suc p div 8)"
  proof (cases "p mod 8 = 7")
    case True
    then have "Suc p mod 8 = 0" "Suc p div 8 = p div 8 + 1" by (simp_all add: mod_Suc div_Suc)
    then show ?thesis using True by simp
  next
    case False
    then have lt: "p mod 8 < 7" using mod_less_divisor [of 8 p] by linarith
    then have s: "Suc p mod 8 = Suc (p mod 8)" "Suc p div 8 = p div 8" by (simp_all add: mod_Suc div_Suc)
    have "7 - p mod 8 - 1 = 7 - Suc (p mod 8)" by simp
    then show ?thesis using mask_step [of "7 - p mod 8"] lt s by simp
  qed
  show ?case
    unfolding split [of "\<lambda>i. ignore \<or> mask_bit vp i \<longrightarrow> sub ! i = viewSubtree vp ! (i + 1)"] Suc.IH [of "Suc p", symmetric] step [symmetric]
    using VIEW_MASK_bit [of vp p] by (auto simp del: drop_bit_eq_div)
qed

lemma view_match_loop_start:
  "view_match_loop ignore vp sub n 0 0x80 0 \<longleftrightarrow> view_matches_upto ignore vp sub n"
  using view_match_loop_iff [of ignore vp sub n 0] by (simp add: view_matches_upto_def)


section \<open>The best matching view\<close>

text \<open>
  What a match is: the name, the length, and the sub-identifiers that the mask selects. A view is better
  when its subtree is longer or, at the same length, lexicographically greater.
\<close>

definition view_matches :: "view_mode \<Rightarrow> bytes \<Rightarrow> oid \<Rightarrow> view_entry \<Rightarrow> bool" where
  "view_matches mode name sub vp \<longleftrightarrow>
     viewName vp = name \<and> length (viewSubtree vp) - 1 \<le> length sub
     \<and> view_matches_upto (mode = VACM_MODE_IGNORE_MASK) vp sub (length (viewSubtree vp) - 1)"

definition view_key :: "view_entry \<Rightarrow> nat \<times> oid" where
  "view_key vp = (length (viewSubtree vp), tl (viewSubtree vp))"

lemma view_better_key:
  "view_better vp None" "view_better vp (Some r) \<longleftrightarrow> view_key r < view_key vp"
  by (auto simp: view_better_def view_key_def snmp_oid_compare_pos)

definition keep_best :: "view_entry option \<Rightarrow> view_entry \<Rightarrow> view_entry option" where
  "keep_best r vp = (if view_better vp r then Some vp else r)"

lemma keep_best_simps:
  "keep_best None vp = Some vp" "keep_best (Some r) vp = (if view_key r < view_key vp then Some vp else Some r)"
  by (simp_all add: keep_best_def view_better_key)

text \<open>The first of the greatest entries.\<close>

definition first_best :: "view_entry list \<Rightarrow> view_entry \<Rightarrow> bool" where
  "first_best xs e \<longleftrightarrow> (\<exists>ys zs. xs = ys @ e # zs \<and> (\<forall>y \<in> set ys. view_key y < view_key e) \<and> (\<forall>z \<in> set zs. view_key z \<le> view_key e))"

lemma first_best_hereI: "\<forall>z \<in> set xs. view_key z \<le> view_key e \<Longrightarrow> first_best (e # xs) e"
  unfolding first_best_def by (intro exI [of _ "[]"] exI [of _ xs]) auto

lemma first_best_laterI: "view_key x < view_key e \<Longrightarrow> first_best xs e \<Longrightarrow> first_best (x # xs) e"
proof -
  assume x: "view_key x < view_key e" and "first_best xs e"
  then obtain ys zs where "xs = ys @ e # zs" "\<forall>y \<in> set ys. view_key y < view_key e" "\<forall>z \<in> set zs. view_key z \<le> view_key e"
    unfolding first_best_def by blast
  then show ?thesis using x unfolding first_best_def by (intro exI [of _ "x # ys"] exI [of _ zs]) simp
qed

lemma first_best_ConsD:
  assumes "first_best (x # xs) e"
  obtains "e = x" "\<forall>z \<in> set xs. view_key z \<le> view_key e" | "view_key x < view_key e" "first_best xs e"
proof -
  obtain ys zs where x: "x # xs = ys @ e # zs" "\<forall>y \<in> set ys. view_key y < view_key e" "\<forall>z \<in> set zs. view_key z \<le> view_key e"
    using assms unfolding first_best_def by blast
  show ?thesis
  proof (cases ys)
    case Nil
    then show ?thesis using x that(1) by simp
  next
    case (Cons y ys')
    then have "first_best xs e" using x unfolding first_best_def by (intro exI [of _ ys'] exI [of _ zs]) simp
    then show ?thesis using x Cons that(2) by simp
  qed
qed

lemma first_best_key: "first_best xs e \<Longrightarrow> e \<in> set xs \<and> (\<forall>x \<in> set xs. view_key x \<le> view_key e)"
  unfolding first_best_def by (auto simp: less_imp_le)

lemma foldl_keep_best_Some: "\<exists>e. foldl keep_best (Some r) xs = Some e \<and> first_best (r # xs) e"
proof (induction xs arbitrary: r)
  case Nil
  show ?case using first_best_hereI [of "[]" r] by simp
next
  case (Cons x xs)
  show ?case
  proof (cases "view_key r < view_key x")
    case True
    obtain e where e: "foldl keep_best (Some x) xs = Some e" "first_best (x # xs) e" using Cons.IH [of x] by blast
    have "view_key x \<le> view_key e" using first_best_key [OF e(2)] by simp
    then have "first_best (r # x # xs) e" using True e(2) by (blast intro: first_best_laterI less_le_trans)
    then show ?thesis using e(1) True by (simp add: keep_best_simps)
  next
    case False
    obtain e where e: "foldl keep_best (Some r) xs = Some e" "first_best (r # xs) e" using Cons.IH [of r] by blast
    have xr: "view_key x \<le> view_key r" using False by simp
    from e(2) have "first_best (r # x # xs) e"
    proof (cases rule: first_best_ConsD)
      case 1
      then show ?thesis using xr first_best_hereI [of "x # xs" r] by simp
    next
      case 2
      then show ?thesis using xr by (blast intro: first_best_laterI le_less_trans)
    qed
    then show ?thesis using e(1) False by (simp add: keep_best_simps)
  qed
qed

lemma foldl_keep_best: "xs \<noteq> [] \<Longrightarrow> \<exists>e. foldl keep_best None xs = Some e \<and> first_best xs e"
  using foldl_keep_best_Some [of "hd xs" "tl xs"] by (cases xs) (simp_all add: keep_best_simps)

lemma first_best_unique: "first_best xs e \<Longrightarrow> first_best xs f \<Longrightarrow> e = f"
proof (induction xs)
  case Nil
  then show ?case by (simp add: first_best_def)
next
  case (Cons x xs)
  show ?case
    using Cons.prems(1)
  proof (cases rule: first_best_ConsD)
    case e: 1
    show ?thesis using Cons.prems(2)
    proof (cases rule: first_best_ConsD)
      case 2
      then have "view_key f \<le> view_key e" using e first_best_key [of xs f] by blast
      then show ?thesis using e 2 by simp
    qed (simp add: e)
  next
    case e: 2
    show ?thesis using Cons.prems(2)
    proof (cases rule: first_best_ConsD)
      case 1
      then have "view_key e \<le> view_key f" using e first_best_key [of xs e] by blast
      then show ?thesis using e 1 by simp
    qed (use e Cons.IH in blast)
  qed
qed

lemma foldl_keep_best_iff: "foldl keep_best None xs = Some e \<longleftrightarrow> first_best xs e"
proof (cases "xs = []")
  case True
  then show ?thesis by (simp add: first_best_def)
next
  case False
  then show ?thesis using foldl_keep_best [OF False] first_best_unique by auto
qed

lemma view_matches_code:
  assumes "length name \<le> 32" "length (viewName vp) \<le> 32"
  shows "view_name_eq name vp \<and> length sub \<ge> length (viewSubtree vp) - 1
      \<and> view_match_loop (mode = VACM_MODE_IGNORE_MASK) vp sub (length (viewSubtree vp) - 1) 0 0x80 0
      \<longleftrightarrow> view_matches mode name sub vp"
  unfolding view_match_loop_start view_name_eq_iff [OF assms] view_matches_def ..

lemma view_get_loop_eq:
  assumes "length name \<le> 32" "\<forall>vp \<in> set head. length (viewName vp) \<le> 32"
  shows "view_get_loop mode name sub head cnt vpret =
    (let ms = filter (view_matches mode name sub) head in
     (cnt + length ms,
      if mode = VACM_MODE_CHECK_SUBTREE then (if ms = [] then vpret else Some (last ms)) else foldl keep_best vpret ms))"
  using assms(2)
proof (induction head arbitrary: cnt vpret)
  case (Cons vp vps)
  have c: "view_name_eq name vp \<and> length sub \<ge> length (viewSubtree vp) - 1
      \<and> view_match_loop (mode = VACM_MODE_IGNORE_MASK) vp sub (length (viewSubtree vp) - 1) 0 0x80 0
      \<longleftrightarrow> view_matches mode name sub vp" using view_matches_code [OF assms(1)] Cons.prems by simp
  have ih: "\<And>cnt vpret. view_get_loop mode name sub vps cnt vpret = (let ms = filter (view_matches mode name sub) vps in
     (cnt + length ms,
      if mode = VACM_MODE_CHECK_SUBTREE then (if ms = [] then vpret else Some (last ms)) else foldl keep_best vpret ms))"
    using Cons by simp
  show ?case unfolding view_get_loop.simps c ih by (simp add: Let_def keep_best_def)
qed simp


lemma netsnmp_view_get_eq:
  assumes "length name \<le> 32" "\<forall>vp \<in> set head. length (viewName vp) \<le> 32"
  shows "netsnmp_view_get head name sub mode =
    (let ms = filter (view_matches mode name sub) head in
     if mode = VACM_MODE_CHECK_SUBTREE then (if length ms = 1 then Some (hd ms) else None) else foldl keep_best None ms)"
proof -
  have "length ms = Suc 0 \<Longrightarrow> last ms = hd ms" for ms :: "view_entry list" by (cases ms) auto
  moreover have "length ms \<noteq> Suc 0 \<Longrightarrow> ms \<noteq> [] \<Longrightarrow> length ms > 1" for ms :: "view_entry list" by (cases ms) auto
  ultimately show ?thesis using view_get_loop_eq [OF assms, of mode sub 0 None] assms(1)
    by (auto simp: netsnmp_view_get_def Let_def)
qed

section \<open>Views under a subtree\<close>

text \<open>
  A view below \<open>sub\<close>: its subtree is longer than \<open>sub\<close>, and agrees with \<open>sub\<close> where the mask asks.
\<close>

definition view_below :: "bytes \<Rightarrow> oid \<Rightarrow> view_entry \<Rightarrow> bool" where
  "view_below name sub vp \<longleftrightarrow>
     viewName vp = name \<and> length sub < length (viewSubtree vp) - 1 \<and> view_matches_upto False vp sub (length sub)"

text \<open>The type that decides for an OID: that of the best match, or excluded.\<close>

definition view_type_at :: "view_entry list \<Rightarrow> bytes \<Rightarrow> oid \<Rightarrow> int" where
  "view_type_at head name sub =
     (case netsnmp_view_get head name sub VACM_MODE_FIND of None \<Rightarrow> SNMP_VIEW_EXCLUDED | Some e \<Rightarrow> viewType e)"

definition subtree_result :: "view_entry option \<Rightarrow> view_entry list \<Rightarrow> (view_entry option \<times> view_entry option) option" where
  "subtree_result sh longs =
     (if \<exists>l \<in> set longs. viewType l \<noteq> viewType (hd longs) then None
      else Some (sh, if longs = [] then None else Some (hd longs)))"

definition option_list :: "'a option \<Rightarrow> 'a list" where
  "option_list o' = (case o' of None \<Rightarrow> [] | Some x \<Rightarrow> [x])"

lemma option_list_simps [simp]: "option_list None = []" "option_list (Some x) = [x]"
  by (simp_all add: option_list_def)

lemma subtree_check_loop_eq:
  assumes "length name \<le> 32" "\<forall>vp \<in> set head. length (viewName vp) \<le> 32"
  shows "subtree_check_loop name sub head sh lo =
    subtree_result (foldl keep_best sh (filter (view_matches VACM_MODE_FIND name sub) head))
      (option_list lo @ filter (view_below name sub) head)"
  using assms(2)
proof (induction head arbitrary: sh lo)
  case Nil
  then show ?case by (cases lo) (simp_all add: subtree_result_def)
next
  case (Cons vp vps)
  have nm: "view_name_eq name vp \<longleftrightarrow> viewName vp = name" using view_name_eq_iff [OF assms(1)] Cons.prems by simp
  have ih: "subtree_check_loop name sub vps sh lo =
    subtree_result (foldl keep_best sh (filter (view_matches VACM_MODE_FIND name sub) vps))
      (option_list lo @ filter (view_below name sub) vps)" for sh lo
    using Cons by simp
  consider "viewName vp \<noteq> name"
    | "viewName vp = name" "length (viewSubtree vp) - 1 \<le> length sub"
    | "viewName vp = name" "length sub < length (viewSubtree vp) - 1" by linarith
  then show ?case
  proof cases
    case 1
    then have "\<not> view_below name sub vp" "\<not> view_matches VACM_MODE_FIND name sub vp"
      by (simp_all add: view_below_def view_matches_def)
    then show ?thesis using 1 by (simp add: nm ih)
  next
    case 2
    then have b: "\<not> view_below name sub vp" by (simp add: view_below_def)
    have m: "view_match_loop False vp sub (length (viewSubtree vp) - 1) 0 0x80 0 \<longleftrightarrow> view_matches VACM_MODE_FIND name sub vp"
      using 2 by (simp add: view_match_loop_start view_matches_def)
    show ?thesis using 2 b unfolding subtree_check_loop.simps m nm ih
      by (simp add: keep_best_def [of sh vp])
  next
    case 3
    then have b: "\<not> view_matches VACM_MODE_FIND name sub vp" by (simp add: view_matches_def)
    have m: "view_match_loop False vp sub (length sub) 0 0x80 0 \<longleftrightarrow> view_below name sub vp"
      using 3 by (simp add: view_match_loop_start view_below_def)
    show ?thesis using 3 b unfolding subtree_check_loop.simps m nm ih
      by (cases lo) (auto simp: subtree_result_def)
  qed
qed

lemma netsnmp_view_subtree_check_eq:
  assumes "length name \<le> 32" "\<forall>vp \<in> set head. length (viewName vp) \<le> 32"
  shows "netsnmp_view_subtree_check head name sub =
    (if \<exists>vp \<in> set head. view_below name sub vp \<and> viewType vp \<noteq> view_type_at head name sub then VACM_SUBTREE_UNKNOWN
     else if view_type_at head name sub = SNMP_VIEW_EXCLUDED then VACM_NOTINVIEW else VACM_SUCCESS)"
proof -
  define longs where "longs = filter (view_below name sub) head"
  define sh where "sh = foldl keep_best None (filter (view_matches VACM_MODE_FIND name sub) head)"
  have t: "view_type_at head name sub = (case sh of None \<Rightarrow> SNMP_VIEW_EXCLUDED | Some e \<Rightarrow> viewType e)"
    using netsnmp_view_get_eq [OF assms, of sub VACM_MODE_FIND] by (simp add: view_type_at_def sh_def)
  have ex: "(\<exists>vp \<in> set head. view_below name sub vp \<and> Q vp) \<longleftrightarrow> (\<exists>vp \<in> set longs. Q vp)" for Q
    by (auto simp: longs_def)
  have l: "subtree_check_loop name sub head None None =
      (if \<exists>l \<in> set longs. viewType l \<noteq> viewType (hd longs) then None else Some (sh, if longs = [] then None else Some (hd longs)))"
    using subtree_check_loop_eq [OF assms, of sub None None] unfolding longs_def sh_def subtree_result_def option_list_simps append_Nil .
  show ?thesis
  proof (cases "\<exists>l \<in> set longs. viewType l \<noteq> viewType (hd longs)")
    case True
    then have "\<exists>l \<in> set longs. viewType l \<noteq> view_type_at head name sub"
      by (metis empty_iff hd_in_set list.set(1))
    then show ?thesis using l True assms(1) unfolding ex by (simp add: netsnmp_view_subtree_check_def)
  next
    case False
    then have "(\<exists>l \<in> set longs. viewType l \<noteq> view_type_at head name sub)
        \<longleftrightarrow> longs \<noteq> [] \<and> viewType (hd longs) \<noteq> view_type_at head name sub"
      by (metis empty_iff hd_in_set list.set(1))
    moreover have "netsnmp_view_subtree_check head name sub =
        (if longs \<noteq> [] \<and> viewType (hd longs) \<noteq> view_type_at head name sub then VACM_SUBTREE_UNKNOWN
         else if view_type_at head name sub = SNMP_VIEW_EXCLUDED then VACM_NOTINVIEW else VACM_SUCCESS)"
    proof -
      have r: "subtree_check_loop name sub head None None = Some (sh, if longs = [] then None else Some (hd longs))"
        using l False by simp
      show ?thesis using assms(1) unfolding netsnmp_view_subtree_check_def r t
        by (cases sh; cases longs) auto
    qed
    ultimately show ?thesis unfolding ex by simp
  qed
qed


section \<open>Soundness for the OIDs below\<close>

lemma view_matches_upto_mono: "view_matches_upto ig vp x n \<Longrightarrow> m \<le> n \<Longrightarrow> view_matches_upto ig vp x m"
  by (simp add: view_matches_upto_def)

lemma view_matches_upto_prefix:
  "prefix sub x \<Longrightarrow> n \<le> length sub \<Longrightarrow> view_matches_upto ig vp sub n \<longleftrightarrow> view_matches_upto ig vp x n"
  by (auto simp: view_matches_upto_def prefix_def nth_append)

text \<open>
  A match of a longer OID is a match of \<open>sub\<close> or a view below \<open>sub\<close>.
\<close>

lemma view_matches_below:
  assumes "prefix sub x" "view_matches VACM_MODE_FIND name x vp" "\<not> view_below name sub vp"
  shows "view_matches VACM_MODE_FIND name sub vp"
proof (cases "length (viewSubtree vp) - 1 \<le> length sub")
  case True
  then show ?thesis using assms view_matches_upto_prefix [OF assms(1) True] by (auto simp: view_matches_def)
next
  case False
  have "view_matches_upto False vp x (length sub)" using False assms(2)
    by (auto simp: view_matches_def elim: view_matches_upto_mono)
  then have "view_below name sub vp" using False assms(1,2) view_matches_upto_prefix [OF assms(1) order_refl, of False vp]
    by (auto simp: view_matches_def view_below_def)
  with assms(3) show ?thesis by simp
qed

lemma view_matches_prefix_mono:
  assumes "prefix sub x" "view_matches VACM_MODE_FIND name sub vp"
  shows "view_matches VACM_MODE_FIND name x vp"
  using assms view_matches_upto_prefix [OF assms(1), of "length (viewSubtree vp) - 1" False vp] prefix_length_le [OF assms(1)]
  by (auto simp: view_matches_def)

lemma view_type_at_below:
  assumes "length name \<le> 32" "\<forall>vp \<in> set head. length (viewName vp) \<le> 32"
    and "\<forall>vp \<in> set head. view_below name sub vp \<longrightarrow> viewType vp = view_type_at head name sub" and "prefix sub x"
  shows "view_type_at head name x = view_type_at head name sub"
proof -
  let ?M = "\<lambda>z. filter (view_matches VACM_MODE_FIND name z) head"
  have get: "netsnmp_view_get head name z VACM_MODE_FIND = foldl keep_best None (?M z)" for z
    using netsnmp_view_get_eq [OF assms(1,2), of z VACM_MODE_FIND] by simp
  show ?thesis
  proof (cases "?M x = []")
    case True
    then have "?M sub = []" using view_matches_prefix_mono [OF assms(4)] by (auto simp: filter_empty_conv)
    then show ?thesis using True by (simp add: view_type_at_def get)
  next
    case False
    then obtain e where e: "foldl keep_best None (?M x) = Some e" "first_best (?M x) e" using foldl_keep_best by blast
    then have m: "e \<in> set head" "view_matches VACM_MODE_FIND name x e" using first_best_key [OF e(2)] by auto
    show ?thesis
    proof (cases "view_below name sub e")
      case True
      then show ?thesis using assms(3) m e by (simp add: view_type_at_def get)
    next
      case nb: False
      have short: "length (viewSubtree e) - 1 \<le> length sub"
        using view_matches_below [OF assms(4) m(2) nb] by (simp add: view_matches_def)
      have "?M x = ?M sub"
      proof (rule filter_cong [OF refl])
        fix vp assume vp: "vp \<in> set head"
        show "view_matches VACM_MODE_FIND name x vp \<longleftrightarrow> view_matches VACM_MODE_FIND name sub vp"
        proof
          assume mx: "view_matches VACM_MODE_FIND name x vp"
          have "view_key vp \<le> view_key e" using first_best_key [OF e(2)] vp mx by simp
          then have "length (viewSubtree vp) \<le> length (viewSubtree e)" by (auto simp: view_key_def)
          then have "length (viewSubtree vp) - 1 \<le> length sub" using short by linarith
          then have "\<not> view_below name sub vp" by (simp add: view_below_def)
          then show "view_matches VACM_MODE_FIND name sub vp" by (rule view_matches_below [OF assms(4) mx])
        qed (rule view_matches_prefix_mono [OF assms(4)])
      qed
      then show ?thesis by (simp add: view_type_at_def get)
    qed
  qed
qed

section \<open>Properties of the views\<close>

text \<open>
  C19. \<open>netsnmp_view_get\<close> finds the most specific view. In the find and ignore-mask modes the result is the
  first of the greatest matching views (longest subtree, then lexicographically greatest), and none exactly
  when nothing matches; in the check-subtree mode it is the match when there is exactly one. A match agrees
  with the OID at every position that the mask selects.
\<close>

theorem view_get_most_specific:
  assumes "length name \<le> 32" "\<forall>vp \<in> set head. length (viewName vp) \<le> 32"
  shows "(mode \<noteq> VACM_MODE_CHECK_SUBTREE \<longrightarrow>
        (netsnmp_view_get head name sub mode = Some e \<longleftrightarrow> first_best (filter (view_matches mode name sub) head) e)
        \<and> (netsnmp_view_get head name sub mode = None \<longleftrightarrow> (\<forall>vp \<in> set head. \<not> view_matches mode name sub vp)))
    \<and> (netsnmp_view_get head name sub VACM_MODE_CHECK_SUBTREE = Some e
        \<longleftrightarrow> filter (view_matches VACM_MODE_CHECK_SUBTREE name sub) head = [e])"
proof (intro conjI impI)
  let ?ms = "filter (view_matches mode name sub) head"
  assume mode: "mode \<noteq> VACM_MODE_CHECK_SUBTREE"
  then have get: "netsnmp_view_get head name sub mode = foldl keep_best None ?ms"
    using netsnmp_view_get_eq [OF assms, of sub mode] by simp
  show "netsnmp_view_get head name sub mode = Some e \<longleftrightarrow> first_best ?ms e"
    unfolding get by (rule foldl_keep_best_iff)
  show "netsnmp_view_get head name sub mode = None \<longleftrightarrow> (\<forall>vp \<in> set head. \<not> view_matches mode name sub vp)"
    unfolding get using foldl_keep_best [of ?ms] by (cases "?ms = []") (auto simp: filter_empty_conv)
next
  show "netsnmp_view_get head name sub VACM_MODE_CHECK_SUBTREE = Some e
        \<longleftrightarrow> filter (view_matches VACM_MODE_CHECK_SUBTREE name sub) head = [e]"
    using netsnmp_view_get_eq [OF assms, of sub VACM_MODE_CHECK_SUBTREE]
    by (cases "filter (view_matches VACM_MODE_CHECK_SUBTREE name sub) head") (auto simp: Let_def)
qed

definition ex_view :: "bytes \<Rightarrow> oid \<Rightarrow> bytes \<Rightarrow> int \<Rightarrow> view_entry" where
  "ex_view name sub msk t = \<lparr>viewName = name, viewSubtree = word_of_nat (length sub) # sub, viewMask = msk,
     viewType = t, viewStorageType = 0, viewStatus = 1\<rparr>"

theorem view_get_most_specific_witness:
  "netsnmp_view_get [ex_view [0x61] [1, 3] [] 1, ex_view [0x61] [1, 3, 6] [0xA0] 2] [0x61] [1, 5, 6, 1] VACM_MODE_FIND
    = Some (ex_view [0x61] [1, 3, 6] [0xA0] 2)"
proof -
  let ?h = "[ex_view [0x61] [1, 3] [] 1, ex_view [0x61] [1, 3, 6] [0xA0] 2]"
  have m: "filter (view_matches VACM_MODE_FIND [0x61] [1, 5, 6, 1]) ?h = [ex_view [0x61] [1, 3, 6] [0xA0] 2]"
    by (simp add: ex_view_def view_matches_def view_matches_upto_def mask_bit_def less_Suc_eq numeral_3_eq_3 numeral_2_eq_2)
  have "first_best [v] v" for v by (simp add: first_best_hereI)
  then show ?thesis
    using view_get_most_specific [of "[0x61]" ?h VACM_MODE_FIND "[1, 5, 6, 1]" "ex_view [0x61] [1, 3, 6] [0xA0] 2"] m
    by (simp add: ex_view_def)
qed

text \<open>
  \<open>netsnmp_view_subtree_check\<close> decides exactly whether the answer for a subtree is known: it is unknown
  when a view below the subtree has another type than the best match of the subtree itself, otherwise it is
  success or not-in-view by that type (excluded when nothing matches).
\<close>

theorem view_subtree_check_exact:
  assumes "length name \<le> 32" "\<forall>vp \<in> set head. length (viewName vp) \<le> 32"
  shows "netsnmp_view_subtree_check head name sub =
    (if \<exists>vp \<in> set head. view_below name sub vp \<and> viewType vp \<noteq> view_type_at head name sub then VACM_SUBTREE_UNKNOWN
     else if view_type_at head name sub = SNMP_VIEW_EXCLUDED then VACM_NOTINVIEW else VACM_SUCCESS)"
  by (rule netsnmp_view_subtree_check_eq [OF assms])

theorem view_subtree_check_exact_witness:
  "netsnmp_view_subtree_check [ex_view [0x61] [1, 3] [] 2] [0x61] [1] = VACM_NOTINVIEW
    \<and> netsnmp_view_subtree_check [ex_view [0x61] [1, 3] [] 1] [0x61] [1] = VACM_SUBTREE_UNKNOWN"
proof -
  have t: "view_type_at [ex_view [0x61] [1, 3] [] t] [0x61] [1] = 2" for t
    by (simp add: view_type_at_def netsnmp_view_get_eq view_matches_def ex_view_def)
  have b: "view_below [0x61] [1] (ex_view [0x61] [1, 3] [] t)" for t
    by (simp add: view_below_def view_matches_upto_def ex_view_def)
  show ?thesis
    using view_subtree_check_exact [of "[0x61]" "[ex_view [0x61] [1, 3] [] 2]" "[1]"]
      view_subtree_check_exact [of "[0x61]" "[ex_view [0x61] [1, 3] [] 1]" "[1]"] t b
    by (simp add: ex_view_def)
qed

text \<open>
  C11. The early answer of \<open>netsnmp_view_subtree_check\<close> is sound: when it says success, every OID of the
  subtree is found in an included view; when it says not-in-view, no OID of the subtree is.
\<close>

theorem view_subtree_check_sound:
  assumes "length name \<le> 32" "\<forall>vp \<in> set head. length (viewName vp) \<le> 32" "prefix sub x"
  shows "(netsnmp_view_subtree_check head name sub = VACM_SUCCESS \<longrightarrow>
      (\<exists>e. netsnmp_view_get head name x VACM_MODE_FIND = Some e \<and> viewType e \<noteq> SNMP_VIEW_EXCLUDED))
    \<and> (netsnmp_view_subtree_check head name sub = VACM_NOTINVIEW \<longrightarrow>
      (\<forall>e. netsnmp_view_get head name x VACM_MODE_FIND = Some e \<longrightarrow> viewType e = SNMP_VIEW_EXCLUDED))"
proof -
  have same: "view_type_at head name x = view_type_at head name sub"
    if "netsnmp_view_subtree_check head name sub \<noteq> VACM_SUBTREE_UNKNOWN"
    using that view_type_at_below [OF assms(1,2) _ assms(3)] netsnmp_view_subtree_check_eq [OF assms(1,2), of sub]
    by (auto split: if_splits)
  have val: "netsnmp_view_subtree_check head name sub \<noteq> VACM_SUBTREE_UNKNOWN \<Longrightarrow> netsnmp_view_subtree_check head name sub
      = (if view_type_at head name sub = SNMP_VIEW_EXCLUDED then VACM_NOTINVIEW else VACM_SUCCESS)"
    using netsnmp_view_subtree_check_eq [OF assms(1,2), of sub] by (simp split: if_splits)
  have t: "view_type_at head name x = SNMP_VIEW_EXCLUDED \<longleftrightarrow>
      (\<forall>e. netsnmp_view_get head name x VACM_MODE_FIND = Some e \<longrightarrow> viewType e = SNMP_VIEW_EXCLUDED)"
    by (simp add: view_type_at_def split: option.splits)
  have s: "netsnmp_view_subtree_check head name sub = VACM_SUCCESS \<Longrightarrow> view_type_at head name x \<noteq> SNMP_VIEW_EXCLUDED"
    and n: "netsnmp_view_subtree_check head name sub = VACM_NOTINVIEW \<Longrightarrow> view_type_at head name x = SNMP_VIEW_EXCLUDED"
    using same val by (auto split: if_splits)
  show ?thesis using s n t by blast
qed

theorem view_subtree_check_sound_witness:
  "\<exists>e. netsnmp_view_get [ex_view [0x61] [1, 3] [] 1] [0x61] [1, 3, 6, 7] VACM_MODE_FIND = Some e \<and> viewType e \<noteq> 2"
proof -
  let ?h = "[ex_view [0x61] [1, 3] [] 1]"
  have "netsnmp_view_subtree_check ?h [0x61] [1, 3, 6] = 0"
    by (simp add: netsnmp_view_subtree_check_eq view_type_at_def netsnmp_view_get_eq view_matches_def view_below_def
        view_matches_upto_def ex_view_def keep_best_simps nth_Cons' less_Suc_eq numeral_2_eq_2)
  then show ?thesis
    using view_subtree_check_sound [of "[0x61]" ?h "[1, 3, 6]" "[1, 3, 6, 7]"] by (simp add: ex_view_def)
qed

section \<open>The sorted tables\<close>

text \<open>What insertion and removal do to any list.\<close>

lemma table_insert_split:
  assumes "table_insert stop vp xs = (r, n)"
  obtains ys zs where "xs = ys @ zs" "r = ys @ vp # zs" "n = length ys" "\<forall>y \<in> set ys. \<not> stop y" "zs \<noteq> [] \<longrightarrow> stop (hd zs)"
proof -
  have "\<exists>ys zs. xs = ys @ zs \<and> r = ys @ vp # zs \<and> n = length ys \<and> (\<forall>y \<in> set ys. \<not> stop y) \<and> (zs \<noteq> [] \<longrightarrow> stop (hd zs))"
    using assms
  proof (induction xs arbitrary: r n)
    case Nil
    then show ?case by simp
  next
    case (Cons x xs)
    show ?case
    proof (cases "stop x")
      case True
      then show ?thesis using Cons.prems by (intro exI [of _ "[]"] exI [of _ "x # xs"]) simp
    next
      case False
      obtain r' n' where i: "table_insert stop vp xs = (r', n')" by (cases "table_insert stop vp xs")
      then obtain ys zs where "xs = ys @ zs \<and> r' = ys @ vp # zs \<and> n' = length ys \<and> (\<forall>y \<in> set ys. \<not> stop y) \<and> (zs \<noteq> [] \<longrightarrow> stop (hd zs))"
        using Cons.IH by blast
      then show ?thesis using Cons.prems i False by (intro exI [of _ "x # ys"] exI [of _ zs]) auto
    qed
  qed
  then show ?thesis using that by blast
qed

lemma table_destroy_unlink: "table_destroy p xs = table_unlink p xs"
  by (simp add: table_destroy_def split: list.splits)

lemma table_unlink_none: "\<forall>x \<in> set xs. \<not> p x \<Longrightarrow> table_unlink p xs = xs"
  by (induction xs) auto

lemma table_unlink_first: "\<forall>y \<in> set ys. \<not> p y \<Longrightarrow> p x \<Longrightarrow> table_unlink p (ys @ x # zs) = ys @ zs"
  by (induction ys) auto

lemma table_unlink_subset: "set (table_unlink p xs) \<subseteq> set xs"
  by (induction xs) auto

lemma table_clear_Nil: "table_clear xs = []"
  by (induction xs) auto

text \<open>
  The contract of a table: the scan of an insertion stops at an entry exactly when the new key is smaller.
  \<open>ok\<close> is what entries satisfy (names of at most 32 characters).
\<close>

locale ordered_table =
  fixes key :: "'e \<Rightarrow> 'k :: linorder" and stop :: "'e \<Rightarrow> 'e \<Rightarrow> bool" and ok :: "'e \<Rightarrow> bool"
  assumes stop_iff: "ok vp \<Longrightarrow> ok lp \<Longrightarrow> stop vp lp \<longleftrightarrow> key vp < key lp"
begin

definition invar :: "'e list \<Rightarrow> bool" where
  "invar xs \<longleftrightarrow> sorted (map key xs) \<and> (\<forall>x \<in> set xs. ok x)"

lemma invar_insert:
  assumes "invar xs" "ok vp" "table_insert (stop vp) vp xs = (r, n)"
  shows "invar r \<and> n < length r \<and> r ! n = vp \<and> mset r = add_mset vp (mset xs)"
proof -
  obtain ys zs where s: "xs = ys @ zs" "r = ys @ vp # zs" "n = length ys"
    and y: "\<forall>y \<in> set ys. \<not> stop vp y" and z: "zs \<noteq> [] \<longrightarrow> stop vp (hd zs)"
    using table_insert_split [OF assms(3)] by metis
  have oks: "\<forall>x \<in> set ys \<union> set zs. ok x" using assms(1) s by (auto simp: invar_def)
  have le: "\<forall>x \<in> set ys. key x \<le> key vp" using y oks stop_iff [OF assms(2)] by auto
  have srt: "sorted (map key ys)" "sorted (map key zs)" using assms(1) s by (auto simp: invar_def sorted_append)
  have ge: "\<forall>x \<in> set zs. key vp \<le> key x"
  proof (cases zs)
    case (Cons z zs')
    then have "key vp < key z" using z oks stop_iff [OF assms(2)] by auto
    then show ?thesis using srt(2) Cons by auto
  qed simp
  have yz: "\<forall>x \<in> set ys. \<forall>x' \<in> set zs. key x \<le> key x'" using assms(1) s by (auto simp: invar_def sorted_append)
  show ?thesis using s srt le ge yz oks assms(2) by (auto simp: invar_def sorted_append nth_append)
qed

lemma invar_unlink: "invar xs \<Longrightarrow> invar (table_unlink p xs)"
proof (induction xs)
  case (Cons x xs)
  then show ?case using table_unlink_subset [of p xs] by (auto simp: invar_def)
qed simp

lemma invar_destroy: "invar xs \<Longrightarrow> invar (table_destroy p xs)"
  by (simp add: table_destroy_unlink invar_unlink)

lemma invar_Nil: "invar []"
  by (simp add: invar_def)

text \<open>Removing what was inserted under a fresh index gives the table back.\<close>

lemma destroy_insert:
  assumes "table_insert (stop vp) vp xs = (r, n)" "p vp" "\<forall>x \<in> set xs. \<not> p x"
  shows "table_destroy p r = xs"
  using table_insert_split [OF assms(1)] assms(2,3) by (metis Un_iff set_append table_destroy_unlink table_unlink_first)

end

definition view_index :: "view_entry \<Rightarrow> bytes \<times> oid" where
  "view_index vp = (vacm_str (viewName vp), viewSubtree vp)"

definition group_index :: "group_entry \<Rightarrow> int \<times> bytes" where
  "group_index gp = (gr_securityModel gp, vacm_str (gr_securityName gp))"

definition access_index :: "access_entry \<Rightarrow> bytes \<times> bytes \<times> int \<times> int" where
  "access_index ap = (vacm_str (ac_groupName ap), vacm_str (ac_contextPrefix ap), ac_securityModel ap, ac_securityLevel ap)"

definition view_ok :: "view_entry \<Rightarrow> bool" where
  "view_ok vp \<longleftrightarrow> length (viewName vp) \<le> 32"

definition group_ok :: "group_entry \<Rightarrow> bool" where
  "group_ok gp \<longleftrightarrow> length (gr_securityName gp) \<le> 32"

definition access_ok :: "access_entry \<Rightarrow> bool" where
  "access_ok ap \<longleftrightarrow> length (ac_groupName ap) \<le> 32 \<and> length (ac_contextPrefix ap) \<le> 32"

lemma vacm_str_inj [simp]: "vacm_str a = vacm_str b \<longleftrightarrow> a = b"
  by (auto simp: vacm_str_def)

text \<open>The comparison the lists use, as the order of the stored names.\<close>

lemma memcmp_names:
  assumes "length a \<le> 32" "length b \<le> 32"
  shows "memcmp (length b + 1) (vacm_str a) (vacm_str b) > 0 \<longleftrightarrow> vacm_str b < vacm_str a"
    "memcmp (length b + 1) (vacm_str a) (vacm_str b) < 0 \<longleftrightarrow> vacm_str a < vacm_str b"
    "memcmp (length b + 1) (vacm_str a) (vacm_str b) = 0 \<longleftrightarrow> a = b"
proof -
  have l: "length a < 256" "length b < 256" using assms by simp_all
  show "memcmp (length b + 1) (vacm_str a) (vacm_str b) > 0 \<longleftrightarrow> vacm_str b < vacm_str a"
    "memcmp (length b + 1) (vacm_str a) (vacm_str b) < 0 \<longleftrightarrow> vacm_str a < vacm_str b"
    "memcmp (length b + 1) (vacm_str a) (vacm_str b) = 0 \<longleftrightarrow> a = b"
    unfolding memcmp_vacm_str [OF l] vacm_str_inj [of a b, symmetric]
    by (cases "vacm_str a" "vacm_str b" rule: linorder_cases; auto simp del: vacm_str_inj)+
qed

interpretation views: ordered_table view_index view_stop view_ok
proof
  fix vp lp :: view_entry
  assume "view_ok vp" "view_ok lp"
  then have l: "length (viewName lp) \<le> 32" "length (viewName vp) \<le> 32" by (simp_all add: view_ok_def)
  show "view_stop vp lp \<longleftrightarrow> view_index vp < view_index lp"
    unfolding view_stop_def Let_def memcmp_names [OF l] snmp_oid_compare_pos
    by (auto simp: view_index_def less_le)
qed

interpretation groups: ordered_table group_index group_stop group_ok
proof
  fix gp lg :: group_entry
  assume "group_ok gp" "group_ok lg"
  then have l: "length (gr_securityName lg) \<le> 32" "length (gr_securityName gp) \<le> 32" by (simp_all add: group_ok_def)
  show "group_stop gp lg \<longleftrightarrow> group_index gp < group_index lg"
    unfolding group_stop_def memcmp_names [OF l] by (auto simp: group_index_def)
qed

interpretation accesses: ordered_table access_index access_stop access_ok
proof
  fix vp lp :: access_entry
  assume "access_ok vp" "access_ok lp"
  then have l: "length (ac_groupName lp) \<le> 32" "length (ac_groupName vp) \<le> 32"
    "length (ac_contextPrefix lp) \<le> 32" "length (ac_contextPrefix vp) \<le> 32" by (simp_all add: access_ok_def)
  have "vacm_str (ac_groupName lp) < vacm_str (ac_groupName vp) \<Longrightarrow> vacm_str (ac_groupName lp) \<noteq> vacm_str (ac_groupName vp)" by auto
  show "access_stop vp lp \<longleftrightarrow> access_index vp < access_index lp"
    unfolding access_stop_def Let_def memcmp_names [OF l(1,2)] memcmp_names [OF l(3,4)]
    by (cases "vacm_str (ac_groupName lp)" "vacm_str (ac_groupName vp)" rule: linorder_cases;
        cases "vacm_str (ac_contextPrefix lp)" "vacm_str (ac_contextPrefix vp)" rule: linorder_cases)
      (auto simp: access_index_def)
qed


text \<open>The whole state: the three tables are sorted by their index.\<close>

definition vacm_wf :: "vacm \<Rightarrow> bool" where
  "vacm_wf st \<longleftrightarrow> views.invar (viewList st) \<and> groups.invar (groupList st) \<and> accesses.invar (accessList st)"

lemma view_create_cases:
  "netsnmp_view_create mem xs name sub = None \<longleftrightarrow> \<not> mem \<or> length name > 32 \<or> length sub > 128"
  "netsnmp_view_create mem xs name sub = Some (r, n) \<Longrightarrow> \<exists>vp. view_ok vp \<and> viewName vp = name
     \<and> viewSubtree vp = word_of_nat (length sub) # sub \<and> table_insert (view_stop vp) vp xs = (r, n)"
  unfolding netsnmp_view_create_def Let_def view_ok_def
  by (auto split: if_splits intro!: exI [of _ "\<lparr>viewName = name, viewSubtree = word_of_nat (length sub) # sub, viewMask = [],
                     viewType = 0, viewStorageType = 0, viewStatus = 0\<rparr>"])

lemma group_create_cases:
  "vacm_createGroupEntry mem xs model name = None \<longleftrightarrow> \<not> mem \<or> length name > 32"
  "vacm_createGroupEntry mem xs model name = Some (r, n) \<Longrightarrow> \<exists>gp. group_ok gp \<and> gr_securityModel gp = model
     \<and> gr_securityName gp = name \<and> table_insert (group_stop gp) gp xs = (r, n)"
  unfolding vacm_createGroupEntry_def Let_def group_ok_def
  by (auto split: if_splits intro!: exI [of _ "\<lparr>gr_securityModel = model, gr_securityName = name, gr_groupName = [],
                     gr_storageType = 0, gr_status = 0\<rparr>"])

lemma access_create_cases:
  "vacm_createAccessEntry mem xs grp context model level = None \<longleftrightarrow> \<not> mem \<or> length grp > 32 \<or> length context > 32"
  "vacm_createAccessEntry mem xs grp context model level = Some (r, n) \<Longrightarrow> \<exists>ap. access_ok ap \<and> ac_groupName ap = grp
     \<and> ac_contextPrefix ap = context \<and> ac_securityModel ap = model \<and> ac_securityLevel ap = level
     \<and> length (ac_views ap) = 8 \<and> table_insert (access_stop ap) ap xs = (r, n)"
  unfolding vacm_createAccessEntry_def Let_def access_ok_def
  by (auto split: if_splits intro!: exI [of _ "\<lparr>ac_groupName = grp, ac_contextPrefix = context, ac_securityModel = model,
                     ac_securityLevel = level, ac_contextMatch = 0, ac_views = replicate 8 [],
                     ac_storageType = 0, ac_status = 0\<rparr>"])

section \<open>Properties of the tables\<close>

text \<open>
  C26. Creation keeps the tables sorted: it fails exactly for an over-long name (more than 32 bytes), OID (more than 128
  sub-identifiers) or context (more than 32 bytes), or when no memory is left; otherwise the entry at the returned position
  has the requested index, the other entries are the old ones, and the table is sorted.
\<close>

theorem vacm_create_sorted:
  assumes "vacm_wf st"
  shows "(netsnmp_view_create mem (viewList st) name sub = None \<longleftrightarrow> \<not> mem \<or> length name > 32 \<or> length sub > 128)
   \<and> (vacm_createGroupEntry mem (groupList st) model name = None \<longleftrightarrow> \<not> mem \<or> length name > 32)
   \<and> (vacm_createAccessEntry mem (accessList st) grp context model level = None \<longleftrightarrow>
        \<not> mem \<or> length grp > 32 \<or> length context > 32)
   \<and> (\<forall>r n. netsnmp_view_create mem (viewList st) name sub = Some (r, n) \<longrightarrow>
        vacm_wf (st\<lparr>viewList := r\<rparr>) \<and> n < length r \<and> mset r = add_mset (r ! n) (mset (viewList st))
        \<and> viewName (r ! n) = name \<and> viewSubtree (r ! n) = word_of_nat (length sub) # sub)
   \<and> (\<forall>r n. vacm_createGroupEntry mem (groupList st) model name = Some (r, n) \<longrightarrow>
        vacm_wf (st\<lparr>groupList := r\<rparr>) \<and> n < length r \<and> mset r = add_mset (r ! n) (mset (groupList st))
        \<and> gr_securityModel (r ! n) = model \<and> gr_securityName (r ! n) = name)
   \<and> (\<forall>r n. vacm_createAccessEntry mem (accessList st) grp context model level = Some (r, n) \<longrightarrow>
        vacm_wf (st\<lparr>accessList := r\<rparr>) \<and> n < length r \<and> mset r = add_mset (r ! n) (mset (accessList st))
        \<and> ac_groupName (r ! n) = grp \<and> ac_contextPrefix (r ! n) = context
        \<and> ac_securityModel (r ! n) = model \<and> ac_securityLevel (r ! n) = level)"
proof (intro conjI allI impI)
  have wf: "views.invar (viewList st)" "groups.invar (groupList st)" "accesses.invar (accessList st)"
    using assms by (simp_all add: vacm_wf_def)
  show "netsnmp_view_create mem (viewList st) name sub = None \<longleftrightarrow> \<not> mem \<or> length name > 32 \<or> length sub > 128"
    by (auto simp: netsnmp_view_create_def Let_def)
  show "vacm_createGroupEntry mem (groupList st) model name = None \<longleftrightarrow> \<not> mem \<or> length name > 32"
    by (auto simp: vacm_createGroupEntry_def Let_def)
  show "vacm_createAccessEntry mem (accessList st) grp context model level = None \<longleftrightarrow>
        \<not> mem \<or> length grp > 32 \<or> length context > 32"
    by (auto simp: vacm_createAccessEntry_def Let_def)
  fix rv :: "view_entry list" and n and rg :: "group_entry list" and ra :: "access_entry list"
  show "vacm_wf (st\<lparr>viewList := rv\<rparr>)" "n < length rv" "mset rv = add_mset (rv ! n) (mset (viewList st))"
    "viewName (rv ! n) = name" "viewSubtree (rv ! n) = word_of_nat (length sub) # sub"
    if "netsnmp_view_create mem (viewList st) name sub = Some (rv, n)"
    using view_create_cases(2) [of mem "viewList st" name sub rv n] views.invar_insert [OF wf(1)] that wf
    by (auto simp: vacm_wf_def)
  show "vacm_wf (st\<lparr>groupList := rg\<rparr>)" "n < length rg" "mset rg = add_mset (rg ! n) (mset (groupList st))"
    "gr_securityModel (rg ! n) = model" "gr_securityName (rg ! n) = name"
    if "vacm_createGroupEntry mem (groupList st) model name = Some (rg, n)"
    using group_create_cases(2) [of mem "groupList st" model name rg n] groups.invar_insert [OF wf(2)] that wf
    by (auto simp: vacm_wf_def)
  show "vacm_wf (st\<lparr>accessList := ra\<rparr>)" "n < length ra" "mset ra = add_mset (ra ! n) (mset (accessList st))"
    "ac_groupName (ra ! n) = grp" "ac_contextPrefix (ra ! n) = context" "ac_securityModel (ra ! n) = model" "ac_securityLevel (ra ! n) = level"
    if "vacm_createAccessEntry mem (accessList st) grp context model level = Some (ra, n)"
    using access_create_cases(2) [of mem "accessList st" grp "context" model level ra n] accesses.invar_insert [OF wf(3)] that wf
    by (auto simp: vacm_wf_def)
qed

theorem vacm_create_sorted_witness:
  "\<exists>r n. vacm_createGroupEntry True [] 3 [0x61] = Some (r, n) \<and> groups.invar r \<and> gr_securityName (r ! n) = [0x61]"
proof -
  have "vacm_wf \<lparr>viewList = [], groupList = [], accessList = []\<rparr>"
    by (simp add: vacm_wf_def views.invar_Nil groups.invar_Nil accesses.invar_Nil)
  from vacm_create_sorted [OF this, of True "[0x61]" "[]" 3 "[]" "[]" 1] show ?thesis
    using group_create_cases(1) [of True "[]" 3 "[0x61]"]
    by (cases "vacm_createGroupEntry True [] 3 [0x61]") (auto simp: vacm_wf_def split: prod.splits)
qed

text \<open>
  Removal undoes creation: an entry created under an index that the table does not hold is removed again
  by the destroy function with that index (for a view the OID as stored, with its length in front), which
  gives the old table; every removal keeps the tables sorted.
\<close>

theorem vacm_create_destroy:
  assumes "vacm_wf st"
  shows "(\<forall>r n. netsnmp_view_create mem (viewList st) name sub = Some (r, n)
        \<and> \<not> (\<exists>vp \<in> set (viewList st). view_is name (word_of_nat (length sub) # sub) vp)
      \<longrightarrow> netsnmp_view_destroy r name (word_of_nat (length sub) # sub) = viewList st)
   \<and> (\<forall>r n. vacm_createGroupEntry mem (groupList st) model name = Some (r, n)
        \<and> \<not> (\<exists>gp \<in> set (groupList st). group_is model name gp)
      \<longrightarrow> vacm_destroyGroupEntry r model name = groupList st)
   \<and> (\<forall>r n. vacm_createAccessEntry mem (accessList st) grp context model level = Some (r, n)
        \<and> \<not> (\<exists>ap \<in> set (accessList st). access_is grp context model level ap)
      \<longrightarrow> vacm_destroyAccessEntry r grp context model level = accessList st)
   \<and> vacm_wf \<lparr>viewList = netsnmp_view_destroy (viewList st) name sub,
       groupList = vacm_destroyGroupEntry (groupList st) model name,
       accessList = vacm_destroyAccessEntry (accessList st) grp context model level\<rparr>
   \<and> netsnmp_view_clear (viewList st) = [] \<and> vacm_destroyAllGroupEntries (groupList st) = []
   \<and> vacm_destroyAllAccessEntries (accessList st) = []"
proof (intro conjI allI impI; (elim conjE)?)
  fix r n assume "netsnmp_view_create mem (viewList st) name sub = Some (r, n)"
    and fresh: "\<not> (\<exists>vp \<in> set (viewList st). view_is name (word_of_nat (length sub) # sub) vp)"
  then show "netsnmp_view_destroy r name (word_of_nat (length sub) # sub) = viewList st"
    using view_create_cases(2) [of mem "viewList st" name sub r n]
    by (auto simp: netsnmp_view_destroy_def view_is_def intro!: views.destroy_insert)
next
  fix r n assume "vacm_createGroupEntry mem (groupList st) model name = Some (r, n)"
    and fresh: "\<not> (\<exists>gp \<in> set (groupList st). group_is model name gp)"
  then show "vacm_destroyGroupEntry r model name = groupList st"
    using group_create_cases(2) [of mem "groupList st" model name r n]
    by (auto simp: vacm_destroyGroupEntry_def group_is_def intro!: groups.destroy_insert)
next
  fix r n assume "vacm_createAccessEntry mem (accessList st) grp context model level = Some (r, n)"
    and fresh: "\<not> (\<exists>ap \<in> set (accessList st). access_is grp context model level ap)"
  then show "vacm_destroyAccessEntry r grp context model level = accessList st"
    using access_create_cases(2) [of mem "accessList st" grp "context" model level r n]
    by (auto simp: vacm_destroyAccessEntry_def access_is_def intro!: accesses.destroy_insert)
next
  show "vacm_wf \<lparr>viewList = netsnmp_view_destroy (viewList st) name sub,
       groupList = vacm_destroyGroupEntry (groupList st) model name,
       accessList = vacm_destroyAccessEntry (accessList st) grp context model level\<rparr>"
    using assms by (simp add: vacm_wf_def netsnmp_view_destroy_def vacm_destroyGroupEntry_def
        vacm_destroyAccessEntry_def views.invar_destroy groups.invar_destroy accesses.invar_destroy)
qed (simp_all add: netsnmp_view_clear_def vacm_destroyAllGroupEntries_def vacm_destroyAllAccessEntries_def table_clear_Nil)

theorem vacm_create_destroy_witness:
  "\<exists>r n. vacm_createGroupEntry True [] 3 [0x61] = Some (r, n) \<and> vacm_destroyGroupEntry r 3 [0x61] = []"
proof -
  have "vacm_wf \<lparr>viewList = [], groupList = [], accessList = []\<rparr>"
    by (simp add: vacm_wf_def views.invar_Nil groups.invar_Nil accesses.invar_Nil)
  from vacm_create_destroy [OF this, of True "[0x61]" "[]" 3 "[]" "[]" 1] show ?thesis
    using group_create_cases(1) [of True "[]" 3 "[0x61]"]
    by (cases "vacm_createGroupEntry True [] 3 [0x61]") auto
qed

section \<open>Lookup of groups and access entries\<close>

lemma vacm_getGroupEntry_find:
  assumes "\<forall>gp \<in> set xs. group_ok gp"
  shows "vacm_getGroupEntry xs model name =
    (if length name > 32 then None
     else find (\<lambda>gp. (gr_securityModel gp = model \<or> gr_securityModel gp = SNMP_SEC_MODEL_ANY) \<and> gr_securityName gp = name) xs)"
  using assms
proof (induction xs)
  case (Cons gp xs)
  show ?case
  proof (cases "length name \<le> 32")
    case True
    have "memcmp (length name + 1) (vacm_str (gr_securityName gp)) (vacm_str name) = 0 \<longleftrightarrow> gr_securityName gp = name"
      using Cons.prems True by (intro memcmp_names) (simp_all add: group_ok_def)
    then show ?thesis using Cons True by auto
  qed simp
qed simp

lemma memcmp_prefix: "length a \<le> length b \<Longrightarrow> memcmp (length a) a b = 0 \<longleftrightarrow> prefix a b"
  unfolding memcmp_take [of "length a" a b] using memcmp_same_length [of "take (length a) a" "length a" "take (length a) b"]
  by (auto simp: take_prefix)

text \<open>The entries that a request may use.\<close>

definition access_allows :: "bytes \<Rightarrow> bytes \<Rightarrow> int \<Rightarrow> int \<Rightarrow> access_entry \<Rightarrow> bool" where
  "access_allows grp context model level ap \<longleftrightarrow>
     (ac_securityModel ap = model \<or> ac_securityModel ap = SNMP_SEC_MODEL_ANY) \<and> ac_securityLevel ap \<le> level
     \<and> ac_groupName ap = grp
     \<and> (ac_contextMatch ap = CONTEXT_MATCH_EXACT \<and> ac_contextPrefix ap = context
        \<or> ac_contextMatch ap = CONTEXT_MATCH_PREFIX \<and> prefix (ac_contextPrefix ap) context)"

lemma access_matches_iff:
  assumes "length grp \<le> 32" "length context \<le> 32" "access_ok ap"
  shows "access_matches grp context model level ap \<longleftrightarrow> access_allows grp context model level ap"
proof -
  have l: "length (ac_groupName ap) \<le> 32" "length (ac_contextPrefix ap) \<le> 32" using assms(3) by (simp_all add: access_ok_def)
  have p: "length context \<ge> length (ac_contextPrefix ap) \<and> memcmp (length (ac_contextPrefix ap)) (ac_contextPrefix ap) context = 0
      \<longleftrightarrow> prefix (ac_contextPrefix ap) context"
    using memcmp_prefix prefix_length_le by blast
  show ?thesis
    unfolding access_matches_def access_allows_def p memcmp_names(3) [OF l(1) assms(1)] memcmp_names(3) [OF l(2) assms(2)] by auto
qed

lemma vacm_choose_best_in: "vacm_choose_best best vp \<in> insert vp (set_option best)"
  by (auto simp: vacm_choose_best_def split: option.splits)

lemma access_loop_filter:
  assumes "length grp \<le> 32" "length context \<le> 32" "\<forall>ap \<in> set xs. access_ok ap"
  shows "access_loop grp context model level xs best =
    foldl (\<lambda>b ap. Some (vacm_choose_best b ap)) best (filter (access_allows grp context model level) xs)"
  using assms(3) by (induction xs arbitrary: best) (simp_all add: access_matches_iff [OF assms(1,2)])

lemma vacm_getAccessEntry_filter:
  assumes "\<forall>ap \<in> set xs. access_ok ap"
  shows "vacm_getAccessEntry xs grp context model level =
    (if length grp > 32 \<or> length context > 32 then None
     else foldl (\<lambda>b ap. Some (vacm_choose_best b ap)) None (filter (access_allows grp context model level) xs))"
  using access_loop_filter [OF _ _ assms] by (simp add: vacm_getAccessEntry_def)

lemma choose_best_foldl: "\<exists>a. foldl (\<lambda>b ap. Some (vacm_choose_best b ap)) (Some r) xs = Some a \<and> a \<in> insert r (set xs)"
proof (induction xs arbitrary: r)
  case (Cons x xs)
  then show ?case using Cons.IH [of "vacm_choose_best (Some r) x"] vacm_choose_best_in [of "Some r" x] by auto
qed simp

lemma choose_best_foldl_level:
  assumes "\<forall>x \<in> insert r (set xs). ac_securityModel x = m \<and> ac_contextMatch x = k \<and> ac_contextPrefix x = c"
  shows "\<exists>a. foldl (\<lambda>b ap. Some (vacm_choose_best b ap)) (Some r) xs = Some a
    \<and> (\<forall>x \<in> insert r (set xs). ac_securityLevel x \<le> ac_securityLevel a)"
  using assms
proof (induction xs arbitrary: r)
  case (Cons x xs)
  have c: "vacm_choose_best (Some r) x = (if ac_securityLevel r < ac_securityLevel x then x else r)"
    using Cons.prems by (simp add: vacm_choose_best_def)
  show ?case
  proof (cases "ac_securityLevel r < ac_securityLevel x")
    case True
    then have "vacm_choose_best (Some r) x = x" using c by simp
    then show ?thesis using Cons.IH [of x] Cons.prems True by fastforce
  next
    case False
    then have "vacm_choose_best (Some r) x = r" using c by simp
    then show ?thesis using Cons.IH [of r] Cons.prems False by fastforce
  qed
qed simp

text \<open>
  C20. The lookups of VACM. The group of a security name is that of the first entry with the name and the
  model, or the model any. An access entry is found exactly when some entry allows the request (group, model,
  level at most the request's, context exactly or by prefix); the entry found is one of these, and when they
  differ in the level only it is one with the highest level.
\<close>

theorem vacm_lookups:
  assumes "vacm_wf st"
  shows "vacm_getGroupEntry (groupList st) model name =
      (if length name > 32 then None
       else find (\<lambda>gp. (gr_securityModel gp = model \<or> gr_securityModel gp = SNMP_SEC_MODEL_ANY) \<and> gr_securityName gp = name) (groupList st))
   \<and> (vacm_getAccessEntry (accessList st) grp context model level = None \<longleftrightarrow>
        length grp > 32 \<or> length context > 32 \<or> (\<forall>ap \<in> set (accessList st). \<not> access_allows grp context model level ap))
   \<and> (\<forall>a. vacm_getAccessEntry (accessList st) grp context model level = Some a \<longrightarrow>
        a \<in> set (accessList st) \<and> access_allows grp context model level a
        \<and> ((\<exists>m k c. \<forall>x \<in> set (accessList st). access_allows grp context model level x \<longrightarrow>
               ac_securityModel x = m \<and> ac_contextMatch x = k \<and> ac_contextPrefix x = c) \<longrightarrow>
           (\<forall>x \<in> set (accessList st). access_allows grp context model level x \<longrightarrow> ac_securityLevel x \<le> ac_securityLevel a)))"
proof -
  let ?ms = "filter (access_allows grp context model level) (accessList st)"
  have ok: "\<forall>gp \<in> set (groupList st). group_ok gp" "\<forall>ap \<in> set (accessList st). access_ok ap"
    using assms by (auto simp: vacm_wf_def groups.invar_def accesses.invar_def)
  have get: "vacm_getAccessEntry (accessList st) grp context model level =
      (if length grp > 32 \<or> length context > 32 then None
       else foldl (\<lambda>b ap. Some (vacm_choose_best b ap)) None ?ms)" by (rule vacm_getAccessEntry_filter [OF ok(2)])
  have first: "vacm_choose_best None r = r" for r by (simp add: vacm_choose_best_def)
  show ?thesis
  proof (cases ?ms)
    case Nil
    then show ?thesis unfolding get using vacm_getGroupEntry_find [OF ok(1)] by (auto simp: filter_empty_conv)
  next
    case (Cons r rs)
    have ms: "set ?ms = insert r (set rs)" using Cons by simp
    then have all: "\<And>x. x \<in> set (accessList st) \<and> access_allows grp context model level x \<longleftrightarrow> x \<in> insert r (set rs)"
      by (metis (no_types, lifting) mem_Collect_eq set_filter)
    obtain a where a: "foldl (\<lambda>b ap. Some (vacm_choose_best b ap)) None ?ms = Some a" "a \<in> insert r (set rs)"
      using choose_best_foldl [of r rs] Cons by (auto simp: first)
    have lev: "\<forall>x \<in> insert r (set rs). ac_securityLevel x \<le> ac_securityLevel a"
      if "\<forall>x \<in> insert r (set rs). ac_securityModel x = m \<and> ac_contextMatch x = k \<and> ac_contextPrefix x = c" for m k c
      using choose_best_foldl_level [OF that] a Cons by (auto simp: first)
    show ?thesis unfolding get a(1)
    proof (intro conjI allI impI)
      fix b assume b: "(if length grp > 32 \<or> length context > 32 then None else Some a) = Some b"
      then show "b \<in> set (accessList st)" "access_allows grp context model level b" using a(2) all by (auto split: if_splits)
      fix x assume "\<exists>m k c. \<forall>x \<in> set (accessList st). access_allows grp context model level x \<longrightarrow>
               ac_securityModel x = m \<and> ac_contextMatch x = k \<and> ac_contextPrefix x = c"
      then obtain m k c where "\<forall>x \<in> insert r (set rs). ac_securityModel x = m \<and> ac_contextMatch x = k \<and> ac_contextPrefix x = c"
        using all by blast
      from lev [OF this] have "\<forall>x \<in> insert r (set rs). ac_securityLevel x \<le> ac_securityLevel b"
        using b by (simp split: if_splits)
      then show "\<forall>x \<in> set (accessList st). access_allows grp context model level x \<longrightarrow> ac_securityLevel x \<le> ac_securityLevel b"
        using all by blast
    qed (use vacm_getGroupEntry_find [OF ok(1)] all in auto)
  qed
qed

definition ex_group :: "int \<Rightarrow> bytes \<Rightarrow> bytes \<Rightarrow> group_entry" where
  "ex_group model name grp = \<lparr>gr_securityModel = model, gr_securityName = name, gr_groupName = grp, gr_storageType = 4, gr_status = 1\<rparr>"

definition ex_access :: "bytes \<Rightarrow> bytes \<Rightarrow> int \<Rightarrow> int \<Rightarrow> int \<Rightarrow> access_entry" where
  "ex_access grp context model level match = \<lparr>ac_groupName = grp, ac_contextPrefix = context, ac_securityModel = model,
     ac_securityLevel = level, ac_contextMatch = match, ac_views = replicate 8 [], ac_storageType = 4, ac_status = 1\<rparr>"

theorem vacm_lookups_witness:
  "vacm_getGroupEntry [ex_group 3 [0x61] [0x67]] 3 [0x61] = Some (ex_group 3 [0x61] [0x67])
    \<and> vacm_getAccessEntry [ex_access [0x67] [] 3 2 1] [0x67] [] 3 3 \<noteq> None"
proof -
  have "vacm_wf \<lparr>viewList = [], groupList = [ex_group 3 [0x61] [0x67]], accessList = [ex_access [0x67] [] 3 2 1]\<rparr>"
    by (simp add: vacm_wf_def views.invar_def groups.invar_def accesses.invar_def group_ok_def access_ok_def ex_group_def ex_access_def)
  from vacm_lookups [OF this, of 3 "[0x61]" "[0x67]" "[]" 3] show ?thesis
    by (simp add: access_allows_def ex_group_def ex_access_def)
qed

text \<open>
  The comments on \<open>_vacm_choose_best\<close> ask for the preferences of RFC 3415 one after the other; the code tests
  their disjunction, so an entry for the model of the request gives way to one for any model.
\<close>

lemma vacm_choose_best_not_preference:
  "vacm_getAccessEntry [ex_access [0x67] [] 3 1 1, ex_access [0x67] [] 0 2 1] [0x67] [] 3 3 = Some (ex_access [0x67] [] 0 2 1)"
  by (simp add: vacm_getAccessEntry_filter access_ok_def access_allows_def ex_access_def vacm_choose_best_def)

section \<open>The simple interface\<close>

text \<open>Replacing the new entry by one with the same index.\<close>

lemma update_same_index:
  "sorted (map key r) \<Longrightarrow> n < length r \<Longrightarrow> key x = key (r ! n) \<Longrightarrow> sorted (map key (r[n := x]))"
  using list_update_id [of "map key r" n] by (simp add: map_update)

lemma set_update_mset:
  "mset r = add_mset v (mset xs) \<Longrightarrow> n < length r \<Longrightarrow> r ! n = v \<Longrightarrow> set (r[n := x]) = insert x (set xs)"
proof -
  assume r: "mset r = add_mset v (mset xs)" "n < length r" "r ! n = v"
  then have "mset (r[n := x]) = add_mset x (mset xs)" by (simp add: mset_update)
  then show ?thesis by (metis set_mset_add_mset_insert set_mset_mset)
qed

lemma create_update_group:
  assumes "vacm_createGroupEntry mem xs model name = Some (r, n)" "groups.invar xs"
    "gr_securityModel x = model" "gr_securityName x = name"
  shows "groups.invar (r[n := x]) \<and> set (r[n := x]) = insert x (set xs)"
proof -
  obtain gp where gp: "group_ok gp" "gr_securityModel gp = model" "gr_securityName gp = name"
    "table_insert (group_stop gp) gp xs = (r, n)" using group_create_cases(2) [OF assms(1)] by blast
  note i = groups.invar_insert [OF assms(2) gp(1,4)]
  have k: "group_index x = group_index (r ! n)" using i gp assms(3,4) by (simp add: group_index_def)
  have s: "set (r[n := x]) = insert x (set xs)" using i set_update_mset [of r gp xs n x] by simp
  have ok: "\<forall>y \<in> set (r[n := x]). group_ok y" using s assms(2-4) gp by (simp add: groups.invar_def group_ok_def)
  have "sorted (map group_index (r[n := x]))"
    using i by (intro update_same_index [OF _ _ k]) (simp_all add: groups.invar_def)
  then show ?thesis using ok s by (simp add: groups.invar_def)
qed

lemma create_update_access:
  assumes "vacm_createAccessEntry mem xs grp context model level = Some (r, n)" "accesses.invar xs"
    "ac_groupName x = grp" "ac_contextPrefix x = context" "ac_securityModel x = model" "ac_securityLevel x = level"
  shows "accesses.invar (r[n := x]) \<and> set (r[n := x]) = insert x (set xs) \<and> n < length r \<and> access_ok (r ! n)
    \<and> ac_groupName (r ! n) = grp \<and> ac_contextPrefix (r ! n) = context \<and> ac_securityModel (r ! n) = model
    \<and> ac_securityLevel (r ! n) = level \<and> length (ac_views (r ! n)) = 8"
proof -
  obtain ap where ap: "access_ok ap" "ac_groupName ap = grp" "ac_contextPrefix ap = context" "ac_securityModel ap = model"
    "ac_securityLevel ap = level" "length (ac_views ap) = 8"
    "table_insert (access_stop ap) ap xs = (r, n)" using access_create_cases(2) [OF assms(1)] by blast
  note i = accesses.invar_insert [OF assms(2) ap(1,7)]
  have k: "access_index x = access_index (r ! n)" using i ap assms(3-6) by (simp add: access_index_def)
  have s: "set (r[n := x]) = insert x (set xs)" using i set_update_mset [of r ap xs n x] by simp
  have ok: "\<forall>y \<in> set (r[n := x]). access_ok y" using s assms(2-6) ap by (simp add: accesses.invar_def access_ok_def)
  have "sorted (map access_index (r[n := x]))"
    using i by (intro update_same_index [OF _ _ k]) (simp_all add: accesses.invar_def)
  then show ?thesis using ok s i ap by (simp add: accesses.invar_def)
qed

lemma simple_view_wf:
  assumes "simple_view mem st view oidView = Ret (v, vs, pos)" "vacm_wf st"
  shows "views.invar vs"
proof (cases "vs = viewList st")
  case True
  then show ?thesis using assms(2) by (simp add: vacm_wf_def)
next
  case False
  then obtain n sub where "netsnmp_view_create mem (viewList st) v sub = Some (vs, n)"
    using assms(1) by (auto simp: simple_view_def Let_def split: option.splits if_splits)
  then show ?thesis using view_create_cases(2) views.invar_insert assms(2) unfolding vacm_wf_def by blast
qed

lemma find_unique: "v \<in> set xs \<Longrightarrow> \<forall>x \<in> set xs. P x \<longleftrightarrow> x = v \<Longrightarrow> find P xs = Some v"
  by (induction xs) auto

lemma access_unique:
  assumes "\<forall>x \<in> set xs. access_ok x" "length grp \<le> 32" "length context \<le> 32" "ap \<in> set xs"
    "\<forall>x \<in> set xs. access_allows grp context model level x \<longleftrightarrow> x = ap"
  shows "vacm_getAccessEntry xs grp context model level = Some ap"
proof -
  let ?ms = "filter (access_allows grp context model level) xs"
  have ms: "set ?ms = {ap}" using assms(4,5) by auto
  then obtain r rs where r: "?ms = r # rs" by (cases ?ms) auto
  then have "insert r (set rs) = {ap}" using ms by simp
  moreover obtain a where "foldl (\<lambda>b ap. Some (vacm_choose_best b ap)) (Some r) rs = Some a" "a \<in> insert r (set rs)"
    using choose_best_foldl by blast
  ultimately have "foldl (\<lambda>b ap. Some (vacm_choose_best b ap)) (Some r) rs = Some ap" by blast
  then show ?thesis using vacm_getAccessEntry_filter [OF assms(1)] assms(2,3) r
    by (simp add: vacm_choose_best_def [of None])
qed

text \<open>The group name that is stored for a user.\<close>

definition simple_group :: "bytes \<Rightarrow> bytes" where
  "simple_group user = map (\<lambda>c. if isalnum c then c else 0x5F) (grp_name user)"

lemma simple_add_cases:
  assumes "netsnmp_vacm_simple_usm_add mem1 mem2 mem3 st user rw authLevel view oidView context = Ret (0, st')"
  obtains v vs pos groups gpos gp ctx wild as apos ap where
    "1 \<le> authLevel" "authLevel \<le> 3" "simple_view mem1 st view oidView = Ret (v, vs, pos)"
    "vacm_createGroupEntry mem2 (groupList st) SNMP_SEC_MODEL_USM user = Some (groups, gpos)"
    "gp = (groups ! gpos)\<lparr>gr_groupName := simple_group user, gr_storageType := 4, gr_status := 1\<rparr>"
    "simple_context context = Ret (ctx, wild)"
    "vacm_createAccessEntry mem3 (accessList st) (simple_group user) ctx SNMP_SEC_MODEL_USM authLevel = Some (as, apos)"
    "ap = (as ! apos)\<lparr>ac_views := (ac_views (as ! apos))[0 := take 33 v, 1 := take 33 (if rw = 0 then none_view else v),
        2 := take 33 (if rw = 0 then none_view else v)],
        ac_contextMatch := if wild then 2 else 1, ac_storageType := 4, ac_status := 1\<rparr>"
    "st' = \<lparr>viewList = vs, groupList = groups[gpos := gp], accessList = as[apos := ap]\<rparr>"
proof -
  show ?thesis
    using assms that unfolding netsnmp_vacm_simple_usm_add_def Let_def simple_group_def [symmetric]
    by (cases st) (auto simp: cbind_eq_Ret split: if_splits cres.splits option.splits prod.splits)
qed

text \<open>
  C25. After a successful \<open>netsnmp_vacm_simple_usm_add\<close> the tables are sorted and the user has access: if
  before the call no group entry applied to the user and no access entry was for its group, the group lookup
  finds the new group, and for every context that the argument covers (the context itself, or what extends
  the part before its asterisk) and every level from \<open>authLevel\<close> on the access lookup finds the new entry,
  whose read view is the given one and whose write and notify views are that or \<open>none\<close>.
\<close>

theorem simple_usm_add_grants:
  assumes "netsnmp_vacm_simple_usm_add mem1 mem2 mem3 st user rw authLevel view oidView context = Ret (0, st')"
    and "vacm_wf st"
    and "\<forall>gp \<in> set (groupList st). gr_securityName gp \<noteq> user"
    and "\<forall>ap \<in> set (accessList st). ac_groupName ap \<noteq> simple_group user"
  shows "vacm_wf st' \<and> (\<exists>g v ctx wild. simple_context context = Ret (ctx, wild)
     \<and> v = (case view of None \<Rightarrow> all_view | Some v \<Rightarrow> v)
     \<and> vacm_getGroupEntry (groupList st') SNMP_SEC_MODEL_USM user = Some g \<and> gr_groupName g = simple_group user
     \<and> (\<forall>c level. length c \<le> 32 \<and> (if wild then prefix ctx c else c = ctx) \<and> authLevel \<le> level \<longrightarrow>
         (\<exists>a. vacm_getAccessEntry (accessList st') (gr_groupName g) c SNMP_SEC_MODEL_USM level = Some a
            \<and> ac_views a ! 0 = take 33 v \<and> ac_views a ! 1 = take 33 (if rw = 0 then none_view else v)
            \<and> ac_views a ! 2 = take 33 (if rw = 0 then none_view else v))))"
  using assms(1)
proof (rule simple_add_cases)
  fix v vs pos groups gpos gp ctx wild as apos ap
  assume view: "simple_view mem1 st view oidView = Ret (v, vs, pos)"
    and grp: "vacm_createGroupEntry mem2 (groupList st) SNMP_SEC_MODEL_USM user = Some (groups, gpos)"
    and gp: "gp = (groups ! gpos)\<lparr>gr_groupName := simple_group user, gr_storageType := 4, gr_status := 1\<rparr>"
    and ctx: "simple_context context = Ret (ctx, wild)"
    and acc: "vacm_createAccessEntry mem3 (accessList st) (simple_group user) ctx SNMP_SEC_MODEL_USM authLevel = Some (as, apos)"
    and ap: "ap = (as ! apos)\<lparr>ac_views := (ac_views (as ! apos))[0 := take 33 v, 1 := take 33 (if rw = 0 then none_view else v),
        2 := take 33 (if rw = 0 then none_view else v)],
        ac_contextMatch := if wild then 2 else 1, ac_storageType := 4, ac_status := 1\<rparr>"
    and st': "st' = \<lparr>viewList = vs, groupList = groups[gpos := gp], accessList = as[apos := ap]\<rparr>"
  have wf: "groups.invar (groupList st)" "accesses.invar (accessList st)" using assms(2) by (simp_all add: vacm_wf_def)
  have vs: "views.invar vs" by (rule simple_view_wf [OF view assms(2)])
  have v: "v = (case view of None \<Rightarrow> all_view | Some v \<Rightarrow> v)"
    using view by (auto simp: simple_view_def Let_def split: option.splits if_splits)
  have user: "length user \<le> 32" using group_create_cases(1) [of mem2 "groupList st" SNMP_SEC_MODEL_USM user] grp by force
  have glen: "length (simple_group user) \<le> 32" by (simp add: simple_group_def grp_name_def)
  obtain gp0 where "groups ! gpos = gp0" "gr_securityModel gp0 = SNMP_SEC_MODEL_USM" "gr_securityName gp0 = user"
    using group_create_cases(2) [OF grp] groups.invar_insert [OF wf(1)] by blast
  then have gpf: "gr_securityModel gp = SNMP_SEC_MODEL_USM" "gr_securityName gp = user" "gr_groupName gp = simple_group user"
    by (simp_all add: gp)
  note g = create_update_group [OF grp wf(1) gpf(1,2)]
  have apos: "ac_groupName (as ! apos) = simple_group user \<and> ac_contextPrefix (as ! apos) = ctx \<and>
      ac_securityModel (as ! apos) = SNMP_SEC_MODEL_USM \<and> ac_securityLevel (as ! apos) = authLevel \<and> length (ac_views (as ! apos)) = 8"
    using access_create_cases(2) [OF acc] accesses.invar_insert [OF wf(2)] by metis
  then have apf: "ac_groupName ap = simple_group user" "ac_contextPrefix ap = ctx" "ac_securityModel ap = SNMP_SEC_MODEL_USM"
    "ac_securityLevel ap = authLevel" "ac_contextMatch ap = (if wild then 2 else 1)" by (simp_all add: ap)
  note a = create_update_access [OF acc wf(2) apf(1-4)]
  have wf': "vacm_wf st'" using vs g a by (simp add: vacm_wf_def st')
  have gg: "vacm_getGroupEntry (groupList st') SNMP_SEC_MODEL_USM user = Some gp"
  proof -
    have "find (\<lambda>gp. (gr_securityModel gp = SNMP_SEC_MODEL_USM \<or> gr_securityModel gp = SNMP_SEC_MODEL_ANY) \<and> gr_securityName gp = user)
        (groupList st') = Some gp"
      using g assms(3) gpf by (intro find_unique) (auto simp: st')
    then show ?thesis using vacm_getGroupEntry_find [of "groupList st'" SNMP_SEC_MODEL_USM user] wf' user
      by (simp add: vacm_wf_def groups.invar_def)
  qed
  have aa: "vacm_getAccessEntry (accessList st') (simple_group user) c SNMP_SEC_MODEL_USM level = Some ap"
    if "length c \<le> 32" "if wild then prefix ctx c else c = ctx" "authLevel \<le> level" for c level
  proof (rule access_unique [OF _ glen that(1)])
    show "\<forall>x \<in> set (accessList st'). access_ok x" using wf' by (simp add: vacm_wf_def accesses.invar_def)
    show "ap \<in> set (accessList st')" using a by (simp add: st')
    have "access_allows (simple_group user) c SNMP_SEC_MODEL_USM level ap"
      using that apf by (auto simp: access_allows_def)
    then show "\<forall>x \<in> set (accessList st'). access_allows (simple_group user) c SNMP_SEC_MODEL_USM level x \<longleftrightarrow> x = ap"
      using a assms(4) by (auto simp: st' access_allows_def)
  qed
  have "ac_views ap ! 0 = take 33 v \<and> ac_views ap ! 1 = take 33 (if rw = 0 then none_view else v)
      \<and> ac_views ap ! 2 = take 33 (if rw = 0 then none_view else v)"
    using apos by (simp add: ap)
  then show ?thesis
    by (intro conjI exI [of _ gp] exI [of _ v] exI [of _ ctx] exI [of _ wild] allI impI exI [of _ ap])
      (simp_all add: wf' ctx v [symmetric] gg gpf(3) aa)
qed

definition ex_vacm :: vacm where
  "ex_vacm = \<lparr>viewList = [], groupList = [], accessList = []\<rparr>"

theorem simple_usm_add_grants_witness:
  "\<exists>st' g. netsnmp_vacm_simple_usm_add True True True ex_vacm [0x61] 1 1 None None None = Ret (0, st')
    \<and> vacm_getGroupEntry (groupList st') 3 [0x61] = Some g \<and> vacm_getAccessEntry (accessList st') (gr_groupName g) [] 3 1 \<noteq> None"
proof -
  have wf: "vacm_wf ex_vacm"
    by (simp add: ex_vacm_def vacm_wf_def views.invar_Nil groups.invar_Nil accesses.invar_Nil)
  obtain st' where st': "netsnmp_vacm_simple_usm_add True True True ex_vacm [0x61] 1 1 None None None = Ret (0, st')"
    by (simp add: netsnmp_vacm_simple_usm_add_def simple_view_def simple_context_def vacm_createGroupEntry_def
        vacm_createAccessEntry_def ex_vacm_def Let_def grp_name_def)
  from simple_usm_add_grants [OF st' wf]
  have "\<exists>g. vacm_getGroupEntry (groupList st') 3 [0x61] = Some g \<and> vacm_getAccessEntry (accessList st') (gr_groupName g) [] 3 1 \<noteq> None"
    by (force simp: ex_vacm_def simple_context_def)
  then show ?thesis using st' by blast
qed

text \<open>
  What \<open>netsnmp_vacm_simple_usm_del\<close> leaves behind: it compares the OID without its length with the stored
  subtree, so the view that was added is never found; and it looks for the access entry under the group name
  without the replacement of other characters, so that of a user called \<open>-\<close> stays.
\<close>

lemma simple_usm_del_leaves_entries:
  "cbind (netsnmp_vacm_simple_usm_add True True True ex_vacm [0x2D] 1 1 (Some [0x76]) (Some [1, 3]) None)
     (\<lambda>(_, st). cbind (netsnmp_vacm_simple_usm_del st [0x2D] 1 (Some [0x76]) (Some [1, 3]) None)
       (\<lambda>(rc, st). Ret (rc, length (viewList st), length (groupList st), length (accessList st))))
   = Ret (0, 1, 0, 1)"
  by (simp add: netsnmp_vacm_simple_usm_add_def netsnmp_vacm_simple_usm_del_def simple_view_def simple_context_def
      vacm_createGroupEntry_def vacm_createAccessEntry_def netsnmp_view_create_def netsnmp_view_exists_def view_name_eq_def
      netsnmp_view_destroy_def vacm_destroyGroupEntry_def vacm_destroyAccessEntry_def table_destroy_def view_is_def
      group_is_def access_is_def ex_vacm_def Let_def grp_name_def all_view_def isalnum_def vacm_str_def)

end
