(* ===== verification/AccessSpec.thy ===== *)
theory AccessSpec
  imports Access VacmSpec
begin

text \<open>
  What the access check of \<open>Access\<close> decides: the first com2sec entry that applies names the sender; the result
  of the check is the decision of RFC 3415; a subtree that is skipped holds no OID in view; and what
  \<open>check_acm\<close> leaves in a response is in view.
\<close>

section \<open>Community strings\<close>

text \<open>The list is well formed when the addresses differ and the last pointer is that of the last entry.\<close>

definition com2Sec_wf :: "com2Sec_list \<Rightarrow> bool" where
  "com2Sec_wf l \<longleftrightarrow> distinct (map fst (com2SecList l))
     \<and> com2SecListLast l = (if com2SecList l = [] then None else Some (fst (last (com2SecList l))))"

text \<open>An entry that applies to a source address and a community.\<close>

definition c2_applies :: "u_int \<Rightarrow> bytes \<Rightarrow> com2SecEntry \<Rightarrow> bool" where
  "c2_applies src community c \<longleftrightarrow> c2_community c = community \<and> src AND c2_mask c = c2_network c"

definition c2_answer :: "com2SecEntry option \<Rightarrow> (bytes \<times> bytes) option" where
  "c2_answer found = (case found of None \<Rightarrow> None | Some c \<Rightarrow> if c2_negate c then None else Some (c2_secName c, c2_contextName c))"

lemma memcmp_same: "length a = length b \<Longrightarrow> memcmp (length a) a b = 0 \<longleftrightarrow> a = b"
  using memcmp_prefix [of a b] by (auto simp: prefix_def)

lemma udp_sec_loop_find: "udp_sec_loop src community cs = c2_answer (find (c2_applies src community) (map snd cs))"
proof (induction cs)
  case (Cons nc cs)
  have "length community = length (c2_community c) \<and> memcmp (length community) community (c2_community c) = 0
      \<longleftrightarrow> c2_community c = community" for c
    using memcmp_same [of community "c2_community c"] by fastforce
  then show ?case using Cons by (cases nc) (auto simp: c2_answer_def c2_applies_def)
qed (simp add: c2_answer_def)

lemma udp_getSecName_first:
  "snd (netsnmp_udp_getSecName l (Inet src) community) = c2_answer (find (c2_applies src community) (map snd (com2SecList l)))"
  by (simp add: netsnmp_udp_getSecName_def udp_sec_loop_find c2_answer_def)

lemma link_after_last: "xs \<noteq> [] \<Longrightarrow> distinct (map fst xs) \<Longrightarrow> link_after a e (fst (last xs)) xs = xs @ [(a, e)]"
  by (induction xs) (auto simp: image_iff)

lemma com2Sec_remove_loop_snoc:
  "a \<notin> fst ` set xs \<Longrightarrow> com2Sec_remove_loop a p (xs @ [(a, e)]) = Some (xs, if xs = [] then p else Some (fst (last xs)))"
  by (induction xs arbitrary: p) auto

lemma com2sec_find_append: "find P (xs @ ys) = (case find P xs of None \<Rightarrow> find P ys | Some x \<Rightarrow> Some x)"
  by (induction xs) auto

lemma com2Sec_create_append:
  assumes "netsnmp_udp_com2SecEntry_create (Some a) l community secName contextName network msk neg = (0, l')"
    and "com2Sec_wf l" "a \<notin> fst ` set (com2SecList l)"
  shows "\<exists>e. l' = \<lparr>com2SecList = com2SecList l @ [(a, e)], com2SecListLast = Some a\<rparr>
    \<and> community = Some (c2_community e) \<and> secName = Some (c2_secName e) \<and> c2_negate e = neg
    \<and> c2_network e AND NOT (c2_mask e) = 0"
proof -
  have link: "\<And>e. link_after a e (fst (last (com2SecList l))) (com2SecList l) = com2SecList l @ [(a, e)]" if "com2SecList l \<noteq> []"
    using that assms(2) by (intro link_after_last) (auto simp: com2Sec_wf_def)
  show ?thesis
    using assms(1,2) link
    by (auto simp: netsnmp_udp_com2SecEntry_create_def Let_def com2Sec_wf_def split: option.splits if_splits)
qed

text \<open>
  The com2sec entries of IPv4 are tried in the order they were added. After the successful creation of an
  entry the list is well formed, the network lies inside the mask, a source and community that an older entry
  applies to are answered as before, the others by the new entry (a negated one denies), and removing the entry
  gives the old list back.
\<close>

theorem com2sec_first_match:
  assumes "netsnmp_udp_com2SecEntry_create (Some a) l community secName contextName network msk neg = (0, l')"
    and "com2Sec_wf l" "a \<notin> fst ` set (com2SecList l)"
  shows "com2Sec_wf l' \<and> netsnmp_udp_com2SecList_remove l' a = (0, l)
    \<and> (\<exists>e. community = Some (c2_community e) \<and> secName = Some (c2_secName e) \<and> c2_negate e = neg
       \<and> c2_network e AND NOT (c2_mask e) = 0
       \<and> (\<forall>src com. snd (netsnmp_udp_getSecName l' (Inet src) com) =
           (if \<exists>c \<in> snd ` set (com2SecList l). c2_applies src com c
            then snd (netsnmp_udp_getSecName l (Inet src) com)
            else if c2_applies src com e then (if neg then None else Some (c2_secName e, c2_contextName e))
            else None)))"
proof -
  obtain e where e: "l' = \<lparr>com2SecList = com2SecList l @ [(a, e)], com2SecListLast = Some a\<rparr>"
    "community = Some (c2_community e)" "secName = Some (c2_secName e)" "c2_negate e = neg"
    "c2_network e AND NOT (c2_mask e) = 0"
    using com2Sec_create_append [OF assms] by blast
  have "com2Sec_wf l'" using assms(2,3) by (auto simp: e(1) com2Sec_wf_def)
  moreover have "netsnmp_udp_com2SecList_remove l' a = (0, l)"
    using assms(2,3) by (cases l) (auto simp: e(1) netsnmp_udp_com2SecList_remove_def com2Sec_remove_loop_snoc com2Sec_wf_def)
  moreover have "snd (netsnmp_udp_getSecName l' (Inet src) com) =
      (if \<exists>c \<in> snd ` set (com2SecList l). c2_applies src com c then snd (netsnmp_udp_getSecName l (Inet src) com)
       else if c2_applies src com e then (if neg then None else Some (c2_secName e, c2_contextName e)) else None)" for src com
  proof (cases "find (c2_applies src com) (map snd (com2SecList l))")
    case None
    then have "\<not> (\<exists>c \<in> snd ` set (com2SecList l). c2_applies src com c)" by (auto simp: find_None_iff)
    with None show ?thesis by (auto simp: udp_getSecName_first e(1,4) com2sec_find_append c2_answer_def)
  next
    case (Some c)
    then have "\<exists>c \<in> snd ` set (com2SecList l). c2_applies src com c" by (auto simp: find_Some_iff)
    with Some show ?thesis by (simp add: udp_getSecName_first e(1) com2sec_find_append)
  qed
  ultimately show ?thesis using e by blast
qed

definition ex_com2Sec :: com2Sec_list where
  "ex_com2Sec = \<lparr>com2SecList = [(7, \<lparr>c2_secName = [0x72], c2_contextName = [], c2_network = 0x0A000000,
     c2_mask = 0xFF000000, c2_negate = True, c2_community = [0x70]\<rparr>)], com2SecListLast = Some 7\<rparr>"

theorem com2sec_first_match_witness:
  "\<exists>l'. netsnmp_udp_com2SecEntry_create (Some 8) ex_com2Sec (Some [0x70]) (Some [0x77]) None None None False = (0, l')
    \<and> netsnmp_udp_getSecName l' (Inet 0x0A000001) [0x70] = (1, None)
    \<and> netsnmp_udp_getSecName l' (Inet 0x0B000001) [0x70] = (1, Some ([0x77], []))
    \<and> netsnmp_udp_com2SecList_remove l' 8 = (0, ex_com2Sec)"
proof -
  have wf: "com2Sec_wf ex_com2Sec" "8 \<notin> fst ` set (com2SecList ex_com2Sec)" by (simp_all add: ex_com2Sec_def com2Sec_wf_def)
  obtain l' where l': "netsnmp_udp_com2SecEntry_create (Some 8) ex_com2Sec (Some [0x70]) (Some [0x77]) None None None False = (0, l')"
    "fst (netsnmp_udp_getSecName l' (Inet s) c) = 1" for s c
    by (simp add: netsnmp_udp_com2SecEntry_create_def ex_com2Sec_def netsnmp_udp_getSecName_def)
  note m = com2sec_first_match [OF l'(1) wf]
  have "snd (netsnmp_udp_getSecName l' (Inet 0x0A000001) [0x70]) = None"
    using m by (auto simp: ex_com2Sec_def c2_applies_def netsnmp_udp_getSecName_def)
  moreover have "snd (netsnmp_udp_getSecName l' (Inet 0x0B000001) [0x70]) = Some ([0x77], [])"
    using l'(1) by (auto simp: netsnmp_udp_com2SecEntry_create_def ex_com2Sec_def netsnmp_udp_getSecName_def)
  ultimately show ?thesis using m l' by (metis prod.collapse)
qed

section \<open>The decision\<close>

lemma community_sec_name_context [simp]:
  "community_sec_name env (pdu\<lparr>pd_contextName := c, pd_contextNameLen := n\<rparr>) = community_sec_name env pdu"
  by (simp add: community_sec_name_def Let_def cong: if_cong)

lemma vacm_sec_name_stable: "vacm_sec_name env pdu = (sn, pdu') \<Longrightarrow> vacm_sec_name env pdu' = (sn, pdu')"
  by (cases "community_sec_name env pdu")
    (auto simp: vacm_sec_name_def Let_def split: if_splits prod.splits)

lemma vacm_sec_name_fields:
  "vacm_sec_name env pdu = (sn, pdu') \<Longrightarrow> pd_version pdu' = pd_version pdu \<and> pd_flags pdu' = pd_flags pdu
    \<and> pd_command pdu' = pd_command pdu \<and> pd_securityModel pdu' = pd_securityModel pdu
    \<and> pd_securityLevel pdu' = pd_securityLevel pdu"
  by (auto simp: vacm_sec_name_def Let_def split: if_splits option.splits prod.splits)

text \<open>A PDU whose context name has the bytes its length promises, which the lookup of the community keeps.\<close>

definition pdu_ok :: "acm_pdu \<Rightarrow> bool" where
  "pdu_ok pdu \<longleftrightarrow> (\<forall>c. pd_contextName pdu = Some c \<longrightarrow> pd_contextNameLen pdu \<le> length c)"

lemma vacm_sec_name_ok: "vacm_sec_name env pdu = (sn, pdu') \<Longrightarrow> pdu_ok pdu \<Longrightarrow> pdu_ok pdu'"
  by (auto simp: vacm_sec_name_def pdu_ok_def Let_def split: if_splits option.splits prod.splits)

definition context_string :: "acm_pdu \<Rightarrow> bytes" where
  "context_string pdu = (case pd_contextName pdu of None \<Rightarrow> [] | Some c \<Rightarrow> takeWhile (\<lambda>b. b \<noteq> 0) (take (pd_contextNameLen pdu) c))"

lemma contextNameIndex_ok: "pdu_ok pdu \<Longrightarrow> contextNameIndex pdu = Ret (context_string pdu)"
  by (auto simp: contextNameIndex_def pdu_ok_def context_string_def split: option.splits)

lemma context_string_length: "pdu_ok pdu \<Longrightarrow> pd_contextNameLen pdu \<le> 32 \<Longrightarrow> length (context_string pdu) \<le> 32"
  by (auto simp: context_string_def split: option.splits intro: order_trans [OF length_takeWhile_le])

text \<open>The part of the decision that does not depend on the OID: an error, or the access entry.\<close>

definition acm_entry :: "acm_env \<Rightarrow> acm_pdu \<Rightarrow> bool \<Rightarrow> int + access_entry" where
  "acm_entry env pdu dne =
     (case vacm_sec_name env pdu of
        (None, _) \<Rightarrow> Inl VACM_NOSECNAME
      | (Some sn, pdu) \<Rightarrow>
          if pd_contextNameLen pdu > 32 \<or> \<not> dne \<and> netsnmp_subtree_find_first (ae_contexts env) (Some (context_string pdu)) = None
          then Inl VACM_NOSUCHCONTEXT
          else (case vacm_getGroupEntry (groupList (ae_vacm env)) (pd_securityModel pdu) sn of
            None \<Rightarrow> Inl VACM_NOGROUP
          | Some gp \<Rightarrow>
              (case vacm_getAccessEntry (accessList (ae_vacm env)) (gr_groupName gp) (context_string pdu)
                      (pd_securityModel pdu) (pd_securityLevel pdu) of
                 None \<Rightarrow> Inl VACM_NOACCESS
               | Some ap \<Rightarrow> Inr ap)))"

definition view_answer :: "acm_env \<Rightarrow> access_entry \<Rightarrow> int \<Rightarrow> bool \<Rightarrow> oid option \<Rightarrow> int" where
  "view_answer env ap viewtype check_subtree name =
     (case name of
        None \<Rightarrow> VACM_SUCCESS
      | Some nm \<Rightarrow>
          if viewtype < 0 \<or> viewtype \<ge> 8 then VACM_NOACCESS
          else if check_subtree then netsnmp_view_subtree_check (viewList (ae_vacm env)) (ac_views ap ! nat viewtype) nm
          else (case netsnmp_view_get (viewList (ae_vacm env)) (ac_views ap ! nat viewtype) nm VACM_MODE_FIND of
                  None \<Rightarrow> VACM_NOVIEW
                | Some e \<Rightarrow> if viewType e = SNMP_VIEW_EXCLUDED then VACM_NOTINVIEW else VACM_SUCCESS))"

definition acm_decision :: "acm_env \<Rightarrow> acm_pdu \<Rightarrow> oid option \<Rightarrow> bool \<Rightarrow> int \<Rightarrow> bool \<Rightarrow> int" where
  "acm_decision env pdu name check_subtree viewtype dne =
     (case acm_entry env pdu dne of Inl err \<Rightarrow> err | Inr ap \<Rightarrow> view_answer env ap viewtype check_subtree name)"

lemma vacm_check_view_contents_eq:
  assumes "pdu_ok pdu"
  shows "\<exists>st. vacm_check_view_contents env pdu name check_subtree viewtype dne =
    Ret (acm_decision env pdu name check_subtree viewtype dne, snd (vacm_sec_name env pdu), st)"
proof -
  obtain sn pdu' where sn: "vacm_sec_name env pdu = (sn, pdu')" by fastforce
  have ctx: "contextNameIndex pdu' = Ret (context_string pdu')"
    using vacm_sec_name_ok [OF sn assms] by (rule contextNameIndex_ok)
  show ?thesis
    by (cases sn) (auto simp: vacm_check_view_contents_def acm_decision_def acm_entry_def view_answer_def sn ctx Let_def
        split: option.splits)
qed

lemma acm_decision_stable:
  "acm_decision env (snd (vacm_sec_name env pdu)) name check_subtree viewtype dne = acm_decision env pdu name check_subtree viewtype dne"
proof -
  obtain sn pdu' where sn: "vacm_sec_name env pdu = (sn, pdu')" by fastforce
  show ?thesis using sn vacm_sec_name_stable [OF sn] by (simp add: acm_decision_def acm_entry_def)
qed

definition agent_decision :: "acm_env \<Rightarrow> acm_pdu \<Rightarrow> oid option \<Rightarrow> bool \<Rightarrow> int" where
  "agent_decision env pdu name check_subtree =
     (if pd_flags pdu AND UCD_MSG_FLAG_ALWAYS_IN_VIEW \<noteq> 0 then VACM_SUCCESS
      else if version_unsupported env pdu then VACM_NOSECNAME
      else acm_decision env pdu name check_subtree (view_of_command (pd_command pdu)) False)"

text \<open>The PDU after a check is the same as before for every later check.\<close>

definition same_pdu :: "acm_env \<Rightarrow> acm_pdu \<Rightarrow> acm_pdu \<Rightarrow> bool" where
  "same_pdu env pdu pdu' \<longleftrightarrow> pdu' = pdu \<or> pdu' = snd (vacm_sec_name env pdu)"

lemma same_pdu_refl [simp]: "same_pdu env pdu pdu" by (simp add: same_pdu_def)

lemma same_pdu_facts:
  assumes "same_pdu env pdu pdu'"
  shows "pd_version pdu' = pd_version pdu" "pd_flags pdu' = pd_flags pdu" "pdu_ok pdu \<Longrightarrow> pdu_ok pdu'"
    "agent_decision env pdu' name check_subtree = agent_decision env pdu name check_subtree"
    "same_pdu env pdu' pdu'' \<Longrightarrow> same_pdu env pdu pdu''"
proof -
  obtain sn pdu2 where sn: "vacm_sec_name env pdu = (sn, pdu2)" by fastforce
  note f = vacm_sec_name_fields [OF sn] and st = vacm_sec_name_stable [OF sn]
  show "pd_version pdu' = pd_version pdu" "pd_flags pdu' = pd_flags pdu" "pdu_ok pdu \<Longrightarrow> pdu_ok pdu'"
    using assms f sn vacm_sec_name_ok [OF sn] by (auto simp: same_pdu_def)
  show "agent_decision env pdu' name check_subtree = agent_decision env pdu name check_subtree"
    using assms f sn acm_decision_stable [of env pdu]
    by (auto simp: same_pdu_def agent_decision_def version_unsupported_def)
  show "same_pdu env pdu' pdu'' \<Longrightarrow> same_pdu env pdu pdu''" using assms sn st by (auto simp: same_pdu_def)
qed

lemma vacm_in_view_callback_eq:
  assumes "pdu_ok pdu"
  shows "\<exists>st. vacm_in_view_callback env pdu name check_subtree 0 =
    Ret (acm_decision env pdu name check_subtree (view_of_command (pd_command pdu)) False, snd (vacm_sec_name env pdu), st)"
  using vacm_check_view_contents_eq [OF assms, of env name check_subtree "view_of_command (pd_command pdu)" False]
  by (auto simp: vacm_in_view_callback_def vacm_in_view_def vacm_check_view_def)

lemma in_a_view_eq:
  assumes "pdu_ok pdu"
  shows "\<exists>pdu' st. in_a_view env nm pdu type =
      Ret (if pd_flags pdu AND UCD_MSG_FLAG_ALWAYS_IN_VIEW = 0 \<and> pd_version pdu = SNMP_VERSION_1 \<and> type = ASN_COUNTER64_type
           then VACM_NOTINVIEW else agent_decision env pdu (Some nm) False, pdu', st) \<and> same_pdu env pdu pdu'"
  using vacm_in_view_callback_eq [OF assms, of env "Some nm" False]
  by (auto simp: in_a_view_def agent_decision_def same_pdu_def)

lemma acm_check_subtree_eq:
  assumes "pdu_ok pdu"
  shows "\<exists>pdu' st. netsnmp_acm_check_subtree env pdu nm = Ret (agent_decision env pdu (Some nm) True, pdu', st) \<and> same_pdu env pdu pdu'"
  using vacm_in_view_callback_eq [OF assms, of env "Some nm" True]
  by (auto simp: netsnmp_acm_check_subtree_def agent_decision_def same_pdu_def)

lemma check_access_eq:
  assumes "pdu_ok pdu"
  shows "\<exists>pdu' st. check_access env pdu = Ret (agent_decision env pdu None False, pdu', st) \<and> same_pdu env pdu pdu'"
  using vacm_in_view_callback_eq [OF assms, of env None False]
  by (auto simp: check_access_def agent_decision_def same_pdu_def)

text \<open>The lookups for names of any length: the tables hold no name longer than 32 bytes.\<close>

definition group_applies :: "int \<Rightarrow> bytes \<Rightarrow> group_entry \<Rightarrow> bool" where
  "group_applies model sn gp \<longleftrightarrow> (gr_securityModel gp = model \<or> gr_securityModel gp = SNMP_SEC_MODEL_ANY) \<and> gr_securityName gp = sn"

lemma wf_parts:
  assumes "vacm_wf st"
  shows "\<forall>gp \<in> set (groupList st). group_ok gp" "\<forall>ap \<in> set (accessList st). access_ok ap"
    "\<forall>vp \<in> set (viewList st). length (viewName vp) \<le> 32"
  using assms by (auto simp: vacm_wf_def groups.invar_def accesses.invar_def views.invar_def view_ok_def)

lemma wf_group: "vacm_wf st \<Longrightarrow> vacm_getGroupEntry (groupList st) model sn = find (group_applies model sn) (groupList st)"
  using wf_parts(1) [of st] vacm_getGroupEntry_find [OF wf_parts(1), of st model sn]
  by (auto simp: group_applies_def [abs_def] find_None_iff group_ok_def eq_commute [of None])

text \<open>
  RFC 3415, section 4: of two access entries that allow a request the one with a security model of its own is preferred,
  then the one with an exact context match, then the longer context prefix, then the higher level.
\<close>

definition rfc_preferred :: "access_entry \<Rightarrow> access_entry \<Rightarrow> bool" where
  "rfc_preferred a b \<longleftrightarrow>
     (let own = \<lambda>x. ac_securityModel x \<noteq> SNMP_SEC_MODEL_ANY; exact = \<lambda>x. ac_contextMatch x = CONTEXT_MATCH_EXACT;
          len = \<lambda>x. length (ac_contextPrefix x) in
      own a \<and> \<not> own b \<or> own a = own b \<and>
        (exact a \<and> \<not> exact b \<or> exact a = exact b \<and>
           (len b < len a \<or> len a = len b \<and> ac_securityLevel b < ac_securityLevel a)))"

text \<open>Entries that differ in the level only (in what the preference looks at).\<close>

definition differ_in_level :: "access_entry list \<Rightarrow> bool" where
  "differ_in_level xs \<longleftrightarrow> (\<exists>m k c. \<forall>x \<in> set xs. ac_securityModel x = m \<and> ac_contextMatch x = k \<and> ac_contextPrefix x = c)"

text \<open>
  The entry taken among several that allow a request: the one that is left when \<open>_vacm_choose_best\<close> is applied along the
  list. It is the one RFC 3415 prefers when the entries differ in the level only. When they differ in
  more it need not be (\<open>vacm_choose_best_not_preference\<close>), and nothing is claimed about the preference.
\<close>

definition access_chosen :: "access_entry list \<Rightarrow> access_entry \<Rightarrow> bool" where
  "access_chosen xs ap \<longleftrightarrow> foldl (\<lambda>b x. Some (vacm_choose_best b x)) None xs = Some ap \<and> ap \<in> set xs
     \<and> (differ_in_level xs \<longrightarrow> (\<forall>x \<in> set xs. \<not> rfc_preferred x ap))"

lemma access_chosen_foldl:
  assumes "foldl (\<lambda>b x. Some (vacm_choose_best b x)) None xs = Some ap"
  shows "access_chosen xs ap"
proof (cases xs)
  case (Cons r rs)
  have f: "foldl (\<lambda>b x. Some (vacm_choose_best b x)) (Some r) rs = Some ap"
    using assms Cons by (simp add: vacm_choose_best_def [of None])
  have "ap \<in> set xs" using choose_best_foldl [of r rs] f Cons by auto
  moreover have "\<not> rfc_preferred x ap" if d: "differ_in_level xs" and x: "x \<in> set xs" for x
  proof -
    obtain m k c where same: "\<forall>x \<in> insert r (set rs). ac_securityModel x = m \<and> ac_contextMatch x = k \<and> ac_contextPrefix x = c"
      using d Cons by (auto simp: differ_in_level_def)
    then have "ac_securityLevel x \<le> ac_securityLevel ap" using choose_best_foldl_level [OF same] f x Cons by auto
    then show ?thesis using same x \<open>ap \<in> set xs\<close> Cons by (auto simp: rfc_preferred_def)
  qed
  ultimately show ?thesis using assms by (simp add: access_chosen_def)
qed (use assms in simp)

lemma wf_access:
  assumes "vacm_wf st"
  shows "vacm_getAccessEntry (accessList st) grp ctx model level = None
      \<longleftrightarrow> (\<forall>ap \<in> set (accessList st). \<not> access_allows grp ctx model level ap) \<or> length ctx > 32"
    "vacm_getAccessEntry (accessList st) grp ctx model level = Some ap
      \<Longrightarrow> access_chosen (filter (access_allows grp ctx model level) (accessList st)) ap"
proof -
  let ?ms = "filter (access_allows grp ctx model level) (accessList st)"
  have get: "vacm_getAccessEntry (accessList st) grp ctx model level =
      (if length grp > 32 \<or> length ctx > 32 then None
       else foldl (\<lambda>b ap. Some (vacm_choose_best b ap)) None ?ms)"
    by (rule vacm_getAccessEntry_filter [OF wf_parts(2) [OF assms]])
  have long: "length grp > 32 \<Longrightarrow> ?ms = []"
    using wf_parts(2) [OF assms] by (auto simp: filter_empty_conv access_allows_def access_ok_def)
  have fold: "?ms \<noteq> [] \<Longrightarrow> \<exists>a. foldl (\<lambda>b ap. Some (vacm_choose_best b ap)) None ?ms = Some a \<and> a \<in> set ?ms"
    using choose_best_foldl [of "hd ?ms" "tl ?ms"] by (cases ?ms) (auto simp: vacm_choose_best_def [of None])
  show "vacm_getAccessEntry (accessList st) grp ctx model level = None
      \<longleftrightarrow> (\<forall>ap \<in> set (accessList st). \<not> access_allows grp ctx model level ap) \<or> length ctx > 32"
    using get long fold by (cases "?ms = []") (auto simp: filter_empty_conv)
  show "vacm_getAccessEntry (accessList st) grp ctx model level = Some ap
      \<Longrightarrow> access_chosen ?ms ap"
    using get access_chosen_foldl by (auto split: if_splits)
qed

lemma wf_view:
  assumes "vacm_wf st"
  shows "netsnmp_view_get (viewList st) vn nm VACM_MODE_FIND = Some e
      \<longleftrightarrow> first_best (filter (view_matches VACM_MODE_FIND vn nm) (viewList st)) e"
    "netsnmp_view_get (viewList st) vn nm VACM_MODE_FIND = None
      \<longleftrightarrow> (\<forall>vp \<in> set (viewList st). \<not> view_matches VACM_MODE_FIND vn nm vp)"
proof -
  let ?ms = "filter (view_matches VACM_MODE_FIND vn nm) (viewList st)"
  have long: "length vn > 32 \<Longrightarrow> ?ms = []"
    using wf_parts(3) [OF assms] by (auto simp: filter_empty_conv view_matches_def)
  have get: "netsnmp_view_get (viewList st) vn nm VACM_MODE_FIND = foldl keep_best None ?ms"
    using netsnmp_view_get_eq [of vn "viewList st" nm VACM_MODE_FIND] wf_parts(3) [OF assms] long
    by (cases "length vn \<le> 32") (auto simp: netsnmp_view_get_def)
  show "netsnmp_view_get (viewList st) vn nm VACM_MODE_FIND = Some e \<longleftrightarrow> first_best ?ms e"
    unfolding get by (rule foldl_keep_best_iff)
  show "netsnmp_view_get (viewList st) vn nm VACM_MODE_FIND = None
      \<longleftrightarrow> (\<forall>vp \<in> set (viewList st). \<not> view_matches VACM_MODE_FIND vn nm vp)"
    unfolding get using foldl_keep_best [of ?ms] by (cases "?ms = []") (auto simp: filter_empty_conv)
qed

text \<open>
  The decision of the access check as a relation, in the steps of RFC 3415, section 3.2: the context must be known, a
  group must apply to the security name, an access entry must allow the request, and the best view must include the OID.
  The access entry is \<open>access_chosen\<close>, so where several entries allow the request this is the decision of the RFC
  only when they differ in the level only.
\<close>

inductive isAccessAllowed ::
    "vacm \<Rightarrow> bool \<Rightarrow> int \<Rightarrow> bytes option \<Rightarrow> int \<Rightarrow> bytes \<Rightarrow> int \<Rightarrow> oid \<Rightarrow> int \<Rightarrow> bool"
  for st :: vacm and known :: bool and model :: int and sn :: "bytes option" and level :: int and ctx :: bytes
    and viewtype :: int and nm :: oid where
  no_name: "sn = None \<Longrightarrow> isAccessAllowed st known model sn level ctx viewtype nm VACM_NOSECNAME"
| no_context: "sn = Some n \<Longrightarrow> \<not> known \<Longrightarrow> isAccessAllowed st known model sn level ctx viewtype nm VACM_NOSUCHCONTEXT"
| no_group: "sn = Some n \<Longrightarrow> known \<Longrightarrow> find (group_applies model n) (groupList st) = None
    \<Longrightarrow> isAccessAllowed st known model sn level ctx viewtype nm VACM_NOGROUP"
| no_access: "sn = Some n \<Longrightarrow> known \<Longrightarrow> find (group_applies model n) (groupList st) = Some gp
    \<Longrightarrow> \<forall>ap \<in> set (accessList st). \<not> access_allows (gr_groupName gp) ctx model level ap
    \<Longrightarrow> isAccessAllowed st known model sn level ctx viewtype nm VACM_NOACCESS"
| no_view: "sn = Some n \<Longrightarrow> known \<Longrightarrow> find (group_applies model n) (groupList st) = Some gp
    \<Longrightarrow> access_chosen (filter (access_allows (gr_groupName gp) ctx model level) (accessList st)) ap
    \<Longrightarrow> \<forall>vp \<in> set (viewList st). \<not> view_matches VACM_MODE_FIND (ac_views ap ! nat viewtype) nm vp
    \<Longrightarrow> isAccessAllowed st known model sn level ctx viewtype nm VACM_NOVIEW"
| in_view: "sn = Some n \<Longrightarrow> known \<Longrightarrow> find (group_applies model n) (groupList st) = Some gp
    \<Longrightarrow> access_chosen (filter (access_allows (gr_groupName gp) ctx model level) (accessList st)) ap
    \<Longrightarrow> first_best (filter (view_matches VACM_MODE_FIND (ac_views ap ! nat viewtype) nm) (viewList st)) e
    \<Longrightarrow> isAccessAllowed st known model sn level ctx viewtype nm
          (if viewType e = SNMP_VIEW_EXCLUDED then VACM_NOTINVIEW else VACM_SUCCESS)"

text \<open>The relation is a function: the decision is determined.\<close>

lemma isAccessAllowed_value:
  "isAccessAllowed st known model sn level ctx viewtype nm rc \<Longrightarrow> rc = (case sn of None \<Rightarrow> VACM_NOSECNAME | Some n \<Rightarrow>
     if \<not> known then VACM_NOSUCHCONTEXT
     else case find (group_applies model n) (groupList st) of None \<Rightarrow> VACM_NOGROUP | Some gp \<Rightarrow>
       (case foldl (\<lambda>b x. Some (vacm_choose_best b x)) None (filter (access_allows (gr_groupName gp) ctx model level) (accessList st)) of
          None \<Rightarrow> VACM_NOACCESS
        | Some ap \<Rightarrow>
            (case foldl keep_best None (filter (view_matches VACM_MODE_FIND (ac_views ap ! nat viewtype) nm) (viewList st)) of
               None \<Rightarrow> VACM_NOVIEW
             | Some e \<Rightarrow> if viewType e = SNMP_VIEW_EXCLUDED then VACM_NOTINVIEW else VACM_SUCCESS)))"
proof (induction rule: isAccessAllowed.induct)
  case (no_access n gp)
  then have "filter (access_allows (gr_groupName gp) ctx model level) (accessList st) = []" by (simp add: filter_empty_conv)
  then show ?case using no_access by simp
next
  case (no_view n gp ap)
  then have "filter (view_matches VACM_MODE_FIND (ac_views ap ! nat viewtype) nm) (viewList st) = []" by (simp add: filter_empty_conv)
  then show ?case using no_view by (simp add: access_chosen_def)
next
  case (in_view n gp ap e)
  then show ?case by (simp add: access_chosen_def foldl_keep_best_iff [symmetric])
qed simp_all

lemma isAccessAllowed_functional:
  "isAccessAllowed st known model sn level ctx viewtype nm rc \<Longrightarrow> isAccessAllowed st known model sn level ctx viewtype nm rc' \<Longrightarrow> rc' = rc"
  by (rule trans [OF isAccessAllowed_value sym [OF isAccessAllowed_value]])

abbreviation (input) context_known :: "acm_env \<Rightarrow> acm_pdu \<Rightarrow> bool" where
  "context_known env pdu \<equiv> pd_contextNameLen pdu \<le> 32
     \<and> netsnmp_subtree_find_first (ae_contexts env) (Some (context_string pdu)) \<noteq> None"

lemma acm_decision_allowed:
  assumes "vacm_wf (ae_vacm env)" "pdu_ok pdu" "0 \<le> viewtype" "viewtype < 8" "vacm_sec_name env pdu = (sn, pdu')"
  shows "isAccessAllowed (ae_vacm env) (context_known env pdu') (pd_securityModel pdu) sn (pd_securityLevel pdu)
    (context_string pdu') viewtype nm (acm_decision env pdu (Some nm) False viewtype False)"
proof -
  let ?known = "context_known env pdu'"
  note sn = assms(5)
  note f = vacm_sec_name_fields [OF sn]
  have len: "?known \<Longrightarrow> length (context_string pdu') \<le> 32"
    using context_string_length vacm_sec_name_ok [OF sn assms(2)] by blast
  show ?thesis
  proof (cases sn)
    case None
    then show ?thesis by (auto simp: acm_decision_def acm_entry_def sn intro: no_name)
  next
    case (Some n)
    show ?thesis
    proof (cases ?known)
      case False
      then show ?thesis using Some by (auto simp: acm_decision_def acm_entry_def sn intro: no_context)
    next
      case known: True
      show ?thesis
      proof (cases "find (group_applies (pd_securityModel pdu) n) (groupList (ae_vacm env))")
        case None
        then show ?thesis
          using Some known f by (auto simp: acm_decision_def acm_entry_def sn wf_group [OF assms(1)] intro: no_group)
      next
        case gp: (Some gp)
        let ?get = "vacm_getAccessEntry (accessList (ae_vacm env)) (gr_groupName gp) (context_string pdu') (pd_securityModel pdu) (pd_securityLevel pdu)"
        show ?thesis
        proof (cases ?get)
          case None
          then have "acm_decision env pdu (Some nm) False viewtype False = VACM_NOACCESS"
            using Some known f gp by (auto simp: acm_decision_def acm_entry_def sn wf_group [OF assms(1)])
          then show ?thesis using None wf_access(1) [OF assms(1)] len [OF known] no_access [OF Some known gp] by auto
        next
          case ap: (Some ap)
          note a = wf_access(2) [OF assms(1) ap]
          have dec: "acm_decision env pdu (Some nm) False viewtype False = view_answer env ap viewtype False (Some nm)"
            using Some known f gp ap by (auto simp: acm_decision_def acm_entry_def sn wf_group [OF assms(1)])
          show ?thesis
          proof (cases "netsnmp_view_get (viewList (ae_vacm env)) (ac_views ap ! nat viewtype) nm VACM_MODE_FIND")
            case None
            then have "view_answer env ap viewtype False (Some nm) = VACM_NOVIEW" using assms(3,4) by (simp add: view_answer_def)
            then show ?thesis using None wf_view(2) [OF assms(1)] no_view [OF Some known gp a] dec by auto
          next
            case (Some e)
            then have "view_answer env ap viewtype False (Some nm) = (if viewType e = SNMP_VIEW_EXCLUDED then VACM_NOTINVIEW else VACM_SUCCESS)"
              using assms(3,4) by (simp add: view_answer_def)
            moreover have "first_best (filter (view_matches VACM_MODE_FIND (ac_views ap ! nat viewtype) nm) (viewList (ae_vacm env))) e"
              using Some wf_view(1) [OF assms(1)] by simp
            ultimately show ?thesis
              unfolding dec using in_view [OF \<open>sn = Some n\<close> known gp a, where nm = nm and viewtype = viewtype and e = e] by simp
          qed
        qed
      qed
    qed
  qed
qed

text \<open>
  C5. What the access check decides: for every PDU whose context name has the bytes its length
  promises, \<open>vacm_check_view_contents\<close> returns, and its result is the one that \<open>isAccessAllowed\<close> gives for the
  security name found, the context name as a string (known when it has at most 32 bytes and a subtree is
  registered in it), the model and level of the PDU, and the view of the given type: the error of the first step that
  fails, or the type of the best matching view subtree of the access entry taken. The entry taken is the one
  \<open>_vacm_choose_best\<close> keeps. That it is the entry RFC 3415 prefers is claimed only when the entries that allow
  the request differ in their level only; otherwise the code can take another one than the RFC asks for.
\<close>

theorem access_check_decides:
  assumes "vacm_wf (ae_vacm env)" "pdu_ok pdu" "0 \<le> viewtype" "viewtype < 8"
  shows "\<exists>sn pdu' rc st. vacm_sec_name env pdu = (sn, pdu')
    \<and> vacm_check_view_contents env pdu (Some nm) False viewtype False = Ret (rc, pdu', st)
    \<and> isAccessAllowed (ae_vacm env)
        (pd_contextNameLen pdu' \<le> 32 \<and> netsnmp_subtree_find_first (ae_contexts env) (Some (context_string pdu')) \<noteq> None)
        (pd_securityModel pdu) sn (pd_securityLevel pdu) (context_string pdu') viewtype nm rc
    \<and> (\<forall>rc'. isAccessAllowed (ae_vacm env)
        (pd_contextNameLen pdu' \<le> 32 \<and> netsnmp_subtree_find_first (ae_contexts env) (Some (context_string pdu')) \<noteq> None)
        (pd_securityModel pdu) sn (pd_securityLevel pdu) (context_string pdu') viewtype nm rc' \<longrightarrow> rc' = rc)"
proof -
  obtain sn pdu' where sn: "vacm_sec_name env pdu = (sn, pdu')" by fastforce
  obtain st where st: "vacm_check_view_contents env pdu (Some nm) False viewtype False =
      Ret (acm_decision env pdu (Some nm) False viewtype False, pdu', st)"
    using vacm_check_view_contents_eq [OF assms(2), of env "Some nm" False viewtype False] sn by auto
  show ?thesis using sn st acm_decision_allowed [OF assms sn, of nm] isAccessAllowed_functional by blast
qed

definition ex_env :: acm_env where
  "ex_env = \<lparr>ae_vacm = \<lparr>viewList = [ex_view [0x76] [1, 3] [] 1, ex_view [0x76] [1, 3, 6] [] 2],
       groupList = [ex_group 3 [0x75] [0x67]], accessList = [(ex_access [0x67] [] 3 1 1)\<lparr>ac_views := replicate 8 [0x76]\<rparr>]\<rparr>,
     ae_com2Sec = ex_com2Sec, ae_com2Sec6 = [], ae_com2SecUnix = [], ae_secmods = [(3, True)],
     ae_contexts = [\<lparr>cc_context_name = Some [], cc_first_subtree = Some 1\<rparr>], ae_disabled = (\<lambda>_. False)\<rparr>"

definition ex_pdu :: acm_pdu where
  "ex_pdu = \<lparr>pd_version = 3, pd_command = 161, pd_flags = 0, pd_community = None, pd_tDomain = netsnmpUDPDomain,
     pd_transport_data = No_addr, pd_contextName = Some [], pd_contextNameLen = 0, pd_securityModel = 3,
     pd_securityName = Some [0x75], pd_securityLevel = 1\<rparr>"

lemma ex_env_wf: "vacm_wf (ae_vacm ex_env)" "pdu_ok ex_pdu"
  by (simp_all add: ex_env_def ex_pdu_def pdu_ok_def vacm_wf_def views.invar_def groups.invar_def accesses.invar_def
      view_ok_def group_ok_def access_ok_def ex_view_def ex_group_def ex_access_def view_index_def vacm_str_def)

theorem access_check_decides_witness:
  "\<exists>rc st. vacm_check_view_contents ex_env ex_pdu (Some [1, 3, 5]) False 0 False = Ret (rc, ex_pdu, st)
    \<and> isAccessAllowed (ae_vacm ex_env) True 3 (Some [0x75]) 1 [] 0 [1, 3, 5] rc"
proof -
  have "vacm_sec_name ex_env ex_pdu = (Some [0x75], ex_pdu)" by (simp add: vacm_sec_name_def ex_env_def ex_pdu_def)
  moreover have "context_string ex_pdu = []" "pd_contextNameLen ex_pdu = 0" "pd_securityModel ex_pdu = 3" "pd_securityLevel ex_pdu = 1"
    by (simp_all add: context_string_def ex_pdu_def)
  moreover have "netsnmp_subtree_find_first (ae_contexts ex_env) (Some []) = Some 1" by (simp add: ex_env_def)
  ultimately show ?thesis using access_check_decides [OF ex_env_wf, of 0 "[1, 3, 5]"] by simp blast
qed

section \<open>Subtrees\<close>

lemma subtree_check_name_too_long:
  "length vn > 32 \<Longrightarrow> netsnmp_view_subtree_check head vn nm = VACM_NOTINVIEW \<and> netsnmp_view_get head vn x mode = None"
  by (simp add: netsnmp_view_subtree_check_def netsnmp_view_get_def)

lemma subtree_check_answer:
  assumes "vacm_wf st" "prefix sub x"
  shows "netsnmp_view_subtree_check (viewList st) vn sub = VACM_SUCCESS \<Longrightarrow> view_type_at (viewList st) vn x \<noteq> SNMP_VIEW_EXCLUDED"
    "netsnmp_view_subtree_check (viewList st) vn sub = VACM_NOTINVIEW \<Longrightarrow> view_type_at (viewList st) vn x = SNMP_VIEW_EXCLUDED"
proof -
  show "netsnmp_view_subtree_check (viewList st) vn sub = VACM_SUCCESS \<Longrightarrow> view_type_at (viewList st) vn x \<noteq> SNMP_VIEW_EXCLUDED"
    "netsnmp_view_subtree_check (viewList st) vn sub = VACM_NOTINVIEW \<Longrightarrow> view_type_at (viewList st) vn x = SNMP_VIEW_EXCLUDED"
    using subtree_check_name_too_long [of vn "viewList st" sub x VACM_MODE_FIND]
      netsnmp_view_subtree_check_eq [of vn "viewList st" sub] wf_parts(3) [OF assms(1)]
      view_type_at_below [of vn "viewList st" sub x, OF _ _ _ assms(2)]
    by (cases "length vn \<le> 32"; force simp: view_type_at_def split: if_splits)+
qed

lemma view_answer_type:
  "0 \<le> viewtype \<Longrightarrow> viewtype < 8 \<Longrightarrow> view_answer env ap viewtype False (Some nm) = VACM_SUCCESS
    \<longleftrightarrow> view_type_at (viewList (ae_vacm env)) (ac_views ap ! nat viewtype) nm \<noteq> SNMP_VIEW_EXCLUDED"
  by (auto simp: view_answer_def view_type_at_def split: option.splits)

lemma view_of_command_range: "0 \<le> view_of_command c" "view_of_command c < 8"
  by (simp_all add: view_of_command_def)

lemma agent_decision_subtree:
  assumes "vacm_wf (ae_vacm env)" "prefix sub x"
  shows "agent_decision env pdu (Some sub) True = VACM_SUCCESS \<Longrightarrow> agent_decision env pdu (Some x) False = VACM_SUCCESS"
    "agent_decision env pdu (Some sub) True \<notin> {VACM_SUCCESS, VACM_SUBTREE_UNKNOWN} \<Longrightarrow> agent_decision env pdu (Some x) False \<noteq> VACM_SUCCESS"
proof -
  let ?vt = "view_of_command (pd_command pdu)"
  have vt: "0 \<le> ?vt" "?vt < 8" by (rule view_of_command_range)+
  have err: "acm_entry env pdu False = Inl e \<Longrightarrow> e \<noteq> 0" for e
    by (auto simp: acm_entry_def split: option.splits prod.splits if_splits)
  have ans: "view_answer env ap ?vt True (Some sub) = netsnmp_view_subtree_check (viewList (ae_vacm env)) (ac_views ap ! nat ?vt) sub" for ap
    using vt by (simp add: view_answer_def)
  have rng: "netsnmp_view_subtree_check l vn sub \<in> {VACM_SUCCESS, VACM_NOTINVIEW, VACM_SUBTREE_UNKNOWN}" for l vn
    by (auto simp: netsnmp_view_subtree_check_def split: option.splits)
  note type = view_answer_type [OF vt, of env _ x] and chk = subtree_check_answer [OF assms]
  show "agent_decision env pdu (Some sub) True = VACM_SUCCESS \<Longrightarrow> agent_decision env pdu (Some x) False = VACM_SUCCESS"
    using err chk(1) by (auto simp: agent_decision_def acm_decision_def ans type split: sum.splits if_splits)
  show "agent_decision env pdu (Some sub) True \<notin> {VACM_SUCCESS, VACM_SUBTREE_UNKNOWN} \<Longrightarrow> agent_decision env pdu (Some x) False \<noteq> VACM_SUCCESS"
    using err chk(2) rng by (fastforce simp: agent_decision_def acm_decision_def ans type split: sum.splits if_splits)
qed

lemma between_append: "p @ u \<le> x \<Longrightarrow> x \<le> p @ v \<Longrightarrow> prefix p x" for p u v x :: oid
proof (induction p arbitrary: x)
  case (Cons a p)
  then obtain b x' where "x = b # x'" by (cases x) auto
  with Cons show ?case by auto
qed simp

lemma between_prefix: "s \<le> x \<Longrightarrow> x \<le> e \<Longrightarrow> prefix p s \<Longrightarrow> prefix p e \<Longrightarrow> prefix p x" for s x e p :: oid
  unfolding prefix_def [of p s] prefix_def [of p e] using between_append by blast

lemma find_prefix_common:
  assumes "1 \<le> netsnmp_oid_find_prefix s e"
  shows "prefix (take (nat (netsnmp_oid_find_prefix s e)) s) s" "prefix (take (nat (netsnmp_oid_find_prefix s e)) s) e"
proof -
  have ne: "s \<noteq> []" "e \<noteq> []" using assms by (auto simp: netsnmp_oid_find_prefix_def split: if_splits)
  show "prefix (take (nat (netsnmp_oid_find_prefix s e)) s) s" by (rule take_is_prefix)
  have "take (nat (netsnmp_oid_find_prefix s e)) s = take (nat (netsnmp_oid_find_prefix s e)) e"
    using oid_common_prefix [OF ne] by fastforce
  then show "prefix (take (nat (netsnmp_oid_find_prefix s e)) s) e" using take_is_prefix by metis
qed

lemma in_a_view_success:
  assumes "pdu_ok pdu" "in_a_view env x pdu type = Ret (VACM_SUCCESS, pdu', st)"
  shows "agent_decision env pdu (Some x) False = VACM_SUCCESS"
  using in_a_view_eq [OF assms(1), of env x type] assms(2) by (auto split: if_splits)

lemma skip_subtrees_passed:
  assumes "pdu_ok pdu"
  shows "\<exists>k pdu' st. skip_subtrees env tps pdu = Ret (k, pdu', st) \<and> same_pdu env pdu pdu' \<and> k \<le> length tps
    \<and> (\<forall>i < k. 1 \<le> netsnmp_oid_find_prefix (fst (tps ! i)) (snd (tps ! i)) \<longrightarrow>
         agent_decision env pdu (Some (take (nat (netsnmp_oid_find_prefix (fst (tps ! i)) (snd (tps ! i)))) (fst (tps ! i)))) True = VACM_NOTINVIEW)"
  using assms
proof (induction tps arbitrary: pdu)
  case (Cons tp tps)
  let ?n = "netsnmp_oid_find_prefix (fst tp) (snd tp)"
  obtain r pdu1 st1 where r: "subtree_in_view env tp pdu = Ret (r, pdu1, st1)" "same_pdu env pdu pdu1"
    "1 \<le> ?n \<longrightarrow> r = agent_decision env pdu (Some (take (nat ?n) (fst tp))) True"
    using acm_check_subtree_eq [OF Cons.prems, of env "take (nat ?n) (fst tp)"]
    by (cases "?n < 1") (auto simp: subtree_in_view_def Let_def)
  show ?case
  proof (cases "r = VACM_NOTINVIEW")
    case True
    obtain k pdu' st where k: "skip_subtrees env tps pdu1 = Ret (k, pdu', st)" "same_pdu env pdu1 pdu'" "k \<le> length tps"
      "\<forall>i < k. 1 \<le> netsnmp_oid_find_prefix (fst (tps ! i)) (snd (tps ! i)) \<longrightarrow>
         agent_decision env pdu1 (Some (take (nat (netsnmp_oid_find_prefix (fst (tps ! i)) (snd (tps ! i)))) (fst (tps ! i)))) True = VACM_NOTINVIEW"
      using Cons.IH [OF same_pdu_facts(3) [OF r(2) Cons.prems]] by blast
    then have "same_pdu env pdu pdu'" using same_pdu_facts(5) [OF r(2)] by blast
    then show ?thesis
      using r True k same_pdu_facts(4) [OF r(2)] by (auto simp: less_Suc_eq_0_disj)
  qed (use r in simp)
qed simp

text \<open>
  C36. Skipping subtrees for a GETNEXT hides nothing that may be seen. When \<open>skip_subtrees\<close> passes over a
  subtree whose range has a common prefix, no OID in that range is in view: \<open>in_a_view\<close> refuses it for every
  type. The early answer for a subtree is therefore sound for the whole range.
\<close>

theorem skipped_subtrees_not_in_view:
  assumes "vacm_wf (ae_vacm env)" "pdu_ok pdu" "skip_subtrees env tps pdu = Ret (k, pdu', st)"
    and "i < k" "tps ! i = (start, limit)" "1 \<le> netsnmp_oid_find_prefix start limit" "start \<le> x" "x < limit"
  shows "\<exists>v pdu'' st'. in_a_view env x pdu type = Ret (v, pdu'', st') \<and> v \<noteq> VACM_SUCCESS"
proof -
  let ?p = "take (nat (netsnmp_oid_find_prefix start limit)) start"
  have "agent_decision env pdu (Some ?p) True = VACM_NOTINVIEW"
    using skip_subtrees_passed [OF assms(2), of env tps] assms(3-6) by auto
  moreover have "prefix ?p x"
    using between_prefix [OF assms(7) less_imp_le [OF assms(8)] find_prefix_common [OF assms(6)]] .
  ultimately have "agent_decision env pdu (Some x) False \<noteq> VACM_SUCCESS"
    using agent_decision_subtree(2) [OF assms(1), of ?p x pdu] by simp
  then show ?thesis using in_a_view_eq [OF assms(2), of env x type] by auto
qed

theorem skipped_subtrees_not_in_view_witness:
  "\<exists>v pdu'' st'. in_a_view ex_env [1, 3, 6, 9] ex_pdu 4 = Ret (v, pdu'', st') \<and> v \<noteq> VACM_SUCCESS"
proof -
  have n: "netsnmp_oid_find_prefix [1, 3, 6, 5] [1, 3, 6, 10] = 3" by code_simp
  have "skip_subtrees ex_env [([1, 3, 6, 5], [1, 3, 6, 10])] ex_pdu = Ret (1, ex_pdu, [])" by code_simp
  from skipped_subtrees_not_in_view [OF ex_env_wf this, of 0 "[1, 3, 6, 5]" "[1, 3, 6, 10]" "[1, 3, 6, 9]" 4]
  show ?thesis by (simp add: n)
qed

section \<open>Results in view\<close>

definition vb_in_view :: "acm_env \<Rightarrow> acm_pdu \<Rightarrow> varbind \<Rightarrow> bool" where
  "vb_in_view env pdu vb \<longleftrightarrow> (\<exists>pdu' st. in_a_view env (vb_name vb) pdu (vb_type vb) = Ret (VACM_SUCCESS, pdu', st))"

definition vb_hidden :: "int \<Rightarrow> varbind \<Rightarrow> bool" where
  "vb_hidden type vb \<longleftrightarrow> vb_type vb = type \<and> vb_val vb = []"

lemma in_a_view_same:
  assumes "pdu_ok pdu" "same_pdu env pdu pdu1"
  shows "\<exists>v pdu' st. in_a_view env nm pdu1 type = Ret (v, pdu', st) \<and> same_pdu env pdu pdu'
    \<and> (v = VACM_SUCCESS \<longleftrightarrow> (\<exists>pdu' st. in_a_view env nm pdu type = Ret (VACM_SUCCESS, pdu', st)))"
proof -
  have ok: "pdu_ok pdu1" by (rule same_pdu_facts(3) [OF assms(2,1)])
  obtain pdu2 st2 where 2: "in_a_view env nm pdu1 type =
      Ret (if pd_flags pdu1 AND UCD_MSG_FLAG_ALWAYS_IN_VIEW = 0 \<and> pd_version pdu1 = SNMP_VERSION_1 \<and> type = ASN_COUNTER64_type
           then VACM_NOTINVIEW else agent_decision env pdu1 (Some nm) False, pdu2, st2)" "same_pdu env pdu1 pdu2"
    using in_a_view_eq [OF ok] by blast
  obtain pdu3 st3 where 3: "in_a_view env nm pdu type =
      Ret (if pd_flags pdu AND UCD_MSG_FLAG_ALWAYS_IN_VIEW = 0 \<and> pd_version pdu = SNMP_VERSION_1 \<and> type = ASN_COUNTER64_type
           then VACM_NOTINVIEW else agent_decision env pdu (Some nm) False, pdu3, st3)"
    using in_a_view_eq [OF assms(1)] by blast
  show ?thesis
    using 2 3 same_pdu_facts(1,2,4) [OF assms(2)] same_pdu_facts(5) [OF assms(2) 2(2)] by auto
qed

lemma move_up_length [simp]: "length (move_up n vs) = length vs"
  by (induction n vs rule: move_up.induct) auto

text \<open>What the loop over one request leaves: \<open>s0\<close> and \<open>vs\<close> before, \<open>s\<close> and \<open>vs'\<close> after.\<close>

definition acm_shown :: "acm_env \<Rightarrow> acm_pdu \<Rightarrow> int \<Rightarrow> nat \<Rightarrow> varbind list \<Rightarrow> bool" where
  "acm_shown env pdu type n vs \<longleftrightarrow>
     (\<forall>i < min n (length vs). answered (vs ! i) \<longrightarrow> vb_hidden type (vs ! i) \<or> vb_in_view env pdu (vs ! i))"

definition acm_post :: "acm_env \<Rightarrow> acm_pdu \<Rightarrow> int \<Rightarrow> nat \<Rightarrow> varbind list \<Rightarrow> acm_scan \<Rightarrow> varbind list \<Rightarrow> acm_scan \<Rightarrow> bool" where
  "acm_post env pdu type n vs s0 vs' s \<longleftrightarrow> same_pdu env pdu (sc_pdu s) \<and> length vs' = length vs \<and> sc_count s0 \<le> sc_count s
    \<and> acm_shown env pdu type n vs'
    \<and> (sc_count s = sc_count s0 \<longrightarrow> vs' = vs \<and> (\<forall>i < min n (length vs). answered (vs ! i) \<longrightarrow> vb_in_view env pdu (vs ! i))
        \<and> sc_repeat s = sc_repeat s0 \<and> sc_requestvb s = sc_requestvb s0 \<and> sc_inclusive s = sc_inclusive s0)"

lemma acm_shown_Cons:
  "acm_shown env pdu type (Suc n) (vb # vs) \<longleftrightarrow>
     (answered vb \<longrightarrow> vb_hidden type vb \<or> vb_in_view env pdu vb) \<and> acm_shown env pdu type n vs"
  by (auto simp: acm_shown_def less_Suc_eq_0_disj)

lemma acm_post_keep:
  assumes "acm_post env pdu type n vs s0 vs' s" "answered vb \<longrightarrow> vb_in_view env pdu vb"
    "sc_count s1 = sc_count s0" "sc_repeat s1 = sc_repeat s0" "sc_requestvb s1 = sc_requestvb s0" "sc_inclusive s1 = sc_inclusive s0"
  shows "acm_post env pdu type (Suc n) (vb # vs) s1 (vb # vs') s"
  using assms by (auto simp: acm_post_def acm_shown_Cons less_Suc_eq_0_disj)

lemma acm_post_hide:
  assumes "acm_post env pdu type n vs s0 vs' s" "vb_hidden type vb'" "sc_count s0 = sc_count s1 + 1" "length vs = length ws"
  shows "acm_post env pdu type (Suc n) (vb # ws) s1 (vb' # vs') s"
  using assms by (auto simp: acm_post_def acm_shown_Cons)

lemma check_acm_loop_shows:
  assumes "pdu_ok pdu" "same_pdu env pdu (sc_pdu s)"
  shows "\<exists>vs' s'. check_acm_loop env type orig n pos vs s = Ret (vs', s') \<and> acm_post env pdu type n vs s vs' s'"
  using assms(2)
proof (induction n arbitrary: pos vs s)
  case 0
  then show ?case by (cases vs) (auto simp: acm_post_def acm_shown_def)
next
  case (Suc n)
  show ?case
  proof (cases vs)
    case Nil
    then show ?thesis using Suc.prems by (auto simp: acm_post_def acm_shown_def)
  next
    case (Cons vb ws)
    obtain v pdu1 st where v: "in_a_view env (vb_name vb) (sc_pdu s) (vb_type vb) = Ret (v, pdu1, st)" "same_pdu env pdu pdu1"
      "v = VACM_SUCCESS \<longleftrightarrow> vb_in_view env pdu vb"
      using in_a_view_same [OF assms(1) Suc.prems, of "vb_name vb" "vb_type vb"] by (auto simp: vb_in_view_def)
    let ?s = "s\<lparr>sc_pdu := pdu1, sc_stats := sc_stats s @ st\<rparr>"
    show ?thesis
    proof (cases "answered vb \<and> v \<noteq> VACM_SUCCESS")
      case True
      define bulk where "bulk \<longleftrightarrow> sc_repeat s < orig"
      define moved where "moved = (if bulk \<and> ws \<noteq> [] \<and> answered (hd ws) then move_up (n + 2) (vb # ws) else vb # ws)"
      define s2 where "s2 = ?s\<lparr>sc_count := sc_count s + 1, sc_repeat := (if bulk then sc_repeat s + 1 else sc_repeat s),
          sc_requestvb := (if bulk \<and> \<not> sc_earliest s then pos else sc_requestvb s),
          sc_earliest := (if bulk then True else sc_earliest s),
          sc_inclusive := (if type = ASN_PRIV_RETRY then 0 else sc_inclusive s)\<rparr>"
      have same: "same_pdu env pdu (sc_pdu s2)" using v(2) by (simp add: s2_def)
      obtain vs' s' where ih: "check_acm_loop env type orig n (pos + 1) (tl moved) s2 = Ret (vs', s')"
        "acm_post env pdu type n (tl moved) s2 vs' s'" using Suc.IH [OF same] by blast
      have a: "answered vb" "v \<noteq> VACM_SUCCESS" using True by simp_all
      have "check_acm_loop env type orig (Suc n) pos vs s
          = cbind (check_acm_loop env type orig n (pos + 1) (tl moved) s2)
              (\<lambda>(vs', s). Ret ((hd moved)\<lparr>vb_type := type, vb_val := []\<rparr> # vs', s))"
        unfolding Cons check_acm_loop.simps if_P [OF a(1)] v(1) cbind.simps prod.case Let_def if_P [OF a(2)]
        by (simp add: moved_def s2_def bulk_def split del: if_split cong: if_cong)
      then have "check_acm_loop env type orig (Suc n) pos vs s = Ret ((hd moved)\<lparr>vb_type := type, vb_val := []\<rparr> # vs', s')"
        by (simp only: ih(1) cbind.simps prod.case)
      moreover have "length (tl moved) = length ws" by (simp add: moved_def)
      moreover have "sc_count s2 = sc_count s + 1" by (simp add: s2_def)
      ultimately show ?thesis unfolding Cons using acm_post_hide [OF ih(2)] by (auto simp: vb_hidden_def)
    next
      case False
      define s2 where "s2 = (if answered vb then ?s else s)"
      have same: "same_pdu env pdu (sc_pdu s2)" using v(2) Suc.prems by (simp add: s2_def)
      obtain vs' s' where ih: "check_acm_loop env type orig n (pos + 1) ws s2 = Ret (vs', s')"
        "acm_post env pdu type n ws s2 vs' s'" using Suc.IH [OF same] by blast
      have "check_acm_loop env type orig (Suc n) pos vs s = Ret (vb # vs', s')"
        using False v(1) ih(1) by (auto simp: Cons s2_def)
      then show ?thesis unfolding Cons using acm_post_keep [OF ih(2)] False v(3) by (auto simp: s2_def)
    qed
  qed
qed

text \<open>The window of a request: what \<open>check_acm\<close> looks at.\<close>

definition acm_window :: "acm_request \<Rightarrow> nat" where
  "acm_window r = nat (ar_repeat r + 1)"

lemma check_acm_request_shows:
  assumes "pdu_ok pdu" "same_pdu env pdu pdu1"
  shows "\<exists>r' ret pdu' st. check_acm_request env type r pdu1 = Ret (r', ret, pdu', st) \<and> same_pdu env pdu pdu'
    \<and> 0 \<le> ret \<and> acm_shown env pdu type (acm_window r) (ar_chain r') \<and> length (ar_chain r') = length (ar_chain r)
    \<and> (ret = 0 \<longrightarrow> r' = r \<and> (\<forall>i < min (acm_window r) (length (ar_chain r)).
         answered (ar_chain r ! i) \<longrightarrow> vb_in_view env pdu (ar_chain r ! i)))"
proof -
  define s0 where "s0 = \<lparr>sc_repeat = ar_repeat r, sc_earliest = False, sc_requestvb = ar_requestvb r,
      sc_inclusive = ar_inclusive r, sc_count = 0, sc_pdu = pdu1, sc_stats = []\<rparr>"
  have "same_pdu env pdu (sc_pdu s0)" using assms(2) by (simp add: s0_def)
  from check_acm_loop_shows [OF assms(1) this, of type "ar_orig_repeat r" "acm_window r" 0 "ar_chain r"]
  obtain vs' s' where "check_acm_loop env type (ar_orig_repeat r) (acm_window r) 0 (ar_chain r) s0 = Ret (vs', s')"
    "acm_post env pdu type (acm_window r) (ar_chain r) s0 vs' s'" by blast
  then show ?thesis
    by (auto simp: check_acm_request_def s0_def [symmetric] acm_window_def acm_post_def) (simp_all add: s0_def)
qed


definition ex_acm_request :: acm_request where
  "ex_acm_request = \<lparr>ar_repeat = 2, ar_orig_repeat = 3, ar_inclusive = 0,
     ar_chain = [\<lparr>vb_name = [1, 3, 6, 1], vb_type = 4, vb_val = [1]\<rparr>,
       \<lparr>vb_name = [1, 3, 7, 1], vb_type = 4, vb_val = [2]\<rparr>, \<lparr>vb_name = [1, 3, 8, 1], vb_type = 4, vb_val = [3]\<rparr>], ar_requestvb = 0\<rparr>"


text \<open>
  A hole in a GETBULK loses a value: the value behind the hole is moved into it and then replaced, so that the
  search goes on behind a name that is in view and is never reported, and the values behind it stay doubled.
\<close>

lemma check_acm_loses_value:
  "check_acm_request ex_env ASN_PRIV_RETRY ex_acm_request ex_pdu =
     Ret (ex_acm_request\<lparr>ar_repeat := 3, ar_chain := [\<lparr>vb_name = [1, 3, 7, 1], vb_type = ASN_PRIV_RETRY, vb_val = []\<rparr>,
       \<lparr>vb_name = [1, 3, 8, 1], vb_type = 4, vb_val = [3]\<rparr>, \<lparr>vb_name = [1, 3, 8, 1], vb_type = 4, vb_val = [3]\<rparr>]\<rparr>, 1, ex_pdu, [])"
proof -
  have v: "in_a_view ex_env [1, 3, 6, 1] ex_pdu 4 = Ret (VACM_NOTINVIEW, ex_pdu, [])"
    "in_a_view ex_env [1, 3, 8, 1] ex_pdu 4 = Ret (VACM_SUCCESS, ex_pdu, [])" by code_simp+
  show ?thesis by (simp add: check_acm_request_def ex_acm_request_def v numeral_3_eq_3)
qed

end
