(* ===== verification/AgentSet.thy ===== *)
theory AgentSet
  imports Agent
begin

text \<open>
  What the request processing guarantees: the runs of a SET as an inductive relation, the order of its phases,
  the end of the loop, and which error is found and reported.
\<close>

section \<open>Which error is reported\<close>

definition in_error :: "request \<Rightarrow> bool" where
  "in_error r \<longleftrightarrow> rq_status r \<noteq> SNMP_ERR_NOERROR"

lemma check_requests_status_append:
  "netsnmp_check_requests_status st (rs @ ss) specific = netsnmp_check_requests_status (netsnmp_check_requests_status st rs specific) ss specific"
  by (induction st rs specific rule: netsnmp_check_requests_status.induct) simp_all

lemma check_requests_status_fold:
  "fold (\<lambda>tc st. netsnmp_check_requests_status st (tc_requests tc) specific) tcs st
     = netsnmp_check_requests_status st (concat (map tc_requests tcs)) specific"
proof (induction tcs arbitrary: st)
  case Nil
  show ?case by (cases st) simp
qed (simp add: check_requests_status_append)

lemma check_all_requests_status_concat:
  "netsnmp_check_all_requests_status asp specific =
     (let (index, status) = netsnmp_check_requests_status (as_index asp, as_status asp) (concat (map tc_requests (as_treecache asp))) specific
      in asp\<lparr>as_index := index, as_status := status\<rparr>)"
  by (simp add: netsnmp_check_all_requests_status_def check_requests_status_fold)

lemma check_requests_status_least:
  assumes "\<forall>r \<in> set rs. 1 \<le> rq_index r" "0 \<le> index"
    and "netsnmp_check_requests_status (index, status) rs 0 = (index', status')"
  shows "(\<forall>r \<in> set rs. \<not> in_error r \<or> index \<noteq> 0 \<and> index < rq_index r) \<and> index' = index \<and> status' = status
    \<or> (\<exists>r \<in> set rs. in_error r \<and> index' = rq_index r \<and> status' = rq_status r)
      \<and> (index \<noteq> 0 \<longrightarrow> index' \<le> index) \<and> (\<forall>r \<in> set rs. in_error r \<longrightarrow> index' \<le> rq_index r)"
  using assms
proof (induction rs arbitrary: index status)
  case (Cons r rs)
  show ?case
  proof (cases "in_error r \<and> (index = 0 \<or> rq_index r \<le> index)")
    case True
    then have "netsnmp_check_requests_status (rq_index r, rq_status r) rs 0 = (index', status')"
      using Cons.prems(3) by (simp add: in_error_def)
    from Cons.IH [OF _ _ this] Cons.prems(1) True
    have "(\<forall>x \<in> set rs. \<not> in_error x \<or> rq_index r < rq_index x) \<and> index' = rq_index r \<and> status' = rq_status r
      \<or> (\<exists>x \<in> set rs. in_error x \<and> index' = rq_index x \<and> status' = rq_status x)
        \<and> index' \<le> rq_index r \<and> (\<forall>x \<in> set rs. in_error x \<longrightarrow> index' \<le> rq_index x)" by force
    then show ?thesis
    proof
      assume "(\<forall>x \<in> set rs. \<not> in_error x \<or> rq_index r < rq_index x) \<and> index' = rq_index r \<and> status' = rq_status r"
      then show ?thesis using True by (intro disjI2) auto
    next
      assume "(\<exists>x \<in> set rs. in_error x \<and> index' = rq_index x \<and> status' = rq_status x)
        \<and> index' \<le> rq_index r \<and> (\<forall>x \<in> set rs. in_error x \<longrightarrow> index' \<le> rq_index x)"
      then show ?thesis using True by (intro disjI2) auto
    qed
  next
    case False
    then have "netsnmp_check_requests_status (index, status) rs 0 = (index', status')"
      using Cons.prems(3) by (auto simp add: in_error_def)
    from Cons.IH [OF _ _ this] Cons.prems(1,2)
    have "(\<forall>x \<in> set rs. \<not> in_error x \<or> index \<noteq> 0 \<and> index < rq_index x) \<and> index' = index \<and> status' = status
      \<or> (\<exists>x \<in> set rs. in_error x \<and> index' = rq_index x \<and> status' = rq_status x)
        \<and> (index \<noteq> 0 \<longrightarrow> index' \<le> index) \<and> (\<forall>x \<in> set rs. in_error x \<longrightarrow> index' \<le> rq_index x)" by simp
    then show ?thesis
    proof
      assume "(\<forall>x \<in> set rs. \<not> in_error x \<or> index \<noteq> 0 \<and> index < rq_index x) \<and> index' = index \<and> status' = status"
      then show ?thesis using False by (intro disjI1) auto
    next
      assume "(\<exists>x \<in> set rs. in_error x \<and> index' = rq_index x \<and> status' = rq_status x)
        \<and> (index \<noteq> 0 \<longrightarrow> index' \<le> index) \<and> (\<forall>x \<in> set rs. in_error x \<longrightarrow> index' \<le> rq_index x)"
      then show ?thesis using False by (intro disjI2) auto
    qed
  qed
qed simp

lemma check_requests_status_nonzero:
  "netsnmp_check_requests_status (index, status) rs specific = (index', status') \<Longrightarrow> status' = 0 \<Longrightarrow> status = 0"
  by (induction rs arbitrary: index status) (auto split: if_splits)

section \<open>What a pass keeps\<close>

lemma var_requests_loop_status:
  "var_requests_loop mode tcs w (index, status) fs = (tcs', w', (index', status'), fs') \<Longrightarrow> status' = 0 \<Longrightarrow> status = 0"
proof (induction tcs arbitrary: w index status fs tcs' w' index' status' fs')
  case (Cons tc tcs)
  obtain st0 rs w0 where c: "(case tc_reginfo tc of
              Some reginfo \<Rightarrow> netsnmp_call_handlers reginfo mode (tc_requests tc) w
            | None \<Rightarrow> (SNMP_ERR_GENERR, tc_requests tc, w)) = (st0, rs, w0)" by (metis prod_cases3)
  obtain i1 s1 where s: "netsnmp_check_requests_status (index, status) rs (specific_error mode) = (i1, s1)" by (metis surj_pair)
  obtain tcs1 w1 i2 s2 fs1 where r: "var_requests_loop mode tcs w0 (i1, s1)
      (if fs = 0 \<and> (if s1 \<noteq> 0 then s1 else st0) \<noteq> 0 then (if s1 \<noteq> 0 then s1 else st0) else fs) = (tcs1, w1, (i2, s2), fs1)"
    by (metis surj_pair)
  have "s2 = status'" using Cons.prems(1) unfolding var_requests_loop.simps c Let_def prod.case s snd_conv r by simp
  then have "s1 = 0" using Cons.IH [OF r] Cons.prems(2) by simp
  then show ?case using check_requests_status_nonzero [OF s] by simp
qed simp

lemma handle_var_requests_keeps:
  assumes "handle_var_requests asp = (st, asp')"
  shows "as_mode asp' = as_mode asp" "as_one_pass asp' = as_one_pass asp" "as_status asp' = 0 \<Longrightarrow> as_status asp = 0"
  using assms var_requests_loop_status [of "as_mode asp" "as_treecache asp" "as_world asp" "as_index asp" "as_status asp" 0]
  by (auto simp: handle_var_requests_def split: prod.splits)

lemma set_advance_facts:
  "\<not> as_one_pass asp \<Longrightarrow> as_mode (set_advance asp) = set_next_mode (as_mode asp) (as_status asp)"
  "as_one_pass (set_advance asp) = as_one_pass asp"
  "as_mode asp \<noteq> MODE_SET_BEGIN \<Longrightarrow> as_status (set_advance asp) = as_status asp"
  by (simp_all add: set_advance_def)

lemma handle_set_facts:
  assumes "\<not> as_one_pass asp" "handle_set asp = (st, asp')"
  shows "as_mode asp' = set_next_mode (as_mode asp) (as_status asp)" "\<not> as_one_pass asp'" "st = as_status asp'"
    "as_status asp' = 0 \<Longrightarrow> as_mode asp \<noteq> MODE_SET_BEGIN \<Longrightarrow> as_status asp = 0"
    "finished (as_mode asp') \<Longrightarrow> as_mode asp \<noteq> MODE_SET_BEGIN \<Longrightarrow> as_status asp' = as_status asp"
proof -
  obtain s b where h: "handle_var_requests (set_advance asp) = (s, b)" by (metis surj_pair)
  note k = handle_var_requests_keeps [OF h]
  define c where "c = (if s \<noteq> 0 \<and> as_status b = 0 \<or> s = SNMP_ERR_COMMITFAILED \<or> s = SNMP_ERR_UNDOFAILED
                   then b\<lparr>as_status := s\<rparr> else b)"
  have c: "as_mode c = as_mode b" "as_one_pass c = as_one_pass b" "as_status c = 0 \<Longrightarrow> as_status b = 0"
    by (auto simp: c_def split: if_splits)
  have "handle_set asp = (if \<not> finished (as_mode (set_advance asp)) then (as_status c, c)
      else (as_status (set_advance asp), set_advance asp))"
    unfolding handle_set_def Let_def h prod.case c_def [symmetric] ..
  then have e: "asp' = (if \<not> finished (as_mode (set_advance asp)) then c else set_advance asp)" "st = as_status asp'"
    using assms(2) by (simp_all split: if_splits)
  note f = set_advance_facts [of asp]
  show "as_mode asp' = set_next_mode (as_mode asp) (as_status asp)" "\<not> as_one_pass asp'" "st = as_status asp'"
    using e k(1,2) c f(1,2) assms(1) by (simp_all split: if_splits)
  show "as_status asp' = 0 \<Longrightarrow> as_mode asp \<noteq> MODE_SET_BEGIN \<Longrightarrow> as_status asp = 0"
    using e k(3) c f(3) by (simp split: if_splits)
  show "finished (as_mode asp') \<Longrightarrow> as_mode asp \<noteq> MODE_SET_BEGIN \<Longrightarrow> as_status asp' = as_status asp"
    using e k(1) c f(3) by (simp split: if_splits)
qed

section \<open>The phases\<close>

text \<open>
  Runs of a SET: passes of \<open>handle_set\<close>, first under \<open>netsnmp_handle_request\<close>. When requests are delegated after a pass there,
  \<open>handle_set_loop\<close> returns 0 and \<open>netsnmp_handle_request\<close> writes that to \<open>asp->status\<close>; the SET then continues under
  \<open>check_delayed_request\<close>, which does not do so (\<open>Delayed e\<close>; \<open>e\<close> tells that the write has erased an error status). There,
  while requests are delegated, any change of the requests and of the handlers' state can happen, followed by a status
  check, as \<open>netsnmp_check_delegated_requests\<close> and \<open>check_delayed_request\<close> make it. The list records the modes
  in which the handlers were called. (A finished SET has nothing delegated: the loop would have returned before the end.)
\<close>

datatype set_stage = Handling | Delayed bool

inductive set_reach :: "set_stage \<Rightarrow> int list \<Rightarrow> 'w session \<Rightarrow> bool" where
  start: "as_mode asp = MODE_SET_BEGIN \<Longrightarrow> \<not> as_one_pass asp \<Longrightarrow> set_reach Handling [] asp"
| pass: "set_reach g tr asp \<Longrightarrow> \<not> finished (as_mode asp) \<Longrightarrow> handle_set asp = (st, asp')
    \<Longrightarrow> set_reach g (tr @ (if finished (as_mode asp') then [] else [as_mode asp'])) asp'"
| delegated: "set_reach Handling tr asp \<Longrightarrow> netsnmp_check_for_delegated asp
    \<Longrightarrow> as_mode asp \<noteq> MODE_SET_BEGIN \<Longrightarrow> \<not> finished (as_mode asp)
    \<Longrightarrow> set_reach (Delayed (as_status asp \<noteq> 0)) tr (asp\<lparr>as_status := SNMP_ERR_NOERROR\<rparr>)"
| delayed: "set_reach (Delayed e) tr asp \<Longrightarrow> \<not> finished (as_mode asp)
    \<Longrightarrow> set_reach (Delayed e) tr (netsnmp_check_all_requests_status (asp\<lparr>as_treecache := tcs, as_world := w\<rparr>) specific)"

text \<open>The modes so far and the current mode.\<close>

definition set_phase :: "(int list \<times> int) set" where
  "set_phase = {([], MODE_SET_BEGIN), ([MODE_SET_RESERVE1], MODE_SET_RESERVE1),
     ([MODE_SET_RESERVE1, MODE_SET_FREE], MODE_SET_FREE),
     ([MODE_SET_RESERVE1, MODE_SET_RESERVE2], MODE_SET_RESERVE2),
     ([MODE_SET_RESERVE1, MODE_SET_RESERVE2, MODE_SET_FREE], MODE_SET_FREE),
     ([MODE_SET_RESERVE1, MODE_SET_RESERVE2, MODE_SET_ACTION], MODE_SET_ACTION),
     ([MODE_SET_RESERVE1, MODE_SET_RESERVE2, MODE_SET_ACTION, MODE_SET_UNDO], MODE_SET_UNDO),
     ([MODE_SET_RESERVE1, MODE_SET_RESERVE2, MODE_SET_ACTION, MODE_SET_COMMIT], MODE_SET_COMMIT),
     ([MODE_SET_RESERVE1, MODE_SET_FREE], FINISHED_FAILURE),
     ([MODE_SET_RESERVE1, MODE_SET_RESERVE2, MODE_SET_FREE], FINISHED_FAILURE),
     ([MODE_SET_RESERVE1, MODE_SET_RESERVE2, MODE_SET_ACTION, MODE_SET_UNDO], FINISHED_FAILURE),
     ([MODE_SET_RESERVE1, MODE_SET_RESERVE2, MODE_SET_ACTION, MODE_SET_COMMIT], FINISHED_FAILURE),
     ([MODE_SET_RESERVE1, MODE_SET_RESERVE2, MODE_SET_ACTION, MODE_SET_COMMIT], FINISHED_SUCCESS)}"

lemma check_all_facts:
  "as_mode (netsnmp_check_all_requests_status asp specific) = as_mode asp"
  "as_one_pass (netsnmp_check_all_requests_status asp specific) = as_one_pass asp"
  "as_status (netsnmp_check_all_requests_status asp specific) = 0 \<Longrightarrow> as_status asp = 0"
  unfolding check_all_requests_status_concat using check_requests_status_nonzero
  by (auto split: prod.splits)

lemma set_phase_next:
  assumes "(tr, m) \<in> set_phase" "\<not> finished m"
  shows "(tr @ (if finished (set_next_mode m st) then [] else [set_next_mode m st]), set_next_mode m st) \<in> set_phase"
proof -
  have m: "m \<in> {-1, 0, 1, 2, 3, 4, 5}" using assms(1,2) by (auto simp: set_phase_def finished_def)
  show ?thesis using assms(1) m unfolding set_phase_def
    by (cases "st = 0") (elim insertE emptyE; simp add: set_next_mode_def finished_def)+
qed

lemma set_reach_invariant:
  "set_reach g tr asp \<Longrightarrow> (tr, as_mode asp) \<in> set_phase \<and> \<not> as_one_pass asp
     \<and> (g \<noteq> Delayed True \<longrightarrow> as_mode asp \<in> {MODE_SET_FREE, MODE_SET_UNDO, FINISHED_FAILURE} \<longrightarrow> as_status asp \<noteq> 0)
     \<and> (as_mode asp = FINISHED_SUCCESS \<longrightarrow> as_status asp = 0)"
proof (induction rule: set_reach.induct)
  case (start asp)
  then show ?case by (simp add: set_phase_def)
next
  case (pass g tr asp st asp')
  then have f: "(tr, as_mode asp) \<in> set_phase" "\<not> as_one_pass asp" by simp_all
  note h = handle_set_facts [OF f(2) pass.hyps(3)]
  have "\<not> finished (as_mode asp)" by fact
  moreover have "as_status asp' \<noteq> 0"
    if m: "as_mode asp' \<in> {MODE_SET_FREE, MODE_SET_UNDO, FINISHED_FAILURE}" and g: "g \<noteq> Delayed True"
  proof -
    have "as_mode asp \<noteq> MODE_SET_BEGIN \<and> as_status asp \<noteq> 0"
      using m g pass.IH unfolding h(1) set_next_mode_def by (auto split: if_splits)
    then show ?thesis using h(4) by auto
  qed
  moreover have "as_status asp' = 0" if m: "as_mode asp' = FINISHED_SUCCESS"
  proof -
    have "as_mode asp = MODE_SET_COMMIT \<and> as_status asp = 0"
      using m \<open>\<not> finished (as_mode asp)\<close> unfolding h(1) set_next_mode_def finished_def by (auto split: if_splits)
    then show ?thesis using h(5) m by (simp add: finished_def)
  qed
  moreover have "(tr @ (if finished (as_mode asp') then [] else [as_mode asp']), as_mode asp') \<in> set_phase"
    using set_phase_next [OF f(1) pass.hyps(2), of "as_status asp"] unfolding h(1) .
  ultimately show ?case using h(2) by blast
next
  case (delegated tr asp)
  then have "as_mode asp \<notin> {FINISHED_SUCCESS, FINISHED_FAILURE}" by (auto simp: finished_def)
  then show ?case using delegated by auto
next
  case (delayed e tr asp w tcs specific)
  then have "as_mode asp \<noteq> FINISHED_SUCCESS" by (auto simp: finished_def)
  then show ?case using delayed check_all_facts [of "asp\<lparr>as_treecache := tcs, as_world := w\<rparr>" specific] by auto
qed


section \<open>The loop ends\<close>

definition set_rank :: "int \<Rightarrow> nat" where
  "set_rank m = (if m = MODE_SET_BEGIN then 6 else if m = MODE_SET_RESERVE1 then 5 else if m = MODE_SET_RESERVE2 then 4
     else if m = MODE_SET_ACTION then 3 else if finished m then 0 else 2)"

lemma handle_set_loop_ends:
  assumes "as_mode asp \<in> {-1, 0, 1, 2, 3, 4, 5, 9, 10}" "\<not> as_one_pass asp" "set_reach g tr asp"
  shows "\<exists>st asp' tr'. handle_set_loop asp = Some (st, asp') \<and> set_reach g (tr @ tr') asp'
    \<and> (netsnmp_check_for_delegated asp' \<and> st = 0 \<or> finished (as_mode asp') \<and> st = as_status asp')"
  using assms
proof (induction "set_rank (as_mode asp)" arbitrary: asp tr rule: less_induct)
  case less
  show ?case
  proof (cases "finished (as_mode asp)")
    case True
    have "set_reach g (tr @ []) asp" using less.prems by simp
    moreover have "handle_set_loop asp = Some (as_status asp, asp)"
      unfolding handle_set_loop.simps [of asp] using True by simp
    ultimately show ?thesis using True by blast
  next
    case False
    obtain st asp' where h: "handle_set asp = (st, asp')" by (metis surj_pair)
    note f = handle_set_facts [OF less.prems(2) h]
    have r: "set_reach g (tr @ (if finished (as_mode asp') then [] else [as_mode asp'])) asp'"
      using set_reach.pass [OF less.prems(3) False h] .
    have l: "handle_set_loop asp = (if netsnmp_check_for_delegated asp' then Some (0, asp') else handle_set_loop asp')"
      unfolding handle_set_loop.simps [of asp] using False h f(2) by simp
    have m: "as_mode asp' \<in> {-1, 0, 1, 2, 3, 4, 5, 9, 10}" "set_rank (as_mode asp') < set_rank (as_mode asp)"
      using less.prems(1) False unfolding f(1)
      by (elim insertE emptyE; simp add: set_next_mode_def set_rank_def finished_def)+
    show ?thesis
    proof (cases "netsnmp_check_for_delegated asp'")
      case True
      then show ?thesis using l r by auto
    next
      case False
      then have e: "handle_set_loop asp = handle_set_loop asp'" using l by simp
      obtain st' asp'' tr' where "handle_set_loop asp' = Some (st', asp'')"
        "set_reach g ((tr @ (if finished (as_mode asp') then [] else [as_mode asp'])) @ tr') asp''"
        "netsnmp_check_for_delegated asp'' \<and> st' = 0 \<or> finished (as_mode asp'') \<and> st' = as_status asp''"
        using less.hyps [OF m(2) m(1) f(2) r] by blast
      then show ?thesis unfolding e append_assoc by blast
    qed
  qed
qed

section \<open>No error is overlooked\<close>

text \<open>An index is recorded together with a status only.\<close>

definition index_ok :: "int \<times> int \<Rightarrow> bool" where
  "index_ok st \<longleftrightarrow> (fst st \<noteq> 0 \<longrightarrow> snd st \<noteq> 0)"

lemma check_requests_status_all:
  "index_ok st \<Longrightarrow> index_ok (netsnmp_check_requests_status st rs 0)
    \<and> (snd (netsnmp_check_requests_status st rs 0) = 0 \<longrightarrow> snd st = 0 \<and> (\<forall>r \<in> set rs. \<not> in_error r))"
proof (induction rs arbitrary: st)
  case Nil
  then show ?case by (cases st) simp
next
  case (Cons r rs)
  obtain index status where st: "st = (index, status)" by (cases st)
  show ?case
  proof (cases "in_error r \<and> (index = 0 \<or> rq_index r \<le> index)")
    case True
    have "index_ok (rq_index r, rq_status r)" using True by (simp add: index_ok_def in_error_def)
    from Cons.IH [OF this] True show ?thesis by (auto simp: st in_error_def)
  next
    case False
    then have e: "netsnmp_check_requests_status st (r # rs) 0 = netsnmp_check_requests_status st rs 0"
      by (auto simp: st in_error_def)
    have "snd st = 0 \<Longrightarrow> \<not> in_error r" using False Cons.prems by (auto simp: st index_ok_def)
    then show ?thesis using Cons.IH [OF Cons.prems] unfolding e by auto
  qed
qed

lemma var_requests_loop_all:
  assumes "specific_error mode = 0" "index_ok st" "var_requests_loop mode tcs w st fs = (tcs', w', st', fs')"
  shows "index_ok st' \<and> (snd st' = 0 \<longrightarrow> snd st = 0 \<and> (\<forall>tc \<in> set tcs'. \<forall>r \<in> set (tc_requests tc). \<not> in_error r))"
  using assms(2,3)
proof (induction tcs arbitrary: w st fs tcs' w' st' fs')
  case (Cons tc tcs)
  obtain st0 rs w0 where c: "(case tc_reginfo tc of
              Some reginfo \<Rightarrow> netsnmp_call_handlers reginfo mode (tc_requests tc) w
            | None \<Rightarrow> (SNMP_ERR_GENERR, tc_requests tc, w)) = (st0, rs, w0)" by (metis prod_cases3)
  let ?s = "netsnmp_check_requests_status st rs 0"
  note s = check_requests_status_all [OF Cons.prems(1), of rs]
  obtain tcs1 w1 st1 fs1 where r: "var_requests_loop mode tcs w0 ?s
      (if fs = 0 \<and> (if snd ?s \<noteq> 0 then snd ?s else st0) \<noteq> 0 then (if snd ?s \<noteq> 0 then snd ?s else st0) else fs)
      = (tcs1, w1, st1, fs1)" by (metis surj_pair)
  have "tcs' = tc\<lparr>tc_requests := rs\<rparr> # tcs1" "st' = st1"
    using Cons.prems(2) unfolding var_requests_loop.simps c Let_def prod.case assms(1) r by simp_all
  then show ?case using Cons.IH [OF _ r] s by auto
qed simp

lemma handle_set_all:
  assumes "\<not> as_one_pass asp" "handle_set asp = (st, asp')" "as_mode asp' \<in> {MODE_SET_RESERVE1, MODE_SET_RESERVE2, MODE_SET_ACTION}"
    "if as_mode asp = MODE_SET_BEGIN then as_index asp = 0 else index_ok (as_index asp, as_status asp)"
  shows "index_ok (as_index asp', as_status asp')"
    "as_status asp' = 0 \<Longrightarrow> \<forall>tc \<in> set (as_treecache asp'). \<forall>r \<in> set (tc_requests tc). \<not> in_error r"
proof -
  let ?a = "set_advance asp"
  obtain tcs w index status fs where v:
    "var_requests_loop (as_mode ?a) (as_treecache ?a) (as_world ?a) (as_index ?a, as_status ?a) 0 = (tcs, w, (index, status), fs)"
    by (metis surj_pair)
  have m: "as_mode ?a = as_mode asp'" using set_advance_facts(1) [OF assms(1)] handle_set_facts(1) [OF assms(1,2)] by simp
  have nf: "\<not> finished (as_mode ?a)" and sp: "specific_error (as_mode ?a) = 0"
    using assms(3) unfolding m by (auto simp: finished_def specific_error_def)
  have "index_ok (as_index ?a, as_status ?a)" using assms(1,4) by (auto simp: set_advance_def index_ok_def)
  note r = var_requests_loop_all [OF sp this v]
  have a: "as_treecache asp' = tcs" "as_index asp' = index"
    "as_status asp' = (if fs \<noteq> 0 \<and> status = 0 \<or> fs = SNMP_ERR_COMMITFAILED \<or> fs = SNMP_ERR_UNDOFAILED then fs else status)"
    using assms(2) nf v by (auto simp: handle_set_def Let_def handle_var_requests_def split: if_splits)
  show "index_ok (as_index asp', as_status asp')" using r a by (auto simp: index_ok_def)
  show "as_status asp' = 0 \<Longrightarrow> \<forall>tc \<in> set (as_treecache asp'). \<forall>r \<in> set (tc_requests tc). \<not> in_error r"
    using r a by (auto split: if_splits)
qed


section \<open>Properties\<close>

text \<open>
  C10. The phases of a SET: in every run from the beginning, whatever the handlers do and whatever happens while
  requests are delegated, the handlers are called in one of the sequences reserve 1, (free | reserve 2,
  (free | action, (undo | commit))). The free and undo phases are entered with an error status only, and then have one;
  reserve 2, action, commit and the successful end are entered without one only.
  They keep it, and the failing end has one too, unless \<open>netsnmp_handle_request\<close> has erased an error status when requests
  were delegated (\<open>Delayed True\<close>; see \<open>delegated_set_error_lost\<close>). The end is a success only after a commit, with no
  error status.
\<close>

theorem set_phases:
  assumes "set_reach g tr asp"
  shows "(tr, as_mode asp) \<in> set_phase
    \<and> (\<forall>st asp'. handle_set asp = (st, asp') \<longrightarrow> \<not> finished (as_mode asp) \<longrightarrow>
         (as_mode asp' \<in> {MODE_SET_FREE, MODE_SET_UNDO} \<longrightarrow> as_status asp \<noteq> 0 \<and> as_status asp' \<noteq> 0)
         \<and> (as_mode asp' \<in> {MODE_SET_RESERVE2, MODE_SET_ACTION, MODE_SET_COMMIT, FINISHED_SUCCESS} \<longrightarrow> as_status asp = 0))
    \<and> (g \<noteq> Delayed True \<longrightarrow> as_mode asp \<in> {MODE_SET_FREE, MODE_SET_UNDO, FINISHED_FAILURE} \<longrightarrow> as_status asp \<noteq> 0)
    \<and> (as_mode asp = FINISHED_SUCCESS \<longrightarrow> as_status asp = 0
        \<and> tr = [MODE_SET_RESERVE1, MODE_SET_RESERVE2, MODE_SET_ACTION, MODE_SET_COMMIT])"
proof -
  note i = set_reach_invariant [OF assms]
  have "as_status asp \<noteq> 0 \<and> as_status asp' \<noteq> 0"
    if h: "handle_set asp = (st, asp')" and m: "as_mode asp' \<in> {MODE_SET_FREE, MODE_SET_UNDO}" for st asp'
  proof -
    note f = handle_set_facts [OF _ h]
    have "as_mode asp \<in> {MODE_SET_RESERVE1, MODE_SET_RESERVE2, MODE_SET_ACTION} \<and> as_status asp \<noteq> 0"
      using m i f(1) by (auto simp: set_phase_def set_next_mode_def split: if_splits)
    then show ?thesis using f(4) i by auto
  qed
  moreover have "as_status asp = 0"
    if h: "handle_set asp = (st, asp')" and n: "\<not> finished (as_mode asp)"
      and m: "as_mode asp' \<in> {MODE_SET_RESERVE2, MODE_SET_ACTION, MODE_SET_COMMIT, FINISHED_SUCCESS}" for st asp'
    using m n i handle_set_facts(1) [OF _ h] by (auto simp: set_phase_def set_next_mode_def finished_def split: if_splits)
  ultimately show ?thesis using i by (auto simp: set_phase_def)
qed

definition ex_request :: request where
  "ex_request = \<lparr>rq_index = 1, rq_status = 0, rq_processed = False, rq_delegated = False, rq_inclusive = 0, rq_repeat = 0,
     rq_type = 2, rq_name = [1, 3], rq_range_end = [1, 4]\<rparr>"

text \<open>A handler that refuses in phase \<open>m\<close>.\<close>

definition ex_session :: "int \<Rightarrow> unit session" where
  "ex_session m = \<lparr>as_mode = MODE_SET_BEGIN, as_oldmode = 0, as_status = 0, as_index = 0, as_one_pass = False, as_cancel = False,
     as_treecache = [\<lparr>tc_reginfo = Some \<lparr>rg_handler = [\<lparr>access_method =
           Some (\<lambda>mode rs w. (0, False, if mode = m then map (\<lambda>r. request_set_error r mode 10) rs else rs, w)), auto_next = False\<rparr>],
           rg_getandgetnext = True, rg_set = True\<rparr>, tc_requests = [ex_request]\<rparr>], as_world = ()\<rparr>"

lemmas set_eval = handle_set_def set_advance_def set_next_mode_def finished_def handle_var_requests_def specific_error_def
  netsnmp_call_handlers_def request_set_error_def

theorem set_phases_witness:
  "set_reach Handling [MODE_SET_RESERVE1] (snd (handle_set (ex_session MODE_SET_RESERVE1)))
    \<and> as_mode (snd (handle_set (snd (handle_set (ex_session MODE_SET_RESERVE1))))) = MODE_SET_FREE
    \<and> as_status (snd (handle_set (snd (handle_set (ex_session MODE_SET_RESERVE1))))) \<noteq> 0"
proof -
  let ?a = "ex_session MODE_SET_RESERVE1"
  let ?b = "snd (handle_set ?a)" and ?c = "snd (handle_set (snd (handle_set ?a)))"
  have a: "set_reach Handling [] ?a" by (rule set_reach.start) (simp_all add: ex_session_def)
  have m: "as_mode ?a = -1" "as_mode ?b = 0" "as_mode ?c = 4" "as_status ?b = 10"
    by (simp_all add: ex_session_def ex_request_def set_eval)
  have nf: "\<not> finished (as_mode ?a)" "\<not> finished (as_mode ?b)" "\<not> finished (as_mode ?c)"
    unfolding m by (simp_all add: finished_def)
  have b: "set_reach Handling [0] ?b" using set_reach.pass [OF a nf(1) prod.collapse [symmetric]] nf m by simp
  have c: "set_reach Handling [0, 4] ?c" using set_reach.pass [OF b nf(2) prod.collapse [symmetric]] nf m by simp
  show ?thesis using b set_phases [OF c] m by simp
qed

text \<open>
  An error status is lost when the handlers of one subtree return an error without marking a request while those of another
  delegate theirs in the same pass: the write of \<open>netsnmp_handle_request\<close> erases it, and the SET goes on to commit.
\<close>

definition ex_split_session :: "unit session" where
  "ex_split_session = (ex_session 0)\<lparr>as_treecache :=
     [\<lparr>tc_reginfo = Some \<lparr>rg_handler = [\<lparr>access_method = Some (\<lambda>mode rs w. (if mode = MODE_SET_RESERVE1 then 5 else 0, False, rs, w)),
           auto_next = False\<rparr>], rg_getandgetnext = True, rg_set = True\<rparr>, tc_requests = [ex_request]\<rparr>,
      \<lparr>tc_reginfo = Some \<lparr>rg_handler = [\<lparr>access_method = Some (\<lambda>mode rs w.
             (0, False, map (rq_delegated_update (\<lambda>_. mode = MODE_SET_RESERVE1)) rs, w)), auto_next = False\<rparr>],
           rg_getandgetnext = True, rg_set = True\<rparr>, tc_requests = [ex_request\<lparr>rq_index := 2\<rparr>]\<rparr>]\<rparr>"

lemma delegated_set_error_lost:
  "\<exists>(asp :: unit session) (asp' :: unit session). set_reach Handling [MODE_SET_RESERVE1] asp \<and> as_status asp = 5 \<and> netsnmp_check_for_delegated asp
    \<and> set_reach (Delayed True) [MODE_SET_RESERVE1, MODE_SET_RESERVE2, MODE_SET_ACTION, MODE_SET_COMMIT] asp'
    \<and> as_mode asp' = FINISHED_SUCCESS \<and> as_status asp' = 0"
proof -
  let ?start = ex_split_session
  define a where "a = snd (handle_set ?start)"
  define b where "b = netsnmp_check_all_requests_status (a\<lparr>as_status := 0,
    as_treecache := map (\<lambda>tc. tc\<lparr>tc_requests := map (\<lambda>r. r\<lparr>rq_delegated := False\<rparr>) (tc_requests tc)\<rparr>) (as_treecache a), as_world := ()\<rparr>) 0"
  define c where "c = snd (handle_set b)"
  define d where "d = snd (handle_set c)"
  define e where "e = snd (handle_set d)"
  define f where "f = snd (handle_set e)"
  note ex = ex_split_session_def ex_session_def ex_request_def set_eval
  have a: "as_mode a = 0" "as_status a = 5" "netsnmp_check_for_delegated a"
    by (simp_all add: a_def ex netsnmp_check_for_delegated_def)
  have b: "as_mode b = 0" "as_status b = 0" by (simp_all add: b_def a_def ex netsnmp_check_all_requests_status_def)
  have c: "as_mode c = 1" "as_status c = 0" by (simp_all add: c_def b_def a_def ex netsnmp_check_all_requests_status_def)
  have d: "as_mode d = 2" "as_status d = 0" by (simp_all add: d_def c_def b_def a_def ex netsnmp_check_all_requests_status_def)
  have e: "as_mode e = 3" "as_status e = 0" by (simp_all add: e_def d_def c_def b_def a_def ex netsnmp_check_all_requests_status_def)
  have f: "as_mode f = FINISHED_SUCCESS" "as_status f = 0"
    by (simp_all add: f_def e_def d_def c_def b_def a_def ex netsnmp_check_all_requests_status_def)
  have m: "as_mode ?start = -1" "\<not> as_one_pass ?start" by (simp_all add: ex_split_session_def ex_session_def)
  have step: "set_reach g (tr @ (if finished (as_mode (snd (handle_set x))) then [] else [as_mode (snd (handle_set x))])) (snd (handle_set x))"
    if "set_reach g tr x" "\<not> finished (as_mode x)" for g tr and x :: "unit session"
    by (rule set_reach.pass [OF that prod.collapse [symmetric]])
  have ra: "set_reach Handling [0] a" using step [OF set_reach.start [OF m]] m a by (simp add: a_def [symmetric] finished_def)
  have "set_reach (Delayed True) [0] (a\<lparr>as_status := 0\<rparr>)"
    using set_reach.delegated [OF ra a(3)] a by (simp add: finished_def)
  from set_reach.delayed [OF this] have rb: "set_reach (Delayed True) [0] b" unfolding b_def using a by (simp add: finished_def)
  have rc: "set_reach (Delayed True) [0, 1] c" using step [OF rb] b c by (simp add: c_def [symmetric] finished_def)
  have rd: "set_reach (Delayed True) [0, 1, 2] d" using step [OF rc] c d by (simp add: d_def [symmetric] finished_def)
  have re: "set_reach (Delayed True) [0, 1, 2, 3] e" using step [OF rd] d e by (simp add: e_def [symmetric] finished_def)
  have "set_reach (Delayed True) [0, 1, 2, 3] f" using step [OF re] e f by (simp add: f_def [symmetric] finished_def)
  then show ?thesis using ra a f by blast
qed

text \<open>
  C21. A SET ends: from its beginning \<open>handle_set_loop\<close> returns, with delegated
  requests and no error, or at the end of the phases with the status of the session; what it leaves is reached
  by a run of the phases. (From any later phase it returns as well: \<open>handle_set_loop_ends\<close>.)
\<close>

theorem set_loop_ends:
  assumes "as_mode asp = MODE_SET_BEGIN" "\<not> as_one_pass asp"
  shows "\<exists>st asp' tr. handle_set_loop asp = Some (st, asp') \<and> set_reach Handling tr asp'
    \<and> (netsnmp_check_for_delegated asp' \<and> st = 0 \<or> finished (as_mode asp') \<and> st = as_status asp')"
proof -
  have "as_mode asp \<in> {-1, 0, 1, 2, 3, 4, 5, 9, 10}" using assms(1) by simp
  from handle_set_loop_ends [OF this assms(2) set_reach.start [OF assms]] show ?thesis by auto
qed

theorem set_loop_ends_witness:
  "handle_set_loop (ex_session MODE_SET_ACTION) \<noteq> None"
proof -
  have "as_mode (ex_session MODE_SET_ACTION) = MODE_SET_BEGIN" "\<not> as_one_pass (ex_session MODE_SET_ACTION)"
    by (simp_all add: ex_session_def)
  from set_loop_ends [OF this] show ?thesis by auto
qed

text \<open>
  C17. No error is overlooked: when a pass of one of the phases reserve 1, reserve 2 or action leaves the status
  without error, no request of the whole tree cache is marked with an error; so any error that a handler marks
  on any request keeps the SET from its next phase.
\<close>

theorem set_errors_stop:
  assumes "\<not> as_one_pass asp" "handle_set asp = (st, asp')" "as_mode asp' \<in> {MODE_SET_RESERVE1, MODE_SET_RESERVE2, MODE_SET_ACTION}"
    "if as_mode asp = MODE_SET_BEGIN then as_index asp = 0 else as_index asp \<noteq> 0 \<longrightarrow> as_status asp \<noteq> 0"
    "tc \<in> set (as_treecache asp')" "r \<in> set (tc_requests tc)" "rq_status r \<noteq> SNMP_ERR_NOERROR"
  shows "as_status asp' \<noteq> 0 \<and> as_mode (snd (handle_set asp')) \<in> {MODE_SET_FREE, MODE_SET_UNDO}"
proof -
  have "if as_mode asp = MODE_SET_BEGIN then as_index asp = 0 else index_ok (as_index asp, as_status asp)"
    using assms(4) by (auto simp: index_ok_def)
  from handle_set_all(2) [OF assms(1-3) this] have s: "as_status asp' \<noteq> 0" using assms(5-7) by (auto simp: in_error_def)
  have "as_mode (snd (handle_set asp')) = set_next_mode (as_mode asp') (as_status asp')"
    using handle_set_facts(1) [OF handle_set_facts(2) [OF assms(1,2)] prod.collapse [symmetric]] by simp
  then show ?thesis using s assms(3) by (auto simp: set_next_mode_def)
qed

theorem set_errors_stop_witness:
  "as_mode (snd (handle_set (snd (handle_set (ex_session MODE_SET_RESERVE1))))) \<in> {MODE_SET_FREE, MODE_SET_UNDO}"
proof -
  let ?a = "ex_session MODE_SET_RESERVE1"
  let ?b = "snd (handle_set ?a)"
  have m: "as_mode ?b = 0" and tc: "as_treecache ?b = [(hd (as_treecache ?a))\<lparr>tc_requests := [request_set_error ex_request 0 10]\<rparr>]"
    by (simp_all add: ex_session_def ex_request_def set_eval)
  have e: "request_set_error ex_request 0 10 \<in> set (tc_requests (hd (as_treecache ?b)))" "hd (as_treecache ?b) \<in> set (as_treecache ?b)"
    "rq_status (request_set_error ex_request 0 10) \<noteq> 0" "\<not> as_one_pass ?a"
    "if as_mode ?a = MODE_SET_BEGIN then as_index ?a = 0 else as_index ?a \<noteq> 0 \<longrightarrow> as_status ?a \<noteq> 0"
    unfolding tc by (simp_all add: request_set_error_def ex_session_def)
  show ?thesis
    using set_errors_stop [OF e(4) prod.collapse [symmetric] _ e(5) e(2) e(1) e(3)] m by simp
qed

text \<open>
  The reported error is that of the lowest variable binding: starting without an error, the check over all
  requests gives index and status of a request in error whose index is the least of those in error, and
  nothing when there is none.
\<close>

theorem check_status_lowest_index:
  assumes "\<forall>tc \<in> set (as_treecache asp). \<forall>r \<in> set (tc_requests tc). 1 \<le> rq_index r" "as_index asp = 0" "as_status asp = 0"
    and "netsnmp_check_all_requests_status asp 0 = asp'"
  shows "if \<exists>tc \<in> set (as_treecache asp). \<exists>r \<in> set (tc_requests tc). rq_status r \<noteq> 0
     then \<exists>tc \<in> set (as_treecache asp). \<exists>r \<in> set (tc_requests tc). rq_status r \<noteq> 0
        \<and> as_index asp' = rq_index r \<and> as_status asp' = rq_status r
        \<and> (\<forall>tc' \<in> set (as_treecache asp). \<forall>r' \<in> set (tc_requests tc'). rq_status r' \<noteq> 0 \<longrightarrow> rq_index r \<le> rq_index r')
     else asp' = asp"
proof -
  let ?rs = "concat (map tc_requests (as_treecache asp))"
  obtain index status where r: "netsnmp_check_requests_status (0, 0) ?rs 0 = (index, status)" by (metis surj_pair)
  have pos: "\<forall>r \<in> set ?rs. 1 \<le> rq_index r" using assms(1) by auto
  have a: "asp' = asp\<lparr>as_index := index, as_status := status\<rparr>"
    using assms(4) r assms(2,3) unfolding check_all_requests_status_concat by simp
  from check_requests_status_least [OF pos order_refl r]
  have "(\<forall>r \<in> set ?rs. \<not> in_error r) \<and> index = 0 \<and> status = 0
    \<or> (\<exists>r \<in> set ?rs. in_error r \<and> index = rq_index r \<and> status = rq_status r \<and> (\<forall>r' \<in> set ?rs. in_error r' \<longrightarrow> rq_index r \<le> rq_index r'))"
    by auto
  then show ?thesis
  proof
    assume n: "(\<forall>r \<in> set ?rs. \<not> in_error r) \<and> index = 0 \<and> status = 0"
    then have "asp' = asp" unfolding a using assms(2,3) by (cases asp) simp
    then show ?thesis using n by (auto simp: in_error_def)
  next
    assume "\<exists>r \<in> set ?rs. in_error r \<and> index = rq_index r \<and> status = rq_status r \<and> (\<forall>r' \<in> set ?rs. in_error r' \<longrightarrow> rq_index r \<le> rq_index r')"
    then obtain r tc where x: "tc \<in> set (as_treecache asp)" "r \<in> set (tc_requests tc)" "in_error r" "index = rq_index r" "status = rq_status r"
      "\<forall>r' \<in> set ?rs. in_error r' \<longrightarrow> rq_index r \<le> rq_index r'" by auto
    then have "\<forall>tc' \<in> set (as_treecache asp). \<forall>r' \<in> set (tc_requests tc'). rq_status r' \<noteq> 0 \<longrightarrow> rq_index r \<le> rq_index r'"
      by (auto simp: in_error_def)
    then have "\<exists>tc \<in> set (as_treecache asp). \<exists>r \<in> set (tc_requests tc). rq_status r \<noteq> 0
        \<and> as_index asp' = rq_index r \<and> as_status asp' = rq_status r
        \<and> (\<forall>tc' \<in> set (as_treecache asp). \<forall>r' \<in> set (tc_requests tc'). rq_status r' \<noteq> 0 \<longrightarrow> rq_index r \<le> rq_index r')"
      using x(1-5) by (intro bexI [OF _ x(1)] bexI [OF _ x(2)]) (simp add: a in_error_def)
    then show ?thesis by auto
  qed
qed

theorem check_status_lowest_index_witness:
  "as_index (netsnmp_check_all_requests_status ((ex_session 0)\<lparr>as_treecache :=
     [\<lparr>tc_reginfo = None, tc_requests = [ex_request\<lparr>rq_index := 3, rq_status := 5\<rparr>]\<rparr>,
      \<lparr>tc_reginfo = None, tc_requests = [ex_request\<lparr>rq_index := 2, rq_status := 17\<rparr>]\<rparr>]\<rparr>) 0) = 2"
  using check_status_lowest_index [OF _ _ _ refl, of "(ex_session 0)\<lparr>as_treecache :=
     [\<lparr>tc_reginfo = None, tc_requests = [ex_request\<lparr>rq_index := 3, rq_status := 5\<rparr>]\<rparr>,
      \<lparr>tc_reginfo = None, tc_requests = [ex_request\<lparr>rq_index := 2, rq_status := 17\<rparr>]\<rparr>]\<rparr>"]
  by (auto simp: ex_session_def)

end
