(* ===== verification/AgentReplySpec.thy ===== *)
theory AgentReplySpec
  imports AgentReply AgentSet
begin

text \<open>
  What the agent's answers satisfy: the order, the end and the size of the answers to a GETBULK, the range of the
  results of GETNEXT, and the translation for SNMPv1.
\<close>

section \<open>Positions in the answer\<close>

lemma matrix_inj:
  assumes "i * R + j = i' * R + j'" "j < R" "j' < (R :: nat)"
  shows "i = i' \<and> j = j'"
proof -
  have "(i * R + j) div R = i" "(i' * R + j') div R = i'" "(i * R + j) mod R = j" "(i' * R + j') mod R = j'"
    using assms(2,3) by simp_all
  then show ?thesis using assms(1) by metis
qed

lemma matrix_less: "i < r \<Longrightarrow> j < R \<Longrightarrow> i * R + j < r * (R :: nat)"
proof -
  assume "i < r" "j < R"
  then have "Suc i * R \<le> r * R" by (intro mult_le_mono1) simp
  then have "i * R + R \<le> r * R" by simp
  then show ?thesis using \<open>j < R\<close> by linarith
qed

lemma fold_upd_hit:
  "\<exists>x \<in> set xs. k x = p \<Longrightarrow> \<forall>x \<in> set xs. k x = p \<longrightarrow> v x = y \<Longrightarrow> fold (\<lambda>x nx. nx(k x := v x)) xs nx p = y"
proof (induction xs rule: rev_induct)
  case (snoc x xs)
  then show ?case by (cases "k x = p") auto
qed simp

lemma fold_upd_miss: "\<forall>x \<in> set xs. k x \<noteq> p \<Longrightarrow> fold (\<lambda>x nx. nx(k x := v x)) xs nx p = nx p"
  by (induction xs arbitrary: nx) auto

lemma bulk_link_nth:
  assumes "i < r" "j < R"
  shows "bulk_link r R nx (i * R + j) =
    (if i < r - 1 then Some ((i + 1) * R + j) else if j < R - 1 then Some (j + 1) else nx (i * R + j))"
proof -
  define n1 where "n1 = fold (\<lambda>(i, j) nx. nx(i * R + j := Some ((i + 1) * R + j))) (List.product [0..<r - 1] [0..<R]) nx"
  have n1_fold: "n1 = fold (\<lambda>x nx. nx((case x of (i, j) \<Rightarrow> i * R + j) := (case x of (i, j) \<Rightarrow> Some ((i + 1) * R + j))))
      (List.product [0..<r - 1] [0..<R]) nx"
    unfolding n1_def by (rule fold_cong) auto
  have n1: "n1 (i * R + j) = (if i < r - 1 then Some ((i + 1) * R + j) else nx (i * R + j))"
  proof (cases "i < r - 1")
    case True
    have "n1 (i * R + j) = Some ((i + 1) * R + j)" unfolding n1_fold
    proof (rule fold_upd_hit)
      show "\<exists>x \<in> set (List.product [0..<r - 1] [0..<R]). (case x of (i, j) \<Rightarrow> i * R + j) = i * R + j"
        using True assms by (intro bexI [of _ "(i, j)"]) auto
      show "\<forall>x \<in> set (List.product [0..<r - 1] [0..<R]). (case x of (i, j) \<Rightarrow> i * R + j) = i * R + j \<longrightarrow>
          (case x of (i, j) \<Rightarrow> Some ((i + 1) * R + j)) = Some ((i + 1) * R + j)"
        using matrix_inj [OF _ _ assms(2)] by fastforce
    qed
    then show ?thesis using True by simp
  next
    case False
    have "n1 (i * R + j) = nx (i * R + j)" unfolding n1_fold
      by (rule fold_upd_miss) (use False matrix_inj [OF _ _ assms(2)] in fastforce)
    then show ?thesis using False by simp
  qed
  have l: "bulk_link r R nx = fold (\<lambda>j nx. nx((r - 1) * R + j := Some (j + 1))) [0..<R - 1] n1"
    by (simp add: bulk_link_def n1_def Let_def)
  show ?thesis
  proof (cases "i = r - 1 \<and> j < R - 1")
    case True
    then have "bulk_link r R nx (i * R + j) = Some (j + 1)" unfolding l by (intro fold_upd_hit) auto
    then show ?thesis using True by simp
  next
    case False
    have "bulk_link r R nx (i * R + j) = n1 (i * R + j)" unfolding l
    proof (rule fold_upd_miss, intro ballI notI)
      fix x assume "x \<in> set [0..<R - 1]" "(r - 1) * R + x = i * R + j"
      then have "r - 1 = i \<and> x = j" using assms(2) by (intro matrix_inj) auto
      then show False using False \<open>x \<in> set [0..<R - 1]\<close> by simp
    qed
    then show ?thesis using False n1 assms(1) by auto
  qed
qed

lemma follow_chain:
  "ps \<noteq> [] \<Longrightarrow> length ps \<le> fuel \<Longrightarrow> \<forall>k < length ps - 1. nx (ps ! k) = Some (ps ! (k + 1)) \<Longrightarrow> nx (last ps) = None
     \<Longrightarrow> follow nx fuel (hd ps) = ps"
proof (induction ps arbitrary: fuel)
  case (Cons p ps)
  obtain f where f: "fuel = Suc f" using Cons.prems(2) by (cases fuel) auto
  show ?case
  proof (cases ps)
    case Nil
    then show ?thesis using Cons.prems f by simp
  next
    case (Cons q qs)
    have "nx p = Some q" using Cons.prems(3) Cons by (metis One_nat_def add.commute diff_Suc_1 length_Cons nth_Cons_0 nth_Cons_Suc plus_1_eq_Suc zero_less_Suc)
    moreover have "follow nx f (hd ps) = ps"
    proof (rule Cons.IH)
      show "\<forall>k < length ps - 1. nx (ps ! k) = Some (ps ! (k + 1))"
      proof (intro allI impI)
        fix k assume "k < length ps - 1"
        then show "nx (ps ! k) = Some (ps ! (k + 1))" using Cons.prems(3) [rule_format, of "Suc k"] by simp
      qed
    qed (use Cons Cons.prems f in auto)
    ultimately show ?thesis using f Cons by simp
  qed
qed simp

text \<open>The answer by rows: its entry \<open>m\<close> is repetition \<open>m div r\<close> of repeater \<open>m mod r\<close>.\<close>

definition bulk_rows :: "nat \<Rightarrow> nat \<Rightarrow> nat \<Rightarrow> nat list" where
  "bulk_rows r repeats k = map (\<lambda>m. (m mod r) * repeats + m div r) [0..<k * r]"

lemma bulk_rows_follow:
  assumes "0 < r" "0 < k" "k \<le> R"
    and "\<And>i j. i < r \<Longrightarrow> j < k \<Longrightarrow> (i, j) \<noteq> (r - 1, k - 1) \<Longrightarrow>
      nx (i * R + j) = (if i < r - 1 then Some ((i + 1) * R + j) else Some (j + 1))"
    and "nx ((r - 1) * R + (k - 1)) = None"
  shows "follow nx (r * R) 0 = bulk_rows r R k"
proof -
  let ?ps = "bulk_rows r R k"
  have len: "length ?ps = k * r" by (simp add: bulk_rows_def)
  have nth: "?ps ! m = (m mod r) * R + m div r" if "m < k * r" for m using that by (simp add: bulk_rows_def)
  have pos: "0 < k * r" using assms by simp
  have lastm: "(k * r - 1) mod r = r - 1 \<and> (k * r - 1) div r = k - 1"
  proof -
    have "k * r - 1 = (k - 1) * r + (r - 1)" using assms(1,2) by (cases k) simp_all
    moreover have "((k - 1) * r + (r - 1)) mod r = r - 1" "((k - 1) * r + (r - 1)) div r = k - 1"
      using assms(1) by (simp_all only: mod_mult_self3 div_mult_self3 mod_less div_less diff_less zero_less_one add_0_right neq0_conv not_gr_zero)
    ultimately show ?thesis by simp
  qed
  have "follow nx (r * R) (hd ?ps) = ?ps"
  proof (rule follow_chain)
    show "?ps \<noteq> []" using pos len by auto
    show "length ?ps \<le> r * R" unfolding len using assms(3) by (simp add: mult.commute)
    show "nx (last ?ps) = None" using pos len assms(5) lastm by (simp add: last_conv_nth nth flip: length_greater_0_conv)
    show "\<forall>m < length ?ps - 1. nx (?ps ! m) = Some (?ps ! (m + 1))"
    proof (intro allI impI)
      fix m assume "m < length ?ps - 1"
      then have m: "m < k * r" "m + 1 < k * r" using len by simp_all
      have j: "m div r < k" using m(1) by (simp add: less_mult_imp_div_less)
      have i: "m mod r < r" using assms(1) by simp
      have ne: "(m mod r, m div r) \<noteq> (r - 1, k - 1)"
      proof
        assume "(m mod r, m div r) = (r - 1, k - 1)"
        then have "m = (k - 1) * r + (r - 1)" using div_mult_mod_eq [of m r] by simp
        then have "m = k * r - 1" using assms(1,2) by (cases k) simp_all
        then show False using m(2) by simp
      qed
      have "nx (?ps ! m) = (if m mod r < r - 1 then Some ((m mod r + 1) * R + m div r) else Some (m div r + 1))"
        unfolding nth [OF m(1)] using assms(4) [OF i j ne] .
      also have "\<dots> = Some (?ps ! (m + 1))" unfolding nth [OF m(2)]
        using i by (auto simp: mod_Suc div_Suc)
      finally show "nx (?ps ! m) = Some (?ps ! (m + 1))" .
    qed
  qed
  moreover have "hd ?ps = 0" using nth [of 0] pos len by (simp add: hd_conv_nth flip: length_greater_0_conv)
  ultimately show ?thesis by simp
qed

section \<open>Cutting off the answer\<close>

text \<open>A full row of \<open>endOfMibView\<close>: the comment in \<open>_reorder_getbulk\<close> has the answer end after the first one.\<close>

definition row_end :: "varbind list \<Rightarrow> nat \<Rightarrow> nat \<Rightarrow> nat \<Rightarrow> bool" where
  "row_end cache r repeats i \<longleftrightarrow> (\<forall>c < r. vb_type (cache ! (c * repeats + i)) = SNMP_ENDOFMIBVIEW)"

text \<open>A row in which, of two columns or more, the last one alone has not ended.\<close>

definition only_last_left :: "varbind list \<Rightarrow> nat \<Rightarrow> nat \<Rightarrow> nat \<Rightarrow> bool" where
  "only_last_left cache r repeats i \<longleftrightarrow> 1 < r \<and> (\<forall>c < r - 1. vb_type (cache ! (c * repeats + i)) = SNMP_ENDOFMIBVIEW)
     \<and> vb_type (cache ! ((r - 1) * repeats + i)) \<noteq> SNMP_ENDOFMIBVIEW"

text \<open>The test of the code: it looks at all variables of the row but the last (and at the first, if there is only one).\<close>

definition row_tested :: "varbind list \<Rightarrow> nat \<Rightarrow> nat \<Rightarrow> nat \<Rightarrow> bool" where
  "row_tested cache r repeats i \<longleftrightarrow> vb_type (cache ! i) = SNMP_ENDOFMIBVIEW
     \<and> (\<forall>c < r - 1. vb_type (cache ! (c * repeats + i)) = SNMP_ENDOFMIBVIEW)"

lemma row_tested_iff:
  assumes "0 < r"
  shows "row_tested cache r repeats i \<longleftrightarrow> row_end cache r repeats i \<or> only_last_left cache r repeats i"
proof -
  have "(\<forall>c < r. P c) \<longleftrightarrow> (\<forall>c < r - 1. P c) \<and> P (r - 1)" for P :: "nat \<Rightarrow> bool"
    using assms by (metis Suc_pred' less_Suc_eq)
  note all = this [of "\<lambda>c. vb_type (cache ! (c * repeats + i)) = SNMP_ENDOFMIBVIEW"]
  show ?thesis
  proof (cases "r = 1")
    case False
    then have "0 < r - 1" "1 < r" using assms by simp_all
    then show ?thesis unfolding row_tested_def row_end_def only_last_left_def all by force
  qed (auto simp: row_tested_def row_end_def only_last_left_def)
qed

text \<open>The number of rows up to and including the first full row of \<open>endOfMibView\<close>, or all.\<close>

definition rows_to_end :: "varbind list \<Rightarrow> nat \<Rightarrow> nat \<Rightarrow> nat" where
  "rows_to_end cache r repeats = (case find (row_end cache r repeats) [0..<repeats] of None \<Rightarrow> repeats | Some i \<Rightarrow> i + 1)"

lemma find_upt_mono:
  assumes "\<And>i. i < n \<Longrightarrow> P i \<Longrightarrow> Q i"
  shows "(case find Q [0..<n] of None \<Rightarrow> n | Some i \<Rightarrow> i + 1) \<le> (case find P [0..<n] of None \<Rightarrow> n | Some i \<Rightarrow> i + 1)"
proof (cases "find P [0..<n]")
  case None
  then show ?thesis by (auto simp: find_Some_iff split: option.splits)
next
  case (Some i)
  then have i: "i < n" "P i" by (auto simp: find_Some_iff)
  then obtain j where j: "find Q [0..<n] = Some j" using assms [OF i] by (cases "find Q [0..<n]") (auto simp: find_None_iff)
  have "\<not> i < j" using j assms [OF i] i by (auto simp: find_Some_iff)
  then show ?thesis using Some j by simp
qed

lemma find_upt_cong: "(\<And>i. i < n \<Longrightarrow> P i = Q i) \<Longrightarrow> find P [0..<n] = find Q [0..<n]"
  by (rule find_cong) auto

lemma eomib_row_eq:
  assumes "\<And>c. c < r - 1 \<Longrightarrow> nx (c * R + i) = Some ((c + 1) * R + i)" "c + left = r - 1"
  shows "fst (eomib_row cache nx left (c * R + i)) = (\<forall>c'. c \<le> c' \<and> c' < r - 1 \<longrightarrow> vb_type (cache ! (c' * R + i)) = SNMP_ENDOFMIBVIEW)"
    "fst (eomib_row cache nx left (c * R + i)) \<Longrightarrow> snd (eomib_row cache nx left (c * R + i)) = (r - 1) * R + i"
  using assms(2)
proof (induction left arbitrary: c)
  case 0
  { case 1 then show ?case by auto }
  { case 2 then show ?case by simp }
next
  case (Suc left)
  have split: "(\<forall>c'. c \<le> c' \<and> c' < r - 1 \<longrightarrow> P c') \<longleftrightarrow> P c \<and> (\<forall>c'. c + 1 \<le> c' \<and> c' < r - 1 \<longrightarrow> P c')" if "c < r - 1" for P and c :: nat
    using that by (metis Suc_eq_plus1 Suc_leD Suc_leI le_neq_implies_less order_refl)
  { case 1
    have n: "nx (c * R + i) = Some ((c + 1) * R + i)" using 1 assms(1) by simp
    have ih: "fst (eomib_row cache nx left ((c + 1) * R + i)) = (\<forall>c'. c + 1 \<le> c' \<and> c' < r - 1 \<longrightarrow> vb_type (cache ! (c' * R + i)) = SNMP_ENDOFMIBVIEW)"
      by (rule Suc.IH(1)) (use 1 in simp)
    have lt: "c < r - 1" using 1 by simp
    show ?case unfolding split [OF lt] by (simp add: n ih [simplified]) }
  { case 2
    have n: "nx (c * R + i) = Some ((c + 1) * R + i)" using 2 assms(1) by simp
    have "fst (eomib_row cache nx left ((c + 1) * R + i))" "vb_type (cache ! (c * R + i)) = SNMP_ENDOFMIBVIEW"
      using 2(1) by (simp_all add: n split: if_splits)
    then show ?case using Suc.IH(2) [of "c + 1"] 2 by (simp add: n) }
qed

lemma bulk_truncate_eq:
  assumes "\<And>c i. c < r - 1 \<Longrightarrow> i \<in> set is \<Longrightarrow> nx (c * R + i) = Some ((c + 1) * R + i)"
  shows "bulk_truncate cache r is nx = (case find (row_tested cache r R) is of None \<Rightarrow> nx | Some i \<Rightarrow> nx((r - 1) * R + i := None))"
  using assms
proof (induction "is")
  case (Cons i "is")
  have e: "fst (eomib_row cache nx (r - 1) (0 * R + i)) = (\<forall>c'. 0 \<le> c' \<and> c' < r - 1 \<longrightarrow> vb_type (cache ! (c' * R + i)) = SNMP_ENDOFMIBVIEW)"
    "fst (eomib_row cache nx (r - 1) (0 * R + i)) \<Longrightarrow> snd (eomib_row cache nx (r - 1) (0 * R + i)) = (r - 1) * R + i"
    by (rule eomib_row_eq; use Cons.prems in simp)+
  obtain a p where w: "eomib_row cache nx (r - 1) i = (a, p)" by (metis surj_pair)
  have cut: "a \<longleftrightarrow> (\<forall>c < r - 1. vb_type (cache ! (c * R + i)) = SNMP_ENDOFMIBVIEW)" "a \<Longrightarrow> p = (r - 1) * R + i"
    using e unfolding w mult_0 add_0 by auto
  have ih: "bulk_truncate cache r is nx = (case find (row_tested cache r R) is of None \<Rightarrow> nx | Some i \<Rightarrow> nx((r - 1) * R + i := None))"
    by (rule Cons.IH) (use Cons.prems in simp)
  show ?case
  proof (cases "row_tested cache r R i")
    case True
    then have "vb_type (cache ! i) = SNMP_ENDOFMIBVIEW" "a" "p = (r - 1) * R + i" using cut by (simp_all add: row_tested_def)
    then show ?thesis using True by (simp add: w [unfolded One_nat_def])
  next
    case False
    then have "bulk_truncate cache r (i # is) nx = bulk_truncate cache r is nx" using cut(1) by (auto simp: w [unfolded One_nat_def] row_tested_def)
    then show ?thesis using False ih by simp
  qed
qed simp


section \<open>The names at the end of a column\<close>

lemma fix_column_length [simp]: "length (fix_column orig prev xs) = length xs"
  by (induction xs arbitrary: prev) (simp_all add: Let_def)

lemma fix_column_nth:
  "j < length xs \<Longrightarrow> fix_column orig prev xs ! j =
    (let before = (if j = 0 then prev else Some (fix_column orig prev xs ! (j - 1))) in
     if vb_name (xs ! j) = [] \<or> vb_type (xs ! j) = SNMP_ENDOFMIBVIEW then
       (case (if before = None then orig else before) of None \<Rightarrow> xs ! j
        | Some p \<Rightarrow> (xs ! j)\<lparr>vb_name := vb_name p, vb_type := SNMP_ENDOFMIBVIEW, vb_val := []\<rparr>)
     else xs ! j)"
proof (induction xs arbitrary: prev j)
  case (Cons x xs)
  show ?case
  proof (cases j)
    case 0
    show ?thesis unfolding 0 by (simp add: Let_def split: option.splits)
  next
    case (Suc k)
    define y where "y = hd (fix_column orig prev (x # xs))"
    have y: "fix_column orig prev (x # xs) = y # fix_column orig (Some y) xs" by (simp add: y_def Let_def)
    have k: "k < length xs" using Cons.prems Suc by simp
    show ?thesis unfolding y Suc using Cons.IH [OF k, of "Some y"] by (cases k) (simp_all add: Let_def)
  qed
qed simp

lemma concat_nth_matrix:
  "\<forall>i < r. length (f i) = R \<Longrightarrow> i < r \<Longrightarrow> j < R \<Longrightarrow> concat (map f [0..<r]) ! (i * R + j) = f i ! j"
proof (induction r)
  case (Suc r)
  have len: "length (concat (map f [0..<r])) = r * R"
  proof -
    have "\<forall>i < r. length (f i) = R" using Suc.prems(1) by simp
    then show ?thesis by (induction r) (simp_all add: add.commute)
  qed
  show ?case
  proof (cases "i = r")
    case True
    then show ?thesis using len by (simp add: nth_append)
  next
    case False
    then have "i * R + j < length (concat (map f [0..<r]))" using Suc.prems(2,3) len matrix_less [of i r j R] by simp
    then show ?thesis using False Suc by (simp add: nth_append)
  qed
qed simp

lemma bulk_fix_nth:
  assumes "length cache = r * R" "i < r" "j < R"
  shows "bulk_fix r R orig cache ! (i * R + j) =
    fix_column (if i < length orig then Some (orig ! i) else None) None (take R (drop (i * R) cache)) ! j"
  unfolding bulk_fix_def
proof (rule concat_nth_matrix [OF _ assms(2,3)], intro allI impI)
  fix i' assume "i' < r"
  then have "Suc i' * R \<le> r * R" by (intro mult_le_mono1) simp
  then show "length (fix_column (if i' < length orig then Some (orig ! i') else None) None (take R (drop (i' * R) cache))) = R"
    using assms(1) by simp
qed

section \<open>Properties\<close>

lemma getbulk_rows_tested:
  assumes "0 < vbcount - errstat" "0 < repeats" "length cache = (vbcount - errstat) * repeats"
    "nx ((vbcount - errstat) * repeats - 1) = None"
    and "reorder_getbulk vbcount errstat repeats orig cache nx = (cache', nx')"
  shows "follow nx' (length cache) 0 =
    bulk_rows (vbcount - errstat) repeats
      (case find (row_tested cache' (vbcount - errstat) repeats) [0..<repeats] of None \<Rightarrow> repeats | Some i \<Rightarrow> i + 1)"
proof -
  let ?r = "vbcount - errstat" and ?l = "bulk_link (vbcount - errstat) repeats nx"
  have r: "(if errstat < vbcount then errstat else vbcount) = errstat" using assms(1) by simp
  have nx': "nx' = bulk_truncate cache' ?r [0..<repeats] ?l" and vb: "vbcount \<noteq> 0"
    using assms(1,5) by (auto simp: reorder_getbulk_def r Let_def)
  have link: "i < ?r \<Longrightarrow> j < repeats \<Longrightarrow> ?l (i * repeats + j)
      = (if i < ?r - 1 then Some ((i + 1) * repeats + j) else if j < repeats - 1 then Some (j + 1) else nx (i * repeats + j))" for i j
    by (rule bulk_link_nth)
  have trunc: "nx' = (case find (row_tested cache' ?r repeats) [0..<repeats] of None \<Rightarrow> ?l | Some i \<Rightarrow> ?l((?r - 1) * repeats + i := None))"
    unfolding nx' by (rule bulk_truncate_eq) (use link in simp)
  have len: "length cache = ?r * repeats" by fact
  show ?thesis
  proof (cases "find (row_tested cache' ?r repeats) [0..<repeats]")
    case None
    have "?r * repeats - 1 = (?r - 1) * repeats + (repeats - 1)" using assms(1,2) by (cases ?r) simp_all
    then have "?l ((?r - 1) * repeats + (repeats - 1)) = None" using link [of "?r - 1" "repeats - 1"] assms(1,2,4) by simp
    then have "follow ?l (?r * repeats) 0 = bulk_rows ?r repeats repeats"
      by (intro bulk_rows_follow) (use assms(1,2) link in auto)
    then show ?thesis using None trunc len by simp
  next
    case (Some i)
    then have i: "i < repeats" by (auto simp: find_Some_iff)
    have ne: "(a, b) \<noteq> (?r - 1, i) \<Longrightarrow> b < repeats \<Longrightarrow> a * repeats + b \<noteq> (?r - 1) * repeats + i" for a b
      using matrix_inj [OF _ _ i] by blast
    have "follow nx' (?r * repeats) 0 = bulk_rows ?r repeats (i + 1)"
    proof (rule bulk_rows_follow)
      fix a b assume "a < ?r" "b < i + 1" "(a, b) \<noteq> (?r - 1, i + 1 - 1)"
      then show "nx' (a * repeats + b) = (if a < ?r - 1 then Some ((a + 1) * repeats + b) else Some (b + 1))"
        using trunc Some link [of a b] ne [of a b] i by auto
    qed (use assms(1) i trunc Some in auto)
    then show ?thesis using Some len by simp
  qed
qed

text \<open>
  C24. The answers of a GETBULK are sent row by row, up to the end of the MIB view: following the links that
  \<open>_reorder_getbulk\<close> makes from the first entry gives whole rows, as entry \<open>m\<close> repetition \<open>m div r\<close> of repeater
  \<open>m mod r\<close>; no row comes after the first full row of \<open>endOfMibView\<close>; and when there is no row in which the last column alone
  has not ended, the answer ends exactly with that row, or has all rows when there is none. In such a row the code
  does end the answer, though it is not a full one (\<open>getbulk_cuts_last_column\<close>).
\<close>

theorem getbulk_rows:
  assumes "0 < vbcount - errstat" "0 < repeats" "length cache = (vbcount - errstat) * repeats"
    "nx ((vbcount - errstat) * repeats - 1) = None"
    and "reorder_getbulk vbcount errstat repeats orig cache nx = (cache', nx')"
  shows "\<exists>k. 0 < k \<and> k \<le> rows_to_end cache' (vbcount - errstat) repeats
    \<and> follow nx' (length cache) 0 = bulk_rows (vbcount - errstat) repeats k
    \<and> ((\<forall>i < repeats. \<not> only_last_left cache' (vbcount - errstat) repeats i)
         \<longrightarrow> k = rows_to_end cache' (vbcount - errstat) repeats)"
proof -
  let ?r = "vbcount - errstat"
  let ?k = "case find (row_tested cache' ?r repeats) [0..<repeats] of None \<Rightarrow> repeats | Some i \<Rightarrow> i + 1"
  note iff = row_tested_iff [OF assms(1), of cache' repeats]
  have "?k \<le> rows_to_end cache' ?r repeats" unfolding rows_to_end_def by (rule find_upt_mono) (use iff in blast)
  moreover have "?k = rows_to_end cache' ?r repeats" if "\<forall>i < repeats. \<not> only_last_left cache' ?r repeats i"
  proof -
    have "find (row_tested cache' ?r repeats) [0..<repeats] = find (row_end cache' ?r repeats) [0..<repeats]"
      by (rule find_upt_cong) (use iff that in blast)
    then show ?thesis by (simp add: rows_to_end_def)
  qed
  moreover have "0 < ?k" using assms(2) by (auto split: option.splits)
  ultimately show ?thesis using getbulk_rows_tested [OF assms] by blast
qed

definition ex_var :: "oid \<Rightarrow> int \<Rightarrow> varbind" where
  "ex_var name t = \<lparr>vb_name = name, vb_type = t, vb_val = []\<rparr>"

theorem getbulk_rows_witness:
  "follow (snd (reorder_getbulk 3 1 2 [ex_var [1] 5, ex_var [2] 5, ex_var [3] 5]
      [ex_var [2, 1] 2, ex_var [2, 2] 2, ex_var [3, 1] 2, ex_var [3, 2] 2] (\<lambda>p. if p < 3 then Some (p + 1) else None)))
    (length [ex_var [2, 1] 2, ex_var [2, 2] 2, ex_var [3, 1] 2, ex_var [3, 2] 2]) 0 = [0, 2, 1, 3]"
proof -
  let ?c = "[ex_var [2, 1] 2, ex_var [2, 2] 2, ex_var [3, 1] 2, ex_var [3, 2] 2]"
  let ?o = "[ex_var [1] 5, ex_var [2] 5, ex_var [3] 5]" and ?n = "\<lambda>p. if p < 3 then Some (p + 1) else None"
  have c: "fst (reorder_getbulk 3 1 2 ?o ?c ?n) = ?c"
    by (simp add: reorder_getbulk_def bulk_fix_def ex_var_def upt_rec)
  have f: "rows_to_end ?c (3 - 1) 2 = 2" "\<forall>i < 2. \<not> only_last_left ?c (3 - 1) 2 i"
  proof -
    have t: "vb_type (?c ! i) = 2" if "i < 2" for i using that by (cases i) (auto simp: ex_var_def less_Suc_eq)
    have "\<not> row_end ?c (3 - 1) 2 i" if "i < 2" for i using t [OF that] by (auto simp: row_end_def intro!: exI [of _ 0])
    then have "find (row_end ?c (3 - 1) 2) [0..<2] = None" by (auto simp: find_None_iff)
    then show "rows_to_end ?c (3 - 1) 2 = 2" by (simp add: rows_to_end_def)
    show "\<forall>i < 2. \<not> only_last_left ?c (3 - 1) 2 i" using t by (auto simp: only_last_left_def intro!: exI [of _ 0])
  qed
  have "\<exists>k. 0 < k \<and> k \<le> rows_to_end (fst (reorder_getbulk 3 1 2 ?o ?c ?n)) (3 - 1) 2
    \<and> follow (snd (reorder_getbulk 3 1 2 ?o ?c ?n)) (length ?c) 0 = bulk_rows (3 - 1) 2 k
    \<and> ((\<forall>i < 2. \<not> only_last_left (fst (reorder_getbulk 3 1 2 ?o ?c ?n)) (3 - 1) 2 i)
         \<longrightarrow> k = rows_to_end (fst (reorder_getbulk 3 1 2 ?o ?c ?n)) (3 - 1) 2)"
    by (rule getbulk_rows [OF _ _ _ _ prod.collapse [symmetric]]) simp_all
  then have "follow (snd (reorder_getbulk 3 1 2 ?o ?c ?n)) (length ?c) 0 = bulk_rows (3 - 1) 2 2" unfolding c f(1) using f(2) by blast
  then show ?thesis by (simp add: bulk_rows_def upt_rec)
qed

text \<open>
  The names at the end of a column: \<open>_reorder_getbulk\<close> leaves every answer with a name and a value, and
  turns every other entry into \<open>endOfMibView\<close> with the name of the entry before it in its column, or for the
  first repetition of repeater \<open>i\<close> with the name of variable \<open>i\<close> of the request.
\<close>

theorem getbulk_end_names:
  assumes "length cache = (vbcount - errstat) * repeats" "length orig = vbcount"
    "i < vbcount - errstat" "j < repeats"
    and "reorder_getbulk vbcount errstat repeats orig cache nx = (cache', nx')"
  shows "let cell = cache ! (i * repeats + j); cell' = cache' ! (i * repeats + j) in
    if vb_name cell \<noteq> [] \<and> vb_type cell \<noteq> SNMP_ENDOFMIBVIEW then cell' = cell
    else vb_type cell' = SNMP_ENDOFMIBVIEW
      \<and> vb_name cell' = vb_name (if j = 0 then orig ! i else cache' ! (i * repeats + (j - 1)))"
proof -
  let ?r = "vbcount - errstat"
  let ?col = "take repeats (drop (i * repeats) cache)"
  let ?f = "fix_column (Some (orig ! i)) None ?col"
  have "errstat < vbcount" "vbcount \<noteq> 0" "vbcount - errstat \<noteq> 0" using assms(3) by arith+
  then have "cache' = bulk_fix ?r repeats orig cache" using assms(5) by (simp add: reorder_getbulk_def Let_def)
  then have c: "k < repeats \<Longrightarrow> cache' ! (i * repeats + k) = ?f ! k" for k
    using bulk_fix_nth [OF assms(1,3)] assms(2,3) by simp
  have "Suc i * repeats \<le> ?r * repeats" using assms(3) by (intro mult_le_mono1) simp
  then have h: "repeats + i * repeats \<le> length cache" unfolding assms(1) by simp
  from add_leD2 [OF h] h have l: "length ?col = repeats" "?col ! j = cache ! (i * repeats + j)"
    using assms(1,4) by simp_all
  show ?thesis
    using fix_column_nth [of j ?col "Some (orig ! i)" None] c [OF assms(4)] c [of "j - 1"] l assms(4)
    by (auto simp: Let_def)
qed

theorem getbulk_end_names_witness:
  "vb_name (fst (reorder_getbulk 2 1 1 [ex_var [1] 5, ex_var [2] 5] [ex_var [] 5] (\<lambda>p. None)) ! (0 * 1 + 0)) = [1]"
  using getbulk_end_names [of "[ex_var [] 5]" 2 1 1 "[ex_var [1] 5, ex_var [2] 5]" 0 0 "\<lambda>p. None", OF _ _ _ _ prod.collapse [symmetric]]
  by (simp add: ex_var_def Let_def)

text \<open>
  So with non-repeaters the name is that of another variable: the repeater of this request asked for \<open>[2]\<close>,
  its \<open>endOfMibView\<close> answer carries the name \<open>[1]\<close> of the non-repeater. And the test for the end cuts off
  values of the last column: the row of the second example still has a value in its last column.
\<close>

lemma getbulk_wrong_request_name:
  "map vb_name (fst (reorder_getbulk 2 1 1 [ex_var [1] 5, ex_var [2] 5] [ex_var [] 5] (\<lambda>p. None))) = [[1]]"
  by (simp add: reorder_getbulk_def bulk_fix_def ex_var_def)

lemma getbulk_cuts_last_column:
  "let (cache, nx) = reorder_getbulk 2 0 2 [ex_var [1] 5, ex_var [2] 5]
      [ex_var [1] 0x82, ex_var [1] 0x82, ex_var [2, 1] 2, ex_var [2, 2] 2] (\<lambda>p. if p < 3 then Some (p + 1) else None)
   in map (\<lambda>p. vb_name (cache ! p)) (follow nx 4 0) = [[1], [2, 1]]"
  by (simp add: reorder_getbulk_def bulk_fix_def bulk_link_def ex_var_def upt_rec Let_def eval_nat_numeral)

lemma sdiv_nonneg: "0 \<le> a \<Longrightarrow> 0 < b \<Longrightarrow> a sdiv b = a div (b :: int)"
  by (cases "a = 0") (simp_all add: signed_divide_int_def sgn_if)

lemma mult_div_le: "0 < b \<Longrightarrow> x \<le> a div b \<Longrightarrow> b * x \<le> (a :: int)"
  by (metis mult.commute mult_left_mono order_less_imp_le order_trans pos_mod_sign minus_mod_eq_mult_div diff_ge_0_iff_ge minus_mod_eq_div_mult le_diff_eq add_le_same_cancel2 diff_le_eq le_add_same_cancel1)

text \<open>
  The bounds of a GETBULK: for a non-negative maximal message size, the numbers of non-repeaters, repeaters
  and repetitions are not negative, non-repeaters and repeaters add up to the variables, the repetitions are
  at most those asked for, and the answers of the repeaters are at most the limit on responses, at most
  \<open>INT_MAX\<close> by the size of a pointer, and at most the message size divided by that of an average variable.
\<close>

theorem getbulk_bounds:
  assumes "0 \<le> msgMaxSize" "0 \<le> cnt" "bulk_prep errstat errindex cnt msgMaxSize maxbulk maxresponses avgvarbind = (n, r, reps)"
  shows "0 \<le> n \<and> 0 \<le> r \<and> 0 \<le> reps \<and> n + r = cnt \<and> reps \<le> max 0 errindex
    \<and> (0 < r \<longrightarrow> r * reps \<le> 268435455 \<and> r * reps * (if avgvarbind \<le> 0 then 15 else avgvarbind) \<le> msgMaxSize
        \<and> (0 < maxresponses \<longrightarrow> r * reps \<le> maxresponses) \<and> (0 < maxbulk \<longrightarrow> reps \<le> maxbulk))"
proof (cases "0 < r")
  case False
  then show ?thesis using assms by (auto simp: bulk_prep_def Let_def split: if_splits)
next
  case True
  define e0 where "e0 = (if errindex < 0 then 0 else errindex)"
  define M where "M = (if maxresponses = 0 then 100 else maxresponses)"
  define M' where "M' = (if M < 0 \<or> M > 268435455 then 268435455 else M)"
  define a where "a = (if avgvarbind \<le> 0 then 15 else avgvarbind)"
  define R where "R = (if M' > msgMaxSize sdiv a then msgMaxSize sdiv a else M')"
  define b where "b = (if maxbulk \<le> 0 \<or> maxbulk > R sdiv r then R sdiv r else maxbulk)"
  have nr: "n = (if (if errstat < 0 then 0 else errstat) < cnt then (if errstat < 0 then 0 else errstat) else cnt)" "r = cnt - n"
    and reps: "reps = (if e0 > b then b else e0)"
    using assms(3) True unfolding bulk_prep_def Let_def e0_def M_def M'_def a_def R_def b_def
    by (auto split: if_splits)
  have a: "0 < a" by (simp add: a_def)
  have q: "msgMaxSize sdiv a = msgMaxSize div a" "0 \<le> msgMaxSize div a"
    using assms(1) a by (simp_all add: sdiv_nonneg pos_imp_zdiv_nonneg_iff)
  have M': "0 \<le> M'" "M' \<le> 268435455" "0 < maxresponses \<Longrightarrow> M' \<le> maxresponses" by (auto simp: M'_def M_def)
  have R: "0 \<le> R" "R \<le> M'" "R \<le> msgMaxSize div a" using q M'(1) by (auto simp: R_def)
  have b: "0 \<le> b" "b \<le> R div r" "0 < maxbulk \<Longrightarrow> b \<le> maxbulk"
    using R(1) True by (auto simp: b_def sdiv_nonneg pos_imp_zdiv_nonneg_iff)
  have rb: "0 \<le> reps" "reps \<le> b" "reps \<le> e0" using b(1) reps by (auto simp: e0_def)
  have rr: "r * reps \<le> R" using rb b(2) True by (intro mult_div_le) simp_all
  have "r * reps * a \<le> msgMaxSize" using mult_div_le [OF a, of "r * reps" msgMaxSize] rr R(3) by (simp add: mult.commute)
  then show ?thesis using rr R M' rb b nr True assms(2) by (auto simp: a_def e0_def split: if_splits)
qed

theorem getbulk_bounds_witness:
  "case bulk_prep 1 1000 3 1500 0 0 0 of (n, r, reps) \<Rightarrow> n + r = 3 \<and> r * reps \<le> 268435455"
proof -
  obtain n r reps where b: "bulk_prep 1 1000 3 1500 0 0 0 = (n, r, reps)" by (metis prod_cases3)
  then have "r = 2" by (auto simp: bulk_prep_def Let_def split: if_splits)
  then show ?thesis using getbulk_bounds [OF _ _ b] b by simp
qed



text \<open>
  The translation for an SNMPv1 manager in \<open>netsnmp_wrap_up_request\<close>. For a SET whose statuses are errors of SNMPv2
  (0 to 18) the status that is reported is one of version 1 (0 to 5). For any other request with no error index
  yet, a status of 0 in the response means that it carries no exception and no 64-bit counter. Nothing is claimed of the
  status of a request other than a SET: the code does not translate it, and lets errors of SNMPv2 through
  (\<open>v1_get_error_untranslated\<close>).
\<close>

theorem v1_no_new_errors:
  assumes "0 \<le> as_st" "as_st \<le> 18" "0 \<le> status" "status \<le> 18"
  shows "(case v1_translate True True vars status as_st as_idx of (st, as_st', _) \<Rightarrow> st \<in> {0..5} \<and> as_st' = st)
    \<and> (as_idx < 1 \<longrightarrow> fst (v1_translate False True vars status as_st as_idx) = SNMP_ERR_NOERROR \<longrightarrow>
        (\<forall>v \<in> set vars. vb_type v \<notin> {SNMP_NOSUCHOBJECT, SNMP_NOSUCHINSTANCE, SNMP_ENDOFMIBVIEW, ASN_COUNTER64_t}))"
proof -
  have map: "v1_set_status s \<in> {0..5}" if "0 \<le> s" "s \<le> 18" for s :: int
  proof -
    have "s \<in> {0,1,2,3,4,5,6,7,8,9,10,11,12,13,14,15,16,17,18}"
      using that unfolding insert_iff empty_iff by presburger
    then show ?thesis by (elim insertE emptyE; simp add: v1_set_status_def)
  qed
  have exc: "fst (v1_exceptions vs i st) = 0 \<Longrightarrow> fst st = 0
      \<and> (\<forall>v \<in> set vs. vb_type v \<notin> {SNMP_NOSUCHOBJECT, SNMP_NOSUCHINSTANCE, SNMP_ENDOFMIBVIEW, ASN_COUNTER64_t})" for vs i st
  proof (induction vs arbitrary: i st)
    case (Cons v vs)
    show ?case
    proof (cases "vb_type v \<in> {SNMP_NOSUCHOBJECT, SNMP_NOSUCHINSTANCE, SNMP_ENDOFMIBVIEW, ASN_COUNTER64_t}")
      case True
      then show ?thesis using Cons.IH [of "i + 1" "(2, 2, i)"] Cons.prems by simp
    next
      case False
      then have "v1_exceptions (v # vs) i st = v1_exceptions vs (i + 1) st" by simp
      then show ?thesis using Cons.IH [of "i + 1" st] Cons.prems False by simp
    qed
  qed simp
  have "case v1_translate True True vars status as_st as_idx of (st, as_st', _) \<Rightarrow> st \<in> {0..5} \<and> as_st' = st"
  proof -
    define s where "s = (if status \<noteq> 0 \<and> as_st = 0 then status else as_st)"
    have "v1_set_status s \<in> {0..5}" using map [of s] assms by (auto simp: s_def)
    then show ?thesis unfolding v1_translate_def s_def [symmetric] Let_def
      by (cases "v1_set_status s = s") simp_all
  qed
  moreover have "as_idx < 1 \<Longrightarrow> fst (v1_translate False True vars status as_st as_idx) = SNMP_ERR_NOERROR \<Longrightarrow>
        (\<forall>v \<in> set vars. vb_type v \<notin> {SNMP_NOSUCHOBJECT, SNMP_NOSUCHINSTANCE, SNMP_ENDOFMIBVIEW, ASN_COUNTER64_t})"
    unfolding v1_translate_def Let_def using exc by auto
  ultimately show ?thesis by blast
qed

theorem v1_no_new_errors_witness:
  "fst (v1_translate True True [] 17 0 0) \<in> {0..5}"
  using v1_no_new_errors [of 0 17 "[]" 0] by (auto split: prod.splits)

text \<open>A GET that ends with \<open>inconsistentValue\<close> (12), an error version 1 does not have, is answered with it.\<close>

lemma v1_get_error_untranslated: "fst (v1_translate False True [] 12 0 0) = 12"
  by (simp add: v1_translate_def)

end
