(* ===== verification/AgentQueue.thy ===== *)
theory AgentQueue
  imports Prelude "HOL-Library.Multiset"
begin

text \<open>
  The scheduling of requests in \<^verbatim>\<open>agent/snmp_agent.c\<close>: requests whose handlers delegated work wait on
  \<open>agent_delegated_list\<close>, requests that arrive while a SET is processed wait on
  \<open>netsnmp_agent_queued_list\<close>, and \<open>netsnmp_processing_set\<close> is the SET that is processed or about to be.
  A request is a number; \<open>is_set\<close> tells the SETs (\<open>pdu->command == SNMP_MSG_SET\<close>). What the handlers do is
  given by predicates: \<open>out r\<close> says that requests of \<open>r\<close> are delegated after the handlers of \<open>r\<close> ran
  (\<open>netsnmp_check_for_delegated\<close>), \<open>finished r\<close> that the delegated ones have been answered, and \<open>res r\<close> is the status that
  the handlers leave in \<open>asp->status\<close> together with the status that \<open>handle_pdu\<close> returns. \<open>ag_status\<close> holds \<open>asp->status\<close> of every
  request. The last component of the state is a log of the requests that were started or continued, latest first.
  Transaction ids are taken to be unique (\<open>netsnmp_check_transaction_id\<close>).
\<close>

record agent =
  ag_delegated :: "nat list"
  ag_queued :: "nat list"
  ag_set :: "nat option"
  ag_status :: "nat \<Rightarrow> int"
  ag_handled :: "nat list"

definition netsnmp_add_queued :: "nat \<Rightarrow> agent \<Rightarrow> agent" where
  "netsnmp_add_queued r st =
     (if r \<in> set (ag_queued st) then st else st\<lparr>ag_queued := ag_queued st @ [r]\<rparr>)"

definition netsnmp_check_delegated_chain_for :: "nat \<Rightarrow> agent \<Rightarrow> bool" where
  "netsnmp_check_delegated_chain_for r st \<longleftrightarrow> r \<in> set (ag_delegated st)"

definition netsnmp_check_for_delegated_and_add :: "(nat \<Rightarrow> bool) \<Rightarrow> nat \<Rightarrow> agent \<Rightarrow> bool \<times> agent" where
  "netsnmp_check_for_delegated_and_add out r st =
     (if out r
      then (True, if netsnmp_check_delegated_chain_for r st then st else st\<lparr>ag_delegated := r # ag_delegated st\<rparr>)
      else (False, st))"

text \<open>\<open>netsnmp_remove_from_delegated\<close>: the result tells whether the request was on the list.\<close>

definition netsnmp_remove_from_delegated :: "nat \<Rightarrow> agent \<Rightarrow> bool \<times> agent" where
  "netsnmp_remove_from_delegated r st =
     (if r \<in> set (ag_delegated st) then (True, st\<lparr>ag_delegated := remove1 r (ag_delegated st)\<rparr>) else (False, st))"

text \<open>
  The effect of \<open>netsnmp_wrap_up_request\<close> on the scheduling, and the status it takes over. (The
  translation of the status for SNMPv1 is in \<open>AgentReply\<close>.)
\<close>

definition netsnmp_wrap_up :: "nat \<Rightarrow> int \<Rightarrow> agent \<Rightarrow> agent" where
  "netsnmp_wrap_up r status st =
     (let st = (if ag_set st = Some r then st\<lparr>ag_set := None\<rparr> else st) in
      if status \<noteq> 0 \<and> ag_status st r = 0 then st\<lparr>ag_status := (ag_status st)(r := status)\<rparr> else st)"

text \<open>
  The end of \<open>netsnmp_handle_request\<close>: \<open>handle_pdu\<close> and what follows. When the request is delegated \<open>asp->status\<close> is
  overwritten with the status that \<open>handle_pdu\<close> returned.
\<close>

definition run_request :: "(nat \<Rightarrow> bool) \<Rightarrow> (nat \<Rightarrow> int \<times> int) \<Rightarrow> nat \<Rightarrow> agent \<Rightarrow> agent" where
  "run_request out res r st =
     (let (left, status) = res r;
          st = st\<lparr>ag_handled := r # ag_handled st, ag_status := (ag_status st)(r := left)\<rparr>;
          (delegated, st) = netsnmp_check_for_delegated_and_add out r st
      in if delegated then st\<lparr>ag_status := (ag_status st)(r := status)\<rparr> else netsnmp_wrap_up r status st)"

definition netsnmp_handle_request :: "(nat \<Rightarrow> bool) \<Rightarrow> (nat \<Rightarrow> bool) \<Rightarrow> (nat \<Rightarrow> int \<times> int) \<Rightarrow> nat \<Rightarrow> agent \<Rightarrow> agent" where
  "netsnmp_handle_request is_set out res r st =
     (if \<not> netsnmp_check_delegated_chain_for r st \<and> ag_set st \<noteq> Some r then
        (if ag_set st \<noteq> None then netsnmp_add_queued r st
         else if is_set r then
           (let st = st\<lparr>ag_set := Some r\<rparr> in
            if ag_delegated st \<noteq> [] then netsnmp_add_queued r st else run_request out res r st)
         else run_request out res r st)
      else run_request out res r st)"

text \<open>
  \<open>check_delayed_request\<close>: the request continues and is delegated again, at the head of the list, or is
  wrapped up, with a status of 0. Here \<open>asp->status\<close> stays what the handlers left: it is only written when it is 0, with 0.
\<close>

definition check_delayed_request :: "(nat \<Rightarrow> bool) \<Rightarrow> (nat \<Rightarrow> int \<times> int) \<Rightarrow> nat \<Rightarrow> agent \<Rightarrow> agent" where
  "check_delayed_request out res r st =
     (let status = 0;
          st = st\<lparr>ag_handled := r # ag_handled st, ag_status := (ag_status st)(r := fst (res r))\<rparr>;
          (delegated, st) = netsnmp_check_for_delegated_and_add out r st
      in if delegated then (if ag_status st r = 0 then st\<lparr>ag_status := (ag_status st)(r := status)\<rparr> else st)
         else netsnmp_wrap_up r status st)"

text \<open>
  \<open>netsnmp_check_delegated_requests\<close>: the loop runs over the requests that were on the list at its start
  (\<open>next_asp\<close> is saved before a request continues).
\<close>

fun check_delegated_loop :: "(nat \<Rightarrow> bool) \<Rightarrow> (nat \<Rightarrow> bool) \<Rightarrow> (nat \<Rightarrow> int \<times> int) \<Rightarrow> nat list \<Rightarrow> agent \<Rightarrow> agent" where
  "check_delegated_loop finished out res [] st = st"
| "check_delegated_loop finished out res (r # rs) st =
     check_delegated_loop finished out res rs
       (if finished r then check_delayed_request out res r (snd (netsnmp_remove_from_delegated r st)) else st)"

definition netsnmp_check_delegated_requests ::
    "(nat \<Rightarrow> bool) \<Rightarrow> (nat \<Rightarrow> bool) \<Rightarrow> (nat \<Rightarrow> int \<times> int) \<Rightarrow> agent \<Rightarrow> agent" where
  "netsnmp_check_delegated_requests finished out res st = check_delegated_loop finished out res (ag_delegated st) st"

text \<open>
  A session closes: \<open>waits r\<close> says that the delegated request \<open>r\<close> waits for it. These requests are marked as failed and
  cancelled, so \<open>netsnmp_check_for_delegated\<close> is false for them from now on, and if there are any the delegated requests are
  checked, without a look at the queue.
\<close>

definition netsnmp_remove_delegated_requests_for_session ::
    "(nat \<Rightarrow> bool) \<Rightarrow> (nat \<Rightarrow> bool) \<Rightarrow> (nat \<Rightarrow> bool) \<Rightarrow> (nat \<Rightarrow> int \<times> int) \<Rightarrow> agent \<Rightarrow> agent" where
  "netsnmp_remove_delegated_requests_for_session waits finished out res st =
     (if list_ex waits (ag_delegated st)
      then netsnmp_check_delegated_requests (\<lambda>r. waits r \<or> finished r) (\<lambda>r. \<not> waits r \<and> out r) res st
      else st)"

lemma handle_request_queue:
  "ag_set (netsnmp_handle_request is_set out res r st) = None
     \<Longrightarrow> ag_queued (netsnmp_handle_request is_set out res r st) = ag_queued st"
  by (auto simp: netsnmp_handle_request_def run_request_def netsnmp_check_for_delegated_and_add_def
      netsnmp_wrap_up_def netsnmp_add_queued_def Let_def split: if_splits prod.splits)

text \<open>The loop over the queue: every turn takes a request off the queue or ends the loop.\<close>

function queue_loop :: "(nat \<Rightarrow> bool) \<Rightarrow> (nat \<Rightarrow> bool) \<Rightarrow> (nat \<Rightarrow> int \<times> int) \<Rightarrow> agent \<Rightarrow> agent" where
  "queue_loop is_set out res st =
     (case ag_queued st of
        [] \<Rightarrow> st
      | r # rs \<Rightarrow>
          if is_set r \<and> ag_delegated st \<noteq> [] then st\<lparr>ag_set := Some r\<rparr>
          else let st' = netsnmp_handle_request is_set out res r (st\<lparr>ag_queued := rs\<rparr>) in
            if ag_set st' \<noteq> None then st' else queue_loop is_set out res st')"
  by pat_completeness auto

termination
  by (relation "measure (\<lambda>(is_set, out, res, st). length (ag_queued st))") (auto simp: handle_request_queue)

declare queue_loop.simps [simp del]

definition netsnmp_check_outstanding_agent_requests ::
    "(nat \<Rightarrow> bool) \<Rightarrow> (nat \<Rightarrow> bool) \<Rightarrow> (nat \<Rightarrow> bool) \<Rightarrow> (nat \<Rightarrow> int \<times> int) \<Rightarrow> agent \<Rightarrow> agent" where
  "netsnmp_check_outstanding_agent_requests is_set finished out res st =
     (let st = netsnmp_check_delegated_requests finished out res st in
      if ag_set st \<noteq> None \<and> ag_delegated st \<noteq> [] then st else queue_loop is_set out res st)"

section \<open>Runs of the agent\<close>

text \<open>
  Requests arrive with fresh numbers; in between the agent checks what is outstanding, and sessions close. The handlers
  behave differently at every step. The flag tells whether closing a session has ended delegated requests yet.
\<close>

definition no_requests :: agent where
  "no_requests = \<lparr>ag_delegated = [], ag_queued = [], ag_set = None, ag_status = (\<lambda>_. 0), ag_handled = []\<rparr>"

inductive agent_reach :: "(nat \<Rightarrow> bool) \<Rightarrow> bool \<Rightarrow> agent \<Rightarrow> bool" for is_set where
  start: "agent_reach is_set False no_requests"
| arrive: "agent_reach is_set closed st \<Longrightarrow> r \<notin> set (ag_delegated st) \<union> set (ag_queued st)
    \<Longrightarrow> agent_reach is_set closed (netsnmp_handle_request is_set out res r st)"
| check: "agent_reach is_set closed st
    \<Longrightarrow> agent_reach is_set closed (netsnmp_check_outstanding_agent_requests is_set finished out res st)"
| session_close: "agent_reach is_set closed st
    \<Longrightarrow> agent_reach is_set (closed \<or> list_ex waits (ag_delegated st))
          (netsnmp_remove_delegated_requests_for_session waits finished out res st)"

text \<open>
  Between two events: with a SET chosen, either it is the only request in progress, or it waits in the queue while
  others are still delegated; without one no SET is in progress. Unless a session has closed (\<open>strict\<close>) a SET that waits is at
  the head of the queue, and without a SET the queue is empty.
\<close>

definition agent_inv_check :: "bool \<Rightarrow> (nat \<Rightarrow> bool) \<Rightarrow> agent \<Rightarrow> bool" where
  "agent_inv_check strict is_set st \<longleftrightarrow>
     distinct (ag_delegated st) \<and> distinct (ag_queued st) \<and> set (ag_delegated st) \<inter> set (ag_queued st) = {}
     \<and> (case ag_set st of
          None \<Rightarrow> \<forall>d \<in> set (ag_delegated st). \<not> is_set d
        | Some s \<Rightarrow> is_set s
            \<and> (ag_delegated st = [s]
               \<or> s \<in> set (ag_queued st) \<and> (strict \<longrightarrow> hd (ag_queued st) = s) \<and> (\<forall>d \<in> set (ag_delegated st). \<not> is_set d)))"

text \<open>Inside \<open>netsnmp_check_outstanding_agent_requests\<close> a finished SET may leave a queue; between two events it does not.\<close>

definition agent_inv :: "bool \<Rightarrow> (nat \<Rightarrow> bool) \<Rightarrow> agent \<Rightarrow> bool" where
  "agent_inv strict is_set st \<longleftrightarrow> agent_inv_check strict is_set st \<and> (strict \<longrightarrow> ag_set st = None \<longrightarrow> ag_queued st = [])"

lemma agent_inv_imp_check: "agent_inv strict is_set st \<Longrightarrow> agent_inv_check strict is_set st"
  by (simp add: agent_inv_def)

lemma agent_inv_relax: "agent_inv_check strict is_set st \<Longrightarrow> agent_inv False is_set st"
  by (auto simp: agent_inv_def agent_inv_check_def split: option.splits)

text \<open>What the invariant looks at, after a request was run or continued.\<close>

lemma run_request_simps [simp]:
  "ag_delegated (run_request out res r st) =
     (if out r \<and> r \<notin> set (ag_delegated st) then r # ag_delegated st else ag_delegated st)"
  "ag_queued (run_request out res r st) = ag_queued st"
  "ag_set (run_request out res r st) = (if \<not> out r \<and> ag_set st = Some r then None else ag_set st)"
  "ag_handled (run_request out res r st) = r # ag_handled st"
  by (simp_all add: run_request_def netsnmp_check_for_delegated_and_add_def netsnmp_wrap_up_def
      netsnmp_check_delegated_chain_for_def Let_def split: prod.splits)

lemma check_delayed_request_simps [simp]:
  "ag_delegated (check_delayed_request out res r st) =
     (if out r \<and> r \<notin> set (ag_delegated st) then r # ag_delegated st else ag_delegated st)"
  "ag_queued (check_delayed_request out res r st) = ag_queued st"
  "ag_set (check_delayed_request out res r st) = (if \<not> out r \<and> ag_set st = Some r then None else ag_set st)"
  "ag_handled (check_delayed_request out res r st) = r # ag_handled st"
  by (simp_all add: check_delayed_request_def netsnmp_check_for_delegated_and_add_def netsnmp_wrap_up_def
      netsnmp_check_delegated_chain_for_def Let_def split: prod.splits)

lemmas handle_request_simps = netsnmp_handle_request_def netsnmp_check_delegated_chain_for_def netsnmp_add_queued_def Let_def

lemma agent_inv_arrive:
  assumes "agent_inv strict is_set st" "r \<notin> set (ag_delegated st) \<union> set (ag_queued st)"
  shows "agent_inv strict is_set (netsnmp_handle_request is_set out res r st)"
proof (cases "ag_set st")
  case None
  then show ?thesis using assms by (auto simp: agent_inv_def agent_inv_check_def handle_request_simps)
next
  case (Some s)
  have "s \<noteq> r" using assms Some by (auto simp: agent_inv_def agent_inv_check_def)
  then show ?thesis using assms Some by (auto simp: agent_inv_def agent_inv_check_def handle_request_simps hd_append)
qed

text \<open>Continuing a delegated request.\<close>

lemma agent_inv_delayed:
  assumes "agent_inv_check strict is_set st" "r \<in> set (ag_delegated st)"
  shows "agent_inv_check strict is_set (check_delayed_request out res r (snd (netsnmp_remove_from_delegated r st)))"
    "\<And>d. d \<noteq> r \<Longrightarrow> d \<in> set (ag_delegated (check_delayed_request out res r (snd (netsnmp_remove_from_delegated r st))))
        \<longleftrightarrow> d \<in> set (ag_delegated st)"
proof -
  have d: "distinct (ag_delegated st)" using assms(1) by (simp add: agent_inv_check_def)
  have nr: "r \<notin> set (remove1 r (ag_delegated st))" using d by simp
  let ?st = "snd (netsnmp_remove_from_delegated r st)"
  have st: "ag_delegated ?st = remove1 r (ag_delegated st)" "ag_set ?st = ag_set st" "ag_queued ?st = ag_queued st"
    using assms(2) by (simp_all add: netsnmp_remove_from_delegated_def)
  have only: "ag_delegated st = [s] \<Longrightarrow> s = r" for s using assms(2) by simp
  show "agent_inv_check strict is_set (check_delayed_request out res r ?st)"
  proof (cases "ag_set st")
    case None
    then show ?thesis using assms d nr by (auto simp: agent_inv_check_def st set_remove1_eq)
  next
    case (Some s)
    then have "is_set s" "ag_delegated st = [s]
        \<or> s \<in> set (ag_queued st) \<and> (strict \<longrightarrow> hd (ag_queued st) = s) \<and> (\<forall>d \<in> set (ag_delegated st). \<not> is_set d)"
      using assms(1) by (simp_all add: agent_inv_check_def)
    then consider "ag_delegated st = [r]" "s = r" "is_set r"
      | "s \<in> set (ag_queued st)" "strict \<longrightarrow> hd (ag_queued st) = s" "\<forall>d \<in> set (ag_delegated st). \<not> is_set d" "is_set s"
      using only [of s] by blast
    then show ?thesis
    proof cases
      case 1
      then show ?thesis using assms Some by (simp add: agent_inv_check_def st)
    next
      case 2
      then have "s \<noteq> r" using assms(2) by auto
      then show ?thesis using assms Some 2 d nr by (simp add: agent_inv_check_def st set_remove1_eq) blast
    qed
  qed
  show "\<And>d'. d' \<noteq> r \<Longrightarrow> d' \<in> set (ag_delegated (check_delayed_request out res r ?st)) \<longleftrightarrow> d' \<in> set (ag_delegated st)"
    using d by (auto simp: set_remove1_eq st)
qed

lemma agent_inv_delegated_loop:
  "agent_inv_check strict is_set st \<Longrightarrow> distinct rs \<Longrightarrow> set rs \<subseteq> set (ag_delegated st)
     \<Longrightarrow> agent_inv_check strict is_set (check_delegated_loop finished out res rs st)"
proof (induction rs arbitrary: st)
  case (Cons r rs)
  have r: "r \<in> set (ag_delegated st)" using Cons.prems by simp
  note d = agent_inv_delayed [OF Cons.prems(1) r, where out = out and res = res]
  show ?case
  proof (cases "finished r")
    case True
    have "set rs \<subseteq> set (ag_delegated (check_delayed_request out res r (snd (netsnmp_remove_from_delegated r st))))"
    proof
      fix x assume "x \<in> set rs"
      then have "x \<noteq> r" "x \<in> set (ag_delegated st)" using Cons.prems(2,3) by auto
      then show "x \<in> set (ag_delegated (check_delayed_request out res r (snd (netsnmp_remove_from_delegated r st))))"
        using d(2) by blast
    qed
    then show ?thesis using Cons.IH [OF d(1)] Cons.prems(2) True by simp
  next
    case False
    then show ?thesis using Cons by simp
  qed
qed simp

lemma agent_inv_check_delegated:
  assumes "agent_inv_check strict is_set st"
  shows "agent_inv_check strict is_set (netsnmp_check_delegated_requests finished out res st)"
  unfolding netsnmp_check_delegated_requests_def
  using assms by (intro agent_inv_delegated_loop) (auto simp: agent_inv_check_def)

text \<open>One turn of the loop over the queue, once no SET waits for delegated requests.\<close>

lemma queue_turn_inv:
  assumes "agent_inv_check strict is_set st" "ag_set st \<noteq> None \<longrightarrow> ag_delegated st = []" "ag_queued st = r # rs"
    "\<not> (is_set r \<and> ag_delegated st \<noteq> [])"
  shows "agent_inv_check strict is_set (netsnmp_handle_request is_set out res r (st\<lparr>ag_queued := rs\<rparr>))"
proof (cases "ag_set st")
  case None
  then show ?thesis using assms by (auto simp: agent_inv_check_def handle_request_simps)
next
  case (Some s)
  then have s: "is_set s" "s \<in> insert r (set rs)" "strict \<longrightarrow> r = s" "ag_delegated st = []"
    using assms by (auto simp: agent_inv_check_def)
  then show ?thesis using assms Some by (cases "r = s") (auto simp: agent_inv_check_def handle_request_simps)
qed

lemma queue_loop_inv: "agent_inv_check strict is_set st \<Longrightarrow> ag_set st \<noteq> None \<longrightarrow> ag_delegated st = []
    \<Longrightarrow> agent_inv strict is_set (queue_loop is_set out res st)"
proof (induction is_set out res st rule: queue_loop.induct)
  case (1 is_set out res st)
  show ?case
  proof (cases "ag_queued st")
    case Nil
    then show ?thesis using 1(2,3) unfolding queue_loop.simps [of is_set out res st] by (auto simp: agent_inv_def)
  next
    case (Cons r rs)
    show ?thesis
    proof (cases "is_set r \<and> ag_delegated st \<noteq> []")
      case True
      then show ?thesis using 1(2,3) Cons unfolding queue_loop.simps [of is_set out res st]
        by (auto simp: agent_inv_def agent_inv_check_def)
    next
      case False
      let ?st = "netsnmp_handle_request is_set out res r (st\<lparr>ag_queued := rs\<rparr>)"
      have q: "queue_loop is_set out res st = (if ag_set ?st \<noteq> None then ?st else queue_loop is_set out res ?st)"
        unfolding queue_loop.simps [of is_set out res st] using Cons False by (auto simp: Let_def)
      note i = queue_turn_inv [OF 1(2,3) Cons False, of out res]
      show ?thesis
      proof (cases "ag_set ?st")
        case None
        have "agent_inv strict is_set (queue_loop is_set out res ?st)" using 1(1) [OF Cons False refl _ i] None by simp
        then show ?thesis using q None by simp
      next
        case (Some s)
        then show ?thesis using q i by (simp add: agent_inv_def)
      qed
    qed
  qed
qed

lemma agent_inv_check_outstanding:
  assumes "agent_inv_check strict is_set st"
  shows "agent_inv strict is_set (netsnmp_check_outstanding_agent_requests is_set finished out res st)"
proof -
  let ?st = "netsnmp_check_delegated_requests finished out res st"
  note i = agent_inv_check_delegated [OF assms, of finished out res]
  show ?thesis
  proof (cases "ag_set ?st \<noteq> None \<and> ag_delegated ?st \<noteq> []")
    case True
    then have "netsnmp_check_outstanding_agent_requests is_set finished out res st = ?st"
      by (simp add: netsnmp_check_outstanding_agent_requests_def Let_def)
    then show ?thesis using i True by (auto simp: agent_inv_def)
  next
    case False
    then show ?thesis using queue_loop_inv [OF i, of out res]
      by (auto simp: netsnmp_check_outstanding_agent_requests_def Let_def)
  qed
qed

lemma agent_inv_close:
  assumes "agent_inv strict is_set st"
  shows "agent_inv (strict \<and> \<not> list_ex waits (ag_delegated st)) is_set
    (netsnmp_remove_delegated_requests_for_session waits finished out res st)"
proof (cases "list_ex waits (ag_delegated st)")
  case True
  then show ?thesis using agent_inv_relax [OF agent_inv_check_delegated [OF agent_inv_imp_check [OF assms]]]
    by (simp add: netsnmp_remove_delegated_requests_for_session_def)
qed (use assms in \<open>simp add: netsnmp_remove_delegated_requests_for_session_def\<close>)

lemma agent_reach_inv: "agent_reach is_set closed st \<Longrightarrow> agent_inv (\<not> closed) is_set st"
proof (induction rule: agent_reach.induct)
  case start
  show ?case by (simp add: agent_inv_def agent_inv_check_def no_requests_def)
next
  case (session_close closed st waits finished out res)
  then show ?case using agent_inv_close [of "\<not> closed" is_set st waits finished out res] by simp
qed (simp_all add: agent_inv_arrive agent_inv_check_outstanding agent_inv_imp_check)

section \<open>Properties\<close>

text \<open>
  Nothing starts while a SET is in progress: a request that arrives then is put at the end of the queue, no
  handler is called and the lists of requests in progress stay as they are.
\<close>

lemma set_excludes_new:
  assumes "agent_reach is_set closed st" "s \<in> set (ag_delegated st)" "is_set s" "r \<notin> set (ag_delegated st) \<union> set (ag_queued st)"
  shows "netsnmp_handle_request is_set out res r st = st\<lparr>ag_queued := ag_queued st @ [r]\<rparr>"
proof -
  have "ag_set st = Some s" "s \<noteq> r" using agent_reach_inv [OF assms(1)] assms(2-4)
    by (auto simp: agent_inv_def agent_inv_check_def split: option.splits)
  then show ?thesis using assms(4) by (simp add: handle_request_simps)
qed


definition ex_agent :: agent where
  "ex_agent = netsnmp_handle_request (\<lambda>r. r = 1) (\<lambda>r. True) (\<lambda>r. (0, 0)) 1 no_requests"

lemma ex_agent_reach: "agent_reach (\<lambda>r. r = 1) False ex_agent"
  unfolding ex_agent_def by (rule agent_reach.arrive [OF agent_reach.start]) (simp add: no_requests_def)

lemma ex_agent_state: "ag_delegated ex_agent = [1]" "ag_queued ex_agent = []" "ag_set ex_agent = Some 1" "ag_handled ex_agent = [1]"
  by (simp_all add: ex_agent_def handle_request_simps no_requests_def)


lemma delegated_loop_drain:
  "distinct rs \<Longrightarrow> ag_delegated st = rs \<Longrightarrow>
    ag_delegated (check_delegated_loop (\<lambda>r. True) (\<lambda>r. False) res rs st) = []
    \<and> ag_queued (check_delegated_loop (\<lambda>r. True) (\<lambda>r. False) res rs st) = ag_queued st
    \<and> ag_set (check_delegated_loop (\<lambda>r. True) (\<lambda>r. False) res rs st) = (if \<exists>r \<in> set rs. ag_set st = Some r then None else ag_set st)
    \<and> ag_handled (check_delegated_loop (\<lambda>r. True) (\<lambda>r. False) res rs st) = rev rs @ ag_handled st"
proof (induction rs arbitrary: st)
  case (Cons r rs)
  let ?st = "check_delayed_request (\<lambda>r. False) res r (snd (netsnmp_remove_from_delegated r st))"
  have st: "ag_delegated ?st = rs" "ag_queued ?st = ag_queued st" "ag_set ?st = (if ag_set st = Some r then None else ag_set st)"
    "ag_handled ?st = r # ag_handled st"
    using Cons.prems by (simp_all add: netsnmp_remove_from_delegated_def)
  have "distinct rs" using Cons.prems by simp
  from Cons.IH [OF this st(1)] show ?case using st by auto
qed simp

text \<open>The loop over the queue: it ends with everything handled when no SET or the first request is recorded.\<close>

lemma queue_loop_drain:
  "ag_delegated st = [] \<Longrightarrow> ag_set st = None \<or> ag_queued st \<noteq> [] \<and> ag_set st = Some (hd (ag_queued st)) \<Longrightarrow>
     ag_delegated (queue_loop is_set (\<lambda>r. False) res st) = [] \<and> ag_queued (queue_loop is_set (\<lambda>r. False) res st) = []
     \<and> ag_set (queue_loop is_set (\<lambda>r. False) res st) = None
     \<and> ag_handled (queue_loop is_set (\<lambda>r. False) res st) = rev (ag_queued st) @ ag_handled st"
proof (induction "ag_queued st" arbitrary: st)
  case Nil
  then show ?case unfolding queue_loop.simps [of is_set "\<lambda>r. False" res st] by auto
next
  case (Cons r rs)
  let ?st = "netsnmp_handle_request is_set (\<lambda>r. False) res r (st\<lparr>ag_queued := rs\<rparr>)"
  have st: "ag_delegated ?st = []" "ag_queued ?st = rs" "ag_set ?st = None" "ag_handled ?st = r # ag_handled st"
    using Cons.prems Cons.hyps(2) [symmetric] by (auto simp: handle_request_simps)
  have q: "queue_loop is_set (\<lambda>r. False) res st = queue_loop is_set (\<lambda>r. False) res ?st"
    using Cons.prems(1) Cons.hyps(2) [symmetric] st(3) unfolding queue_loop.simps [of is_set "\<lambda>r. False" res st] by (simp add: Let_def)
  have "ag_delegated ?st = []" "ag_set ?st = None \<or> ag_queued ?st \<noteq> [] \<and> ag_set ?st = Some (hd (ag_queued ?st))" using st by simp_all
  from Cons.hyps(1) [OF _ this] show ?case unfolding q using st Cons.hyps(2) [symmetric] by simp
qed

text \<open>Otherwise the first request, which is not the SET, goes to the end of the queue and the loop ends.\<close>

lemma queue_loop_rotate:
  assumes "ag_delegated st = []" "ag_queued st = r # rs" "ag_set st = Some s" "s \<noteq> r" "r \<notin> set rs"
  shows "queue_loop is_set out res st = st\<lparr>ag_queued := rs @ [r]\<rparr>"
  using assms unfolding queue_loop.simps [of is_set out res st] by (simp add: handle_request_simps)

text \<open>One check, with all delegated requests answered.\<close>

abbreviation (input) check_answered :: "(nat \<Rightarrow> bool) \<Rightarrow> (nat \<Rightarrow> int \<times> int) \<Rightarrow> agent \<Rightarrow> agent" where
  "check_answered is_set res \<equiv> netsnmp_check_outstanding_agent_requests is_set (\<lambda>r. True) (\<lambda>r. False) res"

lemma check_answered_drains:
  assumes "distinct (ag_delegated st)"
    "ag_set st = None \<or> ag_delegated st = [the (ag_set st)] \<or> ag_queued st \<noteq> [] \<and> ag_set st = Some (hd (ag_queued st))"
  shows "ag_delegated (check_answered is_set res st) = [] \<and> ag_queued (check_answered is_set res st) = []
    \<and> ag_set (check_answered is_set res st) = None
    \<and> ag_handled (check_answered is_set res st) = rev (ag_queued st) @ rev (ag_delegated st) @ ag_handled st"
proof -
  let ?st = "netsnmp_check_delegated_requests (\<lambda>r. True) (\<lambda>r. False) res st"
  note st = delegated_loop_drain [OF assms(1) refl, of res, folded netsnmp_check_delegated_requests_def]
  have "ag_set ?st = None \<or> ag_queued ?st \<noteq> [] \<and> ag_set ?st = Some (hd (ag_queued ?st))" using assms(2) st by auto
  from queue_loop_drain [OF _ this] show ?thesis
    using st by (simp add: netsnmp_check_outstanding_agent_requests_def Let_def)
qed

text \<open>With a SET further back in the queue every check brings it one place forward, until it is the first.\<close>

lemma check_answered_rotates:
  assumes "ag_delegated st = []" "distinct (ag_queued st)" "ag_set st = Some s" "ag_queued st = xs @ s # ys"
  shows "\<exists>n \<le> length xs + 1. let st' = (check_answered is_set res ^^ n) st in
     ag_delegated st' = [] \<and> ag_queued st' = [] \<and> ag_set st' = None \<and> mset (ag_handled st') = mset (ag_queued st) + mset (ag_handled st)"
  using assms
proof (induction xs arbitrary: st ys)
  case Nil
  then have "ag_queued st \<noteq> [] \<and> ag_set st = Some (hd (ag_queued st))" by simp
  then show ?case using check_answered_drains [of st is_set res] Nil.prems by (intro exI [of _ 1]) (simp add: Let_def)
next
  case (Cons r xs)
  have d: "netsnmp_check_delegated_requests (\<lambda>r. True) (\<lambda>r. False) res st = st"
    using Cons.prems(1) by (simp add: netsnmp_check_delegated_requests_def)
  let ?st = "st\<lparr>ag_queued := (xs @ s # ys) @ [r]\<rparr>"
  have one: "check_answered is_set res st = ?st"
    using Cons.prems queue_loop_rotate [of st r "xs @ s # ys" s is_set "\<lambda>r. False" res]
    by (simp add: netsnmp_check_outstanding_agent_requests_def d Let_def)
  have "ag_delegated ?st = []" "distinct (ag_queued ?st)" "ag_set ?st = Some s" "ag_queued ?st = xs @ s # (ys @ [r])"
    using Cons.prems by auto
  from Cons.IH [OF this] obtain n where n: "n \<le> length xs + 1"
    "let st' = (check_answered is_set res ^^ n) ?st in ag_delegated st' = [] \<and> ag_queued st' = [] \<and> ag_set st' = None
       \<and> mset (ag_handled st') = mset (ag_queued ?st) + mset (ag_handled ?st)" by blast
  have "(check_answered is_set res ^^ Suc n) st = (check_answered is_set res ^^ n) ?st"
    by (simp only: funpow_Suc_right comp_apply one)
  then show ?case using n Cons.prems(4) by (intro exI [of _ "Suc n"]) (simp only: Let_def, simp)
qed



text \<open>
  When a session to a subagent closes, \<open>netsnmp_check_delegated_requests\<close> runs without a look at the queue.
  The queue then waits without a SET: request 3 overtakes request 2, and after a second SET the assertion on
  the head of the queue does not hold. The next check puts request 2 behind request 4 before it can start that.
\<close>

lemma session_close_breaks_assertion:
  "let is_set = (\<lambda>r. r = 1 \<or> r = 4); ok = (\<lambda>r. (0, 0));
       st = netsnmp_handle_request is_set (\<lambda>r. True) ok 1 no_requests;
       st = netsnmp_handle_request is_set (\<lambda>r. True) ok 2 st;
       st = netsnmp_remove_delegated_requests_for_session (\<lambda>r. r = 1) (\<lambda>r. False) (\<lambda>r. False) ok st;
       st = netsnmp_handle_request is_set (\<lambda>r. True) ok 3 st;
       st = netsnmp_handle_request is_set (\<lambda>r. True) ok 4 st
   in ag_handled st = [3, 1, 1] \<and> ag_queued st = [2, 4] \<and> ag_set st = Some 4 \<and> agent_reach is_set True st"
proof -
  let ?set = "\<lambda>r :: nat. r = 1 \<or> r = 4" and ?ok = "\<lambda>r :: nat. (0 :: int, 0 :: int)"
  define st1 where "st1 = netsnmp_handle_request ?set (\<lambda>r. True) ?ok 1 no_requests"
  define st2 where "st2 = netsnmp_handle_request ?set (\<lambda>r. True) ?ok 2 st1"
  define st3 where "st3 = netsnmp_remove_delegated_requests_for_session (\<lambda>r. r = 1) (\<lambda>r. False) (\<lambda>r. False) ?ok st2"
  define st4 where "st4 = netsnmp_handle_request ?set (\<lambda>r. True) ?ok 3 st3"
  define st5 where "st5 = netsnmp_handle_request ?set (\<lambda>r. True) ?ok 4 st4"
  have s1: "ag_delegated st1 = [1]" "ag_queued st1 = []" "ag_set st1 = Some 1" "ag_handled st1 = [1]"
    by (simp_all add: st1_def handle_request_simps no_requests_def)
  have s2: "ag_delegated st2 = [1]" "ag_queued st2 = [2]" "ag_set st2 = Some 1" "ag_handled st2 = [1]"
    by (simp_all add: st2_def handle_request_simps s1)
  have s3: "ag_delegated st3 = []" "ag_queued st3 = [2]" "ag_set st3 = None" "ag_handled st3 = [1, 1]"
    by (simp_all add: st3_def netsnmp_remove_delegated_requests_for_session_def netsnmp_check_delegated_requests_def
        netsnmp_remove_from_delegated_def s2)
  have s4: "ag_delegated st4 = [3]" "ag_queued st4 = [2]" "ag_set st4 = None" "ag_handled st4 = [3, 1, 1]"
    by (simp_all add: st4_def handle_request_simps s3)
  have s5: "ag_queued st5 = [2, 4]" "ag_set st5 = Some 4" "ag_handled st5 = [3, 1, 1]"
    by (simp_all add: st5_def handle_request_simps s4)
  have "agent_reach ?set False st1" unfolding st1_def by (rule agent_reach.arrive [OF agent_reach.start]) (simp add: no_requests_def)
  then have "agent_reach ?set False st2" unfolding st2_def by (rule agent_reach.arrive) (simp add: s1)
  from agent_reach.session_close [OF this, of "\<lambda>r. r = 1" "\<lambda>r. False" "\<lambda>r. False" ?ok]
  have "agent_reach ?set True st3" unfolding st3_def by (simp add: s2)
  then have "agent_reach ?set True st4" unfolding st4_def by (rule agent_reach.arrive) (simp add: s3)
  then have "agent_reach ?set True st5" unfolding st5_def by (rule agent_reach.arrive) (simp add: s4)
  then show ?thesis using s5 unfolding Let_def st1_def [symmetric] st2_def [symmetric] st3_def [symmetric] st4_def [symmetric]
      st5_def [symmetric] by simp
qed

text \<open>The status of a request whose handlers have left an error is lost when \<open>handle_pdu\<close> returns 0 and the request is delegated.\<close>

lemma delegated_status_overwritten:
  "ag_status (netsnmp_handle_request is_set (\<lambda>r. True) (\<lambda>r. (5, 0)) 1 no_requests) 1 = 0"
  by (simp add: handle_request_simps no_requests_def run_request_def netsnmp_check_for_delegated_and_add_def)

end
