(* ===== verification/BinArray.thy ===== *)
theory BinArray
  imports Oids "HOL-Library.Multiset"
begin

text \<open>
  The sorted array container of \<^verbatim>\<open>snmplib/container_binary_array.c\<close>, and from \<^verbatim>\<open>snmplib/container.c\<close> the
  comparisons and the insertion into a chain of indexes. The elements are pointers of an arbitrary type, \<open>None\<close>
  is the null pointer. The array has as many slots as were allocated (\<open>max_size\<close>); an access behind it, and a
  null element handed to a comparison, is an \<open>Overrun\<close>. \<open>compare\<close>, \<open>ncompare\<close> and the filter are function
  pointers of the container. \<open>qsort\<close> of the C library is the argument \<open>qs\<close>: how it orders equal elements is not
  specified. Whether \<open>realloc\<close> and \<open>malloc\<close> succeed is the argument \<open>mem\<close>.
\<close>

section \<open>The table\<close>

record 'e binary_array_table =
  count :: nat
  dirty :: bool
  data :: "'e option list"     \<comment> \<open>\<open>max_size\<close> is its length\<close>

record 'e container =
  container_data :: "'e binary_array_table"
  compare :: "'e \<Rightarrow> 'e \<Rightarrow> int"
  ncompare :: "'e \<Rightarrow> 'e \<Rightarrow> int"
  insert_filter :: "('e \<Rightarrow> bool) option"
  csync :: u_long              \<comment> \<open>\<open>sync\<close>\<close>
  key_allow_duplicates :: bool \<comment> \<open>\<open>flags & CONTAINER_KEY_ALLOW_DUPLICATES\<close>\<close>
  key_unsorted :: bool         \<comment> \<open>\<open>flags & CONTAINER_KEY_UNSORTED\<close>\<close>

type_synonym 'e qsort = "('e \<Rightarrow> 'e \<Rightarrow> int) \<Rightarrow> 'e list \<Rightarrow> 'e list"

definition slot :: "'e option list \<Rightarrow> nat \<Rightarrow> 'e option cres" where
  "slot d i = (if i < length d then Ret (d ! i) else Overrun)"

definition elem_at :: "'e option list \<Rightarrow> nat \<Rightarrow> 'e cres" where \<comment> \<open>\<open>t->data[i]\<close> as an argument of a comparison\<close>
  "elem_at d i = cbind (slot d i) (\<lambda>p. case p of None \<Rightarrow> Overrun | Some e \<Rightarrow> Ret e)"

definition live :: "'e binary_array_table \<Rightarrow> 'e list cres" where
  "live t = (if count t \<le> length (data t) \<and> None \<notin> set (take (count t) (data t))
             then Ret (map the (take (count t) (data t))) else Overrun)"

definition netsnmp_binary_array_initialize :: "'e binary_array_table" where
  "netsnmp_binary_array_initialize = \<lparr>count = 0, dirty = False, data = []\<rparr>"

definition Sort_Array :: "'e qsort \<Rightarrow> 'e container \<Rightarrow> (int \<times> 'e container) cres" where
  "Sort_Array qs c =
     (let t = container_data c in
      if key_unsorted c then Ret (0, c)
      else if dirty t then
        cbind (live t) (\<lambda>xs.
          Ret (1, c\<lparr>container_data := t\<lparr>data := map Some (qs (compare c) xs) @ drop (count t) (data t), dirty := False\<rparr>,
                    csync := csync c + 1\<rparr>))
      else Ret (1, c))"

definition sort_if_dirty :: "'e qsort \<Rightarrow> 'e container \<Rightarrow> 'e container cres" where \<comment> \<open>\<open>if (t->dirty) Sort_Array(c)\<close>\<close>
  "sort_if_dirty qs c =
     (if dirty (container_data c) then cbind (Sort_Array qs c) (\<lambda>(_, c). Ret c) else Ret c)"

section \<open>Searching\<close>

text \<open>The result of a search is an index, -1 for none.\<close>

fun linear_search_loop :: "('e \<Rightarrow> 'e \<Rightarrow> int) \<Rightarrow> 'e \<Rightarrow> 'e option list \<Rightarrow> nat \<Rightarrow> nat \<Rightarrow> int cres" where
  "linear_search_loop cmp val d 0 pos = Ret (-1)"
| "linear_search_loop cmp val d (Suc left) pos =
     cbind (elem_at d pos) (\<lambda>e.
       if cmp e val = 0 then Ret (c_int pos) else linear_search_loop cmp val d left (pos + 1))"

definition linear_search :: "'e \<Rightarrow> 'e container \<Rightarrow> int cres" where
  "linear_search val c =
     (let t = container_data c in
      if count t = 0 then Ret (-1)
      else if \<not> key_unsorted c then Ret (-1)
      else linear_search_loop (compare c) val (data t) (count t) 0)"

text \<open>The loop of \<open>binary_search\<close>: \<open>first\<close>, \<open>middle\<close> and \<open>result\<close> when it is left.\<close>

function bsearch_loop :: "('e \<Rightarrow> 'e \<Rightarrow> int) \<Rightarrow> 'e \<Rightarrow> 'e option list \<Rightarrow> nat \<Rightarrow> nat \<Rightarrow> nat \<Rightarrow> int \<Rightarrow> (nat \<times> nat \<times> int) cres" where
  "bsearch_loop cmp val d first len middle result =
     (if len > 0 then
        let half = len div 2; middle = first + half in
        cbind (elem_at d middle) (\<lambda>e.
          let result = cmp e val in
          if result < 0 then bsearch_loop cmp val d (middle + 1) (len - half - 1) middle result
          else if result = 0 then Ret (middle, middle, result)
          else bsearch_loop cmp val d first half middle result)
      else Ret (first, middle, result))"
  by pat_completeness auto
termination
  by (relation "measure (\<lambda>(cmp, val, d, first, len, middle, result). len)") auto

declare bsearch_loop.simps [simp del]

text \<open>The result is the index, \<open>*next\<close> (\<open>None\<close> when it is not written) and the container, which may get sorted.\<close>

definition binary_search :: "'e qsort \<Rightarrow> 'e \<Rightarrow> 'e container \<Rightarrow> bool \<Rightarrow> (int \<times> nat option \<times> 'e container) cres" where
  "binary_search qs val c exact =
     (let n = count (container_data c) in
      if n = 0 then Ret (-1, Some 0, c)
      else if key_unsorted c then
        (if \<not> exact then Ret (-1, None, c)
         else cbind (linear_search val c) (\<lambda>r. Ret (r, None, c)))
      else cbind (sort_if_dirty qs c) (\<lambda>c.
        let d = data (container_data c) in
        cbind (bsearch_loop (compare c) val d 0 n 0 0) (\<lambda>(first, middle, result).
          if first \<ge> n then Ret (-1, if exact then Some n else None, c)
          else cbind (if first \<noteq> middle then cbind (elem_at d first) (\<lambda>e. Ret (compare c e val)) else Ret result) (\<lambda>result.
            if result = 0 then
              (if exact then Ret (c_int first, Some (first + 1), c)
               else if first + 1 = n then Ret (-1, Some n, c)
               else Ret (c_int (first + 1), None, c))
            else if exact then Ret (-1, Some (if result > 0 then first else n), c)
            else Ret (c_int first, None, c)))))"

text \<open>Skipping duplicates of the key in a search for the next one: \<open>None\<close> is the end of the array.\<close>

fun skip_equal :: "('e \<Rightarrow> 'e \<Rightarrow> int) \<Rightarrow> 'e \<Rightarrow> 'e option list \<Rightarrow> nat \<Rightarrow> nat \<Rightarrow> nat option cres" where
  "skip_equal cmp key d 0 index = Ret None"
| "skip_equal cmp key d (Suc left) index =
     cbind (elem_at d index) (\<lambda>e.
       if cmp e key = 0 then skip_equal cmp key d left (index + 1) else Ret (Some index))"

definition netsnmp_binary_array_get :: "'e qsort \<Rightarrow> 'e container \<Rightarrow> 'e option \<Rightarrow> bool \<Rightarrow> ('e option \<times> 'e container) cres" where
  "netsnmp_binary_array_get qs c key exact =
     (let n = count (container_data c) in
      if n = 0 then Ret (None, c)
      else cbind (sort_if_dirty qs c) (\<lambda>c.
        case key of
          None \<Rightarrow> cbind (slot (data (container_data c)) 0) (\<lambda>e. Ret (e, c))
        | Some k \<Rightarrow>
            cbind (binary_search qs k c exact) (\<lambda>(index, _, c).
              let d = data (container_data c) in
              if index = -1 then Ret (None, c)
              else if \<not> exact \<and> key_allow_duplicates c then
                cbind (skip_equal (compare c) k d (n - nat index) (nat index)) (\<lambda>r.
                  case r of None \<Rightarrow> Ret (None, c) | Some i \<Rightarrow> cbind (slot d i) (\<lambda>e. Ret (e, c)))
              else cbind (slot d (nat index)) (\<lambda>e. Ret (e, c)))))"

definition netsnmp_binary_array_get_at :: "'e container \<Rightarrow> nat \<Rightarrow> (int \<times> 'e option) cres" where
  "netsnmp_binary_array_get_at c pos =
     (let t = container_data c in
      if count t = 0 \<or> pos \<ge> count t then Ret (-1, None)
      else cbind (slot (data t) pos) (\<lambda>e. Ret (0, e)))"

section \<open>Removing\<close>

text \<open>
  \<open>memmove\<close> of the \<open>count - index\<close> slots behind \<open>index\<close> one down; for an index behind the last entry the
  difference wraps around and the copy runs over everything. \<open>save\<close> says whether the caller wants the entry.
\<close>

definition netsnmp_binary_array_remove_at :: "'e container \<Rightarrow> nat \<Rightarrow> bool \<Rightarrow> (int \<times> 'e option \<times> 'e container) cres" where
  "netsnmp_binary_array_remove_at c index save =
     (let t = container_data c in
      if count t = 0 then Ret (-1, None, c)
      else cbind (if save then slot (data t) index else Ret None) (\<lambda>saved.
        let n = count t - 1 in
        if index \<noteq> n then
          (if index > n \<or> count t > length (data t) then Overrun
           else Ret (0, saved, c\<lparr>container_data := t\<lparr>count := n,
                  data := take index (data t) @ take (n - index) (drop (index + 1) (data t)) @ drop n (data t)\<rparr>,
                csync := csync c + 1\<rparr>))
        else Ret (0, saved, c\<lparr>container_data := t\<lparr>count := n\<rparr>\<rparr>)))"

definition netsnmp_binary_array_remove :: "'e qsort \<Rightarrow> 'e container \<Rightarrow> 'e \<Rightarrow> bool \<Rightarrow> (int \<times> 'e option \<times> 'e container) cres" where
  "netsnmp_binary_array_remove qs c key save =
     (if count (container_data c) = 0 then Ret (0, None, c)
      else cbind (sort_if_dirty qs c) (\<lambda>c.
        cbind (binary_search qs key c True) (\<lambda>(index, _, c).
          if index = -1 then Ret (-1, None, c)
          else netsnmp_binary_array_remove_at c (nat index) save)))"

text \<open>
  The elements handed to the function of \<open>for_each\<close>, in order, and the cleared container with those that
  \<open>clear\<close> hands to its function.
\<close>

definition netsnmp_binary_array_for_each :: "'e qsort \<Rightarrow> 'e container \<Rightarrow> bool \<Rightarrow> ('e list \<times> 'e container) cres" where
  "netsnmp_binary_array_for_each qs c srt =
     cbind (if srt then sort_if_dirty qs c else Ret c) (\<lambda>c. cbind (live (container_data c)) (\<lambda>xs. Ret (xs, c)))"

definition netsnmp_binary_array_clear :: "'e container \<Rightarrow> bool \<Rightarrow> ('e list \<times> 'e container) cres" where
  "netsnmp_binary_array_clear c fe =
     cbind (if fe then live (container_data c) else Ret []) (\<lambda>xs.
       Ret (xs, c\<lparr>container_data := (container_data c)\<lparr>count := 0, dirty := False\<rparr>, csync := csync c + 1\<rparr>))"

section \<open>Inserting\<close>

definition ba_resize_check :: "bool \<Rightarrow> 'e binary_array_table \<Rightarrow> int \<times> 'e binary_array_table" where \<comment> \<open>\<open>_ba_resize_check\<close>\<close>
  "ba_resize_check mem t =
     (if length (data t) > count t then (0, t)
      else let new_max = (if length (data t) > 0 then 2 * length (data t) else 10) in
           if \<not> mem then (-1, t)
           else (1, t\<lparr>data := data t @ replicate (new_max - length (data t)) None\<rparr>))"

text \<open>The result of \<open>_ba_resize_check\<close> is not looked at: without memory the write is behind the array.\<close>

definition netsnmp_binary_array_insert_before ::
    "bool \<Rightarrow> 'e container \<Rightarrow> nat \<Rightarrow> 'e option \<Rightarrow> bool \<Rightarrow> (int \<times> 'e container) cres" where
  "netsnmp_binary_array_insert_before mem c index entry mark_dirty =
     (let t = container_data c in
      if entry = None then Ret (-1, c)
      else if index > count t then Ret (-1, c)
      else let (_, t) = ba_resize_check mem t in
        if count t \<ge> length (data t) then Overrun
        else Ret (0, c\<lparr>container_data := t\<lparr>
               data := take index (data t) @ entry # take (count t - index) (drop index (data t)) @ drop (count t + 1) (data t),
               count := count t + 1, dirty := dirty t \<or> mark_dirty\<rparr>, csync := csync c + 1\<rparr>))"

text \<open>The position behind the duplicates of the entry.\<close>

fun pass_equal :: "('e \<Rightarrow> 'e \<Rightarrow> int) \<Rightarrow> 'e \<Rightarrow> 'e option list \<Rightarrow> nat \<Rightarrow> nat \<Rightarrow> nat cres" where
  "pass_equal cmp entry d 0 pos = Ret pos"
| "pass_equal cmp entry d (Suc left) pos =
     cbind (elem_at d pos) (\<lambda>e. if cmp e entry = 0 then pass_equal cmp entry d left (pos + 1) else Ret pos)"

text \<open>\<open>next\<close> when it was never written is read as \<open>Overrun\<close>.\<close>

definition netsnmp_binary_array_insert :: "'e qsort \<Rightarrow> bool \<Rightarrow> 'e container \<Rightarrow> 'e option \<Rightarrow> (int \<times> 'e container) cres" where
  "netsnmp_binary_array_insert qs mem c const_entry =
     (case const_entry of
        None \<Rightarrow> Ret (-1, c)
      | Some entry \<Rightarrow>
          let n = count (container_data c); dups = key_allow_duplicates c; sorted = \<not> key_unsorted c in
          cbind (if \<not> dups \<and> n \<noteq> 0 then binary_search qs entry c True else Ret (-2, None, c)) (\<lambda>(i, next, c).
            if \<not> dups \<and> n \<noteq> 0 \<and> i \<ge> 0 then Ret (-1, c)
            else if \<not> sorted then netsnmp_binary_array_insert_before mem c n const_entry True
            else cbind (if i = -2 then (if n = 0 then Ret (-1, Some 0, c) else binary_search qs entry c True)
                        else Ret (i, next, c)) (\<lambda>(i, next, c).
              case next of
                None \<Rightarrow> Overrun
              | Some pos \<Rightarrow>
                  cbind (if dups \<and> i \<ge> 0 then pass_equal (compare c) entry (data (container_data c)) (n - pos) pos else Ret pos)
                    (\<lambda>pos. netsnmp_binary_array_insert_before mem c pos const_entry False))))"

section \<open>Subsets and options\<close>

function start_loop :: "('e \<Rightarrow> 'e \<Rightarrow> int) \<Rightarrow> 'e \<Rightarrow> 'e option list \<Rightarrow> nat \<Rightarrow> nat \<Rightarrow> nat cres" where
  "start_loop ncmp val d first len =
     (if len > 0 then
        let half = len div 2; middle = first + half in
        cbind (elem_at d middle) (\<lambda>e.
          if ncmp e val < 0 then start_loop ncmp val d (middle + 1) (len - half - 1)
          else start_loop ncmp val d first half)
      else Ret first)"
  by pat_completeness auto
termination
  by (relation "measure (\<lambda>(ncmp, val, d, first, len). len)") auto

declare start_loop.simps [simp del]

definition binary_search_for_start :: "'e qsort \<Rightarrow> 'e \<Rightarrow> 'e container \<Rightarrow> (int \<times> 'e container) cres" where
  "binary_search_for_start qs val c =
     (let n = count (container_data c) in
      if n = 0 then Ret (-1, c)
      else cbind (sort_if_dirty qs c) (\<lambda>c.
        let d = data (container_data c) in
        cbind (start_loop (ncompare c) val d 0 n) (\<lambda>first.
          if first \<ge> n then Ret (-1, c)
          else cbind (elem_at d first) (\<lambda>e. Ret (if ncompare c e val \<noteq> 0 then -1 else c_int first, c)))))"

text \<open>The last index of the matching entries, at most \<open>INT_MAX - 1\<close>.\<close>

fun subset_end :: "('e \<Rightarrow> 'e \<Rightarrow> int) \<Rightarrow> 'e \<Rightarrow> 'e option list \<Rightarrow> nat \<Rightarrow> nat \<Rightarrow> int \<Rightarrow> int cres" where
  "subset_end ncmp key d 0 i lst = Ret lst"
| "subset_end ncmp key d (Suc left) i lst =
     cbind (elem_at d i) (\<lambda>e.
       if ncmp e key \<noteq> 0 then Ret lst
       else if lst \<ge> 2 ^ 31 - 2 then Ret lst
       else subset_end ncmp key d left (i + 1) (lst + 1))"

definition netsnmp_binary_array_get_subset ::
    "'e qsort \<Rightarrow> bool \<Rightarrow> 'e container \<Rightarrow> 'e option \<Rightarrow> ('e option list option \<times> 'e container) cres" where
  "netsnmp_binary_array_get_subset qs mem c key =
     (case key of
        None \<Rightarrow> Ret (None, c)
      | Some k \<Rightarrow>
          let n = count (container_data c) in
          if n = 0 then Ret (None, c)
          else cbind (sort_if_dirty qs c) (\<lambda>c.
            cbind (binary_search_for_start qs k c) (\<lambda>(start, c).
              if start < 0 \<or> start \<ge> 2 ^ 31 - 2 then Ret (None, c)
              else let d = data (container_data c) in
                cbind (subset_end (ncompare c) k d (n - (nat start + 1)) (nat start + 1) start) (\<lambda>lst.
                  let len = lst - start + 1 in
                  if len \<le> 0 \<or> len > (2 ^ 31 - 1) div 8 then Ret (None, c)
                  else if \<not> mem then Ret (None, c)
                  else Ret (Some (take (nat len) (drop (nat start) d)), c)))))"

text \<open>
  \<open>netsnmp_binary_array_options_set\<close> with the two flags it knows; another flag is -1. Testing gives 1 or 0.
\<close>

definition netsnmp_binary_array_options_set ::
    "'e qsort \<Rightarrow> 'e container \<Rightarrow> bool \<Rightarrow> u_int \<Rightarrow> (int \<times> 'e container) cres" where
  "netsnmp_binary_array_options_set qs c setting flags =
     (let dups = (flags AND 1 \<noteq> 0); unsorted = (flags AND 2 \<noteq> 0) in
      if setting then
        (if 3 AND flags = flags then
           let sort = key_unsorted c \<and> \<not> unsorted;
               c = c\<lparr>key_allow_duplicates := dups, key_unsorted := unsorted\<rparr> in
           if sort then
             cbind (Sort_Array qs (c\<lparr>container_data := (container_data c)\<lparr>dirty := True\<rparr>\<rparr>)) (\<lambda>(_, c). Ret (sint flags, c))
           else Ret (sint flags, c)
         else Ret (-1, c))
      else Ret (if (dups \<longrightarrow> key_allow_duplicates c) \<and> (unsorted \<longrightarrow> key_unsorted c) \<and> 3 AND flags = flags then 1 else 0, c))"

text \<open>The shallow copy: the comparisons, the filter, the flags and the table.\<close>

definition ba_duplicate :: "bool \<Rightarrow> 'e container \<Rightarrow> u_int \<Rightarrow> 'e container option" where \<comment> \<open>\<open>_ba_duplicate\<close>\<close>
  "ba_duplicate mem c flags = (if flags \<noteq> 0 then None else if \<not> mem then None else Some c)"

section \<open>Iterators\<close>

record ba_iterator =
  it_sync :: u_long
  it_pos :: nat

definition ba_iterator_position :: "'e container \<Rightarrow> ba_iterator \<Rightarrow> nat \<Rightarrow> 'e option cres" where
  "ba_iterator_position c it pos =
     (let t = container_data c in
      if csync c \<noteq> it_sync it then Ret None
      else if count t = 0 then Ret None
      else if pos \<ge> count t then Ret None
      else slot (data t) pos)"

definition ba_iterator_curr :: "'e container \<Rightarrow> ba_iterator \<Rightarrow> 'e option cres" where
  "ba_iterator_curr c it = ba_iterator_position c it (it_pos it)"

definition ba_iterator_first :: "'e container \<Rightarrow> ba_iterator \<Rightarrow> 'e option cres" where
  "ba_iterator_first c it = ba_iterator_position c it 0"

definition ba_iterator_next :: "'e container \<Rightarrow> ba_iterator \<Rightarrow> ('e option \<times> ba_iterator) cres" where
  "ba_iterator_next c it =
     (let it = it\<lparr>it_pos := size_add (it_pos it) 1\<rparr> in
      cbind (ba_iterator_position c it (it_pos it)) (\<lambda>e. Ret (e, it)))"

definition ba_iterator_last :: "'e container \<Rightarrow> ba_iterator \<Rightarrow> 'e option cres" where
  "ba_iterator_last c it = ba_iterator_position c it (size_sub (count (container_data c)) 1)"

definition ba_iterator_remove :: "'e container \<Rightarrow> ba_iterator \<Rightarrow> (int \<times> 'e container \<times> ba_iterator) cres" where
  "ba_iterator_remove c it =
     cbind (netsnmp_binary_array_remove_at c (it_pos it) False) (\<lambda>(rc, _, c).
       Ret (rc, c, it\<lparr>it_sync := it_sync it + 1, it_pos := size_sub (it_pos it) 1\<rparr>))"

definition ba_iterator_reset :: "'e qsort \<Rightarrow> 'e container \<Rightarrow> ('e container \<times> ba_iterator) cres" where
  "ba_iterator_reset qs c =
     cbind (sort_if_dirty qs c) (\<lambda>c. Ret (c, \<lparr>it_sync = csync c, it_pos = 0\<rparr>))"

section \<open>Comparisons\<close>

definition netsnmp_compare_netsnmp_index :: "oid \<Rightarrow> oid \<Rightarrow> int" where
  "netsnmp_compare_netsnmp_index lhs rhs = snmp_oid_compare lhs rhs"

definition netsnmp_ncompare_netsnmp_index :: "oid \<Rightarrow> oid \<Rightarrow> int" where
  "netsnmp_ncompare_netsnmp_index lhs rhs = snmp_oid_ncompare lhs rhs (length rhs)"

text \<open>\<open>memcmp\<close> of the first \<open>n\<close> bytes; of its result only the sign is specified.\<close>

fun mem_cmp :: "nat \<Rightarrow> bytes \<Rightarrow> bytes \<Rightarrow> int" where
  "mem_cmp (Suc n) (a # as) (b # bs) = (if a < b then -1 else if a > b then 1 else mem_cmp n as bs)"
| "mem_cmp _ _ _ = 0"

definition netsnmp_compare_mem :: "bytes \<Rightarrow> bytes \<Rightarrow> int" where
  "netsnmp_compare_mem lhs rhs =
     (let rc = mem_cmp (min (length lhs) (length rhs)) lhs rhs in
      if rc \<noteq> 0 then rc else c_int (size_sub (length lhs) (int (length rhs))))"

definition netsnmp_compare_long :: "u_long \<Rightarrow> u_long \<Rightarrow> int" where
  "netsnmp_compare_long lhs rhs = (if sint lhs < sint rhs then -1 else if sint lhs > sint rhs then 1 else 0)"

definition netsnmp_compare_ulong :: "u_long \<Rightarrow> u_long \<Rightarrow> int" where
  "netsnmp_compare_ulong lhs rhs = (if lhs < rhs then -1 else if lhs > rhs then 1 else 0)"

definition netsnmp_compare_int32 :: "u_int \<Rightarrow> u_int \<Rightarrow> int" where
  "netsnmp_compare_int32 lhs rhs = (if sint lhs < sint rhs then -1 else if sint lhs > sint rhs then 1 else 0)"

definition netsnmp_compare_uint32 :: "u_int \<Rightarrow> u_int \<Rightarrow> int" where
  "netsnmp_compare_uint32 lhs rhs = (if lhs < rhs then -1 else if lhs > rhs then 1 else 0)"

section \<open>Chains of containers\<close>

text \<open>
  A container and its further indexes (\<open>next\<close>), from the first on. An index whose filter matches is passed over.
  When an insertion fails the entry is removed again from the containers before.
\<close>

fun CONTAINER_INSERT_HELPER :: "'e qsort \<Rightarrow> bool list \<Rightarrow> 'e container list \<Rightarrow> 'e \<Rightarrow> (int \<times> 'e container list) cres" where
  "CONTAINER_INSERT_HELPER qs mems [] k = Ret (0, [])"
| "CONTAINER_INSERT_HELPER qs mems (x # xs) k =
     (if (case insert_filter x of None \<Rightarrow> False | Some f \<Rightarrow> f k) then
        cbind (CONTAINER_INSERT_HELPER qs mems xs k) (\<lambda>(rc, xs'). Ret (rc, x # xs'))
      else cbind (netsnmp_binary_array_insert qs (case mems of [] \<Rightarrow> True | m # _ \<Rightarrow> m) x (Some k)) (\<lambda>(rc, x').
        if rc \<noteq> 0 then Ret (rc, x' # xs)
        else cbind (CONTAINER_INSERT_HELPER qs (tl mems) xs k) (\<lambda>(rc, xs').
          if rc \<noteq> 0 then cbind (netsnmp_binary_array_remove qs x' k False) (\<lambda>(_, _, x''). Ret (rc, x'' # xs'))
          else Ret (0, x' # xs'))))"

text \<open>Removal starts at the last index; the error of a container with a filter does not count.\<close>

fun CONTAINER_REMOVE :: "'e qsort \<Rightarrow> 'e container list \<Rightarrow> 'e \<Rightarrow> (int \<times> 'e container list) cres" where
  "CONTAINER_REMOVE qs [] k = Ret (0, [])"
| "CONTAINER_REMOVE qs (x # xs) k =
     cbind (CONTAINER_REMOVE qs xs k) (\<lambda>(rc, xs').
       cbind (netsnmp_binary_array_remove qs x k False) (\<lambda>(rc2, _, x').
         Ret (if rc2 \<noteq> 0 \<and> insert_filter x = None then rc2 else rc, x' # xs')))"

end
