(* ===== verification/BinArraySpec.thy ===== *)
theory BinArraySpec
  imports BinArray
begin

text \<open>
  What the sorted array container of \<open>BinArray\<close> promises. The contract of a comparison function is the locale
  \<open>ba_order\<close> (a total preorder); the lemmas on the operations are proved in it once, and it is interpreted for the
  comparisons of \<^verbatim>\<open>snmplib/container.c\<close>. The abstract view of a container is the list of its elements, and, where
  no two have the same key, a map.
\<close>

section \<open>The contract of a comparison\<close>

locale ba_order =
  fixes cmp :: "'e \<Rightarrow> 'e \<Rightarrow> int"
  assumes cmp_refl [simp]: "cmp x x = 0"
    and cmp_swap: "cmp x y < 0 \<longleftrightarrow> cmp y x > 0"
    and cmp_trans: "cmp x y \<le> 0 \<Longrightarrow> cmp y z \<le> 0 \<Longrightarrow> cmp x z \<le> 0"
begin

abbreviation in_order :: "'e list \<Rightarrow> bool" where "in_order \<equiv> sorted_wrt (\<lambda>a b. cmp a b \<le> 0)"

lemma cmp_swap0: "cmp x y = 0 \<longleftrightarrow> cmp y x = 0"
  using cmp_swap [of x y] cmp_swap [of y x] by linarith

lemma cmp_swap_le: "cmp x y \<le> 0 \<longleftrightarrow> cmp y x \<ge> 0"
  using cmp_swap [of y x] by linarith

lemma less_le_trans: "cmp x y < 0 \<Longrightarrow> cmp y z \<le> 0 \<Longrightarrow> cmp x z < 0"
  using cmp_trans [of x y z] cmp_trans [of y z x] cmp_swap [of x y] cmp_swap0 [of x z] by (cases "cmp x z = 0") auto

lemma le_less_trans: "cmp x y \<le> 0 \<Longrightarrow> cmp y z < 0 \<Longrightarrow> cmp x z < 0"
  using cmp_trans [of x y z] cmp_trans [of z x y] cmp_swap [of y z] cmp_swap0 [of x z] by (cases "cmp x z = 0") auto

lemma sorted_nth: "in_order xs \<Longrightarrow> i \<le> j \<Longrightarrow> j < length xs \<Longrightarrow> cmp (xs ! i) (xs ! j) \<le> 0"
  by (cases "i = j") (auto simp: sorted_wrt_iff_nth_less)

text \<open>What a position says of the rest of a sorted list.\<close>

lemma below_less: "in_order xs \<Longrightarrow> i \<le> j \<Longrightarrow> j < length xs \<Longrightarrow> cmp (xs ! j) v < 0 \<Longrightarrow> cmp (xs ! i) v < 0"
  using sorted_nth le_less_trans by blast

lemma above_greater: "in_order xs \<Longrightarrow> i \<le> j \<Longrightarrow> j < length xs \<Longrightarrow> cmp (xs ! i) v > 0 \<Longrightarrow> cmp (xs ! j) v > 0"
  using sorted_nth [of xs i j] less_le_trans [of v "xs ! i" "xs ! j"] cmp_swap by blast

text \<open>The place of a value in a sorted list: what is before is less, what is behind is greater.\<close>

definition place :: "'e list \<Rightarrow> 'e \<Rightarrow> nat \<Rightarrow> bool" where
  "place xs v p \<longleftrightarrow> p \<le> length xs \<and> (\<forall>i < p. cmp (xs ! i) v < 0) \<and> (\<forall>i < length xs. p \<le> i \<longrightarrow> cmp (xs ! i) v > 0)"

lemma bsearch_loop_finds:
  assumes "\<And>i. i < length xs \<Longrightarrow> elem_at d i = Ret (xs ! i)" "in_order xs"
    and "first + len \<le> length xs" "\<forall>i < first. cmp (xs ! i) v < 0" "\<forall>i < length xs. first + len \<le> i \<longrightarrow> cmp (xs ! i) v > 0"
    and "len = 0 \<Longrightarrow> first = middle \<Longrightarrow> first < length xs \<Longrightarrow> result = cmp (xs ! first) v"
  shows "\<exists>f m r. bsearch_loop cmp v d first len middle result = Ret (f, m, r)
    \<and> ((r = 0 \<and> f = m \<and> f < length xs \<and> cmp (xs ! f) v = 0)
       \<or> place xs v f \<and> (f = m \<longrightarrow> f < length xs \<longrightarrow> r = cmp (xs ! f) v))"
  using assms(3-6)
proof (induction len arbitrary: first middle result rule: less_induct)
  case (less len)
  show ?case
  proof (cases "len = 0")
    case True
    then show ?thesis using less.prems by (simp add: bsearch_loop.simps place_def)
  next
    case False
    let ?m = "first + len div 2"
    have m: "?m < length xs" "len div 2 < len" using less.prems(1) False by linarith+
    have el: "elem_at d ?m = Ret (xs ! ?m)" using assms(1) m(1) by blast
    consider "cmp (xs ! ?m) v < 0" | "cmp (xs ! ?m) v = 0" | "cmp (xs ! ?m) v > 0" by linarith
    then show ?thesis
    proof cases
      case 1
      have "\<forall>i < ?m + 1. cmp (xs ! i) v < 0" using below_less [OF assms(2) _ m(1) 1] by (auto simp: less_Suc_eq_le)
      moreover have "?m + 1 + (len - len div 2 - 1) = first + len" using m(2) by linarith
      ultimately show ?thesis
        using less.IH [of "len - len div 2 - 1" "?m + 1" ?m "cmp (xs ! ?m) v"] less.prems m False 1
        by (subst bsearch_loop.simps) (simp add: Let_def el)
    next
      case 2
      then show ?thesis using False m(1) by (subst bsearch_loop.simps) (auto simp: Let_def el)
    next
      case 3
      have "\<forall>i < length xs. first + len div 2 \<le> i \<longrightarrow> cmp (xs ! i) v > 0" using above_greater [OF assms(2) _ _ 3] by blast
      moreover have "len div 2 = 0 \<Longrightarrow> ?m = first" by simp
      moreover have "\<not> cmp (xs ! ?m) v < 0" "cmp (xs ! ?m) v \<noteq> 0" using 3 by simp_all
      ultimately show ?thesis
        using less.IH [OF m(2), of first ?m "cmp (xs ! ?m) v"] less.prems m False
        by (subst bsearch_loop.simps) (simp add: Let_def el)
    qed
  qed
qed

lemma start_loop_finds:
  assumes "\<And>i. i < length xs \<Longrightarrow> elem_at d i = Ret (xs ! i)" "\<And>i j. i \<le> j \<Longrightarrow> j < length xs \<Longrightarrow> ncmp (xs ! j) v < 0 \<Longrightarrow> ncmp (xs ! i) v < 0"
    and "first + len \<le> length xs" "\<forall>i < first. ncmp (xs ! i) v < 0" "\<forall>i < length xs. first + len \<le> i \<longrightarrow> ncmp (xs ! i) v \<ge> 0"
  shows "\<exists>f. start_loop ncmp v d first len = Ret f \<and> f \<le> length xs
    \<and> (\<forall>i < f. ncmp (xs ! i) v < 0) \<and> (\<forall>i < length xs. f \<le> i \<longrightarrow> ncmp (xs ! i) v \<ge> 0)"
  using assms(3-5)
proof (induction len arbitrary: first rule: less_induct)
  case (less len)
  show ?case
  proof (cases "len = 0")
    case True
    then show ?thesis using less.prems by (simp add: start_loop.simps)
  next
    case False
    let ?m = "first + len div 2"
    have m: "?m < length xs" "len div 2 < len" using less.prems(1) False by linarith+
    have el: "elem_at d ?m = Ret (xs ! ?m)" using assms(1) m(1) by blast
    show ?thesis
    proof (cases "ncmp (xs ! ?m) v < 0")
      case True
      have "\<forall>i < ?m + 1. ncmp (xs ! i) v < 0" using assms(2) [OF _ m(1) True] by (auto simp: less_Suc_eq_le)
      moreover have "?m + 1 + (len - len div 2 - 1) = first + len" using m(2) by linarith
      ultimately show ?thesis
        using less.IH [of "len - len div 2 - 1" "?m + 1"] less.prems m False True
        by (subst start_loop.simps) (simp add: Let_def el)
    next
      case False': False
      have "\<forall>i < length xs. ?m \<le> i \<longrightarrow> ncmp (xs ! i) v \<ge> 0" using assms(2) False' by (meson not_le_imp_less)
      then show ?thesis
        using less.IH [OF m(2), of first] less.prems m False False'
        by (subst start_loop.simps) (simp add: Let_def el)
    qed
  qed
qed

end

section \<open>The elements of a container\<close>

definition elems :: "'e container \<Rightarrow> 'e list" where
  "elems c = map the (take (count (container_data c)) (data (container_data c)))"

definition table_ok :: "'e container \<Rightarrow> bool" where
  "table_ok c \<longleftrightarrow> count (container_data c) \<le> length (data (container_data c))
     \<and> None \<notin> set (take (count (container_data c)) (data (container_data c)))"

text \<open>What no operation but the setting of options changes.\<close>

definition same_kind :: "'e container \<Rightarrow> 'e container \<Rightarrow> bool" where
  "same_kind c c' \<longleftrightarrow> compare c' = compare c \<and> ncompare c' = ncompare c \<and> insert_filter c' = insert_filter c
     \<and> key_allow_duplicates c' = key_allow_duplicates c \<and> key_unsorted c' = key_unsorted c"

lemma same_kind_refl [simp]: "same_kind c c" by (simp add: same_kind_def)

lemma same_kind_trans: "same_kind a b \<Longrightarrow> same_kind b c \<Longrightarrow> same_kind a c" by (simp add: same_kind_def)

lemma length_elems: "table_ok c \<Longrightarrow> length (elems c) = count (container_data c)"
  by (simp add: elems_def table_ok_def)

lemma live_elems: "table_ok c \<Longrightarrow> live (container_data c) = Ret (elems c)"
  by (simp add: live_def table_ok_def elems_def)

lemma slot_elems:
  assumes "table_ok c" "i < length (elems c)"
  shows "slot (data (container_data c)) i = Ret (Some (elems c ! i))" "elem_at (data (container_data c)) i = Ret (elems c ! i)"
proof -
  let ?t = "container_data c"
  have i: "i < count ?t" "i < length (data ?t)" using assms length_elems [OF assms(1)] by (auto simp: table_ok_def)
  have "take (count ?t) (data ?t) ! i \<noteq> None" using assms(1) i by (auto simp: table_ok_def in_set_conv_nth)
  then have "data ?t ! i = Some (elems c ! i)" using i by (auto simp: elems_def)
  then show "slot (data ?t) i = Ret (Some (elems c ! i))" "elem_at (data ?t) i = Ret (elems c ! i)"
    using i by (simp_all add: slot_def elem_at_def)
qed

lemma elems_data: "data (container_data c) = map Some xs @ r \<Longrightarrow> count (container_data c) = length xs \<Longrightarrow> table_ok c \<and> elems c = xs"
  by (auto simp: elems_def table_ok_def comp_def)

lemma table_split: "table_ok c \<Longrightarrow> \<exists>r. data (container_data c) = map Some (elems c) @ r \<and> count (container_data c) = length (elems c)"
proof
  assume ok: "table_ok c"
  let ?t = "container_data c"
  have "map Some (elems c) = take (count ?t) (data ?t)"
    using ok by (auto simp: elems_def table_ok_def intro!: map_idI) (metis option.exhaust_sel)
  then show "data ?t = map Some (elems c) @ drop (count ?t) (data ?t) \<and> count ?t = length (elems c)"
    using length_elems [OF ok] by simp
qed

text \<open>The contract of \<open>qsort\<close>, and a sort that meets it.\<close>

definition qsort_ok :: "'e qsort \<Rightarrow> ('e \<Rightarrow> 'e \<Rightarrow> int) \<Rightarrow> bool" where
  "qsort_ok qs cmp \<longleftrightarrow> (\<forall>xs. mset (qs cmp xs) = mset xs \<and> sorted_wrt (\<lambda>a b. cmp a b \<le> 0) (qs cmp xs))"

fun cmp_insort :: "('e \<Rightarrow> 'e \<Rightarrow> int) \<Rightarrow> 'e \<Rightarrow> 'e list \<Rightarrow> 'e list" where
  "cmp_insort cmp x [] = [x]"
| "cmp_insort cmp x (y # ys) = (if cmp x y \<le> 0 then x # y # ys else y # cmp_insort cmp x ys)"

definition insertion_sort :: "'e qsort" where
  "insertion_sort cmp xs = foldr (cmp_insort cmp) xs []"

lemma mset_cmp_insort [simp]: "mset (cmp_insort cmp x ys) = add_mset x (mset ys)"
  by (induction ys) auto

lemma set_cmp_insort [simp]: "set (cmp_insort cmp x ys) = insert x (set ys)"
  by (metis mset_cmp_insort set_mset_add_mset_insert set_mset_mset)

section \<open>Sorting and searching\<close>

context ba_order
begin

lemma in_order_insort: "in_order ys \<Longrightarrow> in_order (cmp_insort cmp x ys)"
proof (induction ys)
  case (Cons y ys)
  then show ?case using cmp_trans [of x y] cmp_swap_le [of x y] by auto
qed simp

lemma qsort_insertion_sort: "qsort_ok insertion_sort cmp"
proof -
  have "mset (insertion_sort cmp xs) = mset xs \<and> in_order (insertion_sort cmp xs)" for xs
    by (induction xs) (simp_all add: insertion_sort_def in_order_insort)
  then show ?thesis by (simp add: qsort_ok_def)
qed

text \<open>The state of a container: a sound table, sorted unless it is marked dirty or unsorted.\<close>

definition wf :: "'e container \<Rightarrow> bool" where
  "wf c \<longleftrightarrow> compare c = cmp \<and> table_ok c \<and> (\<not> key_unsorted c \<longrightarrow> \<not> dirty (container_data c) \<longrightarrow> in_order (elems c))"

text \<open>The state a search works on.\<close>

definition ready :: "'e container \<Rightarrow> bool" where
  "ready c \<longleftrightarrow> compare c = cmp \<and> table_ok c \<and> \<not> key_unsorted c \<and> \<not> dirty (container_data c) \<and> in_order (elems c)"

lemma ready_wf: "ready c \<Longrightarrow> wf c" by (simp add: ready_def wf_def)

lemma ready_sorted: "ready c \<Longrightarrow> sort_if_dirty qs c = Ret c" by (simp add: ready_def sort_if_dirty_def)

lemma Sort_Array_dirty:
  assumes "compare c = cmp" "table_ok c" "\<not> key_unsorted c" "dirty (container_data c)" "qsort_ok qs cmp"
  shows "\<exists>c'. Sort_Array qs c = Ret (1, c') \<and> ready c' \<and> mset (elems c') = mset (elems c) \<and> same_kind c c'"
proof -
  let ?t = "container_data c"
  define c' where "c' = c\<lparr>container_data := ?t\<lparr>data := map Some (qs cmp (elems c)) @ drop (count ?t) (data ?t), dirty := False\<rparr>,
      csync := csync c + 1\<rparr>"
  have q: "mset (qs cmp (elems c)) = mset (elems c)" "in_order (qs cmp (elems c))" using assms(5) by (simp_all add: qsort_ok_def)
  have "length (qs cmp (elems c)) = count ?t" using q(1) length_elems [OF assms(2)] by (metis size_mset)
  then have "table_ok c' \<and> elems c' = qs cmp (elems c)" by (intro elems_data) (simp_all add: c'_def)
  moreover have "Sort_Array qs c = Ret (1, c')"
    using assms(1,3,4) live_elems [OF assms(2)] by (simp add: Sort_Array_def c'_def Let_def)
  ultimately show ?thesis using q assms(1,3) by (simp add: ready_def same_kind_def) (simp add: c'_def)
qed

lemma sort_if_dirty_ready:
  assumes "wf c" "\<not> key_unsorted c" "qsort_ok qs cmp"
  shows "\<exists>c'. sort_if_dirty qs c = Ret c' \<and> ready c' \<and> mset (elems c') = mset (elems c) \<and> same_kind c c'"
proof (cases "dirty (container_data c)")
  case True
  have "compare c = cmp" "table_ok c" using assms(1) by (simp_all add: wf_def)
  from Sort_Array_dirty [OF this assms(2) True assms(3)] show ?thesis using True by (auto simp: sort_if_dirty_def)
qed (use assms in \<open>auto simp: sort_if_dirty_def wf_def ready_def\<close>)

text \<open>A sorted list splits at the place of a value into the smaller, the equal and the greater elements.\<close>

end

context ba_order
begin

lemma binary_search_probe:
  assumes "ready c" "count (container_data c) \<noteq> 0"
  defines "n \<equiv> length (elems c)"
  shows "\<exists>f. (f < n \<longrightarrow> cmp (elems c ! f) v = 0 \<or> place (elems c) v f) \<and> (\<not> f < n \<longrightarrow> place (elems c) v n)
    \<and> binary_search qs v c exact =
      (if \<not> f < n then Ret (-1, if exact then Some n else None, c)
       else if cmp (elems c ! f) v = 0 then
         (if exact then Ret (c_int f, Some (f + 1), c)
          else if f + 1 = n then Ret (-1, Some n, c) else Ret (c_int (f + 1), None, c))
       else if exact then Ret (-1, Some f, c) else Ret (c_int f, None, c))"
proof -
  let ?d = "data (container_data c)"
  have ok: "table_ok c" "in_order (elems c)" "\<not> key_unsorted c" "compare c = cmp" using assms(1) by (simp_all add: ready_def)
  have n: "count (container_data c) = n" "n \<noteq> 0" using length_elems [OF ok(1)] assms(2) by (simp_all add: n_def)
  obtain f m r where l: "bsearch_loop cmp v ?d 0 n 0 0 = Ret (f, m, r)"
    "(r = 0 \<and> f = m \<and> f < n \<and> cmp (elems c ! f) v = 0)
       \<or> place (elems c) v f \<and> (f = m \<longrightarrow> f < n \<longrightarrow> r = cmp (elems c ! f) v)"
    using bsearch_loop_finds [of "elems c" ?d 0 n v 0 0] slot_elems(2) [OF ok(1)] ok(2) n by (auto simp: n_def)
  have e: "f < n \<Longrightarrow> elem_at ?d f = Ret (elems c ! f)" using slot_elems(2) [OF ok(1)] by (simp add: n_def)
  have fr: "f < n \<Longrightarrow> f = m \<Longrightarrow> r = cmp (elems c ! f) v" using l(2) by auto
  have pos: "f < n \<Longrightarrow> cmp (elems c ! f) v \<noteq> 0 \<Longrightarrow> cmp (elems c ! f) v > 0" using l(2) by (auto simp: place_def n_def)
  have "binary_search qs v c exact =
      (if \<not> f < n then Ret (-1, if exact then Some n else None, c)
       else if cmp (elems c ! f) v = 0 then
         (if exact then Ret (c_int f, Some (f + 1), c)
          else if f + 1 = n then Ret (-1, Some n, c) else Ret (c_int (f + 1), None, c))
       else if exact then Ret (-1, Some f, c) else Ret (c_int f, None, c))"
  proof (cases "f < n \<and> f \<noteq> m")
    case True
    then show ?thesis using n ok(3,4) l(1) e pos by (simp add: binary_search_def Let_def ready_sorted [OF assms(1)])
  next
    case False
    show ?thesis
    proof (cases "f < n")
      case True
      then have m: "m = f" "r = cmp (elems c ! f) v" using False fr by auto
      show ?thesis using True n ok(3,4) l(1) pos [OF True] by (simp add: binary_search_def Let_def ready_sorted [OF assms(1)] m)
    qed (use n ok(3,4) l(1) in \<open>simp add: binary_search_def Let_def ready_sorted [OF assms(1)]\<close>)
  qed
  moreover have "f < n \<longrightarrow> cmp (elems c ! f) v = 0 \<or> place (elems c) v f" using l(2) by auto
  moreover have "\<not> f < n \<longrightarrow> place (elems c) v n" using l(2) by (auto simp: place_def n_def)
  ultimately show ?thesis by blast
qed

lemma binary_search_empty: "count (container_data c) = 0 \<Longrightarrow> binary_search qs v c exact = Ret (-1, Some 0, c)"
  by (simp add: binary_search_def)

lemma binary_search_exact:
  assumes "ready c" "length (elems c) < 2 ^ 31"
  shows "(\<exists>k. binary_search qs v c True = Ret (int k, Some (k + 1), c) \<and> k < length (elems c) \<and> cmp (elems c ! k) v = 0)
    \<or> (\<exists>p. binary_search qs v c True = Ret (-1, Some p, c) \<and> place (elems c) v p)"
proof (cases "count (container_data c) = 0")
  case True
  then have "place (elems c) v 0" using assms(1) length_elems [of c] by (simp add: place_def ready_def)
  then show ?thesis using binary_search_empty [OF True] by auto
next
  case False
  obtain f where "(f < length (elems c) \<longrightarrow> cmp (elems c ! f) v = 0 \<or> place (elems c) v f)"
    "\<not> f < length (elems c) \<longrightarrow> place (elems c) v (length (elems c))"
    "binary_search qs v c True = (if \<not> f < length (elems c) then Ret (-1, Some (length (elems c)), c)
       else if cmp (elems c ! f) v = 0 then Ret (c_int f, Some (f + 1), c) else Ret (-1, Some f, c))"
    using binary_search_probe [OF assms(1) False, of v qs True] unfolding if_True by blast
  then consider "f < length (elems c)" "cmp (elems c ! f) v = 0" "binary_search qs v c True = Ret (c_int f, Some (f + 1), c)"
    | p where "place (elems c) v p" "binary_search qs v c True = Ret (-1, Some p, c)"
    by (metis (full_types))
  then show ?thesis
  proof cases
    case 1
    have "c_int f = int f" using 1(1) assms(2) by (intro c_int_small) linarith
    then have "binary_search qs v c True = Ret (int f, Some (f + 1), c)" using 1(3) by (simp only:)
    then show ?thesis using 1(1,2) by blast
  next
    case 2
    then show ?thesis by blast
  qed
qed

end

section \<open>Lookups\<close>

context ba_order
begin

definition distinct_keys :: "'e list \<Rightarrow> bool" where
  "distinct_keys xs \<longleftrightarrow> sorted_wrt (\<lambda>a b. cmp a b \<noteq> 0) xs"

lemma distinct_keys_nth: "distinct_keys xs \<Longrightarrow> i < j \<Longrightarrow> j < length xs \<Longrightarrow> cmp (xs ! i) (xs ! j) \<noteq> 0"
  by (simp add: distinct_keys_def sorted_wrt_iff_nth_less)

lemma cmp_equal_trans:
  assumes "cmp x z = 0" "cmp y z = 0"
  shows "cmp x y = 0"
proof -
  have "cmp z x = 0" "cmp z y = 0" using assms cmp_swap0 by blast+
  then have "cmp x y \<le> 0" "cmp y x \<le> 0" using cmp_trans [of x z y] cmp_trans [of y z x] assms by simp_all
  then show ?thesis using cmp_swap_le [of y x] by simp
qed

lemma cmp_equal_subst: "cmp x y = 0 \<Longrightarrow> cmp x z = 0 \<longleftrightarrow> cmp y z = 0"
  using cmp_equal_trans cmp_swap0 by blast

text \<open>The answer to a search for the next key: the first element that is greater.\<close>

definition next_of :: "'e list \<Rightarrow> 'e \<Rightarrow> 'e option \<Rightarrow> bool" where
  "next_of xs k r \<longleftrightarrow> (case r of
     None \<Rightarrow> \<forall>e \<in> set xs. cmp e k \<le> 0
   | Some e \<Rightarrow> \<exists>p < length xs. e = xs ! p \<and> cmp e k > 0 \<and> (\<forall>i < p. cmp (xs ! i) k \<le> 0))"

lemma skip_equal_finds:
  assumes "\<And>i. i < length xs \<Longrightarrow> elem_at d i = Ret (xs ! i)" "index + left = length xs"
  shows "\<exists>r. skip_equal cmp k d left index = Ret r \<and>
    (case r of None \<Rightarrow> \<forall>i < length xs. index \<le> i \<longrightarrow> cmp (xs ! i) k = 0
     | Some j \<Rightarrow> index \<le> j \<and> j < length xs \<and> cmp (xs ! j) k \<noteq> 0 \<and> (\<forall>i < j. index \<le> i \<longrightarrow> cmp (xs ! i) k = 0))"
  using assms(2)
proof (induction left arbitrary: index)
  case (Suc left)
  have e: "elem_at d index = Ret (xs ! index)" using assms(1) Suc.prems by simp
  show ?case
  proof (cases "cmp (xs ! index) k = 0")
    case True
    obtain r where r: "skip_equal cmp k d left (index + 1) = Ret r"
      "case r of None \<Rightarrow> \<forall>i < length xs. index + 1 \<le> i \<longrightarrow> cmp (xs ! i) k = 0
       | Some j \<Rightarrow> index + 1 \<le> j \<and> j < length xs \<and> cmp (xs ! j) k \<noteq> 0 \<and> (\<forall>i < j. index + 1 \<le> i \<longrightarrow> cmp (xs ! i) k = 0)"
      using Suc.IH [of "index + 1"] Suc.prems by auto
    have "index \<le> i \<Longrightarrow> index = i \<or> index + 1 \<le> i" for i by linarith
    then show ?thesis using r True e by (fastforce split: option.splits)
  next
    case False
    then show ?thesis using e Suc.prems by auto
  qed
qed simp

lemma get_next_equal:
  assumes "in_order xs" "f < length xs" "cmp (xs ! f) k = 0" "f < j" "j < length xs" "cmp (xs ! j) k \<noteq> 0"
    "\<forall>i < j. f < i \<longrightarrow> cmp (xs ! i) k = 0"
  shows "next_of xs k (Some (xs ! j))"
proof -
  have "cmp (xs ! f) (xs ! j) \<le> 0" by (rule sorted_nth [OF assms(1) _ assms(5)]) (use assms(4) in simp)
  then have "cmp (xs ! j) k \<ge> 0"
    using cmp_trans [of k "xs ! f" "xs ! j"] assms(3) cmp_swap_le [of k "xs ! f"] cmp_swap_le [of k "xs ! j"] by auto
  moreover have "cmp (xs ! i) k \<le> 0" if "i < j" for i
  proof (cases "i \<le> f")
    case True
    then show ?thesis using cmp_trans [OF sorted_nth [OF assms(1) True assms(2)]] assms(3) by simp
  qed (use assms(7) that in simp)
  ultimately show ?thesis using assms(5,6) by (auto simp: next_of_def intro!: exI [of _ j])
qed

lemma get_next_last:
  assumes "in_order xs" "f < length xs" "cmp (xs ! f) k = 0" "\<forall>i < length xs. f < i \<longrightarrow> cmp (xs ! i) k = 0"
  shows "next_of xs k None"
proof -
  have "cmp (xs ! i) k \<le> 0" if "i < length xs" for i
    using cmp_trans [OF sorted_nth [OF assms(1) _ assms(2)], of i k] assms(3,4) that by (cases "i \<le> f") auto
  then show ?thesis by (auto simp: next_of_def in_set_conv_nth)
qed

lemma place_next: "place xs k p \<Longrightarrow> next_of xs k (if p < length xs then Some (xs ! p) else None)"
  by (auto simp: place_def next_of_def in_set_conv_nth less_imp_le intro!: exI [of _ p])

text \<open>The index a search for the next key finds before duplicates are skipped.\<close>

lemma binary_search_next:
  assumes "ready c" "length (elems c) < 2 ^ 31"
  shows "\<exists>nx. (\<exists>f. f < length (elems c) \<and> cmp (elems c ! f) v = 0
        \<and> binary_search qs v c False = Ret (if f + 1 < length (elems c) then int (f + 1) else -1, nx, c))
    \<or> (\<exists>p. place (elems c) v p \<and> binary_search qs v c False = Ret (if p < length (elems c) then int p else -1, nx, c))"
proof (cases "count (container_data c) = 0")
  case True
  then have "place (elems c) v 0" "elems c = []" using assms(1) length_elems [of c] by (simp_all add: place_def ready_def)
  then show ?thesis using binary_search_empty [OF True] by auto
next
  case False
  let ?n = "length (elems c)"
  obtain f where f: "(f < ?n \<longrightarrow> cmp (elems c ! f) v = 0 \<or> place (elems c) v f)"
    "\<not> f < ?n \<longrightarrow> place (elems c) v ?n"
    "binary_search qs v c False = (if \<not> f < ?n then Ret (-1, None, c)
       else if cmp (elems c ! f) v = 0 then (if f + 1 = ?n then Ret (-1, Some ?n, c) else Ret (c_int (f + 1), None, c))
       else Ret (c_int f, None, c))"
    using binary_search_probe [OF assms(1) False, of v qs False] unfolding if_False by blast
  consider "\<not> f < ?n" | "f < ?n" "cmp (elems c ! f) v = 0" | "f < ?n" "cmp (elems c ! f) v \<noteq> 0" by blast
  then show ?thesis
  proof cases
    case 1
    then show ?thesis using f by auto
  next
    case 2
    then have "binary_search qs v c False = Ret (if f + 1 < ?n then int (f + 1) else -1, if f + 1 = ?n then Some ?n else None, c)"
      using f(3) assms(2) by auto
    then show ?thesis using 2 by blast
  next
    case 3
    then have "binary_search qs v c False = Ret (if f < ?n then int f else -1, None, c)" "place (elems c) v f"
      using f assms(2) by auto
    then show ?thesis by blast
  qed
qed

end

context ba_order
begin

lemma get_ready_exact:
  assumes "ready c" "length (elems c) < 2 ^ 31"
  shows "\<exists>r. netsnmp_binary_array_get qs c (Some k) True = Ret (r, c)
    \<and> (case r of None \<Rightarrow> \<forall>e \<in> set (elems c). cmp e k \<noteq> 0 | Some e \<Rightarrow> e \<in> set (elems c) \<and> cmp e k = 0)"
proof (cases "count (container_data c) = 0")
  case True
  then show ?thesis using assms(1) length_elems [of c] by (auto simp: netsnmp_binary_array_get_def ready_def)
next
  case False
  have ok: "table_ok c" "compare c = cmp" using assms(1) by (simp_all add: ready_def)
  consider i where "binary_search qs k c True = Ret (int i, Some (i + 1), c)" "i < length (elems c)" "cmp (elems c ! i) k = 0"
    | p where "binary_search qs k c True = Ret (-1, Some p, c)" "place (elems c) k p"
    using binary_search_exact [OF assms, of qs k] by blast
  then show ?thesis
  proof cases
    case 1
    then have "netsnmp_binary_array_get qs c (Some k) True = Ret (Some (elems c ! i), c)"
      using False slot_elems(1) [OF ok(1)] by (simp add: netsnmp_binary_array_get_def Let_def ready_sorted [OF assms(1)])
    then show ?thesis using 1(2,3) by auto
  next
    case 2
    then have "netsnmp_binary_array_get qs c (Some k) True = Ret (None, c)"
      using False by (simp add: netsnmp_binary_array_get_def Let_def ready_sorted [OF assms(1)])
    moreover have "cmp (elems c ! i) k \<noteq> 0" if "i < length (elems c)" for i
      using 2(2) that unfolding place_def by (cases "i < p") force+
    ultimately show ?thesis by (auto simp: in_set_conv_nth)
  qed
qed

lemma get_ready_next:
  assumes "ready c" "length (elems c) < 2 ^ 31" "key_allow_duplicates c \<or> distinct_keys (elems c)"
  shows "\<exists>r. netsnmp_binary_array_get qs c (Some k) False = Ret (r, c) \<and> next_of (elems c) k r"
proof (cases "count (container_data c) = 0")
  case True
  then show ?thesis using assms(1) length_elems [of c] by (auto simp: netsnmp_binary_array_get_def ready_def next_of_def)
next
  case False
  let ?d = "data (container_data c)" and ?xs = "elems c" and ?n = "length (elems c)"
  have ok: "table_ok c" "compare c = cmp" "in_order ?xs" using assms(1) by (simp_all add: ready_def)
  have n: "count (container_data c) = ?n" using length_elems [OF ok(1)] by simp
  define get where "get = netsnmp_binary_array_get qs c (Some k) False"
  have none: "get = Ret (None, c)" if "binary_search qs k c False = Ret (-1, nx, c)" for nx
    using that False by (simp add: get_def netsnmp_binary_array_get_def Let_def ready_sorted [OF assms(1)])
  have plain: "get = Ret (Some (?xs ! i), c)"
    if bs: "binary_search qs k c False = Ret (int i, nx, c)" and i: "i < ?n" and ne: "\<not> key_allow_duplicates c \<or> cmp (?xs ! i) k \<noteq> 0" for i nx
  proof (cases "key_allow_duplicates c")
    case True
    obtain m where "?n - i = Suc m" using i by (metis Suc_diff_Suc)
    then have "skip_equal cmp k ?d (?n - i) i = Ret (Some i)" using slot_elems(2) [OF ok(1) i] ne True by simp
    then show ?thesis
      using bs i ne False n True ok(2) slot_elems(1) [OF ok(1) i]
      by (simp add: get_def netsnmp_binary_array_get_def Let_def ready_sorted [OF assms(1)])
  next
    case False': False
    then show ?thesis
      using bs i ne False slot_elems(1) [OF ok(1) i]
      by (simp add: get_def netsnmp_binary_array_get_def Let_def ready_sorted [OF assms(1)])
  qed
  obtain nx where "(\<exists>f. f < ?n \<and> cmp (?xs ! f) k = 0 \<and> binary_search qs k c False = Ret (if f + 1 < ?n then int (f + 1) else -1, nx, c))
    \<or> (\<exists>p. place ?xs k p \<and> binary_search qs k c False = Ret (if p < ?n then int p else -1, nx, c))"
    using binary_search_next [OF assms(1,2), of k qs] by blast
  then consider (equal) f where "f < ?n" "cmp (?xs ! f) k = 0"
      "binary_search qs k c False = Ret (if f + 1 < ?n then int (f + 1) else -1, nx, c)"
    | (place) p where "place ?xs k p" "binary_search qs k c False = Ret (if p < ?n then int p else -1, nx, c)" by blast
  then show ?thesis
  proof cases
    case place
    have "get = Ret (if p < ?n then Some (?xs ! p) else None, c)"
    proof (cases "p < ?n")
      case True
      have "cmp (?xs ! p) k \<noteq> 0" using place(1) True by (auto simp: place_def)
      then show ?thesis using plain [of p nx] place(2) True by simp
    qed (use none place(2) in simp)
    then show ?thesis using place_next [OF place(1)] by (auto simp: get_def)
  next
    case equal
    show ?thesis
    proof (cases "f + 1 < ?n")
      case False
      then have "get = Ret (None, c)" using none equal(3) by simp
      moreover have "next_of ?xs k None" by (rule get_next_last [OF ok(3) equal(1,2)]) (use False in auto)
      ultimately show ?thesis by (auto simp: get_def)
    next
      case True
      have bs: "binary_search qs k c False = Ret (int (f + 1), nx, c)" using equal(3) True by simp
      show ?thesis
      proof (cases "key_allow_duplicates c")
        case False
        then have "cmp (?xs ! f) (?xs ! (f + 1)) \<noteq> 0" using distinct_keys_nth [of ?xs f "f + 1"] assms(3) True by simp
        then have ne: "cmp (?xs ! (f + 1)) k \<noteq> 0" using cmp_equal_trans [OF equal(2)] by blast
        have "next_of ?xs k (Some (?xs ! (f + 1)))"
          by (rule get_next_equal [OF ok(3) equal(1,2) _ True ne]) auto
        then show ?thesis using plain [OF bs True] False by (auto simp: get_def)
      next
        case dups: True
        obtain r where r: "skip_equal cmp k ?d (?n - (f + 1)) (f + 1) = Ret r"
          "case r of None \<Rightarrow> \<forall>i < ?n. f + 1 \<le> i \<longrightarrow> cmp (?xs ! i) k = 0
           | Some j \<Rightarrow> f + 1 \<le> j \<and> j < ?n \<and> cmp (?xs ! j) k \<noteq> 0 \<and> (\<forall>i < j. f + 1 \<le> i \<longrightarrow> cmp (?xs ! i) k = 0)"
          using skip_equal_finds [OF slot_elems(2) [OF ok(1)] le_add_diff_inverse [OF less_imp_le [OF True]]] by blast
        have "get = (case r of None \<Rightarrow> Ret (None, c) | Some i \<Rightarrow> cbind (slot ?d i) (\<lambda>e. Ret (e, c)))"
          using bs False n dups ok(2) r(1) by (simp add: get_def netsnmp_binary_array_get_def Let_def ready_sorted [OF assms(1)] nat_add_distrib)
        then show ?thesis
          using r(2) get_next_last [OF ok(3) equal(1,2)] get_next_equal [OF ok(3) equal(1,2)] slot_elems(1) [OF ok(1)]
          by (cases r) (auto simp: get_def Suc_le_eq)
      qed
    qed
  qed
qed

end

section \<open>Insertion and removal\<close>

lemma table_elemsI:
  "data (container_data c) = map Some xs @ r \<Longrightarrow> count (container_data c) = length xs \<Longrightarrow> table_ok c"
  "data (container_data c) = map Some xs @ r \<Longrightarrow> count (container_data c) = length xs \<Longrightarrow> elems c = xs"
  using elems_data by blast+

lemma insert_before_elems:
  assumes "table_ok c" "p \<le> length (elems c)" "mem"
  shows "\<exists>c'. netsnmp_binary_array_insert_before mem c p (Some e) d = Ret (0, c') \<and> table_ok c' \<and> same_kind c c'
    \<and> elems c' = take p (elems c) @ e # drop p (elems c) \<and> csync c' = csync c + 1
    \<and> dirty (container_data c') = (dirty (container_data c) \<or> d)"
proof -
  let ?t = "container_data c" and ?xs = "elems c"
  obtain r where r: "data ?t = map Some ?xs @ r" "count ?t = length ?xs" using table_split [OF assms(1)] by blast
  obtain rc t' r' where t': "ba_resize_check mem ?t = (rc, t')" "data t' = map Some ?xs @ r'" "count t' = length ?xs"
    "dirty t' = dirty ?t" "r' \<noteq> []"
    using r assms(3) by (cases "r = []") (auto simp: ba_resize_check_def Let_def)
  define c' where "c' = c\<lparr>container_data := t'\<lparr>
      data := take p (data t') @ Some e # take (count t' - p) (drop p (data t')) @ drop (count t' + 1) (data t'),
      count := count t' + 1, dirty := dirty t' \<or> d\<rparr>, csync := csync c + 1\<rparr>"
  have "data (container_data c') = map Some (take p ?xs @ e # drop p ?xs) @ tl r'"
    using t' assms(2) by (simp add: c'_def take_map drop_map drop_Suc tl_drop [symmetric] drop_append)
  then have "table_ok c' \<and> elems c' = take p ?xs @ e # drop p ?xs"
    using t' assms(2) by (intro elems_data) (simp_all add: c'_def)
  moreover have "netsnmp_binary_array_insert_before mem c p (Some e) d = Ret (0, c')"
    using t' assms(2) r(2) by (cases r') (simp_all add: netsnmp_binary_array_insert_before_def Let_def c'_def)
  moreover have "same_kind c c'" "csync c' = csync c + 1" "dirty (container_data c') = (dirty ?t \<or> d)"
    using t'(4) by (simp_all add: c'_def same_kind_def)
  ultimately show ?thesis by blast
qed

lemma remove_at_elems:
  assumes "table_ok c" "i < length (elems c)"
  shows "\<exists>c'. netsnmp_binary_array_remove_at c i save = Ret (0, if save then Some (elems c ! i) else None, c')
    \<and> table_ok c' \<and> same_kind c c' \<and> elems c' = take i (elems c) @ drop (i + 1) (elems c)
    \<and> csync c' = (if i + 1 = length (elems c) then csync c else csync c + 1)
    \<and> dirty (container_data c') = dirty (container_data c)"
proof -
  let ?t = "container_data c" and ?xs = "elems c"
  obtain r where r: "data ?t = map Some ?xs @ r" "count ?t = length ?xs" using table_split [OF assms(1)] by blast
  have sl: "slot (data ?t) i = Ret (Some (?xs ! i))" using slot_elems(1) [OF assms] .
  define n where "n = length ?xs - 1"
  have n: "length ?xs = Suc n" using assms(2) by (simp add: n_def)
  show ?thesis
  proof (cases "i = n")
    case True
    define c' where "c' = c\<lparr>container_data := ?t\<lparr>count := n\<rparr>\<rparr>"
    have "data (container_data c') = map Some (take n ?xs) @ map Some (drop n ?xs) @ r"
      by (simp add: c'_def r(1) append_assoc [symmetric] map_append [symmetric] del: append_assoc map_append)
    then have "table_ok c' \<and> elems c' = take n ?xs" using n by (intro elems_data) (simp_all add: c'_def)
    moreover have "netsnmp_binary_array_remove_at c i save = Ret (0, if save then Some (?xs ! i) else None, c')"
      using True r(2) n sl by (simp add: netsnmp_binary_array_remove_at_def Let_def c'_def)
    ultimately show ?thesis using True n by (auto simp: c'_def same_kind_def)
  next
    case False
    then have i: "i < n" using assms(2) n by simp
    define c' where "c' = c\<lparr>container_data := ?t\<lparr>count := n,
        data := take i (data ?t) @ take (n - i) (drop (i + 1) (data ?t)) @ drop n (data ?t)\<rparr>, csync := csync c + 1\<rparr>"
    have "take i (data ?t) @ take (n - i) (drop (i + 1) (data ?t)) = map Some (take i ?xs @ drop (i + 1) ?xs)"
      using i n by (simp add: r(1) take_map drop_map)
    then have "data (container_data c') = map Some (take i ?xs @ drop (i + 1) ?xs) @ drop n (data ?t)"
      by (simp add: c'_def)
    from elems_data [OF this] have "table_ok c' \<and> elems c' = take i ?xs @ drop (i + 1) ?xs"
      using n i by (simp add: c'_def)
    moreover have "netsnmp_binary_array_remove_at c i save = Ret (0, if save then Some (?xs ! i) else None, c')"
      using False i r n sl by (simp add: netsnmp_binary_array_remove_at_def Let_def c'_def)
    ultimately show ?thesis using i n by (auto simp: c'_def same_kind_def)
  qed
qed

context ba_order
begin

text \<open>The sorted list with a new element behind those that are not greater.\<close>

definition ins :: "'e \<Rightarrow> 'e list \<Rightarrow> 'e list" where
  "ins e xs = filter (\<lambda>x. cmp x e \<le> 0) xs @ e # filter (\<lambda>x. cmp x e > 0) xs"

lemma mset_ins [simp]: "mset (ins e xs) = add_mset e (mset xs)"
proof -
  have "filter_mset (\<lambda>x. cmp x e \<le> 0) (mset xs) + filter_mset (\<lambda>x. cmp x e > 0) (mset xs) = mset xs"
    by (induction xs) auto
  then show ?thesis by (simp add: ins_def mset_filter)
qed

lemma in_order_ins: "in_order xs \<Longrightarrow> in_order (ins e xs)"
  using cmp_trans [of _ e] cmp_swap_le [of e]
  by (auto simp: ins_def sorted_wrt_append intro: sorted_wrt_filter)

lemma ins_append: "\<forall>x \<in> set as. cmp x e \<le> 0 \<Longrightarrow> \<forall>x \<in> set bs. cmp x e > 0 \<Longrightarrow> ins e (as @ bs) = as @ e # bs"
  by (simp add: ins_def filter_id_conv filter_empty_conv linorder_not_less linorder_not_le)

lemma split_ins:
  assumes "p \<le> length xs" "\<forall>i < p. cmp (xs ! i) e \<le> 0" "\<forall>i < length xs. p \<le> i \<longrightarrow> cmp (xs ! i) e > 0"
  shows "take p xs @ e # drop p xs = ins e xs"
proof -
  have t: "\<forall>x \<in> set (take p xs). cmp x e \<le> 0" using assms(1,2) by (auto simp: in_set_conv_nth)
  have d: "\<forall>x \<in> set (drop p xs). cmp x e > 0" using assms(1,3) by (auto simp: in_set_conv_nth)
  show ?thesis using ins_append [OF t d] by simp
qed

lemma pass_equal_finds:
  assumes "\<And>i. i < length xs \<Longrightarrow> elem_at d i = Ret (xs ! i)" "pos + left = length xs"
  shows "\<exists>q. pass_equal cmp e d left pos = Ret q \<and> pos \<le> q \<and> q \<le> length xs
    \<and> (\<forall>i < q. pos \<le> i \<longrightarrow> cmp (xs ! i) e = 0) \<and> (q < length xs \<longrightarrow> cmp (xs ! q) e \<noteq> 0)"
  using assms(2)
proof (induction left arbitrary: pos)
  case (Suc left)
  have el: "elem_at d pos = Ret (xs ! pos)" using assms(1) Suc.prems by simp
  show ?case
  proof (cases "cmp (xs ! pos) e = 0")
    case True
    obtain q where q: "pass_equal cmp e d left (pos + 1) = Ret q" "pos + 1 \<le> q" "q \<le> length xs"
      "\<forall>i < q. pos + 1 \<le> i \<longrightarrow> cmp (xs ! i) e = 0" "q < length xs \<longrightarrow> cmp (xs ! q) e \<noteq> 0"
      using Suc.IH [of "pos + 1"] Suc.prems by auto
    have "\<forall>i < q. pos \<le> i \<longrightarrow> cmp (xs ! i) e = 0" using q(4) True by (metis Suc_eq_plus1 not_less_eq_eq order_antisym_conv)
    then show ?thesis using q True el by auto
  qed (use el Suc.prems in auto)
qed simp

lemma insert_at_ready:
  assumes "ready c" "p \<le> length (elems c)" "\<forall>i < p. cmp (elems c ! i) e \<le> 0" "\<forall>i < length (elems c). p \<le> i \<longrightarrow> cmp (elems c ! i) e > 0"
  shows "\<exists>c'. netsnmp_binary_array_insert_before True c p (Some e) False = Ret (0, c') \<and> ready c' \<and> same_kind c c'
    \<and> elems c' = ins e (elems c)"
proof -
  have ok: "table_ok c" "compare c = cmp" "\<not> key_unsorted c" "\<not> dirty (container_data c)" "in_order (elems c)"
    using assms(1) by (simp_all add: ready_def)
  obtain c' where "netsnmp_binary_array_insert_before True c p (Some e) False = Ret (0, c')" "table_ok c'" "same_kind c c'"
    "elems c' = take p (elems c) @ e # drop p (elems c)" "dirty (container_data c') = (dirty (container_data c) \<or> False)"
    using insert_before_elems [OF ok(1) assms(2) TrueI] by blast
  then show ?thesis using ok split_ins [OF assms(2-4)] in_order_ins [OF ok(5)] by (auto simp: ready_def same_kind_def)
qed

lemma insert_ready:
  assumes "ready c" "length (elems c) < 2 ^ 31"
  shows "if \<not> key_allow_duplicates c \<and> (\<exists>x \<in> set (elems c). cmp x e = 0)
    then netsnmp_binary_array_insert qs True c (Some e) = Ret (-1, c)
    else \<exists>c'. netsnmp_binary_array_insert qs True c (Some e) = Ret (0, c') \<and> ready c' \<and> same_kind c c' \<and> elems c' = ins e (elems c)"
proof -
  let ?xs = "elems c" and ?n = "length (elems c)" and ?d = "data (container_data c)"
  have ok: "table_ok c" "compare c = cmp" "\<not> key_unsorted c" "in_order ?xs" using assms(1) by (simp_all add: ready_def)
  have n: "count (container_data c) = ?n" using length_elems [OF ok(1)] by simp
  define go where "go = netsnmp_binary_array_insert qs True c (Some e)"
  consider (found) k where "binary_search qs e c True = Ret (int k, Some (k + 1), c)" "k < ?n" "cmp (?xs ! k) e = 0"
    | (place) p where "binary_search qs e c True = Ret (-1, Some p, c)" "place ?xs e p"
    using binary_search_exact [OF assms, of qs e] by blast
  then show ?thesis
  proof cases
    case place
    have no: "\<not> (\<exists>x \<in> set ?xs. cmp x e = 0)" using place(2) by (auto simp: place_def in_set_conv_nth) (metis less_irrefl not_le)
    have "?n = 0 \<Longrightarrow> p = 0" using place(2) by (simp add: place_def)
    then have "go = netsnmp_binary_array_insert_before True c p (Some e) False"
      using place(1) n ok(3) by (simp add: go_def netsnmp_binary_array_insert_def Let_def)
    moreover have "p \<le> ?n" "\<forall>i < p. cmp (?xs ! i) e \<le> 0" "\<forall>i < ?n. p \<le> i \<longrightarrow> cmp (?xs ! i) e > 0"
      using place(2) by (auto simp: place_def less_imp_le)
    ultimately show ?thesis using insert_at_ready [OF assms(1), of p e] no by (auto simp: go_def)
  next
    case found
    have ex: "\<exists>x \<in> set ?xs. cmp x e = 0" using found(2,3) nth_mem by blast
    have n0: "?n \<noteq> 0" using found(2) by linarith
    show ?thesis
    proof (cases "key_allow_duplicates c")
      case False
      then show ?thesis using ex found(1) n n0 by (simp add: netsnmp_binary_array_insert_def Let_def)
    next
      case True
      obtain q where q: "pass_equal cmp e ?d (?n - (k + 1)) (k + 1) = Ret q" "k + 1 \<le> q" "q \<le> ?n"
        "\<forall>i < q. k + 1 \<le> i \<longrightarrow> cmp (?xs ! i) e = 0" "q < ?n \<longrightarrow> cmp (?xs ! q) e \<noteq> 0"
        using pass_equal_finds [OF slot_elems(2) [OF ok(1)] le_add_diff_inverse, of "k + 1"] found(2) by (metis Suc_eq_plus1 Suc_leI)
      have "go = netsnmp_binary_array_insert_before True c q (Some e) False"
        using True found(1) n n0 ok(2,3) q(1) by (simp add: go_def netsnmp_binary_array_insert_def Let_def)
      moreover have "\<forall>i < q. cmp (?xs ! i) e \<le> 0"
        using q(4) cmp_trans [OF sorted_nth [OF ok(4) _ found(2)]] found(3) by (metis Suc_eq_plus1 less_or_eq_imp_le not_less_eq_eq order_refl)
      moreover have "\<forall>i < ?n. q \<le> i \<longrightarrow> cmp (?xs ! i) e > 0"
      proof (intro allI impI)
        fix i assume i: "i < ?n" "q \<le> i"
        have "next_of ?xs e (Some (?xs ! q))"
          using get_next_equal [OF ok(4) found(2,3), of q] q i by (auto simp: Suc_le_eq)
        then have "cmp (?xs ! q) e > 0" by (auto simp: next_of_def)
        then show "cmp (?xs ! i) e > 0" using above_greater [OF ok(4) i(2,1)] by blast
      qed
      ultimately show ?thesis using insert_at_ready [OF assms(1) q(3)] True by (auto simp: go_def)
    qed
  qed
qed

lemma in_order_remove:
  assumes "in_order xs"
  shows "in_order (take i xs @ drop (i + 1) xs)"
proof -
  have "in_order (take i xs @ drop i xs)" using assms by simp
  moreover have "set (drop (i + 1) xs) \<subseteq> set (drop i xs)" by (rule set_drop_subset_set_drop) simp
  ultimately show ?thesis using sorted_wrt_drop [OF assms, of "i + 1"] unfolding sorted_wrt_append by blast
qed

lemma remove_ready:
  assumes "ready c" "length (elems c) < 2 ^ 31"
  shows "if \<exists>x \<in> set (elems c). cmp x k = 0
    then \<exists>c' i. netsnmp_binary_array_remove qs c k save = Ret (0, if save then Some (elems c ! i) else None, c')
      \<and> i < length (elems c) \<and> cmp (elems c ! i) k = 0
      \<and> ready c' \<and> same_kind c c' \<and> elems c' = take i (elems c) @ drop (i + 1) (elems c)
    else netsnmp_binary_array_remove qs c k save = Ret (if elems c = [] then 0 else -1, None, c)"
proof -
  let ?xs = "elems c"
  have ok: "table_ok c" "compare c = cmp" "\<not> key_unsorted c" "\<not> dirty (container_data c)" "in_order ?xs"
    using assms(1) by (simp_all add: ready_def)
  have n: "count (container_data c) = length ?xs" using length_elems [OF ok(1)] by simp
  consider (found) i where "binary_search qs k c True = Ret (int i, Some (i + 1), c)" "i < length ?xs" "cmp (?xs ! i) k = 0"
    | (place) p where "binary_search qs k c True = Ret (-1, Some p, c)" "place ?xs k p"
    using binary_search_exact [OF assms, of qs k] by blast
  then show ?thesis
  proof cases
    case found
    have ex: "\<exists>x \<in> set ?xs. cmp x k = 0" using found(2,3) nth_mem by blast
    obtain c' where c': "netsnmp_binary_array_remove_at c i save = Ret (0, if save then Some (?xs ! i) else None, c')"
      "table_ok c'" "same_kind c c'" "elems c' = take i ?xs @ drop (i + 1) ?xs" "dirty (container_data c') = dirty (container_data c)"
      using remove_at_elems [OF ok(1) found(2)] by blast
    have "in_order (take i ?xs @ drop (i + 1) ?xs)" by (rule in_order_remove [OF ok(5)])
    then have "ready c'" using c' ok by (simp add: ready_def same_kind_def)
    moreover have "netsnmp_binary_array_remove qs c k save = netsnmp_binary_array_remove_at c i save"
      using found(1,2) n by (auto simp: netsnmp_binary_array_remove_def ready_sorted [OF assms(1)])
    ultimately show ?thesis using ex c' found(2,3) by auto
  next
    case place
    have no: "\<not> (\<exists>x \<in> set ?xs. cmp x k = 0)" using place(2) by (auto simp: place_def in_set_conv_nth) (metis less_irrefl not_le)
    then show ?thesis using place(1) n by (auto simp: netsnmp_binary_array_remove_def ready_sorted [OF assms(1)])
  qed
qed

end

section \<open>Containers as sets and maps\<close>

text \<open>A sound container, one that is kept as a set of keys, and its lookup as a map.\<close>

definition ba_sound :: "'e container \<Rightarrow> bool" where
  "ba_sound c \<longleftrightarrow> table_ok c
     \<and> (\<not> key_unsorted c \<longrightarrow> \<not> dirty (container_data c) \<longrightarrow> sorted_wrt (\<lambda>a b. compare c a b \<le> 0) (elems c))"

definition keys_differ :: "('e \<Rightarrow> 'e \<Rightarrow> int) \<Rightarrow> 'e list \<Rightarrow> bool" where
  "keys_differ cmp xs \<longleftrightarrow> sorted_wrt (\<lambda>a b. cmp a b \<noteq> 0) xs"

definition ba_set :: "'e container \<Rightarrow> bool" where
  "ba_set c \<longleftrightarrow> ba_sound c \<and> \<not> key_unsorted c \<and> \<not> key_allow_duplicates c \<and> keys_differ (compare c) (elems c)"

definition ba_map :: "'e container \<Rightarrow> 'e \<Rightarrow> 'e option" where
  "ba_map c k = find (\<lambda>e. compare c e k = 0) (elems c)"

definition small :: "'e container \<Rightarrow> bool" where
  "small c \<longleftrightarrow> length (elems c) < 2 ^ 31"

context ba_order
begin

lemma wf_sound: "wf c \<longleftrightarrow> compare c = cmp \<and> ba_sound c"
  by (auto simp: wf_def ba_sound_def)

lemma distinct_keys_differ: "distinct_keys xs \<longleftrightarrow> keys_differ cmp xs"
  by (simp add: distinct_keys_def keys_differ_def)

lemma distinct_keys_set: "distinct_keys xs \<longleftrightarrow> distinct xs \<and> (\<forall>x \<in> set xs. \<forall>y \<in> set xs. cmp x y = 0 \<longrightarrow> x = y)"
proof (induction xs)
  case (Cons a xs)
  then show ?case using cmp_swap0 [of a] by (auto simp: distinct_keys_def)
qed (simp add: distinct_keys_def)

lemma distinct_keys_mset: "mset xs = mset ys \<Longrightarrow> distinct_keys xs \<longleftrightarrow> distinct_keys ys"
  unfolding distinct_keys_set using mset_eq_imp_distinct_iff [of xs ys] mset_eq_setD [of xs ys] by auto

lemma find_key:
  assumes "distinct_keys xs"
  shows "find (\<lambda>e. cmp e k = 0) xs = Some e \<longleftrightarrow> e \<in> set xs \<and> cmp e k = 0"
proof
  show "find (\<lambda>e. cmp e k = 0) xs = Some e \<Longrightarrow> e \<in> set xs \<and> cmp e k = 0" by (auto simp: find_Some_iff)
  assume e: "e \<in> set xs \<and> cmp e k = 0"
  then obtain f where "find (\<lambda>e. cmp e k = 0) xs = Some f" by (cases "find (\<lambda>e. cmp e k = 0) xs") (auto simp: find_None_iff)
  moreover from this have "f \<in> set xs" "cmp f k = 0" by (auto simp: find_Some_iff)
  moreover have "f = e" using e calculation assms cmp_equal_trans [of f k e] by (auto simp: distinct_keys_set)
  ultimately show "find (\<lambda>e. cmp e k = 0) xs = Some e" by simp
qed

lemma find_key_mset:
  assumes "distinct_keys xs" "mset xs = mset ys"
  shows "find (\<lambda>e. cmp e k = 0) xs = find (\<lambda>e. cmp e k = 0) ys"
proof -
  have "find (\<lambda>e. cmp e k = 0) xs = Some e \<longleftrightarrow> find (\<lambda>e. cmp e k = 0) ys = Some e" for e
    using find_key [OF assms(1)] find_key [of ys] assms distinct_keys_mset [OF assms(2)] mset_eq_setD [OF assms(2)] by simp
  then show ?thesis by (metis option.exhaust)
qed

text \<open>Sorting before an operation changes nothing that counts.\<close>

lemma set_ready:
  assumes "compare c = cmp" "ba_set c" "small c" "qsort_ok qs cmp"
  obtains c' where "sort_if_dirty qs c = Ret c'" "ready c'" "same_kind c c'" "mset (elems c') = mset (elems c)"
    "ba_set c'" "small c'" "ba_map c' = ba_map c" "count (container_data c') = count (container_data c)" "compare c' = cmp"
proof -
  have w: "wf c" "\<not> key_unsorted c" "distinct_keys (elems c)"
    using assms(1,2) by (simp_all add: wf_sound ba_set_def distinct_keys_differ)
  obtain c' where c': "sort_if_dirty qs c = Ret c'" "ready c'" "mset (elems c') = mset (elems c)" "same_kind c c'"
    using sort_if_dirty_ready [OF w(1,2) assms(4)] by blast
  have len: "length (elems c') = length (elems c)" using c'(3) by (metis size_mset)
  have d: "distinct_keys (elems c')" using w(3) distinct_keys_mset [OF c'(3)] by simp
  have cm: "compare c' = cmp" using c'(4) assms(1) by (simp add: same_kind_def)
  have "ba_set c'" using ready_wf [OF c'(2)] d c'(4) assms(1,2) by (simp add: ba_set_def same_kind_def wf_sound distinct_keys_differ)
  moreover have "small c'" using assms(3) len by (simp add: small_def)
  moreover have "ba_map c' = ba_map c"
    using find_key_mset [OF d c'(3)] cm assms(1) by (simp add: ba_map_def fun_eq_iff)
  moreover have "count (container_data c') = count (container_data c)"
    using len length_elems [of c'] length_elems [of c] c'(2) w(1) by (simp add: ready_def wf_def)
  ultimately show ?thesis using that c' cm by blast
qed

end

text \<open>Each operation sorts first, so that it may be looked at on the sorted container.\<close>

lemma ops_sort_first:
  assumes "sort_if_dirty qs c = Ret c'" "sort_if_dirty qs c' = Ret c'" "same_kind c c'"
    "count (container_data c') = count (container_data c)" "\<not> key_unsorted c" "count (container_data c) \<noteq> 0"
  shows "netsnmp_binary_array_get qs c k exact = netsnmp_binary_array_get qs c' k exact"
    "netsnmp_binary_array_insert qs mem c (Some e) = netsnmp_binary_array_insert qs mem c' (Some e)"
    "netsnmp_binary_array_remove qs c v save = netsnmp_binary_array_remove qs c' v save"
proof -
  have bs: "binary_search qs v c exact = binary_search qs v c' exact" for v exact
    using assms by (simp add: binary_search_def same_kind_def Let_def)
  show "netsnmp_binary_array_get qs c k exact = netsnmp_binary_array_get qs c' k exact"
    using assms by (simp add: netsnmp_binary_array_get_def Let_def)
  show "netsnmp_binary_array_insert qs mem c (Some e) = netsnmp_binary_array_insert qs mem c' (Some e)"
    using assms by (auto simp: netsnmp_binary_array_insert_def Let_def bs same_kind_def)
  show "netsnmp_binary_array_remove qs c v save = netsnmp_binary_array_remove qs c' v save"
    using assms by (simp add: netsnmp_binary_array_remove_def)
qed

context ba_order
begin

lemma small_ready: "small c \<Longrightarrow> length (elems c) < 2 ^ 31" by (simp add: small_def)

lemma set_count0: "ba_set c \<Longrightarrow> count (container_data c) = 0 \<longleftrightarrow> elems c = []"
  using length_elems [of c] by (auto simp: ba_set_def ba_sound_def)

lemma ba_map_Some:
  assumes "compare c = cmp" "ba_set c"
  shows "ba_map c k = Some e \<longleftrightarrow> e \<in> set (elems c) \<and> cmp e k = 0"
  using find_key [of "elems c" k e] assms by (simp add: ba_map_def ba_set_def distinct_keys_differ)

lemma ba_map_None: "compare c = cmp \<Longrightarrow> ba_map c k = None \<longleftrightarrow> (\<forall>e \<in> set (elems c). cmp e k \<noteq> 0)"
  by (auto simp: ba_map_def find_None_iff)

lemma map_eqI:
  assumes "compare c = cmp" "ba_set c" "\<And>e. m = Some e \<longleftrightarrow> e \<in> set (elems c) \<and> cmp e k = 0"
  shows "ba_map c k = m"
  using ba_map_Some [OF assms(1,2)] assms(3) by (metis option.exhaust)

lemma container_find:
  assumes "compare c = cmp" "ba_set c" "small c" "qsort_ok qs cmp"
  shows "\<exists>c'. netsnmp_binary_array_get qs c (Some k) True = Ret (ba_map c k, c') \<and> ba_set c' \<and> ba_map c' = ba_map c
    \<and> compare c' = cmp \<and> mset (elems c') = mset (elems c)"
proof (cases "count (container_data c) = 0")
  case True
  then have "elems c = []" using set_count0 [OF assms(2)] by simp
  then show ?thesis using True assms(1,2) by (auto simp: netsnmp_binary_array_get_def ba_map_def)
next
  case False
  obtain c' where c': "sort_if_dirty qs c = Ret c'" "ready c'" "same_kind c c'" "mset (elems c') = mset (elems c)"
    "ba_set c'" "small c'" "ba_map c' = ba_map c" "count (container_data c') = count (container_data c)" "compare c' = cmp"
    using set_ready [OF assms] .
  obtain r where r: "netsnmp_binary_array_get qs c' (Some k) True = Ret (r, c')"
    "case r of None \<Rightarrow> \<forall>e \<in> set (elems c'). cmp e k \<noteq> 0 | Some e \<Rightarrow> e \<in> set (elems c') \<and> cmp e k = 0"
    using get_ready_exact [OF c'(2) small_ready [OF c'(6)]] by blast
  have "r = ba_map c' k"
    using r(2) ba_map_Some [OF c'(9,5), of k] ba_map_None [OF c'(9), of k] by (cases r) (simp_all, metis)
  moreover have "netsnmp_binary_array_get qs c (Some k) True = Ret (r, c')"
    using ops_sort_first(1) [OF c'(1) ready_sorted [OF c'(2)] c'(3,8)] assms(2) False r(1) by (simp add: ba_set_def)
  ultimately show ?thesis using c' by auto
qed

lemma insert_elems_set:
  assumes "compare c = cmp" "ba_set c" "\<forall>x \<in> set (elems c). cmp x e \<noteq> 0"
    and "ba_sound c'" "same_kind c c'" "mset (elems c') = add_mset e (mset (elems c))"
  shows "ba_set c' \<and> ba_map c' = (\<lambda>k. if cmp e k = 0 then Some e else ba_map c k)"
proof -
  have s: "set (elems c') = insert e (set (elems c))" using assms(6) by (metis set_mset_add_mset_insert set_mset_mset)
  have k: "compare c' = cmp" using assms(1,5) by (simp add: same_kind_def)
  have "distinct_keys (e # elems c)"
    using assms(2,3) by (simp add: distinct_keys_def ba_set_def keys_differ_def assms(1)) (use cmp_swap0 in blast)
  then have "distinct_keys (elems c')" using distinct_keys_mset [of "elems c'" "e # elems c"] assms(6) by simp
  then have set: "ba_set c'" using assms(2,4,5) k by (simp add: ba_set_def same_kind_def distinct_keys_differ)
  have "ba_map c' k' = (if cmp e k' = 0 then Some e else ba_map c k')" for k'
  proof (rule map_eqI [OF k set])
    fix x
    show "(if cmp e k' = 0 then Some e else ba_map c k') = Some x \<longleftrightarrow> x \<in> set (elems c') \<and> cmp x k' = 0"
      using ba_map_Some [OF assms(1,2), of k' x] assms(3) cmp_equal_trans [of x k' e] by (auto simp: s)
  qed
  then show ?thesis using set by blast
qed

lemma container_insert:
  assumes "compare c = cmp" "ba_set c" "small c" "qsort_ok qs cmp"
  shows "\<exists>rc c'. netsnmp_binary_array_insert qs True c (Some e) = Ret (rc, c') \<and> ba_set c' \<and> same_kind c c'
    \<and> (if ba_map c e = None
       then rc = 0 \<and> ba_map c' = (\<lambda>k. if cmp e k = 0 then Some e else ba_map c k) \<and> mset (elems c') = add_mset e (mset (elems c))
       else rc = -1 \<and> ba_map c' = ba_map c \<and> mset (elems c') = mset (elems c))"
proof (cases "count (container_data c) = 0")
  case True
  then have n: "elems c = []" using set_count0 [OF assms(2)] by simp
  obtain c' where c': "netsnmp_binary_array_insert_before True c 0 (Some e) False = Ret (0, c')" "table_ok c'" "same_kind c c'"
    "elems c' = [e]" using insert_before_elems [of c 0 True e False] assms(2) n by (auto simp: ba_set_def ba_sound_def)
  have "netsnmp_binary_array_insert qs True c (Some e) = Ret (0, c')"
    using True c'(1) assms(2) by (simp add: netsnmp_binary_array_insert_def ba_set_def Let_def)
  moreover have "ba_set c' \<and> ba_map c' = (\<lambda>k. if cmp e k = 0 then Some e else ba_map c k)"
    by (rule insert_elems_set [OF assms(1,2)]) (use n c' in \<open>simp_all add: ba_sound_def\<close>)
  ultimately show ?thesis using c' n by (auto simp: ba_map_def)
next
  case False
  obtain c1 where c1: "sort_if_dirty qs c = Ret c1" "ready c1" "same_kind c c1" "mset (elems c1) = mset (elems c)"
    "ba_set c1" "small c1" "ba_map c1 = ba_map c" "count (container_data c1) = count (container_data c)" "compare c1 = cmp"
    using set_ready [OF assms] .
  have eq: "netsnmp_binary_array_insert qs True c (Some e) = netsnmp_binary_array_insert qs True c1 (Some e)"
    using ops_sort_first(2) [OF c1(1) ready_sorted [OF c1(2)] c1(3,8)] assms(2) False by (simp add: ba_set_def)
  have dup: "\<not> key_allow_duplicates c1" using c1(5) by (simp add: ba_set_def)
  show ?thesis
  proof (cases "ba_map c e = None")
    case True
    then have no: "\<forall>x \<in> set (elems c1). cmp x e \<noteq> 0" using ba_map_None [OF c1(9)] c1(7) by simp
    then obtain c' where c': "netsnmp_binary_array_insert qs True c1 (Some e) = Ret (0, c')" "ready c'" "same_kind c1 c'"
      "elems c' = ins e (elems c1)" using insert_ready [OF c1(2) small_ready [OF c1(6)], of e qs] by auto
    have "ba_set c' \<and> ba_map c' = (\<lambda>k. if cmp e k = 0 then Some e else ba_map c1 k)"
      by (rule insert_elems_set [OF c1(9,5) no]) (use c' ready_wf in \<open>simp_all add: wf_sound\<close>)
    then show ?thesis using True eq c' c1(4,7) same_kind_trans [OF c1(3) c'(3)] by auto
  next
    case False
    then have "\<exists>x \<in> set (elems c1). cmp x e = 0" using ba_map_None [OF c1(9)] c1(7) by metis
    then have "netsnmp_binary_array_insert qs True c1 (Some e) = Ret (-1, c1)"
      using insert_ready [OF c1(2) small_ready [OF c1(6)], of e qs] dup by auto
    then show ?thesis using False eq c1 by auto
  qed
qed

lemma remove_elems_set:
  assumes "compare c = cmp" "ba_set c" "i < length (elems c)" "cmp (elems c ! i) k = 0"
    and "ba_sound c'" "same_kind c c'" "elems c' = take i (elems c) @ drop (i + 1) (elems c)"
  shows "ba_set c' \<and> ba_map c' = (\<lambda>x. if cmp k x = 0 then None else ba_map c x)
    \<and> mset (elems c') = mset (elems c) - {# elems c ! i #}"
proof -
  let ?x = "elems c ! i"
  have split: "elems c = take i (elems c) @ ?x # drop (i + 1) (elems c)" using assms(3) by (simp add: id_take_nth_drop)
  have m: "mset (elems c) = add_mset ?x (mset (elems c'))" unfolding assms(7) by (subst split) simp
  have k: "compare c' = cmp" using assms(1,6) by (simp add: same_kind_def)
  have "distinct_keys (elems c)" using assms(1,2) by (simp add: ba_set_def distinct_keys_differ)
  then have d: "distinct_keys (?x # elems c')" using distinct_keys_mset [of "elems c" "?x # elems c'"] m by simp
  then have "distinct_keys (elems c')" by (simp add: distinct_keys_def)
  then have set: "ba_set c'" using assms(2,5,6) k by (simp add: ba_set_def same_kind_def distinct_keys_differ)
  have s: "set (elems c) = insert ?x (set (elems c'))" using m by (metis set_mset_add_mset_insert set_mset_mset)
  have "ba_map c' y = (if cmp k y = 0 then None else ba_map c y)" for y
  proof (rule map_eqI [OF k set])
    fix e
    have "cmp ?x y = 0 \<longleftrightarrow> cmp k y = 0" using cmp_equal_subst [OF assms(4)] .
    moreover have "e \<in> set (elems c') \<Longrightarrow> cmp ?x e \<noteq> 0" using d by (simp add: distinct_keys_def)
    ultimately show "(if cmp k y = 0 then None else ba_map c y) = Some e \<longleftrightarrow> e \<in> set (elems c') \<and> cmp e y = 0"
      using ba_map_Some [OF assms(1,2), of y e] cmp_equal_trans [of ?x y e] by (auto simp: s)
  qed
  then show ?thesis using set m by auto
qed

lemma container_remove:
  assumes "compare c = cmp" "ba_set c" "small c" "qsort_ok qs cmp"
  shows "\<exists>rc c'. netsnmp_binary_array_remove qs c k save = Ret (rc, if save then ba_map c k else None, c') \<and> ba_set c' \<and> same_kind c c'
    \<and> ba_map c' = (\<lambda>x. if cmp k x = 0 then None else ba_map c x)
    \<and> (case ba_map c k of
         None \<Rightarrow> rc = (if elems c = [] then 0 else -1) \<and> mset (elems c') = mset (elems c)
       | Some e \<Rightarrow> rc = 0 \<and> mset (elems c') = mset (elems c) - {# e #})"
proof (cases "count (container_data c) = 0")
  case True
  then have "elems c = []" using set_count0 [OF assms(2)] by simp
  then show ?thesis using True assms(2) by (simp add: netsnmp_binary_array_remove_def ba_map_def fun_eq_iff)
next
  case False
  obtain c1 where c1: "sort_if_dirty qs c = Ret c1" "ready c1" "same_kind c c1" "mset (elems c1) = mset (elems c)"
    "ba_set c1" "small c1" "ba_map c1 = ba_map c" "count (container_data c1) = count (container_data c)" "compare c1 = cmp"
    using set_ready [OF assms] .
  have eq: "netsnmp_binary_array_remove qs c k save = netsnmp_binary_array_remove qs c1 k save"
    using ops_sort_first(3) [OF c1(1) ready_sorted [OF c1(2)] c1(3,8)] assms(2) False by (simp add: ba_set_def)
  show ?thesis
  proof (cases "\<exists>x \<in> set (elems c1). cmp x k = 0")
    case True
    then obtain c' i where c': "netsnmp_binary_array_remove qs c1 k save = Ret (0, if save then Some (elems c1 ! i) else None, c')"
      "i < length (elems c1)" "cmp (elems c1 ! i) k = 0" "ready c'" "same_kind c1 c'"
      "elems c' = take i (elems c1) @ drop (i + 1) (elems c1)"
      using remove_ready [OF c1(2) small_ready [OF c1(6)], of k qs save] by auto
    have "ba_map c1 k = Some (elems c1 ! i)" using ba_map_Some [OF c1(9,5)] c'(2,3) by simp
    moreover have "ba_set c' \<and> ba_map c' = (\<lambda>x. if cmp k x = 0 then None else ba_map c1 x)
        \<and> mset (elems c') = mset (elems c1) - {# elems c1 ! i #}"
      by (rule remove_elems_set [OF c1(9,5) c'(2,3)]) (use c' ready_wf in \<open>simp_all add: wf_sound\<close>)
    ultimately show ?thesis using eq c' c1(4,7) same_kind_trans [OF c1(3) c'(5)] by auto
  next
    case False
    then have none: "ba_map c1 k = None" using ba_map_None [OF c1(9)] by simp
    have e: "elems c1 = [] \<longleftrightarrow> elems c = []" using c1(4) by (metis mset_zero_iff)
    have "ba_map c x = None" if "cmp k x = 0" for x
    proof -
      have "cmp x k = 0" using that cmp_swap0 by blast
      then have "cmp y x \<noteq> 0" if "y \<in> set (elems c1)" for y using False that cmp_equal_subst [of x k y] cmp_swap0 by metis
      then show ?thesis using ba_map_None [OF c1(9), of x] c1(7) by simp
    qed
    moreover have "netsnmp_binary_array_remove qs c1 k save = Ret (if elems c1 = [] then 0 else -1, None, c1)"
      using remove_ready [OF c1(2) small_ready [OF c1(6)], of k qs save] False by simp
    ultimately show ?thesis using eq none e c1 by (auto simp: fun_eq_iff)
  qed
qed

end

end
