(* ===== verification/Containers.thy ===== *)
theory Containers
  imports BinArraySpec
begin

text \<open>
  Properties of the containers: the comparisons of \<^verbatim>\<open>snmplib/container.c\<close> meet the contract \<open>ba_order\<close>; a sorted
  array without duplicates refines a map; the search for the next key walks the elements in order; an insertion
  into a chain of indexes is done in all of them or in none; an iterator visits every element.
\<close>

section \<open>The comparisons of the library\<close>

interpretation index_order: ba_order netsnmp_compare_netsnmp_index
  by unfold_locales (auto simp: netsnmp_compare_netsnmp_index_def snmp_oid_compare_lex split: if_splits)

interpretation long_order: ba_order netsnmp_compare_long
  by unfold_locales (auto simp: netsnmp_compare_long_def split: if_splits)

interpretation ulong_order: ba_order netsnmp_compare_ulong
  by unfold_locales (auto simp: netsnmp_compare_ulong_def split: if_splits)

interpretation int32_order: ba_order netsnmp_compare_int32
  by unfold_locales (auto simp: netsnmp_compare_int32_def split: if_splits)

interpretation uint32_order: ba_order netsnmp_compare_uint32
  by unfold_locales (auto simp: netsnmp_compare_uint32_def split: if_splits)

text \<open>A comparison of keys compares the elements that carry them.\<close>

lemma ba_order_key: "ba_order cmp \<Longrightarrow> ba_order (\<lambda>x y. cmp (key x) (key y))"
  unfolding ba_order_def by blast

section \<open>Properties\<close>

text \<open>
  C9. A sorted container without duplicates refines a map from keys to elements, for every comparison that is a
  total preorder and every \<open>qsort\<close> that sorts. Finding an element is the lookup; inserting one succeeds when its
  key is new, and then changes the map there only, otherwise it returns -1 and changes nothing; removing a key
  deletes it and returns -1 when there is none in a container that is not empty. Each operation returns, keeps the
  container sorted and without duplicates, and works on a container that still has to be sorted.
\<close>

theorem container_refines_map:
  assumes "ba_order (compare c)" "qsort_ok qs (compare c)" "ba_set c" "small c"
  shows "(\<exists>c'. netsnmp_binary_array_get qs c (Some k) True = Ret (ba_map c k, c') \<and> ba_set c' \<and> ba_map c' = ba_map c)
    \<and> (\<exists>rc c'. netsnmp_binary_array_insert qs True c (Some e) = Ret (rc, c') \<and> ba_set c' \<and> same_kind c c'
        \<and> (if ba_map c e = None then rc = 0 \<and> ba_map c' = (\<lambda>k. if compare c e k = 0 then Some e else ba_map c k)
           else rc = -1 \<and> ba_map c' = ba_map c))
    \<and> (\<exists>rc c'. netsnmp_binary_array_remove qs c k save = Ret (rc, if save then ba_map c k else None, c') \<and> ba_set c' \<and> same_kind c c'
        \<and> ba_map c' = (\<lambda>x. if compare c k x = 0 then None else ba_map c x)
        \<and> rc = (if ba_map c k = None \<and> elems c \<noteq> [] then -1 else 0))"
proof (intro conjI)
  note o = assms(1) and a = refl assms(3,4,2)
  show "\<exists>c'. netsnmp_binary_array_get qs c (Some k) True = Ret (ba_map c k, c') \<and> ba_set c' \<and> ba_map c' = ba_map c"
    using ba_order.container_find [OF o a] by blast
  show "\<exists>rc c'. netsnmp_binary_array_insert qs True c (Some e) = Ret (rc, c') \<and> ba_set c' \<and> same_kind c c'
        \<and> (if ba_map c e = None then rc = 0 \<and> ba_map c' = (\<lambda>k. if compare c e k = 0 then Some e else ba_map c k)
           else rc = -1 \<and> ba_map c' = ba_map c)"
    using ba_order.container_insert [OF o a, of e] by (auto split: if_splits)
  have "elems c = [] \<Longrightarrow> ba_map c k = None" by (simp add: ba_map_def)
  then show "\<exists>rc c'. netsnmp_binary_array_remove qs c k save = Ret (rc, if save then ba_map c k else None, c') \<and> ba_set c' \<and> same_kind c c'
        \<and> ba_map c' = (\<lambda>x. if compare c k x = 0 then None else ba_map c x)
        \<and> rc = (if ba_map c k = None \<and> elems c \<noteq> [] then -1 else 0)"
    using ba_order.container_remove [OF o a, of k save] by (cases "ba_map c k") auto
qed

definition ex_container :: "oid list \<Rightarrow> oid container" where
  "ex_container xs = \<lparr>container_data = \<lparr>count = length xs, dirty = True, data = map Some xs @ [None]\<rparr>,
     compare = netsnmp_compare_netsnmp_index, ncompare = netsnmp_ncompare_netsnmp_index, insert_filter = None,
     csync = 0, key_allow_duplicates = False, key_unsorted = False\<rparr>"

lemma ex_container_set: "keys_differ netsnmp_compare_netsnmp_index xs \<Longrightarrow> ba_set (ex_container xs) \<and> elems (ex_container xs) = xs"
  using elems_data [of "ex_container xs" xs "[None]"] by (auto simp: ba_set_def ba_sound_def ex_container_def)

theorem container_refines_map_witness:
  "\<exists>c'. netsnmp_binary_array_insert insertion_sort True (ex_container [[1, 3], [1, 2]]) (Some [1, 2, 5]) = Ret (0, c')
    \<and> ba_map c' [1, 2, 5] = Some [1, 2, 5] \<and> ba_map c' [1, 3] = Some [1, 3]"
proof -
  let ?c = "ex_container [[1, 3], [1, 2]]"
  have c: "compare ?c = netsnmp_compare_netsnmp_index" by (simp add: ex_container_def)
  have s: "ba_set ?c" "elems ?c = [[1, 3], [1, 2]]"
    using ex_container_set [of "[[1, 3], [1, 2]]"] by (simp_all add: keys_differ_def netsnmp_compare_netsnmp_index_def)
  have "ba_order (compare ?c)" "qsort_ok insertion_sort (compare ?c)" "small ?c"
    unfolding c using index_order.ba_order_axioms index_order.qsort_insertion_sort s(2) by (simp_all add: small_def)
  from container_refines_map [OF this(1,2) s(1) this(3), of "[1, 3]" "[1, 2, 5]" False]
  show ?thesis by (auto simp: ba_map_def [of ?c] s(2) c netsnmp_compare_netsnmp_index_def)
qed

section \<open>Walking\<close>

text \<open>
  The loop over \<open>CONTAINER_FIRST\<close> and \<open>CONTAINER_NEXT\<close>: the elements it visits, \<open>None\<close> when the fuel runs out. The
  first call has no key, each further one the element of the call before.
\<close>

fun container_walk :: "nat \<Rightarrow> 'e qsort \<Rightarrow> 'e container \<Rightarrow> 'e option \<Rightarrow> 'e list option cres" where
  "container_walk 0 qs c k = Ret None"
| "container_walk (Suc fuel) qs c k =
     cbind (netsnmp_binary_array_get qs c k False) (\<lambda>(r, c).
       case r of
         None \<Rightarrow> Ret (Some [])
       | Some e \<Rightarrow> cbind (container_walk fuel qs c (Some e)) (\<lambda>xs. Ret (map_option (Cons e) xs)))"

context ba_order
begin

lemma get_ready_first:
  assumes "ready c"
  shows "netsnmp_binary_array_get qs c None exact = Ret (if elems c = [] then None else Some (hd (elems c)), c)"
proof (cases "elems c")
  case Nil
  then show ?thesis using assms length_elems [of c] by (simp add: netsnmp_binary_array_get_def ready_def)
next
  case (Cons e es)
  have "slot (data (container_data c)) 0 = Ret (Some (elems c ! 0))"
    using slot_elems(1) [of c 0] assms Cons by (simp add: ready_def)
  then show ?thesis using Cons assms length_elems [of c]
    by (simp add: netsnmp_binary_array_get_def Let_def ready_sorted [OF assms]) (simp add: ready_def)
qed

text \<open>In a sorted list with different keys the answer for the element at a position is the element behind it.\<close>

lemma next_of_nth:
  assumes "in_order xs" "distinct_keys xs" "i < length xs" "next_of xs (xs ! i) r"
  shows "r = (if i + 1 < length xs then Some (xs ! (i + 1)) else None)"
proof -
  have le: "cmp (xs ! j) (xs ! i) \<le> 0" if "j \<le> i" for j using sorted_nth [OF assms(1) that assms(3)] .
  have gt: "cmp (xs ! j) (xs ! i) > 0" if "i < j" "j < length xs" for j
    using sorted_nth [OF assms(1), of i j] distinct_keys_nth [OF assms(2) that] that cmp_swap [of "xs ! i" "xs ! j"] by auto
  show ?thesis
  proof (cases r)
    case None
    have "\<not> i + 1 < length xs"
    proof
      assume "i + 1 < length xs"
      then have "xs ! (i + 1) \<in> set xs" "cmp (xs ! (i + 1)) (xs ! i) > 0" using gt [of "i + 1"] by simp_all
      then show False using assms(4) None by (auto simp: next_of_def)
    qed
    then show ?thesis using None by simp
  next
    case (Some e)
    then obtain p where p: "p < length xs" "e = xs ! p" "cmp e (xs ! i) > 0" "\<forall>j < p. cmp (xs ! j) (xs ! i) \<le> 0"
      using assms(4) by (auto simp: next_of_def)
    have "\<not> p \<le> i" using le [of p] p(2,3) by auto
    moreover have "\<not> i + 1 < p" using gt [of "i + 1"] p(1,4) by force
    ultimately have "p = i + 1" by linarith
    then show ?thesis using p Some by simp
  qed
qed

lemma walk_ready_from:
  assumes "ready c" "length (elems c) < 2 ^ 31" "distinct_keys (elems c)" "i < length (elems c)" "fuel \<ge> length (elems c) - i"
  shows "container_walk fuel qs c (Some (elems c ! i)) = Ret (Some (drop (i + 1) (elems c)))"
  using assms(4,5)
proof (induction "length (elems c) - i" arbitrary: i fuel)
  case (Suc n)
  let ?xs = "elems c"
  obtain f where f: "fuel = Suc f" using Suc.prems by (cases fuel) auto
  obtain r where r: "netsnmp_binary_array_get qs c (Some (?xs ! i)) False = Ret (r, c)" "next_of ?xs (?xs ! i) r"
    using get_ready_next [OF assms(1,2)] assms(3) by blast
  have "in_order ?xs" using assms(1) by (simp add: ready_def)
  from next_of_nth [OF this assms(3) Suc.prems(1) r(2)]
  have e: "r = (if i + 1 < length ?xs then Some (?xs ! (i + 1)) else None)" .
  show ?case
  proof (cases "i + 1 < length ?xs")
    case True
    have "container_walk f qs c (Some (?xs ! (i + 1))) = Ret (Some (drop (i + 1 + 1) ?xs))"
      by (rule Suc.hyps(1)) (use Suc.hyps(2) Suc.prems True f in auto)
    moreover have "drop (i + 1) ?xs = ?xs ! (i + 1) # drop (i + 1 + 1) ?xs" using True by (simp add: Cons_nth_drop_Suc)
    ultimately show ?thesis using r(1) e True f by simp
  qed (use r(1) e f in simp)
qed simp

lemma walk_ready:
  assumes "ready c" "length (elems c) < 2 ^ 31" "distinct_keys (elems c)" "fuel > length (elems c)"
  shows "container_walk fuel qs c None = Ret (Some (elems c))"
proof -
  obtain f where f: "fuel = Suc f" using assms(4) by (cases fuel) auto
  show ?thesis
  proof (cases "elems c")
    case Nil
    then show ?thesis by (simp add: f get_ready_first [OF assms(1)])
  next
    case (Cons e es)
    have "container_walk f qs c (Some (elems c ! 0)) = Ret (Some (drop (0 + 1) (elems c)))"
      by (rule walk_ready_from [OF assms(1-3)]) (use assms(4) f Cons in auto)
    then show ?thesis using Cons by (simp add: f get_ready_first [OF assms(1)])
  qed
qed

lemma in_order_strict: "in_order xs \<Longrightarrow> distinct_keys xs \<Longrightarrow> sorted_wrt (\<lambda>a b. cmp a b < 0) xs"
  by (induction xs) (auto simp: distinct_keys_def less_le)

lemma walk_set:
  assumes "compare c = cmp" "ba_set c" "small c" "qsort_ok qs cmp" "fuel > length (elems c)"
  shows "\<exists>xs. container_walk fuel qs c None = Ret (Some xs) \<and> mset xs = mset (elems c) \<and> sorted_wrt (\<lambda>a b. cmp a b < 0) xs"
proof -
  obtain c' where c': "sort_if_dirty qs c = Ret c'" "ready c'" "same_kind c c'" "mset (elems c') = mset (elems c)"
    "ba_set c'" "small c'" "count (container_data c') = count (container_data c)" "compare c' = cmp"
    using set_ready [OF assms(1-4)] by metis
  have d: "distinct_keys (elems c')" using c'(5,8) by (simp add: ba_set_def distinct_keys_differ)
  have len: "length (elems c') = length (elems c)" using c'(4) by (metis size_mset)
  have "container_walk fuel qs c None = container_walk fuel qs c' None"
  proof (cases "elems c = []")
    case True
    then have "count (container_data c) = 0" "count (container_data c') = 0" using set_count0 [OF assms(2)] c'(7) by simp_all
    then show ?thesis using assms(5) by (cases fuel) (simp_all add: netsnmp_binary_array_get_def)
  next
    case False
    then have "netsnmp_binary_array_get qs c None False = netsnmp_binary_array_get qs c' None False"
      using ops_sort_first(1) [OF c'(1) ready_sorted [OF c'(2)] c'(3,7)] set_count0 [OF assms(2)] assms(2)
      by (simp add: ba_set_def)
    then show ?thesis using assms(5) by (cases fuel) simp_all
  qed
  moreover have "container_walk fuel qs c' None = Ret (Some (elems c'))"
    by (rule walk_ready [OF c'(2) _ d]) (use c'(6) len assms(5) in \<open>simp_all add: small_def\<close>)
  moreover have "sorted_wrt (\<lambda>a b. cmp a b < 0) (elems c')" using in_order_strict d c'(2) by (simp add: ready_def)
  ultimately show ?thesis using c'(4) by simp
qed

end

text \<open>
  C37. Walking over a sorted container without duplicates, from \<open>CONTAINER_FIRST\<close> on with \<open>CONTAINER_NEXT\<close> of the
  element before, ends and visits every element exactly once, in strictly ascending order, for every comparison
  that is a total preorder and also when the container has to be sorted first. One call more than there are
  elements is enough.
\<close>

theorem container_walk_visits_all:
  assumes "ba_order (compare c)" "qsort_ok qs (compare c)" "ba_set c" "small c" "fuel > length (elems c)"
  shows "\<exists>xs. container_walk fuel qs c None = Ret (Some xs) \<and> mset xs = mset (elems c)
    \<and> sorted_wrt (\<lambda>a b. compare c a b < 0) xs"
  by (rule ba_order.walk_set [OF assms(1) refl assms(3,4,2,5)])

theorem container_walk_visits_all_witness:
  "\<exists>xs. container_walk 4 insertion_sort (ex_container [[1, 3], [1], [1, 2, 5]]) None = Ret (Some xs)
    \<and> mset xs = {# [1], [1, 3], [1, 2, 5] #} \<and> sorted_wrt (\<lambda>a b. netsnmp_compare_netsnmp_index a b < 0) xs"
proof -
  let ?c = "ex_container [[1, 3], [1], [1, 2, 5]]"
  have c: "compare ?c = netsnmp_compare_netsnmp_index" by (simp add: ex_container_def)
  have s: "ba_set ?c" "elems ?c = [[1, 3], [1], [1, 2, 5]]"
    using ex_container_set [of "[[1, 3], [1], [1, 2, 5]]"] by (simp_all add: keys_differ_def netsnmp_compare_netsnmp_index_def)
  have "ba_order (compare ?c)" "qsort_ok insertion_sort (compare ?c)" "small ?c" "4 > length (elems ?c)"
    unfolding c using index_order.ba_order_axioms index_order.qsort_insertion_sort s(2) by (simp_all add: small_def)
  from container_walk_visits_all [OF this(1,2) s(1) this(3,4)] show ?thesis

    unfolding c s(2) by auto
qed

section \<open>Chains of indexes\<close>

definition passed_over :: "'e container \<Rightarrow> 'e \<Rightarrow> bool" where
  "passed_over x k \<longleftrightarrow> (case insert_filter x of None \<Rightarrow> False | Some f \<Rightarrow> f k)"

text \<open>An index of a chain: a set of less than 2^31 elements with room for one more, and a sort for its comparison.\<close>

definition chain_index :: "'e qsort \<Rightarrow> 'e container \<Rightarrow> bool" where
  "chain_index qs x \<longleftrightarrow> ba_order (compare x) \<and> qsort_ok qs (compare x) \<and> ba_set x \<and> length (elems x) + 1 < 2 ^ 31"

lemma index_insert:
  assumes "chain_index qs x"
  shows "\<exists>rc x'. netsnmp_binary_array_insert qs True x (Some k) = Ret (rc, x') \<and> ba_set x' \<and> same_kind x x'
    \<and> (if ba_map x k = None then rc = 0 \<and> mset (elems x') = add_mset k (mset (elems x)) \<and> ba_map x' k = Some k
       else rc = -1 \<and> mset (elems x') = mset (elems x))"
proof -
  have o: "ba_order (compare x)" "ba_set x" "small x" "qsort_ok qs (compare x)" using assms by (simp_all add: chain_index_def small_def)
  show ?thesis using ba_order.container_insert [OF o(1) refl o(2-4), of k] ba_order.cmp_refl [OF o(1), of k]
    by (auto split: if_splits)
qed

lemma index_remove:
  assumes "ba_order (compare x)" "qsort_ok qs (compare x)" "ba_set x" "small x" "ba_map x k = Some k"
  shows "\<exists>rc r x'. netsnmp_binary_array_remove qs x k False = Ret (rc, r, x') \<and> ba_set x' \<and> same_kind x x'
    \<and> mset (elems x') = mset (elems x) - {# k #}"
  using ba_order.container_remove [OF assms(1) refl assms(3,4,2), of k False] assms(5) by auto

text \<open>
  C38. An insertion into a container and its further indexes is done in all of them or in none. It succeeds exactly when
  no index that the filter does not pass over holds an element with the key; then each of these has the new
  element and no other change. Otherwise the result is -1 and every index has the elements it had, whichever of them
  refused the element: those before it have removed it again. The entry is removed by its key, so the indexes
  must not allow duplicates.
\<close>

theorem chain_insert_all_or_none:
  assumes "\<forall>x \<in> set xs. chain_index qs x"
  shows "\<exists>rc xs'. CONTAINER_INSERT_HELPER qs [] xs k = Ret (rc, xs') \<and> list_all2 same_kind xs xs' \<and> (\<forall>x \<in> set xs'. ba_set x)
    \<and> (if \<forall>x \<in> set xs. passed_over x k \<or> ba_map x k = None
       then rc = 0 \<and> list_all2 (\<lambda>x x'. mset (elems x') = (if passed_over x k then mset (elems x) else add_mset k (mset (elems x)))) xs xs'
       else rc = -1 \<and> list_all2 (\<lambda>x x'. mset (elems x') = mset (elems x)) xs xs')"
  using assms
proof (induction xs)
  case (Cons x xs)
  let ?free = "\<lambda>xs. \<forall>x \<in> set xs. passed_over x k \<or> ba_map x k = None"
  have x: "chain_index qs x" "ba_set x" using Cons.prems by (simp_all add: chain_index_def)
  obtain rc xs' where r: "CONTAINER_INSERT_HELPER qs [] xs k = Ret (rc, xs')" "list_all2 same_kind xs xs'" "\<forall>x \<in> set xs'. ba_set x"
    "if ?free xs then rc = 0 \<and> list_all2 (\<lambda>x x'. mset (elems x') = (if passed_over x k then mset (elems x) else add_mset k (mset (elems x)))) xs xs'
       else rc = -1 \<and> list_all2 (\<lambda>x x'. mset (elems x') = mset (elems x)) xs xs'"
    using Cons by auto
  show ?case
  proof (cases "passed_over x k")
    case True
    then have pf: "case insert_filter x of None \<Rightarrow> False | Some f \<Rightarrow> f k" by (simp add: passed_over_def)
    have "CONTAINER_INSERT_HELPER qs [] (x # xs) k = Ret (rc, x # xs')" by (simp add: pf r(1))
    then show ?thesis using True r(2-4) x(2) by auto
  next
    case False
    then have nf: "\<not> (case insert_filter x of None \<Rightarrow> False | Some f \<Rightarrow> f k)" by (simp add: passed_over_def)
    obtain rc1 x1 where i: "netsnmp_binary_array_insert qs True x (Some k) = Ret (rc1, x1)" "ba_set x1" "same_kind x x1"
      "if ba_map x k = None then rc1 = 0 \<and> mset (elems x1) = add_mset k (mset (elems x)) \<and> ba_map x1 k = Some k
       else rc1 = -1 \<and> mset (elems x1) = mset (elems x)"
      using index_insert [OF x(1)] by blast
    show ?thesis
    proof (cases "ba_map x k = None")
      case in_use: False
      have "list_all2 same_kind xs xs" "list_all2 (\<lambda>x x'. mset (elems x') = mset (elems x)) xs xs"
        by (simp_all add: list_all2_same)
      then show ?thesis using in_use False i nf Cons.prems by (auto simp: chain_index_def)
    next
      case new: True
      show ?thesis
      proof (cases "?free xs")
        case True
        then show ?thesis using new False i nf r by auto
      next
        case False': False
        have "length (elems x1) = length (elems x) + 1" using i(4) new by (metis size_add_mset size_mset Suc_eq_plus1)
        then have "small x1" "ba_order (compare x1)" "qsort_ok qs (compare x1)"
          using x(1) i(3) by (simp_all add: small_def chain_index_def same_kind_def)
        then obtain rc2 q x2 where "netsnmp_binary_array_remove qs x1 k False = Ret (rc2, q, x2)" "ba_set x2" "same_kind x1 x2"
          "mset (elems x2) = mset (elems x1) - {# k #}" using index_remove [of x1 qs k] i(2,4) new by auto
        then show ?thesis using new False False' i nf r same_kind_trans [of x x1 x2] by auto
      qed
    qed
  qed
qed simp

lemma ex_container_index:
  assumes "keys_differ netsnmp_compare_netsnmp_index xs" "length xs + 1 < 2 ^ 31"
  shows "chain_index insertion_sort (ex_container xs)" "ba_map (ex_container xs) k = find (\<lambda>e. netsnmp_compare_netsnmp_index e k = 0) xs"
  using ex_container_set [OF assms(1)] assms(2) index_order.ba_order_axioms index_order.qsort_insertion_sort
  by (simp_all add: chain_index_def ba_map_def) (simp_all add: ex_container_def)

theorem chain_insert_all_or_none_witness:
  "\<exists>ys. CONTAINER_INSERT_HELPER insertion_sort [] [ex_container [[2]], ex_container [[1, 3], [1, 2]]] [1, 2] = Ret (-1, ys)
    \<and> list_all2 (\<lambda>x x'. mset (elems x') = mset (elems x)) [ex_container [[2]], ex_container [[1, 3], [1, 2]]] ys"
proof -
  have k: "keys_differ netsnmp_compare_netsnmp_index [[2]]" "keys_differ netsnmp_compare_netsnmp_index [[1, 3], [1, 2]]"
    by (simp_all add: keys_differ_def netsnmp_compare_netsnmp_index_def)
  have f: "ba_map (ex_container [[1, 3], [1, 2]]) [1, 2] \<noteq> None" "\<not> passed_over (ex_container [[1, 3], [1, 2]]) [1, 2]"
    by (simp_all add: ex_container_index(2) [OF k(2)] netsnmp_compare_netsnmp_index_def) (simp add: passed_over_def ex_container_def)
  show ?thesis
    using chain_insert_all_or_none [of "[ex_container [[2]], ex_container [[1, 3], [1, 2]]]" insertion_sort "[1, 2]"]
      ex_container_index(1) [OF k(1)] ex_container_index(1) [OF k(2)] f by auto
qed

section \<open>Subsets\<close>

text \<open>What a partial comparison must keep of the order of the elements for a search to work.\<close>

definition splits_order :: "('e \<Rightarrow> 'e \<Rightarrow> int) \<Rightarrow> ('e \<Rightarrow> 'e \<Rightarrow> int) \<Rightarrow> 'e \<Rightarrow> 'e list \<Rightarrow> bool" where
  "splits_order cmp ncmp k xs \<longleftrightarrow> (\<forall>x \<in> set xs. \<forall>y \<in> set xs. cmp x y \<le> 0 \<longrightarrow>
     (ncmp y k < 0 \<longrightarrow> ncmp x k < 0) \<and> (ncmp x k > 0 \<longrightarrow> ncmp y k > 0))"

lemma subset_end_finds:
  assumes "\<And>i. i < length xs \<Longrightarrow> elem_at d i = Ret (xs ! i)" "i + left = length xs" "length xs < 2 ^ 31 - 2" "0 < i"
  shows "\<exists>j. subset_end ncmp k d left i (int (i - 1)) = Ret (int (j - 1)) \<and> i \<le> j \<and> j \<le> length xs
    \<and> (\<forall>p < j. i \<le> p \<longrightarrow> ncmp (xs ! p) k = 0) \<and> (j < length xs \<longrightarrow> ncmp (xs ! j) k \<noteq> 0)"
  using assms(2,4)
proof (induction left arbitrary: i)
  case 0
  then show ?case by (auto intro!: exI [of _ "length xs"])
next
  case (Suc left)
  have el: "elem_at d i = Ret (xs ! i)" and lt: "int (i - 1) < 2 ^ 31 - 2" using assms(1,3) Suc.prems by auto
  show ?case
  proof (cases "ncmp (xs ! i) k = 0")
    case True
    obtain j where j: "subset_end ncmp k d left (i + 1) (int (i + 1 - 1)) = Ret (int (j - 1))" "i + 1 \<le> j" "j \<le> length xs"
      "\<forall>p < j. i + 1 \<le> p \<longrightarrow> ncmp (xs ! p) k = 0" "j < length xs \<longrightarrow> ncmp (xs ! j) k \<noteq> 0"
      using Suc.IH [of "i + 1"] Suc.prems by auto
    have "\<forall>p < j. i \<le> p \<longrightarrow> ncmp (xs ! p) k = 0" using j(4) True by (metis Suc_eq_plus1 not_less_eq_eq order_antisym_conv)
    moreover have "int (i - 1) + 1 = int (i + 1 - 1)" using Suc.prems by simp
    ultimately show ?thesis using j True el lt by (intro exI [of _ j]) simp
  next
    case False
    then show ?thesis using el Suc.prems by (intro exI [of _ i]) auto
  qed
qed

lemma filter_middle:
  assumes "a \<le> b" "b \<le> length xs" "\<forall>i < a. \<not> P (xs ! i)" "\<forall>i < b. a \<le> i \<longrightarrow> P (xs ! i)" "\<forall>i < length xs. b \<le> i \<longrightarrow> \<not> P (xs ! i)"
  shows "filter P xs = take (b - a) (drop a xs)"
proof -
  have "xs = take a xs @ take (b - a) (drop a xs) @ drop b xs"
    using assms(1) by (metis append_take_drop_id drop_drop le_add_diff_inverse2)
  then have "filter P xs = filter P (take a xs) @ filter P (take (b - a) (drop a xs)) @ filter P (drop b xs)"
    by (metis filter_append)
  moreover have "filter P (take a xs) = []" using assms(3) by (auto simp: filter_empty_conv in_set_conv_nth)
  moreover have "filter P (drop b xs) = []" using assms(2,5) by (auto simp: filter_empty_conv in_set_conv_nth)
  moreover have "filter P (take (b - a) (drop a xs)) = take (b - a) (drop a xs)"
    using assms(1,2,4) by (auto simp: filter_id_conv in_set_conv_nth)
  ultimately show ?thesis by simp
qed

lemma get_subset_found:
  assumes "count (container_data c) \<noteq> 0" "sort_if_dirty qs c = Ret c" "binary_search_for_start qs k c = Ret (s, c)"
    and "s = int f" "s < 2 ^ 31 - 2"
    and "subset_end (ncompare c) k (data (container_data c)) (count (container_data c) - (f + 1)) (f + 1) s = Ret l"
    and "l - s + 1 = int len" "0 < len" "int len \<le> (2 ^ 31 - 1) div 8"
  shows "netsnmp_binary_array_get_subset qs True c (Some k) = Ret (Some (take len (drop f (data (container_data c)))), c)"
proof -
  have "nat s = f" "\<not> (s < 0 \<or> s \<ge> 2 ^ 31 - 2)" "\<not> (int len \<le> 0 \<or> int len > (2 ^ 31 - 1) div 8)" "nat (int len) = len"
    using assms(4,5,8,9) by simp_all
  then show ?thesis using assms(1-3,6,7) by (simp add: netsnmp_binary_array_get_subset_def Let_def)
qed

context ba_order
begin

lemma subset_ready:
  assumes "ready c" "length (elems c) \<le> 2 ^ 28 - 1" "splits_order cmp (ncompare c) k (elems c)"
  shows "netsnmp_binary_array_get_subset qs True c (Some k)
    = Ret (case filter (\<lambda>e. ncompare c e k = 0) (elems c) of [] \<Rightarrow> None | es \<Rightarrow> Some (map Some es), c)"
proof (cases "count (container_data c) = 0")
  case True
  then have "elems c = []" using assms(1) length_elems [of c] by (simp add: ready_def)
  then show ?thesis using True by (simp add: netsnmp_binary_array_get_subset_def)
next
  case False
  let ?xs = "elems c" and ?n = "length (elems c)" and ?d = "data (container_data c)" and ?nc = "ncompare c"
  have ok: "table_ok c" "in_order ?xs" using assms(1) by (simp_all add: ready_def)
  have n: "count (container_data c) = ?n" using length_elems [OF ok(1)] by simp
  have mono: "i \<le> j \<Longrightarrow> j < ?n \<Longrightarrow> ?nc (?xs ! j) k < 0 \<Longrightarrow> ?nc (?xs ! i) k < 0"
    and mono': "i \<le> j \<Longrightarrow> j < ?n \<Longrightarrow> ?nc (?xs ! i) k > 0 \<Longrightarrow> ?nc (?xs ! j) k > 0" for i j
    using assms(3) sorted_nth [OF ok(2), of i j] nth_mem [of i ?xs] nth_mem [of j ?xs] order.strict_trans1 [of i j ?n]
    unfolding splits_order_def by blast+
  obtain f where f: "start_loop ?nc k ?d 0 ?n = Ret f" "f \<le> ?n" "\<forall>i < f. ?nc (?xs ! i) k < 0" "\<forall>i < ?n. f \<le> i \<longrightarrow> ?nc (?xs ! i) k \<ge> 0"
    using start_loop_finds [of ?xs ?d ?nc k 0 ?n] slot_elems(2) [OF ok(1)] mono by auto
  have el: "f < ?n \<Longrightarrow> elem_at ?d f = Ret (?xs ! f)" using slot_elems(2) [OF ok(1)] by simp
  show ?thesis
  proof (cases "f < ?n \<and> ?nc (?xs ! f) k = 0")
    case no: False
    have "?nc (?xs ! i) k \<noteq> 0" if "i < ?n" for i
    proof (cases "i < f")
      case False
      then have "f < ?n" "?nc (?xs ! f) k > 0" using that no f(4) by (auto simp: less_le)
      then show ?thesis using mono' [of f i] that False by simp
    qed (use f(3) in auto)
    then have "filter (\<lambda>e. ?nc e k = 0) ?xs = []" by (auto simp: filter_empty_conv in_set_conv_nth)
    moreover have "binary_search_for_start qs k c = Ret (-1, c)"
      using n False f(1) el no by (auto simp: binary_search_for_start_def Let_def ready_sorted [OF assms(1)])
    ultimately show ?thesis
      using False by (simp add: netsnmp_binary_array_get_subset_def Let_def ready_sorted [OF assms(1)])
  next
    case True
    have s: "binary_search_for_start qs k c = Ret (int f, c)"
      using n False f(1) el True assms(2) by (simp add: binary_search_for_start_def Let_def ready_sorted [OF assms(1)])
    obtain j where j: "subset_end ?nc k ?d (?n - (f + 1)) (f + 1) (int (f + 1 - 1)) = Ret (int (j - 1))" "f + 1 \<le> j" "j \<le> ?n"
      "\<forall>p < j. f + 1 \<le> p \<longrightarrow> ?nc (?xs ! p) k = 0" "j < ?n \<longrightarrow> ?nc (?xs ! j) k \<noteq> 0"
      using subset_end_finds [OF slot_elems(2) [OF ok(1)], of "f + 1" "?n - (f + 1)"] True assms(2) by fastforce
    have "?nc (?xs ! i) k \<noteq> 0" if "i < ?n" "j \<le> i" for i
    proof -
      have "?nc (?xs ! j) k > 0" using j(2,5) that f(4) by (auto simp: less_le)
      then show ?thesis using mono' [OF that(2,1)] by simp
    qed
    moreover have "?nc (?xs ! i) k = 0" if "i < j" "f \<le> i" for i
      using j(4) that True by (cases "i = f") auto
    moreover have "\<forall>i < f. ?nc (?xs ! i) k \<noteq> 0" using f(3) by auto
    ultimately have fl: "filter (\<lambda>e. ?nc e k = 0) ?xs = take (j - f) (drop f ?xs)"
      using filter_middle [of f j ?xs "\<lambda>e. ?nc e k = 0"] j(2,3) by auto
    obtain r where r: "?d = map Some ?xs @ r" using table_split [OF ok(1)] by blast
    have "take (j - f) (drop f ?d) = map Some (take (j - f) (drop f ?xs))"
      using j(3) True by (simp add: r take_map drop_map)
    then have go: "netsnmp_binary_array_get_subset qs True c (Some k) = Ret (Some (map Some (take (j - f) (drop f ?xs))), c)"
    proof (subst get_subset_found [OF False ready_sorted [OF assms(1)] s refl])
      show "subset_end ?nc k ?d (count (container_data c) - (f + 1)) (f + 1) (int f) = Ret (int (j - 1))" using j(1) n by simp
      show "int (j - 1) - int f + 1 = int (j - f)" "0 < j - f" using j(2) by auto
      show "int f < 2 ^ 31 - 2" "int (j - f) \<le> (2 ^ 31 - 1) div 8" using j(2,3) assms(2) by auto
    qed simp
    have "take (j - f) (drop f ?xs) \<noteq> []" using j(2,3) by simp
    then show ?thesis unfolding fl go by (cases "take (j - f) (drop f ?xs)") simp_all
  qed
qed

lemma container_subset:
  assumes "compare c = cmp" "ba_sound c" "\<not> key_unsorted c" "qsort_ok qs cmp"
    "length (elems c) \<le> 2 ^ 28 - 1" "splits_order cmp (ncompare c) k (elems c)"
  shows "\<exists>es c'. netsnmp_binary_array_get_subset qs True c (Some k) = Ret (if es = [] then None else Some (map Some es), c')
    \<and> mset es = filter_mset (\<lambda>e. ncompare c e k = 0) (mset (elems c)) \<and> in_order es
    \<and> mset (elems c') = mset (elems c) \<and> same_kind c c'"
proof -
  obtain c' where c': "sort_if_dirty qs c = Ret c'" "ready c'" "mset (elems c') = mset (elems c)" "same_kind c c'"
    using sort_if_dirty_ready [OF _ assms(3,4)] assms(1,2) wf_sound by blast
  have nc: "ncompare c' = ncompare c" "set (elems c') = set (elems c)" "length (elems c') = length (elems c)"
    using c'(4) mset_eq_setD [OF c'(3)] mset_eq_length [OF c'(3)] by (simp_all add: same_kind_def)
  let ?es = "filter (\<lambda>e. ncompare c e k = 0) (elems c')"
  have s: "netsnmp_binary_array_get_subset qs True c' (Some k) = Ret (if ?es = [] then None else Some (map Some ?es), c')"
  proof -
    have "splits_order cmp (ncompare c') k (elems c')" using assms(6) unfolding splits_order_def nc .
    moreover have "length (elems c') \<le> 2 ^ 28 - 1" using assms(5) nc(3) by simp
    ultimately show ?thesis using subset_ready [OF c'(2), of k qs] unfolding nc(1) by (cases ?es) simp_all
  qed
  have cnt: "count (container_data c') = length (elems c')" "count (container_data c) = length (elems c)"
    using length_elems [of c', symmetric] length_elems [of c, symmetric] c'(2) assms(2) unfolding ready_def ba_sound_def by blast+
  have "netsnmp_binary_array_get_subset qs True c (Some k) = netsnmp_binary_array_get_subset qs True c' (Some k)
    \<or> count (container_data c) = 0"
    using c'(1) ready_sorted [OF c'(2)] cnt nc(3) by (simp add: netsnmp_binary_array_get_subset_def Let_def)
  moreover have "in_order ?es" using c'(2) by (simp add: ready_def sorted_wrt_filter)
  moreover have "mset ?es = filter_mset (\<lambda>e. ncompare c e k = 0) (mset (elems c))" using c'(3) by (simp add: mset_filter)
  ultimately show ?thesis
  proof (elim disjE, goal_cases)
    case 1
    then show ?case using s c'(3,4) by (intro exI [of _ ?es] exI [of _ c']) simp
  next
    case 2
    then show ?case using cnt by (intro exI [of _ "[]"] exI [of _ c]) (simp add: netsnmp_binary_array_get_subset_def)
  qed
qed

end

text \<open>
  A search for a subset returns exactly the elements that match the key under the partial comparison, each once
  and in order, or null when there are none; it finds them by a binary search for the first and a scan to the last.
  The partial comparison has to agree with the order of the elements, and there may be at most 2^28 - 1 of them, the
  largest number whose pointers the code is willing to count in an int. The elements of the container do not change.
\<close>

theorem subset_returns_all_matches:
  assumes "ba_order (compare c)" "qsort_ok qs (compare c)" "ba_sound c" "\<not> key_unsorted c"
    "length (elems c) \<le> 2 ^ 28 - 1" "splits_order (compare c) (ncompare c) k (elems c)"
  shows "\<exists>es c'. netsnmp_binary_array_get_subset qs True c (Some k) = Ret (if es = [] then None else Some (map Some es), c')
    \<and> mset es = filter_mset (\<lambda>e. ncompare c e k = 0) (mset (elems c)) \<and> sorted_wrt (\<lambda>a b. compare c a b \<le> 0) es
    \<and> mset (elems c') = mset (elems c) \<and> same_kind c c'"
  by (rule ba_order.container_subset [OF assms(1) refl assms(3,4,2,5,6)])

theorem subset_returns_all_matches_witness:
  "\<exists>es c'. netsnmp_binary_array_get_subset insertion_sort True (ex_container [[2], [1, 3], [1, 2, 5]]) (Some [1]) = Ret (Some (map Some es), c')
    \<and> mset es = {# [1, 3], [1, 2, 5] #}"
proof -
  let ?c = "ex_container [[2], [1, 3], [1, 2, 5]]"
  have c: "compare ?c = netsnmp_compare_netsnmp_index" "ncompare ?c = netsnmp_ncompare_netsnmp_index" by (simp_all add: ex_container_def)
  have s: "ba_set ?c" "elems ?c = [[2], [1, 3], [1, 2, 5]]"
    using ex_container_set [of "[[2], [1, 3], [1, 2, 5]]"] by (simp_all add: keys_differ_def netsnmp_compare_netsnmp_index_def)
  have "splits_order (compare ?c) (ncompare ?c) [1] (elems ?c)"
    unfolding c s(2) by (simp add: splits_order_def netsnmp_compare_netsnmp_index_def netsnmp_ncompare_netsnmp_index_def snmp_oid_ncompare_def snmp_oid_compare_Cons)
  moreover have "ba_order (compare ?c)" "qsort_ok insertion_sort (compare ?c)"
    unfolding c using index_order.ba_order_axioms index_order.qsort_insertion_sort by simp_all
  moreover have "ba_sound ?c" "\<not> key_unsorted ?c" "length (elems ?c) \<le> 2 ^ 28 - 1" using s by (simp_all add: ba_set_def)
  ultimately show ?thesis using subset_returns_all_matches [of ?c insertion_sort "[1]"] unfolding c s(2)
    by (fastforce simp: netsnmp_ncompare_netsnmp_index_def snmp_oid_ncompare_def snmp_oid_compare_Cons)
qed

section \<open>Findings\<close>

text \<open>
  Without memory an insertion into a full array writes behind it, since the result of \<open>_ba_resize_check\<close> is not looked
  at.
\<close>

lemma insert_ignores_resize_failure:
  "count (container_data c) = length (data (container_data c)) \<Longrightarrow> p \<le> count (container_data c)
   \<Longrightarrow> netsnmp_binary_array_insert_before False c p (Some e) d = Overrun"
  by (simp add: netsnmp_binary_array_insert_before_def ba_resize_check_def Let_def)

text \<open>
  The removal of the last element through an iterator raises the iterator's counter but not the container's: the
  iterator then takes the container for changed and shows nothing more.
\<close>

lemma iterator_remove_last_out_of_sync:
  assumes "table_ok c" "elems c \<noteq> []" "it_pos it + 1 = length (elems c)" "it_sync it = csync c"
  shows "\<exists>c' it'. ba_iterator_remove c it = Ret (0, c', it') \<and> ba_iterator_curr c' it' = Ret None \<and> ba_iterator_first c' it' = Ret None"
proof -
  obtain c' where c': "netsnmp_binary_array_remove_at c (it_pos it) False = Ret (0, None, c')" "csync c' = csync c"
    using remove_at_elems [OF assms(1), of "it_pos it" False] assms(3) by auto
  have "csync c \<noteq> csync c + 1" by simp
  then show ?thesis using c' assms(4)
    by (auto simp: ba_iterator_remove_def ba_iterator_curr_def ba_iterator_first_def ba_iterator_position_def Let_def)
qed

end
