(* ===== verification/Agentx.thy ===== *)
theory Agentx
  imports Pdu
begin

text \<open>
  The AgentX protocol between a master agent and its subagents: the codec of
  \<^verbatim>\<open>agent/mibgroup/agentx/protocol.c\<close>, and from \<^verbatim>\<open>snmplib/snmp_client.c\<close> and \<^verbatim>\<open>snmplib/snmp_api.c\<close> the functions
  that give a new variable its value and append it to a PDU. A packet is built towards the end of a buffer that grows at its
  end (\<open>rb_off\<close> is \<open>*out_len\<close>), and parsed into buffers of which the model keeps the sizes. \<open>can_alloc n\<close>
  says whether \<open>malloc\<close> of \<open>n\<close> bytes succeeds; what a failing call has stored in the PDU by then is dropped. The
  machine is little-endian.
\<close>

record agentx_pdu = netsnmp_pdu +
  pdu_sessid :: int
  pdu_transid :: int
  pdu_priority :: int
  pdu_range_subid :: int

abbreviation (input) AGENTX_VERSION_BASE :: int where "AGENTX_VERSION_BASE \<equiv> 192"
abbreviation (input) AGENTX_MSG_OPEN :: u_char where "AGENTX_MSG_OPEN \<equiv> 1"
abbreviation (input) AGENTX_MSG_CLOSE :: u_char where "AGENTX_MSG_CLOSE \<equiv> 2"
abbreviation (input) AGENTX_MSG_REGISTER :: u_char where "AGENTX_MSG_REGISTER \<equiv> 3"
abbreviation (input) AGENTX_MSG_UNREGISTER :: u_char where "AGENTX_MSG_UNREGISTER \<equiv> 4"
abbreviation (input) AGENTX_MSG_GET :: u_char where "AGENTX_MSG_GET \<equiv> 5"
abbreviation (input) AGENTX_MSG_GETNEXT :: u_char where "AGENTX_MSG_GETNEXT \<equiv> 6"
abbreviation (input) AGENTX_MSG_GETBULK :: u_char where "AGENTX_MSG_GETBULK \<equiv> 7"
abbreviation (input) AGENTX_MSG_TESTSET :: u_char where "AGENTX_MSG_TESTSET \<equiv> 8"
abbreviation (input) AGENTX_MSG_COMMITSET :: u_char where "AGENTX_MSG_COMMITSET \<equiv> 9"
abbreviation (input) AGENTX_MSG_UNDOSET :: u_char where "AGENTX_MSG_UNDOSET \<equiv> 10"
abbreviation (input) AGENTX_MSG_CLEANUPSET :: u_char where "AGENTX_MSG_CLEANUPSET \<equiv> 11"
abbreviation (input) AGENTX_MSG_NOTIFY :: u_char where "AGENTX_MSG_NOTIFY \<equiv> 12"
abbreviation (input) AGENTX_MSG_PING :: u_char where "AGENTX_MSG_PING \<equiv> 13"
abbreviation (input) AGENTX_MSG_INDEX_ALLOCATE :: u_char where "AGENTX_MSG_INDEX_ALLOCATE \<equiv> 14"
abbreviation (input) AGENTX_MSG_INDEX_DEALLOCATE :: u_char where "AGENTX_MSG_INDEX_DEALLOCATE \<equiv> 15"
abbreviation (input) AGENTX_MSG_ADD_AGENT_CAPS :: u_char where "AGENTX_MSG_ADD_AGENT_CAPS \<equiv> 16"
abbreviation (input) AGENTX_MSG_REMOVE_AGENT_CAPS :: u_char where "AGENTX_MSG_REMOVE_AGENT_CAPS \<equiv> 17"
abbreviation (input) AGENTX_MSG_RESPONSE :: u_char where "AGENTX_MSG_RESPONSE \<equiv> 18"
abbreviation (input) NON_DEFAULT_CONTEXT :: u_long where "NON_DEFAULT_CONTEXT \<equiv> 0x08"
abbreviation (input) NETWORK_BYTE_ORDER :: u_long where "NETWORK_BYTE_ORDER \<equiv> 0x10"
abbreviation (input) UCD_MSG_FLAG_FORCE_PDU_COPY :: u_long where "UCD_MSG_FLAG_FORCE_PDU_COPY \<equiv> 0x400"
abbreviation (input) UCD_MSG_FLAG_ALWAYS_IN_VIEW :: u_long where "UCD_MSG_FLAG_ALWAYS_IN_VIEW \<equiv> 0x800"
abbreviation (input) ASN_PRIV_INCL_RANGE :: u_char where "ASN_PRIV_INCL_RANGE \<equiv> 0xC2"
abbreviation (input) ASN_PRIV_EXCL_RANGE :: u_char where "ASN_PRIV_EXCL_RANGE \<equiv> 0xC3"
abbreviation (input) ASN_PRIV_IMPLIED_OCTET_STR :: u_char where "ASN_PRIV_IMPLIED_OCTET_STR \<equiv> 0xC4"
abbreviation (input) ASN_PRIV_IMPLIED_OBJECT_ID :: u_char where "ASN_PRIV_IMPLIED_OBJECT_ID \<equiv> 0xC6"
abbreviation (input) SNMPERR_BAD_ASN1_BUILD :: int where "SNMPERR_BAD_ASN1_BUILD \<equiv> -11"
abbreviation (input) SNMPERR_UNKNOWN_PDU :: int where "SNMPERR_UNKNOWN_PDU \<equiv> -23"
abbreviation (input) SNMPERR_ASN_PARSE_ERR :: int where "SNMPERR_ASN_PARSE_ERR \<equiv> -29"
abbreviation (input) SNMPERR_INCOMPLETE_PACKET :: int where "SNMPERR_INCOMPLETE_PACKET \<equiv> SNMPERR_ASN_PARSE_ERR"

definition network_order :: "agentx_pdu \<Rightarrow> bool" where
  "network_order pdu \<longleftrightarrow> pdu_flags pdu AND NETWORK_BYTE_ORDER \<noteq> 0"

section \<open>Values in memory\<close>

text \<open>A \<open>short\<close>, a \<open>long\<close> and an array of \<open>oid\<close> as bytes; \<open>htons\<close> is \<open>ntohs\<close>.\<close>

definition mem16 :: "16 word \<Rightarrow> bytes" where
  "mem16 w = [word_of_nat (unat w), word_of_nat (unat w div 256)]"

definition int16_of :: "bytes \<Rightarrow> 16 word" where
  "int16_of bs = word_of_nat (le_val bs)"

definition htons :: "16 word \<Rightarrow> 16 word" where
  "htons w = int16_of (rev (mem16 w))"

definition mem64 :: "u_long \<Rightarrow> bytes" where
  "mem64 w = mem32 (fst (double_ints w)) @ mem32 (snd (double_ints w))"

definition long_of :: "bytes \<Rightarrow> u_long" where
  "long_of bs = double_of_ints (int32_of (take 4 bs), int32_of (take 4 (drop 4 bs)))"

definition oid_mem :: "oid \<Rightarrow> bytes" where
  "oid_mem x = concat (map mem64 x)"

definition oid_of :: "bytes \<Rightarrow> oid" where
  "oid_of bs = map (\<lambda>i. long_of (take 8 (drop (8 * i) bs))) [0..<length bs div 8]"

definition counter64_of :: "bytes \<Rightarrow> counter64" where
  "counter64_of bs = \<lparr>c64_high = long_of (take 8 bs), c64_low = long_of (drop 8 bs)\<rparr>"

section \<open>Giving a variable its value\<close>

abbreviation (input) SIZEOF_VARIABLE_LIST :: nat where "SIZEOF_VARIABLE_LIST \<equiv> 1136"
abbreviation (input) SIZEOF_VAR_BUF :: nat where "SIZEOF_VAR_BUF \<equiv> 40"
abbreviation (input) SIZEOF_NAME_LOC :: nat where "SIZEOF_NAME_LOC \<equiv> 1024"

text \<open>
  \<open>snmp_set_var_value\<close>: \<open>value\<close> is the memory behind the pointer. The inner \<open>None\<close> is the error return. An
  empty value leaves \<open>val\<close> at an empty string, whatever the type. With \<open>long\<close> of 64 bits the sizes of
  \<open>long long\<close> and \<open>intmax_t\<close> are that of \<open>long\<close>.
\<close>

definition snmp_set_var_integer :: "u_char \<Rightarrow> bytes \<Rightarrow> nat \<Rightarrow> u_long option" where
  "snmp_set_var_integer type value len =
     (if len = 4 then
        Some (if type = ASN_INTEGER then scast (int32_of value) else ucast (int32_of value))
      else if len = 8 then
        (let i = long_of value in Some (if sint i > 0xffffffff then i AND 0xffffffff else i))
      else if len = 2 then
        Some (if type = ASN_INTEGER then scast (int16_of value) else ucast (int16_of value))
      else if len = 1 then
        Some (if type = ASN_INTEGER then scast (hd value) else ucast (hd value))
      else None)"

definition snmp_set_var_value :: "(nat \<Rightarrow> bool) \<Rightarrow> u_char \<Rightarrow> bytes option \<Rightarrow> nat \<Rightarrow> (netsnmp_vardata \<times> nat) option cres" where
  "snmp_set_var_value can_alloc type val len =
     (case val of
        None \<Rightarrow> Ret (if len > 0 then None else Some (Val_string [], 0))
      | Some mem \<Rightarrow>
          let largeval = len > SIZEOF_VAR_BUF in
          if len = 0 then Ret (Some (Val_string [], 0))
          else if type \<in> {ASN_INTEGER, ASN_GAUGE, ASN_TIMETICKS, ASN_COUNTER, ASN_UINTEGER} then
            cbind (asn_copy mem len) (\<lambda>v. Ret (map_option (\<lambda>i. (Val_integer i, 8)) (snmp_set_var_integer type v len)))
          else if type \<in> {ASN_OBJECT_ID, ASN_PRIV_IMPLIED_OBJECT_ID, ASN_PRIV_INCL_RANGE, ASN_PRIV_EXCL_RANGE} then
            (if largeval \<and> \<not> can_alloc len then Ret None
             else cbind (asn_copy mem len) (\<lambda>v. Ret (Some (Val_objid (oid_of v), len))))
          else if type \<in> {ASN_IPADDRESS, ASN_PRIV_IMPLIED_OCTET_STR, ASN_OCTET_STR, ASN_BIT_STR, ASN_OPAQUE, ASN_NSAP} then
            (if len \<ge> SIZEOF_VAR_BUF \<and> \<not> can_alloc (len + 1) then Ret None
             else cbind (asn_copy mem len) (\<lambda>v. Ret (Some (Val_string v, len))))
          else if type \<in> null_types then Ret (Some (Val_none, 0))
          else if type \<in> {ASN_OPAQUE_U64, ASN_OPAQUE_I64, ASN_COUNTER64} then
            (if largeval \<or> len \<noteq> 16 then Ret None
             else cbind (asn_copy mem len) (\<lambda>v. Ret (Some (Val_counter64 (counter64_of v), 16))))
          else if type = ASN_OPAQUE_FLOAT then
            (if largeval then Ret None
             else cbind (asn_copy mem 4) (\<lambda>v. Ret (Some (Val_float (int32_of v), 4))))
          else if type = ASN_OPAQUE_DOUBLE then
            (if largeval then Ret None
             else cbind (asn_copy mem 8) (\<lambda>v. Ret (Some (Val_double (long_of v), 8))))
          else Ret None)"

text \<open>The variables afterwards; when there is no memory or no value they stay, which the callers here do not notice.\<close>

definition snmp_pdu_add_variable ::
    "(nat \<Rightarrow> bool) \<Rightarrow> agentx_pdu \<Rightarrow> oid \<Rightarrow> u_char \<Rightarrow> bytes option \<Rightarrow> nat \<Rightarrow> agentx_pdu cres" where
  "snmp_pdu_add_variable can_alloc pdu name type val len =
     (if \<not> can_alloc SIZEOF_VARIABLE_LIST then Ret pdu
      else cbind (snmp_set_var_value can_alloc type val len) (\<lambda>v.
        case v of
          None \<Rightarrow> Ret pdu
        | Some (v, val_len) \<Rightarrow>
            if 8 * length name > SIZEOF_NAME_LOC \<and> \<not> can_alloc (8 * length name) then Ret pdu
            else Ret (pdu\<lparr>pdu_variables := pdu_variables pdu @
                            [\<lparr>vp_name = name, vp_type = type, vp_val = v, vp_val_len = val_len\<rparr>]\<rparr>)))"

definition snmp_add_null_var :: "(nat \<Rightarrow> bool) \<Rightarrow> agentx_pdu \<Rightarrow> oid \<Rightarrow> agentx_pdu cres" where
  "snmp_add_null_var can_alloc pdu name = snmp_pdu_add_variable can_alloc pdu name ASN_NULL None 0"

section \<open>Building\<close>

text \<open>\<open>while ((*out_len + n) >= *buf_len) if (!(allow_realloc && snmp_realloc(buf, buf_len))) return 0;\<close>\<close>

function agentx_need :: "allocator \<Rightarrow> bool \<Rightarrow> nat \<Rightarrow> rbuf \<Rightarrow> rbuf cres" where
  "agentx_need alloc r n s =
     (if rb_off s + n \<ge> length (rb_pkt s) then
        (if r then (case snmp_realloc alloc (rb_pkt s) of
                      None \<Rightarrow> Null
                    | Some pkt \<Rightarrow> agentx_need alloc r n (s\<lparr>rb_pkt := pkt\<rparr>))
         else Null)
      else Ret s)"
  by pat_completeness auto
termination
  by (relation "measure (\<lambda>(alloc, r, n, s). Suc (rb_off s + n) - length (rb_pkt s))")
     (auto simp: snmp_realloc_def snmp_realloc_size_def Let_def split: option.splits if_splits)

declare agentx_need.simps [simp del]

text \<open>\<open>memmove(*buf + *out_len, bs, ..); *out_len += ..\<close>, and the same byte by byte.\<close>

definition agentx_put :: "bytes \<Rightarrow> rbuf \<Rightarrow> rbuf cres" where
  "agentx_put bs s =
     (if rb_off s + length bs \<le> length (rb_pkt s) then
        Ret (s\<lparr>rb_pkt := take (rb_off s) (rb_pkt s) @ bs @ drop (rb_off s + length bs) (rb_pkt s),
               rb_off := rb_off s + length bs\<rparr>)
      else Overrun)"

definition agentx_realloc_build_int :: "allocator \<Rightarrow> bool \<Rightarrow> u_int \<Rightarrow> bool \<Rightarrow> rbuf \<Rightarrow> rbuf cres" where
  "agentx_realloc_build_int alloc r val nbo s =
     cbind (agentx_need alloc r 4 s) (agentx_put (mem32 (if nbo then htonl val else val)))"

text \<open>\<open>agentx_build_int\<close> at the position \<open>pos\<close> of the buffer.\<close>

definition agentx_build_int :: "nat \<Rightarrow> u_int \<Rightarrow> bool \<Rightarrow> rbuf \<Rightarrow> rbuf cres" where
  "agentx_build_int pos val nbo s =
     (if pos + 4 \<le> length (rb_pkt s) then
        Ret (s\<lparr>rb_pkt := take pos (rb_pkt s) @ mem32 (if nbo then htonl val else val) @ drop (pos + 4) (rb_pkt s)\<rparr>)
      else Overrun)"

definition agentx_realloc_build_short :: "allocator \<Rightarrow> bool \<Rightarrow> 16 word \<Rightarrow> bool \<Rightarrow> rbuf \<Rightarrow> rbuf cres" where
  "agentx_realloc_build_short alloc r val nbo s =
     cbind (agentx_need alloc r 2 s) (agentx_put (mem16 (if nbo then htons val else val)))"

fun agentx_build_subids :: "allocator \<Rightarrow> bool \<Rightarrow> oid \<Rightarrow> bool \<Rightarrow> rbuf \<Rightarrow> rbuf cres" where
  "agentx_build_subids alloc r [] nbo s = Ret s"
| "agentx_build_subids alloc r (x # xs) nbo s =
     cbind (agentx_realloc_build_int alloc r (ucast x) nbo s) (agentx_build_subids alloc r xs nbo)"

definition agentx_compact :: "oid \<Rightarrow> bool" where \<comment> \<open>the \<open>'Compact' internet OIDs\<close>\<close>
  "agentx_compact name \<longleftrightarrow> length name \<ge> 5 \<and> name ! 0 = 1 \<and> name ! 1 = 3 \<and> name ! 2 = 6 \<and> name ! 3 = 1 \<and>
                           name ! 4 > 0 \<and> name ! 4 < 256"

definition agentx_realloc_build_oid :: "allocator \<Rightarrow> bool \<Rightarrow> int \<Rightarrow> oid \<Rightarrow> bool \<Rightarrow> rbuf \<Rightarrow> rbuf cres" where
  "agentx_realloc_build_oid alloc r inclusive name nbo s =
     (let inclusive = (if length name = 0 then 0 else inclusive);
          prefix = (if agentx_compact name then name ! 4 else 0);
          name = (if agentx_compact name then drop 5 name else name)
      in cbind (agentx_need alloc r (4 + 4 * length name) s) (\<lambda>s.
         cbind (agentx_put [word_of_nat (length name), ucast prefix, word_of_int inclusive, 0x00] s) (\<lambda>s.
           agentx_build_subids alloc r name nbo s)))"

definition agentx_realloc_build_string :: "allocator \<Rightarrow> bool \<Rightarrow> bytes \<Rightarrow> bool \<Rightarrow> rbuf \<Rightarrow> rbuf cres" where
  "agentx_realloc_build_string alloc r str nbo s =
     (let string_len = length str in
      cbind (agentx_need alloc r (4 + 4 * ((string_len + 3) div 4)) s) (\<lambda>s.
      cbind (agentx_realloc_build_int alloc r (word_of_nat string_len) nbo s) (\<lambda>s.
        if string_len = 0 then Ret s
        else cbind (agentx_put str s) (\<lambda>s.
          if string_len mod 4 \<noteq> 0 then agentx_put (replicate (4 - string_len mod 4) 0) s else Ret s))))"

definition agentx_realloc_build_double :: "allocator \<Rightarrow> bool \<Rightarrow> u_long \<Rightarrow> bool \<Rightarrow> rbuf \<Rightarrow> rbuf cres" where
  "agentx_realloc_build_double alloc r double_val nbo s =
     (let (int0, int1) = double_ints double_val; tmp = htonl int0 in
      agentx_realloc_build_string alloc r
        ([ASN_OPAQUE_TAG1, ASN_OPAQUE_DOUBLE, 8] @ mem32 (htonl int1) @ mem32 tmp) nbo s)"

definition agentx_realloc_build_float :: "allocator \<Rightarrow> bool \<Rightarrow> u_int \<Rightarrow> bool \<Rightarrow> rbuf \<Rightarrow> rbuf cres" where
  "agentx_realloc_build_float alloc r float_val nbo s =
     agentx_realloc_build_string alloc r ([ASN_OPAQUE_TAG1, ASN_OPAQUE_FLOAT, 4] @ mem32 (htonl float_val)) nbo s"

text \<open>
  The first \<open>n\<close> bytes behind \<open>vp->val.string\<close>, where a counter of 64 bits lies as its two halves. Two types are
  written with another type in front of the value.
\<close>

definition as_chars :: "nat \<Rightarrow> netsnmp_vardata \<Rightarrow> bytes cres" where
  "as_chars n v =
     (if n = 0 then Ret []
      else case v of
        Val_string str \<Rightarrow> asn_copy str n
      | Val_counter64 c \<Rightarrow> asn_copy (mem64 (c64_high c) @ mem64 (c64_low c)) n
      | _ \<Rightarrow> Overrun)"

definition agentx_wire_type :: "u_char \<Rightarrow> u_char" where
  "agentx_wire_type type =
     (if type \<in> {ASN_OPAQUE_FLOAT, ASN_OPAQUE_DOUBLE, ASN_OPAQUE_I64, ASN_OPAQUE_U64, ASN_OPAQUE_COUNTER64} then ASN_OPAQUE
      else if type \<in> {ASN_PRIV_INCL_RANGE, ASN_PRIV_EXCL_RANGE} then ASN_OBJECT_ID
      else type)"

definition agentx_build_value :: "allocator \<Rightarrow> bool \<Rightarrow> u_char \<Rightarrow> netsnmp_vardata \<Rightarrow> nat \<Rightarrow> bool \<Rightarrow> rbuf \<Rightarrow> rbuf cres" where
  "agentx_build_value alloc r type val val_len nbo s =
     (if type \<in> {ASN_INTEGER, ASN_COUNTER, ASN_GAUGE, ASN_TIMETICKS, ASN_UINTEGER} then
        cbind (as_integer val) (\<lambda>i. agentx_realloc_build_int alloc r (ucast i) nbo s)
      else if type = ASN_OPAQUE_FLOAT then cbind (as_float val) (\<lambda>f. agentx_realloc_build_float alloc r f nbo s)
      else if type = ASN_OPAQUE_DOUBLE then cbind (as_double val) (\<lambda>d. agentx_realloc_build_double alloc r d nbo s)
      else if type \<in> {ASN_OPAQUE_I64, ASN_OPAQUE_U64, ASN_OPAQUE_COUNTER64, ASN_OCTET_STR, ASN_IPADDRESS, ASN_OPAQUE} then
        cbind (as_chars val_len val) (\<lambda>str. agentx_realloc_build_string alloc r str nbo s)
      else if type \<in> {ASN_OBJECT_ID, ASN_PRIV_EXCL_RANGE, ASN_PRIV_INCL_RANGE} then
        cbind (as_objid (val_len div 8) val) (\<lambda>x. agentx_realloc_build_oid alloc r 1 x nbo s)
      else if type = ASN_COUNTER64 then
        cbind (as_counter64 val) (\<lambda>c.
          if nbo then
            cbind (agentx_realloc_build_int alloc r (ucast (c64_high c)) nbo s) (agentx_realloc_build_int alloc r (ucast (c64_low c)) nbo)
          else
            cbind (agentx_realloc_build_int alloc r (ucast (c64_low c)) nbo s) (agentx_realloc_build_int alloc r (ucast (c64_high c)) nbo))
      else if type \<in> null_types then Ret s
      else Null)"

definition agentx_realloc_build_varbind :: "allocator \<Rightarrow> bool \<Rightarrow> variable_list \<Rightarrow> bool \<Rightarrow> rbuf \<Rightarrow> rbuf cres" where
  "agentx_realloc_build_varbind alloc r vp nbo s =
     cbind (agentx_realloc_build_short alloc r (ucast (agentx_wire_type (vp_type vp))) nbo s) (\<lambda>s.
     cbind (agentx_need alloc r 2 s) (\<lambda>s.
     cbind (agentx_put [0, 0] s) (\<lambda>s.
     cbind (agentx_realloc_build_oid alloc r 0 (vp_name vp) nbo s) (\<lambda>s.
       agentx_build_value alloc r (vp_type vp) (vp_val vp) (vp_val_len vp) nbo s))))"

fun agentx_build_varbinds :: "allocator \<Rightarrow> bool \<Rightarrow> variable_list list \<Rightarrow> bool \<Rightarrow> rbuf \<Rightarrow> rbuf cres" where
  "agentx_build_varbinds alloc r [] nbo s = Ret s"
| "agentx_build_varbinds alloc r (vp # vps) nbo s =
     cbind (agentx_realloc_build_varbind alloc r vp nbo s) (agentx_build_varbinds alloc r vps nbo)"

fun agentx_build_ranges :: "allocator \<Rightarrow> bool \<Rightarrow> variable_list list \<Rightarrow> bool \<Rightarrow> rbuf \<Rightarrow> rbuf cres" where
  "agentx_build_ranges alloc r [] nbo s = Ret s"
| "agentx_build_ranges alloc r (vp # vps) nbo s =
     cbind (agentx_realloc_build_oid alloc r (if vp_type vp = ASN_PRIV_INCL_RANGE then 1 else 0) (vp_name vp) nbo s) (\<lambda>s.
     cbind (as_objid (vp_val_len vp div 8) (vp_val vp)) (\<lambda>x.
     cbind (agentx_realloc_build_oid alloc r 0 x nbo s) (agentx_build_ranges alloc r vps nbo)))"

text \<open>The header, with a length of 0 and the context, for which AgentX uses \<open>pdu->community\<close>.\<close>

definition agentx_context :: "agentx_pdu \<Rightarrow> bytes cres" where
  "agentx_context pdu =
     (if pdu_community_len pdu = 0 then Ret []
      else case pdu_community pdu of None \<Rightarrow> Overrun | Some c \<Rightarrow> asn_copy c (pdu_community_len pdu))"

definition agentx_realloc_build_header :: "allocator \<Rightarrow> bool \<Rightarrow> agentx_pdu \<Rightarrow> rbuf \<Rightarrow> rbuf cres" where
  "agentx_realloc_build_header alloc r pdu s =
     (let nbo = network_order pdu in
      cbind (agentx_need alloc r 4 s) (\<lambda>s.
      cbind (agentx_put [1, pdu_command pdu, ucast (pdu_flags pdu AND 0xff), 0] s) (\<lambda>s.
      cbind (agentx_realloc_build_int alloc r (word_of_int (pdu_sessid pdu)) nbo s) (\<lambda>s.
      cbind (agentx_realloc_build_int alloc r (word_of_int (pdu_transid pdu)) nbo s) (\<lambda>s.
      cbind (agentx_realloc_build_int alloc r (word_of_int (pdu_reqid pdu)) nbo s) (\<lambda>s.
      cbind (agentx_realloc_build_int alloc r 0 nbo s) (\<lambda>s.
        if pdu_flags pdu AND NON_DEFAULT_CONTEXT \<noteq> 0 then
          cbind (agentx_context pdu) (\<lambda>str. agentx_realloc_build_string alloc r str nbo s)
        else Ret s)))))))"

text \<open>Four bytes, the last of them not used.\<close>

definition agentx_build_quad :: "allocator \<Rightarrow> bool \<Rightarrow> u_char \<Rightarrow> u_char \<Rightarrow> u_char \<Rightarrow> rbuf \<Rightarrow> rbuf cres" where
  "agentx_build_quad alloc r a b c s = cbind (agentx_need alloc r 4 s) (agentx_put [a, b, c, 0])"

definition first_variable :: "agentx_pdu \<Rightarrow> variable_list cres" where
  "first_variable pdu = (case pdu_variables pdu of [] \<Rightarrow> Overrun | vp # _ \<Rightarrow> Ret vp)"

definition objid_at :: "int \<Rightarrow> netsnmp_vardata \<Rightarrow> u_long cres" where
  "objid_at i v = (case v of Val_objid x \<Rightarrow> if 0 \<le> i \<and> i < int (length x) then Ret (x ! nat i) else Overrun | _ \<Rightarrow> Overrun)"

text \<open>The payloads: an identifier with a description, a registration, two counts and a list.\<close>

definition agentx_build_described :: "allocator \<Rightarrow> bool \<Rightarrow> agentx_pdu \<Rightarrow> bool \<Rightarrow> rbuf \<Rightarrow> rbuf cres" where
  "agentx_build_described alloc r pdu nbo s =
     cbind (first_variable pdu) (\<lambda>vp.
     cbind (agentx_realloc_build_oid alloc r 0 (vp_name vp) nbo s) (\<lambda>s.
     cbind (as_chars (vp_val_len vp) (vp_val vp)) (\<lambda>str.
       agentx_realloc_build_string alloc r str nbo s)))"

definition agentx_build_registration :: "allocator \<Rightarrow> bool \<Rightarrow> agentx_pdu \<Rightarrow> bool \<Rightarrow> rbuf \<Rightarrow> rbuf cres" where
  "agentx_build_registration alloc r pdu nbo s =
     cbind (agentx_build_quad alloc r (if pdu_command pdu = AGENTX_MSG_REGISTER then ucast (pdu_time pdu) else 0)
              (word_of_int (pdu_priority pdu)) (word_of_int (pdu_range_subid pdu)) s) (\<lambda>s.
     cbind (first_variable pdu) (\<lambda>vp.
     cbind (agentx_realloc_build_oid alloc r 0 (vp_name vp) nbo s) (\<lambda>s.
       if pdu_range_subid pdu \<noteq> 0 then
         cbind (objid_at (pdu_range_subid pdu - 1) (vp_val vp)) (\<lambda>x. agentx_realloc_build_int alloc r (ucast x) nbo s)
       else Ret s)))"

definition agentx_build_counts :: "allocator \<Rightarrow> bool \<Rightarrow> agentx_pdu \<Rightarrow> bool \<Rightarrow> rbuf \<Rightarrow> rbuf cres" where
  "agentx_build_counts alloc r pdu nbo s =
     cbind (agentx_realloc_build_short alloc r (word_of_int (pdu_errstat pdu)) nbo s)
       (agentx_realloc_build_short alloc r (word_of_int (pdu_errindex pdu)) nbo)"

definition agentx_commands :: "u_char set" where
  "agentx_commands = {AGENTX_MSG_OPEN, AGENTX_MSG_CLOSE, AGENTX_MSG_REGISTER, AGENTX_MSG_UNREGISTER, AGENTX_MSG_GET, AGENTX_MSG_GETNEXT,
     AGENTX_MSG_GETBULK, AGENTX_MSG_TESTSET, AGENTX_MSG_COMMITSET, AGENTX_MSG_UNDOSET, AGENTX_MSG_CLEANUPSET, AGENTX_MSG_NOTIFY,
     AGENTX_MSG_PING, AGENTX_MSG_INDEX_ALLOCATE, AGENTX_MSG_INDEX_DEALLOCATE, AGENTX_MSG_ADD_AGENT_CAPS,
     AGENTX_MSG_REMOVE_AGENT_CAPS, AGENTX_MSG_RESPONSE}"

definition agentx_build_payload :: "allocator \<Rightarrow> bool \<Rightarrow> agentx_pdu \<Rightarrow> bool \<Rightarrow> rbuf \<Rightarrow> rbuf cres" where
  "agentx_build_payload alloc r pdu nbo s =
     (let c = pdu_command pdu in
      if c = AGENTX_MSG_OPEN then
        cbind (agentx_build_quad alloc r (ucast (pdu_time pdu)) 0 0 s) (agentx_build_described alloc r pdu nbo)
      else if c = AGENTX_MSG_CLOSE then agentx_build_quad alloc r (word_of_int (pdu_errstat pdu)) 0 0 s
      else if c \<in> {AGENTX_MSG_REGISTER, AGENTX_MSG_UNREGISTER} then agentx_build_registration alloc r pdu nbo s
      else if c = AGENTX_MSG_GETBULK then
        cbind (agentx_build_counts alloc r pdu nbo s) (agentx_build_ranges alloc r (pdu_variables pdu) nbo)
      else if c \<in> {AGENTX_MSG_GET, AGENTX_MSG_GETNEXT} then agentx_build_ranges alloc r (pdu_variables pdu) nbo s
      else if c = AGENTX_MSG_RESPONSE then
        cbind (agentx_realloc_build_int alloc r (ucast (pdu_time pdu)) nbo s) (\<lambda>s.
        cbind (agentx_build_counts alloc r pdu nbo s) (agentx_build_varbinds alloc r (pdu_variables pdu) nbo))
      else if c \<in> {AGENTX_MSG_INDEX_ALLOCATE, AGENTX_MSG_INDEX_DEALLOCATE, AGENTX_MSG_NOTIFY, AGENTX_MSG_TESTSET} then
        agentx_build_varbinds alloc r (pdu_variables pdu) nbo s
      else if c = AGENTX_MSG_ADD_AGENT_CAPS then agentx_build_described alloc r pdu nbo s
      else if c = AGENTX_MSG_REMOVE_AGENT_CAPS then
        cbind (first_variable pdu) (\<lambda>vp. agentx_realloc_build_oid alloc r 0 (vp_name vp) nbo s)
      else Ret s)"

text \<open>
  What \<open>_agentx_realloc_build\<close> changes in the PDU before it builds it, and the flag it leaves: everything causes a
  response, except for a response and a CleanupSet. Its error is the \<open>s_snmp_errno\<close> of the session.
  The zero at the end of a string is not modelled, so that to read it would count as an \<open>Overrun\<close>.
\<close>

definition agentx_prepare :: "allocator \<Rightarrow> agentx_pdu \<Rightarrow> agentx_pdu" where
  "agentx_prepare alloc pdu =
     (let pdu = (if pdu_command pdu \<in> {AGENTX_MSG_OPEN, AGENTX_MSG_CLOSE, AGENTX_MSG_RESPONSE, AGENTX_MSG_COMMITSET,
                                      AGENTX_MSG_UNDOSET, AGENTX_MSG_CLEANUPSET}
                 then pdu\<lparr>pdu_flags := pdu_flags pdu AND NOT NON_DEFAULT_CONTEXT\<rparr> else pdu)
      in case (pdu_contextName pdu, pdu_community pdu) of
           (Some name, None) \<Rightarrow>
             (let str = takeWhile (\<lambda>b. b \<noteq> 0) name in
              pdu\<lparr>pdu_community := (if alloc (length str + 1) = None then None else Some str),
                  pdu_community_len := pdu_contextNameLen pdu,
                  pdu_flags := pdu_flags pdu OR NON_DEFAULT_CONTEXT\<rparr>)
         | _ \<Rightarrow> pdu)"

definition agentx_expect :: "agentx_pdu \<Rightarrow> agentx_pdu" where
  "agentx_expect pdu =
     pdu\<lparr>pdu_flags := (if pdu_command pdu \<in> {AGENTX_MSG_RESPONSE, AGENTX_MSG_CLEANUPSET}
                      then (pdu_flags pdu OR UCD_MSG_FLAG_EXPECT_RESPONSE) AND NOT UCD_MSG_FLAG_EXPECT_RESPONSE
                      else pdu_flags pdu OR UCD_MSG_FLAG_EXPECT_RESPONSE)\<rparr>"

definition agentx_realloc_build_pdu :: "allocator \<Rightarrow> bool \<Rightarrow> agentx_pdu \<Rightarrow> rbuf \<Rightarrow> (int + rbuf \<times> agentx_pdu) cres" where
  "agentx_realloc_build_pdu alloc r pdu s =
     (let ilen = rb_off s; nbo = network_order pdu; pdu = agentx_prepare alloc pdu in
      cbind (agentx_realloc_build_header alloc r pdu s) (\<lambda>s.
        if pdu_command pdu \<notin> agentx_commands then Ret (Inl SNMPERR_UNKNOWN_PDU)
        else cbind (agentx_build_payload alloc r pdu nbo s) (\<lambda>s.
          cbind (agentx_build_int 16 (word_of_nat (rb_off s - ilen - 20)) nbo s) (\<lambda>s.
            Ret (Inr (s, agentx_expect pdu))))))"

definition agentx_realloc_build :: "allocator \<Rightarrow> agentx_pdu \<Rightarrow> rbuf \<Rightarrow> (int + rbuf \<times> agentx_pdu) cres" where
  "agentx_realloc_build alloc pdu s =
     (case agentx_realloc_build_pdu alloc True pdu s of
        Overrun \<Rightarrow> Overrun
      | Null \<Rightarrow> Ret (Inl SNMPERR_BAD_ASN1_BUILD)
      | Ret res \<Rightarrow> Ret res)"

section \<open>Parsing\<close>

definition agentx_parse_int :: "bytes \<Rightarrow> bool \<Rightarrow> int cres" where
  "agentx_parse_int data nbo =
     cbind (asn_copy data 4) (\<lambda>bs. let val = int32_of bs in Ret (sint (if nbo then htonl val else val)))"

definition agentx_parse_short :: "bytes \<Rightarrow> bool \<Rightarrow> nat cres" where
  "agentx_parse_short data nbo =
     cbind (asn_copy data 2) (\<lambda>bs. let val = int16_of bs in Ret (unat (if nbo then htons val else val)))"

definition byte_at :: "bytes \<Rightarrow> nat \<Rightarrow> u_char cres" where
  "byte_at data i = (if i < length data then Ret (data ! i) else Overrun)"

definition advance :: "bytes \<Rightarrow> nat \<Rightarrow> bytes cres" where \<comment> \<open>\<open>data += n\<close>\<close>
  "advance data n = (if n \<le> length data then Ret (drop n data) else Overrun)"

text \<open>
  A buffer that is resized is the number \<open>abs(rb->size)\<close> of its bytes, a store behind its end an \<open>Overrun\<close>.
\<close>

definition increase_size :: "(nat \<Rightarrow> bool) \<Rightarrow> nat \<Rightarrow> nat \<Rightarrow> nat cres" where
  "increase_size can_alloc sz min_size =
     (if min_size \<le> sz then Ret sz else if can_alloc min_size then Ret min_size else Null)"

definition within :: "nat \<Rightarrow> nat \<Rightarrow> 'a \<Rightarrow> 'a cres" where
  "within n sz x = (if n \<le> sz then Ret x else Overrun)"

text \<open>
  The results of the parsers are the position behind, the length left, the size of the buffer and the value. An
  object identifier also has its \<open>inclusive\<close> field.
\<close>

fun agentx_parse_subids :: "nat \<Rightarrow> bytes \<Rightarrow> bool \<Rightarrow> nat \<Rightarrow> oid \<Rightarrow> (bytes \<times> oid) cres" where
  "agentx_parse_subids 0 data nbo sz name = Ret (data, name)"
| "agentx_parse_subids (Suc n) data nbo sz name =
     cbind (agentx_parse_int data nbo) (\<lambda>x.
     cbind (within (8 * (length name + 1)) sz (name @ [word_of_int x])) (\<lambda>name.
     cbind (advance data 4) (\<lambda>data. agentx_parse_subids n data nbo sz name)))"

definition agentx_parse_oid ::
    "(nat \<Rightarrow> bool) \<Rightarrow> bytes \<Rightarrow> nat \<Rightarrow> nat \<Rightarrow> bool \<Rightarrow> (bytes \<times> nat \<times> nat \<times> oid \<times> int) cres" where
  "agentx_parse_oid can_alloc data len sz nbo =
     (if len < 4 then Null
      else cbind (byte_at data 0) (\<lambda>n_subid.
           cbind (byte_at data 1) (\<lambda>prefix.
           cbind (byte_at data 2) (\<lambda>inclusive.
           cbind (advance data 4) (\<lambda>data.
             let len = len - 4; inc = uint inclusive; n = unat n_subid in
             if n_subid = 0 \<and> prefix = 0 then
               cbind (increase_size can_alloc sz 16) (\<lambda>sz.
               cbind (within 16 sz [0, 0]) (\<lambda>name. Ret (data, len, sz, name, inc)))
             else
               let tmp_oid_len = n + (if prefix \<noteq> 0 then 5 else 0) in
               cbind (increase_size can_alloc sz (tmp_oid_len * 8)) (\<lambda>sz.
                 if len < 4 * n then Null
                 else cbind (if prefix \<noteq> 0 then within 40 sz [1, 3, 6, 1, ucast prefix] else Ret []) (\<lambda>name.
                      cbind (agentx_parse_subids n data nbo sz name) (\<lambda>(data, name).
                        Ret (data, len - 4 * n, sz, name, inc)))))))))"

definition agentx_parse_string ::
    "(nat \<Rightarrow> bool) \<Rightarrow> bytes \<Rightarrow> nat \<Rightarrow> nat \<Rightarrow> bool \<Rightarrow> (bytes \<times> nat \<times> nat \<times> bytes) cres" where
  "agentx_parse_string can_alloc data len sz nbo =
     (if len < 4 then Null
      else cbind (agentx_parse_int data nbo) (\<lambda>i.
        let slen = word_of_int i :: u_int in
        if unat slen > 2 ^ 32 - 1 - 4 then Null
        else if len < unat slen + 4 then Null
        else cbind (increase_size can_alloc sz (unat slen + 1)) (\<lambda>sz.
             cbind (advance data 4) (\<lambda>str.
             cbind (asn_copy str (unat slen)) (\<lambda>str.
             cbind (within (unat slen + 1) sz str) (\<lambda>str.
               let slen = (slen + 3) AND NOT 3 in \<comment> \<open>with the padding\<close>
               if len < unat slen + 4 then Null
               else cbind (advance data (unat slen + 4)) (\<lambda>data. Ret (data, len - (unat slen + 4), sz, str))))))))"

text \<open>The types of the wrapped values; the value is stored over the string.\<close>

definition agentx_parse_opaque ::
    "(nat \<Rightarrow> bool) \<Rightarrow> bytes \<Rightarrow> nat \<Rightarrow> nat \<Rightarrow> bool \<Rightarrow> (bytes \<times> nat \<times> nat \<times> u_char \<times> bytes) cres" where
  "agentx_parse_opaque can_alloc data len sz nbo =
     cbind (agentx_parse_string can_alloc data len sz nbo) (\<lambda>(cp, len, sz, buf).
       if length buf \<le> 3 \<or> buf ! 0 \<noteq> ASN_OPAQUE_TAG1 then Ret (cp, len, sz, ASN_OPAQUE, buf)
       else if buf ! 1 = ASN_OPAQUE_FLOAT then
         (if length buf \<noteq> 3 + 4 \<or> buf ! 2 \<noteq> 4 then Ret (cp, len, sz, ASN_OPAQUE, buf)
          else Ret (cp, len, sz, ASN_OPAQUE_FLOAT, mem32 (htonl (int32_of (drop 3 buf)))))
       else if buf ! 1 = ASN_OPAQUE_DOUBLE then
         (if length buf \<noteq> 3 + 8 \<or> buf ! 2 \<noteq> 8 then Ret (cp, len, sz, ASN_OPAQUE, buf)
          else let int0 = int32_of (take 4 (drop 3 buf)); int1 = int32_of (drop 7 buf); tmp = htonl int1
               in Ret (cp, len, sz, ASN_OPAQUE_DOUBLE, mem32 tmp @ mem32 (htonl int0)))
       else Ret (cp, len, sz, ASN_OPAQUE, buf))"

text \<open>A value: besides the position, the length and the size the type and the bytes in \<open>data_buf\<close>.\<close>

definition agentx_parse_value ::
    "(nat \<Rightarrow> bool) \<Rightarrow> u_char \<Rightarrow> bytes \<Rightarrow> nat \<Rightarrow> nat \<Rightarrow> bool \<Rightarrow> (bytes \<times> nat \<times> nat \<times> u_char \<times> bytes) cres" where
  "agentx_parse_value can_alloc type data len sz nbo =
     (if type \<in> {ASN_INTEGER, ASN_COUNTER, ASN_GAUGE, ASN_TIMETICKS, ASN_UINTEGER} then
        (if len < 4 then Null
         else cbind (agentx_parse_int data nbo) (\<lambda>i.
              cbind (within 4 sz (mem32 (word_of_int i))) (\<lambda>buf.
              cbind (advance data 4) (\<lambda>data. Ret (data, len - 4, sz, type, buf)))))
      else if type \<in> {ASN_OCTET_STR, ASN_IPADDRESS} then
        cbind (agentx_parse_string can_alloc data len sz nbo) (\<lambda>(data, len, sz, buf). Ret (data, len, sz, type, buf))
      else if type = ASN_OPAQUE then agentx_parse_opaque can_alloc data len sz nbo
      else if type \<in> {ASN_PRIV_INCL_RANGE, ASN_PRIV_EXCL_RANGE, ASN_OBJECT_ID} then
        cbind (agentx_parse_oid can_alloc data len sz nbo) (\<lambda>(data, len, sz, x, _). Ret (data, len, sz, type, oid_mem x))
      else if type = ASN_COUNTER64 then
        (if len < 8 then Null
         else cbind (agentx_parse_int data nbo) (\<lambda>i.
              cbind (advance data 4) (\<lambda>data.
              cbind (agentx_parse_int data nbo) (\<lambda>j.
                let (high, low) = (if nbo then (i, j) else (j, i)) in
                cbind (within 16 sz (mem64 (word_of_int high) @ mem64 (word_of_int low))) (\<lambda>buf.
                cbind (advance data 4) (\<lambda>data. Ret (data, len - 8, sz, type, buf)))))))
      else if type \<in> null_types then Ret (data, len, sz, type, [])
      else Null)"

text \<open>No type has more than eight bits, so a larger number is the default case. \<open>osz\<close> is the size of \<open>oid_buf\<close>, \<open>dsz\<close> that of \<open>data_buf\<close>.\<close>

definition agentx_parse_varbind ::
    "(nat \<Rightarrow> bool) \<Rightarrow> bytes \<Rightarrow> nat \<Rightarrow> nat \<Rightarrow> nat \<Rightarrow> bool \<Rightarrow> (bytes \<times> nat \<times> nat \<times> nat \<times> oid \<times> u_char \<times> bytes) cres" where
  "agentx_parse_varbind can_alloc data len osz dsz nbo =
     (if len < 4 then Null
      else cbind (agentx_parse_short data nbo) (\<lambda>type.
           cbind (advance data 4) (\<lambda>data.
           cbind (agentx_parse_oid can_alloc data (len - 4) osz nbo) (\<lambda>(data, len, osz, name, _).
             if type \<ge> 256 then Null
             else cbind (agentx_parse_value can_alloc (word_of_nat type) data len dsz nbo) (\<lambda>(data, len, dsz, type, buf).
               Ret (data, len, osz, dsz, name, type, buf))))))"

text \<open>The lists end because an identifier takes four bytes of the length.\<close>

lemma cbind_RetE: "cbind m f = Ret y \<Longrightarrow> (\<And>x. m = Ret x \<Longrightarrow> f x = Ret y \<Longrightarrow> P) \<Longrightarrow> P"
  by (cases m) auto

lemma agentx_parse_oid_shrinks: "agentx_parse_oid can_alloc data len sz nbo = Ret (data', len', sz', name, inc) \<Longrightarrow> len' + 4 \<le> len"
  unfolding agentx_parse_oid_def Let_def
  by (auto elim!: cbind_RetE split: if_split_asm prod.split_asm)

lemma agentx_parse_string_shrinks: "agentx_parse_string can_alloc data len sz nbo = Ret (data', len', sz', str) \<Longrightarrow> len' + 4 \<le> len"
  unfolding agentx_parse_string_def Let_def
  by (auto elim!: cbind_RetE split: if_split_asm)

lemma agentx_parse_opaque_shrinks:
  "agentx_parse_opaque can_alloc data len sz nbo = Ret (data', len', sz', type, buf) \<Longrightarrow> len' + 4 \<le> len"
  unfolding agentx_parse_opaque_def Let_def
  by (auto elim!: cbind_RetE dest!: agentx_parse_string_shrinks split: if_split_asm)

lemma agentx_parse_value_shrinks:
  "agentx_parse_value can_alloc type data len sz nbo = Ret (data', len', sz', type', buf) \<Longrightarrow> len' \<le> len"
  unfolding agentx_parse_value_def Let_def
  by (auto elim!: cbind_RetE dest: agentx_parse_oid_shrinks agentx_parse_string_shrinks agentx_parse_opaque_shrinks split: if_split_asm prod.split_asm)

lemma agentx_parse_varbind_shrinks:
  assumes "agentx_parse_varbind can_alloc data len osz dsz nbo = Ret (data', len', osz', dsz', name, type, buf)"
  shows "len' + 8 \<le> len"
proof -
  obtain d d' l z x i t where p: "4 \<le> len" "agentx_parse_oid can_alloc d (len - 4) osz nbo = Ret (d', l, z, x, i)"
    "agentx_parse_value can_alloc t d' l dsz nbo = Ret (data', len', dsz', type, buf)"
    using assms by (auto simp: agentx_parse_varbind_def cbind_eq_Ret split: if_splits)
  then show ?thesis using agentx_parse_oid_shrinks [OF p(2)] agentx_parse_value_shrinks [OF p(3)] by linarith
qed

function agentx_parse_ranges ::
    "(nat \<Rightarrow> bool) \<Rightarrow> agentx_pdu \<Rightarrow> bytes \<Rightarrow> nat \<Rightarrow> nat \<Rightarrow> nat \<Rightarrow> bool \<Rightarrow> agentx_pdu cres" where
  "agentx_parse_ranges can_alloc pdu data len osz esz nbo =
     (if len > 0 then
        (case agentx_parse_oid can_alloc data len osz nbo of
           Overrun \<Rightarrow> Overrun
         | Null \<Rightarrow> Null
         | Ret (data', len', osz', name, inc) \<Rightarrow>
             (case agentx_parse_oid can_alloc data' len' esz nbo of
                Overrun \<Rightarrow> Overrun
              | Null \<Rightarrow> Null
              | Ret (data'', len'', esz', end_name, _) \<Rightarrow>
                  cbind (snmp_pdu_add_variable can_alloc pdu name (if inc \<noteq> 0 then ASN_PRIV_INCL_RANGE else ASN_PRIV_EXCL_RANGE)
                           (Some (oid_mem end_name)) (8 * length end_name)) (\<lambda>pdu'.
                    agentx_parse_ranges can_alloc pdu' data'' len'' osz' esz' nbo)))
      else Ret pdu)"
  by pat_completeness auto
termination
  by (relation "measure (\<lambda>(can_alloc, pdu, data, len, osz, esz, nbo). len)")
     (auto dest!: agentx_parse_oid_shrinks)

declare agentx_parse_ranges.simps [simp del]

function agentx_parse_varbinds ::
    "(nat \<Rightarrow> bool) \<Rightarrow> agentx_pdu \<Rightarrow> bytes \<Rightarrow> nat \<Rightarrow> nat \<Rightarrow> nat \<Rightarrow> bool \<Rightarrow> agentx_pdu cres" where
  "agentx_parse_varbinds can_alloc pdu data len osz dsz nbo =
     (if len > 0 then
        (case agentx_parse_varbind can_alloc data len osz dsz nbo of
           Overrun \<Rightarrow> Overrun
         | Null \<Rightarrow> Null
         | Ret (data', len', osz', dsz', name, type, buf) \<Rightarrow>
             cbind (snmp_pdu_add_variable can_alloc pdu name type (Some buf) (length buf)) (\<lambda>pdu'.
               agentx_parse_varbinds can_alloc pdu' data' len' osz' dsz' nbo))
      else Ret pdu)"
  by pat_completeness auto
termination
  by (relation "measure (\<lambda>(can_alloc, pdu, data, len, osz, dsz, nbo). len)")
     (auto dest!: agentx_parse_varbind_shrinks)

declare agentx_parse_varbinds.simps [simp del]

text \<open>The length in the header is an \<open>int\<close> in a \<open>size_t\<close>.\<close>

definition agentx_parse_header :: "agentx_pdu \<Rightarrow> bytes \<Rightarrow> nat \<Rightarrow> (agentx_pdu \<times> bytes \<times> nat) cres" where
  "agentx_parse_header pdu data len =
     (if len < 20 then Null
      else cbind (byte_at data 0) (\<lambda>version.
           cbind (byte_at data 1) (\<lambda>command.
           cbind (byte_at data 2) (\<lambda>flags.
           cbind (advance data 4) (\<lambda>data.
             let pdu = pdu\<lparr>pdu_version := uint (0xC0 OR version), pdu_command := command, pdu_flags := pdu_flags pdu OR ucast flags\<rparr>;
                 nbo = network_order pdu in
             cbind (agentx_parse_int data nbo) (\<lambda>sessid.
             cbind (advance data 4) (\<lambda>data.
             cbind (agentx_parse_int data nbo) (\<lambda>transid.
             cbind (advance data 4) (\<lambda>data.
             cbind (agentx_parse_int data nbo) (\<lambda>reqid.
             cbind (advance data 4) (\<lambda>data.
             cbind (agentx_parse_int data nbo) (\<lambda>payload.
             cbind (advance data 4) (\<lambda>data.
               if int (len - 20) \<noteq> payload mod 2 ^ 64 then Null
               else Ret (pdu\<lparr>pdu_sessid := sessid, pdu_transid := transid, pdu_reqid := reqid\<rparr>, data, len - 20))))))))))))))"

text \<open>The context also becomes the name of the context; \<open>strlen\<close> reads the copy, whether or not there is one.\<close>

definition agentx_parse_context ::
    "(nat \<Rightarrow> bool) \<Rightarrow> agentx_pdu \<Rightarrow> bytes \<Rightarrow> nat \<Rightarrow> nat \<Rightarrow> bool \<Rightarrow> (agentx_pdu \<times> bytes \<times> nat \<times> nat) cres" where
  "agentx_parse_context can_alloc pdu data len dsz nbo =
     (if pdu_flags pdu AND NON_DEFAULT_CONTEXT = 0 then Ret (pdu, data, len, dsz)
      else cbind (agentx_parse_string can_alloc data len dsz nbo) (\<lambda>(data, len, dsz, str).
        let community = (if can_alloc (length str + 1) then Some str else None);
            pdu = pdu\<lparr>pdu_community_len := length str, pdu_community := community\<rparr> in
        if length str > 0 \<and> pdu_contextName pdu = None then
          (case community of
             None \<Rightarrow> Overrun
           | Some str \<Rightarrow>
               if length (takeWhile (\<lambda>b. b \<noteq> 0) str) \<noteq> length str then Null
               else Ret (pdu\<lparr>pdu_contextName := (if can_alloc (length str + 1) then Some str else None),
                             pdu_contextNameLen := length str\<rparr>, data, len, dsz))
        else Ret (pdu, data, len, dsz)))"

definition agentx_parse_described :: "(nat \<Rightarrow> bool) \<Rightarrow> agentx_pdu \<Rightarrow> bytes \<Rightarrow> nat \<Rightarrow> nat \<Rightarrow> nat \<Rightarrow> bool \<Rightarrow> agentx_pdu cres" where
  "agentx_parse_described can_alloc pdu data len osz dsz nbo =
     cbind (agentx_parse_oid can_alloc data len osz nbo) (\<lambda>(data, len, osz, name, _).
     cbind (agentx_parse_string can_alloc data len dsz nbo) (\<lambda>(data, len, dsz, str).
       snmp_pdu_add_variable can_alloc pdu name ASN_OCTET_STR (Some str) (length str)))"

definition agentx_parse_registration :: "(nat \<Rightarrow> bool) \<Rightarrow> agentx_pdu \<Rightarrow> bytes \<Rightarrow> nat \<Rightarrow> nat \<Rightarrow> nat \<Rightarrow> bool \<Rightarrow> agentx_pdu cres" where
  "agentx_parse_registration can_alloc pdu data len osz esz nbo =
     (if len < 4 then Null
      else cbind (byte_at data 0) (\<lambda>timeout.
           cbind (byte_at data 1) (\<lambda>priority.
           cbind (byte_at data 2) (\<lambda>range_subid.
           cbind (advance data 4) (\<lambda>data.
             let pdu = pdu\<lparr>pdu_time := (if pdu_command pdu = AGENTX_MSG_REGISTER then ucast timeout else pdu_time pdu),
                           pdu_priority := uint priority, pdu_range_subid := uint range_subid\<rparr> in
             cbind (agentx_parse_oid can_alloc data (len - 4) osz nbo) (\<lambda>(data, len, osz, name, _).
               if range_subid \<noteq> 0 then
                 if unat range_subid > length name then Null
                 else if len < 4 then Null
                 else cbind (agentx_parse_int data nbo) (\<lambda>range_bound.
                      cbind (increase_size can_alloc esz (8 * length name)) (\<lambda>esz.
                      cbind (within (8 * length name) esz (name[unat range_subid - 1 := word_of_int range_bound])) (\<lambda>end_name.
                        snmp_pdu_add_variable can_alloc pdu name ASN_PRIV_INCL_RANGE (Some (oid_mem end_name)) (8 * length name))))
               else snmp_add_null_var can_alloc pdu name))))))"

text \<open>\<open>non_repeaters\<close> and \<open>max_repetitions\<close> are the fields of the error.\<close>

definition agentx_parse_counts :: "agentx_pdu \<Rightarrow> bytes \<Rightarrow> bool \<Rightarrow> (agentx_pdu \<times> bytes) cres" where
  "agentx_parse_counts pdu data nbo =
     cbind (agentx_parse_short data nbo) (\<lambda>m.
     cbind (advance data 2) (\<lambda>data.
     cbind (agentx_parse_short data nbo) (\<lambda>n.
     cbind (advance data 2) (\<lambda>data.
       Ret (pdu\<lparr>pdu_errstat := int m, pdu_errindex := int n\<rparr>, data)))))"

definition agentx_parse_payload ::
    "(nat \<Rightarrow> bool) \<Rightarrow> agentx_pdu \<Rightarrow> bytes \<Rightarrow> nat \<Rightarrow> nat \<Rightarrow> nat \<Rightarrow> nat \<Rightarrow> bool \<Rightarrow> agentx_pdu cres" where
  "agentx_parse_payload can_alloc pdu data len osz esz dsz nbo =
     (let c = pdu_command pdu in
      if c = AGENTX_MSG_OPEN then
        (if len < 4 then Null
         else cbind (byte_at data 0) (\<lambda>timeout.
              cbind (advance data 4) (\<lambda>data.
                agentx_parse_described can_alloc (pdu\<lparr>pdu_time := ucast timeout\<rparr>) data (len - 4) osz dsz nbo)))
      else if c = AGENTX_MSG_CLOSE then
        (if len < 4 then Null
         else cbind (byte_at data 0) (\<lambda>reason. Ret (pdu\<lparr>pdu_errstat := uint reason\<rparr>)))
      else if c \<in> {AGENTX_MSG_REGISTER, AGENTX_MSG_UNREGISTER} then agentx_parse_registration can_alloc pdu data len osz esz nbo
      else if c = AGENTX_MSG_GETBULK then
        (if len < 4 then Null
         else cbind (agentx_parse_counts pdu data nbo) (\<lambda>(pdu, data). agentx_parse_ranges can_alloc pdu data (len - 4) osz esz nbo))
      else if c \<in> {AGENTX_MSG_GET, AGENTX_MSG_GETNEXT} then agentx_parse_ranges can_alloc pdu data len osz esz nbo
      else if c = AGENTX_MSG_RESPONSE then
        (if len < 8 then Null
         else cbind (agentx_parse_int data nbo) (\<lambda>time.
              cbind (advance data 4) (\<lambda>data.
              cbind (agentx_parse_counts (pdu\<lparr>pdu_flags := pdu_flags pdu OR UCD_MSG_FLAG_RESPONSE_PDU, pdu_time := word_of_int time\<rparr>)
                       data nbo) (\<lambda>(pdu, data).
                agentx_parse_varbinds can_alloc pdu data (len - 8) osz dsz nbo))))
      else if c \<in> {AGENTX_MSG_INDEX_ALLOCATE, AGENTX_MSG_INDEX_DEALLOCATE, AGENTX_MSG_NOTIFY, AGENTX_MSG_TESTSET} then
        agentx_parse_varbinds can_alloc pdu data len osz dsz nbo
      else if c = AGENTX_MSG_ADD_AGENT_CAPS then agentx_parse_described can_alloc pdu data len osz dsz nbo
      else if c = AGENTX_MSG_REMOVE_AGENT_CAPS then
        cbind (agentx_parse_oid can_alloc data len osz nbo) (\<lambda>(_, _, _, name, _). snmp_add_null_var can_alloc pdu name)
      else Ret pdu)"

text \<open>
  The result is an error or the PDU. The buffers on the stack have 32 sub-identifiers and 64 bytes.
\<close>

definition agentx_parse :: "(nat \<Rightarrow> bool) \<Rightarrow> int \<Rightarrow> agentx_pdu \<Rightarrow> bytes \<Rightarrow> nat \<Rightarrow> (int + agentx_pdu) cres" where
  "agentx_parse can_alloc session_version pdu data len =
     (if session_version AND AGENTX_VERSION_BASE \<noteq> AGENTX_VERSION_BASE then Ret (Inl SNMPERR_BAD_VERSION)
      else if len > 65536 then Ret (Inl SNMPERR_ASN_PARSE_ERR)
      else case agentx_parse_header pdu data len of
        Overrun \<Rightarrow> Overrun
      | Null \<Rightarrow> Ret (Inl SNMPERR_INCOMPLETE_PACKET)
      | Ret (pdu, data, len) \<Rightarrow>
          let pdu = pdu\<lparr>pdu_flags := (pdu_flags pdu OR UCD_MSG_FLAG_ALWAYS_IN_VIEW OR UCD_MSG_FLAG_FORCE_PDU_COPY)
                                   AND NOT UCD_MSG_FLAG_RESPONSE_PDU\<rparr>;
              nbo = network_order pdu
          in case agentx_parse_context can_alloc pdu data len 64 nbo of
            Overrun \<Rightarrow> Overrun
          | Null \<Rightarrow> Ret (Inl SNMPERR_ASN_PARSE_ERR)
          | Ret (pdu, data, len, dsz) \<Rightarrow>
              if pdu_command pdu \<notin> agentx_commands then Ret (Inl SNMPERR_UNKNOWN_PDU)
              else case agentx_parse_payload can_alloc pdu data len 256 256 dsz nbo of
                Overrun \<Rightarrow> Overrun
              | Null \<Rightarrow> Ret (Inl SNMPERR_ASN_PARSE_ERR)
              | Ret pdu \<Rightarrow> Ret (Inr pdu))"

text \<open>How long the packet at the front of a stream is, 0 when that is not known yet. The sum is an \<open>int\<close>.\<close>

definition agentx_check_packet :: "bytes \<Rightarrow> nat \<Rightarrow> int cres" where
  "agentx_check_packet packet packet_len =
     (if packet_len < 20 then Ret 0
      else cbind (byte_at packet 2) (\<lambda>flags.
           cbind (advance packet 16) (\<lambda>data.
           cbind (agentx_parse_int data (flags AND 0x10 \<noteq> 0)) (\<lambda>i.
             Ret (sint (word_of_int (i + 20) :: u_int))))))"

end
