(* ===== verification/AgentxSafe.thy ===== *)
theory AgentxSafe
  imports Agentx
begin

text \<open>
  The AgentX parser reads and stores inside its buffers, whatever bytes arrive: each step is an equation where the buffer is long enough,
  and \<open>stays\<close> composes the steps. The variables it makes have values of their types, for those who read them.
\<close>

section \<open>Steps inside the buffers\<close>

text \<open>Reads, moves and stores inside the buffers.\<close>

definition int_at :: "bytes \<Rightarrow> bool \<Rightarrow> int" where
  "int_at data nbo = sint (if nbo then htonl (int32_of (take 4 data)) else int32_of (take 4 data))"

definition short_at :: "bytes \<Rightarrow> bool \<Rightarrow> nat" where
  "short_at data nbo = unat (if nbo then htons (int16_of (take 2 data)) else int16_of (take 2 data))"

lemma inside_simps [simp]:
  "4 \<le> length data \<Longrightarrow> agentx_parse_int data nbo = Ret (int_at data nbo)"
  "2 \<le> length data \<Longrightarrow> agentx_parse_short data nbo = Ret (short_at data nbo)"
  "i < length data \<Longrightarrow> byte_at data i = Ret (data ! i)" "data \<noteq> [] \<Longrightarrow> byte_at data 0 = Ret (data ! 0)"
  "n \<le> length data \<Longrightarrow> advance data n = Ret (drop n data)"
  "n \<le> sz \<Longrightarrow> within n sz x = Ret x"
  by (simp_all add: agentx_parse_int_def int_at_def agentx_parse_short_def short_at_def byte_at_def advance_def within_def asn_copy_def)

section \<open>Memory safety\<close>

text \<open>A result that is not an \<open>Overrun\<close> and, when the parser goes on, has the property \<open>P\<close>.\<close>

definition stays :: "('a \<Rightarrow> bool) \<Rightarrow> 'a cres \<Rightarrow> bool" where
  "stays P res = (case res of Overrun \<Rightarrow> False | Null \<Rightarrow> True | Ret x \<Rightarrow> P x)"

lemma stays_simps [simp]: "\<not> stays P Overrun" "stays P Null" "stays P (Ret x) \<longleftrightarrow> P x"
  by (simp_all add: stays_def)

lemma stays_bind: "stays P m \<Longrightarrow> (\<And>x. P x \<Longrightarrow> stays Q (f x)) \<Longrightarrow> stays Q (cbind m f)"
  by (cases m) auto

lemma stays_mono: "stays P m \<Longrightarrow> (\<And>x. P x \<Longrightarrow> Q x) \<Longrightarrow> stays Q m"
  by (cases m) auto

lemma stays_if: "(b \<Longrightarrow> stays P x) \<Longrightarrow> (\<not> b \<Longrightarrow> stays P y) \<Longrightarrow> stays P (if b then x else y)"
  by simp

lemma stays_increase_size:
  "(\<And>z. min_size \<le> z \<Longrightarrow> sz \<le> z \<Longrightarrow> stays P (f z)) \<Longrightarrow> stays P (cbind (increase_size can_alloc sz min_size) f)"
  by (simp add: increase_size_def)

lemma stays_parse_subids:
  "4 * n \<le> length data \<Longrightarrow> 8 * (length name + n) \<le> sz \<Longrightarrow>
   stays (\<lambda>(d, x). length d = length data - 4 * n \<and> length x = length name + n) (agentx_parse_subids n data nbo sz name)"
proof (induction n arbitrary: data name)
  case (Suc n)
  then have "stays (\<lambda>(d, x). length d = length (drop 4 data) - 4 * n \<and> length x = length (name @ [word_of_int (int_at data nbo)]) + n)
      (agentx_parse_subids n (drop 4 data) nbo sz (name @ [word_of_int (int_at data nbo)]))"
    by (intro Suc.IH) simp_all
  then show ?case using Suc.prems by (auto elim: stays_mono)
qed simp

lemma stays_parse_oid:
  assumes "len \<le> length data"
  shows "stays (\<lambda>(d, l, z, x, i). l \<le> length d \<and> sz \<le> z \<and> 8 * length x \<le> z \<and> length x \<le> 260 \<and> x \<noteq> []) (agentx_parse_oid can_alloc data len sz nbo)"
proof (cases "len < 4")
  case False
  then have "data \<noteq> []" using assms by auto
  define n where "n = unat (data ! 0)"
  define p where "p = data ! 1"
  show ?thesis
  proof (cases "data ! 0 = 0 \<and> p = 0")
    case True
    then show ?thesis using False assms \<open>data \<noteq> []\<close> unfolding agentx_parse_oid_def Let_def p_def by (auto intro!: stays_increase_size)
  next
    case not_null: False
    have n: "n \<le> 255" by (simp add: n_def unat_8_le)
    have pos: "0 < n \<or> p \<noteq> 0" using not_null by (auto simp: n_def unat_gt_0)
    define name :: oid where "name = (if p \<noteq> 0 then [1, 3, 6, 1, ucast p] else [])"
    let ?body = "\<lambda>z. if len - 4 < 4 * n then Null
       else cbind (if p \<noteq> 0 then within 40 z [1, 3, 6, 1, ucast p] else Ret []) (\<lambda>name.
            cbind (agentx_parse_subids n (drop 4 data) nbo z name) (\<lambda>(d, name). Ret (d, len - 4 - 4 * n, z, name, uint (data ! 2))))"
    have "stays (\<lambda>(d, l, z, x, i). l \<le> length d \<and> sz \<le> z \<and> 8 * length x \<le> z \<and> length x \<le> 260 \<and> x \<noteq> []) (?body z)"
      if z: "(n + (if p \<noteq> 0 then 5 else 0)) * 8 \<le> z" "sz \<le> z" for z
    proof (cases "len - 4 < 4 * n")
      case enough: False
      then have "stays (\<lambda>(d, x). length d = length (drop 4 data) - 4 * n \<and> length x = length name + n) (agentx_parse_subids n (drop 4 data) nbo z name)"
        using z assms by (intro stays_parse_subids) (auto simp: name_def)
      then have "stays (\<lambda>(d, l, z, x, i). l \<le> length d \<and> sz \<le> z \<and> 8 * length x \<le> z \<and> length x \<le> 260 \<and> x \<noteq> [])
          (cbind (agentx_parse_subids n (drop 4 data) nbo z name) (\<lambda>(d, name). Ret (d, len - 4 - 4 * n, z, name, uint (data ! 2))))"
        using z assms enough n pos by (elim stays_bind) (auto simp: name_def)
      then show ?thesis using enough z by (auto simp: name_def)
    qed simp
    moreover have "agentx_parse_oid can_alloc data len sz nbo = cbind (increase_size can_alloc sz ((n + (if p \<noteq> 0 then 5 else 0)) * 8)) ?body"
      using False not_null assms \<open>data \<noteq> []\<close> unfolding agentx_parse_oid_def Let_def n_def p_def by (auto simp del: One_nat_def)
    ultimately show ?thesis by (simp only: stays_increase_size)
  qed
qed (simp add: agentx_parse_oid_def)

lemma padded: "unat (n :: u_int) \<le> 2 ^ 32 - 1 - 4 \<Longrightarrow> unat ((n + 3) AND NOT 3) = 4 * ((unat n + 3) div 4)"
proof -
  assume n: "unat n \<le> 2 ^ 32 - 1 - 4"
  have "unat (n + 3) = (unat n + 3) mod 2 ^ 32" by (simp add: unat_word_ariths)
  also have "\<dots> = unat n + 3" using n by (intro mod_less) simp
  finally have s: "unat (n + 3) = unat n + 3" .
  have "bit m (2 + (i - 2)) \<longleftrightarrow> bit m i" if "2 \<le> i" for m :: u_int and i by (simp only: le_add_diff_inverse that)
  then have "(n + 3) AND NOT (mask 2) = push_bit 2 (drop_bit 2 (n + 3))"
    by (intro bit_eqI) (auto simp: bit_and_iff bit_not_iff bit_mask_iff bit_push_bit_iff bit_drop_bit_eq simp del: add_2_eq_Suc add_2_eq_Suc')
  moreover have "NOT 3 = (NOT (mask 2) :: u_int)" by (simp add: mask_eq_exp_minus_1)
  moreover have "unat (drop_bit 2 (n + 3)) = (unat n + 3) div 4" by (simp add: unat_drop_bit s)
  ultimately show ?thesis using n by (simp add: unat_push_bit [of "drop_bit 2 (n + 3)" 2])
qed

lemma stays_parse_string:
  assumes "len \<le> length data"
  shows "stays (\<lambda>(d, l, z, s). l \<le> length d \<and> sz \<le> z \<and> length s + 1 \<le> z) (agentx_parse_string can_alloc data len sz nbo)"
proof (cases "len < 4")
  case False
  define w :: u_int where "w = word_of_int (int_at data nbo)"
  show ?thesis
    using False assms padded [of w] unfolding agentx_parse_string_def Let_def
    by (simp, fold w_def) (auto intro!: stays_increase_size)
qed (simp add: agentx_parse_string_def)

lemma stays_parse_opaque:
  assumes "len \<le> length data"
  shows "stays (\<lambda>(d, l, z, t, s). l \<le> length d \<and> sz \<le> z \<and> t \<in> {ASN_OPAQUE, ASN_OPAQUE_FLOAT, ASN_OPAQUE_DOUBLE} \<and>
                (t = ASN_OPAQUE_FLOAT \<longrightarrow> length s = 4) \<and> (t = ASN_OPAQUE_DOUBLE \<longrightarrow> length s = 8))
    (agentx_parse_opaque can_alloc data len sz nbo)"
  unfolding agentx_parse_opaque_def by (rule stays_bind [OF stays_parse_string [OF assms]]) (auto simp: Let_def)

lemma length_mem64 [simp]: "length (mem64 w) = 8" by (simp add: mem64_def)

lemma length_oid_mem [simp]: "length (oid_mem x) = 8 * length x"
  by (induction x) (simp_all add: oid_mem_def)

lemma oid_mem_Nil [simp]: "oid_mem x = [] \<longleftrightarrow> x = []"
  by (metis length_0_conv length_oid_mem mult_is_0 zero_neq_numeral)

text \<open>How many bytes a value has in \<open>data_buf\<close>, by its type.\<close>

abbreviation (input) integer_types :: "u_char set" where
  "integer_types \<equiv> {ASN_INTEGER, ASN_COUNTER, ASN_GAUGE, ASN_TIMETICKS, ASN_UINTEGER}"
abbreviation (input) range_types :: "u_char set" where
  "range_types \<equiv> {ASN_PRIV_INCL_RANGE, ASN_PRIV_EXCL_RANGE, ASN_OBJECT_ID}"

definition fits :: "u_char \<Rightarrow> bytes \<Rightarrow> bool" where
  "fits type buf \<longleftrightarrow> type \<in> integer_types \<and> length buf = 4
     \<or> type \<in> {ASN_OCTET_STR, ASN_IPADDRESS, ASN_OPAQUE}
     \<or> type = ASN_OPAQUE_FLOAT \<and> length buf = 4
     \<or> type = ASN_OPAQUE_DOUBLE \<and> length buf = 8
     \<or> type \<in> range_types \<and> buf \<noteq> [] \<and> 8 dvd length buf \<and> length buf \<le> 8 * 260
     \<or> type = ASN_COUNTER64 \<and> length buf = 16
     \<or> type \<in> null_types \<and> buf = []"

lemma stays_parse_value:
  assumes "len \<le> length data" "64 \<le> sz"
  shows "stays (\<lambda>(d, l, z, t, s). l \<le> length d \<and> 64 \<le> z \<and> fits t s) (agentx_parse_value can_alloc type data len sz nbo)"
proof -
  have s: "stays (\<lambda>(d, l, z, s). l \<le> length d \<and> 64 \<le> z) (agentx_parse_string can_alloc data len sz nbo)"
    using stays_parse_string [OF assms(1)] by (rule stays_mono) (use assms(2) in auto)
  have o: "stays (\<lambda>(d, l, z, t, s). l \<le> length d \<and> 64 \<le> z \<and> fits t s) (agentx_parse_opaque can_alloc data len sz nbo)"
    using stays_parse_opaque [OF assms(1)] by (rule stays_mono) (use assms(2) in \<open>auto simp: fits_def\<close>)
  have x: "stays (\<lambda>(d, l, z, x, i). l \<le> length d \<and> 64 \<le> z \<and> length x \<le> 260 \<and> x \<noteq> []) (agentx_parse_oid can_alloc data len sz nbo)"
    using stays_parse_oid [OF assms(1)] by (rule stays_mono) (use assms(2) in auto)
  show ?thesis unfolding agentx_parse_value_def Let_def
  proof (intro stays_if, goal_cases)
    case 3 then show ?case by (auto simp: fits_def intro!: stays_bind [OF s])
  next
    case 5 then show ?case by (auto simp: fits_def intro!: stays_bind [OF x])
  qed (use assms o in \<open>auto simp: fits_def split: prod.splits\<close>)
qed

lemma stays_parse_varbind:
  assumes "len \<le> length data" "64 \<le> dsz"
  shows "stays (\<lambda>(d, l, oz, dz, name, t, s). l \<le> length d \<and> 64 \<le> dz \<and> fits t s \<and> length name \<le> 260) (agentx_parse_varbind can_alloc data len osz dsz nbo)"
proof (cases "len < 4")
  case False
  then have p: "stays (\<lambda>(d, l, z, x, i). l \<le> length d \<and> length x \<le> 260 \<and> x \<noteq> []) (agentx_parse_oid can_alloc (drop 4 data) (len - 4) osz nbo)"
    using assms(1) by (intro stays_mono [OF stays_parse_oid]) auto
  show ?thesis
    using False assms unfolding agentx_parse_varbind_def
    by (auto intro!: stays_bind [OF p] stays_bind [OF stays_parse_value])
qed (simp add: agentx_parse_varbind_def)

text \<open>A variable whose value is stored in the member of the union that belongs to its type.\<close>

definition agentx_typed :: "variable_list \<Rightarrow> bool" where
  "agentx_typed vp \<longleftrightarrow> length (vp_name vp) \<le> 260 \<and>
     (case vp_val vp of
        Val_none \<Rightarrow> False
      | Val_integer i \<Rightarrow> vp_type vp \<in> integer_types \<and> vp_val_len vp = 8
      | Val_string str \<Rightarrow> (vp_type vp \<in> {ASN_OCTET_STR, ASN_IPADDRESS, ASN_OPAQUE} \<or> vp_type vp \<in> null_types \<and> str = []) \<and> vp_val_len vp = length str
      | Val_objid x \<Rightarrow> vp_type vp \<in> range_types \<and> vp_val_len vp = 8 * length x \<and> length x \<le> 260
      | Val_counter64 c \<Rightarrow> vp_type vp = ASN_COUNTER64 \<and> vp_val_len vp = 16
      | Val_float f \<Rightarrow> vp_type vp = ASN_OPAQUE_FLOAT \<and> vp_val_len vp = 4
      | Val_double d \<Rightarrow> vp_type vp = ASN_OPAQUE_DOUBLE \<and> vp_val_len vp = 8)"

lemma length_oid_of [simp]: "length (oid_of bs) = length bs div 8" by (simp add: oid_of_def)

lemma stays_set_var_value:
  assumes "fits type buf" "length name \<le> 260"
  shows "stays (\<lambda>v. case v of None \<Rightarrow> True | Some (v, n) \<Rightarrow> agentx_typed \<lparr>vp_name = name, vp_type = type, vp_val = v, vp_val_len = n\<rparr>)
    (snmp_set_var_value can_alloc type (Some buf) (length buf))"
proof -
  have c: "stays P (cbind (asn_copy buf m) (\<lambda>v. Ret (g v)))" if "m \<le> length buf" "P (g (take m buf))"
    for m P and g :: "bytes \<Rightarrow> (netsnmp_vardata \<times> nat) option"
    using that by (simp add: asn_copy_def)
  show ?thesis
    unfolding snmp_set_var_value_def Let_def option.case
    by (intro stays_if c)
       (use assms in \<open>auto simp: fits_def agentx_typed_def snmp_set_var_integer_def Let_def elim: dvdE\<close>)
qed

lemma stays_add_variable:
  assumes "fits type buf" "length name \<le> 260" "list_all agentx_typed (pdu_variables pdu)"
  shows "stays (\<lambda>pdu. list_all agentx_typed (pdu_variables pdu)) (snmp_pdu_add_variable can_alloc pdu name type (Some buf) (length buf))"
  unfolding snmp_pdu_add_variable_def
  by (intro stays_if stays_bind [OF stays_set_var_value [OF assms(1,2)]]) (use assms(3) in \<open>auto split: option.split\<close>)

lemma stays_add_null:
  assumes "length name \<le> 260" "list_all agentx_typed (pdu_variables pdu)"
  shows "stays (\<lambda>pdu. list_all agentx_typed (pdu_variables pdu)) (snmp_add_null_var can_alloc pdu name)"
  using assms by (auto simp: snmp_add_null_var_def snmp_pdu_add_variable_def snmp_set_var_value_def agentx_typed_def)

lemma stays_parse_ranges:
  assumes "len \<le> length data" "list_all agentx_typed (pdu_variables pdu)"
  shows "stays (\<lambda>pdu. list_all agentx_typed (pdu_variables pdu)) (agentx_parse_ranges can_alloc pdu data len osz esz nbo)"
  using assms
proof (induction can_alloc pdu data len osz esz nbo rule: agentx_parse_ranges.induct)
  case (1 can_alloc pdu data len osz esz nbo)
  show ?case
  proof (cases "agentx_parse_oid can_alloc data len osz nbo")
    case (Ret r)
    obtain d l z x i where r: "r = (d, l, z, x, i)" by (cases r)
    note first = Ret [unfolded r]
    have p: "l \<le> length d" "length x \<le> 260" using stays_parse_oid [OF 1(2), of osz can_alloc nbo] Ret r by auto
    show ?thesis
    proof (cases "agentx_parse_oid can_alloc d l esz nbo")
      case (Ret r')
      obtain d' l' z' x' i' where r': "r' = (d', l', z', x', i')" by (cases r')
      have p': "l' \<le> length d'" "length x' \<le> 260" "x' \<noteq> []" using stays_parse_oid [OF p(1), of esz can_alloc nbo] Ret r' by auto
      let ?add = "snmp_pdu_add_variable can_alloc pdu x (if i \<noteq> 0 then ASN_PRIV_INCL_RANGE else ASN_PRIV_EXCL_RANGE) (Some (oid_mem x')) (length (oid_mem x'))"
      have add: "stays (\<lambda>pdu. list_all agentx_typed (pdu_variables pdu)) ?add"
        using p p' 1(3) by (intro stays_add_variable) (auto simp: fits_def)
      have "stays (\<lambda>pdu. list_all agentx_typed (pdu_variables pdu)) (cbind ?add (\<lambda>pdu. agentx_parse_ranges can_alloc pdu d' l' z z' nbo))" if "len > 0"
        using 1(1) [OF that first refl refl refl refl Ret [unfolded r'] refl refl refl refl]
        by (intro stays_bind [OF add]) (use p' in auto)
      then show ?thesis using 1(3) Ret r' first
        by (subst agentx_parse_ranges.simps) simp
    qed (use Ret r p stays_parse_oid [OF p(1), of esz can_alloc nbo] 1(3) in \<open>simp_all add: agentx_parse_ranges.simps [of can_alloc pdu data]\<close>)
  qed (use stays_parse_oid [OF 1(2), of osz can_alloc nbo] 1(3) in \<open>simp_all add: agentx_parse_ranges.simps [of can_alloc pdu data]\<close>)
qed

lemma stays_parse_varbinds:
  assumes "len \<le> length data" "64 \<le> dsz" "list_all agentx_typed (pdu_variables pdu)"
  shows "stays (\<lambda>pdu. list_all agentx_typed (pdu_variables pdu)) (agentx_parse_varbinds can_alloc pdu data len osz dsz nbo)"
  using assms
proof (induction can_alloc pdu data len osz dsz nbo rule: agentx_parse_varbinds.induct)
  case (1 can_alloc pdu data len osz dsz nbo)
  show ?case
  proof (cases "agentx_parse_varbind can_alloc data len osz dsz nbo")
    case (Ret r)
    obtain d l z z' x t s where r: "r = (d, l, z, z', x, t, s)" by (cases r)
    have p: "l \<le> length d" "64 \<le> z'" "fits t s" "length x \<le> 260"
      using stays_parse_varbind [OF 1(2,3), of can_alloc osz nbo] Ret r by auto
    let ?add = "snmp_pdu_add_variable can_alloc pdu x t (Some s) (length s)"
    have "stays (\<lambda>pdu. list_all agentx_typed (pdu_variables pdu)) (cbind ?add (\<lambda>pdu. agentx_parse_varbinds can_alloc pdu d l z z' nbo))" if "len > 0"
      using 1(1) [OF that Ret [unfolded r] refl refl refl refl refl refl] p(1,2)
      by (intro stays_bind [OF stays_add_variable [OF p(3,4) 1(4)]]) auto
    then show ?thesis using 1(4) Ret r by (subst agentx_parse_varbinds.simps) simp
  qed (use stays_parse_varbind [OF 1(2,3), of can_alloc osz nbo] 1(4) in \<open>simp_all add: agentx_parse_varbinds.simps [of can_alloc pdu data]\<close>)
qed

lemma stays_parse_header:
  assumes "len \<le> length data"
  shows "stays (\<lambda>(q, d, l). l \<le> length d \<and> pdu_variables q = pdu_variables pdu \<and> pdu_contextName q = pdu_contextName pdu \<and>
           pdu_flags q = pdu_flags pdu OR ucast (data ! 2)) (agentx_parse_header pdu data len)"
proof (cases "len < 20")
  case False
  then have "data \<noteq> []" using assms by auto
  then show ?thesis using False assms unfolding agentx_parse_header_def Let_def by (auto intro!: stays_if)
qed (simp add: agentx_parse_header_def)

lemma stays_parse_context:
  assumes "len \<le> length data" "64 \<le> dsz" "pdu_flags pdu AND NON_DEFAULT_CONTEXT = 0 \<or> (\<forall>n. can_alloc n)"
  shows "stays (\<lambda>(q, d, l, z). l \<le> length d \<and> 64 \<le> z \<and> pdu_variables q = pdu_variables pdu) (agentx_parse_context can_alloc pdu data len dsz nbo)"
proof (cases "pdu_flags pdu AND NON_DEFAULT_CONTEXT = 0")
  case False
  then have "can_alloc n" for n using assms(3) by blast
  then show ?thesis
    using False assms(2) unfolding agentx_parse_context_def Let_def
    by (auto intro!: stays_bind [OF stays_parse_string [OF assms(1)]] stays_if)
qed (use assms in \<open>simp add: agentx_parse_context_def\<close>)

lemma stays_parse_described:
  assumes "len \<le> length data" "list_all agentx_typed (pdu_variables pdu)"
  shows "stays (\<lambda>pdu. list_all agentx_typed (pdu_variables pdu)) (agentx_parse_described can_alloc pdu data len osz dsz nbo)"
  unfolding agentx_parse_described_def
  by (intro stays_bind [OF stays_parse_oid [OF assms(1)]] stays_bind [OF stays_parse_string] | clarsimp)+
     (intro stays_add_variable, use assms(2) in \<open>auto simp: fits_def\<close>)

lemma stays_parse_registration:
  assumes "len \<le> length data" "list_all agentx_typed (pdu_variables pdu)"
  shows "stays (\<lambda>pdu. list_all agentx_typed (pdu_variables pdu)) (agentx_parse_registration can_alloc pdu data len osz esz nbo)"
proof (cases "len < 4")
  case False
  then have "data \<noteq> []" "len - 4 \<le> length (drop 4 data)" using assms(1) by auto
  note steps = stays_parse_oid [OF this(2), of osz can_alloc nbo]
  define q where "q = pdu\<lparr>pdu_time := (if pdu_command pdu = AGENTX_MSG_REGISTER then ucast (data ! 0) else pdu_time pdu),
                           pdu_priority := uint (data ! 1), pdu_range_subid := uint (data ! 2)\<rparr>"
  have q: "list_all agentx_typed (pdu_variables q)" using assms(2) by (simp add: q_def)
  have add: "stays (\<lambda>pdu. list_all agentx_typed (pdu_variables pdu))
      (snmp_pdu_add_variable can_alloc q x ASN_PRIV_INCL_RANGE (Some (oid_mem (x[k := y]))) (8 * length x))"
    if "length x \<le> 260" "x \<noteq> []" for x k y
    using stays_add_variable [of ASN_PRIV_INCL_RANGE "oid_mem (x[k := y])" x q can_alloc] that q by (simp add: fits_def)
  have "agentx_parse_registration can_alloc pdu data len osz esz nbo =
    cbind (agentx_parse_oid can_alloc (drop 4 data) (len - 4) osz nbo) (\<lambda>(d, l, z, x, _).
      if data ! 2 \<noteq> 0 then
        if unat (data ! 2) > length x then Null
        else if l < 4 then Null
        else cbind (agentx_parse_int d nbo) (\<lambda>b.
             cbind (increase_size can_alloc esz (8 * length x)) (\<lambda>z.
             cbind (within (8 * length x) z (x[unat (data ! 2) - 1 := word_of_int b])) (\<lambda>e.
               snmp_pdu_add_variable can_alloc q x ASN_PRIV_INCL_RANGE (Some (oid_mem e)) (8 * length x))))
      else snmp_add_null_var can_alloc q x)"
    using False assms(1) \<open>data \<noteq> []\<close> unfolding agentx_parse_registration_def Let_def q_def by (simp del: One_nat_def)
  also have "stays (\<lambda>pdu. list_all agentx_typed (pdu_variables pdu)) \<dots>"
    by (rule stays_bind [OF steps])
       (auto intro!: stays_if stays_increase_size add stays_add_null q)
  finally show ?thesis .
qed (simp add: agentx_parse_registration_def)

lemma stays_parse_payload:
  assumes "len \<le> length data" "64 \<le> dsz" "list_all agentx_typed (pdu_variables pdu)"
  shows "stays (\<lambda>pdu. list_all agentx_typed (pdu_variables pdu)) (agentx_parse_payload can_alloc pdu data len osz esz dsz nbo)"
proof -
  have [simp]: "data \<noteq> []" if "4 \<le> len" using that assms(1) by auto
  have null: "stays (\<lambda>pdu. list_all agentx_typed (pdu_variables pdu))
      (cbind (agentx_parse_oid can_alloc data len osz nbo) (\<lambda>(_, _, _, name, _). snmp_add_null_var can_alloc pdu name))"
    by (rule stays_bind [OF stays_parse_oid [OF assms(1)]]) (auto intro!: stays_add_null assms(3))
  show ?thesis unfolding agentx_parse_payload_def Let_def agentx_parse_counts_def
    by (intro stays_if null)
       (use assms in \<open>auto intro!: stays_parse_ranges stays_parse_varbinds stays_parse_described stays_parse_registration\<close>)
qed

lemma agentx_parse_result:
  assumes "len \<le> length data" "pdu_variables pdu = []"
    "(pdu_flags pdu OR ucast (data ! 2)) AND NON_DEFAULT_CONTEXT = 0 \<or> (\<forall>n. can_alloc n)"
  shows "stays (\<lambda>res. case res of
        Inl err \<Rightarrow> err \<in> {SNMPERR_BAD_VERSION, SNMPERR_ASN_PARSE_ERR, SNMPERR_UNKNOWN_PDU}
      | Inr pdu' \<Rightarrow> len \<le> 65536 \<and> list_all agentx_typed (pdu_variables pdu')) (agentx_parse can_alloc session_version pdu data len)
    \<and> agentx_parse can_alloc session_version pdu data len \<noteq> Null"
proof (cases "agentx_parse_header pdu data len")
  case (Ret r)
  obtain q d l where r: "r = (q, d, l)" by (cases r)
  define q' where "q' = q\<lparr>pdu_flags := (pdu_flags q OR UCD_MSG_FLAG_ALWAYS_IN_VIEW OR UCD_MSG_FLAG_FORCE_PDU_COPY)
                                 AND NOT UCD_MSG_FLAG_RESPONSE_PDU\<rparr>"
  have h: "l \<le> length d" "pdu_variables q = []" "pdu_flags q = pdu_flags pdu OR ucast (data ! 2)"
    using stays_parse_header [OF assms(1), of pdu] Ret r assms(2) by auto
  have f: "pdu_flags q' AND NON_DEFAULT_CONTEXT = pdu_flags q AND NON_DEFAULT_CONTEXT" and v: "pdu_variables q' = pdu_variables q"
    by (simp_all add: q'_def and.assoc bit.conj_disj_distrib2)
  have c: "stays (\<lambda>(q, d, l, z). l \<le> length d \<and> 64 \<le> z \<and> pdu_variables q = []) (agentx_parse_context can_alloc q' d l 64 (network_order q'))"
    using stays_parse_context [OF h(1), of 64 q' can_alloc "network_order q'"] f v h(2,3) assms(3) by simp
  show ?thesis
  proof (cases "agentx_parse_context can_alloc q' d l 64 (network_order q')")
    case ctx: (Ret r')
    obtain q'' d' l' z where r': "r' = (q'', d', l', z)" by (cases r')
    have p: "stays (\<lambda>pdu. list_all agentx_typed (pdu_variables pdu)) (agentx_parse_payload can_alloc q'' d' l' 256 256 z (network_order q'))"
      using c ctx r' by (intro stays_parse_payload) auto
    show ?thesis
      using p Ret ctx unfolding agentx_parse_def Let_def r r' q'_def by (auto simp: stays_def split: cres.splits)
  qed (use c Ret in \<open>auto simp: agentx_parse_def Let_def r q'_def\<close>)
qed (use stays_parse_header [OF assms(1), of pdu] in \<open>auto simp: agentx_parse_def\<close>)

text \<open>
  C32. Whatever bytes arrive for a PDU without variables, \<open>agentx_parse\<close> and \<open>agentx_check_packet\<close> read nothing behind the \<open>len\<close> bytes of
  the packet and store nothing behind the ends of their buffers, provided that the packet has no context or memory does not run out:
  the copy of the context is used without a check (\<open>agentx_context_unchecked\<close> below). A packet that is accepted has at most 65536
  bytes, and every variable of the PDU has its value in the member of the union that belongs to its type, with the length of that
  value, and a name of at most 260 sub-identifiers; otherwise the result is one of three error codes.
\<close>

theorem agentx_parse_safe:
  assumes "len \<le> length data" "pdu_variables pdu = []"
    "(pdu_flags pdu OR ucast (data ! 2)) AND NON_DEFAULT_CONTEXT = 0 \<or> (\<forall>n. can_alloc n)"
  shows "(\<exists>res. agentx_parse can_alloc session_version pdu data len = Ret res \<and>
     (case res of
        Inl err \<Rightarrow> err \<in> {SNMPERR_BAD_VERSION, SNMPERR_ASN_PARSE_ERR, SNMPERR_UNKNOWN_PDU}
      | Inr pdu' \<Rightarrow> len \<le> 65536 \<and> list_all agentx_typed (pdu_variables pdu')))
    \<and> agentx_check_packet data len \<noteq> Overrun"
proof -
  have "agentx_check_packet data len \<noteq> Overrun" using assms(1) by (auto simp: agentx_check_packet_def)
  then show ?thesis
    using agentx_parse_result [OF assms, of session_version]
    by (cases "agentx_parse can_alloc session_version pdu data len") simp_all
qed

text \<open>The PDU a session hands to the parser, and a GetNext with a context.\<close>

definition fresh_pdu :: agentx_pdu where
  "fresh_pdu = \<lparr>pdu_version = 0, pdu_command = 0, pdu_reqid = 0, pdu_errstat = 0, pdu_errindex = 0, pdu_time = 0, pdu_flags = 0,
     pdu_variables = [], pdu_community = None, pdu_community_len = 0, pdu_enterprise = [], pdu_trap_type = 0, pdu_specific_type = 0,
     pdu_agent_addr = [0, 0, 0, 0], pdu_contextEngineID = None, pdu_contextEngineIDLen = 0, pdu_contextName = None,
     pdu_contextNameLen = 0, pdu_securityModel = 0, pdu_securityLevel = 0, pdu_sessid = 0, pdu_transid = 0, pdu_priority = 0,
     pdu_range_subid = 0\<rparr>"

definition ex_getnext :: bytes where
  "ex_getnext = [1, 6, 8, 0, 7, 0, 0, 0, 1, 0, 0, 0, 2, 0, 0, 0, 24, 0, 0, 0] @ [1, 0, 0, 0, 97, 0, 0, 0] @
     [1, 2, 1, 0, 9, 0, 0, 0] @ [1, 2, 0, 0, 10, 0, 0, 0]"

theorem agentx_parse_safe_witness:
  "\<exists>pdu'. agentx_parse (\<lambda>_. True) 193 fresh_pdu ex_getnext 44 = Ret (Inr pdu') \<and> pdu_contextName pdu' = Some [97] \<and>
     list_all agentx_typed (pdu_variables pdu') \<and>
     pdu_variables pdu' = [\<lparr>vp_name = [1, 3, 6, 1, 2, 9], vp_type = ASN_PRIV_INCL_RANGE, vp_val = Val_objid [1, 3, 6, 1, 2, 10], vp_val_len = 48\<rparr>]"
proof -
  have r: "agentx_parse (\<lambda>_. True) 193 fresh_pdu ex_getnext 44 = Ret (Inr (fresh_pdu\<lparr>pdu_version := 193, pdu_command := 6,
      pdu_flags := 0xC08, pdu_sessid := 7, pdu_transid := 1, pdu_reqid := 2, pdu_community := Some [97], pdu_community_len := 1,
      pdu_contextName := Some [97], pdu_contextNameLen := 1,
      pdu_variables := [\<lparr>vp_name = [1, 3, 6, 1, 2, 9], vp_type = ASN_PRIV_INCL_RANGE, vp_val = Val_objid [1, 3, 6, 1, 2, 10], vp_val_len = 48\<rparr>]\<rparr>))"
    by code_simp
  have "length ex_getnext = 44" "pdu_variables fresh_pdu = []" by (simp_all add: ex_getnext_def fresh_pdu_def)
  then show ?thesis using agentx_parse_safe [of 44 ex_getnext fresh_pdu "\<lambda>_. True" 193] r by simp
qed

text \<open>What the exception looks like: the same packet without memory for the copy of the context.\<close>

lemma agentx_context_unchecked: "agentx_parse (\<lambda>_. False) 193 fresh_pdu ex_getnext 44 = Overrun"
  by code_simp

text \<open>Sub-identifiers, and the halves of a counter, go through an \<open>int\<close>: from \<open>2 ^ 31\<close> on the upper half of the \<open>oid\<close> is filled with the sign.\<close>

lemma agentx_subid_sign_extended:
  "agentx_parse_oid (\<lambda>_. True) [1, 4, 0, 0, 0, 0, 0, 0x80] 8 256 False = Ret ([], 0, 256, [1, 3, 6, 1, 4, 0xFFFFFFFF80000000], 0)"
  by code_simp

end
