(* ===== verification/AgentxWire.thy ===== *)
theory AgentxWire
  imports AgentxSafe
begin

text \<open>
  The packets of AgentX as bytes, which PDUs fit into them, and that the builders append exactly these bytes to their buffer, or fail because it
  cannot grow.
\<close>

section \<open>The format of a packet\<close>

definition wire_int :: "bool \<Rightarrow> u_int \<Rightarrow> bytes" where
  "wire_int nbo w = (if nbo then rev (mem32 w) else mem32 w)"

definition wire_short :: "bool \<Rightarrow> 16 word \<Rightarrow> bytes" where
  "wire_short nbo w = (if nbo then rev (mem16 w) else mem16 w)"

definition wire_subids :: "oid \<Rightarrow> oid" where \<comment> \<open>those that are written one by one\<close>
  "wire_subids name = (if agentx_compact name then drop 5 name else name)"

definition wire_oid :: "bool \<Rightarrow> int \<Rightarrow> oid \<Rightarrow> bytes" where
  "wire_oid nbo inclusive name =
     [word_of_nat (length (wire_subids name)), ucast (if agentx_compact name then name ! 4 else 0),
      word_of_int (if name = [] then 0 else inclusive), 0] @
     concat (map (\<lambda>x. wire_int nbo (ucast x)) (wire_subids name))"

definition wire_string :: "bool \<Rightarrow> bytes \<Rightarrow> bytes" where
  "wire_string nbo str = wire_int nbo (word_of_nat (length str)) @ str @ replicate (4 * ((length str + 3) div 4) - length str) 0"

text \<open>A value, by the member of the union it is in, a variable binding and a search range.\<close>

definition wire_float :: "u_int \<Rightarrow> bytes" where
  "wire_float f = [ASN_OPAQUE_TAG1, ASN_OPAQUE_FLOAT, 4] @ rev (mem32 f)"

definition wire_double :: "u_long \<Rightarrow> bytes" where
  "wire_double d = [ASN_OPAQUE_TAG1, ASN_OPAQUE_DOUBLE, 8] @ rev (mem64 d)"

definition wire_value :: "bool \<Rightarrow> variable_list \<Rightarrow> bytes" where
  "wire_value nbo vp =
     (case vp_val vp of
        Val_none \<Rightarrow> []
      | Val_integer i \<Rightarrow> wire_int nbo (ucast i)
      | Val_string str \<Rightarrow> if vp_type vp \<in> null_types then [] else wire_string nbo str
      | Val_objid x \<Rightarrow> wire_oid nbo 1 x
      | Val_counter64 c \<Rightarrow> if nbo then wire_int nbo (ucast (c64_high c)) @ wire_int nbo (ucast (c64_low c))
                           else wire_int nbo (ucast (c64_low c)) @ wire_int nbo (ucast (c64_high c))
      | Val_float f \<Rightarrow> wire_string nbo (wire_float f)
      | Val_double d \<Rightarrow> wire_string nbo (wire_double d))"

definition wire_varbind :: "bool \<Rightarrow> variable_list \<Rightarrow> bytes" where
  "wire_varbind nbo vp = wire_short nbo (ucast (agentx_wire_type (vp_type vp))) @ [0, 0] @ wire_oid nbo 0 (vp_name vp) @ wire_value nbo vp"

definition objid_of :: "netsnmp_vardata \<Rightarrow> oid" where
  "objid_of v = (case v of Val_objid x \<Rightarrow> x | _ \<Rightarrow> [])"

definition string_of :: "netsnmp_vardata \<Rightarrow> bytes" where
  "string_of v = (case v of Val_string str \<Rightarrow> str | _ \<Rightarrow> [])"

definition wire_range :: "bool \<Rightarrow> variable_list \<Rightarrow> bytes" where
  "wire_range nbo vp = wire_oid nbo (if vp_type vp = ASN_PRIV_INCL_RANGE then 1 else 0) (vp_name vp) @ wire_oid nbo 0 (objid_of (vp_val vp))"

text \<open>The header for a payload of \<open>n\<close> bytes, the context and the payload.\<close>

definition wire_header :: "bool \<Rightarrow> agentx_pdu \<Rightarrow> nat \<Rightarrow> bytes" where
  "wire_header nbo pdu n =
     [1, pdu_command pdu, ucast (pdu_flags pdu AND 0xff), 0] @ wire_int nbo (word_of_int (pdu_sessid pdu)) @
     wire_int nbo (word_of_int (pdu_transid pdu)) @ wire_int nbo (word_of_int (pdu_reqid pdu)) @ wire_int nbo (word_of_nat n)"

definition context_of :: "agentx_pdu \<Rightarrow> bytes" where
  "context_of pdu = (case pdu_community pdu of None \<Rightarrow> [] | Some c \<Rightarrow> c)"

definition wire_context :: "bool \<Rightarrow> agentx_pdu \<Rightarrow> bytes" where
  "wire_context nbo pdu = (if pdu_flags pdu AND NON_DEFAULT_CONTEXT \<noteq> 0 then wire_string nbo (context_of pdu) else [])"

definition wire_described :: "bool \<Rightarrow> variable_list \<Rightarrow> bytes" where
  "wire_described nbo vp = wire_oid nbo 0 (vp_name vp) @ wire_string nbo (string_of (vp_val vp))"

definition wire_counts :: "bool \<Rightarrow> agentx_pdu \<Rightarrow> bytes" where
  "wire_counts nbo pdu = wire_short nbo (word_of_int (pdu_errstat pdu)) @ wire_short nbo (word_of_int (pdu_errindex pdu))"

definition wire_payload :: "bool \<Rightarrow> agentx_pdu \<Rightarrow> bytes" where
  "wire_payload nbo pdu =
     (let c = pdu_command pdu; vp = hd (pdu_variables pdu) in
      if c = AGENTX_MSG_OPEN then [ucast (pdu_time pdu), 0, 0, 0] @ wire_described nbo vp
      else if c = AGENTX_MSG_CLOSE then [word_of_int (pdu_errstat pdu), 0, 0, 0]
      else if c \<in> {AGENTX_MSG_REGISTER, AGENTX_MSG_UNREGISTER} then
        [if c = AGENTX_MSG_REGISTER then ucast (pdu_time pdu) else 0, word_of_int (pdu_priority pdu), word_of_int (pdu_range_subid pdu), 0] @
        wire_oid nbo 0 (vp_name vp) @
        (if pdu_range_subid pdu \<noteq> 0 then wire_int nbo (ucast (objid_of (vp_val vp) ! nat (pdu_range_subid pdu - 1))) else [])
      else if c = AGENTX_MSG_GETBULK then wire_counts nbo pdu @ concat (map (wire_range nbo) (pdu_variables pdu))
      else if c \<in> {AGENTX_MSG_GET, AGENTX_MSG_GETNEXT} then concat (map (wire_range nbo) (pdu_variables pdu))
      else if c = AGENTX_MSG_RESPONSE then
        wire_int nbo (ucast (pdu_time pdu)) @ wire_counts nbo pdu @ concat (map (wire_varbind nbo) (pdu_variables pdu))
      else if c \<in> {AGENTX_MSG_INDEX_ALLOCATE, AGENTX_MSG_INDEX_DEALLOCATE, AGENTX_MSG_NOTIFY, AGENTX_MSG_TESTSET} then
        concat (map (wire_varbind nbo) (pdu_variables pdu))
      else if c = AGENTX_MSG_ADD_AGENT_CAPS then wire_described nbo vp
      else if c = AGENTX_MSG_REMOVE_AGENT_CAPS then wire_oid nbo 0 (vp_name vp)
      else [])"

definition wire_packet :: "agentx_pdu \<Rightarrow> bytes" where
  "wire_packet pdu =
     (let nbo = network_order pdu; body = wire_context nbo pdu @ wire_payload nbo pdu in wire_header nbo pdu (length body) @ body)"

text \<open>
  What can be sent so that the other side can read the same values: identifiers of at most 255 sub-identifiers (without a compact prefix) below \<open>2 ^ 31\<close>, integers of 32 bits, counters with
  halves below \<open>2 ^ 31\<close>, and an Opaque that does not look like a wrapped floating point number.
\<close>

definition sendable_oid :: "oid \<Rightarrow> bool" where
  "sendable_oid x \<longleftrightarrow> x \<noteq> [] \<and> length (wire_subids x) \<le> 255 \<and> (\<forall>y \<in> set x. unat y < 2 ^ 31)"

definition wrapped_float :: "bytes \<Rightarrow> bool" where
  "wrapped_float str \<longleftrightarrow> length str = 7 \<and> take 3 str = [ASN_OPAQUE_TAG1, ASN_OPAQUE_FLOAT, 4] \<or>
                          length str = 11 \<and> take 3 str = [ASN_OPAQUE_TAG1, ASN_OPAQUE_DOUBLE, 8]"

definition sendable_varbind :: "variable_list \<Rightarrow> bool" where
  "sendable_varbind vp \<longleftrightarrow> agentx_typed vp \<and> sendable_oid (vp_name vp) \<and>
     (case vp_val vp of
        Val_integer i \<Rightarrow> if vp_type vp = ASN_INTEGER then - (2 ^ 31) \<le> sint i \<and> sint i < 2 ^ 31 else unat i < 2 ^ 32
      | Val_string str \<Rightarrow> vp_type vp = ASN_OPAQUE \<longrightarrow> \<not> wrapped_float str
      | Val_objid x \<Rightarrow> vp_type vp = ASN_OBJECT_ID \<and> sendable_oid x
      | Val_counter64 c \<Rightarrow> unat (c64_high c) < 2 ^ 31 \<and> unat (c64_low c) < 2 ^ 31
      | _ \<Rightarrow> True)"

definition sendable_range :: "variable_list \<Rightarrow> bool" where
  "sendable_range vp \<longleftrightarrow> sendable_oid (vp_name vp) \<and> vp_type vp \<in> {ASN_PRIV_INCL_RANGE, ASN_PRIV_EXCL_RANGE} \<and>
     (case vp_val vp of Val_objid x \<Rightarrow> sendable_oid x \<and> vp_val_len vp = 8 * length x | _ \<Rightarrow> False)"

definition sendable_described :: "variable_list \<Rightarrow> bool" where
  "sendable_described vp \<longleftrightarrow> sendable_oid (vp_name vp) \<and> vp_type vp = ASN_OCTET_STR \<and>
     (case vp_val vp of Val_string str \<Rightarrow> vp_val_len vp = length str | _ \<Rightarrow> False)"

definition null_variable :: "oid \<Rightarrow> variable_list" where
  "null_variable name = \<lparr>vp_name = name, vp_type = ASN_NULL, vp_val = Val_string [], vp_val_len = 0\<rparr>"

definition sendable_registration :: "int \<Rightarrow> variable_list \<Rightarrow> bool" where
  "sendable_registration range_subid vp \<longleftrightarrow> sendable_oid (vp_name vp) \<and>
     (if range_subid = 0 then vp = null_variable (vp_name vp)
      else range_subid \<le> int (length (vp_name vp)) \<and> vp_type vp = ASN_PRIV_INCL_RANGE \<and> vp_val_len vp = 8 * length (vp_name vp) \<and>
        (case vp_val vp of
           Val_objid x \<Rightarrow> (let i = nat (range_subid - 1) in unat (x ! i) < 2 ^ 31 \<and> x = (vp_name vp)[i := x ! i])
         | _ \<Rightarrow> False))"

definition only_one :: "(variable_list \<Rightarrow> bool) \<Rightarrow> variable_list list \<Rightarrow> bool" where
  "only_one P vs = (case vs of [vp] \<Rightarrow> P vp | _ \<Rightarrow> False)"

definition in_bits :: "nat \<Rightarrow> int \<Rightarrow> bool" where
  "in_bits n i \<longleftrightarrow> 0 \<le> i \<and> i < 2 ^ n"

definition sendable_header :: "agentx_pdu \<Rightarrow> bool" where
  "sendable_header pdu \<longleftrightarrow>
     pdu_command pdu \<in> agentx_commands \<and>
     (\<forall>i \<in> {pdu_sessid pdu, pdu_transid pdu, pdu_reqid pdu}. - (2 ^ 31) \<le> i \<and> i < 2 ^ 31) \<and>
     (pdu_contextName pdu = None \<or> pdu_community pdu \<noteq> None) \<and>
     (if pdu_flags pdu AND NON_DEFAULT_CONTEXT = 0 then True
      else pdu_command pdu \<notin> {AGENTX_MSG_OPEN, AGENTX_MSG_CLOSE, AGENTX_MSG_RESPONSE, AGENTX_MSG_COMMITSET, AGENTX_MSG_UNDOSET,
                               AGENTX_MSG_CLEANUPSET} \<and>
           (case pdu_community pdu of None \<Rightarrow> False | Some str \<Rightarrow> pdu_community_len pdu = length str \<and> 0 \<notin> set str))"

definition sendable_payload :: "agentx_pdu \<Rightarrow> bool" where
  "sendable_payload pdu \<longleftrightarrow>
     (let c = pdu_command pdu; vs = pdu_variables pdu in
      if c = AGENTX_MSG_OPEN then unat (pdu_time pdu) < 256 \<and> only_one sendable_described vs
      else if c = AGENTX_MSG_CLOSE then in_bits 8 (pdu_errstat pdu) \<and> vs = []
      else if c \<in> {AGENTX_MSG_REGISTER, AGENTX_MSG_UNREGISTER} then
        (if c = AGENTX_MSG_REGISTER then unat (pdu_time pdu) < 256 else True) \<and> in_bits 8 (pdu_priority pdu) \<and> in_bits 8 (pdu_range_subid pdu) \<and>
        only_one (sendable_registration (pdu_range_subid pdu)) vs
      else if c = AGENTX_MSG_GETBULK then in_bits 16 (pdu_errstat pdu) \<and> in_bits 16 (pdu_errindex pdu) \<and> list_all sendable_range vs
      else if c \<in> {AGENTX_MSG_GET, AGENTX_MSG_GETNEXT} then list_all sendable_range vs
      else if c = AGENTX_MSG_RESPONSE then
        unat (pdu_time pdu) < 2 ^ 31 \<and> in_bits 16 (pdu_errstat pdu) \<and> in_bits 16 (pdu_errindex pdu) \<and> list_all sendable_varbind vs
      else if c \<in> {AGENTX_MSG_INDEX_ALLOCATE, AGENTX_MSG_INDEX_DEALLOCATE, AGENTX_MSG_NOTIFY, AGENTX_MSG_TESTSET} then list_all sendable_varbind vs
      else if c = AGENTX_MSG_ADD_AGENT_CAPS then only_one sendable_described vs
      else if c = AGENTX_MSG_REMOVE_AGENT_CAPS then only_one (\<lambda>vp. sendable_oid (vp_name vp) \<and> vp = null_variable (vp_name vp)) vs
      else vs = [])"

definition sendable_pdu :: "agentx_pdu \<Rightarrow> bool" where
  "sendable_pdu pdu \<longleftrightarrow> sendable_header pdu \<and> sendable_payload pdu"

section \<open>What the builders append\<close>

text \<open>The abstract view of the buffer is its first \<open>*out_len\<close> bytes. A builder fails only when the buffer cannot grow.\<close>

definition agentx_bytes :: "rbuf \<Rightarrow> bytes" where
  "agentx_bytes s = take (rb_off s) (rb_pkt s)"

definition appends :: "allocator \<Rightarrow> bool \<Rightarrow> rbuf \<Rightarrow> bytes \<Rightarrow> rbuf cres \<Rightarrow> bool" where
  "appends alloc r s bs res =
     (case res of
        Overrun \<Rightarrow> False
      | Null \<Rightarrow> \<not> can_grow alloc r
      | Ret s' \<Rightarrow> rb_wf s' \<and> agentx_bytes s' = agentx_bytes s @ bs \<and> length (rb_pkt s) \<le> length (rb_pkt s'))"

lemma appends_simps [simp]:
  "\<not> appends alloc r s bs Overrun"
  "appends alloc r s bs Null \<longleftrightarrow> \<not> can_grow alloc r"
  "appends alloc r s bs (Ret s') \<longleftrightarrow> rb_wf s' \<and> agentx_bytes s' = agentx_bytes s @ bs \<and> length (rb_pkt s) \<le> length (rb_pkt s')"
  by (simp_all add: appends_def)

lemma appends_bind:
  assumes "appends alloc r s xs m" "bs = xs @ ys"
    and "\<And>s1. m = Ret s1 \<Longrightarrow> rb_wf s1 \<Longrightarrow> agentx_bytes s1 = agentx_bytes s @ xs \<Longrightarrow> length (rb_pkt s) \<le> length (rb_pkt s1) \<Longrightarrow>
           appends alloc r s1 ys (f s1)"
  shows "appends alloc r s bs (cbind m f)"
  using assms by (cases m) (auto simp: appends_def split: cres.splits)

lemma length_agentx_bytes: "rb_wf s \<Longrightarrow> length (agentx_bytes s) = rb_off s"
  by (simp add: rb_wf_def agentx_bytes_def)

lemma rb_off_appended: "rb_wf s \<Longrightarrow> rb_wf s' \<Longrightarrow> agentx_bytes s' = agentx_bytes s @ bs \<Longrightarrow> rb_off s' = rb_off s + length bs"
  by (metis length_agentx_bytes length_append)

lemma agentx_need_appends:
  "rb_wf s \<Longrightarrow> appends alloc r s [] (agentx_need alloc r n s) \<and>
     (\<forall>s'. agentx_need alloc r n s = Ret s' \<longrightarrow> rb_off s' = rb_off s \<and> rb_off s + n < length (rb_pkt s'))"
proof (induction alloc r n s rule: agentx_need.induct)
  case (1 alloc r n s)
  show ?case
  proof (cases "r \<and> rb_off s + n \<ge> length (rb_pkt s)")
    case True
    show ?thesis
    proof (cases "snmp_realloc alloc (rb_pkt s)")
      case None
      then have "\<not> can_grow alloc r" by (auto simp: snmp_realloc_def can_grow_def Let_def split: option.splits)
      then show ?thesis using None True by (simp add: agentx_need.simps [of alloc True n s])
    next
      case (Some pkt)
      then obtain bs where pkt: "pkt = rb_pkt s @ bs" by (auto simp: snmp_realloc_def Let_def split: option.splits)
      have b: "agentx_bytes (s\<lparr>rb_pkt := pkt\<rparr>) = agentx_bytes s" "rb_wf (s\<lparr>rb_pkt := pkt\<rparr>)"
        using 1(2) by (simp_all add: agentx_bytes_def pkt rb_wf_def)
      have "appends alloc r (s\<lparr>rb_pkt := pkt\<rparr>) [] (agentx_need alloc r n (s\<lparr>rb_pkt := pkt\<rparr>)) \<and>
         (\<forall>s'. agentx_need alloc r n (s\<lparr>rb_pkt := pkt\<rparr>) = Ret s' \<longrightarrow> rb_off s' = rb_off s \<and> rb_off s + n < length (rb_pkt s'))"
        using 1(1) [OF _ _ Some b(2)] True by simp
      then show ?thesis
        using Some True b(1) pkt by (simp add: agentx_need.simps [of alloc True n s] appends_def split: cres.splits)
    qed
  qed (use 1(2) in \<open>auto simp: agentx_need.simps [of alloc r n s] can_grow_def\<close>)
qed

lemma agentx_put_appends: "rb_off s + length bs \<le> length (rb_pkt s) \<Longrightarrow> appends alloc r s bs (agentx_put bs s)"
  by (simp add: agentx_put_def rb_wf_def agentx_bytes_def)

lemma need_put_appends:
  assumes "rb_wf s" "length bs \<le> n"
  shows "appends alloc r s bs (cbind (agentx_need alloc r n s) (agentx_put bs))"
  by (rule appends_bind [where xs = "[]"])
     (use agentx_need_appends [OF assms(1), of alloc r n] assms(2) in \<open>auto intro!: agentx_put_appends\<close>)

lemma build_int_appends: "rb_wf s \<Longrightarrow> appends alloc r s (wire_int nbo w) (agentx_realloc_build_int alloc r w nbo s)"
  using need_put_appends [of s "wire_int nbo w" 4]
  by (cases nbo) (simp_all add: agentx_realloc_build_int_def wire_int_def mem32_htonl)

lemma unat_nat_16: "n < 2 ^ 16 \<Longrightarrow> unat (word_of_nat n :: 16 word) = n"
  by (simp only: unat_word_of_nat) simp

lemma mem16_of: "mem16 (int16_of [a, b]) = [a, b]"
proof -
  have "unat (int16_of [a, b]) = unat a + 256 * (unat b + 256 * 0)"
    unfolding int16_of_def le_val.simps using unat_8_le [of a] unat_8_le [of b] by (intro unat_nat_16) simp
  then show ?thesis by (simp only: mem16_def digit_byte)
qed

lemma mem16_htons: "mem16 (htons w) = rev (mem16 w)"
  by (simp only: htons_def) (simp add: mem16_of mem16_def [of w])

lemma int16_of_mem16 [simp]: "int16_of (mem16 w) = w"
proof -
  have "unat w div 256 < 256" using unsigned_less [of w, where ?'a = nat] by (simp add: div_less_iff_less_mult)
  then have "le_val (mem16 w) = unat w"
    by (simp only: mem16_def le_val.simps unat_nat_8 mod_less) simp
  then show ?thesis by (simp add: int16_of_def)
qed

lemma htons_htons [simp]: "htons (htons w) = w" by (simp add: htons_def [of "htons w"] mem16_htons)

lemma build_short_appends: "rb_wf s \<Longrightarrow> appends alloc r s (wire_short nbo w) (agentx_realloc_build_short alloc r w nbo s)"
  using need_put_appends [of s "wire_short nbo w" 2]
  by (cases nbo) (simp_all add: agentx_realloc_build_short_def wire_short_def mem16_htons, simp_all add: mem16_def)

lemma build_subids_appends:
  "rb_wf s \<Longrightarrow> appends alloc r s (concat (map (\<lambda>x. wire_int nbo (ucast x)) xs)) (agentx_build_subids alloc r xs nbo s)"
proof (induction xs arbitrary: s)
  case (Cons x xs)
  show ?case using Cons by (auto intro!: appends_bind [OF build_int_appends])
qed simp

lemma length_wire_int [simp]: "length (wire_int nbo w) = 4" by (simp add: wire_int_def)

lemma build_oid_appends: "rb_wf s \<Longrightarrow> appends alloc r s (wire_oid nbo inclusive name) (agentx_realloc_build_oid alloc r inclusive name nbo s)"
  unfolding agentx_realloc_build_oid_def Let_def wire_oid_def wire_subids_def [symmetric] length_0_conv
  by (rule appends_bind [where xs = "[]"])
     (use agentx_need_appends [of s alloc r "4 + 4 * length (wire_subids name)"]
      in \<open>auto intro!: appends_bind [OF agentx_put_appends] build_subids_appends\<close>)

lemma build_string_appends: 
  assumes "rb_wf s"
  shows "appends alloc r s (wire_string nbo str) (agentx_realloc_build_string alloc r str nbo s)"
proof -
  let ?pad = "replicate (4 * ((length str + 3) div 4) - length str) (0 :: u_char)"
  have pad: "4 * ((length str + 3) div 4) - length str = (if length str mod 4 = 0 then 0 else 4 - length str mod 4)"
    "length str \<le> 4 * ((length str + 3) div 4)"
    by presburger+
  show ?thesis unfolding agentx_realloc_build_string_def Let_def
  proof (rule appends_bind [where xs = "[]" and ys = "wire_string nbo str"])
    fix s1
    assume s1: "agentx_need alloc r (4 + 4 * ((length str + 3) div 4)) s = Ret s1" "rb_wf s1"
    then have room: "rb_off s1 + 4 + 4 * ((length str + 3) div 4) \<le> length (rb_pkt s1)"
      using agentx_need_appends [OF assms, of alloc r "4 + 4 * ((length str + 3) div 4)"] by auto
    show "appends alloc r s1 (wire_string nbo str)
       (cbind (agentx_realloc_build_int alloc r (word_of_nat (length str)) nbo s1) (\<lambda>s.
          if length str = 0 then Ret s
          else cbind (agentx_put str s) (\<lambda>s. if length str mod 4 \<noteq> 0 then agentx_put (replicate (4 - length str mod 4) 0) s else Ret s)))"
    proof (rule appends_bind [OF build_int_appends [OF s1(2)]])
      show "wire_string nbo str = wire_int nbo (word_of_nat (length str)) @ str @ ?pad" by (simp add: wire_string_def)
    next
      fix s2
      assume s2: "rb_wf s2" "agentx_bytes s2 = agentx_bytes s1 @ wire_int nbo (word_of_nat (length str))" "length (rb_pkt s1) \<le> length (rb_pkt s2)"
      then have room2: "rb_off s2 + 4 * ((length str + 3) div 4) \<le> length (rb_pkt s2)"
        using room rb_off_appended [OF s1(2) s2(1,2)] by simp
      show "appends alloc r s2 (str @ ?pad)
        (if length str = 0 then Ret s2
         else cbind (agentx_put str s2) (\<lambda>s. if length str mod 4 \<noteq> 0 then agentx_put (replicate (4 - length str mod 4) 0) s else Ret s))"
      proof (cases "str = []")
        case False
        have "appends alloc r s2 (str @ ?pad) (cbind (agentx_put str s2)
            (\<lambda>s. if length str mod 4 \<noteq> 0 then agentx_put (replicate (4 - length str mod 4) 0) s else Ret s))"
        proof (rule appends_bind [where xs = str and ys = ?pad])
          show "appends alloc r s2 str (agentx_put str s2)" using room2 pad(2) by (intro agentx_put_appends) linarith
        next
          fix s3
          assume s3: "rb_wf s3" "agentx_bytes s3 = agentx_bytes s2 @ str" "length (rb_pkt s2) \<le> length (rb_pkt s3)"
          then show "appends alloc r s3 ?pad (if length str mod 4 \<noteq> 0 then agentx_put (replicate (4 - length str mod 4) 0) s3 else Ret s3)"
            using room2 rb_off_appended [OF s2(1) s3(1,2)] pad by (auto intro!: agentx_put_appends)
        qed simp
        then show ?thesis using False by simp
      qed (use s2 in simp)
    qed
  qed (use agentx_need_appends [OF assms] in auto)
qed

lemma build_value_appends:
  assumes "rb_wf s" "agentx_typed vp"
  shows "appends alloc r s (wire_value nbo vp) (agentx_build_value alloc r (vp_type vp) (vp_val vp) (vp_val_len vp) nbo s)"
proof (cases "vp_val vp")
  case (Val_string str)
  then show ?thesis
    using assms build_string_appends [OF assms(1), of alloc r nbo str]
    by (auto simp: agentx_typed_def agentx_build_value_def wire_value_def as_chars_def asn_copy_def)
next
  case (Val_double d)
  obtain i j where ij: "double_ints d = (i, j)" by (cases "double_ints d")
  show ?thesis
    using Val_double ij assms build_string_appends [OF assms(1), of alloc r nbo "wire_double d"]
    by (simp add: agentx_typed_def agentx_build_value_def wire_value_def as_double_def agentx_realloc_build_double_def wire_double_def mem64_def
        mem32_htonl)
next
  case (Val_counter64 c)
  then show ?thesis
    using assms by (auto simp: agentx_typed_def agentx_build_value_def wire_value_def as_counter64_def
        intro!: appends_bind [OF build_int_appends] build_int_appends)
qed (use assms in \<open>auto simp: agentx_typed_def agentx_build_value_def wire_value_def as_integer_def as_objid_def as_float_def
       agentx_realloc_build_float_def wire_float_def mem32_htonl intro!: build_int_appends build_oid_appends build_string_appends\<close>)

lemma build_varbind_appends:
  assumes "rb_wf s" "agentx_typed vp"
  shows "appends alloc r s (wire_varbind nbo vp) (agentx_realloc_build_varbind alloc r vp nbo s)"
proof -
  have zeros: "appends alloc r s ([0, 0] @ xs) (cbind (agentx_need alloc r 2 s) (\<lambda>s. cbind (agentx_put [0, 0] s) f))"
    if "rb_wf s" "\<And>s. rb_wf s \<Longrightarrow> appends alloc r s xs (f s)" for s xs f
    by (rule appends_bind [where xs = "[]" and ys = "[0, 0] @ xs"])
       (use agentx_need_appends [OF that(1), of alloc r 2] that(2) in \<open>auto intro!: appends_bind [OF agentx_put_appends]\<close>)
  show ?thesis unfolding agentx_realloc_build_varbind_def wire_varbind_def
    by (rule appends_bind [OF build_short_appends [OF assms(1)] refl], rule zeros, assumption,
        rule appends_bind [OF build_oid_appends refl], assumption, rule build_value_appends [OF _ assms(2)])
qed

lemma build_varbinds_appends:
  "rb_wf s \<Longrightarrow> list_all agentx_typed vps \<Longrightarrow> appends alloc r s (concat (map (wire_varbind nbo) vps)) (agentx_build_varbinds alloc r vps nbo s)"
  by (induction vps arbitrary: s) (auto intro!: appends_bind [OF build_varbind_appends])

lemma build_ranges_appends:
  "rb_wf s \<Longrightarrow> list_all sendable_range vps \<Longrightarrow> appends alloc r s (concat (map (wire_range nbo) vps)) (agentx_build_ranges alloc r vps nbo s)"
proof (induction vps arbitrary: s)
  case (Cons vp vps)
  obtain x where x: "vp_val vp = Val_objid x" "vp_val_len vp = 8 * length x"
    using Cons.prems(2) by (auto simp: sendable_range_def split: netsnmp_vardata.splits)
  have "as_objid (vp_val_len vp div 8) (vp_val vp) = Ret x" using x by (simp add: as_objid_def)
  then show ?case
    using Cons x(1) by (auto simp: wire_range_def objid_of_def intro!: appends_bind [OF build_oid_appends])
qed simp

lemma build_context_appends:
  assumes "rb_wf s" "sendable_pdu pdu" "pdu_flags pdu AND NON_DEFAULT_CONTEXT \<noteq> 0"
  shows "appends alloc r s (wire_context nbo pdu) (cbind (agentx_context pdu) (\<lambda>str. agentx_realloc_build_string alloc r str nbo s))"
proof -
  obtain c where c: "pdu_community pdu = Some c" "pdu_community_len pdu = length c"
    using assms(2,3) by (auto simp: sendable_pdu_def sendable_header_def split: option.splits)
  then have "agentx_context pdu = Ret c" by (auto simp: agentx_context_def asn_copy_def)
  then show ?thesis using assms(3) c build_string_appends [OF assms(1)] by (simp add: wire_context_def context_of_def)
qed

lemma build_header_appends:
  assumes "rb_wf s" "sendable_pdu pdu"
  shows "appends alloc r s (wire_header (network_order pdu) pdu 0 @ wire_context (network_order pdu) pdu) (agentx_realloc_build_header alloc r pdu s)"
proof -
  have ctx: "appends alloc r s (wire_context nbo pdu)
      (if pdu_flags pdu AND NON_DEFAULT_CONTEXT \<noteq> 0
       then cbind (agentx_context pdu) (\<lambda>str. agentx_realloc_build_string alloc r str nbo s) else Ret s)" if "rb_wf s" for s nbo
    using build_context_appends [OF that assms(2)] that by (auto simp: wire_context_def)
  have four: "appends alloc r s (bs @ xs) (cbind (agentx_need alloc r 4 s) (\<lambda>s. cbind (agentx_put bs s) f))"
    if "rb_wf s" "length bs = 4" "\<And>s. rb_wf s \<Longrightarrow> appends alloc r s xs (f s)" for s bs xs f
    by (rule appends_bind [where xs = "[]" and ys = "bs @ xs"])
       (use agentx_need_appends [OF that(1), of alloc r 4] that(2,3) in \<open>auto intro!: appends_bind [OF agentx_put_appends]\<close>)
  show ?thesis
    unfolding agentx_realloc_build_header_def wire_header_def Let_def append_assoc
    by (rule four [OF assms(1)], simp) (auto intro!: appends_bind [OF build_int_appends] ctx)
qed

lemma build_quad_appends: "rb_wf s \<Longrightarrow> appends alloc r s [a, b, c, 0] (agentx_build_quad alloc r a b c s)"
  using need_put_appends [of s "[a, b, c, 0]" 4] by (simp add: agentx_build_quad_def)

lemma build_counts_appends: "rb_wf s \<Longrightarrow> appends alloc r s (wire_counts nbo pdu) (agentx_build_counts alloc r pdu nbo s)"
  unfolding agentx_build_counts_def wire_counts_def by (auto intro!: appends_bind [OF build_short_appends] build_short_appends)

lemma build_described_appends:
  assumes "rb_wf s" "only_one sendable_described (pdu_variables pdu)"
  shows "appends alloc r s (wire_described nbo (hd (pdu_variables pdu))) (agentx_build_described alloc r pdu nbo s)"
proof -
  obtain vp where vp: "pdu_variables pdu = [vp]" "sendable_described vp"
    using assms(2) by (auto simp: only_one_def split: list.splits)
  then obtain str where str: "vp_val vp = Val_string str" "vp_val_len vp = length str"
    by (auto simp: sendable_described_def split: netsnmp_vardata.splits)
  then have "as_chars (vp_val_len vp) (vp_val vp) = Ret str" by (auto simp: as_chars_def asn_copy_def)
  then show ?thesis
    using assms(1) vp(1) str unfolding agentx_build_described_def wire_described_def
    by (auto simp: first_variable_def string_of_def intro!: appends_bind [OF build_oid_appends] build_string_appends)
qed

lemma build_registration_appends:
  assumes "rb_wf s" "only_one (sendable_registration (pdu_range_subid pdu)) (pdu_variables pdu)" "0 \<le> pdu_range_subid pdu"
  shows "appends alloc r s
    ([if pdu_command pdu = AGENTX_MSG_REGISTER then ucast (pdu_time pdu) else 0, word_of_int (pdu_priority pdu), word_of_int (pdu_range_subid pdu), 0] @
        wire_oid nbo 0 (vp_name (hd (pdu_variables pdu))) @
        (if pdu_range_subid pdu \<noteq> 0 then wire_int nbo (ucast (objid_of (vp_val (hd (pdu_variables pdu))) ! nat (pdu_range_subid pdu - 1))) else []))
    (agentx_build_registration alloc r pdu nbo s)"
proof -
  obtain vp where vp: "pdu_variables pdu = [vp]" "sendable_registration (pdu_range_subid pdu) vp"
    using assms(2) by (auto simp: only_one_def split: list.splits)
  have at: "objid_at (pdu_range_subid pdu - 1) (vp_val vp) = Ret (objid_of (vp_val vp) ! nat (pdu_range_subid pdu - 1))" if nz: "pdu_range_subid pdu \<noteq> 0"
  proof -
    obtain x where x: "vp_val vp = Val_objid x" "pdu_range_subid pdu \<le> int (length (vp_name vp))"
      "x = (vp_name vp)[nat (pdu_range_subid pdu - 1) := x ! nat (pdu_range_subid pdu - 1)]"
      using vp(2) nz by (auto simp: sendable_registration_def Let_def split: netsnmp_vardata.splits)
    then have "length x = length (vp_name vp)" by (metis length_list_update)
    then show ?thesis using x(1,2) nz assms(3) by (simp add: objid_at_def objid_of_def)
  qed
  show ?thesis
    unfolding agentx_build_registration_def
    by (rule appends_bind [OF build_quad_appends [OF assms(1)] refl])
       (auto simp: vp(1) first_variable_def at intro!: appends_bind [OF build_oid_appends] build_int_appends build_oid_appends)
qed

lemma appends_if:
  "(b \<Longrightarrow> appends alloc r s xs m) \<Longrightarrow> (\<not> b \<Longrightarrow> appends alloc r s ys m') \<Longrightarrow> appends alloc r s (if b then xs else ys) (if b then m else m')"
  by simp

lemma only_one_cases: "only_one P vs \<Longrightarrow> \<exists>vp. vs = [vp] \<and> P vp"
  by (auto simp: only_one_def split: list.splits)

lemma build_payload_appends:
  assumes "rb_wf s" "sendable_pdu pdu"
  shows "appends alloc r s (wire_payload nbo pdu) (agentx_build_payload alloc r pdu nbo s)"
proof -
  have typed: "list_all sendable_varbind vps \<Longrightarrow> list_all agentx_typed vps" for vps
    by (auto simp: list_all_iff sendable_varbind_def)
  show ?thesis
    unfolding agentx_build_payload_def wire_payload_def Let_def
  proof (intro appends_if, goal_cases)
    case 1 then show ?case
      using assms by (auto simp: sendable_pdu_def sendable_payload_def Let_def intro!: appends_bind [OF build_quad_appends] build_described_appends)
  next
    case 2 then show ?case using assms(1) by (auto intro!: build_quad_appends)
  next
    case 3 then show ?case
      using assms by (intro build_registration_appends) (auto simp: sendable_pdu_def sendable_payload_def Let_def in_bits_def)
  next
    case 4 then show ?case
      using assms by (auto simp: sendable_pdu_def sendable_payload_def Let_def intro!: appends_bind [OF build_counts_appends] build_ranges_appends)
  next
    case 5 then show ?case using assms by (intro build_ranges_appends) (auto simp: sendable_pdu_def sendable_payload_def Let_def)
  next
    case 6 then show ?case
      using assms by (auto simp: sendable_pdu_def sendable_payload_def Let_def intro!: appends_bind [OF build_int_appends] appends_bind [OF build_counts_appends] build_varbinds_appends typed)
  next
    case 7 then show ?case using assms by (intro build_varbinds_appends typed) (auto simp: sendable_pdu_def sendable_payload_def Let_def)
  next
    case 8 then show ?case using assms by (intro build_described_appends) (auto simp: sendable_pdu_def sendable_payload_def Let_def)
  next
    case 9 then show ?case
      using assms by (auto simp: sendable_pdu_def sendable_payload_def Let_def first_variable_def intro!: build_oid_appends dest!: only_one_cases)
  qed (use assms(1) in simp)
qed

lemma agentx_prepare_id:
  assumes "sendable_pdu pdu"
  shows "agentx_prepare alloc pdu = pdu"
proof -
  have clear: "f AND NOT NON_DEFAULT_CONTEXT = f" if "f AND NON_DEFAULT_CONTEXT = 0" for f :: u_long
  proof -
    have "f = f AND (NON_DEFAULT_CONTEXT OR NOT NON_DEFAULT_CONTEXT)" by (simp add: bit.disj_cancel_right)
    also have "\<dots> = f AND NOT NON_DEFAULT_CONTEXT" using that by (simp only: bit.conj_disj_distrib) simp
    finally show ?thesis by simp
  qed
  have "(if pdu_command pdu \<in> {AGENTX_MSG_OPEN, AGENTX_MSG_CLOSE, AGENTX_MSG_RESPONSE, AGENTX_MSG_COMMITSET, AGENTX_MSG_UNDOSET, AGENTX_MSG_CLEANUPSET}
      then pdu\<lparr>pdu_flags := pdu_flags pdu AND NOT NON_DEFAULT_CONTEXT\<rparr> else pdu) = pdu"
  proof (cases "pdu_flags pdu AND NON_DEFAULT_CONTEXT = 0")
    case True
    have "pdu\<lparr>pdu_flags := pdu_flags pdu AND NOT NON_DEFAULT_CONTEXT\<rparr> = pdu" unfolding clear [OF True] by simp
    then show ?thesis by (simp only: if_cancel)
  next
    case False
    then have "pdu_command pdu \<notin> {AGENTX_MSG_OPEN, AGENTX_MSG_CLOSE, AGENTX_MSG_RESPONSE, AGENTX_MSG_COMMITSET, AGENTX_MSG_UNDOSET, AGENTX_MSG_CLEANUPSET}"
      using assms unfolding sendable_pdu_def sendable_header_def if_not_P [OF False] by blast
    then show ?thesis by (rule if_not_P)
  qed
  moreover have "pdu_contextName pdu = None \<or> pdu_community pdu \<noteq> None" using assms unfolding sendable_pdu_def sendable_header_def by blast
  ultimately show ?thesis unfolding agentx_prepare_def Let_def by (auto split: option.split)
qed

text \<open>
  The whole packet, when the buffer can grow: \<open>agentx_realloc_build\<close> produces exactly \<open>wire_packet\<close> (the zero length in the header is
  overwritten at the end).
\<close>

theorem agentx_build_exact:
  assumes "rb_off s = 0" "sendable_pdu pdu" "can_grow alloc True"
  shows "\<exists>s'. agentx_realloc_build alloc pdu s = Ret (Inr (s', agentx_expect pdu)) \<and> agentx_bytes s' = wire_packet pdu"
proof -
  let ?nbo = "network_order pdu"
  let ?body = "wire_context ?nbo pdu @ wire_payload ?nbo pdu"
  have wf: "rb_wf s" "agentx_bytes s = []" using assms(1) by (simp_all add: rb_wf_def agentx_bytes_def)
  have "appends alloc True s (wire_header ?nbo pdu 0 @ ?body)
      (cbind (agentx_realloc_build_header alloc True pdu s) (agentx_build_payload alloc True pdu ?nbo))"
    by (rule appends_bind [OF build_header_appends [OF wf(1) assms(2)]]) (simp, erule build_payload_appends [OF _ assms(2)])
  then obtain s1 s2 where s: "agentx_realloc_build_header alloc True pdu s = Ret s1" "agentx_build_payload alloc True pdu ?nbo s1 = Ret s2"
    "rb_wf s2" "agentx_bytes s2 = wire_header ?nbo pdu 0 @ ?body"
    using assms(3) wf(2) by (auto simp: appends_def cbind_eq_Ret split: cres.splits)
  let ?n = "length ?body"
  have off: "rb_off s2 = 20 + ?n" using length_agentx_bytes [OF s(3)] s(4) by (simp add: wire_header_def)
  then have room: "20 + ?n \<le> length (rb_pkt s2)" using s(3) by (simp add: rb_wf_def)
  define s3 where "s3 = s2\<lparr>rb_pkt := take 16 (rb_pkt s2) @ wire_int ?nbo (word_of_nat ?n) @ drop 20 (rb_pkt s2)\<rparr>"
  have "agentx_build_int 16 (word_of_nat (rb_off s2 - rb_off s - 20)) ?nbo s2 = Ret s3"
    using room off assms(1) by (simp add: agentx_build_int_def s3_def wire_int_def mem32_htonl)
  moreover have "pdu_command pdu \<in> agentx_commands" using assms(2) by (simp add: sendable_pdu_def sendable_header_def)
  ultimately have "agentx_realloc_build alloc pdu s = Ret (Inr (s3, agentx_expect pdu))"
    using s(1,2) by (simp add: agentx_realloc_build_def agentx_realloc_build_pdu_def Let_def agentx_prepare_id [OF assms(2)])
  moreover have "agentx_bytes s3 = wire_packet pdu"
  proof -
    have "take 16 (rb_pkt s2) = take 16 (agentx_bytes s2)" "take ?n (drop 20 (rb_pkt s2)) = drop 20 (agentx_bytes s2)"
      unfolding agentx_bytes_def off by (simp_all only: take_take drop_take) simp_all
    moreover have "take 16 (agentx_bytes s2) = take 16 (wire_header ?nbo pdu 0)" "drop 20 (agentx_bytes s2) = ?body"
      unfolding s(4) by (simp_all add: wire_header_def)
    moreover have "wire_header ?nbo pdu ?n = take 16 (wire_header ?nbo pdu 0) @ wire_int ?nbo (word_of_nat ?n)" by (simp add: wire_header_def)
    moreover have "agentx_bytes s3 = take 16 (rb_pkt s2) @ wire_int ?nbo (word_of_nat ?n) @ take ?n (drop 20 (rb_pkt s2))"
      using room off by (simp add: agentx_bytes_def s3_def)
    ultimately show ?thesis by (simp only: wire_packet_def Let_def append_assoc)
  qed
  ultimately show ?thesis by blast
qed

end
