(* ===== verification/Spec2Isabelle.thy ===== *)
theory Spec2Isabelle
  imports RegistrySpec AsnSafe AsnRoundtrip PduMessages UsmOut AsnRbuild AccessSpec AgentReplySpec AgentQueue Containers AgentxWire
begin

text \<open>
  A model of the protocol core of Net-SNMP and what makes it correct.

  \<^bold>\<open>The program.\<close> A request reaches the agent as BER octets. The library decodes them
  (\<^verbatim>\<open>snmplib/asn1.c\<close>), the user-based security model authenticates and decrypts an SNMPv3 message
  (\<^verbatim>\<open>snmplib/snmpusm.c\<close>, with the clocks of other engines in \<^verbatim>\<open>snmplib/lcd_time.c\<close>), and the agent (\<^verbatim>\<open>agent/snmp_agent.c\<close>) checks the access of the sender against the tables
  of \<^verbatim>\<open>snmplib/vacm.c\<close>, hands each variable binding to the handlers of the subtree it falls into
  (\<^verbatim>\<open>agent/agent_handler.c\<close>), in one pass for a GET and in phases for a SET, and sends the collected answers back
  through the encoders. Object identifiers and their order (\<^verbatim>\<open>snmplib/snmp_api.c\<close>) are what all these parts
  share.

  \<^bold>\<open>The theories.\<close>
  \<^item> \<open>Prelude\<close>: machine types of LP64, the result type of fallible C functions, facts on words and byte lists.
  \<^item> \<open>Int64\<close>: \<^verbatim>\<open>snmplib/int64.c\<close>, 64-bit counters in two halves.
  \<^item> \<open>AsnParse\<close> (decoders), \<open>AsnBuild\<close> (forward encoders), \<open>AsnRbuild\<close> (reverse encoders in a growing buffer):
    \<^verbatim>\<open>snmplib/asn1.c\<close>. \<open>AsnSafe\<close> (and \<open>AsnFloat\<close>) shows that the decoders read nothing outside their buffer, with one
    exception at the bit strings, and that, for the encodings not wrapped in an Opaque, the position and the
    remaining length advance together; \<open>AsnRoundtrip\<close> that decoding undoes encoding, type by type, through the
    locale \<open>tlv_codec\<close>; \<open>AsnRbuild\<close> that the reverse encoders put the bytes of the forward ones in front of
    the packet (locale \<open>rbuild_codec\<close>). \<open>AsnFloat\<close>: the floating point types, wrapped in an Opaque.
  \<^item> \<open>Pdu\<close>: variable bindings (\<^verbatim>\<open>snmplib/snmp.c\<close>), PDUs, traps and SNMPv1 and v2c messages
    (\<^verbatim>\<open>snmplib/snmp_api.c\<close>, \<^verbatim>\<open>snmplib/snmp_auth.c\<close>), parsed and encoded in both directions. \<open>PduSafe\<close> shows
    that the parsers read nothing outside the buffer when one readable byte follows the message, whatever its bytes are,
    and that each parsed value is of the length its type needs; \<open>PduOrder\<close> that the reverse encoder takes the variables from the last to the first;
    \<open>PduRoundtrip\<close> that values, and \<open>PduMessages\<close> that whole messages, are parsed back as they were encoded, the
    latter over a reference encoding by type, length and contents.
  \<^item> \<open>Oids\<close>: the comparisons of \<^verbatim>\<open>snmplib/snmp_api.c\<close>, which decide the lexicographic order and the prefix
    relation (locale \<open>oid_order\<close>).
  \<^item> \<open>Vacm\<close>: \<^verbatim>\<open>snmplib/vacm.c\<close>, three sorted lists of views, groups and access entries. \<open>VacmSpec\<close> shows the
    order of the lists under creation and removal (locale \<open>ordered_table\<close>, interpreted for each list), the
    best match of a view, and that the answer for a whole subtree is sound for every OID below it.
  \<^item> \<open>Access\<close>: the access check of the agent on top of these tables (\<^verbatim>\<open>mibII/vacm_conf.c\<close>,
    \<^verbatim>\<open>agent_registry.c\<close>, \<open>check_acm\<close> of \<^verbatim>\<open>snmp_agent.c\<close>, the \<^verbatim>\<open>com2sec\<close> lists of the transports). \<open>AccessSpec\<close>
    shows what it decides, step by step (the entry taken among several that allow a request is that of the code, not always
    that of RFC 3415), that no value outside the view is left in an answer, and
    that a subtree passed over holds nothing that is in view.
  \<^item> \<open>Registry\<close>: the subtrees of \<^verbatim>\<open>agent/agent_registry.c\<close>, a list of ranges of OIDs with the registrations that cover
    each, its lookup cache, and registering, splitting and unregistering. \<open>RegistrySearch\<close> has the invariant of the
    list and shows that the cache and the shortcut in the comparisons do not change what is found; \<open>RegistryLoad\<close> that
    splitting, loading and taking out keep the invariant; \<open>RegistrySpec\<close> that in any run (an inductive relation) the
    registration with the longest name that is a prefix of an OID answers for it.
  \<^item> \<open>BinArray\<close>: \<^verbatim>\<open>container_binary_array.c\<close> and the comparisons and chains of \<^verbatim>\<open>container.c\<close>. \<open>BinArraySpec\<close>
    proves the operations once for every comparison that is a total preorder (locale \<open>ba_order\<close>); \<open>Containers\<close>
    interprets it for the comparisons of the library and states what a container promises: it is a map, a walk
    visits everything in order, a subset search misses nothing, an insertion into several indexes is atomic.
  \<^item> \<open>Agent\<close>: the handler chain and the phases of a SET. \<open>AgentSet\<close> shows the order of the phases in every run,
    as an inductive relation with the write of the status for delegated requests, and which error is reported.
  \<^item> \<open>AgentReply\<close>: GETBULK, GETNEXT results and the translation for SNMPv1; \<open>AgentReplySpec\<close> what the answers
    satisfy.
  \<^item> \<open>AgentQueue\<close>: the scheduling of requests around a SET and when sessions close, as a step relation with its invariant.
  \<^item> \<open>LcdTime\<close>: \<^verbatim>\<open>snmplib/lcd_time.c\<close>, the hash table with the boots and times of other engines, an
    instance of the locale \<open>keyed_store\<close> of the prelude. \<open>UsmUsers\<close>: the ordered user list of
    \<^verbatim>\<open>snmplib/snmpusm.c\<close>, another instance. \<open>Usm\<close>: the parameters, the time window and the checks of an
    incoming message, the salts and the predicted offsets of an outgoing one. \<open>UsmSpec\<close> shows what an accepted
    message has passed, that the recorded clocks never go back in any run (an inductive relation) and that no byte
    outside the message is touched; \<open>UsmOut\<close> that salts do not repeat and that the predicted offsets are those of
    the encoded message.
  \<^item> \<open>Agentx\<close>: the codec of \<^verbatim>\<open>agent/mibgroup/agentx/protocol.c\<close> between a master agent and its subagents.
    \<open>AgentxSafe\<close> shows that the parser stays inside the packet and its buffers and that the variables it makes are typed;
    \<open>AgentxWire\<close> that the builder produces exactly the packet that a reference format describes.

  \<^bold>\<open>Bounds.\<close> The walk over a container runs on fuel, and one
  unit more than there are elements is shown to be enough; no other definition does. Loops are structural recursions, functions with a measure (the bytes
  left, the distance to the end of a list), or, for the phases of a SET, for loading a subtree and for unregistering a range, a \<open>partial_function\<close> whose return is a
  property of its own. Where C would overflow an \<open>int\<close> or a \<open>size_t\<close>, the hypothesis is that the message or the
  packet is shorter than 2^31 bytes; machine words are kept at their width everywhere else. A read or write outside
  an object is the value \<open>Overrun\<close> of the result type and a returned null pointer \<open>Null\<close>, so that memory safety
  is the statement that \<open>Overrun\<close> is not the result.

  \<^bold>\<open>Parameters.\<close> \<open>qsort\<close> of the C library, with the contract that it sorts, and whether an allocation succeeds. Digests and ciphers come from a cryptography library; the handlers of MIB modules are supplied
  from outside the modelled files. They are arguments of the definitions, and the properties hold for all of them.

  \<^bold>\<open>Not modelled.\<close> The transports and the main loop of the agent (I/O); the parser of MIB files and the printing of
  values (\<^verbatim>\<open>parse.c\<close>, \<^verbatim>\<open>mib.c\<close>); configuration files and logging; the assembly of outgoing SNMPv3 messages, beyond salts and offsets; the MIB modules under
  \<^verbatim>\<open>agent/mibgroup\<close>, which read the operating system, and the master and subagent modules above the AgentX codec; the command line tools and the Perl and Python bindings.
\<close>

end
